(* ===== verification/Prelude.thy ===== *)
theory Prelude
  imports Main "HOL-Library.Word"
begin

unbundle bit_operations_syntax

text \<open>
  Shared material of the development.

  The C programs of the repository are sequences of statements over global variables.  A
  statement is a \<^emph>\<open>command\<close>: a function from the state to an \<^emph>\<open>outcome\<close>.  The outcome says how
  the statement ended: normally (\<open>Next\<close>), through \<^verbatim>\<open>exit(n)\<close> (\<open>Exited n\<close>), because a
  \<^verbatim>\<open>klee_assume\<close> was called with a false argument (\<open>Assume_failed\<close>), because the C standard
  gives the execution no meaning (\<open>Undefined\<close>, for instance a store past the end of an array),
  or because the bound on the number of recursive calls was used up (\<open>Out_of_fuel\<close>).  Every
  outcome carries the state it was reached in.

  Below the commands come a small Hoare calculus (\<open>triple\<close>), whose triples also promise that the
  command ends normally or through \<^verbatim>\<open>exit\<close>, and the generic lemmas on words and lists that
  several components use.
\<close>

section \<open>Names for the machine types\<close>

type_synonym u8 = "8 word"
type_synonym u16 = "16 word"
type_synonym u32 = "32 word"
type_synonym u64 = "64 word"

named_theorems cmd_simps \<open>evaluation of commands\<close>
named_theorems triple_rules \<open>introduction rules of the Hoare calculus\<close>

section \<open>Commands\<close>

datatype 's outcome =
    Next (final: 's)
  | Exited int (final: 's)
  | Assume_failed (final: 's)
  | Undefined (final: 's)
  | Out_of_fuel (final: 's)

type_synonym 's cmd = "'s \<Rightarrow> 's outcome"

text \<open>A block runs its statements in order and stops at the first that does not end normally.\<close>

fun block :: "'s cmd list \<Rightarrow> 's cmd" where
  "block [] s = Next s"
| "block (c # cs) s = (case c s of Next s' \<Rightarrow> block cs s' | r \<Rightarrow> r)"

definition modify :: "('s \<Rightarrow> 's) \<Rightarrow> 's cmd" where
  "modify f s = Next (f s)"

definition cond :: "('s \<Rightarrow> bool) \<Rightarrow> 's cmd \<Rightarrow> 's cmd \<Rightarrow> 's cmd" where
  "cond b c d s = (if b s then c s else d s)"

definition skip :: "'s cmd" where
  "skip s = Next s"

definition exit_with :: "int \<Rightarrow> 's cmd" where
  "exit_with n s = Exited n s"

definition undefined_behaviour :: "'s cmd" where
  "undefined_behaviour s = Undefined s"

definition out_of_fuel :: "'s cmd" where
  "out_of_fuel s = Out_of_fuel s"

lemmas cmd_basic [cmd_simps] =
  block.simps modify_def cond_def skip_def exit_with_def undefined_behaviour_def out_of_fuel_def

lemma block_append:
  "block (cs @ ds) s = (case block cs s of Next s' \<Rightarrow> block ds s' | r \<Rightarrow> r)"
  by (induction cs arbitrary: s) (simp_all split: outcome.split)

lemma block_single [cmd_simps]: "block [c] = c"
  by (rule ext) (simp split: outcome.split)

lemma block_Next: "c s = Next t \<Longrightarrow> block (c # cs) s = block cs t"
  by simp

lemma block_stop: "\<not> is_Next (c s) \<Longrightarrow> block (c # cs) s = c s"
  by (cases "c s") simp_all

section \<open>Hoare triples\<close>

text \<open>
  \<open>triple P c Q R\<close>: from a state that satisfies \<open>P\<close> the command ends normally in a state that
  satisfies \<open>Q\<close>, or exits with a code and a state that satisfy \<open>R\<close>.  It neither reaches undefined
  behaviour nor runs out of fuel nor fails an assumption.
\<close>

definition triple ::
  "('s \<Rightarrow> bool) \<Rightarrow> 's cmd \<Rightarrow> ('s \<Rightarrow> bool) \<Rightarrow> (int \<Rightarrow> 's \<Rightarrow> bool) \<Rightarrow> bool" where
  "triple P c Q R \<longleftrightarrow>
     (\<forall>s. P s \<longrightarrow> (case c s of Next t \<Rightarrow> Q t | Exited n t \<Rightarrow> R n t | _ \<Rightarrow> False))"

lemma tripleD:
  "triple P c Q R \<Longrightarrow> P s \<Longrightarrow>
     (\<exists>t. c s = Next t \<and> Q t) \<or> (\<exists>n t. c s = Exited n t \<and> R n t)"
  by (cases "c s") (auto simp: triple_def dest!: spec [of _ s])

lemma triple_block_Nil [triple_rules]: "triple P (block []) P R"
  by (simp add: triple_def)

lemma triple_block_Cons:
  assumes "triple P c M R" and "triple M (block cs) Q R"
  shows "triple P (block (c # cs)) Q R"
  using assms by (fastforce simp: triple_def split: outcome.splits)

lemma triple_block_append:
  assumes "triple P (block cs) M R" and "triple M (block ds) Q R"
  shows "triple P (block (cs @ ds)) Q R"
  using assms by (fastforce simp: triple_def block_append split: outcome.splits)

lemma triple_cond:
  assumes "triple (\<lambda>s. P s \<and> b s) c Q R" and "triple (\<lambda>s. P s \<and> \<not> b s) d Q R"
  shows "triple P (cond b c d) Q R"
  using assms by (auto simp: triple_def cond_def)

lemma triple_modify: "(\<And>s. P s \<Longrightarrow> Q (f s)) \<Longrightarrow> triple P (modify f) Q R"
  by (simp add: triple_def modify_def)

lemma triple_skip: "(\<And>s. P s \<Longrightarrow> Q s) \<Longrightarrow> triple P skip Q R"
  by (simp add: triple_def skip_def)

lemma triple_conseq:
  assumes "triple P c Q R" and "\<And>s. P' s \<Longrightarrow> P s" and "\<And>s. Q s \<Longrightarrow> Q' s"
    and "\<And>n s. R n s \<Longrightarrow> R' n s"
  shows "triple P' c Q' R'"
  using assms by (fastforce simp: triple_def split: outcome.splits)

lemma triple_block_inv:
  "triple P c P R \<Longrightarrow> triple P (block cs) P R \<Longrightarrow> triple P (block (c # cs)) P R"
  by (rule triple_block_Cons)

lemma triple_cond_inv:
  "triple P c Q R \<Longrightarrow> triple P d Q R \<Longrightarrow> triple P (cond b c d) Q R"
  by (simp add: triple_def cond_def)

lemma triple_pre: "triple P c Q R \<Longrightarrow> (\<And>s. P' s \<Longrightarrow> P s) \<Longrightarrow> triple P' c Q R"
  by (rule triple_conseq)

end
