(* ===== verification/Klee.thy ===== *)
theory Klee
  imports Prelude
begin

text \<open>
  The interface of the symbolic executor that the C translations of the P4 programs are written
  against (\<^verbatim>\<open>klee_make_symbolic\<close>, \<^verbatim>\<open>klee_assume\<close>, \<^verbatim>\<open>klee_print_once\<close>).  KLEE itself is not part
  of the repository.  What a symbolic object holds is therefore a parameter: an input stream gives the
  64-bit value of the n-th scalar object a run makes symbolic (a narrower object holds its low
  bits), and every theorem about a program is stated for all input streams.  A call of
  \<^verbatim>\<open>klee_assume\<close> with a false argument ends the run as \<open>Assume_failed\<close>; printing is recorded as a
  list of reports.

  The two state components the interface needs are the root of an extensible record, which each
  program extends by its own global variables.

  \<open>causal\<close> says that a command looks at the input stream only at the positions it consumes; it is what
  makes it possible to compare a program with one of its copies that makes fewer objects symbolic.
\<close>

datatype report = Print_once nat string | Printf string

record klee_state =
  nsym :: nat
  reports :: "report list"

type_synonym inputs = "nat \<Rightarrow> u64"

definition klee_make_symbolic ::
  "inputs \<Rightarrow> (u64 \<Rightarrow> 'a klee_state_scheme \<Rightarrow> 'a klee_state_scheme) \<Rightarrow> 'a klee_state_scheme cmd" where
  "klee_make_symbolic w upd s = Next (upd (w (nsym s)) (s\<lparr>nsym := Suc (nsym s)\<rparr>))"

definition klee_assume :: "('s \<Rightarrow> bool) \<Rightarrow> 's cmd" where
  "klee_assume b s = (if b s then Next s else Assume_failed s)"

definition report_if :: "('a klee_state_scheme \<Rightarrow> bool) \<Rightarrow> report \<Rightarrow> 'a klee_state_scheme cmd" where
  "report_if b r s = Next (if b s then s\<lparr>reports := reports s @ [r]\<rparr> else s)"

lemmas klee_simps [cmd_simps] = klee_make_symbolic_def klee_assume_def report_if_def

lemma triple_symbolic:
  "(\<And>s v. P s \<Longrightarrow> Q (upd v (s\<lparr>nsym := Suc (nsym s)\<rparr>))) \<Longrightarrow> triple P (klee_make_symbolic w upd) Q R"
  by (simp add: triple_def klee_make_symbolic_def)

lemma triple_report_if:
  "(\<And>s. P s \<Longrightarrow> Q (if b s then s\<lparr>reports := reports s @ [r]\<rparr> else s)) \<Longrightarrow>
     triple P (report_if b r) Q R"
  by (simp add: triple_def report_if_def)

section \<open>Commands that read the inputs in order\<close>

definition agree :: "nat \<Rightarrow> nat \<Rightarrow> inputs \<Rightarrow> inputs \<Rightarrow> bool" where
  "agree m n w w' \<longleftrightarrow> (\<forall>i. m \<le> i \<and> i < n \<longrightarrow> w i = w' i)"

definition causal :: "(inputs \<Rightarrow> 'a klee_state_scheme cmd) \<Rightarrow> bool" where
  "causal c \<longleftrightarrow>
     (\<forall>w s. nsym s \<le> nsym (final (c w s)) \<and>
        (\<forall>w'. agree (nsym s) (nsym (final (c w s))) w w' \<longrightarrow> c w' s = c w s))"

named_theorems causal_rules \<open>closure of causal commands under the program constructs\<close>

lemma causal_mono: "causal c \<Longrightarrow> nsym s \<le> nsym (final (c w s))"
  by (simp add: causal_def)

lemma causalD:
  "causal c \<Longrightarrow> agree (nsym s) (nsym (final (c w s))) w w' \<Longrightarrow> c w' s = c w s"
  by (simp add: causal_def)

lemma agree_le: "agree m n w w' \<Longrightarrow> m \<le> m' \<Longrightarrow> n' \<le> n \<Longrightarrow> agree m' n' w w'"
  by (simp add: agree_def)

lemma causal_const:
  "(\<And>s. nsym s \<le> nsym (final (c s))) \<Longrightarrow> causal (\<lambda>_. c)"
  by (simp add: causal_def)

lemma causal_modify [causal_rules]: "(\<And>s. nsym (f s) = nsym s) \<Longrightarrow> causal (\<lambda>_. modify f)"
  by (rule causal_const) (simp add: modify_def)

lemma causal_skip [causal_rules]: "causal (\<lambda>_. skip)"
  by (rule causal_const) (simp add: skip_def)

lemma causal_exit [causal_rules]: "causal (\<lambda>_. exit_with n)"
  by (rule causal_const) (simp add: exit_with_def)

lemma causal_assume [causal_rules]: "causal (\<lambda>_. klee_assume b)"
  by (rule causal_const) (simp add: klee_assume_def)

lemma causal_report [causal_rules]: "causal (\<lambda>_. report_if b r)"
  by (rule causal_const) (simp add: report_if_def)

lemma causal_symbolic [causal_rules]:
  "(\<And>v s. nsym (upd v s) = nsym s) \<Longrightarrow> causal (\<lambda>w. klee_make_symbolic w upd)"
  by (auto simp: causal_def klee_make_symbolic_def agree_def)

lemma causal_cond [causal_rules]:
  "causal c \<Longrightarrow> causal d \<Longrightarrow> causal (\<lambda>w. cond b (c w) (d w))"
  by (simp add: causal_def cond_def)

lemma causal_if [causal_rules]:
  "causal c \<Longrightarrow> causal d \<Longrightarrow> causal (\<lambda>w. if b then c w else d w)"
  by (cases b) simp_all

lemma causal_undefined [causal_rules]: "causal (\<lambda>_. undefined_behaviour)"
  by (rule causal_const) (simp add: undefined_behaviour_def)

lemma causal_block_Nil [causal_rules]: "causal (\<lambda>_. block [])"
  by (rule causal_const) simp

lemma causal_block_Cons [causal_rules]:
  assumes c: "causal c" and cs: "causal (\<lambda>w. block (cs w))"
  shows "causal (\<lambda>w. block (c w # cs w))"
  unfolding causal_def
proof (intro allI conjI impI)
  fix w s
  have mono: "nsym s \<le> nsym (final (c w s))"
    using c by (rule causal_mono)
  show "nsym s \<le> nsym (final (block (c w # cs w) s))"
    using mono by (cases "c w s") (auto intro: order_trans causal_mono [OF cs])
  fix w'
  assume ag: "agree (nsym s) (nsym (final (block (c w # cs w) s))) w w'"
  show "block (c w' # cs w') s = block (c w # cs w) s"
  proof (cases "c w s")
    case (Next t)
    have t: "nsym t \<le> nsym (final (block (cs w) t))"
      using cs by (rule causal_mono)
    have "agree (nsym s) (nsym (final (c w s))) w w'"
      using ag Next t by (auto intro: agree_le)
    then have "c w' s = Next t"
      using causalD [OF c] Next by metis
    moreover have "agree (nsym t) (nsym (final (block (cs w) t))) w w'"
      using ag Next mono by (auto intro: agree_le)
    then have "block (cs w') t = block (cs w) t"
      using causalD [OF cs] by metis
    ultimately show ?thesis
      using Next by simp
  qed (use ag causalD [OF c, of s w w'] in auto)
qed

text \<open>Removing one unread position of an input stream.\<close>

definition skip_at :: "nat \<Rightarrow> inputs \<Rightarrow> inputs" where
  "skip_at n w i = (if i < n then w i else w (Suc i))"

definition insert_at :: "nat \<Rightarrow> u64 \<Rightarrow> inputs \<Rightarrow> inputs" where
  "insert_at n v w i = (if i < n then w i else if i = n then v else w (i - 1))"

lemma agree_skip_at: "agree m n w (skip_at n w)"
  by (simp add: agree_def skip_at_def)

lemma agree_insert_at: "agree m n w (insert_at n v w)"
  by (simp add: agree_def insert_at_def)

lemma insert_at_here [simp]: "insert_at n v w n = v"
  by (simp add: insert_at_def)

lemma insert_at_later [simp]: "n \<le> i \<Longrightarrow> insert_at n v w (Suc i) = w i"
  by (simp add: insert_at_def)

lemma skip_at_here [simp]: "n \<le> i \<Longrightarrow> skip_at n w i = w (Suc i)"
  by (simp add: skip_at_def)

end
