(* ===== verification/Dapper_State.thy ===== *)
theory Dapper_State
  imports Klee
begin

text \<open>
  The global state of the C translation of the Dapper P4 program (\<^verbatim>\<open>src/dapper/dapper.c\<close>): one
  record per \<^verbatim>\<open>typedef struct\<close>, with every bit-field a word of its width, and a record of the
  global variables that extends the state of the KLEE interface.

  The field names carry the short name of their struct, since record fields share one name space.
  C \<^verbatim>\<open>int\<close> variables that only ever hold the result of a comparison or the literals 0 and 1 are
  \<open>bool\<close>.
\<close>

section \<open>Structs\<close>

record standard_metadata_t =
  std_ingress_port :: "9 word"
  std_egress_spec :: "9 word"
  std_egress_port :: "9 word"
  std_clone_spec :: "32 word"
  std_instance_type :: "32 word"
  std_drop :: "1 word"
  std_recirculate_port :: "16 word"
  std_packet_length :: "32 word"
  std_enq_timestamp :: "32 word"
  std_enq_qdepth :: "19 word"
  std_deq_timedelta :: "32 word"
  std_deq_qdepth :: "19 word"
  std_ingress_global_timestamp :: "48 word"
  std_lf_field_list :: "32 word"
  std_mcast_grp :: "16 word"
  std_resubmit_flag :: "1 word"
  std_egress_rid :: "16 word"
  std_checksum_error :: "1 word"

record intrinsic_metadata_t =
  im_ingress_global_timestamp :: "48 word"
  im_lf_field_list :: "32 word"
  im_mcast_grp :: "16 word"
  im_egress_rid :: "16 word"

record my_metadata_t =
  my_parse_tcp_options_counter :: "8 word"

record routing_metadata_t =
  rm_nhop_ipv4 :: "32 word"

record stats_metadata_t =
  sm_dummy :: "32 word"
  sm_dummy2 :: "32 word"
  sm_flow_map_index :: "2 word"
  sm_senderIP :: "32 word"
  sm_seqNo :: "32 word"
  sm_ackNo :: "32 word"
  sm_sample_rtt_seq :: "32 word"
  sm_rtt_samples :: "32 word"
  sm_mincwnd :: "32 word"
  sm_dupack :: "32 word"

record ethernet_t =
  eth_isValid :: "1 word"
  eth_dstAddr :: "48 word"
  eth_srcAddr :: "48 word"
  eth_etherType :: "16 word"

record ipv4_t =
  ip_isValid :: "1 word"
  ip_version :: "4 word"
  ip_ihl :: "4 word"
  ip_diffserv :: "8 word"
  ip_totalLen :: "16 word"
  ip_identification :: "16 word"
  ip_flags :: "3 word"
  ip_fragOffset :: "13 word"
  ip_ttl :: "8 word"
  ip_protocol :: "8 word"
  ip_hdrChecksum :: "16 word"
  ip_srcAddr :: "32 word"
  ip_dstAddr :: "32 word"

record options_end_t =
  oend_isValid :: "1 word"
  oend_kind :: "8 word"

record options_mss_t =
  omss_isValid :: "1 word"
  omss_kind :: "8 word"
  omss_len :: "8 word"
  omss_MSS :: "16 word"

record options_sack_t =
  osack_isValid :: "1 word"
  osack_kind :: "8 word"
  osack_len :: "8 word"

record options_ts_t =
  ots_isValid :: "1 word"
  ots_kind :: "8 word"
  ots_len :: "8 word"
  ots_ttee :: "64 word"

record options_wscale_t =
  ows_isValid :: "1 word"
  ows_kind :: "8 word"
  ows_len :: "8 word"
  ows_wscale :: "8 word"

record tcp_t =
  tcp_isValid :: "1 word"
  tcp_srcPort :: "16 word"
  tcp_dstPort :: "16 word"
  tcp_seqNo :: "32 word"
  tcp_ackNo :: "32 word"
  tcp_dataOffset :: "4 word"
  tcp_res :: "3 word"
  tcp_ecn :: "3 word"
  tcp_urg :: "1 word"
  tcp_ack :: "1 word"
  tcp_push :: "1 word"
  tcp_rst :: "1 word"
  tcp_syn :: "1 word"
  tcp_fin :: "1 word"
  tcp_window :: "16 word"
  tcp_checksum :: "16 word"
  tcp_urgentPtr :: "16 word"

record options_nop_t =
  onop_isValid :: "1 word"
  onop_kind :: "8 word"

record metadata =
  m_intrinsic_metadata :: intrinsic_metadata_t
  m_my_metadata :: my_metadata_t
  m_routing_metadata :: routing_metadata_t
  m_stats_metadata :: stats_metadata_t

record headers =
  h_ethernet :: ethernet_t
  h_ipv4 :: ipv4_t
  h_options_end :: options_end_t
  h_options_mss :: options_mss_t
  h_options_sack :: options_sack_t
  h_options_ts :: options_ts_t
  h_options_wscale :: options_wscale_t
  h_tcp :: tcp_t
  h_options_nop_index :: "32 word"
  h_options_nop :: "options_nop_t list"

record constants =
  c_dstPort :: u64
  c_seqNo :: u64
  c_ackNo :: u64
  c_dataOffset :: u64
  c_res :: u64
  c_ecn :: u64
  c_urg :: u64
  c_ack :: u64
  c_push :: u64
  c_rst :: u64
  c_syn :: u64
  c_fin :: u64
  c_window :: u64
  c_checksum :: u64
  c_urgentPtr :: u64

section \<open>Global variables\<close>

record dapper_state = klee_state +
  d_symbol :: u32
  d_assert_forward :: bool
  d_action_run :: int
  d_hdr_tcp_ack_453638 :: bool
  d_traverse_453638 :: bool
  d_dupack_le_3_454027 :: bool
  d_traverse_454027 :: bool
  d_ttl_eq_0_455545 :: bool
  d_constants :: constants
  d_hdr :: headers
  d_meta :: metadata
  d_std :: standard_metadata_t
  d_tmp_0 :: u8

section \<open>Static initialisation\<close>

definition zero_standard_metadata_t :: standard_metadata_t where
  "zero_standard_metadata_t = \<lparr>std_ingress_port = 0, std_egress_spec = 0, std_egress_port =
     0, std_clone_spec = 0, std_instance_type = 0, std_drop = 0, std_recirculate_port = 0,
     std_packet_length = 0, std_enq_timestamp = 0, std_enq_qdepth = 0, std_deq_timedelta = 0,
     std_deq_qdepth = 0, std_ingress_global_timestamp = 0, std_lf_field_list = 0, std_mcast_grp =
     0, std_resubmit_flag = 0, std_egress_rid = 0, std_checksum_error = 0\<rparr>"

definition zero_intrinsic_metadata_t :: intrinsic_metadata_t where
  "zero_intrinsic_metadata_t = \<lparr>im_ingress_global_timestamp = 0, im_lf_field_list = 0,
     im_mcast_grp = 0, im_egress_rid = 0\<rparr>"

definition zero_my_metadata_t :: my_metadata_t where
  "zero_my_metadata_t = \<lparr>my_parse_tcp_options_counter = 0\<rparr>"

definition zero_routing_metadata_t :: routing_metadata_t where
  "zero_routing_metadata_t = \<lparr>rm_nhop_ipv4 = 0\<rparr>"

definition zero_stats_metadata_t :: stats_metadata_t where
  "zero_stats_metadata_t = \<lparr>sm_dummy = 0, sm_dummy2 = 0, sm_flow_map_index = 0, sm_senderIP
     = 0, sm_seqNo = 0, sm_ackNo = 0, sm_sample_rtt_seq = 0, sm_rtt_samples = 0, sm_mincwnd = 0,
     sm_dupack = 0\<rparr>"

definition zero_ethernet_t :: ethernet_t where
  "zero_ethernet_t = \<lparr>eth_isValid = 0, eth_dstAddr = 0, eth_srcAddr = 0, eth_etherType =
     0\<rparr>"

definition zero_ipv4_t :: ipv4_t where
  "zero_ipv4_t = \<lparr>ip_isValid = 0, ip_version = 0, ip_ihl = 0, ip_diffserv = 0, ip_totalLen
     = 0, ip_identification = 0, ip_flags = 0, ip_fragOffset = 0, ip_ttl = 0, ip_protocol = 0,
     ip_hdrChecksum = 0, ip_srcAddr = 0, ip_dstAddr = 0\<rparr>"

definition zero_options_end_t :: options_end_t where
  "zero_options_end_t = \<lparr>oend_isValid = 0, oend_kind = 0\<rparr>"

definition zero_options_mss_t :: options_mss_t where
  "zero_options_mss_t = \<lparr>omss_isValid = 0, omss_kind = 0, omss_len = 0, omss_MSS = 0\<rparr>"

definition zero_options_sack_t :: options_sack_t where
  "zero_options_sack_t = \<lparr>osack_isValid = 0, osack_kind = 0, osack_len = 0\<rparr>"

definition zero_options_ts_t :: options_ts_t where
  "zero_options_ts_t = \<lparr>ots_isValid = 0, ots_kind = 0, ots_len = 0, ots_ttee = 0\<rparr>"

definition zero_options_wscale_t :: options_wscale_t where
  "zero_options_wscale_t = \<lparr>ows_isValid = 0, ows_kind = 0, ows_len = 0, ows_wscale =
     0\<rparr>"

definition zero_tcp_t :: tcp_t where
  "zero_tcp_t = \<lparr>tcp_isValid = 0, tcp_srcPort = 0, tcp_dstPort = 0, tcp_seqNo = 0,
     tcp_ackNo = 0, tcp_dataOffset = 0, tcp_res = 0, tcp_ecn = 0, tcp_urg = 0, tcp_ack = 0,
     tcp_push = 0, tcp_rst = 0, tcp_syn = 0, tcp_fin = 0, tcp_window = 0, tcp_checksum = 0,
     tcp_urgentPtr = 0\<rparr>"

definition zero_options_nop_t :: options_nop_t where
  "zero_options_nop_t = \<lparr>onop_isValid = 0, onop_kind = 0\<rparr>"

definition zero_metadata :: metadata where
  "zero_metadata =
     \<lparr>m_intrinsic_metadata = zero_intrinsic_metadata_t, m_my_metadata = zero_my_metadata_t,
      m_routing_metadata = zero_routing_metadata_t, m_stats_metadata = zero_stats_metadata_t\<rparr>"

definition zero_headers :: headers where
  "zero_headers =
     \<lparr>h_ethernet = zero_ethernet_t, h_ipv4 = zero_ipv4_t, h_options_end = zero_options_end_t,
      h_options_mss = zero_options_mss_t, h_options_sack = zero_options_sack_t,
      h_options_ts = zero_options_ts_t, h_options_wscale = zero_options_wscale_t,
      h_tcp = zero_tcp_t, h_options_nop_index = 0,
      h_options_nop = replicate 3 zero_options_nop_t\<rparr>"

definition zero_constants :: constants where
  "zero_constants =
     \<lparr>c_dstPort = 0, c_seqNo = 0, c_ackNo = 0, c_dataOffset = 0, c_res = 0, c_ecn = 0, c_urg = 0,
      c_ack = 0, c_push = 0, c_rst = 0, c_syn = 0, c_fin = 0, c_window = 0, c_checksum = 0,
      c_urgentPtr = 0\<rparr>"

definition dapper_globals :: dapper_state where
  "dapper_globals =
     \<lparr>nsym = 0, reports = [], d_symbol = 0, d_assert_forward = True, d_action_run = 0,
      d_hdr_tcp_ack_453638 = False, d_traverse_453638 = False, d_dupack_le_3_454027 = False,
      d_traverse_454027 = False, d_ttl_eq_0_455545 = False, d_constants = zero_constants,
      d_hdr = zero_headers, d_meta = zero_metadata, d_std = zero_standard_metadata_t,
      d_tmp_0 = 0\<rparr>"

text \<open>Paths to the parts of the state that the statements of the program assign.\<close>

abbreviation on_ethernet :: "(ethernet_t \<Rightarrow> ethernet_t) \<Rightarrow> dapper_state \<Rightarrow> dapper_state" where
  "on_ethernet f \<equiv> d_hdr_update (h_ethernet_update f)"

abbreviation on_ipv4 :: "(ipv4_t \<Rightarrow> ipv4_t) \<Rightarrow> dapper_state \<Rightarrow> dapper_state" where
  "on_ipv4 f \<equiv> d_hdr_update (h_ipv4_update f)"

abbreviation on_tcp :: "(tcp_t \<Rightarrow> tcp_t) \<Rightarrow> dapper_state \<Rightarrow> dapper_state" where
  "on_tcp f \<equiv> d_hdr_update (h_tcp_update f)"

abbreviation on_stats :: "(stats_metadata_t \<Rightarrow> stats_metadata_t) \<Rightarrow> dapper_state \<Rightarrow> dapper_state" where
  "on_stats f \<equiv> d_meta_update (m_stats_metadata_update f)"

abbreviation on_counter :: "(8 word \<Rightarrow> 8 word) \<Rightarrow> dapper_state \<Rightarrow> dapper_state" where
  "on_counter f \<equiv> d_meta_update (m_my_metadata_update (my_parse_tcp_options_counter_update f))"

abbreviation stats :: "dapper_state \<Rightarrow> stats_metadata_t" where
  "stats s \<equiv> m_stats_metadata (d_meta s)"

abbreviation options_counter :: "dapper_state \<Rightarrow> 8 word" where
  "options_counter s \<equiv> my_parse_tcp_options_counter (m_my_metadata (d_meta s))"

abbreviation ingress_timestamp :: "dapper_state \<Rightarrow> 48 word" where
  "ingress_timestamp s \<equiv> im_ingress_global_timestamp (m_intrinsic_metadata (d_meta s))"

end
