(* ===== verification/Dapper.thy ===== *)
theory Dapper
  imports Dapper_State
begin

text \<open>
  The functions of \<^verbatim>\<open>src/dapper/dapper.c\<close>, in the order of the file, and those of its copies under
  \<^verbatim>\<open>src/dapper/dapper_parallel\<close> and \<^verbatim>\<open>src/dapper/assumptions\<close>, which split the program for
  parallel symbolic execution by turning branches into \<^verbatim>\<open>klee_assume\<close> calls.  The copies differ
  from \<^verbatim>\<open>dapper.c\<close> in \<^verbatim>\<open>parse_ethernet\<close>, \<^verbatim>\<open>parse_ipv4\<close>, \<^verbatim>\<open>parse_tcp\<close>, \<^verbatim>\<open>send_frame\<close> and
  \<^verbatim>\<open>end_assertions\<close> only; a function that reaches one of these takes the \<open>dapper_file\<close> it is
  compiled in as its first argument.

  \<open>w\<close> is the input stream the symbolic scalars are taken from, \<open>n\<close> the bound on the number of
  rounds of the TCP option loop.
\<close>

datatype dapper_file =
    Dapper_c
  | P1T1 | P1T2 | P1T3 | P2T1 | P2T2 | P2T3
  | Assumptions_c
  | A11 | A12 | A13 | A21 | A22 | A23

record dapper_env =
  e_hdr :: headers
  e_meta :: metadata
  e_std :: standard_metadata_t
  e_inputs :: inputs

section \<open>Assertions\<close>

definition newline :: string where
  "newline = [CHR 0x0A]"

definition msg_ack :: string where
  "msg_ack = ''!(hdr_tcp_ack_453638) || (traverse_453638)''"

definition msg_dupack :: string where
  "msg_dupack = ''!(meta_stats_metadata_dupack_le_3_454027) || (!traverse_454027)''"

definition msg_ttl :: string where
  "msg_ttl = ''!(hdr_ipv4_ttl_eq_0_455545) || (!assert_forward)''"

definition violates_ack :: "dapper_state \<Rightarrow> bool" where
  "violates_ack s \<longleftrightarrow> \<not> (\<not> d_hdr_tcp_ack_453638 s \<or> d_traverse_453638 s)"

definition violates_dupack :: "dapper_state \<Rightarrow> bool" where
  "violates_dupack s \<longleftrightarrow> \<not> (\<not> d_dupack_le_3_454027 s \<or> \<not> d_traverse_454027 s)"

definition violates_ttl :: "dapper_state \<Rightarrow> bool" where
  "violates_ttl s \<longleftrightarrow> \<not> (\<not> d_ttl_eq_0_455545 s \<or> \<not> d_assert_forward s)"

definition end_assertions_dapper :: "dapper_state cmd" where
  "end_assertions_dapper = block
    [report_if violates_ack (Print_once 0 msg_ack),
     report_if violates_dupack (Print_once 1 msg_dupack),
     report_if violates_ttl (Print_once 2 (msg_ttl @ newline))]"

definition end_assertions_printf :: "dapper_state cmd" where
  "end_assertions_printf = block
    [report_if violates_ack (Print_once 0 msg_ack),
     report_if violates_dupack (Print_once 1 msg_dupack),
     report_if violates_ttl (Printf (msg_ttl @ newline))]"

definition end_assertions_once :: "dapper_state cmd" where
  "end_assertions_once = block
    [report_if violates_ack (Print_once 0 msg_ack),
     report_if violates_dupack (Print_once 1 msg_dupack),
     report_if violates_ttl (Print_once 2 msg_ttl)]"

definition end_assertions :: "dapper_file \<Rightarrow> dapper_state cmd" where
  "end_assertions f =
     (if f = Dapper_c then end_assertions_dapper
      else if f \<in> {A11, A12, A13, A21, A22, A23} then end_assertions_once
      else end_assertions_printf)"


definition mark_to_drop :: "dapper_file \<Rightarrow> dapper_state cmd" where
  "mark_to_drop f = block
    [modify (d_assert_forward_update (\<lambda>_. False)), end_assertions f, exit_with 0]"

section \<open>Parser\<close>

definition accept :: "dapper_state cmd" where
  "accept = skip"

definition reject :: "dapper_file \<Rightarrow> dapper_state cmd" where
  "reject f = block
    [modify (d_assert_forward_update (\<lambda>_. False)), end_assertions f, exit_with 0]"

definition BITSLICE :: "u32 \<Rightarrow> nat \<Rightarrow> nat \<Rightarrow> u32" where
  "BITSLICE x a b = drop_bit b x AND (push_bit (a - b + 1) 1 - 1)"

definition counter32 :: "dapper_state \<Rightarrow> u32" where
  "counter32 s = ucast (options_counter s)"

definition tmp32 :: "dapper_state \<Rightarrow> u32" where
  "tmp32 s = ucast (d_tmp_0 s)"

text \<open>The store \<^verbatim>\<open>hdr.options_nop[i]\<close> is defined for the three elements of the array only.\<close>

definition nop_in_range :: "dapper_state \<Rightarrow> bool" where
  "nop_in_range s \<longleftrightarrow> 0 \<le> sint (h_options_nop_index (d_hdr s)) \<and> sint (h_options_nop_index (d_hdr s)) < 3"

definition set_nop_valid :: "headers \<Rightarrow> headers" where
  "set_nop_valid h =
     (let i = nat (sint (h_options_nop_index h))
      in h\<lparr>h_options_nop := (h_options_nop h)[i := (h_options_nop h ! i)\<lparr>onop_isValid := 1\<rparr>],
           h_options_nop_index := h_options_nop_index h + 1\<rparr>)"

fun parse_tcp_options :: "inputs \<Rightarrow> nat \<Rightarrow> dapper_state cmd"
  and parse_end :: "inputs \<Rightarrow> nat \<Rightarrow> dapper_state cmd"
  and parse_mss :: "inputs \<Rightarrow> nat \<Rightarrow> dapper_state cmd"
  and parse_nop :: "inputs \<Rightarrow> nat \<Rightarrow> dapper_state cmd"
  and parse_sack :: "inputs \<Rightarrow> nat \<Rightarrow> dapper_state cmd"
  and parse_ts :: "inputs \<Rightarrow> nat \<Rightarrow> dapper_state cmd"
  and parse_wscale :: "inputs \<Rightarrow> nat \<Rightarrow> dapper_state cmd"
where
  "parse_tcp_options w 0 = out_of_fuel"
| "parse_tcp_options w (Suc n) = block
    [klee_make_symbolic w (\<lambda>v. d_tmp_0_update (\<lambda>_. ucast v)),
     cond (\<lambda>s. counter32 s AND 255 = 0 AND 255 \<and> BITSLICE (tmp32 s) 7 0 AND 0 = 0 AND 0)
       accept
     (cond (\<lambda>s. counter32 s AND 0 = 0 AND 0 \<and> BITSLICE (tmp32 s) 7 0 AND 255 = 0 AND 255)
       (parse_end w n)
     (cond (\<lambda>s. counter32 s AND 0 = 0 AND 0 \<and> BITSLICE (tmp32 s) 7 0 AND 255 = 1 AND 255)
       (parse_nop w n)
     (cond (\<lambda>s. counter32 s AND 0 = 0 AND 0 \<and> BITSLICE (tmp32 s) 7 0 AND 255 = 2 AND 255)
       (parse_mss w n)
     (cond (\<lambda>s. counter32 s AND 0 = 0 AND 0 \<and> BITSLICE (tmp32 s) 7 0 AND 255 = 3 AND 255)
       (parse_wscale w n)
     (cond (\<lambda>s. counter32 s AND 0 = 0 AND 0 \<and> BITSLICE (tmp32 s) 7 0 AND 255 = 4 AND 255)
       (parse_sack w n)
     (cond (\<lambda>s. counter32 s AND 0 = 0 AND 0 \<and> BITSLICE (tmp32 s) 7 0 AND 255 = 8 AND 255)
       (parse_ts w n)
       skip))))))]"
| "parse_end w n = block
    [modify (d_hdr_update (h_options_end_update (oend_isValid_update (\<lambda>_. 1)))),
     modify (on_counter (\<lambda>c. c + 255)),
     parse_tcp_options w n]"
| "parse_mss w n = block
    [modify (d_hdr_update (h_options_mss_update (omss_isValid_update (\<lambda>_. 1)))),
     modify (on_counter (\<lambda>c. c + 252)),
     parse_tcp_options w n]"
| "parse_nop w n = block
    [cond nop_in_range (modify (d_hdr_update set_nop_valid)) undefined_behaviour,
     modify (on_counter (\<lambda>c. c + 255)),
     parse_tcp_options w n]"
| "parse_sack w n = block
    [modify (d_hdr_update (h_options_sack_update (osack_isValid_update (\<lambda>_. 1)))),
     modify (on_counter (\<lambda>c. c + 254)),
     parse_tcp_options w n]"
| "parse_ts w n = block
    [modify (d_hdr_update (h_options_ts_update (ots_isValid_update (\<lambda>_. 1)))),
     modify (on_counter (\<lambda>c. c + 246)),
     parse_tcp_options w n]"
| "parse_wscale w n = block
    [modify (d_hdr_update (h_options_wscale_update (ows_isValid_update (\<lambda>_. 1)))),
     modify (on_counter (\<lambda>c. c + 253)),
     parse_tcp_options w n]"

text \<open>
  \<^verbatim>\<open>(uint8_t) hdr.tcp.dataOffset << 2 + 12\<close>: in C the sum binds tighter than the shift and the cast
  tighter than both; the operand is promoted to \<^verbatim>\<open>int\<close> and the result is cut to the 8 bits of the
  counter.
\<close>

definition initial_options_counter :: "4 word \<Rightarrow> 8 word" where
  "initial_options_counter d = ucast (push_bit (2 + 12) (ucast (ucast d :: u8) :: u32))"

definition set_options_counter :: "dapper_state \<Rightarrow> dapper_state" where
  "set_options_counter s =
     on_counter (\<lambda>_. initial_options_counter (tcp_dataOffset (h_tcp (d_hdr s)))) s"

definition parse_tcp_dapper :: "inputs \<Rightarrow> nat \<Rightarrow> dapper_state cmd" where
  "parse_tcp_dapper w n = block
    [modify (on_tcp (tcp_isValid_update (\<lambda>_. 1))),
     modify set_options_counter,
     cond (\<lambda>s. tcp_syn (h_tcp (d_hdr s)) = 1) (parse_tcp_options w n) accept]"

definition parse_tcp_syn :: "inputs \<Rightarrow> nat \<Rightarrow> dapper_state cmd" where
  "parse_tcp_syn w n = block
    [modify (on_tcp (tcp_isValid_update (\<lambda>_. 1))),
     modify set_options_counter,
     klee_assume (\<lambda>s. tcp_syn (h_tcp (d_hdr s)) = 1),
     parse_tcp_options w n]"

definition parse_tcp_nosyn :: "dapper_state cmd" where
  "parse_tcp_nosyn = block
    [modify (on_tcp (tcp_isValid_update (\<lambda>_. 1))),
     modify set_options_counter,
     klee_assume (\<lambda>s. \<not> tcp_syn (h_tcp (d_hdr s)) = 1),
     accept]"

definition parse_tcp :: "dapper_file \<Rightarrow> inputs \<Rightarrow> nat \<Rightarrow> dapper_state cmd" where
  "parse_tcp f w n =
     (if f \<in> {A11, A12, A13} then parse_tcp_syn w n
      else if f \<in> {A21, A22, A23} then parse_tcp_nosyn
      else parse_tcp_dapper w n)"

definition parse_ipv4_dapper :: "dapper_file \<Rightarrow> inputs \<Rightarrow> nat \<Rightarrow> dapper_state cmd" where
  "parse_ipv4_dapper f w n = block
    [modify (on_ipv4 (ip_isValid_update (\<lambda>_. 1))),
     cond (\<lambda>s. ip_protocol (h_ipv4 (d_hdr s)) = 6) (parse_tcp f w n) accept]"

definition parse_ipv4_tcp :: "dapper_file \<Rightarrow> inputs \<Rightarrow> nat \<Rightarrow> dapper_state cmd" where
  "parse_ipv4_tcp f w n = block
    [modify (on_ipv4 (ip_isValid_update (\<lambda>_. 1))),
     klee_assume (\<lambda>s. ip_protocol (h_ipv4 (d_hdr s)) = 6),
     parse_tcp f w n]"

definition parse_ipv4 :: "dapper_file \<Rightarrow> inputs \<Rightarrow> nat \<Rightarrow> dapper_state cmd" where
  "parse_ipv4 f w n =
     (if f \<in> {Assumptions_c, A11, A12, A13, A21, A22, A23} then parse_ipv4_tcp f w n
      else parse_ipv4_dapper f w n)"

definition parse_ethernet_dapper :: "dapper_file \<Rightarrow> inputs \<Rightarrow> nat \<Rightarrow> dapper_state cmd" where
  "parse_ethernet_dapper f w n = block
    [modify (on_ethernet (eth_isValid_update (\<lambda>_. 1))),
     cond (\<lambda>s. eth_etherType (h_ethernet (d_hdr s)) = 2048) (parse_ipv4 f w n) accept]"

definition parse_ethernet_ipv4 :: "dapper_file \<Rightarrow> inputs \<Rightarrow> nat \<Rightarrow> dapper_state cmd" where
  "parse_ethernet_ipv4 f w n = block
    [modify (on_ethernet (eth_isValid_update (\<lambda>_. 1))),
     klee_assume (\<lambda>s. eth_etherType (h_ethernet (d_hdr s)) = 2048),
     parse_ipv4 f w n]"

definition parse_ethernet_other :: "dapper_state cmd" where
  "parse_ethernet_other = block
    [modify (on_ethernet (eth_isValid_update (\<lambda>_. 1))),
     klee_assume (\<lambda>s. eth_etherType (h_ethernet (d_hdr s)) \<noteq> 2048),
     accept]"

definition parse_ethernet :: "dapper_file \<Rightarrow> inputs \<Rightarrow> nat \<Rightarrow> dapper_state cmd" where
  "parse_ethernet f w n =
     (if f = Dapper_c then parse_ethernet_dapper f w n
      else if f \<in> {P2T1, P2T2, P2T3} then parse_ethernet_other
      else parse_ethernet_ipv4 f w n)"

definition start :: "dapper_file \<Rightarrow> inputs \<Rightarrow> nat \<Rightarrow> dapper_state cmd" where
  "start f w n = parse_ethernet f w n"

definition ParserImpl :: "dapper_file \<Rightarrow> dapper_env \<Rightarrow> nat \<Rightarrow> dapper_state cmd" where
  "ParserImpl f e n = block
    [modify (d_hdr_update (\<lambda>_. e_hdr e)),
     modify (d_meta_update (\<lambda>_. e_meta e)),
     modify (d_std_update (\<lambda>_. e_std e)),
     start f (e_inputs e) n]"

section \<open>Actions\<close>

definition set_action_run :: "int \<Rightarrow> dapper_state cmd" where
  "set_action_run k = modify (d_action_run_update (\<lambda>_. k))"

definition NoAction_0_453126 :: "dapper_state cmd" where
  "NoAction_0_453126 = set_action_run 453126"

definition NoAction_1_453262 :: "dapper_state cmd" where
  "NoAction_1_453262 = set_action_run 453262"

definition NoAction_19_453263 :: "dapper_state cmd" where
  "NoAction_19_453263 = set_action_run 453263"

definition NoAction_20_453264 :: "dapper_state cmd" where
  "NoAction_20_453264 = set_action_run 453264"

definition NoAction_21_453265 :: "dapper_state cmd" where
  "NoAction_21_453265 = set_action_run 453265"

definition NoAction_22_453266 :: "dapper_state cmd" where
  "NoAction_22_453266 = set_action_run 453266"

definition NoAction_23_453267 :: "dapper_state cmd" where
  "NoAction_23_453267 = set_action_run 453267"

definition NoAction_24_453268 :: "dapper_state cmd" where
  "NoAction_24_453268 = set_action_run 453268"

definition NoAction_25_453269 :: "dapper_state cmd" where
  "NoAction_25_453269 = set_action_run 453269"

definition NoAction_26_453270 :: "dapper_state cmd" where
  "NoAction_26_453270 = set_action_run 453270"

definition NoAction_27_453271 :: "dapper_state cmd" where
  "NoAction_27_453271 = set_action_run 453271"

definition NoAction_28_453272 :: "dapper_state cmd" where
  "NoAction_28_453272 = set_action_run 453272"

definition NoAction_29_453273 :: "dapper_state cmd" where
  "NoAction_29_453273 = set_action_run 453273"

definition NoAction_30_453274 :: "dapper_state cmd" where
  "NoAction_30_453274 = set_action_run 453274"

definition NoAction_31_453275 :: "dapper_state cmd" where
  "NoAction_31_453275 = set_action_run 453275"

definition NoAction_32_453276 :: "dapper_state cmd" where
  "NoAction_32_453276 = set_action_run 453276"

definition NoAction_33_453277 :: "dapper_state cmd" where
  "NoAction_33_453277 = set_action_run 453277"

definition rewrite_mac_0_453136 :: "inputs \<Rightarrow> dapper_state cmd" where
  "rewrite_mac_0_453136 w = block
    [set_action_run 453136,
     klee_make_symbolic w (\<lambda>smac. on_ethernet (eth_srcAddr_update (\<lambda>_. ucast smac)))]"

definition drop_0_453154 :: "dapper_file \<Rightarrow> dapper_state cmd" where
  "drop_0_453154 f = block [set_action_run 453154, mark_to_drop f]"

definition save_source_IP_0_453564 :: "dapper_state cmd" where
  "save_source_IP_0_453564 = set_action_run 453564"

definition get_sender_IP_0_453622 :: "inputs \<Rightarrow> dapper_state cmd" where
  "get_sender_IP_0_453622 w = block
    [set_action_run 453622,
     modify (\<lambda>s. s\<lparr>d_hdr_tcp_ack_453638 := tcp_ack (h_tcp (d_hdr s)) = 1\<rparr>),
     modify (d_traverse_453638_update (\<lambda>_. True)),
     klee_make_symbolic w (\<lambda>v. on_stats (sm_senderIP_update (\<lambda>_. ucast v))),
     klee_make_symbolic w (\<lambda>v. on_stats (sm_seqNo_update (\<lambda>_. ucast v))),
     klee_make_symbolic w (\<lambda>v. on_stats (sm_ackNo_update (\<lambda>_. ucast v))),
     klee_make_symbolic w (\<lambda>v. on_stats (sm_sample_rtt_seq_update (\<lambda>_. ucast v))),
     klee_make_symbolic w (\<lambda>v. on_stats (sm_rtt_samples_update (\<lambda>_. ucast v))),
     klee_make_symbolic w (\<lambda>v. on_stats (sm_mincwnd_update (\<lambda>_. ucast v))),
     klee_make_symbolic w (\<lambda>v. on_stats (sm_dupack_update (\<lambda>_. ucast v)))]"

text \<open>\<^verbatim>\<open>meta.stats_metadata.dummy2 = ingress_global_timestamp - dummy\<close>, computed in 64 bits.\<close>

definition elapsed :: "dapper_state \<Rightarrow> u32" where
  "elapsed s = ucast (ucast (ingress_timestamp s) - ucast (sm_dummy (stats s)) :: u64)"

definition read_dummy :: "inputs \<Rightarrow> dapper_state cmd" where
  "read_dummy w = klee_make_symbolic w (\<lambda>v. on_stats (sm_dummy_update (\<lambda>_. ucast v)))"

definition read_dummy2 :: "inputs \<Rightarrow> dapper_state cmd" where
  "read_dummy2 w = klee_make_symbolic w (\<lambda>v. on_stats (sm_dummy2_update (\<lambda>_. ucast v)))"

definition use_sample_rtt_first_0_458416 :: "inputs \<Rightarrow> dapper_state cmd" where
  "use_sample_rtt_first_0_458416 w = block
    [set_action_run 458416,
     read_dummy w,
     modify (\<lambda>s. on_stats (sm_dummy2_update (\<lambda>_. ucast (ingress_timestamp s))) s),
     modify (\<lambda>s. on_stats (sm_dummy2_update (\<lambda>_. elapsed s)) s)]"

definition update_flow_dupack_0_453843 :: "inputs \<Rightarrow> dapper_state cmd" where
  "update_flow_dupack_0_453843 w = block
    [set_action_run 453843,
     read_dummy w,
     modify (on_stats (sm_dummy_update (\<lambda>d. d + 1)))]"

definition update_flow_rcvd_0_453896 :: "inputs \<Rightarrow> dapper_state cmd" where
  "update_flow_rcvd_0_453896 w = block
    [set_action_run 453896,
     read_dummy w,
     modify (on_stats (sm_dummy_update (\<lambda>d. d + 1)))]"

definition update_flow_retx_3dupack_0_454011 :: "inputs \<Rightarrow> dapper_state cmd" where
  "update_flow_retx_3dupack_0_454011 w = block
    [set_action_run 454011,
     modify (\<lambda>s. s\<lparr>d_dupack_le_3_454027 := sm_dupack (stats s) < 3\<rparr>),
     modify (d_traverse_454027_update (\<lambda>_. True)),
     read_dummy w,
     modify (on_stats (sm_dummy_update (\<lambda>d. d + 1))),
     read_dummy w,
     modify (on_stats (sm_dummy_update (drop_bit 1)))]"

definition update_flow_retx_timeout_0_454141 :: "inputs \<Rightarrow> dapper_state cmd" where
  "update_flow_retx_timeout_0_454141 w = block
    [set_action_run 454141,
     read_dummy w,
     modify (on_stats (sm_dummy_update (\<lambda>d. d + 1)))]"

definition update_flow_sent_0_454233 :: "inputs \<Rightarrow> dapper_state cmd" where
  "update_flow_sent_0_454233 w = block
    [set_action_run 454233,
     read_dummy w,
     modify (on_stats (sm_dummy_update (\<lambda>d. d + 1))),
     modify (\<lambda>s. on_stats (sm_dummy_update (\<lambda>_. ucast (ingress_timestamp s))) s),
     read_dummy2 w,
     modify (\<lambda>s. on_stats (sm_dummy_update (\<lambda>d. d - sm_dummy2 (stats s))) s),
     read_dummy w,
     read_dummy2 w,
     modify (\<lambda>s. on_stats (sm_dummy_update (\<lambda>d. d - sm_dummy2 (stats s))) s)]"

definition set_dmac_0_454420 :: "inputs \<Rightarrow> dapper_state cmd" where
  "set_dmac_0_454420 w = block
    [set_action_run 454420,
     klee_make_symbolic w (\<lambda>dmac. on_ethernet (eth_dstAddr_update (\<lambda>_. ucast dmac)))]"

definition drop_1_454438 :: "dapper_file \<Rightarrow> dapper_state cmd" where
  "drop_1_454438 f = block [set_action_run 454438, mark_to_drop f]"

definition drop_4_454454 :: "dapper_file \<Rightarrow> dapper_state cmd" where
  "drop_4_454454 f = block [set_action_run 454454, mark_to_drop f]"

definition increase_mincwnd_0_454461 :: "dapper_state cmd" where
  "increase_mincwnd_0_454461 = set_action_run 454461"

definition record_IP_0_454487 :: "inputs \<Rightarrow> dapper_state cmd" where
  "record_IP_0_454487 w = block
    [set_action_run 454487,
     klee_make_symbolic w (\<lambda>v. on_stats (sm_senderIP_update (\<lambda>_. ucast v)))]"

definition set_nhop_0_454574 :: "inputs \<Rightarrow> dapper_state cmd" where
  "set_nhop_0_454574 w = block
    [set_action_run 454574,
     klee_make_symbolic w (\<lambda>nhop.
       d_meta_update (m_routing_metadata_update (rm_nhop_ipv4_update (\<lambda>_. ucast nhop)))),
     klee_make_symbolic w (\<lambda>port. d_std_update (std_egress_spec_update (\<lambda>_. ucast port))),
     modify (on_ipv4 (ip_ttl_update (\<lambda>t. t + 255)))]"

definition lookup_flow_map_0_454610 :: "inputs \<Rightarrow> dapper_state cmd" where
  "lookup_flow_map_0_454610 w = block
    [set_action_run 454610,
     klee_make_symbolic w (\<lambda>v. on_stats (sm_flow_map_index_update (\<lambda>_. ucast v)))]"

definition lookup_flow_map_reverse_0_454672 :: "inputs \<Rightarrow> dapper_state cmd" where
  "lookup_flow_map_reverse_0_454672 w = block
    [set_action_run 454672,
     klee_make_symbolic w (\<lambda>v. on_stats (sm_flow_map_index_update (\<lambda>_. ucast v)))]"

definition use_sample_rtt_0_459912 :: "inputs \<Rightarrow> dapper_state cmd" where
  "use_sample_rtt_0_459912 w = block
    [set_action_run 459912,
     read_dummy w,
     modify (\<lambda>s. on_stats (sm_dummy2_update (\<lambda>_. ucast (ingress_timestamp s))) s),
     modify (\<lambda>s. on_stats (sm_dummy2_update (\<lambda>_. elapsed s)) s),
     read_dummy w,
     modify (\<lambda>s. on_stats (sm_dummy_update (\<lambda>d. 7 * d + sm_dummy2 (stats s))) s),
     modify (on_stats (sm_dummy_update (drop_bit 3))),
     read_dummy w,
     modify (on_stats (sm_dummy_update (\<lambda>d. d + 1)))]"

definition sample_new_rtt_0_454900 :: "dapper_state cmd" where
  "sample_new_rtt_0_454900 = set_action_run 454900"

section \<open>Tables\<close>

text \<open>
  \<^verbatim>\<open>klee_make_symbolic(&symbol, ...); switch (symbol) ...\<close>: \<open>switch2 w case0 default\<close> for a table with
  one action besides the default, \<open>switch3\<close> for one with two.
\<close>

definition read_symbol :: "inputs \<Rightarrow> dapper_state cmd" where
  "read_symbol w = klee_make_symbolic w (\<lambda>v. d_symbol_update (\<lambda>_. ucast v))"

definition switch2 :: "inputs \<Rightarrow> dapper_state cmd \<Rightarrow> dapper_state cmd \<Rightarrow> dapper_state cmd" where
  "switch2 w c d = block [read_symbol w, cond (\<lambda>s. d_symbol s = 0) c d]"

definition switch3 ::
  "inputs \<Rightarrow> dapper_state cmd \<Rightarrow> dapper_state cmd \<Rightarrow> dapper_state cmd \<Rightarrow> dapper_state cmd" where
  "switch3 w c d e = block
    [read_symbol w, cond (\<lambda>s. d_symbol s = 0) c (cond (\<lambda>s. d_symbol s = 1) d e)]"

definition debug_454943 :: "inputs \<Rightarrow> dapper_state cmd" where
  "debug_454943 w = switch2 w save_source_IP_0_453564 NoAction_1_453262"

definition direction_454977 :: "inputs \<Rightarrow> dapper_state cmd" where
  "direction_454977 w = switch2 w (get_sender_IP_0_453622 w) NoAction_19_453263"

definition first_rtt_sample_455011 :: "inputs \<Rightarrow> dapper_state cmd" where
  "first_rtt_sample_455011 w = switch2 w (use_sample_rtt_first_0_458416 w) NoAction_20_453264"

definition flow_dupack_455045 :: "inputs \<Rightarrow> dapper_state cmd" where
  "flow_dupack_455045 w = switch2 w (update_flow_dupack_0_453843 w) NoAction_21_453265"

definition flow_rcvd_455079 :: "inputs \<Rightarrow> dapper_state cmd" where
  "flow_rcvd_455079 w = switch2 w (update_flow_rcvd_0_453896 w) NoAction_22_453266"

definition flow_retx_3dupack_455113 :: "inputs \<Rightarrow> dapper_state cmd" where
  "flow_retx_3dupack_455113 w = switch2 w (update_flow_retx_3dupack_0_454011 w) NoAction_23_453267"

definition flow_retx_timeout_455147 :: "inputs \<Rightarrow> dapper_state cmd" where
  "flow_retx_timeout_455147 w = switch2 w (update_flow_retx_timeout_0_454141 w) NoAction_24_453268"

definition flow_sent_455181 :: "inputs \<Rightarrow> dapper_state cmd" where
  "flow_sent_455181 w = switch2 w (update_flow_sent_0_454233 w) NoAction_25_453269"

definition increase_cwnd_455274 :: "inputs \<Rightarrow> dapper_state cmd" where
  "increase_cwnd_455274 w = switch2 w increase_mincwnd_0_454461 NoAction_27_453271"

definition init_455308 :: "inputs \<Rightarrow> dapper_state cmd" where
  "init_455308 w = switch2 w (record_IP_0_454487 w) NoAction_28_453272"

definition lookup_455401 :: "inputs \<Rightarrow> dapper_state cmd" where
  "lookup_455401 w = switch2 w (lookup_flow_map_0_454610 w) NoAction_30_453274"

definition lookup_reverse_455435 :: "inputs \<Rightarrow> dapper_state cmd" where
  "lookup_reverse_455435 w = switch2 w (lookup_flow_map_reverse_0_454672 w) NoAction_31_453275"

definition sample_rtt_rcvd_455469 :: "inputs \<Rightarrow> dapper_state cmd" where
  "sample_rtt_rcvd_455469 w = switch2 w (use_sample_rtt_0_459912 w) NoAction_32_453276"

definition sample_rtt_sent_455503 :: "inputs \<Rightarrow> dapper_state cmd" where
  "sample_rtt_sent_455503 w = switch2 w sample_new_rtt_0_454900 NoAction_33_453277"

definition forward_455215 :: "dapper_file \<Rightarrow> inputs \<Rightarrow> dapper_state cmd" where
  "forward_455215 f w =
     switch3 w (set_dmac_0_454420 w) (drop_1_454438 f) NoAction_26_453270"

definition ipv4_lpm_455342 :: "dapper_file \<Rightarrow> inputs \<Rightarrow> dapper_state cmd" where
  "ipv4_lpm_455342 f w =
     switch3 w (set_nhop_0_454574 w) (drop_4_454454 f) NoAction_29_453273"

text \<open>
  In \<^verbatim>\<open>send_frame\<close> the symbolic \<^verbatim>\<open>symbol\<close> is a local variable that hides the global one.
\<close>

definition send_frame_dapper :: "dapper_file \<Rightarrow> inputs \<Rightarrow> dapper_state cmd" where
  "send_frame_dapper f w s =
     (let symbol = ucast (w (nsym s)) :: u32; s' = s\<lparr>nsym := Suc (nsym s)\<rparr>
      in if symbol = 0 then rewrite_mac_0_453136 w s'
         else if symbol = 1 then drop_0_453154 f s'
         else NoAction_0_453126 s')"

definition send_frame_453170 :: "dapper_file \<Rightarrow> inputs \<Rightarrow> dapper_state cmd" where
  "send_frame_453170 f w =
     (if f \<in> {P1T1, P2T1, A11, A21} then rewrite_mac_0_453136 w
      else if f \<in> {P1T2, P2T2, A12, A22} then drop_0_453154 f
      else if f \<in> {P1T3, P2T3, A13, A23} then NoAction_0_453126
      else send_frame_dapper f w)"

section \<open>Controls\<close>

definition save_constants :: "tcp_t \<Rightarrow> constants" where
  "save_constants t =
     \<lparr>c_dstPort = ucast (tcp_dstPort t), c_seqNo = ucast (tcp_seqNo t),
      c_ackNo = ucast (tcp_ackNo t), c_dataOffset = ucast (tcp_dataOffset t),
      c_res = ucast (tcp_res t), c_ecn = ucast (tcp_ecn t), c_urg = ucast (tcp_urg t),
      c_ack = ucast (tcp_ack t), c_push = ucast (tcp_push t), c_rst = ucast (tcp_rst t),
      c_syn = ucast (tcp_syn t), c_fin = ucast (tcp_fin t), c_window = ucast (tcp_window t),
      c_checksum = ucast (tcp_checksum t), c_urgentPtr = ucast (tcp_urgentPtr t)\<rparr>"

definition sender_side :: "inputs \<Rightarrow> dapper_state cmd" where
  "sender_side w =
     cond (\<lambda>s. tcp_seqNo (h_tcp (d_hdr s)) > sm_seqNo (stats s))
       (block
         [flow_sent_455181 w,
          cond (\<lambda>s. sm_sample_rtt_seq (stats s) = 0) (sample_rtt_sent_455503 w) skip,
          cond (\<lambda>s. sm_dummy (stats s) > sm_mincwnd (stats s)) (increase_cwnd_455274 w) skip])
       (cond (\<lambda>s. sm_dupack (stats s) = 3) (flow_retx_3dupack_455113 w) (flow_retx_timeout_455147 w))"

definition receiver_side :: "inputs \<Rightarrow> dapper_state cmd" where
  "receiver_side w =
     cond (\<lambda>s. tcp_ackNo (h_tcp (d_hdr s)) > sm_ackNo (stats s))
       (block
         [flow_rcvd_455079 w,
          cond (\<lambda>s. tcp_ackNo (h_tcp (d_hdr s)) \<ge> sm_sample_rtt_seq (stats s) \<and>
                    sm_sample_rtt_seq (stats s) > 0)
            (cond (\<lambda>s. sm_rtt_samples (stats s) = 0)
               (first_rtt_sample_455011 w) (sample_rtt_rcvd_455469 w))
            skip])
       (flow_dupack_455045 w)"

definition tcp_pipeline :: "inputs \<Rightarrow> dapper_state cmd" where
  "tcp_pipeline w = block
    [cond (\<lambda>s. ip_srcAddr (h_ipv4 (d_hdr s)) > ip_dstAddr (h_ipv4 (d_hdr s)))
       (lookup_455401 w) (lookup_reverse_455435 w),
     cond (\<lambda>s. tcp_syn (h_tcp (d_hdr s)) = 1 \<and> tcp_ack (h_tcp (d_hdr s)) = 0)
       (init_455308 w) (direction_454977 w),
     cond (\<lambda>s. ip_srcAddr (h_ipv4 (d_hdr s)) = sm_senderIP (stats s))
       (sender_side w)
       (cond (\<lambda>s. ip_dstAddr (h_ipv4 (d_hdr s)) = sm_senderIP (stats s))
          (receiver_side w) (debug_454943 w))]"

definition ingress :: "dapper_file \<Rightarrow> inputs \<Rightarrow> dapper_state cmd" where
  "ingress f w = block
    [modify (\<lambda>s. s\<lparr>d_ttl_eq_0_455545 := ip_ttl (h_ipv4 (d_hdr s)) = 0\<rparr>),
     modify (\<lambda>s. s\<lparr>d_constants := save_constants (h_tcp (d_hdr s))\<rparr>),
     cond (\<lambda>s. ip_protocol (h_ipv4 (d_hdr s)) = 6) (tcp_pipeline w) skip,
     ipv4_lpm_455342 f w,
     forward_455215 f w]"

definition egress :: "dapper_file \<Rightarrow> inputs \<Rightarrow> dapper_state cmd" where
  "egress f w = send_frame_453170 f w"

definition dapper_main :: "dapper_file \<Rightarrow> dapper_env \<Rightarrow> nat \<Rightarrow> dapper_state cmd" where
  "dapper_main f e n = block
    [ParserImpl f e n, ingress f (e_inputs e), egress f (e_inputs e), end_assertions f]"

definition run_dapper :: "dapper_file \<Rightarrow> dapper_env \<Rightarrow> nat \<Rightarrow> dapper_state outcome" where
  "run_dapper f e n = dapper_main f e n dapper_globals"

end
