(* ===== verification/Dapper_Correct.thy ===== *)
theory Dapper_Correct
  imports Dapper
begin

text \<open>
  What one run of \<^verbatim>\<open>src/dapper/dapper.c\<close> does, for every packet and every choice of the tables.

  \<open>pipeline_inv\<close> is the invariant of the match-action pipeline; each table keeps it
  (\<open>pipeline_triples\<close>), so the controls do, by the rules of the Hoare calculus alone.  From it follow
  which of the three assertions of \<^verbatim>\<open>end_assertions\<close> can fail, which header fields a forwarded packet
  may differ in, and that the run neither diverges nor reaches undefined behaviour.  The last section
  is about the TCP option loop on its own, with a counter as the P4 parser would have set it.
\<close>

lemma initial_options_counter_0 [simp]: "initial_options_counter d = 0"
  by (rule bit_word_eqI) (auto simp: initial_options_counter_def bit_simps)

lemma parse_tcp_options_done:
  "options_counter s = 0 \<Longrightarrow>
     parse_tcp_options w (Suc n) s =
       Next (s\<lparr>nsym := Suc (nsym s), d_tmp_0 := ucast (w (nsym s))\<rparr>)"
  by (simp add: cmd_simps counter32_def accept_def)

lemmas no_action_defs =
  NoAction_0_453126_def NoAction_1_453262_def NoAction_19_453263_def NoAction_20_453264_def
  NoAction_21_453265_def NoAction_22_453266_def NoAction_23_453267_def NoAction_24_453268_def
  NoAction_25_453269_def NoAction_26_453270_def NoAction_27_453271_def NoAction_28_453272_def
  NoAction_29_453273_def NoAction_30_453274_def NoAction_31_453275_def NoAction_32_453276_def
  NoAction_33_453277_def save_source_IP_0_453564_def increase_mincwnd_0_454461_def
  sample_new_rtt_0_454900_def set_action_run_def

lemmas action_defs =
  rewrite_mac_0_453136_def get_sender_IP_0_453622_def
  use_sample_rtt_first_0_458416_def update_flow_dupack_0_453843_def update_flow_rcvd_0_453896_def
  update_flow_retx_3dupack_0_454011_def update_flow_retx_timeout_0_454141_def
  update_flow_sent_0_454233_def set_dmac_0_454420_def record_IP_0_454487_def
  set_nhop_0_454574_def lookup_flow_map_0_454610_def lookup_flow_map_reverse_0_454672_def
  use_sample_rtt_0_459912_def read_dummy_def read_dummy2_def

lemmas table_defs =
  debug_454943_def direction_454977_def first_rtt_sample_455011_def flow_dupack_455045_def
  flow_rcvd_455079_def flow_retx_3dupack_455113_def flow_retx_timeout_455147_def
  flow_sent_455181_def increase_cwnd_455274_def init_455308_def lookup_455401_def
  lookup_reverse_455435_def sample_rtt_rcvd_455469_def sample_rtt_sent_455503_def
  switch2_def switch3_def read_symbol_def

lemmas dapper_defs = no_action_defs action_defs table_defs

lemmas check_defs =
  end_assertions_def end_assertions_dapper_def end_assertions_printf_def end_assertions_once_def
  violates_ack_def violates_dupack_def violates_ttl_def

lemmas drop_defs =
  drop_0_453154_def drop_1_454438_def drop_4_454454_def mark_to_drop_def check_defs

lemmas parser_defs =
  ParserImpl_def start_def parse_ethernet_def parse_ethernet_dapper_def parse_ethernet_ipv4_def
  parse_ethernet_other_def parse_ipv4_def parse_ipv4_dapper_def parse_ipv4_tcp_def parse_tcp_def
  parse_tcp_dapper_def parse_tcp_syn_def parse_tcp_nosyn_def accept_def set_options_counter_def

section \<open>The invariant of the pipeline\<close>

text \<open>
  \<open>intact e T s\<close>: the headers of the packet under \<open>s\<close> are those that came in, but for the validity
  bits, the two MAC addresses and the time to live, which is one of \<open>T\<close>.
\<close>

definition same_options :: "headers \<Rightarrow> headers \<Rightarrow> bool" where
  "same_options h k \<longleftrightarrow>
     h_options_end h = h_options_end k \<and> h_options_mss h = h_options_mss k \<and>
     h_options_sack h = h_options_sack k \<and> h_options_ts h = h_options_ts k \<and>
     h_options_wscale h = h_options_wscale k \<and> h_options_nop h = h_options_nop k \<and>
     h_options_nop_index h = h_options_nop_index k"

definition intact :: "headers \<Rightarrow> u8 set \<Rightarrow> headers \<Rightarrow> bool" where
  "intact h T k \<longleftrightarrow>
     eth_etherType (h_ethernet k) = eth_etherType (h_ethernet h) \<and>
     (h_ipv4 k)\<lparr>ip_isValid := 0, ip_ttl := 0\<rparr> = (h_ipv4 h)\<lparr>ip_isValid := 0, ip_ttl := 0\<rparr> \<and>
     ip_ttl (h_ipv4 k) \<in> T \<and>
     (h_tcp k)\<lparr>tcp_isValid := 0\<rparr> = (h_tcp h)\<lparr>tcp_isValid := 0\<rparr> \<and> same_options k h"

abbreviation ttl_in :: "dapper_env \<Rightarrow> u8" where
  "ttl_in e \<equiv> ip_ttl (h_ipv4 (e_hdr e))"

definition pipeline_inv :: "dapper_env \<Rightarrow> u8 set \<Rightarrow> dapper_state \<Rightarrow> bool" where
  "pipeline_inv e T s \<longleftrightarrow>
     reports s = [] \<and> d_assert_forward s \<and>
     (d_hdr_tcp_ack_453638 s \<longrightarrow> d_traverse_453638 s) \<and> \<not> d_dupack_le_3_454027 s \<and>
     d_ttl_eq_0_455545 s = (ttl_in e = 0) \<and>
     d_constants s = save_constants (h_tcp (d_hdr s)) \<and> intact (e_hdr e) T (d_hdr s)"

text \<open>The states in which the program has called \<^verbatim>\<open>exit\<close>.\<close>

definition dropped :: "dapper_env \<Rightarrow> u8 set \<Rightarrow> int \<Rightarrow> dapper_state \<Rightarrow> bool" where
  "dropped e T k s \<longleftrightarrow>
     k = 0 \<and> reports s = [] \<and> \<not> d_assert_forward s \<and>
     d_constants s = save_constants (h_tcp (d_hdr s)) \<and> intact (e_hdr e) T (d_hdr s)"

lemmas inv_defs = pipeline_inv_def dropped_def intact_def same_options_def

named_theorems pipeline_triples \<open>every table keeps the invariant of the pipeline\<close>

lemma pipeline_tables [pipeline_triples]:
  "triple (pipeline_inv e T) (debug_454943 w) (pipeline_inv e T) R"
  "triple (pipeline_inv e T) (direction_454977 w) (pipeline_inv e T) R"
  "triple (pipeline_inv e T) (first_rtt_sample_455011 w) (pipeline_inv e T) R"
  "triple (pipeline_inv e T) (flow_dupack_455045 w) (pipeline_inv e T) R"
  "triple (pipeline_inv e T) (flow_rcvd_455079 w) (pipeline_inv e T) R"
  "triple (pipeline_inv e T) (flow_retx_timeout_455147 w) (pipeline_inv e T) R"
  "triple (pipeline_inv e T) (flow_sent_455181 w) (pipeline_inv e T) R"
  "triple (pipeline_inv e T) (increase_cwnd_455274 w) (pipeline_inv e T) R"
  "triple (pipeline_inv e T) (init_455308 w) (pipeline_inv e T) R"
  "triple (pipeline_inv e T) (lookup_455401 w) (pipeline_inv e T) R"
  "triple (pipeline_inv e T) (lookup_reverse_455435 w) (pipeline_inv e T) R"
  "triple (pipeline_inv e T) (sample_rtt_rcvd_455469 w) (pipeline_inv e T) R"
  "triple (pipeline_inv e T) (sample_rtt_sent_455503 w) (pipeline_inv e T) R"
  by (simp_all add: triple_def dapper_defs cmd_simps inv_defs)

text \<open>The table of the third duplicate acknowledgement is applied behind its guard only.\<close>

lemma pipeline_retx_3dupack [pipeline_triples]:
  "triple (\<lambda>s. pipeline_inv e T s \<and> sm_dupack (stats s) = 3) (flow_retx_3dupack_455113 w)
     (pipeline_inv e T) R"
  by (simp add: triple_def dapper_defs cmd_simps inv_defs)

lemma pipeline_forward [pipeline_triples]:
  "triple (pipeline_inv e T) (forward_455215 f w) (pipeline_inv e T) (dropped e T)"
  by (auto simp: triple_def forward_455215_def dapper_defs cmd_simps drop_defs inv_defs)

lemma pipeline_send_frame [pipeline_triples]:
  "triple (pipeline_inv e T) (send_frame_453170 f w) (pipeline_inv e T) (dropped e T)"
  by (auto simp: triple_def send_frame_453170_def send_frame_dapper_def dapper_defs cmd_simps Let_def
      drop_defs inv_defs)

lemma pipeline_ipv4_lpm [pipeline_triples]:
  "triple (pipeline_inv e {t}) (ipv4_lpm_455342 f w) (pipeline_inv e {t, t - 1}) (dropped e {t, t - 1})"
  by (auto simp: triple_def ipv4_lpm_455342_def dapper_defs cmd_simps drop_defs inv_defs)

lemma pipeline_skip [pipeline_triples]: "triple P skip P R"
  by (rule triple_skip)

lemmas pipeline_rules =
  triple_block_inv triple_block_Nil triple_cond_inv pipeline_triples

lemma pipeline_sender: "triple (pipeline_inv e T) (sender_side w) (pipeline_inv e T) R"
  unfolding sender_side_def
proof (rule triple_cond_inv)
  show "triple (pipeline_inv e T) (block [flow_sent_455181 w,
          cond (\<lambda>s. sm_sample_rtt_seq (stats s) = 0) (sample_rtt_sent_455503 w) skip,
          cond (\<lambda>s. sm_dummy (stats s) > sm_mincwnd (stats s)) (increase_cwnd_455274 w) skip])
        (pipeline_inv e T) R"
    by (intro pipeline_rules)
  show "triple (pipeline_inv e T)
     (cond (\<lambda>s. sm_dupack (stats s) = 3) (flow_retx_3dupack_455113 w) (flow_retx_timeout_455147 w))
     (pipeline_inv e T) R"
    by (rule triple_cond) (auto intro: pipeline_triples triple_pre)
qed

lemma pipeline_receiver: "triple (pipeline_inv e T) (receiver_side w) (pipeline_inv e T) R"
  unfolding receiver_side_def by (intro pipeline_rules)

lemma pipeline_tcp: "triple (pipeline_inv e T) (tcp_pipeline w) (pipeline_inv e T) R"
  unfolding tcp_pipeline_def by (intro pipeline_rules pipeline_sender pipeline_receiver)

section \<open>Parser and controls\<close>

definition parsed :: "dapper_env \<Rightarrow> dapper_state \<Rightarrow> bool" where
  "parsed e s \<longleftrightarrow>
     reports s = [] \<and> d_assert_forward s \<and> \<not> d_hdr_tcp_ack_453638 s \<and> \<not> d_dupack_le_3_454027 s \<and>
     intact (e_hdr e) {ttl_in e} (d_hdr s)"

lemma parser_parsed:
  "triple (\<lambda>s. s = dapper_globals) (ParserImpl Dapper_c e (Suc n)) (parsed e) R"
  by (auto simp: triple_def parser_defs cmd_simps parse_tcp_options_done parsed_def inv_defs
      dapper_globals_def simp del: parse_tcp_options.simps)

lemma ingress_head:
  "triple (parsed e)
     (block [modify (\<lambda>s. s\<lparr>d_ttl_eq_0_455545 := ip_ttl (h_ipv4 (d_hdr s)) = 0\<rparr>),
        modify (\<lambda>s. s\<lparr>d_constants := save_constants (h_tcp (d_hdr s))\<rparr>)])
     (pipeline_inv e {ttl_in e}) R"
  by (simp add: triple_def cmd_simps parsed_def pipeline_inv_def intact_def)

text \<open>
  The control flow of \<^verbatim>\<open>ingress\<close> around its two tables that may drop, for any contract of these.
\<close>

lemma ingress_rule:
  assumes "triple (pipeline_inv e {ttl_in e}) (ipv4_lpm_455342 f w) Q R"
    and "triple Q (forward_455215 f w) Q' R"
  shows "triple (parsed e) (ingress f w) Q' R"
proof -
  have "triple (parsed e)
     (block ([modify (\<lambda>s. s\<lparr>d_ttl_eq_0_455545 := ip_ttl (h_ipv4 (d_hdr s)) = 0\<rparr>),
        modify (\<lambda>s. s\<lparr>d_constants := save_constants (h_tcp (d_hdr s))\<rparr>)] @
       [cond (\<lambda>s. ip_protocol (h_ipv4 (d_hdr s)) = 6) (tcp_pipeline w) skip,
        ipv4_lpm_455342 f w, forward_455215 f w])) Q' R"
    by (intro triple_block_append [OF ingress_head] triple_block_Cons [OF triple_cond_inv, OF pipeline_tcp pipeline_skip]
        triple_block_Cons [OF assms(1)] triple_block_Cons [OF assms(2)] triple_block_Nil)
  then show ?thesis
    by (simp add: ingress_def)
qed

definition ttl_verdict :: "dapper_env \<Rightarrow> report list" where
  "ttl_verdict e = (if ttl_in e = 0 then [Print_once 2 (msg_ttl @ newline)] else [])"

definition forwarded :: "dapper_env \<Rightarrow> u8 set \<Rightarrow> dapper_state \<Rightarrow> bool" where
  "forwarded e T s \<longleftrightarrow>
     reports s = ttl_verdict e \<and> d_assert_forward s \<and>
     d_constants s = save_constants (h_tcp (d_hdr s)) \<and> intact (e_hdr e) T (d_hdr s)"

lemma final_checks:
  "triple (pipeline_inv e T) (end_assertions Dapper_c) (forwarded e T) R"
  by (auto simp: triple_def check_defs cmd_simps pipeline_inv_def forwarded_def ttl_verdict_def
      intact_def)

lemma main_rule:
  assumes "triple (pipeline_inv e {ttl_in e}) (ipv4_lpm_455342 Dapper_c (e_inputs e)) (pipeline_inv e T) R"
    and "triple (pipeline_inv e T) (forward_455215 Dapper_c (e_inputs e)) (pipeline_inv e T) R"
    and "triple (pipeline_inv e T) (send_frame_453170 Dapper_c (e_inputs e)) (pipeline_inv e T) R"
  shows "triple (\<lambda>s. s = dapper_globals) (dapper_main Dapper_c e (Suc n)) (forwarded e T) R"
  unfolding dapper_main_def egress_def
  by (intro triple_block_Cons [OF parser_parsed] triple_block_Cons [OF ingress_rule [OF assms(1,2)]]
      triple_block_Cons [OF assms(3)] triple_block_Cons [OF final_checks] triple_block_Nil)

lemma run_cases:
  "(\<exists>s. run_dapper Dapper_c e (Suc n) = Next s \<and> forwarded e {ttl_in e, ttl_in e - 1} s) \<or>
   (\<exists>s. run_dapper Dapper_c e (Suc n) = Exited 0 s \<and> dropped e {ttl_in e, ttl_in e - 1} 0 s)"
proof -
  have "triple (\<lambda>s. s = dapper_globals) (dapper_main Dapper_c e (Suc n))
     (forwarded e {ttl_in e, ttl_in e - 1}) (dropped e {ttl_in e, ttl_in e - 1})"
    by (rule main_rule) (rule pipeline_triples)+
  from tripleD [OF this, of dapper_globals] show ?thesis
    by (auto simp: run_dapper_def dropped_def)
qed

section \<open>What a run does\<close>

text \<open>
  Claim C1. For every packet and every choice of the tables, \<^verbatim>\<open>dapper.c\<close> ends normally or exits with
  code 0.  If it exits, the packet was dropped and nothing is reported.  If it ends normally, the only
  assertion that is reported is the one on the time to live, and it is reported exactly when the packet
  came in with time to live 0.  No run diverges, reaches undefined behaviour or fails an assumption.
\<close>

theorem dapper_assertions:
  "case run_dapper Dapper_c e (Suc n) of
     Next s \<Rightarrow> reports s = (if ip_ttl (h_ipv4 (e_hdr e)) = 0 then [Print_once 2 (msg_ttl @ newline)] else [])
   | Exited k s \<Rightarrow> k = 0 \<and> reports s = [] \<and> \<not> d_assert_forward s
   | _ \<Rightarrow> False"
  using run_cases [of e n] by (auto simp: forwarded_def dropped_def ttl_verdict_def)

text \<open>
  Claim C17. Whether the packet is forwarded or dropped, \<^verbatim>\<open>dapper.c\<close> leaves its headers as they came
  in, but for the validity bits, the MAC addresses and the time to live, which is kept or decremented
  once (modulo 256); and the 15 TCP fields still have the values that \<^verbatim>\<open>ingress\<close> saved for the
  constancy assertions (\<^verbatim>\<open>constant_hdr_tcp_*\<close>).
\<close>

theorem dapper_headers_intact:
  "intact (e_hdr e) {ttl_in e, ttl_in e - 1} (d_hdr (final (run_dapper Dapper_c e (Suc n)))) \<and>
   d_constants (final (run_dapper Dapper_c e (Suc n))) =
     save_constants (h_tcp (d_hdr (final (run_dapper Dapper_c e (Suc n)))))"
  using run_cases [of e n] by (auto simp: forwarded_def dropped_def)

text \<open>The runs in which every table takes its default action.\<close>

lemma quiet_tables:
  "e_inputs e = (\<lambda>_. 2) \<Longrightarrow> triple (pipeline_inv e T) (ipv4_lpm_455342 f (e_inputs e)) (pipeline_inv e T) R"
  "e_inputs e = (\<lambda>_. 2) \<Longrightarrow> triple (pipeline_inv e T) (forward_455215 f (e_inputs e)) (pipeline_inv e T) R"
  "e_inputs e = (\<lambda>_. 2) \<Longrightarrow> triple (pipeline_inv e T) (send_frame_453170 Dapper_c (e_inputs e)) (pipeline_inv e T) R"
  by (simp_all add: triple_def ipv4_lpm_455342_def forward_455215_def send_frame_453170_def
      send_frame_dapper_def dapper_defs cmd_simps inv_defs Let_def)

lemma quiet_run:
  assumes "e_inputs e = (\<lambda>_. 2)"
  shows "\<exists>s. run_dapper Dapper_c e (Suc n) = Next s \<and> forwarded e {ttl_in e} s"
proof -
  have "triple (\<lambda>s. s = dapper_globals) (dapper_main Dapper_c e (Suc n)) (forwarded e {ttl_in e})
    (\<lambda>_ _. False)"
    using assms by (intro main_rule quiet_tables)
  from tripleD [OF this, of dapper_globals] show ?thesis
    by (simp add: run_dapper_def)
qed

text \<open>
  Any packet can be forwarded with time to live 0: some choice of the tables makes
  \<^verbatim>\<open>dapper.c\<close> forward it and report the violated assertion, because the program never looks at the
  field before it forwards.
\<close>

theorem dapper_ttl_zero_forwarded:
  "\<exists>w s. run_dapper Dapper_c
     \<lparr>e_hdr = h_ipv4_update (ip_ttl_update (\<lambda>_. 0)) h, e_meta = m, e_std = st, e_inputs = w\<rparr> (Suc n) = Next s \<and>
     d_assert_forward s \<and> reports s = [Print_once 2 (msg_ttl @ newline)]"
  using quiet_run [of "\<lparr>e_hdr = h_ipv4_update (ip_ttl_update (\<lambda>_. 0)) h, e_meta = m, e_std = st, e_inputs = (\<lambda>_. 2)\<rparr>" n]
  by (auto simp: forwarded_def ttl_verdict_def)

text \<open>
  The parser accepts every packet after at most one round of the option loop, and without
  marking any TCP option as valid: the initial value of the option counter is 0 for every data offset,
  since \<^verbatim>\<open>dataOffset << 2 + 12\<close> shifts by 14 and is cut to 8 bits.
\<close>

theorem dapper_options_ignored:
  "\<exists>s. ParserImpl Dapper_c e (Suc n) dapper_globals = Next s \<and> same_options (d_hdr s) (e_hdr e)"
  using tripleD [OF parser_parsed [of e n "\<lambda>_ _. False"], of dapper_globals]
  by (auto simp: parsed_def intact_def)

section \<open>The option loop\<close>

text \<open>
  The length of each option, the header that its state of the parser marks, and the bound on the number
  of no-operation options, whose headers are an array of three.
\<close>

definition option_length :: "u8 \<Rightarrow> nat" where
  "option_length k =
     (if k = 0 \<or> k = 1 then 1 else if k = 2 then 4 else if k = 3 then 3
      else if k = 4 then 2 else if k = 8 then 10 else 0)"

definition mark_option :: "u8 \<Rightarrow> headers \<Rightarrow> headers" where
  "mark_option k =
     (if k = 0 then h_options_end_update (oend_isValid_update (\<lambda>_. 1))
      else if k = 1 then set_nop_valid
      else if k = 2 then h_options_mss_update (omss_isValid_update (\<lambda>_. 1))
      else if k = 3 then h_options_wscale_update (ows_isValid_update (\<lambda>_. 1))
      else if k = 4 then h_options_sack_update (osack_isValid_update (\<lambda>_. 1))
      else h_options_ts_update (ots_isValid_update (\<lambda>_. 1)))"

definition recognised :: "u8 \<Rightarrow> bool" where
  "recognised k \<longleftrightarrow> k \<in> {0, 1, 2, 3, 4, 8}"

definition nops_fit :: "headers \<Rightarrow> u8 list \<Rightarrow> bool" where
  "nops_fit h ks \<longleftrightarrow> 0 \<le> sint (h_options_nop_index h) \<and>
     sint (h_options_nop_index h) + int (length (filter (\<lambda>k. k = 1) ks)) \<le> 3"

lemma kind_slice [simp]: "BITSLICE (ucast (k :: u8)) 7 0 AND 255 = ucast k"
proof (rule bit_word_eqI)
  fix i
  assume "i < LENGTH(32)"
  have "mask 8 = (255 :: u32)" by (simp add: mask_eq_exp_minus_1)
  then show "bit (BITSLICE (ucast k) 7 0 AND 255) i = bit (ucast k :: u32) i"
    by (auto simp: BITSLICE_def bit_simps simp flip: \<open>mask 8 = 255\<close> dest: bit_imp_le_length)
qed

lemma ucast_ucast_u8: "ucast (ucast (k :: u8) :: u32) = k"
  by (rule bit_word_eqI) (simp add: bit_simps)

lemma ucast_eq_u8 [simp]: "ucast (k :: u8) = (ucast j :: u32) \<longleftrightarrow> k = j"
  by (metis ucast_ucast_u8)

definition option_step :: "u8 \<Rightarrow> dapper_state \<Rightarrow> dapper_state" where
  "option_step k s = on_counter (\<lambda>c. c - of_nat (option_length k))
     (d_hdr_update (mark_option k) (s\<lparr>nsym := Suc (nsym s), d_tmp_0 := k\<rparr>))"

lemma counter_steps:
  "(c :: u8) + 255 = c - 1" "(c :: u8) + 254 = c - 2" "(c :: u8) + 253 = c - 3"
  "(c :: u8) + 252 = c - 4" "(c :: u8) + 246 = c - 10"
  by (subst eq_diff_eq, simp add: add.assoc)+

lemma masked_u8: "ucast (c :: u8) AND 255 = (ucast c :: u32)"
proof -
  have "ucast c AND 255 = (take_bit 8 (ucast c) :: u32)"
    by (simp add: take_bit_eq_mask mask_eq_exp_minus_1)
  also have "\<dots> = ucast c"
    by (rule bit_word_eqI) (auto simp: bit_simps dest: bit_imp_le_length)
  finally show ?thesis .
qed


lemma one_option:
  assumes "recognised k" and "ucast (w (nsym s)) = k" and "options_counter s \<noteq> 0"
     and "k = 1 \<longrightarrow> nop_in_range s"
  shows "parse_tcp_options w (Suc n) s = parse_tcp_options w n (option_step k s)"
proof -
  have slice: "BITSLICE (ucast k) 7 0 AND 255 = (ucast k :: u32)" by simp
  have c: "ucast (options_counter s) AND 255 \<noteq> (0 :: u32)"
    using assms(3) masked_u8 ucast_eq_u8 [of _ 0] by simp
  from assms(1) consider "k = 0" | "k = 1" | "k = 2" | "k = 3" | "k = 4" | "k = 8"
    by (auto simp: recognised_def)
  then show ?thesis
    by cases (use assms slice c in \<open>simp_all add: cmd_simps counter32_def tmp32_def mark_option_def option_step_def nop_in_range_def counter_steps option_length_def\<close>)
qed

lemma mark_option_index:
  "h_options_nop_index (mark_option k h) = h_options_nop_index h + (if k = 1 then 1 else 0)"
  by (simp add: mark_option_def set_nop_valid_def Let_def)

lemma sint_Suc: "0 \<le> sint (i :: u32) \<Longrightarrow> sint i < 3 \<Longrightarrow> sint (i + 1) = sint i + 1"
proof -
  assume "0 \<le> sint i" "sint i < 3"
  then consider "sint i = 0" | "sint i = 1" | "sint i = 2"
    by linarith
  moreover have "i = word_of_int (sint i)"
    by simp
  ultimately consider "i = 0" | "i = 1" | "i = 2"
    by cases auto
  then show ?thesis
    by cases simp_all
qed

lemma nops_fit_Cons:
  assumes "nops_fit h (k # ks)"
  shows "nops_fit (mark_option k h) ks"
    and "k = 1 \<Longrightarrow> 0 \<le> sint (h_options_nop_index h) \<and> sint (h_options_nop_index h) < 3"
  using assms sint_Suc [of "h_options_nop_index h"] by (auto simp: nops_fit_def mark_option_index)

lemma option_step_simps [simp]:
  "nsym (option_step k s) = Suc (nsym s)" "d_hdr (option_step k s) = mark_option k (d_hdr s)"
  "options_counter (option_step k s) = options_counter s - of_nat (option_length k)"
  by (simp_all add: option_step_def)

lemma option_length_pos: "recognised k \<Longrightarrow> 0 < option_length k"
  by (auto simp: recognised_def option_length_def)

lemma counter_sub: "j \<le> unat (c :: u8) \<Longrightarrow> unat (c - of_nat j) = unat c - j"
proof -
  assume j: "j \<le> unat c"
  then have "unat (of_nat j :: u8) = j"
    using unsigned_less [of c, where ?'a = nat] by (simp add: unat_of_nat)
  with j show ?thesis
    by (simp add: unat_sub word_le_nat_alt)
qed

lemma options_loop:
  assumes "\<forall>k \<in> set ks. recognised k" and "\<forall>i < length ks. ucast (w (nsym s + i)) = ks ! i"
    and "unat (options_counter s) = sum_list (map option_length ks)" and "nops_fit (d_hdr s) ks"
  shows "parse_tcp_options w (Suc (length ks) + n) s =
     parse_tcp_options w (Suc n) (fold option_step ks s)"
  using assms
proof (induction ks arbitrary: s)
  case (Cons k ks)
  have len: "unat (options_counter s) = option_length k + sum_list (map option_length ks)"
    using Cons.prems(3) by simp
  have pos: "0 < option_length k"
    using Cons.prems(1) option_length_pos by simp
  have "unat (options_counter (option_step k s)) = sum_list (map option_length ks)"
    using len counter_sub [of "option_length k" "options_counter s"] by simp
  moreover have "\<forall>i < length ks. ucast (w (nsym (option_step k s) + i)) = ks ! i"
    using Cons.prems(2) by fastforce
  moreover have "nops_fit (d_hdr (option_step k s)) ks"
    using nops_fit_Cons(1) [OF Cons.prems(4)] by simp
  ultimately have "parse_tcp_options w (Suc (length ks) + n) (option_step k s) =
      parse_tcp_options w (Suc n) (fold option_step ks (option_step k s))"
    using Cons.IH [of "option_step k s"] Cons.prems(1) by simp
  moreover have "parse_tcp_options w (Suc (Suc (length ks) + n)) s = parse_tcp_options w (Suc (length ks) + n) (option_step k s)"
  proof (rule one_option)
    show "options_counter s \<noteq> 0"
      using len pos by auto
    show "k = 1 \<longrightarrow> nop_in_range s"
      using nops_fit_Cons(2) [OF Cons.prems(4)] by (simp add: nop_in_range_def)
    show "ucast (w (nsym s)) = k"
      using Cons.prems(2) by force
  qed (use Cons.prems(1) in simp)
  ultimately show ?case
    by simp
qed simp

lemma fold_option_step:
  "nsym (fold option_step ks s) = nsym s + length ks"
  "d_hdr (fold option_step ks s) = fold mark_option ks (d_hdr s)"
  "options_counter (fold option_step ks s) =
     options_counter s - of_nat (sum_list (map option_length ks))"
  by (induction ks arbitrary: s) (simp_all add: algebra_simps)

text \<open>
  The option loop on its own is right: when the counter is the total length of a sequence of
  recognised options, of which at most three are no-operation options, and the kinds of these options are
  what the loop reads, then it accepts after one round per option and a last one, with the header of
  each option marked as valid and the counter at 0.
\<close>

theorem options_parsed:
  assumes "\<forall>k \<in> set ks. recognised k" and "\<forall>i < length ks. ucast (w (nsym s + i)) = ks ! i"
    and "unat (options_counter s) = sum_list (map option_length ks)" and "nops_fit (d_hdr s) ks"
  shows "\<exists>t. parse_tcp_options w (Suc (length ks) + n) s = Next t \<and>
     d_hdr t = fold mark_option ks (d_hdr s) \<and> options_counter t = 0 \<and>
     nsym t = Suc (nsym s + length ks)"
proof -
  have "options_counter (fold option_step ks s) = 0"
    unfolding fold_option_step assms(3) [symmetric] by simp
  then show ?thesis
    unfolding options_loop [OF assms]
    by (simp add: parse_tcp_options_done fold_option_step del: parse_tcp_options.simps)
qed

text \<open>
  A SYN with the options MSS, SACK-permitted, timestamps, no-operation and window scale, 20 bytes in all.
\<close>

definition syn_options :: "u8 list" where
  "syn_options = [2, 4, 8, 1, 3]"

definition syn_inputs :: inputs where
  "syn_inputs i = (if i < length syn_options then ucast (syn_options ! i) else 0)"

definition syn_state :: dapper_state where
  "syn_state = on_counter (\<lambda>_. 20) dapper_globals"

lemma ucast_ucast_u8_u64: "ucast (ucast (k :: u8) :: u64) = k"
  by (rule bit_word_eqI) (simp add: bit_simps)

theorem options_parsed_witness:
  "\<exists>t. parse_tcp_options syn_inputs 6 syn_state = Next t \<and>
     d_hdr t = fold mark_option syn_options (d_hdr syn_state) \<and> options_counter t = 0 \<and> nsym t = 6"
proof -
  have kinds: "\<forall>k \<in> set syn_options. recognised k"
    by (simp add: syn_options_def recognised_def)
  have start: "nsym syn_state = 0" "length syn_options = 5"
    by (simp_all add: syn_state_def dapper_globals_def syn_options_def)
  then have read: "\<forall>i < length syn_options. ucast (syn_inputs (nsym syn_state + i)) = syn_options ! i"
    by (simp add: syn_inputs_def ucast_ucast_u8_u64)
  have total: "unat (options_counter syn_state) = sum_list (map option_length syn_options)"
    by (simp add: syn_state_def syn_options_def option_length_def)
  have "nops_fit (d_hdr syn_state) syn_options"
    by (simp add: nops_fit_def syn_state_def dapper_globals_def zero_headers_def syn_options_def)
  from options_parsed [OF kinds read total this, of 0] show ?thesis
    by (simp add: start del: parse_tcp_options.simps)
qed

text \<open>
  Claim C22. The loop has no bound of its own: from an odd counter, a packet of SACK-permitted options
  (length 2) keeps it going past every fuel, since the counter wraps around 0 without ever being 0.
\<close>

theorem options_diverge:
  assumes "odd (options_counter s)"
  shows "\<exists>t. parse_tcp_options (\<lambda>_. 4) n s = Out_of_fuel t"
  using assms
proof (induction n arbitrary: s)
  case 0
  show ?case by (simp add: out_of_fuel_def)
next
  case (Suc n)
  from Suc.prems have "odd (options_counter (option_step 4 s))"
    by (simp add: option_length_def)
  then have "\<exists>t. parse_tcp_options (\<lambda>_. 4) n (option_step 4 s) = Out_of_fuel t"
    by (rule Suc.IH)
  moreover have "parse_tcp_options (\<lambda>_. 4) (Suc n) s = parse_tcp_options (\<lambda>_. 4) n (option_step 4 s)"
    using Suc.prems by (intro one_option) (auto simp: recognised_def)
  ultimately show ?case
    by (simp only: )
qed

theorem options_diverge_witness:
  "odd (5 :: u8) \<and> (\<exists>t. parse_tcp_options (\<lambda>_. 4) 1000 (on_counter (\<lambda>_. 5) dapper_globals) = Out_of_fuel t)"
  using options_diverge [of "on_counter (\<lambda>_. 5) dapper_globals" 1000] by simp

end
