(* ===== verification/Dapper_Split.thy ===== *)
theory Dapper_Split
  imports Dapper_Correct
begin

text \<open>
  The copies of \<^verbatim>\<open>dapper.c\<close> for parallel symbolic execution.  Each fixes the outcome of one or two
  branches of the parser with \<^verbatim>\<open>klee_assume\<close> and the action of the egress table, so that together they
  explore what the original explores.  That they do so exactly is the content of this theory: the sets
  of behaviours, over all input streams, are related by unions.

  The copies make one symbolic object less than the original, which moves every later input by one
  place; that this does no harm rests on the program reading its inputs in order (\<open>causal\<close>).
\<close>

section \<open>The program reads its inputs in order\<close>

lemmas option_state_simps =
  parse_tcp_options.simps parse_end.simps parse_mss.simps parse_nop.simps parse_sack.simps
  parse_ts.simps parse_wscale.simps

lemma causal_parse_tcp_options: "causal (\<lambda>w. parse_tcp_options w n)"
proof (induction n)
  case 0
  show ?case by (simp add: causal_const out_of_fuel_def)
next
  case (Suc n)
  show ?case
    unfolding option_state_simps accept_def by (intro causal_rules Suc; simp)
qed

lemma causal_action [causal_rules]: "causal (\<lambda>_. set_action_run k)"
  unfolding set_action_run_def by (intro causal_rules) simp

lemma causal_checks [causal_rules]: "causal (\<lambda>_. end_assertions f)"
  by (rule causal_const) (simp add: check_defs cmd_simps)

lemma causal_parse_tcp: "causal (\<lambda>w. parse_tcp f w n)"
  unfolding parse_tcp_def parse_tcp_dapper_def parse_tcp_syn_def parse_tcp_nosyn_def accept_def
  by (intro causal_rules causal_parse_tcp_options; simp add: set_options_counter_def)

lemma causal_parse_ipv4: "causal (\<lambda>w. parse_ipv4 f w n)"
  unfolding parse_ipv4_def parse_ipv4_dapper_def parse_ipv4_tcp_def accept_def
  by (intro causal_rules causal_parse_tcp; simp)

lemma causal_parse_ethernet: "causal (\<lambda>w. parse_ethernet f w n)"
  unfolding parse_ethernet_def parse_ethernet_dapper_def
    parse_ethernet_ipv4_def parse_ethernet_other_def accept_def
  by (intro causal_rules causal_parse_ipv4; simp)

lemma causal_parser: "causal (\<lambda>w. ParserImpl f (e\<lparr>e_inputs := w\<rparr>) n)"
proof -
  have eq: "(\<lambda>w. ParserImpl f (e\<lparr>e_inputs := w\<rparr>) n) = (\<lambda>w. block
    [modify (d_hdr_update (\<lambda>_. e_hdr e)), modify (d_meta_update (\<lambda>_. e_meta e)),
     modify (d_std_update (\<lambda>_. e_std e)), parse_ethernet f w n])"
    by (simp add: ParserImpl_def start_def)
  show ?thesis
    unfolding eq by (intro causal_rules causal_parse_ethernet) simp_all
qed

lemma causal_ingress: "causal (\<lambda>w. ingress f w)"
  unfolding ingress_def tcp_pipeline_def sender_side_def receiver_side_def dapper_defs
    ipv4_lpm_455342_def forward_455215_def drop_4_454454_def drop_1_454438_def mark_to_drop_def
  by (intro causal_rules; simp)

section \<open>What is observed of a run\<close>

text \<open>
  The copies print the third assertion with \<^verbatim>\<open>printf\<close> or \<^verbatim>\<open>klee_print_once\<close>, with or without a
  newline; what is observed of a run is how it ended, the final values of the globals and the texts of
  the assertions reported.
\<close>

definition assertion :: "report \<Rightarrow> string" where
  "assertion r = takeWhile (\<lambda>c. c \<noteq> CHR 0x0A) (case r of Print_once _ m \<Rightarrow> m | Printf m \<Rightarrow> m)"

definition observe :: "dapper_state outcome \<Rightarrow> (dapper_state \<times> string list) outcome" where
  "observe = map_outcome (\<lambda>s. (s\<lparr>nsym := 0, reports := []\<rparr>, map assertion (reports s)))"

lemma assertion_msgs [simp]:
  "assertion (Print_once i msg_ack) = msg_ack" "assertion (Print_once i msg_dupack) = msg_dupack"
  "assertion (Print_once i msg_ttl) = msg_ttl" "assertion (Print_once i (msg_ttl @ newline)) = msg_ttl"
  "assertion (Printf (msg_ttl @ newline)) = msg_ttl"
  by (simp_all add: assertion_def msg_ack_def msg_dupack_def msg_ttl_def newline_def)

definition failed_assertions :: "dapper_state \<Rightarrow> string list" where
  "failed_assertions s =
     (if violates_ack s then [msg_ack] else []) @ (if violates_dupack s then [msg_dupack] else []) @
     (if violates_ttl s then [msg_ttl] else [])"

lemma violates_frame [simp]:
  "violates_ack (s\<lparr>reports := r\<rparr>) = violates_ack s" "violates_ack (s\<lparr>nsym := k\<rparr>) = violates_ack s"
  "violates_dupack (s\<lparr>reports := r\<rparr>) = violates_dupack s"
  "violates_dupack (s\<lparr>nsym := k\<rparr>) = violates_dupack s"
  "violates_ttl (s\<lparr>reports := r\<rparr>) = violates_ttl s" "violates_ttl (s\<lparr>nsym := k\<rparr>) = violates_ttl s"
  by (simp_all add: violates_ack_def violates_dupack_def violates_ttl_def)

definition ttl_report :: "dapper_file \<Rightarrow> report" where
  "ttl_report f =
     (if f = Dapper_c then Print_once 2 (msg_ttl @ newline)
      else if f \<in> {A11, A12, A13, A21, A22, A23} then Print_once 2 msg_ttl
      else Printf (msg_ttl @ newline))"

definition failed_reports :: "dapper_file \<Rightarrow> dapper_state \<Rightarrow> report list" where
  "failed_reports f s =
     (if violates_ack s then [Print_once 0 msg_ack] else []) @
     (if violates_dupack s then [Print_once 1 msg_dupack] else []) @
     (if violates_ttl s then [ttl_report f] else [])"

lemma assertion_failed_reports: "map assertion (failed_reports f s) = failed_assertions s"
  by (simp add: failed_reports_def failed_assertions_def ttl_report_def)

lemma end_assertions_block:
  "end_assertions f = block
    [report_if violates_ack (Print_once 0 msg_ack),
     report_if violates_dupack (Print_once 1 msg_dupack),
     report_if violates_ttl (ttl_report f)]"
  by (simp add: end_assertions_def end_assertions_dapper_def end_assertions_printf_def
      end_assertions_once_def ttl_report_def)

lemma end_assertions_Next:
  "end_assertions f s = Next (s\<lparr>reports := reports s @ failed_reports f s\<rparr>)"
  by (simp add: end_assertions_block report_if_def failed_reports_def)

lemma observe_checks:
  "observe (end_assertions f s) = 
     Next (s\<lparr>nsym := 0, reports := []\<rparr>, map assertion (reports s) @ failed_assertions s)"
  by (simp add: observe_def end_assertions_Next assertion_failed_reports)

lemma failed_assertions_nsym [simp]: "failed_assertions (s\<lparr>nsym := k\<rparr>) = failed_assertions s"
  by (simp add: failed_assertions_def)

definition sim :: "dapper_state outcome \<Rightarrow> dapper_state outcome \<Rightarrow> bool" where
  "sim r r' \<longleftrightarrow> observe r = observe r' \<and> (is_Next r \<or> is_Next r' \<longrightarrow> r = r')"

lemma sim_refl [intro, simp]: "sim r r"
  by (simp add: sim_def)

lemma sim_observe: "sim r r' \<Longrightarrow> observe r = observe r'"
  by (simp add: sim_def)

lemma sim_Next: "sim (Next t) r \<longleftrightarrow> r = Next t" "sim r (Next t) \<longleftrightarrow> r = Next t"
  by (auto simp: sim_def)

lemma sim_block:
  assumes "sim (c s) (d s)" and "\<And>t. sim (block cs t) (block ds t)"
  shows "sim (block (c # cs) s) (block (d # ds) s)"
proof (cases "is_Next (c s) \<or> is_Next (d s)")
  case True
  with assms(1) obtain t where "c s = Next t" "d s = Next t"
    by (metis sim_def outcome.disc(1) is_Next_def)
  with assms(2) [of t] show ?thesis
    by (simp only: block_Next)
next
  case False
  with assms(1) show ?thesis
    by (simp add: block_stop del: block.simps)
qed

lemma observe_mark_to_drop:
  "observe (mark_to_drop f s) =
     Exited 0 (s\<lparr>nsym := 0, reports := [], d_assert_forward := False\<rparr>,
       map assertion (reports s) @ failed_assertions (s\<lparr>d_assert_forward := False\<rparr>))"
  by (simp add: mark_to_drop_def modify_def exit_with_def observe_def end_assertions_Next
      assertion_failed_reports)

lemma sim_mark_to_drop: "sim (mark_to_drop f s) (mark_to_drop g s)"
proof -
  have "\<not> is_Next (mark_to_drop h s)" for h
    using observe_mark_to_drop [of h s] by (cases "mark_to_drop h s") (simp_all add: observe_def)
  then show ?thesis
    by (simp add: sim_def observe_mark_to_drop)
qed

lemma sim_drops:
  "sim (drop_0_453154 f s) (drop_0_453154 g s)"
  "sim (drop_1_454438 f s) (drop_1_454438 g s)"
  "sim (drop_4_454454 f s) (drop_4_454454 g s)"
  by (simp_all add: drop_0_453154_def drop_1_454438_def drop_4_454454_def set_action_run_def
      cmd_simps sim_mark_to_drop)

lemma sim_switch3: "(\<And>t. sim (d t) (d' t)) \<Longrightarrow> sim (switch3 w c d a s) (switch3 w c d' a s)"
  by (simp add: switch3_def read_symbol_def cmd_simps)

lemma sim_ingress: "sim (ingress f w s) (ingress g w s)"
  unfolding ingress_def ipv4_lpm_455342_def forward_455215_def
  by (intro sim_block sim_refl sim_switch3 sim_drops)

section \<open>The egress table of the copies\<close>

text \<open>
  A run is its \<open>front\<close> (parser and ingress), which every copy shares with the file it was made of as far
  as the parser lets the packet through, and its \<open>rear\<close> (egress and assertions), where the copy fixes
  the action that the original chooses by a symbolic value.
\<close>

definition front :: "dapper_file \<Rightarrow> dapper_env \<Rightarrow> nat \<Rightarrow> dapper_state cmd" where
  "front f e n = block [ParserImpl f e n, ingress f (e_inputs e)]"

definition rear :: "dapper_file \<Rightarrow> inputs \<Rightarrow> dapper_state cmd" where
  "rear f w = block [send_frame_453170 f w, end_assertions f]"

lemma run_front_rear:
  "run_dapper f e n = (case front f e n dapper_globals of Next t \<Rightarrow> rear f (e_inputs e) t | r \<Rightarrow> r)"
  by (simp add: run_dapper_def dapper_main_def front_def rear_def egress_def split: outcome.split)

lemma causal_front: "causal (\<lambda>w. front f (e\<lparr>e_inputs := w\<rparr>) n)"
  unfolding front_def by (intro causal_rules causal_parser) (simp, rule causal_ingress)

lemma front_agree:
  assumes "front f e n s = Next t" and "agree (nsym s) (nsym t) (e_inputs e) w"
  shows "front f (e\<lparr>e_inputs := w\<rparr>) n s = Next t"
  using causalD [OF causal_front [of f e n], of s "e_inputs e" w] assms
  by simp

lemma observe_rear_base:
  assumes "f \<in> {Dapper_c, Assumptions_c}"
  shows "observe (rear f w t) =
    (if ucast (w (nsym t)) = (0 :: u32)
       then observe (block [rewrite_mac_0_453136 w, end_assertions f] (t\<lparr>nsym := Suc (nsym t)\<rparr>))
     else if ucast (w (nsym t)) = (1 :: u32)
       then observe (block [drop_0_453154 f, end_assertions f] (t\<lparr>nsym := Suc (nsym t)\<rparr>))
     else observe (block [NoAction_0_453126, end_assertions f] (t\<lparr>nsym := Suc (nsym t)\<rparr>)))"
  using assms by (auto simp: rear_def send_frame_453170_def send_frame_dapper_def Let_def)

lemma observe_rewrite_mac:
  assumes "w' (nsym t) = w (Suc (nsym t))"
  shows "observe (block [rewrite_mac_0_453136 w, end_assertions f] (t\<lparr>nsym := Suc (nsym t)\<rparr>)) =
         observe (block [rewrite_mac_0_453136 w', end_assertions g] t)"
  using assms
  by (simp add: rewrite_mac_0_453136_def set_action_run_def modify_def klee_make_symbolic_def
      block_single observe_checks failed_assertions_def violates_ack_def violates_dupack_def violates_ttl_def
      del: block.simps(2) add: block_Next)

lemma block_drop_0: "block (drop_0_453154 f # cs) s = drop_0_453154 f s"
proof (rule block_stop)
  show "\<not> is_Next (drop_0_453154 f s)"
    using observe_mark_to_drop [of f "s\<lparr>d_action_run := 453154\<rparr>"]
    by (cases "mark_to_drop f (s\<lparr>d_action_run := 453154\<rparr>)")
      (simp_all add: observe_def drop_0_453154_def set_action_run_def modify_def)
qed

lemma observe_drop:
  "observe (block [drop_0_453154 f, end_assertions f] (t\<lparr>nsym := k\<rparr>)) =
   observe (block [drop_0_453154 g, end_assertions g] t)"
  unfolding block_drop_0
  by (simp add: drop_0_453154_def set_action_run_def modify_def block_single observe_mark_to_drop
      failed_assertions_def violates_ack_def violates_dupack_def violates_ttl_def)

lemma observe_no_action:
  "observe (block [NoAction_0_453126, end_assertions f] (t\<lparr>nsym := k\<rparr>)) =
   observe (block [NoAction_0_453126, end_assertions g] t)"
  by (simp add: NoAction_0_453126_def set_action_run_def modify_def block_single observe_checks
      failed_assertions_def violates_ack_def violates_dupack_def violates_ttl_def
      del: block.simps(2) add: block_Next)

lemma rear_piece:
  "g \<in> {P1T1, P2T1, A11, A21} \<Longrightarrow> rear g w = block [rewrite_mac_0_453136 w, end_assertions g]"
  "g \<in> {P1T2, P2T2, A12, A22} \<Longrightarrow> rear g w = block [drop_0_453154 g, end_assertions g]"
  "g \<in> {P1T3, P2T3, A13, A23} \<Longrightarrow> rear g w = block [NoAction_0_453126, end_assertions g]"
  unfolding rear_def send_frame_453170_def by auto

definition behaviours ::
  "dapper_file \<Rightarrow> headers \<Rightarrow> metadata \<Rightarrow> standard_metadata_t \<Rightarrow> nat \<Rightarrow> (dapper_state \<times> string list) outcome set" where
  "behaviours f h m st n =
     {r. \<exists>w. r = observe (run_dapper f \<lparr>e_hdr = h, e_meta = m, e_std = st, e_inputs = w\<rparr> n) \<and>
        \<not> is_Assume_failed r}"

lemma ucast_ucast_u32: "ucast (ucast (v :: u32) :: u64) = v"
  by (rule bit_word_eqI) (simp add: bit_simps)

lemma run_Next: "front f e n dapper_globals = Next t \<Longrightarrow> run_dapper f e n = rear f (e_inputs e) t"
  by (simp add: run_front_rear)

lemma run_stop:
  "\<not> is_Next (front f e n dapper_globals) \<Longrightarrow> run_dapper f e n = front f e n dapper_globals"
  by (cases "front f e n dapper_globals") (simp_all add: run_front_rear)

lemma sim_front:
  assumes "ParserImpl g e n s = ParserImpl b e n s"
  shows "sim (front g e n s) (front b e n s)"
  unfolding front_def by (rule sim_block) (simp_all add: assms block_single sim_ingress del: block.simps)

lemma front_Next_agree:
  assumes "front b \<lparr>e_hdr = h, e_meta = m, e_std = st, e_inputs = w\<rparr> n dapper_globals = Next t"
    and "agree 0 (nsym t) w w'"
  shows "front b \<lparr>e_hdr = h, e_meta = m, e_std = st, e_inputs = w'\<rparr> n dapper_globals = Next t"
  using front_agree [OF assms(1), of w'] assms(2) by (simp add: dapper_globals_def)

definition selects :: "dapper_file \<Rightarrow> u32 \<Rightarrow> bool" where
  "selects g v \<longleftrightarrow>
     (if g \<in> {P1T1, P2T1, A11, A21} then v = 0
      else if g \<in> {P1T2, P2T2, A12, A22} then v = 1
      else g \<in> {P1T3, P2T3, A13, A23} \<and> v \<noteq> 0 \<and> v \<noteq> 1)"

lemma observe_rear_piece:
  assumes b: "b \<in> {Dapper_c, Assumptions_c}" and sel: "selects g (ucast (w (nsym t)))"
    and w': "w' (nsym t) = w (Suc (nsym t))"
  shows "observe (rear b w t) = observe (rear g w' t)"
  using sel observe_rewrite_mac [where w'=w' and t=t and w=w and f=b and g=g, OF w']
    observe_drop [where f=b and t=t and g=g] observe_no_action [where f=b and t=t and g=g]
  by (auto simp: selects_def observe_rear_base [OF b] rear_piece simp del: block.simps
      split: if_splits)

lemma behavioursI:
  "r = observe (run_dapper f \<lparr>e_hdr = h, e_meta = m, e_std = st, e_inputs = w\<rparr> n) \<Longrightarrow>
   \<not> is_Assume_failed r \<Longrightarrow> r \<in> behaviours f h m st n"
  by (auto simp: behaviours_def)

lemma behavioursE:
  assumes "r \<in> behaviours f h m st n"
  obtains w where "r = observe (run_dapper f \<lparr>e_hdr = h, e_meta = m, e_std = st, e_inputs = w\<rparr> n)"
    and "\<not> is_Assume_failed r"
  using assms by (auto simp: behaviours_def)

lemma observe_run_stop:
  assumes "ParserImpl g e n dapper_globals = ParserImpl b e n dapper_globals"
    and "\<not> is_Next (front b e n dapper_globals)"
  shows "observe (run_dapper g e n) = observe (run_dapper b e n)"
proof -
  have "sim (front g e n dapper_globals) (front b e n dapper_globals)"
    using assms(1) by (rule sim_front)
  then show ?thesis
    using assms(2) by (metis run_stop sim_def sim_observe)
qed

lemma front_Next_iff:
  "ParserImpl g e n s = ParserImpl b e n s \<Longrightarrow> front g e n s = Next t \<longleftrightarrow> front b e n s = Next t"
  using sim_front [of g e n s b] by (auto simp: sim_Next)

definition same_parser ::
  "dapper_file \<Rightarrow> dapper_file \<Rightarrow> headers \<Rightarrow> metadata \<Rightarrow> standard_metadata_t \<Rightarrow> nat \<Rightarrow> bool" where
  "same_parser g b h m st n \<longleftrightarrow>
     (\<forall>w. ParserImpl g \<lparr>e_hdr = h, e_meta = m, e_std = st, e_inputs = w\<rparr> n dapper_globals =
          ParserImpl b \<lparr>e_hdr = h, e_meta = m, e_std = st, e_inputs = w\<rparr> n dapper_globals)"

lemma same_parserD:
  "same_parser g b h m st n \<Longrightarrow>
     ParserImpl g \<lparr>e_hdr = h, e_meta = m, e_std = st, e_inputs = w\<rparr> n dapper_globals =
     ParserImpl b \<lparr>e_hdr = h, e_meta = m, e_std = st, e_inputs = w\<rparr> n dapper_globals"
  by (simp add: same_parser_def)

lemma behaviours_base_subset:
  assumes b: "b \<in> {Dapper_c, Assumptions_c}"
    and parser: "\<And>g. g \<in> G \<Longrightarrow> same_parser g b h m st n"
    and sel: "\<And>v. \<exists>g \<in> G. selects g v"
  shows "behaviours b h m st n \<subseteq> (\<Union>g \<in> G. behaviours g h m st n)"
proof
  fix r
  assume "r \<in> behaviours b h m st n"
  then obtain w where r: "r = observe (run_dapper b \<lparr>e_hdr = h, e_meta = m, e_std = st, e_inputs = w\<rparr> n)"
    and feasible: "\<not> is_Assume_failed r"
    by (rule behavioursE)
  show "r \<in> (\<Union>g \<in> G. behaviours g h m st n)"
  proof (cases "is_Next (front b \<lparr>e_hdr = h, e_meta = m, e_std = st, e_inputs = w\<rparr> n dapper_globals)")
    case True
    then obtain t where t: "front b \<lparr>e_hdr = h, e_meta = m, e_std = st, e_inputs = w\<rparr> n dapper_globals = Next t"
      by (auto simp: is_Next_def)
    obtain g where g: "g \<in> G" "selects g (ucast (w (nsym t)))"
      using sel by blast
    have "front g \<lparr>e_hdr = h, e_meta = m, e_std = st, e_inputs = skip_at (nsym t) w\<rparr> n dapper_globals = Next t"
      using front_Next_iff [OF same_parserD [OF parser [OF g(1)]]] front_Next_agree [OF t agree_skip_at] by blast
    then have "r = observe (run_dapper g \<lparr>e_hdr = h, e_meta = m, e_std = st, e_inputs = skip_at (nsym t) w\<rparr> n)"
      using r run_Next [OF t] observe_rear_piece [where w=w and w'="skip_at (nsym t) w" and t=t, OF b g(2)] by (simp add: run_Next)
    with feasible g(1) show ?thesis
      by (blast intro: behavioursI)
  next
    case False
    obtain g where g: "g \<in> G"
      using sel by blast
    have "r = observe (run_dapper g \<lparr>e_hdr = h, e_meta = m, e_std = st, e_inputs = w\<rparr> n)"
      unfolding r by (rule observe_run_stop [OF same_parserD [OF parser [OF g]] False, symmetric])
    then have "r \<in> behaviours g h m st n"
      using feasible by (rule behavioursI)
    with g show ?thesis by (rule UN_I)
  qed
qed

lemma behaviours_piece_subset:
  assumes b: "b \<in> {Dapper_c, Assumptions_c}" and parser: "same_parser g b h m st n" and sel: "selects g v"
  shows "behaviours g h m st n \<subseteq> behaviours b h m st n"
proof
  fix r
  assume "r \<in> behaviours g h m st n"
  then obtain w where r: "r = observe (run_dapper g \<lparr>e_hdr = h, e_meta = m, e_std = st, e_inputs = w\<rparr> n)"
    and feasible: "\<not> is_Assume_failed r"
    by (rule behavioursE)
  show "r \<in> behaviours b h m st n"
  proof (cases "is_Next (front b \<lparr>e_hdr = h, e_meta = m, e_std = st, e_inputs = w\<rparr> n dapper_globals)")
    case True
    then obtain t where t: "front b \<lparr>e_hdr = h, e_meta = m, e_std = st, e_inputs = w\<rparr> n dapper_globals = Next t"
      by (auto simp: is_Next_def)
    let ?w = "insert_at (nsym t) (ucast v) w"
    have "front g \<lparr>e_hdr = h, e_meta = m, e_std = st, e_inputs = w\<rparr> n dapper_globals = Next t"
      using front_Next_iff [OF same_parserD [OF parser]] t by blast
    moreover have "observe (rear b ?w t) = observe (rear g w t)"
      by (rule observe_rear_piece [where w="?w" and w'=w and t=t, OF b]) (simp_all add: sel ucast_ucast_u32)
    ultimately have "r = observe (run_dapper b \<lparr>e_hdr = h, e_meta = m, e_std = st, e_inputs = ?w\<rparr> n)"
      using r run_Next [OF front_Next_agree [OF t agree_insert_at [of _ _ _ "ucast v"]]] by (simp add: run_Next)
    with feasible show ?thesis
      by (blast intro: behavioursI)
  next
    case False
    have "r = observe (run_dapper b \<lparr>e_hdr = h, e_meta = m, e_std = st, e_inputs = w\<rparr> n)"
      unfolding r by (rule observe_run_stop [OF same_parserD [OF parser] False])
    then show ?thesis
      using feasible by (rule behavioursI)
  qed
qed

lemma behaviours_split:
  assumes "b \<in> {Dapper_c, Assumptions_c}"
    and "\<And>g. g \<in> G \<Longrightarrow> same_parser g b h m st n"
    and "\<And>v. \<exists>g \<in> G. selects g v" and "\<And>g. g \<in> G \<Longrightarrow> \<exists>v. selects g v"
  shows "behaviours b h m st n = (\<Union>g \<in> G. behaviours g h m st n)"
proof
  show "behaviours b h m st n \<subseteq> (\<Union>g \<in> G. behaviours g h m st n)"
    using assms(1-3) by (rule behaviours_base_subset)
  show "(\<Union>g \<in> G. behaviours g h m st n) \<subseteq> behaviours b h m st n"
  proof (rule UN_least)
    fix g
    assume g: "g \<in> G"
    obtain v where "selects g v"
      using assms(4) [OF g] by (rule exE)
    with assms(1) assms(2) [OF g] show "behaviours g h m st n \<subseteq> behaviours b h m st n"
      by (rule behaviours_piece_subset)
  qed
qed

abbreviation is_ipv4 :: "headers \<Rightarrow> bool" where
  "is_ipv4 h \<equiv> eth_etherType (h_ethernet h) = 2048"

abbreviation is_tcp :: "headers \<Rightarrow> bool" where
  "is_tcp h \<equiv> ip_protocol (h_ipv4 h) = 6"

abbreviation is_syn :: "headers \<Rightarrow> bool" where
  "is_syn h \<equiv> tcp_syn (h_tcp h) = 1"

lemmas parser_eval =
  same_parser_def parser_defs modify_def cond_def klee_assume_def
  block_single

lemma same_parser_dapper:
  "g \<in> {P1T1, P1T2, P1T3} \<Longrightarrow> is_ipv4 h \<Longrightarrow> same_parser g Dapper_c h m st n"
  "g \<in> {P2T1, P2T2, P2T3} \<Longrightarrow> \<not> is_ipv4 h \<Longrightarrow> same_parser g Dapper_c h m st n"
  by (auto simp: parser_eval)

lemma same_parser_assumptions:
  "is_ipv4 h \<Longrightarrow> is_tcp h \<Longrightarrow> same_parser Assumptions_c Dapper_c h m st n"
  "g \<in> {A11, A12, A13} \<Longrightarrow> is_ipv4 h \<Longrightarrow> is_tcp h \<Longrightarrow> is_syn h \<Longrightarrow> same_parser g Assumptions_c h m st n"
  "g \<in> {A21, A22, A23} \<Longrightarrow> is_ipv4 h \<Longrightarrow> is_tcp h \<Longrightarrow> \<not> is_syn h \<Longrightarrow> same_parser g Assumptions_c h m st n"
  by (auto simp: parser_eval)

lemma run_infeasible:
  "is_Assume_failed (ParserImpl f e n dapper_globals) \<Longrightarrow> is_Assume_failed (run_dapper f e n)"
  by (cases "ParserImpl f e n dapper_globals") (simp_all add: run_dapper_def dapper_main_def)

lemma observe_Assume_failed [simp]: "is_Assume_failed (observe r) = is_Assume_failed r"
  by (cases r) (simp_all add: observe_def)

lemma behaviours_empty:
  assumes "\<And>w. is_Assume_failed (ParserImpl f \<lparr>e_hdr = h, e_meta = m, e_std = st, e_inputs = w\<rparr> n dapper_globals)"
  shows "behaviours f h m st n = {}"
  using run_infeasible [OF assms] by (auto simp: behaviours_def)

lemma infeasible_dapper:
  "g \<in> {P1T1, P1T2, P1T3} \<Longrightarrow> \<not> is_ipv4 h \<Longrightarrow> behaviours g h m st n = {}"
  "g \<in> {P2T1, P2T2, P2T3} \<Longrightarrow> is_ipv4 h \<Longrightarrow> behaviours g h m st n = {}"
  by (rule behaviours_empty; auto simp: parser_eval)+

lemma infeasible_assumptions:
  "g \<in> {Assumptions_c, A11, A12, A13, A21, A22, A23} \<Longrightarrow> \<not> (is_ipv4 h \<and> is_tcp h) \<Longrightarrow>
     behaviours g h m st n = {}"
  "g \<in> {A11, A12, A13} \<Longrightarrow> \<not> is_syn h \<Longrightarrow> behaviours g h m st n = {}"
  "g \<in> {A21, A22, A23} \<Longrightarrow> is_syn h \<Longrightarrow> behaviours g h m st n = {}"
  by (rule behaviours_empty; auto simp: parser_eval)+

lemma selects_cover:
  "G \<in> {{P1T1, P1T2, P1T3}, {P2T1, P2T2, P2T3}, {A11, A12, A13}, {A21, A22, A23}} \<Longrightarrow> \<exists>g \<in> G. selects g v"
  by (auto simp: selects_def)

lemma selects_some:
  "g \<in> {P1T1, P1T2, P1T3, P2T1, P2T2, P2T3, A11, A12, A13, A21, A22, A23} \<Longrightarrow> \<exists>v. selects g v"
proof -
  assume "g \<in> {P1T1, P1T2, P1T3, P2T1, P2T2, P2T3, A11, A12, A13, A21, A22, A23}"
  then have "selects g 0 \<or> selects g 1 \<or> selects g 2"
    by (simp add: selects_def) metis
  then show ?thesis
    by blast
qed

text \<open>
  Claim C13. The six programs of \<^verbatim>\<open>dapper_parallel\<close> that \<^verbatim>\<open>parallel_klee.sh\<close> runs cover
  \<^verbatim>\<open>dapper.c\<close> exactly: for every packet, the behaviours of \<^verbatim>\<open>dapper.c\<close> over all choices of the
  tables are the union of the behaviours of the six.  Nothing is lost and nothing is added by splitting.
\<close>

theorem dapper_parallel_split:
  "behaviours Dapper_c h m st n =
     (\<Union>g \<in> {P1T1, P1T2, P1T3, P2T1, P2T2, P2T3}. behaviours g h m st n)"
proof (cases "is_ipv4 h")
  case True
  have "behaviours Dapper_c h m st n = (\<Union>g \<in> {P1T1, P1T2, P1T3}. behaviours g h m st n)"
    by (rule behaviours_split) (use True same_parser_dapper(1) selects_cover selects_some in blast)+
  then show ?thesis
    using infeasible_dapper(2) [OF _ True] by simp
next
  case False
  have "behaviours Dapper_c h m st n = (\<Union>g \<in> {P2T1, P2T2, P2T3}. behaviours g h m st n)"
    by (rule behaviours_split) (use False same_parser_dapper(2) selects_cover selects_some in blast)+
  then show ?thesis
    using infeasible_dapper(1) [OF _ False] by simp
qed

text \<open>
  The six programs of \<^verbatim>\<open>assumptions/parallel\<close> cover \<^verbatim>\<open>assumptions/dapper.c\<close> exactly.
\<close>

theorem assumptions_parallel_split:
  "behaviours Assumptions_c h m st n =
     (\<Union>g \<in> {A11, A12, A13, A21, A22, A23}. behaviours g h m st n)"
proof (cases "is_ipv4 h \<and> is_tcp h")
  case tcp: True
  show ?thesis
  proof (cases "is_syn h")
    case True
    have "behaviours Assumptions_c h m st n = (\<Union>g \<in> {A11, A12, A13}. behaviours g h m st n)"
      by (rule behaviours_split) (use tcp True same_parser_assumptions(2) selects_cover selects_some in blast)+
    then show ?thesis
      using infeasible_assumptions(3) [OF _ True] by simp
  next
    case False
    have "behaviours Assumptions_c h m st n = (\<Union>g \<in> {A21, A22, A23}. behaviours g h m st n)"
      by (rule behaviours_split) (use tcp False same_parser_assumptions(3) selects_cover selects_some in blast)+
    then show ?thesis
      using infeasible_assumptions(2) [OF _ False] by simp
  qed
next
  case False
  show ?thesis
    using infeasible_assumptions(1) [OF _ False] by simp
qed

lemma same_parser_trans: "same_parser f g h m st n \<Longrightarrow> same_parser g k h m st n \<Longrightarrow> same_parser f k h m st n"
  by (simp add: same_parser_def)

lemma same_parser_sym: "same_parser f g h m st n \<Longrightarrow> same_parser g f h m st n"
  by (simp add: same_parser_def)

text \<open>
  \<^verbatim>\<open>assumptions/dapper.c\<close> has exactly the behaviours of \<^verbatim>\<open>dapper.c\<close> on packets with
  an IPv4 and a TCP header, and none on other packets.
\<close>

theorem assumptions_restrict_dapper:
  "behaviours Assumptions_c h m st n =
     (if eth_etherType (h_ethernet h) = 2048 \<and> ip_protocol (h_ipv4 h) = 6
      then behaviours Dapper_c h m st n else {})"
proof (cases "is_ipv4 h \<and> is_tcp h")
  case True
  have "behaviours b h m st n = (\<Union>g \<in> {P1T1, P1T2, P1T3}. behaviours g h m st n)"
    if b: "b \<in> {Dapper_c, Assumptions_c}" for b
  proof (rule behaviours_split [OF b])
    have "same_parser Dapper_c b h m st n"
      using b True same_parser_assumptions(1) [THEN same_parser_sym] by (auto simp: same_parser_def)
    then show "same_parser g b h m st n" if "g \<in> {P1T1, P1T2, P1T3}" for g
      using same_parser_dapper(1) [OF that] True same_parser_trans by blast
  qed (use selects_cover selects_some in blast)+
  then show ?thesis
    using True by simp
next
  case False
  then show ?thesis
    using infeasible_assumptions(1) [of Assumptions_c h] by auto
qed

end
