(* ===== verification/Stag.thy ===== *)
theory Stag
  imports Klee
begin

text \<open>
  \<^verbatim>\<open>src/stag/stag.c\<close>, the C translation of the source-tagging program \<^verbatim>\<open>stag.p4\<close>, in the order of the
  file, with its copies \<^verbatim>\<open>stag-assume.c\<close>, \<^verbatim>\<open>parallel/*.c\<close> and \<^verbatim>\<open>parallel-assumption/*.c\<close>.  A name that
  the Dapper model also has carries the suffix \<open>_stag\<close>.  The copies differ from \<^verbatim>\<open>stag.c\<close> in \<^verbatim>\<open>start\<close>,
  \<^verbatim>\<open>parse_ipv4\<close>, \<^verbatim>\<open>get_source_color\<close> and \<^verbatim>\<open>end_assertions\<close>, and in a field \<^verbatim>\<open>$valid$\<close> of their
  structs that nothing reads.

  The tables of this program are filled in: an entry of each table is a condition of the code.  The
  assertion is that a packet from port 1 to 10.0.0.2 is not forwarded once its colour has been checked.
\<close>

datatype stag_file =
    Stag_c | Stag_assume
  | Par11 | Par12 | Par21 | Par22
  | Asm11 | Asm12 | Asm21 | Asm22

section \<open>State\<close>

record standard_metadata_t_stag =
  tstd_ingress_port :: "9 word"
  tstd_egress_spec :: "9 word"
  tstd_egress_port :: "9 word"
  tstd_clone_spec :: u32
  tstd_instance_type :: u32
  tstd_drop :: "1 word"
  tstd_recirculate_port :: u16
  tstd_packet_length :: u32
  tstd_enq_timestamp :: u32
  tstd_enq_qdepth :: "19 word"
  tstd_deq_timedelta :: u32
  tstd_deq_qdepth :: "19 word"
  tstd_ingress_global_timestamp :: "48 word"
  tstd_lf_field_list :: u32
  tstd_mcast_grp :: u16
  tstd_resubmit_flag :: "1 word"
  tstd_egress_rid :: u16
  tstd_checksum_error :: "1 word"

record ethernet_t_stag =
  teth_isValid :: "1 word"
  teth_dstAddr :: "48 word"
  teth_srcAddr :: "48 word"
  teth_etherType :: u16

record ipv4_t_stag =
  tip_isValid :: "1 word"
  tip_version :: "4 word"
  tip_ihl :: "4 word"
  tip_diffserv :: u8
  tip_totalLen :: u16
  tip_identification :: u16
  tip_flags :: "3 word"
  tip_fragOffset :: "13 word"
  tip_ttl :: u8
  tip_protocol :: u8
  tip_hdrChecksum :: u16
  tip_srcAddr :: u32
  tip_dstAddr :: u32

record ipv4_option_t =
  opt_isValid :: "1 word"
  opt_copyFlag :: "1 word"
  opt_optClass :: "2 word"
  opt_option :: "5 word"
  opt_optionLength :: u8

record stag_t =
  stag_isValid :: "1 word"
  stag_source_color :: u8

record local_md_t =
  md_isValid :: "1 word"
  md_src_port_color :: u8
  md_dst_port_color :: u8
  md_toLocal :: "1 word"

record metadata_stag =
  local_md :: local_md_t

record headers_stag =
  th_ethernet :: ethernet_t_stag
  th_ipv4 :: ipv4_t_stag
  th_ipv4_option :: ipv4_option_t
  th_stag :: stag_t

record stag_packet =
  p_hdr :: headers_stag
  p_meta :: metadata_stag
  p_std :: standard_metadata_t_stag

text \<open>The globals, which C initialises to 0.\<close>

record stag_state = klee_state +
  t_assert_forward :: bool
  t_action_run :: int
  t_traverse_color_check :: bool
  t_ingress_port_eq_1_137028 :: bool
  t_dstAddr_eq_167772162_137028 :: bool
  t_pkt :: stag_packet

definition zero_packet :: stag_packet where
  "zero_packet =
     \<lparr>p_hdr =
        \<lparr>th_ethernet =
           \<lparr>teth_isValid = 0, teth_dstAddr = 0, teth_srcAddr = 0, teth_etherType = 0\<rparr>,
         th_ipv4 =
           \<lparr>tip_isValid = 0, tip_version = 0, tip_ihl = 0, tip_diffserv = 0, tip_totalLen = 0,
            tip_identification = 0, tip_flags = 0, tip_fragOffset = 0, tip_ttl = 0,
            tip_protocol = 0, tip_hdrChecksum = 0, tip_srcAddr = 0, tip_dstAddr = 0\<rparr>,
         th_ipv4_option =
           \<lparr>opt_isValid = 0, opt_copyFlag = 0, opt_optClass = 0, opt_option = 0,
            opt_optionLength = 0\<rparr>,
         th_stag = \<lparr>stag_isValid = 0, stag_source_color = 0\<rparr>\<rparr>,
      p_meta =
        \<lparr>local_md = \<lparr>md_isValid = 0, md_src_port_color = 0, md_dst_port_color = 0, md_toLocal = 0\<rparr>\<rparr>,
      p_std =
        \<lparr>tstd_ingress_port = 0, tstd_egress_spec = 0, tstd_egress_port = 0, tstd_clone_spec = 0,
         tstd_instance_type = 0, tstd_drop = 0, tstd_recirculate_port = 0, tstd_packet_length = 0,
         tstd_enq_timestamp = 0, tstd_enq_qdepth = 0, tstd_deq_timedelta = 0, tstd_deq_qdepth = 0,
         tstd_ingress_global_timestamp = 0, tstd_lf_field_list = 0, tstd_mcast_grp = 0,
         tstd_resubmit_flag = 0, tstd_egress_rid = 0, tstd_checksum_error = 0\<rparr>\<rparr>"

definition stag_globals :: stag_state where
  "stag_globals =
     \<lparr>nsym = 0, reports = [], t_assert_forward = True, t_action_run = 0,
      t_traverse_color_check = False, t_ingress_port_eq_1_137028 = False,
      t_dstAddr_eq_167772162_137028 = False, t_pkt = zero_packet\<rparr>"

abbreviation on_hdr :: "(headers_stag \<Rightarrow> headers_stag) \<Rightarrow> stag_state \<Rightarrow> stag_state" where
  "on_hdr f \<equiv> t_pkt_update (p_hdr_update f)"

abbreviation on_local_md :: "(local_md_t \<Rightarrow> local_md_t) \<Rightarrow> stag_state \<Rightarrow> stag_state" where
  "on_local_md f \<equiv> t_pkt_update (p_meta_update (local_md_update f))"

abbreviation on_std :: "(standard_metadata_t_stag \<Rightarrow> standard_metadata_t_stag) \<Rightarrow> stag_state \<Rightarrow> stag_state" where
  "on_std f \<equiv> t_pkt_update (p_std_update f)"

abbreviation hdr :: "stag_state \<Rightarrow> headers_stag" where
  "hdr s \<equiv> p_hdr (t_pkt s)"

abbreviation ingress_port :: "stag_state \<Rightarrow> 9 word" where
  "ingress_port s \<equiv> tstd_ingress_port (p_std (t_pkt s))"

section \<open>Assertions\<close>

definition msg_stag :: string where
  "msg_stag = ''Assert error: if expression standard_metadata.ingress_port == 1 && hdr.ipv4.dstAddr == 167772162, !forward evaluated to false''"

definition violates_stag :: "stag_state \<Rightarrow> bool" where
  "violates_stag s \<longleftrightarrow>
     t_traverse_color_check s \<and> t_ingress_port_eq_1_137028 s \<and> t_dstAddr_eq_167772162_137028 s \<and>
     t_assert_forward s"

definition stag_report :: "stag_file \<Rightarrow> report" where
  "stag_report f =
     (if f = Stag_c then Print_once 0 (msg_stag @ [CHR 0x0A])
      else if f = Stag_assume then Printf msg_stag
      else if f \<in> {Par11, Par12, Par21, Par22} then Printf (msg_stag @ [CHR 0x0A])
      else Print_once 0 msg_stag)"

definition end_assertions_stag :: "stag_file \<Rightarrow> stag_state cmd" where
  "end_assertions_stag f = report_if violates_stag (stag_report f)"

definition mark_to_drop_stag :: "stag_file \<Rightarrow> stag_state cmd" where
  "mark_to_drop_stag f = block
    [modify (t_assert_forward_update (\<lambda>_. False)), end_assertions_stag f, exit_with 0]"

section \<open>Parser\<close>

definition accept_stag :: "stag_state cmd" where
  "accept_stag = skip"

definition reject_stag :: "stag_file \<Rightarrow> stag_state cmd" where
  "reject_stag f = block
    [modify (t_assert_forward_update (\<lambda>_. False)), end_assertions_stag f, exit_with 0]"

definition parse_stag :: "stag_state cmd" where
  "parse_stag = block
    [modify (on_hdr (th_stag_update (stag_isValid_update (\<lambda>_. 1)))),
     modify (\<lambda>s. on_local_md (md_src_port_color_update (\<lambda>_. stag_source_color (th_stag (hdr s)))) s),
     accept_stag]"

definition parse_ipv4_option :: "stag_state cmd" where
  "parse_ipv4_option = block
    [modify (on_hdr (th_ipv4_option_update (opt_isValid_update (\<lambda>_. 1)))),
     cond (\<lambda>s. opt_option (th_ipv4_option (hdr s)) = 31) parse_stag accept_stag]"

definition parse_ipv4_rest :: "stag_state cmd" where
  "parse_ipv4_rest =
     cond (\<lambda>s. tip_ihl (th_ipv4 (hdr s)) = 5) accept_stag parse_ipv4_option"

definition mark_ipv4 :: "stag_state cmd" where
  "mark_ipv4 = modify (on_hdr (th_ipv4_update (tip_isValid_update (\<lambda>_. 1))))"

definition parse_ipv4_c :: "stag_state cmd" where
  "parse_ipv4_c = block
    [mark_ipv4,
     cond (\<lambda>s. tip_ihl (th_ipv4 (hdr s)) \<ge> 5) skip skip,
     parse_ipv4_rest]"

definition parse_ipv4_verify :: "stag_state cmd" where
  "parse_ipv4_verify = block
    [mark_ipv4,
     cond (\<lambda>s. tip_ihl (th_ipv4 (hdr s)) \<ge> 5) (exit_with 1) skip,
     parse_ipv4_rest]"

definition parse_ipv4_long :: "stag_state cmd" where
  "parse_ipv4_long = block
    [mark_ipv4,
     klee_assume (\<lambda>s. tip_ihl (th_ipv4 (hdr s)) \<ge> 5),
     exit_with 1,
     parse_ipv4_rest]"

definition parse_ipv4_short :: "stag_state cmd" where
  "parse_ipv4_short = block
    [mark_ipv4,
     klee_assume (\<lambda>s. tip_ihl (th_ipv4 (hdr s)) < 5),
     parse_ipv4_rest]"

definition parse_ipv4_stag :: "stag_file \<Rightarrow> stag_state cmd" where
  "parse_ipv4_stag f =
     (if f = Stag_c then parse_ipv4_c
      else if f \<in> {Asm11, Asm12} then parse_ipv4_long
      else if f \<in> {Asm21, Asm22} then parse_ipv4_short
      else parse_ipv4_verify)"

definition start_c :: "stag_file \<Rightarrow> stag_state cmd" where
  "start_c f = block
    [modify (on_hdr (th_ethernet_update (teth_isValid_update (\<lambda>_. 1)))),
     cond (\<lambda>s. teth_etherType (th_ethernet (hdr s)) = 2048) (parse_ipv4_stag f) accept_stag]"

definition start_ipv4 :: "stag_file \<Rightarrow> stag_state cmd" where
  "start_ipv4 f = block
    [modify (on_hdr (th_ethernet_update (teth_isValid_update (\<lambda>_. 1)))),
     klee_assume (\<lambda>s. teth_etherType (th_ethernet (hdr s)) = 2048),
     parse_ipv4_stag f]"

definition start_other :: "stag_state cmd" where
  "start_other = block
    [modify (on_hdr (th_ethernet_update (teth_isValid_update (\<lambda>_. 1)))),
     klee_assume (\<lambda>s. teth_etherType (th_ethernet (hdr s)) \<noteq> 2048),
     accept_stag]"

definition start_stag :: "stag_file \<Rightarrow> stag_state cmd" where
  "start_stag f =
     (if f = Stag_c then start_c f
      else if f \<in> {Par21, Par22} then start_other
      else start_ipv4 f)"

definition ParserImpl_stag :: "stag_file \<Rightarrow> stag_packet \<Rightarrow> stag_state cmd" where
  "ParserImpl_stag f p = block
    [modify (t_pkt_update (p_hdr_update (\<lambda>_. p_hdr p))),
     modify (t_pkt_update (p_meta_update (\<lambda>_. p_meta p))),
     modify (t_pkt_update (p_std_update (\<lambda>_. p_std p))),
     start_stag f]"

section \<open>Actions\<close>

definition set_run :: "int \<Rightarrow> stag_state cmd" where
  "set_run k = modify (t_action_run_update (\<lambda>_. k))"

definition NoAction_0_136741 :: "stag_state cmd" where
  "NoAction_0_136741 = set_run 136741"

definition NoAction_1_136751 :: "stag_state cmd" where
  "NoAction_1_136751 = set_run 136751"

definition NoAction_6_136752 :: "stag_state cmd" where
  "NoAction_6_136752 = set_run 136752"

definition drop_0_136753 :: "stag_file \<Rightarrow> stag_state cmd" where
  "drop_0_136753 f = block [set_run 136753, mark_to_drop_stag f]"

definition set_source_color_0_136769 :: "u8 \<Rightarrow> stag_state cmd" where
  "set_source_color_0_136769 color = block
    [set_run 136769, modify (on_local_md (md_src_port_color_update (\<lambda>_. color)))]"

definition set_local_dest_0_136835 :: "u32 \<Rightarrow> u8 \<Rightarrow> stag_state cmd" where
  "set_local_dest_0_136835 egr_port color = block
    [set_run 136835,
     modify (on_std (tstd_egress_spec_update (\<lambda>_. ucast egr_port))),
     modify (on_local_md (md_dst_port_color_update (\<lambda>_. color))),
     modify (on_hdr (th_stag_update (stag_isValid_update (\<lambda>_. 0))))]"

definition set_remote_dest_0_136868 :: "inputs \<Rightarrow> stag_state cmd" where
  "set_remote_dest_0_136868 w = block
    [set_run 136868,
     klee_make_symbolic w (\<lambda>egr_port. on_std (tstd_egress_spec_update (\<lambda>_. ucast egr_port))),
     modify (on_hdr (th_ipv4_option_update (opt_isValid_update (\<lambda>_. 1)))),
     modify (on_hdr (th_ipv4_option_update (opt_copyFlag_update (\<lambda>_. 1)))),
     modify (on_hdr (th_ipv4_option_update (opt_optClass_update (\<lambda>_. 2)))),
     modify (on_hdr (th_ipv4_option_update (opt_option_update (\<lambda>_. 31)))),
     modify (on_hdr (th_ipv4_option_update (opt_optionLength_update (\<lambda>_. 4)))),
     modify (on_hdr (th_ipv4_update (tip_ihl_update (\<lambda>i. i + 1)))),
     modify (on_hdr (th_stag_update (stag_isValid_update (\<lambda>_. 1)))),
     modify (\<lambda>s. on_hdr (th_stag_update (stag_source_color_update
       (\<lambda>_. md_src_port_color (local_md (p_meta (t_pkt s)))))) s)]"

definition core_pass_through_0_136945 :: "inputs \<Rightarrow> stag_state cmd" where
  "core_pass_through_0_136945 w = block
    [set_run 136945,
     klee_make_symbolic w (\<lambda>egr_port. on_std (tstd_egress_spec_update (\<lambda>_. ucast egr_port)))]"

definition NoAction_7_137142 :: "stag_state cmd" where
  "NoAction_7_137142 = set_run 137142"

section \<open>Tables and controls\<close>

definition get_source_color_c :: "stag_state cmd" where
  "get_source_color_c =
     cond (\<lambda>s. ingress_port s = 1) (set_source_color_0_136769 0) skip"

definition get_source_color_port1 :: "stag_state cmd" where
  "get_source_color_port1 = block
    [klee_assume (\<lambda>s. ingress_port s = 1), set_source_color_0_136769 0]"

definition get_source_color_other :: "stag_state cmd" where
  "get_source_color_other = klee_assume (\<lambda>s. ingress_port s \<noteq> 1)"

definition get_source_color_136787 :: "stag_file \<Rightarrow> stag_state cmd" where
  "get_source_color_136787 f =
     (if f \<in> {Stag_c, Stag_assume} then get_source_color_c
      else if f \<in> {Par11, Par21, Asm11, Asm21} then get_source_color_port1
      else get_source_color_other)"

definition forward_136962 :: "stag_state cmd" where
  "forward_136962 =
     cond (\<lambda>s. tip_dstAddr (th_ipv4 (hdr s)) = 167772162) (set_local_dest_0_136835 2 1) skip"

definition color_check_137023 :: "stag_file \<Rightarrow> stag_state cmd" where
  "color_check_137023 f = block
    [modify (t_traverse_color_check_update (\<lambda>_. True)),
     modify (\<lambda>s. s\<lparr>t_ingress_port_eq_1_137028 := ingress_port s = 1\<rparr>),
     modify (\<lambda>s. s\<lparr>t_dstAddr_eq_167772162_137028 := tip_dstAddr (th_ipv4 (hdr s)) = 167772162\<rparr>),
     cond (\<lambda>s. md_dst_port_color (local_md (p_meta (t_pkt s))) = 1 \<and>
               md_src_port_color (local_md (p_meta (t_pkt s))) = 0)
       (drop_0_136753 f) skip]"

definition ingress_stag :: "stag_file \<Rightarrow> stag_state cmd" where
  "ingress_stag f = block
    [cond (\<lambda>s. stag_isValid (th_stag (hdr s)) \<noteq> 1) (get_source_color_136787 f) skip,
     forward_136962,
     cond (\<lambda>s. t_action_run s = 136835) (color_check_137023 f) skip]"

definition place_holder_table_137143 :: "inputs \<Rightarrow> stag_state cmd" where
  "place_holder_table_137143 w = block
    [klee_make_symbolic w (\<lambda>symbol s. s), NoAction_7_137142]"

definition egress_stag :: "inputs \<Rightarrow> stag_state cmd" where
  "egress_stag w = place_holder_table_137143 w"

definition DeparserImpl :: "stag_state cmd" where
  "DeparserImpl = skip"

definition stag_main :: "stag_file \<Rightarrow> stag_packet \<Rightarrow> inputs \<Rightarrow> stag_state cmd" where
  "stag_main f p w = block
    [ParserImpl_stag f p, ingress_stag f, egress_stag w, DeparserImpl, end_assertions_stag f]"

definition run_stag :: "stag_file \<Rightarrow> stag_packet \<Rightarrow> inputs \<Rightarrow> stag_state outcome" where
  "run_stag f p w = stag_main f p w stag_globals"

end
