(* ===== verification/Stag_Correct.thy ===== *)
theory Stag_Correct
  imports Stag
begin

text \<open>
  What \<^verbatim>\<open>stag.c\<close> does with each packet (\<open>stag_functional\<close>), and how the behaviours of its copies
  relate to its own.  A run is the parser, the choice of the source colour and the rest
  (\<open>run_stages\<close>); a copy either fails an assumption in one of the first two stages, exits in the parser,
  or runs as \<^verbatim>\<open>stag.c\<close> does (\<open>stag_behaviours_eq\<close>), from which the three theorems on copies follow by
  cases.
\<close>

section \<open>Packets\<close>

text \<open>
  Conditions on a packet as it comes in: whether the parser finds a tag in it, whether it counts as
  tagged (the validity bit of the tag header is symbolic, so it may be set without the parser having
  found a tag) and the source colour that \<^verbatim>\<open>color_check\<close> sees.
\<close>

abbreviation has_ipv4 :: "stag_packet \<Rightarrow> bool" where
  "has_ipv4 p \<equiv> teth_etherType (th_ethernet (p_hdr p)) = 2048"

abbreviation ihl :: "stag_packet \<Rightarrow> 4 word" where
  "ihl p \<equiv> tip_ihl (th_ipv4 (p_hdr p))"

abbreviation from_port1 :: "stag_packet \<Rightarrow> bool" where
  "from_port1 p \<equiv> tstd_ingress_port (p_std p) = 1"

abbreviation to_local :: "stag_packet \<Rightarrow> bool" where
  "to_local p \<equiv> tip_dstAddr (th_ipv4 (p_hdr p)) = 167772162"

definition tag_parsed :: "stag_packet \<Rightarrow> bool" where
  "tag_parsed p \<longleftrightarrow> has_ipv4 p \<and> ihl p \<noteq> 5 \<and> opt_option (th_ipv4_option (p_hdr p)) = 31"

definition tagged :: "stag_packet \<Rightarrow> bool" where
  "tagged p \<longleftrightarrow> tag_parsed p \<or> stag_isValid (th_stag (p_hdr p)) = 1"

definition source_colour :: "stag_packet \<Rightarrow> u8" where
  "source_colour p =
     (if tag_parsed p then stag_source_color (th_stag (p_hdr p))
      else if from_port1 p \<and> \<not> tagged p then 0
      else md_src_port_color (local_md (p_meta p)))"

lemmas stag_parser_defs =
  ParserImpl_stag_def start_stag_def start_c_def start_ipv4_def start_other_def parse_ipv4_stag_def
  parse_ipv4_c_def parse_ipv4_verify_def parse_ipv4_long_def parse_ipv4_short_def mark_ipv4_def
  parse_ipv4_rest_def parse_ipv4_option_def parse_stag_def accept_stag_def

lemmas stag_control_defs =
  ingress_stag_def get_source_color_136787_def get_source_color_c_def get_source_color_port1_def
  get_source_color_other_def set_source_color_0_136769_def set_run_def forward_136962_def
  set_local_dest_0_136835_def color_check_137023_def drop_0_136753_def mark_to_drop_stag_def
  end_assertions_stag_def violates_stag_def

lemmas stag_egress_defs =
  egress_stag_def place_holder_table_137143_def NoAction_7_137142_def DeparserImpl_def

text \<open>The packet as the parser leaves it.\<close>

definition parsed_packet :: "stag_packet \<Rightarrow> stag_packet" where
  "parsed_packet p = 
    (let h1 = th_ethernet_update (teth_isValid_update (\<lambda>_. 1)) (p_hdr p);
         h2 = (if has_ipv4 p then th_ipv4_update (tip_isValid_update (\<lambda>_. 1)) h1 else h1);
         h3 = (if has_ipv4 p \<and> ihl p \<noteq> 5 then th_ipv4_option_update (opt_isValid_update (\<lambda>_. 1)) h2 else h2)
     in if tag_parsed p
        then p\<lparr>p_hdr := th_stag_update (stag_isValid_update (\<lambda>_. 1)) h3,
               p_meta := local_md_update (md_src_port_color_update (\<lambda>_. stag_source_color (th_stag (p_hdr p)))) (p_meta p)\<rparr>
        else p\<lparr>p_hdr := h3\<rparr>)"

lemma parser_stag_c:
  "ParserImpl_stag Stag_c p s = Next (s\<lparr>t_pkt := parsed_packet p\<rparr>)"
  by (simp add: stag_parser_defs cmd_simps parsed_packet_def tag_parsed_def Let_def)

definition stag_packet_out :: "stag_packet \<Rightarrow> stag_packet \<Rightarrow> bool" where
  "stag_packet_out p q \<longleftrightarrow>
     tstd_egress_spec (p_std q) = (if to_local p then 2 else tstd_egress_spec (p_std p)) \<and>
     md_src_port_color (local_md (p_meta q)) = source_colour p \<and>
     (to_local p \<longrightarrow> stag_isValid (th_stag (p_hdr q)) = 0)"

lemma parsed_packet_simps [simp]:
  "p_std (parsed_packet p) = p_std p" "th_ipv4 (p_hdr (parsed_packet p)) = 
     (th_ipv4 (p_hdr p))\<lparr>tip_isValid := (if has_ipv4 p then 1 else tip_isValid (th_ipv4 (p_hdr p)))\<rparr>"
  "stag_isValid (th_stag (p_hdr (parsed_packet p))) = 1 \<longleftrightarrow> tagged p"
  by (simp_all add: parsed_packet_def Let_def tagged_def)

lemma parsed_colour:
  "md_src_port_color (local_md (p_meta (parsed_packet p))) =
     (if tag_parsed p then stag_source_color (th_stag (p_hdr p)) else md_src_port_color (local_md (p_meta p)))"
  by (simp add: parsed_packet_def Let_def)

text \<open>
  Claim C14. What \<^verbatim>\<open>stag.c\<close> does with a packet, for every packet.  A packet to 10.0.0.2 whose source
  colour is 0 is dropped; every other packet is forwarded, to port 2 and with its tag removed when it is
  for 10.0.0.2, and to its own egress port otherwise.  The assertion is reported exactly when a packet
  from port 1 to 10.0.0.2 is forwarded, which happens when it carries a tag with a colour other than 0:
  an untagged packet from port 1 has colour 0.
\<close>

theorem stag_functional:
  "\<exists>s. run_stag Stag_c p w = (if to_local p \<and> source_colour p = 0 then Exited 0 s else Next s) \<and>
     reports s = (if to_local p \<and> from_port1 p \<and> source_colour p \<noteq> 0
                  then [Print_once 0 (msg_stag @ [CHR 0x0A])] else []) \<and>
     stag_packet_out p (t_pkt s)"
proof -
  have c: "source_colour p = (if from_port1 p \<and> \<not> tagged p then 0 else md_src_port_color (local_md (p_meta (parsed_packet p))))"
    by (auto simp: source_colour_def parsed_colour tagged_def)
  show ?thesis
    unfolding run_stag_def stag_main_def block.simps parser_stag_c
    by (simp add: c stag_control_defs stag_egress_defs cmd_simps stag_globals_def stag_packet_out_def stag_report_def)
qed

section \<open>The copies\<close>

text \<open>
  What is observed of a run is how it ended, the final globals and how many reports were made; the
  copies print the one message in different ways.  A run that fails an assumption is no behaviour.
\<close>

definition observe_stag :: "stag_state outcome \<Rightarrow> (stag_state \<times> nat) outcome" where
  "observe_stag = map_outcome (\<lambda>s. (s\<lparr>reports := []\<rparr>, length (reports s)))"

definition stag_behaviours :: "stag_file \<Rightarrow> stag_packet \<Rightarrow> inputs \<Rightarrow> (stag_state \<times> nat) outcome set" where
  "stag_behaviours f p w =
     (if is_Assume_failed (run_stag f p w) then {} else {observe_stag (run_stag f p w)})"

definition colour_stage :: "stag_file \<Rightarrow> stag_state cmd" where
  "colour_stage f = cond (\<lambda>s. stag_isValid (th_stag (hdr s)) \<noteq> 1) (get_source_color_136787 f) skip"

definition forward_stage :: "stag_file \<Rightarrow> inputs \<Rightarrow> stag_state cmd" where
  "forward_stage f w = block
    [forward_136962, cond (\<lambda>s. t_action_run s = 136835) (color_check_137023 f) skip,
     egress_stag w, DeparserImpl, end_assertions_stag f]"

lemma run_stages:
  "run_stag f p w = block [ParserImpl_stag f p, colour_stage f, forward_stage f w] stag_globals"
  by (simp add: run_stag_def stag_main_def ingress_stag_def colour_stage_def forward_stage_def
      split: outcome.split)

lemma observe_forward_stage:
  "observe_stag (forward_stage f w s) = observe_stag (forward_stage Stag_c w s)"
  by (simp add: forward_stage_def stag_control_defs stag_egress_defs cmd_simps observe_stag_def)

lemma forward_stage_feasible: "\<not> is_Assume_failed (forward_stage f w s)"
  by (simp add: forward_stage_def stag_control_defs stag_egress_defs cmd_simps)

text \<open>The packets that the parser and the colour table of a copy let through, and those it exits on.\<close>

definition exits_early :: "stag_file \<Rightarrow> stag_packet \<Rightarrow> bool" where
  "exits_early f p \<longleftrightarrow> f \<notin> {Stag_c, Par21, Par22, Asm21, Asm22} \<and> has_ipv4 p \<and> ihl p \<ge> 5"

definition admits :: "stag_file \<Rightarrow> stag_packet \<Rightarrow> bool" where
  "admits f p \<longleftrightarrow>
     (f \<in> {Par21, Par22} \<longrightarrow> \<not> has_ipv4 p) \<and>
     (f \<in> {Stag_assume, Par11, Par12, Asm11, Asm12, Asm21, Asm22} \<longrightarrow> has_ipv4 p) \<and>
     (f \<in> {Asm11, Asm12} \<longrightarrow> ihl p \<ge> 5) \<and> (f \<in> {Asm21, Asm22} \<longrightarrow> ihl p < 5)"

definition colours :: "stag_file \<Rightarrow> stag_packet \<Rightarrow> bool" where
  "colours f p \<longleftrightarrow> tagged p \<or>
     (f \<in> {Par11, Par21, Asm11, Asm21} \<longrightarrow> from_port1 p) \<and>
     (f \<in> {Par12, Par22, Asm12, Asm22} \<longrightarrow> \<not> from_port1 p)"

definition ipv4_marked :: "stag_packet \<Rightarrow> stag_packet" where
  "ipv4_marked p = p_hdr_update (th_ipv4_update (tip_isValid_update (\<lambda>_. 1)) \<circ>
     th_ethernet_update (teth_isValid_update (\<lambda>_. 1))) p"

lemma parser_refuses: "\<not> admits f p \<Longrightarrow> is_Assume_failed (ParserImpl_stag f p s)"
  by (cases f; cases "has_ipv4 p";
      simp add: stag_parser_defs cmd_simps admits_def exits_early_def not_less not_le)

lemma parser_exits:
  "admits f p \<Longrightarrow> exits_early f p \<Longrightarrow> ParserImpl_stag f p s = Exited 1 (s\<lparr>t_pkt := ipv4_marked p\<rparr>)"
  by (cases f; cases "has_ipv4 p";
      simp add: stag_parser_defs cmd_simps admits_def exits_early_def ipv4_marked_def not_less not_le)

lemma parser_copies:
  "admits f p \<Longrightarrow> \<not> exits_early f p \<Longrightarrow> ParserImpl_stag f p s = ParserImpl_stag Stag_c p s"
  by (cases f; cases "has_ipv4 p";
      simp add: stag_parser_defs cmd_simps admits_def exits_early_def not_less not_le)

lemma colour_refuses:
  "\<not> colours f p \<Longrightarrow> is_Assume_failed (colour_stage f (s\<lparr>t_pkt := parsed_packet p\<rparr>))"
  by (cases f; cases "tagged p"; simp add: colour_stage_def stag_control_defs cmd_simps colours_def)

lemma colour_copies:
  "colours f p \<Longrightarrow>
     colour_stage f (s\<lparr>t_pkt := parsed_packet p\<rparr>) = colour_stage Stag_c (s\<lparr>t_pkt := parsed_packet p\<rparr>)"
  by (cases f; cases "tagged p"; simp add: colour_stage_def stag_control_defs cmd_simps colours_def)

lemma colour_stage_Next: "\<exists>t. colour_stage Stag_c s = Next t"
  by (simp add: colour_stage_def stag_control_defs cmd_simps)

lemma stag_behaviours_eq:
  "stag_behaviours f p w =
     (if \<not> admits f p then {}
      else if exits_early f p then {Exited 1 (stag_globals\<lparr>t_pkt := ipv4_marked p\<rparr>, 0)}
      else if \<not> colours f p then {} else stag_behaviours Stag_c p w)"
proof -
  obtain u where u: "colour_stage Stag_c (stag_globals\<lparr>t_pkt := parsed_packet p\<rparr>) = Next u"
    using colour_stage_Next by blast
  have base: "run_stag Stag_c p w = forward_stage Stag_c w u"
    by (simp add: run_stages parser_stag_c u block_single block_Next del: block.simps)
  consider "\<not> admits f p" | "admits f p" "exits_early f p"
    | "admits f p" "\<not> exits_early f p" "\<not> colours f p" | "admits f p" "\<not> exits_early f p" "colours f p"
    by blast
  then show ?thesis
  proof cases
    case 1
    then have "is_Assume_failed (run_stag f p w)"
      using parser_refuses [of f p stag_globals] by (auto simp: run_stages is_Assume_failed_def)
    with 1 show ?thesis
      by (simp add: stag_behaviours_def)
  next
    case 2
    then have "run_stag f p w = Exited 1 (stag_globals\<lparr>t_pkt := ipv4_marked p\<rparr>)"
      by (simp add: run_stages parser_exits)
    with 2 show ?thesis
      by (simp add: stag_behaviours_def observe_stag_def stag_globals_def)
  next
    case 3
    then have "is_Assume_failed (run_stag f p w)"
      using colour_refuses [of f p stag_globals] by (auto simp: run_stages parser_copies parser_stag_c is_Assume_failed_def)
    with 3 show ?thesis
      by (simp add: stag_behaviours_def)
  next
    case 4
    then have "run_stag f p w = forward_stage f w u"
      by (simp add: run_stages parser_copies parser_stag_c colour_copies u block_single del: block.simps add: block_Next)
    with 4 base show ?thesis
      using observe_forward_stage [of f w u]  by (simp add: stag_behaviours_def forward_stage_feasible)
  qed
qed

lemmas stag_copies = stag_behaviours_eq [of Stag_assume] stag_behaviours_eq [of Par11]
  stag_behaviours_eq [of Par12] stag_behaviours_eq [of Par21] stag_behaviours_eq [of Par22]
  stag_behaviours_eq [of Asm11] stag_behaviours_eq [of Asm12] stag_behaviours_eq [of Asm21]
  stag_behaviours_eq [of Asm22]

text \<open>
  The four programs of \<^verbatim>\<open>parallel-assumption\<close> have together exactly the behaviours of
  \<^verbatim>\<open>stag-assume.c\<close>.
\<close>

theorem stag_assume_split:
  "stag_behaviours Stag_assume p w = (\<Union>g \<in> {Asm11, Asm12, Asm21, Asm22}. stag_behaviours g p w)"
  by (cases "has_ipv4 p"; cases "from_port1 p"; cases "ihl p \<ge> 5";
      simp add: stag_copies admits_def exits_early_def colours_def flip: not_le)

text \<open>
  Claim C18. The four programs of \<^verbatim>\<open>parallel\<close> have together the behaviours of \<^verbatim>\<open>stag.c\<close> on packets
  without an IPv4 header or with a header length below 5, but on an IPv4 packet with a header of legal
  length they only exit with code 1 from the parser: the check \<^verbatim>\<open>verify(hdr.ipv4.ihl >= 5)\<close> of the P4
  program is inverted in them, so they never examine such a packet.
\<close>

theorem stag_parallel_split:
  "(\<Union>g \<in> {Par11, Par12, Par21, Par22}. stag_behaviours g p w) =
     (if has_ipv4 p \<and> ihl p \<ge> 5
      then {Exited 1 (stag_globals\<lparr>t_pkt := ipv4_marked p\<rparr>, 0)}
      else stag_behaviours Stag_c p w)"
  by (cases "has_ipv4 p"; cases "from_port1 p"; cases "ihl p \<ge> 5";
      simp add: stag_copies admits_def exits_early_def colours_def flip: not_le)

text \<open>
  \<^verbatim>\<open>stag-assume.c\<close> has no behaviour on packets without an IPv4 header, exits with code 1
  from the parser on every IPv4 packet with a header of legal length, and behaves as \<^verbatim>\<open>stag.c\<close> on the
  others, whose header length is below the legal minimum.
\<close>

theorem stag_assume_restricts:
  "stag_behaviours Stag_assume p w =
     (if \<not> has_ipv4 p then {}
      else if ihl p \<ge> 5 then {Exited 1 (stag_globals\<lparr>t_pkt := ipv4_marked p\<rparr>, 0)}
      else stag_behaviours Stag_c p w)"
  by (simp add: stag_copies admits_def exits_early_def colours_def)

end
