(* ===== verification/Bytes.thy ===== *)
theory Bytes
  imports Prelude
begin

text \<open>
  Memory as lists.  A buffer of the C code is a list of bytes (or of larger cells); \<open>copy_in\<close> and
  \<open>copy_out\<close> are \<^verbatim>\<open>memcpy\<close> into and out of it, undefined (\<open>None\<close>) when the range is not inside the
  buffer.  \<open>cells\<close> reads a buffer as an array of cells of equal size, which is how the ring buffer and the
  serialised sketch use it.  \<open>le_bytes\<close> is the in-memory representation of an unsigned integer on the
  little-endian machines the code runs on.
\<close>

section \<open>Copying\<close>

definition copy_out :: "'a list \<Rightarrow> nat \<Rightarrow> nat \<Rightarrow> 'a list option" where
  "copy_out mem off n = (if off + n \<le> length mem then Some (take n (drop off mem)) else None)"

definition copy_in :: "'a list \<Rightarrow> nat \<Rightarrow> 'a list \<Rightarrow> 'a list option" where
  "copy_in mem off bs =
     (if off + length bs \<le> length mem
      then Some (take off mem @ bs @ drop (off + length bs) mem) else None)"

lemma copy_out_all [simp]: "length bs = n \<Longrightarrow> copy_out bs 0 n = Some bs"
  by (simp add: copy_out_def)

lemma copy_out_prefix: "length bs = n \<Longrightarrow> copy_out (bs @ cs) 0 n = Some bs"
  by (simp add: copy_out_def)

lemma copy_in_length: "copy_in mem off bs = Some mem' \<Longrightarrow> length mem' = length mem"
  by (auto simp: copy_in_def split: if_splits)

lemma copy_out_copy_in_same:
  "copy_in mem off bs = Some mem' \<Longrightarrow> length bs = n \<Longrightarrow> copy_out mem' off n = Some bs"
  by (auto simp: copy_in_def copy_out_def split: if_splits)

lemma copy_out_copy_in_disjoint:
  assumes "copy_in mem off bs = Some mem'" and "i + n \<le> off \<or> off + length bs \<le> i"
  shows "copy_out mem' i n = copy_out mem i n"
proof -
  have le: "off + length bs \<le> length mem" and
    mem': "mem' = take off mem @ bs @ drop (off + length bs) mem"
    using assms(1) by (auto simp: copy_in_def split: if_splits)
  have "take n (drop i mem') = take n (drop i mem)" if "i + n \<le> length mem"
  proof (rule nth_equalityI)
    show "length (take n (drop i mem')) = length (take n (drop i mem))"
      using copy_in_length [OF assms(1)] by simp
    fix j
    assume "j < length (take n (drop i mem'))"
    then show "take n (drop i mem') ! j = take n (drop i mem) ! j"
      using le that assms(2) by (auto simp: mem' nth_append)
  qed
  then show ?thesis
    using copy_in_length [OF assms(1)] by (simp add: copy_out_def)
qed

section \<open>Arrays of cells\<close>

definition cell :: "nat \<Rightarrow> 'a list \<Rightarrow> nat \<Rightarrow> 'a list option" where
  "cell sz mem i = copy_out mem (i * sz) sz"

lemma cell_disjoint: "i \<noteq> j \<Longrightarrow> i * sz + sz \<le> j * sz \<or> j * sz + sz \<le> i * (sz :: nat)"
proof (cases "i < j")
  case True
  then have "Suc i * sz \<le> j * sz"
    by (intro mult_right_mono) simp_all
  then show ?thesis by simp
next
  case False
  assume "i \<noteq> j"
  with False have "Suc j * sz \<le> i * sz"
    by (intro mult_right_mono) simp_all
  then show ?thesis by simp
qed

lemma cell_copy_in:
  assumes "copy_in mem (j * sz) bs = Some mem'" and "length bs = sz"
  shows "cell sz mem' i = (if i = j then Some bs else cell sz mem i)"
  using assms copy_out_copy_in_same [OF assms]
    copy_out_copy_in_disjoint [OF assms(1), of "i * sz" sz] cell_disjoint [of i j sz]
  by (auto simp: cell_def)

lemma copy_in_cell:
  assumes "j < n" and "length mem = n * sz" and "length bs = sz"
  shows "\<exists>mem'. copy_in mem (j * sz) bs = Some mem'"
proof -
  have "Suc j * sz \<le> n * sz"
    using assms(1) by (intro mult_right_mono) simp_all
  then show ?thesis
    using assms(2,3) by (simp add: copy_in_def add.commute)
qed

lemma cell_Some:
  assumes "j < n" and "length mem = n * sz"
  shows "\<exists>bs. cell sz mem j = Some bs \<and> length bs = sz"
proof -
  have "Suc j * sz \<le> n * sz"
    using assms(1) by (intro mult_right_mono) simp_all
  then show ?thesis
    using assms(2) by (simp add: cell_def copy_out_def add.commute)
qed

section \<open>Errors\<close>

text \<open>
  What ends a C function other than a return: \<^verbatim>\<open>exit\<close> with a code, or an access that the language
  leaves undefined.
\<close>

datatype c_error = Exit_code int | Invalid_access

type_synonym 'a result = "c_error + 'a"

section \<open>Integers in memory\<close>

definition le32 :: "u32 \<Rightarrow> u8 list" where
  "le32 v = map (\<lambda>i. ucast (drop_bit (8 * i) v)) [0, 1, 2, 3]"

definition of_le32 :: "u8 list \<Rightarrow> u32" where
  "of_le32 bs =
     ucast (bs ! 0) OR push_bit 8 (ucast (bs ! 1)) OR push_bit 16 (ucast (bs ! 2)) OR
     push_bit 24 (ucast (bs ! 3))"

lemma length_le32 [simp]: "length (le32 v) = 4"
  by (simp add: le32_def)

lemma of_le32_le32 [simp]: "of_le32 (le32 v @ bs) = v"
proof (rule bit_word_eqI)
  fix n
  assume "n < LENGTH(32)"
  then consider "n < 8" | "8 \<le> n" "n < 16" | "16 \<le> n" "n < 24" | "24 \<le> n" "n < 32"
    by fastforce
  then show "bit (of_le32 (le32 v @ bs)) n = bit v n"
    by cases (auto simp: of_le32_def le32_def bit_simps dest: bit_imp_le_length)
qed

end
