(* ===== verification/Ringbuffer.thy ===== *)
theory Ringbuffer
  imports Bytes
begin

text \<open>
  \<^verbatim>\<open>src/sketchlearn/ringbuffer.c\<close> and \<^verbatim>\<open>ringbuffer.h\<close>: the single-producer, single-consumer ring
  buffer between the packet reader and the sketch threads.  Both sides keep private copies of the
  other side's index (\<^verbatim>\<open>localReadIndex\<close>, \<^verbatim>\<open>localWriteIndex\<close>) and publish their own index only every
  \<^verbatim>\<open>RB_BATCH\<close> operations, so six indices into the circular array are in play.

  The operations are those of the C code; a slot is \<^verbatim>\<open>tuple_size\<close> bytes of the flat memory
  \<^verbatim>\<open>rb->data\<close>.  \<open>rb_hist rb ws rs\<close> relates a buffer to the history of the tuples written and read;
  its existential counters are the absolute positions of which the indices are the residues.  The
  locale \<open>channel\<close> is what a user of the buffer may rely on; its interpretation on the C operations
  gives the first-in, first-out behaviour for every sequence of operations.
\<close>

section \<open>The buffer\<close>

definition RB_SIZE :: nat where
  "RB_SIZE = 2000"

definition RB_BATCH :: int where
  "RB_BATCH = 50"

record RBMeta =
  readIndex :: int
  writeIndex :: int
  localWriteIndex :: int
  nextReadIndex :: int
  rBatchCount :: int
  localReadIndex :: int
  nextWriteIndex :: int
  wBatchCount :: int

record RingBuffer =
  tuple_size :: nat
  rb_meta :: RBMeta
  rb_data :: "u8 list"

definition nextVal :: "int \<Rightarrow> int" where
  "nextVal x = (if x + 1 \<ge> int RB_SIZE then 0 else x + 1)"

text \<open>The contents that \<^verbatim>\<open>create_ringbuffer_shm\<close> gives the shared memory it has allocated.\<close>

definition create_ringbuffer_shm :: "nat \<Rightarrow> RingBuffer" where
  "create_ringbuffer_shm n =
     \<lparr>tuple_size = n,
      rb_meta = \<lparr>readIndex = 0, writeIndex = 0, localWriteIndex = 0, nextReadIndex = 0,
        rBatchCount = 0, localReadIndex = 0, nextWriteIndex = 0, wBatchCount = 0\<rparr>,
      rb_data = replicate (RB_SIZE * n) 0\<rparr>"

definition flush_ringbuffer :: "RingBuffer \<Rightarrow> RingBuffer" where
  "flush_ringbuffer rb =
     (let m1 = (rb_meta rb)\<lparr>writeIndex := nextWriteIndex (rb_meta rb)\<rparr>;
          m2 = m1\<lparr>readIndex := nextReadIndex m1\<rparr>
      in rb\<lparr>rb_meta := m2\<rparr>)"

definition read_complete_ringbuffer :: "RingBuffer \<Rightarrow> RingBuffer" where
  "read_complete_ringbuffer rb =
     (let m1 = (rb_meta rb)\<lparr>readIndex := nextReadIndex (rb_meta rb)\<rparr>;
          m2 = m1\<lparr>localReadIndex := nextReadIndex m1\<rparr>
      in rb\<lparr>rb_meta := m2\<rparr>)"

definition ringbuffer_size :: "RingBuffer \<Rightarrow> int" where
  "ringbuffer_size rb =
     (let m = rb_meta rb
      in if nextWriteIndex m < localReadIndex m
         then nextWriteIndex m - localReadIndex m + int RB_SIZE
         else nextWriteIndex m - localReadIndex m)"

text \<open>
  \<open>None\<close> is undefined behaviour of one of the two \<^verbatim>\<open>memcpy\<close> ranges; otherwise the result is the
  return code and the new buffer.
\<close>

definition write_ringbuffer :: "RingBuffer \<Rightarrow> u8 list \<Rightarrow> nat \<Rightarrow> (int \<times> RingBuffer) option" where
  "write_ringbuffer rb data n =
     (let m = rb_meta rb; afterNextWriteIndex = nextVal (nextWriteIndex m)
      in if afterNextWriteIndex = localReadIndex m \<and> afterNextWriteIndex = readIndex m
         then Some (-1, rb)
         else
           let m1 = (if afterNextWriteIndex = localReadIndex m
                     then m\<lparr>localReadIndex := readIndex m\<rparr> else m)
           in case copy_out data 0 n of
                None \<Rightarrow> None
              | Some bs \<Rightarrow>
                  (case copy_in (rb_data rb) (nat (nextWriteIndex m1) * tuple_size rb) bs of
                     None \<Rightarrow> None
                   | Some mem \<Rightarrow>
                       let m2 = m1\<lparr>nextWriteIndex := afterNextWriteIndex, wBatchCount := wBatchCount m1 + 1\<rparr>;
                           m3 = (if wBatchCount m2 \<ge> RB_BATCH
                                 then m2\<lparr>writeIndex := nextWriteIndex m2, wBatchCount := 0\<rparr> else m2)
                       in Some (0, rb\<lparr>rb_meta := m3, rb_data := mem\<rparr>)))"

definition write_ringbuffer_block :: "RingBuffer \<Rightarrow> u8 list \<Rightarrow> nat \<Rightarrow> (int \<times> RingBuffer) option" where
  "write_ringbuffer_block rb data n =
     (let m = rb_meta rb; afterNextWriteIndex = nextVal (nextWriteIndex m)
      in if afterNextWriteIndex = localReadIndex m \<and> afterNextWriteIndex = readIndex m
         then Some (-1, rb)
         else
           let m1 = (if afterNextWriteIndex = localReadIndex m
                     then m\<lparr>localReadIndex := readIndex m\<rparr> else m)
           in case copy_out data 0 n of
                None \<Rightarrow> None
              | Some bs \<Rightarrow>
                  (case copy_in (rb_data rb) (nat (nextWriteIndex m1) * tuple_size rb) bs of
                     None \<Rightarrow> None
                   | Some mem \<Rightarrow>
                       let m2 = m1\<lparr>nextWriteIndex := afterNextWriteIndex, wBatchCount := wBatchCount m1 + 1\<rparr>;
                           m3 = (if wBatchCount m2 \<ge> RB_BATCH
                                 then m2\<lparr>writeIndex := nextWriteIndex m2, wBatchCount := 0\<rparr> else m2)
                       in Some (0, rb\<lparr>rb_meta := m3, rb_data := mem\<rparr>)))"

definition read_ringbuffer :: "RingBuffer \<Rightarrow> (int \<times> u8 list option \<times> RingBuffer) option" where
  "read_ringbuffer rb =
     (let m = rb_meta rb
      in if nextReadIndex m = localWriteIndex m \<and> nextReadIndex m = writeIndex m
         then Some (-1, None, rb)
         else
           let m1 = (if nextReadIndex m = localWriteIndex m
                     then m\<lparr>localWriteIndex := writeIndex m\<rparr> else m)
           in case copy_out (rb_data rb) (nat (nextReadIndex m1) * tuple_size rb) (tuple_size rb) of
                None \<Rightarrow> None
              | Some bs \<Rightarrow>
                  let m2 = m1\<lparr>nextReadIndex := nextVal (nextReadIndex m1), rBatchCount := rBatchCount m1 + 1\<rparr>;
                      m3 = (if rBatchCount m2 \<ge> RB_BATCH
                            then m2\<lparr>readIndex := nextReadIndex m2, rBatchCount := 0\<rparr> else m2)
                  in Some (0, Some bs, rb\<lparr>rb_meta := m3\<rparr>))"

section \<open>The interface\<close>

text \<open>
  \<open>hist c ws rs\<close>: \<open>ws\<close> has been written to the channel \<open>c\<close> and \<open>rs\<close> read from it.  A user may rely on
  these laws: nothing is lost, duplicated or reordered, a refused operation changes nothing, reading
  after a flush is refused only when everything has been read, and the two sides do not block each
  other.
\<close>

datatype 'a chan_op = Put 'a | Get | Flush

fun run_ops ::
  "('c \<Rightarrow> 'a \<Rightarrow> (int \<times> 'c) option) \<Rightarrow> ('c \<Rightarrow> (int \<times> 'a option \<times> 'c) option) \<Rightarrow> ('c \<Rightarrow> 'c) \<Rightarrow>
   'a chan_op list \<Rightarrow> 'c \<Rightarrow> ('a list \<times> 'a list \<times> 'c) option" where
  "run_ops put get flush [] c = Some ([], [], c)"
| "run_ops put get flush (Put x # ops) c =
     (case put c x of
        None \<Rightarrow> None
      | Some (r, c') \<Rightarrow>
          map_option (\<lambda>(ws, rs, d). (if r = 0 then x # ws else ws, rs, d)) (run_ops put get flush ops c'))"
| "run_ops put get flush (Get # ops) c =
     (case get c of
        None \<Rightarrow> None
      | Some (r, y, c') \<Rightarrow>
          map_option (\<lambda>(ws, rs, d). (ws, (case y of None \<Rightarrow> rs | Some x \<Rightarrow> x # rs), d))
            (run_ops put get flush ops c'))"
| "run_ops put get flush (Flush # ops) c = run_ops put get flush ops (flush c)"

locale channel =
  fixes hist :: "'c \<Rightarrow> 'a list \<Rightarrow> 'a list \<Rightarrow> bool"
    and fits :: "'c \<Rightarrow> 'a \<Rightarrow> bool"
    and put :: "'c \<Rightarrow> 'a \<Rightarrow> (int \<times> 'c) option"
    and get :: "'c \<Rightarrow> (int \<times> 'a option \<times> 'c) option"
    and flush :: "'c \<Rightarrow> 'c"
    and capacity :: nat
  assumes hist_prefix: "hist c ws rs \<Longrightarrow> \<exists>zs. ws = rs @ zs \<and> length zs \<le> capacity"
    and put_law: "hist c ws rs \<Longrightarrow> fits c x \<Longrightarrow>
      put c x = Some (-1, c) \<or>
      (\<exists>c'. put c x = Some (0, c') \<and> hist c' (ws @ [x]) rs \<and> fits c' = fits c)"
    and get_law: "hist c ws rs \<Longrightarrow>
      get c = Some (-1, None, c) \<or>
      (\<exists>x c'. get c = Some (0, Some x, c') \<and> hist c' ws (rs @ [x]) \<and> fits c' = fits c)"
    and flush_law: "hist c ws rs \<Longrightarrow> hist (flush c) ws rs \<and> fits (flush c) = fits c"
    and get_flushed: "hist c ws rs \<Longrightarrow> get (flush c) = Some (-1, None, flush c) \<Longrightarrow> rs = ws"
    and no_deadlock: "hist c ws rs \<Longrightarrow> fits c x \<Longrightarrow> get c = Some (-1, None, c) \<Longrightarrow>
      put c x \<noteq> Some (-1, c)"
begin

lemma run_ops_hist:
  assumes "hist c ws rs" and "\<And>x. Put x \<in> set ops \<Longrightarrow> fits c x"
  shows "\<exists>ws' rs' c'. run_ops put get flush ops c = Some (ws', rs', c') \<and> hist c' (ws @ ws') (rs @ rs')"
  using assms
proof (induction ops arbitrary: c ws rs)
  case (Cons a ops)
  show ?case
  proof (cases a)
    case (Put x)
    with Cons.prems have "fits c x"
      by simp
    with put_law [OF Cons.prems(1)] consider "put c x = Some (-1, c)"
      | c' where "put c x = Some (0, c')" "hist c' (ws @ [x]) rs" "fits c' = fits c"
      by blast
    then show ?thesis
    proof cases
      case 1
      then show ?thesis
        using Cons.IH [OF Cons.prems(1)] Cons.prems(2) Put by fastforce
    next
      case 2
      then show ?thesis
        using Cons.IH [OF 2(2)] Cons.prems(2) Put by fastforce
    qed
  next
    case Get
    from get_law [OF Cons.prems(1)] consider "get c = Some (-1, None, c)"
      | x c' where "get c = Some (0, Some x, c')" "hist c' ws (rs @ [x])" "fits c' = fits c"
      by blast
    then show ?thesis
    proof cases
      case 1
      then show ?thesis
        using Cons.IH [OF Cons.prems(1)] Cons.prems(2) Get by fastforce
    next
      case 2
      then show ?thesis
        using Cons.IH [OF 2(2)] Cons.prems(2) Get by fastforce
    qed
  next
    case Flush
    then show ?thesis
      using Cons.IH flush_law [OF Cons.prems(1)] Cons.prems(2) by fastforce
  qed
qed simp

lemma run_ops_fifo:
  assumes "hist c [] []" and "\<And>x. Put x \<in> set ops \<Longrightarrow> fits c x"
  shows "\<exists>rs zs c'. run_ops put get flush ops c = Some (rs @ zs, rs, c') \<and> length zs \<le> capacity"
  using run_ops_hist [OF assms] hist_prefix by fastforce

end

section \<open>The history of a buffer\<close>

text \<open>
  The absolute positions: \<open>lr \<le> r \<le> nr \<le> lw \<le> w \<le> nw\<close> are the writer's copy of the read index, the
  published read index, the next position to read, the reader's copy of the write index, the published
  write index and the next position to write.  The writer is less than one round ahead of its copy of
  the read index, so every tuple that is not yet released is still in its slot.
\<close>

definition positions :: "RingBuffer \<Rightarrow> nat \<Rightarrow> nat \<Rightarrow> nat \<Rightarrow> nat \<Rightarrow> nat \<Rightarrow> nat \<Rightarrow> bool" where
  "positions rb lr r nr lw w nw \<longleftrightarrow>
     lr \<le> r \<and> r \<le> nr \<and> nr \<le> lw \<and> lw \<le> w \<and> w \<le> nw \<and> nw < lr + RB_SIZE \<and>
     localReadIndex (rb_meta rb) = int (lr mod RB_SIZE) \<and> readIndex (rb_meta rb) = int (r mod RB_SIZE) \<and>
     nextReadIndex (rb_meta rb) = int (nr mod RB_SIZE) \<and>
     localWriteIndex (rb_meta rb) = int (lw mod RB_SIZE) \<and>
     writeIndex (rb_meta rb) = int (w mod RB_SIZE) \<and> nextWriteIndex (rb_meta rb) = int (nw mod RB_SIZE) \<and>
     int (nr - r) \<le> rBatchCount (rb_meta rb) \<and> rBatchCount (rb_meta rb) < RB_BATCH \<and>
     int (nw - w) \<le> wBatchCount (rb_meta rb) \<and> wBatchCount (rb_meta rb) < RB_BATCH"

definition holds :: "RingBuffer \<Rightarrow> nat \<Rightarrow> u8 list list \<Rightarrow> bool" where
  "holds rb lr ws \<longleftrightarrow>
     length (rb_data rb) = RB_SIZE * tuple_size rb \<and>
     (\<forall>i. lr \<le> i \<and> i < length ws \<longrightarrow> cell (tuple_size rb) (rb_data rb) (i mod RB_SIZE) = Some (ws ! i))"

definition rb_hist :: "RingBuffer \<Rightarrow> u8 list list \<Rightarrow> u8 list list \<Rightarrow> bool" where
  "rb_hist rb ws rs \<longleftrightarrow>
     (\<exists>lr r lw w. positions rb lr r (length rs) lw w (length ws) \<and> holds rb lr ws) \<and>
     take (length rs) ws = rs"

definition rb_fits :: "RingBuffer \<Rightarrow> u8 list \<Rightarrow> bool" where
  "rb_fits rb x \<longleftrightarrow> length x = tuple_size rb"

lemma RB_SIZE_pos [simp]: "0 < RB_SIZE"
  by (simp add: RB_SIZE_def)

lemma nextVal_mod: "nextVal (int (i mod RB_SIZE)) = int (Suc i mod RB_SIZE)"
proof -
  have "i mod RB_SIZE < RB_SIZE"
    by simp
  then have "int RB_SIZE \<le> int (i mod RB_SIZE) + 1 \<longleftrightarrow> Suc (i mod RB_SIZE) = RB_SIZE"
    by linarith
  then show ?thesis
    by (simp add: nextVal_def mod_Suc)
qed

lemma mod_window: "a < b \<Longrightarrow> b \<le> a + n \<Longrightarrow> b mod n = a mod n \<longleftrightarrow> b = a + (n :: nat)"
proof
  assume "a < b" "b \<le> a + n" "b mod n = a mod n"
  then have "n dvd b - a"
    by (simp add: mod_eq_dvd_iff_nat)
  with \<open>a < b\<close> have "n \<le> b - a"
    by (simp add: dvd_imp_le)
  with \<open>b \<le> a + n\<close> \<open>a < b\<close> show "b = a + n"
    by linarith
qed simp

lemma mod_window': "a \<le> b \<Longrightarrow> b < a + n \<Longrightarrow> a mod n = b mod n \<longleftrightarrow> a = (b :: nat)"
proof
  assume "a \<le> b" "b < a + n" "a mod n = b mod n"
  then have "n dvd b - a"
    by (metis mod_eq_dvd_iff_nat)
  moreover have "b - a < n"
    using \<open>b < a + n\<close> \<open>a \<le> b\<close> by linarith
  ultimately have "b - a = 0"
    by (metis dvd_imp_le not_le neq0_conv)
  with \<open>a \<le> b\<close> show "a = b"
    by simp
qed simp

lemma rb_create: "rb_hist (create_ringbuffer_shm n) [] []"
  by (auto simp: rb_hist_def positions_def holds_def create_ringbuffer_shm_def RB_BATCH_def)

lemma rb_hist_prefix:
  assumes "rb_hist rb ws rs"
  shows "\<exists>zs. ws = rs @ zs \<and> length zs \<le> RB_SIZE - 1"
proof -
  have "length ws < length rs + RB_SIZE" "take (length rs) ws = rs"
    using assms by (auto simp: rb_hist_def positions_def)
  then have "ws = rs @ drop (length rs) ws" and "length (drop (length rs) ws) \<le> RB_SIZE - 1"
    by (metis append_take_drop_id, simp)
  then show ?thesis
    by blast
qed

text \<open>When the writer is refused and when the reader is, in terms of positions.\<close>

lemma write_full:
  assumes "positions rb lr r nr lw w nw"
  shows "nextVal (nextWriteIndex (rb_meta rb)) = localReadIndex (rb_meta rb) \<longleftrightarrow> Suc nw = lr + RB_SIZE"
    and "nextVal (nextWriteIndex (rb_meta rb)) = readIndex (rb_meta rb) \<longleftrightarrow> Suc nw = r + RB_SIZE"
proof -
  have "lr < Suc nw" "Suc nw \<le> lr + RB_SIZE" "r < Suc nw" "Suc nw \<le> r + RB_SIZE"
    using assms by (simp_all add: positions_def)
  then have "Suc nw mod RB_SIZE = lr mod RB_SIZE \<longleftrightarrow> Suc nw = lr + RB_SIZE"
    and "Suc nw mod RB_SIZE = r mod RB_SIZE \<longleftrightarrow> Suc nw = r + RB_SIZE"
    by (simp_all only: mod_window)
  then show "nextVal (nextWriteIndex (rb_meta rb)) = localReadIndex (rb_meta rb) \<longleftrightarrow> Suc nw = lr + RB_SIZE"
    and "nextVal (nextWriteIndex (rb_meta rb)) = readIndex (rb_meta rb) \<longleftrightarrow> Suc nw = r + RB_SIZE"
    using assms by (simp_all add: positions_def nextVal_mod)
qed

lemma read_empty:
  assumes "positions rb lr r nr lw w nw"
  shows "nextReadIndex (rb_meta rb) = localWriteIndex (rb_meta rb) \<longleftrightarrow> nr = lw"
    and "nextReadIndex (rb_meta rb) = writeIndex (rb_meta rb) \<longleftrightarrow> nr = w"
proof -
  have "nr \<le> lw" "lw < nr + RB_SIZE" "nr \<le> w" "w < nr + RB_SIZE"
    using assms by (simp_all add: positions_def)
  then have "nr mod RB_SIZE = lw mod RB_SIZE \<longleftrightarrow> nr = lw" "nr mod RB_SIZE = w mod RB_SIZE \<longleftrightarrow> nr = w"
    by (simp_all only: mod_window')
  then show "nextReadIndex (rb_meta rb) = localWriteIndex (rb_meta rb) \<longleftrightarrow> nr = lw"
    and "nextReadIndex (rb_meta rb) = writeIndex (rb_meta rb) \<longleftrightarrow> nr = w"
    using assms by (simp_all add: positions_def)
qed

text \<open>A successful write, and a successful read.\<close>

lemma write_success:
  assumes pos: "positions rb lr r nr lw w nw" and holds: "holds rb lr ws" and nw: "nw = length ws"
    and fits: "rb_fits rb x" and room: "Suc nw \<noteq> r + RB_SIZE"
  shows "\<exists>rb' lr' w'. write_ringbuffer rb x (tuple_size rb) = Some (0, rb') \<and>
     positions rb' lr' r nr lw w' (Suc nw) \<and> holds rb' lr' (ws @ [x]) \<and> tuple_size rb' = tuple_size rb"
proof -
  let ?m = "rb_meta rb"
  let ?lr = "if Suc nw = lr + RB_SIZE then r else lr"
  let ?m1 = "if Suc nw = lr + RB_SIZE then ?m\<lparr>localReadIndex := readIndex ?m\<rparr> else ?m"
  let ?m2 = "?m1\<lparr>nextWriteIndex := int (Suc nw mod RB_SIZE), wBatchCount := wBatchCount ?m1 + 1\<rparr>"
  let ?m3 = "if wBatchCount ?m2 \<ge> RB_BATCH
    then ?m2\<lparr>writeIndex := nextWriteIndex ?m2, wBatchCount := 0\<rparr> else ?m2"
  let ?w = "if wBatchCount ?m2 \<ge> RB_BATCH then Suc nw else w"
  have idx: "nextWriteIndex ?m = int (nw mod RB_SIZE)"
    using pos by (simp add: positions_def)
  obtain mem where mem: "copy_in (rb_data rb) ((nw mod RB_SIZE) * tuple_size rb) x = Some mem"
    using copy_in_cell [of "nw mod RB_SIZE" RB_SIZE "rb_data rb" "tuple_size rb" x] holds fits
    by (auto simp: holds_def rb_fits_def)
  let ?rb = "rb\<lparr>rb_meta := ?m3, rb_data := mem\<rparr>"
  have ok: "write_ringbuffer rb x (tuple_size rb) = Some (0, ?rb)"
    using room fits mem unfolding write_ringbuffer_def Let_def write_full [OF pos] rb_fits_def
    by (simp add: idx nextVal_mod)
  have "positions ?rb ?lr r nr lw ?w (Suc nw)"
    using pos room by (auto simp: positions_def RB_BATCH_def)
  moreover have "holds ?rb ?lr (ws @ [x])"
    unfolding holds_def
  proof (intro conjI allI impI)
    show "length (rb_data ?rb) = RB_SIZE * tuple_size ?rb"
      using copy_in_length [OF mem] holds by (simp add: holds_def)
    fix i
    assume i: "?lr \<le> i \<and> i < length (ws @ [x])"
    have eq: "cell (tuple_size rb) mem (i mod RB_SIZE) =
        (if i mod RB_SIZE = nw mod RB_SIZE then Some x else cell (tuple_size rb) (rb_data rb) (i mod RB_SIZE))"
      using mem fits by (intro cell_copy_in) (simp_all add: rb_fits_def)
    have "i \<le> nw" "nw < i + RB_SIZE" "lr \<le> i"
      using i nw pos by (auto simp: positions_def split: if_splits)
    then have "i mod RB_SIZE = nw mod RB_SIZE \<longleftrightarrow> i = nw"
      by (simp only: mod_window')
    then show "cell (tuple_size ?rb) (rb_data ?rb) (i mod RB_SIZE) = Some ((ws @ [x]) ! i)"
      using eq nw holds \<open>i \<le> nw\<close> \<open>lr \<le> i\<close> by (auto simp: holds_def nth_append)
  qed
  moreover have "tuple_size ?rb = tuple_size rb"
    by simp
  ultimately show ?thesis
    using ok by blast
qed

lemma read_success:
  assumes pos: "positions rb lr r nr lw w nw" and holds: "holds rb lr ws" and nw: "nw = length ws"
    and avail: "nr \<noteq> w"
  shows "\<exists>rb' r' lw'. read_ringbuffer rb = Some (0, Some (ws ! nr), rb') \<and>
     positions rb' lr r' (Suc nr) lw' w nw \<and> holds rb' lr ws \<and> tuple_size rb' = tuple_size rb"
proof -
  let ?m = "rb_meta rb"
  let ?lw = "if nr = lw then w else lw"
  let ?m1 = "if nr = lw then ?m\<lparr>localWriteIndex := writeIndex ?m\<rparr> else ?m"
  let ?m2 = "?m1\<lparr>nextReadIndex := int (Suc nr mod RB_SIZE), rBatchCount := rBatchCount ?m1 + 1\<rparr>"
  let ?m3 = "if rBatchCount ?m2 \<ge> RB_BATCH
    then ?m2\<lparr>readIndex := nextReadIndex ?m2, rBatchCount := 0\<rparr> else ?m2"
  let ?r = "if rBatchCount ?m2 \<ge> RB_BATCH then Suc nr else r"
  let ?rb = "rb\<lparr>rb_meta := ?m3\<rparr>"
  have idx: "nextReadIndex ?m = int (nr mod RB_SIZE)" and bounds: "lr \<le> nr" "nr < nw"
    using pos avail by (auto simp: positions_def)
  then have "cell (tuple_size rb) (rb_data rb) (nr mod RB_SIZE) = Some (ws ! nr)"
    using holds nw by (simp add: holds_def)
  then have "read_ringbuffer rb = Some (0, Some (ws ! nr), ?rb)"
    using avail unfolding read_ringbuffer_def Let_def read_empty [OF pos] cell_def
    by (cases "nr = lw") (simp_all add: idx nextVal_mod)
  moreover have "positions ?rb lr ?r (Suc nr) ?lw w nw"
    using pos avail by (auto simp: positions_def RB_BATCH_def)
  moreover have "holds ?rb lr ws"
    using holds by (simp add: holds_def)
  moreover have "tuple_size ?rb = tuple_size rb"
    by simp
  ultimately show ?thesis
    by blast
qed

section \<open>The laws of the channel\<close>

lemma rb_put:
  assumes "rb_hist rb ws rs" and "rb_fits rb x"
  shows "write_ringbuffer rb x (tuple_size rb) = Some (-1, rb) \<or>
     (\<exists>rb'. write_ringbuffer rb x (tuple_size rb) = Some (0, rb') \<and> rb_hist rb' (ws @ [x]) rs \<and>
        rb_fits rb' = rb_fits rb)"
proof -
  obtain lr r lw w where pos: "positions rb lr r (length rs) lw w (length ws)" and "holds rb lr ws"
    and rs: "take (length rs) ws = rs"
    using assms(1) by (auto simp: rb_hist_def)
  show ?thesis
  proof (cases "Suc (length ws) = r + RB_SIZE")
    case True
    moreover have "Suc (length ws) = lr + RB_SIZE"
      using pos True by (auto simp: positions_def)
    ultimately show ?thesis
      by (simp add: write_ringbuffer_def Let_def write_full [OF pos])
  next
    case False
    then obtain rb' lr' w' where "write_ringbuffer rb x (tuple_size rb) = Some (0, rb')"
      "positions rb' lr' r (length rs) lw w' (Suc (length ws))" "holds rb' lr' (ws @ [x])"
      "tuple_size rb' = tuple_size rb"
      using write_success [OF pos \<open>holds rb lr ws\<close> refl assms(2)] by blast
    moreover have "take (length rs) (ws @ [x]) = rs"
      using rs pos by (simp add: positions_def)
    ultimately show ?thesis
      unfolding rb_hist_def rb_fits_def by (metis length_append_singleton)
  qed
qed

lemma rb_get:
  assumes "rb_hist rb ws rs"
  shows "read_ringbuffer rb = Some (-1, None, rb) \<or>
     (\<exists>x rb'. read_ringbuffer rb = Some (0, Some x, rb') \<and> rb_hist rb' ws (rs @ [x]) \<and>
        rb_fits rb' = rb_fits rb)"
proof -
  obtain lr r lw w where pos: "positions rb lr r (length rs) lw w (length ws)" and "holds rb lr ws"
    and rs: "take (length rs) ws = rs"
    using assms(1) by (auto simp: rb_hist_def)
  show ?thesis
  proof (cases "length rs = w")
    case True
    moreover have "length rs = lw"
      using pos True by (auto simp: positions_def)
    ultimately show ?thesis
      by (simp add: read_ringbuffer_def Let_def read_empty [OF pos])
  next
    case False
    then obtain rb' r' lw' where "read_ringbuffer rb = Some (0, Some (ws ! length rs), rb')"
      "positions rb' lr r' (Suc (length rs)) lw' w (length ws)" "holds rb' lr ws"
      "tuple_size rb' = tuple_size rb"
      using read_success [OF pos \<open>holds rb lr ws\<close> refl] by blast
    moreover have "take (Suc (length rs)) ws = rs @ [ws ! length rs]"
      using rs pos False by (auto simp: positions_def take_Suc_conv_app_nth)
    ultimately show ?thesis
      unfolding rb_hist_def rb_fits_def by (metis length_append_singleton)
  qed
qed

lemma positions_flush:
  "positions rb lr r nr lw w nw \<Longrightarrow> positions (flush_ringbuffer rb) lr nr nr lw nw nw"
  by (simp add: positions_def flush_ringbuffer_def Let_def)

lemma rb_flush:
  "rb_hist rb ws rs \<Longrightarrow>
     rb_hist (flush_ringbuffer rb) ws rs \<and> rb_fits (flush_ringbuffer rb) = rb_fits rb"
proof -
  assume "rb_hist rb ws rs"
  then obtain lr r lw w where pos: "positions rb lr r (length rs) lw w (length ws)"
    and holds: "holds rb lr ws" and rs: "take (length rs) ws = rs"
    by (auto simp: rb_hist_def)
  have "holds (flush_ringbuffer rb) lr ws"
    using holds by (simp add: holds_def flush_ringbuffer_def Let_def)
  with positions_flush [OF pos] rs show ?thesis
    by (auto simp: rb_hist_def rb_fits_def flush_ringbuffer_def Let_def)
qed

lemma rb_read_complete:
  assumes "rb_hist rb ws rs"
  shows "rb_hist (read_complete_ringbuffer rb) ws rs"
proof -
  obtain lr r lw w where pos: "positions rb lr r (length rs) lw w (length ws)"
    and holds: "holds rb lr ws" and rs: "take (length rs) ws = rs"
    using assms by (auto simp: rb_hist_def)
  have "holds (read_complete_ringbuffer rb) (length rs) ws"
    using holds pos by (simp add: holds_def positions_def read_complete_ringbuffer_def Let_def)
  moreover have "positions (read_complete_ringbuffer rb) (length rs) (length rs) (length rs) lw w (length ws)"
    using pos by (auto simp: positions_def read_complete_ringbuffer_def Let_def)
  ultimately show ?thesis
    using rs unfolding rb_hist_def by blast
qed

lemma read_refused:
  assumes "positions rb lr r nr lw w nw" and "holds rb lr ws" and "nw = length ws"
  shows "read_ringbuffer rb = Some (-1, None, rb) \<longleftrightarrow> nr = w"
proof
  show "nr = w" if "read_ringbuffer rb = Some (-1, None, rb)"
    using read_success [OF assms] that by fastforce
  assume "nr = w"
  moreover have "nr = lw"
    using assms(1) \<open>nr = w\<close> by (auto simp: positions_def)
  ultimately show "read_ringbuffer rb = Some (-1, None, rb)"
    by (simp add: read_ringbuffer_def Let_def read_empty [OF assms(1)])
qed

lemma rb_get_flushed:
  assumes "rb_hist rb ws rs"
    and "read_ringbuffer (flush_ringbuffer rb) = Some (-1, None, flush_ringbuffer rb)"
  shows "rs = ws"
proof -
  obtain lr r lw w where pos: "positions rb lr r (length rs) lw w (length ws)" and holds: "holds rb lr ws"
    and rs: "take (length rs) ws = rs"
    using assms(1) by (auto simp: rb_hist_def)
  have "holds (flush_ringbuffer rb) lr ws"
    using holds by (simp add: holds_def flush_ringbuffer_def Let_def)
  then have "length rs = length ws"
    using read_refused [OF positions_flush [OF pos]] assms(2) by simp
  with rs show ?thesis
    by simp
qed

text \<open>
  The reader is refused only when it has caught up with the published write index.  Then at most
  \<^verbatim>\<open>RB_BATCH\<close> tuples are unpublished and at most \<^verbatim>\<open>RB_BATCH\<close> reads are, so the writer has room.
\<close>

lemma rb_no_deadlock:
  assumes "rb_hist rb ws rs" and "rb_fits rb x" and "read_ringbuffer rb = Some (-1, None, rb)"
  shows "write_ringbuffer rb x (tuple_size rb) \<noteq> Some (-1, rb)"
proof -
  obtain lr r lw w where pos: "positions rb lr r (length rs) lw w (length ws)" and holds: "holds rb lr ws"
    using assms(1) by (auto simp: rb_hist_def)
  have "length rs = w"
    using read_refused [OF pos holds refl] assms(3) by simp
  then have "Suc (length ws) \<noteq> r + RB_SIZE"
    using pos by (auto simp: positions_def RB_SIZE_def RB_BATCH_def)
  then show ?thesis
    using write_success [OF pos holds refl assms(2)] by fastforce
qed

interpretation ringbuffer: channel rb_hist rb_fits "\<lambda>rb x. write_ringbuffer rb x (tuple_size rb)"
  read_ringbuffer flush_ringbuffer "RB_SIZE - 1"
  by unfold_locales (fact rb_hist_prefix rb_put rb_get rb_flush rb_get_flushed rb_no_deadlock)+

section \<open>What the users of the buffer get\<close>

abbreviation run_ringbuffer :: "u8 list chan_op list \<Rightarrow> RingBuffer \<Rightarrow> (u8 list list \<times> u8 list list \<times> RingBuffer) option" where
  "run_ringbuffer \<equiv>
     run_ops (\<lambda>rb x. write_ringbuffer rb x (tuple_size rb)) read_ringbuffer flush_ringbuffer"

lemma run_created:
  assumes "\<forall>x. Put x \<in> set ops \<longrightarrow> length x = n"
  shows "\<exists>ws rs rb. run_ringbuffer ops (create_ringbuffer_shm n) = Some (ws, rs, rb) \<and> rb_hist rb ws rs"
  using ringbuffer.run_ops_hist [OF rb_create, of ops n] assms
  by (auto simp: rb_fits_def create_ringbuffer_shm_def)

text \<open>
  Claim C9. A ring buffer is a first-in, first-out channel: for every sequence of writes of whole
  tuples, reads and flushes on a new buffer, no access leaves the memory of the buffer, and the tuples
  read are a prefix of the tuples whose write was accepted, in order and unchanged.  At most 1999
  accepted tuples are unread at any time.
\<close>

theorem ringbuffer_fifo:
  assumes "\<forall>x. Put x \<in> set ops \<longrightarrow> length x = n"
  shows "\<exists>rs zs rb. run_ringbuffer ops (create_ringbuffer_shm n) = Some (rs @ zs, rs, rb) \<and>
     length zs \<le> 1999"
  using ringbuffer.run_ops_fifo [OF rb_create, of ops n] assms
  by (auto simp: rb_fits_def create_ringbuffer_shm_def RB_SIZE_def)

theorem ringbuffer_fifo_witness:
  "\<exists>rs zs rb. run_ringbuffer [Put [1, 2], Get, Put [3, 4], Flush, Get, Get] (create_ringbuffer_shm 2) =
     Some (rs @ zs, rs, rb) \<and> length zs \<le> 1999"
  using ringbuffer_fifo [of "[Put [1, 2], Get, Put [3, 4], Flush, Get, Get]" 2] by auto

text \<open>
  The two sides of a ring buffer never wait for each other: after any sequence of operations,
  when the reader finds the buffer empty, a write of a whole tuple is accepted.
\<close>

theorem ringbuffer_no_deadlock:
  assumes "\<forall>x. Put x \<in> set ops \<longrightarrow> length x = n"
    and "run_ringbuffer ops (create_ringbuffer_shm n) = Some (ws, rs, rb)"
    and "read_ringbuffer rb = Some (-1, None, rb)" and "length x = tuple_size rb"
  shows "\<exists>rb'. write_ringbuffer rb x (tuple_size rb) = Some (0, rb')"
proof -
  have hist: "rb_hist rb ws rs"
    using run_created [OF assms(1)] assms(2) by auto
  moreover have "rb_fits rb x"
    using assms(4) by (simp add: rb_fits_def)
  ultimately show ?thesis
    using rb_put rb_no_deadlock assms(3) by blast
qed

theorem ringbuffer_no_deadlock_witness:
  "\<exists>rb'. write_ringbuffer (create_ringbuffer_shm 2) [7, 8] 2 = Some (0, rb')"
  using ringbuffer_no_deadlock [of "[]" 2 "[]" "[]" "create_ringbuffer_shm 2" "[7, 8]"]
  by (simp add: read_ringbuffer_def create_ringbuffer_shm_def)

text \<open>
  A flush makes every accepted tuple readable: after any sequence of operations and a flush,
  a read finds the buffer empty exactly when every accepted tuple has been read.
\<close>

theorem ringbuffer_flush_drains:
  assumes "\<forall>x. Put x \<in> set ops \<longrightarrow> length x = n"
    and "run_ringbuffer ops (create_ringbuffer_shm n) = Some (ws, rs, rb)"
  shows "read_ringbuffer (flush_ringbuffer rb) = Some (-1, None, flush_ringbuffer rb) \<longleftrightarrow> rs = ws"
proof -
  have hist: "rb_hist rb ws rs"
    using run_created [OF assms(1)] assms(2) by auto
  have "read_ringbuffer (flush_ringbuffer rb) = Some (-1, None, flush_ringbuffer rb)" if "rs = ws"
    using rb_get [of "flush_ringbuffer rb" ws rs] rb_flush [OF hist] rb_hist_prefix that by fastforce
  with rb_get_flushed [OF hist] show ?thesis
    by blast
qed

theorem ringbuffer_flush_drains_witness:
  "read_ringbuffer (flush_ringbuffer (create_ringbuffer_shm 2)) =
     Some (-1, None, flush_ringbuffer (create_ringbuffer_shm 2)) \<longleftrightarrow> ([] :: u8 list list) = []"
  using ringbuffer_flush_drains [of "[]" 2 "[]" "[]" "create_ringbuffer_shm 2"] by simp

section \<open>What a flush publishes\<close>

text \<open>
  The interface for users that flush: after a flush, and until the next write, an empty buffer has been read to
  its end.
\<close>

locale flushed_channel = channel +
  fixes published :: "'a \<Rightarrow> bool"
  assumes flush_published: "published (flush c)"
    and get_published: "published c \<Longrightarrow> get c = Some (r, x, c') \<Longrightarrow> published c'"
    and published_empty: "hist c ws rs \<Longrightarrow> published c \<Longrightarrow> get c = Some (-1, None, c) \<Longrightarrow> rs = ws"
begin

lemma published_get:
  assumes "hist c ws rs" and "published c" and "rs \<noteq> ws"
  shows "\<exists>x c'. get c = Some (0, Some x, c') \<and> hist c' ws (rs @ [x]) \<and> published c'"
  using get_law [OF assms(1)] published_empty [OF assms(1,2)] get_published [OF assms(2)] assms(3) by blast

end

definition rb_published :: "RingBuffer \<Rightarrow> bool" where
  "rb_published rb \<longleftrightarrow> writeIndex (rb_meta rb) = nextWriteIndex (rb_meta rb)"

lemma rb_published_empty:
  assumes "rb_hist rb ws rs" and "rb_published rb" and "read_ringbuffer rb = Some (-1, None, rb)"
  shows "rs = ws"
proof -
  obtain lr r lw w where pos: "positions rb lr r (length rs) lw w (length ws)" and holds: "holds rb lr ws"
    and rs: "take (length rs) ws = rs"
    using assms(1) by (auto simp: rb_hist_def)
  have "length rs = w"
    using read_refused [OF pos holds refl] assms(3) by simp
  moreover have "w = length ws"
    using assms(2) pos mod_window' [of w "length ws" RB_SIZE] by (simp add: rb_published_def positions_def)
  ultimately show ?thesis
    using rs by simp
qed

lemma read_published:
  "rb_published rb \<Longrightarrow> read_ringbuffer rb = Some (r, x, rb') \<Longrightarrow> rb_published rb'"
  by (auto simp: read_ringbuffer_def rb_published_def Let_def split: if_splits option.splits)

interpretation rbp: flushed_channel rb_hist rb_fits "\<lambda>rb x. write_ringbuffer rb x (tuple_size rb)"
  read_ringbuffer flush_ringbuffer "RB_SIZE - 1" rb_published
proof unfold_locales
  show "rb_published (flush_ringbuffer c)" for c
    by (simp add: rb_published_def flush_ringbuffer_def Let_def)
qed (fact read_published rb_published_empty)+

end
