(* ===== verification/Hash.thy ===== *)
theory Hash
  imports Bytes
begin

text \<open>
  \<^verbatim>\<open>src/sketchlearn/hash.c\<close>: the hash function of all tables and sketches, the byte permutation of keys,
  the generation of hash seeds and the search for primes.  A read past the end of a key is \<open>None\<close>.
  \<^verbatim>\<open>rand()\<close> of the C library is a parameter of \<open>GenHashSeed\<close>, the sequence of the values it returns.
\<close>

section \<open>The hash function\<close>

fun AwareHash :: "u8 list \<Rightarrow> nat \<Rightarrow> u64 \<Rightarrow> u64 \<Rightarrow> u64 \<Rightarrow> u64 option" where
  "AwareHash data 0 hash scale hardener = Some (hash XOR hardener)"
| "AwareHash [] (Suc n) hash scale hardener = None"
| "AwareHash (b # data) (Suc n) hash scale hardener =
     AwareHash data n (hash * scale + ucast b) scale hardener"

text \<open>
  \<^verbatim>\<open>AwareHash\<close> is the polynomial with the key bytes as coefficients, evaluated at the scale
  (modulo 2 to the 64) with the start value as the leading coefficient, masked with the hardener; it
  is undefined exactly when it is asked for more bytes than the key has.
\<close>

theorem AwareHash_polynomial:
  "AwareHash data n hash scale hardener =
     (if n \<le> length data
      then Some ((hash * scale ^ n + (\<Sum>i<n. ucast (data ! i) * scale ^ (n - 1 - i))) XOR hardener)
      else None)"
proof (induction data n hash scale hardener rule: AwareHash.induct)
  case (3 b data n hash scale hardener)
  have "(\<Sum>i<Suc n. ucast ((b # data) ! i) * scale ^ (n - i)) =
      ucast b * scale ^ n + (\<Sum>i<n. ucast (data ! i) * scale ^ (n - 1 - i))"
    by (simp add: lessThan_Suc_eq_insert_0 sum.reindex)
  then show ?case
    using 3 by (simp add: algebra_simps)
qed simp_all

lemma AwareHash_Some: "n \<le> length data \<Longrightarrow> \<exists>h. AwareHash data n hash scale hardener = Some h"
  by (induction data n hash scale hardener rule: AwareHash.induct) auto

lemma AwareHash_take: "AwareHash (take n data) n hash scale hardener = AwareHash data n hash scale hardener"
  by (induction data n hash scale hardener rule: AwareHash.induct) simp_all

section \<open>Permuting the bytes of a key\<close>

text \<open>
  Both functions fill \<^verbatim>\<open>ret_key\<close> with the reversed key and then, for the 13-byte keys of flows, assign
  every byte once more; the assignments are listed as pairs of target and source index.
\<close>

definition mangle_13 :: "(nat \<times> nat) list" where
  "mangle_13 =
     [(0, 5), (1, 11), (2, 7), (3, 6), (4, 1), (5, 9), (6, 10), (7, 4), (8, 2), (9, 8), (10, 12),
      (11, 0), (12, 3)]"

definition unmangle_13 :: "(nat \<times> nat) list" where
  "unmangle_13 =
     [(0, 11), (1, 4), (2, 8), (3, 12), (4, 7), (5, 0), (6, 3), (7, 2), (8, 9), (9, 5), (10, 6),
      (11, 1), (12, 10)]"

definition assign :: "'a list \<Rightarrow> (nat \<times> nat) list \<Rightarrow> 'a list \<Rightarrow> 'a list" where
  "assign key ps ret = fold (\<lambda>(i, j) r. r[i := key ! j]) ps ret"

definition mangle :: "u8 list \<Rightarrow> u8 list \<Rightarrow> nat \<Rightarrow> u8 list option" where
  "mangle key ret_key nbytes =
     (if nbytes \<le> length key \<and> nbytes \<le> length ret_key
      then let r = assign key (map (\<lambda>i. (i, nbytes - i - 1)) [0..<nbytes]) ret_key
           in Some (if nbytes = 13 then assign key mangle_13 r else r)
      else None)"

definition unmangle :: "u8 list \<Rightarrow> u8 list \<Rightarrow> nat \<Rightarrow> u8 list option" where
  "unmangle key ret_key nbytes =
     (if nbytes \<le> length key \<and> nbytes \<le> length ret_key
      then let r = assign key (map (\<lambda>i. (i, nbytes - i - 1)) [0..<nbytes]) ret_key
           in Some (if nbytes = 13 then assign key unmangle_13 r else r)
      else None)"

lemma length_assign [simp]: "length (assign key ps ret) = length ret"
  by (induction ps arbitrary: ret) (auto simp: assign_def)

text \<open>Assigning every index below \<open>n\<close> once, in order.\<close>

lemma assign_enum:
  "n \<le> length ret \<Longrightarrow>
     assign key (map (\<lambda>i. (i, f i)) [0..<n]) ret = map (\<lambda>i. key ! f i) [0..<n] @ drop n ret"
proof (induction n)
  case (Suc n)
  then have "assign key (map (\<lambda>i. (i, f i)) [0..<Suc n]) ret =
      (map (\<lambda>i. key ! f i) [0..<n] @ drop n ret)[n := key ! f n]"
    by (simp add: assign_def)
  also have "\<dots> = map (\<lambda>i. key ! f i) [0..<Suc n] @ drop (Suc n) ret"
    using Suc.prems by (simp add: list_update_append flip: Cons_nth_drop_Suc)
  finally show ?case .
qed (simp add: assign_def)

definition mangle_index :: "nat \<Rightarrow> nat" where
  "mangle_index i = [5, 11, 7, 6, 1, 9, 10, 4, 2, 8, 12, 0, 3] ! i"

definition unmangle_index :: "nat \<Rightarrow> nat" where
  "unmangle_index i = [11, 4, 8, 12, 7, 0, 3, 2, 9, 5, 6, 1, 10] ! i"

lemma mangle_13_eq: "mangle_13 = map (\<lambda>i. (i, mangle_index i)) [0..<13]"
  by (simp add: mangle_13_def mangle_index_def upt_rec)

lemma unmangle_13_eq: "unmangle_13 = map (\<lambda>i. (i, unmangle_index i)) [0..<13]"
  by (simp add: unmangle_13_def unmangle_index_def upt_rec)

lemma mangle_index_inverse:
  "i < 13 \<Longrightarrow> mangle_index (unmangle_index i) = i \<and> unmangle_index (mangle_index i) = i \<and>
     mangle_index i < 13 \<and> unmangle_index i < 13"
proof -
  have "\<forall>i \<in> set [0..<13]. mangle_index (unmangle_index i) = i \<and> unmangle_index (mangle_index i) = i \<and>
     mangle_index i < 13 \<and> unmangle_index i < 13"
    by (simp add: mangle_index_def unmangle_index_def upt_rec)
  then show "i < 13 \<Longrightarrow> ?thesis"
    by simp
qed

lemma mangle_eq:
  assumes "length key = n" and "length ret = n"
  shows "mangle key ret n = Some (if n = 13 then map (\<lambda>i. key ! mangle_index i) [0..<13] else rev key)"
    and "unmangle key ret n = Some (if n = 13 then map (\<lambda>i. key ! unmangle_index i) [0..<13] else rev key)"
proof -
  have "assign key (map (\<lambda>i. (i, n - i - 1)) [0..<n]) ret = rev key"
    using assms by (subst assign_enum) (auto intro!: nth_equalityI simp: rev_nth)
  then show "mangle key ret n = Some (if n = 13 then map (\<lambda>i. key ! mangle_index i) [0..<13] else rev key)"
    and "unmangle key ret n = Some (if n = 13 then map (\<lambda>i. key ! unmangle_index i) [0..<13] else rev key)"
    using assms by (simp_all add: mangle_def unmangle_def mangle_13_eq unmangle_13_eq assign_enum)
qed

text \<open>
  \<^verbatim>\<open>unmangle\<close> undoes \<^verbatim>\<open>mangle\<close> and \<^verbatim>\<open>mangle\<close> undoes \<^verbatim>\<open>unmangle\<close>, for keys of every length and
  whatever the output buffers held before.
\<close>

theorem mangle_unmangle:
  assumes "length key = n" and "length buf1 = n" and "length buf2 = n"
  shows "Option.bind (mangle key buf1 n) (\<lambda>k. unmangle k buf2 n) = Some key \<and>
    Option.bind (unmangle key buf1 n) (\<lambda>k. mangle k buf2 n) = Some key"
proof (cases "n = 13")
  case True
  then show ?thesis
    using assms mangle_index_inverse by (auto simp: mangle_eq intro!: nth_equalityI)
next
  case False
  then show ?thesis
    using assms by (simp add: mangle_eq)
qed

theorem mangle_unmangle_witness:
  "Option.bind (mangle [1, 2, 3, 4, 5, 6, 7, 8, 9, 10, 11, 12, 13] (replicate 13 0) 13)
     (\<lambda>k. unmangle k (replicate 13 255) 13) = Some [1, 2, 3, 4, 5, 6, 7, 8, 9, 10, 11, 12, 13]"
  using mangle_unmangle [of "[1, 2, 3, 4, 5, 6, 7, 8, 9, 10, 11, 12, 13]" 13 "replicate 13 0" "replicate 13 255"]
  by simp

section \<open>Hash seeds\<close>

text \<open>
  The static \<^verbatim>\<open>seed\<close> and the number of values drawn from \<^verbatim>\<open>rand()\<close> are passed in and out.
  \<^verbatim>\<open>GenHashSeed\<close> also mangles the bytes of \<^verbatim>\<open>y\<close> into a local variable that it does not use; the hash is
  that of the bytes of \<^verbatim>\<open>y\<close> in memory order.
\<close>

record seed_state =
  seed :: u64
  drawn :: nat

definition le_bytes :: "u64 \<Rightarrow> u8 list" where
  "le_bytes y = map (\<lambda>i. ucast (drop_bit (8 * i) y)) [0..<8]"

definition draw_seed :: "(nat \<Rightarrow> u64) \<Rightarrow> seed_state \<Rightarrow> seed_state" where
  "draw_seed rand g =
     (if seed g = 0 then g\<lparr>seed := rand (drawn g), drawn := Suc (drawn g)\<rparr> else g)"

definition GenHashSeed :: "(nat \<Rightarrow> u64) \<Rightarrow> seed_state \<Rightarrow> 32 word \<Rightarrow> u64 option \<times> seed_state" where
  "GenHashSeed rand g index =
     (let g' = draw_seed rand g;
          y = seed g' + scast index
      in (AwareHash (le_bytes y) 8 388650253 388650319 1176845762, g'))"

lemma GenHashSeed_Some: "\<exists>h. GenHashSeed rand g index = (Some h, draw_seed rand g)"
  using AwareHash_Some [of 8 "le_bytes (seed (draw_seed rand g) + scast index)"]
  by (simp add: GenHashSeed_def Let_def le_bytes_def)

section \<open>Primes\<close>

text \<open>
  \<^verbatim>\<open>is_prime_loop num i\<close> is the final value of the loop variable of \<^verbatim>\<open>is_prime\<close> when the loop is at \<open>i\<close>.
\<close>

function is_prime_loop :: "int \<Rightarrow> int \<Rightarrow> int" where
  "is_prime_loop num i =
     (if i < num then if num mod i = 0 then i else is_prime_loop num (i + 1) else i)"
  by auto
termination
  by (relation "measure (\<lambda>(num, i). nat (num - i))") auto

declare is_prime_loop.simps [simp del]

definition is_prime :: "int \<Rightarrow> int" where
  "is_prime num = (if is_prime_loop num 2 = num then 1 else 0)"

definition INT_MAX :: int where
  "INT_MAX = 2 ^ 31 - 1"

text \<open>\<open>None\<close>: the increment overflows the range of \<^verbatim>\<open>int\<close>, which C leaves undefined.\<close>

function calc_next_prime :: "int \<Rightarrow> int option" where
  "calc_next_prime num =
     (if is_prime num \<noteq> 0 then Some num
      else if num \<ge> INT_MAX then None
      else calc_next_prime (num + 1))"
  by auto
termination
  by (relation "measure (\<lambda>num. nat (INT_MAX - num))") auto

declare calc_next_prime.simps [simp del]

definition prime_int :: "int \<Rightarrow> bool" where
  "prime_int p \<longleftrightarrow> 2 \<le> p \<and> (\<forall>d. 2 \<le> d \<and> d < p \<longrightarrow> \<not> d dvd p)"

lemma is_prime_loop_iff:
  "is_prime_loop num i = num \<longleftrightarrow> i \<le> num \<and> (\<forall>d. i \<le> d \<and> d < num \<longrightarrow> num mod d \<noteq> 0)"
proof (induction num i rule: is_prime_loop.induct)
  case (1 num i)
  show ?case
  proof (cases "i < num \<and> num mod i \<noteq> 0")
    case True
    have "(\<forall>d. i \<le> d \<and> d < num \<longrightarrow> num mod d \<noteq> 0) \<longleftrightarrow> (\<forall>d. i + 1 \<le> d \<and> d < num \<longrightarrow> num mod d \<noteq> 0)"
    proof -
      have "i \<le> d \<longleftrightarrow> d = i \<or> i + 1 \<le> d" for d
        by linarith
      then show ?thesis
        using True by auto
    qed
    then show ?thesis
      using True 1 by (simp add: is_prime_loop.simps [of num i])
  next
    case False
    then show ?thesis
      by (auto simp: is_prime_loop.simps [of num i])
  qed
qed

text \<open>
  \<^verbatim>\<open>is_prime\<close> returns 1 for the prime numbers and 0 for every other \<^verbatim>\<open>int\<close>, the negative ones,
  0 and 1 included.
\<close>

theorem is_prime_correct: "is_prime num = (if prime_int num then 1 else 0)"
  by (auto simp: is_prime_def is_prime_loop_iff prime_int_def dvd_eq_mod_eq_0)

lemma is_prime_iff: "is_prime num \<noteq> 0 \<longleftrightarrow> prime_int num"
  by (auto simp: is_prime_def is_prime_loop_iff prime_int_def dvd_eq_mod_eq_0)

lemma calc_next_prime_least:
  assumes "prime_int p" and "num \<le> p" and "p \<le> INT_MAX"
  shows "\<exists>q. calc_next_prime num = Some q \<and> num \<le> q \<and> q \<le> p \<and> prime_int q \<and>
     (\<forall>k. num \<le> k \<and> k < q \<longrightarrow> \<not> prime_int k)"
  using assms
proof (induction num rule: calc_next_prime.induct)
  case (1 num)
  show ?case
  proof (cases "prime_int num")
    case True
    then show ?thesis
      using 1 by (auto simp: calc_next_prime.simps [of num] is_prime_iff)
  next
    case False
    with 1 have "num + 1 \<le> p" "num < INT_MAX"
      by (auto simp: order_le_less zless_imp_add1_zle)
    then obtain q where "calc_next_prime (num + 1) = Some q" "num + 1 \<le> q" "q \<le> p" "prime_int q"
      "\<forall>k. num + 1 \<le> k \<and> k < q \<longrightarrow> \<not> prime_int k"
      using 1 False by (auto simp: is_prime_iff)
    moreover have "num \<le> k \<longleftrightarrow> k = num \<or> num + 1 \<le> k" for k
      by linarith
    ultimately show ?thesis
      using False \<open>num < INT_MAX\<close> by (auto simp: calc_next_prime.simps [of num] is_prime_iff)
  qed
qed

end
