(* ===== verification/Int_Prime.thy ===== *)
theory Int_Prime
  imports Hash
begin

text \<open>
  The loop of \<^verbatim>\<open>calc_next_prime\<close> increments an \<^verbatim>\<open>int\<close> until it is prime.  It stays within the range of
  \<^verbatim>\<open>int\<close> because the largest value, \<open>2 ^ 31 - 1\<close>, is a prime itself.  That is shown here with Fermat's
  theorem for base 2: a prime divisor of \<open>2 ^ 31 - 1\<close> is 1 modulo 31 and modulo 2, which leaves 747
  candidates up to the square root, and trial division by them.
\<close>

section \<open>Fermat's theorem for base 2\<close>

lemma prime_int_coprime:
  assumes "prime_int q" and "0 < a" and "a < q"
  shows "coprime a q"
proof -
  have "gcd a q \<le> a" "gcd a q dvd q" "0 < gcd a q"
    using assms by (simp_all add: gcd_le1_int)
  then have "\<not> 2 \<le> gcd a q"
    using assms unfolding prime_int_def by (metis order_le_less_trans)
  with \<open>0 < gcd a q\<close> have "gcd a q = 1"
    by linarith
  then show ?thesis
    by (simp add: coprime_iff_gcd_eq_1)
qed

lemma coprime_prod_below: "prime_int q \<Longrightarrow> coprime (\<Prod>{1..<q}) q"
  by (rule prod_coprime_left) (auto intro: prime_int_coprime)

lemma double_permutes:
  assumes "prime_int q" and "2 < q"
  shows "(\<lambda>a. 2 * a mod q) ` {1..<q} = {1..<q}"
proof (rule endo_inj_surj)
  have two: "coprime 2 q"
    using assms by (intro prime_int_coprime) auto
  show "inj_on (\<lambda>a. 2 * a mod q) {1..<q}"
  proof (rule inj_onI)
    fix a b
    assume ab: "a \<in> {1..<q}" "b \<in> {1..<q}" "2 * a mod q = 2 * b mod q"
    then have "q dvd 2 * (a - b)"
      by (simp add: mod_eq_dvd_iff right_diff_distrib)
    then have "q dvd a - b"
      using two coprime_dvd_mult_right_iff [of q 2 "a - b"] by (simp only: coprime_commute)
    then show "a = b"
      using ab(1,2) zdvd_imp_le [of q "a - b"] zdvd_imp_le [of q "b - a"]
      by (cases "a < b"; cases "b < a") (auto simp: dvd_diff_commute)
  qed
  show "(\<lambda>a. 2 * a mod q) ` {1..<q} \<subseteq> {1..<q}"
  proof (rule image_subsetI)
    fix a
    assume a: "a \<in> {1..<q}"
    have "\<not> q dvd 2 * a"
    proof
      assume "q dvd 2 * a"
      then have "q dvd a"
        using two coprime_dvd_mult_right_iff [of q 2 a] by (simp only: coprime_commute)
      then show False
        using a zdvd_imp_le [of q a] by auto
    qed
    then have "2 * a mod q \<noteq> 0"
      by (simp add: dvd_eq_mod_eq_0)
    moreover have "0 \<le> 2 * a mod q" "2 * a mod q < q"
      using assms by simp_all
    ultimately show "2 * a mod q \<in> {1..<q}"
      by simp
  qed
qed simp

lemma fermat_2:
  assumes "prime_int q" and "2 < q"
  shows "q dvd 2 ^ nat (q - 1) - 1"
proof -
  let ?P = "\<Prod>{1..<q}"
  have "inj_on (\<lambda>a. 2 * a mod q) {1..<q}"
    using double_permutes [OF assms] by (simp add: eq_card_imp_inj_on)
  then have "?P = (\<Prod>a\<in>{1..<q}. 2 * a mod q)"
    using double_permutes [OF assms] prod.reindex [of "\<lambda>a. 2 * a mod q" "{1..<q}" id] by simp
  then have "?P mod q = (\<Prod>a\<in>{1..<q}. 2 * a) mod q"
    by (simp add: mod_prod_eq)
  also have "(\<Prod>a\<in>{1..<q}. 2 * a) = 2 ^ nat (q - 1) * ?P"
    by (simp add: prod.distrib)
  finally have "q dvd (2 ^ nat (q - 1) - 1) * ?P"
    by (simp add: mod_eq_dvd_iff left_diff_distrib dvd_diff_commute)
  then show ?thesis
    using coprime_prod_below [OF assms(1)]
    by (simp add: coprime_dvd_mult_left_iff coprime_commute)
qed

section \<open>The largest int is prime\<close>

lemma power_minus_1_dvd: "(x ^ m - 1 :: int) dvd x ^ (m * k) - 1"
proof -
  have "(x ^ m - 1) dvd (x ^ m) ^ k - 1 ^ k"
    by (metis power_diff_sumr2 dvd_triv_left)
  then show ?thesis
    by (simp add: power_mult)
qed

lemma mersenne_divisor:
  assumes "prime_int q" and "2 < q" and "q dvd 2 ^ 31 - 1"
  shows "31 dvd q - 1"
proof (rule ccontr)
  let ?m = "nat (q - 1)"
  assume "\<not> 31 dvd q - 1"
  then have not31: "\<not> 31 dvd ?m"
    using assms(2) by (simp add: nat_dvd_iff int_dvd_int_iff flip: int_dvd_int_iff)
  have "gcd 31 ?m dvd 31"
    by simp
  have "\<forall>g \<in> set [0..<32]. g dvd 31 \<longrightarrow> g = 1 \<or> g = (31 :: nat)"
    by code_simp
  moreover have "gcd 31 ?m < 32"
    using dvd_imp_le [OF \<open>gcd 31 ?m dvd 31\<close>] by linarith
  then have "gcd 31 ?m \<in> set [0..<32]"
    by simp
  ultimately have "gcd 31 ?m = 1"
    using not31 \<open>gcd 31 ?m dvd 31\<close> by (metis gcd_dvd2)
  then obtain x y where "31 * x = ?m * y + 1"
    using bezout_nat [of 31 ?m] by auto
  then have "q dvd 2 ^ (?m * y + 1) - 1"
    using dvd_trans [OF assms(3) power_minus_1_dvd [of 2 31 x]] by simp
  moreover have "q dvd 2 * (2 ^ (?m * y) - 1)"
    using dvd_trans [OF fermat_2 [OF assms(1,2)] power_minus_1_dvd [of 2 ?m y]] by (rule dvd_mult)
  ultimately have "q dvd (2 ^ (?m * y + 1) - 1) - 2 * (2 ^ (?m * y) - 1)"
    by (rule dvd_diff)
  then have "q dvd 1"
    by (simp add: right_diff_distrib)
  then show False
    using assms(2) by simp
qed

text \<open>Trial division by the numbers of the form \<open>62 * j + 1\<close> between \<open>d\<close> and \<open>b\<close>.\<close>

function no_divisor :: "int \<Rightarrow> int \<Rightarrow> bool" where
  "no_divisor d b = (if b < d then True else 2147483647 mod d \<noteq> 0 \<and> no_divisor (d + 62) b)"
  by auto
termination
  by (relation "measure (\<lambda>(d, b). nat (b + 1 - d))") auto

declare no_divisor.simps [simp del]

lemma no_divisor_step:
  "b < d \<Longrightarrow> no_divisor d b"
  "d \<le> b \<Longrightarrow> no_divisor d b = (2147483647 mod d \<noteq> 0 \<and> no_divisor (d + 62) b)"
  by (simp_all add: no_divisor.simps [of d])

lemma no_divisor_tried:
  "no_divisor d b \<Longrightarrow> d + 62 * int j \<le> b \<Longrightarrow> \<not> (d + 62 * int j) dvd 2147483647"
proof (induction j arbitrary: d)
  case 0
  then show ?case
    using no_divisor_step(2) [of d b] by (simp add: dvd_eq_mod_eq_0)
next
  case (Suc j)
  then have "no_divisor (d + 62) b"
    using no_divisor_step(2) [of d b] by simp
  with Suc.IH [of "d + 62"] Suc.prems show ?case
    by (simp add: algebra_simps)
qed

lemma tried_1: "no_divisor 63 6262"
  by (simp add: no_divisor_step)

lemma tried_2: "no_divisor 6263 12462"
  by (simp add: no_divisor_step)

lemma tried_3: "no_divisor 12463 18662"
  by (simp add: no_divisor_step)

lemma tried_4: "no_divisor 18663 24862"
  by (simp add: no_divisor_step)

lemma tried_5: "no_divisor 24863 31062"
  by (simp add: no_divisor_step)

lemma tried_6: "no_divisor 31063 37262"
  by (simp add: no_divisor_step)

lemma tried_7: "no_divisor 37263 43462"
  by (simp add: no_divisor_step)

lemma tried_8: "no_divisor 43463 46399"
  by (simp add: no_divisor_step)

lemmas tried = tried_1 tried_2 tried_3 tried_4 tried_5 tried_6 tried_7 tried_8

lemma no_small_divisor:
  assumes "q = 62 * int j + 1" and "0 < j" and "q \<le> 46340"
  shows "\<not> q dvd 2147483647"
proof -
  have tried_from: "\<not> q dvd 2147483647"
    if "no_divisor (62 * int i + 1) b" "i \<le> j" "q \<le> b" for i b
    using no_divisor_tried [OF that(1), of "j - i"] that assms(1) by (simp add: algebra_simps of_nat_diff)
  consider "j \<le> 100" | "101 \<le> j" "j \<le> 200" | "201 \<le> j" "j \<le> 300" | "301 \<le> j" "j \<le> 400"
    | "401 \<le> j" "j \<le> 500" | "501 \<le> j" "j \<le> 600" | "601 \<le> j" "j \<le> 700" | "701 \<le> j"
    by linarith
  then show ?thesis
    using tried_from [of 1] tried_from [of 101] tried_from [of 201] tried_from [of 301]
      tried_from [of 401] tried_from [of 501] tried_from [of 601] tried_from [of 701] tried assms
    by cases force+
qed

lemma least_divisor_prime:
  assumes "2 \<le> q" and "q dvd n" and "\<forall>d. 2 \<le> d \<and> d dvd n \<longrightarrow> q \<le> d"
  shows "prime_int q"
  unfolding prime_int_def using assms by (meson dvd_trans not_le)

lemma prime_INT_MAX: "prime_int INT_MAX"
proof (rule ccontr)
  let ?n = "2147483647 :: int"
  assume "\<not> prime_int INT_MAX"
  then obtain d where d: "2 \<le> d" "d < ?n" "d dvd ?n"
    by (auto simp: prime_int_def INT_MAX_def)
  let ?S = "{k :: nat. 2 \<le> int k \<and> int k dvd ?n}"
  define q where "q = int (LEAST k. k \<in> ?S)"
  have "nat d \<in> ?S"
    using d by simp
  then have "(LEAST k. k \<in> ?S) \<in> ?S"
    by (rule LeastI)
  then have q: "2 \<le> q" "q dvd ?n"
    by (simp_all add: q_def)
  have least: "q \<le> k" if "2 \<le> k" "k dvd ?n" for k
  proof -
    have "nat k \<in> ?S"
      using that by simp
    then have "(LEAST k. k \<in> ?S) \<le> nat k"
      by (rule Least_le)
    then show ?thesis
      using that(1) unfolding q_def by linarith
  qed
  have prime: "prime_int q"
    using q least by (intro least_divisor_prime) auto
  obtain c where c: "?n = q * c"
    using q(2) unfolding dvd_def by blast
  have "q < ?n"
    using least [of d] d by simp
  with c q have "2 \<le> c"
    by (metis dual_order.strict_trans1 int_one_le_iff_zero_less linorder_not_less mult.right_neutral order_le_less zero_less_mult_pos zless_imp_add1_zle zero_less_numeral one_add_one)
  moreover have "c dvd ?n"
    unfolding c by (rule dvd_triv_right)
  ultimately have "q \<le> c"
    by (rule least)
  then have "q * q \<le> ?n"
    unfolding c using q(1) by (intro mult_left_mono) simp_all
  then have "q \<le> 46340"
    using mult_mono [of 46341 q 46341 q] by (cases "q \<le> 46340") simp_all
  moreover have "odd q"
    using q(2) dvd_trans [of 2 q ?n] by auto
  moreover have "31 dvd q - 1"
    using prime q \<open>odd q\<close> by (intro mersenne_divisor) (auto simp: order_le_less)
  ultimately have "62 dvd q - 1"
    by presburger
  then obtain k where k: "q - 1 = 62 * k"
    unfolding dvd_def by blast
  with q have "0 < k"
    by simp
  then have "q = 62 * int (nat k) + 1" "0 < nat k"
    using k by simp_all
  with no_small_divisor \<open>q \<le> 46340\<close> q(2) show False
    by blast
qed

text \<open>
  Claim C23. \<^verbatim>\<open>calc_next_prime\<close> returns for every \<^verbatim>\<open>int\<close>: it never overflows, since the largest \<^verbatim>\<open>int\<close> is
  a prime, and its result is the least prime that is not below its argument.
\<close>

theorem calc_next_prime_correct:
  assumes "num \<le> INT_MAX"
  shows "\<exists>q. calc_next_prime num = Some q \<and> num \<le> q \<and> q \<le> INT_MAX \<and> prime_int q \<and>
     (\<forall>k. num \<le> k \<and> k < q \<longrightarrow> \<not> prime_int k)"
  using calc_next_prime_least [OF prime_INT_MAX assms] by auto

theorem calc_next_prime_correct_witness:
  "\<exists>q. calc_next_prime 60000 = Some q \<and> 60000 \<le> q \<and> q \<le> INT_MAX \<and> prime_int q \<and>
     (\<forall>k. 60000 \<le> k \<and> k < q \<longrightarrow> \<not> prime_int k)"
  by (rule calc_next_prime_correct) (simp add: INT_MAX_def)

lemma calc_next_prime_Some:
  assumes "num \<le> INT_MAX"
  obtains q where "calc_next_prime num = Some q" and "num \<le> q" and "2 \<le> q" and "q \<le> INT_MAX"
  using calc_next_prime_least [OF prime_INT_MAX assms] by (auto simp: prime_int_def)

end
