(* ===== verification/Sketch.thy ===== *)
theory Sketch
  imports Int_Prime
begin

text \<open>
  \<^verbatim>\<open>src/sketchlearn/alg_sketchlearn.c\<close>: the multi-level sketch.  A sketch has \<^verbatim>\<open>depth\<close> rows of
  \<^verbatim>\<open>width\<close> buckets; a bucket has a counter for its total, one for each bit of the key (the total of the
  keys with that bit set) and one for the complement of each bit, filled in by \<^verbatim>\<open>SKL_CompleteZeroes\<close>.
  Counters are 32-bit words and wrap around.  An access outside an array is \<open>None\<close>.

  This theory has the operations that work on the counters; the estimation of bit distributions with
  floating-point numbers is not part of it.
\<close>

section \<open>Bits of keys\<close>

definition set_bit_skl :: "u8 list \<Rightarrow> nat \<Rightarrow> int \<Rightarrow> u8 list option" where
  "set_bit_skl a pos v =
     (let byte = pos div 8; b = pos mod 8
      in if byte < length a
         then Some (if v = 1 then a[byte := a ! byte OR push_bit (7 - b) 1]
                    else a[byte := a ! byte AND NOT (push_bit (7 - b) 1)])
         else None)"

definition get_bit :: "u8 list \<Rightarrow> nat \<Rightarrow> int option" where
  "get_bit a pos =
     (let byte = pos div 8; b = pos mod 8
      in if byte < length a
         then Some (if a ! byte AND push_bit (7 - b) 1 = 0 then 0 else 1) else None)"

definition key_bit :: "u8 list \<Rightarrow> nat \<Rightarrow> bool" where
  "key_bit a pos \<longleftrightarrow> bit (a ! (pos div 8)) (7 - pos mod 8)"

lemma and_push_bit_1: "(x :: u8) AND push_bit n 1 = 0 \<longleftrightarrow> \<not> bit x n" if "n < 8"
proof
  assume "x AND push_bit n 1 = 0"
  then have "\<not> bit (x AND push_bit n 1) n"
    by simp
  with that show "\<not> bit x n"
    by (simp add: bit_simps)
next
  assume "\<not> bit x n"
  then show "x AND push_bit n 1 = 0"
    by (intro bit_word_eqI) (auto simp: bit_simps)
qed

lemma get_bit_key_bit: "get_bit a pos = (if pos div 8 < length a then Some (if key_bit a pos then 1 else 0) else None)"
  using and_push_bit_1 [of "7 - pos mod 8"] by (simp add: get_bit_def key_bit_def Let_def)

lemma set_bit_key_bit:
  assumes "p div 8 < length a" and "v = 0 \<or> v = 1"
  obtains a' where "set_bit_skl a p v = Some a'" and "length a' = length a"
    and "\<And>q. q div 8 < length a \<Longrightarrow> key_bit a' q = (if q = p then v = 1 else key_bit a q)"
proof -
  have eq: "q = p \<longleftrightarrow> q div 8 = p div 8 \<and> 7 - q mod 8 = 7 - p mod 8" for q
  proof
    assume "q div 8 = p div 8 \<and> 7 - q mod 8 = 7 - p mod 8"
    moreover have "q mod 8 < 8" "p mod 8 < 8"
      by simp_all
    ultimately have "q div 8 = p div 8" "q mod 8 = p mod 8"
      by linarith+
    then show "q = p"
      by (metis div_mult_mod_eq)
  qed simp
  obtain a' where a': "set_bit_skl a p v = Some a'" "length a' = length a"
    using assms(1) by (auto simp: set_bit_skl_def Let_def)
  moreover have "key_bit a' q = (if q = p then v = 1 else key_bit a q)" if "q div 8 < length a" for q
    using a' assms that unfolding eq
    by (auto simp: set_bit_skl_def Let_def key_bit_def nth_list_update bit_simps split: if_splits)
  ultimately show ?thesis
    by (rule that)
qed

text \<open>
  Reading back a bit after \<^verbatim>\<open>set_bit\<close>: the bit that was written has the value that was written,
  every other bit of the key is unchanged, and the key keeps its length.
\<close>

theorem get_set_bit:
  assumes "p div 8 < length a" and "q div 8 < length a" and "v = 0 \<or> v = 1"
  shows "\<exists>a'. set_bit_skl a p v = Some a' \<and> length a' = length a \<and>
     get_bit a' q = (if q = p then Some v else get_bit a q)"
proof -
  obtain a' where "set_bit_skl a p v = Some a'" "length a' = length a"
    "key_bit a' q = (if q = p then v = 1 else key_bit a q)"
    using set_bit_key_bit [OF assms(1,3)] assms(2) by metis
  then show ?thesis
    using assms by (auto simp: get_bit_key_bit)
qed

theorem get_set_bit_witness:
  "\<exists>a'. set_bit_skl [0x12, 0xff] 9 0 = Some a' \<and> length a' = Suc (Suc 0) \<and> get_bit a' 9 = Some 0"
  using get_set_bit [of 9 "[0x12, 0xff]" 9 0] by simp

section \<open>Inserting into one bucket\<close>

text \<open>The inner loop over the bits of a byte, from the lowest; the outer loop over the bytes, from the last.\<close>

fun loginsert_bits :: "nat \<Rightarrow> u8 \<Rightarrow> nat \<Rightarrow> u32 \<Rightarrow> u32 list \<Rightarrow> u32 list \<times> nat" where
  "loginsert_bits 0 val len diff ls = (ls, len)"
| "loginsert_bits (Suc j) val len diff ls =
     loginsert_bits j (drop_bit 1 val) (len - 1) diff
       (if val AND 1 = 1 then ls[len := ls ! len + diff] else ls)"

fun loginsert_bytes :: "u8 list \<Rightarrow> nat \<Rightarrow> nat \<Rightarrow> u32 \<Rightarrow> u32 list \<Rightarrow> u32 list" where
  "loginsert_bytes key 0 len diff ls = ls"
| "loginsert_bytes key (Suc i) len diff ls =
     (case loginsert_bits 8 (key ! i) len diff ls of
        (ls', len') \<Rightarrow> loginsert_bytes key i len' diff ls')"

definition loginsert :: "u32 list \<Rightarrow> u8 list \<Rightarrow> nat \<Rightarrow> u32 \<Rightarrow> u32 list option" where
  "loginsert ls key len diff =
     (if len div 8 \<le> length key \<and> len < length ls
      then Some (loginsert_bytes key (len div 8) len diff (ls[0 := ls ! 0 + diff])) else None)"

lemma bit_drop_and: "(val :: u8) AND 1 = 1 \<longleftrightarrow> bit val 0"
  by (simp add: bit_0 and_one_eq odd_iff_mod_2_eq_one)

lemma loginsert_bits_spec:
  assumes "j \<le> len" and "len < length ls"
  shows "snd (loginsert_bits j val len diff ls) = len - j"
    and "length (fst (loginsert_bits j val len diff ls)) = length ls"
    and "fst (loginsert_bits j val len diff ls) ! k =
      ls ! k + (if len - j < k \<and> k \<le> len \<and> bit val (len - k) then diff else 0)"
proof -
  have "snd (loginsert_bits j val len diff ls) = len - j \<and>
    length (fst (loginsert_bits j val len diff ls)) = length ls \<and>
    fst (loginsert_bits j val len diff ls) ! k =
      ls ! k + (if len - j < k \<and> k \<le> len \<and> bit val (len - k) then diff else 0)"
    using assms
  proof (induction j arbitrary: val len ls)
    case (Suc j)
    let ?l = "if val AND 1 = 1 then ls[len := ls ! len + diff] else ls"
    have IH: "snd (loginsert_bits j (drop_bit 1 val) (len - 1) diff ?l) = len - 1 - j \<and>
      length (fst (loginsert_bits j (drop_bit 1 val) (len - 1) diff ?l)) = length ?l \<and>
      fst (loginsert_bits j (drop_bit 1 val) (len - 1) diff ?l) ! k =
        ?l ! k + (if len - 1 - j < k \<and> k \<le> len - 1 \<and> bit (drop_bit 1 val) (len - 1 - k) then diff else 0)"
      using Suc.prems by (intro Suc.IH) simp_all
    have "bit (drop_bit 1 val) (len - 1 - k) = bit val (len - k)" if "k < len"
      using that by (simp add: bit_drop_bit_eq Suc_diff_Suc)
    moreover have "?l ! k = ls ! k + (if k = len \<and> bit val 0 then diff else 0)"
      using Suc.prems by (simp add: bit_drop_and)
    moreover have "k \<le> len - 1 \<longleftrightarrow> k < len" "len - 1 - j = len - Suc j"
      using Suc.prems by linarith+
    ultimately show ?case
      using IH Suc.prems by (cases "k = len") (auto simp: bit_drop_and)
  qed auto
  then show "snd (loginsert_bits j val len diff ls) = len - j"
    and "length (fst (loginsert_bits j val len diff ls)) = length ls"
    and "fst (loginsert_bits j val len diff ls) ! k =
      ls ! k + (if len - j < k \<and> k \<le> len \<and> bit val (len - k) then diff else 0)"
    by blast+
qed

lemma loginsert_bytes_spec:
  assumes "8 * i < length ls"
  shows "length (loginsert_bytes key i (8 * i) diff ls) = length ls \<and>
    loginsert_bytes key i (8 * i) diff ls ! k =
      ls ! k + (if 0 < k \<and> k \<le> 8 * i \<and> key_bit key (k - 1) then diff else 0)"
  using assms
proof (induction i arbitrary: ls)
  case (Suc i)
  let ?r = "loginsert_bits 8 (key ! i) (8 * Suc i) diff ls"
  have spec: "snd ?r = 8 * i" "length (fst ?r) = length ls"
    "fst ?r ! k = ls ! k + (if 8 * i < k \<and> k \<le> 8 * Suc i \<and> bit (key ! i) (8 * Suc i - k) then diff else 0)"
    using loginsert_bits_spec [of 8 "8 * Suc i" ls "key ! i" diff] Suc.prems by auto
  have "key_bit key (k - 1) = bit (key ! i) (8 * Suc i - k)" if "8 * i < k" "k \<le> 8 * Suc i"
  proof -
    define r where "r = k - 1 - 8 * i"
    then have "k = 8 * i + r + 1" "r < 8"
      using that by auto
    then show ?thesis
      by (simp add: key_bit_def)
  qed
  moreover have "loginsert_bytes key (Suc i) (8 * Suc i) diff ls = loginsert_bytes key i (8 * i) diff (fst ?r)"
    using spec(1) by (simp add: case_prod_beta del: loginsert_bits.simps)
  moreover have "8 * i < length (fst ?r)"
    using Suc.prems spec(2) by simp
  ultimately show ?case
    using Suc.IH [of "fst ?r"] spec by auto
qed auto

lemma loginsert_spec:
  assumes "8 dvd len" and "len div 8 \<le> length key" and "len < length ls"
  shows "\<exists>l. loginsert ls key len diff = Some l \<and> length l = length ls \<and>
     (\<forall>k. l ! k = ls ! k + (if k = 0 \<or> (k \<le> len \<and> key_bit key (k - 1)) then diff else 0))"
proof -
  let ?l = "ls[0 := ls ! 0 + diff]"
  have "8 * (len div 8) = len"
    using assms(1) by simp
  then have "length (loginsert_bytes key (len div 8) len diff ?l) = length ls \<and>
     loginsert_bytes key (len div 8) len diff ?l ! k =
       ?l ! k + (if 0 < k \<and> k \<le> len \<and> key_bit key (k - 1) then diff else 0)" for k
    using loginsert_bytes_spec [of "len div 8" ?l key diff k] assms(3) by simp
  then show ?thesis
    using assms nth_list_update_eq [of 0 ls "ls ! 0 + diff"] by (cases ls) (auto simp: loginsert_def)
qed

section \<open>Sketches\<close>

record SketchLearn =
  depth :: nat
  width :: nat
  lgn :: nat
  hash :: "u64 list"
  scale :: "u64 list"
  hardner :: "u64 list"
  counts :: "u32 list list"

text \<open>
  \<^verbatim>\<open>SKL_Init\<close> draws three seeds for each row from \<^verbatim>\<open>GenHashSeed\<close>, whose \<^verbatim>\<open>int\<close> argument is the low
  half of a running 64-bit number.  The field \<^verbatim>\<open>size\<close> of the C structure is \<open>width * depth\<close>, the length of
  \<open>counts\<close>; \<open>None\<close> is the overflow of \<^verbatim>\<open>width*depth\<close> or \<^verbatim>\<open>1+lgn*2\<close>, which are computed in \<^verbatim>\<open>int\<close>.
\<close>

fun gen_seeds :: "(nat \<Rightarrow> u64) \<Rightarrow> nat \<Rightarrow> u64 \<Rightarrow> seed_state \<Rightarrow> (u64 list \<times> u64 \<times> seed_state) option" where
  "gen_seeds rand 0 sd g = Some ([], sd, g)"
| "gen_seeds rand (Suc n) sd g =
     (case GenHashSeed rand g (ucast sd) of
        (None, _) \<Rightarrow> None
      | (Some h, g') \<Rightarrow> map_option (\<lambda>(hs, r). (h # hs, r)) (gen_seeds rand n (sd + 1) g'))"

definition deltoid :: "u8 list" where
  "deltoid = [100, 101, 108, 116, 111, 105, 100]"

definition SKL_Init ::
  "(nat \<Rightarrow> u64) \<Rightarrow> seed_state \<Rightarrow> int \<Rightarrow> nat \<Rightarrow> nat \<Rightarrow> (SketchLearn \<times> seed_state) option" where
  "SKL_Init rand g w d n =
     Option.bind (calc_next_prime w) (\<lambda>w'.
     if INT_MAX < w' * int d \<or> INT_MAX < 1 + int n * 2 then None else
     Option.bind (AwareHash deltoid 7 13091204281 228204732751 6620830889) (\<lambda>sd.
     Option.bind (gen_seeds rand d sd g) (\<lambda>(hs, sd1, g1).
     Option.bind (gen_seeds rand d sd1 g1) (\<lambda>(ss, sd2, g2).
     Option.bind (gen_seeds rand d sd2 g2) (\<lambda>(ds, sd3, g3).
       Some (\<lparr>depth = d, width = nat w', lgn = n, hash = hs, scale = ss, hardner = ds,
               counts = replicate (nat w' * d) (replicate (1 + n * 2) 0)\<rparr>, g3))))))"

text \<open>The well-formed sketches: the arrays have the sizes that \<^verbatim>\<open>SKL_Init\<close> gives them.\<close>

definition skl_ok :: "SketchLearn \<Rightarrow> bool" where
  "skl_ok skl \<longleftrightarrow>
     0 < width skl \<and> 8 dvd lgn skl \<and> length (hash skl) = depth skl \<and> length (scale skl) = depth skl \<and>
     length (hardner skl) = depth skl \<and> length (counts skl) = width skl * depth skl \<and>
     (\<forall>c \<in> set (counts skl). length c = 1 + lgn skl * 2)"

definition same_shape :: "SketchLearn \<Rightarrow> SketchLearn \<Rightarrow> bool" where
  "same_shape a b \<longleftrightarrow> b = a\<lparr>counts := counts b\<rparr>"

definition key_ok :: "SketchLearn \<Rightarrow> u8 list \<Rightarrow> bool" where
  "key_ok skl key \<longleftrightarrow> lgn skl div 8 \<le> length key"

definition row_hash :: "SketchLearn \<Rightarrow> nat \<Rightarrow> u8 list \<Rightarrow> u64 option" where
  "row_hash skl i key =
     (if i < length (hash skl) \<and> i < length (scale skl) \<and> i < length (hardner skl)
      then AwareHash key (lgn skl div 8) (hash skl ! i) (scale skl ! i) (hardner skl ! i) else None)"

definition update_row :: "SketchLearn \<Rightarrow> nat \<Rightarrow> u8 list \<Rightarrow> u32 \<Rightarrow> SketchLearn option" where
  "update_row skl i key diff =
     (case row_hash skl i key of
        None \<Rightarrow> None
      | Some h \<Rightarrow>
          let index = i * width skl + unat h mod width skl
          in if width skl = 0 \<or> length (counts skl) \<le> index then None
             else map_option (\<lambda>c. skl\<lparr>counts := (counts skl)[index := c]\<rparr>)
                    (loginsert (counts skl ! index) key (lgn skl) diff))"

fun update_rows :: "nat list \<Rightarrow> SketchLearn \<Rightarrow> u8 list \<Rightarrow> u32 \<Rightarrow> SketchLearn option" where
  "update_rows [] skl key diff = Some skl"
| "update_rows (i # is) skl key diff =
     (case update_row skl i key diff of None \<Rightarrow> None | Some skl' \<Rightarrow> update_rows is skl' key diff)"

definition SKL_Update :: "SketchLearn \<Rightarrow> u8 list \<Rightarrow> u32 \<Rightarrow> SketchLearn option" where
  "SKL_Update skl key diff = update_rows [0..<depth skl] skl key diff"

definition SKL_Update_Select ::
  "SketchLearn \<Rightarrow> u8 list \<Rightarrow> u32 \<Rightarrow> nat \<Rightarrow> u64 \<Rightarrow> u64 \<Rightarrow> u64 \<Rightarrow> SketchLearn option" where
  "SKL_Update_Select skl key diff select h s harder =
     (case AwareHash key (lgn skl div 8) h s harder of
        None \<Rightarrow> None
      | Some x \<Rightarrow>
          if depth skl = 0 then None
          else let select_hash = unat x mod depth skl
               in update_rows (map (\<lambda>k. (select_hash + k) mod depth skl) [0..<select]) skl key diff)"

text \<open>\<^verbatim>\<open>SKL_Update_Fast\<close> computes the hash of each row; its update of the counters is commented out.\<close>

definition SKL_Update_Fast :: "SketchLearn \<Rightarrow> u8 list \<Rightarrow> u32 \<Rightarrow> SketchLearn option" where
  "SKL_Update_Fast skl key diff =
     (if list_all (\<lambda>i. row_hash skl i key \<noteq> None) [0..<depth skl] \<and> (0 < width skl \<or> depth skl = 0)
      then Some skl else None)"

definition SKL_Reset :: "SketchLearn \<Rightarrow> SketchLearn" where
  "SKL_Reset skl = skl\<lparr>counts := map (\<lambda>_. replicate (1 + lgn skl * 2) 0) (counts skl)\<rparr>"

section \<open>What the counters hold\<close>

definition bucket :: "SketchLearn \<Rightarrow> nat \<Rightarrow> u8 list \<Rightarrow> nat" where
  "bucket skl i key = unat (the (row_hash skl i key)) mod width skl"

definition cnt :: "SketchLearn \<Rightarrow> nat \<Rightarrow> nat \<Rightarrow> nat \<Rightarrow> u32" where
  "cnt skl i j k = counts skl ! (i * width skl + j) ! k"

text \<open>Whether an update of \<open>key\<close> adds to counter \<open>k\<close> of bucket \<open>j\<close> of row \<open>i\<close>.\<close>

definition counts_in :: "SketchLearn \<Rightarrow> nat \<Rightarrow> nat \<Rightarrow> nat \<Rightarrow> u8 list \<Rightarrow> bool" where
  "counts_in skl i j k key \<longleftrightarrow>
     bucket skl i key = j \<and> (k = 0 \<or> k \<le> lgn skl \<and> key_bit key (k - 1))"

lemma same_shape_simps:
  assumes "same_shape a b"
  shows "depth b = depth a" "width b = width a" "lgn b = lgn a" "row_hash b = row_hash a"
    "bucket b = bucket a" "counts_in b = counts_in a" "key_ok b = key_ok a"
proof -
  have b: "b = a\<lparr>counts := counts b\<rparr>"
    using assms by (simp add: same_shape_def)
  show 1: "depth b = depth a" "width b = width a" "lgn b = lgn a"
    by (subst b, simp)+
  show 2: "row_hash b = row_hash a"
    by (subst b, rule ext, rule ext) (simp add: row_hash_def)
  show 3: "bucket b = bucket a"
    by (rule ext, rule ext) (simp add: bucket_def 1 2)
  show "counts_in b = counts_in a"
    by (rule ext)+ (simp add: counts_in_def 1 3)
  show "key_ok b = key_ok a"
    by (rule ext) (simp add: key_ok_def 1)
qed

lemma same_shape_refl [simp]: "same_shape a a"
  by (simp add: same_shape_def)

lemma same_shape_trans: "same_shape a b \<Longrightarrow> same_shape b c \<Longrightarrow> same_shape a c"
  by (cases a, cases b, cases c) (simp add: same_shape_def)

lemma same_shape_sym: "same_shape a b \<Longrightarrow> same_shape b a"
  by (cases a, cases b) (simp add: same_shape_def)

lemma same_shape_counts [simp]: "same_shape a (a\<lparr>counts := c\<rparr>)"
  by (simp add: same_shape_def)

lemma row_hash_Some:
  assumes "skl_ok skl" and "key_ok skl key" and "i < depth skl"
  shows "\<exists>h. row_hash skl i key = Some h"
  using assms by (auto simp: row_hash_def skl_ok_def key_ok_def intro: AwareHash_Some)

lemma bucket_less: "skl_ok skl \<Longrightarrow> bucket skl i key < width skl"
  by (simp add: bucket_def skl_ok_def)

lemma index_less:
  assumes "i < depth skl" and "j < width skl"
  shows "i * width skl + j < width skl * depth skl"
proof -
  have "i * width skl + j < Suc i * width skl"
    using assms(2) by simp
  also have "\<dots> \<le> depth skl * width skl"
    using assms(1) by (intro mult_right_mono) simp_all
  finally show ?thesis
    by (simp add: mult.commute)
qed

lemma index_inject:
  "j < w \<Longrightarrow> j' < w \<Longrightarrow> i * w + j = i' * w + j' \<longleftrightarrow> i = i' \<and> j = (j' :: nat)"
  by (metis add.commute div_mult_self3 div_less add_0 add_left_cancel not_less_zero)

lemma update_row_spec:
  assumes ok: "skl_ok skl" and key: "key_ok skl key" and i: "i < depth skl"
  shows "\<exists>skl'. update_row skl i key diff = Some skl' \<and> skl_ok skl' \<and> same_shape skl skl' \<and>
     (\<forall>i' j k. i' < depth skl \<and> j < width skl \<longrightarrow>
        cnt skl' i' j k = cnt skl i' j k + (if i' = i \<and> counts_in skl i j k key then diff else 0))"
proof -
  obtain h where h: "row_hash skl i key = Some h"
    using row_hash_Some [OF ok key i] by blast
  let ?b = "bucket skl i key"
  let ?x = "i * width skl + ?b"
  have b: "?b = unat h mod width skl" "?b < width skl"
    using h bucket_less [OF ok, of i key] by (simp_all add: bucket_def)
  have x: "?x < length (counts skl)"
    using index_less [OF i b(2)] ok by (simp add: skl_ok_def)
  then have len: "length (counts skl ! ?x) = 1 + lgn skl * 2"
    using ok by (simp add: skl_ok_def)
  then obtain c where c: "loginsert (counts skl ! ?x) key (lgn skl) diff = Some c"
    "length c = 1 + lgn skl * 2"
    "\<And>k. c ! k = counts skl ! ?x ! k +
        (if k = 0 \<or> (k \<le> lgn skl \<and> key_bit key (k - 1)) then diff else 0)"
    using loginsert_spec [of "lgn skl" key "counts skl ! ?x" diff] ok key
    by (auto simp: skl_ok_def key_ok_def)
  let ?skl = "skl\<lparr>counts := (counts skl)[?x := c]\<rparr>"
  have "update_row skl i key diff = Some ?skl"
    using ok x c by (simp add: update_row_def h Let_def b(1) skl_ok_def)
  moreover have "skl_ok ?skl"
    using ok c(2) by (auto simp: skl_ok_def dest: set_update_subset_insert [THEN subsetD])
  moreover have "cnt ?skl i' j k = cnt skl i' j k + (if i' = i \<and> counts_in skl i j k key then diff else 0)"
    if "i' < depth skl" "j < width skl" for i' j k
    using that x c(3) [of k] b(2) index_inject [of j "width skl" ?b i' i]
    by (auto simp: cnt_def counts_in_def nth_list_update)
  ultimately show ?thesis
    by (intro exI [of _ ?skl]) simp
qed

lemma update_rows_spec:
  assumes "skl_ok skl" and "key_ok skl key" and "set is \<subseteq> {..<depth skl}" and "distinct is"
  shows "\<exists>skl'. update_rows is skl key diff = Some skl' \<and> skl_ok skl' \<and> same_shape skl skl' \<and>
     (\<forall>i j k. i < depth skl \<and> j < width skl \<longrightarrow>
        cnt skl' i j k = cnt skl i j k + (if i \<in> set is \<and> counts_in skl i j k key then diff else 0))"
  using assms
proof (induction "is" arbitrary: skl)
  case (Cons r rs)
  obtain s1 where s1: "update_row skl r key diff = Some s1" "skl_ok s1" "same_shape skl s1"
    "\<And>i j k. i < depth skl \<Longrightarrow> j < width skl \<Longrightarrow>
       cnt s1 i j k = cnt skl i j k + (if i = r \<and> counts_in skl r j k key then diff else 0)"
    using update_row_spec [of skl key r diff] Cons.prems by auto
  obtain s2 where s2: "update_rows rs s1 key diff = Some s2" "skl_ok s2" "same_shape s1 s2"
    "\<And>i j k. i < depth skl \<Longrightarrow> j < width skl \<Longrightarrow>
       cnt s2 i j k = cnt s1 i j k + (if i \<in> set rs \<and> counts_in skl i j k key then diff else 0)"
    using Cons.IH [of s1] Cons.prems s1(2) same_shape_simps [OF s1(3)] by auto
  have "cnt s2 i j k = cnt skl i j k + (if i \<in> set (r # rs) \<and> counts_in skl i j k key then diff else 0)"
    if "i < depth skl" "j < width skl" for i j k
    using s1(4) [OF that] s2(4) [OF that] Cons.prems(4) by auto
  then show ?case
    using s1(1) s2(1,2) same_shape_trans [OF s1(3) s2(3)] by auto
qed simp

lemma SKL_Update_spec:
  assumes "skl_ok skl" and "key_ok skl key"
  shows "\<exists>skl'. SKL_Update skl key diff = Some skl' \<and> skl_ok skl' \<and> same_shape skl skl' \<and>
     (\<forall>i j k. i < depth skl \<and> j < width skl \<longrightarrow>
        cnt skl' i j k = cnt skl i j k + (if counts_in skl i j k key then diff else 0))"
  using update_rows_spec [OF assms, of "[0..<depth skl]" diff]
  by (simp add: SKL_Update_def atLeast0LessThan)

text \<open>A stream of updates.\<close>

fun SKL_Updates :: "SketchLearn \<Rightarrow> (u8 list \<times> u32) list \<Rightarrow> SketchLearn option" where
  "SKL_Updates skl [] = Some skl"
| "SKL_Updates skl ((key, diff) # us) =
     (case SKL_Update skl key diff of None \<Rightarrow> None | Some skl' \<Rightarrow> SKL_Updates skl' us)"

lemma SKL_Updates_spec:
  assumes "skl_ok skl" and "\<forall>u \<in> set us. key_ok skl (fst u)"
  shows "\<exists>skl'. SKL_Updates skl us = Some skl' \<and> skl_ok skl' \<and> same_shape skl skl' \<and>
     (\<forall>i j k. i < depth skl \<and> j < width skl \<longrightarrow>
        cnt skl' i j k = cnt skl i j k + (\<Sum>u\<leftarrow>us. if counts_in skl i j k (fst u) then snd u else 0))"
  using assms
proof (induction us arbitrary: skl)
  case (Cons u us)
  obtain key diff where u: "u = (key, diff)"
    by (cases u)
  obtain s1 where s1: "SKL_Update skl key diff = Some s1" "skl_ok s1" "same_shape skl s1"
    "\<And>i j k. i < depth skl \<Longrightarrow> j < width skl \<Longrightarrow>
       cnt s1 i j k = cnt skl i j k + (if counts_in skl i j k key then diff else 0)"
    using SKL_Update_spec [of skl key diff] Cons.prems u by auto
  obtain s2 where s2: "SKL_Updates s1 us = Some s2" "skl_ok s2" "same_shape s1 s2"
    "\<And>i j k. i < depth skl \<Longrightarrow> j < width skl \<Longrightarrow>
       cnt s2 i j k = cnt s1 i j k + (\<Sum>u\<leftarrow>us. if counts_in skl i j k (fst u) then snd u else 0)"
    using Cons.IH [of s1] Cons.prems s1(2) same_shape_simps [OF s1(3)] by auto
  have "cnt s2 i j k = cnt skl i j k + (\<Sum>u\<leftarrow>u # us. if counts_in skl i j k (fst u) then snd u else 0)"
    if "i < depth skl" "j < width skl" for i j k
    using s1(4) [OF that] s2(4) [OF that] u by (simp add: add.assoc)
  then show ?case
    using s1(1) s2(1,2) same_shape_trans [OF s1(3) s2(3)] u by auto
qed simp

lemma SKL_Reset_spec:
  assumes "skl_ok skl"
  shows "skl_ok (SKL_Reset skl)" "same_shape skl (SKL_Reset skl)"
    "i < depth skl \<Longrightarrow> j < width skl \<Longrightarrow> k \<le> 2 * lgn skl \<Longrightarrow> cnt (SKL_Reset skl) i j k = 0"
proof -
  show "skl_ok (SKL_Reset skl)" "same_shape skl (SKL_Reset skl)"
    using assms by (auto simp: skl_ok_def SKL_Reset_def)
  assume ij: "i < depth skl" "j < width skl" "k \<le> 2 * lgn skl"
  have "i * width skl + j < length (counts skl)"
    using index_less [OF ij(1,2)] assms by (simp add: skl_ok_def)
  then show "cnt (SKL_Reset skl) i j k = 0"
    using ij(3) by (simp add: cnt_def SKL_Reset_def nth_Cons')
qed

lemma SKL_stream_spec:
  assumes "skl_ok skl" and "\<forall>u \<in> set us. key_ok skl (fst u)"
  shows "\<exists>skl'. SKL_Updates (SKL_Reset skl) us = Some skl' \<and> skl_ok skl' \<and> same_shape skl skl' \<and>
     (\<forall>i j k. i < depth skl \<and> j < width skl \<and> k \<le> 2 * lgn skl \<longrightarrow>
        cnt skl' i j k = (\<Sum>u\<leftarrow>us. if counts_in skl i j k (fst u) then snd u else 0))"
proof -
  note shape = same_shape_simps [OF SKL_Reset_spec(2) [OF assms(1)]]
  obtain s where s: "SKL_Updates (SKL_Reset skl) us = Some s" "skl_ok s" "same_shape (SKL_Reset skl) s"
    "\<And>i j k. i < depth skl \<Longrightarrow> j < width skl \<Longrightarrow>
       cnt s i j k = cnt (SKL_Reset skl) i j k + (\<Sum>u\<leftarrow>us. if counts_in skl i j k (fst u) then snd u else 0)"
    using SKL_Updates_spec [OF SKL_Reset_spec(1) [OF assms(1)], of us] assms(2) shape by auto
  then show ?thesis
    using SKL_Reset_spec(3) [OF assms(1)] same_shape_trans [OF SKL_Reset_spec(2) [OF assms(1)]] by auto
qed

text \<open>
  Claim C2. After a reset and any stream of updates, every counter of the sketch holds exactly the sum
  (modulo 2 to the 32) of the updates of the keys that fall into its bucket and, for a bit counter, have
  that bit set; no access leaves the arrays.
\<close>

theorem SKL_stream_counts:
  assumes "skl_ok skl" and "\<forall>u \<in> set us. key_ok skl (fst u)"
  shows "\<exists>skl'. SKL_Updates (SKL_Reset skl) us = Some skl' \<and> skl_ok skl' \<and> same_shape skl skl' \<and>
     (\<forall>i j k. i < depth skl \<and> j < width skl \<and> k \<le> 2 * lgn skl \<longrightarrow>
        cnt skl' i j k = (\<Sum>u\<leftarrow>us. if counts_in skl i j k (fst u) then snd u else 0))"
  using assms by (rule SKL_stream_spec)

section \<open>A new sketch\<close>

lemma gen_seeds_Some:
  "\<exists>hs sd' g'. gen_seeds rand n sd g = Some (hs, sd', g') \<and> length hs = n"
proof (induction n arbitrary: sd g)
  case (Suc n)
  obtain h where "GenHashSeed rand g (ucast sd) = (Some h, draw_seed rand g)"
    using GenHashSeed_Some by blast
  moreover obtain hs sd' g' where "gen_seeds rand n (sd + 1) (draw_seed rand g) = Some (hs, sd', g')"
    "length hs = n"
    using Suc.IH by blast
  ultimately show ?case
    by simp
qed simp

text \<open>
  Claim C24. \<^verbatim>\<open>SKL_Init\<close> succeeds for every width, depth and number of key bits (a multiple of 8) for which
  the number of buckets and the number of counters of a bucket are representable, and gives a well-formed
  sketch of the dimensions asked for, with the next prime as its width and all counters 0.
\<close>

theorem SKL_Init_ok:
  assumes "w \<le> INT_MAX" and "calc_next_prime w = Some q" and "q * int d \<le> INT_MAX" and "8 dvd n"
    and "1 + int n * 2 \<le> INT_MAX"
  shows "\<exists>skl g'. SKL_Init rand g w d n = Some (skl, g') \<and> skl_ok skl \<and> depth skl = d \<and> lgn skl = n \<and>
     int (width skl) = q \<and> counts skl = counts (SKL_Reset skl)"
proof -
  have q: "2 \<le> q"
    using calc_next_prime_Some [OF assms(1)] assms(2) by auto
  obtain sd where sd: "AwareHash deltoid 7 13091204281 228204732751 6620830889 = Some sd"
  proof -
    have "7 \<le> length deltoid"
      by (simp add: deltoid_def)
    then show ?thesis
      using AwareHash_Some that by blast
  qed
  obtain hs sd1 g1 where 1: "gen_seeds rand d sd g = Some (hs, sd1, g1)" "length hs = d"
    using gen_seeds_Some by blast
  obtain ss sd2 g2 where 2: "gen_seeds rand d sd1 g1 = Some (ss, sd2, g2)" "length ss = d"
    using gen_seeds_Some by blast
  obtain ds sd3 g3 where 3: "gen_seeds rand d sd2 g2 = Some (ds, sd3, g3)" "length ds = d"
    using gen_seeds_Some by blast
  show ?thesis
    using q assms(2-) 1 2 3 by (auto simp: SKL_Init_def sd skl_ok_def SKL_Reset_def map_replicate)
qed

theorem SKL_Init_ok_witness:
  "\<exists>skl g'. SKL_Init (\<lambda>_. 42) \<lparr>seed = 0, drawn = 0\<rparr> 4 2 104 = Some (skl, g') \<and> skl_ok skl \<and>
     depth skl = 2 \<and> lgn skl = 104 \<and> int (width skl) = 5 \<and> counts skl = counts (SKL_Reset skl)"
proof -
  have "is_prime 4 = 0" "is_prime 5 = 1"
    by (simp_all add: is_prime_def is_prime_loop.simps)
  then have "calc_next_prime 4 = Some 5"
    by (simp add: calc_next_prime.simps INT_MAX_def)
  then show ?thesis
    by (intro SKL_Init_ok) (simp_all add: INT_MAX_def)
qed

text \<open>A small sketch for examples: two rows of three buckets for keys of one byte.\<close>

definition small_skl :: SketchLearn where
  "small_skl =
     \<lparr>depth = 2, width = 3, lgn = 8, hash = [1, 2], scale = [3, 5], hardner = [0, 7],
      counts = replicate 6 (replicate 17 0)\<rparr>"

lemma small_skl_ok: "skl_ok small_skl"
  by (simp add: small_skl_def skl_ok_def)

theorem SKL_stream_counts_witness:
  "\<exists>skl'. SKL_Updates (SKL_Reset small_skl) [([0x80], 5), ([0x81], 7)] = Some skl' \<and> skl_ok skl' \<and>
     same_shape small_skl skl' \<and>
     (\<forall>i j k. i < depth small_skl \<and> j < width small_skl \<and> k \<le> 2 * lgn small_skl \<longrightarrow>
        cnt skl' i j k =
          (\<Sum>u\<leftarrow>[([0x80], 5), ([0x81], 7)]. if counts_in small_skl i j k (fst u) then snd u else 0))"
  by (rule SKL_stream_counts [OF small_skl_ok]) (simp add: key_ok_def small_skl_def)

end
