(* ===== verification/Sketch_Merge.thy ===== *)
theory Sketch_Merge
  imports Sketch
begin

text \<open>
  The operations of \<^verbatim>\<open>alg_sketchlearn.c\<close> on whole sketches: copying, merging, subtracting, and the
  serialised form.  Their loops run over all buckets (\<open>each_bucket\<close>); an access outside an array is
  \<open>Invalid_access\<close>, a call of \<^verbatim>\<open>exit\<close> is \<open>Exit_code\<close>.
\<close>

section \<open>Loops over buckets\<close>

fun each_bucket ::
  "(nat \<Rightarrow> u32 list \<Rightarrow> u32 list option) \<Rightarrow> nat list \<Rightarrow> u32 list list \<Rightarrow> u32 list list option" where
  "each_bucket f [] cs = Some cs"
| "each_bucket f (i # is) cs =
     (if i < length cs
      then case f i (cs ! i) of None \<Rightarrow> None | Some c \<Rightarrow> each_bucket f is (cs[i := c])
      else None)"

lemma each_bucket_spec:
  assumes "distinct is" and "\<forall>i \<in> set is. i < length cs \<and> f i (cs ! i) = Some (g i)"
  shows "\<exists>cs'. each_bucket f is cs = Some cs' \<and> length cs' = length cs \<and>
     (\<forall>i < length cs. cs' ! i = (if i \<in> set is then g i else cs ! i))"
  using assms
proof (induction "is" arbitrary: cs)
  case (Cons i "is")
  then have "\<exists>cs'. each_bucket f is (cs[i := g i]) = Some cs' \<and> length cs' = length (cs[i := g i]) \<and>
     (\<forall>k < length (cs[i := g i]). cs' ! k = (if k \<in> set is then g k else cs[i := g i] ! k))"
    by (intro Cons.IH) (auto simp: nth_list_update)
  then show ?case
    using Cons.prems by (auto simp: nth_list_update)
qed simp

lemma each_bucket_all:
  assumes "n = length cs" and "\<And>i. i < n \<Longrightarrow> f i (cs ! i) = Some (g i)"
  shows "each_bucket f [0..<n] cs = Some (map g [0..<n])"
proof -
  obtain cs' where "each_bucket f [0..<n] cs = Some cs'" "length cs' = n"
    "\<forall>i < n. cs' ! i = g i"
    using each_bucket_spec [of "[0..<n]" cs f g] assms by auto
  then show ?thesis
    by (auto intro: nth_equalityI)
qed

definition skl_size :: "SketchLearn \<Rightarrow> nat" where
  "skl_size skl = width skl * depth skl"

definition lift_invalid :: "'a option \<Rightarrow> 'a result" where
  "lift_invalid x = (case x of None \<Rightarrow> Inl Invalid_access | Some y \<Rightarrow> Inr y)"

section \<open>Copying\<close>

definition copy_bucket :: "SketchLearn \<Rightarrow> nat \<Rightarrow> u32 list \<Rightarrow> u32 list option" where
  "copy_bucket src index c =
     (if index < length (counts src)
      then Option.bind (copy_out (counts src ! index) 0 (1 + lgn src * 2)) (copy_in c 0) else None)"

definition SKL_Copy :: "SketchLearn \<Rightarrow> SketchLearn \<Rightarrow> SketchLearn result" where
  "SKL_Copy dst src =
     (if width dst \<noteq> width src \<or> depth dst \<noteq> depth src then Inl (Exit_code (-1))
      else lift_invalid (map_option (\<lambda>cs. dst\<lparr>counts := cs\<rparr>)
        (each_bucket (copy_bucket src) [0..<skl_size src] (counts dst))))"

definition SKL_Copy_OneRow :: "SketchLearn \<Rightarrow> SketchLearn \<Rightarrow> nat \<Rightarrow> SketchLearn result" where
  "SKL_Copy_OneRow dst src r =
     (if width dst \<noteq> width src \<or> depth dst \<noteq> 1 \<or> r \<ge> depth src then Inl (Exit_code (-1))
      else lift_invalid
        (case each_bucket (\<lambda>c. copy_bucket src (r * width src + c)) [0..<width src] (counts dst) of
           None \<Rightarrow> None
         | Some cs \<Rightarrow>
             if hash dst = [] \<or> scale dst = [] \<or> hardner dst = [] \<or> length (hash src) \<le> r \<or>
                length (scale src) \<le> r \<or> length (hardner src) \<le> r then None
             else Some (dst\<lparr>counts := cs, hash := (hash dst)[0 := hash src ! r],
                    scale := (scale dst)[0 := scale src ! r],
                    hardner := (hardner dst)[0 := hardner src ! r]\<rparr>)))"

section \<open>Merging and subtracting\<close>

definition combine :: "(u32 \<Rightarrow> u32 \<Rightarrow> u32) \<Rightarrow> SketchLearn \<Rightarrow> nat \<Rightarrow> u32 list \<Rightarrow> u32 list option" where
  "combine f src i c =
     (let n = 1 + lgn src * 2
      in if i < length (counts src) \<and> n \<le> length c \<and> n \<le> length (counts src ! i)
         then Some (map2 f (take n c) (take n (counts src ! i)) @ drop n c) else None)"

definition SKL_Merge :: "SketchLearn \<Rightarrow> SketchLearn \<Rightarrow> SketchLearn result" where
  "SKL_Merge dst src =
     (if width dst \<noteq> width src \<or> depth dst \<noteq> depth src then Inl (Exit_code (-1))
      else lift_invalid (map_option (\<lambda>cs. dst\<lparr>counts := cs\<rparr>)
        (each_bucket (combine (+) src) [0..<skl_size src] (counts dst))))"

definition SKL_Diff :: "SketchLearn \<Rightarrow> SketchLearn \<Rightarrow> SketchLearn result" where
  "SKL_Diff dst src =
     (if width dst \<noteq> width src \<or> depth dst \<noteq> depth src then Inl (Exit_code (-1))
      else lift_invalid (map_option (\<lambda>cs. dst\<lparr>counts := cs\<rparr>)
        (each_bucket (combine (-) src) [0..<skl_size src] (counts dst))))"

text \<open>Two well-formed sketches of one shape are equal when their counters are.\<close>

lemma bucket_index:
  assumes "x < width skl * depth skl"
  obtains i j where "x = i * width skl + j" and "i < depth skl" and "j < width skl"
proof
  have "0 < width skl"
    using assms by (cases "width skl") simp_all
  then show "x = x div width skl * width skl + x mod width skl" "x mod width skl < width skl"
    by simp_all
  show "x div width skl < depth skl"
    using assms by (simp add: less_mult_imp_div_less mult.commute)
qed

lemma skl_eqI:
  assumes "skl_ok a" and "skl_ok b" and "same_shape a b"
    and "\<And>i j k. i < depth a \<Longrightarrow> j < width a \<Longrightarrow> k \<le> 2 * lgn a \<Longrightarrow> cnt b i j k = cnt a i j k"
  shows "b = a"
proof -
  note shape = same_shape_simps [OF assms(3)]
  have len: "length (counts a) = width a * depth a" "length (counts b) = width a * depth a"
    using assms(1,2) shape by (simp_all add: skl_ok_def)
  have "counts b = counts a"
  proof (rule nth_equalityI)
    fix x
    assume x: "x < length (counts b)"
    then obtain i j where ij: "x = i * width a + j" "i < depth a" "j < width a"
      using len by (metis bucket_index)
    have "length (counts b ! x) = 1 + lgn a * 2" "length (counts a ! x) = 1 + lgn a * 2"
      using assms(1,2) shape x len by (simp_all add: skl_ok_def)
    then show "counts b ! x = counts a ! x"
      using assms(4) [OF ij(2,3)] ij(1) shape by (auto simp: cnt_def intro!: nth_equalityI)
  qed (simp add: len)
  with assms(3) show ?thesis
    by (simp add: same_shape_def)
qed

lemma combine_spec:
  fixes f :: "u32 \<Rightarrow> u32 \<Rightarrow> u32"
  assumes "skl_ok a" and "skl_ok b" and "same_shape a b"
  defines "cs \<equiv> map (\<lambda>x. map2 f (counts a ! x) (counts b ! x)) [0..<width a * depth a]"
  shows "each_bucket (combine f b) [0..<skl_size b] (counts a) = Some cs"
    and "skl_ok (a\<lparr>counts := cs\<rparr>)"
    and "i < depth a \<Longrightarrow> j < width a \<Longrightarrow> k \<le> 2 * lgn a \<Longrightarrow>
      cnt (a\<lparr>counts := cs\<rparr>) i j k = f (cnt a i j k) (cnt b i j k)"
proof -
  note shape = same_shape_simps [OF assms(3)]
  have len: "length (counts a) = width a * depth a" "length (counts b) = width a * depth a"
    "\<And>x. x < width a * depth a \<Longrightarrow> length (counts a ! x) = 1 + lgn a * 2"
    "\<And>x. x < width a * depth a \<Longrightarrow> length (counts b ! x) = 1 + lgn a * 2"
    using assms(1,2) shape by (simp_all add: skl_ok_def)
  show "each_bucket (combine f b) [0..<skl_size b] (counts a) = Some cs"
    unfolding cs_def skl_size_def shape
    by (rule each_bucket_all) (simp_all add: len combine_def shape)
  show "skl_ok (a\<lparr>counts := cs\<rparr>)"
    using assms(1) by (auto simp: skl_ok_def cs_def len)
  assume ij: "i < depth a" "j < width a" "k \<le> 2 * lgn a"
  show "cnt (a\<lparr>counts := cs\<rparr>) i j k = f (cnt a i j k) (cnt b i j k)"
    using index_less [OF ij(1,2)] ij(3) len by (simp add: cnt_def cs_def shape)
qed

lemma SKL_Merge_spec:
  assumes "skl_ok a" and "skl_ok b" and "same_shape a b"
  shows "\<exists>m. SKL_Merge a b = Inr m \<and> skl_ok m \<and> same_shape a m \<and>
    (\<forall>i j k. i < depth a \<and> j < width a \<and> k \<le> 2 * lgn a \<longrightarrow> cnt m i j k = cnt a i j k + cnt b i j k)"
  using combine_spec [OF assms, where f = "(+)"] same_shape_simps [OF assms(3)]
  by (auto simp: SKL_Merge_def lift_invalid_def)

lemma SKL_Diff_spec:
  assumes "skl_ok a" and "skl_ok b" and "same_shape a b"
  shows "\<exists>m. SKL_Diff a b = Inr m \<and> skl_ok m \<and> same_shape a m \<and>
    (\<forall>i j k. i < depth a \<and> j < width a \<and> k \<le> 2 * lgn a \<longrightarrow> cnt m i j k = cnt a i j k - cnt b i j k)"
  using combine_spec [OF assms, where f = "(-)"] same_shape_simps [OF assms(3)]
  by (auto simp: SKL_Diff_def lift_invalid_def)

text \<open>
  Claim C15. Merging is what a distributed measurement needs: when two sketches of the same shape (and so
  with the same hash functions) have counted two streams, \<^verbatim>\<open>SKL_Merge\<close> gives exactly the sketch that has
  counted the first stream followed by the second.
\<close>

theorem SKL_merge_streams:
  assumes "skl_ok skl" and "\<forall>u \<in> set (us @ vs). key_ok skl (fst u)"
  shows "\<exists>a b m. SKL_Updates (SKL_Reset skl) us = Some a \<and> SKL_Updates (SKL_Reset skl) vs = Some b \<and>
     SKL_Merge a b = Inr m \<and> SKL_Updates (SKL_Reset skl) (us @ vs) = Some m"
proof -
  let ?sum = "\<lambda>ws i j k. \<Sum>u\<leftarrow>ws. if counts_in skl i j k (fst u) then snd u else 0"
  have stream: "\<exists>s. SKL_Updates (SKL_Reset skl) ws = Some s \<and> skl_ok s \<and> same_shape skl s \<and>
      (\<forall>i j k. i < depth skl \<and> j < width skl \<and> k \<le> 2 * lgn skl \<longrightarrow> cnt s i j k = ?sum ws i j k)"
    if "\<forall>u \<in> set ws. key_ok skl (fst u)" for ws
  proof -
    note shape = same_shape_simps [OF SKL_Reset_spec(2) [OF assms(1)]]
    show ?thesis
      using SKL_Updates_spec [OF SKL_Reset_spec(1) [OF assms(1)], of ws] that shape
        SKL_Reset_spec(3) [OF assms(1)] same_shape_trans [OF SKL_Reset_spec(2) [OF assms(1)]] by fastforce
  qed
  obtain a where a: "SKL_Updates (SKL_Reset skl) us = Some a" "skl_ok a" "same_shape skl a"
    "\<And>i j k. i < depth skl \<Longrightarrow> j < width skl \<Longrightarrow> k \<le> 2 * lgn skl \<Longrightarrow> cnt a i j k = ?sum us i j k"
    using stream [of us] assms(2) by auto
  obtain b where b: "SKL_Updates (SKL_Reset skl) vs = Some b" "skl_ok b" "same_shape skl b"
    "\<And>i j k. i < depth skl \<Longrightarrow> j < width skl \<Longrightarrow> k \<le> 2 * lgn skl \<Longrightarrow> cnt b i j k = ?sum vs i j k"
    using stream [of vs] assms(2) by auto
  obtain c where c: "SKL_Updates (SKL_Reset skl) (us @ vs) = Some c" "skl_ok c" "same_shape skl c"
    "\<And>i j k. i < depth skl \<Longrightarrow> j < width skl \<Longrightarrow> k \<le> 2 * lgn skl \<Longrightarrow> cnt c i j k = ?sum (us @ vs) i j k"
    using stream [of "us @ vs"] assms(2) by auto
  have ab: "same_shape a b" and ac: "same_shape a c"
    using a(3) b(3) c(3) by (auto intro: same_shape_trans same_shape_sym)
  note shape = same_shape_simps [OF a(3)]
  obtain m where m: "SKL_Merge a b = Inr m" "skl_ok m" "same_shape a m"
    "\<And>i j k. i < depth skl \<Longrightarrow> j < width skl \<Longrightarrow> k \<le> 2 * lgn skl \<Longrightarrow> cnt m i j k = cnt a i j k + cnt b i j k"
    using SKL_Merge_spec [OF a(2) b(2) ab] shape by auto
  have "m = c"
  proof (rule skl_eqI [OF c(2) m(2)])
    show "same_shape c m"
      using ac m(3) by (auto intro: same_shape_trans same_shape_sym)
    fix i j k
    assume "i < depth c" "j < width c" "k \<le> 2 * lgn c"
    then show "cnt m i j k = cnt c i j k"
      using a(4) b(4) c(4) m(4) same_shape_simps [OF c(3)] by simp
  qed
  then show ?thesis
    using a(1) b(1) c(1) m(1) by auto
qed

theorem SKL_merge_streams_witness:
  "\<exists>a b m. SKL_Updates (SKL_Reset small_skl) [([0x80], 5)] = Some a \<and>
     SKL_Updates (SKL_Reset small_skl) [([0x81], 7), ([0x80], 1)] = Some b \<and> SKL_Merge a b = Inr m \<and>
     SKL_Updates (SKL_Reset small_skl) ([([0x80], 5)] @ [([0x81], 7), ([0x80], 1)]) = Some m"
  by (rule SKL_merge_streams [OF small_skl_ok]) (simp add: key_ok_def small_skl_def)

text \<open>
  \<^verbatim>\<open>SKL_Diff\<close> undoes \<^verbatim>\<open>SKL_Merge\<close>: subtracting a sketch that was merged in restores the
  original sketch, whatever wrapped around in between.
\<close>

theorem SKL_diff_merge:
  assumes "skl_ok a" and "skl_ok b" and "same_shape a b"
  shows "\<exists>m. SKL_Merge a b = Inr m \<and> SKL_Diff m b = Inr a"
proof -
  obtain m where m: "SKL_Merge a b = Inr m" "skl_ok m" "same_shape a m"
    "\<And>i j k. i < depth a \<Longrightarrow> j < width a \<Longrightarrow> k \<le> 2 * lgn a \<Longrightarrow> cnt m i j k = cnt a i j k + cnt b i j k"
    using SKL_Merge_spec [OF assms] by auto
  have "same_shape m b"
    using m(3) assms(3) by (auto intro: same_shape_trans same_shape_sym)
  then obtain d where d: "SKL_Diff m b = Inr d" "skl_ok d" "same_shape m d"
    "\<And>i j k. i < depth a \<Longrightarrow> j < width a \<Longrightarrow> k \<le> 2 * lgn a \<Longrightarrow> cnt d i j k = cnt m i j k - cnt b i j k"
    using SKL_Diff_spec [OF m(2) assms(2)] same_shape_simps [OF m(3)] by auto
  have "d = a"
    using skl_eqI [OF assms(1) d(2) same_shape_trans [OF m(3) d(3)]] m(4) d(4) by simp
  with m(1) d(1) show ?thesis
    by blast
qed

theorem SKL_diff_merge_witness:
  "\<exists>m. SKL_Merge small_skl small_skl = Inr m \<and> SKL_Diff m small_skl = Inr small_skl"
  by (rule SKL_diff_merge) (simp_all add: small_skl_ok)

section \<open>What the copies hold\<close>

lemma copy_bucket_spec:
  assumes "skl_ok src" and "x < width src * depth src" and "length c = 1 + lgn src * 2"
  shows "copy_bucket src x c = Some (counts src ! x)"
  using assms by (simp add: copy_bucket_def skl_ok_def copy_in_def)

text \<open>
  \<^verbatim>\<open>SKL_Copy\<close> between sketches of equal dimensions gives the target the counters of the source
  and leaves its hash functions alone; when width or depth differ the program exits.
\<close>

theorem SKL_Copy_correct:
  assumes "skl_ok dst" and "skl_ok src" and "lgn dst = lgn src"
  shows "SKL_Copy dst src =
     (if width dst = width src \<and> depth dst = depth src then Inr (dst\<lparr>counts := counts src\<rparr>)
      else Inl (Exit_code (-1)))"
proof (cases "width dst = width src \<and> depth dst = depth src")
  case True
  then have "each_bucket (copy_bucket src) [0..<skl_size src] (counts dst) =
      Some (map (\<lambda>x. counts src ! x) [0..<skl_size src])"
    using assms by (intro each_bucket_all) (auto simp: skl_ok_def skl_size_def intro!: copy_bucket_spec)
  moreover have "map (\<lambda>x. counts src ! x) [0..<skl_size src] = counts src"
    using assms(2) by (intro nth_equalityI) (simp_all add: skl_ok_def skl_size_def)
  ultimately show ?thesis
    using True by (simp add: SKL_Copy_def lift_invalid_def)
qed (auto simp: SKL_Copy_def)

theorem SKL_Copy_correct_witness:
  "SKL_Copy small_skl (small_skl\<lparr>counts := replicate 6 (replicate 17 9)\<rparr>) =
     Inr (small_skl\<lparr>counts := replicate 6 (replicate 17 9)\<rparr>)"
  using SKL_Copy_correct [OF small_skl_ok, of "small_skl\<lparr>counts := replicate 6 (replicate 17 9)\<rparr>"]
  by (simp add: skl_ok_def small_skl_def)

text \<open>
  \<^verbatim>\<open>SKL_Copy_OneRow\<close> makes a one-row sketch out of row \<open>r\<close>: the target gets the counters of
  that row and sends every key to the bucket in which the row had it.
\<close>

theorem SKL_Copy_OneRow_correct:
  assumes "skl_ok dst" and "skl_ok src" and "lgn dst = lgn src" and "width dst = width src"
    and "depth dst = 1" and "r < depth src"
  shows "\<exists>s. SKL_Copy_OneRow dst src r = Inr s \<and> skl_ok s \<and>
     (\<forall>j k. j < width src \<longrightarrow> cnt s 0 j k = cnt src r j k) \<and> (\<forall>key. bucket s 0 key = bucket src r key)"
proof -
  let ?cs = "map (\<lambda>j. counts src ! (r * width src + j)) [0..<width src]"
  let ?s = "dst\<lparr>counts := ?cs, hash := (hash dst)[0 := hash src ! r],
    scale := (scale dst)[0 := scale src ! r], hardner := (hardner dst)[0 := hardner src ! r]\<rparr>"
  have "each_bucket (\<lambda>c. copy_bucket src (r * width src + c)) [0..<width src] (counts dst) = Some ?cs"
    using assms by (intro each_bucket_all) (auto simp: skl_ok_def intro!: copy_bucket_spec index_less)
  moreover have "hash dst \<noteq> []" "scale dst \<noteq> []" "hardner dst \<noteq> []"
    "length (hash src) = depth src" "length (scale src) = depth src" "length (hardner src) = depth src"
    using assms by (auto simp: skl_ok_def)
  ultimately have "SKL_Copy_OneRow dst src r = Inr ?s"
    using assms by (simp add: SKL_Copy_OneRow_def lift_invalid_def)
  moreover have "length (counts src ! (r * width src + j)) = 1 + lgn src * 2" if "j < width src" for j
    using assms(2) index_less [OF assms(6) that] by (simp add: skl_ok_def)
  then have "skl_ok ?s"
    using assms by (auto simp: skl_ok_def)
  moreover have "row_hash ?s 0 key = row_hash src r key" for key
    using assms by (auto simp: row_hash_def skl_ok_def)
  then have "bucket ?s 0 key = bucket src r key" for key
    using assms(4) by (simp add: bucket_def)
  ultimately show ?thesis
    using assms(4) by (intro exI [of _ ?s]) (simp add: cnt_def)
qed

theorem SKL_Copy_OneRow_correct_witness:
  "\<exists>s. SKL_Copy_OneRow
     \<lparr>depth = 1, width = 3, lgn = 8, hash = [0], scale = [0], hardner = [0],
      counts = replicate 3 (replicate 17 1)\<rparr> small_skl 1 = Inr s \<and> skl_ok s \<and>
     (\<forall>j k. j < width small_skl \<longrightarrow> cnt s 0 j k = cnt small_skl 1 j k) \<and>
     (\<forall>key. bucket s 0 key = bucket small_skl 1 key)"
  by (rule SKL_Copy_OneRow_correct) (simp_all add: skl_ok_def small_skl_def)

end
