(* ===== verification/Sketch_Serial.thy ===== *)
theory Sketch_Serial
  imports Sketch_Merge
begin

text \<open>
  \<^verbatim>\<open>SKL_Serialize\<close> and \<^verbatim>\<open>SKL_Deserialize\<close>: the counters that are not 0, each as bucket number, counter
  number and value (three 32-bit integers), after the total length in bytes.
\<close>

section \<open>Writing\<close>

definition entries :: "u32 list list \<Rightarrow> nat \<Rightarrow> nat \<Rightarrow> (nat \<times> nat \<times> u32) list" where
  "entries cs n m =
     concat (map (\<lambda>i. concat (map (\<lambda>j. if cs ! i ! j \<noteq> 0 then [(i, j, cs ! i ! j)] else []) [0..<m])) [0..<n])"

definition entry_bytes :: "nat \<times> nat \<times> u32 \<Rightarrow> u8 list" where
  "entry_bytes e = (case e of (i, j, v) \<Rightarrow> le32 (of_nat i) @ le32 (of_nat j) @ le32 v)"

text \<open>
  The buffer has \<open>room\<close> bytes; the result is what is stored in it and the length returned through
  \<^verbatim>\<open>len\<close>, an unsigned 32-bit number.
\<close>

definition SKL_Serialize :: "SketchLearn \<Rightarrow> nat \<Rightarrow> (u8 list \<times> u32) option" where
  "SKL_Serialize skl room =
     (let n = depth skl * width skl; m = 1 + lgn skl * 2
      in if n \<le> length (counts skl) \<and> list_all (\<lambda>i. m \<le> length (counts skl ! i)) [0..<n]
         then let es = entries (counts skl) n m;
                  len = of_nat (4 + 12 * length es)
              in if 4 + 12 * length es \<le> room
                 then Some (le32 len @ concat (map entry_bytes es), len) else None
         else None)"

definition SKL_SerialSize :: "SketchLearn \<Rightarrow> nat" where
  "SKL_SerialSize skl = 4 + 12 * width skl * depth skl * (1 + lgn skl * 2)"

section \<open>Reading\<close>

definition store :: "u32 list list \<Rightarrow> int \<Rightarrow> int \<Rightarrow> u32 \<Rightarrow> u32 list list option" where
  "store cs i j v =
     (if 0 \<le> i \<and> nat i < length cs \<and> 0 \<le> j \<and> nat j < length (cs ! nat i)
      then Some (cs[nat i := (cs ! nat i)[nat j := v]]) else None)"

text \<open>
  The loop \<^verbatim>\<open>while (ptr < buf+tot_size)\<close>: \<open>left\<close> is the number of bytes from the pointer to the end that
  the header announces, \<open>bs\<close> what the buffer holds from the pointer on.
\<close>

function deserialize_loop :: "u32 list list \<Rightarrow> u8 list \<Rightarrow> nat \<Rightarrow> u32 list list option" where
  "deserialize_loop cs bs left =
     (if left = 0 then Some cs
      else if length bs < 12 then None
      else case store cs (sint (of_le32 bs)) (sint (of_le32 (drop 4 bs))) (of_le32 (drop 8 bs)) of
             None \<Rightarrow> None
           | Some cs' \<Rightarrow> deserialize_loop cs' (drop 12 bs) (left - 12))"
  by auto
termination
  by (relation "measure (\<lambda>(cs, bs, left). left)") auto

declare deserialize_loop.simps [simp del]

definition SKL_Deserialize :: "SketchLearn \<Rightarrow> u8 list \<Rightarrow> (SketchLearn \<times> u32) option" where
  "SKL_Deserialize skl buf =
     (if length buf < 4 then None
      else let tot_size = of_le32 buf
           in map_option (\<lambda>cs. (skl\<lparr>counts := cs\<rparr>, tot_size))
                (deserialize_loop (counts skl) (drop 4 buf) (unat tot_size - 4)))"

section \<open>Reading what was written\<close>

lemma set_entries:
  "(i, j, v) \<in> set (entries cs n m) \<longleftrightarrow> i < n \<and> j < m \<and> v = cs ! i ! j \<and> v \<noteq> 0"
  by (auto simp: entries_def split: if_splits)

lemma entry_bytes_triple: "entry_bytes (i, j, v) = le32 (of_nat i) @ le32 (of_nat j) @ le32 v"
  by (simp add: entry_bytes_def)

lemma unat_of_nat_u32: "n < 2 ^ 31 \<Longrightarrow> unat (of_nat n :: u32) = n"
  by (simp add: unat_of_nat)

lemma length_entry_bytes [simp]: "length (entry_bytes e) = 12"
  by (simp add: entry_bytes_def split: prod.split)

fun store_all :: "u32 list list \<Rightarrow> (nat \<times> nat \<times> u32) list \<Rightarrow> u32 list list" where
  "store_all cs [] = cs"
| "store_all cs ((i, j, v) # es) = store_all (cs[i := (cs ! i)[j := v]]) es"

lemma sint_of_nat: "n < 2 ^ 31 \<Longrightarrow> sint (of_nat n :: u32) = int n"
  by (simp add: signed_of_nat signed_take_bit_int_eq_self)

lemma deserialize_entries:
  assumes "\<forall>(i, j, v) \<in> set es. i < length cs \<and> j < m \<and> i < 2 ^ 31 \<and> j < 2 ^ 31"
    and "\<forall>c \<in> set cs. length c = m"
  shows "deserialize_loop cs (concat (map entry_bytes es)) (12 * length es) = Some (store_all cs es)"
  using assms
proof (induction es arbitrary: cs)
  case (Cons e es)
  obtain i j v where e: "e = (i, j, v)"
    by (cases e)
  have bounds: "i < length cs" "j < m" "i < 2 ^ 31" "j < 2 ^ 31" "length (cs ! i) = m"
    using Cons.prems e by auto
  let ?cs = "cs[i := (cs ! i)[j := v]]"
  have rest: "deserialize_loop ?cs (concat (map entry_bytes es)) (12 * length es) = Some (store_all ?cs es)"
  proof (rule Cons.IH)
    show "\<forall>(i, j, v) \<in> set es. i < length ?cs \<and> j < m \<and> i < 2 ^ 31 \<and> j < 2 ^ 31"
      using Cons.prems(1) by auto
    show "\<forall>c \<in> set ?cs. length c = m"
      using Cons.prems(2) bounds by (auto dest!: set_update_subset_insert [THEN subsetD])
  qed
  have "store cs (int i) (int j) v = Some ?cs"
    using bounds by (simp add: store_def)
  then show ?case
    using rest bounds
    by (simp add: deserialize_loop.simps [of cs] e entry_bytes_triple sint_of_nat)
qed (simp add: deserialize_loop.simps)

lemma store_all_spec:
  assumes "\<forall>(i, j, v) \<in> set es. i < length cs \<and> j < m \<and> v = src ! i ! j"
    and "\<forall>c \<in> set cs. length c = m" and "a < length cs" and "b < m"
  shows "store_all cs es ! a ! b = (if (a, b, src ! a ! b) \<in> set es then src ! a ! b else cs ! a ! b)"
    and "length (store_all cs es) = length cs" and "\<forall>c \<in> set (store_all cs es). length c = m"
proof -
  have "store_all cs es ! a ! b = (if (a, b, src ! a ! b) \<in> set es then src ! a ! b else cs ! a ! b) \<and>
    length (store_all cs es) = length cs \<and> (\<forall>c \<in> set (store_all cs es). length c = m)"
    using assms
  proof (induction es arbitrary: cs)
    case (Cons e es)
    obtain i j v where e: "e = (i, j, v)"
      by (cases e)
    let ?cs = "cs[i := (cs ! i)[j := v]]"
    have v: "v = src ! i ! j" and i: "i < length cs" "j < m" "length (cs ! i) = m"
      using Cons.prems e by auto
    have "\<forall>c \<in> set ?cs. length c = m"
      using Cons.prems(2) i by (auto dest!: set_update_subset_insert [THEN subsetD])
    then have "store_all ?cs es ! a ! b =
        (if (a, b, src ! a ! b) \<in> set es then src ! a ! b else ?cs ! a ! b) \<and>
      length (store_all ?cs es) = length ?cs \<and> (\<forall>c \<in> set (store_all ?cs es). length c = m)"
      using Cons.prems by (intro Cons.IH) auto
    then show ?case
      using e v i by (auto simp: nth_list_update)
  qed simp
  then show "store_all cs es ! a ! b = (if (a, b, src ! a ! b) \<in> set es then src ! a ! b else cs ! a ! b)"
    and "length (store_all cs es) = length cs" and "\<forall>c \<in> set (store_all cs es). length c = m"
    by blast+
qed

lemma length_entries: "length (entries cs n m) \<le> n * m"
proof (induction n)
  case (Suc n)
  have "length (concat (map (\<lambda>j. if cs ! n ! j \<noteq> 0 then [(n, j, cs ! n ! j)] else []) [0..<k])) \<le> k" for k
    by (induction k) auto
  then have "length (entries cs (Suc n) m) \<le> length (entries cs n m) + m"
    by (simp add: entries_def)
  with Suc show ?case
    by simp
qed (simp add: entries_def)

text \<open>The entries that are written, and what the two directions do with them.\<close>

abbreviation skl_entries :: "SketchLearn \<Rightarrow> (nat \<times> nat \<times> u32) list" where
  "skl_entries src \<equiv> entries (counts src) (depth src * width src) (1 + lgn src * 2)"

abbreviation serial_len :: "SketchLearn \<Rightarrow> u32" where
  "serial_len src \<equiv> of_nat (4 + 12 * length (skl_entries src))"

abbreviation serial_image :: "SketchLearn \<Rightarrow> u8 list" where
  "serial_image src \<equiv> le32 (serial_len src) @ concat (map entry_bytes (skl_entries src))"

lemma serial_total: "4 + 12 * length (skl_entries src) \<le> SKL_SerialSize src"
  using length_entries [of "counts src" "depth src * width src" "1 + lgn src * 2"]
  by (simp add: SKL_SerialSize_def algebra_simps)

lemma serialize_Some:
  "skl_ok src \<Longrightarrow> SKL_Serialize src (SKL_SerialSize src) = Some (serial_image src, serial_len src)"
  using serial_total [of src] by (simp add: SKL_Serialize_def skl_ok_def list_all_iff Let_def mult.commute)

lemma serial_small:
  assumes "SKL_SerialSize src < 2 ^ 31"
  shows "depth src * width src < 2 ^ 31" "1 + lgn src * 2 < 2 ^ 31 \<or> depth src * width src = 0"
proof -
  let ?n = "depth src * width src" and ?m = "1 + lgn src * 2"
  have "?n * ?m < 2 ^ 31"
    using assms by (simp add: SKL_SerialSize_def algebra_simps)
  then show "?n < 2 ^ 31" "?m < 2 ^ 31 \<or> ?n = 0"
    using mult_le_mono [of 1 ?m ?n ?n] mult_le_mono [of 1 ?n ?m ?m] by (simp_all add: algebra_simps) linarith+
qed

lemma deserialize_Some:
  assumes "skl_ok dst" and "same_shape src dst" and "SKL_SerialSize src < 2 ^ 31"
  shows "SKL_Deserialize dst (serial_image src) =
    Some (dst\<lparr>counts := store_all (counts dst) (skl_entries src)\<rparr>, serial_len src)"
proof -
  have len: "length (counts dst) = depth src * width src" "\<forall>c \<in> set (counts dst). length c = 1 + lgn src * 2"
    using assms(1) same_shape_simps [OF assms(2)] by (simp_all add: skl_ok_def mult.commute)
  have "unat (serial_len src) = 4 + 12 * length (skl_entries src)"
    using serial_total [of src] assms(3) by (intro unat_of_nat_u32) linarith
  moreover have "\<forall>(i, j, v) \<in> set (skl_entries src).
      i < length (counts dst) \<and> j < 1 + lgn src * 2 \<and> i < 2 ^ 31 \<and> j < 2 ^ 31"
    using len(1) serial_small [OF assms(3)] by (auto simp: set_entries)
  ultimately show ?thesis
    using deserialize_entries [OF _ len(2), of "skl_entries src"] by (simp add: SKL_Deserialize_def Let_def)
qed

lemma stored_spec:
  assumes "skl_ok src" and "skl_ok dst" and "same_shape src dst"
  defines "s \<equiv> dst\<lparr>counts := store_all (counts dst) (skl_entries src)\<rparr>"
  shows "skl_ok s"
    and "i < depth src \<Longrightarrow> j < width src \<Longrightarrow> k \<le> 2 * lgn src \<Longrightarrow>
      cnt s i j k = (if cnt src i j k \<noteq> 0 then cnt src i j k else cnt dst i j k)"
proof -
  note shape = same_shape_simps [OF assms(3)]
  have len: "length (counts dst) = depth src * width src" "\<forall>c \<in> set (counts dst). length c = 1 + lgn src * 2"
    using assms(2) shape by (simp_all add: skl_ok_def mult.commute)
  have src: "\<forall>(i, j, v) \<in> set (skl_entries src).
      i < length (counts dst) \<and> j < 1 + lgn src * 2 \<and> v = counts src ! i ! j"
    using len(1) by (auto simp: set_entries)
  note spec = store_all_spec [OF src len(2)]
  show "skl_ok s"
  proof (cases "counts dst = []")
    case True
    then have "skl_entries src = []"
      using src by (cases "skl_entries src") auto
    then show ?thesis
      using assms(2) by (simp add: s_def)
  next
    case False
    then show ?thesis
      using spec(2,3) [of 0 0] assms(2) shape by (simp add: skl_ok_def s_def)
  qed
  assume k: "i < depth src" "j < width src" "k \<le> 2 * lgn src"
  then have "i * width src + j < depth src * width src"
    using index_less [OF k(1,2)] by (simp add: mult.commute)
  then show "cnt s i j k = (if cnt src i j k \<noteq> 0 then cnt src i j k else cnt dst i j k)"
    using spec(1) [of "i * width src + j" k] k(3) len(1) by (auto simp: s_def cnt_def shape set_entries)
qed

text \<open>
  Claim C16. Deserialising what \<^verbatim>\<open>SKL_Serialize\<close> wrote into a buffer of \<^verbatim>\<open>SKL_SerialSize\<close> bytes succeeds
  and gives the target every counter of the source that is not 0; the target keeps its own value where
  the source has 0.  In particular a target that was reset becomes the source.
\<close>

theorem SKL_serialize_roundtrip:
  assumes "skl_ok src" and "skl_ok dst" and "same_shape src dst" and "SKL_SerialSize src < 2 ^ 31"
  shows "\<exists>buf len s. SKL_Serialize src (SKL_SerialSize src) = Some (buf, len) \<and>
     SKL_Deserialize dst buf = Some (s, len) \<and> skl_ok s \<and> same_shape src s \<and>
     (\<forall>i j k. i < depth src \<and> j < width src \<and> k \<le> 2 * lgn src \<longrightarrow>
        cnt s i j k = (if cnt src i j k \<noteq> 0 then cnt src i j k else cnt dst i j k))"
proof -
  have "same_shape src (dst\<lparr>counts := store_all (counts dst) (skl_entries src)\<rparr>)"
    using assms(3) same_shape_counts by (rule same_shape_trans)
  then show ?thesis
    using serialize_Some [OF assms(1)] deserialize_Some [OF assms(2-4)] stored_spec [OF assms(1-3)] by blast
qed

theorem SKL_serialize_roundtrip_witness:
  "\<exists>buf len s. SKL_Serialize (small_skl\<lparr>counts := replicate 6 (replicate 17 9)\<rparr>) (SKL_SerialSize small_skl) =
       Some (buf, len) \<and> SKL_Deserialize small_skl buf = Some (s, len)"
proof -
  let ?src = "small_skl\<lparr>counts := replicate 6 (replicate 17 9)\<rparr>"
  have "skl_ok ?src" "same_shape ?src small_skl" "SKL_SerialSize ?src < 2 ^ 31"
    by (simp_all add: skl_ok_def small_skl_def same_shape_def SKL_SerialSize_def)
  from SKL_serialize_roundtrip [OF this(1) small_skl_ok this(2,3)] show ?thesis
    by (auto simp: SKL_SerialSize_def)
qed

end
