(* ===== verification/Floats.thy ===== *)
theory Floats
  imports Prelude Complex_Main
begin

text \<open>
  Floating-point numbers.  The type \<^verbatim>\<open>double\<close> and its operations are a parameter of the definitions
  that use them: a record of the operations on some type \<open>'f\<close>.  The theorems hold for every such record,
  so for the rounding arithmetic of the machine as well; where the code relies on a comparison of
  constants, \<open>float_consts\<close> states it.  \<open>rat_ops\<close>, exact arithmetic on the rationals, is the instance that
  examples compute with.  A conversion to \<^verbatim>\<open>int32_t\<close> is undefined (\<open>None\<close>) when the value does not fit.
  A decimal literal is written as a quotient of integers, which IEEE division rounds to the literal.
\<close>

record 'f float_ops =
  f_of_int :: "int \<Rightarrow> 'f"
  f_add :: "'f \<Rightarrow> 'f \<Rightarrow> 'f"
  f_sub :: "'f \<Rightarrow> 'f \<Rightarrow> 'f"
  f_mul :: "'f \<Rightarrow> 'f \<Rightarrow> 'f"
  f_div :: "'f \<Rightarrow> 'f \<Rightarrow> 'f"
  f_less :: "'f \<Rightarrow> 'f \<Rightarrow> bool"
  f_le :: "'f \<Rightarrow> 'f \<Rightarrow> bool"
  f_eq :: "'f \<Rightarrow> 'f \<Rightarrow> bool"
  f_sqrt :: "'f \<Rightarrow> 'f"
  f_fabs :: "'f \<Rightarrow> 'f"
  f_erf :: "'f \<Rightarrow> 'f"
  f_to_int :: "'f \<Rightarrow> int option"

text \<open>\<^verbatim>\<open>0.0 == 0.0\<close>, \<^verbatim>\<open>-1.0 == -1.0\<close> and \<^verbatim>\<open>-1.0 != 0.0\<close>.\<close>

definition float_consts :: "'f float_ops \<Rightarrow> bool" where
  "float_consts F \<longleftrightarrow>
     f_eq F (f_of_int F 0) (f_of_int F 0) \<and> f_eq F (f_of_int F (-1)) (f_of_int F (-1)) \<and>
     \<not> f_eq F (f_of_int F (-1)) (f_of_int F 0)"

definition rat_ops :: "rat float_ops" where
  "rat_ops =
     \<lparr>f_of_int = of_int, f_add = (+), f_sub = (-), f_mul = (*), f_div = (/), f_less = (<), f_le = (\<le>),
      f_eq = (=), f_sqrt = (\<lambda>x. x), f_fabs = abs, f_erf = (\<lambda>x. x),
      f_to_int = (\<lambda>x. if \<bar>x\<bar> < 2 ^ 31 then Some (if x < 0 then - \<lfloor>- x\<rfloor> else \<lfloor>x\<rfloor>) else None)\<rparr>"

lemma float_consts_rat [simp]: "float_consts rat_ops"
  by (simp add: float_consts_def rat_ops_def)

end
