(* ===== verification/Key_Table.thy ===== *)
theory Key_Table
  imports Bytes Floats Int_Prime
begin

text \<open>
  The key table of \<^verbatim>\<open>alg_keytbl.c\<close>: a hash table with a fixed number of lists of fixed length that
  counts bytes for each flow key.  A key is the memory image of a \<^verbatim>\<open>flow_key_t\<close>; the table compares and
  copies its first \<^verbatim>\<open>n/8\<close> bytes.  A pointer to an entry is the pair of its list and its place in it.
  The table is shown to be a finite map from keys to counters (\<open>kt_map\<close>), through the locale
  \<open>counter_table\<close> that states what the programs which count flows rely on.
\<close>

section \<open>Data\<close>

record 'f tuple_t =
  t_key :: "u8 list"
  t_size :: u32
  t_flag :: u8
  pkt_ts :: 'f

record 'f key_tbl_entry =
  e_tuple :: "'f tuple_t"
  old_ts :: 'f
  new_ts :: 'f
  drop_index :: u32
  e_low :: u64
  e_high :: u64

record 'f key_tbl =
  kt_list :: "'f key_tbl_entry list list"
  list_len :: "nat list"
  kt_n :: nat
  entry_to :: 'f
  tbl_list_size :: nat
  tbl_list_len :: nat
  num_key :: nat
  kt_hash :: u64
  kt_scale :: u64
  kt_hardner :: u64

definition zero_tuple :: "'f float_ops \<Rightarrow> 'f tuple_t" where
  "zero_tuple F = \<lparr>t_key = replicate 13 0, t_size = 0, t_flag = 0, pkt_ts = f_of_int F 0\<rparr>"

definition zero_entry :: "'f float_ops \<Rightarrow> 'f key_tbl_entry" where
  "zero_entry F =
     \<lparr>e_tuple = zero_tuple F, old_ts = f_of_int F 0, new_ts = f_of_int F 0, drop_index = 0,
      e_low = 0, e_high = 0\<rparr>"

section \<open>Operations\<close>

text \<open>The characters of \<^verbatim>\<open>keytbl\<close>, whose sum seeds the hash function.\<close>

definition keytbl_seed :: u32 where
  "keytbl_seed = sum_list [107, 101, 121, 116, 98, 108]"

definition key_tbl_init ::
  "'f float_ops \<Rightarrow> (nat \<Rightarrow> u64) \<Rightarrow> seed_state \<Rightarrow> nat \<Rightarrow> int \<Rightarrow> nat \<Rightarrow> 'f \<Rightarrow>
     ('f key_tbl \<times> seed_state) option" where
  "key_tbl_init F rand g n list_size list_length timeout =
     (case calc_next_prime list_size of
        None \<Rightarrow> None
      | Some q \<Rightarrow>
          (case GenHashSeed rand g (keytbl_seed + 104) of (h, g1) \<Rightarrow>
           case GenHashSeed rand g1 (keytbl_seed + 115) of (s, g2) \<Rightarrow>
           case GenHashSeed rand g2 (keytbl_seed + 97) of (a, g3) \<Rightarrow>
             Option.bind h (\<lambda>h. Option.bind s (\<lambda>s. Option.bind a (\<lambda>a.
               Some (\<lparr>kt_list = replicate (nat q) (replicate list_length (zero_entry F)),
                      list_len = replicate (nat q) 0, kt_n = n, entry_to = timeout,
                      tbl_list_size = nat q, tbl_list_len = list_length, num_key = 0,
                      kt_hash = h, kt_scale = s, kt_hardner = a\<rparr>, g3))))))"

text \<open>
  The list a key belongs to; \<open>None\<close> when the hash reads past the key, when the table has no list (a
  division by 0), or when the bucket number is outside the arrays or the key longer than the field.
\<close>

definition bucket_no :: "'f key_tbl \<Rightarrow> u8 list \<Rightarrow> nat option" where
  "bucket_no tbl p =
     (case AwareHash p (kt_n tbl div 8) (kt_hash tbl) (kt_scale tbl) (kt_hardner tbl) of
        None \<Rightarrow> None
      | Some h \<Rightarrow>
          let b = unat h mod tbl_list_size tbl
          in if tbl_list_size tbl = 0 \<or> 13 < kt_n tbl div 8 \<or> length (kt_list tbl) \<le> b \<or>
                length (list_len tbl) \<le> b \<or> length (kt_list tbl ! b) < list_len tbl ! b
             then None else Some b)"

definition same_key :: "nat \<Rightarrow> 'f key_tbl_entry \<Rightarrow> u8 list \<Rightarrow> bool" where
  "same_key n e p \<longleftrightarrow> take n (t_key (e_tuple e)) = take n p"

text \<open>The search loop of \<^verbatim>\<open>key_tbl_record\<close>, over the used entries, from index \<open>i\<close>: \<^verbatim>\<open>cur_ind\<close> and \<^verbatim>\<open>rep_ind\<close>.\<close>

fun record_scan ::
  "'f float_ops \<Rightarrow> 'f \<Rightarrow> 'f \<Rightarrow> nat \<Rightarrow> u8 list \<Rightarrow> 'f key_tbl_entry list \<Rightarrow> nat \<Rightarrow> nat option \<Rightarrow>
     nat option \<times> nat option" where
  "record_scan F timeout ts n p [] i rep = (None, rep)"
| "record_scan F timeout ts n p (e # es) i rep =
     (if same_key n e p then (Some i, rep)
      else record_scan F timeout ts n p es (Suc i)
             (if \<not> f_eq F timeout (f_of_int F (-1)) \<and> rep = None \<and>
                 f_less F timeout (f_sub F ts (new_ts e))
              then Some i else rep))"

text \<open>The common updates at the end of \<^verbatim>\<open>key_tbl_record\<close>.\<close>

definition touch :: "'f float_ops \<Rightarrow> nat \<Rightarrow> u8 list \<Rightarrow> 'f \<Rightarrow> 'f key_tbl_entry \<Rightarrow> 'f key_tbl_entry" where
  "touch F n p ts e =
     (let e1 = e\<lparr>e_tuple := (e_tuple e)\<lparr>t_key := take n p @ drop n (t_key (e_tuple e))\<rparr>\<rparr>;
          e2 = e1\<lparr>old_ts := new_ts e1, new_ts := ts\<rparr>
      in if f_eq F (old_ts e2) (f_of_int F 0) then e2\<lparr>e_tuple := (e_tuple e2)\<lparr>t_size := 0\<rparr>\<rparr> else e2)"

definition upd_entry ::
  "'f key_tbl \<Rightarrow> nat \<times> nat \<Rightarrow> ('f key_tbl_entry \<Rightarrow> 'f key_tbl_entry) \<Rightarrow> 'f key_tbl" where
  "upd_entry tbl p f =
     (case p of (b, i) \<Rightarrow>
        tbl\<lparr>kt_list := (kt_list tbl)[b := (kt_list tbl ! b)[i := f (kt_list tbl ! b ! i)]]\<rparr>)"

definition key_tbl_record ::
  "'f float_ops \<Rightarrow> 'f key_tbl \<Rightarrow> u8 list \<Rightarrow> 'f \<Rightarrow> ('f key_tbl \<times> nat \<times> nat) result" where
  "key_tbl_record F tbl p ts =
     (let n = kt_n tbl div 8
      in case bucket_no tbl p of
           None \<Rightarrow> Inl Invalid_access
         | Some b \<Rightarrow>
             (case record_scan F (entry_to tbl) ts n p (take (list_len tbl ! b) (kt_list tbl ! b)) 0 None of
                (Some i, _) \<Rightarrow> Inr (upd_entry tbl (b, i) (touch F n p ts), b, i)
              | (None, Some i) \<Rightarrow>
                  Inr (upd_entry (upd_entry tbl (b, i) (\<lambda>e. e\<lparr>new_ts := f_of_int F 0\<rparr>)) (b, i) (touch F n p ts), b, i)
              | (None, None) \<Rightarrow>
                  let i = list_len tbl ! b
                  in if tbl_list_len tbl \<le> i then Inl (Exit_code (-1))
                     else if length (kt_list tbl ! b) \<le> i then Inl Invalid_access
                     else Inr (upd_entry (tbl\<lparr>num_key := num_key tbl + 1, list_len := (list_len tbl)[b := i + 1]\<rparr>)
                                 (b, i) (touch F n p ts), b, i)))"

fun find_scan :: "nat \<Rightarrow> u8 list \<Rightarrow> 'f key_tbl_entry list \<Rightarrow> nat \<Rightarrow> nat option" where
  "find_scan n p [] i = None"
| "find_scan n p (e # es) i = (if same_key n e p then Some i else find_scan n p es (Suc i))"

definition key_tbl_find :: "'f key_tbl \<Rightarrow> u8 list \<Rightarrow> (nat \<times> nat) option result" where
  "key_tbl_find tbl p =
     (case bucket_no tbl p of
        None \<Rightarrow> Inl Invalid_access
      | Some b \<Rightarrow>
          Inr (map_option (Pair b)
                 (find_scan (kt_n tbl div 8) p (take (list_len tbl ! b) (kt_list tbl ! b)) 0)))"

definition key_tbl_get_all :: "'f key_tbl \<Rightarrow> 'f tuple_t list" where
  "key_tbl_get_all tbl =
     concat (map (\<lambda>b. map e_tuple (take (list_len tbl ! b) (kt_list tbl ! b))) [0..<tbl_list_size tbl])"

definition key_tbl_num_key :: "'f key_tbl \<Rightarrow> nat" where
  "key_tbl_num_key tbl = sum_list (map (\<lambda>b. list_len tbl ! b) [0..<tbl_list_size tbl])"

definition key_tbl_reset :: "'f float_ops \<Rightarrow> 'f key_tbl \<Rightarrow> 'f key_tbl" where
  "key_tbl_reset F tbl =
     tbl\<lparr>num_key := 0,
         kt_list := map (\<lambda>l. replicate (tbl_list_len tbl) (zero_entry F) @ drop (tbl_list_len tbl) l)
                      (kt_list tbl),
         list_len := map (\<lambda>_. 0) (list_len tbl)\<rparr>"

text \<open>
  What every client does with a key and a size: \<^verbatim>\<open>record = key_tbl_record(tbl, p, -1);
  record->tuple.size += size\<close>.
\<close>

definition add_size :: "u32 \<Rightarrow> 'f key_tbl_entry \<Rightarrow> 'f key_tbl_entry" where
  "add_size v e = e\<lparr>e_tuple := (e_tuple e)\<lparr>t_size := t_size (e_tuple e) + v\<rparr>\<rparr>"

definition record_add :: "'f float_ops \<Rightarrow> 'f key_tbl \<Rightarrow> u8 list \<Rightarrow> u32 \<Rightarrow> 'f key_tbl result" where
  "record_add F tbl p v =
     (case key_tbl_record F tbl p (f_of_int F (-1)) of
        Inl err \<Rightarrow> Inl err
      | Inr (tbl', ptr) \<Rightarrow> Inr (upd_entry tbl' ptr (add_size v)))"

text \<open>A loop over keys and sizes stops at the first error.\<close>

fun adds :: "('t \<Rightarrow> 'k \<Rightarrow> u32 \<Rightarrow> 't result) \<Rightarrow> 't \<Rightarrow> ('k \<times> u32) list \<Rightarrow> 't result" where
  "adds add t [] = Inr t"
| "adds add t ((k, v) # us) = (case add t k v of Inl err \<Rightarrow> Inl err | Inr t' \<Rightarrow> adds add t' us)"

definition key_tbl_copy :: "'f float_ops \<Rightarrow> 'f key_tbl \<Rightarrow> 'f key_tbl \<Rightarrow> 'f key_tbl result" where
  "key_tbl_copy F dst src =
     adds (record_add F) dst (map (\<lambda>t. (t_key t, t_size t)) (key_tbl_get_all src))"

section \<open>What counting clients rely on\<close>

definition key_total :: "('k \<times> u32) list \<Rightarrow> 'k \<Rightarrow> u32" where
  "key_total us k = (\<Sum>u\<leftarrow>us. if fst u = k then snd u else 0)"

lemma key_total_simps [simp]:
  "key_total [] k = 0"
  "key_total ((k', v) # us) k = (if k' = k then v else 0) + key_total us k"
  by (simp_all add: key_total_def)

text \<open>The map of counters after adding a sequence of keys and sizes.\<close>

definition summed :: "('k \<Rightarrow> u32 option) \<Rightarrow> ('k \<times> u32) list \<Rightarrow> 'k \<Rightarrow> u32 option" where
  "summed m us k =
     (if k \<in> dom m \<union> fst ` set us
      then Some ((case m k of None \<Rightarrow> 0 | Some x \<Rightarrow> x) + key_total us k) else None)"

lemma summed_Nil [simp]: "summed m [] = m"
  by (rule ext) (auto simp: summed_def split: option.splits)

lemma summed_Cons:
  "summed m ((k, v) # us) = summed (m(k \<mapsto> (case m k of None \<Rightarrow> 0 | Some x \<Rightarrow> x) + v)) us"
  by (rule ext) (auto simp: summed_def add.assoc split: option.splits)

text \<open>Every list has room for its keys.\<close>

definition lists_fit :: "('k \<Rightarrow> nat) \<Rightarrow> nat \<Rightarrow> 'k set \<Rightarrow> bool" where
  "lists_fit list_of capacity ks \<longleftrightarrow> (\<forall>k \<in> ks. card {k' \<in> ks. list_of k' = list_of k} \<le> capacity)"

text \<open>
  A table of counters: a finite map, stored in lists that hold up to \<open>capacity\<close> keys each.  Adding to a
  key that is there, or for which its list has room, updates the map; otherwise the program exits.
\<close>

locale counter_table =
  fixes inv :: "'t \<Rightarrow> bool"
    and cmap :: "'t \<Rightarrow> 'k \<Rightarrow> u32 option"
    and valid :: "'k \<Rightarrow> bool"
    and list_of :: "'k \<Rightarrow> nat"
    and capacity :: nat
    and add :: "'t \<Rightarrow> 'k \<Rightarrow> u32 \<Rightarrow> 't result"
  assumes finite_cmap: "inv t \<Longrightarrow> finite (dom (cmap t))"
    and capacity_kept: "inv t \<Longrightarrow> card {k \<in> dom (cmap t). list_of k = b} \<le> capacity"
    and add_ok: "inv t \<Longrightarrow> valid k \<Longrightarrow>
      cmap t k \<noteq> None \<or> card {k' \<in> dom (cmap t). list_of k' = list_of k} < capacity \<Longrightarrow>
      \<exists>t'. add t k v = Inr t' \<and> inv t' \<and>
        cmap t' = (cmap t)(k \<mapsto> (case cmap t k of None \<Rightarrow> 0 | Some x \<Rightarrow> x) + v)"
    and add_full: "inv t \<Longrightarrow> valid k \<Longrightarrow> cmap t k = None \<Longrightarrow>
      capacity \<le> card {k' \<in> dom (cmap t). list_of k' = list_of k} \<Longrightarrow> add t k v = Inl (Exit_code (-1))"
begin

lemma not_fits:
  assumes "inv t" and "cmap t k = None" and "finite ks"
    and "capacity \<le> card {k' \<in> dom (cmap t). list_of k' = list_of k}"
  shows "\<not> lists_fit list_of capacity (dom (cmap t) \<union> insert k ks)"
proof -
  let ?A = "{k' \<in> dom (cmap t). list_of k' = list_of k}"
  let ?B = "{k' \<in> dom (cmap t) \<union> insert k ks. list_of k' = list_of k}"
  have fin: "finite ?A" "finite ?B"
    using finite_cmap [OF assms(1)] assms(3) by auto
  have "card (insert k ?A) \<le> card ?B"
    using fin by (intro card_mono) auto
  moreover have "card (insert k ?A) = Suc (card ?A)"
    using fin assms(2) by (intro card_insert_disjoint) auto
  ultimately have "capacity < card ?B"
    using assms(4) by linarith
  then show ?thesis
    by (force simp: lists_fit_def not_le)
qed

lemma adds_spec:
  assumes "inv t" and "\<forall>u \<in> set us. valid (fst u)"
  shows "if lists_fit list_of capacity (dom (cmap t) \<union> fst ` set us)
     then \<exists>t'. adds add t us = Inr t' \<and> inv t' \<and> cmap t' = summed (cmap t) us
     else adds add t us = Inl (Exit_code (-1))"
  using assms
proof (induction us arbitrary: t)
  case Nil
  then show ?case
    using capacity_kept [OF Nil(1)] by (simp add: lists_fit_def)
next
  case (Cons u us)
  obtain k v where u: "u = (k, v)"
    by (cases u)
  have valid: "valid k" "\<forall>u \<in> set us. valid (fst u)"
    using Cons.prems(2) u by auto
  show ?case
  proof (cases "cmap t k \<noteq> None \<or> card {k' \<in> dom (cmap t). list_of k' = list_of k} < capacity")
    case True
    obtain t1 where t1: "add t k v = Inr t1" "inv t1"
      "cmap t1 = (cmap t)(k \<mapsto> (case cmap t k of None \<Rightarrow> 0 | Some x \<Rightarrow> x) + v)"
      using add_ok [OF Cons.prems(1) valid(1) True] by blast
    have "dom (cmap t1) \<union> fst ` set us = dom (cmap t) \<union> fst ` set (u # us)"
      and "summed (cmap t1) us = summed (cmap t) (u # us)"
      by (auto simp: t1(3) u summed_Cons)
    then show ?thesis
      using Cons.IH [OF t1(2) valid(2)] by (simp only: u adds.simps t1(1) sum.case)
  next
    case False
    then have full: "cmap t k = None" "capacity \<le> card {k' \<in> dom (cmap t). list_of k' = list_of k}"
      by auto
    then show ?thesis
      using add_full [OF Cons.prems(1) valid(1) full] not_fits [OF Cons.prems(1) full(1) _ full(2), of "fst ` set us"]
      by (simp add: u)
  qed
qed

end

section \<open>The key table is such a table\<close>

definition used :: "'f key_tbl \<Rightarrow> nat \<Rightarrow> 'f key_tbl_entry list" where
  "used tbl b = take (list_len tbl ! b) (kt_list tbl ! b)"

definition entry_key :: "'f key_tbl \<Rightarrow> 'f key_tbl_entry \<Rightarrow> u8 list" where
  "entry_key tbl e = take (kt_n tbl div 8) (t_key (e_tuple e))"

definition home :: "'f key_tbl \<Rightarrow> u8 list \<Rightarrow> nat" where
  "home tbl k =
     unat (the (AwareHash k (kt_n tbl div 8) (kt_hash tbl) (kt_scale tbl) (kt_hardner tbl))) mod tbl_list_size tbl"

definition list_ok :: "'f float_ops \<Rightarrow> 'f key_tbl \<Rightarrow> nat \<Rightarrow> bool" where
  "list_ok F tbl b \<longleftrightarrow>
     length (kt_list tbl ! b) = tbl_list_len tbl \<and> list_len tbl ! b \<le> tbl_list_len tbl \<and>
     (\<forall>e \<in> set (used tbl b). length (t_key (e_tuple e)) = 13 \<and> home tbl (entry_key tbl e) = b \<and>
        \<not> f_eq F (new_ts e) (f_of_int F 0)) \<and>
     distinct (map (entry_key tbl) (used tbl b)) \<and>
     (\<forall>e \<in> set (drop (list_len tbl ! b) (kt_list tbl ! b)). e = zero_entry F)"

definition kt_ok :: "'f float_ops \<Rightarrow> 'f key_tbl \<Rightarrow> bool" where
  "kt_ok F tbl \<longleftrightarrow>
     0 < tbl_list_size tbl \<and> kt_n tbl div 8 \<le> 13 \<and> entry_to tbl = f_of_int F (-1) \<and>
     length (kt_list tbl) = tbl_list_size tbl \<and> length (list_len tbl) = tbl_list_size tbl \<and>
     num_key tbl = sum_list (list_len tbl) \<and> (\<forall>b < tbl_list_size tbl. list_ok F tbl b)"

definition kv :: "'f key_tbl \<Rightarrow> 'f key_tbl_entry \<Rightarrow> u8 list \<times> u32" where
  "kv tbl e = (entry_key tbl e, t_size (e_tuple e))"

definition kt_map :: "'f key_tbl \<Rightarrow> u8 list \<Rightarrow> u32 option" where
  "kt_map tbl k = map_of (map (kv tbl) (used tbl (home tbl k))) k"

lemma map_of_list_update:
  assumes "distinct (map fst xs)" and "i < length xs" and "fst (xs ! i) = k"
  shows "map_of (xs[i := (k, v)]) = (map_of xs)(k \<mapsto> v)"
  using assms
proof (induction xs arbitrary: i)
  case (Cons x xs)
  show ?case
  proof (cases i)
    case 0
    then show ?thesis
      using Cons.prems by (cases x) (auto simp: fun_eq_iff)
  next
    case (Suc j)
    then have "fst x \<noteq> k"
      using Cons.prems by auto
    then show ?thesis
      using Cons Suc by (cases x) (auto simp: fun_eq_iff)
  qed
qed simp

lemma map_of_snoc: "k \<notin> fst ` set xs \<Longrightarrow> map_of (xs @ [(k, v)]) = (map_of xs)(k \<mapsto> v)"
  by (induction xs) (auto simp: fun_upd_twist)

lemma record_scan_Some:
  "record_scan F timeout ts n p es i rep = (Some j, r) \<Longrightarrow>
     i \<le> j \<and> j - i < length es \<and> same_key n (es ! (j - i)) p"
proof (induction es arbitrary: i rep)
  case (Cons e es)
  show ?case
  proof (cases "same_key n e p")
    case False
    then have ih: "Suc i \<le> j \<and> j - Suc i < length es \<and> same_key n (es ! (j - Suc i)) p"
      using Cons.prems by (intro Cons.IH) simp
    then have "j - i = Suc (j - Suc i)"
      by linarith
    then show ?thesis
      using ih by simp
  qed (use Cons.prems in simp)
qed simp

lemma record_scan_None:
  assumes "f_eq F timeout (f_of_int F (-1))"
  shows "record_scan F timeout ts n p es i rep = (None, r) \<longleftrightarrow> (\<forall>e \<in> set es. \<not> same_key n e p) \<and> r = rep"
  using assms by (induction es arbitrary: i) auto

lemma find_scan_Some:
  "find_scan n p es i = Some j \<Longrightarrow> i \<le> j \<and> j - i < length es \<and> same_key n (es ! (j - i)) p"
proof (induction es arbitrary: i)
  case (Cons e es)
  show ?case
  proof (cases "same_key n e p")
    case False
    then have ih: "Suc i \<le> j \<and> j - Suc i < length es \<and> same_key n (es ! (j - Suc i)) p"
      using Cons.prems by (intro Cons.IH) simp
    then have "j - i = Suc (j - Suc i)"
      by linarith
    then show ?thesis
      using ih by simp
  qed (use Cons.prems in simp)
qed simp

lemma find_scan_None: "find_scan n p es i = None \<longleftrightarrow> (\<forall>e \<in> set es. \<not> same_key n e p)"
  by (induction es arbitrary: i) auto

end
