(* ===== verification/Key_Table_Correct.thy ===== *)
theory Key_Table_Correct
  imports Key_Table
begin

text \<open>
  The key table of \<^verbatim>\<open>alg_keytbl.c\<close> implements the counter table that its clients rely on: its operations
  keep the invariant \<open>kt_ok\<close> and act on the map \<open>kt_map\<close> as the laws of the locale say.
\<close>

section \<open>Finding a list\<close>

lemma bucket_no_home:
  assumes "kt_ok F tbl" and "kt_n tbl div 8 \<le> length p"
  shows "bucket_no tbl p = Some (home tbl p)" and "home tbl p < tbl_list_size tbl"
proof -
  show less: "home tbl p < tbl_list_size tbl"
    using assms(1) by (simp add: home_def kt_ok_def)
  obtain h where "AwareHash p (kt_n tbl div 8) (kt_hash tbl) (kt_scale tbl) (kt_hardner tbl) = Some h"
    using AwareHash_Some [OF assms(2)] by blast
  then show "bucket_no tbl p = Some (home tbl p)"
    using assms(1) less by (auto simp: bucket_no_def home_def Let_def kt_ok_def list_ok_def)
qed

lemma home_take [simp]: "home tbl (take (kt_n tbl div 8) p) = home tbl p"
  by (simp add: home_def AwareHash_take)

lemma list_okD:
  assumes "kt_ok F tbl" and "b < tbl_list_size tbl"
  shows "length (kt_list tbl ! b) = tbl_list_len tbl" "list_len tbl ! b \<le> tbl_list_len tbl"
    "length (used tbl b) = list_len tbl ! b" "distinct (map (entry_key tbl) (used tbl b))"
    "\<And>e. e \<in> set (used tbl b) \<Longrightarrow> length (t_key (e_tuple e)) = 13 \<and>
       length (entry_key tbl e) = kt_n tbl div 8 \<and> home tbl (entry_key tbl e) = b \<and>
       \<not> f_eq F (new_ts e) (f_of_int F 0)"
    "\<And>i. list_len tbl ! b \<le> i \<Longrightarrow> i < tbl_list_len tbl \<Longrightarrow> kt_list tbl ! b ! i = zero_entry F"
proof -
  have ok: "list_ok F tbl b"
    using assms by (simp add: kt_ok_def)
  then show "length (kt_list tbl ! b) = tbl_list_len tbl" "list_len tbl ! b \<le> tbl_list_len tbl"
    "length (used tbl b) = list_len tbl ! b" "distinct (map (entry_key tbl) (used tbl b))"
    by (simp_all add: list_ok_def used_def)
  show "length (t_key (e_tuple e)) = 13 \<and> length (entry_key tbl e) = kt_n tbl div 8 \<and>
      home tbl (entry_key tbl e) = b \<and> \<not> f_eq F (new_ts e) (f_of_int F 0)" if "e \<in> set (used tbl b)" for e
    using ok assms(1) that by (auto simp: list_ok_def kt_ok_def entry_key_def)
  show "kt_list tbl ! b ! i = zero_entry F" if "list_len tbl ! b \<le> i" "i < tbl_list_len tbl" for i
  proof -
    have "kt_list tbl ! b ! i = drop (list_len tbl ! b) (kt_list tbl ! b) ! (i - list_len tbl ! b)"
      using ok that by (simp add: list_ok_def)
    also have "\<dots> \<in> set (drop (list_len tbl ! b) (kt_list tbl ! b))"
      using ok that by (intro nth_mem) (auto simp: list_ok_def)
    finally show ?thesis
      using ok by (auto simp: list_ok_def)
  qed
qed

section \<open>Replacing one list\<close>

definition put_list :: "'f key_tbl \<Rightarrow> nat \<Rightarrow> 'f key_tbl_entry list \<Rightarrow> nat \<Rightarrow> nat \<Rightarrow> 'f key_tbl" where
  "put_list tbl b es len n =
     tbl\<lparr>kt_list := (kt_list tbl)[b := es], list_len := (list_len tbl)[b := len], num_key := n\<rparr>"

lemma put_list_simps [simp]:
  "home (put_list tbl b es len n) = home tbl" "entry_key (put_list tbl b es len n) = entry_key tbl"
  "kv (put_list tbl b es len n) = kv tbl" "tbl_list_size (put_list tbl b es len n) = tbl_list_size tbl"
  "kt_n (put_list tbl b es len n) = kt_n tbl" "tbl_list_len (put_list tbl b es len n) = tbl_list_len tbl"
  "num_key (put_list tbl b es len n) = n" "list_len (put_list tbl b es len n) = (list_len tbl)[b := len]"
  "entry_to (put_list tbl b es len n) = entry_to tbl" "kt_hash (put_list tbl b es len n) = kt_hash tbl"
  "kt_scale (put_list tbl b es len n) = kt_scale tbl" "kt_hardner (put_list tbl b es len n) = kt_hardner tbl"
  "kt_list (put_list tbl b es len n) = (kt_list tbl)[b := es]"
  by (auto simp: put_list_def home_def entry_key_def kv_def fun_eq_iff)

lemma used_put_list:
  assumes "kt_ok F tbl" and "b < tbl_list_size tbl"
  shows "used (put_list tbl b es len n) c = (if c = b then take len es else used tbl c)"
  using assms by (simp add: used_def put_list_def kt_ok_def)

lemma put_list_ok:
  assumes "kt_ok F tbl" and "b < tbl_list_size tbl" and "n = sum_list ((list_len tbl)[b := len])"
    and "length es = tbl_list_len tbl" and "len \<le> tbl_list_len tbl"
    and "\<And>e. e \<in> set (take len es) \<Longrightarrow> length (t_key (e_tuple e)) = 13 \<and> home tbl (entry_key tbl e) = b \<and>
       \<not> f_eq F (new_ts e) (f_of_int F 0)"
    and "distinct (map (entry_key tbl) (take len es))"
    and "\<And>e. e \<in> set (drop len es) \<Longrightarrow> e = zero_entry F"
  shows "kt_ok F (put_list tbl b es len n)"
    and "home tbl p = b \<Longrightarrow> map_of (map (kv tbl) (take len es)) = (map_of (map (kv tbl) (used tbl b)))(p \<mapsto> w) \<Longrightarrow>
      kt_map (put_list tbl b es len n) = (kt_map tbl)(p \<mapsto> w)"
proof -
  note used = used_put_list [OF assms(1,2), of es len n]
  have "list_ok F (put_list tbl b es len n) c" if "c < tbl_list_size tbl" for c
  proof (cases "c = b")
    case True
    have "length (kt_list tbl) = tbl_list_size tbl" "length (list_len tbl) = tbl_list_size tbl"
      using assms(1) by (simp_all add: kt_ok_def)
    then show ?thesis
      using assms(2,4-8) by (auto simp: True list_ok_def used)
  next
    case False
    then show ?thesis
      using assms(1) that by (auto simp: list_ok_def used kt_ok_def)
  qed
  then show "kt_ok F (put_list tbl b es len n)"
    using assms(1,3) by (simp add: kt_ok_def)
  show "kt_map (put_list tbl b es len n) = (kt_map tbl)(p \<mapsto> w)"
    if "home tbl p = b" "map_of (map (kv tbl) (take len es)) = (map_of (map (kv tbl) (used tbl b)))(p \<mapsto> w)"
    using that by (auto simp: fun_eq_iff kt_map_def used)
qed

section \<open>One addition\<close>

definition added :: "'f float_ops \<Rightarrow> nat \<Rightarrow> u8 list \<Rightarrow> u32 \<Rightarrow> 'f key_tbl_entry \<Rightarrow> 'f key_tbl_entry" where
  "added F n p v e = add_size v (touch F n p (f_of_int F (-1)) e)"

lemma added_simps:
  "t_key (e_tuple (added F n p v e)) = take n p @ drop n (t_key (e_tuple e))"
  "t_size (e_tuple (added F n p v e)) = (if f_eq F (new_ts e) (f_of_int F 0) then 0 else t_size (e_tuple e)) + v"
  "new_ts (added F n p v e) = f_of_int F (-1)"
  by (simp_all add: added_def add_size_def touch_def Let_def)

lemma record_add_cases:
  assumes "kt_ok F tbl" and "float_consts F" and "kt_n tbl div 8 \<le> length p"
  defines "b \<equiv> home tbl p" and "n \<equiv> kt_n tbl div 8"
  shows "(\<exists>i < list_len tbl ! b. same_key n (kt_list tbl ! b ! i) p \<and>
            record_add F tbl p v =
              Inr (put_list tbl b ((kt_list tbl ! b)[i := added F n p v (kt_list tbl ! b ! i)])
                     (list_len tbl ! b) (num_key tbl))) \<or>
         (\<forall>e \<in> set (used tbl b). \<not> same_key n e p) \<and>
         record_add F tbl p v =
           (if list_len tbl ! b < tbl_list_len tbl
            then Inr (put_list tbl b ((kt_list tbl ! b)[list_len tbl ! b := added F n p v (zero_entry F)])
                        (Suc (list_len tbl ! b)) (Suc (num_key tbl)))
            else Inl (Exit_code (-1)))"
proof -
  let ?l = "kt_list tbl ! b" and ?len = "list_len tbl ! b" and ?ts = "f_of_int F (-1)"
  have b: "bucket_no tbl p = Some b" "b < tbl_list_size tbl"
    unfolding b_def using bucket_no_home [OF assms(1,3)] by simp_all
  note list = list_okD [OF assms(1) b(2)]
  have lens: "length (kt_list tbl) = tbl_list_size tbl" "length (list_len tbl) = tbl_list_size tbl"
    and timeout: "f_eq F (entry_to tbl) ?ts"
    using assms(1,2) by (simp_all add: kt_ok_def float_consts_def)
  obtain cur rep where scan: "record_scan F (entry_to tbl) ?ts n p (used tbl b) 0 None = (cur, rep)"
    by force
  show ?thesis
  proof (cases cur)
    case (Some i)
    then have i: "i < ?len" "same_key n (used tbl b ! i) p"
      using record_scan_Some [of F "entry_to tbl" ?ts n p "used tbl b" 0 None i rep] scan list(3) by simp_all
    then have "record_add F tbl p v =
        Inr (put_list tbl b (?l[i := added F n p v (?l ! i)]) ?len (num_key tbl))"
      using scan Some b list lens
      by (simp add: record_add_def key_tbl_record_def Let_def used_def n_def upd_entry_def put_list_def added_def)
    moreover have "same_key n (?l ! i) p"
      using i by (simp add: used_def)
    ultimately show ?thesis
      using i(1) by blast
  next
    case None
    then have none: "\<forall>e \<in> set (used tbl b). \<not> same_key n e p" "rep = None"
      using record_scan_None [OF timeout] scan by auto
    have "record_add F tbl p v =
        (if ?len < tbl_list_len tbl
         then Inr (put_list tbl b (?l[?len := added F n p v (zero_entry F)]) (Suc ?len) (Suc (num_key tbl)))
         else Inl (Exit_code (-1)))"
      using scan None none(2) b list lens
      by (simp add: record_add_def key_tbl_record_def Let_def used_def n_def upd_entry_def put_list_def added_def)
    then show ?thesis
      using none(1) by blast
  qed
qed

lemma kt_map_None: "kt_map tbl k = None \<longleftrightarrow> k \<notin> entry_key tbl ` set (used tbl (home tbl k))"
  by (simp add: kt_map_def map_of_eq_None_iff image_image kv_def)

lemma home_less: "kt_ok F tbl \<Longrightarrow> home tbl k < tbl_list_size tbl"
  by (simp add: home_def kt_ok_def)

lemma entry_keys_list:
  assumes "kt_ok F tbl"
  shows "{k \<in> dom (kt_map tbl). home tbl k = b} = (if b < tbl_list_size tbl then set (map (entry_key tbl) (used tbl b)) else {})"
proof (cases "b < tbl_list_size tbl")
  case True
  have "k \<in> dom (kt_map tbl) \<longleftrightarrow> k \<in> set (map (entry_key tbl) (used tbl b))" if "home tbl k = b" for k
    using that kt_map_None [of tbl k] by (auto simp: domIff)
  moreover have "home tbl k = b" if "k \<in> set (map (entry_key tbl) (used tbl b))" for k
    using that list_okD(5) [OF assms True] by auto
  ultimately have "k \<in> dom (kt_map tbl) \<and> home tbl k = b \<longleftrightarrow> k \<in> set (map (entry_key tbl) (used tbl b))" for k
    by blast
  then show ?thesis
    by (simp only: True if_True set_eq_iff mem_Collect_eq simp_thms)
next
  case False
  then show ?thesis
    using home_less [OF assms] by auto
qed

lemma card_list:
  assumes "kt_ok F tbl" and "b < tbl_list_size tbl"
  shows "card {k \<in> dom (kt_map tbl). home tbl k = b} = list_len tbl ! b"
  using list_okD(3,4) [OF assms] distinct_card [of "map (entry_key tbl) (used tbl b)"]
  by (simp add: entry_keys_list [OF assms(1)] assms(2))

lemma card_list_le:
  assumes "kt_ok F tbl"
  shows "card {k \<in> dom (kt_map tbl). home tbl k = b} \<le> tbl_list_len tbl"
  using card_list [OF assms, of b] list_okD(2) [OF assms, of b]
  by (cases "b < tbl_list_size tbl") (simp_all only: entry_keys_list [OF assms] if_False card.empty)

lemma kt_map_domD:
  assumes "kt_ok F tbl" and "kt_map tbl k = Some v"
  shows "length k = kt_n tbl div 8"
  using kt_map_None [of tbl k] assms(2) list_okD(5) [OF assms(1) home_less [OF assms(1), of k]] by auto

lemma finite_kt_map:
  assumes "kt_ok F tbl"
  shows "finite (dom (kt_map tbl))"
proof -
  have "k \<in> (\<Union>b < tbl_list_size tbl. set (map (entry_key tbl) (used tbl b)))" if "k \<in> dom (kt_map tbl)" for k
    using that kt_map_None [of tbl k] home_less [OF assms, of k] by (auto simp: domIff)
  then have "dom (kt_map tbl) \<subseteq> (\<Union>b < tbl_list_size tbl. set (map (entry_key tbl) (used tbl b)))"
    by blast
  then show ?thesis
    by (rule finite_subset) simp
qed

lemma kv_added:
  assumes "kt_n tbl div 8 \<le> length p"
  shows "kv tbl (added F (kt_n tbl div 8) p v e) =
     (take (kt_n tbl div 8) p,
      (if f_eq F (new_ts e) (f_of_int F 0) then 0 else t_size (e_tuple e)) + v)"
  using assms by (simp add: kv_def entry_key_def added_simps)

lemma entry_key_added:
  "kt_n tbl div 8 \<le> length p \<Longrightarrow> entry_key tbl (added F (kt_n tbl div 8) p v e) = take (kt_n tbl div 8) p"
  by (simp add: entry_key_def added_simps)

lemma entry_key_same: "same_key (kt_n tbl div 8) e p \<Longrightarrow> length p = kt_n tbl div 8 \<Longrightarrow> entry_key tbl e = p"
  by (simp add: same_key_def entry_key_def)

lemma added_ok:
  assumes "kt_ok F tbl" and "float_consts F" and "length p = kt_n tbl div 8" and "length (t_key (e_tuple e)) = 13"
  shows "length (t_key (e_tuple (added F (kt_n tbl div 8) p v e))) = 13 \<and>
     home tbl (entry_key tbl (added F (kt_n tbl div 8) p v e)) = home tbl p \<and>
     \<not> f_eq F (new_ts (added F (kt_n tbl div 8) p v e)) (f_of_int F 0)"
  using assms by (simp add: added_simps entry_key_added float_consts_def kt_ok_def)

lemma found_spec:
  fixes v :: u32
  assumes "kt_ok F tbl" and "float_consts F" and "length p = kt_n tbl div 8" and "home tbl p = b"
    and i: "i < list_len tbl ! b" "same_key (kt_n tbl div 8) (kt_list tbl ! b ! i) p"
  defines "tbl' \<equiv> put_list tbl b ((kt_list tbl ! b)[i := added F (kt_n tbl div 8) p v (kt_list tbl ! b ! i)])
                    (list_len tbl ! b) (num_key tbl)"
  shows "kt_ok F tbl'" and "\<exists>x. kt_map tbl p = Some x \<and> kt_map tbl' = (kt_map tbl)(p \<mapsto> x + v)"
proof -
  let ?l = "kt_list tbl ! b" and ?len = "list_len tbl ! b"
  let ?e = "?l ! i" and ?x = "added F (kt_n tbl div 8) p v (?l ! i)" and ?v = "t_size (e_tuple (?l ! i))"
  have b: "b < tbl_list_size tbl"
    using home_less [OF assms(1), of p] assms(4) by simp
  note list = list_okD [OF assms(1) b]
  have used: "take ?len (?l[i := ?x]) = (used tbl b)[i := ?x]"
    by (simp add: used_def take_update_swap)
  have e: "used tbl b ! i = ?e" "i < length (used tbl b)" "?e \<in> set (used tbl b)"
    using i(1) list(3) nth_mem [of i "used tbl b"] by (simp_all add: used_def)
  have key: "entry_key tbl ?e = p" "entry_key tbl ?x = p"
    using i(2) assms(3) by (simp_all add: entry_key_added entry_key_same)
  have keys: "map (entry_key tbl) ((used tbl b)[i := ?x]) = map (entry_key tbl) (used tbl b)"
    using e key by (metis list_update_id map_update nth_map)
  have entries: "\<And>y. y \<in> set (take ?len (?l[i := ?x])) \<Longrightarrow> length (t_key (e_tuple y)) = 13 \<and>
      home tbl (entry_key tbl y) = b \<and> \<not> f_eq F (new_ts y) (f_of_int F 0)"
    unfolding used using set_update_subset_insert [of "used tbl b" i ?x] list(5) assms(4)
      added_ok [OF assms(1-3), of ?e v] e(3) by blast
  have rest: "\<And>y. y \<in> set (drop ?len (?l[i := ?x])) \<Longrightarrow> y = zero_entry F"
    using i(1) assms(1) b by (simp add: drop_update_cancel kt_ok_def list_ok_def)
  have sum: "num_key tbl = sum_list ((list_len tbl)[b := ?len])"
    using assms(1) by (simp add: kt_ok_def)
  note put = put_list_ok [OF assms(1) b sum _ list(2) entries _ rest]
  show "kt_ok F tbl'"
    unfolding tbl'_def using list keys by (intro put(1)) (simp_all add: used)
  have "kv tbl ?x = (p, ?v + v)"
    using list(5) [OF e(3)] assms(3) by (simp add: kv_added)
  then have "map_of (map (kv tbl) (take ?len (?l[i := ?x]))) = (map_of (map (kv tbl) (used tbl b)))(p \<mapsto> ?v + v)"
    using e list(4) key(1) by (simp add: used map_update map_of_list_update comp_def kv_def)
  then have "kt_map tbl' = (kt_map tbl)(p \<mapsto> ?v + v)"
    unfolding tbl'_def using list keys assms(4) by (intro put(2)) (simp_all add: used)
  moreover have "kt_map tbl p = Some ?v"
    unfolding kt_map_def assms(4)
    using e(3) list(4) key(1) by (intro map_of_is_SomeI) (auto simp: comp_def kv_def)
  ultimately show "\<exists>x. kt_map tbl p = Some x \<and> kt_map tbl' = (kt_map tbl)(p \<mapsto> x + v)"
    by blast
qed

lemma new_spec:
  fixes v :: u32
  assumes "kt_ok F tbl" and "float_consts F" and "length p = kt_n tbl div 8" and "home tbl p = b"
    and none: "\<forall>e \<in> set (used tbl b). \<not> same_key (kt_n tbl div 8) e p"
    and room: "list_len tbl ! b < tbl_list_len tbl"
  defines "tbl' \<equiv> put_list tbl b ((kt_list tbl ! b)[list_len tbl ! b := added F (kt_n tbl div 8) p v (zero_entry F)])
                    (Suc (list_len tbl ! b)) (Suc (num_key tbl))"
  shows "kt_ok F tbl'" and "kt_map tbl' = (kt_map tbl)(p \<mapsto> v)"
proof -
  let ?l = "kt_list tbl ! b" and ?len = "list_len tbl ! b" and ?x = "added F (kt_n tbl div 8) p v (zero_entry F)"
  have b: "b < tbl_list_size tbl"
    using home_less [OF assms(1), of p] assms(4) by simp
  note list = list_okD [OF assms(1) b]
  have used: "take (Suc ?len) (?l[?len := ?x]) = used tbl b @ [?x]"
    using room list(1) by (simp add: used_def take_Suc_conv_app_nth)
  have key: "entry_key tbl ?x = p"
    using assms(3) by (simp add: entry_key_added)
  have new: "p \<notin> entry_key tbl ` set (used tbl b)"
    using none assms(3) by (auto simp: entry_key_def same_key_def)
  have entries: "\<And>y. y \<in> set (take (Suc ?len) (?l[?len := ?x])) \<Longrightarrow> length (t_key (e_tuple y)) = 13 \<and>
      home tbl (entry_key tbl y) = b \<and> \<not> f_eq F (new_ts y) (f_of_int F 0)"
    unfolding used using list(5) assms(4) added_ok [OF assms(1-3), of "zero_entry F" v]
    by (auto simp: zero_entry_def zero_tuple_def)
  have rest: "\<And>y. y \<in> set (drop (Suc ?len) (?l[?len := ?x])) \<Longrightarrow> y = zero_entry F"
    using assms(1) b set_drop_subset_set_drop [of ?len "Suc ?len" ?l] by (auto simp: kt_ok_def list_ok_def)
  have sum: "Suc (num_key tbl) = sum_list ((list_len tbl)[b := Suc ?len])"
    using assms(1) b member_le_sum_list [of ?len "list_len tbl"] by (simp add: kt_ok_def sum_list_update)
  have le: "Suc ?len \<le> tbl_list_len tbl"
    using room by simp
  note put = put_list_ok [OF assms(1) b sum _ le entries _ rest]
  show "kt_ok F tbl'"
    unfolding tbl'_def using list new key by (intro put(1)) (simp_all add: used)
  have "kv tbl ?x = (p, v)"
    using assms(2,3) by (simp add: kv_added zero_entry_def float_consts_def)
  then have "map_of (map (kv tbl) (take (Suc ?len) (?l[?len := ?x]))) = (map_of (map (kv tbl) (used tbl b)))(p \<mapsto> v)"
    using new map_of_snoc [of p "map (kv tbl) (used tbl b)" v] by (simp add: used image_image kv_def)
  then show "kt_map tbl' = (kt_map tbl)(p \<mapsto> v)"
    unfolding tbl'_def using list new key assms(4) by (intro put(2)) (simp_all add: used)
qed

section \<open>Interpretation\<close>

text \<open>The parameters of a table, which no operation changes.\<close>

definition same_params :: "'f key_tbl \<Rightarrow> 'f key_tbl \<Rightarrow> bool" where
  "same_params t u \<longleftrightarrow>
     kt_n u = kt_n t \<and> tbl_list_size u = tbl_list_size t \<and> tbl_list_len u = tbl_list_len t \<and>
     kt_hash u = kt_hash t \<and> kt_scale u = kt_scale t \<and> kt_hardner u = kt_hardner t"

lemma same_params_refl [simp]: "same_params t t"
  by (simp add: same_params_def)

lemma same_params_put: "same_params t u \<Longrightarrow> same_params t (put_list u b es len n)"
  by (simp add: same_params_def)

lemma same_params_home: "same_params t u \<Longrightarrow> home u = home t"
  by (simp add: same_params_def home_def fun_eq_iff)

definition kt_inv :: "'f float_ops \<Rightarrow> 'f key_tbl \<Rightarrow> 'f key_tbl \<Rightarrow> bool" where
  "kt_inv F t u \<longleftrightarrow> kt_ok F u \<and> float_consts F \<and> same_params t u"

lemma record_add_ok:
  assumes "kt_inv F t u" and "length k = kt_n t div 8"
    and "kt_map u k \<noteq> None \<or> card {k' \<in> dom (kt_map u). home t k' = home t k} < tbl_list_len t"
  shows "\<exists>u'. record_add F u k v = Inr u' \<and> kt_inv F t u' \<and>
     kt_map u' = (kt_map u)(k \<mapsto> (case kt_map u k of None \<Rightarrow> 0 | Some x \<Rightarrow> x) + v)"
proof -
  have ok: "kt_ok F u" "float_consts F" "same_params t u" and len: "length k = kt_n u div 8"
    using assms(1,2) by (simp_all add: kt_inv_def same_params_def)
  have le: "kt_n u div 8 \<le> length k"
    using len by simp
  note home = same_params_home [OF ok(3)]
  from record_add_cases [OF ok(1,2) le, of v] show ?thesis
  proof (elim disjE exE conjE)
    fix i
    assume i: "i < list_len u ! home u k" "same_key (kt_n u div 8) (kt_list u ! home u k ! i) k"
      and eq: "record_add F u k v =
        Inr (put_list u (home u k) ((kt_list u ! home u k)[i := added F (kt_n u div 8) k v (kt_list u ! home u k ! i)])
          (list_len u ! home u k) (num_key u))"
    show ?thesis
      using eq found_spec [OF ok(1,2) len refl i, of v] ok(2,3) by (auto simp: kt_inv_def same_params_put)
  next
    assume none: "\<forall>e \<in> set (used u (home u k)). \<not> same_key (kt_n u div 8) e k"
      and eq: "record_add F u k v =
        (if list_len u ! home u k < tbl_list_len u
         then Inr (put_list u (home u k) ((kt_list u ! home u k)[list_len u ! home u k := added F (kt_n u div 8) k v (zero_entry F)])
                (Suc (list_len u ! home u k)) (Suc (num_key u)))
         else Inl (Exit_code (-1)))"
    have "kt_map u k = None"
      using none len by (auto simp: kt_map_None entry_key_def same_key_def)
    moreover from this have room: "list_len u ! home u k < tbl_list_len u"
      using assms(3) card_list [OF ok(1) home_less [OF ok(1)], of k] ok(3) by (simp add: home same_params_def)
    ultimately show ?thesis
      using eq new_spec [OF ok(1,2) len refl none room, of v] ok(2,3) by (auto simp: kt_inv_def same_params_put)
  qed
qed

lemma record_add_full:
  assumes "kt_inv F t u" and "length k = kt_n t div 8" and "kt_map u k = None"
    and "tbl_list_len t \<le> card {k' \<in> dom (kt_map u). home t k' = home t k}"
  shows "record_add F u k v = Inl (Exit_code (-1))"
proof -
  have ok: "kt_ok F u" "float_consts F" "same_params t u" and len: "length k = kt_n u div 8"
    using assms(1,2) by (simp_all add: kt_inv_def same_params_def)
  have le: "kt_n u div 8 \<le> length k"
    using len by simp
  have "\<not> list_len u ! home u k < tbl_list_len u"
    using assms(4) card_list [OF ok(1) home_less [OF ok(1)], of k] ok(3)
    by (simp add: same_params_home [OF ok(3)] same_params_def)
  moreover have "\<not> same_key (kt_n u div 8) (kt_list u ! home u k ! i) k" if "i < list_len u ! home u k" for i
  proof -
    have "kt_list u ! home u k ! i \<in> set (used u (home u k))"
      using that nth_mem [of i "used u (home u k)"] list_okD(3) [OF ok(1) home_less [OF ok(1), of k]]
      by (simp add: used_def)
    then show ?thesis
      using assms(3) entry_key_same [OF _ len] by (force simp: kt_map_None)
  qed
  ultimately show ?thesis
    using record_add_cases [OF ok(1,2) le, of v] by auto
qed

interpretation key_table: counter_table "kt_inv F t" kt_map "\<lambda>k. length k = kt_n t div 8" "home t" "tbl_list_len t" "record_add F"
  for F t
proof unfold_locales
  fix u
  assume inv: "kt_inv F t u"
  then have ok: "kt_ok F u" "same_params t u"
    by (simp_all add: kt_inv_def)
  show "finite (dom (kt_map u))"
    using ok(1) by (rule finite_kt_map)
  show "card {k \<in> dom (kt_map u). home t k = b} \<le> tbl_list_len t" for b
    using card_list_le [OF ok(1), of b] ok(2)
    by (simp add: same_params_home [OF ok(2), symmetric] same_params_def)
qed (blast intro: record_add_ok record_add_full)+

lemma fst_kv [simp]: "fst \<circ> kv tbl = entry_key tbl"
  by (simp add: kv_def fun_eq_iff)

section \<open>Looking up, listing, resetting\<close>

lemma find_spec:
  assumes "kt_ok F tbl" and "kt_n tbl div 8 \<le> length p"
  shows "case kt_map tbl (take (kt_n tbl div 8) p) of
       None \<Rightarrow> key_tbl_find tbl p = Inr None
     | Some v \<Rightarrow> \<exists>b i. key_tbl_find tbl p = Inr (Some (b, i)) \<and> t_size (e_tuple (kt_list tbl ! b ! i)) = v"
proof -
  let ?n = "kt_n tbl div 8" and ?b = "home tbl p"
  have b: "bucket_no tbl p = Some ?b" "?b < tbl_list_size tbl"
    using bucket_no_home [OF assms] by simp_all
  note list = list_okD [OF assms(1) b(2)]
  have key: "same_key ?n e p \<longleftrightarrow> entry_key tbl e = take ?n p" for e
    by (simp add: same_key_def entry_key_def)
  show ?thesis
  proof (cases "find_scan ?n p (used tbl ?b) 0")
    case None
    then have "kt_map tbl (take ?n p) = None"
      by (auto simp: kt_map_None find_scan_None key)
    then show ?thesis
      using None b by (simp add: key_tbl_find_def used_def)
  next
    case (Some i)
    then have i: "i < length (used tbl ?b)" "entry_key tbl (used tbl ?b ! i) = take ?n p"
      using find_scan_Some [OF Some] by (simp_all add: key)
    have "(take ?n p, t_size (e_tuple (used tbl ?b ! i))) = kv tbl (used tbl ?b ! i)"
      by (simp add: kv_def i(2))
    then have "map_of (map (kv tbl) (used tbl ?b)) (take ?n p) = Some (t_size (e_tuple (used tbl ?b ! i)))"
      using i(1) list(4) by (intro map_of_is_SomeI) simp_all
    then have "kt_map tbl (take ?n p) = Some (t_size (e_tuple (kt_list tbl ! ?b ! i)))"
      using i(1) list(3) by (simp add: kt_map_def used_def)
    then show ?thesis
      using Some b by (simp add: key_tbl_find_def used_def)
  qed
qed

definition assoc :: "'f key_tbl \<Rightarrow> (u8 list \<times> u32) list" where
  "assoc tbl = map (\<lambda>t. (take (kt_n tbl div 8) (t_key t), t_size t)) (key_tbl_get_all tbl)"

lemma assoc_used: "assoc tbl = concat (map (\<lambda>b. map (kv tbl) (used tbl b)) [0..<tbl_list_size tbl])"
  by (simp add: assoc_def key_tbl_get_all_def map_concat comp_def used_def kv_def [abs_def] entry_key_def)

lemma distinct_assoc_prefix:
  assumes "kt_ok F tbl" and "m \<le> tbl_list_size tbl"
  shows "distinct (map fst (concat (map (\<lambda>b. map (kv tbl) (used tbl b)) [0..<m])))"
  using assms(2)
proof (induction m)
  case (Suc m)
  have "entry_key tbl e \<noteq> entry_key tbl e'" if "b < m" "e \<in> set (used tbl b)" "e' \<in> set (used tbl m)" for b e e'
    using that list_okD(5) [OF assms(1), of b e] list_okD(5) [OF assms(1), of m e'] Suc.prems by auto
  then show ?case
    using Suc list_okD(4) [OF assms(1), of m] by (auto simp: kv_def comp_def)
qed simp

lemma kv_home:
  assumes "kt_ok F tbl" and "b < tbl_list_size tbl" and "(k, v) \<in> set (map (kv tbl) (used tbl b))"
  shows "home tbl k = b"
  using assms(3) list_okD(5) [OF assms(1,2)] by (auto simp: kv_def)

lemma assoc_spec:
  assumes "kt_ok F tbl"
  shows "distinct (map fst (assoc tbl))" and "map_of (assoc tbl) = kt_map tbl" and "length (assoc tbl) = num_key tbl"
proof -
  show dist: "distinct (map fst (assoc tbl))"
    unfolding assoc_used by (rule distinct_assoc_prefix [OF assms order_refl])
  have "map_of (assoc tbl) k = Some v \<longleftrightarrow> kt_map tbl k = Some v" for k v
  proof -
    have "map_of (assoc tbl) k = Some v \<longleftrightarrow> (k, v) \<in> set (assoc tbl)"
      using dist by (rule map_of_eq_Some_iff)
    also have "\<dots> \<longleftrightarrow> (\<exists>b < tbl_list_size tbl. (k, v) \<in> set (map (kv tbl) (used tbl b)))"
      by (auto simp: assoc_used)
    also have "\<dots> \<longleftrightarrow> (k, v) \<in> set (map (kv tbl) (used tbl (home tbl k)))"
      using kv_home [OF assms] home_less [OF assms, of k] by blast
    also have "\<dots> \<longleftrightarrow> kt_map tbl k = Some v"
      unfolding kt_map_def using list_okD(4) [OF assms home_less [OF assms]]
      by (intro map_of_eq_Some_iff [symmetric]) simp
    finally show ?thesis .
  qed
  then show "map_of (assoc tbl) = kt_map tbl"
    by (metis ext option.exhaust)
  have "length (assoc tbl) = sum_list (map (\<lambda>b. list_len tbl ! b) [0..<tbl_list_size tbl])"
    using list_okD(3) [OF assms]
    by (auto simp: assoc_used length_concat comp_def intro!: arg_cong [where f = sum_list] map_cong)
  also have "\<dots> = num_key tbl"
    using assms map_nth [of "list_len tbl"] by (simp add: kt_ok_def)
  finally show "length (assoc tbl) = num_key tbl" .
qed

lemma key_tbl_num_key: "kt_ok F tbl \<Longrightarrow> key_tbl_num_key tbl = num_key tbl"
  using map_nth [of "list_len tbl"] by (simp add: kt_ok_def key_tbl_num_key_def)

lemma card_kt_map:
  assumes "kt_ok F tbl"
  shows "num_key tbl = card (dom (kt_map tbl))"
  using assoc_spec [OF assms] distinct_card [of "map fst (assoc tbl)"] dom_map_of_conv_image_fst [of "assoc tbl"] by simp

lemma reset_ok:
  assumes "kt_ok F tbl"
  shows "kt_ok F (key_tbl_reset F tbl)" and "kt_map (key_tbl_reset F tbl) = Map.empty"
    and "same_params tbl (key_tbl_reset F tbl)"
proof -
  have len: "kt_list (key_tbl_reset F tbl) ! b = replicate (tbl_list_len tbl) (zero_entry F)"
    "list_len (key_tbl_reset F tbl) ! b = 0" "used (key_tbl_reset F tbl) b = []" if "b < tbl_list_size tbl" for b
    using assms that by (auto simp: key_tbl_reset_def kt_ok_def list_ok_def used_def)
  have zero: "sum_list (map (\<lambda>_. 0 :: nat) xs) = 0" for xs :: "nat list"
    by (induction xs) simp_all
  have params: "tbl_list_size (key_tbl_reset F tbl) = tbl_list_size tbl" "kt_n (key_tbl_reset F tbl) = kt_n tbl"
    "entry_to (key_tbl_reset F tbl) = entry_to tbl" "tbl_list_len (key_tbl_reset F tbl) = tbl_list_len tbl"
    "length (kt_list (key_tbl_reset F tbl)) = length (kt_list tbl)"
    "list_len (key_tbl_reset F tbl) = map (\<lambda>_. 0) (list_len tbl)" "num_key (key_tbl_reset F tbl) = 0"
    by (simp_all add: key_tbl_reset_def)
  show ok: "kt_ok F (key_tbl_reset F tbl)"
    using assms len by (simp add: kt_ok_def params zero list_ok_def)
  show "kt_map (key_tbl_reset F tbl) = Map.empty"
    using home_less [OF ok] by (simp add: kt_map_def len params fun_eq_iff)
  show "same_params tbl (key_tbl_reset F tbl)"
    by (simp add: same_params_def key_tbl_reset_def)
qed

lemma init_ok:
  assumes "list_size \<le> INT_MAX" and "n div 8 \<le> 13"
  shows "\<exists>tbl g'. key_tbl_init F rand g n list_size l (f_of_int F (-1)) = Some (tbl, g') \<and> kt_ok F tbl \<and>
     kt_map tbl = Map.empty \<and> kt_n tbl = n \<and> tbl_list_len tbl = l \<and> list_size \<le> int (tbl_list_size tbl)"
proof -
  obtain q where q: "calc_next_prime list_size = Some q" "list_size \<le> q" "2 \<le> q"
    using calc_next_prime_Some [OF assms(1)] by blast
  obtain h where h: "GenHashSeed rand g (keytbl_seed + 104) = (Some h, draw_seed rand g)"
    using GenHashSeed_Some by blast
  obtain s where s: "GenHashSeed rand (draw_seed rand g) (keytbl_seed + 115) = (Some s, draw_seed rand (draw_seed rand g))"
    using GenHashSeed_Some by blast
  obtain a where a: "GenHashSeed rand (draw_seed rand (draw_seed rand g)) (keytbl_seed + 97) =
      (Some a, draw_seed rand (draw_seed rand (draw_seed rand g)))"
    using GenHashSeed_Some by blast
  let ?tbl = "\<lparr>kt_list = replicate (nat q) (replicate l (zero_entry F)), list_len = replicate (nat q) 0, kt_n = n,
     entry_to = f_of_int F (-1), tbl_list_size = nat q, tbl_list_len = l, num_key = 0, kt_hash = h,
     kt_scale = s, kt_hardner = a\<rparr>"
  have ok: "kt_ok F ?tbl"
    using q assms(2) by (simp add: kt_ok_def list_ok_def used_def sum_list_replicate)
  have "kt_map ?tbl = Map.empty"
    using home_less [OF ok] by (simp add: kt_map_def used_def fun_eq_iff)
  then show ?thesis
    using ok q by (simp add: key_tbl_init_def h s a)
qed

section \<open>What the table promises\<close>

lemma record_scan_take: "record_scan F timeout ts n (take n p) es i rep = record_scan F timeout ts n p es i rep"
  by (induction es arbitrary: i rep) (simp_all add: same_key_def)

lemma touch_take: "touch F n (take n p) = touch F n p"
  by (simp add: touch_def fun_eq_iff)

lemma bucket_no_take: "bucket_no tbl (take (kt_n tbl div 8) p) = bucket_no tbl p"
  by (simp add: bucket_no_def AwareHash_take)

lemma record_add_take: "record_add F tbl (take (kt_n tbl div 8) p) v = record_add F tbl p v"
  by (simp only: record_add_def key_tbl_record_def bucket_no_take record_scan_take touch_take Let_def)

abbreviation norm_keys :: "nat \<Rightarrow> (u8 list \<times> u32) list \<Rightarrow> (u8 list \<times> u32) list" where
  "norm_keys n us \<equiv> map (\<lambda>(p, v). (take n p, v)) us"

lemma record_add_n: "record_add F tbl p v = Inr tbl' \<Longrightarrow> kt_n tbl' = kt_n tbl"
  by (auto simp: record_add_def key_tbl_record_def Let_def upd_entry_def split: option.splits prod.splits sum.splits if_splits)

lemma adds_norm: "kt_n tbl = n \<Longrightarrow> adds (record_add F) tbl (norm_keys (n div 8) us) = adds (record_add F) tbl us"
proof (induction us arbitrary: tbl)
  case (Cons u us)
  then show ?case
    using record_add_take [of F tbl "fst u" "snd u"]
    by (cases u) (auto split: sum.splits dest: record_add_n)
qed simp

lemma adds_empty:
  assumes "kt_inv F t u" and "kt_map u = Map.empty" and "\<forall>u \<in> set us. kt_n t div 8 \<le> length (fst u)"
  defines "ks \<equiv> norm_keys (kt_n t div 8) us"
  shows "if lists_fit (home t) (tbl_list_len t) (fst ` set ks)
     then \<exists>u'. adds (record_add F) u us = Inr u' \<and> kt_inv F t u' \<and>
       kt_map u' = (\<lambda>k. if k \<in> fst ` set ks then Some (key_total ks k) else None)
     else adds (record_add F) u us = Inl (Exit_code (-1))"
proof -
  have "\<forall>x \<in> set ks. length (fst x) = kt_n t div 8"
    using assms(3) by (auto simp: ks_def)
  from key_table.adds_spec [OF assms(1) this]
  have "if lists_fit (home t) (tbl_list_len t) (fst ` set ks)
     then \<exists>u'. adds (record_add F) u ks = Inr u' \<and> kt_inv F t u' \<and> kt_map u' = summed Map.empty ks
     else adds (record_add F) u ks = Inl (Exit_code (-1))"
    by (simp only: assms(2) dom_empty Un_empty_left)
  moreover have "adds (record_add F) u ks = adds (record_add F) u us"
    unfolding ks_def using assms(1) by (intro adds_norm) (simp add: kt_inv_def same_params_def)
  moreover have "summed Map.empty ks = (\<lambda>k. if k \<in> fst ` set ks then Some (key_total ks k) else None)"
    by (simp add: summed_def fun_eq_iff)
  ultimately show ?thesis
    by (simp only:)
qed

text \<open>
  Claim C27. The key table counts flows: after a reset, a loop that records keys and adds sizes ends with a
  table in which \<^verbatim>\<open>key_tbl_find\<close> finds exactly the keys recorded, each with the sum of its sizes (modulo
  2 to the 32), and \<^verbatim>\<open>num_key\<close> and \<^verbatim>\<open>key_tbl_num_key\<close> are the number of different keys; the program exits
  instead exactly when more than \<^verbatim>\<open>tbl_list_len\<close> different keys fall into one list.  Only the first
  \<^verbatim>\<open>n/8\<close> bytes of a key count.
\<close>

theorem key_tbl_stream:
  assumes "kt_ok F tbl" and "float_consts F" and "\<forall>u \<in> set us. kt_n tbl div 8 \<le> length (fst u)"
  shows "let n = kt_n tbl div 8; ks = norm_keys n us; keys = fst ` set ks
     in if lists_fit (home tbl) (tbl_list_len tbl) keys
        then \<exists>tbl'. adds (record_add F) (key_tbl_reset F tbl) us = Inr tbl' \<and>
          (\<forall>p. n \<le> length p \<longrightarrow>
             (if take n p \<in> keys
              then \<exists>b i. key_tbl_find tbl' p = Inr (Some (b, i)) \<and>
                     t_size (e_tuple (kt_list tbl' ! b ! i)) = key_total ks (take n p)
              else key_tbl_find tbl' p = Inr None)) \<and>
          num_key tbl' = card keys \<and> key_tbl_num_key tbl' = card keys
        else adds (record_add F) (key_tbl_reset F tbl) us = Inl (Exit_code (-1))"
proof -
  let ?n = "kt_n tbl div 8" and ?ks = "norm_keys (kt_n tbl div 8) us"
  have inv: "kt_inv F tbl (key_tbl_reset F tbl)"
    using reset_ok [OF assms(1)] assms(2) by (simp add: kt_inv_def)
  note spec = adds_empty [OF inv reset_ok(2) [OF assms(1)] assms(3)]
  show ?thesis
  proof (cases "lists_fit (home tbl) (tbl_list_len tbl) (fst ` set ?ks)")
    case True
    then obtain u where u: "adds (record_add F) (key_tbl_reset F tbl) us = Inr u" "kt_inv F tbl u"
      "kt_map u = (\<lambda>k. if k \<in> fst ` set ?ks then Some (key_total ?ks k) else None)"
      using spec by (simp only: if_True) blast
    then have ok: "kt_ok F u" "kt_n u = kt_n tbl"
      by (simp_all add: kt_inv_def same_params_def)
    have "dom (kt_map u) = fst ` set ?ks"
      by (simp add: u(3) dom_def)
    then have num: "num_key u = card (fst ` set ?ks)" "key_tbl_num_key u = card (fst ` set ?ks)"
      using card_kt_map [OF ok(1)] key_tbl_num_key [OF ok(1)] by simp_all
    have "if take ?n p \<in> fst ` set ?ks
          then \<exists>b i. key_tbl_find u p = Inr (Some (b, i)) \<and>
                 t_size (e_tuple (kt_list u ! b ! i)) = key_total ?ks (take ?n p)
          else key_tbl_find u p = Inr None" if "?n \<le> length p" for p
      using find_spec [OF ok(1), of p] that unfolding ok(2) u(3) by (simp split: if_splits)
    then show ?thesis
      using True u(1) num by (simp only: Let_def if_True) blast
  next
    case False
    then show ?thesis
      using spec by (simp only: Let_def if_False)
  qed
qed

text \<open>
  \<^verbatim>\<open>key_tbl_get_all\<close> returns each key of the table once, with its counter, and as many tuples as
  the table has keys; \<^verbatim>\<open>key_tbl_find\<close> finds a key exactly when it is in that list, at an entry with the
  counter listed.
\<close>

theorem key_tbl_get_all_find:
  assumes "kt_ok F tbl" and "kt_n tbl div 8 \<le> length p"
  shows "let l = map (\<lambda>t. (take (kt_n tbl div 8) (t_key t), t_size t)) (key_tbl_get_all tbl)
     in distinct (map fst l) \<and> length l = num_key tbl \<and>
        (case map_of l (take (kt_n tbl div 8) p) of
           None \<Rightarrow> key_tbl_find tbl p = Inr None
         | Some v \<Rightarrow> \<exists>b i. key_tbl_find tbl p = Inr (Some (b, i)) \<and> t_size (e_tuple (kt_list tbl ! b ! i)) = v)"
  using assoc_spec [OF assms(1)] find_spec [OF assms] by (simp add: Let_def assoc_def)

lemma key_total_map_of:
  "distinct (map fst us) \<Longrightarrow> key_total us k = (case map_of us k of None \<Rightarrow> 0 | Some v \<Rightarrow> v)"
proof (induction us)
  case (Cons u us)
  then show ?case
    by (cases u) (auto simp: map_of_eq_None_iff [THEN iffD2])
qed simp

text \<open>
  \<^verbatim>\<open>key_tbl_copy\<close> adds every counter of the source to the counter of the same key in the target,
  creating it where the target has none, or exits when a list of the target cannot hold its keys.
\<close>

theorem key_tbl_copy_adds:
  assumes "kt_ok F dst" and "kt_ok F src" and "float_consts F" and "kt_n src = kt_n dst"
  shows "if lists_fit (home dst) (tbl_list_len dst) (dom (kt_map dst) \<union> dom (kt_map src))
     then \<exists>tbl. key_tbl_copy F dst src = Inr tbl \<and> kt_ok F tbl \<and>
       (\<forall>k. kt_map tbl k =
          (case kt_map dst k of
             None \<Rightarrow> kt_map src k
           | Some x \<Rightarrow> (case kt_map src k of None \<Rightarrow> Some x | Some y \<Rightarrow> Some (x + y))))
     else key_tbl_copy F dst src = Inl (Exit_code (-1))"
proof -
  note src = assoc_spec [OF assms(2)]
  have inv: "kt_inv F dst dst"
    using assms(1,3) by (simp add: kt_inv_def)
  have copy: "key_tbl_copy F dst src = adds (record_add F) dst (assoc src)"
    using adds_norm [of dst "kt_n dst" F "map (\<lambda>t. (t_key t, t_size t)) (key_tbl_get_all src)"]
    by (simp add: key_tbl_copy_def assoc_def comp_def assms(4))
  have dom: "fst ` set (assoc src) = dom (kt_map src)"
    using src(2) dom_map_of_conv_image_fst [of "assoc src"] by simp
  have "length k = kt_n dst div 8" if "k \<in> dom (kt_map src)" for k
    using that kt_map_domD [OF assms(2), of k] assms(4) by auto
  then have "\<forall>u \<in> set (assoc src). length (fst u) = kt_n dst div 8"
    unfolding dom [symmetric] by blast
  note spec = key_table.adds_spec [OF inv this, unfolded dom]
  have "summed (kt_map dst) (assoc src) k =
      (case kt_map dst k of
         None \<Rightarrow> kt_map src k
       | Some x \<Rightarrow> (case kt_map src k of None \<Rightarrow> Some x | Some y \<Rightarrow> Some (x + y)))" for k
    unfolding summed_def dom using key_total_map_of [OF src(1), of k]
    by (auto simp: src(2) split: option.splits)
  then show ?thesis
    using spec unfolding copy by (auto simp: kt_inv_def split: if_splits)
qed

section \<open>Examples\<close>

definition small_tbl :: "rat key_tbl" where
  "small_tbl =
     \<lparr>kt_list = replicate 2 (replicate 2 (zero_entry rat_ops)), list_len = [0, 0], kt_n = 8,
      entry_to = -1, tbl_list_size = 2, tbl_list_len = 2, num_key = 0, kt_hash = 1, kt_scale = 3,
      kt_hardner = 0\<rparr>"

lemma small_tbl_simps [simp]:
  "kt_n small_tbl = 8" "tbl_list_len small_tbl = 2" "tbl_list_size small_tbl = 2" "list_len small_tbl = [0, 0]"
  by (simp_all add: small_tbl_def)

lemma used_small_tbl [simp]: "b < 2 \<Longrightarrow> used small_tbl b = []"
  by (auto simp: used_def less_2_cases_iff)

lemma small_tbl_ok: "kt_ok rat_ops small_tbl"
proof -
  have "list_ok rat_ops small_tbl b" if "b < 2" for b
    using that by (auto simp: list_ok_def small_tbl_def used_def less_2_cases_iff)
  then show ?thesis
    by (simp add: kt_ok_def small_tbl_def rat_ops_def)
qed

theorem key_tbl_stream_witness:
  "\<exists>tbl' b i. adds (record_add rat_ops) (key_tbl_reset rat_ops small_tbl) [([7], 5), ([9], 1), ([7, 0], 6)] = Inr tbl' \<and>
     key_tbl_find tbl' [7] = Inr (Some (b, i)) \<and> t_size (e_tuple (kt_list tbl' ! b ! i)) = 11 \<and>
     key_tbl_find tbl' [8] = Inr None \<and> num_key tbl' = 2"
proof -
  let ?us = "[([7], 5), ([9], 1), ([7, 0], 6)] :: (u8 list \<times> u32) list"
  have len: "\<forall>u \<in> set ?us. kt_n small_tbl div 8 \<le> length (fst u)"
    by simp
  have two: "card {[7], [9 :: u8]} = 2"
    by simp
  have "card {k' \<in> {[7], [9]}. home small_tbl k' = home small_tbl k} \<le> card {[7], [9 :: u8]}" for k
    by (rule card_mono) auto
  then have fit: "lists_fit (home small_tbl) (tbl_list_len small_tbl) {[7], [9]}"
    unfolding lists_fit_def small_tbl_simps two by blast
  have n: "kt_n small_tbl div 8 = 1"
    by simp
  have keys: "fst ` set (norm_keys 1 ?us) = {[7], [9]}" "key_total (norm_keys 1 ?us) [7] = 11"
    by auto
  from key_tbl_stream [OF small_tbl_ok float_consts_rat len] fit obtain tbl' where
    tbl': "adds (record_add rat_ops) (key_tbl_reset rat_ops small_tbl) ?us = Inr tbl'"
    and find: "\<And>p. 1 \<le> length p \<Longrightarrow>
      (if take 1 p \<in> {[7], [9]}
       then \<exists>b i. key_tbl_find tbl' p = Inr (Some (b, i)) \<and>
              t_size (e_tuple (kt_list tbl' ! b ! i)) = key_total (norm_keys 1 ?us) (take 1 p)
       else key_tbl_find tbl' p = Inr None)" and num: "num_key tbl' = 2"
    unfolding Let_def n keys(1) two by auto
  then show ?thesis
    using find [of "[7]"] find [of "[8]"] keys(2) by auto
qed

theorem key_tbl_get_all_find_witness:
  "distinct (map fst (map (\<lambda>t. (take 1 (t_key t), t_size t)) (key_tbl_get_all small_tbl))) \<and>
   key_tbl_find small_tbl [7] = Inr None"
  using key_tbl_get_all_find [OF small_tbl_ok, of "[7]"]
  by (simp add: Let_def key_tbl_get_all_def upt_rec)

theorem key_tbl_copy_adds_witness: "\<exists>tbl. key_tbl_copy rat_ops small_tbl small_tbl = Inr tbl \<and> kt_ok rat_ops tbl"
proof -
  have "kt_map small_tbl = Map.empty"
    using home_less [OF small_tbl_ok] by (simp add: fun_eq_iff kt_map_def)
  then show ?thesis
    using key_tbl_copy_adds [OF small_tbl_ok small_tbl_ok float_consts_rat refl] by (auto simp: lists_fit_def)
qed

end
