(* ===== verification/Sketch_Query.thy ===== *)
theory Sketch_Query
  imports Sketch Floats
begin

text \<open>
  The queries of \<^verbatim>\<open>alg_sketchlearn.c\<close>: the counters of zero bits, the statistics of the bit counters, the
  search for large flows and the estimation of the size of a flow.  Floating-point arithmetic, \<^verbatim>\<open>qsort\<close> and
  \<^verbatim>\<open>erf\<close> are parameters.
\<close>

record 'f bit_info =
  bi_pos :: nat
  bi_guess :: nat
  bi_prob :: 'f

record 'f bit_dists =
  bit_mean :: "'f list"
  bit_std :: "'f list"

definition f_lit :: "'f float_ops \<Rightarrow> int \<Rightarrow> int \<Rightarrow> 'f" where
  "f_lit F a b = f_div F (f_of_int F a) (f_of_int F b)"

definition gaussian_prob :: "'f float_ops \<Rightarrow> 'f \<Rightarrow> 'f" where
  "gaussian_prob F d = f_sub F (f_of_int F 1) (f_erf F (f_div F d (f_sqrt F (f_of_int F 2))))"

definition min_conf :: "'f float_ops \<Rightarrow> 'f" where
  "min_conf F = f_lit F 95 100"

definition allow_bad_ratio :: "'f float_ops \<Rightarrow> 'f" where
  "allow_bad_ratio F = f_lit F 1 10"

definition f_of_u32 :: "'f float_ops \<Rightarrow> u32 \<Rightarrow> 'f" where
  "f_of_u32 F v = f_of_int F (sint v)"

section \<open>Statistics of the bit counters\<close>

text \<open>
  The loops of \<^verbatim>\<open>compute_bit_dists\<close> run over rows, buckets and bits; the sum for each bit is independent of
  the others and runs over the buckets in order.
\<close>

definition bit_ratio :: "'f float_ops \<Rightarrow> SketchLearn \<Rightarrow> nat \<Rightarrow> nat \<Rightarrow> 'f" where
  "bit_ratio F skl index k =
     f_div F (f_mul F (f_of_int F 1) (f_of_u32 F (counts skl ! index ! k))) (f_of_u32 F (counts skl ! index ! 0))"

definition mean_of :: "'f float_ops \<Rightarrow> SketchLearn \<Rightarrow> nat \<Rightarrow> 'f" where
  "mean_of F skl k =
     f_div F (f_div F (foldl (\<lambda>a index. f_add F a (bit_ratio F skl index (Suc k))) (f_of_int F 0)
                        [0..<depth skl * width skl])
        (f_of_int F (int (depth skl)))) (f_of_int F (int (width skl)))"

definition std_of :: "'f float_ops \<Rightarrow> SketchLearn \<Rightarrow> nat \<Rightarrow> 'f" where
  "std_of F skl k =
     (let m = mean_of F skl k;
          n = depth skl * width skl;
          s = foldl (\<lambda>a index. let d = f_sub F (bit_ratio F skl index (Suc k)) m in f_add F a (f_mul F d d))
                (f_of_int F 0) [0..<n]
      in f_mul F
           (f_sqrt F (f_div F (f_div F s (f_of_int F (int (depth skl)))) (f_of_int F (int (width skl)))))
           (f_sqrt F (f_of_int F (int (n div (n - 1))))))"

text \<open>The accesses of loops over all buckets and counters are inside the arrays.\<close>

definition counters_ok :: "SketchLearn \<Rightarrow> bool" where
  "counters_ok skl \<longleftrightarrow>
     depth skl * width skl \<le> length (counts skl) \<and> list_all (\<lambda>c. lgn skl * 2 < length c) (counts skl)"

text \<open>
  \<open>None\<close>: the key has more bits than the arrays have entries, or there is a single bucket and
  \<^verbatim>\<open>depth*width/(depth*width-1)\<close>, a division of integers, divides by 0.
\<close>

definition compute_bit_dists :: "'f float_ops \<Rightarrow> SketchLearn \<Rightarrow> 'f bit_dists \<Rightarrow> 'f bit_dists option" where
  "compute_bit_dists F skl bd =
     (if counters_ok skl \<and> lgn skl \<le> length (bit_mean bd) \<and> lgn skl \<le> length (bit_std bd) \<and>
         (depth skl * width skl \<noteq> 1 \<or> lgn skl = 0)
      then Some \<lparr>bit_mean = map (mean_of F skl) [0..<lgn skl] @ drop (lgn skl) (bit_mean bd),
                 bit_std = map (std_of F skl) [0..<lgn skl] @ drop (lgn skl) (bit_std bd)\<rparr>
      else None)"

definition complete_bucket :: "nat \<Rightarrow> u32 list \<Rightarrow> u32 list" where
  "complete_bucket n c = foldl (\<lambda>c' k. c'[k + n := c ! 0 - c' ! k]) c [1..<Suc n]"

definition SKL_CompleteZeroes ::
  "'f float_ops \<Rightarrow> SketchLearn \<Rightarrow> 'f bit_dists \<Rightarrow> (SketchLearn \<times> 'f bit_dists) option" where
  "SKL_CompleteZeroes F skl bd =
     (let skl' = skl\<lparr>counts := map (complete_bucket (lgn skl)) (counts skl)\<rparr>
      in if counters_ok skl then map_option (Pair skl') (compute_bit_dists F skl' bd) else None)"

section \<open>Guessing the bits of a large flow\<close>

text \<open>
  The two probabilities that \<^verbatim>\<open>skl_find_key_bits\<close>, \<^verbatim>\<open>skl_est_bucket_size\<close> and \<^verbatim>\<open>skl_est_bucket_prob\<close> compare
  for a bit that is not certain: \<^verbatim>\<open>p1\<close> and \<^verbatim>\<open>p2\<close> from the ratio, the share of the bit counter, its mean and its
  deviation.
\<close>

definition bit_probs :: "'f float_ops \<Rightarrow> 'f \<Rightarrow> 'f \<Rightarrow> 'f \<Rightarrow> 'f \<Rightarrow> 'f \<times> 'f" where
  "bit_probs F p ratio mean std =
     (let one = f_of_int F 1;
          r1 = f_div F (f_sub F p ratio) (f_sub F one ratio);
          r2 = f_div F p (f_sub F one ratio);
          d1 = f_div F (f_fabs F (f_sub F r1 mean)) std;
          d2 = f_div F (f_fabs F (f_sub F r2 mean)) std
      in (f_mul F (gaussian_prob F d1) mean, f_mul F (gaussian_prob F d2) (f_sub F one mean)))"

text \<open>
  One round of \<^verbatim>\<open>skl_find_key_bits\<close>, for the bit at position \<open>p\<close>: the guess, its probability, and whether
  the confidence is multiplied with it; \<open>None\<close> when the two probabilities do not decide.
\<close>

definition guess_bit ::
  "'f float_ops \<Rightarrow> u32 list \<Rightarrow> nat \<Rightarrow> 'f \<Rightarrow> 'f bit_dists \<Rightarrow> nat \<Rightarrow> (nat \<times> 'f \<times> bool) option" where
  "guess_bit F count len ratio bd p =
     (let one = f_of_int F 1;
          V = f_of_u32 F (count ! 0);
          lim = f_mul F (f_sub F one ratio) V
      in if f_le F lim (f_of_u32 F (count ! (p + 1))) then Some (1, one, False)
         else if f_le F lim (f_of_u32 F (count ! (p + 1 + len))) then Some (0, one, False)
         else case bit_probs F (f_div F (f_mul F one (f_of_u32 F (count ! (p + 1)))) V) ratio
                     (bit_mean bd ! p) (bit_std bd ! p) of
                (p1, p2) \<Rightarrow>
                  if f_less F p2 p1 then Some (1, f_div F p1 (f_add F p1 p2), True)
                  else if f_less F p1 p2 then Some (0, f_div F p2 (f_add F p1 p2), True)
                  else None)"

text \<open>
  The loop counts \<open>i\<close> down from \<open>len\<close>; \<open>k\<close> collects the byte, \<open>j\<close> is the weight of the bit.  The result is
  the confidence, the key and the guesses in the order they were made.
\<close>

fun find_bits ::
  "'f float_ops \<Rightarrow> u32 list \<Rightarrow> nat \<Rightarrow> 'f \<Rightarrow> 'f bit_dists \<Rightarrow> nat \<Rightarrow> u8 \<Rightarrow> u64 \<Rightarrow> 'f \<Rightarrow> u8 list \<Rightarrow> 'f bit_info list \<Rightarrow>
     'f \<times> u8 list \<times> 'f bit_info list" where
  "find_bits F count len ratio bd 0 k j conf ret infos = (conf, ret, infos)"
| "find_bits F count len ratio bd (Suc p) k j conf ret infos =
     (case (case guess_bit F count len ratio bd p of
              None \<Rightarrow> (k, conf, infos)
            | Some (g, pr, unsure) \<Rightarrow>
                (if g = 1 then k + ucast j else k, if unsure then f_mul F conf pr else conf,
                 infos @ [\<lparr>bi_pos = p, bi_guess = g, bi_prob = pr\<rparr>])) of
        (k', conf', infos') \<Rightarrow>
          if p mod 8 = 0 then find_bits F count len ratio bd p 0 1 conf' (ret[p div 8 := k']) infos'
          else find_bits F count len ratio bd p k' (push_bit 1 j) conf' ret infos')"

definition skl_find_key_bits ::
  "'f float_ops \<Rightarrow> u32 list \<Rightarrow> nat \<Rightarrow> 'f \<Rightarrow> 'f bit_dists \<Rightarrow> u8 list \<Rightarrow> ('f \<times> u8 list \<times> 'f bit_info list) option" where
  "skl_find_key_bits F count len ratio bd ret =
     (if len * 2 < length count \<and> len \<le> length (bit_mean bd) \<and> len \<le> length (bit_std bd) \<and>
         (len + 7) div 8 \<le> length ret \<and> len \<le> 104
      then Some (find_bits F count len ratio bd len 0 1 (f_of_int F 1) ret []) else None)"

section \<open>Enumerating keys\<close>

text \<open>
  \<^verbatim>\<open>enumerate_keys_search\<close> writes both values into each of the unsure bits in turn; the key it works on and
  the keys it has stored are passed through.
\<close>

fun enumerate_keys_search ::
  "u8 list \<Rightarrow> nat \<Rightarrow> 'f bit_info list \<Rightarrow> nat \<Rightarrow> u8 list list \<Rightarrow> (u8 list \<times> u8 list list) option" where
  "enumerate_keys_search orig key_len infos 0 ret =
     map_option (\<lambda>k. (orig, ret @ [k])) (copy_out orig 0 key_len)"
| "enumerate_keys_search orig key_len infos (Suc n) ret =
     (if n < length infos
      then Option.bind (set_bit_skl orig (bi_pos (infos ! n)) 0) (\<lambda>o1.
           Option.bind (enumerate_keys_search o1 key_len infos n ret) (\<lambda>(o2, ret2).
           Option.bind (set_bit_skl o2 (bi_pos (infos ! n)) 1) (\<lambda>o3.
             enumerate_keys_search o3 key_len infos n ret2)))
      else None)"

definition enumerate_keys ::
  "'f float_ops \<Rightarrow> u8 list \<Rightarrow> nat \<Rightarrow> 'f bit_info list \<Rightarrow> nat \<Rightarrow> nat \<Rightarrow> u8 list list option" where
  "enumerate_keys F orig key_len infos n_bit_info n =
     (if f_le F (f_of_int F (int n_bit_info)) (f_mul F (f_of_int F (int n)) (allow_bad_ratio F))
      then map_option snd (enumerate_keys_search orig key_len infos n_bit_info []) else Some [])"

section \<open>The estimate of one key\<close>

fun est_bits :: "nat \<Rightarrow> u8 \<Rightarrow> nat \<Rightarrow> nat \<Rightarrow> u32 list \<Rightarrow> int \<Rightarrow> int \<times> nat" where
  "est_bits 0 val len n c est = (est, len)"
| "est_bits (Suc j) val len n c est =
     (let v = sint (if val AND 1 = 1 then c ! len else c ! (len + n))
      in est_bits j (drop_bit 1 val) (len - 1) n c (if v < est then v else est))"

fun est_bytes :: "u8 list \<Rightarrow> nat \<Rightarrow> nat \<Rightarrow> nat \<Rightarrow> u32 list \<Rightarrow> int \<Rightarrow> int" where
  "est_bytes key 0 len n c est = est"
| "est_bytes key (Suc i) len n c est =
     (case est_bits 8 (key ! i) len n c est of (est', len') \<Rightarrow> est_bytes key i len' n c est')"

definition key_bucket :: "SketchLearn \<Rightarrow> nat \<Rightarrow> u8 list \<Rightarrow> u32 list option" where
  "key_bucket skl k key =
     (case row_hash skl k key of
        None \<Rightarrow> None
      | Some h \<Rightarrow>
          let index = k * width skl + unat h mod width skl
          in if width skl = 0 \<or> length (counts skl) \<le> index \<or> length (counts skl ! index) \<le> lgn skl * 2
             then None else Some (counts skl ! index))"

fun est_rows :: "SketchLearn \<Rightarrow> u8 list \<Rightarrow> nat list \<Rightarrow> int \<Rightarrow> int option" where
  "est_rows skl key [] ret_est = Some ret_est"
| "est_rows skl key (k # ks) ret_est =
     (case key_bucket skl k key of
        None \<Rightarrow> None
      | Some c \<Rightarrow>
          let est = est_bytes key (lgn skl div 8) (lgn skl) (lgn skl) c (sint (c ! 0))
          in est_rows skl key ks (if est < ret_est then est else ret_est))"

section \<open>Finding the large flows\<close>

text \<open>The number of guesses that are left to enumerate: \<^verbatim>\<open>pos+1\<close> after the scan from the end for a guess below \<^verbatim>\<open>min_conf\<close>.\<close>

fun unsure_bits :: "'f float_ops \<Rightarrow> 'f bit_info list \<Rightarrow> nat \<Rightarrow> nat" where
  "unsure_bits F infos 0 = 0"
| "unsure_bits F infos (Suc n) = (if f_less F (bi_prob (infos ! n)) (min_conf F) then Suc n else unsure_bits F infos n)"

record 'f found =
  fd_key :: "u8 list"
  fd_val :: int
  fd_conf :: "'f list"

definition confidences :: "'f float_ops \<Rightarrow> nat \<Rightarrow> u8 list \<Rightarrow> 'f bit_info list \<Rightarrow> 'f list" where
  "confidences F n guess infos =
     foldl (\<lambda>confs b. confs[bi_pos b :=
              (if get_bit guess (bi_pos b) = Some (int (bi_guess b)) then bi_prob b
               else f_sub F (f_of_int F 1) (bi_prob b))])
       (replicate n (f_of_int F 1)) infos"

text \<open>One guessed key \<^verbatim>\<open>guess\<close> of bucket \<open>j\<close> of row \<open>i\<close>; \<open>found\<close> is what the arrays \<^verbatim>\<open>keys\<close>, \<^verbatim>\<open>vals\<close> and \<^verbatim>\<open>confs\<close> hold.\<close>

definition try_guess ::
  "'f float_ops \<Rightarrow> SketchLearn \<Rightarrow> 'f \<Rightarrow> nat \<Rightarrow> nat \<Rightarrow> nat \<Rightarrow> 'f bit_info list \<Rightarrow> u8 list \<Rightarrow> 'f found list \<Rightarrow>
     'f found list result" where
  "try_guess F skl ratio max_ret i j infos guess found =
     (case row_hash skl i guess of
        None \<Rightarrow> Inl Invalid_access
      | Some h \<Rightarrow>
          if width skl = 0 then Inl Invalid_access
          else if unat h mod width skl \<noteq> j then Inr found
          else if guess \<in> fd_key ` set found then Inr found
          else if length found = max_ret then Inl (Exit_code (-1))
          else case est_rows skl guess [0..<depth skl] (sint (cnt skl i j 0)) of
                 None \<Rightarrow> Inl Invalid_access
               | Some ret_est \<Rightarrow>
                   if f_le F (f_mul F ratio (f_of_u32 F (cnt skl i j 0))) (f_of_int F ret_est)
                   then Inr (found @ [\<lparr>fd_key = guess, fd_val = ret_est,
                                       fd_conf = confidences F (lgn skl) guess infos\<rparr>])
                   else Inr found)"

fun try_guesses ::
  "('a \<Rightarrow> 'b \<Rightarrow> 'b result) \<Rightarrow> 'a list \<Rightarrow> 'b \<Rightarrow> 'b result" where
  "try_guesses f [] s = Inr s"
| "try_guesses f (x # xs) s = (case f x s of Inl err \<Rightarrow> Inl err | Inr s' \<Rightarrow> try_guesses f xs s')"

text \<open>
  The body of the loop over the buckets: the guesses it makes and what it does with them.  The shift
  \<^verbatim>\<open>1<<(pos+1)\<close> is undefined from 31 unsure bits on.  \<^verbatim>\<open>template_key\<close> has 13 bytes, of which those that
  count are overwritten for each bucket.
\<close>

definition bucket_guesses ::
  "'f float_ops \<Rightarrow> ('f bit_info list \<Rightarrow> 'f bit_info list) \<Rightarrow> SketchLearn \<Rightarrow> 'f bit_dists \<Rightarrow> 'f \<Rightarrow> nat \<Rightarrow> nat \<Rightarrow>
     ('f bit_info list \<times> u8 list list) option" where
  "bucket_guesses F qsort skl bd ratio i j =
     Option.bind (skl_find_key_bits F (counts skl ! (i * width skl + j)) (lgn skl) ratio bd (replicate 13 0))
       (\<lambda>(conf, template_key, infos).
          let infos1 = qsort infos; n = unsure_bits F infos1 (length infos1)
          in if 31 \<le> n then None
             else map_option (Pair infos1) (enumerate_keys F template_key (lgn skl div 8) infos1 n (lgn skl)))"

definition identify_bucket ::
  "'f float_ops \<Rightarrow> ('f bit_info list \<Rightarrow> 'f bit_info list) \<Rightarrow> SketchLearn \<Rightarrow> 'f bit_dists \<Rightarrow> 'f \<Rightarrow> nat \<Rightarrow>
     nat \<times> nat \<Rightarrow> 'f found list \<Rightarrow> 'f found list result" where
  "identify_bucket F qsort skl bd ratio max_ret ij found =
     (case ij of (i, j) \<Rightarrow>
      case bucket_guesses F qsort skl bd ratio i j of
        None \<Rightarrow> Inl Invalid_access
      | Some (infos1, guesses) \<Rightarrow> try_guesses (try_guess F skl ratio max_ret i j infos1) guesses found)"

definition SKL_Identify_Thresh ::
  "'f float_ops \<Rightarrow> ('f bit_info list \<Rightarrow> 'f bit_info list) \<Rightarrow> SketchLearn \<Rightarrow> 'f bit_dists \<Rightarrow> 'f \<Rightarrow> nat \<Rightarrow>
     ('f bit_dists \<times> 'f found list) result" where
  "SKL_Identify_Thresh F qsort skl bd ratio max_ret =
     (case compute_bit_dists F skl bd of
        None \<Rightarrow> Inl Invalid_access
      | Some bd' \<Rightarrow>
          (case try_guesses (identify_bucket F qsort skl bd' ratio max_ret)
                  (List.product [0..<depth skl] [0..<width skl]) [] of
             Inl err \<Rightarrow> Inl err
           | Inr found \<Rightarrow> Inr (bd', found)))"

section \<open>Estimates from a set of bits\<close>

text \<open>The smallest of the total and the counters that the bits of the key select, as in the first loop of
  \<^verbatim>\<open>skl_est_bucket_size\<close> and in \<^verbatim>\<open>SKL_Est_old\<close>.\<close>

fun naive_est :: "u32 list \<Rightarrow> nat \<Rightarrow> u8 list \<Rightarrow> nat list \<Rightarrow> int \<Rightarrow> int option" where
  "naive_est count len key [] est = Some est"
| "naive_est count len key (pos # bits) est =
     (case get_bit key pos of
        None \<Rightarrow> None
      | Some kb \<Rightarrow>
          let index = (if kb = 1 then pos + 1 else pos + 1 + len)
          in if index < length count
             then naive_est count len key bits (if sint (count ! index) < est then sint (count ! index) else est)
             else None)"

definition bit_size :: "'f float_ops \<Rightarrow> u32 list \<Rightarrow> nat \<Rightarrow> u8 list \<Rightarrow> 'f bit_dists \<Rightarrow> nat \<Rightarrow> int option" where
  "bit_size F count len key bd pos =
     (case get_bit key pos of
        None \<Rightarrow> None
      | Some kb \<Rightarrow>
          if pos + 1 + len < length count \<and> pos < length (bit_mean bd)
          then let one = f_of_int F 1; mean = bit_mean bd ! pos;
                   a = count ! (if kb = 1 then pos + 1 else pos + 1 + len);
                   b = count ! (if kb = 1 then pos + 1 + len else pos + 1)
               in if f_less F mean one \<and> f_less F (f_of_int F 0) mean
                  then let e = (if kb = 1
                                then f_mul F (f_div F (f_of_u32 F b) (f_sub F one mean)) mean
                                else f_mul F (f_div F (f_of_u32 F b) mean) (f_sub F one mean))
                       in case f_to_int F (f_sub F (f_of_u32 F a) e) of
                            None \<Rightarrow> None
                          | Some x \<Rightarrow> Some (if x < 0 then sint a else x)
                  else Some (sint a)
          else None)"

text \<open>
  The last loop of \<^verbatim>\<open>skl_est_bucket_size\<close>, and the whole of \<^verbatim>\<open>skl_est_bucket_prob\<close> with \<open>ret = 0\<close>: the
  probabilities of the bits.  The guess of an entry is left as it was when \<open>ret\<close> is negative.
\<close>

definition bit_prob ::
  "'f float_ops \<Rightarrow> u32 list \<Rightarrow> nat \<Rightarrow> u8 list \<Rightarrow> 'f bit_dists \<Rightarrow> int \<Rightarrow> nat \<Rightarrow> 'f bit_info \<Rightarrow> 'f bit_info" where
  "bit_prob F count len key bd ret pos old =
     (let one = f_of_int F 1; V = f_of_u32 F (count ! 0);
          ratio = f_div F (f_mul F one (f_of_int F ret)) V;
          lim = f_mul F (f_sub F one ratio) V;
          c = f_of_u32 F (count ! (pos + 1))
      in if ret < 0 then old\<lparr>bi_pos := pos, bi_prob := f_of_int F 0\<rparr>
         else if f_le F lim c then \<lparr>bi_pos = pos, bi_guess = 1, bi_prob = one\<rparr>
         else if f_le F lim (f_of_u32 F (count ! (pos + len + 1))) then \<lparr>bi_pos = pos, bi_guess = 0, bi_prob = one\<rparr>
         else case bit_probs F (f_div F (f_mul F one c) V) ratio (bit_mean bd ! pos) (bit_std bd ! pos) of
                (p1, p2) \<Rightarrow>
                  if get_bit key pos = Some 1
                  then \<lparr>bi_pos = pos, bi_guess = 1, bi_prob = f_div F p1 (f_add F p1 p2)\<rparr>
                  else \<lparr>bi_pos = pos, bi_guess = 0, bi_prob = f_div F p2 (f_add F p1 p2)\<rparr>)"

definition bucket_probs ::
  "'f float_ops \<Rightarrow> u32 list \<Rightarrow> nat \<Rightarrow> u8 list \<Rightarrow> 'f bit_dists \<Rightarrow> int \<Rightarrow> nat list \<Rightarrow> 'f bit_info list \<Rightarrow>
     'f bit_info list option" where
  "bucket_probs F count len key bd ret bits infos =
     (if length bits \<le> length infos \<and>
         list_all (\<lambda>pos. pos + 1 + len < length count \<and> pos < length (bit_mean bd) \<and> pos < length (bit_std bd) \<and>
                     pos div 8 < length key) bits
      then Some (map2 (bit_prob F count len key bd ret) bits infos @ drop (length bits) infos) else None)"

definition skl_est_bucket_prob ::
  "'f float_ops \<Rightarrow> u32 list \<Rightarrow> nat \<Rightarrow> u8 list \<Rightarrow> 'f bit_dists \<Rightarrow> nat list \<Rightarrow> 'f bit_info list \<Rightarrow>
     'f bit_info list option" where
  "skl_est_bucket_prob F count len key bd bits infos = bucket_probs F count len key bd 0 bits infos"

text \<open>
  \<open>None\<close> covers \<^verbatim>\<open>bit_est[n_bit/2-1]\<close> with fewer than two bits, which reads before the array, and the overflow
  of the sum of the two middle elements.
\<close>

definition skl_est_bucket_size ::
  "'f float_ops \<Rightarrow> (int list \<Rightarrow> int list) \<Rightarrow> u32 list \<Rightarrow> nat \<Rightarrow> u8 list \<Rightarrow> 'f bit_dists \<Rightarrow> nat list \<Rightarrow>
     'f bit_info list \<Rightarrow> (int \<times> 'f bit_info list) option" where
  "skl_est_bucket_size F qsort count len key bd bits infos =
     Option.bind (naive_est count len key bits (sint (count ! 0))) (\<lambda>naive.
     Option.bind (those (map (bit_size F count len key bd) bits)) (\<lambda>sizes.
       let n = length bits; est = qsort sizes
       in if 104 < n \<or> n < 2 then None
          else let ret = (if n div 2 = 1 then est ! (n div 2)
                          else (est ! (n div 2 - 1) + est ! (n div 2 - 1)) div 2);
                   ret' = (if naive < ret then naive else ret)
               in if n div 2 \<noteq> 1 \<and> \<not> (- INT_MAX - 1 \<le> 2 * est ! (n div 2 - 1) \<and> 2 * est ! (n div 2 - 1) \<le> INT_MAX)
                  then None
                  else map_option (Pair ret') (bucket_probs F count len key bd ret' bits infos)))"

fun est_size_rows ::
  "'f float_ops \<Rightarrow> (int list \<Rightarrow> int list) \<Rightarrow> SketchLearn \<Rightarrow> 'f bit_dists \<Rightarrow> u8 list \<Rightarrow> nat list \<Rightarrow> nat list \<Rightarrow>
     int \<times> 'f bit_info list \<Rightarrow> (int \<times> 'f bit_info list) option" where
  "est_size_rows F qsort skl bd key bits [] s = Some s"
| "est_size_rows F qsort skl bd key bits (k # ks) s =
     Option.bind (key_bucket skl k key) (\<lambda>c.
     Option.bind (skl_est_bucket_size F qsort c (lgn skl) key bd bits (snd s)) (\<lambda>(est, infos).
       est_size_rows F qsort skl bd key bits ks (if k = 0 \<or> est < fst s then est else fst s, infos)))"

definition SKL_Est_Size ::
  "'f float_ops \<Rightarrow> (int list \<Rightarrow> int list) \<Rightarrow> SketchLearn \<Rightarrow> 'f bit_dists \<Rightarrow> u8 list \<Rightarrow> nat list \<Rightarrow> 'f bit_info list \<Rightarrow>
     (int \<times> 'f bit_info list) option" where
  "SKL_Est_Size F qsort skl bd key bits infos = est_size_rows F qsort skl bd key bits [0..<depth skl] (0, infos)"

text \<open>The branch of \<^verbatim>\<open>SKL_Est_old\<close> for keys of which all bits are given.\<close>

fun est_old_rows :: "SketchLearn \<Rightarrow> u8 list \<Rightarrow> nat list \<Rightarrow> nat list \<Rightarrow> int \<Rightarrow> int option" where
  "est_old_rows skl key bits [] ret = Some ret"
| "est_old_rows skl key bits (k # ks) ret =
     Option.bind (key_bucket skl k key) (\<lambda>c.
     Option.bind (naive_est c (lgn skl) key bits (sint (c ! 0))) (\<lambda>est.
       est_old_rows skl key bits ks (if k = 0 \<or> est < ret then est else ret)))"

definition SKL_Est_old_full :: "SketchLearn \<Rightarrow> u8 list \<Rightarrow> nat list \<Rightarrow> int option" where
  "SKL_Est_old_full skl key bits = est_old_rows skl key bits [0..<depth skl] 0"

end
