(* ===== verification/Sketch_Estimate.thy ===== *)
theory Sketch_Estimate
  imports Sketch_Query
begin

text \<open>
  What the estimate of a flow size is worth: for streams of non-negative sizes whose sum fits a counter,
  it is never below the size of the flow, never above the bytes that share its buckets, and exact when one
  row has the flow alone in its bucket.
\<close>

section \<open>Sums without overflow\<close>

lemma sint_nonneg_uint: "0 \<le> sint (v :: u32) \<Longrightarrow> uint v = sint v"
  using sint_lt [of v] by (simp add: uint_sint take_bit_int_eq_self)

lemma sint_small: "uint (v :: u32) < 2 ^ 31 \<Longrightarrow> sint v = uint v"
proof -
  assume "uint v < 2 ^ 31"
  moreover have "- (2 ^ 31) \<le> uint v"
    using uint_ge_0 [of v] by (rule order_trans [rotated]) simp
  ultimately have "signed_take_bit 31 (uint v) = uint v"
    by (intro signed_take_bit_int_eq_self)
  then show ?thesis
    by (simp add: sint_uint)
qed

lemma sint_add:
  assumes "0 \<le> sint (a :: u32)" and "0 \<le> sint b" and "sint a + sint b < 2 ^ 31"
  shows "sint (a + b) = sint a + sint b"
proof -
  have "uint (a + b) = uint a + uint b"
    using assms sint_nonneg_uint [OF assms(1)] sint_nonneg_uint [OF assms(2)] by (simp add: uint_plus_if')
  then show ?thesis
    using assms sint_nonneg_uint [OF assms(1)] sint_nonneg_uint [OF assms(2)] sint_small [of "a + b"] by simp
qed

definition small_sizes :: "('k \<times> u32) list \<Rightarrow> bool" where
  "small_sizes us \<longleftrightarrow> (\<forall>u \<in> set us. 0 \<le> sint (snd u)) \<and> (\<Sum>u\<leftarrow>us. sint (snd u)) < 2 ^ 31"

lemma small_sizes_Cons: "small_sizes (u # us) \<Longrightarrow> small_sizes us"
  by (simp add: small_sizes_def)

lemma sum_sizes_mono:
  assumes "\<forall>u \<in> set us. 0 \<le> sint (snd u)" and "\<And>u. u \<in> set us \<Longrightarrow> P u \<Longrightarrow> Q u"
  shows "(\<Sum>u\<leftarrow>us. if P u then sint (snd u) else 0) \<le> (\<Sum>u\<leftarrow>us. if Q u then sint (snd u) else 0)"
  by (rule sum_list_mono) (use assms in auto)

lemma sum_sizes_le: "small_sizes us \<Longrightarrow> (\<Sum>u\<leftarrow>us. if P u then sint (snd u) else 0) < 2 ^ 31"
  using sum_sizes_mono [of us P "\<lambda>_. True"] by (simp add: small_sizes_def)

lemma sum_sizes_nonneg: "small_sizes us \<Longrightarrow> 0 \<le> (\<Sum>u\<leftarrow>us. if P u then sint (snd u) else 0)"
  by (rule sum_list_nonneg) (auto simp: small_sizes_def)

lemma sint_sum:
  "small_sizes us \<Longrightarrow>
     sint (\<Sum>u\<leftarrow>us. if P u then snd u else (0 :: u32)) = (\<Sum>u\<leftarrow>us. if P u then sint (snd u) else 0)"
proof (induction us)
  case (Cons u us)
  note IH = Cons.IH [OF small_sizes_Cons [OF Cons.prems]]
  show ?case
  proof (cases "P u")
    case True
    have "sint (snd u) + (\<Sum>u\<leftarrow>us. if P u then sint (snd u) else 0) < 2 ^ 31"
      using sum_sizes_le [OF Cons.prems, of P] True by simp
    moreover have "0 \<le> sint (snd u)"
      using Cons.prems by (simp add: small_sizes_def)
    ultimately show ?thesis
      using IH True sum_sizes_nonneg [OF small_sizes_Cons [OF Cons.prems], of P] by (simp add: sint_add)
  qed (use IH in simp)
qed simp

section \<open>The minimum over bits and rows\<close>

text \<open>The counter that bit \<open>p\<close> of a key selects.\<close>

definition sel :: "nat \<Rightarrow> u8 list \<Rightarrow> nat \<Rightarrow> nat" where
  "sel n key p = (if key_bit key p then p + 1 else p + 1 + n)"

lemma est_bits_spec:
  assumes "m \<le> len"
  shows "snd (est_bits m val len n c est) = len - m"
    and "x \<le> fst (est_bits m val len n c est) \<longleftrightarrow>
      x \<le> est \<and> (\<forall>j < m. x \<le> sint (c ! (if bit val j then len - j else len - j + n)))"
proof -
  have "snd (est_bits m val len n c est) = len - m \<and>
     (x \<le> fst (est_bits m val len n c est) \<longleftrightarrow>
      x \<le> est \<and> (\<forall>j < m. x \<le> sint (c ! (if bit val j then len - j else len - j + n))))"
    using assms
  proof (induction m arbitrary: val len est)
    case (Suc m)
    let ?v = "sint (if val AND 1 = 1 then c ! len else c ! (len + n))"
    let ?Q = "\<lambda>j. x \<le> sint (c ! (if bit val j then len - j else len - j + n))"
    have v: "x \<le> ?v \<longleftrightarrow> ?Q 0"
      by (simp add: bit_drop_and)
    have shift: "sint (c ! (if bit (drop_bit 1 val) j then len - 1 - j else len - 1 - j + n)) =
        sint (c ! (if bit val (Suc j) then len - Suc j else len - Suc j + n))" for j
      by (simp add: bit_drop_bit_eq)
    have "x \<le> (if ?v < est then ?v else est) \<longleftrightarrow> x \<le> est \<and> x \<le> ?v"
      by auto
    moreover have "(\<forall>j < Suc m. ?Q j) \<longleftrightarrow> ?Q 0 \<and> (\<forall>j < m. ?Q (Suc j))"
      by (auto simp: less_Suc_eq_0_disj)
    ultimately show ?case
      using Suc.IH [of "len - 1" "drop_bit 1 val" "if ?v < est then ?v else est"] Suc.prems v
      by (simp only: est_bits.simps Let_def shift) auto
  qed simp
  then show "snd (est_bits m val len n c est) = len - m"
    "x \<le> fst (est_bits m val len n c est) \<longleftrightarrow>
      x \<le> est \<and> (\<forall>j < m. x \<le> sint (c ! (if bit val j then len - j else len - j + n)))"
    by blast+
qed

lemma all_less_mult_8: "(\<forall>p < 8 * Suc i. P p) \<longleftrightarrow> (\<forall>p < 8 * i. P p) \<and> (\<forall>j < 8. P (8 * i + 7 - j))"
proof -
  have "P p" if "\<forall>j < 8. P (8 * i + 7 - j)" "8 * i \<le> p" "p < 8 * Suc i" for p
    using that(1) [rule_format, of "8 * i + 7 - p"] that(2,3) by simp
  then have "P p" if "\<forall>p < 8 * i. P p" "\<forall>j < 8. P (8 * i + 7 - j)" "p < 8 * Suc i" for p
    using that by (cases "p < 8 * i") (simp_all only: not_less)
  then show ?thesis
    by auto
qed

lemma est_bytes_spec:
  "x \<le> est_bytes key i (8 * i) n c est \<longleftrightarrow> x \<le> est \<and> (\<forall>p < 8 * i. x \<le> sint (c ! sel n key p))"
proof (induction i arbitrary: est)
  case (Suc i)
  let ?r = "est_bits 8 (key ! i) (8 * Suc i) n c est"
  have r: "snd ?r = 8 * i" "x \<le> fst ?r \<longleftrightarrow>
      x \<le> est \<and> (\<forall>j < 8. x \<le> sint (c ! (if bit (key ! i) j then 8 * Suc i - j else 8 * Suc i - j + n)))"
    using est_bits_spec [where m = 8 and len = "8 * Suc i" and val = "key ! i" and n = n and c = c and est = est]
    by simp_all
  have idx: "(if bit (key ! i) j then 8 * Suc i - j else 8 * Suc i - j + n) = sel n key (8 * i + 7 - j)" if "j < 8" for j
  proof -
    have "(8 * i + 7 - j) div 8 = i" "(8 * i + 7 - j) mod 8 = 7 - j" "8 * Suc i - j = 8 * i + 7 - j + 1"
      using that by (simp_all add: div_nat_eqI mod_nat_eqI)
    then show ?thesis
      using that by (simp add: sel_def key_bit_def)
  qed
  have "est_bytes key (Suc i) (8 * Suc i) n c est = est_bytes key i (8 * i) n c (fst ?r)"
    using r(1) by (simp add: case_prod_beta del: est_bits.simps)
  then show ?case
    using Suc.IH [of "fst ?r"] r(2) idx by (simp add: all_less_mult_8 conj_ac del: est_bits.simps mult_Suc_right)
qed simp

lemma key_bucket_Some:
  assumes "skl_ok skl" and "key_ok skl key" and "i < depth skl"
  shows "key_bucket skl i key = Some (counts skl ! (i * width skl + bucket skl i key))"
proof -
  obtain h where h: "row_hash skl i key = Some h"
    using row_hash_Some [OF assms] by blast
  have "i * width skl + bucket skl i key < length (counts skl)"
    using index_less [OF assms(3) bucket_less [OF assms(1)]] assms(1) by (simp add: skl_ok_def)
  then have "length (counts skl ! (i * width skl + bucket skl i key)) = 1 + lgn skl * 2"
    "\<not> length (counts skl) \<le> i * width skl + bucket skl i key"
    using assms(1) by (simp_all add: skl_ok_def)
  then show ?thesis
    using assms(1) h by (simp add: key_bucket_def Let_def skl_ok_def bucket_def)
qed

text \<open>The value of the estimate in one row, and over rows, is the minimum of the selected counters.\<close>

lemma est_rows_spec:
  assumes "skl_ok skl" and "key_ok skl key" and "\<forall>i \<in> set ks. i < depth skl"
  shows "\<exists>r. est_rows skl key ks est = Some r \<and>
     (\<forall>x. x \<le> r \<longleftrightarrow> x \<le> est \<and> (\<forall>i \<in> set ks. x \<le> sint (cnt skl i (bucket skl i key) 0) \<and>
        (\<forall>p < lgn skl. x \<le> sint (cnt skl i (bucket skl i key) (sel (lgn skl) key p)))))"
  using assms(3)
proof (induction ks arbitrary: est)
  case (Cons k ks)
  let ?c = "counts skl ! (k * width skl + bucket skl k key)"
  let ?e = "est_bytes key (lgn skl div 8) (lgn skl) (lgn skl) ?c (sint (?c ! 0))"
  have "8 * (lgn skl div 8) = lgn skl"
    using assms(1) by (simp add: skl_ok_def)
  then have e: "x \<le> ?e \<longleftrightarrow> x \<le> sint (?c ! 0) \<and> (\<forall>p < lgn skl. x \<le> sint (?c ! sel (lgn skl) key p))" for x
    using est_bytes_spec [of x key "lgn skl div 8" "lgn skl" ?c] by simp
  have min: "x \<le> (if ?e < est then ?e else est) \<longleftrightarrow> x \<le> est \<and> x \<le> ?e" for x
    by auto
  have "est_rows skl key (k # ks) est = est_rows skl key ks (if ?e < est then ?e else est)"
    using key_bucket_Some [OF assms(1,2), of k] Cons.prems by simp
  then show ?case
    using Cons.IH [of "if ?e < est then ?e else est"] Cons.prems by (auto simp: min e cnt_def)
qed auto

lemma est_all_rows:
  assumes "skl_ok skl" and "key_ok skl key"
  obtains r where "est_rows skl key [0..<depth skl] est = Some r"
    and "\<And>x. x \<le> r \<longleftrightarrow> x \<le> est \<and> (\<forall>i < depth skl. x \<le> sint (cnt skl i (bucket skl i key) 0) \<and>
       (\<forall>p < lgn skl. x \<le> sint (cnt skl i (bucket skl i key) (sel (lgn skl) key p))))"
  using est_rows_spec [OF assms, of "[0..<depth skl]" est] that by (simp add: Ball_def) blast

section \<open>Counters of zero bits\<close>

lemma complete_prefix:
  assumes "m \<le> n" and "length c = 1 + n * 2"
  defines "c' \<equiv> foldl (\<lambda>c' k. c'[k + n := c ! 0 - c' ! k]) c [1..<Suc m]"
  shows "length c' = length c \<and>
     (\<forall>k < length c. c' ! k = (if n < k \<and> k \<le> n + m then c ! 0 - c ! (k - n) else c ! k))"
  using assms(1) unfolding c'_def
proof (induction m)
  case (Suc m)
  let ?f = "\<lambda>c' k. c'[k + n := c ! 0 - c' ! k]"
  let ?d = "foldl ?f c [1..<Suc m]"
  have IH: "length ?d = length c" "\<And>k. k < length c \<Longrightarrow>
      ?d ! k = (if n < k \<and> k \<le> n + m then c ! 0 - c ! (k - n) else c ! k)"
    using Suc by simp_all
  have "?d ! Suc m = c ! Suc m"
    using IH(2) [of "Suc m"] Suc.prems assms(2) by simp
  then have eq: "foldl ?f c [1..<Suc (Suc m)] = ?d[Suc m + n := c ! 0 - c ! Suc m]"
    by simp
  have "?d[Suc m + n := c ! 0 - c ! Suc m] ! k = (if n < k \<and> k \<le> n + Suc m then c ! 0 - c ! (k - n) else c ! k)"
    if "k < length c" for k
  proof (cases "k = Suc m + n")
    case True
    then show ?thesis
      using that IH(1) by simp
  next
    case False
    then have "n < k \<and> k \<le> n + Suc m \<longleftrightarrow> n < k \<and> k \<le> n + m"
      by linarith
    then show ?thesis
      using False that IH(2) [of k] by simp
  qed
  then show ?case
    unfolding eq using IH(1) by simp
qed auto

lemma complete_bucket_spec:
  assumes "length c = 1 + n * 2"
  shows "length (complete_bucket n c) = length c"
    and "k \<le> n \<Longrightarrow> complete_bucket n c ! k = c ! k"
    and "p < n \<Longrightarrow> complete_bucket n c ! (p + 1 + n) = c ! 0 - c ! (p + 1)"
  using complete_prefix [OF order_refl assms] by (simp_all add: complete_bucket_def assms)

text \<open>The counts after \<^verbatim>\<open>SKL_CompleteZeroes\<close>.\<close>

definition completed :: "SketchLearn \<Rightarrow> SketchLearn" where
  "completed skl = skl\<lparr>counts := map (complete_bucket (lgn skl)) (counts skl)\<rparr>"

lemma completed_ok:
  assumes "skl_ok skl"
  shows "skl_ok (completed skl)" and "same_shape skl (completed skl)"
  using assms by (auto simp: skl_ok_def completed_def complete_bucket_spec(1))

lemma cnt_completed:
  assumes "skl_ok skl" and "i < depth skl" and "j < width skl"
  shows "k \<le> lgn skl \<Longrightarrow> cnt (completed skl) i j k = cnt skl i j k"
    and "p < lgn skl \<Longrightarrow> cnt (completed skl) i j (p + 1 + lgn skl) = cnt skl i j 0 - cnt skl i j (p + 1)"
proof -
  have x: "i * width skl + j < length (counts skl)"
    using index_less [OF assms(2,3)] assms(1) by (simp add: skl_ok_def)
  then have len: "length (counts skl ! (i * width skl + j)) = 1 + lgn skl * 2"
    using assms(1) by (simp add: skl_ok_def)
  show "k \<le> lgn skl \<Longrightarrow> cnt (completed skl) i j k = cnt skl i j k"
    "p < lgn skl \<Longrightarrow> cnt (completed skl) i j (p + 1 + lgn skl) = cnt skl i j 0 - cnt skl i j (p + 1)"
    using x complete_bucket_spec(2,3) [OF len] by (simp_all add: cnt_def completed_def)
qed

text \<open>What the counter that a bit of a key selects has counted: the updates whose keys agree in that bit.\<close>

lemma cnt_sel:
  assumes "skl_ok s" and "same_shape skl s" and "i < depth skl" and "j < width skl" and "p < lgn skl"
    and "\<And>k. k \<le> lgn skl \<Longrightarrow> cnt s i j k = (\<Sum>u\<leftarrow>us. if counts_in skl i j k (fst u) then snd u else 0)"
  shows "cnt (completed s) i j (sel (lgn skl) key p) =
     (\<Sum>u\<leftarrow>us. if bucket skl i (fst u) = j \<and> key_bit (fst u) p = key_bit key p then snd u else 0)"
proof -
  note shape = same_shape_simps [OF assms(2)]
  have c: "cnt s i j 0 = (\<Sum>u\<leftarrow>us. if bucket skl i (fst u) = j then snd u else 0)"
    "cnt s i j (p + 1) = (\<Sum>u\<leftarrow>us. if bucket skl i (fst u) = j \<and> key_bit (fst u) p then snd u else 0)"
    using assms(6) [of 0] assms(6) [of "p + 1"] assms(5) by (simp_all add: counts_in_def)
  have "cnt s i j 0 - cnt s i j (p + 1) =
      (\<Sum>u\<leftarrow>us. if bucket skl i (fst u) = j \<and> \<not> key_bit (fst u) p then snd u else 0)"
    unfolding c sum_list_subtractf [symmetric] by (intro arg_cong [where f = sum_list] map_cong) auto
  then show ?thesis
    using cnt_completed [OF assms(1), of i j] assms(3-5) c(2) by (simp add: sel_def shape)
qed

section \<open>Bounds of the estimate\<close>

definition same_flow :: "SketchLearn \<Rightarrow> u8 list \<Rightarrow> u8 list \<Rightarrow> bool" where
  "same_flow skl a b \<longleftrightarrow> take (lgn skl div 8) a = take (lgn skl div 8) b"

lemma bucket_same_flow:
  assumes "same_flow skl a b"
  shows "bucket skl i a = bucket skl i b"
proof -
  have "row_hash skl i a = row_hash skl i b"
    unfolding row_hash_def
    by (metis AwareHash_take assms same_flow_def)
  then show ?thesis
    by (simp add: bucket_def)
qed

lemma key_bit_same_flow:
  assumes "same_flow skl a b" and "8 dvd lgn skl" and "p < lgn skl"
  shows "key_bit a p = key_bit b p"
proof -
  have "p div 8 < lgn skl div 8"
    using assms(2,3) by (simp add: div_less_iff_less_mult)
  then have "a ! (p div 8) = b ! (p div 8)"
    using assms(1) nth_take [of "p div 8" "lgn skl div 8"] by (metis same_flow_def)
  then show ?thesis
    by (simp add: key_bit_def)
qed

abbreviation sizes :: "('k \<times> u32) list \<Rightarrow> ('k \<Rightarrow> bool) \<Rightarrow> int" where
  "sizes us P \<equiv> \<Sum>u\<leftarrow>us. if P (fst u) then sint (snd u) else 0"

lemma selected_bounds:
  assumes "skl_ok s" and "same_shape skl s" and "small_sizes us" and "i < depth skl"
    and "\<And>k. k \<le> lgn skl \<Longrightarrow> cnt s i (bucket skl i key) k =
       (\<Sum>u\<leftarrow>us. if counts_in skl i (bucket skl i key) k (fst u) then snd u else 0)"
  shows "sint (cnt (completed s) i (bucket skl i key) 0) = sizes us (\<lambda>k. bucket skl i k = bucket skl i key)"
    and "p < lgn skl \<Longrightarrow> sizes us (same_flow skl key) \<le> sint (cnt (completed s) i (bucket skl i key) (sel (lgn skl) key p))"
proof -
  note shape = same_shape_simps [OF assms(2)]
  have j: "bucket skl i key < width skl"
    using bucket_less [OF assms(1), of i key] by (simp add: shape)
  have dvd: "8 dvd lgn skl"
    using assms(1) shape by (simp add: skl_ok_def)
  have "cnt (completed s) i (bucket skl i key) 0 = (\<Sum>u\<leftarrow>us. if bucket skl i (fst u) = bucket skl i key then snd u else 0)"
    using cnt_completed(1) [OF assms(1), of i "bucket skl i key" 0] assms(4) j assms(5) [of 0] by (simp add: shape counts_in_def)
  then show "sint (cnt (completed s) i (bucket skl i key) 0) = sizes us (\<lambda>k. bucket skl i k = bucket skl i key)"
    using sint_sum [OF assms(3)] by simp
  assume p: "p < lgn skl"
  have "sint (cnt (completed s) i (bucket skl i key) (sel (lgn skl) key p)) =
      sizes us (\<lambda>k. bucket skl i k = bucket skl i key \<and> key_bit k p = key_bit key p)"
    using cnt_sel [OF assms(1,2,4) j p assms(5), of key] sint_sum [OF assms(3)] by simp
  also have "\<dots> \<ge> sizes us (same_flow skl key)"
    using assms(3) bucket_same_flow [of skl] key_bit_same_flow [OF _ dvd p]
    by (intro sum_sizes_mono) (auto simp: small_sizes_def)
  finally show "sizes us (same_flow skl key) \<le> sint (cnt (completed s) i (bucket skl i key) (sel (lgn skl) key p))" .
qed

lemma CompleteZeroes_Some:
  assumes "skl_ok s" and "lgn s \<le> length (bit_mean bd)" and "lgn s \<le> length (bit_std bd)"
    and "depth s * width s \<noteq> 1"
  shows "\<exists>bd'. SKL_CompleteZeroes F s bd = Some (completed s, bd')"
proof -
  have ok: "counters_ok s" "counters_ok (completed s)"
    using assms(1) completed_ok(1) [OF assms(1)] same_shape_simps [OF completed_ok(2) [OF assms(1)]]
    by (auto simp: counters_ok_def skl_ok_def list_all_iff mult.commute)
  have "SKL_CompleteZeroes F s bd = map_option (Pair (completed s)) (compute_bit_dists F (completed s) bd)"
    using ok(1) by (simp add: SKL_CompleteZeroes_def completed_def Let_def)
  then show ?thesis
    using assms(2-4) ok(2) same_shape_simps [OF completed_ok(2) [OF assms(1)]]
    by (simp add: compute_bit_dists_def)
qed

text \<open>
  Claim C25. The estimate that \<^verbatim>\<open>SKL_Identify_Thresh\<close> computes for a key is sound: after a stream of
  non-negative sizes whose sum fits a counter, and \<^verbatim>\<open>SKL_CompleteZeroes\<close>, it is at least the true size of
  the flow and at most what shares its bucket in any row, and so exact as soon as one row has the flow
  alone in its bucket.
\<close>

theorem SKL_estimate_bounds:
  assumes "skl_ok skl" and "\<forall>u \<in> set us. key_ok skl (fst u)" and "small_sizes us"
    and "key_ok skl key" and "i < depth skl"
    and "lgn skl \<le> length (bit_mean bd)" and "lgn skl \<le> length (bit_std bd)" and "depth skl * width skl \<noteq> 1"
  shows "\<exists>s s' bd' r. SKL_Updates (SKL_Reset skl) us = Some s \<and> SKL_CompleteZeroes F s bd = Some (s', bd') \<and>
     est_rows s' key [0..<depth skl] (sint (cnt s' i (bucket skl i key) 0)) = Some r \<and>
     sizes us (same_flow skl key) \<le> r \<and>
     (\<forall>i' < depth skl. r \<le> sizes us (\<lambda>k. bucket skl i' k = bucket skl i' key) \<and>
        ((\<forall>u \<in> set us. bucket skl i' (fst u) = bucket skl i' key \<longrightarrow> same_flow skl key (fst u)) \<longrightarrow>
           r = sizes us (same_flow skl key)))"
proof -
  obtain s where s: "SKL_Updates (SKL_Reset skl) us = Some s" "skl_ok s" "same_shape skl s"
    "\<And>i j k. i < depth skl \<Longrightarrow> j < width skl \<Longrightarrow> k \<le> 2 * lgn skl \<Longrightarrow>
       cnt s i j k = (\<Sum>u\<leftarrow>us. if counts_in skl i j k (fst u) then snd u else 0)"
    using SKL_stream_spec [OF assms(1,2)] by blast
  note shape = same_shape_simps [OF same_shape_trans [OF s(3) completed_ok(2) [OF s(2)]]]
  obtain bd' where bd': "SKL_CompleteZeroes F s bd = Some (completed s, bd')"
    using CompleteZeroes_Some [OF s(2)] assms(6-8) same_shape_simps [OF s(3)] by metis
  have sel: "sint (cnt (completed s) k (bucket skl k key) 0) = sizes us (\<lambda>x. bucket skl k x = bucket skl k key)"
    "p < lgn skl \<Longrightarrow> sizes us (same_flow skl key) \<le> sint (cnt (completed s) k (bucket skl k key) (sel (lgn skl) key p))"
    if "k < depth skl" for k p
    using selected_bounds [OF s(2,3) assms(3) that, of key] s(4) [OF that bucket_less [OF assms(1)]] by simp_all
  have flow: "sizes us (same_flow skl key) \<le> sizes us (\<lambda>x. bucket skl k x = bucket skl k key)" for k
    using assms(3) bucket_same_flow [of skl key] by (intro sum_sizes_mono) (auto simp: small_sizes_def)
  obtain r where r: "est_rows (completed s) key [0..<depth skl] (sint (cnt (completed s) i (bucket skl i key) 0)) = Some r"
    "\<And>x. x \<le> r \<longleftrightarrow> x \<le> sint (cnt (completed s) i (bucket skl i key) 0) \<and>
       (\<forall>k < depth skl. x \<le> sint (cnt (completed s) k (bucket skl k key) 0) \<and>
          (\<forall>p < lgn skl. x \<le> sint (cnt (completed s) k (bucket skl k key) (sel (lgn skl) key p))))"
    using est_all_rows [OF completed_ok(1) [OF s(2)], of key "sint (cnt (completed s) i (bucket skl i key) 0)"] assms(4)
    unfolding shape by blast
  have low: "sizes us (same_flow skl key) \<le> r"
    unfolding r(2) using sel flow assms(5) by simp
  have up: "r \<le> sizes us (\<lambda>k. bucket skl i' k = bucket skl i' key)" if "i' < depth skl" for i'
    using r(2) [of r] that unfolding sel(1) [OF that, symmetric] by blast
  have exact: "r = sizes us (same_flow skl key)"
    if "i' < depth skl" "\<forall>u \<in> set us. bucket skl i' (fst u) = bucket skl i' key \<longrightarrow> same_flow skl key (fst u)" for i'
  proof -
    have "sizes us (\<lambda>k. bucket skl i' k = bucket skl i' key) \<le> sizes us (same_flow skl key)"
      using assms(3) that(2) by (intro sum_sizes_mono) (auto simp: small_sizes_def)
    then show ?thesis
      using low up [OF that(1)] by linarith
  qed
  show ?thesis
    using s(1) bd' r(1) low up exact by blast
qed


theorem SKL_estimate_bounds_witness:
  "\<exists>s s' bd' r. SKL_Updates (SKL_Reset small_skl) [([7], 5), ([9], 3), ([7], 4)] = Some s \<and>
     SKL_CompleteZeroes rat_ops s \<lparr>bit_mean = replicate 8 0, bit_std = replicate 8 0\<rparr> = Some (s', bd') \<and>
     est_rows s' [7] [0..<2] (sint (cnt s' 1 (bucket small_skl 1 [7]) 0)) = Some r \<and> 9 \<le> r"
proof -
  let ?us = "[([7], 5), ([9], 3), ([7], 4)] :: (u8 list \<times> u32) list"
  let ?bd = "\<lparr>bit_mean = replicate 8 0, bit_std = replicate 8 0\<rparr> :: rat bit_dists"
  have small: "depth small_skl = 2" "width small_skl = 3" "lgn small_skl = 8"
    by (simp_all add: small_skl_def)
  have "\<forall>u \<in> set ?us. key_ok small_skl (fst u)" "small_sizes ?us" "key_ok small_skl [7]"
    by (simp_all add: key_ok_def small small_sizes_def)
  moreover have "sizes ?us (same_flow small_skl [7]) = 9"
    by (simp add: same_flow_def small)
  ultimately show ?thesis
    using SKL_estimate_bounds [OF small_skl_ok, of ?us "[7]" 1 ?bd rat_ops] by (auto simp: small)
qed

section \<open>Estimates from given bits\<close>

lemma naive_est_spec:
  assumes "\<forall>p \<in> set bits. p div 8 < length key \<and> p + 1 + n < length c"
  shows "\<exists>r. naive_est c n key bits est = Some r \<and> (\<forall>x. x \<le> r \<longleftrightarrow> x \<le> est \<and> (\<forall>p \<in> set bits. x \<le> sint (c ! sel n key p)))"
  using assms
proof (induction bits arbitrary: est)
  case (Cons p bits)
  let ?v = "sint (c ! sel n key p)"
  have "(if (if key_bit key p then 1 else 0 :: int) = 1 then p + 1 else p + 1 + n) = sel n key p"
    by (simp add: sel_def)
  then have "naive_est c n key (p # bits) est = naive_est c n key bits (if ?v < est then ?v else est)"
    using Cons.prems by (simp add: get_bit_key_bit Let_def sel_def)
  moreover have "x \<le> (if ?v < est then ?v else est) \<longleftrightarrow> x \<le> est \<and> x \<le> ?v" for x
    by auto
  ultimately show ?case
    using Cons.IH [of "if ?v < est then ?v else est"] Cons.prems by auto
qed auto

lemma row_naive:
  assumes "skl_ok skl" and "key_ok skl key" and "i < depth skl" and "\<forall>p \<in> set bits. p < lgn skl"
  defines "c \<equiv> counts skl ! (i * width skl + bucket skl i key)"
  shows "\<exists>r. naive_est c (lgn skl) key bits (sint (c ! 0)) = Some r \<and>
     (\<forall>x. x \<le> r \<longleftrightarrow> x \<le> sint (cnt skl i (bucket skl i key) 0) \<and>
       (\<forall>p \<in> set bits. x \<le> sint (cnt skl i (bucket skl i key) (sel (lgn skl) key p))))"
proof -
  have "i * width skl + bucket skl i key < length (counts skl)"
    using index_less [OF assms(3) bucket_less [OF assms(1)]] assms(1) by (simp add: skl_ok_def)
  then have "length c = 1 + lgn skl * 2"
    using assms(1) by (simp add: skl_ok_def c_def)
  moreover have "p div 8 < length key" if "p < lgn skl" for p
  proof -
    have "p div 8 < lgn skl div 8"
      using that assms(1) by (simp add: skl_ok_def div_less_iff_less_mult)
    then show ?thesis
      using assms(2) by (simp add: key_ok_def)
  qed
  ultimately have "\<forall>p \<in> set bits. p div 8 < length key \<and> p + 1 + lgn skl < length c"
    using assms(4) by auto
  from naive_est_spec [OF this, of "sint (c ! 0)"] show ?thesis
    by (simp add: cnt_def c_def)
qed

lemma est_old_rows_spec:
  assumes "skl_ok skl" and "key_ok skl key" and "\<forall>i \<in> set ks. i < depth skl \<and> i \<noteq> 0" and "\<forall>p \<in> set bits. p < lgn skl"
  shows "\<exists>r. est_old_rows skl key bits ks est = Some r \<and>
     (\<forall>x. x \<le> r \<longleftrightarrow> x \<le> est \<and> (\<forall>i \<in> set ks. x \<le> sint (cnt skl i (bucket skl i key) 0) \<and>
        (\<forall>p \<in> set bits. x \<le> sint (cnt skl i (bucket skl i key) (sel (lgn skl) key p)))))"
  using assms(3)
proof (induction ks arbitrary: est)
  case (Cons k ks)
  obtain e where e: "naive_est (counts skl ! (k * width skl + bucket skl k key)) (lgn skl) key bits
      (sint (counts skl ! (k * width skl + bucket skl k key) ! 0)) = Some e"
    "\<And>x. x \<le> e \<longleftrightarrow> x \<le> sint (cnt skl k (bucket skl k key) 0) \<and>
       (\<forall>p \<in> set bits. x \<le> sint (cnt skl k (bucket skl k key) (sel (lgn skl) key p)))"
    using row_naive [OF assms(1,2) _ assms(4), of k] Cons.prems by auto
  have "est_old_rows skl key bits (k # ks) est = est_old_rows skl key bits ks (if e < est then e else est)"
    using key_bucket_Some [OF assms(1,2), of k] Cons.prems e(1) by simp
  moreover have "x \<le> (if e < est then e else est) \<longleftrightarrow> x \<le> est \<and> x \<le> e" for x
    by auto
  ultimately show ?case
    using Cons.IH [of "if e < est then e else est"] Cons.prems by (auto simp: e(2))
qed auto

lemma est_old_spec:
  assumes "skl_ok skl" and "key_ok skl key" and "0 < depth skl" and "\<forall>p \<in> set bits. p < lgn skl"
  obtains r where "SKL_Est_old_full skl key bits = Some r"
    and "\<And>x. x \<le> r \<longleftrightarrow> (\<forall>i < depth skl. x \<le> sint (cnt skl i (bucket skl i key) 0) \<and>
       (\<forall>p \<in> set bits. x \<le> sint (cnt skl i (bucket skl i key) (sel (lgn skl) key p))))"
proof -
  obtain e where e: "naive_est (counts skl ! bucket skl 0 key) (lgn skl) key bits
      (sint (counts skl ! bucket skl 0 key ! 0)) = Some e"
    "\<And>x. x \<le> e \<longleftrightarrow> x \<le> sint (cnt skl 0 (bucket skl 0 key) 0) \<and>
       (\<forall>p \<in> set bits. x \<le> sint (cnt skl 0 (bucket skl 0 key) (sel (lgn skl) key p)))"
    using row_naive [OF assms(1,2,3,4)] by auto
  have rows: "[0..<depth skl] = 0 # [1..<depth skl]" "\<forall>i \<in> set [1..<depth skl]. i < depth skl \<and> i \<noteq> 0"
    using assms(3) by (simp_all add: upt_conv_Cons)
  obtain r where r: "est_old_rows skl key bits [1..<depth skl] e = Some r"
    "\<And>x. x \<le> r \<longleftrightarrow> x \<le> e \<and> (\<forall>i \<in> set [1..<depth skl]. x \<le> sint (cnt skl i (bucket skl i key) 0) \<and>
        (\<forall>p \<in> set bits. x \<le> sint (cnt skl i (bucket skl i key) (sel (lgn skl) key p))))"
    using est_old_rows_spec [OF assms(1,2) rows(2) assms(4)] by blast
  have "SKL_Est_old_full skl key bits = Some r"
    using key_bucket_Some [OF assms(1,2,3)] e(1) r(1) by (simp add: SKL_Est_old_full_def rows(1))
  moreover have "(\<forall>i < depth skl. P i) \<longleftrightarrow> P 0 \<and> (\<forall>i \<in> set [1..<depth skl]. P i)" for P
    using assms(3) by (auto simp: Suc_le_eq)
  ultimately show ?thesis
    by (intro that [of r]) (simp_all only: r(2) e(2))
qed

text \<open>
  \<^verbatim>\<open>SKL_Est_old\<close> with all bits of the key given returns an estimate that is never below the size of
  the flow and never above what shares its bucket in any row.
\<close>

theorem SKL_Est_old_bounds:
  assumes "skl_ok skl" and "\<forall>u \<in> set us. key_ok skl (fst u)" and "small_sizes us" and "key_ok skl key"
    and "0 < depth skl" and "\<forall>p \<in> set bits. p < lgn skl"
  shows "\<exists>s r. SKL_Updates (SKL_Reset skl) us = Some s \<and> SKL_Est_old_full (completed s) key bits = Some r \<and>
     sizes us (same_flow skl key) \<le> r \<and>
     (\<forall>i < depth skl. r \<le> sizes us (\<lambda>k. bucket skl i k = bucket skl i key))"
proof -
  obtain s where s: "SKL_Updates (SKL_Reset skl) us = Some s" "skl_ok s" "same_shape skl s"
    "\<And>i j k. i < depth skl \<Longrightarrow> j < width skl \<Longrightarrow> k \<le> 2 * lgn skl \<Longrightarrow>
       cnt s i j k = (\<Sum>u\<leftarrow>us. if counts_in skl i j k (fst u) then snd u else 0)"
    using SKL_stream_spec [OF assms(1,2)] by blast
  note shape = same_shape_simps [OF same_shape_trans [OF s(3) completed_ok(2) [OF s(2)]]]
  have sel: "sint (cnt (completed s) k (bucket skl k key) 0) = sizes us (\<lambda>x. bucket skl k x = bucket skl k key)"
    "p < lgn skl \<Longrightarrow> sizes us (same_flow skl key) \<le> sint (cnt (completed s) k (bucket skl k key) (sel (lgn skl) key p))"
    if "k < depth skl" for k p
    using selected_bounds [OF s(2,3) assms(3) that, of key] s(4) [OF that bucket_less [OF assms(1)]] by simp_all
  have flow: "sizes us (same_flow skl key) \<le> sizes us (\<lambda>x. bucket skl k x = bucket skl k key)" for k
    using assms(3) bucket_same_flow [of skl key] by (intro sum_sizes_mono) (auto simp: small_sizes_def)
  obtain r where r: "SKL_Est_old_full (completed s) key bits = Some r"
    "\<And>x. x \<le> r \<longleftrightarrow> (\<forall>k < depth skl. x \<le> sint (cnt (completed s) k (bucket skl k key) 0) \<and>
       (\<forall>p \<in> set bits. x \<le> sint (cnt (completed s) k (bucket skl k key) (sel (lgn skl) key p))))"
    using est_old_spec [OF completed_ok(1) [OF s(2)], of key bits] assms(4-6) unfolding shape by blast
  have "sizes us (same_flow skl key) \<le> r"
    unfolding r(2) using sel flow assms(6) by simp
  moreover have "r \<le> sizes us (\<lambda>k. bucket skl i k = bucket skl i key)" if "i < depth skl" for i
    using r(2) [of r] that unfolding sel(1) [OF that, symmetric] by blast
  ultimately show ?thesis
    using s(1) r(1) by blast
qed

theorem SKL_Est_old_bounds_witness:
  "\<exists>s r. SKL_Updates (SKL_Reset small_skl) [([7], 5), ([9], 3), ([7], 4)] = Some s \<and>
     SKL_Est_old_full (completed s) [7] [0..<8] = Some r \<and> 9 \<le> r"
proof -
  let ?us = "[([7], 5), ([9], 3), ([7], 4)] :: (u8 list \<times> u32) list"
  have small: "depth small_skl = 2" "width small_skl = 3" "lgn small_skl = 8"
    by (simp_all add: small_skl_def)
  have "\<forall>u \<in> set ?us. key_ok small_skl (fst u)" "small_sizes ?us" "key_ok small_skl [7]" "0 < depth small_skl"
    "\<forall>p \<in> set [0..<8]. p < lgn small_skl"
    by (simp_all add: key_ok_def small small_sizes_def)
  from SKL_Est_old_bounds [OF small_skl_ok this] show ?thesis
    by (auto simp: same_flow_def small)
qed

lemma bucket_size_naive:
  assumes "skl_est_bucket_size F qsort c n key bd bits infos = Some (r, infos')"
  shows "\<exists>q. naive_est c n key bits (sint (c ! 0)) = Some q \<and> r \<le> q" and "2 \<le> length bits"
  using assms by (auto simp: skl_est_bucket_size_def Let_def bind_eq_Some_conv split: if_splits)

lemma est_size_rows_le:
  assumes "est_size_rows F qsort skl bd key bits ks s = Some (r, infos)" and "fst s \<le> ret"
  shows "\<exists>q. est_old_rows skl key bits ks ret = Some q \<and> r \<le> q"
  using assms
proof (induction ks arbitrary: s ret)
  case (Cons k ks)
  obtain c where c: "key_bucket skl k key = Some c"
    using Cons.prems(1) by (auto simp: bind_eq_Some_conv)
  obtain est infos1 where est: "skl_est_bucket_size F qsort c (lgn skl) key bd bits (snd s) = Some (est, infos1)"
    "est_size_rows F qsort skl bd key bits ks (if k = 0 \<or> est < fst s then est else fst s, infos1) = Some (r, infos)"
    using Cons.prems(1) c by (auto simp: bind_eq_Some_conv)
  obtain q where q: "naive_est c (lgn skl) key bits (sint (c ! 0)) = Some q" "est \<le> q"
    using bucket_size_naive(1) [OF est(1)] by blast
  have "fst (if k = 0 \<or> est < fst s then est else fst s, infos1) \<le> (if k = 0 \<or> q < ret then q else ret)"
    using q(2) Cons.prems(2) by auto
  from Cons.IH [OF est(2) this] show ?case
    using c q(1) by simp
qed simp

text \<open>
  Where \<^verbatim>\<open>SKL_Est_Size\<close> returns, its estimate is at most the minimum of the counters that the given
  bits select over all rows, which is what \<^verbatim>\<open>SKL_Est_old\<close> computes; and with fewer than two bits it does not
  return a defined value, because it reads \<^verbatim>\<open>bit_est[-1]\<close>.
\<close>

theorem SKL_Est_Size_at_most:
  shows "(SKL_Est_Size F qsort skl bd key bits infos = Some (r, infos') \<longrightarrow>
      (\<exists>q. SKL_Est_old_full skl key bits = Some q \<and> r \<le> q)) \<and>
    (0 < depth skl \<and> length bits < 2 \<longrightarrow> SKL_Est_Size F qsort skl bd key bits infos = None)"
proof (intro conjI impI)
  show "\<exists>q. SKL_Est_old_full skl key bits = Some q \<and> r \<le> q"
    if "SKL_Est_Size F qsort skl bd key bits infos = Some (r, infos')"
    using est_size_rows_le [OF that [unfolded SKL_Est_Size_def]] by (simp add: SKL_Est_old_full_def)
  assume few: "0 < depth skl \<and> length bits < 2"
  then have "skl_est_bucket_size F qsort c (lgn skl) key bd bits infos = None" for c
    using bucket_size_naive(2) [of F qsort c "lgn skl" key bd bits infos]
    by (cases "skl_est_bucket_size F qsort c (lgn skl) key bd bits infos") auto
  then show "SKL_Est_Size F qsort skl bd key bits infos = None"
    using few by (cases "key_bucket skl 0 key") (simp_all add: SKL_Est_Size_def upt_conv_Cons)
qed

theorem SKL_Est_Size_at_most_witness:
  "SKL_Est_Size rat_ops (\<lambda>xs. xs) small_skl \<lparr>bit_mean = replicate 8 0, bit_std = replicate 8 0\<rparr> [7] [3] [] = None"
  using SKL_Est_Size_at_most [of rat_ops "\<lambda>xs. xs" small_skl "\<lparr>bit_mean = replicate 8 0, bit_std = replicate 8 0\<rparr>" "[7]" "[3]" "[]"]
  by (simp add: small_skl_def)

end
