(* ===== verification/Qsort.thy ===== *)
theory Qsort
  imports Prelude "HOL-Library.Multiset"
begin

text \<open>
  The library function \<^verbatim>\<open>qsort\<close> is a parameter of the definitions that call it, a function on lists.  All
  that is assumed of it is that it permutes the array: the comparison functions of \<^verbatim>\<open>util.c\<close> never return
  a negative number, so the order of the result is not one the C standard defines.
\<close>

definition permuting :: "('a list \<Rightarrow> 'a list) \<Rightarrow> bool" where
  "permuting qsort \<longleftrightarrow> (\<forall>xs. mset (qsort xs) = mset xs)"

end
