(* ===== verification/Sketch_Identify.thy ===== *)
theory Sketch_Identify
  imports Sketch_Query Qsort
begin

text \<open>
  The search for large flows: \<^verbatim>\<open>enumerate_keys_search\<close> lists exactly the keys that differ from the template in
  the unsure bits, and what \<^verbatim>\<open>SKL_Identify_Thresh\<close> returns are different keys, each with its estimate, among
  them every enumerated key that passes the threshold.
\<close>

section \<open>Enumerating keys\<close>

definition agree_off :: "nat set \<Rightarrow> u8 list \<Rightarrow> u8 list \<Rightarrow> bool" where
  "agree_off P a b \<longleftrightarrow> (\<forall>q < 8 * length a. q \<notin> P \<longrightarrow> key_bit a q = key_bit b q)"

definition variants :: "nat set \<Rightarrow> nat \<Rightarrow> u8 list \<Rightarrow> u8 list set" where
  "variants P n key = {k. length k = n \<and> agree_off P k key}"

lemma div8_less: "q div 8 < n \<longleftrightarrow> q < 8 * n" for q n :: nat
  by (simp add: div_less_iff_less_mult mult.commute)

lemma key_eqI:
  assumes "length a = length b" and "\<And>q. q < 8 * length a \<Longrightarrow> key_bit a q = key_bit b q"
  shows "a = b"
proof (rule nth_equalityI [OF assms(1)])
  fix i
  assume i: "i < length a"
  have "bit (a ! i) j = bit (b ! i) j" if "j < 8" for j
  proof -
    have "(8 * i + (7 - j)) div 8 = i" "(8 * i + (7 - j)) mod 8 = 7 - j" "7 - (7 - j) = j" "8 * i + (7 - j) < 8 * length a"
      using that i by (simp_all add: div_nat_eqI mod_nat_eqI)
    then show ?thesis
      using assms(2) [of "8 * i + (7 - j)"] by (simp add: key_bit_def)
  qed
  then show "a ! i = b ! i"
    by (intro bit_word_eqI) simp
qed

lemma variants_empty: "n \<le> length key \<Longrightarrow> variants {} n key = {take n key}"
proof -
  assume n: "n \<le> length key"
  have bits: "key_bit (take n key) q = key_bit key q" if "q < 8 * n" for q
    using that by (simp add: key_bit_def div8_less)
  show ?thesis
  proof (intro equalityI subsetI)
    fix k
    assume "k \<in> variants {} n key"
    then have "length k = n" "\<And>q. q < 8 * n \<Longrightarrow> key_bit k q = key_bit key q"
      by (auto simp: variants_def agree_off_def)
    then have "k = take n key"
      using n bits by (intro key_eqI) simp_all
    then show "k \<in> {take n key}"
      by simp
  qed (use n bits in \<open>auto simp: variants_def agree_off_def\<close>)
qed

lemma variants_fix:
  assumes "p < 8 * n" and "p \<notin> P"
    and "\<And>q. q < 8 * n \<Longrightarrow> q \<notin> P \<Longrightarrow> key_bit kv q = (if q = p then v else key_bit key q)"
  shows "variants P n kv = {k \<in> variants (insert p P) n key. key_bit k p = v}"
proof (rule set_eqI)
  fix k
  have "(\<forall>q < 8 * n. q \<notin> P \<longrightarrow> key_bit k q = key_bit kv q) \<longleftrightarrow>
      (\<forall>q < 8 * n. q \<notin> P \<longrightarrow> key_bit k q = (if q = p then v else key_bit key q))"
    using assms(3) by auto
  also have "\<dots> \<longleftrightarrow> (\<forall>q < 8 * n. q \<notin> insert p P \<longrightarrow> key_bit k q = key_bit key q) \<and> key_bit k p = v"
    using assms(1,2) by auto
  finally show "k \<in> variants P n kv \<longleftrightarrow> k \<in> {k \<in> variants (insert p P) n key. key_bit k p = v}"
    by (cases "length k = n") (simp_all add: variants_def agree_off_def)
qed

lemma set_bit_bool:
  assumes "p < 8 * length a"
  obtains a' where "set_bit_skl a p (if b then 1 else 0) = Some a'" and "length a' = length a"
    and "\<And>q. q < 8 * length a \<Longrightarrow> key_bit a' q = (if q = p then b else key_bit a q)"
proof (rule set_bit_key_bit [of p a "if b then 1 else 0"])
  fix a'
  assume "set_bit_skl a p (if b then 1 else 0) = Some a'" "length a' = length a"
    "\<And>q. q div 8 < length a \<Longrightarrow> key_bit a' q = (if q = p then (if b then 1 else 0 :: int) = 1 else key_bit a q)"
  then show ?thesis
    by (intro that [of a']) (simp_all add: div8_less)
qed (use assms in \<open>simp_all add: div8_less\<close>)

lemma enumerate_search_spec:
  assumes "n \<le> length infos" and "distinct (map bi_pos (take n infos))"
    and "\<forall>b \<in> set (take n infos). bi_pos b < 8 * key_len" and "key_len \<le> length orig"
  defines "P \<equiv> \<lambda>n. bi_pos ` set (take n infos)"
  shows "\<exists>orig' ks. enumerate_keys_search orig key_len infos n ret = Some (orig', ret @ ks) \<and>
     length orig' = length orig \<and> agree_off (P n) orig' orig \<and> distinct ks \<and> set ks = variants (P n) key_len orig \<and>
     length ks = 2 ^ n"
  using assms(1-4)
proof (induction n arbitrary: orig ret)
  case 0
  then show ?case
    by (simp add: copy_out_def agree_off_def P_def variants_empty)
next
  case (Suc n)
  let ?p = "bi_pos (infos ! n)"
  have tk: "take (Suc n) infos = take n infos @ [infos ! n]"
    using Suc.prems(1) by (simp add: take_Suc_conv_app_nth)
  have P: "P (Suc n) = insert ?p (P n)" "?p \<notin> P n" "?p < 8 * key_len"
    using Suc.prems(2,3) by (auto simp: P_def tk)
  have prem: "n \<le> length infos" "distinct (map bi_pos (take n infos))" "\<forall>b \<in> set (take n infos). bi_pos b < 8 * key_len"
    using Suc.prems(1-3) by (auto simp: tk)
  have p8: "?p < 8 * length orig"
    using P(3) Suc.prems(4) by linarith
  obtain o1 where o1: "set_bit_skl orig ?p 0 = Some o1" "length o1 = length orig"
    "\<And>q. q < 8 * length orig \<Longrightarrow> key_bit o1 q = (if q = ?p then False else key_bit orig q)"
    using set_bit_bool [OF p8, of False] by (simp only: if_False) metis
  obtain o2 k1 where o2: "enumerate_keys_search o1 key_len infos n ret = Some (o2, ret @ k1)"
    "length o2 = length orig" "agree_off (P n) o2 o1" "distinct k1" "set k1 = variants (P n) key_len o1" "length k1 = 2 ^ n"
    using Suc.IH [of o1 ret] prem Suc.prems(4) o1(2) by auto
  obtain o3 where o3: "set_bit_skl o2 ?p 1 = Some o3" "length o3 = length orig"
    "\<And>q. q < 8 * length orig \<Longrightarrow> key_bit o3 q = (if q = ?p then True else key_bit o2 q)"
    using set_bit_bool [of ?p o2 True] p8 unfolding o2(2) by (simp only: if_True) metis
  obtain o4 k2 where o4: "enumerate_keys_search o3 key_len infos n (ret @ k1) = Some (o4, ret @ k1 @ k2)"
    "length o4 = length orig" "agree_off (P n) o4 o3" "distinct k2" "set k2 = variants (P n) key_len o3" "length k2 = 2 ^ n"
    using Suc.IH [of o3 "ret @ k1"] prem Suc.prems(4) o3(2) by auto
  have off: "key_bit o3 q = (if q = ?p then True else key_bit orig q)" if "q < 8 * length orig" "q \<notin> P n" for q
    using that o1(3) [of q] o2(2,3) o3(3) [of q] by (auto simp: agree_off_def)
  have le: "q < 8 * length orig" if "q < 8 * key_len" for q
    using that Suc.prems(4) by linarith
  have "variants (P n) key_len o1 = {k \<in> variants (insert ?p (P n)) key_len orig. key_bit k ?p = False}"
    by (rule variants_fix [OF P(3,2)]) (rule o1(3) [OF le])
  moreover have "variants (P n) key_len o3 = {k \<in> variants (insert ?p (P n)) key_len orig. key_bit k ?p = True}"
    by (rule variants_fix [OF P(3,2)]) (rule off [OF le])
  ultimately have "variants (insert ?p (P n)) key_len orig = variants (P n) key_len o1 \<union> variants (P n) key_len o3"
    "variants (P n) key_len o1 \<inter> variants (P n) key_len o3 = {}"
    by auto
  moreover have "agree_off (P (Suc n)) o4 orig"
    using o4(2,3) off by (auto simp: agree_off_def P(1))
  moreover have "enumerate_keys_search orig key_len infos (Suc n) ret = Some (o4, ret @ k1 @ k2)"
    using Suc.prems(1) o1(1) o2(1) o3(1) o4(1) by simp
  ultimately show ?case
    using o2(4-6) o4(2,4-6) by (auto simp: P(1))
qed

text \<open>
  \<^verbatim>\<open>enumerate_keys_search\<close> lists every key that agrees with the template outside the unsure bits,
  each once: two to the number of unsure bits in all.
\<close>

theorem enumerate_keys_exact:
  assumes "n \<le> length infos" and "distinct (map bi_pos (take n infos))"
    and "\<forall>b \<in> set (take n infos). bi_pos b < 8 * key_len" and "key_len \<le> length orig"
  shows "\<exists>orig' ks. enumerate_keys_search orig key_len infos n [] = Some (orig', ks) \<and> distinct ks \<and>
     set ks = variants (bi_pos ` set (take n infos)) key_len orig \<and> length ks = 2 ^ n"
  using enumerate_search_spec [OF assms, of "[]"] by auto

theorem enumerate_keys_exact_witness:
  "\<exists>orig' ks. enumerate_keys_search [0x0f, 0x81] 2 [\<lparr>bi_pos = 3, bi_guess = 0, bi_prob = (1 :: rat)\<rparr>,
       \<lparr>bi_pos = 15, bi_guess = 1, bi_prob = 1\<rparr>] 2 [] = Some (orig', ks) \<and> distinct ks \<and> length ks = 4 \<and>
     set ks = variants {3, 15} 2 [0x0f, 0x81]"
  using enumerate_keys_exact [of 2 "[\<lparr>bi_pos = 3, bi_guess = 0, bi_prob = (1 :: rat)\<rparr>, \<lparr>bi_pos = 15, bi_guess = 1, bi_prob = 1\<rparr>]"
    2 "[0x0f, 0x81]"] by (simp add: conj_ac)

section \<open>The guesses\<close>

definition guess_one :: "(nat \<times> 'f \<times> bool) option \<Rightarrow> bool" where
  "guess_one x \<longleftrightarrow> (case x of None \<Rightarrow> False | Some (g, _) \<Rightarrow> g = 1)"

definition guess_info :: "nat \<Rightarrow> (nat \<times> 'f \<times> bool) option \<Rightarrow> 'f bit_info list" where
  "guess_info p x = (case x of None \<Rightarrow> [] | Some (g, pr, _) \<Rightarrow> [\<lparr>bi_pos = p, bi_guess = g, bi_prob = pr\<rparr>])"

lemma guess_one_iff: "guess_one x \<longleftrightarrow> (\<exists>pr unsure. x = Some (1, pr, unsure))"
  by (auto simp: guess_one_def split: option.splits)

lemma add_new_bit:
  assumes "m < 8" and "\<And>b. m \<le> b \<Longrightarrow> \<not> bit k b"
  shows "bit ((k :: u8) + ucast (push_bit m 1 :: u64)) b \<longleftrightarrow> b = m \<or> bit k b"
proof -
  have w: "(ucast (push_bit m 1 :: u64) :: u8) = push_bit m 1"
    using assms(1) by (intro bit_word_eqI) (auto simp: bit_simps)
  have "k AND push_bit m 1 = 0"
    using assms by (intro bit_word_eqI) (auto simp: bit_simps)
  then have "k + push_bit m 1 = k OR push_bit m 1"
    by (rule disjunctive_add_eq_or)
  then show ?thesis
    unfolding w using assms(1) by (auto simp: bit_simps)
qed

text \<open>The weight of the bit that is looked at next and the part of the byte that is already known.\<close>

definition partial_byte :: "(nat \<Rightarrow> bool) \<Rightarrow> nat \<Rightarrow> u8 \<Rightarrow> u64 \<Rightarrow> bool" where
  "partial_byte one i k j \<longleftrightarrow>
     (let m = (8 - i mod 8) mod 8
      in j = push_bit m 1 \<and> (\<forall>b. bit k b \<longleftrightarrow> b < m \<and> one (8 * (i div 8) + 7 - b)))"

lemma partial_byte_step:
  assumes "partial_byte one (Suc p) k j"
  defines "k' \<equiv> if one p then k + ucast j else k"
  shows "bit k' b \<longleftrightarrow> b \<le> 7 - p mod 8 \<and> one (8 * (p div 8) + 7 - b)"
    and "p mod 8 \<noteq> 0 \<Longrightarrow> partial_byte one p k' (push_bit 1 j)"
    and "p mod 8 = 0 \<Longrightarrow> partial_byte one p 0 1"
proof -
  have r: "p mod 8 < 8"
    by simp
  have m: "(8 - Suc p mod 8) mod 8 = 7 - p mod 8"
    using r by (simp add: mod_Suc)
  have k: "j = push_bit (7 - p mod 8) 1" "\<And>b. bit k b \<longleftrightarrow> b < 7 - p mod 8 \<and> one (8 * (Suc p div 8) + 7 - b)"
    using assms(1) unfolding partial_byte_def m by (simp_all add: Let_def)
  have div: "Suc p div 8 = p div 8" if "p mod 8 \<noteq> 7"
    using that by (simp add: div_Suc mod_Suc)
  have p: "8 * (p div 8) + 7 - (7 - p mod 8) = p"
    using r mult_div_mod_eq [of 8 p] by linarith
  have high: "\<And>b. 7 - p mod 8 \<le> b \<Longrightarrow> \<not> bit k b"
    by (simp add: k(2))
  have m8: "7 - p mod 8 < 8"
    by simp
  have new: "bit k' b \<longleftrightarrow> (b = 7 - p mod 8 \<and> one p) \<or> bit k b" for b
    unfolding k'_def k(1) using add_new_bit [OF m8 high, of b] by auto
  have bits: "bit k' b \<longleftrightarrow> b \<le> 7 - p mod 8 \<and> one (8 * (p div 8) + 7 - b)" for b
    unfolding new using p div by (cases "b = 7 - p mod 8"; cases "p mod 8 = 7") (auto simp: k(2) le_less)
  then show "bit k' b \<longleftrightarrow> b \<le> 7 - p mod 8 \<and> one (8 * (p div 8) + 7 - b)" .
  have "1 + (7 - p mod 8) = 8 - p mod 8"
    using r by linarith
  then have shift: "push_bit 1 j = push_bit (8 - p mod 8) 1"
    unfolding k(1) push_bit_push_bit by simp
  show "p mod 8 = 0 \<Longrightarrow> partial_byte one p 0 1"
    by (simp add: partial_byte_def)
  show "p mod 8 \<noteq> 0 \<Longrightarrow> partial_byte one p k' (push_bit 1 j)"
    using r shift by (auto simp: partial_byte_def Let_def bits)
qed

lemma find_bits_spec:
  assumes g: "g = guess_bit F cs len ratio bd"
    and "partial_byte (\<lambda>p. guess_one (g p)) i k j" and "(i + 7) div 8 \<le> length ret"
  shows "\<exists>conf' ret'. find_bits F cs len ratio bd i k j conf ret infos =
       (conf', ret', infos @ concat (map (\<lambda>p. guess_info p (g p)) (rev [0..<i]))) \<and> length ret' = length ret \<and>
     (\<forall>q. key_bit ret' q = (if q < 8 * ((i + 7) div 8) then guess_one (g q) else key_bit ret q))"
  using assms(2,3)
proof (induction i arbitrary: k j conf ret infos)
  case (Suc p)
  let ?one = "\<lambda>p. guess_one (g p)"
  let ?k = "if ?one p then k + ucast j else k"
  let ?infos = "infos @ guess_info p (g p)"
  obtain conf1 where round: "(case g p of None \<Rightarrow> (k, conf, infos)
      | Some (g, pr, unsure) \<Rightarrow>
          (if g = 1 then k + ucast j else k, if unsure then f_mul F conf pr else conf,
           infos @ [\<lparr>bi_pos = p, bi_guess = g, bi_prob = pr\<rparr>])) = (?k, conf1, ?infos)"
    by (cases "g p") (auto simp: guess_one_def guess_info_def split: prod.splits)
  note step = partial_byte_step [OF Suc.prems(1)]
  have bytes: "(Suc p + 7) div 8 = Suc (p div 8)"
    by simp
  show ?case
  proof (cases "p mod 8 = 0")
    case True
    let ?ret = "ret[p div 8 := ?k]"
    have p: "(p + 7) div 8 = p div 8" "8 * (p div 8) = p"
      using True mult_div_mod_eq [of 8 p] by (simp_all add: div_add1_eq [of p 7])
    have len: "p div 8 < length ret"
      using Suc.prems(2) bytes by simp
    obtain conf' ret' where IH: "find_bits F cs len ratio bd p 0 1 conf1 ?ret ?infos =
        (conf', ret', ?infos @ concat (map (\<lambda>p. guess_info p (g p)) (rev [0..<p])))" "length ret' = length ret"
      "\<And>q. key_bit ret' q = (if q < p then ?one q else key_bit ?ret q)"
      using Suc.IH [OF step(3) [OF True], of ?ret conf1 ?infos] len p by auto
    have "key_bit ?ret q = (if q < 8 * Suc (p div 8) then ?one q else key_bit ret q)" if "p \<le> q" for q
    proof (cases "q < 8 * Suc (p div 8)")
      case True
      then have q1: "q div 8 = p div 8"
        using that p(2) by (simp add: div_nat_eqI)
      have "q mod 8 < 8" "8 * (q div 8) + q mod 8 = q"
        by simp_all
      then have q: "q div 8 = p div 8" "8 * (p div 8) + 7 - (7 - q mod 8) = q"
        using q1 by linarith+
      then show ?thesis
        using True len \<open>p mod 8 = 0\<close> step(1) [of "7 - q mod 8"] by (simp add: key_bit_def)
    next
      case False
      then have "q div 8 \<noteq> p div 8"
        by (metis div8_less lessI)
      then show ?thesis
        using False by (simp add: key_bit_def)
    qed
    then have "key_bit ret' q = (if q < 8 * Suc (p div 8) then ?one q else key_bit ret q)" for q
      using IH(3) [of q] p(2) by (cases "q < p") auto
    moreover have "find_bits F cs len ratio bd (Suc p) k j conf ret infos = find_bits F cs len ratio bd p 0 1 conf1 ?ret ?infos"
      using round True by (simp add: g [symmetric])
    ultimately show ?thesis
      using IH(1,2) by (auto simp: bytes)
  next
    case False
    have p: "(p + 7) div 8 = Suc (p div 8)"
      using False by (simp add: div_add1_eq [of p 7])
    have "find_bits F cs len ratio bd (Suc p) k j conf ret infos =
        find_bits F cs len ratio bd p ?k (push_bit 1 j) conf1 ret ?infos"
      using round False by (simp add: g [symmetric])
    then show ?thesis
      using Suc.IH [OF step(2) [OF False], of ret conf1 ?infos] Suc.prems(2) by (auto simp: p bytes)
  qed
qed simp

lemma distinct_guess_infos:
  "distinct (map bi_pos (concat (map (\<lambda>p. guess_info p (g p)) ps)))" if "distinct ps"
  using that by (induction ps) (auto simp: guess_info_def split: option.splits)

lemma guess_infos_pos: "b \<in> set (concat (map (\<lambda>p. guess_info p (g p)) ps)) \<Longrightarrow> bi_pos b \<in> set ps"
  by (auto simp: guess_info_def split: option.splits)

lemma find_key_bits_spec:
  assumes "8 dvd len" and "len * 2 < length cs" and "len \<le> length (bit_mean bd)" and "len \<le> length (bit_std bd)"
    and "len div 8 \<le> length ret" and "len \<le> 104"
  obtains conf ret' where "skl_find_key_bits F cs len ratio bd ret =
      Some (conf, ret', concat (map (\<lambda>p. guess_info p (guess_bit F cs len ratio bd p)) (rev [0..<len])))"
    and "length ret' = length ret"
    and "\<And>p. p < len \<Longrightarrow> key_bit ret' p = guess_one (guess_bit F cs len ratio bd p)"
proof -
  have len: "(len + 7) div 8 = len div 8" "8 * (len div 8) = len"
    using assms(1) by (auto simp: div_add1_eq [of len 7])
  have start: "partial_byte (\<lambda>p. guess_one (guess_bit F cs len ratio bd p)) len 0 1"
    using assms(1) by (simp add: partial_byte_def)
  from find_bits_spec [OF refl start, of ret "f_of_int F 1" "[]"] show ?thesis
    using assms that by (auto simp: skl_find_key_bits_def len)
qed

text \<open>
  The template key and the guesses of \<^verbatim>\<open>skl_find_key_bits\<close> agree: the guesses are for different bits
  of the key, each with the value that the counters of its bit give, and a bit of the template is 1 exactly
  when it was guessed to be 1.
\<close>

theorem skl_find_key_bits_template:
  assumes "8 dvd len" and "len * 2 < length cs" and "len \<le> length (bit_mean bd)" and "len \<le> length (bit_std bd)"
    and "len div 8 \<le> length ret" and "len \<le> 104"
  shows "\<exists>conf ret' infos. skl_find_key_bits F cs len ratio bd ret = Some (conf, ret', infos) \<and>
     length ret' = length ret \<and> distinct (map bi_pos infos) \<and>
     (\<forall>p < len.
        (\<forall>v pr. (\<exists>unsure. guess_bit F cs len ratio bd p = Some (v, pr, unsure)) \<longleftrightarrow>
           \<lparr>bi_pos = p, bi_guess = v, bi_prob = pr\<rparr> \<in> set infos) \<and>
        key_bit ret' p = (\<exists>pr. \<lparr>bi_pos = p, bi_guess = 1, bi_prob = pr\<rparr> \<in> set infos))"
proof -
  let ?g = "guess_bit F cs len ratio bd"
  let ?infos = "concat (map (\<lambda>p. guess_info p (?g p)) (rev [0..<len]))"
  obtain conf ret' where r: "skl_find_key_bits F cs len ratio bd ret = Some (conf, ret', ?infos)"
    "length ret' = length ret" "\<And>p. p < len \<Longrightarrow> key_bit ret' p = guess_one (?g p)"
    using find_key_bits_spec [OF assms] by blast
  have "(\<exists>unsure. ?g p = Some (v, pr, unsure)) \<longleftrightarrow> \<lparr>bi_pos = p, bi_guess = v, bi_prob = pr\<rparr> \<in> set ?infos"
    if "p < len" for p v pr
    using that by (auto simp: guess_info_def eq_commute [of "Some _"] split: option.splits)
  moreover from this have "guess_one (?g p) = (\<exists>pr. \<lparr>bi_pos = p, bi_guess = 1, bi_prob = pr\<rparr> \<in> set ?infos)" if "p < len" for p
    using that unfolding guess_one_iff by blast
  moreover have "distinct (map bi_pos ?infos)"
    by (rule distinct_guess_infos) simp
  ultimately show ?thesis
    using r by (intro exI [of _ conf] exI [of _ ret'] exI [of _ ?infos]) simp
qed

theorem skl_find_key_bits_template_witness:
  "\<exists>conf ret' infos. skl_find_key_bits rat_ops (10 # replicate 16 5) 8 (1 / 10) \<lparr>bit_mean = replicate 8 (1 / 2), bit_std = replicate 8 1\<rparr> [0] =
      Some (conf, ret', infos) \<and> length ret' = 1 \<and> distinct (map bi_pos infos)"
  using skl_find_key_bits_template [of 8 "10 # replicate 16 5" "\<lparr>bit_mean = replicate 8 (1 / 2), bit_std = replicate 8 1\<rparr>" "[0]" rat_ops "1 / 10"]
  by auto

section \<open>The search\<close>

text \<open>A loop that may stop with an error: an invariant, and what holds of every element once it was treated.\<close>

lemma try_guesses_inv:
  assumes "I s" and "\<And>x s. x \<in> set xs \<Longrightarrow> I s \<Longrightarrow> (case f x s of Inl e \<Rightarrow> E e | Inr s' \<Rightarrow> I s')"
  shows "case try_guesses f xs s of Inl e \<Rightarrow> E e | Inr s' \<Rightarrow> I s'"
  using assms
proof (induction xs arbitrary: s)
  case (Cons x xs)
  then show ?case
    using Cons.prems(2) [of x s] by (cases "f x s") auto
qed simp

lemma try_guesses_done:
  assumes "try_guesses f xs s = Inr s'" and "\<And>x s t. x \<in> set xs \<Longrightarrow> f x s = Inr t \<Longrightarrow> R x t"
    and "\<And>x y s t. x \<in> set xs \<Longrightarrow> R y s \<Longrightarrow> f x s = Inr t \<Longrightarrow> R y t"
  shows "\<forall>x \<in> set xs. R x s'"
proof -
  have keep: "R y s'" if "R y s" "try_guesses f ys s = Inr s'" "set ys \<subseteq> set xs" for y s ys
    using that by (induction ys arbitrary: s) (auto split: sum.splits intro: assms(3))
  have "\<forall>x \<in> set ys. R x s'" if "try_guesses f ys s = Inr s'" "set ys \<subseteq> set xs" for ys s
    using that by (induction ys arbitrary: s) (auto split: sum.splits intro: keep assms(2))
  then show ?thesis
    using assms(1) by blast
qed

definition passes :: "'f float_ops \<Rightarrow> SketchLearn \<Rightarrow> 'f \<Rightarrow> nat \<Rightarrow> u8 list \<Rightarrow> int \<Rightarrow> bool" where
  "passes F skl ratio i key r \<longleftrightarrow>
     est_rows skl key [0..<depth skl] (sint (cnt skl i (bucket skl i key) 0)) = Some r \<and>
     f_le F (f_mul F ratio (f_of_u32 F (cnt skl i (bucket skl i key) 0))) (f_of_int F r)"

definition found_ok :: "'f float_ops \<Rightarrow> SketchLearn \<Rightarrow> 'f \<Rightarrow> nat \<Rightarrow> 'f found list \<Rightarrow> bool" where
  "found_ok F skl ratio max_ret found \<longleftrightarrow>
     distinct (map fd_key found) \<and> length found \<le> max_ret \<and>
     (\<forall>f \<in> set found. length (fd_key f) = lgn skl div 8 \<and> (\<exists>i < depth skl. passes F skl ratio i (fd_key f) (fd_val f)))"

lemma est_rows_Some:
  assumes "skl_ok skl" and "key_ok skl key" and "\<forall>i \<in> set ks. i < depth skl"
  shows "\<exists>r. est_rows skl key ks est = Some r"
  using assms(3)
proof (induction ks arbitrary: est)
  case (Cons k ks)
  obtain h where h: "row_hash skl k key = Some h"
    using row_hash_Some [OF assms(1,2)] Cons.prems by auto
  have "k * width skl + unat h mod width skl < length (counts skl)"
    using index_less [of k skl "unat h mod width skl"] Cons.prems assms(1) by (simp add: skl_ok_def)
  then have "key_bucket skl k key \<noteq> None"
    using assms(1) h by (auto simp: key_bucket_def Let_def skl_ok_def)
  then show ?case
    using Cons by (auto simp: Let_def)
qed simp

lemma try_guess_cases:
  assumes "skl_ok skl" and "length g = lgn skl div 8" and "i < depth skl"
  obtains r where "est_rows skl g [0..<depth skl] (sint (cnt skl i (bucket skl i g) 0)) = Some r"
    and "try_guess F skl ratio max_ret i j infos g found =
      (if bucket skl i g \<noteq> j \<or> g \<in> fd_key ` set found then Inr found
       else if length found = max_ret then Inl (Exit_code (-1))
       else if passes F skl ratio i g r
            then Inr (found @ [\<lparr>fd_key = g, fd_val = r, fd_conf = confidences F (lgn skl) g infos\<rparr>])
            else Inr found)"
proof -
  have key: "key_ok skl g"
    using assms(2) by (simp add: key_ok_def)
  obtain h where h: "row_hash skl i g = Some h"
    using row_hash_Some [OF assms(1) key assms(3)] by blast
  then have b: "unat h mod width skl = bucket skl i g"
    by (simp add: bucket_def)
  obtain r where r: "est_rows skl g [0..<depth skl] (sint (cnt skl i (bucket skl i g) 0)) = Some r"
    using est_rows_Some [OF assms(1) key, of "[0..<depth skl]"] by auto
  show ?thesis
  proof (cases "bucket skl i g = j")
    case True
    then show ?thesis
      using assms(1) r h by (intro that [OF r]) (simp add: try_guess_def b skl_ok_def passes_def flip: True)
  next
    case False
    then show ?thesis
      using assms(1) h by (intro that [OF r]) (simp add: try_guess_def b skl_ok_def)
  qed
qed

lemma try_guess_ok:
  assumes "skl_ok skl" and "length g = lgn skl div 8" and "i < depth skl" and "found_ok F skl ratio max_ret found"
  shows "case try_guess F skl ratio max_ret i j infos g found of
     Inl e \<Rightarrow> e = Exit_code (-1) | Inr found' \<Rightarrow> found_ok F skl ratio max_ret found'"
proof -
  obtain r where "est_rows skl g [0..<depth skl] (sint (cnt skl i (bucket skl i g) 0)) = Some r"
    "try_guess F skl ratio max_ret i j infos g found =
      (if bucket skl i g \<noteq> j \<or> g \<in> fd_key ` set found then Inr found
       else if length found = max_ret then Inl (Exit_code (-1))
       else if passes F skl ratio i g r
            then Inr (found @ [\<lparr>fd_key = g, fd_val = r, fd_conf = confidences F (lgn skl) g infos\<rparr>])
            else Inr found)"
    by (rule try_guess_cases [OF assms(1-3)])
  then show ?thesis
    using assms(2-4) by (auto simp: found_ok_def)
qed

lemma try_guess_found:
  assumes "skl_ok skl" and "length g = lgn skl div 8" and "i < depth skl"
    and "try_guess F skl ratio max_ret i j infos g found = Inr found'"
  shows "fd_key ` set found \<subseteq> fd_key ` set found'"
    and "bucket skl i g = j \<Longrightarrow> passes F skl ratio i g r \<Longrightarrow> g \<in> fd_key ` set found'"
proof -
  obtain r' where r: "est_rows skl g [0..<depth skl] (sint (cnt skl i (bucket skl i g) 0)) = Some r'"
    "try_guess F skl ratio max_ret i j infos g found =
      (if bucket skl i g \<noteq> j \<or> g \<in> fd_key ` set found then Inr found
       else if length found = max_ret then Inl (Exit_code (-1))
       else if passes F skl ratio i g r'
            then Inr (found @ [\<lparr>fd_key = g, fd_val = r', fd_conf = confidences F (lgn skl) g infos\<rparr>])
            else Inr found)"
    by (rule try_guess_cases [OF assms(1-3)])
  show "fd_key ` set found \<subseteq> fd_key ` set found'"
    using r(2) assms(4) by (auto split: if_splits)
  assume "bucket skl i g = j" "passes F skl ratio i g r"
  moreover from this(2) have "r = r'"
    using r(1) by (simp add: passes_def)
  ultimately show "g \<in> fd_key ` set found'"
    using r(2) assms(4) by (auto split: if_splits)
qed

definition query_ok :: "SketchLearn \<Rightarrow> 'f bit_dists \<Rightarrow> bool" where
  "query_ok skl bd \<longleftrightarrow> skl_ok skl \<and> lgn skl \<le> 104 \<and> lgn skl \<le> length (bit_mean bd) \<and> lgn skl \<le> length (bit_std bd)"

lemma unsure_bits_le: "unsure_bits F infos n \<le> n"
  by (induction n) auto

definition unsure_count ::
  "'f float_ops \<Rightarrow> ('f bit_info list \<Rightarrow> 'f bit_info list) \<Rightarrow> SketchLearn \<Rightarrow> 'f bit_dists \<Rightarrow> 'f \<Rightarrow> nat \<Rightarrow> nat \<Rightarrow> nat" where
  "unsure_count F qsort skl bd ratio i j =
     (case skl_find_key_bits F (counts skl ! (i * width skl + j)) (lgn skl) ratio bd (replicate 13 0) of
        None \<Rightarrow> 0
      | Some (_, _, infos) \<Rightarrow> unsure_bits F (qsort infos) (length (qsort infos)))"

lemma bucket_guesses_cases:
  assumes "query_ok skl bd" and "permuting qsort" and "i < depth skl" and "j < width skl"
  shows "if 31 \<le> unsure_count F qsort skl bd ratio i j then bucket_guesses F qsort skl bd ratio i j = None
     else \<exists>infos gs. bucket_guesses F qsort skl bd ratio i j = Some (infos, gs) \<and>
       (\<forall>g \<in> set gs. length g = lgn skl div 8)"
proof -
  have skl: "skl_ok skl" "lgn skl \<le> 104" "lgn skl \<le> length (bit_mean bd)" "lgn skl \<le> length (bit_std bd)"
    and qsort: "\<And>xs. mset (qsort xs) = mset xs"
    using assms(1,2) by (simp_all add: query_ok_def permuting_def)
  let ?c = "counts skl ! (i * width skl + j)"
  let ?infos = "concat (map (\<lambda>p. guess_info p (guess_bit F ?c (lgn skl) ratio bd p)) (rev [0..<lgn skl]))"
  let ?s = "qsort ?infos"
  let ?n = "unsure_bits F ?s (length ?s)"
  have "i * width skl + j < length (counts skl)"
    using index_less [OF assms(3,4)] skl(1) by (simp add: skl_ok_def)
  then have len: "lgn skl * 2 < length ?c" "8 dvd lgn skl" "lgn skl div 8 \<le> length (replicate 13 (0 :: u8))"
    using skl(1,2) by (auto simp: skl_ok_def)
  obtain conf t where t: "skl_find_key_bits F ?c (lgn skl) ratio bd (replicate 13 0) = Some (conf, t, ?infos)"
    "length t = length (replicate 13 (0 :: u8))"
    by (rule find_key_bits_spec [OF len(2,1) skl(3,4) len(3) skl(2)])
  have cs: "unsure_count F qsort skl bd ratio i j = ?n"
    by (simp add: unsure_count_def t(1))
  have "mset (map bi_pos ?s) = mset (map bi_pos ?infos)"
    by (simp add: qsort)
  then have "distinct (map bi_pos ?s) = distinct (map bi_pos ?infos)"
    by (rule mset_eq_imp_distinct_iff)
  moreover have "distinct (map bi_pos ?infos)"
    by (rule distinct_guess_infos) simp
  ultimately have "distinct (map bi_pos ?s)"
    by (simp only:)
  then have dist: "distinct (map bi_pos (take ?n ?s))"
    unfolding take_map [symmetric] by (rule distinct_take)
  have "set ?s = set ?infos"
    by (metis qsort set_mset_mset)
  then have "bi_pos b < 8 * (lgn skl div 8)" if "b \<in> set ?s" for b
    using that guess_infos_pos [of b "guess_bit F ?c (lgn skl) ratio bd" "rev [0..<lgn skl]"] len(2) by simp
  then have pos: "\<forall>b \<in> set (take ?n ?s). bi_pos b < 8 * (lgn skl div 8)"
    by (meson in_set_takeD)
  have le: "?n \<le> length ?s" "lgn skl div 8 \<le> length t"
    using unsure_bits_le t(2) len(3) by simp_all
  obtain o' ks where "enumerate_keys_search t (lgn skl div 8) ?s ?n [] = Some (o', ks)"
    "set ks = variants (bi_pos ` set (take ?n ?s)) (lgn skl div 8) t"
    using enumerate_search_spec [OF le(1) dist pos le(2), of "[]"] by auto
  then have "\<exists>gs. enumerate_keys F t (lgn skl div 8) ?s ?n (lgn skl) = Some gs \<and> (\<forall>g \<in> set gs. length g = lgn skl div 8)"
    by (auto simp: enumerate_keys_def variants_def)
  then show ?thesis
    unfolding cs by (auto simp: bucket_guesses_def t(1) Let_def)
qed

lemma identify_bucket_ok:
  assumes "query_ok skl bd" and "permuting qsort" and "i < depth skl" and "j < width skl" and "found_ok F skl ratio max_ret found"
  shows "case identify_bucket F qsort skl bd ratio max_ret (i, j) found of
     Inl e \<Rightarrow> e = Exit_code (-1) \<or> e = Invalid_access \<and> 31 \<le> unsure_count F qsort skl bd ratio i j
   | Inr found' \<Rightarrow> found_ok F skl ratio max_ret found'"
proof (cases "31 \<le> unsure_count F qsort skl bd ratio i j")
  case True
  then show ?thesis
    using bucket_guesses_cases [OF assms(1-4), of F ratio] by (simp add: identify_bucket_def)
next
  case False
  then obtain infos gs where gs: "bucket_guesses F qsort skl bd ratio i j = Some (infos, gs)"
    "\<forall>g \<in> set gs. length g = lgn skl div 8"
    using bucket_guesses_cases [OF assms(1-4), of F ratio] by auto
  have "case try_guesses (try_guess F skl ratio max_ret i j infos) gs found of
      Inl e \<Rightarrow> e = Exit_code (-1) | Inr found' \<Rightarrow> found_ok F skl ratio max_ret found'"
    using gs(2) assms(1,3,5) by (intro try_guesses_inv [where I = "found_ok F skl ratio max_ret"] try_guess_ok) (simp_all add: query_ok_def)
  then show ?thesis
    by (auto simp: identify_bucket_def gs(1) split: sum.splits)
qed

text \<open>Every guess of the bucket that falls into it and passes the threshold is among the keys found.\<close>

definition covered ::
  "'f float_ops \<Rightarrow> ('f bit_info list \<Rightarrow> 'f bit_info list) \<Rightarrow> SketchLearn \<Rightarrow> 'f bit_dists \<Rightarrow> 'f \<Rightarrow> nat \<times> nat \<Rightarrow> u8 list set \<Rightarrow> bool" where
  "covered F qsort skl bd ratio ij keys \<longleftrightarrow>
     (\<exists>infos gs. bucket_guesses F qsort skl bd ratio (fst ij) (snd ij) = Some (infos, gs) \<and>
        (\<forall>g \<in> set gs. \<forall>r. bucket skl (fst ij) g = snd ij \<and> passes F skl ratio (fst ij) g r \<longrightarrow> g \<in> keys))"

lemma covered_mono:
  "covered F qsort skl bd ratio ij keys \<Longrightarrow> keys \<subseteq> keys' \<Longrightarrow> covered F qsort skl bd ratio ij keys'"
  unfolding covered_def by blast

lemma identify_bucket_found:
  fixes F :: "'f float_ops"
  assumes "query_ok skl bd" and "permuting qsort" and "i < depth skl" and "j < width skl"
    and "identify_bucket F qsort skl bd ratio max_ret (i, j) found = Inr found'"
  shows "fd_key ` set found \<subseteq> fd_key ` set found'" and "covered F qsort skl bd ratio (i, j) (fd_key ` set found')"
proof -
  obtain infos gs where gs: "bucket_guesses F qsort skl bd ratio i j = Some (infos, gs)"
    "try_guesses (try_guess F skl ratio max_ret i j infos) gs found = Inr found'"
    using assms(5) by (auto simp: identify_bucket_def split: option.splits prod.splits)
  have len: "length g = lgn skl div 8" if "g \<in> set gs" for g
    using bucket_guesses_cases [OF assms(1-4), of F ratio] gs(1) that by (auto split: if_splits)
  have ok: "skl_ok skl"
    using assms(1) by (simp add: query_ok_def)
  note found = try_guess_found [OF ok len assms(3)]
  have "case try_guesses (try_guess F skl ratio max_ret i j infos) gs found of
      Inl e \<Rightarrow> True | Inr x \<Rightarrow> fd_key ` set found \<subseteq> fd_key ` set x"
  proof (rule try_guesses_inv)
    fix g and x :: "'f found list"
    assume g: "g \<in> set gs" and x: "fd_key ` set found \<subseteq> fd_key ` set x"
    show "case try_guess F skl ratio max_ret i j infos g x of Inl e \<Rightarrow> True | Inr y \<Rightarrow> fd_key ` set found \<subseteq> fd_key ` set y"
      using found(1) [OF g, of F ratio max_ret j infos x] x by (cases "try_guess F skl ratio max_ret i j infos g x") auto
  qed simp
  then show "fd_key ` set found \<subseteq> fd_key ` set found'"
    by (simp add: gs(2))
  let ?R = "\<lambda>g x. \<forall>r. bucket skl i g = j \<and> passes F skl ratio i g r \<longrightarrow> g \<in> fd_key ` set x"
  have "\<forall>g \<in> set gs. ?R g found'"
  proof (rule try_guesses_done [OF gs(2)])
    show "?R g t" if "g \<in> set gs" "try_guess F skl ratio max_ret i j infos g x = Inr t" for g x t
      using found(2) [OF that] by blast
    show "?R g' t" if "g \<in> set gs" "?R g' x" "try_guess F skl ratio max_ret i j infos g x = Inr t" for g g' x t
      using found(1) [OF that(1,3)] that(2) by blast
  qed
  then show "covered F qsort skl bd ratio (i, j) (fd_key ` set found')"
    using gs(1) by (auto simp: covered_def)
qed

text \<open>
  Claim C26. What \<^verbatim>\<open>SKL_Identify_Thresh\<close> returns: at most \<^verbatim>\<open>max_ret\<close> different keys, each with the
  minimum of its counters as its value, which passes the threshold in a bucket of the key; and every key
  enumerated for a bucket that falls into it and passes its threshold is returned.  The program exits when
  there are too many keys; an access is undefined only when a bucket leaves 31 bits or more unsure, where
  \<^verbatim>\<open>1<<(pos+1)\<close> overflows.
\<close>

theorem SKL_Identify_Thresh_correct:
  assumes "query_ok skl bd" and "permuting qsort" and "depth skl * width skl \<noteq> 1"
  shows "\<exists>bd'. compute_bit_dists F skl bd = Some bd' \<and>
     (case SKL_Identify_Thresh F qsort skl bd ratio max_ret of
        Inl e \<Rightarrow> e = Exit_code (-1) \<or>
          e = Invalid_access \<and> (\<exists>i < depth skl. \<exists>j < width skl. 31 \<le> unsure_count F qsort skl bd' ratio i j)
      | Inr (bd'', found) \<Rightarrow> bd'' = bd' \<and> found_ok F skl ratio max_ret found \<and>
          (\<forall>i < depth skl. \<forall>j < width skl. covered F qsort skl bd' ratio (i, j) (fd_key ` set found)))"
proof -
  have skl: "skl_ok skl" "lgn skl \<le> length (bit_mean bd)" "lgn skl \<le> length (bit_std bd)"
    using assms(1) by (simp_all add: query_ok_def)
  have "counters_ok skl"
    using skl(1) by (auto simp: counters_ok_def skl_ok_def list_all_iff mult.commute)
  then obtain bd' where bd': "compute_bit_dists F skl bd = Some bd'" "query_ok skl bd'"
    using assms(1,3) skl by (auto simp: compute_bit_dists_def query_ok_def)
  let ?f = "identify_bucket F qsort skl bd' ratio max_ret" and ?ijs = "List.product [0..<depth skl] [0..<width skl]"
  let ?E = "\<lambda>e. e = Exit_code (-1) \<or>
     e = Invalid_access \<and> (\<exists>i < depth skl. \<exists>j < width skl. 31 \<le> unsure_count F qsort skl bd' ratio i j)"
  have "case try_guesses ?f ?ijs [] of Inl e \<Rightarrow> ?E e | Inr found \<Rightarrow> found_ok F skl ratio max_ret found"
  proof (rule try_guesses_inv [where I = "found_ok F skl ratio max_ret"])
    show "found_ok F skl ratio max_ret []"
      by (simp add: found_ok_def)
    show "case ?f ij found of Inl e \<Rightarrow> ?E e | Inr found' \<Rightarrow> found_ok F skl ratio max_ret found'"
      if "ij \<in> set ?ijs" "found_ok F skl ratio max_ret found" for ij found
      using identify_bucket_ok [OF bd'(2) assms(2) _ _ that(2), of "fst ij" "snd ij"] that(1)
      by (cases ij; cases "?f ij found") auto
  qed
  moreover have "\<forall>ij \<in> set ?ijs. covered F qsort skl bd' ratio ij (fd_key ` set found)"
    if "try_guesses ?f ?ijs [] = Inr found" for found
  proof (rule try_guesses_done [OF that])
    note found = identify_bucket_found [OF bd'(2) assms(2)]
    show "covered F qsort skl bd' ratio ij (fd_key ` set t)" if "ij \<in> set ?ijs" "?f ij s = Inr t" for ij s t
      using that found(2) [of "fst ij" "snd ij" F ratio max_ret s t] by auto
    show "covered F qsort skl bd' ratio kl (fd_key ` set t)"
      if "ij \<in> set ?ijs" "covered F qsort skl bd' ratio kl (fd_key ` set s)" "?f ij s = Inr t" for ij kl s t
      using that found(1) [of "fst ij" "snd ij" F ratio max_ret s t] by (auto intro: covered_mono [OF that(2)])
  qed
  ultimately show ?thesis
    unfolding SKL_Identify_Thresh_def by (intro exI [of _ bd']) (auto simp: bd'(1) split: sum.splits)
qed

theorem SKL_Identify_Thresh_correct_witness:
  "\<exists>bd'. compute_bit_dists rat_ops small_skl \<lparr>bit_mean = replicate 104 0, bit_std = replicate 104 0\<rparr> = Some bd' \<and>
     (case SKL_Identify_Thresh rat_ops (\<lambda>xs. xs) small_skl \<lparr>bit_mean = replicate 104 0, bit_std = replicate 104 0\<rparr> (1 / 10) 20 of
        Inl e \<Rightarrow> e = Exit_code (-1) \<or>
          e = Invalid_access \<and> (\<exists>i < 2. \<exists>j < 3. 31 \<le> unsure_count rat_ops (\<lambda>xs. xs) small_skl bd' (1 / 10) i j)
      | Inr (bd'', found) \<Rightarrow> bd'' = bd' \<and> found_ok rat_ops small_skl (1 / 10) 20 found \<and>
          (\<forall>i < 2. \<forall>j < 3. covered rat_ops (\<lambda>xs. xs) small_skl bd' (1 / 10) (i, j) (fd_key ` set found)))"
proof -
  have small: "depth small_skl = 2" "width small_skl = 3" "lgn small_skl = 8"
    by (simp_all add: small_skl_def)
  let ?bd = "\<lparr>bit_mean = replicate 104 0, bit_std = replicate 104 0\<rparr> :: rat bit_dists"
  have "query_ok small_skl ?bd" "permuting (\<lambda>xs :: rat bit_info list. xs)" "depth small_skl * width small_skl \<noteq> 1"
    by (simp_all add: query_ok_def small_skl_ok permuting_def small)
  from SKL_Identify_Thresh_correct [OF this, of rat_ops "1 / 10" 20] show ?thesis
    unfolding small .
qed

end
