(* ===== verification/Timestamp.thy ===== *)
theory Timestamp
  imports Prelude
begin

text \<open>
  \<^verbatim>\<open>src/netpaxos/src/timestamp.c\<close>: the plugin functions that write the time into the Paxos header of a
  packet, called from the P4 actions of the coordinator and the acceptor.  The interface of the network
  processor (\<^verbatim>\<open>pif_plugin.h\<close>, \<^verbatim>\<open>nfp.h\<close>) is a parameter, the record \<open>pif_api\<close>: the two halves of the
  hardware time counter, which change the state of the hardware because time passes, whether the packet
  has a Paxos header, and reading and writing that header.  \<open>pif_ok\<close> states what these do.
\<close>

section \<open>The interface of the network processor\<close>

text \<open>The fields that the plugin writes; the others are the extension of the record.\<close>

record PIF_PLUGIN_paxos_T =
  fsh :: u32
  fsl :: u32
  feh :: u32
  fel :: u32
  csh :: u32
  csl :: u32
  ceh :: u32
  cel :: u32
  ash :: u32
  asl :: u32
  aeh :: u32
  ael :: u32

record ('h, 'p, 'w) pif_api =
  csr_timestamp_low :: "'w \<Rightarrow> u32 \<times> 'w"
  csr_timestamp_high :: "'w \<Rightarrow> u32 \<times> 'w"
  pif_plugin_hdr_paxos_present :: "'h \<Rightarrow> bool"
  pif_plugin_hdr_get_paxos :: "'h \<Rightarrow> 'p PIF_PLUGIN_paxos_T_scheme"
  pif_plugin_hdr_set_paxos :: "'h \<Rightarrow> 'p PIF_PLUGIN_paxos_T_scheme \<Rightarrow> 'h"

datatype pif_return = PIF_PLUGIN_RETURN_FORWARD | PIF_PLUGIN_RETURN_DROP

text \<open>The global registers of the plugin.\<close>

record timestamp_regs =
  timestamp_high :: u32
  timestamp_low :: u32

section \<open>The plugin functions\<close>

definition pif_plugin_get_forwarding_start_time ::
  "('h, 'p, 'w) pif_api \<Rightarrow> 'h \<Rightarrow> timestamp_regs \<times> 'w \<Rightarrow> pif_return \<times> 'h \<times> timestamp_regs \<times> 'w" where
  "pif_plugin_get_forwarding_start_time api headers s =
     (let (g, w) = s;
          (low, w) = csr_timestamp_low api w; g = g\<lparr>timestamp_low := low\<rparr>;
          (high, w) = csr_timestamp_high api w; g = g\<lparr>timestamp_high := high\<rparr>
      in if \<not> pif_plugin_hdr_paxos_present api headers then (PIF_PLUGIN_RETURN_FORWARD, headers, g, w)
         else
           let paxos = pif_plugin_hdr_get_paxos api headers;
               paxos = paxos\<lparr>fsl := timestamp_low g\<rparr>; paxos = paxos\<lparr>fsh := timestamp_high g\<rparr>
           in (PIF_PLUGIN_RETURN_FORWARD, pif_plugin_hdr_set_paxos api headers paxos, g, w))"

definition pif_plugin_get_forwarding_end_time ::
  "('h, 'p, 'w) pif_api \<Rightarrow> 'h \<Rightarrow> timestamp_regs \<times> 'w \<Rightarrow> pif_return \<times> 'h \<times> timestamp_regs \<times> 'w" where
  "pif_plugin_get_forwarding_end_time api headers s =
     (let (g, w) = s;
          (low, w) = csr_timestamp_low api w; g = g\<lparr>timestamp_low := low\<rparr>;
          (high, w) = csr_timestamp_high api w; g = g\<lparr>timestamp_high := high\<rparr>
      in if \<not> pif_plugin_hdr_paxos_present api headers then (PIF_PLUGIN_RETURN_FORWARD, headers, g, w)
         else
           let paxos = pif_plugin_hdr_get_paxos api headers;
               paxos = paxos\<lparr>fel := timestamp_low g\<rparr>; paxos = paxos\<lparr>feh := timestamp_high g\<rparr>
           in (PIF_PLUGIN_RETURN_FORWARD, pif_plugin_hdr_set_paxos api headers paxos, g, w))"

definition pif_plugin_get_coordinator_start_time ::
  "('h, 'p, 'w) pif_api \<Rightarrow> 'h \<Rightarrow> timestamp_regs \<times> 'w \<Rightarrow> pif_return \<times> 'h \<times> timestamp_regs \<times> 'w" where
  "pif_plugin_get_coordinator_start_time api headers s =
     (let (g, w) = s;
          (low, w) = csr_timestamp_low api w; g = g\<lparr>timestamp_low := low\<rparr>;
          (high, w) = csr_timestamp_high api w; g = g\<lparr>timestamp_high := high\<rparr>
      in if \<not> pif_plugin_hdr_paxos_present api headers then (PIF_PLUGIN_RETURN_DROP, headers, g, w)
         else
           let paxos = pif_plugin_hdr_get_paxos api headers;
               paxos = paxos\<lparr>csl := timestamp_low g\<rparr>; paxos = paxos\<lparr>csh := timestamp_high g\<rparr>
           in (PIF_PLUGIN_RETURN_FORWARD, pif_plugin_hdr_set_paxos api headers paxos, g, w))"

definition pif_plugin_get_coordinator_end_time ::
  "('h, 'p, 'w) pif_api \<Rightarrow> 'h \<Rightarrow> timestamp_regs \<times> 'w \<Rightarrow> pif_return \<times> 'h \<times> timestamp_regs \<times> 'w" where
  "pif_plugin_get_coordinator_end_time api headers s =
     (let (g, w) = s;
          (low, w) = csr_timestamp_low api w; g = g\<lparr>timestamp_low := low\<rparr>;
          (high, w) = csr_timestamp_high api w; g = g\<lparr>timestamp_high := high\<rparr>
      in if \<not> pif_plugin_hdr_paxos_present api headers then (PIF_PLUGIN_RETURN_DROP, headers, g, w)
         else
           let paxos = pif_plugin_hdr_get_paxos api headers;
               paxos = paxos\<lparr>cel := timestamp_low g\<rparr>; paxos = paxos\<lparr>ceh := timestamp_high g\<rparr>
           in (PIF_PLUGIN_RETURN_FORWARD, pif_plugin_hdr_set_paxos api headers paxos, g, w))"

definition pif_plugin_get_acceptor_start_time ::
  "('h, 'p, 'w) pif_api \<Rightarrow> 'h \<Rightarrow> timestamp_regs \<times> 'w \<Rightarrow> pif_return \<times> 'h \<times> timestamp_regs \<times> 'w" where
  "pif_plugin_get_acceptor_start_time api headers s =
     (let (g, w) = s;
          (low, w) = csr_timestamp_low api w; g = g\<lparr>timestamp_low := low\<rparr>;
          (high, w) = csr_timestamp_high api w; g = g\<lparr>timestamp_high := high\<rparr>
      in if \<not> pif_plugin_hdr_paxos_present api headers then (PIF_PLUGIN_RETURN_DROP, headers, g, w)
         else
           let paxos = pif_plugin_hdr_get_paxos api headers;
               paxos = paxos\<lparr>asl := timestamp_low g\<rparr>; paxos = paxos\<lparr>ash := timestamp_high g\<rparr>
           in (PIF_PLUGIN_RETURN_FORWARD, pif_plugin_hdr_set_paxos api headers paxos, g, w))"

definition pif_plugin_get_acceptor_end_time ::
  "('h, 'p, 'w) pif_api \<Rightarrow> 'h \<Rightarrow> timestamp_regs \<times> 'w \<Rightarrow> pif_return \<times> 'h \<times> timestamp_regs \<times> 'w" where
  "pif_plugin_get_acceptor_end_time api headers s =
     (let (g, w) = s;
          (low, w) = csr_timestamp_low api w; g = g\<lparr>timestamp_low := low\<rparr>;
          (high, w) = csr_timestamp_high api w; g = g\<lparr>timestamp_high := high\<rparr>
      in if \<not> pif_plugin_hdr_paxos_present api headers then (PIF_PLUGIN_RETURN_DROP, headers, g, w)
         else
           let paxos = pif_plugin_hdr_get_paxos api headers;
               paxos = paxos\<lparr>ael := timestamp_low g\<rparr>; paxos = paxos\<lparr>aeh := timestamp_high g\<rparr>
           in (PIF_PLUGIN_RETURN_FORWARD, pif_plugin_hdr_set_paxos api headers paxos, g, w))"

section \<open>What they do\<close>

datatype point =
    Forwarding_start | Forwarding_end | Coordinator_start | Coordinator_end | Acceptor_start | Acceptor_end

fun plugin :: "point \<Rightarrow> ('h, 'p, 'w) pif_api \<Rightarrow> 'h \<Rightarrow> timestamp_regs \<times> 'w \<Rightarrow>
    pif_return \<times> 'h \<times> timestamp_regs \<times> 'w" where
  "plugin Forwarding_start = pif_plugin_get_forwarding_start_time"
| "plugin Forwarding_end = pif_plugin_get_forwarding_end_time"
| "plugin Coordinator_start = pif_plugin_get_coordinator_start_time"
| "plugin Coordinator_end = pif_plugin_get_coordinator_end_time"
| "plugin Acceptor_start = pif_plugin_get_acceptor_start_time"
| "plugin Acceptor_end = pif_plugin_get_acceptor_end_time"

text \<open>The time that the header records for a point: the 64-bit number of the two halves.\<close>

definition join :: "u32 \<Rightarrow> u32 \<Rightarrow> nat" where
  "join high low = unat high * 2 ^ 32 + unat low"

fun recorded :: "point \<Rightarrow> 'p PIF_PLUGIN_paxos_T_scheme \<Rightarrow> nat" where
  "recorded Forwarding_start p = join (fsh p) (fsl p)"
| "recorded Forwarding_end p = join (feh p) (fel p)"
| "recorded Coordinator_start p = join (csh p) (csl p)"
| "recorded Coordinator_end p = join (ceh p) (cel p)"
| "recorded Acceptor_start p = join (ash p) (asl p)"
| "recorded Acceptor_end p = join (aeh p) (ael p)"

text \<open>
  The hardware: \<open>clock w\<close> is the 64-bit counter in state \<open>w\<close>; reading a half takes time, but less than a
  wrap of the low half.  The header of a packet that has one is what was last written.
\<close>

definition pif_ok :: "('h, 'p, 'w) pif_api \<Rightarrow> ('w \<Rightarrow> nat) \<Rightarrow> bool" where
  "pif_ok api clock \<longleftrightarrow>
     (\<forall>w. clock w < 2 ^ 64 \<and>
       fst (csr_timestamp_low api w) = of_nat (clock w) \<and>
       fst (csr_timestamp_high api w) = of_nat (clock w div 2 ^ 32) \<and>
       clock w \<le> clock (snd (csr_timestamp_low api w)) \<and>
       clock (snd (csr_timestamp_low api w)) < clock w + 2 ^ 32) \<and>
     (\<forall>h p. pif_plugin_hdr_paxos_present api h \<longrightarrow>
       pif_plugin_hdr_paxos_present api (pif_plugin_hdr_set_paxos api h p) \<and>
       pif_plugin_hdr_get_paxos api (pif_plugin_hdr_set_paxos api h p) = p)"

lemma pif_okD:
  assumes "pif_ok api clock"
  shows "clock w < 2 ^ 64" "fst (csr_timestamp_low api w) = of_nat (clock w)"
    "fst (csr_timestamp_high api w) = of_nat (clock w div 2 ^ 32)"
    "clock w \<le> clock (snd (csr_timestamp_low api w))"
    "clock (snd (csr_timestamp_low api w)) < clock w + 2 ^ 32"
  using assms unfolding pif_ok_def by blast+

lemma pif_ok_set:
  assumes "pif_ok api clock" and "pif_plugin_hdr_paxos_present api h"
  shows "pif_plugin_hdr_paxos_present api (pif_plugin_hdr_set_paxos api h p)"
    "pif_plugin_hdr_get_paxos api (pif_plugin_hdr_set_paxos api h p) = p"
  using assms unfolding pif_ok_def by blast+

lemma join_clock:
  assumes "t \<le> t'" and "t' < t + 2 ^ 32" and "t' < 2 ^ 64"
  shows "join (of_nat (t' div 2 ^ 32)) (of_nat t) = t + (if t div 2 ^ 32 = t' div 2 ^ 32 then 0 else 2 ^ 32)"
proof -
  let ?M = "2 ^ 32 :: nat"
  have "t div ?M \<le> t' div ?M"
    using assms(1) by (rule div_le_mono)
  moreover have "t' div ?M \<le> (t + ?M) div ?M"
    using assms(2) by (intro div_le_mono) linarith
  moreover have "(t + ?M) div ?M = t div ?M + 1"
    by (rule div_add_self2) simp
  ultimately have *: "t' div ?M = t div ?M \<or> t' div ?M = t div ?M + 1"
    by linarith
  have "t' div ?M < 2 ^ 32"
    using assms(3) by (simp add: less_mult_imp_div_less)
  then have high: "unat (of_nat (t' div ?M) :: u32) = t' div ?M"
    by (simp only: unat_of_nat len_of_numeral_defs) simp
  have low: "unat (of_nat t :: u32) = t mod ?M"
    by (simp only: unat_of_nat) simp
  have "join (of_nat (t' div ?M)) (of_nat t) = t' div ?M * ?M + t mod ?M"
    by (simp only: join_def high low)
  then show ?thesis
    using * div_mult_mod_eq [of t ?M] by (elim disjE) (simp_all only: add_mult_distrib, simp_all)
qed

lemmas plugin_defs =
  pif_plugin_get_forwarding_start_time_def pif_plugin_get_forwarding_end_time_def
  pif_plugin_get_coordinator_start_time_def pif_plugin_get_coordinator_end_time_def
  pif_plugin_get_acceptor_start_time_def pif_plugin_get_acceptor_end_time_def

lemma plugin_present:
  assumes "pif_plugin_hdr_paxos_present api h"
    and "csr_timestamp_low api w = (low, w1)" and "csr_timestamp_high api w1 = (high, w2)"
  obtains p' where
    "plugin c api h (g, w) =
       (PIF_PLUGIN_RETURN_FORWARD, pif_plugin_hdr_set_paxos api h p',
        \<lparr>timestamp_high = high, timestamp_low = low\<rparr>, w2)"
    and "recorded c p' = join high low"
    and "\<And>c'. c' \<noteq> c \<Longrightarrow> recorded c' p' = recorded c' (pif_plugin_hdr_get_paxos api h)"
    and "PIF_PLUGIN_paxos_T.more p' = PIF_PLUGIN_paxos_T.more (pif_plugin_hdr_get_paxos api h)"
proof -
  let ?p = "pif_plugin_hdr_get_paxos api h"
  let ?p' = "case c of
      Forwarding_start \<Rightarrow> ?p\<lparr>fsl := low, fsh := high\<rparr> | Forwarding_end \<Rightarrow> ?p\<lparr>fel := low, feh := high\<rparr>
    | Coordinator_start \<Rightarrow> ?p\<lparr>csl := low, csh := high\<rparr> | Coordinator_end \<Rightarrow> ?p\<lparr>cel := low, ceh := high\<rparr>
    | Acceptor_start \<Rightarrow> ?p\<lparr>asl := low, ash := high\<rparr> | Acceptor_end \<Rightarrow> ?p\<lparr>ael := low, aeh := high\<rparr>"
  show thesis
  proof (rule that [of ?p'])
    show "plugin c api h (g, w) =
        (PIF_PLUGIN_RETURN_FORWARD, pif_plugin_hdr_set_paxos api h ?p',
         \<lparr>timestamp_high = high, timestamp_low = low\<rparr>, w2)"
      using assms by (cases c) (simp_all add: plugin_defs)
    show "recorded c ?p' = join high low"
      by (cases c) simp_all
    show "recorded c' ?p' = recorded c' ?p" if "c' \<noteq> c" for c'
      using that by (cases c; cases c') simp_all
    show "PIF_PLUGIN_paxos_T.more ?p' = PIF_PLUGIN_paxos_T.more ?p"
      by (cases c) simp_all
  qed
qed

text \<open>
  Claim C33. A plugin function called on a packet with a Paxos header forwards it and records the time of
  its point, leaving the times of the other points and the rest of the header alone.  The recorded time
  is the clock at the first of the two reads, except that it is $2^{32}$ too large exactly when the low
  half of the clock wraps around between the two reads.  On a packet without the header nothing is
  written, and only the forwarding functions let it pass.
\<close>

theorem plugin_records_time:
  assumes "pif_ok api clock" and "plugin c api h (g, w) = (r, h', g', w')"
  shows "if pif_plugin_hdr_paxos_present api h
    then r = PIF_PLUGIN_RETURN_FORWARD \<and> pif_plugin_hdr_paxos_present api h' \<and>
      recorded c (pif_plugin_hdr_get_paxos api h') =
        clock w + (if clock w div 2 ^ 32 = clock (snd (csr_timestamp_low api w)) div 2 ^ 32 then 0 else 2 ^ 32) \<and>
      (\<forall>c'. c' \<noteq> c \<longrightarrow>
        recorded c' (pif_plugin_hdr_get_paxos api h') = recorded c' (pif_plugin_hdr_get_paxos api h)) \<and>
      PIF_PLUGIN_paxos_T.more (pif_plugin_hdr_get_paxos api h') =
        PIF_PLUGIN_paxos_T.more (pif_plugin_hdr_get_paxos api h)
    else h' = h \<and>
      r = (if c = Forwarding_start \<or> c = Forwarding_end then PIF_PLUGIN_RETURN_FORWARD
           else PIF_PLUGIN_RETURN_DROP)"
proof -
  obtain low w1 where l: "csr_timestamp_low api w = (low, w1)" by fastforce
  obtain high w2 where hi: "csr_timestamp_high api w1 = (high, w2)" by fastforce
  have low: "low = of_nat (clock w)" and high: "high = of_nat (clock w1 div 2 ^ 32)"
    and *: "clock w \<le> clock w1" "clock w1 < clock w + 2 ^ 32" "clock w1 < 2 ^ 64"
    using pif_okD [OF assms(1), of w] pif_okD [OF assms(1), of w1] by (simp_all add: l hi)
  show ?thesis
  proof (cases "pif_plugin_hdr_paxos_present api h")
    case True
    from plugin_present [OF True l hi, of c g] obtain p' where
      "h' = pif_plugin_hdr_set_paxos api h p'" "r = PIF_PLUGIN_RETURN_FORWARD"
      "recorded c p' = join high low"
      "\<And>c'. c' \<noteq> c \<Longrightarrow> recorded c' p' = recorded c' (pif_plugin_hdr_get_paxos api h)"
      "PIF_PLUGIN_paxos_T.more p' = PIF_PLUGIN_paxos_T.more (pif_plugin_hdr_get_paxos api h)"
      using assms(2) by (metis prod.inject)
    then show ?thesis
      using True pif_ok_set [OF assms(1) True, of p'] join_clock [OF *] by (simp add: low high l)
  next
    case False
    then show ?thesis
      using assms(2) by (cases c) (simp_all add: plugin_defs l hi)
  qed
qed

text \<open>A packet that may have the header, and a counter that advances by one at each read.\<close>

definition tick_api :: "(unit PIF_PLUGIN_paxos_T_scheme option, unit, nat) pif_api" where
  "tick_api =
     \<lparr>csr_timestamp_low = (\<lambda>w. (of_nat (min w (2 ^ 64 - 1)), Suc w)),
      csr_timestamp_high = (\<lambda>w. (of_nat (min w (2 ^ 64 - 1) div 2 ^ 32), Suc w)),
      pif_plugin_hdr_paxos_present = (\<lambda>h. h \<noteq> None),
      pif_plugin_hdr_get_paxos = the, pif_plugin_hdr_set_paxos = (\<lambda>_ p. Some p)\<rparr>"

definition zero_paxos :: PIF_PLUGIN_paxos_T where
  "zero_paxos =
     \<lparr>fsh = 0, fsl = 0, feh = 0, fel = 0, csh = 0, csl = 0, ceh = 0, cel = 0, ash = 0, asl = 0,
      aeh = 0, ael = 0\<rparr>"

theorem plugin_records_time_witness:
  "case plugin Coordinator_start tick_api (Some zero_paxos)
      (\<lparr>timestamp_high = 0, timestamp_low = 0\<rparr>, 2 ^ 32 - 1) of
     (r, h', g', w') \<Rightarrow> r = PIF_PLUGIN_RETURN_FORWARD \<and> recorded Coordinator_start (the h') = 2 ^ 33 - 1"
proof -
  let ?g = "\<lparr>timestamp_high = 0, timestamp_low = 0\<rparr> :: timestamp_regs"
  obtain r h' g' w' where *:
    "plugin Coordinator_start tick_api (Some zero_paxos) (?g, 2 ^ 32 - 1) = (r, h', g', w')"
    by (metis prod_cases4)
  have "pif_ok tick_api (\<lambda>w. min w (2 ^ 64 - 1))"
    by (auto simp: pif_ok_def tick_api_def)
  from plugin_records_time [OF this *] show ?thesis
    unfolding * prod.case by (simp add: tick_api_def)
qed

end
