(* ===== verification/Hash_Table.thy ===== *)
theory Hash_Table
  imports Bytes Int_Prime "HOL-Library.Monad_Syntax"
begin

text \<open>
  \<^verbatim>\<open>hash_table.c\<close> and \<^verbatim>\<open>hash_table.h\<close>: a chained hash table over one array of entries.  The entries are
  linked twice: \<^verbatim>\<open>prev\<close>/\<^verbatim>\<open>next\<close> chain the entries of one row, \<^verbatim>\<open>gprev\<close>/\<^verbatim>\<open>gnext\<close> chain the whole array,
  and \<^verbatim>\<open>free_entry\<close> splits that chain into used and free entries.  A pointer to an entry is its index in
  the array \<^verbatim>\<open>slot\<close>, the null pointer is \<open>None\<close>; the array and the row heads are therefore an explicit
  heap, and the functions below update it one assignment at a time, as the C code does.  An operation is
  \<open>None\<close> when it follows a pointer out of the array, when a key or value is longer than its field, or
  when the walk along a chain does not end.  Allocations succeed.
\<close>

section \<open>Data\<close>

record hash_entry =
  h_key :: "u8 list"
  h_key_len :: nat
  h_value :: "u8 list"
  h_value_len :: nat
  belong :: int
  prev_entry :: "nat option"
  next_entry :: "nat option"
  gprev :: "nat option"
  gnext :: "nat option"

record hashtable =
  ht_key_len :: nat
  ht_value_len :: nat
  max_size :: nat
  num_list :: nat
  ht_hash :: u64
  ht_scale :: u64
  ht_hardner :: u64
  hash_list :: "nat option list"
  slot :: "hash_entry list"
  ghead :: "nat option"
  gtail :: "nat option"
  free_entry :: "nat option"
  cur_num_entry :: nat

section \<open>Private functions\<close>

definition NUM_ROW_FACTOR :: int where
  "NUM_ROW_FACTOR = 7"

text \<open>Reading and writing through a pointer.\<close>

definition entry_at :: "hashtable \<Rightarrow> nat \<Rightarrow> hash_entry option" where
  "entry_at a p = (if p < length (slot a) then Some (slot a ! p) else None)"

definition put_entry :: "hashtable \<Rightarrow> nat \<Rightarrow> (hash_entry \<Rightarrow> hash_entry) \<Rightarrow> hashtable option" where
  "put_entry a p f =
     (if p < length (slot a) then Some (a\<lparr>slot := (slot a)[p := f (slot a ! p)]\<rparr>) else None)"

text \<open>The result of \<^verbatim>\<open>AwareHash\<close> is cut to an \<^verbatim>\<open>unsigned int\<close>.\<close>

definition hashtable_hash_fcn :: "hashtable \<Rightarrow> u8 list \<Rightarrow> u32 option" where
  "hashtable_hash_fcn a key =
     map_option ucast (AwareHash key (ht_key_len a) (ht_hash a) (ht_scale a) (ht_hardner a))"

definition hashtable_cmp_fcn :: "u8 list \<Rightarrow> u8 list \<Rightarrow> nat \<Rightarrow> bool option" where
  "hashtable_cmp_fcn k1 k2 n =
     (if n \<le> length k1 \<and> n \<le> length k2 then Some (take n k1 = take n k2) else None)"

text \<open>\<^verbatim>\<open>memset(p, 0, n)\<close> on a field.\<close>

definition clear :: "nat \<Rightarrow> u8 list \<Rightarrow> u8 list option" where
  "clear n bs = copy_in bs 0 (replicate n 0)"

definition hashtable_init_fcn :: "hash_entry \<Rightarrow> hash_entry option" where
  "hashtable_init_fcn f =
     do { k \<leftarrow> clear (h_key_len f) (h_key f);
          v \<leftarrow> clear (h_value_len f) (h_value f);
          Some (f\<lparr>h_key := k, h_value := v\<rparr>) }"

definition hashtable_reset_fcn :: "hash_entry \<Rightarrow> hash_entry option" where
  "hashtable_reset_fcn f =
     do { k \<leftarrow> clear (h_key_len f) (h_key f);
          v \<leftarrow> clear (h_value_len f) (h_value f);
          Some (f\<lparr>h_key := k, h_value := v\<rparr>) }"

definition hashtable_link_node :: "hashtable \<Rightarrow> nat \<Rightarrow> hashtable option" where
  "hashtable_link_node a p =
     do { e \<leftarrow> entry_at a p;
          let index = belong e;
          if index = -1 then Some a
          else if index < 0 \<or> int (length (hash_list a)) \<le> index then None
          else (case hash_list a ! nat index of
                  Some q \<Rightarrow>
                    do { a \<leftarrow> put_entry a p (\<lambda>e. e\<lparr>prev_entry := None\<rparr>);
                         a \<leftarrow> put_entry a p (\<lambda>e. e\<lparr>next_entry := Some q\<rparr>);
                         a \<leftarrow> put_entry a q (\<lambda>e. e\<lparr>prev_entry := Some p\<rparr>);
                         Some (a\<lparr>hash_list := (hash_list a)[nat index := Some p]\<rparr>) }
                | None \<Rightarrow>
                    do { a \<leftarrow> put_entry a p (\<lambda>e. e\<lparr>prev_entry := None\<rparr>);
                         a \<leftarrow> put_entry a p (\<lambda>e. e\<lparr>next_entry := None\<rparr>);
                         Some (a\<lparr>hash_list := (hash_list a)[nat index := Some p]\<rparr>) }) }"

definition hashtable_unlink_node :: "hashtable \<Rightarrow> nat \<Rightarrow> hashtable option" where
  "hashtable_unlink_node a p =
     do { e \<leftarrow> entry_at a p;
          let index = belong e;
          if index = -1 then Some a
          else do {
            a \<leftarrow> (case prev_entry e of
                    Some q \<Rightarrow> put_entry a q (\<lambda>f. f\<lparr>next_entry := next_entry e\<rparr>)
                  | None \<Rightarrow>
                      if index < 0 \<or> int (length (hash_list a)) \<le> index then None
                      else Some (a\<lparr>hash_list := (hash_list a)[nat index := next_entry e]\<rparr>));
            e \<leftarrow> entry_at a p;
            (case next_entry e of
               Some q \<Rightarrow> put_entry a q (\<lambda>f. f\<lparr>prev_entry := prev_entry e\<rparr>)
             | None \<Rightarrow> Some a) } }"

definition hashtable_glink_node :: "hashtable \<Rightarrow> nat \<Rightarrow> hashtable option" where
  "hashtable_glink_node a p =
     do { a \<leftarrow> put_entry a p (\<lambda>e. e\<lparr>gprev := None\<rparr>);
          a \<leftarrow> put_entry a p (\<lambda>e. e\<lparr>gnext := ghead a\<rparr>);
          h \<leftarrow> ghead a;
          a \<leftarrow> put_entry a h (\<lambda>e. e\<lparr>gprev := Some p\<rparr>);
          Some (a\<lparr>ghead := Some p\<rparr>) }"

definition hashtable_gunlink_node :: "hashtable \<Rightarrow> nat \<Rightarrow> hashtable option" where
  "hashtable_gunlink_node a p =
     do { e \<leftarrow> entry_at a p;
          a \<leftarrow> (case gprev e of
                  Some q \<Rightarrow> put_entry a q (\<lambda>f. f\<lparr>gnext := gnext e\<rparr>)
                | None \<Rightarrow> Some (a\<lparr>ghead := gnext e\<rparr>));
          e \<leftarrow> entry_at a p;
          (case gnext e of
             Some q \<Rightarrow> put_entry a q (\<lambda>f. f\<lparr>gprev := gprev e\<rparr>)
           | None \<Rightarrow> Some (a\<lparr>gtail := gprev e\<rparr>)) }"

text \<open>The exhausted table ends the program, which is the value \<open>Inl (Exit_code (-1))\<close>.\<close>

definition as_get_free_node :: "hashtable \<Rightarrow> (c_error + hashtable \<times> nat) option" where
  "as_get_free_node a =
     (case free_entry a of
        None \<Rightarrow> Some (Inl (Exit_code (-1)))
      | Some p \<Rightarrow>
          do { e \<leftarrow> entry_at a p;
               let a = a\<lparr>free_entry := gnext e\<rparr>;
               e \<leftarrow> hashtable_init_fcn e;
               a \<leftarrow> put_entry a p (\<lambda>_. e);
               Some (Inr (a, p)) })"

text \<open>The walk along a row.\<close>

partial_function (option) find_row ::
  "hashtable \<Rightarrow> u8 list \<Rightarrow> nat option \<Rightarrow> nat option option" where
  "find_row a key hnode =
     (case hnode of
        None \<Rightarrow> Some None
      | Some p \<Rightarrow>
          do { e \<leftarrow> entry_at a p;
               found \<leftarrow> hashtable_cmp_fcn (h_key e) key (ht_key_len a);
               if found then Some (Some p) else find_row a key (next_entry e) })"

definition hashtable_find_entry :: "hashtable \<Rightarrow> u8 list \<Rightarrow> (nat option \<times> nat) option" where
  "hashtable_find_entry a key =
     do { h \<leftarrow> hashtable_hash_fcn a key;
          if num_list a = 0 then None
          else do {
            let index = unat h mod num_list a;
            if length (hash_list a) \<le> index then None
            else do {
              hnode \<leftarrow> find_row a key (hash_list a ! index);
              Some (hnode, index) } } }"

section \<open>Functions of the associative array\<close>

definition hashtable_find ::
  "hashtable \<Rightarrow> u8 list \<Rightarrow> bool \<Rightarrow> (c_error + hashtable \<times> nat option) option" where
  "hashtable_find a t is_create =
     do { (hit, bucket_no) \<leftarrow> hashtable_find_entry a t;
          if hit = None \<and> is_create
          then do {
            r \<leftarrow> as_get_free_node a;
            case r of
              Inl err \<Rightarrow> Some (Inl err)
            | Inr (a, p) \<Rightarrow>
                do { e \<leftarrow> entry_at a p;
                     k \<leftarrow> (if ht_key_len a \<le> length t then copy_in (h_key e) 0 (take (ht_key_len a) t) else None);
                     a \<leftarrow> put_entry a p (\<lambda>e. e\<lparr>h_key := k\<rparr>);
                     a \<leftarrow> put_entry a p (\<lambda>e. e\<lparr>belong := int bucket_no\<rparr>);
                     a \<leftarrow> hashtable_link_node a p;
                     Some (Inr (a\<lparr>cur_num_entry := cur_num_entry a + 1\<rparr>, Some p)) } }
          else Some (Inr (a, hit)) }"

text \<open>The characters of \<^verbatim>\<open>associative\<close>, whose sum seeds the hash function.\<close>

definition associative_seed :: u32 where
  "associative_seed = sum_list [97, 115, 115, 111, 99, 105, 97, 116, 105, 118, 101]"

definition fresh_entry :: "nat \<Rightarrow> nat \<Rightarrow> nat \<Rightarrow> nat \<Rightarrow> hash_entry" where
  "fresh_entry n key_len v_len i =
     \<lparr>h_key = replicate 13 0, h_key_len = key_len, h_value = replicate 24 0, h_value_len = v_len,
      belong = -1, prev_entry = None, next_entry = None,
      gprev = (if i = 0 then None else Some (i - 1)),
      gnext = (if i = n - 1 then None else Some (i + 1))\<rparr>"

text \<open>
  \<open>None\<close> for a size that is not positive (the pointer to the last entry is then undefined) and when the
  product of \<^verbatim>\<open>int\<close>s overflows.
\<close>

definition hashtable_init ::
  "(nat \<Rightarrow> u64) \<Rightarrow> seed_state \<Rightarrow> int \<Rightarrow> nat \<Rightarrow> nat \<Rightarrow> (hashtable \<times> seed_state) option" where
  "hashtable_init rand g size_max key_len v_len =
     do { q \<leftarrow> calc_next_prime size_max;
          if size_max \<le> 0 \<or> q * NUM_ROW_FACTOR \<ge> 2 ^ 31 then None
          else do {
            let n = nat size_max;
            let rows = nat (q * NUM_ROW_FACTOR);
            let (h, g) = GenHashSeed rand g (associative_seed + 104);
            let (s, g) = GenHashSeed rand g (associative_seed + 115);
            let (hd, g) = GenHashSeed rand g (associative_seed + 97);
            h \<leftarrow> h;
            s \<leftarrow> s;
            hd \<leftarrow> hd;
            Some (\<lparr>ht_key_len = key_len, ht_value_len = v_len, max_size = n, num_list = rows,
                   ht_hash = h, ht_scale = s, ht_hardner = hd, hash_list = replicate rows None,
                   slot = map (fresh_entry n key_len v_len) [0..<n], ghead = Some 0,
                   gtail = Some (n - 1), free_entry = Some 0, cur_num_entry = 0\<rparr>, g) } }"

text \<open>The last used entry, from which reset and the enumeration walk back.\<close>

definition last_used :: "hashtable \<Rightarrow> nat option option" where
  "last_used a =
     (case free_entry a of None \<Rightarrow> Some (gtail a) | Some p \<Rightarrow> map_option gprev (entry_at a p))"

partial_function (option) reset_entries :: "hashtable \<Rightarrow> nat option \<Rightarrow> hashtable option" where
  "reset_entries a h =
     (case h of
        None \<Rightarrow> Some a
      | Some p \<Rightarrow>
          do { e \<leftarrow> entry_at a p;
               e \<leftarrow> hashtable_reset_fcn e;
               a \<leftarrow> put_entry a p (\<lambda>_. e\<lparr>belong := -1, prev_entry := None, next_entry := None\<rparr>);
               reset_entries a (gprev e) })"

definition hashtable_reset :: "hashtable \<Rightarrow> hashtable option" where
  "hashtable_reset a =
     do { h \<leftarrow> last_used a;
          a \<leftarrow> reset_entries a h;
          Some (a\<lparr>free_entry := ghead a, cur_num_entry := 0,
                  hash_list := map (\<lambda>_. None) (hash_list a)\<rparr>) }"

text \<open>The copy runs over the end of the returned array (\<open>None\<close>) if more than \<open>n\<close> entries are left.\<close>

partial_function (option) collect_entries ::
  "hashtable \<Rightarrow> nat \<Rightarrow> nat option \<Rightarrow> hash_entry list option" where
  "collect_entries a n h =
     (case h of
        None \<Rightarrow> Some []
      | Some p \<Rightarrow>
          do { e \<leftarrow> entry_at a p;
               if n = 0 then None
               else do {
                 es \<leftarrow> collect_entries a (n - 1) (gprev e);
                 Some (e # es) } })"

definition hashtable_get_all :: "hashtable \<Rightarrow> hash_entry list option" where
  "hashtable_get_all a =
     do { h \<leftarrow> last_used a;
          collect_entries a (cur_num_entry a) h }"

end
