(* ===== verification/Hash_Table_Correct.thy ===== *)
theory Hash_Table_Correct
  imports Hash_Table
begin

text \<open>
  The chained hash table is a list of keys with values, in the order of creation (\<open>contents\<close>): the
  well-formedness \<open>ht_ok\<close> ties the heap of linked entries to it, every operation is shown to keep it, and
  the locale \<open>slot_table\<close> states what a client may rely on.
\<close>

section \<open>The interface\<close>

text \<open>The first occurrences of the elements of a list, in order.\<close>

definition firsts :: "'a list \<Rightarrow> 'a list" where
  "firsts xs = rev (remdups (rev xs))"

lemma firsts_snoc: "firsts (xs @ [x]) = (if x \<in> set xs then firsts xs else firsts xs @ [x])"
  by (simp add: firsts_def)

lemma set_firsts [simp]: "set (firsts xs) = set xs"
  by (simp add: firsts_def)

lemma distinct_firsts: "distinct (firsts xs)"
  by (simp add: firsts_def)

lemma length_firsts: "length (firsts xs) = card (set xs)"
  using distinct_card [OF distinct_firsts [of xs]] by simp

text \<open>Creating the entries of a sequence of keys; the loop of a client ends at the first error.\<close>

fun creates :: "('t \<Rightarrow> 'k \<Rightarrow> (c_error + 't \<times> nat) option) \<Rightarrow> 't \<Rightarrow> 'k list \<Rightarrow> (c_error + 't) option" where
  "creates create t [] = Some (Inr t)"
| "creates create t (k # ks) =
     (case create t k of
        None \<Rightarrow> None
      | Some (Inl err) \<Rightarrow> Some (Inl err)
      | Some (Inr (t', i)) \<Rightarrow> creates create t' ks)"

lemma creates_snoc:
  "creates create t (ks @ [k]) =
     (case creates create t ks of
        Some (Inr t') \<Rightarrow>
          (case create t' k of None \<Rightarrow> None | Some (Inl err) \<Rightarrow> Some (Inl err) | Some (Inr (t'', i)) \<Rightarrow> Some (Inr t''))
      | r \<Rightarrow> r)"
  by (induction ks arbitrary: t) (auto split: option.splits sum.splits)

locale slot_table =
  fixes ok :: "'t \<Rightarrow> bool" and norm :: "'k \<Rightarrow> 'k" and valid :: "'k \<Rightarrow> bool"
    and keys :: "'t \<Rightarrow> 'k list" and capacity :: nat
    and create :: "'t \<Rightarrow> 'k \<Rightarrow> (c_error + 't \<times> nat) option"
  assumes create_old:
      "ok t \<Longrightarrow> valid k \<Longrightarrow> i < length (keys t) \<Longrightarrow> keys t ! i = norm k \<Longrightarrow> create t k = Some (Inr (t, i))"
    and create_new:
      "ok t \<Longrightarrow> valid k \<Longrightarrow> norm k \<notin> set (keys t) \<Longrightarrow> length (keys t) < capacity \<Longrightarrow>
       \<exists>t'. create t k = Some (Inr (t', length (keys t))) \<and> ok t' \<and> keys t' = keys t @ [norm k]"
    and create_full:
      "ok t \<Longrightarrow> valid k \<Longrightarrow> norm k \<notin> set (keys t) \<Longrightarrow> capacity \<le> length (keys t) \<Longrightarrow>
       create t k = Some (Inl (Exit_code (-1)))"
begin

lemma creates_spec:
  assumes "ok t" and "keys t = []" and "\<forall>k \<in> set ks. valid k"
  shows "if card (norm ` set ks) \<le> capacity
    then \<exists>t'. creates create t ks = Some (Inr t') \<and> ok t' \<and> keys t' = firsts (map norm ks)
    else creates create t ks = Some (Inl (Exit_code (-1)))"
  using assms(3)
proof (induction ks rule: rev_induct)
  case Nil
  then show ?case using assms(1,2) by (simp add: firsts_def)
next
  case (snoc k ks)
  have mono: "card (norm ` set ks) \<le> card (norm ` set (ks @ [k]))"
    by (rule card_mono) auto
  show ?case
  proof (cases "card (norm ` set ks) \<le> capacity")
    case False
    then show ?thesis
      using snoc mono by (simp add: creates_snoc)
  next
    case True
    then obtain t' where t': "creates create t ks = Some (Inr t')" "ok t'" "keys t' = firsts (map norm ks)"
      using snoc by auto
    have len: "length (keys t') = card (norm ` set ks)"
      by (simp add: t'(3) length_firsts)
    show ?thesis
    proof (cases "norm k \<in> norm ` set ks")
      case True
      then obtain i where "i < length (keys t')" "keys t' ! i = norm k"
        by (metis in_set_conv_nth set_firsts set_map t'(3))
      then have "create t' k = Some (Inr (t', i))"
        using create_old t'(2) snoc.prems by simp
      then show ?thesis
        using True t' \<open>card (norm ` set ks) \<le> capacity\<close>
        by (simp add: creates_snoc firsts_snoc insert_absorb)
    next
      case False
      then have k: "norm k \<notin> set (keys t')" "card (norm ` set (ks @ [k])) = Suc (length (keys t'))" "valid k"
        using snoc.prems by (simp add: t'(3), simp add: len, simp)
      show ?thesis
      proof (cases "length (keys t') < capacity")
        case True
        from create_new [OF t'(2) k(3,1) this] obtain t'' where
          "create t' k = Some (Inr (t'', length (keys t')))" "ok t''" "keys t'' = keys t' @ [norm k]" by blast
        then show ?thesis
          using True False t' k(2) by (auto simp: creates_snoc firsts_snoc)
      next
        case full: False
        then have "create t' k = Some (Inl (Exit_code (-1)))"
          using create_full [OF t'(2) k(3,1)] by simp
        then show ?thesis
          using full t' k(2) by (simp add: creates_snoc)
      qed
    qed
  qed
qed

end

section \<open>Well-formed tables\<close>

definition slot_key :: "hashtable \<Rightarrow> nat \<Rightarrow> u8 list" where
  "slot_key a s = take (ht_key_len a) (h_key (slot a ! s))"

definition contents :: "hashtable \<Rightarrow> (u8 list \<times> u8 list) list" where
  "contents a = map (\<lambda>s. (slot_key a s, h_value (slot a ! s))) [0..<cur_num_entry a]"

definition row :: "hashtable \<Rightarrow> u8 list \<Rightarrow> nat" where
  "row a k = unat (the (hashtable_hash_fcn a k)) mod num_list a"

text \<open>The entries of a row, the latest first, and the pointers that link them.\<close>

definition row_slots :: "hashtable \<Rightarrow> nat \<Rightarrow> nat list" where
  "row_slots a r = filter (\<lambda>s. row a (slot_key a s) = r) (rev [0..<cur_num_entry a])"

fun linked :: "hash_entry list \<Rightarrow> nat option \<Rightarrow> nat option \<Rightarrow> nat list \<Rightarrow> bool" where
  "linked sl pr h [] \<longleftrightarrow> h = None"
| "linked sl pr h (s # ss) \<longleftrightarrow>
     h = Some s \<and> prev_entry (sl ! s) = pr \<and> linked sl (Some s) (next_entry (sl ! s)) ss"

definition entry_ok :: "hashtable \<Rightarrow> nat \<Rightarrow> hash_entry \<Rightarrow> bool" where
  "entry_ok a s e \<longleftrightarrow>
     length (h_key e) = 13 \<and> length (h_value e) = 24 \<and> h_key_len e = ht_key_len a \<and>
     h_value_len e = ht_value_len a \<and> gprev e = (if s = 0 then None else Some (s - 1)) \<and>
     gnext e = (if s = max_size a - 1 then None else Some (s + 1))"

definition ht_shape :: "hashtable \<Rightarrow> bool" where
  "ht_shape a \<longleftrightarrow>
     0 < max_size a \<and> length (slot a) = max_size a \<and> 0 < num_list a \<and> length (hash_list a) = num_list a \<and>
     ht_key_len a \<le> 13 \<and> ht_value_len a \<le> 24 \<and> ghead a = Some 0 \<and> gtail a = Some (max_size a - 1) \<and>
     cur_num_entry a \<le> max_size a \<and>
     free_entry a = (if cur_num_entry a < max_size a then Some (cur_num_entry a) else None) \<and>
     (\<forall>s < max_size a. entry_ok a s (slot a ! s))"

definition ht_ok :: "hashtable \<Rightarrow> bool" where
  "ht_ok a \<longleftrightarrow>
     ht_shape a \<and> distinct (map fst (contents a)) \<and>
     (\<forall>s < cur_num_entry a. belong (slot a ! s) = int (row a (slot_key a s))) \<and>
     (\<forall>r < num_list a. linked (slot a) None (hash_list a ! r) (row_slots a r))"

lemma entry_ok_upd [simp]:
  "entry_ok (a\<lparr>slot := x\<rparr>) = entry_ok a" "entry_ok (a\<lparr>free_entry := y\<rparr>) = entry_ok a"
  "entry_ok (a\<lparr>cur_num_entry := z\<rparr>) = entry_ok a" "entry_ok (a\<lparr>hash_list := w\<rparr>) = entry_ok a"
  by (simp_all add: entry_ok_def fun_eq_iff)

lemma ht_shapeD:
  assumes "ht_shape a"
  shows "0 < max_size a" "length (slot a) = max_size a" "0 < num_list a" "length (hash_list a) = num_list a"
    "ht_key_len a \<le> 13" "ht_value_len a \<le> 24" "ghead a = Some 0" "gtail a = Some (max_size a - 1)"
    "cur_num_entry a \<le> max_size a"
    "free_entry a = (if cur_num_entry a < max_size a then Some (cur_num_entry a) else None)"
    "\<And>s. s < max_size a \<Longrightarrow> entry_ok a s (slot a ! s)"
  using assms by (simp_all add: ht_shape_def)

lemma length_contents [simp]: "length (contents a) = cur_num_entry a"
  by (simp add: contents_def)

lemma contents_key: "s < cur_num_entry a \<Longrightarrow> fst (contents a ! s) = slot_key a s"
  by (simp add: contents_def)

lemma hash_Some:
  "ht_key_len a \<le> length k \<Longrightarrow> \<exists>h. hashtable_hash_fcn a k = Some h"
  using AwareHash_Some [of "ht_key_len a" k] by (auto simp: hashtable_hash_fcn_def)

lemma row_take: "row a (take (ht_key_len a) k) = row a k"
  by (simp add: row_def hashtable_hash_fcn_def AwareHash_take)

lemma row_less: "ht_shape a \<Longrightarrow> row a k < num_list a"
  by (simp add: row_def ht_shapeD(3))

section \<open>Search\<close>

lemma find_row_linked:
  assumes "ht_shape a" and "ht_key_len a \<le> length key" and "\<forall>s \<in> set ss. s < max_size a"
    and "linked (slot a) pr h ss"
  shows "find_row a key h = Some (find (\<lambda>s. slot_key a s = take (ht_key_len a) key) ss)"
  using assms(3,4)
proof (induction ss arbitrary: pr h)
  case Nil
  then show ?case by (simp add: find_row.simps)
next
  case (Cons s ss)
  have s: "s < max_size a" "h = Some s" "linked (slot a) (Some s) (next_entry (slot a ! s)) ss"
    using Cons.prems by auto
  have "ht_key_len a \<le> length (h_key (slot a ! s))"
    using ht_shapeD(5) [OF assms(1)] ht_shapeD(11) [OF assms(1) s(1)] by (simp add: entry_ok_def)
  then have "find_row a key h =
      (if slot_key a s = take (ht_key_len a) key then Some (Some s) else find_row a key (next_entry (slot a ! s)))"
    using s(1,2) assms(2) ht_shapeD(2) [OF assms(1)]
    by (simp add: find_row.simps [of a key "Some s"] entry_at_def hashtable_cmp_fcn_def slot_key_def)
  then show ?case
    using Cons.IH [OF _ s(3)] Cons.prems(1) by simp
qed

lemma find_SomeD:
  assumes "find P xs = Some x"
  shows "x \<in> set xs" "P x"
  using assms by (auto simp: find_Some_iff)

definition the_slot :: "hashtable \<Rightarrow> u8 list \<Rightarrow> nat option" where
  "the_slot a key = find (\<lambda>s. slot_key a s = take (ht_key_len a) key) (row_slots a (row a key))"

lemma find_entry_spec:
  assumes "ht_ok a" and "ht_key_len a \<le> length key"
  shows "hashtable_find_entry a key = Some (the_slot a key, row a key)"
proof -
  have sh: "ht_shape a"
    using assms(1) by (simp add: ht_ok_def)
  obtain h where h: "hashtable_hash_fcn a key = Some h"
    using hash_Some [OF assms(2)] by blast
  have r: "unat h mod num_list a = row a key"
    by (simp add: row_def h)
  have "linked (slot a) None (hash_list a ! row a key) (row_slots a (row a key))"
    using assms(1) row_less [OF sh] by (simp add: ht_ok_def)
  moreover have "\<forall>s \<in> set (row_slots a (row a key)). s < max_size a"
    using ht_shapeD(9) [OF sh] by (auto simp: row_slots_def)
  ultimately have "find_row a key (hash_list a ! row a key) = Some (the_slot a key)"
    using find_row_linked [OF sh assms(2)] by (simp add: the_slot_def)
  then show ?thesis
    using ht_shapeD(3,4) [OF sh] row_less [OF sh, of key]
    by (simp add: hashtable_find_entry_def h r)
qed

lemma the_slot_Some:
  assumes "ht_ok a" and "s < cur_num_entry a" and "slot_key a s = take (ht_key_len a) key"
  shows "the_slot a key = Some s"
proof -
  have unique: "t = s" if "t < cur_num_entry a" "slot_key a t = take (ht_key_len a) key" for t
  proof -
    have "distinct (map fst (contents a))"
      using assms(1) by (simp add: ht_ok_def)
    then show ?thesis
      using that assms(2,3) by (simp add: distinct_conv_nth contents_key) metis
  qed
  have "row a (slot_key a s) = row a key"
    by (simp add: assms(3) row_take)
  then have "s \<in> set (row_slots a (row a key))"
    using assms(2) by (simp add: row_slots_def)
  then have "the_slot a key \<noteq> None"
    using assms(3) by (auto simp: the_slot_def find_None_iff)
  then obtain t where t: "the_slot a key = Some t" by blast
  then have "t \<in> set (row_slots a (row a key))" "slot_key a t = take (ht_key_len a) key"
    unfolding the_slot_def by (rule find_SomeD)+
  then show ?thesis
    using t unique [of t] by (simp add: row_slots_def)
qed

lemma the_slot_None:
  assumes "take (ht_key_len a) key \<notin> set (map fst (contents a))"
  shows "the_slot a key = None"
proof -
  have "slot_key a s \<noteq> take (ht_key_len a) key" if "s < cur_num_entry a" for s
    using assms that by (force simp: contents_def)
  then show ?thesis
    by (auto simp: the_slot_def find_None_iff row_slots_def)
qed

lemma the_slot_cases:
  assumes "ht_ok a"
  shows "case the_slot a key of
      None \<Rightarrow> take (ht_key_len a) key \<notin> set (map fst (contents a))
    | Some i \<Rightarrow> i < length (map fst (contents a)) \<and> map fst (contents a) ! i = take (ht_key_len a) key"
proof (cases "take (ht_key_len a) key \<in> set (map fst (contents a))")
  case True
  then obtain i where "i < cur_num_entry a" "map fst (contents a) ! i = take (ht_key_len a) key"
    by (metis in_set_conv_nth length_contents length_map)
  then show ?thesis
    using the_slot_Some [OF assms, of i key] by (simp add: contents_key)
next
  case False
  then show ?thesis by (simp add: the_slot_None)
qed

section \<open>Creation\<close>

definition new_entry :: "hashtable \<Rightarrow> u8 list \<Rightarrow> hash_entry" where
  "new_entry a t =
     (let e = slot a ! cur_num_entry a
      in e\<lparr>h_value := replicate (ht_value_len a) 0 @ drop (ht_value_len a) (h_value e),
           h_key := take (ht_key_len a) t @ drop (ht_key_len a) (h_key e),
           belong := int (row a t), prev_entry := None, next_entry := hash_list a ! row a t\<rparr>)"

definition new_slots :: "hashtable \<Rightarrow> u8 list \<Rightarrow> hash_entry list" where
  "new_slots a t =
     (let sl = (slot a)[cur_num_entry a := new_entry a t]
      in case hash_list a ! row a t of
           None \<Rightarrow> sl
         | Some q \<Rightarrow> sl[q := (sl ! q)\<lparr>prev_entry := Some (cur_num_entry a)\<rparr>])"

definition created :: "hashtable \<Rightarrow> u8 list \<Rightarrow> hashtable" where
  "created a t =
     a\<lparr>slot := new_slots a t, hash_list := (hash_list a)[row a t := Some (cur_num_entry a)],
       free_entry := (if cur_num_entry a = max_size a - 1 then None else Some (cur_num_entry a + 1)),
       cur_num_entry := cur_num_entry a + 1\<rparr>"

text \<open>The head of a row is one of the used entries of that row.\<close>

lemma head_in_row:
  assumes "ht_ok a" and "hash_list a ! r = Some q" and "r < num_list a"
  shows "q < cur_num_entry a" and "row a (slot_key a q) = r" and "\<exists>ss. row_slots a r = q # ss"
proof -
  have "linked (slot a) None (hash_list a ! r) (row_slots a r)"
    using assms(1,3) by (simp add: ht_ok_def)
  then show q: "\<exists>ss. row_slots a r = q # ss"
    using assms(2) by (cases "row_slots a r") auto
  then have "q \<in> set (row_slots a r)" by auto
  then show "q < cur_num_entry a" "row a (slot_key a q) = r"
    by (auto simp: row_slots_def)
qed

lemma link_computes:
  assumes "p < length (slot a)" and "belong (slot a ! p) = int r" and "r < length (hash_list a)"
    and "\<And>q. hash_list a ! r = Some q \<Longrightarrow> q < length (slot a)"
  shows "hashtable_link_node a p =
    Some (a\<lparr>slot :=
        (let sl = (slot a)[p := (slot a ! p)\<lparr>prev_entry := None, next_entry := hash_list a ! r\<rparr>]
         in case hash_list a ! r of None \<Rightarrow> sl | Some q \<Rightarrow> sl[q := (sl ! q)\<lparr>prev_entry := Some p\<rparr>]),
      hash_list := (hash_list a)[r := Some p]\<rparr>)"
  using assms
  by (cases "hash_list a ! r") (simp_all add: hashtable_link_node_def entry_at_def put_entry_def Let_def)

lemma create_computes:
  assumes "ht_ok a" and "ht_key_len a \<le> length t" and "the_slot a t = None" and "cur_num_entry a < max_size a"
  shows "hashtable_find a t True = Some (Inr (created a t, Some (cur_num_entry a)))"
proof -
  let ?n = "cur_num_entry a" and ?e = "slot a ! cur_num_entry a"
  have sh: "ht_shape a"
    using assms(1) by (simp add: ht_ok_def)
  note D = ht_shapeD [OF sh]
  have e: "entry_ok a ?n ?e"
    by (rule D(11) [OF assms(4)])
  have init: "hashtable_init_fcn ?e =
      Some (?e\<lparr>h_key := replicate (ht_key_len a) 0 @ drop (ht_key_len a) (h_key ?e),
               h_value := replicate (ht_value_len a) 0 @ drop (ht_value_len a) (h_value ?e)\<rparr>)"
    using e D(5,6) by (simp add: hashtable_init_fcn_def clear_def copy_in_def entry_ok_def)
  have free: "as_get_free_node a =
      Some (Inr (a\<lparr>free_entry := gnext ?e,
        slot := (slot a)[?n := ?e\<lparr>h_key := replicate (ht_key_len a) 0 @ drop (ht_key_len a) (h_key ?e),
               h_value := replicate (ht_value_len a) 0 @ drop (ht_value_len a) (h_value ?e)\<rparr>]\<rparr>, ?n))"
    using assms(4) D(2,10) by (simp add: as_get_free_node_def entry_at_def put_entry_def init)
  have q: "q < ?n" "?n \<noteq> q" "q < max_size a" if "hash_list a ! row a t = Some q" for q
    using head_in_row(1) [OF assms(1) that row_less [OF sh]] assms(4) by auto
  have gn: "gnext ?e = (if ?n = max_size a - 1 then None else Some (?n + 1))"
    using e by (simp add: entry_ok_def)
  have len: "length (h_key ?e) = 13"
    using e by (simp add: entry_ok_def)
  define b where "b = a\<lparr>free_entry := gnext ?e,
      slot := (slot a)[?n := ?e\<lparr>h_value := replicate (ht_value_len a) 0 @ drop (ht_value_len a) (h_value ?e),
        h_key := take (ht_key_len a) t @ drop (ht_key_len a) (h_key ?e), belong := int (row a t)\<rparr>]\<rparr>"
  have "hashtable_find a t True =
      Option.bind (hashtable_link_node b ?n)
        (\<lambda>b. Some (Inr (b\<lparr>cur_num_entry := cur_num_entry b + 1\<rparr>, Some ?n)))"
    using assms(2,3,4) D(2,5) len
    by (simp add: hashtable_find_def find_entry_spec [OF assms(1,2)] free entry_at_def put_entry_def
        copy_in_def b_def)
  moreover have "hashtable_link_node b ?n =
      Some (b\<lparr>slot := new_slots a t, hash_list := (hash_list a)[row a t := Some ?n]\<rparr>)"
    using assms(4) D(2,4) q(3) row_less [OF sh, of t]
    by (subst link_computes [where r = "row a t"])
      (simp_all add: b_def new_slots_def new_entry_def Let_def)
  ultimately show ?thesis
    by (simp add: created_def b_def gn)
qed

lemma created_simps [simp]:
  "ht_key_len (created a t) = ht_key_len a" "ht_value_len (created a t) = ht_value_len a"
  "max_size (created a t) = max_size a" "num_list (created a t) = num_list a"
  "cur_num_entry (created a t) = Suc (cur_num_entry a)" "slot (created a t) = new_slots a t"
  "hash_list (created a t) = (hash_list a)[row a t := Some (cur_num_entry a)]"
  "ghead (created a t) = ghead a" "gtail (created a t) = gtail a"
  "free_entry (created a t) = (if cur_num_entry a = max_size a - 1 then None else Some (cur_num_entry a + 1))"
  "row (created a t) = row a"
  by (simp_all add: created_def row_def hashtable_hash_fcn_def fun_eq_iff)

text \<open>What the new entries are: only the backward link of the old head of the row changes.\<close>

lemma new_slots_old:
  assumes "s \<noteq> cur_num_entry a"
  shows "new_slots a t ! s =
    (if hash_list a ! row a t = Some s \<and> s < length (slot a)
     then (slot a ! s)\<lparr>prev_entry := Some (cur_num_entry a)\<rparr> else slot a ! s)"
proof (cases "hash_list a ! row a t")
  case None
  then show ?thesis using assms by (simp add: new_slots_def Let_def)
next
  case (Some q)
  then show ?thesis
    using assms by (cases "s < length (slot a)"; cases "q = s")
      (simp_all add: new_slots_def Let_def list_update_beyond)
qed

lemma new_slots_new:
  assumes "ht_ok a" and "cur_num_entry a < max_size a"
  shows "new_slots a t ! cur_num_entry a = new_entry a t" and "length (new_slots a t) = max_size a"
proof -
  have sh: "ht_shape a"
    using assms(1) by (simp add: ht_ok_def)
  show "length (new_slots a t) = max_size a"
    using ht_shapeD(2) [OF sh] by (simp add: new_slots_def Let_def split: option.splits)
  have "q \<noteq> cur_num_entry a" if "hash_list a ! row a t = Some q" for q
    using head_in_row(1) [OF assms(1) that row_less [OF sh]] by simp
  then show "new_slots a t ! cur_num_entry a = new_entry a t"
    using assms(2) ht_shapeD(2) [OF sh] by (auto simp: new_slots_def Let_def split: option.splits)
qed

lemma linked_cong:
  assumes "\<forall>s \<in> set ss. prev_entry (sl' ! s) = prev_entry (sl ! s) \<and> next_entry (sl' ! s) = next_entry (sl ! s)"
  shows "linked sl' pr h ss = linked sl pr h ss"
  using assms by (induction ss arbitrary: pr h) auto

lemma linked_push:
  assumes "linked sl None h ss" and "distinct ss"
    and "\<forall>s \<in> set ss. next_entry (sl' ! s) = next_entry (sl ! s) \<and>
      prev_entry (sl' ! s) = (if h = Some s then p else prev_entry (sl ! s))"
  shows "linked sl' p h ss"
proof (cases ss)
  case (Cons s ss')
  then have "linked sl' (Some s) (next_entry (sl ! s)) ss' = linked sl (Some s) (next_entry (sl ! s)) ss'"
    using assms by (intro linked_cong) auto
  then show ?thesis
    using Cons assms by auto
qed (use assms in simp)

lemma slot_key_created:
  assumes "ht_ok a" and "cur_num_entry a < max_size a" and "ht_key_len a \<le> length t"
  shows "s < cur_num_entry a \<Longrightarrow> slot_key (created a t) s = slot_key a s"
    and "slot_key (created a t) (cur_num_entry a) = take (ht_key_len a) t"
  using assms new_slots_new [OF assms(1,2)]
  by (simp_all add: slot_key_def new_slots_old new_entry_def Let_def)

lemma contents_created:
  assumes "ht_ok a" and "cur_num_entry a < max_size a" and "ht_key_len a \<le> length t"
  shows "contents (created a t) = contents a @ [(take (ht_key_len a) t, h_value (new_entry a t))]"
  using slot_key_created [OF assms] new_slots_new [OF assms(1,2)]
  by (simp add: contents_def new_slots_old)

lemma row_slots_created:
  assumes "ht_ok a" and "cur_num_entry a < max_size a" and "ht_key_len a \<le> length t"
  shows "row_slots (created a t) r = (if r = row a t then cur_num_entry a # row_slots a r else row_slots a r)"
proof -
  have "filter (\<lambda>s. row a (slot_key (created a t) s) = r) (rev [0..<cur_num_entry a]) = row_slots a r"
    unfolding row_slots_def using slot_key_created(1) [OF assms] by (intro filter_cong) auto
  then show ?thesis
    using slot_key_created(2) [OF assms] by (auto simp: row_slots_def row_take)
qed

lemma shape_created:
  assumes "ht_ok a" and "cur_num_entry a < max_size a" and "ht_key_len a \<le> length t"
  shows "ht_shape (created a t)"
proof -
  have sh: "ht_shape a"
    using assms(1) by (simp add: ht_ok_def)
  note D = ht_shapeD [OF sh]
  have new: "entry_ok a (cur_num_entry a) (new_entry a t)"
    using D(5,6) D(11) [OF assms(2)] assms(3) by (simp add: entry_ok_def new_entry_def Let_def)
  have "entry_ok a s (new_slots a t ! s)" if "s < max_size a" for s
    using new D(11) [OF that] new_slots_new(1) [OF assms(1,2)]
    by (cases "s = cur_num_entry a") (simp_all add: new_slots_old, simp add: entry_ok_def)
  then show ?thesis
    using D assms(2) new_slots_new(2) [OF assms(1,2)]
    by (auto simp: ht_shape_def entry_ok_def)
qed

lemma new_slots_links:
  assumes "ht_ok a" and "s \<in> set (row_slots a r)"
  shows "next_entry (new_slots a t ! s) = next_entry (slot a ! s)"
    and "prev_entry (new_slots a t ! s) =
      (if hash_list a ! row a t = Some s then Some (cur_num_entry a) else prev_entry (slot a ! s))"
proof -
  have "s < cur_num_entry a" "ht_shape a"
    using assms by (simp_all add: row_slots_def ht_ok_def)
  then have "s \<noteq> cur_num_entry a" "s < length (slot a)"
    using ht_shapeD(2,9) [of a] by auto
  then show "next_entry (new_slots a t ! s) = next_entry (slot a ! s)"
    "prev_entry (new_slots a t ! s) =
      (if hash_list a ! row a t = Some s then Some (cur_num_entry a) else prev_entry (slot a ! s))"
    by (simp_all add: new_slots_old)
qed

lemma linked_created:
  assumes "ht_ok a" and "cur_num_entry a < max_size a" and "ht_key_len a \<le> length t" and r: "r < num_list a"
  shows "linked (new_slots a t) None ((hash_list a)[row a t := Some (cur_num_entry a)] ! r) (row_slots (created a t) r)"
proof -
  have sh: "ht_shape a"
    using assms(1) by (simp add: ht_ok_def)
  have old: "linked (slot a) None (hash_list a ! r) (row_slots a r)" "distinct (row_slots a r)"
    using r assms(1) by (simp_all add: ht_ok_def row_slots_def)
  show ?thesis
  proof (cases "r = row a t")
    case True
    have "linked (new_slots a t) (Some (cur_num_entry a)) (hash_list a ! r) (row_slots a r)"
      by (rule linked_push [OF old]) (simp add: new_slots_links [OF assms(1)] True)
    then show ?thesis
      using True r ht_shapeD(4) [OF sh]
      by (simp add: row_slots_created [OF assms(1-3)] new_slots_new(1) [OF assms(1,2)])
        (simp add: new_entry_def Let_def)
  next
    case False
    have "hash_list a ! row a t \<noteq> Some s" if "s \<in> set (row_slots a r)" for s
      using head_in_row(2) [OF assms(1) _ row_less [OF sh]] that False by (auto simp: row_slots_def)
    then have "linked (new_slots a t) None (hash_list a ! r) (row_slots a r)"
      using old(1) by (subst linked_cong [where sl = "slot a"]) (simp_all add: new_slots_links [OF assms(1)])
    then show ?thesis
      using False by (simp add: row_slots_created [OF assms(1-3)])
  qed
qed

lemma created_ok:
  assumes "ht_ok a" and "cur_num_entry a < max_size a" and "ht_key_len a \<le> length t"
    and "take (ht_key_len a) t \<notin> set (map fst (contents a))"
  shows "ht_ok (created a t)"
proof -
  note new = new_slots_new [OF assms(1,2)] and keys = slot_key_created [OF assms(1-3)]
  have "belong (new_slots a t ! s) = int (row a (slot_key (created a t) s))" if "s < Suc (cur_num_entry a)" for s
  proof (cases "s = cur_num_entry a")
    case True
    then show ?thesis
      using keys(2) new(1) by (simp add: row_take) (simp add: new_entry_def Let_def)
  next
    case False
    then show ?thesis
      using that keys(1) assms(1) by (simp add: new_slots_old ht_ok_def)
  qed
  then show ?thesis
    using shape_created [OF assms(1-3)] linked_created [OF assms(1-3)] assms(1,4)
    by (simp add: ht_ok_def contents_created [OF assms(1-3)])
qed

section \<open>Reset and enumeration\<close>

lemma last_used_spec:
  assumes "ht_ok a"
  shows "last_used a = Some (if cur_num_entry a = 0 then None else Some (cur_num_entry a - 1))"
proof -
  have sh: "ht_shape a"
    using assms by (simp add: ht_ok_def)
  note D = ht_shapeD [OF sh]
  show ?thesis
    using D(1,2,8,9,10) D(11) [of "cur_num_entry a"] by (auto simp: last_used_def entry_at_def entry_ok_def)
qed

lemma collect_spec:
  assumes "ht_shape a" and "n \<le> max_size a"
  shows "collect_entries a n (if n = 0 then None else Some (n - 1)) = Some (map (\<lambda>s. slot a ! s) (rev [0..<n]))"
  using assms(2)
proof (induction n)
  case 0
  then show ?case by (simp add: collect_entries.simps)
next
  case (Suc n)
  then have "n < length (slot a)" "gprev (slot a ! n) = (if n = 0 then None else Some (n - 1))"
    using ht_shapeD(2) [OF assms(1)] ht_shapeD(11) [OF assms(1), of n] by (simp_all add: entry_ok_def)
  then show ?case
    using Suc by (subst collect_entries.simps) (simp add: entry_at_def)
qed

lemma get_all_spec:
  assumes "ht_ok a"
  shows "hashtable_get_all a = Some (map (\<lambda>s. slot a ! s) (rev [0..<cur_num_entry a]))"
proof -
  have sh: "ht_shape a"
    using assms by (simp add: ht_ok_def)
  show ?thesis
    using collect_spec [OF sh ht_shapeD(9) [OF sh]] by (simp add: hashtable_get_all_def last_used_spec [OF assms])
qed

definition cleared :: "hash_entry \<Rightarrow> hash_entry" where
  "cleared e =
     e\<lparr>h_key := replicate (h_key_len e) 0 @ drop (h_key_len e) (h_key e),
       h_value := replicate (h_value_len e) 0 @ drop (h_value_len e) (h_value e),
       belong := -1, prev_entry := None, next_entry := None\<rparr>"

definition clear_below :: "hashtable \<Rightarrow> nat \<Rightarrow> hashtable" where
  "clear_below a n = a\<lparr>slot := map cleared (take n (slot a)) @ drop n (slot a)\<rparr>"

lemma reset_entries_spec:
  assumes "ht_shape a" and "n \<le> max_size a"
  shows "reset_entries a (if n = 0 then None else Some (n - 1)) = Some (clear_below a n)"
  using assms
proof (induction n arbitrary: a)
  case 0
  then show ?case by (simp add: reset_entries.simps clear_below_def)
next
  case (Suc n)
  let ?a = "a\<lparr>slot := (slot a)[n := cleared (slot a ! n)]\<rparr>"
  have n: "n < length (slot a)" and e: "entry_ok a n (slot a ! n)"
    using Suc.prems ht_shapeD(2) [OF Suc.prems(1)] ht_shapeD(11) [OF Suc.prems(1), of n] by simp_all
  then have "reset_entries a (Some n) = reset_entries ?a (if n = 0 then None else Some (n - 1))"
    using ht_shapeD(5,6) [OF Suc.prems(1)]
    by (subst reset_entries.simps) (simp add: entry_at_def put_entry_def hashtable_reset_fcn_def clear_def
        copy_in_def entry_ok_def cleared_def)
  moreover have "entry_ok a n (cleared (slot a ! n))"
    using e ht_shapeD(5,6) [OF Suc.prems(1)] by (simp add: entry_ok_def cleared_def)
  then have "entry_ok a s ((slot a)[n := cleared (slot a ! n)] ! s)" if "s < max_size a" for s
    using n ht_shapeD(11) [OF Suc.prems(1) that] by (cases "s = n") simp_all
  then have "ht_shape ?a"
    using Suc.prems(1) by (simp add: ht_shape_def)
  from Suc.IH [OF this] have "reset_entries ?a (if n = 0 then None else Some (n - 1)) = Some (clear_below ?a n)"
    using Suc.prems(2) by simp
  moreover have "clear_below ?a n = clear_below a (Suc n)"
    using n by (simp add: clear_below_def take_Suc_conv_app_nth upd_conv_take_nth_drop)
  ultimately show ?case by simp
qed

lemma hashtable_reset_ok:
  assumes "ht_ok a"
  shows "\<exists>a'. hashtable_reset a = Some a' \<and> ht_ok a' \<and> contents a' = [] \<and> ht_key_len a' = ht_key_len a \<and>
    max_size a' = max_size a"
proof -
  let ?a = "(clear_below a (cur_num_entry a))\<lparr>free_entry := ghead a, cur_num_entry := 0,
    hash_list := map (\<lambda>_. None) (hash_list a)\<rparr>"
  have sh: "ht_shape a"
    using assms by (simp add: ht_ok_def)
  note D = ht_shapeD [OF sh]
  have "hashtable_reset a = Some ?a"
    by (simp add: hashtable_reset_def last_used_spec [OF assms] reset_entries_spec [OF sh D(9)] clear_below_def)
  moreover have "entry_ok a s (slot ?a ! s)" if "s < max_size a" for s
    using D(2,5,6,9) D(11) [OF that] that
    by (auto simp: clear_below_def nth_append entry_ok_def cleared_def)
  then have "ht_shape ?a"
    using D by (simp add: ht_shape_def clear_below_def)
  moreover have "length (hash_list a) = num_list ?a"
    using D(4) by (simp add: clear_below_def)
  ultimately have "hashtable_reset a = Some ?a" "ht_ok ?a"
    by (simp_all add: ht_ok_def contents_def row_slots_def)
  then show ?thesis
    by (simp add: contents_def clear_below_def)
qed

section \<open>The table implements the interface\<close>

lemma hashtable_find_spec:
  assumes "ht_ok a" and "ht_key_len a \<le> length k"
  shows "hashtable_find a k False = Some (Inr (a, the_slot a k))"
  by (simp add: hashtable_find_def find_entry_spec [OF assms])

definition create_entry :: "hashtable \<Rightarrow> u8 list \<Rightarrow> (c_error + hashtable \<times> nat) option" where
  "create_entry a k =
     (case hashtable_find a k True of
        None \<Rightarrow> None
      | Some (Inl err) \<Rightarrow> Some (Inl err)
      | Some (Inr (a', None)) \<Rightarrow> None
      | Some (Inr (a', Some i)) \<Rightarrow> Some (Inr (a', i)))"

lemma create_old_entry:
  assumes "ht_ok a" and "ht_key_len a \<le> length k" and "i < cur_num_entry a"
    and "map fst (contents a) ! i = take (ht_key_len a) k"
  shows "create_entry a k = Some (Inr (a, i))"
proof -
  have "the_slot a k = Some i"
    using assms(3,4) by (intro the_slot_Some [OF assms(1,3)]) (simp add: contents_key)
  then show ?thesis
    by (simp add: create_entry_def hashtable_find_def find_entry_spec [OF assms(1,2)])
qed

lemma create_new_entry:
  assumes "ht_ok a" and "ht_key_len a \<le> length k" and "take (ht_key_len a) k \<notin> set (map fst (contents a))"
    and "cur_num_entry a < max_size a"
  shows "create_entry a k = Some (Inr (created a k, cur_num_entry a))" and "ht_ok (created a k)"
    and "map fst (contents (created a k)) = map fst (contents a) @ [take (ht_key_len a) k]"
  using create_computes [OF assms(1,2) the_slot_None [OF assms(3)] assms(4)]
    created_ok [OF assms(1,4,2,3)] contents_created [OF assms(1,4,2)]
  by (simp_all add: create_entry_def)

lemma create_full_table:
  assumes "ht_ok a" and "ht_key_len a \<le> length k" and "take (ht_key_len a) k \<notin> set (map fst (contents a))"
    and "max_size a \<le> cur_num_entry a"
  shows "create_entry a k = Some (Inl (Exit_code (-1)))"
proof -
  have "free_entry a = None"
    using assms(1,4) by (simp add: ht_ok_def ht_shape_def)
  then show ?thesis
    by (simp add: create_entry_def hashtable_find_def find_entry_spec [OF assms(1,2)]
        the_slot_None [OF assms(3)] as_get_free_node_def)
qed

interpretation ht: slot_table
  "\<lambda>a. ht_ok a \<and> ht_key_len a = kl \<and> max_size a = cap" "take kl" "\<lambda>k. kl \<le> length k"
  "\<lambda>a. map fst (contents a)" cap create_entry
  for kl cap
proof (unfold_locales, goal_cases)
  case (1 t k i)
  then show ?case using create_old_entry [of t k i] by simp
next
  case (2 t k)
  then show ?case using create_new_entry [of t k] by auto
next
  case (3 t k)
  then show ?case using create_full_table [of t k] by auto
qed

lemma init_table_ok:
  assumes "hashtable_init rand g n kl vl = Some (a, g')" and "n \<le> INT_MAX" and "kl \<le> 13" and "vl \<le> 24"
  shows "ht_ok a" "ht_key_len a = kl" "max_size a = nat n" "contents a = []"
proof -
  obtain q where q: "calc_next_prime n = Some q" "2 \<le> q"
    using calc_next_prime_Some [OF assms(2)] by blast
  have n: "0 < n"
    using assms(1) by (auto simp: hashtable_init_def q(1) split: if_splits)
  obtain h s d where a: "a = \<lparr>ht_key_len = kl, ht_value_len = vl, max_size = nat n, num_list = nat (q * 7),
      ht_hash = h, ht_scale = s, ht_hardner = d, hash_list = replicate (nat (q * 7)) None,
      slot = map (fresh_entry (nat n) kl vl) [0..<nat n], ghead = Some 0,
      gtail = Some (nat n - 1), free_entry = Some 0, cur_num_entry = 0\<rparr>"
    using assms(1) by (auto simp: hashtable_init_def NUM_ROW_FACTOR_def q(1) Let_def
        split: Option.bind_splits if_splits prod.splits)
  have "ht_shape a"
    using assms(3,4) n q(2) by (simp add: ht_shape_def entry_ok_def fresh_entry_def a)
  then show "ht_ok a" "ht_key_len a = kl" "max_size a = nat n" "contents a = []"
    by (simp_all add: ht_ok_def contents_def row_slots_def a)
qed

text \<open>
  Claim C32. Creating entries for any sequence of keys in a new table: as long as the distinct keys fit,
  every creation succeeds, the table holds each key exactly once, in the order of first creation, the
  enumeration returns these entries (the latest first), and a search finds a key exactly if it was
  created, at its place.  One distinct key too many ends the program with code -1.  The walks along the
  links always end.
\<close>

theorem hashtable_stream:
  assumes "hashtable_init rand g n kl vl = Some (a, g')" and "n \<le> INT_MAX" and "kl \<le> 13" and "vl \<le> 24"
    and "\<forall>k \<in> set ks. kl \<le> length k"
  shows "if card (take kl ` set ks) \<le> nat n
    then \<exists>a'. creates create_entry a ks = Some (Inr a') \<and>
      map_option (map (\<lambda>e. take kl (h_key e))) (hashtable_get_all a') = Some (rev (firsts (map (take kl) ks))) \<and>
      (\<forall>k. kl \<le> length k \<longrightarrow>
        (\<exists>hit. hashtable_find a' k False = Some (Inr (a', hit)) \<and>
          (case hit of
             None \<Rightarrow> take kl k \<notin> take kl ` set ks
           | Some i \<Rightarrow> i < card (take kl ` set ks) \<and> firsts (map (take kl) ks) ! i = take kl k)))
    else creates create_entry a ks = Some (Inl (Exit_code (-1)))"
proof -
  note init = init_table_ok [OF assms(1-4)]
  have "ht_ok a \<and> ht_key_len a = kl \<and> max_size a = nat n"
    using init by simp
  note spec = ht.creates_spec [OF this _ assms(5), unfolded init(4), OF list.map(1)]
  show ?thesis
  proof (cases "card (take kl ` set ks) \<le> nat n")
    case True
    then obtain a' where a': "creates create_entry a ks = Some (Inr a')" "ht_ok a'" "ht_key_len a' = kl"
      "map fst (contents a') = firsts (map (take kl) ks)"
      using spec by auto
    then have all: "map_option (map (\<lambda>e. take kl (h_key e))) (hashtable_get_all a') = Some (rev (firsts (map (take kl) ks)))"
      by (simp add: get_all_spec a'(4) [symmetric] contents_def slot_key_def rev_map)
    have "case the_slot a' k of
        None \<Rightarrow> take kl k \<notin> take kl ` set ks
      | Some i \<Rightarrow> i < card (take kl ` set ks) \<and> firsts (map (take kl) ks) ! i = take kl k" for k
      using the_slot_cases [OF a'(2), of k] unfolding a'(3,4) by (auto simp: length_firsts split: option.splits)
    then show ?thesis
      using True a'(1,2,3) all hashtable_find_spec [OF a'(2)] by (auto simp del: ex_simps)
  next
    case False
    then show ?thesis using spec by simp
  qed
qed

text \<open>
  After a reset the table is as good as new: whatever was created in it before, the reset
  returns, and a new sequence of keys that fits gives exactly its own keys.
\<close>

theorem hashtable_reset_fresh:
  assumes "hashtable_init rand g n kl vl = Some (a, g')" and "n \<le> INT_MAX" and "kl \<le> 13" and "vl \<le> 24"
    and "\<forall>k \<in> set (ks @ ks'). kl \<le> length k" and "creates create_entry a ks = Some (Inr b)"
    and "card (take kl ` set ks') \<le> nat n"
  shows "\<exists>c d. hashtable_reset b = Some c \<and> creates create_entry c ks' = Some (Inr d) \<and>
    map fst (contents d) = firsts (map (take kl) ks')"
proof -
  note init = init_table_ok [OF assms(1-4)]
  have a: "ht_ok a \<and> ht_key_len a = kl \<and> max_size a = nat n" "map fst (contents a) = []"
    using init by simp_all
  have b: "ht_ok b" "ht_key_len b = kl" "max_size b = nat n"
    using ht.creates_spec [OF a, of ks] assms(5,6) by (auto split: if_splits)
  then obtain c where c: "hashtable_reset b = Some c" "ht_ok c \<and> ht_key_len c = kl \<and> max_size c = nat n"
    "map fst (contents c) = []"
    using hashtable_reset_ok [OF b(1)] by auto
  then show ?thesis
    using ht.creates_spec [OF c(2,3), of ks'] assms(5,7) by auto
qed

lemma init_Some:
  assumes "calc_next_prime n = Some q" and "0 < n" and "q * 7 < 2 ^ 31"
  shows "\<exists>a g'. hashtable_init rand g n kl vl = Some (a, g')"
proof -
  obtain h where h: "GenHashSeed rand g (associative_seed + 104) = (Some h, draw_seed rand g)"
    using GenHashSeed_Some by blast
  obtain s where s: "GenHashSeed rand (draw_seed rand g) (associative_seed + 115) =
      (Some s, draw_seed rand (draw_seed rand g))"
    using GenHashSeed_Some by blast
  obtain d where d: "GenHashSeed rand (draw_seed rand (draw_seed rand g)) (associative_seed + 97) =
      (Some d, draw_seed rand (draw_seed rand (draw_seed rand g)))"
    using GenHashSeed_Some by blast
  show ?thesis
    using assms by (simp add: hashtable_init_def NUM_ROW_FACTOR_def h s d Let_def)
qed

lemma small_table: "\<exists>a g'. hashtable_init (\<lambda>_. 42) \<lparr>seed = 0, drawn = 0\<rparr> 2 4 8 = Some (a, g')"
proof -
  have "is_prime 2 = 1"
    by (simp add: is_prime_def is_prime_loop.simps)
  then have "calc_next_prime 2 = Some 2"
    by (simp add: calc_next_prime.simps)
  then show ?thesis
    by (rule init_Some) simp_all
qed

theorem hashtable_stream_witness:
  "\<exists>a g' a'. hashtable_init (\<lambda>_. 42) \<lparr>seed = 0, drawn = 0\<rparr> 2 4 8 = Some (a, g') \<and>
     creates create_entry a [[1, 2, 3, 4], [5, 6, 7, 8], [1, 2, 3, 4]] = Some (Inr a')"
proof -
  obtain a g' where a: "hashtable_init (\<lambda>_. 42) \<lparr>seed = 0, drawn = 0\<rparr> 2 4 8 = Some (a, g')"
    using small_table by blast
  have "card (take 4 ` set [[1, 2, 3, 4], [5, 6, 7, 8], [1, 2, 3, 4 :: u8]]) \<le> nat 2"
    by (simp add: card_insert_if)
  then show ?thesis
    using hashtable_stream [OF a, of "[[1, 2, 3, 4], [5, 6, 7, 8], [1, 2, 3, 4]]"] a
    by (auto simp: INT_MAX_def)
qed

theorem hashtable_reset_fresh_witness:
  "\<exists>a g' c d. hashtable_init (\<lambda>_. 42) \<lparr>seed = 0, drawn = 0\<rparr> 2 4 8 = Some (a, g') \<and>
     hashtable_reset a = Some c \<and> creates create_entry c [[9, 9, 9, 9]] = Some (Inr d) \<and>
     map fst (contents d) = [[9, 9, 9, 9]]"
proof -
  obtain a g' where a: "hashtable_init (\<lambda>_. 42) \<lparr>seed = 0, drawn = 0\<rparr> 2 4 8 = Some (a, g')"
    using small_table by blast
  then show ?thesis
    using hashtable_reset_fresh [OF a, of "[]" "[[9, 9, 9, 9]]" a]
    by (auto simp: INT_MAX_def firsts_def)
qed

end
