(* ===== verification/Packet.thy ===== *)
theory Packet
  imports Key_Table
begin

text \<open>
  The packet decoder of \<^verbatim>\<open>packet.c\<close>: it checks the IP and transport headers of a captured packet, counts
  the packet in the statistics \<^verbatim>\<open>packet_stat\<close> and, when every check passed, fills in the flow key, the
  size and the time of the tuple.  A packet is the list of the bytes that may be read from \<^verbatim>\<open>pkt\<close> on; an
  access beyond it is \<open>None\<close>.  The header fields are those of \<^verbatim>\<open>struct ip\<close>, \<^verbatim>\<open>struct tcphdr\<close> and
  \<^verbatim>\<open>struct udphdr\<close> on a little-endian machine.  The constant \<^verbatim>\<open>IP_CHECK\<close> (0 here, 1 in the copy of the
  decoder that is compiled into Open vSwitch) is an argument.
\<close>

section \<open>Data\<close>

datatype PACKET_STATUS =
    STATUS_INIT | STATUS_VALID | STATUS_NON_IP | STATUS_IP_NOT_FULL | STATUS_IP_VER_FAIL
  | STATUS_IP_CHKSUM_FAIL | STATUS_IP_FRAG | STATUS_TCP_NOT_FULL | STATUS_UDP_NOT_FULL
  | STATUS_ICMP_NOT_FULL | STATUS_UNDEFINED | STATUS_NON_GTP | STATUS_NON_GPRS

record 'f PacketStat =
  tot_pkt_cnt :: u64
  tot_cap_byte_cnt :: u64
  tot_act_byte_cnt :: u64
  valid_pkt_cnt :: u64
  valid_cap_byte_cnt :: u64
  valid_act_byte_cnt :: u64
  non_ip_cnt :: u64
  ip_not_full_cnt :: u64
  ip_ver_fail_cnt :: u64
  ip_chksum_fail_cnt :: u64
  ip_frag_cnt :: u64
  tcp_not_full_cnt :: u64
  udp_not_full_cnt :: u64
  icmp_not_full_cnt :: u64
  undefined_cnt :: u64
  non_gtp_cnt :: u64
  non_gprs_cnt :: u64
  used_time :: u64
  trace_start_ts :: 'f
  trace_end_ts :: 'f

definition reset_stat :: "'f float_ops \<Rightarrow> 'f PacketStat" where
  "reset_stat F =
     \<lparr>tot_pkt_cnt = 0, tot_cap_byte_cnt = 0, tot_act_byte_cnt = 0, valid_pkt_cnt = 0,
      valid_cap_byte_cnt = 0, valid_act_byte_cnt = 0, non_ip_cnt = 0, ip_not_full_cnt = 0,
      ip_ver_fail_cnt = 0, ip_chksum_fail_cnt = 0, ip_frag_cnt = 0, tcp_not_full_cnt = 0,
      udp_not_full_cnt = 0, icmp_not_full_cnt = 0, undefined_cnt = 0, non_gtp_cnt = 0,
      non_gprs_cnt = 0, used_time = 0, trace_start_ts = f_of_int F 0, trace_end_ts = f_of_int F 0\<rparr>"

section \<open>Reading headers\<close>

definition byte_at :: "u8 list \<Rightarrow> nat \<Rightarrow> u8 option" where
  "byte_at pkt i = (if i < length pkt then Some (pkt ! i) else None)"

text \<open>A \<^verbatim>\<open>uint16_t\<close> as it stands in memory, and after \<^verbatim>\<open>ntohs\<close>.\<close>

definition le16_at :: "u8 list \<Rightarrow> nat \<Rightarrow> u16 option" where
  "le16_at pkt i =
     Option.bind (copy_out pkt i 2) (\<lambda>bs. Some (ucast (bs ! 0) OR push_bit 8 (ucast (bs ! 1))))"

definition ntohs_at :: "u8 list \<Rightarrow> nat \<Rightarrow> u16 option" where
  "ntohs_at pkt i =
     Option.bind (copy_out pkt i 2) (\<lambda>bs. Some (push_bit 8 (ucast (bs ! 0)) OR ucast (bs ! 1)))"

definition ip_hl :: "u8 list \<Rightarrow> nat option" where
  "ip_hl pkt = map_option (\<lambda>b. unat (b AND 15)) (byte_at pkt 0)"

definition ip_v :: "u8 list \<Rightarrow> nat option" where
  "ip_v pkt = map_option (\<lambda>b. unat (drop_bit 4 b)) (byte_at pkt 0)"

definition ip_p :: "u8 list \<Rightarrow> u8 option" where
  "ip_p pkt = byte_at pkt 9"

definition tcp_doff :: "u8 list \<Rightarrow> nat \<Rightarrow> nat option" where
  "tcp_doff pkt off = map_option (\<lambda>b. unat (drop_bit 4 b)) (byte_at pkt (off + 12))"

definition IPPROTO_ICMP :: u8 where "IPPROTO_ICMP = 1"
definition IPPROTO_TCP :: u8 where "IPPROTO_TCP = 6"
definition IPPROTO_UDP :: u8 where "IPPROTO_UDP = 17"

section \<open>The header checksum\<close>

text \<open>\<^verbatim>\<open>sum\<close> is a 64-bit \<^verbatim>\<open>long\<close> that stays below \<open>2\<^sup>3\<^sup>2\<close>.\<close>

definition fold16 :: "nat \<Rightarrow> nat" where
  "fold16 s = (s AND 65535) + drop_bit 16 s"

fun chksum_words :: "u8 list \<Rightarrow> nat \<Rightarrow> nat \<Rightarrow> nat \<Rightarrow> nat option" where
  "chksum_words pkt off len s =
     (if len > 1
      then Option.bind (le16_at pkt off) (\<lambda>w.
        let s = s + unat w;
            s = (if s AND 0x80000000 \<noteq> 0 then fold16 s else s)
        in chksum_words pkt (off + 2) (len - 2) s)
      else if len \<noteq> 0 then Option.bind (le16_at pkt off) (\<lambda>w. Some (s + unat w))
      else Some s)"

declare chksum_words.simps [simp del]

lemma and_65535: "s AND 65535 = s mod (65536 :: nat)"
  using take_bit_eq_mask [of 16 s] by (simp add: take_bit_eq_mod mask_eq_exp_minus_1)

lemma fold16_eq: "fold16 s = s mod 65536 + s div 65536"
  by (simp add: fold16_def and_65535 drop_bit_eq_div)

function chksum_fold :: "nat \<Rightarrow> nat" where
  "chksum_fold s = (if drop_bit 16 s \<noteq> 0 then chksum_fold (fold16 s) else s)"
  by auto
termination
proof (relation "measure (\<lambda>s. s)")
  fix s :: nat
  assume "drop_bit 16 s \<noteq> 0"
  then have "s div 65536 > 0"
    by (simp add: drop_bit_eq_div)
  then have "s mod 65536 + s div 65536 < s"
    using div_mult_mod_eq [of s 65536] by linarith
  then show "(fold16 s, s) \<in> measure (\<lambda>s. s)"
    by (simp add: fold16_eq)
qed simp

declare chksum_fold.simps [simp del]

definition in_chksum_ip :: "u8 list \<Rightarrow> nat \<Rightarrow> u16 option" where
  "in_chksum_ip pkt len =
     Option.bind (chksum_words pkt 0 len 0) (\<lambda>s. Some (NOT (of_nat (chksum_fold s))))"

section \<open>The decoder\<close>

definition ETH_LEN :: nat where "ETH_LEN = 0"
definition ETHERTYPE_VLAN :: u16 where "ETHERTYPE_VLAN = 0x8100"
definition ETH_P_IP :: u16 where "ETH_P_IP = 0x0800"

text \<open>The totals that every packet is counted in.\<close>

definition count_packet :: "u32 \<Rightarrow> u32 \<Rightarrow> 'f \<Rightarrow> 'f PacketStat \<Rightarrow> 'f PacketStat" where
  "count_packet cap_len act_len ts st =
     (let st = st\<lparr>tot_pkt_cnt := tot_pkt_cnt st + 1\<rparr>;
          st = (if tot_pkt_cnt st = 1 then st\<lparr>trace_start_ts := ts\<rparr> else st)
      in st\<lparr>trace_end_ts := ts, tot_cap_byte_cnt := tot_cap_byte_cnt st + ucast cap_len,
           tot_act_byte_cnt := tot_act_byte_cnt st + ucast act_len\<rparr>)"

definition ethernet_check ::
  "u8 list \<Rightarrow> nat \<Rightarrow> PACKET_STATUS \<Rightarrow> (nat \<times> PACKET_STATUS) option" where
  "ethernet_check pkt eth_len status =
     (if eth_len = 14
      then Option.bind (ntohs_at pkt 12) (\<lambda>ether_type.
        Some (if ether_type = ETHERTYPE_VLAN then (18, status)
              else if ether_type \<noteq> ETH_P_IP then (eth_len, STATUS_NON_IP) else (eth_len, status)))
      else if eth_len = 4
      then Option.bind (ntohs_at pkt 2) (\<lambda>ether_type.
        Some (eth_len, if ether_type \<noteq> ETH_P_IP then STATUS_NON_IP else status))
      else Some (eth_len, if eth_len \<noteq> 0 then STATUS_NON_IP else status))"

text \<open>\<open>len\<close> is the value of \<^verbatim>\<open>(int)len\<close>; each failed check overwrites the status.\<close>

definition ip_checks :: "bool \<Rightarrow> u8 list \<Rightarrow> int \<Rightarrow> PACKET_STATUS \<Rightarrow> PACKET_STATUS option" where
  "ip_checks ip_check ip_hdr len status =
     Option.bind (ip_hl ip_hdr) (\<lambda>hl.
     Option.bind (ip_v ip_hdr) (\<lambda>v.
     let status = (if len < int (hl * 4) then STATUS_IP_NOT_FULL else status);
         status = (if v \<noteq> 4 then STATUS_IP_VER_FAIL else status)
     in if ip_check
        then Option.bind (in_chksum_ip ip_hdr (hl * 4)) (\<lambda>c.
          Some (if c \<noteq> 0 then STATUS_IP_CHKSUM_FAIL else status))
        else Some status))"

definition l4_checks :: "u8 list \<Rightarrow> int \<Rightarrow> PACKET_STATUS \<Rightarrow> PACKET_STATUS option" where
  "l4_checks ip_hdr len status =
     Option.bind (ip_hl ip_hdr) (\<lambda>hl.
     Option.bind (ip_p ip_hdr) (\<lambda>proto.
     if proto = IPPROTO_TCP
     then Option.bind (tcp_doff ip_hdr (hl * 4)) (\<lambda>doff.
       Some (if len < int (hl * 4 + doff * 4) then STATUS_TCP_NOT_FULL else status))
     else if proto = IPPROTO_UDP
     then Some (if len < int (hl * 4 + 8) then STATUS_UDP_NOT_FULL else status)
     else if proto = IPPROTO_ICMP
     then Some (if len < int (hl * 4 + 8) then STATUS_ICMP_NOT_FULL else status)
     else Some status))"

definition count_status ::
  "u32 \<Rightarrow> u32 \<Rightarrow> PACKET_STATUS \<Rightarrow> 'f PacketStat \<Rightarrow> 'f PacketStat" where
  "count_status cap_len act_len status st =
     (case status of
        STATUS_VALID \<Rightarrow>
          st\<lparr>valid_pkt_cnt := valid_pkt_cnt st + 1,
             valid_cap_byte_cnt := valid_cap_byte_cnt st + ucast cap_len,
             valid_act_byte_cnt := valid_act_byte_cnt st + ucast act_len\<rparr>
      | STATUS_NON_IP \<Rightarrow> st\<lparr>non_ip_cnt := non_ip_cnt st + 1\<rparr>
      | STATUS_IP_NOT_FULL \<Rightarrow> st\<lparr>ip_not_full_cnt := ip_not_full_cnt st + 1\<rparr>
      | STATUS_IP_VER_FAIL \<Rightarrow> st\<lparr>ip_ver_fail_cnt := ip_ver_fail_cnt st + 1\<rparr>
      | STATUS_IP_CHKSUM_FAIL \<Rightarrow> st\<lparr>ip_chksum_fail_cnt := ip_chksum_fail_cnt st + 1\<rparr>
      | STATUS_IP_FRAG \<Rightarrow> st\<lparr>ip_frag_cnt := ip_frag_cnt st + 1\<rparr>
      | STATUS_TCP_NOT_FULL \<Rightarrow> st\<lparr>tcp_not_full_cnt := tcp_not_full_cnt st + 1\<rparr>
      | STATUS_UDP_NOT_FULL \<Rightarrow> st\<lparr>udp_not_full_cnt := udp_not_full_cnt st + 1\<rparr>
      | STATUS_ICMP_NOT_FULL \<Rightarrow> st\<lparr>icmp_not_full_cnt := icmp_not_full_cnt st + 1\<rparr>
      | STATUS_UNDEFINED \<Rightarrow> st\<lparr>undefined_cnt := undefined_cnt st + 1\<rparr>
      | STATUS_NON_GTP \<Rightarrow> st\<lparr>non_gtp_cnt := non_gtp_cnt st + 1\<rparr>
      | STATUS_NON_GPRS \<Rightarrow> st\<lparr>non_gprs_cnt := non_gprs_cnt st + 1\<rparr>
      | STATUS_INIT \<Rightarrow> st)"

text \<open>
  The flow key is the memory image of \<^verbatim>\<open>flow_key_t\<close>: the addresses as they are in the packet, the ports
  in the byte order of the machine, the protocol.
\<close>

definition le16 :: "u16 \<Rightarrow> u8 list" where
  "le16 v = [ucast v, ucast (drop_bit 8 v)]"

definition assign_fields :: "u8 list \<Rightarrow> 'f \<Rightarrow> 'f tuple_t \<Rightarrow> 'f tuple_t option" where
  "assign_fields ip_hdr ts p =
     Option.bind (copy_out ip_hdr 12 4) (\<lambda>src_ip.
     Option.bind (copy_out ip_hdr 16 4) (\<lambda>dst_ip.
     Option.bind (ip_p ip_hdr) (\<lambda>proto.
     Option.bind (ntohs_at ip_hdr 2) (\<lambda>ip_len.
     Option.bind (ip_hl ip_hdr) (\<lambda>hl.
     Option.bind
       (if proto = IPPROTO_TCP \<or> proto = IPPROTO_UDP
        then Option.bind (ntohs_at ip_hdr (hl * 4)) (\<lambda>src_port.
             Option.bind (ntohs_at ip_hdr (hl * 4 + 2)) (\<lambda>dst_port. Some (src_port, dst_port)))
        else Some (0, 0)) (\<lambda>(src_port, dst_port).
     Some (p\<lparr>t_key := src_ip @ dst_ip @ le16 src_port @ le16 dst_port @ [proto],
             t_size := ucast ip_len, pkt_ts := ts\<rparr>)))))))"

definition decode ::
  "bool \<Rightarrow> u8 list \<Rightarrow> u32 \<Rightarrow> u32 \<Rightarrow> 'f \<Rightarrow> 'f tuple_t \<Rightarrow> 'f PacketStat \<Rightarrow>
     (PACKET_STATUS \<times> 'f tuple_t \<times> 'f PacketStat) option" where
  "decode ip_check pkt cap_len act_len ts p st =
     (let st = count_packet cap_len act_len ts st
      in Option.bind (ethernet_check pkt ETH_LEN STATUS_VALID) (\<lambda>(eth_len, status).
         let len = sint (cap_len - of_nat eth_len); ip_hdr = drop eth_len pkt
         in Option.bind (ip_checks ip_check ip_hdr len status) (\<lambda>status.
         Option.bind (l4_checks ip_hdr len status) (\<lambda>status.
         let st = count_status cap_len act_len status st
         in if status \<noteq> STATUS_VALID then Some (status, p, st)
            else Option.bind (assign_fields ip_hdr ts p) (\<lambda>p. Some (status, p, st))))))"

text \<open>
  The report: what is printed (the numbers, in order), where it goes (\<open>opened\<close>: the file could be opened;
  otherwise it is the standard error), and the statistics afterwards.  Two of the arguments of \<^verbatim>\<open>fprintf\<close>
  have a side effect.
\<close>

datatype 'f printed = Real 'f | Count u64

definition f_of_u64 :: "'f float_ops \<Rightarrow> u64 \<Rightarrow> 'f" where
  "f_of_u64 F v = f_of_int F (uint v)"

definition running_stat :: "'f float_ops \<Rightarrow> 'f PacketStat \<Rightarrow> 'f list" where
  "running_stat F st =
     (let used = f_of_u64 F (used_time st); one_e6 = f_of_int F 1000000
      in [f_div F used one_e6,
          f_mul F (f_div F (f_mul F (f_of_u64 F (tot_pkt_cnt st)) (f_of_int F 1)) used) one_e6,
          f_div F (f_mul F (f_div F (f_mul F (f_of_u64 F (tot_act_byte_cnt st)) (f_of_int F 8)) used)
            one_e6) (f_of_int F (2 ^ 30)),
          f_sub F (trace_end_ts st) (trace_start_ts st)])"

definition packet_stat_counts :: "'f PacketStat \<Rightarrow> u64 list" where
  "packet_stat_counts st =
     [tot_pkt_cnt st, tot_cap_byte_cnt st, tot_act_byte_cnt st, valid_pkt_cnt st,
      valid_cap_byte_cnt st, valid_act_byte_cnt st, non_ip_cnt st, ip_not_full_cnt st,
      ip_ver_fail_cnt st, ip_chksum_fail_cnt st, ip_frag_cnt st, tcp_not_full_cnt st,
      udp_not_full_cnt st, icmp_not_full_cnt st, undefined_cnt st, non_gtp_cnt st, non_gprs_cnt st]"

definition report_final_stat_file ::
  "'f float_ops \<Rightarrow> bool \<Rightarrow> 'f PacketStat \<Rightarrow> (bool \<times> 'f printed list) \<times> 'f PacketStat" where
  "report_final_stat_file F opened st =
     ((opened, map Real (running_stat F st) @ map Count (packet_stat_counts st)),
      st\<lparr>ip_chksum_fail_cnt := ip_chksum_fail_cnt st + 1, ip_frag_cnt := ip_frag_cnt st + 1\<rparr>)"

text \<open>\<^verbatim>\<open>fopen(NULL, "w")\<close> fails.\<close>

definition report_final_stat ::
  "'f float_ops \<Rightarrow> 'f PacketStat \<Rightarrow> (bool \<times> 'f printed list) \<times> 'f PacketStat" where
  "report_final_stat F st = report_final_stat_file F False st"

end
