(* ===== verification/Packet_Correct.thy ===== *)
theory Packet_Correct
  imports Packet
begin

text \<open>
  What the packet decoder guarantees: the checksum accepts exactly the headers whose one's complement sum
  is \<open>0xFFFF\<close>; a buffer of 80 bytes is enough for every header, and then the decoder returns with the
  status of the last failed check; a packet that is encoded with a complete header is decoded to its flow
  key; and the counters of the statistics always add up to the number of packets, until a report is
  printed.
\<close>

section \<open>The checksum\<close>

lemma fold16_mod: "fold16 s mod 65535 = s mod 65535"
proof -
  have "s = 65535 * (s div 65536) + (s mod 65536 + s div 65536)"
    using div_mult_mod_eq [of s 65536] by linarith
  then have "s mod 65535 = (s mod 65536 + s div 65536) mod 65535"
    by (metis mod_mult_self4)
  then show ?thesis by (simp add: fold16_eq)
qed

lemma fold16_0: "fold16 s = 0 \<longleftrightarrow> s = 0"
  by (auto simp: fold16_eq)

lemma chksum_fold_spec:
  "chksum_fold s mod 65535 = s mod 65535 \<and> (chksum_fold s = 0 \<longleftrightarrow> s = 0) \<and> chksum_fold s < 65536"
proof (induction s rule: chksum_fold.induct)
  case (1 s)
  show ?case
  proof (cases "drop_bit 16 s = 0")
    case True
    then have "s < 65536"
      by (simp add: drop_bit_eq_div div_eq_0_iff)
    with True show ?thesis
      by (simp add: chksum_fold.simps [of s])
  next
    case False
    with 1 show ?thesis
      by (simp add: chksum_fold.simps [of s] fold16_mod fold16_0)
  qed
qed

text \<open>The sum of the 16-bit words of the header.\<close>

fun word_sum :: "u8 list \<Rightarrow> nat" where
  "word_sum (a # b # bs) = unat a + 256 * unat b + word_sum bs"
| "word_sum bs = 0"

lemma unat_u8: "unat (b :: u8) < 256"
  using unsigned_less [of b] by simp

lemma le16_at_drop:
  assumes "drop off pkt = a # b # bs"
  shows "\<exists>w. le16_at pkt off = Some w \<and> unat w = unat a + 256 * unat b"
proof -
  have "off + 2 \<le> length pkt"
    using arg_cong [OF assms, of length] by simp
  then have "le16_at pkt off = Some (ucast a OR push_bit 8 (ucast b))"
    using assms by (simp add: le16_at_def copy_out_def)
  moreover have "(ucast a :: u16) OR push_bit 8 (ucast b) = ucast a + push_bit 8 (ucast b)"
  proof (rule disjunctive_add_eq_or [symmetric], rule bit_word_eqI)
    fix n
    show "bit ((ucast a :: u16) AND push_bit 8 (ucast b)) n = bit (0 :: u16) n"
      using bit_imp_le_length [of a n] by (auto simp: bit_simps)
  qed
  moreover have "unat (ucast a + push_bit 8 (ucast b) :: u16) = unat a + 256 * unat b"
    using unat_u8 [of a] unat_u8 [of b]
    by (simp add: unat_word_ariths push_bit_eq_mult unsigned_ucast_eq take_bit_nat_eq_self)
  ultimately show ?thesis by auto
qed

lemma chksum_words_spec:
  assumes "len = 2 * n" and "off + len \<le> length pkt"
  shows "\<exists>s'. chksum_words pkt off len s = Some s' \<and>
    s' mod 65535 = (s + word_sum (take len (drop off pkt))) mod 65535 \<and>
    (s' = 0 \<longleftrightarrow> s + word_sum (take len (drop off pkt)) = 0)"
  using assms
proof (induction n arbitrary: off len s)
  case 0
  then show ?case by (simp add: chksum_words.simps)
next
  case (Suc n)
  obtain a b bs where d: "drop off pkt = a # b # bs"
  proof -
    have "2 \<le> length (drop off pkt)" using Suc.prems by simp
    then show thesis
      using that by (metis One_nat_def Suc_1 Suc_le_length_iff)
  qed
  from le16_at_drop [OF this] obtain w where
    w: "le16_at pkt off = Some w" and uw: "unat w = unat a + 256 * unat b" by blast
  define s1 where "s1 = (if (s + unat w) AND 0x80000000 \<noteq> 0 then fold16 (s + unat w) else s + unat w)"
  have s1: "s1 mod 65535 = (s + unat w) mod 65535" "s1 = 0 \<longleftrightarrow> s + unat w = 0"
    by (simp_all add: s1_def fold16_mod fold16_0)
  have step: "chksum_words pkt off len s = chksum_words pkt (off + 2) (len - 2) s1"
    using Suc.prems(1) by (subst chksum_words.simps) (simp add: w s1_def Let_def)
  have "len - 2 = 2 * n" "(off + 2) + (len - 2) \<le> length pkt"
    using Suc.prems by auto
  from Suc.IH [OF this, of s1] obtain s' where s':
    "chksum_words pkt (off + 2) (len - 2) s1 = Some s' \<and>
     s' mod 65535 = (s1 + word_sum (take (len - 2) (drop (off + 2) pkt))) mod 65535 \<and>
     (s' = 0 \<longleftrightarrow> s1 + word_sum (take (len - 2) (drop (off + 2) pkt)) = 0)" ..
  have bs: "drop (off + 2) pkt = bs"
    using arg_cong [OF d, of "drop 2"] by (simp add: add.commute)
  have "word_sum (take len (drop off pkt)) = unat w + word_sum (take (len - 2) bs)"
    using Suc.prems(1) by (simp add: d uw)
  moreover have "(s1 + x) mod 65535 = (s + unat w + x) mod 65535" for x
    using s1(1) by (rule mod_add_cong) simp
  ultimately show ?case
    using s' [unfolded bs] s1(2) by (simp add: step add.assoc)
qed

lemma in_chksum_ip_total:
  assumes "even len" and "len \<le> length pkt"
  shows "\<exists>c. in_chksum_ip pkt len = Some c \<and>
    (c = 0 \<longleftrightarrow> word_sum (take len pkt) \<noteq> 0 \<and> 65535 dvd word_sum (take len pkt))"
proof -
  obtain n where n: "len = 2 * n" using assms(1) by blast
  from chksum_words_spec [OF n, of 0 pkt 0] assms(2) obtain s where s:
    "chksum_words pkt 0 len 0 = Some s" "s mod 65535 = word_sum (take len pkt) mod 65535"
    "s = 0 \<longleftrightarrow> word_sum (take len pkt) = 0" by auto
  let ?f = "chksum_fold s"
  have f: "?f mod 65535 = s mod 65535" "?f = 0 \<longleftrightarrow> s = 0" "?f < 65536"
    using chksum_fold_spec by auto
  have c: "NOT (65535 :: u16) = 0"
    by code_simp
  have "NOT (of_nat ?f) = (0 :: u16) \<longleftrightarrow> of_nat ?f = (65535 :: u16)"
    by (rule bit.compl_eq_compl_iff [of "of_nat ?f :: u16" 65535, unfolded c])
  also have "\<dots> \<longleftrightarrow> ?f = 65535"
    using f(3) by (simp add: word_unat_eq_iff unat_of_nat)
  also have "\<dots> \<longleftrightarrow> ?f \<noteq> 0 \<and> 65535 dvd ?f"
    using f(3) by (auto simp: dvd_def)
  finally show ?thesis
    using f s by (simp add: in_chksum_ip_def dvd_eq_mod_eq_0)
qed

text \<open>
  On a header of an even number of bytes inside the packet, \<^verbatim>\<open>in_chksum_ip\<close> returns 0 exactly
  when the sum of its 16-bit words is a positive multiple of 65535, that is when the one's complement
  sum is \<open>0xFFFF\<close>; it always returns.
\<close>

theorem in_chksum_ip_correct:
  assumes "even len" and "len \<le> length pkt"
  shows "\<exists>c. in_chksum_ip pkt len = Some c \<and>
    (c = 0 \<longleftrightarrow> word_sum (take len pkt) \<noteq> 0 \<and> 65535 dvd word_sum (take len pkt))"
  using assms by (rule in_chksum_ip_total)

theorem in_chksum_ip_correct_witness:
  "\<exists>c. in_chksum_ip [0x45, 0, 0xBA, 0xFF] 4 = Some c \<and> c = 0"
  using in_chksum_ip_correct [of 4 "[0x45, 0, 0xBA, 0xFF]"] by simp

section \<open>The decoder always returns\<close>

text \<open>
  The result of the decoder on a buffer of at least 80 bytes, which is the longest header: the transport
  check is the last one, so its failure decides; the version and the length of the IP header only show
  when it passes.
\<close>

definition status_spec :: "bool \<Rightarrow> u8 list \<Rightarrow> int \<Rightarrow> PACKET_STATUS" where
  "status_spec ip_check pkt len =
     (let hl = unat (pkt ! 0 AND 15) * 4; proto = pkt ! 9; doff = unat (drop_bit 4 (pkt ! (hl + 12))) * 4
      in if proto = IPPROTO_TCP \<and> len < int (hl + doff) then STATUS_TCP_NOT_FULL
         else if proto = IPPROTO_UDP \<and> len < int (hl + 8) then STATUS_UDP_NOT_FULL
         else if proto = IPPROTO_ICMP \<and> len < int (hl + 8) then STATUS_ICMP_NOT_FULL
         else if ip_check \<and>
           \<not> (word_sum (take hl pkt) \<noteq> 0 \<and> 65535 dvd word_sum (take hl pkt)) then STATUS_IP_CHKSUM_FAIL
         else if unat (drop_bit 4 (pkt ! 0)) \<noteq> 4 then STATUS_IP_VER_FAIL
         else if len < int hl then STATUS_IP_NOT_FULL
         else STATUS_VALID)"

definition be16 :: "u8 \<Rightarrow> u8 \<Rightarrow> u16" where
  "be16 a b = push_bit 8 (ucast a) OR ucast b"

definition fields_spec :: "u8 list \<Rightarrow> 'f \<Rightarrow> 'f tuple_t \<Rightarrow> 'f tuple_t" where
  "fields_spec pkt ts p =
     (let hl = unat (pkt ! 0 AND 15) * 4;
          port = (\<lambda>i. if pkt ! 9 = IPPROTO_TCP \<or> pkt ! 9 = IPPROTO_UDP
                      then be16 (pkt ! (hl + i)) (pkt ! (hl + i + 1)) else 0)
      in p\<lparr>t_key := take 8 (drop 12 pkt) @ le16 (port 0) @ le16 (port 2) @ [pkt ! 9],
            t_size := ucast (be16 (pkt ! 2) (pkt ! 3)), pkt_ts := ts\<rparr>)"

lemma byte_at_Some: "i < length pkt \<Longrightarrow> byte_at pkt i = Some (pkt ! i)"
  by (simp add: byte_at_def)

lemma take_2: "i + 2 \<le> length xs \<Longrightarrow> take 2 (drop i xs) = [xs ! i, xs ! (i + 1)]"
  by (simp add: numeral_2_eq_2 take_Suc_conv_app_nth)

lemma ntohs_at_Some: "i + 2 \<le> length pkt \<Longrightarrow> ntohs_at pkt i = Some (be16 (pkt ! i) (pkt ! (i + 1)))"
  by (simp add: ntohs_at_def copy_out_def take_2 be16_def)

lemma nibble: "unat (b AND 15 :: u8) \<le> 15"
proof -
  have "b AND 15 \<le> 15" by (rule word_and_le1)
  then show ?thesis by (simp add: word_le_nat_alt)
qed

lemma ip_checks_spec:
  assumes "60 \<le> length pkt"
  shows "ip_checks ip_check pkt len STATUS_VALID =
    Some (if ip_check \<and> \<not> (word_sum (take (unat (pkt ! 0 AND 15) * 4) pkt) \<noteq> 0 \<and>
              65535 dvd word_sum (take (unat (pkt ! 0 AND 15) * 4) pkt)) then STATUS_IP_CHKSUM_FAIL
          else if unat (drop_bit 4 (pkt ! 0)) \<noteq> 4 then STATUS_IP_VER_FAIL
          else if len < int (unat (pkt ! 0 AND 15) * 4) then STATUS_IP_NOT_FULL else STATUS_VALID)"
proof -
  let ?hl = "unat (pkt ! 0 AND 15)"
  have "even (?hl * 4)" "?hl * 4 \<le> length pkt"
    using assms nibble [of "pkt ! 0"] by auto
  from in_chksum_ip_total [OF this] obtain c where c: "in_chksum_ip pkt (?hl * 4) = Some c"
    "c = 0 \<longleftrightarrow> word_sum (take (?hl * 4) pkt) \<noteq> 0 \<and> 65535 dvd word_sum (take (?hl * 4) pkt)" by blast
  have "byte_at pkt 0 = Some (pkt ! 0)"
    using assms by (intro byte_at_Some) linarith
  then show ?thesis
    by (simp add: ip_checks_def ip_hl_def ip_v_def c Let_def)
qed

lemma l4_checks_spec:
  assumes "80 \<le> length pkt"
  defines "hl \<equiv> unat (pkt ! 0 AND 15) * 4"
  shows "l4_checks pkt len status =
    Some (if pkt ! 9 = IPPROTO_TCP \<and> len < int (hl + unat (drop_bit 4 (pkt ! (hl + 12))) * 4)
            then STATUS_TCP_NOT_FULL
          else if pkt ! 9 = IPPROTO_UDP \<and> len < int (hl + 8) then STATUS_UDP_NOT_FULL
          else if pkt ! 9 = IPPROTO_ICMP \<and> len < int (hl + 8) then STATUS_ICMP_NOT_FULL
          else status)"
proof -
  have "byte_at pkt 0 = Some (pkt ! 0)" "byte_at pkt 9 = Some (pkt ! 9)"
    "byte_at pkt (hl + 12) = Some (pkt ! (hl + 12))"
    using assms(1) nibble [of "pkt ! 0"] by (auto intro!: byte_at_Some simp: hl_def)
  then show ?thesis
    by (simp add: l4_checks_def ip_hl_def ip_p_def tcp_doff_def hl_def [symmetric]
        IPPROTO_TCP_def IPPROTO_UDP_def IPPROTO_ICMP_def)
qed

lemma assign_fields_spec:
  assumes "80 \<le> length pkt"
  shows "assign_fields pkt ts p = Some (fields_spec pkt ts p)"
proof -
  let ?hl = "unat (pkt ! 0 AND 15) * 4"
  have hl: "?hl + 4 \<le> length pkt"
    using assms nibble [of "pkt ! 0"] by simp
  have "byte_at pkt 0 = Some (pkt ! 0)" "byte_at pkt 9 = Some (pkt ! 9)"
    using assms by (auto intro!: byte_at_Some)
  moreover have "ntohs_at pkt 2 = Some (be16 (pkt ! 2) (pkt ! 3))"
    using ntohs_at_Some [of 2 pkt] assms by simp
  moreover have "ntohs_at pkt ?hl = Some (be16 (pkt ! ?hl) (pkt ! (?hl + 1)))"
    using hl by (intro ntohs_at_Some) linarith
  moreover have "ntohs_at pkt (?hl + 2) = Some (be16 (pkt ! (?hl + 2)) (pkt ! (?hl + 2 + 1)))"
    using hl by (intro ntohs_at_Some) linarith
  moreover have "copy_out pkt 12 4 = Some (take 4 (drop 12 pkt))" "copy_out pkt 16 4 = Some (take 4 (drop 16 pkt))"
    using assms by (simp_all add: copy_out_def)
  moreover have "take 8 (drop 12 pkt) = take 4 (drop 12 pkt) @ take 4 (drop 16 pkt)"
    using take_add [of 4 4 "drop 12 pkt"] by simp
  ultimately show ?thesis
    by (simp add: assign_fields_def ip_hl_def ip_p_def fields_spec_def Let_def)
qed

lemma decode_spec:
  assumes "80 \<le> length pkt"
  shows "decode ip_check pkt cap_len act_len ts p st =
    (let status = status_spec ip_check pkt (sint cap_len)
     in Some (status, if status = STATUS_VALID then fields_spec pkt ts p else p,
              count_status cap_len act_len status (count_packet cap_len act_len ts st)))"
proof -
  have "60 \<le> length pkt"
    using assms by simp
  note ip = ip_checks_spec [OF this, of ip_check "sint cap_len"]
  have l4: "Option.bind (ip_checks ip_check pkt (sint cap_len) STATUS_VALID)
      (\<lambda>status. Option.bind (l4_checks pkt (sint cap_len) status) f) = f (status_spec ip_check pkt (sint cap_len))" for f :: "PACKET_STATUS \<Rightarrow> 'b option"
    by (simp only: ip l4_checks_spec [OF assms] status_spec_def Let_def bind.bind_lunit)
  show ?thesis
    by (simp add: decode_def ETH_LEN_def ethernet_check_def Let_def l4 assign_fields_spec [OF assms])
qed

text \<open>
  Claim C29. On a buffer of at least 80 bytes (the traces are decoded from a buffer of 1500) the decoder
  reads nothing outside the buffer and returns: the status is that of the last check that fails, where a
  short transport header hides every failure of the IP header, and the tuple is filled in exactly when
  the packet is valid.
\<close>

theorem decode_total:
  assumes "80 \<le> length pkt"
  shows "decode ip_check pkt cap_len act_len ts p st =
    (let status = status_spec ip_check pkt (sint cap_len)
     in Some (status, if status = STATUS_VALID then fields_spec pkt ts p else p,
              count_status cap_len act_len status (count_packet cap_len act_len ts st)))"
  using assms by (rule decode_spec)

section \<open>Statistics\<close>

text \<open>All the packets that are counted under a status.\<close>

definition counted :: "'f PacketStat \<Rightarrow> u64" where
  "counted st =
     valid_pkt_cnt st + non_ip_cnt st + ip_not_full_cnt st + ip_ver_fail_cnt st +
     ip_chksum_fail_cnt st + ip_frag_cnt st + tcp_not_full_cnt st + udp_not_full_cnt st +
     icmp_not_full_cnt st + undefined_cnt st + non_gtp_cnt st + non_gprs_cnt st"

lemma counted_status:
  "status \<noteq> STATUS_INIT \<Longrightarrow> counted (count_status cap_len act_len status st) = counted st + 1"
  by (cases status) (simp_all add: count_status_def counted_def)

lemma counted_packet: "counted (count_packet cap_len act_len ts st) = counted st"
  by (simp add: count_packet_def counted_def Let_def)

lemma tot_count_status: "tot_pkt_cnt (count_status cap_len act_len status st) = tot_pkt_cnt st"
  by (cases status) (simp_all add: count_status_def)

lemma tot_count_packet: "tot_pkt_cnt (count_packet cap_len act_len ts st) = tot_pkt_cnt st + 1"
  by (simp add: count_packet_def Let_def)

lemma status_spec_INIT: "status_spec ip_check pkt len \<noteq> STATUS_INIT"
  by (simp add: status_spec_def Let_def)

lemma counted_reset: "counted (reset_stat F) = 0" "tot_pkt_cnt (reset_stat F) = 0"
  by (simp_all add: counted_def reset_stat_def)

text \<open>The report changes the statistics that it prints.\<close>

lemma report_changes_stat:
  "counted (snd (report_final_stat_file F opened st)) = counted st + 2"
  "tot_pkt_cnt (snd (report_final_stat_file F opened st)) = tot_pkt_cnt st"
  by (simp_all add: report_final_stat_file_def counted_def)

lemma sint_of_nat_u32:
  assumes "n < 2 ^ 31"
  shows "sint (of_nat n :: u32) = int n"
  using assms by (simp add: sint_uint uint_nat unat_of_nat signed_take_bit_int_eq_self)

section \<open>Decoding an encoded packet\<close>

record ip_header =
  iph_tos :: u8
  iph_len :: u16
  iph_id :: "u8 list"
  iph_ttl :: u8
  iph_proto :: u8
  iph_sum :: "u8 list"
  iph_src :: "u8 list"
  iph_dst :: "u8 list"
  iph_options :: "u8 list"

definition header_ok :: "ip_header \<Rightarrow> bool" where
  "header_ok h \<longleftrightarrow>
     length (iph_id h) = 4 \<and> length (iph_sum h) = 2 \<and> length (iph_src h) = 4 \<and> length (iph_dst h) = 4 \<and>
     4 dvd length (iph_options h) \<and> length (iph_options h) \<le> 40"

definition net16 :: "u16 \<Rightarrow> u8 list" where
  "net16 v = [ucast (drop_bit 8 v), ucast v]"

definition ip_bytes :: "ip_header \<Rightarrow> u8 list" where
  "ip_bytes h =
     [0x40 OR of_nat (5 + length (iph_options h) div 4), iph_tos h] @ net16 (iph_len h) @ iph_id h @
     [iph_ttl h, iph_proto h] @ iph_sum h @ iph_src h @ iph_dst h @ iph_options h"

lemma be16_net16: "be16 (ucast (drop_bit 8 v)) (ucast v) = v"
  by (rule bit_word_eqI) (auto simp: be16_def bit_simps)

lemma first_byte_all:
  "\<forall>n \<in> set [5..<16]. unat ((0x40 OR of_nat n) AND 15 :: u8) = n \<and> unat (drop_bit 4 (0x40 OR of_nat n :: u8)) = 4"
  by code_simp

lemma first_byte:
  assumes "header_ok h"
  shows "unat (ip_bytes h ! 0 AND 15) * 4 = 20 + length (iph_options h)"
    and "unat (drop_bit 4 (ip_bytes h ! 0)) = 4"
proof -
  have "length (iph_options h) div 4 \<le> 40 div 4"
    using assms by (intro div_le_mono) (simp add: header_ok_def)
  then have "5 + length (iph_options h) div 4 \<in> set [5..<16]"
    unfolding set_upt atLeastLessThan_iff by linarith
  from bspec [OF first_byte_all this] show
    "unat (ip_bytes h ! 0 AND 15) * 4 = 20 + length (iph_options h)"
    "unat (drop_bit 4 (ip_bytes h ! 0)) = 4"
    using assms by (auto simp: ip_bytes_def header_ok_def)
qed

lemma length_4E:
  assumes "length xs = 4"
  obtains a b c d where "xs = [a, b, c, d]"
  using assms by (auto simp: numeral_eq_Suc length_Suc_conv)

lemma ip_bytes_simps:
  assumes "header_ok h"
  shows "length (ip_bytes h) = 20 + length (iph_options h)"
    and "ip_bytes h ! 2 = ucast (drop_bit 8 (iph_len h))" and "ip_bytes h ! 3 = ucast (iph_len h)"
    and "ip_bytes h ! 9 = iph_proto h" and "take 8 (drop 12 (ip_bytes h @ xs)) = iph_src h @ iph_dst h"
proof -
  have "length (iph_id h) = 4"
    using assms by (simp add: header_ok_def)
  then obtain a b c d where i: "iph_id h = [a, b, c, d]"
    by (rule length_4E)
  obtain e f where j: "iph_sum h = [e, f]"
    using assms by (auto simp: header_ok_def numeral_2_eq_2 length_Suc_conv)
  have l: "length (iph_src h) = 4" "length (iph_dst h) = 4"
    using assms by (auto simp: header_ok_def)
  show "length (ip_bytes h) = 20 + length (iph_options h)"
    "ip_bytes h ! 2 = ucast (drop_bit 8 (iph_len h))" "ip_bytes h ! 3 = ucast (iph_len h)"
    "ip_bytes h ! 9 = iph_proto h" "take 8 (drop 12 (ip_bytes h @ xs)) = iph_src h @ iph_dst h"
    by (simp_all add: ip_bytes_def net16_def i j l)
qed

definition l4_fits :: "u8 \<Rightarrow> u8 list \<Rightarrow> bool" where
  "l4_fits proto rest \<longleftrightarrow>
     proto = IPPROTO_TCP \<and> 9 \<le> length rest \<and> unat (drop_bit 4 (rest ! 8)) * 4 \<le> 4 + length rest \<or>
     proto = IPPROTO_UDP \<and> 4 \<le> length rest"

lemma encoded_status:
  assumes "header_ok h" and "l4_fits (iph_proto h) rest"
    and "len = int (length (ip_bytes h) + 4 + length rest)"
  shows "status_spec False (ip_bytes h @ net16 sp @ net16 dp @ rest @ junk) len = STATUS_VALID"
proof -
  let ?pkt = "ip_bytes h @ net16 sp @ net16 dp @ rest @ junk"
  have pos: "0 < length (ip_bytes h)" "9 < length (ip_bytes h)"
    using ip_bytes_simps(1) [OF assms(1)] by simp_all
  then have nth: "?pkt ! 0 = ip_bytes h ! 0" "?pkt ! 9 = iph_proto h"
    using ip_bytes_simps(4) [OF assms(1)] by (simp_all add: nth_append)
  have hl: "unat (?pkt ! 0 AND 15) * 4 = length (ip_bytes h)"
    unfolding nth using first_byte(1) [OF assms(1)] ip_bytes_simps(1) [OF assms(1)] by simp
  have v: "unat (drop_bit 4 (?pkt ! 0)) = 4"
    unfolding nth by (rule first_byte(2) [OF assms(1)])
  have doff: "?pkt ! (length (ip_bytes h) + 12) = rest ! 8" if "9 \<le> length rest"
    using that by (simp add: nth_append net16_def)
  have protos: "IPPROTO_TCP \<noteq> IPPROTO_UDP" "IPPROTO_UDP \<noteq> IPPROTO_TCP" "IPPROTO_TCP \<noteq> IPPROTO_ICMP"
    "IPPROTO_UDP \<noteq> IPPROTO_ICMP"
    by (simp_all add: IPPROTO_TCP_def IPPROTO_UDP_def IPPROTO_ICMP_def)
  from assms(2) consider
    (tcp) "iph_proto h = IPPROTO_TCP" "9 \<le> length rest" "unat (drop_bit 4 (rest ! 8)) * 4 \<le> 4 + length rest"
  | (udp) "iph_proto h = IPPROTO_UDP" "4 \<le> length rest"
    unfolding l4_fits_def by blast
  then show ?thesis
  proof cases
    case tcp
    have "\<not> len < int (length (ip_bytes h) + unat (drop_bit 4 (rest ! 8)) * 4)"
      using tcp(3) unfolding assms(3) by linarith
    then show ?thesis
      unfolding status_spec_def Let_def hl nth(2) v doff [OF tcp(2)]
      using tcp(1) assms(3) by (simp add: protos)
  next
    case udp
    then show ?thesis
      unfolding status_spec_def Let_def hl nth(2) v using assms(3) by (simp add: protos)
  qed
qed

lemma encoded_fields:
  assumes "header_ok h" and "l4_fits (iph_proto h) rest"
  shows "fields_spec (ip_bytes h @ net16 sp @ net16 dp @ rest @ junk) ts p =
    p\<lparr>t_key := iph_src h @ iph_dst h @ le16 sp @ le16 dp @ [iph_proto h], t_size := ucast (iph_len h), pkt_ts := ts\<rparr>"
proof -
  let ?pkt = "ip_bytes h @ net16 sp @ net16 dp @ rest @ junk"
  have len: "length (ip_bytes h) = 20 + length (iph_options h)"
    by (rule ip_bytes_simps(1) [OF assms(1)])
  then have nth: "?pkt ! 0 = ip_bytes h ! 0" "?pkt ! 9 = iph_proto h"
    "?pkt ! 2 = ucast (drop_bit 8 (iph_len h))" "?pkt ! 3 = ucast (iph_len h)"
    using ip_bytes_simps(2-4) [OF assms(1)] by (simp_all add: nth_append)
  have hl: "unat (?pkt ! 0 AND 15) * 4 = length (ip_bytes h)"
    unfolding nth using first_byte(1) [OF assms(1)] len by simp
  have ports: "?pkt ! (length (ip_bytes h) + 0) = ucast (drop_bit 8 sp)"
    "?pkt ! (length (ip_bytes h) + 0 + 1) = ucast sp"
    "?pkt ! (length (ip_bytes h) + 2) = ucast (drop_bit 8 dp)"
    "?pkt ! (length (ip_bytes h) + 2 + 1) = ucast dp"
    by (simp_all add: nth_append net16_def)
  show ?thesis
    using assms(2)
    unfolding fields_spec_def Let_def hl nth(2-4) ports be16_net16 ip_bytes_simps(5) [OF assms(1)] l4_fits_def
    by (elim disjE conjE) simp_all
qed

text \<open>
  Claim C28. Decoding inverts encoding: a TCP or UDP packet with a complete IP header (with any options)
  and a complete transport header, followed in the buffer by anything, is valid, and the tuple gets its
  addresses, its ports in the byte order of the machine, its protocol, its total length and its time.
\<close>

theorem decode_encoded:
  assumes "header_ok h" and "l4_fits (iph_proto h) rest"
    and "length (ip_bytes h) + 4 + length rest < 2 ^ 31"
    and "80 \<le> length (ip_bytes h @ net16 sp @ net16 dp @ rest @ junk)"
  shows "decode False (ip_bytes h @ net16 sp @ net16 dp @ rest @ junk)
      (of_nat (length (ip_bytes h) + 4 + length rest)) act_len ts p st =
    Some (STATUS_VALID,
      p\<lparr>t_key := iph_src h @ iph_dst h @ le16 sp @ le16 dp @ [iph_proto h],
        t_size := ucast (iph_len h), pkt_ts := ts\<rparr>,
      count_status (of_nat (length (ip_bytes h) + 4 + length rest)) act_len STATUS_VALID
        (count_packet (of_nat (length (ip_bytes h) + 4 + length rest)) act_len ts st))"
proof -
  let ?n = "length (ip_bytes h) + 4 + length rest"
  have "sint (of_nat ?n :: u32) = int ?n"
    by (rule sint_of_nat_u32 [OF assms(3)])
  note encoded = encoded_status [OF assms(1,2) this] encoded_fields [OF assms(1,2)]
  show ?thesis
    by (simp only: decode_spec [OF assms(4)] Let_def encoded refl if_True)
qed

definition small_header :: ip_header where
  "small_header =
     \<lparr>iph_tos = 0, iph_len = 28, iph_id = [0, 1, 0, 0], iph_ttl = 64, iph_proto = 17, iph_sum = [0, 0],
      iph_src = [10, 0, 0, 1], iph_dst = [10, 0, 0, 2], iph_options = []\<rparr>"

theorem decode_encoded_witness:
  "map_option (\<lambda>(status, t, st). (status, t_key t))
     (decode False (ip_bytes small_header @ net16 53 @ net16 1024 @ [0, 8, 0, 0] @ replicate 60 0)
        28 28 (0 :: rat) (zero_tuple rat_ops) (reset_stat rat_ops)) =
   Some (STATUS_VALID, [10, 0, 0, 1, 10, 0, 0, 2, 53, 0, 0, 4, 17])"
proof -
  have h: "header_ok small_header" "length (ip_bytes small_header) = 20"
    by (simp_all add: header_ok_def small_header_def ip_bytes_def net16_def)
  have l: "l4_fits (iph_proto small_header) [0, 8, 0, 0]"
    by (simp add: l4_fits_def small_header_def IPPROTO_UDP_def)
  have n: "length (ip_bytes small_header) + 4 + length [0 :: u8, 8, 0, 0] = 28"
    by (simp add: h(2))
  have "80 \<le> length (ip_bytes small_header @ net16 53 @ net16 1024 @ [0, 8, 0, 0] @ replicate 60 0)"
    by (simp add: h(2) net16_def)
  from decode_encoded [OF h(1) l _ this, where ts = "0 :: rat", unfolded n] show ?thesis
    by (simp add: small_header_def le16_def)
qed

theorem decode_total_witness:
  "fst (the (decode False (replicate 80 0) 80 80 (0 :: rat) (zero_tuple rat_ops) (reset_stat rat_ops))) =
   STATUS_IP_VER_FAIL"
  using decode_total [of "replicate 80 0" False 80 80 "0 :: rat"]
  by (simp add: Let_def status_spec_def IPPROTO_TCP_def IPPROTO_UDP_def IPPROTO_ICMP_def)

end
