(* ===== verification/Trace.thy ===== *)
theory Trace
  imports Packet_Correct
begin

text \<open>
  Reading traces.  \<^verbatim>\<open>adapter_dir.c\<close> reads the packets of a list of capture files and decodes them;
  \<^verbatim>\<open>trace_preprocess.c\<close> writes the tuples of the valid packets into one record file;
  \<^verbatim>\<open>adapter_record_ram.c\<close> reads that file into memory and hands out its tuples to the programs that
  measure.  The file system and the capture library are parameters: \<open>read_file\<close> gives the contents of a
  text file, \<open>pcap_open_offline\<close> the captures in a file, both \<open>None\<close> when it cannot be opened.  A record
  file is a list of tuples.  Error exits of \<^verbatim>\<open>LOG_ERR\<close> have code 1.
\<close>

section \<open>Names and lines\<close>

definition MAX_CONF_LEN :: nat where "MAX_CONF_LEN = 1024"
definition MAX_FILE :: nat where "MAX_FILE = 1024"
definition MAX_FILE_LEN :: nat where "MAX_FILE_LEN = 1024"
definition MAX_CAPLEN :: nat where "MAX_CAPLEN = 1500"
definition EXIT_FAILURE :: int where "EXIT_FAILURE = 1"

definition strconcat :: "string option \<Rightarrow> string option \<Rightarrow> string option result" where
  "strconcat a b =
     (case a of
        None \<Rightarrow> Inr b
      | Some a \<Rightarrow>
          (case b of
             None \<Rightarrow> Inr None
           | Some b \<Rightarrow>
               if MAX_CONF_LEN \<le> length a + length b then Inl (Exit_code EXIT_FAILURE)
               else Inr (Some (a @ b))))"

text \<open>\<^verbatim>\<open>fgets\<close> with a buffer of \<open>n\<close> characters: the line with its newline, if it fits, and the rest.\<close>

definition newline_char :: char where "newline_char = CHR 0x0A"

definition fgets :: "nat \<Rightarrow> string \<Rightarrow> (string \<times> string) option" where
  "fgets n s =
     (if s = [] then None
      else
        let k = length (takeWhile (\<lambda>c. c \<noteq> newline_char) (take (n - 1) s));
            m = (if k < n - 1 \<and> k < length s then k + 1 else k)
        in Some (take m s, drop m s))"

text \<open>The lines a loop of \<^verbatim>\<open>fgets\<close> reads, for a buffer of at least two characters.\<close>

function lines_of :: "nat \<Rightarrow> string \<Rightarrow> string list" where
  "lines_of n s =
     (case fgets n s of
        None \<Rightarrow> []
      | Some (line, rest) \<Rightarrow> if length rest < length s then line # lines_of n rest else [])"
  by auto
termination
  by (relation "measure (\<lambda>(n, s). length s)") auto

declare lines_of.simps [simp del]

section \<open>The capture files\<close>

record capture =
  tv_sec :: int
  tv_usec :: int
  caplen :: u32
  cap_len :: u32
  cap_bytes :: "u8 list"

record dir_adapter =
  file_num :: nat
  file_cur :: nat
  filename :: "string list"
  pcap :: "capture list"

fun read_names :: "string option \<Rightarrow> string list \<Rightarrow> string list \<Rightarrow> string list result" where
  "read_names dir [] names = Inr names"
| "read_names dir (buf # bufs) names =
     (case strconcat dir (Some (butlast buf)) of
        Inl err \<Rightarrow> Inl err
      | Inr None \<Rightarrow> Inl Invalid_access
      | Inr (Some name) \<Rightarrow>
          if MAX_FILE \<le> length names then Inl Invalid_access
          else read_names dir bufs (names @ [name]))"

definition dir_adapter_init ::
  "(string \<Rightarrow> string option) \<Rightarrow> (string \<Rightarrow> capture list option) \<Rightarrow> string option \<Rightarrow> string \<Rightarrow>
     dir_adapter result" where
  "dir_adapter_init read_file pcap_open_offline dir file =
     (case strconcat dir (Some file) of
        Inl err \<Rightarrow> Inl err
      | Inr None \<Rightarrow> Inl Invalid_access
      | Inr (Some path) \<Rightarrow>
          (case read_file path of
             None \<Rightarrow> Inl Invalid_access
           | Some s \<Rightarrow>
               (case read_names dir (lines_of MAX_FILE_LEN s) [] of
                  Inl err \<Rightarrow> Inl err
                | Inr names \<Rightarrow>
                    (case pcap_open_offline (case names of [] \<Rightarrow> [] | name # _ \<Rightarrow> name) of
                       None \<Rightarrow> Inl (Exit_code EXIT_FAILURE)
                     | Some cs \<Rightarrow>
                         Inr \<lparr>file_num = length names, file_cur = 0, filename = names, pcap = cs\<rparr>))))"

text \<open>The next capture, from the current file or the first one of the next file; \<open>Inr (None, _)\<close> is \<^verbatim>\<open>-1\<close>.\<close>

definition next_capture ::
  "(string \<Rightarrow> capture list option) \<Rightarrow> dir_adapter \<Rightarrow> (capture option \<times> dir_adapter) result" where
  "next_capture pcap_open_offline a =
     (case pcap a of
        c # cs \<Rightarrow> Inr (Some c, a\<lparr>pcap := cs\<rparr>)
      | [] \<Rightarrow>
          let a = a\<lparr>file_cur := file_cur a + 1\<rparr>
          in if file_cur a < file_num a
             then if length (filename a) \<le> file_cur a then Inl Invalid_access
                  else (case pcap_open_offline (filename a ! file_cur a) of
                          None \<Rightarrow> Inl (Exit_code EXIT_FAILURE)
                        | Some [] \<Rightarrow> Inr (None, a\<lparr>pcap := []\<rparr>)
                        | Some (c # cs) \<Rightarrow> Inr (Some c, a\<lparr>pcap := cs\<rparr>))
             else Inr (None, a))"

text \<open>\<open>stack\<close> is what the local array \<^verbatim>\<open>pkt_data\<close> holds before the packet is copied into it.\<close>

definition packet_buffer :: "u8 list \<Rightarrow> capture \<Rightarrow> (u8 list \<times> u32) option" where
  "packet_buffer stack c =
     (let pkt_len = (if unat (caplen c) < MAX_CAPLEN then unat (caplen c) else MAX_CAPLEN)
      in Option.bind (copy_out (cap_bytes c) 0 pkt_len) (\<lambda>bs.
         Option.bind (copy_in stack 0 bs) (\<lambda>buf. Some (buf, of_nat pkt_len))))"

definition capture_ts :: "'f float_ops \<Rightarrow> capture \<Rightarrow> 'f" where
  "capture_ts F c =
     f_add F (f_div F (f_of_int F (tv_usec c)) (f_of_int F 1000000)) (f_of_int F (tv_sec c))"

definition dir_adapter_next ::
  "'f float_ops \<Rightarrow> bool \<Rightarrow> (string \<Rightarrow> capture list option) \<Rightarrow> u8 list \<Rightarrow> dir_adapter \<Rightarrow> 'f tuple_t \<Rightarrow>
     'f PacketStat \<Rightarrow> (PACKET_STATUS option \<times> dir_adapter \<times> 'f tuple_t \<times> 'f PacketStat) result" where
  "dir_adapter_next F ip_check pcap_open_offline stack a p st =
     (case next_capture pcap_open_offline a of
        Inl err \<Rightarrow> Inl err
      | Inr (None, a) \<Rightarrow> Inr (None, a, p, st)
      | Inr (Some c, a) \<Rightarrow>
          (case packet_buffer stack c of
             None \<Rightarrow> Inl Invalid_access
           | Some (buf, pkt_len) \<Rightarrow>
               (case decode ip_check buf pkt_len (cap_len c) (capture_ts F c) p st of
                  None \<Rightarrow> Inl Invalid_access
                | Some (status, p, st) \<Rightarrow> Inr (Some status, a, p, st))))"

section \<open>The preprocessor\<close>

lemma next_capture_decreases:
  assumes "next_capture opn a = Inr (Some c, a')"
  shows "((file_num a' - file_cur a', length (pcap a')), (file_num a - file_cur a, length (pcap a)))
     \<in> less_than <*lex*> less_than"
  using assms by (auto simp: next_capture_def Let_def split: list.splits if_splits option.splits)

text \<open>
  The main loop of \<^verbatim>\<open>trace_preprocess.c\<close>: the records written, and the statistics at the end.  The record file is a list
  of tuples: the \<^verbatim>\<open>sprintf\<close> of its name, opening it, and the exit when that fails are outside the model.
\<close>

function preprocess_loop ::
  "'f float_ops \<Rightarrow> bool \<Rightarrow> (string \<Rightarrow> capture list option) \<Rightarrow> (nat \<Rightarrow> u8 list) \<Rightarrow> nat \<Rightarrow> dir_adapter \<Rightarrow>
     'f tuple_t \<Rightarrow> 'f PacketStat \<Rightarrow> 'f tuple_t list \<Rightarrow> ('f tuple_t list \<times> 'f PacketStat) result" where
  "preprocess_loop F ip_check opn stacks i a t st out =
     (case dir_adapter_next F ip_check opn (stacks i) a t st of
        Inl err \<Rightarrow> Inl err
      | Inr (None, a, t, st) \<Rightarrow> Inr (out, st)
      | Inr (Some status, a, t, st) \<Rightarrow>
          preprocess_loop F ip_check opn stacks (Suc i) a t st
            (if status \<noteq> STATUS_VALID then out else out @ [t]))"
  by auto

termination
proof (relation "inv_image (less_than <*lex*> less_than)
    (\<lambda>(F, ip, opn, stacks, i, a, t, st, out). (file_num a - file_cur a, length (pcap a)))", goal_cases)
  case 1
  show ?case by auto
next
  case (2 F ip opn stacks i a t st out r status q s a' t' st')
  then have "\<exists>c. next_capture opn a = Inr (Some c, a')"
    by (auto simp: dir_adapter_next_def split: sum.splits option.splits)
  then show ?case
    using next_capture_decreases by fastforce
qed

declare preprocess_loop.simps [simp del]

definition preprocess ::
  "'f float_ops \<Rightarrow> bool \<Rightarrow> (string \<Rightarrow> string option) \<Rightarrow> (string \<Rightarrow> capture list option) \<Rightarrow> (nat \<Rightarrow> u8 list) \<Rightarrow>
     string option \<Rightarrow> string \<Rightarrow> 'f PacketStat \<Rightarrow> ('f tuple_t list \<times> 'f PacketStat) result" where
  "preprocess F ip_check read_file opn stacks dir pcap_list st =
     (case dir_adapter_init read_file opn dir pcap_list of
        Inl err \<Rightarrow> Inl err
      | Inr a \<Rightarrow> preprocess_loop F ip_check opn stacks 0 a (zero_tuple F) st [])"

section \<open>The record file in memory\<close>

text \<open>\<^verbatim>\<open>sizeof(tuple_t)\<close>: the structure is packed.\<close>

definition tuple_bytes :: nat where "tuple_bytes = 26"

record 'f ram_adapter =
  trace_buf :: "'f tuple_t list"
  ram_ptr :: nat
  ram_cnt :: nat
  ram_cur :: nat

fun load_records :: "'f tuple_t list \<Rightarrow> nat \<Rightarrow> nat \<Rightarrow> 'f tuple_t list" where
  "load_records [] p buf_size = []"
| "load_records (r # rs) p buf_size =
     (if p + tuple_bytes \<le> buf_size then r # load_records rs (p + tuple_bytes) buf_size else [])"

definition ram_adapter_init :: "'f tuple_t list option \<Rightarrow> nat \<Rightarrow> 'f ram_adapter result" where
  "ram_adapter_init file buf_size =
     (case file of
        None \<Rightarrow> Inl (Exit_code EXIT_FAILURE)
      | Some rs \<Rightarrow>
          let buf = load_records rs 0 buf_size
          in Inr \<lparr>trace_buf = buf, ram_ptr = 0, ram_cnt = length buf, ram_cur = 0\<rparr>)"

text \<open>\<open>Some None\<close> is the end of the trace; the pointer \<^verbatim>\<open>ptr\<close> is the number of a record.\<close>

definition ram_adapter_next :: "'f ram_adapter \<Rightarrow> ('f tuple_t \<times> 'f ram_adapter) option option" where
  "ram_adapter_next a =
     (if ram_cur a = ram_cnt a then Some None
      else
        let a = a\<lparr>ram_cur := ram_cur a + 1\<rparr>
        in if ram_ptr a < length (trace_buf a)
           then Some (Some (trace_buf a ! ram_ptr a, a\<lparr>ram_ptr := ram_ptr a + 1\<rparr>))
           else None)"

end
