(* ===== verification/Tuple_Text.thy ===== *)
theory Tuple_Text
  imports Trace Key_Table_Correct Qsort
begin

text \<open>
  Tuples as lines of text: \<^verbatim>\<open>print_tuple\<close> and \<^verbatim>\<open>read_tuple\<close> of \<^verbatim>\<open>packet.c\<close>, and the file of tuples that
  \<^verbatim>\<open>key_tbl_print\<close> writes and \<^verbatim>\<open>key_tbl_read_file\<close> reads back.  The conversions of \<^verbatim>\<open>printf\<close> and
  \<^verbatim>\<open>sscanf\<close> that the two formats use are modelled on strings: \<open>show_nat\<close> and \<open>show_int\<close> for \<^verbatim>\<open>%u\<close> and
  \<^verbatim>\<open>%d\<close>; \<open>sscanf\<close> interprets a list of directives and returns the values that were assigned before the
  first directive that did not match.  A number outside the range of its conversion is undefined
  behaviour (\<open>None\<close>).
\<close>

section \<open>Numbers\<close>

definition digit_char :: "nat \<Rightarrow> char" where
  "digit_char d = char_of (48 + d)"

definition is_digit :: "char \<Rightarrow> bool" where
  "is_digit c \<longleftrightarrow> 48 \<le> (of_char c :: nat) \<and> (of_char c :: nat) \<le> 57"

definition digit_value :: "char \<Rightarrow> nat" where
  "digit_value c = of_char c - 48"

fun show_nat :: "nat \<Rightarrow> string" where
  "show_nat n = (if n < 10 then [digit_char n] else show_nat (n div 10) @ [digit_char (n mod 10)])"

declare show_nat.simps [simp del]

definition show_int :: "int \<Rightarrow> string" where
  "show_int i = (if i < 0 then CHR ''-'' # show_nat (nat (- i)) else show_nat (nat i))"

definition digits_value :: "string \<Rightarrow> nat" where
  "digits_value ds = foldl (\<lambda>v c. v * 10 + digit_value c) 0 ds"

section \<open>The scanner\<close>

text \<open>
  A number directive carries the range of the values it may store; white space in the format skips any
  white space; any other character must match.
\<close>

datatype directive = Num int int | Space | Lit char

definition is_space :: "char \<Rightarrow> bool" where
  "is_space c \<longleftrightarrow> of_char c \<in> {9 :: nat, 10, 11, 12, 13, 32}"

definition scan_sign :: "string \<Rightarrow> int \<times> string" where
  "scan_sign s =
     (case s of
        c # cs \<Rightarrow> if c = CHR ''-'' then (-1, cs) else if c = CHR ''+'' then (1, cs) else (1, s)
      | [] \<Rightarrow> (1, s))"

definition scan_num :: "string \<Rightarrow> (int \<times> string) option" where
  "scan_num s =
     (let (sign, s) = scan_sign (dropWhile is_space s)
      in case takeWhile is_digit s of
           [] \<Rightarrow> None
         | d # ds \<Rightarrow> Some (sign * int (digits_value (d # ds)), dropWhile is_digit s))"

fun sscanf :: "directive list \<Rightarrow> string \<Rightarrow> int list option" where
  "sscanf [] s = Some []"
| "sscanf (Space # ds) s = sscanf ds (dropWhile is_space s)"
| "sscanf (Lit c # ds) s =
     (case s of [] \<Rightarrow> Some [] | c' # s' \<Rightarrow> if c' = c then sscanf ds s' else Some [])"
| "sscanf (Num lo hi # ds) s =
     (case scan_num s of
        None \<Rightarrow> Some []
      | Some (v, s') \<Rightarrow>
          if v < lo \<or> hi < v then None else map_option (Cons v) (sscanf ds s'))"

section \<open>Tuples\<close>

text \<open>\<^verbatim>\<open>ip2a\<close>; the address is in memory order, so its bytes are the bytes of the key.\<close>

definition ip2a :: "u32 \<Rightarrow> string" where
  "ip2a ip =
     show_nat (unat (ip AND 255)) @ ''.'' @ show_nat (unat (drop_bit 8 ip AND 255)) @ ''.'' @
     show_nat (unat (drop_bit 16 ip AND 255)) @ ''.'' @ show_nat (unat (drop_bit 24 ip AND 255))"

text \<open>The fields of the key, from its 13 bytes.\<close>

definition of_le16 :: "u8 list \<Rightarrow> u16" where
  "of_le16 bs = ucast (bs ! 0) OR push_bit 8 (ucast (bs ! 1))"

definition src_ip :: "u8 list \<Rightarrow> u32" where "src_ip k = of_le32 k"
definition dst_ip :: "u8 list \<Rightarrow> u32" where "dst_ip k = of_le32 (drop 4 k)"
definition src_port :: "u8 list \<Rightarrow> u16" where "src_port k = of_le16 (drop 8 k)"
definition dst_port :: "u8 list \<Rightarrow> u16" where "dst_port k = of_le16 (drop 10 k)"
definition proto :: "u8 list \<Rightarrow> u8" where "proto k = k ! 12"

definition flow_key :: "u32 \<Rightarrow> u32 \<Rightarrow> u16 \<Rightarrow> u16 \<Rightarrow> u8 \<Rightarrow> u8 list" where
  "flow_key s d sp dp pr = le32 s @ le32 d @ le16 sp @ le16 dp @ [pr]"

definition print_tuple :: "'f tuple_t \<Rightarrow> string" where
  "print_tuple t =
     ip2a (src_ip (t_key t)) @ ''('' @ show_nat (unat (src_port (t_key t))) @ '') <-> '' @
     ip2a (dst_ip (t_key t)) @ ''('' @ show_nat (unat (dst_port (t_key t))) @ '') '' @
     show_nat (unat (proto (t_key t))) @ '' '' @ show_int (sint (t_size t)) @ [CHR 0x0A]"

definition tuple_format :: "directive list" where
  "tuple_format =
     (let u = Num (- (2 ^ 32 - 1)) (2 ^ 32 - 1); hu = Num (- (2 ^ 16 - 1)) (2 ^ 16 - 1);
          hhu = Num (- (2 ^ 8 - 1)) (2 ^ 8 - 1); d = Num (- (2 ^ 31)) (2 ^ 31 - 1); dot = Lit (CHR ''.'');
          ip = [u, dot, u, dot, u, dot, u, Lit (CHR ''(''), hu, Lit (CHR '')'')]
      in ip @ [Space, Lit (CHR ''<''), Lit (CHR ''-''), Lit (CHR ''>''), Space] @ ip @
         [Space, hhu, Space, d])"

text \<open>
  The values are stored in the order of the arguments.  When fewer than nine are assigned, an
  uninitialised variable is read afterwards (\<open>None\<close>); the three last fields keep their old value when
  the line ends before them.
\<close>

definition joined_ip :: "int \<Rightarrow> int \<Rightarrow> int \<Rightarrow> int \<Rightarrow> u32" where
  "joined_ip a b c d =
     push_bit 24 (of_int d) OR push_bit 16 (of_int c) OR push_bit 8 (of_int b) OR of_int a"

definition read_tuple :: "string \<Rightarrow> 'f tuple_t \<Rightarrow> 'f tuple_t option" where
  "read_tuple line p =
     (case sscanf tuple_format line of
        None \<Rightarrow> None
      | Some vs \<Rightarrow>
          if length vs < 9 then None
          else
            let k = t_key p
            in Some (p\<lparr>t_key :=
                         flow_key (joined_ip (vs ! 0) (vs ! 1) (vs ! 2) (vs ! 3))
                           (joined_ip (vs ! 5) (vs ! 6) (vs ! 7) (vs ! 8))
                           (of_int (vs ! 4)) (if 9 < length vs then of_int (vs ! 9) else dst_port k)
                           (if 10 < length vs then of_int (vs ! 10) else proto k),
                       t_size := (if 11 < length vs then of_int (vs ! 11) else t_size p)\<rparr>))"

section \<open>Files of tuples\<close>

text \<open>The comparison function of \<^verbatim>\<open>util.c\<close>.\<close>

definition cmp :: "'f tuple_t \<Rightarrow> 'f tuple_t \<Rightarrow> int" where
  "cmp t1 t2 =
     (let k1 = t_key t1; k2 = t_key t2
      in if t_size t1 \<noteq> t_size t2 then if sint (t_size t1) < sint (t_size t2) then 1 else 0
         else if src_ip k1 \<noteq> src_ip k2 then if src_ip k1 < src_ip k2 then 1 else 0
         else if dst_ip k1 \<noteq> dst_ip k2 then if dst_ip k1 < dst_ip k2 then 1 else 0
         else if src_port k1 \<noteq> src_port k2 then if src_port k1 < src_port k2 then 1 else 0
         else if dst_port k1 \<noteq> dst_port k2 then if dst_port k1 < dst_port k2 then 1 else 0
         else if proto k1 < proto k2 then 1 else 0)"

text \<open>\<^verbatim>\<open>qsort\<close> is given the comparison function; what is written is the text of the file.\<close>

definition key_tbl_print ::
  "(('f tuple_t \<Rightarrow> 'f tuple_t \<Rightarrow> int) \<Rightarrow> 'f tuple_t list \<Rightarrow> 'f tuple_t list) \<Rightarrow> 'f key_tbl \<Rightarrow> string" where
  "key_tbl_print qsort tbl = concat (map print_tuple (qsort cmp (key_tbl_get_all tbl)))"

fun read_lines ::
  "'f float_ops \<Rightarrow> string list \<Rightarrow> 'f key_tbl \<Rightarrow> 'f tuple_t \<Rightarrow> int \<Rightarrow> ('f key_tbl \<times> int) result" where
  "read_lines F [] tbl p tot = Inr (tbl, tot)"
| "read_lines F (line # lines) tbl p tot =
     (case read_tuple line p of
        None \<Rightarrow> Inl Invalid_access
      | Some p \<Rightarrow>
          (case record_add F tbl (t_key p) (t_size p) of
             Inl err \<Rightarrow> Inl err
           | Inr tbl \<Rightarrow> read_lines F lines tbl p (tot + sint (t_size p))))"

text \<open>\<open>file\<close> is the contents of the file, if it can be opened; \<open>p\<close> is the uninitialised local tuple.\<close>

definition key_tbl_read_file ::
  "'f float_ops \<Rightarrow> string option \<Rightarrow> 'f tuple_t \<Rightarrow> 'f key_tbl \<Rightarrow> ('f key_tbl \<times> int) result" where
  "key_tbl_read_file F file p tbl =
     (case file of
        None \<Rightarrow> Inl Invalid_access
      | Some s \<Rightarrow> read_lines F (lines_of 100 s) tbl p 0)"

section \<open>Printing and scanning numbers\<close>

lemma digit_char_simps:
  assumes "d < 10"
  shows "is_digit (digit_char d)" "digit_value (digit_char d) = d" "\<not> is_space (digit_char d)"
    "digit_char d \<noteq> CHR ''-''" "digit_char d \<noteq> CHR ''+''"
proof -
  have n: "of_char (digit_char d) = 48 + d"
    using assms by (simp add: digit_char_def)
  then show "is_digit (digit_char d)" "digit_value (digit_char d) = d" "\<not> is_space (digit_char d)"
    using assms by (simp_all add: is_digit_def digit_value_def is_space_def)
  have "of_char (CHR ''-'') = (45 :: nat)" "of_char (CHR ''+'') = (43 :: nat)"
    by simp_all
  then show "digit_char d \<noteq> CHR ''-''" "digit_char d \<noteq> CHR ''+''"
    using n by auto
qed

lemma digits_value_snoc: "digits_value (ds @ [c]) = digits_value ds * 10 + digit_value c"
  by (simp add: digits_value_def)

lemma show_nat_digits:
  "(\<forall>c \<in> set (show_nat n). is_digit c) \<and> digits_value (show_nat n) = n \<and>
   (\<exists>d ds. d < 10 \<and> show_nat n = digit_char d # ds)"
proof (induction n rule: show_nat.induct)
  case (1 n)
  show ?case
  proof (cases "n < 10")
    case True
    then show ?thesis
      by (auto simp: show_nat.simps [of n] digit_char_simps digits_value_def)
  next
    case False
    then show ?thesis
      using 1 by (auto simp: show_nat.simps [of n] digit_char_simps digits_value_snoc)
  qed
qed

lemma takeWhile_digits:
  assumes "\<not> is_digit c"
  shows "takeWhile is_digit (show_nat n @ c # s) = show_nat n" "dropWhile is_digit (show_nat n @ c # s) = c # s"
  using assms show_nat_digits [of n] by (simp_all add: takeWhile_append dropWhile_append)

lemma skip_space_nat [simp]: "dropWhile is_space (show_nat n @ s) = show_nat n @ s"
proof -
  obtain d ds where "d < 10" "show_nat n = digit_char d # ds"
    using show_nat_digits [of n] by blast
  then show ?thesis by (simp add: digit_char_simps)
qed

lemma scan_sign_nat: "scan_sign (show_nat n @ s) = (1, show_nat n @ s)"
proof -
  obtain d ds where "d < 10" "show_nat n = digit_char d # ds"
    using show_nat_digits [of n] by blast
  then show ?thesis by (simp add: scan_sign_def digit_char_simps)
qed

lemma scan_digits:
  assumes "\<not> is_digit c"
  shows "(case takeWhile is_digit (show_nat n @ c # s) of
      [] \<Rightarrow> None
    | d # ds \<Rightarrow> Some (sign * int (digits_value (d # ds)), dropWhile is_digit (show_nat n @ c # s))) =
    Some (sign * int n, c # s)"
proof -
  obtain d ds where "show_nat n = digit_char d # ds"
    using show_nat_digits [of n] by blast
  then show ?thesis
    using takeWhile_digits [OF assms, of n s] show_nat_digits [of n] by (simp only: list.case)
qed

lemma scan_num_nat:
  assumes "\<not> is_digit c"
  shows "scan_num (show_nat n @ c # s) = Some (int n, c # s)"
  using scan_digits [OF assms, where n = n and s = s and sign = 1] by (simp add: scan_num_def scan_sign_nat del: dropWhile.simps takeWhile.simps)

lemma skip_space_int: "dropWhile is_space (show_int i @ s) = show_int i @ s"
  by (simp add: show_int_def is_space_def)

lemma scan_num_int:
  assumes "\<not> is_digit c"
  shows "scan_num (show_int i @ c # s) = Some (i, c # s)"
proof (cases "i < 0")
  case True
  have "scan_sign (show_int i @ c # s) = (-1, show_nat (nat (- i)) @ c # s)"
    using True by (simp add: show_int_def scan_sign_def)
  then show ?thesis
    using True scan_digits [OF assms, where n = "nat (- i)" and s = s and sign = "-1"] by (simp add: scan_num_def skip_space_int)
next
  case False
  then show ?thesis
    using scan_num_nat [OF assms, of "nat i"] by (simp add: show_int_def)
qed

lemma sscanf_nat:
  assumes "\<not> is_digit c" and "lo \<le> int n" and "int n \<le> hi"
  shows "sscanf (Num lo hi # ds) (show_nat n @ c # s) = map_option (Cons (int n)) (sscanf ds (c # s))"
  using assms by (simp add: scan_num_nat)

lemma sscanf_int:
  assumes "\<not> is_digit c" and "lo \<le> i" and "i \<le> hi"
  shows "sscanf (Num lo hi # ds) (show_int i @ c # s) = map_option (Cons i) (sscanf ds (c # s))"
  using assms by (simp add: scan_num_int)

section \<open>The fields of a key\<close>

lemma le32_of_le32: "le32 (of_le32 (a # b # c # d # ks)) = [a, b, c, d]"
proof -
  have "ucast (drop_bit (8 * i) (of_le32 (a # b # c # d # ks))) = (a # b # c # d # ks) ! i" if "i < 4" for i
  proof (rule bit_word_eqI)
    fix n
    assume "n < LENGTH(8)"
    moreover have "i = 0 \<or> i = 1 \<or> i = 2 \<or> i = 3"
      using that by auto
    ultimately show "bit (ucast (drop_bit (8 * i) (of_le32 (a # b # c # d # ks))) :: u8) n =
        bit ((a # b # c # d # ks) ! i) n"
      by (elim disjE) (auto simp: of_le32_def bit_simps dest: bit_imp_le_length)
  qed
  from this [of 0] this [of 1] this [of 2] this [of 3] show ?thesis
    by (simp add: le32_def)
qed

lemma le16_of_le16: "le16 (of_le16 (a # b # ks)) = [a, b]"
  by (auto simp: le16_def of_le16_def intro!: bit_word_eqI) (auto simp: bit_simps dest: bit_imp_le_length)

lemma length_13E:
  assumes "length k = 13"
  obtains a b c d e f g h i j l m n where "k = [a, b, c, d, e, f, g, h, i, j, l, m, n]"
  using assms by (auto simp: numeral_eq_Suc length_Suc_conv)

lemma flow_key_fields:
  assumes "length k = 13"
  shows "flow_key (src_ip k) (dst_ip k) (src_port k) (dst_port k) (proto k) = k"
  using assms
  by (rule length_13E)
    (simp add: flow_key_def src_ip_def dst_ip_def src_port_def dst_port_def proto_def le32_of_le32 le16_of_le16)

lemma unat_range:
  fixes w :: "'a :: len word"
  shows "int (unat w) \<le> 2 ^ LENGTH('a) - 1" and "- (2 ^ LENGTH('a) - 1) \<le> int (unat w)"
proof -
  have "uint w < 2 ^ LENGTH('a)"
    by (rule unsigned_less)
  then show "int (unat w) \<le> 2 ^ LENGTH('a) - 1" "- (2 ^ LENGTH('a) - 1) \<le> int (unat w)"
    unfolding of_nat_unat using uint_ge_0 [of w] by linarith+
qed

lemma unat_less_exp: "unat w < 2 ^ LENGTH('a)" for w :: "'a :: len word"
  by (rule unsigned_less)

lemma unat_and_255: "unat (w AND 255 :: u32) < 256"
proof -
  have "w AND 255 \<le> 255" by (rule word_and_le1)
  then show ?thesis by (simp add: word_le_nat_alt)
qed

lemma and_255: "w AND 255 = take_bit 8 (w :: u32)"
  by (simp add: take_bit_eq_mask mask_eq_exp_minus_1)

lemma joined_ip_bytes:
  "joined_ip (int (unat (ip AND 255))) (int (unat (drop_bit 8 ip AND 255)))
     (int (unat (drop_bit 16 ip AND 255))) (int (unat (drop_bit 24 ip AND 255))) = ip"
proof -
  have "joined_ip (int (unat (ip AND 255))) (int (unat (drop_bit 8 ip AND 255)))
      (int (unat (drop_bit 16 ip AND 255))) (int (unat (drop_bit 24 ip AND 255))) =
    push_bit 24 (take_bit 8 (drop_bit 24 ip)) OR push_bit 16 (take_bit 8 (drop_bit 16 ip)) OR
      push_bit 8 (take_bit 8 (drop_bit 8 ip)) OR take_bit 8 ip"
    unfolding and_255 by (simp add: joined_ip_def)
  also have "\<dots> = ip"
  proof (rule bit_word_eqI)
    fix n
    assume "n < LENGTH(32)"
    then consider "n < 8" | "8 \<le> n" "n < 16" | "16 \<le> n" "n < 24" | "24 \<le> n" "n < 32"
      by fastforce
    then show "bit (push_bit 24 (take_bit 8 (drop_bit 24 ip)) OR push_bit 16 (take_bit 8 (drop_bit 16 ip)) OR
        push_bit 8 (take_bit 8 (drop_bit 8 ip)) OR take_bit 8 ip) n = bit ip n"
      by cases (auto simp: bit_simps)
  qed
  finally show ?thesis .
qed

section \<open>Tuples\<close>

text \<open>The twelve values of the line of a tuple.\<close>

definition ip_values :: "u32 \<Rightarrow> int list" where
  "ip_values ip =
     [int (unat (ip AND 255)), int (unat (drop_bit 8 ip AND 255)), int (unat (drop_bit 16 ip AND 255)),
      int (unat (drop_bit 24 ip AND 255))]"

lemma not_digits [simp]:
  "\<not> is_digit (CHR ''.'')" "\<not> is_digit (CHR ''('')" "\<not> is_digit (CHR '')'')" "\<not> is_digit (CHR '' '')"
  "\<not> is_digit (CHR 0x0A)"
  by (simp_all add: is_digit_def)

lemma is_space_simps [simp]: "is_space (CHR '' '')" "\<not> is_space (CHR ''<'')"
  by (simp_all add: is_space_def)

definition half_format :: "directive list" where
  "half_format =
     [Num (- (2 ^ 32 - 1)) (2 ^ 32 - 1), Lit (CHR ''.''), Num (- (2 ^ 32 - 1)) (2 ^ 32 - 1), Lit (CHR ''.''),
      Num (- (2 ^ 32 - 1)) (2 ^ 32 - 1), Lit (CHR ''.''), Num (- (2 ^ 32 - 1)) (2 ^ 32 - 1), Lit (CHR ''(''),
      Num (- (2 ^ 16 - 1)) (2 ^ 16 - 1), Lit (CHR '')'')]"

lemma scan_half:
  "sscanf (half_format @ ds) (ip2a ip @ ''('' @ show_nat (unat (p :: u16)) @ '')'' @ s) =
   map_option (\<lambda>vs. (ip_values ip @ [int (unat p)]) @ vs) (sscanf ds s)"
proof -
  have u: "int (unat (w AND 255 :: u32)) \<le> 2 ^ 32 - 1" "- (2 ^ 32 - 1) \<le> int (unat (w AND 255 :: u32))" for w
    using unat_range [of "w AND 255"] by simp_all
  have p: "int (unat p) \<le> 2 ^ 16 - 1" "- (2 ^ 16 - 1) \<le> int (unat p)"
    using unat_range [of p] by simp_all
  show ?thesis
    unfolding half_format_def ip2a_def ip_values_def
    by (simp add: sscanf_nat u [simplified] p [simplified] option.map_comp comp_def del: sscanf.simps(4))
qed

lemma tuple_format_halves:
  "tuple_format =
     half_format @ [Space, Lit (CHR ''<''), Lit (CHR ''-''), Lit (CHR ''>''), Space] @ half_format @
       [Space, Num (- (2 ^ 8 - 1)) (2 ^ 8 - 1), Space, Num (- (2 ^ 31)) (2 ^ 31 - 1)]"
  by (simp add: tuple_format_def half_format_def Let_def)

lemma skip_space_ip: "dropWhile is_space (ip2a ip @ s) = ip2a ip @ s"
  by (simp add: ip2a_def)

lemma scan_tuple:
  "sscanf tuple_format (print_tuple t) =
     Some (ip_values (src_ip (t_key t)) @ [int (unat (src_port (t_key t)))] @
           ip_values (dst_ip (t_key t)) @ [int (unat (dst_port (t_key t))), int (unat (proto (t_key t))),
             sint (t_size t)])"
proof -
  let ?k = "t_key t"
  have pr: "int (unat (proto ?k)) \<le> 2 ^ 8 - 1" "- (2 ^ 8 - 1) \<le> int (unat (proto ?k))"
    using unat_range [of "proto ?k"] by simp_all
  have sz: "- (2 ^ 31) \<le> sint (t_size t)" "sint (t_size t) \<le> 2 ^ 31 - 1"
    using sint_ge [of "t_size t"] sint_lt [of "t_size t"] by simp_all
  have tail: "sscanf [Space, Num (- (2 ^ 8 - 1)) (2 ^ 8 - 1), Space, Num (- (2 ^ 31)) (2 ^ 31 - 1)]
      ('' '' @ show_nat (unat (proto ?k)) @ '' '' @ show_int (sint (t_size t)) @ [CHR 0x0A]) =
    Some [int (unat (proto ?k)), sint (t_size t)]"
    using pr sz by (simp add: sscanf_nat sscanf_int skip_space_int del: sscanf.simps(4))
  have "print_tuple t = ip2a (src_ip ?k) @ ''('' @ show_nat (unat (src_port ?k)) @ '')'' @ '' <-> '' @
      ip2a (dst_ip ?k) @ ''('' @ show_nat (unat (dst_port ?k)) @ '')'' @
      '' '' @ show_nat (unat (proto ?k)) @ '' '' @ show_int (sint (t_size t)) @ [CHR 0x0A]"
    by (simp add: print_tuple_def)
  then show ?thesis
    unfolding tuple_format_halves
    by (simp only: scan_half tail) (simp add: skip_space_ip scan_half [simplified] tail [simplified])
qed

lemma read_print_tuple:
  assumes "length (t_key t) = 13"
  shows "read_tuple (print_tuple t) p = Some (p\<lparr>t_key := t_key t, t_size := t_size t\<rparr>)"
  using flow_key_fields [OF assms]
  by (simp add: read_tuple_def scan_tuple ip_values_def joined_ip_bytes [simplified])

section \<open>Lines\<close>

lemma fgets_line:
  assumes "newline_char \<notin> set body" and "length body + 1 < n"
  shows "fgets n (body @ newline_char # rest) = Some (body @ [newline_char], rest)"
proof -
  obtain m where m: "n - 1 - length body = Suc m"
    using assms(2) by (cases "n - 1 - length body") auto
  have "takeWhile (\<lambda>c. c \<noteq> newline_char) (take (n - 1) (body @ newline_char # rest)) = body"
    using assms m by (simp add: takeWhile_append)
  then show ?thesis
    using assms(2) by (simp add: fgets_def Let_def)
qed

lemma lines_of_concat:
  assumes "\<forall>l \<in> set ls. \<exists>body. l = body @ [newline_char] \<and> newline_char \<notin> set body \<and> length body + 1 < n"
  shows "lines_of n (concat ls) = ls"
  using assms
proof (induction ls)
  case Nil
  then show ?case by (simp add: lines_of.simps fgets_def)
next
  case (Cons l ls)
  then obtain body where "l = body @ [newline_char]" "newline_char \<notin> set body" "length body + 1 < n"
    by auto
  then show ?case
    using Cons fgets_line [of body n "concat ls"] by (simp add: lines_of.simps [of n "body @ newline_char # concat ls"])
qed

lemma length_show_nat: "n < 10 ^ Suc k \<Longrightarrow> length (show_nat n) \<le> Suc k"
proof (induction k arbitrary: n)
  case 0
  then show ?case by (simp add: show_nat.simps)
next
  case (Suc k)
  then have "n div 10 < 10 ^ Suc k"
    by (simp add: less_mult_imp_div_less)
  from Suc.IH [OF this] show ?case
    by (simp add: show_nat.simps [of n])
qed

lemma newline_not_digit: "newline_char \<notin> set (show_nat n)"
  using show_nat_digits [of n] by (auto simp: newline_char_def)

lemma show_int_line:
  fixes s :: u32
  shows "length (show_int (sint s)) \<le> 11" and "newline_char \<notin> set (show_int (sint s))"
proof -
  have "nat \<bar>sint s\<bar> < 10 ^ Suc 9"
    using sint_ge [of s] sint_lt [of s] by simp
  then have "length (show_nat (nat \<bar>sint s\<bar>)) \<le> Suc 9"
    by (rule length_show_nat)
  then show "length (show_int (sint s)) \<le> 11"
    by (cases "sint s < 0") (simp_all add: show_int_def)
  show "newline_char \<notin> set (show_int (sint s))"
    by (simp add: show_int_def newline_not_digit) (simp add: newline_char_def)
qed

lemma ip2a_line: "length (ip2a ip) \<le> 15" "newline_char \<notin> set (ip2a ip)"
proof -
  have "length (show_nat (unat (w AND 255 :: u32))) \<le> 3" for w
    using length_show_nat [of _ 2] unat_and_255 [of w] by (simp add: numeral_eq_Suc)
  from this [of ip] this [of "drop_bit 8 ip"] this [of "drop_bit 16 ip"] this [of "drop_bit 24 ip"]
  show "length (ip2a ip) \<le> 15"
    by (simp add: ip2a_def)
  show "newline_char \<notin> set (ip2a ip)"
    by (simp add: ip2a_def newline_not_digit) (simp add: newline_char_def)
qed

lemma print_tuple_line:
  "\<exists>body. print_tuple t = body @ [newline_char] \<and> newline_char \<notin> set body \<and> length body + 1 < 100"
proof -
  let ?k = "t_key t"
  let ?body = "ip2a (src_ip ?k) @ ''('' @ show_nat (unat (src_port ?k)) @ '') <-> '' @
     ip2a (dst_ip ?k) @ ''('' @ show_nat (unat (dst_port ?k)) @ '') '' @
     show_nat (unat (proto ?k)) @ '' '' @ show_int (sint (t_size t))"
  have port: "length (show_nat (unat p)) \<le> 5" for p :: u16
    using length_show_nat [of "unat p" 4] unat_less_exp [of p] by simp
  have pr: "length (show_nat (unat p)) \<le> 3" for p :: u8
    using length_show_nat [of "unat p" 2] unat_less_exp [of p] by simp
  have "newline_char \<notin> set ?body"
    by (simp add: ip2a_line newline_not_digit show_int_line) (simp add: newline_char_def)
  moreover have "length ?body + 1 < 100"
    using ip2a_line(1) [of "src_ip ?k"] ip2a_line(1) [of "dst_ip ?k"] port [of "src_port ?k"] port [of "dst_port ?k"]
      pr [of "proto ?k"] show_int_line(1) [of "t_size t"] by simp
  ultimately show ?thesis
    by (intro exI [of _ ?body]) (simp add: print_tuple_def newline_char_def)
qed

section \<open>Round trips\<close>

text \<open>
  Reading the line that was printed for a tuple gives its key (addresses, ports and protocol)
  and its size back, for every key and every signed size.
\<close>

theorem read_print_roundtrip:
  assumes "length (t_key t) = 13"
  shows "read_tuple (print_tuple t) p = Some (p\<lparr>t_key := t_key t, t_size := t_size t\<rparr>)"
  using assms by (rule read_print_tuple)

theorem read_print_roundtrip_witness:
  "read_tuple (print_tuple \<lparr>t_key = [10, 0, 0, 1, 10, 0, 0, 255, 53, 0, 0, 4, 17], t_size = - 5, t_flag = 0, pkt_ts = (0 :: rat)\<rparr>)
     (zero_tuple rat_ops) =
   Some (zero_tuple rat_ops\<lparr>t_key := [10, 0, 0, 1, 10, 0, 0, 255, 53, 0, 0, 4, 17], t_size := - 5\<rparr>)"
  using read_print_roundtrip
    [of "\<lparr>t_key = [10, 0, 0, 1, 10, 0, 0, 255, 53, 0, 0, 4, 17], t_size = - 5, t_flag = 0, pkt_ts = (0 :: rat)\<rparr>"
      "zero_tuple rat_ops"]
  by simp

lemma read_lines_printed:
  assumes "\<forall>t \<in> set ts. length (t_key t) = 13"
  shows "read_lines F (map print_tuple ts) tbl p tot =
    (case adds (record_add F) tbl (map (\<lambda>t. (t_key t, t_size t)) ts) of
       Inl err \<Rightarrow> Inl err
     | Inr tbl' \<Rightarrow> Inr (tbl', tot + (\<Sum>t\<leftarrow>ts. sint (t_size t))))"
  using assms by (induction ts arbitrary: tbl p tot) (auto simp: read_print_tuple split: sum.splits)

lemma read_printed_table:
  assumes "\<forall>t \<in> set (qsort cmp (key_tbl_get_all tbl)). length (t_key t) = 13"
  shows "key_tbl_read_file F (Some (key_tbl_print qsort tbl)) p dst =
    (case adds (record_add F) dst (map (\<lambda>t. (t_key t, t_size t)) (qsort cmp (key_tbl_get_all tbl))) of
       Inl err \<Rightarrow> Inl err
     | Inr tbl' \<Rightarrow> Inr (tbl', \<Sum>t\<leftarrow>qsort cmp (key_tbl_get_all tbl). sint (t_size t)))"
proof -
  have "lines_of 100 (key_tbl_print qsort tbl) = map print_tuple (qsort cmp (key_tbl_get_all tbl))"
    unfolding key_tbl_print_def using print_tuple_line by (intro lines_of_concat) auto
  then show ?thesis
    using read_lines_printed [OF assms, of F dst p 0, unfolded add_0_left] by (simp add: key_tbl_read_file_def)
qed

lemma get_all_length:
  assumes "kt_ok F tbl" and "t \<in> set (key_tbl_get_all tbl)"
  shows "length (t_key t) = 13"
  using assms by (auto simp: key_tbl_get_all_def kt_ok_def list_ok_def used_def)

lemma permuted_map:
  assumes "kt_ok F src" and "kt_n src div 8 = 13" and "mset ts = mset (key_tbl_get_all src)"
  defines "us \<equiv> map (\<lambda>t. (t_key t, t_size t)) ts"
  shows "distinct (map fst us)" and "map_of us = kt_map src" and "fst ` set us = dom (kt_map src)"
proof -
  have "assoc src = map (\<lambda>t. (t_key t, t_size t)) (key_tbl_get_all src)"
    unfolding assoc_def assms(2) using get_all_length [OF assms(1)] by (intro map_cong) auto
  then have eq: "mset us = mset (assoc src)"
    using assms(3) by (simp add: us_def)
  show us: "distinct (map fst us)"
    using assoc_spec(1) [OF assms(1)] eq by (metis mset_map mset_eq_imp_distinct_iff)
  show map: "map_of us = kt_map src"
    using map_of_inject_set [OF us assoc_spec(1) [OF assms(1)]] mset_eq_setD [OF eq] assoc_spec(2) [OF assms(1)]
    by simp
  show "fst ` set us = dom (kt_map src)"
    using dom_map_of_conv_image_fst [of us] map by simp
qed

text \<open>
  Claim C31. A file of flows read back gives the table it was printed from: \<^verbatim>\<open>key_tbl_read_file\<close> on the
  output of \<^verbatim>\<open>key_tbl_print\<close>, into an empty table that can hold the keys, ends with the same counter for
  every key, and returns the total size.  The order in which \<^verbatim>\<open>qsort\<close> leaves the entries does not matter.
\<close>

theorem key_tbl_print_read:
  assumes "kt_ok F src" and "kt_ok F dst" and "float_consts F" and "permuting (qsort cmp)"
    and "kt_n src div 8 = 13" and "kt_n dst = kt_n src" and "kt_map dst = Map.empty"
    and "lists_fit (home dst) (tbl_list_len dst) (dom (kt_map src))"
  shows "\<exists>tbl. key_tbl_read_file F (Some (key_tbl_print qsort src)) p dst =
      Inr (tbl, \<Sum>t\<leftarrow>key_tbl_get_all src. sint (t_size t)) \<and> kt_ok F tbl \<and> kt_map tbl = kt_map src"
proof -
  let ?ts = "qsort cmp (key_tbl_get_all src)"
  define us where "us = map (\<lambda>t. (t_key t, t_size t)) ?ts"
  have perm: "mset ?ts = mset (key_tbl_get_all src)"
    using assms(4) by (simp add: permuting_def)
  then have len: "\<forall>t \<in> set ?ts. length (t_key t) = 13"
    using get_all_length [OF assms(1)] by (metis mset_eq_setD)
  note us = permuted_map [OF assms(1,5) perm, folded us_def]
  have norm: "norm_keys 13 us = us"
    using len by (auto simp: us_def intro!: map_idI)
  have inv: "kt_inv F dst dst"
    using assms(2,3) by (simp add: kt_inv_def)
  have "\<forall>u \<in> set us. kt_n dst div 8 \<le> length (fst u)"
    using len by (simp add: us_def assms(5,6))
  from adds_empty [OF inv assms(7) this] assms(8) obtain u' where u':
    "adds (record_add F) dst us = Inr u'" "kt_inv F dst u'"
    "kt_map u' = (\<lambda>k. if k \<in> fst ` set us then Some (key_total us k) else None)"
    unfolding assms(5,6) norm us(3) by auto
  have "kt_map u' = kt_map src"
    using key_total_map_of [OF us(1)] unfolding u'(3) us(2,3) by (auto simp: fun_eq_iff split: option.splits)
  moreover have "(\<Sum>t\<leftarrow>?ts. sint (t_size t)) = (\<Sum>t\<leftarrow>key_tbl_get_all src. sint (t_size t))"
    using arg_cong [OF perm, of "\<lambda>M. sum_mset (image_mset (\<lambda>t. sint (t_size t)) M)"]
    by (simp add: sum_mset_sum_list [symmetric] del: sum_mset_sum_list)
  ultimately show ?thesis
    using read_printed_table [of qsort src, OF len, of F p dst] u'(1,2) by (simp add: us_def kt_inv_def)
qed

text \<open>A table for whole keys: two lists of two entries.\<close>

definition wide_tbl :: "rat key_tbl" where
  "wide_tbl = small_tbl\<lparr>kt_n := 104\<rparr>"

lemma wide_tbl_ok: "kt_ok rat_ops wide_tbl" and wide_tbl_empty: "kt_map wide_tbl = Map.empty"
proof -
  have u: "used wide_tbl b = []" if "b < 2" for b
    using that by (auto simp: used_def wide_tbl_def less_2_cases_iff)
  have "list_ok rat_ops wide_tbl b" if "b < 2" for b
    using u [OF that] that by (auto simp: list_ok_def wide_tbl_def small_tbl_def less_2_cases_iff)
  then show ok: "kt_ok rat_ops wide_tbl"
    by (simp add: kt_ok_def wide_tbl_def small_tbl_def rat_ops_def)
  have "tbl_list_size wide_tbl = 2"
    by (simp add: wide_tbl_def)
  then show "kt_map wide_tbl = Map.empty"
    using home_less [OF ok] u by (simp add: fun_eq_iff kt_map_def)
qed

theorem key_tbl_print_read_witness:
  "\<exists>src tbl tot. adds (record_add rat_ops) wide_tbl [([10, 0, 0, 1, 10, 0, 0, 2, 53, 0, 0, 4, 17], 5)] = Inr src \<and>
     key_tbl_read_file rat_ops (Some (key_tbl_print (\<lambda>_ xs. xs) src)) (zero_tuple rat_ops) wide_tbl = Inr (tbl, tot) \<and>
     kt_map tbl [10, 0, 0, 1, 10, 0, 0, 2, 53, 0, 0, 4, 17] = Some 5"
proof -
  let ?k = "[10, 0, 0, 1, 10, 0, 0, 2, 53, 0, 0, 4, 17] :: u8 list"
  have inv: "kt_inv rat_ops wide_tbl wide_tbl" and n: "kt_n wide_tbl div 8 = 13"
    using wide_tbl_ok by (simp_all add: kt_inv_def wide_tbl_def)
  have "{k' \<in> {?k}. home wide_tbl k' = home wide_tbl ?k} = {?k}"
    by auto
  then have fit: "lists_fit (home wide_tbl) (tbl_list_len wide_tbl) {?k}"
    by (simp add: lists_fit_def wide_tbl_def)
  have "\<forall>u \<in> set [(?k, 5 :: u32)]. kt_n wide_tbl div 8 \<le> length (fst u)"
    by (simp add: n)
  from adds_empty [OF inv wide_tbl_empty this, unfolded n] fit obtain src where src:
    "adds (record_add rat_ops) wide_tbl [(?k, 5)] = Inr src" "kt_inv rat_ops wide_tbl src"
    "kt_map src = (\<lambda>k. if k = ?k then Some (key_total (norm_keys 13 [(?k, 5)]) k) else None)"
    by auto
  have "dom (kt_map src) = {?k}" "kt_n src = kt_n wide_tbl"
    using src(2) by (auto simp: src(3) dom_def kt_inv_def same_params_def)
  then have "\<exists>tbl. key_tbl_read_file rat_ops (Some (key_tbl_print (\<lambda>_ xs. xs) src)) (zero_tuple rat_ops) wide_tbl =
      Inr (tbl, \<Sum>t\<leftarrow>key_tbl_get_all src. sint (t_size t)) \<and> kt_ok rat_ops tbl \<and> kt_map tbl = kt_map src"
    using src(2) fit n wide_tbl_ok wide_tbl_empty
    by (intro key_tbl_print_read) (simp_all add: kt_inv_def permuting_def)
  then show ?thesis
    using src(1,3) by auto
qed

end
