(* ===== verification/Driver.thy ===== *)
theory Driver
  imports Ringbuffer Trace Tuple_Text
begin

text \<open>
  The two threads of \<^verbatim>\<open>true_flows.c\<close> and \<^verbatim>\<open>dp_simulate.c\<close>.  The main thread reads the records of the trace,
  cuts them into intervals and passes them through the ring buffer to the handler thread; at the end of an
  interval it sends a punctuation and waits on a semaphore until the handler has dealt with it.  One step
  of a thread is one access to what the threads share: a write, a flush or a read of the ring buffer, or an
  operation on the semaphore.  A write or a read that is refused and a wait on a semaphore that is 0 leave
  the state as it is, which is the busy loop of the code.

  The handler is a parameter here: \<open>handle w t\<close> is what it does with a tuple (\<open>Flows\<close> has the handler of
  \<^verbatim>\<open>true_flows.c\<close>, \<open>Sketches\<close> the one of \<^verbatim>\<open>dp_simulate.c\<close>).  The result is that every interleaving delivers
  \<open>messages\<close> to the handler, that no state is stuck, and that both threads come to their end.
\<close>

section \<open>Tuples in the ring buffer\<close>

definition TUPLE_NORMAL :: u8 where "TUPLE_NORMAL = 0"
definition TUPLE_PUNC :: u8 where "TUPLE_PUNC = 1"
definition TUPLE_TERM :: u8 where "TUPLE_TERM = 2"

text \<open>
  The bytes of a \<^verbatim>\<open>tuple_t\<close>, a packed structure; \<open>db\<close> and \<open>bd\<close> are the representation of a \<^verbatim>\<open>double\<close> in
  memory and its inverse.
\<close>

definition tuple_image :: "('f \<Rightarrow> u8 list) \<Rightarrow> 'f tuple_t \<Rightarrow> u8 list" where
  "tuple_image db t = t_key t @ le32 (t_size t) @ [t_flag t] @ db (pkt_ts t)"

definition image_tuple :: "(u8 list \<Rightarrow> 'f) \<Rightarrow> u8 list \<Rightarrow> 'f tuple_t" where
  "image_tuple bd bs =
     \<lparr>t_key = take 13 bs, t_size = of_le32 (drop 13 bs), t_flag = bs ! 17, pkt_ts = bd (drop 18 bs)\<rparr>"

definition has_image :: "('f \<Rightarrow> u8 list) \<Rightarrow> (u8 list \<Rightarrow> 'f) \<Rightarrow> 'f tuple_t \<Rightarrow> bool" where
  "has_image db bd t \<longleftrightarrow>
     length (t_key t) = 13 \<and> length (db (pkt_ts t)) = 8 \<and> bd (db (pkt_ts t)) = pkt_ts t"

lemma length_tuple_image: "has_image db bd t \<Longrightarrow> length (tuple_image db t) = tuple_bytes"
  by (simp add: has_image_def tuple_image_def tuple_bytes_def)

lemma image_tuple_image: "has_image db bd t \<Longrightarrow> image_tuple bd (tuple_image db t) = t"
  by (simp add: has_image_def tuple_image_def image_tuple_def nth_append)

lemma has_image_flag [simp]: "has_image db bd (t\<lparr>t_flag := v\<rparr>) = has_image db bd t"
  by (simp add: has_image_def)

section \<open>The main thread\<close>

text \<open>
  Where the main thread is: waiting for the handler to be ready, at the head of its loop, or before one of
  the accesses in it; after the loop, sending the last message, waiting for the handler to end, at the end.
\<close>

datatype main_pc =
  Wait_ready | Fetch | Put_punc | Flush_punc | Wait_punc | Put_tuple | Put_term | Flush_term | Join | Main_end

record 'f main_state =
  m_pc :: main_pc
  adapter :: "'f ram_adapter"
  m_t :: "'f tuple_t"
  last_interval :: u64
  cur_interval :: u64
  start_ts :: u64
  m_used :: u64

datatype handler_pc = Posting | Reading | Handler_end

record ('f, 'w) driver =
  d_main :: "'f main_state"
  d_rb :: RingBuffer
  d_sem :: nat
  d_pc :: handler_pc
  d_handler :: 'w

text \<open>
  \<^verbatim>\<open>(unsigned long long)(t.pkt_ts*1000/interval_len)\<close>; \<open>to_u64\<close> is the conversion of a \<^verbatim>\<open>double\<close>, \<open>None\<close> where
  it is undefined.
\<close>

definition interval_of :: "'f float_ops \<Rightarrow> ('f \<Rightarrow> u64 option) \<Rightarrow> u64 \<Rightarrow> 'f tuple_t \<Rightarrow> u64 option" where
  "interval_of F to_u64 interval_len t =
     to_u64 (f_div F (f_mul F (pkt_ts t) (f_of_int F 1000)) (f_of_int F (uint interval_len)))"

text \<open>The head of the loop, up to the first access to what is shared; \<open>c1\<close> is what \<^verbatim>\<open>now_us()\<close> returns.\<close>

definition fetch ::
  "'f float_ops \<Rightarrow> ('f \<Rightarrow> u64 option) \<Rightarrow> u64 \<Rightarrow> u64 \<Rightarrow> 'f main_state \<Rightarrow> 'f main_state result" where
  "fetch F to_u64 interval_len now m =
     (case ram_adapter_next (adapter m) of
        None \<Rightarrow> Inl Invalid_access
      | Some None \<Rightarrow> Inr (m\<lparr>m_t := (m_t m)\<lparr>t_flag := TUPLE_TERM\<rparr>, m_pc := Put_term\<rparr>)
      | Some (Some (t, a)) \<Rightarrow>
          (case interval_of F to_u64 interval_len t of
             None \<Rightarrow> Inl Invalid_access
           | Some ci \<Rightarrow>
               let m = m\<lparr>adapter := a, m_t := t, cur_interval := ci\<rparr>
               in if last_interval m = 0 then Inr (m\<lparr>last_interval := ci, m_pc := Put_tuple\<rparr>)
                  else if last_interval m < ci
                  then Inr (m\<lparr>m_used := m_used m + (now - start_ts m),
                              m_t := t\<lparr>t_flag := TUPLE_PUNC\<rparr>, m_pc := Put_punc\<rparr>)
                  else Inr (m\<lparr>m_pc := Put_tuple\<rparr>)))"

text \<open>A write of the tuple \<open>m_t\<close>; when it is accepted, the thread goes on at \<open>pc\<close>.\<close>

definition put_step :: "('f \<Rightarrow> u8 list) \<Rightarrow> main_pc \<Rightarrow> ('f, 'w) driver \<Rightarrow> ('f, 'w) driver result" where
  "put_step db pc d =
     (case write_ringbuffer (d_rb d) (tuple_image db (m_t (d_main d))) tuple_bytes of
        None \<Rightarrow> Inl Invalid_access
      | Some (r, rb) \<Rightarrow>
          Inr (d\<lparr>d_rb := rb, d_main := (if r < 0 then d_main d else (d_main d)\<lparr>m_pc := pc\<rparr>)\<rparr>))"

definition main_step ::
  "'f float_ops \<Rightarrow> ('f \<Rightarrow> u64 option) \<Rightarrow> ('f \<Rightarrow> u8 list) \<Rightarrow> u64 \<Rightarrow> u64 \<Rightarrow> ('f, 'w) driver \<Rightarrow>
     ('f, 'w) driver result" where
  "main_step F to_u64 db interval_len now d =
     (let m = d_main d
      in case m_pc m of
           Wait_ready \<Rightarrow>
             Inr (if d_sem d = 0 then d
                  else d\<lparr>d_sem := d_sem d - 1, d_main := m\<lparr>start_ts := now, m_pc := Fetch\<rparr>\<rparr>)
         | Fetch \<Rightarrow> map_sum id (\<lambda>m. d\<lparr>d_main := m\<rparr>) (fetch F to_u64 interval_len now m)
         | Put_punc \<Rightarrow> put_step db Flush_punc d
         | Flush_punc \<Rightarrow> Inr (d\<lparr>d_rb := flush_ringbuffer (d_rb d), d_main := m\<lparr>m_pc := Wait_punc\<rparr>\<rparr>)
         | Wait_punc \<Rightarrow>
             Inr (if d_sem d = 0 then d
                  else d\<lparr>d_sem := d_sem d - 1,
                         d_main := m\<lparr>m_t := (m_t m)\<lparr>t_flag := TUPLE_NORMAL\<rparr>,
                                     last_interval := cur_interval m, start_ts := now, m_pc := Put_tuple\<rparr>\<rparr>)
         | Put_tuple \<Rightarrow> put_step db Fetch d
         | Put_term \<Rightarrow> put_step db Flush_term d
         | Flush_term \<Rightarrow>
             Inr (d\<lparr>d_rb := flush_ringbuffer (d_rb d),
                    d_main := m\<lparr>m_used := m_used m + (now - start_ts m), m_pc := Join\<rparr>\<rparr>)
         | Join \<Rightarrow> Inr (if d_pc d = Handler_end then d\<lparr>d_main := m\<lparr>m_pc := Main_end\<rparr>\<rparr> else d)
         | Main_end \<Rightarrow> Inr d)"

section \<open>The handler thread\<close>

text \<open>
  \<open>handle w t\<close> gives the state of the handler after a tuple and where it goes on: at the \<^verbatim>\<open>sem_post\<close> after a
  punctuation, at the end after the last message, otherwise at the next read.
\<close>

definition handler_step ::
  "(u8 list \<Rightarrow> 'f) \<Rightarrow> ('w \<Rightarrow> 'f tuple_t \<Rightarrow> ('w \<times> handler_pc) result) \<Rightarrow> ('f, 'w) driver \<Rightarrow>
     ('f, 'w) driver result" where
  "handler_step bd handle d =
     (case d_pc d of
        Posting \<Rightarrow> Inr (d\<lparr>d_sem := d_sem d + 1, d_pc := Reading\<rparr>)
      | Reading \<Rightarrow>
          (case read_ringbuffer (d_rb d) of
             None \<Rightarrow> Inl Invalid_access
           | Some (r, None, rb) \<Rightarrow> Inr (d\<lparr>d_rb := rb\<rparr>)
           | Some (r, Some bs, rb) \<Rightarrow>
               (case handle (d_handler d) (image_tuple bd bs) of
                  Inl err \<Rightarrow> Inl err
                | Inr (w, pc) \<Rightarrow> Inr (d\<lparr>d_rb := rb, d_handler := w, d_pc := pc\<rparr>)))
      | Handler_end \<Rightarrow> Inr d)"

section \<open>Interleaving\<close>

text \<open>The state when the handler thread has been created: it is about to post the semaphore.\<close>

definition driver_init :: "'f float_ops \<Rightarrow> 'f ram_adapter \<Rightarrow> 'w \<Rightarrow> ('f, 'w) driver" where
  "driver_init F a w =
     \<lparr>d_main = \<lparr>m_pc = Wait_ready, adapter = a, m_t = zero_tuple F, last_interval = 0, cur_interval = 0,
                start_ts = 0, m_used = 0\<rparr>,
      d_rb = create_ringbuffer_shm tuple_bytes, d_sem = 0, d_pc = Posting, d_handler = w\<rparr>"

inductive driver_step ::
  "'f float_ops \<Rightarrow> ('f \<Rightarrow> u64 option) \<Rightarrow> ('f \<Rightarrow> u8 list) \<Rightarrow> (u8 list \<Rightarrow> 'f) \<Rightarrow> u64 \<Rightarrow>
     ('w \<Rightarrow> 'f tuple_t \<Rightarrow> ('w \<times> handler_pc) result) \<Rightarrow>
     ('f, 'w) driver result \<Rightarrow> ('f, 'w) driver result \<Rightarrow> bool"
  for F to_u64 db bd interval_len handle where
  main: "driver_step F to_u64 db bd interval_len handle (Inr d) (main_step F to_u64 db interval_len now d)"
| handler: "driver_step F to_u64 db bd interval_len handle (Inr d) (handler_step bd handle d)"

inductive_cases driver_stepE: "driver_step F to_u64 db bd interval_len handle (Inr d) x"

inductive driver_reachable ::
  "'f float_ops \<Rightarrow> ('f \<Rightarrow> u64 option) \<Rightarrow> ('f \<Rightarrow> u8 list) \<Rightarrow> (u8 list \<Rightarrow> 'f) \<Rightarrow> u64 \<Rightarrow>
     ('w \<Rightarrow> 'f tuple_t \<Rightarrow> ('w \<times> handler_pc) result) \<Rightarrow> ('f, 'w) driver \<Rightarrow> ('f, 'w) driver result \<Rightarrow> bool"
  for F to_u64 db bd interval_len handle d0 where
  start: "driver_reachable F to_u64 db bd interval_len handle d0 (Inr d0)"
| step: "driver_reachable F to_u64 db bd interval_len handle d0 d \<Longrightarrow>
    driver_step F to_u64 db bd interval_len handle d d' \<Longrightarrow>
    driver_reachable F to_u64 db bd interval_len handle d0 d'"

definition driver_done :: "('f, 'w) driver \<Rightarrow> bool" where
  "driver_done d \<longleftrightarrow> m_pc (d_main d) = Main_end \<and> d_pc d = Handler_end"

end
