(* ===== verification/Trace_Correct.thy ===== *)
theory Trace_Correct
  imports Trace
begin

text \<open>
  The preprocessor writes exactly the tuples of the valid packets, in order, and the statistics count
  every packet once.  The packets are those of the first file and of the following files up to the first
  one that is empty.
\<close>

section \<open>What is processed\<close>

definition processed :: "(string \<Rightarrow> capture list option) \<Rightarrow> dir_adapter \<Rightarrow> capture list" where
  "processed opn a =
     pcap a @ concat (takeWhile (\<lambda>cs. cs \<noteq> []) (map (\<lambda>n. the (opn n)) (drop (file_cur a + 1) (filename a))))"

definition pkt_length :: "capture \<Rightarrow> nat" where
  "pkt_length c = min (unat (caplen c)) MAX_CAPLEN"

definition buffer_of :: "u8 list \<Rightarrow> capture \<Rightarrow> u8 list" where
  "buffer_of stack c = take (pkt_length c) (cap_bytes c) @ drop (pkt_length c) stack"

definition status_of :: "bool \<Rightarrow> u8 list \<Rightarrow> capture \<Rightarrow> PACKET_STATUS" where
  "status_of ip_check stack c = status_spec ip_check (buffer_of stack c) (int (pkt_length c))"

fun records :: "'f float_ops \<Rightarrow> bool \<Rightarrow> (nat \<Rightarrow> u8 list) \<Rightarrow> nat \<Rightarrow> capture list \<Rightarrow> 'f tuple_t list" where
  "records F ip_check stacks i [] = []"
| "records F ip_check stacks i (c # cs) =
     (if status_of ip_check (stacks i) c = STATUS_VALID
      then [fields_spec (buffer_of (stacks i) c) (capture_ts F c) (zero_tuple F)] else []) @
     records F ip_check stacks (Suc i) cs"

definition capture_ok :: "capture \<Rightarrow> bool" where
  "capture_ok c \<longleftrightarrow> length (cap_bytes c) = unat (caplen c)"

definition files_ok :: "(string \<Rightarrow> capture list option) \<Rightarrow> dir_adapter \<Rightarrow> bool" where
  "files_ok opn a \<longleftrightarrow>
     file_num a = length (filename a) \<and> list_all capture_ok (pcap a) \<and>
     (\<forall>n \<in> set (filename a). \<exists>cs. opn n = Some cs \<and> list_all capture_ok cs)"

section \<open>Steps\<close>

lemma packet_buffer_spec:
  assumes "capture_ok c" and "length stack = MAX_CAPLEN"
  shows "packet_buffer stack c = Some (buffer_of stack c, of_nat (pkt_length c))"
    and "length (buffer_of stack c) = MAX_CAPLEN" and "pkt_length c \<le> MAX_CAPLEN"
proof -
  show le: "pkt_length c \<le> MAX_CAPLEN"
    by (simp add: pkt_length_def)
  have n: "(if unat (caplen c) < MAX_CAPLEN then unat (caplen c) else MAX_CAPLEN) = pkt_length c"
    by (simp add: pkt_length_def min_def)
  have "pkt_length c \<le> length (cap_bytes c)"
    using assms(1) by (simp add: capture_ok_def pkt_length_def)
  then show "packet_buffer stack c = Some (buffer_of stack c, of_nat (pkt_length c))"
    "length (buffer_of stack c) = MAX_CAPLEN"
    using le assms(2) by (simp_all add: packet_buffer_def n Let_def copy_out_def copy_in_def buffer_of_def)
qed

lemma next_capture_spec:
  assumes "files_ok opn a"
  shows "case processed opn a of
      [] \<Rightarrow> \<exists>a'. next_capture opn a = Inr (None, a')
    | c # cs \<Rightarrow> \<exists>a'. next_capture opn a = Inr (Some c, a') \<and> processed opn a' = cs \<and> files_ok opn a' \<and> capture_ok c"
proof (cases "pcap a")
  case (Cons c cs)
  then show ?thesis
    using assms by (simp add: processed_def next_capture_def files_ok_def)
next
  case Nil
  show ?thesis
  proof (cases "file_cur a + 1 < length (filename a)")
    case False
    then show ?thesis
      using Nil assms by (simp add: processed_def next_capture_def files_ok_def)
  next
    case True
    let ?f = "filename a ! (file_cur a + 1)"
    obtain cs where cs: "opn ?f = Some cs" "list_all capture_ok cs"
      using assms nth_mem [OF True] unfolding files_ok_def by blast
    have "drop (file_cur a + 1) (filename a) = ?f # drop (file_cur a + 2) (filename a)"
      using True by (metis Cons_nth_drop_Suc Suc_eq_plus1 add_2_eq_Suc')
    then have p: "processed opn a =
        (if cs = [] then [] else cs @ concat (takeWhile (\<lambda>cs. cs \<noteq> []) (map (\<lambda>n. the (opn n)) (drop (file_cur a + 2) (filename a)))))"
      using Nil cs(1) by (simp add: processed_def)
    show ?thesis
    proof (cases cs)
      case Nil2: Nil
      then show ?thesis
        using True Nil assms cs unfolding p by (simp add: next_capture_def files_ok_def Let_def)
    next
      case (Cons c cs')
      then show ?thesis
        using True Nil assms cs unfolding p by (simp add: next_capture_def files_ok_def Let_def) (simp add: processed_def)
    qed
  qed
qed

lemma fields_flag:
  assumes "t_flag t = 0"
  shows "fields_spec buf ts t = fields_spec buf ts (zero_tuple F)"
    and "t_flag (fields_spec buf ts t) = 0"
  using assms by (cases t, simp_all add: fields_spec_def zero_tuple_def Let_def)+

lemma adapter_next_spec:
  assumes "files_ok opn a" and "length stack = MAX_CAPLEN" and "processed opn a = c # cs"
  obtains a' where "dir_adapter_next F ip_check opn stack a t st =
      Inr (Some (status_of ip_check stack c), a',
           if status_of ip_check stack c = STATUS_VALID
           then fields_spec (buffer_of stack c) (capture_ts F c) t else t,
           count_status (of_nat (pkt_length c)) (cap_len c) (status_of ip_check stack c)
             (count_packet (of_nat (pkt_length c)) (cap_len c) (capture_ts F c) st))"
    and "processed opn a' = cs" and "files_ok opn a'"
proof -
  obtain a' where a': "next_capture opn a = Inr (Some c, a')" "processed opn a' = cs" "files_ok opn a'" "capture_ok c"
    using next_capture_spec [OF assms(1)] assms(3) by auto
  note b = packet_buffer_spec [OF a'(4) assms(2)]
  have "sint (of_nat (pkt_length c) :: u32) = int (pkt_length c)"
    using b(3) by (intro sint_of_nat_u32) (simp add: MAX_CAPLEN_def)
  moreover have "80 \<le> length (buffer_of stack c)"
    by (simp add: b(2) MAX_CAPLEN_def)
  ultimately show thesis
    using a' by (intro that [of a']) (simp_all add: dir_adapter_next_def b(1) decode_spec Let_def status_of_def)
qed

lemma valid_count_packet: "valid_pkt_cnt (count_packet n m ts st) = valid_pkt_cnt st"
  by (simp add: count_packet_def Let_def)

lemma valid_count_status:
  "valid_pkt_cnt (count_status n m status st) = valid_pkt_cnt st + (if status = STATUS_VALID then 1 else 0)"
  by (cases status) (simp_all add: count_status_def)

lemma loop_spec:
  assumes "files_ok opn a" and "\<And>i. length (stacks i) = MAX_CAPLEN" and "processed opn a = cs" and "t_flag t = 0"
  shows "\<exists>st'. preprocess_loop F ip_check opn stacks i a t st out =
      Inr (out @ records F ip_check stacks i cs, st') \<and>
    tot_pkt_cnt st' = tot_pkt_cnt st + of_nat (length cs) \<and>
    counted st' = counted st + of_nat (length cs) \<and>
    valid_pkt_cnt st' = valid_pkt_cnt st + of_nat (length (records F ip_check stacks i cs))"
  using assms(1,3,4)
proof (induction cs arbitrary: i a t st out)
  case Nil
  then obtain a' where "next_capture opn a = Inr (None, a')"
    using next_capture_spec [of opn a] by auto
  then show ?case
    by (simp add: preprocess_loop.simps [of F] dir_adapter_next_def)
next
  case (Cons c cs)
  let ?status = "status_of ip_check (stacks i) c"
  let ?t = "if ?status = STATUS_VALID then fields_spec (buffer_of (stacks i) c) (capture_ts F c) t else t"
  let ?st = "count_status (of_nat (pkt_length c)) (cap_len c) ?status
    (count_packet (of_nat (pkt_length c)) (cap_len c) (capture_ts F c) st)"
  let ?out = "if ?status \<noteq> STATUS_VALID then out else out @ [?t]"
  obtain a' where a': "dir_adapter_next F ip_check opn (stacks i) a t st = Inr (Some ?status, a', ?t, ?st)"
    "processed opn a' = cs" "files_ok opn a'"
    using adapter_next_spec [OF Cons.prems(1) assms(2) Cons.prems(2)] by metis
  have flag: "t_flag ?t = 0"
    using fields_flag(2) [OF Cons.prems(3)] Cons.prems(3) by simp
  have out: "?out @ records F ip_check stacks (Suc i) cs = out @ records F ip_check stacks i (c # cs)"
    using fields_flag(1) [OF Cons.prems(3), of _ _ F] by simp
  have step: "preprocess_loop F ip_check opn stacks i a t st out =
      preprocess_loop F ip_check opn stacks (Suc i) a' ?t ?st ?out"
    by (subst preprocess_loop.simps) (simp only: a'(1) sum.case prod.case option.case)
  have "?status \<noteq> STATUS_INIT"
    by (simp add: status_of_def status_spec_INIT)
  then show ?case
    using Cons.IH [OF a'(3,2) flag, of "Suc i" ?st ?out]
    unfolding step out
    by (elim exE conjE)
      (simp add: tot_count_status tot_count_packet counted_status counted_packet valid_count_status valid_count_packet)
qed

text \<open>
  Claim C30. The preprocessor on any list of capture files that can be opened returns: it writes the
  tuples of exactly the valid packets, in the order of the captures, with no memory access outside the
  1500-byte buffer, whatever that buffer held before; every packet is counted under exactly one status,
  and the valid ones are the records written.  Packets after the first empty file (other than the first
  file itself) are not read.
\<close>

theorem preprocess_correct:
  assumes "dir_adapter_init read_file opn dir pcap_list = Inr a" and "files_ok opn a"
    and "\<And>i. length (stacks i) = MAX_CAPLEN"
  shows "\<exists>st. preprocess F ip_check read_file opn stacks dir pcap_list (reset_stat F) =
      Inr (records F ip_check stacks 0 (processed opn a), st) \<and>
    tot_pkt_cnt st = of_nat (length (processed opn a)) \<and> counted st = tot_pkt_cnt st \<and>
    valid_pkt_cnt st = of_nat (length (records F ip_check stacks 0 (processed opn a)))"
proof -
  have "t_flag (zero_tuple F) = 0" "valid_pkt_cnt (reset_stat F) = 0"
    by (simp_all add: zero_tuple_def reset_stat_def)
  then show ?thesis
    using loop_spec [where stacks = stacks and i = 0 and t = "zero_tuple F" and st = "reset_stat F" and out = "[]",
        OF assms(2,3) refl, of F ip_check]
    by (auto simp: preprocess_def assms(1) counted_reset)
qed

text \<open>One file \<^verbatim>\<open>p\<close> with one UDP packet, listed in the file \<^verbatim>\<open>list\<close>.\<close>

definition small_capture :: capture where
  "small_capture =
     \<lparr>tv_sec = 1, tv_usec = 500000, caplen = 28, cap_len = 28,
      cap_bytes = ip_bytes small_header @ net16 53 @ net16 1024 @ [0, 8, 0, 0]\<rparr>"

definition small_open :: "string \<Rightarrow> capture list option" where
  "small_open name = (if name = ''p'' then Some [small_capture] else None)"

definition small_read :: "string \<Rightarrow> string option" where
  "small_read name = (if name = ''list'' then Some [CHR ''p'', newline_char] else None)"

definition small_adapter :: dir_adapter where
  "small_adapter = \<lparr>file_num = 1, file_cur = 0, filename = [''p''], pcap = [small_capture]\<rparr>"

lemma small_adapter_init: "dir_adapter_init small_read small_open None ''list'' = Inr small_adapter"
  by (simp add: dir_adapter_init_def strconcat_def small_read_def small_open_def small_adapter_def
      lines_of.simps fgets_def newline_char_def MAX_FILE_LEN_def MAX_FILE_def)

theorem preprocess_correct_witness:
  "\<exists>rs st. preprocess rat_ops True small_read small_open (\<lambda>_. replicate 1500 0) None ''list'' (reset_stat rat_ops) =
      Inr (rs, st) \<and> tot_pkt_cnt st = 1 \<and> counted st = 1"
proof -
  have "files_ok small_open small_adapter" "processed small_open small_adapter = [small_capture]"
    by (simp_all add: files_ok_def small_adapter_def small_open_def capture_ok_def small_capture_def processed_def
        ip_bytes_def net16_def small_header_def)
  then show ?thesis
    using preprocess_correct [OF small_adapter_init, of "\<lambda>_. replicate 1500 0" rat_ops True]
    by (fastforce simp: MAX_CAPLEN_def)
qed

section \<open>The record file in memory\<close>

fun ram_drain :: "nat \<Rightarrow> 'f ram_adapter \<Rightarrow> 'f tuple_t list option" where
  "ram_drain 0 a = None"
| "ram_drain (Suc n) a =
     (case ram_adapter_next a of
        None \<Rightarrow> None
      | Some None \<Rightarrow> Some []
      | Some (Some (t, a')) \<Rightarrow> map_option (Cons t) (ram_drain n a'))"

lemma load_records_take: "p \<le> b \<Longrightarrow> load_records rs p b = take ((b - p) div tuple_bytes) rs"
proof (induction rs p b rule: load_records.induct)
  case (2 r rs p b)
  have "(b - p) div tuple_bytes = Suc ((b - (p + tuple_bytes)) div tuple_bytes)" if "p + tuple_bytes \<le> b"
    using that by (simp add: tuple_bytes_def le_div_geq diff_diff_add)
  moreover have "(b - p) div tuple_bytes = 0" if "\<not> p + tuple_bytes \<le> b"
    using that 2(2) by (simp add: tuple_bytes_def)
  ultimately show ?case
    using 2 by auto
qed simp

lemma ram_drain_from:
  assumes "ram_ptr a = ram_cur a" and "ram_cnt a = length (trace_buf a)" and "ram_cur a \<le> ram_cnt a"
    and "ram_cnt a - ram_cur a < n"
  shows "ram_drain n a = Some (drop (ram_cur a) (trace_buf a))"
  using assms
proof (induction n arbitrary: a)
  case (Suc n)
  show ?case
  proof (cases "ram_cur a = ram_cnt a")
    case True
    then show ?thesis using Suc.prems by (simp add: ram_adapter_next_def)
  next
    case False
    then have "ram_cur a < length (trace_buf a)"
      using Suc.prems by linarith
    then have "drop (ram_cur a) (trace_buf a) = trace_buf a ! ram_cur a # drop (Suc (ram_cur a)) (trace_buf a)"
      by (simp add: Cons_nth_drop_Suc)
    then show ?thesis
      using Suc.prems False Suc.IH [of "a\<lparr>ram_cur := ram_cur a + 1, ram_ptr := ram_ptr a + 1\<rparr>"]
      by (simp add: ram_adapter_next_def Let_def)
  qed
qed simp

lemma ram_adapter_reads:
  assumes "ram_adapter_init (Some rs) buf_size = Inr a"
  shows "ram_drain (Suc (length rs)) a = Some (take (buf_size div tuple_bytes) rs)"
  using assms ram_drain_from [of a "Suc (length rs)"]
  by (auto simp: ram_adapter_init_def load_records_take Let_def simp del: ram_drain.simps)

end
