(* ===== verification/Driver_Correct.thy ===== *)
theory Driver_Correct
  imports Driver Trace_Correct "HOL-Library.Sublist"
begin

text \<open>
  Every interleaving of the two threads delivers the same messages to the handler.  The ring buffer is used
  through its interface \<open>flushed_channel\<close>; the locale \<open>handler_thread\<close> is what the driver relies on in a handler.  \<open>driver_inv\<close> relates a state to the messages
  sent and handled so far; every step keeps it, a step that does not repeat the state lowers
  \<open>driver_measure\<close>, and a state in which both threads repeat themselves is the final one.
\<close>

section \<open>The messages\<close>

fun messages :: "('f tuple_t \<Rightarrow> u64) \<Rightarrow> 'f tuple_t \<Rightarrow> u64 \<Rightarrow> 'f tuple_t list \<Rightarrow> 'f tuple_t list" where
  "messages iv t lst [] = [t\<lparr>t_flag := TUPLE_TERM\<rparr>]"
| "messages iv t lst (r # rs) =
     (if lst = 0 then r # messages iv r (iv r) rs
      else if lst < iv r
      then r\<lparr>t_flag := TUPLE_PUNC\<rparr> # r\<lparr>t_flag := TUPLE_NORMAL\<rparr> #
           messages iv (r\<lparr>t_flag := TUPLE_NORMAL\<rparr>) (iv r) rs
      else r # messages iv r lst rs)"

definition interval_no :: "'f float_ops \<Rightarrow> ('f \<Rightarrow> u64 option) \<Rightarrow> u64 \<Rightarrow> 'f tuple_t \<Rightarrow> u64" where
  "interval_no F to_u64 interval_len t = the (interval_of F to_u64 interval_len t)"

text \<open>A trace as the preprocessor writes it: no tuple carries a flag, and its time stamps can be converted.\<close>

definition trace_ok ::
  "'f float_ops \<Rightarrow> ('f \<Rightarrow> u64 option) \<Rightarrow> ('f \<Rightarrow> u8 list) \<Rightarrow> (u8 list \<Rightarrow> 'f) \<Rightarrow> u64 \<Rightarrow> 'f tuple_t list \<Rightarrow> bool" where
  "trace_ok F to_u64 db bd interval_len recs \<longleftrightarrow>
     has_image db bd (zero_tuple F) \<and>
     (\<forall>r \<in> set recs. has_image db bd r \<and> t_flag r = TUPLE_NORMAL \<and> interval_of F to_u64 interval_len r \<noteq> None)"

lemmas flag_defs = TUPLE_NORMAL_def TUPLE_PUNC_def TUPLE_TERM_def

lemma messages_image:
  assumes "has_image db bd t" and "\<forall>r \<in> set rs. has_image db bd r"
  shows "\<forall>x \<in> set (messages iv t lst rs). has_image db bd x"
  using assms by (induction iv t lst rs rule: messages.induct) auto

lemma messages_term:
  assumes "\<forall>r \<in> set rs. t_flag r = TUPLE_NORMAL"
  shows "\<exists>xs x. messages iv t lst rs = xs @ [x] \<and> t_flag x = TUPLE_TERM \<and> (\<forall>y \<in> set xs. t_flag y \<noteq> TUPLE_TERM)"
  using assms
proof (induction iv t lst rs rule: messages.induct)
  case (2 iv t lst r rs)
  have r: "t_flag r \<noteq> TUPLE_TERM"
    using 2 by (simp add: flag_defs)
  consider "lst = 0" | "lst \<noteq> 0" "lst < iv r" | "lst \<noteq> 0" "\<not> lst < iv r"
    by blast
  then show ?case
  proof cases
    case 1
    obtain xs x where "messages iv r (iv r) rs = xs @ [x]" "t_flag x = TUPLE_TERM" "\<forall>y \<in> set xs. t_flag y \<noteq> TUPLE_TERM"
      using 2 1 by auto
    then show ?thesis
      using 1 r by (intro exI [of _ "r # xs"] exI [of _ x]) simp
  next
    case 2
    obtain xs x where "messages iv (r\<lparr>t_flag := TUPLE_NORMAL\<rparr>) (iv r) rs = xs @ [x]" "t_flag x = TUPLE_TERM"
      "\<forall>y \<in> set xs. t_flag y \<noteq> TUPLE_TERM"
      using "2.IH" "2.prems" 2 by auto
    then show ?thesis
      using 2 r by (intro exI [of _ "r\<lparr>t_flag := TUPLE_PUNC\<rparr> # r\<lparr>t_flag := TUPLE_NORMAL\<rparr> # xs"] exI [of _ x])
        (simp add: flag_defs)
  next
    case 3
    obtain xs x where "messages iv r lst rs = xs @ [x]" "t_flag x = TUPLE_TERM" "\<forall>y \<in> set xs. t_flag y \<noteq> TUPLE_TERM"
      using 2 3 by auto
    then show ?thesis
      using 3 r by (intro exI [of _ "r # xs"] exI [of _ x]) simp
  qed
qed simp

section \<open>The records that are left\<close>

definition ram_ok :: "'f ram_adapter \<Rightarrow> bool" where
  "ram_ok a \<longleftrightarrow> ram_ptr a = ram_cur a \<and> ram_cnt a = length (trace_buf a) \<and> ram_cur a \<le> ram_cnt a"

definition ram_rest :: "'f ram_adapter \<Rightarrow> 'f tuple_t list" where
  "ram_rest a = drop (ram_cur a) (trace_buf a)"

lemma ram_next_end: "ram_ok a \<Longrightarrow> ram_rest a = [] \<Longrightarrow> ram_adapter_next a = Some None"
  by (simp add: ram_ok_def ram_rest_def ram_adapter_next_def)

lemma ram_next_record:
  assumes "ram_ok a" and "ram_rest a = t # ts"
  shows "\<exists>a'. ram_adapter_next a = Some (Some (t, a')) \<and> ram_ok a' \<and> ram_rest a' = ts"
proof -
  have less: "ram_cur a < length (trace_buf a)"
    using assms by (cases "ram_cur a < length (trace_buf a)") (simp_all add: ram_rest_def)
  then have "drop (ram_cur a) (trace_buf a) = trace_buf a ! ram_cur a # drop (Suc (ram_cur a)) (trace_buf a)"
    by (simp add: Cons_nth_drop_Suc)
  then show ?thesis
    using assms less by (auto simp: ram_ok_def ram_rest_def ram_adapter_next_def Let_def)
qed

lemma ram_init_ok:
  "ram_adapter_init (Some rs) buf_size = Inr a \<Longrightarrow>
     ram_ok a \<and> ram_rest a = take (buf_size div tuple_bytes) rs"
  by (auto simp: ram_adapter_init_def ram_ok_def ram_rest_def load_records_take Let_def)

section \<open>The invariant\<close>

text \<open>What the main thread has still to send.\<close>

definition main_rest :: "('f tuple_t \<Rightarrow> u64) \<Rightarrow> 'f main_state \<Rightarrow> 'f tuple_t list" where
  "main_rest iv m =
     (let t = m_t m; n = t\<lparr>t_flag := TUPLE_NORMAL\<rparr>; rs = ram_rest (adapter m);
          next_interval = n # messages iv n (cur_interval m) rs
      in case m_pc m of
           Put_punc \<Rightarrow> t # next_interval
         | Flush_punc \<Rightarrow> next_interval
         | Wait_punc \<Rightarrow> next_interval
         | Put_tuple \<Rightarrow> t # messages iv t (last_interval m) rs
         | Put_term \<Rightarrow> [t]
         | Flush_term \<Rightarrow> []
         | Join \<Rightarrow> []
         | Main_end \<Rightarrow> []
         | _ \<Rightarrow> messages iv t (last_interval m) rs)"

fun handle_all :: "('w \<Rightarrow> 'f tuple_t \<Rightarrow> ('w \<times> handler_pc) result) \<Rightarrow> 'w \<Rightarrow> 'f tuple_t list \<Rightarrow> 'w result" where
  "handle_all handle w [] = Inr w"
| "handle_all handle w (t # ts) =
     (case handle w t of Inl err \<Rightarrow> Inl err | Inr (w', pc) \<Rightarrow> handle_all handle w' ts)"

definition after_tuple :: "'f tuple_t \<Rightarrow> handler_pc" where
  "after_tuple t =
     (if t_flag t = TUPLE_TERM then Handler_end else if t_flag t = TUPLE_PUNC then Posting else Reading)"

definition puncs :: "'f tuple_t list \<Rightarrow> nat" where
  "puncs ts = length (filter (\<lambda>t. t_flag t = TUPLE_PUNC) ts)"

definition flag_inv :: "'f main_state \<Rightarrow> bool" where
  "flag_inv m \<longleftrightarrow>
     (m_pc m = Put_punc \<longrightarrow> t_flag (m_t m) = TUPLE_PUNC) \<and>
     (m_pc m = Put_tuple \<longrightarrow> t_flag (m_t m) = TUPLE_NORMAL) \<and>
     (m_pc m = Put_term \<longrightarrow> t_flag (m_t m) = TUPLE_TERM)"

text \<open>The semaphore: the punctuations that the handler has posted and the main thread has not yet waited for.\<close>

definition sem_inv :: "('f, 'w) driver \<Rightarrow> 'f tuple_t list \<Rightarrow> 'f tuple_t list \<Rightarrow> bool" where
  "sem_inv d ws rs \<longleftrightarrow>
     d_sem d + (if d_pc d = Posting then 1 else 0) + (if m_pc (d_main d) = Wait_ready then 0 else 1 + puncs ws) =
     1 + puncs rs + (if m_pc (d_main d) \<in> {Flush_punc, Wait_punc} then 1 else 0)"

definition pc_inv :: "handler_pc \<Rightarrow> 'f tuple_t list \<Rightarrow> bool" where
  "pc_inv pc rs \<longleftrightarrow>
     (if rs = [] then pc \<noteq> Handler_end
      else pc = after_tuple (last rs) \<or> after_tuple (last rs) = Posting \<and> pc = Reading)"

text \<open>\<open>ws\<close> has been sent and \<open>rs\<close> handled of the messages \<open>ms\<close>.\<close>

definition driver_inv ::
  "('f \<Rightarrow> u8 list) \<Rightarrow> ('f tuple_t \<Rightarrow> u64) \<Rightarrow> ('w \<Rightarrow> 'f tuple_t \<Rightarrow> ('w \<times> handler_pc) result) \<Rightarrow> 'f tuple_t list \<Rightarrow>
     'w \<Rightarrow> 'f tuple_t list \<Rightarrow> ('f, 'w) driver \<Rightarrow> 'f tuple_t list \<Rightarrow> 'f tuple_t list \<Rightarrow> bool" where
  "driver_inv db iv handle recs w ms d ws rs \<longleftrightarrow>
     rb_hist (d_rb d) (map (tuple_image db) ws) (map (tuple_image db) rs) \<and> tuple_size (d_rb d) = tuple_bytes \<and>
     prefix rs ws \<and> ws @ main_rest iv (d_main d) = ms \<and>
     ram_ok (adapter (d_main d)) \<and> set (ram_rest (adapter (d_main d))) \<subseteq> set recs \<and>
     handle_all handle w rs = Inr (d_handler d) \<and> flag_inv (d_main d) \<and> sem_inv d ws rs \<and> pc_inv (d_pc d) rs \<and>
     (m_pc (d_main d) \<in> {Wait_punc, Join, Main_end} \<longrightarrow> rb_published (d_rb d)) \<and>
     (m_pc (d_main d) = Main_end \<longrightarrow> d_pc d = Handler_end) \<and>
     (m_pc (d_main d) = Wait_ready \<longrightarrow> ws = [])"

fun pc_weight :: "main_pc \<Rightarrow> nat" where
  "pc_weight Wait_ready = 8"
| "pc_weight Fetch = 7"
| "pc_weight Put_punc = 6"
| "pc_weight Flush_punc = 5"
| "pc_weight Wait_punc = 4"
| "pc_weight Put_tuple = 3"
| "pc_weight Put_term = 3"
| "pc_weight Flush_term = 2"
| "pc_weight Join = 1"
| "pc_weight Main_end = 0"

definition driver_measure :: "('f tuple_t \<Rightarrow> u64) \<Rightarrow> ('f, 'w) driver \<Rightarrow> 'f tuple_t list \<Rightarrow> 'f tuple_t list \<Rightarrow> nat" where
  "driver_measure iv d ws rs =
     10 * length (main_rest iv (d_main d)) + 3 * (length ws - length rs) + pc_weight (m_pc (d_main d)) +
     (if d_pc d = Posting then 1 else 0)"

definition main_waits :: "('f \<Rightarrow> u8 list) \<Rightarrow> ('f, 'w) driver \<Rightarrow> bool" where
  "main_waits db d \<longleftrightarrow>
     (let m = d_main d
      in m_pc m \<in> {Wait_ready, Wait_punc} \<and> d_sem d = 0 \<or>
         m_pc m \<in> {Put_punc, Put_tuple, Put_term} \<and>
           write_ringbuffer (d_rb d) (tuple_image db (m_t m)) tuple_bytes = Some (-1, d_rb d) \<or>
         m_pc m = Join \<and> d_pc d \<noteq> Handler_end \<or> m_pc m = Main_end)"

definition handler_waits :: "('f, 'w) driver \<Rightarrow> bool" where
  "handler_waits d \<longleftrightarrow>
     d_pc d = Reading \<and> read_ringbuffer (d_rb d) = Some (-1, None, d_rb d) \<or> d_pc d = Handler_end"

lemma puncs_simps [simp]:
  "puncs [] = 0"
  "puncs (t # ts) = (if t_flag t = TUPLE_PUNC then 1 else 0) + puncs ts"
  "puncs (ts @ us) = puncs ts + puncs us"
  by (simp_all add: puncs_def)

lemma handle_all_snoc:
  "handle_all handle w ts = Inr w1 \<Longrightarrow> handle w1 t = Inr (w2, pc) \<Longrightarrow> handle_all handle w (ts @ [t]) = Inr w2"
  by (induction handle w ts rule: handle_all.induct) (auto split: sum.splits prod.splits)

lemma handle_all_prefix:
  "handle_all handle w (ts @ us) = Inr w' \<Longrightarrow> \<exists>w1. handle_all handle w ts = Inr w1 \<and> handle_all handle w1 us = Inr w'"
  by (induction handle w ts rule: handle_all.induct) (auto split: sum.splits prod.splits)

section \<open>Steps of the main thread\<close>

lemma driver_invD:
  assumes "driver_inv db iv handle recs w ms d ws rs"
  shows "rb_hist (d_rb d) (map (tuple_image db) ws) (map (tuple_image db) rs)" "tuple_size (d_rb d) = tuple_bytes"
    "prefix rs ws" "ws @ main_rest iv (d_main d) = ms"
    "ram_ok (adapter (d_main d))" "set (ram_rest (adapter (d_main d))) \<subseteq> set recs"
    "handle_all handle w rs = Inr (d_handler d)" "flag_inv (d_main d)" "sem_inv d ws rs" "pc_inv (d_pc d) rs"
    "m_pc (d_main d) \<in> {Wait_punc, Join, Main_end} \<Longrightarrow> rb_published (d_rb d)"
    "m_pc (d_main d) = Main_end \<Longrightarrow> d_pc d = Handler_end" "m_pc (d_main d) = Wait_ready \<Longrightarrow> ws = []"
  using assms by (auto simp: driver_inv_def)

lemma put_cases:
  assumes "driver_inv db iv handle recs w ms d ws rs" and "has_image db bd t"
  shows "write_ringbuffer (d_rb d) (tuple_image db t) tuple_bytes = Some (-1, d_rb d) \<or>
    (\<exists>rb. write_ringbuffer (d_rb d) (tuple_image db t) tuple_bytes = Some (0, rb) \<and> tuple_size rb = tuple_bytes \<and>
       rb_hist rb (map (tuple_image db) (ws @ [t])) (map (tuple_image db) rs))"
proof -
  have "rb_fits (d_rb d) (tuple_image db t)"
    using driver_invD(2) [OF assms(1)] length_tuple_image [OF assms(2)] by (simp add: rb_fits_def)
  from rb_put [OF driver_invD(1) [OF assms(1)] this] show ?thesis
    unfolding driver_invD(2) [OF assms(1)]
  proof (elim disjE exE conjE)
    fix rb
    assume a: "write_ringbuffer (d_rb d) (tuple_image db t) tuple_bytes = Some (0, rb)"
      "rb_hist rb (map (tuple_image db) ws @ [tuple_image db t]) (map (tuple_image db) rs)"
      "rb_fits rb = rb_fits (d_rb d)"
    have "tuple_size rb = tuple_bytes"
      using fun_cong [OF a(3), of "replicate tuple_bytes 0"] driver_invD(2) [OF assms(1)] by (simp add: rb_fits_def)
    then show ?thesis
      using a(1,2) by simp
  qed simp
qed

lemma put_step_inv:
  assumes inv: "driver_inv db iv handle recs w ms d ws rs"
    and image: "has_image db bd (m_t (d_main d))"
    and rest: "main_rest iv (d_main d) = m_t (d_main d) # main_rest iv ((d_main d)\<lparr>m_pc := pc\<rparr>)"
    and pc: "pc \<in> {Flush_punc, Fetch, Flush_term}" "m_pc (d_main d) \<in> {Put_punc, Put_tuple, Put_term}"
    and flag: "t_flag (m_t (d_main d)) = TUPLE_PUNC \<longleftrightarrow> pc = Flush_punc"
  shows "\<exists>d' ws'. put_step db pc d = Inr d' \<and> driver_inv db iv handle recs w ms d' ws' rs \<and>
    (if main_waits db d then d' = d \<and> ws' = ws else driver_measure iv d' ws' rs < driver_measure iv d ws rs)"
  using put_cases [OF inv image]
proof (elim disjE exE conjE)
  assume "write_ringbuffer (d_rb d) (tuple_image db (m_t (d_main d))) tuple_bytes = Some (-1, d_rb d)"
  then show ?thesis
    using inv pc(2) by (intro exI [of _ d] exI [of _ ws]) (auto simp: put_step_def main_waits_def Let_def)
next
  fix rb
  assume rb: "write_ringbuffer (d_rb d) (tuple_image db (m_t (d_main d))) tuple_bytes = Some (0, rb)"
    "tuple_size rb = tuple_bytes"
    "rb_hist rb (map (tuple_image db) (ws @ [m_t (d_main d)])) (map (tuple_image db) rs)"
  let ?d = "d\<lparr>d_rb := rb, d_main := (d_main d)\<lparr>m_pc := pc\<rparr>\<rparr>" and ?ws = "ws @ [m_t (d_main d)]"
  have "put_step db pc d = Inr ?d"
    using rb(1) by (simp add: put_step_def)
  moreover have "\<not> main_waits db d"
    using rb(1) pc(2) by (auto simp: main_waits_def Let_def)
  moreover have "driver_inv db iv handle recs w ms ?d ?ws rs"
    using driver_invD [OF inv] rb(2,3) rest pc flag by (auto simp: driver_inv_def flag_inv_def sem_inv_def)
  moreover have "length rs \<le> length ws"
    using driver_invD(3) [OF inv] by (simp add: prefix_length_le)
  then have "driver_measure iv ?d ?ws rs < driver_measure iv d ws rs"
    using rest pc by (auto simp: driver_measure_def)
  ultimately show ?thesis
    by auto
qed

lemma fetched_inv:
  assumes inv: "driver_inv db iv handle recs w ms d ws rs" and pc: "m_pc (d_main d) = Fetch"
    and m: "m_pc m \<in> {Put_punc, Put_tuple, Put_term}" "main_rest iv m = main_rest iv (d_main d)" "flag_inv m"
      "ram_ok (adapter m)" "set (ram_rest (adapter m)) \<subseteq> set recs"
  shows "driver_inv db iv handle recs w ms (d\<lparr>d_main := m\<rparr>) ws rs"
    "driver_measure iv (d\<lparr>d_main := m\<rparr>) ws rs < driver_measure iv d ws rs"
  using driver_invD [OF inv] pc m by (auto simp: driver_inv_def sem_inv_def driver_measure_def)

lemma fetch_inv:
  assumes inv: "driver_inv db (interval_no F to_u64 len) handle recs w ms d ws rs" and pc: "m_pc (d_main d) = Fetch"
    and "trace_ok F to_u64 db bd len recs"
  shows "\<exists>m. fetch F to_u64 len now (d_main d) = Inr m \<and>
    driver_inv db (interval_no F to_u64 len) handle recs w ms (d\<lparr>d_main := m\<rparr>) ws rs \<and>
    driver_measure (interval_no F to_u64 len) (d\<lparr>d_main := m\<rparr>) ws rs <
    driver_measure (interval_no F to_u64 len) d ws rs"
proof (cases "ram_rest (adapter (d_main d))")
  case Nil
  let ?m = "(d_main d)\<lparr>m_t := (m_t (d_main d))\<lparr>t_flag := TUPLE_TERM\<rparr>, m_pc := Put_term\<rparr>"
  have "fetch F to_u64 len now (d_main d) = Inr ?m"
    using ram_next_end [OF driver_invD(5) [OF inv] Nil] by (simp add: fetch_def)
  moreover have "main_rest (interval_no F to_u64 len) ?m = main_rest (interval_no F to_u64 len) (d_main d)"
    using Nil pc by (simp add: main_rest_def)
  ultimately show ?thesis
    using fetched_inv [OF inv pc, of ?m] driver_invD(5,6) [OF inv] by (simp add: flag_inv_def)
next
  case (Cons r rest)
  obtain a where a: "ram_adapter_next (adapter (d_main d)) = Some (Some (r, a))" "ram_ok a" "ram_rest a = rest"
    using ram_next_record [OF driver_invD(5) [OF inv] Cons] by blast
  have r: "r \<in> set recs" "set rest \<subseteq> set recs"
    using driver_invD(6) [OF inv] Cons by auto
  let ?iv = "interval_no F to_u64 len"
  have iv: "interval_of F to_u64 len r = Some (?iv r)" and normal: "t_flag r = TUPLE_NORMAL"
    using r(1) assms(3) by (auto simp: trace_ok_def interval_no_def)
  let ?m1 = "(d_main d)\<lparr>adapter := a, m_t := r, cur_interval := ?iv r\<rparr>"
  let ?m = "if last_interval (d_main d) = 0 then ?m1\<lparr>last_interval := ?iv r, m_pc := Put_tuple\<rparr>
    else if last_interval (d_main d) < ?iv r
    then ?m1\<lparr>m_used := m_used (d_main d) + (now - start_ts (d_main d)), m_t := r\<lparr>t_flag := TUPLE_PUNC\<rparr>, m_pc := Put_punc\<rparr>
    else ?m1\<lparr>m_pc := Put_tuple\<rparr>"
  have "fetch F to_u64 len now (d_main d) = Inr ?m"
    using a(1) iv by (simp add: fetch_def)
  moreover have "main_rest ?iv ?m = main_rest ?iv (d_main d)"
    using Cons pc a(3) by (simp add: main_rest_def Let_def)
  moreover have "flag_inv ?m"
    using normal by (simp add: flag_inv_def)
  ultimately show ?thesis
    using fetched_inv [OF inv pc, of ?m] a(2,3) r(2) by auto
qed

lemma main_rest_head:
  assumes "m_pc m \<in> {Put_punc, Put_tuple, Put_term}"
  shows "m_t m \<in> set (main_rest iv m)"
  using assms by (auto simp: main_rest_def Let_def)

text \<open>A step that changes the place of the main thread but sends nothing.\<close>

lemma quiet_inv:
  assumes inv: "driver_inv db iv handle recs w ms d ws rs"
    and d': "d_handler d' = d_handler d" "d_pc d' = d_pc d" "d_rb d' = d_rb d \<or> d_rb d' = flush_ringbuffer (d_rb d)"
    and rest: "main_rest iv (d_main d') = main_rest iv (d_main d)" "adapter (d_main d') = adapter (d_main d)"
    and m: "flag_inv (d_main d')" "sem_inv d' ws rs"
      "m_pc (d_main d') \<in> {Wait_punc, Join, Main_end} \<Longrightarrow> rb_published (d_rb d')"
      "m_pc (d_main d') = Main_end \<Longrightarrow> d_pc d' = Handler_end" "m_pc (d_main d') \<noteq> Wait_ready"
  shows "driver_inv db iv handle recs w ms d' ws rs"
proof -
  have "rb_hist (d_rb d') (map (tuple_image db) ws) (map (tuple_image db) rs)"
    using d'(3) driver_invD(1) [OF inv] rb_flush by metis
  moreover have "tuple_size (d_rb d') = tuple_bytes"
    using d'(3) driver_invD(2) [OF inv] by (auto simp: flush_ringbuffer_def Let_def)
  ultimately show ?thesis
    using driver_invD [OF inv] assms(2-) by (simp add: driver_inv_def)
qed

lemmas quiet_defs = main_step_def main_waits_def main_rest_def driver_measure_def sem_inv_def flag_inv_def Let_def

text \<open>What a step of the main thread does; in the first of these the messages sent stay the same.\<close>

definition quiet_step ::
  "'f float_ops \<Rightarrow> ('f \<Rightarrow> u64 option) \<Rightarrow> ('f \<Rightarrow> u8 list) \<Rightarrow> u64 \<Rightarrow>
     ('w \<Rightarrow> 'f tuple_t \<Rightarrow> ('w \<times> handler_pc) result) \<Rightarrow> 'f tuple_t list \<Rightarrow> 'w \<Rightarrow> 'f tuple_t list \<Rightarrow> u64 \<Rightarrow>
     ('f, 'w) driver \<Rightarrow> 'f tuple_t list \<Rightarrow> 'f tuple_t list \<Rightarrow> ('f, 'w) driver \<Rightarrow> bool" where
  "quiet_step F to_u64 db len handle recs w ms now d ws rs d' \<longleftrightarrow>
     main_step F to_u64 db len now d = Inr d' \<and> driver_inv db (interval_no F to_u64 len) handle recs w ms d' ws rs \<and>
     (if main_waits db d then d' = d
      else driver_measure (interval_no F to_u64 len) d' ws rs < driver_measure (interval_no F to_u64 len) d ws rs)"

lemma wait_steps:
  assumes inv: "driver_inv db (interval_no F to_u64 len) handle recs w ms d ws rs"
    and pc: "m_pc (d_main d) \<in> {Wait_ready, Wait_punc, Join, Main_end}"
  shows "\<exists>d'. quiet_step F to_u64 db len handle recs w ms now d ws rs d'"
proof -
  let ?m = "d_main d"
  note sem = driver_invD(9) [OF inv, unfolded sem_inv_def]
  consider "m_pc ?m = Wait_ready" | "m_pc ?m = Wait_punc" | "m_pc ?m = Join" | "m_pc ?m = Main_end"
    using pc by blast
  then show ?thesis
  proof cases
    case 1
    have "puncs ws = 0"
      using driver_invD(13) [OF inv 1] by simp
    then show ?thesis
      using 1 sem unfolding quiet_step_def
      by (intro exI [of _ "if d_sem d = 0 then d
          else d\<lparr>d_sem := d_sem d - 1, d_main := ?m\<lparr>start_ts := now, m_pc := Fetch\<rparr>\<rparr>"])
        (auto simp: quiet_defs intro!: inv quiet_inv [OF inv])
  next
    case 2
    then show ?thesis
      using sem unfolding quiet_step_def
      by (intro exI [of _ "if d_sem d = 0 then d
          else d\<lparr>d_sem := d_sem d - 1, d_main := ?m\<lparr>m_t := (m_t ?m)\<lparr>t_flag := TUPLE_NORMAL\<rparr>,
            last_interval := cur_interval ?m, start_ts := now, m_pc := Put_tuple\<rparr>\<rparr>"])
        (auto simp: quiet_defs intro!: inv quiet_inv [OF inv])
  next
    case 3
    then show ?thesis
      using sem driver_invD(11) [OF inv] unfolding quiet_step_def
      by (intro exI [of _ "if d_pc d = Handler_end then d\<lparr>d_main := ?m\<lparr>m_pc := Main_end\<rparr>\<rparr> else d"])
        (auto simp: quiet_defs intro!: inv quiet_inv [OF inv])
  next
    case 4
    then show ?thesis
      using inv unfolding quiet_step_def by (intro exI [of _ d]) (auto simp: main_step_def main_waits_def)
  qed
qed

lemma flush_steps:
  assumes inv: "driver_inv db (interval_no F to_u64 len) handle recs w ms d ws rs"
    and pc: "m_pc (d_main d) \<in> {Flush_punc, Flush_term}"
  shows "\<exists>d'. quiet_step F to_u64 db len handle recs w ms now d ws rs d'"
proof -
  let ?m = "d_main d"
  note sem = driver_invD(9) [OF inv, unfolded sem_inv_def]
  consider "m_pc ?m = Flush_punc" | "m_pc ?m = Flush_term"
    using pc by blast
  then show ?thesis
  proof cases
    case 1
    then show ?thesis
      using sem rbp.flush_published unfolding quiet_step_def
      by (intro exI [of _ "d\<lparr>d_rb := flush_ringbuffer (d_rb d), d_main := ?m\<lparr>m_pc := Wait_punc\<rparr>\<rparr>"])
        (auto simp: quiet_defs intro!: quiet_inv [OF inv])
  next
    case 2
    then show ?thesis
      using sem rbp.flush_published unfolding quiet_step_def
      by (intro exI [of _ "d\<lparr>d_rb := flush_ringbuffer (d_rb d),
          d_main := ?m\<lparr>m_used := m_used ?m + (now - start_ts ?m), m_pc := Join\<rparr>\<rparr>"])
        (auto simp: quiet_defs intro!: quiet_inv [OF inv])
  qed
qed

lemma put_steps:
  assumes inv: "driver_inv db (interval_no F to_u64 len) handle recs w ms d ws rs"
    and pc: "m_pc (d_main d) \<in> {Put_punc, Put_tuple, Put_term}" and ms: "\<forall>t \<in> set ms. has_image db bd t"
  shows "\<exists>d' ws'. main_step F to_u64 db len now d = Inr d' \<and>
    driver_inv db (interval_no F to_u64 len) handle recs w ms d' ws' rs \<and>
    (if main_waits db d then d' = d \<and> ws' = ws
     else driver_measure (interval_no F to_u64 len) d' ws' rs < driver_measure (interval_no F to_u64 len) d ws rs)"
proof -
  define pc' where
    "pc' = (case m_pc (d_main d) of Put_punc \<Rightarrow> Flush_punc | Put_tuple \<Rightarrow> Fetch | _ \<Rightarrow> Flush_term)"
  have "has_image db bd (m_t (d_main d))"
    using main_rest_head [OF pc, of "interval_no F to_u64 len"] driver_invD(4) [OF inv] ms by auto
  moreover have "main_rest (interval_no F to_u64 len) (d_main d) =
      m_t (d_main d) # main_rest (interval_no F to_u64 len) ((d_main d)\<lparr>m_pc := pc'\<rparr>)"
    using pc by (auto simp: main_rest_def pc'_def Let_def)
  moreover have "t_flag (m_t (d_main d)) = TUPLE_PUNC \<longleftrightarrow> pc' = Flush_punc"
    using pc driver_invD(8) [OF inv] by (auto simp: flag_inv_def pc'_def flag_defs)
  moreover have "pc' \<in> {Flush_punc, Fetch, Flush_term}" "main_step F to_u64 db len now d = put_step db pc' d"
    using pc by (auto simp: main_step_def pc'_def)
  ultimately show ?thesis
    using put_step_inv [OF inv _ _ _ pc, of bd pc'] by simp
qed

lemma main_step_inv:
  assumes inv: "driver_inv db (interval_no F to_u64 len) handle recs w ms d ws rs"
    and ok: "trace_ok F to_u64 db bd len recs" and ms: "\<forall>t \<in> set ms. has_image db bd t"
  shows "\<exists>d' ws'. main_step F to_u64 db len now d = Inr d' \<and>
    driver_inv db (interval_no F to_u64 len) handle recs w ms d' ws' rs \<and>
    (if main_waits db d then d' = d \<and> ws' = ws
     else driver_measure (interval_no F to_u64 len) d' ws' rs < driver_measure (interval_no F to_u64 len) d ws rs)"
proof -
  consider (put) "m_pc (d_main d) \<in> {Put_punc, Put_tuple, Put_term}" | (fetch) "m_pc (d_main d) = Fetch"
    | (quiet) "m_pc (d_main d) \<in> {Wait_ready, Wait_punc, Join, Main_end} \<or> m_pc (d_main d) \<in> {Flush_punc, Flush_term}"
    by (cases "m_pc (d_main d)") auto
  then show ?thesis
  proof cases
    case put
    then show ?thesis
      using put_steps [OF inv _ ms] by blast
  next
    case fetch
    then obtain m where "fetch F to_u64 len now (d_main d) = Inr m"
      "driver_inv db (interval_no F to_u64 len) handle recs w ms (d\<lparr>d_main := m\<rparr>) ws rs"
      "driver_measure (interval_no F to_u64 len) (d\<lparr>d_main := m\<rparr>) ws rs < driver_measure (interval_no F to_u64 len) d ws rs"
      using fetch_inv [OF inv _ ok] by blast
    then show ?thesis
      using fetch by (intro exI [of _ "d\<lparr>d_main := m\<rparr>"] exI [of _ ws]) (simp add: main_step_def main_waits_def)
  next
    case quiet
    then obtain d' where "quiet_step F to_u64 db len handle recs w ms now d ws rs d'"
      using wait_steps [OF inv] flush_steps [OF inv] by blast
    then show ?thesis
      unfolding quiet_step_def by (intro exI [of _ d'] exI [of _ ws]) auto
  qed
qed

section \<open>Steps of the handler thread\<close>

lemma next_unread:
  assumes "driver_inv db iv handle recs w ms d ws rs"
    and "rb_hist rb (map (tuple_image db) ws) (map (tuple_image db) rs @ [x])"
  shows "\<exists>t zs. ws = rs @ t # zs \<and> x = tuple_image db t"
proof -
  obtain zs where zs: "ws = rs @ zs"
    using driver_invD(3) [OF assms(1)] by (auto simp: prefix_def)
  obtain ys where "map (tuple_image db) ws = (map (tuple_image db) rs @ [x]) @ ys"
    using ringbuffer.hist_prefix [OF assms(2)] by blast
  then have "map (tuple_image db) zs = x # ys"
    by (simp add: zs)
  then show ?thesis
    using zs by (cases zs) auto
qed

lemma read_cases:
  assumes inv: "driver_inv db iv handle recs w ms d ws rs" and ms: "\<forall>t \<in> set ms. has_image db bd t"
  shows "read_ringbuffer (d_rb d) = Some (-1, None, d_rb d) \<or>
    (\<exists>bs rb t zs. read_ringbuffer (d_rb d) = Some (0, Some bs, rb) \<and> image_tuple bd bs = t \<and> ws = rs @ t # zs \<and>
       tuple_size rb = tuple_bytes \<and> rb_hist rb (map (tuple_image db) ws) (map (tuple_image db) (rs @ [t])) \<and>
       (rb_published (d_rb d) \<longrightarrow> rb_published rb))"
  using rb_get [OF driver_invD(1) [OF inv]]
proof (elim disjE exE conjE)
  fix x rb
  assume a: "read_ringbuffer (d_rb d) = Some (0, Some x, rb)" "rb_fits rb = rb_fits (d_rb d)"
    "rb_hist rb (map (tuple_image db) ws) (map (tuple_image db) rs @ [x])"
  obtain t zs where t: "ws = rs @ t # zs" "x = tuple_image db t"
    using next_unread [OF inv a(3)] by blast
  have "t \<in> set ms"
    using driver_invD(4) [OF inv] t(1) by auto
  then have "image_tuple bd x = t"
    using image_tuple_image ms t(2) by blast
  moreover have "tuple_size rb = tuple_bytes"
    using fun_cong [OF a(2), of "replicate tuple_bytes 0"] driver_invD(2) [OF inv] by (simp add: rb_fits_def)
  ultimately show ?thesis
    using a(1,3) t read_published [OF _ a(1)] by simp
qed simp

text \<open>What the driver relies on in a handler: where it goes on depends on the flag of the tuple.\<close>

locale handler_thread =
  fixes handle :: "'w \<Rightarrow> 'f tuple_t \<Rightarrow> ('w \<times> handler_pc) result"
  assumes handle_pc: "handle w t = Inr (w', pc) \<Longrightarrow> pc = after_tuple t"
begin

lemma handles_next:
  assumes "handle_all handle w ms = Inr w_end" and "ms = (rs @ [t]) @ zs" and "handle_all handle w rs = Inr w1"
  shows "\<exists>w2. handle w1 t = Inr (w2, after_tuple t) \<and> handle_all handle w (rs @ [t]) = Inr w2"
proof -
  obtain w2 where "handle_all handle w (rs @ [t]) = Inr w2"
    using handle_all_prefix assms(1,2) by metis
  moreover obtain w3 pc where h: "handle w1 t = Inr (w3, pc)"
    using handle_all_prefix [OF calculation] assms(3) by (auto split: sum.splits prod.splits)
  moreover have "handle_all handle w (rs @ [t]) = Inr w3"
    using handle_all_snoc [OF assms(3) h] .
  ultimately show ?thesis
    using handle_pc [OF h] by simp
qed

lemma handler_step_inv:
  assumes inv: "driver_inv db iv handle recs w ms d ws rs" and ms: "\<forall>t \<in> set ms. has_image db bd t"
    and ends: "handle_all handle w ms = Inr w_end"
  shows "\<exists>d' rs'. handler_step bd handle d = Inr d' \<and> driver_inv db iv handle recs w ms d' ws rs' \<and>
    (if handler_waits d then d' = d \<and> rs' = rs else driver_measure iv d' ws rs' < driver_measure iv d ws rs)"
proof (cases "d_pc d")
  case Posting
  then show ?thesis
    using driver_invD [OF inv]
    by (intro exI [of _ "d\<lparr>d_sem := d_sem d + 1, d_pc := Reading\<rparr>"] exI [of _ rs])
      (auto simp: handler_step_def handler_waits_def driver_inv_def sem_inv_def pc_inv_def driver_measure_def)
next
  case Handler_end
  then show ?thesis
    using inv by (intro exI [of _ d] exI [of _ rs]) (simp add: handler_step_def handler_waits_def)
next
  case Reading
  show ?thesis
    using read_cases [OF inv ms]
  proof (elim disjE exE conjE)
    assume "read_ringbuffer (d_rb d) = Some (-1, None, d_rb d)"
    then show ?thesis
      using inv Reading by (intro exI [of _ d] exI [of _ rs]) (simp add: handler_step_def handler_waits_def)
  next
    fix bs rb t zs
    assume r: "read_ringbuffer (d_rb d) = Some (0, Some bs, rb)" "image_tuple bd bs = t" "ws = rs @ t # zs"
      "tuple_size rb = tuple_bytes" "rb_hist rb (map (tuple_image db) ws) (map (tuple_image db) (rs @ [t]))"
      "rb_published (d_rb d) \<longrightarrow> rb_published rb"
    obtain w2 where w2: "handle (d_handler d) t = Inr (w2, after_tuple t)" "handle_all handle w (rs @ [t]) = Inr w2"
      using handles_next [OF ends _ driver_invD(7) [OF inv], of t "zs @ main_rest iv (d_main d)"]
        driver_invD(4) [OF inv] r(3) by auto
    let ?d = "d\<lparr>d_rb := rb, d_handler := w2, d_pc := after_tuple t\<rparr>"
    have "handler_step bd handle d = Inr ?d" "\<not> handler_waits d"
      using Reading r(1,2) w2(1) by (simp_all add: handler_step_def handler_waits_def)
    moreover have "sem_inv ?d ws (rs @ [t])"
      using driver_invD(9) [OF inv] Reading by (auto simp: sem_inv_def after_tuple_def flag_defs split: if_splits)
    then have "driver_inv db iv handle recs w ms ?d ws (rs @ [t])"
      using driver_invD(4-6,8,11-13) [OF inv] Reading r(3-6) w2(2) by (auto simp: driver_inv_def pc_inv_def)
    moreover have "driver_measure iv ?d ws (rs @ [t]) < driver_measure iv d ws rs"
      using r(3) Reading by (auto simp: driver_measure_def)
    ultimately show ?thesis
      by auto
  qed
qed

end

section \<open>Progress\<close>

lemma ended_all:
  assumes inv: "driver_inv db iv handle recs w ms d ws rs" and "d_pc d = Handler_end"
    and ms: "ms = xs @ [x]" "\<forall>y \<in> set xs. t_flag y \<noteq> TUPLE_TERM"
  shows "rs = ms" "ws = ms" "main_rest iv (d_main d) = []"
proof -
  have "rs \<noteq> []" "after_tuple (last rs) = Handler_end"
    using driver_invD(10) [OF inv] assms(2) by (auto simp: pc_inv_def split: if_splits)
  then have "\<not> prefix rs xs"
    using ms(2) by (auto simp: prefix_def after_tuple_def split: if_splits)
  moreover have "prefix rs (xs @ [x])"
    using prefix_prefix [OF driver_invD(3) [OF inv], of "main_rest iv (d_main d)"] driver_invD(4) [OF inv] ms(1) by simp
  ultimately show "rs = ms"
    using ms(1) by (simp add: prefix_snoc)
  then show "ws = ms" "main_rest iv (d_main d) = []"
    using driver_invD(3,4) [OF inv] by (auto simp: prefix_def)
qed

lemma published_read:
  assumes inv: "driver_inv db iv handle recs w ms d ws rs" and "rb_published (d_rb d)"
    and "read_ringbuffer (d_rb d) = Some (-1, None, d_rb d)"
  shows "rs = ws"
proof -
  have "map (tuple_image db) rs = map (tuple_image db) ws"
    using rb_published_empty [OF driver_invD(1) [OF inv] assms(2,3)] .
  then have "length rs = length ws"
    using map_eq_imp_length_eq by blast
  then show ?thesis
    using driver_invD(3) [OF inv] by (auto simp: prefix_def)
qed

lemma messages_not_Nil [simp]: "messages iv t l rs \<noteq> []"
  by (cases rs) auto

lemma main_rest_Nil: "main_rest iv m = [] \<longleftrightarrow> m_pc m \<in> {Flush_term, Join, Main_end}"
  by (cases "m_pc m") (simp_all add: main_rest_def Let_def)

lemma both_wait:
  assumes inv: "driver_inv db iv handle recs w ms d ws rs" and images: "\<forall>t \<in> set ms. has_image db bd t"
    and ms: "ms = xs @ [x]" "t_flag x = TUPLE_TERM" "\<forall>y \<in> set xs. t_flag y \<noteq> TUPLE_TERM"
    and waits: "main_waits db d" "handler_waits d"
  shows "driver_done d"
proof (cases "d_pc d = Handler_end")
  case True
  then have "m_pc (d_main d) \<in> {Flush_term, Join, Main_end}"
    using ended_all(3) [OF inv True ms(1,3)] by (simp add: main_rest_Nil)
  then show ?thesis
    using waits(1) True by (auto simp: main_waits_def driver_done_def Let_def)
next
  case False
  then have r: "d_pc d = Reading" "read_ringbuffer (d_rb d) = Some (-1, None, d_rb d)"
    using waits(2) by (auto simp: handler_waits_def)
  note sem = driver_invD(9) [OF inv, unfolded sem_inv_def] and published = published_read [OF inv _ r(2)]
  have put: False if pc: "m_pc (d_main d) \<in> {Put_punc, Put_tuple, Put_term}"
  proof -
    have "has_image db bd (m_t (d_main d))"
      using main_rest_head [OF pc, of iv] driver_invD(4) [OF inv] images by auto
    then have "rb_fits (d_rb d) (tuple_image db (m_t (d_main d)))"
      using driver_invD(2) [OF inv] length_tuple_image by (simp add: rb_fits_def)
    from rb_no_deadlock [OF driver_invD(1) [OF inv] this r(2)] show False
      using waits(1) pc driver_invD(2) [OF inv] by (auto simp: main_waits_def Let_def)
  qed
  have join: False if "m_pc (d_main d) = Join"
  proof -
    have "rs = ms"
      using published driver_invD(11) [OF inv] driver_invD(4) [OF inv] that by (simp add: main_rest_def)
    then show False
      using driver_invD(10) [OF inv] r(1) ms(1,2) by (simp add: pc_inv_def after_tuple_def)
  qed
  have "m_pc (d_main d) \<noteq> Wait_punc" if "d_sem d = 0"
    using sem r(1) published driver_invD(11) [OF inv] that by auto
  moreover have "m_pc (d_main d) \<noteq> Wait_ready" if "d_sem d = 0"
    using sem r(1) that by auto
  ultimately show ?thesis
    using waits(1) put join driver_invD(12) [OF inv] r(1) by (auto simp: main_waits_def Let_def)
qed

lemma driver_reachable_prepend:
  assumes "driver_step F to_u64 db bd len handle (Inr d) (Inr d1)"
    and "driver_reachable F to_u64 db bd len handle d1 x"
  shows "driver_reachable F to_u64 db bd len handle d x"
  using assms(2)
proof induction
  case start
  show ?case
    using driver_reachable.step [OF driver_reachable.start assms(1)] .
next
  case (step y z)
  then show ?case
    using driver_reachable.step by blast
qed

lemma driver_init_inv:
  assumes "ram_ok a" and "ram_rest a = recs"
  shows "driver_inv db iv handle recs w (messages iv (zero_tuple F) 0 recs) (driver_init F a w) [] []"
  using assms rb_create
  by (simp add: driver_inv_def driver_init_def main_rest_def flag_inv_def sem_inv_def pc_inv_def create_ringbuffer_shm_def)

text \<open>A run: the trace that is sent, and the state in which the handler ends when it gets the messages in order.\<close>

definition handled_trace ::
  "'f float_ops \<Rightarrow> ('f \<Rightarrow> u64 option) \<Rightarrow> ('f \<Rightarrow> u8 list) \<Rightarrow> (u8 list \<Rightarrow> 'f) \<Rightarrow> u64 \<Rightarrow>
     ('w \<Rightarrow> 'f tuple_t \<Rightarrow> ('w \<times> handler_pc) result) \<Rightarrow> 'f tuple_t list \<Rightarrow> 'w \<Rightarrow> 'w \<Rightarrow> bool" where
  "handled_trace F to_u64 db bd len handle recs w w_end \<longleftrightarrow>
     trace_ok F to_u64 db bd len recs \<and>
     handle_all handle w (messages (interval_no F to_u64 len) (zero_tuple F) 0 recs) = Inr w_end"

lemma handled_traceD:
  assumes "handled_trace F to_u64 db bd len handle recs w w_end"
  defines "ms \<equiv> messages (interval_no F to_u64 len) (zero_tuple F) 0 recs"
  shows "trace_ok F to_u64 db bd len recs" "handle_all handle w ms = Inr w_end" "\<forall>t \<in> set ms. has_image db bd t"
    "\<exists>xs x. ms = xs @ [x] \<and> t_flag x = TUPLE_TERM \<and> (\<forall>y \<in> set xs. t_flag y \<noteq> TUPLE_TERM)"
  using assms messages_image [of db bd "zero_tuple F" recs] messages_term [of recs]
  by (simp_all add: handled_trace_def trace_ok_def)

context handler_thread
begin

lemma driver_step_inv:
  fixes F :: "'f float_ops"
  assumes run: "handled_trace F to_u64 db bd len handle recs w w_end"
    and inv: "driver_inv db (interval_no F to_u64 len) handle recs w
      (messages (interval_no F to_u64 len) (zero_tuple F) 0 recs) d ws rs"
    and "driver_step F to_u64 db bd len handle (Inr d) x"
  shows "\<exists>d' ws' rs'. x = Inr d' \<and> driver_inv db (interval_no F to_u64 len) handle recs w
      (messages (interval_no F to_u64 len) (zero_tuple F) 0 recs) d' ws' rs'"
  using assms(3)
proof (elim driver_stepE)
  fix now
  assume "x = main_step F to_u64 db len now d"
  then show ?thesis
    using main_step_inv [OF inv handled_traceD(1,3) [OF run], of now] by fastforce
next
  assume "x = handler_step bd handle d"
  then show ?thesis
    using handler_step_inv [OF inv handled_traceD(3,2) [OF run]] by fastforce
qed

lemma reachable_inv:
  fixes F :: "'f float_ops"
  assumes run: "handled_trace F to_u64 db bd len handle recs w w_end"
    and a: "ram_ok a" "ram_rest a = recs"
    and "driver_reachable F to_u64 db bd len handle (driver_init F a w) x"
  shows "\<exists>d ws rs. x = Inr d \<and> driver_inv db (interval_no F to_u64 len) handle recs w
      (messages (interval_no F to_u64 len) (zero_tuple F) 0 recs) d ws rs"
  using assms(4)
proof induction
  case start
  show ?case
    using driver_init_inv [OF a] by (intro exI [of _ "driver_init F a w"] exI [of _ "[]"]) simp
next
  case (step x y)
  then show ?case
    using driver_step_inv [OF run] by blast
qed

lemma driver_completes:
  fixes F :: "'f float_ops"
  assumes run: "handled_trace F to_u64 db bd len handle recs w w_end"
    and "driver_inv db (interval_no F to_u64 len) handle recs w
      (messages (interval_no F to_u64 len) (zero_tuple F) 0 recs) d ws rs"
  shows "\<exists>d'. driver_reachable F to_u64 db bd len handle d (Inr d') \<and> driver_done d' \<and> d_handler d' = w_end"
  using assms(2)
proof (induction "driver_measure (interval_no F to_u64 len) d ws rs" arbitrary: d ws rs rule: less_induct)
  case less
  note inv = less.prems and ms = handled_traceD [OF run]
  have go: ?case if "driver_step F to_u64 db bd len handle (Inr d) (Inr d1)"
    "driver_inv db (interval_no F to_u64 len) handle recs w
      (messages (interval_no F to_u64 len) (zero_tuple F) 0 recs) d1 ws1 rs1"
    "driver_measure (interval_no F to_u64 len) d1 ws1 rs1 < driver_measure (interval_no F to_u64 len) d ws rs"
    for d1 ws1 rs1
    using less.hyps [OF that(3,2)] driver_reachable_prepend [OF that(1)] by blast
  show ?case
  proof (cases "main_waits db d")
    case False
    then show ?thesis
      using main_step_inv [OF inv ms(1,3), of 0] go driver_step.main [of F to_u64 db bd len handle d 0] by fastforce
  next
    case main: True
    show ?thesis
    proof (cases "handler_waits d")
      case False
      then show ?thesis
        using handler_step_inv [OF inv ms(3,2)] go driver_step.handler [of F to_u64 db bd len handle d] by fastforce
    next
      case True
      obtain xs x where x: "messages (interval_no F to_u64 len) (zero_tuple F) 0 recs = xs @ [x]"
        "t_flag x = TUPLE_TERM" "\<forall>y \<in> set xs. t_flag y \<noteq> TUPLE_TERM"
        using ms(4) by blast
      then have done_d: "driver_done d"
        using both_wait [OF inv ms(3) _ _ _ main True] by blast
      then have "rs = messages (interval_no F to_u64 len) (zero_tuple F) 0 recs"
        using ended_all(1) [OF inv _ x(1,3)] by (simp add: driver_done_def)
      then have "d_handler d = w_end"
        using driver_invD(7) [OF inv] ms(2) by simp
      then show ?thesis
        using done_d driver_reachable.start by blast
    qed
  qed
qed

text \<open>
  No interleaving fails or gets stuck, and when both threads have come to their end the handler has got the
  messages in order.
\<close>

lemma driver_correct:
  fixes F :: "'f float_ops"
  assumes run: "handled_trace F to_u64 db bd len handle recs w w_end"
    and a: "ram_adapter_init (Some file) buf_size = Inr a" "recs = take (buf_size div tuple_bytes) file"
    and x: "driver_reachable F to_u64 db bd len handle (driver_init F a w) x"
  shows "\<exists>d. x = Inr d \<and> (driver_done d \<longrightarrow> d_handler d = w_end) \<and>
    (\<exists>d'. driver_reachable F to_u64 db bd len handle d (Inr d') \<and> driver_done d' \<and> d_handler d' = w_end)"
proof -
  have "ram_ok a" "ram_rest a = recs"
    using ram_init_ok [OF a(1)] a(2) by auto
  then obtain d ws rs where d: "x = Inr d" and inv: "driver_inv db (interval_no F to_u64 len) handle recs w
      (messages (interval_no F to_u64 len) (zero_tuple F) 0 recs) d ws rs"
    using reachable_inv [OF run _ _ x] by blast
  have "d_handler d = w_end" if "driver_done d"
    using ended_all(1) [OF inv] handled_traceD(2,4) [OF run] driver_invD(7) [OF inv] that
    by (fastforce simp: driver_done_def)
  then show ?thesis
    using d driver_completes [OF run inv] by blast
qed

end

end
