(* ===== verification/Intervals.thy ===== *)
theory Intervals
  imports Driver_Correct
begin

text \<open>
  The loop of a handler thread over the tuples it gets: an update for every tuple of the trace, one action
  at a punctuation and one at the end (\<open>on_tuple\<close>).  Seen from the handler the messages of the main thread
  are \<open>segments\<close> of the trace; for a trace in the order of time, in which no packet belongs to interval 0, they
  are the packets of one interval each (\<open>segments_intervals\<close>).
\<close>

section \<open>The loop of a handler\<close>

definition on_tuple ::
  "('w \<Rightarrow> 'f tuple_t \<Rightarrow> 'w result) \<Rightarrow> ('w \<Rightarrow> 'w result) \<Rightarrow> ('w \<Rightarrow> 'w result) \<Rightarrow> 'w \<Rightarrow> 'f tuple_t \<Rightarrow>
     ('w \<times> handler_pc) result" where
  "on_tuple upd at_punc at_term w t =
     (if t_flag t = TUPLE_TERM then map_sum id (\<lambda>w. (w, Handler_end)) (at_term w)
      else if t_flag t = TUPLE_PUNC then map_sum id (\<lambda>w. (w, Posting)) (at_punc w)
      else map_sum id (\<lambda>w. (w, Reading)) (upd w t))"

interpretation tuple_loop: handler_thread "on_tuple upd at_punc at_term"
  for upd :: "'w \<Rightarrow> 'f tuple_t \<Rightarrow> 'w result" and at_punc at_term
  by unfold_locales (auto simp: on_tuple_def after_tuple_def map_sum_def split: if_splits sum.splits)

fun updates :: "('w \<Rightarrow> 'f tuple_t \<Rightarrow> 'w result) \<Rightarrow> 'w \<Rightarrow> 'f tuple_t list \<Rightarrow> 'w result" where
  "updates upd w [] = Inr w"
| "updates upd w (t # ts) = (case upd w t of Inl err \<Rightarrow> Inl err | Inr w' \<Rightarrow> updates upd w' ts)"

fun run_segments ::
  "('w \<Rightarrow> 'f tuple_t \<Rightarrow> 'w result) \<Rightarrow> ('w \<Rightarrow> 'w result) \<Rightarrow> ('w \<Rightarrow> 'w result) \<Rightarrow> 'w \<Rightarrow> 'f tuple_t list list \<Rightarrow> 'w result" where
  "run_segments upd at_punc at_term w [] = Inr w"
| "run_segments upd at_punc at_term w [s] = (case updates upd w s of Inl err \<Rightarrow> Inl err | Inr w \<Rightarrow> at_term w)"
| "run_segments upd at_punc at_term w (s # s' # ss) =
     (case updates upd w s of
        Inl err \<Rightarrow> Inl err
      | Inr w \<Rightarrow> (case at_punc w of Inl err \<Rightarrow> Inl err | Inr w \<Rightarrow> run_segments upd at_punc at_term w (s' # ss)))"

section \<open>Segments of a trace\<close>

fun push :: "'a \<Rightarrow> 'a list list \<Rightarrow> 'a list list" where
  "push r [] = [[r]]"
| "push r (s # ss) = (r # s) # ss"

fun segments :: "('a \<Rightarrow> u64) \<Rightarrow> u64 \<Rightarrow> 'a list \<Rightarrow> 'a list list" where
  "segments iv l [] = [[]]"
| "segments iv l (r # rs) =
     (if l = 0 then push r (segments iv (iv r) rs)
      else if l < iv r then [] # push r (segments iv (iv r) rs)
      else push r (segments iv l rs))"

lemma segments_Cons: "\<exists>s ss. segments iv l rs = s # ss"
proof (induction iv l rs rule: segments.induct)
  case (2 iv l r rs)
  then show ?case
    by (cases "segments iv (iv r) rs"; cases "segments iv l rs") auto
qed simp

lemma run_push:
  assumes "S = s # ss"
  shows "run_segments upd at_punc at_term w (push r S) =
    (case upd w r of Inl err \<Rightarrow> Inl err | Inr w' \<Rightarrow> run_segments upd at_punc at_term w' S)"
  using assms by (cases ss) (auto split: sum.splits)

lemma run_cut:
  assumes "S = s # ss"
  shows "run_segments upd at_punc at_term w ([] # S) =
    (case at_punc w of Inl err \<Rightarrow> Inl err | Inr w' \<Rightarrow> run_segments upd at_punc at_term w' S)"
  by (simp add: assms cong: sum.case_cong)

lemma on_tuple_normal:
  "t_flag t = TUPLE_NORMAL \<Longrightarrow> on_tuple upd at_punc at_term w t = map_sum id (\<lambda>w. (w, Reading)) (upd w t)"
  by (simp add: on_tuple_def flag_defs)

lemma on_tuple_punc:
  "on_tuple upd at_punc at_term w (t\<lparr>t_flag := TUPLE_PUNC\<rparr>) = map_sum id (\<lambda>w. (w, Posting)) (at_punc w)"
  by (simp add: on_tuple_def flag_defs)

lemma on_tuple_term:
  "on_tuple upd at_punc at_term w (t\<lparr>t_flag := TUPLE_TERM\<rparr>) = map_sum id (\<lambda>w. (w, Handler_end)) (at_term w)"
  by (simp add: on_tuple_def)

lemma handle_all_map_sum:
  "handle_all handle w (t # ts) =
     (case map_sum id fst (handle w t) of Inl err \<Rightarrow> Inl err | Inr w' \<Rightarrow> handle_all handle w' ts)"
  by (auto split: sum.splits)

lemma flag_same: "t_flag r = v \<Longrightarrow> r\<lparr>t_flag := v\<rparr> = r"
  by (cases r) simp

lemma push_Cons: "S = s # ss \<Longrightarrow> push r S = (r # s) # ss"
  by simp

lemma handle_messages:
  assumes "\<forall>r \<in> set rs. t_flag r = TUPLE_NORMAL"
  shows "handle_all (on_tuple upd at_punc at_term) w (messages iv t l rs) =
    run_segments upd at_punc at_term w (segments iv l rs)"
  using assms
proof (induction iv t l rs arbitrary: w rule: messages.induct)
  case (1 iv t l)
  show ?case
    by (cases "at_term w") (simp_all add: on_tuple_term)
next
  case (2 iv t l r rs)
  have r: "t_flag r = TUPLE_NORMAL" "r\<lparr>t_flag := TUPLE_NORMAL\<rparr> = r"
    using 2 flag_same by auto
  obtain s1 ss1 where s1: "segments iv (iv r) rs = s1 # ss1"
    using segments_Cons by blast
  obtain s2 ss2 where s2: "segments iv l rs = s2 # ss2"
    using segments_Cons by blast
  let ?H = "on_tuple upd at_punc at_term"
  have upd: "handle_all ?H w (r # ms) =
      (case upd w r of Inl err \<Rightarrow> Inl err | Inr w' \<Rightarrow> handle_all ?H w' ms)" for w ms
    by (simp add: on_tuple_normal [OF r(1)] map_sum_def split: sum.splits)
  have punc: "handle_all ?H w (r\<lparr>t_flag := TUPLE_PUNC\<rparr> # ms) =
      (case at_punc w of Inl err \<Rightarrow> Inl err | Inr w' \<Rightarrow> handle_all ?H w' ms)" for w ms
    by (simp add: on_tuple_punc map_sum_def split: sum.splits)
  note runs = upd punc run_push [OF s1] run_push [OF s2] run_cut [OF push_Cons [OF s1]]
  consider "l = 0" | "l \<noteq> 0" "l < iv r" | "l \<noteq> 0" "\<not> l < iv r"
    by blast
  then show ?case
  proof cases
    case 1
    then show ?thesis
      using 2 by (simp add: runs del: handle_all.simps cong: sum.case_cong)
  next
    case 2
    then show ?thesis
      using "2.IH"(2) "2.prems" by (simp add: runs r(2) del: handle_all.simps cong: sum.case_cong)
  next
    case 3
    then show ?thesis
      using 2 by (simp add: runs del: handle_all.simps cong: sum.case_cong)
  qed
qed

section \<open>Segments of a trace in order\<close>

lemma remdups_adj_sorted:
  "sorted (x # xs) \<Longrightarrow> \<exists>zs. remdups_adj (x # xs) = x # zs \<and> (\<forall>z \<in> set zs. x < z)" for x :: "'a :: linorder"
proof (induction xs arbitrary: x)
  case (Cons y ys)
  have "sorted (y # ys)"
    using Cons.prems by simp
  then obtain zs where "remdups_adj (y # ys) = y # zs" "\<forall>z \<in> set zs. y < z"
    using Cons.IH by blast
  then show ?case
    using Cons.prems by (cases "x = y") fastforce+
qed simp

definition in_interval :: "('a \<Rightarrow> u64) \<Rightarrow> 'a list \<Rightarrow> u64 \<Rightarrow> 'a list" where
  "in_interval iv rs i = filter (\<lambda>r. iv r = i) rs"

definition interval_list :: "('a \<Rightarrow> u64) \<Rightarrow> 'a list \<Rightarrow> u64 list" where
  "interval_list iv rs = remdups_adj (map iv rs)"

lemma push_intervals:
  assumes "sorted (iv r # map iv rs)"
  shows "push r (map (in_interval iv rs) (remdups_adj (iv r # map iv rs))) =
    map (in_interval iv (r # rs)) (remdups_adj (iv r # map iv rs))"
proof -
  obtain zs where "remdups_adj (iv r # map iv rs) = iv r # zs" "\<forall>z \<in> set zs. iv r < z"
    using remdups_adj_sorted [OF assms] by blast
  then show ?thesis
    by (auto simp: in_interval_def)
qed

lemma segments_sorted:
  assumes "sorted (l # map iv rs)" and "l \<noteq> 0"
  shows "segments iv l rs = map (in_interval iv rs) (remdups_adj (l # map iv rs))"
  using assms
proof (induction rs arbitrary: l)
  case (Cons r rs)
  show ?case
  proof (cases "l = iv r")
    case True
    then show ?thesis
      using Cons push_intervals [of iv r rs] by simp
  next
    case False
    then have less: "l < iv r" "iv r \<noteq> 0"
      using Cons.prems by auto
    then have "in_interval iv (r # rs) l = []"
      using Cons.prems by (auto simp: in_interval_def filter_empty_conv)
    then show ?thesis
      using Cons.IH [of "iv r"] Cons.prems less False push_intervals [of iv r rs] by simp
  qed
qed (simp add: in_interval_def)

lemma segments_intervals:
  assumes "sorted (map iv rs)" and "0 \<notin> iv ` set rs" and "rs \<noteq> []"
  shows "segments iv 0 rs = map (in_interval iv rs) (interval_list iv rs)"
proof (cases rs)
  case (Cons r rs')
  then show ?thesis
    using assms segments_sorted [of "iv r" iv rs'] push_intervals [of iv r rs'] by (simp add: interval_list_def)
qed (use assms in simp)

lemma distinct_remdups_adj: "sorted xs \<Longrightarrow> distinct (remdups_adj xs)" for xs :: "'a :: linorder list"
proof (induction xs rule: remdups_adj.induct)
  case (3 x y xs)
  then show ?case
    using remdups_adj_sorted [of y xs] by (cases "x = y") (fastforce simp: order_antisym_conv)+
qed simp_all

lemma length_interval_list:
  assumes "sorted (map iv rs)"
  shows "length (interval_list iv rs) \<le> 2 ^ 64"
proof -
  have "length (interval_list iv rs) = card (set (interval_list iv rs))"
    using distinct_remdups_adj [OF assms] by (simp only: interval_list_def distinct_card)
  also have "\<dots> \<le> CARD(u64)"
    by (intro card_mono) simp_all
  finally show ?thesis
    by (simp add: card_word)
qed

lemma in_interval_set: "set (in_interval iv rs i) = {r \<in> set rs. iv r = i}"
  by (auto simp: in_interval_def)

section \<open>Programs that write a file for every interval\<close>

text \<open>The numbers in the names of files.\<close>

lemma show_u64_inject: "show_nat (unat i) = show_nat (unat j) \<Longrightarrow> i = j" for i j :: u64
proof -
  assume "show_nat (unat i) = show_nat (unat j)"
  then have "unat i = unat j"
    using show_nat_digits by metis
  then show ?thesis
    by (simp add: word_unat_eq_iff)
qed

lemma length_show_u64: "length (show_nat (unat i)) \<le> 20" for i :: u64
proof -
  have "unat i < 2 ^ LENGTH(64)"
    by (rule unsigned_less)
  then show ?thesis
    using length_show_nat [of "unat i" 19] by simp
qed

text \<open>The keys and the sizes of tuples.\<close>

definition key_sizes :: "'f tuple_t list \<Rightarrow> (u8 list \<times> u32) list" where
  "key_sizes ts = map (\<lambda>t. (t_key t, t_size t)) ts"

text \<open>The files of the intervals from \<open>k\<close> on are written, those of the intervals before are left alone.\<close>

definition files_written ::
  "(u64 \<Rightarrow> string) \<Rightarrow> ('s \<Rightarrow> string \<Rightarrow> bool) \<Rightarrow> nat \<Rightarrow> 's list \<Rightarrow> (string \<Rightarrow> string option) \<Rightarrow> (string \<Rightarrow> string option) \<Rightarrow>
     bool" where
  "files_written path file_of k S files files' \<longleftrightarrow>
     (\<forall>j < length S. \<exists>c. files' (path (of_nat (k + j))) = Some c \<and> file_of (S ! j) c) \<and>
     (\<forall>i < k. files' (path (of_nat i)) = files (path (of_nat i)))"

text \<open>
  The interface of such a handler.  It starts an interval \<open>fresh\<close>; after the tuples of the interval it has
  \<open>counted\<close> them, and then the action at the end of the interval writes a file that describes them.
\<close>

locale interval_writer =
  fixes upd :: "'w \<Rightarrow> 'f tuple_t \<Rightarrow> 'w result" and at_punc at_term :: "'w \<Rightarrow> 'w result"
    and fresh :: "'w \<Rightarrow> bool" and counted :: "'w \<Rightarrow> 'f tuple_t list \<Rightarrow> bool"
    and fits :: "'f tuple_t list \<Rightarrow> bool" and file_of :: "'f tuple_t list \<Rightarrow> string \<Rightarrow> bool"
    and ivl :: "'w \<Rightarrow> u64" and files :: "'w \<Rightarrow> string \<Rightarrow> string option" and path :: "u64 \<Rightarrow> string"
  assumes path_inject: "path i = path j \<Longrightarrow> i = j"
    and fits_Nil: "fits []"
    and update_law: "fresh w \<Longrightarrow> fits ts \<Longrightarrow>
      \<exists>w'. updates upd w ts = Inr w' \<and> counted w' ts \<and> ivl w' = ivl w \<and> files w' = files w"
    and punc_law: "counted w ts \<Longrightarrow>
      \<exists>c w'. at_punc w = Inr w' \<and> file_of ts c \<and> files w' = (files w)(path (ivl w) \<mapsto> c) \<and> ivl w' = ivl w + 1 \<and> fresh w'"
    and term_law: "counted w ts \<Longrightarrow>
      \<exists>c w'. at_term w = Inr w' \<and> file_of ts c \<and> files w' = (files w)(path (ivl w) \<mapsto> c)"
begin

lemma other_path: "i < k \<Longrightarrow> k < 2 ^ 64 \<Longrightarrow> path (of_nat i) \<noteq> path (of_nat k)"
  using path_inject [of "of_nat i" "of_nat k"] by (auto simp: word_of_nat_eq_iff take_bit_nat_eq_self)

lemma written_last:
  "file_of s c \<Longrightarrow> k < 2 ^ 64 \<Longrightarrow> files_written path file_of k [s] fs (fs(path (of_nat k) \<mapsto> c))"
  using other_path [of _ k] by (simp add: files_written_def)

lemma written_Cons:
  assumes "file_of s c" and "k < 2 ^ 64" and "files_written path file_of (k + 1) S (fs(path (of_nat k) \<mapsto> c)) fs'"
  shows "files_written path file_of k (s # S) fs fs'"
  unfolding files_written_def
proof (intro conjI allI impI)
  fix j
  assume "j < length (s # S)"
  then show "\<exists>c. fs' (path (of_nat (k + j))) = Some c \<and> file_of ((s # S) ! j) c"
    using assms(1,3) by (cases j) (auto simp: files_written_def)
next
  fix i
  assume "i < k"
  then show "fs' (path (of_nat i)) = fs (path (of_nat i))"
    using assms(2,3) other_path [of i k] by (simp add: files_written_def)
qed

lemma run_written:
  assumes "fresh w" and "S \<noteq> []" and "\<forall>s \<in> set S. fits s" and "ivl w = of_nat k" and "k + length S \<le> 2 ^ 64"
  shows "\<exists>w'. run_segments upd at_punc at_term w S = Inr w' \<and> files_written path file_of k S (files w) (files w')"
  using assms
proof (induction S arbitrary: w k)
  case (Cons s S)
  have k: "k < 2 ^ 64"
    using Cons.prems(5) by simp
  obtain w1 where w1: "updates upd w s = Inr w1" "counted w1 s" "ivl w1 = of_nat k" "files w1 = files w"
    using update_law [OF Cons.prems(1), of s] Cons.prems(3,4) by auto
  show ?case
  proof (cases S)
    case Nil
    then show ?thesis
      using term_law [OF w1(2)] written_last [OF _ k] w1 by fastforce
  next
    case (Cons s' S')
    obtain c w2 where w2: "at_punc w1 = Inr w2" "file_of s c" "files w2 = (files w)(path (of_nat k) \<mapsto> c)"
      "ivl w2 = of_nat (k + 1)" "fresh w2"
      using punc_law [OF w1(2)] w1(3,4) by auto
    obtain w' where w': "run_segments upd at_punc at_term w2 S = Inr w'"
      "files_written path file_of (k + 1) S (files w2) (files w')"
      using Cons.IH [OF w2(5) _ _ w2(4)] Cons.prems(3,5) Cons by auto
    then show ?thesis
      using w1(1) w2(1) Cons written_Cons [OF w2(2) k] w2(3) by auto
  qed
qed simp

lemma trace_written:
  fixes F :: "'f float_ops"
  assumes "fresh w" and "ivl w = 0" and ok: "trace_ok F to_u64 db bd len recs"
    and iv: "sorted (map (interval_no F to_u64 len) recs)" "0 \<notin> interval_no F to_u64 len ` set recs"
    and fits: "\<forall>i. fits (in_interval (interval_no F to_u64 len) recs i)"
  shows "\<exists>w'. handled_trace F to_u64 db bd len (on_tuple upd at_punc at_term) recs w w' \<and>
    (\<forall>k < length (interval_list (interval_no F to_u64 len) recs). \<exists>c. files w' (path (of_nat k)) = Some c \<and>
       file_of (in_interval (interval_no F to_u64 len) recs (interval_list (interval_no F to_u64 len) recs ! k)) c)"
proof -
  let ?iv = "interval_no F to_u64 len" and ?S = "segments (interval_no F to_u64 len) 0 recs"
  have S: "?S = (if recs = [] then [[]] else map (in_interval ?iv recs) (interval_list ?iv recs))"
    using segments_intervals [OF iv] by simp
  have "?S \<noteq> []"
    using segments_Cons [of ?iv 0 recs] by auto
  moreover have "\<forall>s \<in> set ?S. fits s" "length ?S \<le> 2 ^ 64"
    using fits fits_Nil length_interval_list [OF iv(1)] unfolding S by auto
  ultimately obtain w' where w': "run_segments upd at_punc at_term w ?S = Inr w'"
    "files_written path file_of 0 ?S (files w) (files w')"
    using run_written [OF assms(1), of ?S 0] assms(2) by auto
  have "\<forall>r \<in> set recs. t_flag r = TUPLE_NORMAL"
    using ok by (simp add: trace_ok_def)
  then have "handled_trace F to_u64 db bd len (on_tuple upd at_punc at_term) recs w w'"
    using w'(1) ok by (simp add: handled_trace_def handle_messages)
  moreover have "\<exists>c. files w' (path (of_nat k)) = Some c \<and> file_of (in_interval ?iv recs (interval_list ?iv recs ! k)) c"
    if k: "k < length (interval_list ?iv recs)" for k
  proof -
    have "?S = map (in_interval ?iv recs) (interval_list ?iv recs)"
      using S k by (auto simp: interval_list_def)
    then show ?thesis
      using w'(2) k by (fastforce simp: files_written_def)
  qed
  ultimately show ?thesis
    by blast
qed

lemma driver_written:
  fixes F :: "'f float_ops"
  assumes "fresh w" and "ivl w = 0"
    and a: "ram_adapter_init (Some file) buf_size = Inr a" "recs = take (buf_size div tuple_bytes) file"
    and iv: "iv = interval_no F to_u64 len"
    and ok: "trace_ok F to_u64 db bd len recs" "sorted (map iv recs)" "0 \<notin> iv ` set recs" "\<forall>i. fits (in_interval iv recs i)"
    and x: "driver_reachable F to_u64 db bd len (on_tuple upd at_punc at_term) (driver_init F a w) x"
  shows "\<exists>d. x = Inr d \<and>
    (driver_done d \<longrightarrow> (\<forall>k < length (interval_list iv recs). \<exists>c. files (d_handler d) (path (of_nat k)) = Some c \<and>
       file_of (in_interval iv recs (interval_list iv recs ! k)) c)) \<and>
    (\<exists>d'. driver_reachable F to_u64 db bd len (on_tuple upd at_punc at_term) d (Inr d') \<and> driver_done d')"
proof -
  obtain w' where w': "handled_trace F to_u64 db bd len (on_tuple upd at_punc at_term) recs w w'"
    "\<forall>k < length (interval_list iv recs). \<exists>c. files w' (path (of_nat k)) = Some c \<and>
       file_of (in_interval iv recs (interval_list iv recs ! k)) c"
    using trace_written [OF assms(1,2) ok(1)] ok(2-) unfolding iv by blast
  show ?thesis
    using tuple_loop.driver_correct [OF w'(1) a x] w'(2) by blast
qed

end

section \<open>An example\<close>

text \<open>A trace of two packets of one flow, in intervals 1 and 2.\<close>

definition small_packet :: "rat \<Rightarrow> rat tuple_t" where
  "small_packet ts = \<lparr>t_key = replicate 13 7, t_size = 100, t_flag = 0, pkt_ts = ts\<rparr>"

definition rat_u64 :: "rat \<Rightarrow> u64 option" where
  "rat_u64 x = Some (of_int \<lfloor>x\<rfloor>)"

definition rat_bytes :: "rat \<Rightarrow> u8 list" where
  "rat_bytes x = of_int \<lfloor>x\<rfloor> # replicate 7 0"

definition bytes_rat :: "u8 list \<Rightarrow> rat" where
  "bytes_rat bs = of_int (uint (hd bs))"

lemma small_trace:
  fixes recs
  defines "recs \<equiv> [small_packet 1, small_packet 2]" and "iv \<equiv> interval_no rat_ops rat_u64 1000"
  shows "trace_ok rat_ops rat_u64 rat_bytes bytes_rat 1000 recs" "map iv recs = [1, 2]"
    "interval_list iv recs = [1, 2]" "in_interval iv recs 1 = [small_packet 1]" "in_interval iv recs 2 = [small_packet 2]"
proof -
  have iv: "interval_of rat_ops rat_u64 1000 (small_packet t) = Some (of_int \<lfloor>t\<rfloor>)" for t
    by (simp add: interval_of_def rat_u64_def rat_ops_def small_packet_def)
  then have "iv (small_packet t) = of_int \<lfloor>t\<rfloor>" for t
    by (simp add: iv_def interval_no_def)
  then show m: "map iv recs = [1, 2]" and "in_interval iv recs 1 = [small_packet 1]" "in_interval iv recs 2 = [small_packet 2]"
    by (simp_all add: recs_def in_interval_def)
  show "interval_list iv recs = [1, 2]"
    unfolding interval_list_def m by simp
  show "trace_ok rat_ops rat_u64 rat_bytes bytes_rat 1000 recs"
    using iv by (simp add: trace_ok_def recs_def has_image_def zero_tuple_def rat_bytes_def bytes_rat_def rat_ops_def
        small_packet_def flag_defs)
qed

end
