(* ===== verification/Flows.thy ===== *)
theory Flows
  imports Intervals
begin

text \<open>
  \<^verbatim>\<open>true_flows.c\<close>: the program that counts the true size of every flow.  Its handler thread keeps a key table,
  adds the size of every tuple to the flow of the tuple, and at the end of an interval prints the table to a
  file of the directory \<^verbatim>\<open>true_flows\<close> and resets it.  The files are a map from names to contents; a name that
  does not fit the local array \<^verbatim>\<open>tmp\<close>, or a file that cannot be opened, is undefined behaviour in the code.
\<close>

section \<open>The handler thread\<close>

record 'f flow_state =
  tbl_104 :: "'f key_tbl"
  cnt_pkt :: u64
  cnt_byte :: u64
  fl_interval :: u64
  min_pkt :: u64
  min_byte :: u64
  min_flow :: nat
  max_pkt :: u64
  max_byte :: u64
  max_flow :: nat
  fl_files :: "string \<Rightarrow> string option"

definition flow_init :: "'f key_tbl \<Rightarrow> (string \<Rightarrow> string option) \<Rightarrow> 'f flow_state" where
  "flow_init tbl files =
     \<lparr>tbl_104 = tbl, cnt_pkt = 0, cnt_byte = 0, fl_interval = 0, min_pkt = 0, min_byte = 0, min_flow = 0,
      max_pkt = 0, max_byte = 0, max_flow = 0, fl_files = files\<rparr>"

definition true_path :: "string \<Rightarrow> u64 \<Rightarrow> string" where
  "true_path dir i = dir @ ''/true_flows/true_'' @ show_nat (unat i)"

definition flow_output ::
  "(('f tuple_t \<Rightarrow> 'f tuple_t \<Rightarrow> int) \<Rightarrow> 'f tuple_t list \<Rightarrow> 'f tuple_t list) \<Rightarrow> (string \<Rightarrow> bool) \<Rightarrow> string \<Rightarrow>
     'f flow_state \<Rightarrow> 'f flow_state result" where
  "flow_output qsort writable dir st =
     (let tmp = true_path dir (fl_interval st)
      in if length tmp < 100 \<and> writable tmp
         then Inr (st\<lparr>fl_files := (fl_files st)(tmp \<mapsto> key_tbl_print qsort (tbl_104 st))\<rparr>)
         else Inl Invalid_access)"

definition flow_punc ::
  "'f float_ops \<Rightarrow> (('f tuple_t \<Rightarrow> 'f tuple_t \<Rightarrow> int) \<Rightarrow> 'f tuple_t list \<Rightarrow> 'f tuple_t list) \<Rightarrow> (string \<Rightarrow> bool) \<Rightarrow>
     string \<Rightarrow> bool \<Rightarrow> 'f flow_state \<Rightarrow> 'f flow_state result" where
  "flow_punc F qsort writable dir is_output st =
     (case if is_output
           then map_sum id (\<lambda>st. st\<lparr>fl_interval := fl_interval st + 1\<rparr>) (flow_output qsort writable dir st)
           else Inr st of
        Inl err \<Rightarrow> Inl err
      | Inr st \<Rightarrow>
          let st = st\<lparr>max_pkt := (if cnt_pkt st > max_pkt st then cnt_pkt st else max_pkt st),
                      max_byte := (if cnt_byte st > max_byte st then cnt_byte st else max_byte st),
                      max_flow := (if num_key (tbl_104 st) > max_flow st then num_key (tbl_104 st) else max_flow st)\<rparr>;
              st = st\<lparr>min_pkt := (if min_pkt st = 0 \<or> cnt_pkt st < min_pkt st then cnt_pkt st else min_pkt st),
                      min_byte := (if min_byte st = 0 \<or> cnt_byte st < min_byte st then cnt_byte st else min_byte st),
                      min_flow := (if min_flow st = 0 \<or> num_key (tbl_104 st) < min_flow st
                                   then num_key (tbl_104 st) else min_flow st)\<rparr>
          in Inr (st\<lparr>cnt_pkt := 0, cnt_byte := 0, tbl_104 := key_tbl_reset F (tbl_104 st)\<rparr>))"

definition flow_update :: "'f float_ops \<Rightarrow> 'f flow_state \<Rightarrow> 'f tuple_t \<Rightarrow> 'f flow_state result" where
  "flow_update F st t =
     (case record_add F (tbl_104 st) (t_key t) (t_size t) of
        Inl err \<Rightarrow> Inl err
      | Inr tbl \<Rightarrow> Inr (st\<lparr>tbl_104 := tbl, cnt_pkt := cnt_pkt st + 1, cnt_byte := cnt_byte st + scast (t_size t)\<rparr>))"

definition flow_term ::
  "(('f tuple_t \<Rightarrow> 'f tuple_t \<Rightarrow> int) \<Rightarrow> 'f tuple_t list \<Rightarrow> 'f tuple_t list) \<Rightarrow> (string \<Rightarrow> bool) \<Rightarrow> string \<Rightarrow> bool \<Rightarrow>
     'f flow_state \<Rightarrow> 'f flow_state result" where
  "flow_term qsort writable dir is_output st = (if is_output then flow_output qsort writable dir st else Inr st)"

definition flow_handle ::
  "'f float_ops \<Rightarrow> (('f tuple_t \<Rightarrow> 'f tuple_t \<Rightarrow> int) \<Rightarrow> 'f tuple_t list \<Rightarrow> 'f tuple_t list) \<Rightarrow> (string \<Rightarrow> bool) \<Rightarrow>
     string \<Rightarrow> bool \<Rightarrow> 'f flow_state \<Rightarrow> 'f tuple_t \<Rightarrow> ('f flow_state \<times> handler_pc) result" where
  "flow_handle F qsort writable dir is_output =
     on_tuple (flow_update F) (flow_punc F qsort writable dir is_output) (flow_term qsort writable dir is_output)"

text \<open>The start of the program, until the handler thread has been created.\<close>

definition true_flows_start ::
  "'f float_ops \<Rightarrow> (nat \<Rightarrow> u64) \<Rightarrow> seed_state \<Rightarrow> nat \<Rightarrow> 'f \<Rightarrow> 'f tuple_t list option \<Rightarrow> nat \<Rightarrow> (string \<Rightarrow> string option) \<Rightarrow>
     ('f, 'f flow_state) driver result" where
  "true_flows_start F rand g key_len timeout file buf_size files =
     (case ram_adapter_init file buf_size of
        Inl err \<Rightarrow> Inl err
      | Inr a \<Rightarrow>
          (case key_tbl_init F rand g key_len 10000 100 timeout of
             None \<Rightarrow> Inl Invalid_access
           | Some (tbl, _) \<Rightarrow> Inr (driver_init F a (flow_init tbl files))))"

section \<open>What is in a file\<close>

text \<open>One line for each flow, with the sum of the sizes of its tuples; \<open>n\<close> is the length of a key.\<close>

definition flow_file :: "nat \<Rightarrow> 'f tuple_t list \<Rightarrow> string \<Rightarrow> bool" where
  "flow_file n ts content \<longleftrightarrow>
     (\<exists>ls :: 'f tuple_t list. content = concat (map print_tuple ls) \<and> distinct (map (\<lambda>t. take n (t_key t)) ls) \<and>
        map_of (map (\<lambda>t. (take n (t_key t), t_size t)) ls) = summed Map.empty (norm_keys n (key_sizes ts)))"

lemma print_flow_file:
  fixes tbl :: "'f key_tbl" and ts :: "'f tuple_t list"
  assumes "kt_ok F tbl" and "permuting (qsort cmp)" and "kt_map tbl = summed Map.empty (norm_keys (kt_n tbl div 8) (key_sizes ts))"
  shows "flow_file (kt_n tbl div 8) ts (key_tbl_print qsort tbl)"
proof -
  let ?ls = "qsort cmp (key_tbl_get_all tbl)" and ?kv = "\<lambda>t. (take (kt_n tbl div 8) (t_key t), t_size t)"
  have ms: "mset (map ?kv ?ls) = mset (assoc tbl)"
    using assms(2) by (simp add: permuting_def assoc_def)
  have "mset (map fst (map ?kv ?ls)) = mset (map fst (assoc tbl))"
    using arg_cong [OF ms, of "image_mset fst"] by (simp only: mset_map)
  then have dist: "distinct (map fst (map ?kv ?ls))"
    using assoc_spec(1) [OF assms(1)] mset_eq_imp_distinct_iff by blast
  moreover have "map_of (map ?kv ?ls) = map_of (assoc tbl)"
    using map_of_inject_set [OF dist assoc_spec(1) [OF assms(1)]] mset_eq_setD [OF ms] by simp
  ultimately show ?thesis
    unfolding flow_file_def key_tbl_print_def
    using assoc_spec(2) [OF assms(1)] assms(3) by (intro exI [of _ ?ls]) (simp add: comp_def)
qed

section \<open>A segment\<close>

lemma flow_updates:
  assumes "adds (record_add F) (tbl_104 st) (key_sizes ts) = Inr tbl"
  shows "\<exists>p b. updates (flow_update F) st ts = Inr (st\<lparr>tbl_104 := tbl, cnt_pkt := p, cnt_byte := b\<rparr>)"
  using assms
proof (induction ts arbitrary: st)
  case Nil
  then show ?case
    by (intro exI [of _ "cnt_pkt st"] exI [of _ "cnt_byte st"]) (simp add: key_sizes_def)
next
  case (Cons t ts)
  obtain tbl1 where "record_add F (tbl_104 st) (t_key t) (t_size t) = Inr tbl1"
    "adds (record_add F) tbl1 (key_sizes ts) = Inr tbl"
    using Cons.prems by (auto simp: key_sizes_def split: sum.splits)
  then show ?case
    using Cons.IH [of "st\<lparr>tbl_104 := tbl1, cnt_pkt := cnt_pkt st + 1, cnt_byte := cnt_byte st + scast (t_size t)\<rparr>"]
    by (simp add: flow_update_def)
qed

text \<open>The state at the start of a segment: the table is empty.\<close>

definition fresh :: "'f float_ops \<Rightarrow> 'f key_tbl \<Rightarrow> 'f flow_state \<Rightarrow> bool" where
  "fresh F tbl st \<longleftrightarrow> kt_inv F tbl (tbl_104 st) \<and> kt_map (tbl_104 st) = Map.empty"

definition segment_fits :: "'f key_tbl \<Rightarrow> 'f tuple_t list \<Rightarrow> bool" where
  "segment_fits tbl ts \<longleftrightarrow>
     (\<forall>t \<in> set ts. kt_n tbl div 8 \<le> length (t_key t)) \<and>
     lists_fit (home tbl) (tbl_list_len tbl) ((\<lambda>t. take (kt_n tbl div 8) (t_key t)) ` set ts)"

lemma segment_counted:
  assumes "fresh F tbl st" and "segment_fits tbl ts"
  shows "\<exists>u p b. updates (flow_update F) st ts = Inr (st\<lparr>tbl_104 := u, cnt_pkt := p, cnt_byte := b\<rparr>) \<and>
    kt_inv F tbl u \<and> kt_map u = summed Map.empty (norm_keys (kt_n tbl div 8) (key_sizes ts))"
proof -
  have keys: "fst ` set (norm_keys (kt_n tbl div 8) (key_sizes ts)) = (\<lambda>t. take (kt_n tbl div 8) (t_key t)) ` set ts"
    by (simp add: key_sizes_def image_image)
  have "\<forall>u \<in> set (key_sizes ts). kt_n tbl div 8 \<le> length (fst u)"
    using assms(2) by (auto simp: segment_fits_def key_sizes_def)
  note spec = adds_empty [OF _ _ this, of F "tbl_104 st", unfolded keys]
  have total: "summed Map.empty (norm_keys (kt_n tbl div 8) (key_sizes ts)) =
      (\<lambda>k. if k \<in> (\<lambda>t. take (kt_n tbl div 8) (t_key t)) ` set ts
           then Some (key_total (norm_keys (kt_n tbl div 8) (key_sizes ts)) k) else None)"
    unfolding summed_def by (simp only: keys dom_empty Un_empty_left option.case add_0_left)
  have "\<exists>u. adds (record_add F) (tbl_104 st) (key_sizes ts) = Inr u \<and> kt_inv F tbl u \<and>
      kt_map u = summed Map.empty (norm_keys (kt_n tbl div 8) (key_sizes ts))"
    using spec assms by (simp add: fresh_def segment_fits_def total)
  then obtain u where u: "adds (record_add F) (tbl_104 st) (key_sizes ts) = Inr u" "kt_inv F tbl u"
    "kt_map u = summed Map.empty (norm_keys (kt_n tbl div 8) (key_sizes ts))"
    by blast
  then show ?thesis
    using flow_updates [OF u(1)] by blast
qed

section \<open>The interface\<close>

lemma true_path_inject: "true_path dir i = true_path dir j \<Longrightarrow> i = j"
  using show_u64_inject [of i j] by (simp add: true_path_def)

definition paths_ok :: "(string \<Rightarrow> bool) \<Rightarrow> string \<Rightarrow> bool" where
  "paths_ok writable dir \<longleftrightarrow> (\<forall>i. length (true_path dir i) < 100 \<and> writable (true_path dir i))"

definition flow_env ::
  "(('f tuple_t \<Rightarrow> 'f tuple_t \<Rightarrow> int) \<Rightarrow> 'f tuple_t list \<Rightarrow> 'f tuple_t list) \<Rightarrow> (string \<Rightarrow> bool) \<Rightarrow> string \<Rightarrow> bool" where
  "flow_env qsort writable dir \<longleftrightarrow> permuting (qsort cmp) \<and> paths_ok writable dir"

definition flow_fresh ::
  "'f float_ops \<Rightarrow> (('f tuple_t \<Rightarrow> 'f tuple_t \<Rightarrow> int) \<Rightarrow> 'f tuple_t list \<Rightarrow> 'f tuple_t list) \<Rightarrow> (string \<Rightarrow> bool) \<Rightarrow> string \<Rightarrow>
     'f key_tbl \<Rightarrow> 'f flow_state \<Rightarrow> bool" where
  "flow_fresh F qsort writable dir tbl st \<longleftrightarrow> flow_env qsort writable dir \<and> fresh F tbl st"

definition flow_counted ::
  "'f float_ops \<Rightarrow> (('f tuple_t \<Rightarrow> 'f tuple_t \<Rightarrow> int) \<Rightarrow> 'f tuple_t list \<Rightarrow> 'f tuple_t list) \<Rightarrow> (string \<Rightarrow> bool) \<Rightarrow> string \<Rightarrow>
     'f key_tbl \<Rightarrow> 'f flow_state \<Rightarrow> 'f tuple_t list \<Rightarrow> bool" where
  "flow_counted F qsort writable dir tbl st ts \<longleftrightarrow>
     flow_env qsort writable dir \<and> kt_inv F tbl (tbl_104 st) \<and>
     kt_map (tbl_104 st) = summed Map.empty (norm_keys (kt_n tbl div 8) (key_sizes ts))"

lemma flow_outputs:
  fixes tbl :: "'f key_tbl" and ts :: "'f tuple_t list"
  assumes "flow_counted F qsort writable dir tbl st ts"
  shows "\<exists>c. flow_output qsort writable dir st = Inr (st\<lparr>fl_files := (fl_files st)(true_path dir (fl_interval st) \<mapsto> c)\<rparr>) \<and>
    flow_file (kt_n tbl div 8) ts c"
proof -
  have "kt_ok F (tbl_104 st)" "kt_n (tbl_104 st) = kt_n tbl"
    using assms by (simp_all add: flow_counted_def kt_inv_def same_params_def)
  then have "flow_file (kt_n tbl div 8) ts (key_tbl_print qsort (tbl_104 st))"
    using print_flow_file [of F "tbl_104 st" qsort ts] assms by (simp add: flow_counted_def flow_env_def)
  then show ?thesis
    using assms by (auto simp: flow_output_def flow_counted_def flow_env_def paths_ok_def Let_def)
qed

lemma flow_cut:
  fixes tbl :: "'f key_tbl" and ts :: "'f tuple_t list"
  assumes counted: "flow_counted F qsort writable dir tbl st ts"
  shows "\<exists>c st'. flow_punc F qsort writable dir True st = Inr st' \<and> flow_file (kt_n tbl div 8) ts c \<and>
    fl_files st' = (fl_files st)(true_path dir (fl_interval st) \<mapsto> c) \<and> fl_interval st' = fl_interval st + 1 \<and>
    flow_fresh F qsort writable dir tbl st'"
proof -
  obtain c where c: "flow_file (kt_n tbl div 8) ts c"
    "flow_output qsort writable dir st = Inr (st\<lparr>fl_files := (fl_files st)(true_path dir (fl_interval st) \<mapsto> c)\<rparr>)"
    using flow_outputs [OF counted] by blast
  have ok: "kt_ok F (tbl_104 st)" "same_params tbl (tbl_104 st)" "float_consts F" "flow_env qsort writable dir"
    using counted by (simp_all add: flow_counted_def kt_inv_def)
  have "same_params tbl (key_tbl_reset F (tbl_104 st))"
    using ok(2) reset_ok(3) [OF ok(1)] by (simp add: same_params_def)
  then have "kt_inv F tbl (key_tbl_reset F (tbl_104 st)) \<and> kt_map (key_tbl_reset F (tbl_104 st)) = Map.empty"
    using reset_ok(1,2) [OF ok(1)] ok(3) by (simp add: kt_inv_def)
  then show ?thesis
    using c(1) ok(4) by (intro exI [of _ c]) (simp add: flow_punc_def c(2) flow_fresh_def fresh_def Let_def)
qed

interpretation flows: interval_writer "flow_update F" "flow_punc F qsort writable dir True"
  "flow_term qsort writable dir True" "flow_fresh F qsort writable dir tbl" "flow_counted F qsort writable dir tbl"
  "segment_fits tbl" "flow_file (kt_n tbl div 8)" fl_interval fl_files "true_path dir"
  for F qsort writable dir tbl
proof unfold_locales
  show "segment_fits tbl []"
    by (simp add: segment_fits_def lists_fit_def)
  show "\<exists>w'. updates (flow_update F) st ts = Inr w' \<and> flow_counted F qsort writable dir tbl w' ts \<and>
      fl_interval w' = fl_interval st \<and> fl_files w' = fl_files st"
    if "flow_fresh F qsort writable dir tbl st" "segment_fits tbl ts" for st ts
    using segment_counted [of F tbl st ts] that by (fastforce simp: flow_fresh_def flow_counted_def)
  show "\<exists>c w'. flow_punc F qsort writable dir True st = Inr w' \<and> flow_file (kt_n tbl div 8) ts c \<and>
      fl_files w' = (fl_files st)(true_path dir (fl_interval st) \<mapsto> c) \<and> fl_interval w' = fl_interval st + 1 \<and>
      flow_fresh F qsort writable dir tbl w'"
    if "flow_counted F qsort writable dir tbl st ts" for st ts
    using that by (rule flow_cut)
  show "\<exists>c w'. flow_term qsort writable dir True st = Inr w' \<and> flow_file (kt_n tbl div 8) ts c \<and>
      fl_files w' = (fl_files st)(true_path dir (fl_interval st) \<mapsto> c)"
    if "flow_counted F qsort writable dir tbl st ts" for st ts
    using flow_outputs [OF that] by (auto simp: flow_term_def)
qed (fact true_path_inject)

section \<open>The files of the program\<close>

lemma true_flows_init:
  assumes "float_consts F" and "key_len div 8 \<le> 13"
    and "true_flows_start F rand g key_len (f_of_int F (-1)) (Some file) buf_size files = Inr d0"
  shows "\<exists>a tbl. ram_adapter_init (Some file) buf_size = Inr a \<and> d0 = driver_init F a (flow_init tbl files) \<and>
    fresh F tbl (flow_init tbl files) \<and> kt_n tbl = key_len \<and> tbl_list_len tbl = 100"
proof -
  obtain tbl g' where tbl: "key_tbl_init F rand g key_len 10000 100 (f_of_int F (-1)) = Some (tbl, g')"
    "kt_ok F tbl" "kt_map tbl = Map.empty" "kt_n tbl = key_len" "tbl_list_len tbl = 100"
    using init_ok [of 10000 key_len F rand g 100] assms(2) by (auto simp: INT_MAX_def)
  then show ?thesis
    using assms(1,3) by (auto simp: true_flows_start_def fresh_def flow_init_def kt_inv_def split: sum.splits)
qed

text \<open>
  Claim C4. \<^verbatim>\<open>true_flows\<close> counts the flows of every interval.  Take a trace in the order of time whose packets
  belong to intervals other than 0, such that no list of the key table gets more than 100 flows in one
  interval, a table that never times out, keys of at most 13 bytes, and paths of the files that are short enough for the
  buffer of the program and can be written.  Then under every interleaving of the two threads no access is invalid and the program does not
  exit; from every state both threads can come to their end; and when they have, the file \<^verbatim>\<open>true_<k>\<close> of the
  k-th interval of the trace has one line for each flow with a packet in that interval, with the sum of the
  sizes of its packets there (modulo 2 to the 32).
\<close>

theorem true_flows_files:
  fixes F :: "'f float_ops" and qsort :: "('f tuple_t \<Rightarrow> 'f tuple_t \<Rightarrow> int) \<Rightarrow> 'f tuple_t list \<Rightarrow> 'f tuple_t list"
  assumes "permuting (qsort cmp)" and "float_consts F" and "paths_ok writable dir" and "key_len div 8 \<le> 13"
    and start: "true_flows_start F rand g key_len (f_of_int F (-1)) (Some file) buf_size files = Inr d0"
    and recs: "recs = take (buf_size div tuple_bytes) file" and ok: "trace_ok F to_u64 db bd len recs"
    and iv: "iv = interval_no F to_u64 len" "sorted (map iv recs)" "0 \<notin> iv ` set recs"
    and fits: "\<forall>i. lists_fit (home (tbl_104 (d_handler d0))) 100
      ((\<lambda>t. take (key_len div 8) (t_key t)) ` set (in_interval iv recs i))"
    and x: "driver_reachable F to_u64 db bd len (flow_handle F qsort writable dir True) d0 x"
  shows "\<exists>d. x = Inr d \<and>
    (driver_done d \<longrightarrow> (\<forall>k < length (interval_list iv recs). \<exists>content.
       fl_files (d_handler d) (true_path dir (of_nat k)) = Some content \<and>
       flow_file (key_len div 8) (in_interval iv recs (interval_list iv recs ! k)) content)) \<and>
    (\<exists>d'. driver_reachable F to_u64 db bd len (flow_handle F qsort writable dir True) d (Inr d') \<and> driver_done d')"
proof -
  obtain a tbl where a: "ram_adapter_init (Some file) buf_size = Inr a" "d0 = driver_init F a (flow_init tbl files)"
    and tbl: "fresh F tbl (flow_init tbl files)" "kt_n tbl = key_len" "tbl_list_len tbl = 100"
    using true_flows_init [OF assms(2,4) start] by blast
  have init: "flow_fresh F qsort writable dir tbl (flow_init tbl files)" "fl_interval (flow_init tbl files) = 0"
    using tbl(1) assms(1,3) by (simp_all add: flow_fresh_def flow_env_def flow_init_def)
  have "\<forall>i. segment_fits tbl (in_interval iv recs i)"
    using fits ok assms(4) a(2) tbl(2,3)
    by (auto simp: segment_fits_def driver_init_def flow_init_def in_interval_set trace_ok_def has_image_def)
  from flows.driver_written [OF init a(1) recs iv(1) ok iv(2,3) this x [unfolded a(2) flow_handle_def]] show ?thesis
    unfolding tbl(2) flow_handle_def .
qed

lemma paths_ok_short: "length dir \<le> 60 \<Longrightarrow> \<forall>p. writable p \<Longrightarrow> paths_ok writable dir"
proof -
  assume dir: "length dir \<le> 60" "\<forall>p. writable p"
  have "length (true_path dir i) < 100" for i
    using dir(1) add_mono [OF dir(1) length_show_u64 [of i]] by (simp add: true_path_def)
  then show ?thesis
    using dir(2) by (simp add: paths_ok_def)
qed

lemma small_fits:
  assumes "finite (K :: 'k set)" and "card K \<le> c"
  shows "lists_fit h c K"
  unfolding lists_fit_def
proof
  fix k
  have "card {k' \<in> K. h k' = h k} \<le> card K"
    using assms(1) by (intro card_mono) simp_all
  then show "card {k' \<in> K. h k' = h k} \<le> c"
    using assms(2) by (rule order_trans)
qed

theorem true_flows_files_witness:
  "\<exists>d0 d c1 c2.
    true_flows_start rat_ops of_nat \<lparr>seed = 0, drawn = 0\<rparr> 104 (-1) (Some [small_packet 1, small_packet 2]) 52 Map.empty =
      Inr d0 \<and>
    driver_reachable rat_ops rat_u64 rat_bytes bytes_rat 1000
      (flow_handle rat_ops (\<lambda>_ xs. xs) (\<lambda>_. True) ''d'' True) d0 (Inr d) \<and> driver_done d \<and>
    fl_files (d_handler d) (true_path ''d'' 0) = Some c1 \<and> flow_file 13 [small_packet 1] c1 \<and>
    fl_files (d_handler d) (true_path ''d'' 1) = Some c2 \<and> flow_file 13 [small_packet 2] c2"
proof -
  let ?recs = "[small_packet 1, small_packet 2]" and ?iv = "interval_no rat_ops rat_u64 1000"
  let ?handle = "flow_handle rat_ops (\<lambda>_ xs. xs) (\<lambda>_. True) ''d'' True"
  obtain tbl g where "key_tbl_init rat_ops of_nat \<lparr>seed = 0, drawn = 0\<rparr> 104 10000 100 (f_of_int rat_ops (-1)) = Some (tbl, g)"
    using init_ok [of 10000 104 rat_ops of_nat "\<lparr>seed = 0, drawn = 0\<rparr>" 100] by (auto simp: INT_MAX_def)
  then obtain d0 where d0: "true_flows_start rat_ops of_nat \<lparr>seed = 0, drawn = 0\<rparr> 104 (f_of_int rat_ops (-1))
      (Some ?recs) 52 Map.empty = Inr d0"
    by (simp add: true_flows_start_def ram_adapter_init_def Let_def)
  have fits: "\<forall>i. lists_fit (home (tbl_104 (d_handler d0))) 100
      ((\<lambda>t. take (104 div 8) (t_key t)) ` set (in_interval ?iv ?recs i))"
  proof
    fix i
    have "card ((\<lambda>t. take (104 div 8) (t_key t)) ` set (in_interval ?iv ?recs i)) \<le> length (in_interval ?iv ?recs i)"
      using card_image_le card_length order_trans by blast
    also have "\<dots> \<le> 100"
      by (simp add: in_interval_def)
    finally show "lists_fit (home (tbl_104 (d_handler d0))) 100
        ((\<lambda>t. take (104 div 8) (t_key t)) ` set (in_interval ?iv ?recs i))"
      by (intro small_fits) simp_all
  qed
  have "permuting ((\<lambda>_ xs. xs) cmp :: rat tuple_t list \<Rightarrow> rat tuple_t list)" "paths_ok (\<lambda>_. True) ''d''"
    "sorted (map ?iv ?recs)" "0 \<notin> ?iv ` set ?recs"
    using paths_ok_short [of "''d''" "\<lambda>_. True"] small_trace(2) by (simp_all add: permuting_def)
  note files = true_flows_files [where qsort = "\<lambda>_ xs. xs", OF this(1) float_consts_rat this(2) _ d0 _ small_trace(1)
      refl this(3,4) fits]
  have take: "?recs = take (52 div tuple_bytes) ?recs"
    by (simp add: tuple_bytes_def)
  obtain d where d: "driver_reachable rat_ops rat_u64 rat_bytes bytes_rat 1000 ?handle d0 (Inr d)" "driver_done d"
    using files [OF _ take driver_reachable.start] by auto
  then have c: "\<forall>k < length (interval_list ?iv ?recs). \<exists>content.
       fl_files (d_handler d) (true_path ''d'' (of_nat k)) = Some content \<and>
       flow_file 13 (in_interval ?iv ?recs (interval_list ?iv ?recs ! k)) content"
    using files [OF _ take d(1)] by auto
  have "\<exists>c. fl_files (d_handler d) (true_path ''d'' 0) = Some c \<and> flow_file 13 [small_packet 1] c"
    "\<exists>c. fl_files (d_handler d) (true_path ''d'' 1) = Some c \<and> flow_file 13 [small_packet 2] c"
    using c [unfolded small_trace(3), rule_format, of 0] c [unfolded small_trace(3), rule_format, of 1]
    by (simp_all add: small_trace(4,5))
  then show ?thesis
    using d0 d by (auto simp: rat_ops_def)
qed

end
