(* ===== verification/Sketch_Text.thy ===== *)
theory Sketch_Text
  imports Sketch_Merge Sketch_Estimate Tuple_Text
begin

text \<open>
  Sketches as text files: \<^verbatim>\<open>SKL_Print\<close>, which the data plane writes at the end of an interval, and
  \<^verbatim>\<open>SKL_ReadFile\<close> and \<^verbatim>\<open>SKL_ReadFile_Onerow\<close>, with which the controller reads them back.  A line of the file is
  the size of the sketch, the total of a bucket, or the two counters of one bit of the bucket above it.
\<close>

section \<open>Writing\<close>

definition size_line :: "SketchLearn \<Rightarrow> string" where
  "size_line skl = ''depth '' @ show_nat (depth skl) @ '' width '' @ show_nat (width skl) @ [newline_char]"

definition total_line :: "SketchLearn \<Rightarrow> nat \<Rightarrow> string" where
  "total_line skl i =
     show_nat (i div width skl) @ '' '' @ show_nat (i mod width skl) @ '' total '' @
     show_int (sint (counts skl ! i ! 0)) @ [newline_char]"

definition bit_line :: "SketchLearn \<Rightarrow> nat \<Rightarrow> nat \<Rightarrow> string" where
  "bit_line skl i j =
     CHR 0x09 # ''bit '' @ show_nat j @ '': '' @ show_int (sint (counts skl ! i ! j)) @ '', '' @
     show_int (sint (counts skl ! i ! (j + lgn skl))) @ [newline_char]"

definition bucket_lines :: "SketchLearn \<Rightarrow> nat \<Rightarrow> string list" where
  "bucket_lines skl i = total_line skl i # map (bit_line skl i) [1..<1 + lgn skl]"

text \<open>The contents of the file; \<open>None\<close> when a counter outside the arrays is read.\<close>

definition SKL_Print :: "SketchLearn \<Rightarrow> string option" where
  "SKL_Print skl =
     (if counters_ok skl
      then Some (concat (size_line skl # concat (map (bucket_lines skl) [0..<skl_size skl]))) else None)"

section \<open>Reading\<close>

definition lit :: "string \<Rightarrow> directive list" where
  "lit s = map Lit s"

abbreviation d_num :: directive where "d_num \<equiv> Num (- (2 ^ 31)) (2 ^ 31 - 1)"
abbreviation lu_num :: directive where "lu_num \<equiv> Num (- (2 ^ 64 - 1)) (2 ^ 64 - 1)"

definition size_format :: "directive list" where
  "size_format = lit ''depth'' @ [Space, lu_num, Space] @ lit ''width'' @ [Space, lu_num]"

definition total_format :: "directive list" where
  "total_format = [d_num, Space, d_num, Space] @ lit ''total'' @ [Space, d_num, Space]"

definition bit_format :: "directive list" where
  "bit_format = Space # lit ''bit'' @ [Space, d_num, Lit (CHR '':''), Space, d_num, Lit (CHR '',''), Space, d_num, Space]"

text \<open>\<^verbatim>\<open>skl->counts[row*skl->width+col][k]\<close>, to read and to write.\<close>

definition counter :: "SketchLearn \<Rightarrow> int \<Rightarrow> int \<Rightarrow> int \<Rightarrow> u32 option" where
  "counter skl row col k =
     (let b = row * int (width skl) + col
      in if 0 \<le> b \<and> b < int (length (counts skl)) \<and> 0 \<le> k \<and> k < int (length (counts skl ! nat b))
         then Some (counts skl ! nat b ! nat k) else None)"

definition set_counter :: "SketchLearn \<Rightarrow> int \<Rightarrow> int \<Rightarrow> int \<Rightarrow> u32 \<Rightarrow> SketchLearn option" where
  "set_counter skl row col k v =
     (let b = row * int (width skl) + col
      in if 0 \<le> b \<and> b < int (length (counts skl)) \<and> 0 \<le> k \<and> k < int (length (counts skl ! nat b))
         then Some (skl\<lparr>counts := (counts skl)[nat b := (counts skl ! nat b)[nat k := v]]\<rparr>) else None)"

text \<open>
  A line after the first.  \<open>fixed\<close> is the row that \<^verbatim>\<open>SKL_ReadFile_Onerow\<close> is called with, in place of the row of
  the file; \<open>rc\<close> is the row and the column of the last total, not set before the first.
\<close>

definition read_total ::
  "int option \<Rightarrow> SketchLearn \<Rightarrow> string \<Rightarrow> (SketchLearn \<times> (int \<times> int) option) option" where
  "read_total fixed skl line =
     (case sscanf total_format line of
        Some [r, c, v] \<Rightarrow>
          let row = (case fixed of None \<Rightarrow> r | Some r \<Rightarrow> r)
          in map_option (\<lambda>skl. (skl, Some (row, c))) (set_counter skl row c 0 (of_int v))
      | _ \<Rightarrow> None)"

definition read_bit ::
  "SketchLearn \<Rightarrow> int \<Rightarrow> int \<Rightarrow> string \<Rightarrow> SketchLearn result" where
  "read_bit skl row col line =
     (case sscanf bit_format line of
        Some [j, v1, v2] \<Rightarrow>
          (case counter skl row col 0 of
             None \<Rightarrow> Inl Invalid_access
           | Some tot \<Rightarrow>
               if tot \<noteq> of_int v1 + of_int v2 then Inl (Exit_code EXIT_FAILURE)
               else lift_invalid (Option.bind (set_counter skl row col j (of_int v1)) (\<lambda>skl.
                      set_counter skl row col (j + int (lgn skl)) (of_int v2))))
      | _ \<Rightarrow> Inl Invalid_access)"

fun read_counters ::
  "int option \<Rightarrow> SketchLearn \<Rightarrow> (int \<times> int) option \<Rightarrow> string list \<Rightarrow> SketchLearn result" where
  "read_counters fixed skl rc [] = Inr skl"
| "read_counters fixed skl rc (tmp # lines) =
     (if tmp \<noteq> [] \<and> is_digit (hd tmp)
      then case read_total fixed skl tmp of
             None \<Rightarrow> Inl Invalid_access
           | Some (skl, rc) \<Rightarrow> read_counters fixed skl rc lines
      else case rc of
             None \<Rightarrow> Inl Invalid_access
           | Some (row, col) \<Rightarrow>
               (case read_bit skl row col tmp of
                  Inl err \<Rightarrow> Inl err
                | Inr skl \<Rightarrow> read_counters fixed skl rc lines))"

definition SKL_ReadFile :: "SketchLearn \<Rightarrow> string option \<Rightarrow> SketchLearn result" where
  "SKL_ReadFile skl file =
     (case file of
        None \<Rightarrow> Inl Invalid_access
      | Some s \<Rightarrow>
          (case lines_of 100 s of
             [] \<Rightarrow> Inr skl
           | tmp # lines \<Rightarrow>
               (case sscanf size_format tmp of
                  Some [d, w] \<Rightarrow>
                    if of_int d \<noteq> (of_nat (depth skl) :: u64) \<or> of_int w \<noteq> (of_nat (width skl) :: u64)
                    then Inl (Exit_code (-1)) else read_counters None skl None lines
                | _ \<Rightarrow> Inl Invalid_access)))"

definition SKL_ReadFile_Onerow :: "SketchLearn \<Rightarrow> string option \<Rightarrow> int \<Rightarrow> SketchLearn result" where
  "SKL_ReadFile_Onerow skl file row =
     (case file of
        None \<Rightarrow> Inl Invalid_access
      | Some s \<Rightarrow>
          (case lines_of 100 s of
             [] \<Rightarrow> Inr skl
           | tmp # lines \<Rightarrow>
               (case sscanf size_format tmp of
                  Some [d, w] \<Rightarrow>
                    if of_int w \<noteq> (of_nat (width skl) :: u64)
                    then Inl (Exit_code (-1)) else read_counters (Some row) skl None lines
                | _ \<Rightarrow> Inl Invalid_access)))"

section \<open>Scanning the lines\<close>

lemma newline_facts [simp]: "\<not> is_digit newline_char" "is_space newline_char"
  by (simp_all add: newline_char_def is_digit_def is_space_def)

lemma char_facts [simp]:
  "\<not> is_space (CHR ''w'')" "\<not> is_space (CHR ''t'')" "\<not> is_space (CHR ''b'')" "\<not> is_space (CHR ''i'')"
  "is_space (CHR 0x09)" "\<not> is_digit (CHR '':'')" "\<not> is_digit (CHR '','')"
  by (simp_all add: is_space_def is_digit_def)

lemma sint_range [simp]: "\<not> sint w < - 2147483648" "\<not> 2147483647 < sint w" for w :: u32
  using sint_ge [of w] sint_lt [of w] by simp_all

lemmas scans = scan_num_nat scan_num_int skip_space_int

lemma scan_size:
  assumes "depth skl < 2 ^ 64" and "width skl < 2 ^ 64"
  shows "sscanf size_format (size_line skl) = Some [int (depth skl), int (width skl)]"
  using assms by (simp add: size_format_def size_line_def lit_def scans)

lemma scan_total:
  assumes "i div width skl < 2 ^ 31" and "i mod width skl < 2 ^ 31"
  shows "sscanf total_format (total_line skl i) =
    Some [int (i div width skl), int (i mod width skl), sint (counts skl ! i ! 0)]"
  using assms by (simp add: total_format_def total_line_def lit_def scans)

lemma scan_bit:
  assumes "j < 2 ^ 31"
  shows "sscanf bit_format (bit_line skl i j) =
    Some [int j, sint (counts skl ! i ! j), sint (counts skl ! i ! (j + lgn skl))]"
  using assms by (simp add: bit_format_def bit_line_def lit_def scans)

section \<open>Lines\<close>

definition is_line :: "string \<Rightarrow> bool" where
  "is_line l \<longleftrightarrow> (\<exists>body. l = body @ [newline_char] \<and> newline_char \<notin> set body \<and> length body + 1 < 100)"

lemma is_lineI: "l = body @ [newline_char] \<Longrightarrow> newline_char \<notin> set body \<Longrightarrow> length body < 99 \<Longrightarrow> is_line l"
  by (auto simp: is_line_def)

lemma newline_neq [simp]:
  "newline_char \<noteq> CHR '' ''" "newline_char \<noteq> CHR ''d''" "newline_char \<noteq> CHR ''e''" "newline_char \<noteq> CHR ''p''"
  "newline_char \<noteq> CHR ''t''" "newline_char \<noteq> CHR ''h''" "newline_char \<noteq> CHR ''w''" "newline_char \<noteq> CHR ''i''"
  "newline_char \<noteq> CHR ''o''" "newline_char \<noteq> CHR ''a''" "newline_char \<noteq> CHR ''l''" "newline_char \<noteq> CHR ''b''"
  "newline_char \<noteq> CHR '':''" "newline_char \<noteq> CHR '',''" "newline_char \<noteq> CHR 0x09"
  by (simp_all add: newline_char_def)

lemma short_nat: "n < 2 ^ 64 \<Longrightarrow> length (show_nat n) \<le> 20"
  using length_show_nat [of n 19] by simp

lemma is_line_size: "depth skl < 2 ^ 64 \<Longrightarrow> width skl < 2 ^ 64 \<Longrightarrow> is_line (size_line skl)"
  unfolding size_line_def
  by (rule is_lineI [of _ "''depth '' @ show_nat (depth skl) @ '' width '' @ show_nat (width skl)"])
    (use short_nat [of "depth skl"] short_nat [of "width skl"] in \<open>simp_all add: newline_not_digit\<close>)

lemma is_line_total: "i div width skl < 2 ^ 31 \<Longrightarrow> i mod width skl < 2 ^ 31 \<Longrightarrow> is_line (total_line skl i)"
  unfolding total_line_def
  by (rule is_lineI [of _ "show_nat (i div width skl) @ '' '' @ show_nat (i mod width skl) @ '' total '' @
      show_int (sint (counts skl ! i ! 0))"])
    (use short_nat [of "i div width skl"] short_nat [of "i mod width skl"] show_int_line [of "counts skl ! i ! 0"]
      in \<open>simp_all add: newline_not_digit\<close>)

lemma is_line_bit: "j < 2 ^ 31 \<Longrightarrow> is_line (bit_line skl i j)"
  unfolding bit_line_def
  by (rule is_lineI [of _ "CHR 0x09 # ''bit '' @ show_nat j @ '': '' @ show_int (sint (counts skl ! i ! j)) @ '', '' @
      show_int (sint (counts skl ! i ! (j + lgn skl)))"])
    (use short_nat [of j] show_int_line [of "counts skl ! i ! j"] show_int_line [of "counts skl ! i ! (j + lgn skl)"]
      in \<open>simp_all add: newline_not_digit\<close>)

definition small_skl_size :: "SketchLearn \<Rightarrow> bool" where
  "small_skl_size skl \<longleftrightarrow> depth skl < 2 ^ 31 \<and> width skl < 2 ^ 31 \<and> lgn skl < 2 ^ 30"

lemma bucket_position:
  assumes "small_skl_size skl" and "i < depth skl * width skl"
  shows "i div width skl < 2 ^ 31" "i mod width skl < 2 ^ 31"
proof -
  have "0 < width skl"
    using assms(2) by (cases "width skl") auto
  then have "i mod width skl < width skl" "i div width skl < depth skl"
    using assms(2) by (simp_all add: less_mult_imp_div_less)
  then show "i div width skl < 2 ^ 31" "i mod width skl < 2 ^ 31"
    using assms(1) unfolding small_skl_size_def by linarith+
qed

lemma printed_lines:
  assumes "SKL_Print skl = Some s" and "small_skl_size skl"
  shows "lines_of 100 s = size_line skl # concat (map (bucket_lines skl) [0..<skl_size skl])"
proof -
  have s: "s = concat (size_line skl # concat (map (bucket_lines skl) [0..<skl_size skl]))"
    using assms(1) by (simp add: SKL_Print_def split: if_splits)
  have "is_line l" if "i < depth skl * width skl" "l \<in> set (bucket_lines skl i)" for i l
    using that is_line_total [OF bucket_position [OF assms(2) that(1)]] assms(2)
    by (auto simp: bucket_lines_def small_skl_size_def intro!: is_line_bit)
  moreover have "is_line (size_line skl)"
    using assms(2) by (intro is_line_size) (simp_all add: small_skl_size_def)
  ultimately have "\<forall>l \<in> set (size_line skl # concat (map (bucket_lines skl) [0..<skl_size skl])). is_line l"
    by (auto simp: skl_size_def mult.commute)
  from lines_of_concat [OF this [unfolded is_line_def]] show ?thesis
    unfolding s .
qed

section \<open>Reading a bucket back\<close>

definition copy_bits :: "nat \<Rightarrow> u32 list \<Rightarrow> u32 list \<Rightarrow> nat list \<Rightarrow> u32 list" where
  "copy_bits n c b js = foldl (\<lambda>b j. b[j := c ! j, j + n := c ! (j + n)]) b js"

lemma copy_bits_simps [simp]:
  "copy_bits n c b [] = b" "copy_bits n c b (j # js) = copy_bits n c (b[j := c ! j, j + n := c ! (j + n)]) js"
  by (simp_all add: copy_bits_def)

lemma nth_update: "xs[i := x] ! j = (if i = j \<and> i < length xs then x else xs ! j)"
  by (cases "i < length xs") (auto simp: list_update_beyond)

lemma copy_bits_nth:
  assumes "k < length b"
  shows "copy_bits n c b js ! k = (if k \<in> set js \<union> (\<lambda>j. j + n) ` set js then c ! k else b ! k)"
  using assms by (induction js arbitrary: b) (auto simp: nth_update)

lemma length_copy_bits [simp]: "length (copy_bits n c b js) = length b"
  by (induction js arbitrary: b) simp_all

lemma copy_all_bits:
  assumes "length c = 1 + n * 2" and "length b = 1 + n * 2"
  shows "copy_bits n c (b[0 := c ! 0]) [1..<1 + n] = c"
proof (rule nth_equalityI)
  fix k
  assume "k < length (copy_bits n c (b[0 := c ! 0]) [1..<1 + n])"
  then have k: "k < length (b[0 := c ! 0])"
    by simp
  have "k = 0 \<or> k \<in> {1..<1 + n} \<or> k - n \<in> {1..<1 + n} \<and> k = (k - n) + n"
    using k assms(2) by auto
  then show "copy_bits n c (b[0 := c ! 0]) [1..<1 + n] ! k = c ! k"
    unfolding copy_bits_nth [OF k] using k by auto
qed (simp add: assms)

definition complete :: "nat \<Rightarrow> u32 list \<Rightarrow> bool" where
  "complete n c \<longleftrightarrow> length c = 1 + n * 2 \<and> (\<forall>j. 1 \<le> j \<and> j \<le> n \<longrightarrow> c ! 0 = c ! j + c ! (j + n))"

lemma read_bits:
  assumes "\<forall>j \<in> set js. 1 \<le> j \<and> j \<le> lgn src" and "lgn src < 2 ^ 30" and "lgn skl = lgn src" and "width skl = w"
    and "row * int w + col = int i" and "i < length (counts skl)" and "length (counts skl ! i) = 1 + lgn src * 2"
    and "complete (lgn src) (counts src ! i)" and "counts skl ! i ! 0 = counts src ! i ! 0"
  shows "read_counters fixed skl (Some (row, col)) (map (bit_line src i) js @ rest) =
    read_counters fixed
      (skl\<lparr>counts := (counts skl)[i := copy_bits (lgn src) (counts src ! i) (counts skl ! i) js]\<rparr>) (Some (row, col)) rest"
  using assms
proof (induction js arbitrary: skl)
  case (Cons j js)
  let ?c = "counts src ! i" and ?b = "counts skl ! i"
  have j: "1 \<le> j" "j \<le> lgn src" "j < 2 ^ 31"
    using Cons.prems(1,2) by auto
  let ?skl = "skl\<lparr>counts := (counts skl)[i := ?b[j := ?c ! j, j + lgn src := ?c ! (j + lgn src)]]\<rparr>"
  have "counts skl ! i \<noteq> []"
    using Cons.prems(7) by auto
  then have "read_bit skl row col (bit_line src i j) = Inr ?skl"
    using Cons.prems j
    by (simp add: read_bit_def scan_bit counter_def set_counter_def lift_invalid_def complete_def nat_add_distrib)
  moreover have "bit_line src i j \<noteq> []" "\<not> is_digit (hd (bit_line src i j))"
    by (simp_all add: bit_line_def is_digit_def)
  ultimately have "read_counters fixed skl (Some (row, col)) (map (bit_line src i) (j # js) @ rest) =
      read_counters fixed ?skl (Some (row, col)) (map (bit_line src i) js @ rest)"
    by simp
  also have "\<dots> = read_counters fixed
      (?skl\<lparr>counts := (counts ?skl)[i := copy_bits (lgn src) ?c (counts ?skl ! i) js]\<rparr>) (Some (row, col)) rest"
    using Cons.prems j by (intro Cons.IH) simp_all
  finally show ?case
    using Cons.prems(6) by simp
qed simp

lemma read_bucket:
  assumes "small_skl_size src" and "i < depth src * width src" and "lgn skl = lgn src" and "width skl = width src"
    and "i < length (counts skl)" and "length (counts skl ! i) = 1 + lgn src * 2"
    and "complete (lgn src) (counts src ! i)"
  shows "\<exists>rc'. read_counters None skl rc (bucket_lines src i @ rest) =
    read_counters None (skl\<lparr>counts := (counts skl)[i := counts src ! i]\<rparr>) rc' rest"
proof -
  let ?c = "counts src ! i" and ?row = "int (i div width src)" and ?col = "int (i mod width src)"
  let ?skl = "skl\<lparr>counts := (counts skl)[i := (counts skl ! i)[0 := ?c ! 0]]\<rparr>"
  have rc: "?row * int (width src) + ?col = int i"
    by (simp flip: of_nat_mult of_nat_add add: mult.commute)
  have "counts skl ! i \<noteq> []"
    using assms(6) by auto
  then have "read_total None skl (total_line src i) = Some (?skl, Some (?row, ?col))"
    using scan_total [OF bucket_position [OF assms(1,2)]] assms(4-6) rc
    by (simp add: read_total_def set_counter_def Let_def)
  moreover have "total_line src i \<noteq> []" "is_digit (hd (total_line src i))"
    using show_nat_digits [of "i div width src"] by (auto simp: total_line_def)
  ultimately have "read_counters None skl rc (bucket_lines src i @ rest) =
      read_counters None ?skl (Some (?row, ?col)) (map (bit_line src i) [1..<1 + lgn src] @ rest)"
    by (simp add: bucket_lines_def)
  also have "\<dots> = read_counters None
      (?skl\<lparr>counts := (counts ?skl)[i := copy_bits (lgn src) ?c (counts ?skl ! i) [1..<1 + lgn src]]\<rparr>)
      (Some (?row, ?col)) rest"
    using assms rc by (intro read_bits [where w = "width src"]) (auto simp: small_skl_size_def)
  also have "copy_bits (lgn src) ?c (counts ?skl ! i) [1..<1 + lgn src] = ?c"
    using copy_all_bits [of ?c "lgn src" "counts skl ! i"] assms(5-7) by (simp add: complete_def)
  finally show ?thesis
    by auto
qed

lemma read_buckets:
  assumes "small_skl_size src" and "k \<le> depth src * width src" and "lgn skl = lgn src" and "width skl = width src"
    and "length (counts skl) = depth src * width src" and "length (counts src) = depth src * width src"
    and "\<forall>b \<in> set (counts skl). length b = 1 + lgn src * 2" and "\<forall>c \<in> set (counts src). complete (lgn src) c"
  shows "\<exists>rc'. read_counters None skl rc (concat (map (bucket_lines src) [0..<k]) @ rest) =
    read_counters None (skl\<lparr>counts := take k (counts src) @ drop k (counts skl)\<rparr>) rc' rest"
  using assms(2)
proof (induction k arbitrary: rest)
  case (Suc k)
  let ?skl = "skl\<lparr>counts := take k (counts src) @ drop k (counts skl)\<rparr>"
  obtain rc1 where "read_counters None skl rc (concat (map (bucket_lines src) [0..<Suc k]) @ rest) =
      read_counters None ?skl rc1 (bucket_lines src k @ rest)"
    using Suc.IH [of "bucket_lines src k @ rest"] Suc.prems by auto
  moreover have "counts ?skl ! k = counts skl ! k"
    using Suc.prems assms(5,6) by (simp add: nth_append)
  then obtain rc2 where "read_counters None ?skl rc1 (bucket_lines src k @ rest) =
      read_counters None (?skl\<lparr>counts := (counts ?skl)[k := counts src ! k]\<rparr>) rc2 rest"
    using read_bucket [OF assms(1), of k ?skl rc1 rest] Suc.prems assms(3-) by auto
  moreover have "(take k (counts src) @ drop k (counts skl))[k := counts src ! k] =
      take (Suc k) (counts src) @ drop (Suc k) (counts skl)"
    using Suc.prems assms(5,6) by (intro nth_equalityI) (auto simp: nth_append nth_update less_Suc_eq)
  ultimately show ?case
    by auto
qed auto

section \<open>The round trip\<close>

lemma completed_complete: "skl_ok skl \<Longrightarrow> \<forall>c \<in> set (counts (completed skl)). complete (lgn skl) c"
proof
  fix c
  assume ok: "skl_ok skl" and "c \<in> set (counts (completed skl))"
  then obtain b where b: "length b = 1 + lgn skl * 2" "c = complete_bucket (lgn skl) b"
    by (auto simp: completed_def skl_ok_def)
  note spec = complete_bucket_spec [OF b(1)]
  have "c ! 0 = c ! j + c ! (j + lgn skl)" if "1 \<le> j" "j \<le> lgn skl" for j
    using spec(2) [of 0] spec(2) [of j] spec(3) [of "j - 1"] that b(2) by simp
  then show "complete (lgn skl) c"
    using spec(1) b by (simp add: complete_def)
qed

lemma read_printed:
  assumes src: "skl_ok src" "\<forall>c \<in> set (counts src). complete (lgn src) c" "small_skl_size src"
    and dst: "skl_ok dst" "depth dst = depth src" "width dst = width src" "lgn dst = lgn src"
  shows "\<exists>s. SKL_Print src = Some s \<and> SKL_ReadFile dst (Some s) = Inr (dst\<lparr>counts := counts src\<rparr>)"
proof -
  have len: "length (counts src) = depth src * width src" "length (counts dst) = depth src * width src"
    "\<forall>b \<in> set (counts dst). length b = 1 + lgn src * 2"
    using src(1) dst by (simp_all add: skl_ok_def mult.commute)
  have "counters_ok src"
    using src(1) by (auto simp: counters_ok_def skl_ok_def list_all_iff mult.commute)
  then obtain s where s: "SKL_Print src = Some s"
    by (simp add: SKL_Print_def)
  have "skl_size src = depth src * width src"
    by (simp add: skl_size_def mult.commute)
  then have lines: "lines_of 100 s = size_line src # concat (map (bucket_lines src) [0..<depth src * width src])"
    using printed_lines [OF s src(3)] by simp
  have "sscanf size_format (size_line src) = Some [int (depth src), int (width src)]"
    using src(3) by (intro scan_size) (simp_all add: small_skl_size_def)
  then have "SKL_ReadFile dst (Some s) =
      read_counters None dst None (concat (map (bucket_lines src) [0..<depth src * width src]))"
    using lines dst(2,3) by (simp add: SKL_ReadFile_def)
  also have "\<dots> = Inr (dst\<lparr>counts := counts src\<rparr>)"
    using read_buckets [OF src(3) order_refl dst(4,3) len(2,1,3) src(2), of None "[]"] len by auto
  finally show ?thesis
    using s by blast
qed

text \<open>
  The controller reads back the sketch that the data plane wrote: for a sketch that was completed
  with \<^verbatim>\<open>SKL_CompleteZeroes\<close>, \<^verbatim>\<open>SKL_Print\<close> succeeds, and \<^verbatim>\<open>SKL_ReadFile\<close> of its file into any sketch of the same
  size accepts every line and ends with all counters of the sketch written, whatever the target held before.
\<close>

theorem SKL_print_read:
  assumes "skl_ok skl" and "SKL_CompleteZeroes F skl bd = Some (src, bd')" and "small_skl_size skl"
    and "skl_ok dst" and "depth dst = depth skl" and "width dst = width skl" and "lgn dst = lgn skl"
  shows "\<exists>s. SKL_Print src = Some s \<and> SKL_ReadFile dst (Some s) = Inr (dst\<lparr>counts := counts src\<rparr>)"
proof -
  have src: "src = completed skl"
    using assms(2) by (auto simp: SKL_CompleteZeroes_def completed_def Let_def split: if_splits)
  note shape = same_shape_simps [OF completed_ok(2) [OF assms(1)]]
  show ?thesis
    unfolding src using assms completed_ok(1) [OF assms(1)] completed_complete [OF assms(1)] shape
    by (intro read_printed) (simp_all add: small_skl_size_def)
qed

theorem SKL_print_read_witness:
  "\<exists>src bd s. SKL_CompleteZeroes rat_ops small_skl \<lparr>bit_mean = replicate 8 0, bit_std = replicate 8 0\<rparr> = Some (src, bd) \<and>
     SKL_Print src = Some s \<and>
     SKL_ReadFile (small_skl\<lparr>counts := replicate 6 (replicate 17 9)\<rparr>) (Some s) =
       Inr (small_skl\<lparr>counts := counts src\<rparr>)"
proof -
  let ?dst = "small_skl\<lparr>counts := replicate 6 (replicate 17 9)\<rparr>"
  obtain src bd where src: "SKL_CompleteZeroes rat_ops small_skl \<lparr>bit_mean = replicate 8 0, bit_std = replicate 8 0\<rparr> =
      Some (src, bd)"
    using CompleteZeroes_Some [OF small_skl_ok, of "\<lparr>bit_mean = replicate 8 0, bit_std = replicate 8 0\<rparr>" rat_ops]
    by (auto simp: small_skl_def)
  have "skl_ok ?dst" "small_skl_size small_skl"
    by (simp_all add: skl_ok_def small_skl_def small_skl_size_def)
  then show ?thesis
    using SKL_print_read [OF small_skl_ok src, of ?dst] src by simp
qed

end
