(* ===== verification/Sketches.thy ===== *)
theory Sketches
  imports Intervals Sketch_Text
begin

text \<open>
  \<^verbatim>\<open>dp_simulate.c\<close>: the data plane that sketches the traffic.  Its handler thread updates a sketch with every
  tuple, and at the end of an interval completes the sketch, prints it to a file of the directory
  \<^verbatim>\<open>sketches\<close> and resets it.  Its main thread is that of \<open>Driver\<close>.  The result links the data plane to the
  controller: what \<^verbatim>\<open>SKL_ReadFile\<close> reads from the file of an interval are the counters of the packets of that
  interval.
\<close>

section \<open>The handler thread\<close>

record 'f sketch_state =
  sk_skl :: SketchLearn
  sk_dists :: "'f bit_dists"
  sk_cnt :: u64
  tot_byte :: u64
  sk_interval :: u64
  sk_files :: "string \<Rightarrow> string option"

definition sketch_init :: "SketchLearn \<Rightarrow> 'f bit_dists \<Rightarrow> (string \<Rightarrow> string option) \<Rightarrow> 'f sketch_state" where
  "sketch_init skl bd files =
     \<lparr>sk_skl = skl, sk_dists = bd, sk_cnt = 0, tot_byte = 0, sk_interval = 0, sk_files = files\<rparr>"

definition sketch_path :: "string \<Rightarrow> u64 \<Rightarrow> string" where
  "sketch_path dir i = dir @ ''/sketches/'' @ ''sketchlearn'' @ ''_'' @ show_nat (unat i)"

definition sketch_output ::
  "'f float_ops \<Rightarrow> (string \<Rightarrow> bool) \<Rightarrow> string \<Rightarrow> 'f sketch_state \<Rightarrow> 'f sketch_state result" where
  "sketch_output F writable dir st =
     (case SKL_CompleteZeroes F (sk_skl st) (sk_dists st) of
        None \<Rightarrow> Inl Invalid_access
      | Some (skl, bd) \<Rightarrow>
          let st = st\<lparr>sk_skl := skl, sk_dists := bd\<rparr>; tmp = sketch_path dir (sk_interval st)
          in if length tmp < 100 \<and> writable tmp
             then case SKL_Print skl of
                    None \<Rightarrow> Inl Invalid_access
                  | Some s \<Rightarrow> Inr (st\<lparr>sk_files := (sk_files st)(tmp \<mapsto> s)\<rparr>)
             else Inl Invalid_access)"

definition sketch_punc ::
  "'f float_ops \<Rightarrow> (string \<Rightarrow> bool) \<Rightarrow> string \<Rightarrow> bool \<Rightarrow> 'f sketch_state \<Rightarrow> 'f sketch_state result" where
  "sketch_punc F writable dir is_output st =
     (case if is_output then sketch_output F writable dir st else Inr st of
        Inl err \<Rightarrow> Inl err
      | Inr st \<Rightarrow> Inr (st\<lparr>sk_interval := sk_interval st + 1, tot_byte := 0, sk_skl := SKL_Reset (sk_skl st)\<rparr>))"

definition sketch_update :: "'f sketch_state \<Rightarrow> 'f tuple_t \<Rightarrow> 'f sketch_state result" where
  "sketch_update st t =
     (case SKL_Update (sk_skl st) (t_key t) (t_size t) of
        None \<Rightarrow> Inl Invalid_access
      | Some skl \<Rightarrow> Inr (st\<lparr>sk_skl := skl, sk_cnt := sk_cnt st + 1, tot_byte := tot_byte st + scast (t_size t)\<rparr>))"

definition sketch_term ::
  "'f float_ops \<Rightarrow> (string \<Rightarrow> bool) \<Rightarrow> string \<Rightarrow> bool \<Rightarrow> 'f sketch_state \<Rightarrow> 'f sketch_state result" where
  "sketch_term F writable dir is_output st = (if is_output then sketch_output F writable dir st else Inr st)"

definition sketch_handle ::
  "'f float_ops \<Rightarrow> (string \<Rightarrow> bool) \<Rightarrow> string \<Rightarrow> bool \<Rightarrow> 'f sketch_state \<Rightarrow> 'f tuple_t \<Rightarrow>
     ('f sketch_state \<times> handler_pc) result" where
  "sketch_handle F writable dir is_output =
     on_tuple sketch_update (sketch_punc F writable dir is_output) (sketch_term F writable dir is_output)"

text \<open>The start of the program, until the handler thread has been created.\<close>

definition dp_simulate_start ::
  "'f float_ops \<Rightarrow> (nat \<Rightarrow> u64) \<Rightarrow> seed_state \<Rightarrow> int \<Rightarrow> nat \<Rightarrow> nat \<Rightarrow> 'f tuple_t list option \<Rightarrow> nat \<Rightarrow>
     (string \<Rightarrow> string option) \<Rightarrow> ('f, 'f sketch_state) driver result" where
  "dp_simulate_start F rand g w d key_len file buf_size files =
     (case ram_adapter_init file buf_size of
        Inl err \<Rightarrow> Inl err
      | Inr a \<Rightarrow>
          (case SKL_Init rand g w d key_len of
             None \<Rightarrow> Inl Invalid_access
           | Some (skl, _) \<Rightarrow>
               let zeros = replicate 104 (f_of_int F 0)
               in Inr (driver_init F a (sketch_init skl \<lparr>bit_mean = zeros, bit_std = zeros\<rparr> files))))"

section \<open>What is in a file\<close>

text \<open>The counters of a sketch \<open>t\<close> of the shape of \<open>skl\<close> that has counted the tuples \<open>ts\<close>.\<close>

definition counts_tuples :: "SketchLearn \<Rightarrow> 'f tuple_t list \<Rightarrow> SketchLearn \<Rightarrow> bool" where
  "counts_tuples skl ts t \<longleftrightarrow>
     (\<forall>i j k. i < depth skl \<and> j < width skl \<and> k \<le> lgn skl \<longrightarrow>
        cnt t i j k = (\<Sum>u\<leftarrow>key_sizes ts. if counts_in skl i j k (fst u) then snd u else 0))"

text \<open>Reading the file into a sketch of the same size gives these counters, and the complements of the bit counters.\<close>

definition sketch_file :: "SketchLearn \<Rightarrow> 'f tuple_t list \<Rightarrow> string \<Rightarrow> bool" where
  "sketch_file skl ts s \<longleftrightarrow>
     (\<forall>dst. skl_ok dst \<and> depth dst = depth skl \<and> width dst = width skl \<and> lgn dst = lgn skl \<longrightarrow>
        (\<exists>t. SKL_ReadFile dst (Some s) = Inr t \<and> skl_ok t \<and> same_shape dst t \<and> counts_tuples skl ts t \<and>
           (\<forall>i j p. i < depth skl \<and> j < width skl \<and> p < lgn skl \<longrightarrow>
              cnt t i j (p + 1 + lgn skl) = cnt t i j 0 - cnt t i j (p + 1))))"

lemma print_sketch_file:
  assumes "skl_ok t" and "same_shape skl t" and "small_skl_size skl" and "counts_tuples skl ts t"
  shows "\<exists>s. SKL_Print (completed t) = Some s \<and> sketch_file skl ts s"
proof -
  note shape = same_shape_simps [OF assms(2)] and ok = completed_ok [OF assms(1)]
  note shape2 = same_shape_simps [OF ok(2)]
  have read: "\<exists>s. SKL_Print (completed t) = Some s \<and> SKL_ReadFile dst (Some s) = Inr (dst\<lparr>counts := counts (completed t)\<rparr>)"
    if "skl_ok dst" "depth dst = depth skl" "width dst = width skl" "lgn dst = lgn skl" for dst
    using that assms(3) completed_complete [OF assms(1)] ok(1) shape shape2
    by (intro read_printed) (simp_all add: small_skl_size_def)
  have dims: "depth t = depth skl" "width t = width skl" "lgn t = lgn skl"
    using shape by simp_all
  obtain s where s: "SKL_Print (completed t) = Some s"
    using read [OF assms(1) dims] by blast
  have "\<exists>t'. SKL_ReadFile dst (Some s) = Inr t' \<and> skl_ok t' \<and> same_shape dst t' \<and> counts_tuples skl ts t' \<and>
      (\<forall>i j p. i < depth skl \<and> j < width skl \<and> p < lgn skl \<longrightarrow>
         cnt t' i j (p + 1 + lgn skl) = cnt t' i j 0 - cnt t' i j (p + 1))"
    if dst: "skl_ok dst" "depth dst = depth skl" "width dst = width skl" "lgn dst = lgn skl" for dst
  proof -
    let ?t = "dst\<lparr>counts := counts (completed t)\<rparr>"
    have cnt: "cnt ?t i j k = cnt (completed t) i j k" for i j k
      using dst(3) dims shape2 by (simp add: cnt_def)
    have "skl_ok ?t"
      using dst ok(1) dims shape2 by (simp add: skl_ok_def)
    moreover have "counts_tuples skl ts ?t"
      using assms(4) cnt_completed(1) [OF assms(1)] dims by (simp add: counts_tuples_def cnt)
    moreover have "cnt ?t i j (p + 1 + lgn skl) = cnt ?t i j 0 - cnt ?t i j (p + 1)"
      if "i < depth skl" "j < width skl" "p < lgn skl" for i j p
      using cnt_completed [OF assms(1), of i j] that dims by (simp add: cnt)
    ultimately show ?thesis
      using read [OF dst] s by (intro exI [of _ ?t]) (simp add: same_shape_counts)
  qed
  then show ?thesis
    using s unfolding sketch_file_def by blast
qed

section \<open>A segment\<close>

lemma sketch_updates:
  assumes "SKL_Updates (sk_skl st) (key_sizes ts) = Some skl"
  shows "\<exists>p b. updates sketch_update st ts = Inr (st\<lparr>sk_skl := skl, sk_cnt := p, tot_byte := b\<rparr>)"
  using assms
proof (induction ts arbitrary: st)
  case Nil
  then show ?case
    by (intro exI [of _ "sk_cnt st"] exI [of _ "tot_byte st"]) (simp add: key_sizes_def)
next
  case (Cons t ts)
  obtain skl1 where "SKL_Update (sk_skl st) (t_key t) (t_size t) = Some skl1" "SKL_Updates skl1 (key_sizes ts) = Some skl"
    using Cons.prems by (auto simp: key_sizes_def split: option.splits)
  then show ?case
    using Cons.IH [of "st\<lparr>sk_skl := skl1, sk_cnt := sk_cnt st + 1, tot_byte := tot_byte st + scast (t_size t)\<rparr>"]
    by (simp add: sketch_update_def)
qed

text \<open>The environment of a run with a sketch of the shape of \<open>skl\<close>: the sizes fit and the files can be written.\<close>

definition sketch_env :: "(string \<Rightarrow> bool) \<Rightarrow> string \<Rightarrow> SketchLearn \<Rightarrow> bool" where
  "sketch_env writable dir skl \<longleftrightarrow>
     small_skl_size skl \<and> depth skl * width skl \<noteq> 1 \<and>
     (\<forall>i. length (sketch_path dir i) < 100 \<and> writable (sketch_path dir i))"

definition sketch_ready :: "(string \<Rightarrow> bool) \<Rightarrow> string \<Rightarrow> SketchLearn \<Rightarrow> 'f sketch_state \<Rightarrow> bool" where
  "sketch_ready writable dir skl st \<longleftrightarrow>
     sketch_env writable dir skl \<and> skl_ok (sk_skl st) \<and> same_shape skl (sk_skl st) \<and>
     lgn skl \<le> length (bit_mean (sk_dists st)) \<and> lgn skl \<le> length (bit_std (sk_dists st))"

definition sketch_fresh :: "(string \<Rightarrow> bool) \<Rightarrow> string \<Rightarrow> SketchLearn \<Rightarrow> 'f sketch_state \<Rightarrow> bool" where
  "sketch_fresh writable dir skl st \<longleftrightarrow> sketch_ready writable dir skl st \<and> SKL_Reset (sk_skl st) = sk_skl st"

definition sketch_counted :: "(string \<Rightarrow> bool) \<Rightarrow> string \<Rightarrow> SketchLearn \<Rightarrow> 'f sketch_state \<Rightarrow> 'f tuple_t list \<Rightarrow> bool" where
  "sketch_counted writable dir skl st ts \<longleftrightarrow> sketch_ready writable dir skl st \<and> counts_tuples skl ts (sk_skl st)"

definition keys_fit :: "SketchLearn \<Rightarrow> 'f tuple_t list \<Rightarrow> bool" where
  "keys_fit skl ts \<longleftrightarrow> (\<forall>t \<in> set ts. key_ok skl (t_key t))"

lemma counts_in_shape: "same_shape skl t \<Longrightarrow> counts_in t = counts_in skl"
  by (intro ext) (simp add: same_shape_simps)

lemma sketch_segment:
  fixes st :: "'f sketch_state"
  assumes "sketch_fresh writable dir skl st" and "keys_fit skl ts"
  shows "\<exists>st'. updates sketch_update st ts = Inr st' \<and> sketch_counted writable dir skl st' ts \<and>
    sk_interval st' = sk_interval st \<and> sk_files st' = sk_files st"
proof -
  have ok: "skl_ok (sk_skl st)" "same_shape skl (sk_skl st)" "SKL_Reset (sk_skl st) = sk_skl st"
    "sketch_ready writable dir skl st"
    using assms(1) by (simp_all add: sketch_fresh_def sketch_ready_def)
  note shape = same_shape_simps [OF ok(2)]
  have "\<forall>u \<in> set (key_sizes ts). key_ok (sk_skl st) (fst u)"
    using assms(2) shape by (auto simp: keys_fit_def key_sizes_def key_ok_def)
  from SKL_stream_spec [OF ok(1) this]
  obtain t where t: "SKL_Updates (sk_skl st) (key_sizes ts) = Some t" "skl_ok t" "same_shape (sk_skl st) t"
    "\<And>i j k. i < depth skl \<Longrightarrow> j < width skl \<Longrightarrow> k \<le> 2 * lgn skl \<Longrightarrow>
       cnt t i j k = (\<Sum>u\<leftarrow>key_sizes ts. if counts_in skl i j k (fst u) then snd u else 0)"
    using ok(3) shape counts_in_shape [OF ok(2)] by auto
  obtain p b where "updates sketch_update st ts = Inr (st\<lparr>sk_skl := t, sk_cnt := p, tot_byte := b\<rparr>)"
    using sketch_updates [OF t(1)] by blast
  moreover have "counts_tuples skl ts t"
    using t(4) by (simp add: counts_tuples_def)
  ultimately show ?thesis
    using ok(4) t(2) same_shape_trans [OF ok(2) t(3)]
    by (intro exI [of _ "st\<lparr>sk_skl := t, sk_cnt := p, tot_byte := b\<rparr>"])
      (simp add: sketch_counted_def sketch_ready_def)
qed

lemma sketch_outputs:
  fixes F :: "'f float_ops"
  assumes "sketch_counted writable dir skl st ts"
  shows "\<exists>s bd. sketch_output F writable dir st =
      Inr (st\<lparr>sk_skl := completed (sk_skl st), sk_dists := bd,
              sk_files := (sk_files st)(sketch_path dir (sk_interval st) \<mapsto> s)\<rparr>) \<and> sketch_file skl ts s \<and>
    lgn skl \<le> length (bit_mean bd) \<and> lgn skl \<le> length (bit_std bd)"
proof -
  have ok: "skl_ok (sk_skl st)" "same_shape skl (sk_skl st)" "sketch_env writable dir skl" "counts_tuples skl ts (sk_skl st)"
    "lgn skl \<le> length (bit_mean (sk_dists st))" "lgn skl \<le> length (bit_std (sk_dists st))"
    using assms by (simp_all add: sketch_counted_def sketch_ready_def)
  note shape = same_shape_simps [OF ok(2)]
  obtain s where s: "SKL_Print (completed (sk_skl st)) = Some s" "sketch_file skl ts s"
    using print_sketch_file [OF ok(1,2) _ ok(4)] ok(3) by (auto simp: sketch_env_def)
  obtain bd where bd: "SKL_CompleteZeroes F (sk_skl st) (sk_dists st) = Some (completed (sk_skl st), bd)"
    using CompleteZeroes_Some [OF ok(1), of "sk_dists st" F] ok(3,5,6) shape by (auto simp: sketch_env_def)
  then have "lgn skl \<le> length (bit_mean bd) \<and> lgn skl \<le> length (bit_std bd)"
    using shape by (auto simp: SKL_CompleteZeroes_def compute_bit_dists_def Let_def split: if_splits)
  then show ?thesis
    using s bd ok(3) by (intro exI [of _ s] exI [of _ bd]) (simp add: sketch_output_def sketch_env_def Let_def)
qed

lemma sketch_cut:
  fixes F :: "'f float_ops"
  assumes counted: "sketch_counted writable dir skl st ts"
  shows "\<exists>s st'. sketch_punc F writable dir True st = Inr st' \<and> sketch_file skl ts s \<and>
    sk_files st' = (sk_files st)(sketch_path dir (sk_interval st) \<mapsto> s) \<and> sk_interval st' = sk_interval st + 1 \<and>
    sketch_fresh writable dir skl st'"
proof -
  obtain s bd where s: "sketch_output F writable dir st =
      Inr (st\<lparr>sk_skl := completed (sk_skl st), sk_dists := bd,
              sk_files := (sk_files st)(sketch_path dir (sk_interval st) \<mapsto> s)\<rparr>)" "sketch_file skl ts s"
    "lgn skl \<le> length (bit_mean bd)" "lgn skl \<le> length (bit_std bd)"
    using sketch_outputs [OF counted] by blast
  have ok: "skl_ok (sk_skl st)" "same_shape skl (sk_skl st)" "sketch_env writable dir skl"
    using counted by (simp_all add: sketch_counted_def sketch_ready_def)
  let ?t = "SKL_Reset (completed (sk_skl st))"
  have "skl_ok ?t" "same_shape skl ?t" "SKL_Reset ?t = ?t"
    using SKL_Reset_spec(1,2) [OF completed_ok(1) [OF ok(1)]] same_shape_trans completed_ok(2) [OF ok(1)] ok(2)
    by (blast, blast, simp add: SKL_Reset_def)
  then show ?thesis
    using s ok(3) by (intro exI [of _ s]) (simp add: sketch_punc_def sketch_fresh_def sketch_ready_def)
qed

lemma sketch_path_inject: "sketch_path dir i = sketch_path dir j \<Longrightarrow> i = j"
  using show_u64_inject [of i j] by (simp add: sketch_path_def)

interpretation sketches: interval_writer sketch_update "sketch_punc F writable dir True" "sketch_term F writable dir True"
  "sketch_fresh writable dir skl" "sketch_counted writable dir skl" "keys_fit skl" "sketch_file skl"
  sk_interval sk_files "sketch_path dir"
  for F :: "'f float_ops" and writable dir skl
proof unfold_locales
  show "keys_fit skl []"
    by (simp add: keys_fit_def)
  show "\<exists>c w'. sketch_term F writable dir True st = Inr w' \<and> sketch_file skl ts c \<and>
      sk_files w' = (sk_files st)(sketch_path dir (sk_interval st) \<mapsto> c)"
    if counted: "sketch_counted writable dir skl st ts" for st :: "'f sketch_state" and ts
  proof -
    obtain s bd where "sketch_output F writable dir st =
        Inr (st\<lparr>sk_skl := completed (sk_skl st), sk_dists := bd,
                sk_files := (sk_files st)(sketch_path dir (sk_interval st) \<mapsto> s)\<rparr>)" "sketch_file skl ts s"
      using sketch_outputs [OF counted, of F] by blast
    then show ?thesis
      by (intro exI [of _ s]) (simp add: sketch_term_def)
  qed
qed (fact sketch_path_inject sketch_segment sketch_cut)+

section \<open>The files of the program\<close>

lemma gen_seeds_length: "gen_seeds rand n sd g = Some (hs, sd', g') \<Longrightarrow> length hs = n"
  using gen_seeds_Some [of rand n sd g] by auto

lemma SKL_Init_shape:
  assumes "SKL_Init rand g w d n = Some (skl, g')" and "w \<le> INT_MAX" and "8 dvd n"
  shows "skl_ok skl" "depth skl = d" "lgn skl = n" "SKL_Reset skl = skl" "small_skl_size skl" "depth skl * width skl \<noteq> 1"
proof -
  obtain q where q: "calc_next_prime w = Some q" "2 \<le> q" "q \<le> INT_MAX"
    using calc_next_prime_Some [OF assms(2)] by blast
  obtain hs ss ds where skl: "skl = \<lparr>depth = d, width = nat q, lgn = n, hash = hs, scale = ss, hardner = ds,
      counts = replicate (nat q * d) (replicate (1 + n * 2) 0)\<rparr>"
    and len: "length hs = d" "length ss = d" "length ds = d" and small: "q * int d \<le> INT_MAX" "1 + int n * 2 \<le> INT_MAX"
    using assms(1) q(1)
    by (auto simp: SKL_Init_def bind_eq_Some_conv split: if_splits dest!: gen_seeds_length)
  show "skl_ok skl" "depth skl = d" "lgn skl = n" "SKL_Reset skl = skl"
    using q(2) assms(3) len by (simp_all add: skl skl_ok_def SKL_Reset_def map_replicate)
  have "1 * int d \<le> q * int d"
    using q(2) by (intro mult_right_mono) simp_all
  then have "int d < 2 ^ 31"
    using small(1) by (simp add: INT_MAX_def)
  then show "small_skl_size skl"
    using q(2,3) small(2) by (simp add: skl small_skl_size_def INT_MAX_def nat_less_iff)
  show "depth skl * width skl \<noteq> 1"
    using q(2) by (auto simp: skl nat_eq_iff)
qed

text \<open>
  Claim C3. \<^verbatim>\<open>dp_simulate\<close> sketches the packets of every interval.  Take a trace in the order of time whose
  packets belong to intervals other than 0, keys of whole bytes and at most 104 bits, and paths of the files that are short
  enough for the buffer of the program and can be written.  Then under every interleaving of the two threads no access is
  invalid and the program does not exit; from every state both threads can come to their end; and when they
  have, the k-th interval of the trace has its file, and \<^verbatim>\<open>SKL_ReadFile\<close>, with which the controller reads it,
  fills any sketch of the same size with the counters of exactly the packets of that interval.
\<close>

theorem dp_simulate_files:
  fixes F :: "'f float_ops"
  assumes start: "dp_simulate_start F rand g w dp key_len (Some file) buf_size files = Inr d0"
    and sizes: "w \<le> INT_MAX" "8 dvd key_len" "key_len \<le> 104"
    and paths: "\<forall>i. length (sketch_path dir i) < 100 \<and> writable (sketch_path dir i)"
    and recs: "recs = take (buf_size div tuple_bytes) file" and ok: "trace_ok F to_u64 db bd len recs"
    and iv: "iv = interval_no F to_u64 len" "sorted (map iv recs)" "0 \<notin> iv ` set recs"
    and x: "driver_reachable F to_u64 db bd len (sketch_handle F writable dir True) d0 x"
  shows "\<exists>d. x = Inr d \<and>
    (driver_done d \<longrightarrow> (\<forall>k < length (interval_list iv recs). \<exists>s.
       sk_files (d_handler d) (sketch_path dir (of_nat k)) = Some s \<and>
       sketch_file (sk_skl (d_handler d0)) (in_interval iv recs (interval_list iv recs ! k)) s)) \<and>
    (\<exists>d'. driver_reachable F to_u64 db bd len (sketch_handle F writable dir True) d (Inr d') \<and> driver_done d')"
proof -
  let ?zeros = "replicate 104 (f_of_int F 0)"
  obtain a skl g' where a: "ram_adapter_init (Some file) buf_size = Inr a"
    and d0: "d0 = driver_init F a (sketch_init skl \<lparr>bit_mean = ?zeros, bit_std = ?zeros\<rparr> files)"
    and skl: "SKL_Init rand g w dp key_len = Some (skl, g')"
    using start by (auto simp: dp_simulate_start_def Let_def split: sum.splits option.splits)
  let ?w = "sketch_init skl \<lparr>bit_mean = ?zeros, bit_std = ?zeros\<rparr> files"
  note shape = SKL_Init_shape [OF skl sizes(1,2)]
  have init: "sketch_fresh writable dir skl ?w" "sk_interval ?w = 0"
    using shape paths sizes(3) by (simp_all add: sketch_init_def sketch_fresh_def sketch_ready_def sketch_env_def)
  have "\<forall>i. keys_fit skl (in_interval iv recs i)"
    using ok sizes(3) shape(3) by (auto simp: keys_fit_def key_ok_def in_interval_set trace_ok_def has_image_def)
  from sketches.driver_written [OF init a recs iv(1) ok iv(2,3) this x [unfolded d0 sketch_handle_def]] show ?thesis
    unfolding sketch_handle_def d0 by (simp add: driver_init_def sketch_init_def)
qed

lemma SKL_Init_Some:
  assumes "calc_next_prime w = Some q" and "q * int d \<le> INT_MAX" and "1 + int n * 2 \<le> INT_MAX"
  shows "\<exists>skl g'. SKL_Init rand g w d n = Some (skl, g')"
proof -
  obtain sd where sd: "AwareHash deltoid 7 13091204281 228204732751 6620830889 = Some sd"
    using AwareHash_Some [of 7 deltoid 13091204281 228204732751 6620830889] by (auto simp: deltoid_def)
  obtain hs sd1 g1 where 1: "gen_seeds rand d sd g = Some (hs, sd1, g1)"
    using gen_seeds_Some by blast
  obtain ss sd2 g2 where 2: "gen_seeds rand d sd1 g1 = Some (ss, sd2, g2)"
    using gen_seeds_Some by blast
  obtain ds sd3 g3 where 3: "gen_seeds rand d sd2 g2 = Some (ds, sd3, g3)"
    using gen_seeds_Some by blast
  show ?thesis
    using assms 1 2 3 by (simp add: SKL_Init_def sd)
qed

lemma short_sketch_path: "length dir \<le> 50 \<Longrightarrow> length (sketch_path dir i) < 100"
  using add_mono [OF _ length_show_u64 [of i], of "length dir" 50] by (simp add: sketch_path_def)

lemma next_prime_4: "calc_next_prime 4 = Some 5"
proof -
  have "is_prime 4 = 0" "is_prime 5 = 1"
    by (simp_all add: is_prime_def is_prime_loop.simps)
  then show ?thesis
    by (simp add: calc_next_prime.simps INT_MAX_def)
qed

lemma small_sketch: "\<exists>skl g. SKL_Init of_nat \<lparr>seed = 0, drawn = 0\<rparr> 4 2 104 = Some (skl, g)"
  using SKL_Init_Some [OF next_prime_4, of 2 104 of_nat "\<lparr>seed = 0, drawn = 0\<rparr>"] by (auto simp: INT_MAX_def)

theorem dp_simulate_files_witness:
  "\<exists>d0 d s1 s2.
    dp_simulate_start rat_ops of_nat \<lparr>seed = 0, drawn = 0\<rparr> 4 2 104 (Some [small_packet 1, small_packet 2]) 52 Map.empty =
      Inr d0 \<and>
    driver_reachable rat_ops rat_u64 rat_bytes bytes_rat 1000 (sketch_handle rat_ops (\<lambda>_. True) ''d'' True) d0 (Inr d) \<and>
    driver_done d \<and>
    sk_files (d_handler d) (sketch_path ''d'' 0) = Some s1 \<and> sketch_file (sk_skl (d_handler d0)) [small_packet 1] s1 \<and>
    sk_files (d_handler d) (sketch_path ''d'' 1) = Some s2 \<and> sketch_file (sk_skl (d_handler d0)) [small_packet 2] s2"
proof -
  let ?recs = "[small_packet 1, small_packet 2]" and ?iv = "interval_no rat_ops rat_u64 1000"
  let ?handle = "sketch_handle rat_ops (\<lambda>_. True) ''d'' True"
  obtain skl g where "SKL_Init of_nat \<lparr>seed = 0, drawn = 0\<rparr> 4 2 104 = Some (skl, g)"
    using small_sketch by blast
  then obtain d0 where d0: "dp_simulate_start rat_ops of_nat \<lparr>seed = 0, drawn = 0\<rparr> 4 2 104 (Some ?recs) 52 Map.empty = Inr d0"
    by (simp add: dp_simulate_start_def ram_adapter_init_def Let_def)
  have "(4 :: int) \<le> INT_MAX" "8 dvd (104 :: nat)" "(104 :: nat) \<le> 104"
    "\<forall>i. length (sketch_path ''d'' i) < 100 \<and> (\<lambda>_. True) (sketch_path ''d'' i)"
    "?recs = take (52 div tuple_bytes) ?recs" "sorted (map ?iv ?recs)" "0 \<notin> ?iv ` set ?recs"
    using short_sketch_path [of "''d''"] small_trace(2) by (simp_all add: INT_MAX_def tuple_bytes_def)
  note files = dp_simulate_files [OF d0 this(1-5) small_trace(1) refl this(6,7)]
  obtain d where d: "driver_reachable rat_ops rat_u64 rat_bytes bytes_rat 1000 ?handle d0 (Inr d)" "driver_done d"
    using files [OF driver_reachable.start] by auto
  then have c: "\<forall>k < length (interval_list ?iv ?recs). \<exists>s. sk_files (d_handler d) (sketch_path ''d'' (of_nat k)) = Some s \<and>
       sketch_file (sk_skl (d_handler d0)) (in_interval ?iv ?recs (interval_list ?iv ?recs ! k)) s"
    using files [OF d(1)] by auto
  have "\<exists>s. sk_files (d_handler d) (sketch_path ''d'' 0) = Some s \<and> sketch_file (sk_skl (d_handler d0)) [small_packet 1] s"
    "\<exists>s. sk_files (d_handler d) (sketch_path ''d'' 1) = Some s \<and> sketch_file (sk_skl (d_handler d0)) [small_packet 2] s"
    using c [unfolded small_trace(3), rule_format, of 0] c [unfolded small_trace(3), rule_format, of 1]
    by (simp_all add: small_trace(4,5))
  then show ?thesis
    using d0 d by auto
qed

end
