(* ===== verification/Ovs.thy ===== *)
theory Ovs
  imports Sketches
begin

text \<open>
  \<^verbatim>\<open>dp_ovs.c\<close>: the data plane behind Open vSwitch.  Its main thread reads tuples from the ring buffer of the
  kernel for ever, passes them to several handler threads in turn, and ends an interval after a number of
  packets instead of a time.  Modelled are what the main thread sends for the tuples it has read
  (\<open>ovs_run\<close>) and what a handler does with its messages (\<open>ovs_handle\<close>).

  Both do something other than intended.  The number of packets is set to 0 at the end of an interval, but
  the number of the last interval is kept: every interval is longer than the one before
  (\<open>ovs_messages\<close>).  And the handler calls \<^verbatim>\<open>SKL_Update_Fast\<close>, which counts nothing: the sketches are empty
  (\<open>ovs_sketches_empty\<close>).
\<close>

section \<open>The main thread\<close>

record ovs_main =
  o_last :: u64
  o_cnt :: u64
  o_byte :: u64
  o_index :: nat
  o_start :: u64
  o_used :: u64

definition ovs_init :: "u64 \<Rightarrow> u64 \<Rightarrow> ovs_main" where
  "ovs_init now u0 = \<lparr>o_last = 0, o_cnt = 0, o_byte = 0, o_index = 0, o_start = now, o_used = u0\<rparr>"

definition punc_tuple :: "'f float_ops \<Rightarrow> 'f tuple_t" where
  "punc_tuple F = (zero_tuple F)\<lparr>t_flag := TUPLE_PUNC\<rparr>"

text \<open>
  One round of the loop with the tuple \<open>t\<close>; \<open>c1\<close> and \<open>c2\<close> are what \<^verbatim>\<open>now_us()\<close> returns.  The messages are
  given with the number of the thread they are for.  \<open>None\<close> is a division by 0, or the access to a thread
  when there is none.
\<close>

definition ovs_step ::
  "'f float_ops \<Rightarrow> nat \<Rightarrow> u64 \<Rightarrow> u64 \<Rightarrow> u64 \<Rightarrow> ovs_main \<Rightarrow> 'f tuple_t \<Rightarrow> (ovs_main \<times> (nat \<times> 'f tuple_t) list) option" where
  "ovs_step F num_thread interval_len c1 c2 m t =
     (if interval_len = 0 \<or> num_thread \<le> o_index m then None
      else
        let ci = o_cnt m div interval_len;
            (m, ends) =
              (if o_last m = 0 then (m\<lparr>o_last := ci\<rparr>, [])
               else if o_last m < ci
               then (m\<lparr>o_used := o_used m + (c1 - o_start m), o_cnt := 0, o_byte := 0, o_last := ci, o_start := c2\<rparr>,
                     map (\<lambda>i. (i, punc_tuple F)) [0..<num_thread])
               else (m, []))
        in Some (m\<lparr>o_cnt := o_cnt m + 1, o_byte := o_byte m + scast (t_size t),
                   o_index := (o_index m + 1) mod num_thread\<rparr>,
                 ends @ [(o_index m, t)]))"

fun ovs_run ::
  "'f float_ops \<Rightarrow> nat \<Rightarrow> u64 \<Rightarrow> ovs_main \<Rightarrow> ('f tuple_t \<times> u64 \<times> u64) list \<Rightarrow>
     (ovs_main \<times> (nat \<times> 'f tuple_t) list) option" where
  "ovs_run F num_thread interval_len m [] = Some (m, [])"
| "ovs_run F num_thread interval_len m ((t, c1, c2) # ts) =
     (case ovs_step F num_thread interval_len c1 c2 m t of
        None \<Rightarrow> None
      | Some (m, out) \<Rightarrow>
          map_option (\<lambda>(m, outs). (m, out @ outs)) (ovs_run F num_thread interval_len m ts))"

section \<open>The handler threads\<close>

definition ovs_path :: "string \<Rightarrow> u64 \<Rightarrow> string" where
  "ovs_path dir i = dir @ ''/sketches_ovs/'' @ ''sketchlearn'' @ ''_'' @ show_nat (unat i)"

definition ovs_output ::
  "'f float_ops \<Rightarrow> (string \<Rightarrow> bool) \<Rightarrow> string \<Rightarrow> 'f sketch_state \<Rightarrow> 'f sketch_state result" where
  "ovs_output F writable tmp st =
     (case SKL_CompleteZeroes F (sk_skl st) (sk_dists st) of
        None \<Rightarrow> Inl Invalid_access
      | Some (skl, bd) \<Rightarrow>
          let st = st\<lparr>sk_skl := skl, sk_dists := bd\<rparr>
          in if length tmp < 100 \<and> writable tmp
             then case SKL_Print skl of
                    None \<Rightarrow> Inl Invalid_access
                  | Some s \<Rightarrow> Inr (st\<lparr>sk_files := (sk_files st)(tmp \<mapsto> s)\<rparr>)
             else Inl Invalid_access)"

definition ovs_punc ::
  "'f float_ops \<Rightarrow> (string \<Rightarrow> bool) \<Rightarrow> string \<Rightarrow> bool \<Rightarrow> 'f sketch_state \<Rightarrow> 'f sketch_state result" where
  "ovs_punc F writable dir is_output st =
     (case if is_output then ovs_output F writable (ovs_path dir (sk_interval st)) st else Inr st of
        Inl err \<Rightarrow> Inl err
      | Inr st \<Rightarrow> Inr (st\<lparr>sk_interval := sk_interval st + 1, tot_byte := 0, sk_skl := SKL_Reset (sk_skl st)\<rparr>))"

definition ovs_update :: "'f sketch_state \<Rightarrow> 'f tuple_t \<Rightarrow> 'f sketch_state result" where
  "ovs_update st t =
     (case SKL_Update_Fast (sk_skl st) (t_key t) (t_size t) of
        None \<Rightarrow> Inl Invalid_access
      | Some skl \<Rightarrow> Inr (st\<lparr>sk_skl := skl, sk_cnt := sk_cnt st + 1, tot_byte := tot_byte st + scast (t_size t)\<rparr>))"

text \<open>The last file is written to the directory of the simulated data plane.\<close>

definition ovs_term ::
  "'f float_ops \<Rightarrow> (string \<Rightarrow> bool) \<Rightarrow> string \<Rightarrow> bool \<Rightarrow> 'f sketch_state \<Rightarrow> 'f sketch_state result" where
  "ovs_term F writable dir is_output st =
     (if is_output then ovs_output F writable (sketch_path dir (sk_interval st)) st else Inr st)"

definition ovs_handle ::
  "'f float_ops \<Rightarrow> (string \<Rightarrow> bool) \<Rightarrow> string \<Rightarrow> bool \<Rightarrow> 'f sketch_state \<Rightarrow> 'f tuple_t \<Rightarrow>
     ('f sketch_state \<times> handler_pc) result" where
  "ovs_handle F writable dir is_output =
     on_tuple ovs_update (ovs_punc F writable dir is_output) (ovs_term F writable dir is_output)"

section \<open>The intervals\<close>

text \<open>The packet with which the k-th interval begins, when the interval length is \<open>L\<close>.\<close>

fun first_packet :: "nat \<Rightarrow> nat \<Rightarrow> nat" where
  "first_packet L 0 = 0"
| "first_packet L (Suc k) = first_packet L k + (k + 2) * L"

definition cuts :: "nat \<Rightarrow> nat set" where
  "cuts L = {p. \<exists>k. p = first_packet L (Suc k)}"

definition ovs_sent ::
  "'f float_ops \<Rightarrow> nat \<Rightarrow> nat \<Rightarrow> (nat \<Rightarrow> 'f tuple_t) \<Rightarrow> nat \<Rightarrow> (nat \<times> 'f tuple_t) list" where
  "ovs_sent F n L t p =
     (if p \<in> cuts L then map (\<lambda>i. (i, punc_tuple F)) [0..<n] else []) @ [(p mod n, t p)]"

text \<open>The state before packet \<open>p\<close>, of interval \<open>k\<close>.\<close>

definition ovs_at :: "nat \<Rightarrow> nat \<Rightarrow> nat \<Rightarrow> nat \<Rightarrow> ovs_main \<Rightarrow> bool" where
  "ovs_at L n p k m \<longleftrightarrow>
     p \<le> first_packet L (Suc k) \<and> (0 < k \<longrightarrow> first_packet L k < p) \<and>
     unat (o_cnt m) = p - first_packet L k \<and>
     unat (o_last m) = (if k = 0 \<and> p \<le> L then 0 else k + 1) \<and> o_index m = p mod n"

lemma first_packet_less: "0 < L \<Longrightarrow> j < k \<Longrightarrow> first_packet L j < first_packet L k"
proof (induction k)
  case (Suc k)
  then show ?case
    by (cases "j = k") (auto simp: less_Suc_eq intro: less_trans)
qed simp

lemma cuts_iff:
  assumes "0 < L" and "p \<le> first_packet L (Suc k)" and "0 < k \<longrightarrow> first_packet L k < p"
  shows "p \<in> cuts L \<longleftrightarrow> p = first_packet L (Suc k)"
proof
  assume "p \<in> cuts L"
  then obtain j where p: "p = first_packet L (Suc j)"
    by (auto simp: cuts_def)
  then have "\<not> k < j"
    using first_packet_less [OF assms(1), of "Suc k" "Suc j"] assms(2) by auto
  moreover have "\<not> j < k"
  proof
    assume "j < k"
    then have "first_packet L (Suc j) \<le> first_packet L k"
      using first_packet_less [OF assms(1), of "Suc j" k] by (cases "Suc j = k") auto
    then show False
      using assms(3) p \<open>j < k\<close> by simp
  qed
  ultimately show "p = first_packet L (Suc k)"
    using p by (cases "j = k") auto
qed (auto simp: cuts_def)

lemma ovs_cut_iff:
  assumes "0 < L" and at: "ovs_at L n p k m" and "unat len = L"
  shows "o_last m \<noteq> 0 \<and> o_last m < o_cnt m div len \<longleftrightarrow> p = first_packet L (Suc k)"
proof -
  have a: "p \<le> first_packet L (Suc k)" "0 < k \<longrightarrow> first_packet L k < p" "unat (o_cnt m) = p - first_packet L k"
    "unat (o_last m) = (if k = 0 \<and> p \<le> L then 0 else k + 1)"
    using at by (simp_all add: ovs_at_def)
  have less: "o_last m < o_cnt m div len \<longleftrightarrow> unat (o_last m) < (p - first_packet L k) div L"
    by (simp add: word_less_nat_alt unat_div a(3) assms(3))
  have zero: "o_last m = 0 \<longleftrightarrow> k = 0 \<and> p \<le> L"
    using a(4) unat_eq_zero [of "o_last m"] by (auto split: if_splits)
  have "(k + 1 < (p - first_packet L k) div L) = ((k + 2) * L \<le> p - first_packet L k)"
    using assms(1) less_eq_div_iff_mult_less_eq [of L "k + 2" "p - first_packet L k"] by linarith
  also have "\<dots> = (p = first_packet L (Suc k))"
    using a(1,2) assms(1) by (cases "k = 0") auto
  finally have cut: "k + 1 < (p - first_packet L k) div L \<longleftrightarrow> p = first_packet L (Suc k)" .
  show ?thesis
  proof (cases "k = 0 \<and> p \<le> L")
    case True
    then show ?thesis
      using zero assms(1) by simp
  next
    case False
    then show ?thesis
      using zero less cut a(4) by auto
  qed
qed

lemma ovs_at_step:
  assumes L: "0 < L" "unat len = L" and n: "0 < n" and at: "ovs_at L n p k m" and p: "Suc p < 2 ^ 64"
  shows "\<exists>m' k'. ovs_step F n len c1 c2 m (t p) = Some (m', ovs_sent F n L t p) \<and> ovs_at L n (Suc p) k' m'"
proof -
  have a: "p \<le> first_packet L (Suc k)" "0 < k \<longrightarrow> first_packet L k < p" "unat (o_cnt m) = p - first_packet L k"
    "unat (o_last m) = (if k = 0 \<and> p \<le> L then 0 else k + 1)" "o_index m = p mod n"
    using at by (simp_all add: ovs_at_def)
  have cut: "p \<in> cuts L \<longleftrightarrow> p = first_packet L (Suc k)"
    using cuts_iff [OF L(1) a(1,2)] .
  note cut_iff = ovs_cut_iff [OF L(1) at L(2)]
  have run: "len \<noteq> 0" "\<not> n \<le> o_index m"
    using L mod_less_divisor [OF n, of p] a(5) by (auto simp: not_le)
  have index: "(o_index m + 1) mod n = Suc p mod n"
    by (simp add: a(5) mod_Suc_eq)
  have ci: "unat (o_cnt m div len) = (p - first_packet L k) div L"
    by (simp add: unat_div a(3) L(2))
  show ?thesis
  proof (cases "p = first_packet L (Suc k)")
    case True
    have last: "o_last m \<noteq> 0" "o_last m < o_cnt m div len"
      using cut_iff True by simp_all
    define m' where "m' = m\<lparr>o_used := o_used m + (c1 - o_start m), o_cnt := 1, o_byte := scast (t_size (t p)),
      o_last := o_cnt m div len, o_start := c2, o_index := Suc p mod n\<rparr>"
    have "ovs_step F n len c1 c2 m (t p) = Some (m', ovs_sent F n L t p)"
      using run last cut True index a(5) by (simp add: ovs_step_def ovs_sent_def m'_def)
    moreover have "(p - first_packet L k) div L = k + 2"
      using True L(1) by simp
    then have "ovs_at L n (Suc p) (Suc k) m'"
      using ci True L(1) by (auto simp: ovs_at_def m'_def)
    ultimately show ?thesis
      by blast
  next
    case False
    then have cont: "o_last m = 0 \<or> \<not> o_last m < o_cnt m div len"
      using cut_iff by blast
    define m' where "m' = m\<lparr>o_last := (if o_last m = 0 then o_cnt m div len else o_last m), o_cnt := o_cnt m + 1,
      o_byte := o_byte m + scast (t_size (t p)), o_index := Suc p mod n\<rparr>"
    have "ovs_step F n len c1 c2 m (t p) = Some (m', ovs_sent F n L t p)"
      using run cont cut False index a(5) by (auto simp: ovs_step_def ovs_sent_def m'_def)
    moreover have "unat (o_cnt m + 1) = Suc p - first_packet L k"
      using a(2,3) p by (cases "k = 0") (auto simp: unat_word_ariths Suc_diff_le)
    moreover have "unat (o_last m') = (if k = 0 \<and> Suc p \<le> L then 0 else k + 1)"
    proof (cases "k = 0 \<and> p \<le> L")
      case True
      then have "o_last m = 0"
        using a(4) unat_eq_zero by auto
      then show ?thesis
        using ci True L(1) by (cases "p = L") (simp_all add: m'_def)
    next
      case False
      then have "o_last m \<noteq> 0" "\<not> (k = 0 \<and> Suc p \<le> L)"
        using a(4) by auto
      then show ?thesis
        using a(4) False by (simp add: m'_def)
    qed
    ultimately have "ovs_at L n (Suc p) k m'"
      using a(1,2) False by (auto simp: ovs_at_def m'_def)
    then show ?thesis
      using \<open>ovs_step F n len c1 c2 m (t p) = Some (m', ovs_sent F n L t p)\<close> by blast
  qed
qed

lemma ovs_at_run:
  assumes "0 < L" and "unat len = L" and "0 < n" and "ovs_at L n p k m" and "p + N < 2 ^ 64"
    and "length ck = N"
  shows "\<exists>m'. ovs_run F n len m (zip (map t [p..<p + N]) ck) =
    Some (m', concat (map (ovs_sent F n L t) [p..<p + N]))"
  using assms(4-)
proof (induction N arbitrary: p k m ck)
  case (Suc N)
  obtain c1 c2 ck' where ck: "ck = (c1, c2) # ck'" "length ck' = N"
    using Suc.prems(3) by (cases ck) auto
  have ps: "[p..<p + Suc N] = p # [Suc p..<Suc p + N]"
    by (simp add: upt_rec [of p])
  obtain m1 k1 where "ovs_step F n len c1 c2 m (t p) = Some (m1, ovs_sent F n L t p)" "ovs_at L n (Suc p) k1 m1"
    using ovs_at_step [OF assms(1-3) Suc.prems(1), of F c1 c2 t] Suc.prems(2) by auto
  moreover obtain m' where "ovs_run F n len m1 (zip (map t [Suc p..<Suc p + N]) ck') =
      Some (m', concat (map (ovs_sent F n L t) [Suc p..<Suc p + N]))"
    using Suc.IH [OF calculation(2) _ ck(2)] Suc.prems(2) by auto
  ultimately show ?case
    unfolding ck(1) ps by (simp del: upt_Suc)
qed simp

lemma cuts_eq: "cuts L = {L * ((k + 1) * (k + 4) div 2) | k. True}"
proof -
  have double: "2 * first_packet L (Suc k) = L * ((k + 1) * (k + 4))" for k
    by (induction k) (simp_all add: algebra_simps)
  have "first_packet L (Suc k) = L * ((k + 1) * (k + 4) div 2)" for k
  proof -
    have "even ((k + 1) * (k + 4))"
      by (cases "even k") simp_all
    then obtain c where c: "(k + 1) * (k + 4) = 2 * c"
      by (rule evenE)
    then show ?thesis
      using double [of k] unfolding c by simp
  qed
  then show ?thesis
    unfolding cuts_def by (simp only: simp_thms)
qed

text \<open>
  Claim C35. The intervals of \<^verbatim>\<open>dp_ovs\<close> become longer and longer.  With an interval length of \<open>L\<close> packets the
  first interval has 2 \<open>L\<close> packets and the k-th one k + 1 times \<open>L\<close> of them: the punctuations, one for every
  thread, come before packets 2 \<open>L\<close>, 5 \<open>L\<close>, 9 \<open>L\<close> and so on only, whatever the packets are and whatever the
  clock shows.  The packets themselves go to the threads in turn, each once and in order.
\<close>

theorem ovs_messages:
  assumes "0 < n" and "len \<noteq> 0" and "length ts = length ck" and "length ts < 2 ^ 64"
  shows "(\<exists>m. ovs_run F n len (ovs_init now u0) (zip ts ck) =
      Some (m, concat (map (ovs_sent F n (unat len) ((!) ts)) [0..<length ts]))) \<and>
    cuts (unat len) = {unat len * ((k + 1) * (k + 4) div 2) | k. True}"
proof -
  have len: "0 < unat len"
    using assms(2) by (simp add: unat_gt_0)
  have "ovs_at (unat len) n 0 0 (ovs_init now u0)"
    by (simp add: ovs_at_def ovs_init_def)
  from ovs_at_run [OF len refl assms(1) this _ assms(3) [symmetric], of F "(!) ts"]
  have "\<exists>m. ovs_run F n len (ovs_init now u0) (zip ts ck) =
      Some (m, concat (map (ovs_sent F n (unat len) ((!) ts)) [0..<length ts]))"
    using assms(4) by (simp only: add_0 map_nth)
  then show ?thesis
    using cuts_eq by blast
qed

theorem ovs_messages_witness:
  "(\<exists>m. ovs_run rat_ops 2 1 (ovs_init 0 0)
      (zip [small_packet 1, small_packet 2, small_packet 3] [(0, 0), (0, 0), (0, 0)]) =
    Some (m, [(0, small_packet 1), (1, small_packet 2), (0, punc_tuple rat_ops), (1, punc_tuple rat_ops), (0, small_packet 3)]))"
proof -
  let ?ts = "[small_packet 1, small_packet 2, small_packet 3]"
  have "0 < (2 :: nat)" "(1 :: u64) \<noteq> 0" "length ?ts = length [(0 :: u64, 0 :: u64), (0, 0), (0, 0)]" "length ?ts < 2 ^ 64"
    by simp_all
  note run = ovs_messages [OF this, of rat_ops 0 0]
  have cut: "p \<in> cuts 1 \<longleftrightarrow> p = 2" if "p < 3" for p
    using cuts_iff [of 1 p 0] that by (simp add: eval_nat_numeral)
  have three: "[0..<length ?ts] = [0, 1, 2]" and two: "[0..<2] = [0, 1 :: nat]"
    by (simp_all add: upt_rec)
  have sent: "ovs_sent rat_ops 2 1 ((!) ?ts) 0 = [(0, small_packet 1)]" "ovs_sent rat_ops 2 1 ((!) ?ts) 1 = [(1, small_packet 2)]"
    "ovs_sent rat_ops 2 1 ((!) ?ts) 2 = [(0, punc_tuple rat_ops), (1, punc_tuple rat_ops), (0, small_packet 3)]"
    using cut [of 0] cut [of 1] cut [of 2] by (simp_all add: ovs_sent_def two)
  have "unat (1 :: u64) = 1"
    by simp
  then show ?thesis
    using conjunct1 [OF run] unfolding three by (simp only: sent list.map concat.simps append.simps)
qed

section \<open>The files\<close>

lemma completed_reset:
  assumes "skl_ok skl" and "SKL_Reset skl = skl"
  shows "completed skl = skl"
proof -
  let ?n = "lgn skl" and ?zeros = "replicate (1 + lgn skl * 2) (0 :: u32)"
  note spec = complete_bucket_spec [of ?zeros ?n, simplified length_replicate, OF refl]
  have "complete_bucket ?n ?zeros = ?zeros"
  proof (rule nth_equalityI)
    fix k
    assume k: "k < length (complete_bucket ?n ?zeros)"
    show "complete_bucket ?n ?zeros ! k = ?zeros ! k"
    proof (cases "k \<le> ?n")
      case False
      then have "k = k - 1 - ?n + 1 + ?n" "k - 1 - ?n < ?n"
        using k spec(1) by auto
      then show ?thesis
        using spec(3) [of "k - 1 - ?n"] k spec(1) by simp
    qed (use spec(2) in blast)
  qed (use spec(1) in simp)
  then have "map (complete_bucket ?n) (map (\<lambda>_. ?zeros) (counts skl)) = map (\<lambda>_. ?zeros) (counts skl)"
    by simp
  then have "completed (SKL_Reset skl) = SKL_Reset skl"
    by (simp add: completed_def SKL_Reset_def)
  then show ?thesis
    using assms(2) by simp
qed

text \<open>The state of a handler whose sketch is still the sketch \<open>skl\<close> it began with.\<close>

definition ovs_idle :: "SketchLearn \<Rightarrow> nat \<Rightarrow> 'f sketch_state \<Rightarrow> bool" where
  "ovs_idle skl k st \<longleftrightarrow>
     sk_skl st = skl \<and> sk_interval st = of_nat k \<and>
     lgn skl \<le> length (bit_mean (sk_dists st)) \<and> lgn skl \<le> length (bit_std (sk_dists st))"

lemma ovs_punc_idle:
  fixes F :: "'f float_ops"
  assumes skl: "skl_ok skl" "SKL_Reset skl = skl" "depth skl * width skl \<noteq> 1" and s: "SKL_Print skl = Some s"
    and path: "\<forall>i. length (ovs_path dir i) < 100 \<and> writable (ovs_path dir i)" and st: "ovs_idle skl k st"
  shows "\<exists>st'. ovs_punc F writable dir True st = Inr st' \<and> ovs_idle skl (Suc k) st' \<and>
    sk_files st' = (sk_files st)(ovs_path dir (of_nat k) \<mapsto> s)"
proof -
  obtain bd where bd: "SKL_CompleteZeroes F skl (sk_dists st) = Some (skl, bd)"
    using CompleteZeroes_Some [OF skl(1), of "sk_dists st" F] st skl(3) completed_reset [OF skl(1,2)]
    by (auto simp: ovs_idle_def)
  then have "lgn skl \<le> length (bit_mean bd) \<and> lgn skl \<le> length (bit_std bd)"
    by (auto simp: SKL_CompleteZeroes_def compute_bit_dists_def Let_def split: if_splits)
  then show ?thesis
    using st bd s path skl(2) by (simp add: ovs_punc_def ovs_output_def ovs_idle_def Let_def add.commute)
qed

lemma ovs_update_idle:
  assumes "skl_ok skl" and "key_ok skl (t_key t)" and "ovs_idle skl k st"
  shows "\<exists>st'. ovs_update st t = Inr st' \<and> ovs_idle skl k st' \<and> sk_files st' = sk_files st"
proof -
  have "SKL_Update_Fast skl (t_key t) (t_size t) = Some skl"
    using assms(1) row_hash_Some [OF assms(1,2)] by (auto simp: SKL_Update_Fast_def list_all_iff skl_ok_def)
  then show ?thesis
    using assms(3) by (simp add: ovs_update_def ovs_idle_def)
qed

lemma ovs_handle_idle:
  fixes F :: "'f float_ops"
  assumes skl: "skl_ok skl" "SKL_Reset skl = skl" "depth skl * width skl \<noteq> 1" and s: "SKL_Print skl = Some s"
    and path: "\<forall>i. length (ovs_path dir i) < 100 \<and> writable (ovs_path dir i)" and st: "ovs_idle skl k st"
    and ts: "\<forall>t \<in> set ts. key_ok skl (t_key t) \<and> t_flag t \<noteq> TUPLE_TERM"
  shows "\<exists>st'. handle_all (ovs_handle F writable dir True) st ts = Inr st' \<and> ovs_idle skl (k + puncs ts) st' \<and>
    (\<forall>q. sk_files st' q = sk_files st q \<or> sk_files st' q = Some s) \<and>
    (\<forall>j. k \<le> j \<and> j < k + puncs ts \<longrightarrow> sk_files st' (ovs_path dir (of_nat j)) = Some s)"
  using st ts
proof (induction ts arbitrary: k st)
  case Nil
  then show ?case
    by (auto simp: puncs_def)
next
  case (Cons t ts)
  show ?case
  proof (cases "t_flag t = TUPLE_PUNC")
    case True
    obtain st1 where 1: "ovs_punc F writable dir True st = Inr st1" "ovs_idle skl (Suc k) st1"
      "sk_files st1 = (sk_files st)(ovs_path dir (of_nat k) \<mapsto> s)"
      using ovs_punc_idle [OF skl s path Cons.prems(1)] by blast
    obtain st2 where 2: "handle_all (ovs_handle F writable dir True) st1 ts = Inr st2" "ovs_idle skl (Suc k + puncs ts) st2"
      "\<forall>q. sk_files st2 q = sk_files st1 q \<or> sk_files st2 q = Some s"
      "\<forall>j. Suc k \<le> j \<and> j < Suc k + puncs ts \<longrightarrow> sk_files st2 (ovs_path dir (of_nat j)) = Some s"
      using Cons.IH [OF 1(2)] Cons.prems(2) by auto
    have "handle_all (ovs_handle F writable dir True) st (t # ts) = Inr st2"
      using 1(1) 2(1) True by (simp add: ovs_handle_def on_tuple_def flag_defs)
    moreover have "puncs (t # ts) = Suc (puncs ts)"
      using True by (simp add: puncs_def)
    moreover have "sk_files st2 (ovs_path dir (of_nat j)) = Some s" if "k \<le> j" "j < Suc k + puncs ts" for j
      using 2(3,4) 1(3) that by (cases "j = k") (metis fun_upd_same, simp)
    moreover have "sk_files st2 q = sk_files st q \<or> sk_files st2 q = Some s" for q
      using 2(3) 1(3) by (metis fun_upd_apply)
    ultimately show ?thesis
      using 2(2) by (intro exI [of _ st2]) (simp del: handle_all.simps)
  next
    case False
    obtain st1 where 1: "ovs_update st t = Inr st1" "ovs_idle skl k st1" "sk_files st1 = sk_files st"
      using ovs_update_idle [OF skl(1) _ Cons.prems(1), of t] Cons.prems(2) by auto
    have "handle_all (ovs_handle F writable dir True) st (t # ts) = handle_all (ovs_handle F writable dir True) st1 ts"
      using 1(1) False Cons.prems(2) by (simp add: ovs_handle_def on_tuple_def)
    moreover have "puncs (t # ts) = puncs ts"
      using False by (simp add: puncs_def)
    ultimately show ?thesis
      using Cons.IH [OF 1(2)] Cons.prems(2) 1(3) by simp
  qed
qed

text \<open>
  The sketches of \<^verbatim>\<open>dp_ovs\<close> are empty.  Whatever tuples a handler thread gets, no access is invalid,
  every punctuation leads to a file, and all the files are the same: the print of the sketch as
  \<^verbatim>\<open>SKL_Init\<close> leaves it, from which \<^verbatim>\<open>SKL_ReadFile\<close> reads zero counters.  (\<^verbatim>\<open>SKL_Update_Fast\<close> does not
  count.)
\<close>

theorem ovs_sketches_empty:
  fixes F :: "'f float_ops"
  assumes skl: "SKL_Init rand g w d key_len = Some (skl, g')" and sizes: "w \<le> INT_MAX" "8 dvd key_len" "key_len \<le> 104"
    and dists: "length (bit_mean bd) = 104" "length (bit_std bd) = 104"
    and path: "\<forall>i. length (ovs_path dir i) < 100 \<and> writable (ovs_path dir i)"
    and ts: "\<forall>t \<in> set ts. length (t_key t) = 13 \<and> t_flag t \<noteq> TUPLE_TERM"
  shows "\<exists>st s. handle_all (ovs_handle F writable dir True) (sketch_init skl bd files) ts = Inr st \<and>
    sk_skl st = skl \<and> SKL_Print skl = Some s \<and> sketch_file skl ([] :: 'f tuple_t list) s \<and>
    (\<forall>k < puncs ts. sk_files st (ovs_path dir (of_nat k)) = Some s)"
proof -
  note shape = SKL_Init_shape [OF skl sizes(1,2)]
  note empty = completed_reset [OF shape(1,4)]
  have "cnt (SKL_Reset skl) i j k = 0" if "i < depth skl" "j < width skl" "k \<le> lgn skl" for i j k
    using SKL_Reset_spec(3) [OF shape(1)] that by simp
  then have "counts_tuples skl ([] :: 'f tuple_t list) skl"
    using shape(4) by (simp add: counts_tuples_def key_sizes_def)
  then obtain s where s: "SKL_Print skl = Some s" "sketch_file skl ([] :: 'f tuple_t list) s"
    using print_sketch_file [OF shape(1) _ shape(5)] unfolding empty by auto
  have "\<forall>t \<in> set ts. key_ok skl (t_key t) \<and> t_flag t \<noteq> TUPLE_TERM"
    using ts sizes(3) shape(3) by (auto simp: key_ok_def)
  moreover have "ovs_idle skl 0 (sketch_init skl bd files)"
    using dists sizes(3) shape(3) by (simp add: ovs_idle_def sketch_init_def)
  ultimately show ?thesis
    using ovs_handle_idle [OF shape(1,4,6) s(1) path, of 0 "sketch_init skl bd files" ts F] s
    by (auto simp: ovs_idle_def)
qed

lemma short_ovs_path: "length dir \<le> 50 \<Longrightarrow> length (ovs_path dir i) < 100"
  using add_mono [OF _ length_show_u64 [of i], of "length dir" 50] by (simp add: ovs_path_def)

theorem ovs_sketches_empty_witness:
  "\<exists>skl g st s. SKL_Init of_nat \<lparr>seed = 0, drawn = 0\<rparr> 4 2 104 = Some (skl, g) \<and>
    handle_all (ovs_handle rat_ops (\<lambda>_. True) ''d'' True)
      (sketch_init skl \<lparr>bit_mean = replicate 104 0, bit_std = replicate 104 0\<rparr> Map.empty)
      [small_packet 1, punc_tuple rat_ops] = Inr st \<and>
    SKL_Print skl = Some s \<and> sketch_file skl ([] :: rat tuple_t list) s \<and> sk_files st (ovs_path ''d'' 0) = Some s"
proof -
  obtain skl g where skl: "SKL_Init of_nat \<lparr>seed = 0, drawn = 0\<rparr> 4 2 104 = Some (skl, g)"
    using small_sketch by blast
  let ?ts = "[small_packet 1, punc_tuple rat_ops]" and ?bd = "\<lparr>bit_mean = replicate 104 0, bit_std = replicate 104 (0 :: rat)\<rparr>"
  have "(4 :: int) \<le> INT_MAX" "8 dvd (104 :: nat)" "(104 :: nat) \<le> 104"
    "length (bit_mean ?bd) = 104" "length (bit_std ?bd) = 104"
    "\<forall>i. length (ovs_path ''d'' i) < 100 \<and> (\<lambda>_. True) (ovs_path ''d'' i)"
    "\<forall>t \<in> set ?ts. length (t_key t) = 13 \<and> t_flag t \<noteq> TUPLE_TERM"
    by (simp_all add: INT_MAX_def short_ovs_path punc_tuple_def zero_tuple_def small_packet_def flag_defs)
  from ovs_sketches_empty [OF skl this, of rat_ops Map.empty]
  obtain st s where "handle_all (ovs_handle rat_ops (\<lambda>_. True) ''d'' True) (sketch_init skl ?bd Map.empty) ?ts = Inr st"
    "SKL_Print skl = Some s" "sketch_file skl ([] :: rat tuple_t list) s"
    "\<forall>k < puncs ?ts. sk_files st (ovs_path ''d'' (of_nat k)) = Some s"
    by blast
  moreover have "puncs ?ts = 1"
    by (simp add: puncs_def punc_tuple_def small_packet_def flag_defs)
  ultimately show ?thesis
    using skl by (intro exI conjI) (assumption | simp)+
qed

end
