(* ===== verification/Controller.thy ===== *)
theory Controller
  imports Sketches Sketch_Merge Sketch_Identify Key_Table_Correct Tuple_Text
begin

text \<open>
  \<^verbatim>\<open>controller.c\<close>: the large flows of an interval are extracted from its sketch.  \<^verbatim>\<open>detect_with_thresh\<close>
  looks for flows in a copy of the sketch, subtracts what it has found from the copy, and looks again until
  nothing new is found.  \<^verbatim>\<open>do_inference\<close> does this for the thresholds 1/2 and 1/3 and subtracts the
  flows from the sketch itself; what remains is printed.

  The arrays \<^verbatim>\<open>keys\<close>, \<^verbatim>\<open>vals\<close> and \<^verbatim>\<open>confs\<close> are the list of records that \<open>SKL_Identify_Thresh\<close> returns; an array that
  is filled from its start is the list of its filled elements, and an array of \<^verbatim>\<open>max_ret\<close> elements of which
  stale ones are read is a list of that length.  The four calls of \<^verbatim>\<open>qsort\<close> are fields of the parameter \<open>S\<close>.
\<close>

section \<open>Data\<close>

record 'f rich_tuple =
  rt_key :: "u8 list"
  rt_size :: u32
  rt_index :: u64
  rt_conf :: "'f list"

definition zero_rich :: "'f float_ops \<Rightarrow> 'f rich_tuple" where
  "zero_rich F = \<lparr>rt_key = replicate 13 0, rt_size = 0, rt_index = 0, rt_conf = replicate 104 (f_of_int F 0)\<rparr>"

record 'f sorts =
  qs_infos :: "'f bit_info list \<Rightarrow> 'f bit_info list"
  qs_ests :: "int list \<Rightarrow> int list"
  qs_rich :: "'f rich_tuple list \<Rightarrow> 'f rich_tuple list"
  qs_confs :: "'f list \<Rightarrow> 'f list"

definition sorts_ok :: "'f sorts \<Rightarrow> bool" where
  "sorts_ok S \<longleftrightarrow> permuting (qs_infos S) \<and> permuting (qs_ests S) \<and> permuting (qs_rich S) \<and> permuting (qs_confs S)"

text \<open>What the programs read from the configuration file.\<close>

record 'f skl_conf =
  skl_width :: int
  skl_depth :: nat
  key_len :: nat
  keytbl_timeout :: 'f

section \<open>Removing flows\<close>

definition remove_large ::
  "'f float_ops \<Rightarrow> SketchLearn \<Rightarrow> 'f bit_dists \<Rightarrow> 'f rich_tuple list \<Rightarrow> nat \<Rightarrow> (SketchLearn \<times> 'f bit_dists) option" where
  "remove_large F skl bd flows n =
     (if n \<le> length flows \<and> list_all (\<lambda>r. sint (rt_size r) \<noteq> - INT_MAX - 1) (take n flows)
      then Option.bind (SKL_Updates skl (map (\<lambda>r. (rt_key r, - rt_size r)) (take n flows))) (\<lambda>skl. SKL_CompleteZeroes F skl bd)
      else None)"

section \<open>Detecting flows\<close>

text \<open>
  The loop that drops the flows found in an earlier round; \<open>n\<close> is \<^verbatim>\<open>skl->lgn\<close>.  The confidences of flow \<open>i\<close> go
  to element \<open>i\<close> of \<^verbatim>\<open>list_tmp\<close>, its key and its size to element \<^verbatim>\<open>n_tmp\<close>.
\<close>

definition put_flow :: "nat \<Rightarrow> nat \<Rightarrow> 'f found \<Rightarrow> 'f rich_tuple list \<times> nat \<Rightarrow> ('f rich_tuple list \<times> nat) option" where
  "put_flow n i f s =
     (case s of (tmp, n_tmp) \<Rightarrow>
        if n_tmp < length tmp \<and> i < length tmp \<and> n div 8 \<le> 13 \<and> n \<le> 104
        then let r = tmp ! n_tmp;
                 tmp = tmp[n_tmp := r\<lparr>rt_key := take (n div 8) (fd_key f) @ drop (n div 8) (rt_key r),
                                     rt_size := of_int (fd_val f)\<rparr>];
                 r = tmp ! i
             in Some (tmp[i := r\<lparr>rt_conf := take n (fd_conf f) @ drop n (rt_conf r)\<rparr>], Suc n_tmp)
        else None)"

fun new_flows ::
  "'f float_ops \<Rightarrow> nat \<Rightarrow> nat \<Rightarrow> 'f found list \<Rightarrow> 'f key_tbl \<times> 'f rich_tuple list \<times> nat \<Rightarrow>
     ('f key_tbl \<times> 'f rich_tuple list \<times> nat) result" where
  "new_flows F n i [] s = Inr s"
| "new_flows F n i (f # fs) (tbl, s) =
     (case key_tbl_find tbl (fd_key f) of
        Inl err \<Rightarrow> Inl err
      | Inr (Some _) \<Rightarrow> new_flows F n (Suc i) fs (tbl, s)
      | Inr None \<Rightarrow>
          (case record_add F tbl (fd_key f) 1 of
             Inl err \<Rightarrow> Inl err
           | Inr tbl \<Rightarrow>
               (case put_flow n i f s of
                  None \<Rightarrow> Inl Invalid_access
                | Some s \<Rightarrow> new_flows F n (Suc i) fs (tbl, s))))"

text \<open>
  The body of the loop that estimates the sizes: the entry of \<^verbatim>\<open>list_tmp\<close> afterwards, and whether it is added
  to the result.  The estimates do not depend on what \<^verbatim>\<open>bit_infos\<close> held before (\<open>Est_Size_infos\<close>).
\<close>

definition bits_104 :: "nat list" where
  "bits_104 = [0..<104]"

definition zero_infos :: "'f float_ops \<Rightarrow> 'f bit_info list" where
  "zero_infos F = replicate 104 \<lparr>bi_pos = 0, bi_guess = 0, bi_prob = f_of_int F 0\<rparr>"

definition judge_flow ::
  "'f float_ops \<Rightarrow> 'f sorts \<Rightarrow> nat \<Rightarrow> SketchLearn \<Rightarrow> 'f bit_dists \<Rightarrow> 'f rich_tuple \<Rightarrow> ('f rich_tuple \<times> bool) option" where
  "judge_flow F S n skl bd r =
     (let r = r\<lparr>rt_size := 0\<rparr>
      in case SKL_Est_Size F (qs_ests S) skl bd (rt_key r) bits_104 (zero_infos F) of
           None \<Rightarrow> None
         | Some (est, _) \<Rightarrow>
             if est \<le> 0 then Some (r, False)
             else if length (rt_conf r) < n \<or> length (rt_conf r) \<le> n * 9 div 10 then None
             else let r = r\<lparr>rt_conf := qs_confs S (take n (rt_conf r)) @ drop n (rt_conf r)\<rparr>
                  in if f_less F (rt_conf r ! (n * 9 div 10)) (f_of_int F 0) then Some (r, False)
                     else Some (r\<lparr>rt_size := of_int est\<rparr>, True))"

fun select_flows ::
  "'f float_ops \<Rightarrow> 'f sorts \<Rightarrow> nat \<Rightarrow> nat \<Rightarrow> SketchLearn \<Rightarrow> 'f bit_dists \<Rightarrow> 'f rich_tuple list \<Rightarrow> 'f rich_tuple list \<Rightarrow>
     ('f rich_tuple list \<times> 'f rich_tuple list) option" where
  "select_flows F S n max_ret skl bd [] ret = Some ([], ret)"
| "select_flows F S n max_ret skl bd (r # rs) ret =
     (case judge_flow F S n skl bd r of
        None \<Rightarrow> None
      | Some (r, kept) \<Rightarrow>
          if kept \<and> max_ret \<le> length ret then None
          else map_option (\<lambda>(rs, ret). (r # rs, ret))
                 (select_flows F S n max_ret skl bd rs (if kept then ret @ [r] else ret)))"

record 'f detect_state =
  ds_skl :: SketchLearn
  ds_bd :: "'f bit_dists"
  ds_tbl :: "'f key_tbl"
  ds_tmp :: "'f rich_tuple list"
  ds_ret :: "'f rich_tuple list"

definition detect_round ::
  "'f float_ops \<Rightarrow> 'f sorts \<Rightarrow> nat \<Rightarrow> nat \<Rightarrow> 'f \<Rightarrow> 'f detect_state \<Rightarrow> 'f detect_state result" where
  "detect_round F S n max_ret thresh st =
     (case SKL_Identify_Thresh F (qs_infos S) (ds_skl st) (ds_bd st) thresh max_ret of
        Inl err \<Rightarrow> Inl err
      | Inr (bd, found) \<Rightarrow>
          (case new_flows F n 0 found (ds_tbl st, ds_tmp st, 0) of
             Inl err \<Rightarrow> Inl err
           | Inr (tbl, tmp, n_tmp) \<Rightarrow>
               lift_invalid
                 (Option.bind (select_flows F S n max_ret (ds_skl st) bd (qs_rich S (take n_tmp tmp)) (ds_ret st)) (\<lambda>(rs, ret).
                  Option.bind (remove_large F (ds_skl st) bd (rs @ drop n_tmp tmp) n_tmp) (\<lambda>(skl, bd).
                    Some \<lparr>ds_skl = skl, ds_bd = bd, ds_tbl = tbl, ds_tmp = rs @ drop n_tmp tmp, ds_ret = ret\<rparr>)))))"

text \<open>The loop may take any number of rounds; \<open>None\<close> when \<open>fuel\<close> rounds are not enough.\<close>

fun detect_loop ::
  "nat \<Rightarrow> 'f float_ops \<Rightarrow> 'f sorts \<Rightarrow> nat \<Rightarrow> nat \<Rightarrow> 'f \<Rightarrow> 'f detect_state \<Rightarrow> 'f detect_state result option" where
  "detect_loop 0 F S n max_ret thresh st = None"
| "detect_loop (Suc fuel) F S n max_ret thresh st =
     (case detect_round F S n max_ret thresh st of
        Inl err \<Rightarrow> Some (Inl err)
      | Inr st' \<Rightarrow>
          if length (ds_ret st') = length (ds_ret st) then Some (Inr st')
          else detect_loop fuel F S n max_ret thresh st')"

text \<open>The state before the loop.\<close>

definition detect_start ::
  "'f float_ops \<Rightarrow> (nat \<Rightarrow> u64) \<Rightarrow> seed_state \<Rightarrow> 'f skl_conf \<Rightarrow> nat \<Rightarrow> SketchLearn \<Rightarrow> ('f detect_state \<times> seed_state) result" where
  "detect_start F rand g conf max_ret skl =
     (case SKL_Init rand g (skl_width conf) (skl_depth conf) (key_len conf) of
        None \<Rightarrow> Inl Invalid_access
      | Some (skl_new, g) \<Rightarrow>
          (case SKL_Copy skl_new skl of
             Inl err \<Rightarrow> Inl err
           | Inr skl_new \<Rightarrow>
               (case key_tbl_init F rand g (key_len conf) 60000 10 (keytbl_timeout conf) of
                  None \<Rightarrow> Inl Invalid_access
                | Some (tbl, g) \<Rightarrow>
                    let zeros = replicate 104 (f_of_int F 0)
                    in Inr (\<lparr>ds_skl = skl_new, ds_bd = \<lparr>bit_mean = zeros, bit_std = zeros\<rparr>, ds_tbl = tbl,
                             ds_tmp = replicate max_ret (zero_rich F), ds_ret = []\<rparr>, g))))"

definition detect_with_thresh ::
  "nat \<Rightarrow> 'f float_ops \<Rightarrow> 'f sorts \<Rightarrow> (nat \<Rightarrow> u64) \<Rightarrow> seed_state \<Rightarrow> 'f skl_conf \<Rightarrow> nat \<Rightarrow> SketchLearn \<Rightarrow> 'f \<Rightarrow>
     ('f rich_tuple list \<times> seed_state) result option" where
  "detect_with_thresh fuel F S rand g conf max_ret skl thresh =
     (case detect_start F rand g conf max_ret skl of
        Inl err \<Rightarrow> Some (Inl err)
      | Inr (st, g) \<Rightarrow>
          map_option (map_sum id (\<lambda>st. (ds_ret st, g))) (detect_loop fuel F S (lgn skl) max_ret thresh st))"

section \<open>Inference\<close>

text \<open>The flows of a round that are not in \<^verbatim>\<open>tbl_detect\<close> are added to the two lists and to the table.\<close>

fun record_flows ::
  "'f float_ops \<Rightarrow> nat \<Rightarrow> nat \<Rightarrow> 'f rich_tuple list \<Rightarrow> 'f key_tbl \<times> 'f rich_tuple list \<times> 'f tuple_t list \<times> nat \<Rightarrow>
     ('f key_tbl \<times> 'f rich_tuple list \<times> 'f tuple_t list \<times> nat) result" where
  "record_flows F n max_ret [] s = Inr s"
| "record_flows F n max_ret (r # rs) (tbl, det, all, n_all) =
     (case key_tbl_find tbl (rt_key r) of
        Inl err \<Rightarrow> Inl err
      | Inr (Some _) \<Rightarrow> record_flows F n max_ret rs (tbl, det, all, n_all)
      | Inr None \<Rightarrow>
          if max_ret \<le> length det \<or> length all \<le> n_all \<or> 13 < n div 8 then Inl Invalid_access
          else let t = (all ! n_all)\<lparr>t_key := take (n div 8) (rt_key r) @ drop (n div 8) (t_key (all ! n_all)),
                                     t_size := rt_size r\<rparr>
               in case record_add F tbl (t_key t) (t_size t) of
                    Inl err \<Rightarrow> Inl err
                  | Inr tbl \<Rightarrow> record_flows F n max_ret rs (tbl, det @ [r], all[n_all := t], Suc n_all))"

record 'f infer_state =
  is_skl :: SketchLearn
  is_bd :: "'f bit_dists"
  is_tbl :: "'f key_tbl"
  is_detect :: "'f rich_tuple list"
  is_all :: "'f tuple_t list"
  is_n :: nat
  is_seed :: seed_state

definition min_thresh :: "'f float_ops \<Rightarrow> 'f" where
  "min_thresh F = f_lit F 3 10"

text \<open>
  The loop over the thresholds \<^verbatim>\<open>1.0/d\<close>: its body, with whether the loop goes on, and the loop; \<open>rounds\<close> is the fuel
  of the loop of \<^verbatim>\<open>detect_with_thresh\<close>.
\<close>

definition inference_step ::
  "nat \<Rightarrow> 'f float_ops \<Rightarrow> 'f sorts \<Rightarrow> (nat \<Rightarrow> u64) \<Rightarrow> 'f skl_conf \<Rightarrow> nat \<Rightarrow> int \<Rightarrow> 'f infer_state \<Rightarrow>
     ('f infer_state \<times> bool) result option" where
  "inference_step rounds F S rand conf max_ret d st =
     (let thresh = f_div F (f_of_int F 1) (f_of_int F d)
      in if f_less F thresh (min_thresh F) then Some (Inr (st, False))
         else case detect_with_thresh rounds F S rand (is_seed st) conf max_ret (is_skl st) thresh of
                None \<Rightarrow> None
              | Some (Inl err) \<Rightarrow> Some (Inl err)
              | Some (Inr (ret, g)) \<Rightarrow>
                  if ret = [] then Some (Inr (st\<lparr>is_seed := g\<rparr>, False))
                  else case record_flows F (lgn (is_skl st)) max_ret ret (is_tbl st, is_detect st, is_all st, is_n st) of
                         Inl err \<Rightarrow> Some (Inl err)
                       | Inr (tbl, det, all, n_all) \<Rightarrow>
                           (case remove_large F (is_skl st) (is_bd st) ret (length ret) of
                              None \<Rightarrow> Some (Inl Invalid_access)
                            | Some (skl, bd) \<Rightarrow>
                                Some (Inr (\<lparr>is_skl = skl, is_bd = bd, is_tbl = tbl, is_detect = det, is_all = all,
                                            is_n = n_all, is_seed = g\<rparr>, True))))"

fun inference_loop ::
  "nat \<Rightarrow> nat \<Rightarrow> 'f float_ops \<Rightarrow> 'f sorts \<Rightarrow> (nat \<Rightarrow> u64) \<Rightarrow> 'f skl_conf \<Rightarrow> nat \<Rightarrow> int \<Rightarrow> 'f infer_state \<Rightarrow>
     'f infer_state result option" where
  "inference_loop 0 rounds F S rand conf max_ret d st = None"
| "inference_loop (Suc fuel) rounds F S rand conf max_ret d st =
     (case inference_step rounds F S rand conf max_ret d st of
        None \<Rightarrow> None
      | Some (Inl err) \<Rightarrow> Some (Inl err)
      | Some (Inr (st, again)) \<Rightarrow>
          if again then inference_loop fuel rounds F S rand conf max_ret (d + 1) st else Some (Inr st))"

text \<open>
  \<^verbatim>\<open>do_inference\<close> up to the end of this loop; \<open>all\<close> is the array \<^verbatim>\<open>list_all_detect\<close>, which \<^verbatim>\<open>main\<close> allocates, and
  \<open>true_file\<close> the file of the true flows, which is read into \<^verbatim>\<open>tbl_true\<close> (with \<open>p\<close> the uninitialised tuple of
  \<^verbatim>\<open>key_tbl_read_file\<close>).
\<close>

definition do_inference ::
  "nat \<Rightarrow> nat \<Rightarrow> 'f float_ops \<Rightarrow> 'f sorts \<Rightarrow> (nat \<Rightarrow> u64) \<Rightarrow> seed_state \<Rightarrow> 'f skl_conf \<Rightarrow> nat \<Rightarrow> string option \<Rightarrow> 'f tuple_t \<Rightarrow>
     SketchLearn \<Rightarrow> 'f bit_dists \<Rightarrow> 'f tuple_t list \<Rightarrow> ('f key_tbl \<times> 'f infer_state) result option" where
  "do_inference fuel rounds F S rand g conf max_ret true_file p skl bd all =
     (case key_tbl_init F rand g (key_len conf) 60000 10 (keytbl_timeout conf) of
        None \<Rightarrow> Some (Inl Invalid_access)
      | Some (tbl_true, g) \<Rightarrow>
          (case key_tbl_init F rand g (key_len conf) 60000 10 (keytbl_timeout conf) of
             None \<Rightarrow> Some (Inl Invalid_access)
           | Some (tbl_detect, g) \<Rightarrow>
               (case key_tbl_read_file F true_file p tbl_true of
                  Inl err \<Rightarrow> Some (Inl err)
                | Inr (tbl_true, _) \<Rightarrow>
                    map_option (map_sum id (Pair tbl_true))
                      (inference_loop fuel rounds F S rand conf max_ret 2
                         \<lparr>is_skl = skl, is_bd = bd, is_tbl = tbl_detect, is_detect = [], is_all = all, is_n = 0, is_seed = g\<rparr>))))"

text \<open>
  The counting of false positives: detected flows that are not in the table of the true flows.
\<close>

fun count_fp :: "'f key_tbl \<Rightarrow> 'f rich_tuple list \<Rightarrow> nat \<Rightarrow> nat result" where
  "count_fp tbl_true [] n_fp = Inr n_fp"
| "count_fp tbl_true (r # rs) n_fp =
     (case key_tbl_find tbl_true (rt_key r) of
        Inl err \<Rightarrow> Inl err
      | Inr (Some _) \<Rightarrow> count_fp tbl_true rs n_fp
      | Inr None \<Rightarrow> count_fp tbl_true rs (n_fp + 1))"

text \<open>The total of a sketch, as \<^verbatim>\<open>main\<close> computes it: the sum of the totals of the first row.\<close>

fun total_size :: "SketchLearn \<Rightarrow> nat list \<Rightarrow> u64 \<Rightarrow> u64 option" where
  "total_size skl [] acc = Some acc"
| "total_size skl (i # is) acc =
     (if width skl = 0 then None
      else if 0 < i div width skl then Some acc
      else if i < length (counts skl) \<and> counts skl ! i \<noteq> []
           then total_size skl is (acc + scast (counts skl ! i ! 0)) else None)"

definition tot_size :: "SketchLearn \<Rightarrow> u64 option" where
  "tot_size skl = total_size skl [0..<skl_size skl] 0"

end
