(* ===== verification/Controller_Correct.thy ===== *)
theory Controller_Correct
  imports Controller
begin

text \<open>
  What the controller does: the loop of \<^verbatim>\<open>detect_with_thresh\<close> ends, because every round but the last puts a
  new key into a table of bounded size, and its flows are different and of positive size; what
  \<^verbatim>\<open>do_inference\<close> leaves in the sketch are the counters of the interval without the flows it has
  detected (\<open>residual\<close>, \<open>extracts\<close>).
\<close>

section \<open>Removing flows from a sketch\<close>

text \<open>The counters of \<open>skl\<close> without those of the flows \<open>rs\<close>.\<close>

definition residual :: "SketchLearn \<Rightarrow> 'f rich_tuple list \<Rightarrow> SketchLearn \<Rightarrow> bool" where
  "residual skl rs t \<longleftrightarrow>
     skl_ok t \<and> same_shape skl t \<and>
     (\<forall>i j k. i < depth skl \<and> j < width skl \<and> k \<le> lgn skl \<longrightarrow>
        cnt t i j k = cnt skl i j k - (\<Sum>r\<leftarrow>rs. if counts_in skl i j k (rt_key r) then rt_size r else 0))"

lemma residual_Nil: "skl_ok skl \<Longrightarrow> residual skl [] skl"
  by (simp add: residual_def)

lemma residual_trans:
  assumes "residual a rs b" and "residual b us c"
  shows "residual a (rs @ us) c"
proof -
  have shape: "same_shape a b" "same_shape b c"
    using assms by (simp_all add: residual_def)
  note simps = same_shape_simps [OF shape(1)]
  have "cnt c i j k = cnt a i j k - (\<Sum>r\<leftarrow>rs @ us. if counts_in a i j k (rt_key r) then rt_size r else 0)"
    if "i < depth a" "j < width a" "k \<le> lgn a" for i j k
    using that assms by (simp add: residual_def simps)
  then show ?thesis
    using assms same_shape_trans [OF shape] by (simp add: residual_def)
qed

lemma CompleteZeroes_residual:
  assumes "SKL_CompleteZeroes F skl bd = Some (t, bd')" and "skl_ok skl"
  shows "t = completed skl" "residual skl [] t"
    "length (bit_mean bd') = length (bit_mean bd)" "length (bit_std bd') = length (bit_std bd)"
proof -
  show t: "t = completed skl" and "length (bit_mean bd') = length (bit_mean bd)" "length (bit_std bd') = length (bit_std bd)"
    using assms(1) by (auto simp: SKL_CompleteZeroes_def completed_def compute_bit_dists_def Let_def split: if_splits)
  show "residual skl [] t"
    using completed_ok [OF assms(2)] cnt_completed(1) [OF assms(2)] by (simp add: t residual_def)
qed

lemma updates_residual:
  assumes "SKL_Updates skl (map (\<lambda>r. (rt_key r, - rt_size r)) rs) = Some t" and "skl_ok skl"
    and "\<forall>r \<in> set rs. key_ok skl (rt_key r)"
  shows "residual skl rs t"
proof -
  have neg: "(\<Sum>r\<leftarrow>rs. if P r then snd (rt_key r, - rt_size r) else 0) = - (\<Sum>r\<leftarrow>rs. if P r then rt_size r else 0)" for P :: "'a rich_tuple \<Rightarrow> bool"
    by (induction rs) simp_all
  have "\<forall>u \<in> set (map (\<lambda>r. (rt_key r, - rt_size r)) rs). key_ok skl (fst u)"
    using assms(3) by auto
  from SKL_Updates_spec [OF assms(2) this] assms(1) show ?thesis
    by (simp add: residual_def comp_def neg)
qed

lemma completed_twice: "skl_ok skl \<Longrightarrow> completed (completed skl) = completed skl"
proof -
  assume ok: "skl_ok skl"
  have "complete_bucket (lgn skl) (complete_bucket (lgn skl) c) = complete_bucket (lgn skl) c" if "c \<in> set (counts skl)" for c
  proof -
    have len: "length c = 1 + lgn skl * 2"
      using ok that by (simp add: skl_ok_def)
    let ?c = "complete_bucket (lgn skl) c"
    have len': "length ?c = 1 + lgn skl * 2"
      using complete_bucket_spec(1) [OF len] len by simp
    show ?thesis
    proof (rule nth_equalityI)
      fix k
      assume "k < length (complete_bucket (lgn skl) ?c)"
      then have k: "k < 1 + lgn skl * 2"
        using complete_bucket_spec(1) [OF len'] len' by simp
      show "complete_bucket (lgn skl) ?c ! k = ?c ! k"
      proof (cases "k \<le> lgn skl")
        case False
        define p where "p = k - 1 - lgn skl"
        have p: "k = p + 1 + lgn skl" "p < lgn skl"
          using False k by (auto simp: p_def)
        show ?thesis
          unfolding p(1) complete_bucket_spec(3) [OF len' p(2)] complete_bucket_spec(3) [OF len p(2)]
          using p(2) complete_bucket_spec(2) [OF len] by simp
      qed (rule complete_bucket_spec(2) [OF len'])
    qed (use complete_bucket_spec(1) [OF len'] len' in simp)
  qed
  then show ?thesis
    by (simp add: completed_def)
qed

lemma remove_large_residual:
  assumes "remove_large F skl bd rs n = Some (t, bd')" and "skl_ok skl" and "\<forall>r \<in> set (take n rs). key_ok skl (rt_key r)"
  shows "residual skl (take n rs) t" "completed t = t" "length (bit_mean bd') = length (bit_mean bd)" "length (bit_std bd') = length (bit_std bd)"
proof -
  obtain s where s: "SKL_Updates skl (map (\<lambda>r. (rt_key r, - rt_size r)) (take n rs)) = Some s"
    "SKL_CompleteZeroes F s bd = Some (t, bd')"
    using assms(1) by (auto simp: remove_large_def bind_eq_Some_conv split: if_splits)
  have res: "residual skl (take n rs) s"
    using updates_residual [OF s(1) assms(2,3)] .
  then have "skl_ok s"
    by (simp add: residual_def)
  note fin = CompleteZeroes_residual [OF s(2) this]
  show "residual skl (take n rs) t"
    using residual_trans [OF res fin(2)] by simp
  show "completed t = t"
    using completed_twice [OF \<open>skl_ok s\<close>] fin(1) by simp
  show "length (bit_mean bd') = length (bit_mean bd)" "length (bit_std bd') = length (bit_std bd)"
    using fin(3,4) .
qed

lemma remove_large_Some:
  assumes "skl_ok skl" and "\<forall>r \<in> set rs. key_ok skl (rt_key r) \<and> sint (rt_size r) \<noteq> - INT_MAX - 1"
    and "lgn skl \<le> length (bit_mean bd)" and "lgn skl \<le> length (bit_std bd)" and "depth skl * width skl \<noteq> 1"
  shows "\<exists>t bd'. remove_large F skl bd rs (length rs) = Some (t, bd')"
proof -
  have "\<forall>u \<in> set (map (\<lambda>r. (rt_key r, - rt_size r)) rs). key_ok skl (fst u)"
    using assms(2) by auto
  from SKL_Updates_spec [OF assms(1) this]
  obtain s where s: "SKL_Updates skl (map (\<lambda>r. (rt_key r, - rt_size r)) rs) = Some s" "skl_ok s" "same_shape skl s"
    by blast
  obtain bd' where "SKL_CompleteZeroes F s bd = Some (completed s, bd')"
    using CompleteZeroes_Some [OF s(2), of bd F] assms(3-5) same_shape_simps [OF s(3)] by auto
  then show ?thesis
    using s(1) assms(2) by (auto simp: remove_large_def list_all_iff)
qed

text \<open>The keys of flows, of which the first \<^verbatim>\<open>n/8\<close> bytes count.\<close>

definition keys_of :: "nat \<Rightarrow> 'f rich_tuple list \<Rightarrow> u8 list list" where
  "keys_of n rs = map (\<lambda>r. take (n div 8) (rt_key r)) rs"

definition flow_size :: "SketchLearn \<Rightarrow> (u8 list \<times> u32) list \<Rightarrow> u8 list \<Rightarrow> u32" where
  "flow_size skl us key = (\<Sum>u\<leftarrow>us. if same_flow skl key (fst u) then snd u else 0)"

definition other_flows :: "SketchLearn \<Rightarrow> 'f rich_tuple list \<Rightarrow> (u8 list \<times> u32) list \<Rightarrow> (u8 list \<times> u32) list" where
  "other_flows skl rs us = filter (\<lambda>u. \<forall>r \<in> set rs. \<not> same_flow skl (rt_key r) (fst u)) us"

lemma counts_in_same_flow:
  assumes "same_flow skl a b" and "8 dvd lgn skl"
  shows "counts_in skl i j k a = counts_in skl i j k b"
  using bucket_same_flow [OF assms(1)] key_bit_same_flow [OF assms, of "k - 1"] by (cases "k = 0") (auto simp: counts_in_def)

lemma sum_one_flow:
  fixes x :: u32
  assumes "distinct (keys_of (lgn skl) rs)"
  shows "(\<Sum>r\<leftarrow>rs. if P r \<and> same_flow skl (rt_key r) key then x else 0) =
    (if \<exists>r \<in> set rs. P r \<and> same_flow skl (rt_key r) key then x else 0)"
  using assms
proof (induction rs)
  case (Cons r rs)
  have "\<not> same_flow skl (rt_key r') key" if "same_flow skl (rt_key r) key" "r' \<in> set rs" for r'
    using Cons.prems that by (force simp: keys_of_def same_flow_def)
  then have "(if P r \<and> same_flow skl (rt_key r) key then x else 0) +
      (if \<exists>r \<in> set rs. P r \<and> same_flow skl (rt_key r) key then x else 0) =
      (if \<exists>r \<in> set (r # rs). P r \<and> same_flow skl (rt_key r) key then x else 0)"
    by auto
  then show ?case
    using Cons by (simp add: keys_of_def)
qed simp

lemma sum_flows:
  assumes "distinct (keys_of (lgn skl) rs)" and "8 dvd lgn skl"
  shows "(\<Sum>u\<leftarrow>us. if counts_in skl i j k (fst u) then snd u else 0) -
      (\<Sum>r\<leftarrow>rs. if counts_in skl i j k (rt_key r) then flow_size skl us (rt_key r) else 0) =
    (\<Sum>u\<leftarrow>other_flows skl rs us. if counts_in skl i j k (fst u) then snd u else 0)"
proof (induction us)
  case Nil
  have "(\<Sum>r\<leftarrow>rs. if counts_in skl i j k (rt_key r) then flow_size skl [] (rt_key r) else 0) = 0"
    by (induction rs) (simp_all add: flow_size_def)
  then show ?case
    by (simp add: other_flows_def)
next
  case (Cons u us)
  let ?C = "\<lambda>r. counts_in skl i j k (rt_key r)" and ?S = "\<lambda>r. same_flow skl (rt_key r) (fst u)"
  have "(\<Sum>r\<leftarrow>rs. if ?C r then flow_size skl (u # us) (rt_key r) else 0) =
      (\<Sum>r\<leftarrow>rs. (if ?C r \<and> ?S r then snd u else 0) + (if ?C r then flow_size skl us (rt_key r) else 0))"
    by (intro arg_cong [where f = sum_list] map_cong) (simp_all add: flow_size_def)
  also have "\<dots> = (\<Sum>r\<leftarrow>rs. if ?C r \<and> ?S r then snd u else 0) + (\<Sum>r\<leftarrow>rs. if ?C r then flow_size skl us (rt_key r) else 0)"
    by (rule sum_list_addf)
  also have "(\<Sum>r\<leftarrow>rs. if ?C r \<and> ?S r then snd u else 0) = (if \<exists>r \<in> set rs. ?C r \<and> ?S r then snd u else 0)"
    by (rule sum_one_flow [OF assms(1)])
  also have "(\<exists>r \<in> set rs. ?C r \<and> ?S r) \<longleftrightarrow> counts_in skl i j k (fst u) \<and> (\<exists>r \<in> set rs. ?S r)"
    using counts_in_same_flow [OF _ assms(2)] by blast
  finally show ?case
    using Cons by (auto simp: other_flows_def)
qed

text \<open>
  Removing flows from the sketch of a stream.  If the list names every flow at most once and each with
  its true size, \<^verbatim>\<open>remove_large\<close> leaves exactly the counters of the stream without those flows, in every row,
  every bucket and for every bit, whatever the other flows are.
\<close>

theorem remove_large_exact:
  assumes "skl_ok skl" and "\<forall>u \<in> set us. key_ok skl (fst u)" and "\<forall>r \<in> set rs. key_ok skl (rt_key r)"
    and "distinct (keys_of (lgn skl) rs)"
    and size: "\<forall>r \<in> set rs. rt_size r = flow_size skl us (rt_key r) \<and> sint (rt_size r) \<noteq> - INT_MAX - 1"
    and "lgn skl \<le> length (bit_mean bd)" and "lgn skl \<le> length (bit_std bd)" and "depth skl * width skl \<noteq> 1"
  shows "\<exists>s t bd'. SKL_Updates (SKL_Reset skl) us = Some s \<and> remove_large F s bd rs (length rs) = Some (t, bd') \<and>
    skl_ok t \<and> same_shape skl t \<and>
    (\<forall>i j k. i < depth skl \<and> j < width skl \<and> k \<le> lgn skl \<longrightarrow>
       cnt t i j k = (\<Sum>u\<leftarrow>other_flows skl rs us. if counts_in skl i j k (fst u) then snd u else 0))"
proof -
  obtain s where s: "SKL_Updates (SKL_Reset skl) us = Some s" "skl_ok s" "same_shape skl s"
    "\<And>i j k. i < depth skl \<Longrightarrow> j < width skl \<Longrightarrow> k \<le> lgn skl \<Longrightarrow>
       cnt s i j k = (\<Sum>u\<leftarrow>us. if counts_in skl i j k (fst u) then snd u else 0)"
    using SKL_stream_spec [OF assms(1,2)] by auto
  note shape = same_shape_simps [OF s(3)]
  have dvd: "8 dvd lgn skl"
    using assms(1) by (simp add: skl_ok_def)
  obtain t bd' where t: "remove_large F s bd rs (length rs) = Some (t, bd')"
    using remove_large_Some [OF s(2), of rs bd F, unfolded shape] assms(3,6-8) size by blast
  have res: "residual s rs t"
    using remove_large_residual(1) [OF t s(2)] assms(3) by (simp add: shape)
  have "cnt t i j k = (\<Sum>u\<leftarrow>other_flows skl rs us. if counts_in skl i j k (fst u) then snd u else 0)"
    if ij: "i < depth skl" "j < width skl" "k \<le> lgn skl" for i j k
  proof -
    have "(\<Sum>r\<leftarrow>rs. if counts_in skl i j k (rt_key r) then rt_size r else 0) =
        (\<Sum>r\<leftarrow>rs. if counts_in skl i j k (rt_key r) then flow_size skl us (rt_key r) else 0)"
      using size by (intro arg_cong [where f = sum_list] map_cong) auto
    moreover have "cnt t i j k = cnt s i j k - (\<Sum>r\<leftarrow>rs. if counts_in skl i j k (rt_key r) then rt_size r else 0)"
      using res ij by (simp add: residual_def shape)
    ultimately show ?thesis
      using s(4) [OF ij] sum_flows [OF assms(4) dvd, where us = us and i = i and j = j and k = k] by simp
  qed
  then show ?thesis
    using s(1) t res same_shape_trans [OF s(3)] by (auto simp: residual_def)
qed

section \<open>The table of keys that have been found\<close>

lemma kt_capacity:
  assumes "kt_ok F tbl"
  shows "card (dom (kt_map tbl)) \<le> tbl_list_size tbl * tbl_list_len tbl"
proof -
  have "\<forall>x \<in> set (list_len tbl). x \<le> tbl_list_len tbl"
    using assms by (auto simp: kt_ok_def list_ok_def in_set_conv_nth)
  then have "sum_list (list_len tbl) \<le> length (list_len tbl) * tbl_list_len tbl"
    using sum_list_mono [of "list_len tbl" "\<lambda>x. x" "\<lambda>_. tbl_list_len tbl"] by (simp add: sum_list_triv)
  then show ?thesis
    using card_kt_map [OF assms] assms by (simp add: kt_ok_def)
qed

lemma AwareHash_short: "AwareHash data n x y z = Some h \<Longrightarrow> n \<le> length data"
  by (induction data n x y z rule: AwareHash.induct) auto

lemma record_new_key:
  assumes "kt_inv F t tbl" and "key_tbl_find tbl p = Inr None" and "record_add F tbl p v = Inr tbl'"
  shows "kt_inv F t tbl'" "kt_n t div 8 \<le> length p" "take (kt_n t div 8) p \<notin> dom (kt_map tbl)"
    "dom (kt_map tbl') = insert (take (kt_n t div 8) p) (dom (kt_map tbl))"
proof -
  have ok: "kt_ok F tbl" and n: "kt_n tbl = kt_n t"
    using assms(1) by (simp_all add: kt_inv_def same_params_def)
  show len: "kt_n t div 8 \<le> length p"
    using assms(2) n by (auto simp: key_tbl_find_def bucket_no_def split: option.splits dest: AwareHash_short)
  let ?k = "take (kt_n t div 8) p"
  show new: "?k \<notin> dom (kt_map tbl)"
    using find_spec [OF ok, of p] len n assms(2) by (auto simp: domIff split: option.splits)
  have add: "record_add F tbl ?k v = Inr tbl'"
    using assms(3) record_add_take [of F tbl p v] n by simp
  have k: "length ?k = kt_n t div 8" and none: "kt_map tbl ?k = None"
    using len new by (simp_all add: domIff)
  have "\<not> tbl_list_len t \<le> card {k' \<in> dom (kt_map tbl). home t k' = home t ?k}"
    using record_add_full [OF assms(1) k none, of v] add by auto
  then have "kt_inv F t tbl' \<and> kt_map tbl' = (kt_map tbl)(?k \<mapsto> 0 + v)"
    using record_add_ok [OF assms(1) k, of v] add none by auto
  then show "kt_inv F t tbl'" "dom (kt_map tbl') = insert ?k (dom (kt_map tbl))"
    by simp_all
qed

text \<open>
  The state of the loop over the flows of a round: the elements of \<^verbatim>\<open>list_tmp\<close> so far are different flows, and the
  table has their keys besides those of the rounds before.
\<close>

definition tmp_inv ::
  "'f float_ops \<Rightarrow> 'f key_tbl \<Rightarrow> u8 list set \<Rightarrow> 'f key_tbl \<times> 'f rich_tuple list \<times> nat \<Rightarrow> bool" where
  "tmp_inv F t D s \<longleftrightarrow>
     (case s of (tbl, tmp, m) \<Rightarrow>
        kt_inv F t tbl \<and> m \<le> length tmp \<and> (\<forall>r \<in> set tmp. length (rt_key r) = 13) \<and>
        distinct (keys_of (kt_n t) (take m tmp)) \<and> D \<inter> set (keys_of (kt_n t) (take m tmp)) = {} \<and>
        dom (kt_map tbl) = D \<union> set (keys_of (kt_n t) (take m tmp)))"

lemma put_flow_keys:
  assumes "put_flow n i f (tmp, m) = Some (tmp', m')" and "\<forall>r \<in> set tmp. length (rt_key r) = 13"
    and "n div 8 \<le> length (fd_key f)"
  shows "m' = Suc m" "length tmp' = length tmp" "m < length tmp" "\<forall>r \<in> set tmp'. length (rt_key r) = 13"
    "keys_of n (take m' tmp') = keys_of n (take m tmp) @ [take (n div 8) (fd_key f)]"
proof -
  let ?key = "take (n div 8) (fd_key f) @ drop (n div 8) (rt_key (tmp ! m))"
  have m: "m < length tmp" "n div 8 \<le> 13" "m' = Suc m"
    and keys: "map rt_key tmp' = (map rt_key tmp)[m := ?key]"
    using assms(1) by (auto simp: put_flow_def Let_def map_update nth_list_update intro!: nth_equalityI split: if_splits)
  show "m' = Suc m" "m < length tmp"
    by fact+
  show len: "length tmp' = length tmp"
    using keys by (metis length_list_update length_map)
  have "length ?key = 13"
    using assms(2,3) m(1,2) by simp
  then have "\<forall>k \<in> set (map rt_key tmp'). length k = 13"
    using assms(2) unfolding keys by (auto dest!: set_update_subset_insert [THEN subsetD])
  then show "\<forall>r \<in> set tmp'. length (rt_key r) = 13"
    by simp
  have "map rt_key (take m' tmp') = map rt_key (take m tmp) @ [?key]"
    using m(1) by (simp add: take_map [symmetric] keys m(3) take_Suc_conv_app_nth)
  then have "map (take (n div 8)) (map rt_key (take m' tmp')) = map (take (n div 8)) (map rt_key (take m tmp) @ [?key])"
    by (simp only:)
  then show "keys_of n (take m' tmp') = keys_of n (take m tmp) @ [take (n div 8) (fd_key f)]"
    using assms(3) by (simp add: keys_of_def comp_def)
qed

lemma new_flows_inv:
  assumes "new_flows F (kt_n t) i fs s = Inr s'" and "tmp_inv F t D s"
  shows "tmp_inv F t D s'"
  using assms
proof (induction fs arbitrary: i s)
  case (Cons f fs)
  obtain tbl tmp m where s: "s = (tbl, tmp, m)"
    by (cases s)
  consider x where "key_tbl_find tbl (fd_key f) = Inr (Some x)" |
    tbl1 tmp1 m1 where "key_tbl_find tbl (fd_key f) = Inr None" "record_add F tbl (fd_key f) 1 = Inr tbl1"
      "put_flow (kt_n t) i f (tmp, m) = Some (tmp1, m1)" "new_flows F (kt_n t) (Suc i) fs (tbl1, tmp1, m1) = Inr s'"
    using Cons.prems(1) s by (auto split: sum.splits option.splits)
  then show ?case
  proof cases
    case 1
    then show ?thesis
      using Cons s by simp
  next
    case 2
    have inv: "kt_inv F t tbl" "\<forall>r \<in> set tmp. length (rt_key r) = 13" "dom (kt_map tbl) = D \<union> set (keys_of (kt_n t) (take m tmp))"
      "distinct (keys_of (kt_n t) (take m tmp))" "D \<inter> set (keys_of (kt_n t) (take m tmp)) = {}"
      using Cons.prems(2) s by (simp_all add: tmp_inv_def)
    note new = record_new_key [OF inv(1) 2(1,2)]
    note put = put_flow_keys [OF 2(3) inv(2) new(2)]
    have "tmp_inv F t D (tbl1, tmp1, m1)"
      using inv new put by (auto simp: tmp_inv_def)
    then show ?thesis
      using Cons.IH [OF 2(4)] by simp
  qed
qed simp

section \<open>A round\<close>

lemma bucket_size_probs:
  "\<exists>b x. \<forall>infos. skl_est_bucket_size F qsort c n key bd bits infos =
     (if b then map_option (Pair x) (bucket_probs F c n key bd x bits infos) else None)"
proof (cases "naive_est c n key bits (sint (c ! 0)) = None \<or> those (map (bit_size F c n key bd) bits) = None")
  case True
  then show ?thesis
    by (intro exI [of _ False]) (auto simp: skl_est_bucket_size_def)
next
  case False
  then obtain naive es where es: "naive_est c n key bits (sint (c ! 0)) = Some naive"
    "those (map (bit_size F c n key bd) bits) = Some es"
    by auto
  define m where "m = length bits"
  define x where "x = (if m div 2 = 1 then qsort es ! (m div 2) else (qsort es ! (m div 2 - 1) + qsort es ! (m div 2 - 1)) div 2)"
  define b where "b \<longleftrightarrow> \<not> (104 < m \<or> m < 2) \<and>
    \<not> (m div 2 \<noteq> 1 \<and> \<not> (- INT_MAX - 1 \<le> 2 * qsort es ! (m div 2 - 1) \<and> 2 * qsort es ! (m div 2 - 1) \<le> INT_MAX))"
  have "skl_est_bucket_size F qsort c n key bd bits infos =
      (if b then map_option (Pair (if naive < x then naive else x))
        (bucket_probs F c n key bd (if naive < x then naive else x) bits infos) else None)" for infos
    unfolding skl_est_bucket_size_def es bind.bind_lunit Let_def m_def [symmetric] x_def [symmetric] b_def by simp
  then show ?thesis
    by blast
qed

lemma bucket_size_infos:
  assumes "length infos = length infos'" and "skl_est_bucket_size F qsort c n key bd bits infos = Some (r, is)"
  shows "\<exists>is'. skl_est_bucket_size F qsort c n key bd bits infos' = Some (r, is') \<and> length is = length is'"
proof -
  obtain b x where b: "\<And>infos. skl_est_bucket_size F qsort c n key bd bits infos =
      (if b then map_option (Pair x) (bucket_probs F c n key bd x bits infos) else None)"
    using bucket_size_probs [of F qsort c n key bd bits] by blast
  show ?thesis
    using assms by (auto simp: b bucket_probs_def split: if_splits)
qed

lemma est_size_rows_infos:
  assumes "length infos = length infos'" and "est_size_rows F qsort skl bd key bits ks (e, infos) = Some (r, is)"
  shows "\<exists>is'. est_size_rows F qsort skl bd key bits ks (e, infos') = Some (r, is')"
  using assms
proof (induction ks arbitrary: e infos infos')
  case (Cons k ks)
  obtain c e1 is1 where c: "key_bucket skl k key = Some c"
    "skl_est_bucket_size F qsort c (lgn skl) key bd bits infos = Some (e1, is1)"
    "est_size_rows F qsort skl bd key bits ks (if k = 0 \<or> e1 < e then e1 else e, is1) = Some (r, is)"
    using Cons.prems(2) by (auto simp: bind_eq_Some_conv cong: if_cong)
  obtain is2 where is2: "skl_est_bucket_size F qsort c (lgn skl) key bd bits infos' = Some (e1, is2)" "length is1 = length is2"
    using bucket_size_infos [OF Cons.prems(1) c(2)] by blast
  show ?case
    using Cons.IH [OF is2(2) c(3)] c(1) is2(1) by (simp cong: if_cong)
qed simp

lemma Est_Size_infos:
  assumes "length infos = length infos'" and "SKL_Est_Size F qsort skl bd key bits infos = Some (r, is)"
  shows "\<exists>is'. SKL_Est_Size F qsort skl bd key bits infos' = Some (r, is')"
  using est_size_rows_infos [OF assms(1)] assms(2) by (simp add: SKL_Est_Size_def)

lemma naive_est_le: "naive_est c n key bits e = Some r \<Longrightarrow> r \<le> e"
proof (induction bits arbitrary: e)
  case (Cons b bits)
  then show ?case
    by (fastforce split: option.splits if_splits simp: Let_def)
qed simp

lemma est_size_rows_int:
  assumes "est_size_rows F qsort skl bd key bits ks s = Some (r, infos)" and "fst s \<le> INT_MAX"
  shows "r \<le> INT_MAX"
  using assms
proof (induction ks arbitrary: s)
  case (Cons k ks)
  obtain c est infos1 where c: "skl_est_bucket_size F qsort c (lgn skl) key bd bits (snd s) = Some (est, infos1)"
    "est_size_rows F qsort skl bd key bits ks (if k = 0 \<or> est < fst s then est else fst s, infos1) = Some (r, infos)"
    using Cons.prems(1) by (auto simp: bind_eq_Some_conv)
  obtain q where "naive_est c (lgn skl) key bits (sint (c ! 0)) = Some q" "est \<le> q"
    using bucket_size_naive(1) [OF c(1)] by blast
  then have "est \<le> sint (c ! 0)"
    using naive_est_le by force
  also have "\<dots> \<le> INT_MAX"
    using sint_lt [of "c ! 0"] by (simp add: INT_MAX_def)
  finally show ?case
    using Cons.IH [OF c(2)] Cons.prems(2) by simp
qed simp

lemma judge_flow_cases:
  assumes "judge_flow F S n skl bd r = Some (r', kept)"
  shows "rt_key r' = rt_key r" "kept \<Longrightarrow> 0 < sint (rt_size r')" "\<not> kept \<Longrightarrow> rt_size r' = 0"
proof -
  obtain est infos where est: "SKL_Est_Size F (qs_ests S) skl bd (rt_key r) bits_104 (zero_infos F) = Some (est, infos)"
    using assms by (auto simp: judge_flow_def Let_def split: option.splits)
  have le: "est \<le> INT_MAX"
    using est_size_rows_int [OF est [unfolded SKL_Est_Size_def]] by (simp add: INT_MAX_def)
  have pos: "0 < est \<Longrightarrow> sint (of_int est :: u32) = est"
    using le by (simp add: INT_MAX_def sint_sbintrunc' signed_take_bit_int_eq_self)
  show "rt_key r' = rt_key r" "kept \<Longrightarrow> 0 < sint (rt_size r')" "\<not> kept \<Longrightarrow> rt_size r' = 0"
    using assms est pos by (auto simp: judge_flow_def Let_def split: if_splits)
qed

lemma select_flows_spec:
  assumes "select_flows F S n max_ret skl bd rs ret = Some (rs', ret')"
  shows "map rt_key rs' = map rt_key rs" "\<exists>new. ret' = ret @ new \<and> new = filter (\<lambda>r. rt_size r \<noteq> 0) rs' \<and> (\<forall>r \<in> set new. 0 < sint (rt_size r))"
proof -
  have "map rt_key rs' = map rt_key rs \<and> (\<exists>new. ret' = ret @ new \<and> new = filter (\<lambda>r. rt_size r \<noteq> 0) rs' \<and> (\<forall>r \<in> set new. 0 < sint (rt_size r)))"
    using assms
  proof (induction rs arbitrary: ret rs')
    case (Cons r rs)
    obtain r1 kept rs1 where 1: "judge_flow F S n skl bd r = Some (r1, kept)" "rs' = r1 # rs1"
      "select_flows F S n max_ret skl bd rs (if kept then ret @ [r1] else ret) = Some (rs1, ret')"
      using Cons.prems by (auto split: option.splits if_splits)
    note r1 = judge_flow_cases [OF 1(1)]
    have "rt_size r1 \<noteq> 0 \<longleftrightarrow> kept"
      using r1(2,3) by (cases kept) auto
    then show ?case
      using Cons.IH [OF 1(3)] r1 1(2) by (cases kept) auto
  qed simp
  then show "map rt_key rs' = map rt_key rs" "\<exists>new. ret' = ret @ new \<and> new = filter (\<lambda>r. rt_size r \<noteq> 0) rs' \<and> (\<forall>r \<in> set new. 0 < sint (rt_size r))"
    by blast+
qed

text \<open>
  What holds between the rounds: the flows detected so far are different, have positive sizes, and their keys are in
  the table, whose parameters are those of \<open>t\<close>.
\<close>

definition flows_ok :: "nat \<Rightarrow> 'f rich_tuple list \<Rightarrow> bool" where
  "flows_ok n rs \<longleftrightarrow> distinct (keys_of n rs) \<and> (\<forall>r \<in> set rs. length (rt_key r) = 13 \<and> 0 < sint (rt_size r))"

definition detect_inv :: "'f float_ops \<Rightarrow> 'f key_tbl \<Rightarrow> 'f detect_state \<Rightarrow> bool" where
  "detect_inv F t st \<longleftrightarrow>
     kt_inv F t (ds_tbl st) \<and> (\<forall>r \<in> set (ds_tmp st). length (rt_key r) = 13) \<and>
     flows_ok (kt_n t) (ds_ret st) \<and> set (keys_of (kt_n t) (ds_ret st)) \<subseteq> dom (kt_map (ds_tbl st))"

definition found_keys :: "'f detect_state \<Rightarrow> nat" where
  "found_keys st = card (dom (kt_map (ds_tbl st)))"

lemma keys_of_mset: "mset (keys_of n rs) = image_mset (\<lambda>r. take (n div 8) (rt_key r)) (mset rs)"
  by (simp add: keys_of_def)

lemma keys_of_filter: "set (keys_of n (filter P rs)) \<subseteq> set (keys_of n rs)" "distinct (keys_of n rs) \<Longrightarrow> distinct (keys_of n (filter P rs))"
  by (auto simp: keys_of_def distinct_map_filter)

lemma keys_of_append: "keys_of n (rs @ us) = keys_of n rs @ keys_of n us"
  by (simp add: keys_of_def)

lemma keys_of_cong: "map rt_key rs = map rt_key us \<Longrightarrow> keys_of n rs = keys_of n us"
proof -
  assume "map rt_key rs = map rt_key us"
  then have "map (take (n div 8)) (map rt_key rs) = map (take (n div 8)) (map rt_key us)"
    by (simp only:)
  then show ?thesis
    by (simp add: keys_of_def comp_def)
qed

lemma detect_round_inv:
  assumes "detect_round F S (kt_n t) max_ret thresh st = Inr st'" and "detect_inv F t st" and "permuting (qs_rich S)"
  shows "detect_inv F t st'" "length (ds_ret st) \<noteq> length (ds_ret st') \<Longrightarrow> found_keys st < found_keys st'"
proof -
  let ?n = "kt_n t" and ?D = "dom (kt_map (ds_tbl st))"
  obtain bd found tbl tmp m rs where 1:
    "new_flows F ?n 0 found (ds_tbl st, ds_tmp st, 0) = Inr (tbl, tmp, m)"
    "select_flows F S ?n max_ret (ds_skl st) bd (qs_rich S (take m tmp)) (ds_ret st) = Some (rs, ds_ret st')"
    "ds_tbl st' = tbl" "ds_tmp st' = rs @ drop m tmp"
    using assms(1)
    by (auto simp: detect_round_def lift_invalid_def bind_eq_Some_conv split: sum.splits prod.splits option.splits)
  have inv: "kt_inv F t (ds_tbl st)" "\<forall>r \<in> set (ds_tmp st). length (rt_key r) = 13" "flows_ok ?n (ds_ret st)"
    "set (keys_of ?n (ds_ret st)) \<subseteq> ?D"
    using assms(2) by (simp_all add: detect_inv_def)
  have "tmp_inv F t ?D (ds_tbl st, ds_tmp st, 0)"
    using inv(1,2) by (simp add: tmp_inv_def keys_of_def)
  from new_flows_inv [OF 1(1) this]
  have tmp: "kt_inv F t tbl" "m \<le> length tmp" "\<forall>r \<in> set tmp. length (rt_key r) = 13"
    "distinct (keys_of ?n (take m tmp))" "?D \<inter> set (keys_of ?n (take m tmp)) = {}"
    "dom (kt_map tbl) = ?D \<union> set (keys_of ?n (take m tmp))"
    by (simp_all add: tmp_inv_def)
  have perm: "mset (qs_rich S (take m tmp)) = mset (take m tmp)"
    using assms(3) by (simp add: permuting_def)
  obtain new where new: "ds_ret st' = ds_ret st @ new" "new = filter (\<lambda>r. rt_size r \<noteq> 0) rs" "\<forall>r \<in> set new. 0 < sint (rt_size r)"
    and keys: "map rt_key rs = map rt_key (qs_rich S (take m tmp))"
    using select_flows_spec [OF 1(2)] by blast
  have "keys_of ?n rs = keys_of ?n (qs_rich S (take m tmp))"
    by (rule keys_of_cong [OF keys])
  then have "mset (keys_of ?n rs) = mset (keys_of ?n (take m tmp))"
    by (simp add: keys_of_mset perm)
  then have rs: "set (keys_of ?n rs) = set (keys_of ?n (take m tmp))" "distinct (keys_of ?n rs)"
    using tmp(4) by (metis set_mset_mset, metis mset_eq_imp_distinct_iff)
  have "length (rt_key r) = 13" if "r \<in> set rs" for r
  proof -
    have "rt_key r \<in> rt_key ` set (take m tmp)"
      using that keys perm by (metis image_eqI list.set_map set_mset_mset)
    then show ?thesis
      using tmp(3) by (auto dest: in_set_takeD)
  qed
  then have len: "\<forall>r \<in> set rs. length (rt_key r) = 13"
    by blast
  have "flows_ok ?n new"
    using new(2,3) len keys_of_filter(2) [OF rs(2)] by (simp add: flows_ok_def)
  moreover have "set (keys_of ?n new) \<subseteq> set (keys_of ?n (take m tmp))"
    using keys_of_filter(1) new(2) rs(1) by blast
  ultimately have ret: "flows_ok ?n (ds_ret st')" "set (keys_of ?n (ds_ret st')) \<subseteq> dom (kt_map tbl)"
    using inv(3,4) tmp(5,6) by (auto simp: flows_ok_def new(1) keys_of_append)
  then show "detect_inv F t st'"
    using tmp(1,3) len by (auto simp: detect_inv_def 1(3,4) dest: in_set_dropD)
  assume "length (ds_ret st) \<noteq> length (ds_ret st')"
  then have "rs \<noteq> []"
    using new(1,2) by auto
  then have "set (keys_of ?n (take m tmp)) \<noteq> {}"
    unfolding rs(1) [symmetric] by (simp add: keys_of_def)
  then obtain k where k: "k \<in> set (keys_of ?n (take m tmp))"
    by (metis ex_in_conv)
  have "k \<notin> ?D"
    using k tmp(5) by (metis IntI empty_iff)
  moreover have "k \<in> dom (kt_map tbl)" "?D \<subseteq> dom (kt_map tbl)"
    unfolding tmp(6) using k by simp_all
  ultimately have "?D \<subset> dom (kt_map tbl)"
    by (metis psubsetI)
  moreover have "finite (dom (kt_map tbl))"
    using tmp(1) finite_kt_map by (auto simp: kt_inv_def)
  ultimately show "found_keys st < found_keys st'"
    unfolding found_keys_def 1(3) by (intro psubset_card_mono)
qed

lemma detect_loop_returns:
  assumes "detect_inv F t st" and "permuting (qs_rich S)"
    and "tbl_list_size t * tbl_list_len t < found_keys st + fuel"
  shows "\<exists>res. detect_loop fuel F S (kt_n t) max_ret thresh st = Some res \<and> (\<forall>st'. res = Inr st' \<longrightarrow> detect_inv F t st')"
  using assms(1,3)
proof (induction fuel arbitrary: st)
  case 0
  then have "kt_ok F (ds_tbl st)" "same_params t (ds_tbl st)"
    by (simp_all add: detect_inv_def kt_inv_def)
  then show ?case
    using kt_capacity [of F "ds_tbl st"] 0 by (simp add: found_keys_def same_params_def)
next
  case (Suc fuel)
  show ?case
  proof (cases "detect_round F S (kt_n t) max_ret thresh st")
    case (Inr st')
    note round = detect_round_inv [OF Inr Suc.prems(1) assms(2)]
    show ?thesis
      using Inr round Suc.IH [OF round(1)] Suc.prems(2) by (cases "length (ds_ret st') = length (ds_ret st)") auto
  qed simp
qed

section \<open>The copy of the sketch\<close>

lemma drawn_once: "seed g \<noteq> 0 \<Longrightarrow> draw_seed rand g = g"
  by (simp add: draw_seed_def)

text \<open>Once the seed of the program has been drawn, the seeds of hash functions depend on nothing else.\<close>

lemma gen_seeds_drawn:
  assumes "seed (draw_seed rand g) \<noteq> 0" and "seed h = seed (draw_seed rand g)" and "gen_seeds rand n sd g = Some (hs, sd', g')"
  shows "gen_seeds rand n sd h = Some (hs, sd', h)" "seed (draw_seed rand g') = seed h"
proof -
  have "gen_seeds rand n sd h = Some (hs, sd', h) \<and> seed (draw_seed rand g') = seed h"
    using assms
  proof (induction n arbitrary: sd g hs)
    case (Suc n)
    obtain x where x: "GenHashSeed rand g (ucast sd) = (Some x, draw_seed rand g)"
      using GenHashSeed_Some by blast
    then obtain hs1 where hs1: "gen_seeds rand n (sd + 1) (draw_seed rand g) = Some (hs1, sd', g')" "hs = x # hs1"
      using Suc.prems(3) by auto
    have "draw_seed rand (draw_seed rand g) = draw_seed rand g" "draw_seed rand h = h"
      using Suc.prems(1,2) by (simp_all add: drawn_once)
    moreover have "GenHashSeed rand h (ucast sd) = (Some x, h)"
      using x Suc.prems(2) calculation by (simp add: GenHashSeed_def Let_def)
    ultimately show ?case
      using Suc.IH [of "draw_seed rand g", OF _ _ hs1(1)] Suc.prems(1,2) hs1(2) by simp
  qed auto
  then show "gen_seeds rand n sd h = Some (hs, sd', h)" "seed (draw_seed rand g') = seed h"
    by blast+
qed

lemma SKL_Init_again:
  assumes "SKL_Init rand g w d n = Some (skl, g')" and "seed (draw_seed rand g) \<noteq> 0" and "seed h = seed (draw_seed rand g)"
  shows "SKL_Init rand h w d n = Some (skl, h)"
proof -
  obtain q sd hs sd1 g1 ss sd2 g2 ds sd3 where q: "calc_next_prime w = Some q" "\<not> (INT_MAX < q * int d \<or> INT_MAX < 1 + int n * 2)"
    and sd: "AwareHash deltoid 7 13091204281 228204732751 6620830889 = Some sd"
    and s: "gen_seeds rand d sd g = Some (hs, sd1, g1)" "gen_seeds rand d sd1 g1 = Some (ss, sd2, g2)"
      "gen_seeds rand d sd2 g2 = Some (ds, sd3, g')"
    and skl: "skl = \<lparr>depth = d, width = nat q, lgn = n, hash = hs, scale = ss, hardner = ds,
      counts = replicate (nat q * d) (replicate (1 + n * 2) 0)\<rparr>"
    using assms(1) by (auto simp: SKL_Init_def bind_eq_Some_conv split: if_splits)
  note 1 = gen_seeds_drawn [OF assms(2,3) s(1)]
  have h: "seed (draw_seed rand g1) \<noteq> 0"
    using 1(2) assms(2,3) by simp
  note 2 = gen_seeds_drawn [OF h 1(2) [symmetric] s(2)]
  have "seed (draw_seed rand g2) \<noteq> 0"
    using 2(2) assms(2,3) by simp
  note 3 = gen_seeds_drawn [OF this 2(2) [symmetric] s(3)]
  show ?thesis
    using q sd 1(1) 2(1) 3(1) by (simp add: SKL_Init_def skl)
qed

text \<open>
  \<^verbatim>\<open>detect_with_thresh\<close> works on a true copy of the sketch.  \<^verbatim>\<open>SKL_Copy\<close> copies the counters only, but
  \<^verbatim>\<open>GenHashSeed\<close> draws the seed of the program once, unless it is 0; so the sketch that \<^verbatim>\<open>SKL_Init\<close> makes for the copy
  has the hash functions of the sketch of the program, and every key falls into the same buckets in both.
\<close>

theorem detect_copy:
  assumes "SKL_Init rand g0 (skl_width conf) (skl_depth conf) (key_len conf) = Some (s, g1)"
    and "seed (draw_seed rand g0) \<noteq> 0" and "seed g = seed (draw_seed rand g0)"
    and "skl_width conf \<le> INT_MAX" and "8 dvd key_len conf" and "skl_ok skl" and "same_shape s skl"
    and "detect_start F rand g conf max_ret skl = Inr (st, g')"
  shows "ds_skl st = skl"
proof -
  note again = SKL_Init_again [OF assms(1-3)]
  have "skl_ok s"
    using SKL_Init_shape(1) [OF assms(1,4,5)] .
  then have "SKL_Copy s skl = Inr (s\<lparr>counts := counts skl\<rparr>)"
    using SKL_Copy_correct [OF _ assms(6)] same_shape_simps(1-3) [OF assms(7)] by simp
  moreover have "s\<lparr>counts := counts skl\<rparr> = skl"
    using assms(7) by (simp add: same_shape_def)
  ultimately show ?thesis
    using assms(8) by (auto simp: detect_start_def again Let_def split: option.splits)
qed

section \<open>The loop ends\<close>

lemma tbl_init_size:
  "key_tbl_init F rand g n list_size l timeout = Some (tbl, g') \<Longrightarrow> calc_next_prime list_size = Some q \<Longrightarrow>
     tbl_list_size tbl = nat q \<and> tbl_list_len tbl = l \<and> kt_n tbl = n"
  by (auto simp: key_tbl_init_def bind_eq_Some_conv split: prod.splits)

lemma detect_start_inv:
  assumes "detect_start F rand g conf max_ret skl = Inr (st, g')" and "float_consts F"
    and "keytbl_timeout conf = f_of_int F (-1)" and "key_len conf \<le> 104" and "calc_next_prime 60000 = Some q"
  shows "detect_inv F (ds_tbl st) st" "kt_n (ds_tbl st) = key_len conf" "tbl_list_size (ds_tbl st) * tbl_list_len (ds_tbl st) = nat q * 10"
proof -
  obtain g1 where tbl: "key_tbl_init F rand g1 (key_len conf) 60000 10 (keytbl_timeout conf) = Some (ds_tbl st, g')"
    and st: "ds_tmp st = replicate max_ret (zero_rich F)" "ds_ret st = []"
    using assms(1) by (auto simp: detect_start_def Let_def split: option.splits sum.splits)
  have "kt_ok F (ds_tbl st)"
    using init_ok [of 60000 "key_len conf" F rand g1 10] tbl assms(3,4) by (auto simp: INT_MAX_def)
  then show "detect_inv F (ds_tbl st) st"
    using assms(2) by (simp add: detect_inv_def kt_inv_def flows_ok_def keys_of_def st zero_rich_def)
  show "kt_n (ds_tbl st) = key_len conf" "tbl_list_size (ds_tbl st) * tbl_list_len (ds_tbl st) = nat q * 10"
    using tbl_init_size [OF tbl assms(5)] by simp_all
qed

lemma detect_with_thresh_returns:
  assumes "float_consts F" and "permuting (qs_rich S)" and "keytbl_timeout conf = f_of_int F (-1)"
    and "key_len conf = lgn skl" and "lgn skl \<le> 104" and "calc_next_prime 60000 = Some q" and "nat q * 10 < fuel"
  shows "\<exists>res. detect_with_thresh fuel F S rand g conf max_ret skl thresh = Some res \<and>
    (\<forall>ret g'. res = Inr (ret, g') \<longrightarrow> flows_ok (lgn skl) ret)"
proof (cases "detect_start F rand g conf max_ret skl")
  case (Inr p)
  obtain st g1 where p: "p = (st, g1)"
    by (cases p)
  have "key_len conf \<le> 104"
    using assms(4,5) by simp
  note start = detect_start_inv [OF Inr [unfolded p] assms(1,3) this assms(6)]
  obtain res where res: "detect_loop fuel F S (lgn skl) max_ret thresh st = Some res"
    "\<forall>st'. res = Inr st' \<longrightarrow> detect_inv F (ds_tbl st) st'"
    using detect_loop_returns [OF start(1) assms(2), of fuel max_ret thresh] start(2,3) assms(4,7) by auto
  then show ?thesis
    using Inr p start(2) assms(4) by (cases res) (auto simp: detect_with_thresh_def detect_inv_def)
qed (simp add: detect_with_thresh_def)

text \<open>
  Claim C8. \<^verbatim>\<open>detect_with_thresh\<close> returns, for every sketch, every threshold and every floating-point arithmetic:
  its loop ends after at most ten rounds for every list of the table of keys, or the program exits or makes an
  invalid access before.  The flows it returns are different and have positive sizes.
\<close>

theorem detect_terminates:
  assumes "float_consts F" and "permuting (qs_rich S)" and "keytbl_timeout conf = f_of_int F (-1)"
    and "key_len conf = lgn skl" and "lgn skl \<le> 104" and "calc_next_prime 60000 = Some q"
  shows "\<exists>res. detect_with_thresh (Suc (nat q * 10)) F S rand g conf max_ret skl thresh = Some res \<and>
    (\<forall>ret g'. res = Inr (ret, g') \<longrightarrow> flows_ok (lgn skl) ret)"
  using detect_with_thresh_returns [OF assms, of "Suc (nat q * 10)"] by simp

definition plain_sorts :: "'f sorts" where
  "plain_sorts = \<lparr>qs_infos = \<lambda>xs. xs, qs_ests = \<lambda>xs. xs, qs_rich = \<lambda>xs. xs, qs_confs = \<lambda>xs. xs\<rparr>"

definition small_conf :: "rat skl_conf" where
  "small_conf = \<lparr>skl_width = 4, skl_depth = 2, key_len = 8, keytbl_timeout = -1\<rparr>"

section \<open>Inference\<close>

definition tuple_key :: "nat \<Rightarrow> 'f tuple_t \<Rightarrow> u8 list \<times> u32" where
  "tuple_key n t = (take (n div 8) (t_key t), t_size t)"

definition rich_key :: "nat \<Rightarrow> 'f rich_tuple \<Rightarrow> u8 list \<times> u32" where
  "rich_key n r = (take (n div 8) (rt_key r), rt_size r)"

text \<open>The lists and the table of the detected flows agree.\<close>

definition lists_inv ::
  "'f float_ops \<Rightarrow> 'f key_tbl \<Rightarrow> 'f key_tbl \<times> 'f rich_tuple list \<times> 'f tuple_t list \<times> nat \<Rightarrow> bool" where
  "lists_inv F t s \<longleftrightarrow>
     (case s of (tbl, det, all, m) \<Rightarrow>
        kt_inv F t tbl \<and> distinct (keys_of (kt_n t) det) \<and> dom (kt_map tbl) = set (keys_of (kt_n t) det) \<and>
        m = length det \<and> m \<le> length all \<and> (\<forall>x \<in> set all. length (t_key x) = 13) \<and>
        map (tuple_key (kt_n t)) (take m all) = map (rich_key (kt_n t)) det)"

text \<open>A flow is added to a list of flows unless the list has its key.\<close>

definition add_new :: "nat \<Rightarrow> 'f rich_tuple \<Rightarrow> 'f rich_tuple list \<Rightarrow> 'f rich_tuple list" where
  "add_new n r det = (if take (n div 8) (rt_key r) \<in> set (keys_of n det) then det else det @ [r])"

lemma record_flows_inv:
  assumes "record_flows F (kt_n t) max_ret rs s = Inr s'" and "lists_inv F t s" and "\<forall>r \<in> set rs. length (rt_key r) = 13"
  shows "lists_inv F t s' \<and> fst (snd s') = fold (add_new (kt_n t)) rs (fst (snd s))"
  using assms
proof (induction rs arbitrary: s)
  case (Cons r rs)
  let ?n = "kt_n t"
  obtain tbl det all m where s: "s = (tbl, det, all, m)"
    by (cases s)
  define x where "x = (all ! m)\<lparr>t_key := take (?n div 8) (rt_key r) @ drop (?n div 8) (t_key (all ! m)), t_size := rt_size r\<rparr>"
  have inv: "kt_inv F t tbl" "distinct (keys_of ?n det)" "dom (kt_map tbl) = set (keys_of ?n det)" "m = length det" "m \<le> length all"
    "\<forall>x \<in> set all. length (t_key x) = 13" "map (tuple_key ?n) (take m all) = map (rich_key ?n) det"
    using Cons.prems(2) unfolding s lists_inv_def prod.case by blast+
  have r: "length (rt_key r) = 13" "\<forall>r \<in> set rs. length (rt_key r) = 13"
    using Cons.prems(3) by simp_all
  consider y where "key_tbl_find tbl (rt_key r) = Inr (Some y)" |
    tbl1 where "key_tbl_find tbl (rt_key r) = Inr None" "m < length all" "?n div 8 \<le> 13" "record_add F tbl (t_key x) (t_size x) = Inr tbl1"
      "record_flows F ?n max_ret rs (tbl1, det @ [r], all[m := x], Suc m) = Inr s'"
    using Cons.prems(1) s by (auto simp: Let_def x_def not_le split: sum.splits option.splits if_splits)
  then show ?case
  proof cases
    case 1
    have "kt_ok F tbl" "kt_n tbl = ?n"
      using inv(1) by (simp_all add: kt_inv_def same_params_def)
    moreover have "?n div 8 \<le> length (rt_key r)"
      using calculation r(1) by (simp add: kt_ok_def)
    ultimately have "take (?n div 8) (rt_key r) \<in> dom (kt_map tbl)"
      using find_spec [of F tbl "rt_key r"] 1 by (auto split: option.splits)
    then show ?thesis
      using 1 Cons.IH [of s] Cons.prems s r(2) inv(3) by (simp add: add_new_def)
  next
    case 2
    have key: "take (?n div 8) (t_key x) = take (?n div 8) (rt_key r)" "length (t_key x) = 13" "t_size x = rt_size r"
      using 2(2,3) r(1) inv(6) by (simp_all add: x_def)
    have n: "kt_n tbl = ?n"
      using inv(1) by (simp add: kt_inv_def same_params_def)
    have "record_add F tbl (rt_key r) (t_size x) = Inr tbl1"
      using 2(4) record_add_take [of F tbl "t_key x"] record_add_take [of F tbl "rt_key r"] key(1) n by metis
    note new = record_new_key [OF inv(1) 2(1) this]
    have "map (tuple_key ?n) (take (Suc m) (all[m := x])) = map (rich_key ?n) (det @ [r])"
      using inv(7) 2(2) key by (simp add: take_Suc_conv_app_nth tuple_key_def rich_key_def)
    then have "lists_inv F t (tbl1, det @ [r], all[m := x], Suc m)"
      using new inv 2(2) key(2)
      by (auto simp: lists_inv_def keys_of_def dest!: set_update_subset_insert [THEN subsetD])
    from Cons.IH [OF 2(5) this r(2)] show ?thesis
      using new(3) inv(3) by (simp add: s add_new_def)
  qed
qed simp

text \<open>
  What the loop over the thresholds \<open>1/d\<close> does to a sketch.  As long as the threshold is not too small, flows are detected in the
  sketch; when there are none, it is left as it is.  Otherwise exactly these flows are removed from it, its counters of zero
  bits are those that belong to the others, and the next threshold is tried on what remains.  \<open>rets\<close> are the flows of
  the rounds.
\<close>

inductive extracts ::
  "nat \<Rightarrow> 'f float_ops \<Rightarrow> 'f sorts \<Rightarrow> (nat \<Rightarrow> u64) \<Rightarrow> 'f skl_conf \<Rightarrow> nat \<Rightarrow> int \<Rightarrow> seed_state \<Rightarrow> SketchLearn \<Rightarrow>
     'f rich_tuple list list \<Rightarrow> SketchLearn \<Rightarrow> bool"
  for rounds F S rand conf max_ret where
    ex_small: "f_less F (f_div F (f_of_int F 1) (f_of_int F d)) (min_thresh F) \<Longrightarrow>
      extracts rounds F S rand conf max_ret d g skl [] skl"
  | ex_none: "\<not> f_less F (f_div F (f_of_int F 1) (f_of_int F d)) (min_thresh F) \<Longrightarrow>
      detect_with_thresh rounds F S rand g conf max_ret skl (f_div F (f_of_int F 1) (f_of_int F d)) = Some (Inr ([], g')) \<Longrightarrow>
      extracts rounds F S rand conf max_ret d g skl [] skl"
  | ex_flows: "\<not> f_less F (f_div F (f_of_int F 1) (f_of_int F d)) (min_thresh F) \<Longrightarrow>
      detect_with_thresh rounds F S rand g conf max_ret skl (f_div F (f_of_int F 1) (f_of_int F d)) = Some (Inr (ret, g')) \<Longrightarrow>
      ret \<noteq> [] \<Longrightarrow> residual skl ret skl' \<Longrightarrow> completed skl' = skl' \<Longrightarrow>
      extracts rounds F S rand conf max_ret (d + 1) g' skl' rets t \<Longrightarrow>
      extracts rounds F S rand conf max_ret d g skl (ret # rets) t"

text \<open>The state of the loop over the thresholds when the flows \<open>removed\<close> have been removed.\<close>

definition infer_inv :: "'f float_ops \<Rightarrow> 'f key_tbl \<Rightarrow> SketchLearn \<Rightarrow> 'f rich_tuple list \<Rightarrow> 'f infer_state \<Rightarrow> bool" where
  "infer_inv F t skl removed st \<longleftrightarrow>
     residual skl removed (is_skl st) \<and> lists_inv F t (is_tbl st, is_detect st, is_all st, is_n st) \<and>
     is_detect st = fold (add_new (kt_n t)) removed []"

lemma inference_round:
  assumes "infer_inv F t skl removed st" and "flows_ok (kt_n t) ret" and "kt_n t = lgn skl" and "lgn skl \<le> 104"
    and "record_flows F (lgn (is_skl st)) max_ret ret (is_tbl st, is_detect st, is_all st, is_n st) = Inr (tbl, det, all, m)"
    and "remove_large F (is_skl st) (is_bd st) ret (length ret) = Some (s, bd)"
  shows "infer_inv F t skl (removed @ ret)
      \<lparr>is_skl = s, is_bd = bd, is_tbl = tbl, is_detect = det, is_all = all, is_n = m, is_seed = g\<rparr>"
    "residual (is_skl st) ret s" "completed s = s"
proof -
  have inv: "residual skl removed (is_skl st)" "lists_inv F t (is_tbl st, is_detect st, is_all st, is_n st)"
    "is_detect st = fold (add_new (kt_n t)) removed []"
    using assms(1) unfolding infer_inv_def by blast+
  have ok: "skl_ok (is_skl st)" and shape: "same_shape skl (is_skl st)"
    using inv(1) by (simp_all add: residual_def)
  have ret: "\<forall>r \<in> set ret. length (rt_key r) = 13"
    using assms(2) by (simp add: flows_ok_def)
  have keys: "\<forall>r \<in> set (take (length ret) ret). key_ok (is_skl st) (rt_key r)"
    using ret assms(4) same_shape_simps(3) [OF shape] by (auto simp: key_ok_def)
  from remove_large_residual [OF assms(6) ok keys] show res: "residual (is_skl st) ret s" "completed s = s"
    by simp_all
  have "record_flows F (kt_n t) max_ret ret (is_tbl st, is_detect st, is_all st, is_n st) = Inr (tbl, det, all, m)"
    using assms(3,5) same_shape_simps(3) [OF shape] by simp
  from record_flows_inv [OF this inv(2) ret]
  show "infer_inv F t skl (removed @ ret)
      \<lparr>is_skl = s, is_bd = bd, is_tbl = tbl, is_detect = det, is_all = all, is_n = m, is_seed = g\<rparr>"
    using residual_trans [OF inv(1) res(1)] inv(3) by (auto simp: infer_inv_def)
qed

lemma inference_step_cases:
  assumes "inference_step rounds F S rand conf max_ret d st = Some (Inr (st', again))"
    and "infer_inv F t skl removed st" and "kt_n t = lgn skl" and "lgn skl \<le> 104"
    and ret: "\<forall>ret g thresh. detect_with_thresh rounds F S rand (is_seed st) conf max_ret (is_skl st) thresh = Some (Inr (ret, g)) \<longrightarrow>
      flows_ok (kt_n t) ret"
  obtains (stop) "\<not> again" and "is_skl st' = is_skl st" and "infer_inv F t skl removed st'"
      and "extracts rounds F S rand conf max_ret d (is_seed st) (is_skl st) [] (is_skl st)"
    | (again) rs where "again" and "\<not> f_less F (f_div F (f_of_int F 1) (f_of_int F d)) (min_thresh F)" and "flows_ok (kt_n t) rs"
      and "infer_inv F t skl (removed @ rs) st'"
      and "\<And>rets u. extracts rounds F S rand conf max_ret (d + 1) (is_seed st') (is_skl st') rets u \<Longrightarrow>
        extracts rounds F S rand conf max_ret d (is_seed st) (is_skl st) (rs # rets) u"
proof -
  let ?thresh = "f_div F (f_of_int F 1) (f_of_int F d)"
  consider (small) "st' = st" "\<not> again" "f_less F ?thresh (min_thresh F)" |
    (none) g where "st' = st\<lparr>is_seed := g\<rparr>" "\<not> again" "\<not> f_less F ?thresh (min_thresh F)"
      "detect_with_thresh rounds F S rand (is_seed st) conf max_ret (is_skl st) ?thresh = Some (Inr ([], g))" |
    (flows) rs g tbl det all m s bd where "again" "\<not> f_less F ?thresh (min_thresh F)" "rs \<noteq> []"
      "detect_with_thresh rounds F S rand (is_seed st) conf max_ret (is_skl st) ?thresh = Some (Inr (rs, g))"
      "record_flows F (lgn (is_skl st)) max_ret rs (is_tbl st, is_detect st, is_all st, is_n st) = Inr (tbl, det, all, m)"
      "remove_large F (is_skl st) (is_bd st) rs (length rs) = Some (s, bd)"
      "st' = \<lparr>is_skl = s, is_bd = bd, is_tbl = tbl, is_detect = det, is_all = all, is_n = m, is_seed = g\<rparr>"
    using assms(1) by (auto simp: inference_step_def Let_def split: if_splits option.splits sum.splits)
  then show thesis
  proof cases
    case small
    then show thesis
      using stop assms(2) ex_small by blast
  next
    case none
    then have "infer_inv F t skl removed st'"
      using assms(2) by (auto simp: infer_inv_def)
    then show thesis
      using stop none ex_none by fastforce
  next
    case flows
    note ok = ret [rule_format, OF flows(4)]
    note round = inference_round [OF assms(2) ok assms(3,4) flows(5,6)]
    show thesis
      using again [OF flows(1,2) ok] round(1) ex_flows [OF flows(2,4,3) round(2,3)] flows(7) by simp
  qed
qed

lemma inference_loop_returns:
  assumes detect: "\<And>skl' g thresh. lgn skl' = lgn skl \<Longrightarrow>
      \<exists>res. detect_with_thresh rounds F S rand g conf max_ret skl' thresh = Some res \<and>
        (\<forall>ret g'. res = Inr (ret, g') \<longrightarrow> flows_ok (kt_n t) ret)"
    and "kt_n t = lgn skl" and "lgn skl \<le> 104" and "f_less F (f_div F (f_of_int F 1) (f_of_int F 4)) (min_thresh F)"
    and "infer_inv F t skl removed st" and "d + int fuel = 5" and "d \<le> 4"
  shows "\<exists>res. inference_loop fuel rounds F S rand conf max_ret d st = Some res \<and>
    (\<forall>st'. res = Inr st' \<longrightarrow>
       (\<exists>rets. extracts rounds F S rand conf max_ret d (is_seed st) (is_skl st) rets (is_skl st') \<and>
          infer_inv F t skl (removed @ concat rets) st' \<and> d + int (length rets) \<le> 4 \<and> (\<forall>ret \<in> set rets. flows_ok (kt_n t) ret)))"
  using assms(5-)
proof (induction fuel arbitrary: d st removed)
  case (Suc fuel)
  have lgn: "lgn (is_skl st) = lgn skl"
    using Suc.prems(1) same_shape_simps(3) by (auto simp: infer_inv_def residual_def)
  note detect = detect [OF lgn, of "is_seed st"]
  have "inference_step rounds F S rand conf max_ret d st \<noteq> None"
    using detect [of "f_div F (f_of_int F 1) (f_of_int F d)"]
    by (auto simp: inference_step_def Let_def split: sum.splits option.splits)
  then obtain res where res: "inference_step rounds F S rand conf max_ret d st = Some res"
    by blast
  show ?case
  proof (cases res)
    case (Inr p)
    obtain st' b where p: "p = (st', b)"
      by (cases p)
    have "flows_ok (kt_n t) ret"
      if "detect_with_thresh rounds F S rand (is_seed st) conf max_ret (is_skl st) thresh = Some (Inr (ret, g))" for ret g thresh
      using detect [of thresh] that by simp
    then have "\<forall>ret g thresh. detect_with_thresh rounds F S rand (is_seed st) conf max_ret (is_skl st) thresh = Some (Inr (ret, g)) \<longrightarrow>
        flows_ok (kt_n t) ret"
      by blast
    then show ?thesis
    proof (rule inference_step_cases [OF res [unfolded Inr p] Suc.prems(1) assms(2,3)], goal_cases)
      case 1
      then show ?case
        using res Inr p Suc.prems(3) by (auto intro!: exI [of _ "[]"])
    next
      case (2 rs)
      then have "d + 1 + int fuel = 5" "d + 1 \<le> 4"
        using Suc.prems(2,3) assms(4) by (auto simp: le_less)
      from Suc.IH [OF 2(4) this] obtain res' where
        r: "inference_loop fuel rounds F S rand conf max_ret (d + 1) st' = Some res'" "\<forall>st''. res' = Inr st'' \<longrightarrow>
          (\<exists>rets. extracts rounds F S rand conf max_ret (d + 1) (is_seed st') (is_skl st') rets (is_skl st'') \<and>
             infer_inv F t skl ((removed @ rs) @ concat rets) st'' \<and> d + 1 + int (length rets) \<le> 4 \<and>
             (\<forall>ret \<in> set rets. flows_ok (kt_n t) ret))"
        by blast
      have "\<exists>rets. extracts rounds F S rand conf max_ret d (is_seed st) (is_skl st) rets (is_skl st'') \<and>
          infer_inv F t skl (removed @ concat rets) st'' \<and> d + int (length rets) \<le> 4 \<and> (\<forall>ret \<in> set rets. flows_ok (kt_n t) ret)"
        if eq: "res' = Inr st''" for st''
      proof -
        obtain rets where "extracts rounds F S rand conf max_ret (d + 1) (is_seed st') (is_skl st') rets (is_skl st'')"
          "infer_inv F t skl ((removed @ rs) @ concat rets) st''" "d + 1 + int (length rets) \<le> 4"
          "\<forall>ret \<in> set rets. flows_ok (kt_n t) ret"
          using r(2) eq by blast
        then show ?thesis
          using 2(3,5) by (intro exI [of _ "rs # rets"]) simp
      qed
      then show ?case
        using res Inr p 2(1) r(1) by simp
    qed
  qed (simp add: res)
qed simp

text \<open>The false positives are the detected flows that are not among the true ones.\<close>

lemma count_fp_spec:
  assumes "kt_ok F tbl" and "\<forall>r \<in> set rs. length (rt_key r) = 13"
  shows "count_fp tbl rs m = Inr (m + length (filter (\<lambda>k. k \<notin> dom (kt_map tbl)) (keys_of (kt_n tbl) rs)))"
  using assms(2)
proof (induction rs arbitrary: m)
  case (Cons r rs)
  have "kt_n tbl div 8 \<le> length (rt_key r)"
    using assms(1) Cons.prems by (simp add: kt_ok_def)
  from find_spec [OF assms(1) this] Cons show ?case
    by (auto simp: keys_of_def domIff split: option.splits)
qed (simp add: keys_of_def)

text \<open>The total that \<^verbatim>\<open>main\<close> computes is the sum of the totals of the first row.\<close>

lemma total_size_row:
  assumes "skl_ok skl" and "0 < depth skl" and "m \<le> width skl"
  shows "total_size skl [m..<skl_size skl] acc = Some (acc + (\<Sum>j\<leftarrow>[m..<width skl]. scast (cnt skl 0 j 0)))"
  using assms(3)
proof (induction "width skl - m" arbitrary: m acc)
  case 0
  then have "m = width skl" "0 < width skl"
    using assms(1) by (simp_all add: skl_ok_def)
  then show ?case
    using assms(2) by (cases "m < skl_size skl") (simp_all add: upt_conv_Cons)
next
  case (Suc n)
  then have "m < width skl"
    by simp
  moreover have "width skl * 1 \<le> width skl * depth skl"
    using assms(2) by (intro mult_le_mono) simp_all
  ultimately have m: "m < width skl" "m < skl_size skl"
    unfolding skl_size_def by linarith+
  then have len: "m < length (counts skl)"
    using assms(1) by (simp add: skl_ok_def skl_size_def mult.commute)
  then have "length (counts skl ! m) = 1 + lgn skl * 2"
    using assms(1) by (simp add: skl_ok_def)
  then have "counts skl ! m \<noteq> []"
    by auto
  moreover have "total_size skl [Suc m..<skl_size skl] (acc + scast (cnt skl 0 m 0)) =
      Some (acc + scast (cnt skl 0 m 0) + (\<Sum>j\<leftarrow>[Suc m..<width skl]. scast (cnt skl 0 j 0)))"
    using Suc m by simp
  ultimately show ?case
    using m len by (simp add: upt_conv_Cons cnt_def add.assoc)
qed

lemma tot_size_row:
  "skl_ok skl \<Longrightarrow> 0 < depth skl \<Longrightarrow> tot_size skl = Some (\<Sum>j\<leftarrow>[0..<width skl]. scast (cnt skl 0 j 0))"
  using total_size_row [of skl 0 0] by (simp add: tot_size_def)

text \<open>
  Claim C7. \<^verbatim>\<open>do_inference\<close> ends, and when it ends without an error it has done what \<open>extracts\<close> says, in at most two rounds: in every
  round it has removed from the sketch exactly the flows that \<^verbatim>\<open>detect_with_thresh\<close> returned for it.  The sketch it prints is the
  sketch of the interval without all of them: every counter is what it was, less the sizes of the removed flows that it
  counts.  \<^verbatim>\<open>list_detect\<close> has the flows of the rounds in their order, every key once, and agrees with \<^verbatim>\<open>list_all_detect\<close> in
  keys and sizes.  The conditions are that the tables never time out, that the length of the keys is that of the sketch, and
  that 1/4 is less than 0.3.
\<close>

theorem inference_residual:
  assumes "float_consts F" and "permuting (qs_rich S)" and "keytbl_timeout conf = f_of_int F (-1)"
    and "key_len conf = lgn skl" and "lgn skl \<le> 104" and "calc_next_prime 60000 = Some q"
    and "f_less F (f_div F (f_of_int F 1) (f_of_int F 4)) (min_thresh F)"
    and "skl_ok skl" and "\<forall>x \<in> set all. length (t_key x) = 13" and "rounds = Suc (nat q * 10)"
  shows "\<exists>res. do_inference 3 rounds F S rand g conf max_ret true_file p skl bd all = Some res \<and>
    (\<forall>tbl st. res = Inr (tbl, st) \<longrightarrow>
       (\<exists>t1 g1 t2 g2 rets.
          key_tbl_init F rand g (key_len conf) 60000 10 (keytbl_timeout conf) = Some (t1, g1) \<and>
          key_tbl_init F rand g1 (key_len conf) 60000 10 (keytbl_timeout conf) = Some (t2, g2) \<and>
          extracts rounds F S rand conf max_ret 2 g2 skl rets (is_skl st) \<and> length rets \<le> 2 \<and>
          residual skl (concat rets) (is_skl st) \<and> (\<forall>ret \<in> set rets. flows_ok (lgn skl) ret) \<and>
          is_detect st = fold (add_new (lgn skl)) (concat rets) []) \<and>
       distinct (keys_of (lgn skl) (is_detect st)) \<and>
       map (tuple_key (lgn skl)) (take (is_n st) (is_all st)) = map (rich_key (lgn skl)) (is_detect st))"
proof -
  have n: "key_len conf = lgn skl" "lgn skl div 8 \<le> 13"
    using assms(4,5) by auto
  have init: "\<exists>tbl g'. key_tbl_init F rand g (key_len conf) 60000 10 (keytbl_timeout conf) = Some (tbl, g') \<and> kt_ok F tbl \<and>
      kt_map tbl = Map.empty \<and> kt_n tbl = lgn skl" for g
    using init_ok [of 60000 "key_len conf" F rand g 10] assms(3) n by (auto simp: INT_MAX_def)
  obtain tt g1 where tt: "key_tbl_init F rand g (key_len conf) 60000 10 (keytbl_timeout conf) = Some (tt, g1)"
    using init by blast
  obtain t g2 where t: "key_tbl_init F rand g1 (key_len conf) 60000 10 (keytbl_timeout conf) = Some (t, g2)" "kt_ok F t"
    "kt_map t = Map.empty" "kt_n t = lgn skl"
    using init by blast
  let ?st = "\<lparr>is_skl = skl, is_bd = bd, is_tbl = t, is_detect = [], is_all = all, is_n = 0, is_seed = g2\<rparr>"
  have inv: "infer_inv F t skl [] ?st"
    using residual_Nil [OF assms(8)] t(2,3) assms(1,9) by (simp add: infer_inv_def lists_inv_def keys_of_def kt_inv_def)
  have detect: "\<exists>res. detect_with_thresh rounds F S rand g conf max_ret skl' thresh = Some res \<and>
      (\<forall>ret g'. res = Inr (ret, g') \<longrightarrow> flows_ok (kt_n t) ret)" if "lgn skl' = lgn skl" for skl' g thresh
    using detect_with_thresh_returns [OF assms(1-3), where skl = skl' and q = q and fuel = rounds] that assms(4-6,10) t(4)
    by simp
  obtain res where res: "inference_loop 3 rounds F S rand conf max_ret 2 ?st = Some res"
    "\<And>st. res = Inr st \<Longrightarrow> \<exists>rets. extracts rounds F S rand conf max_ret 2 g2 skl rets (is_skl st) \<and>
       infer_inv F t skl (concat rets) st \<and> length rets \<le> 2 \<and> (\<forall>ret \<in> set rets. flows_ok (kt_n t) ret)"
    using inference_loop_returns [OF detect t(4) assms(5,7) inv, of 2 3] by auto
  show ?thesis
  proof (cases "key_tbl_read_file F true_file p tt")
    case (Inl err)
    then show ?thesis
      using tt t(1) by (simp add: do_inference_def)
  next
    case (Inr y)
    then have eq: "do_inference 3 rounds F S rand g conf max_ret true_file p skl bd all = Some (map_sum id (Pair (fst y)) res)"
      using tt t(1) res(1) by (simp add: do_inference_def case_prod_beta)
    show ?thesis
    proof (cases res)
      case (Inr st)
      then show ?thesis
        using eq res(2) [OF Inr] tt t(1,4) by (auto simp: infer_inv_def lists_inv_def)
    qed (simp add: eq)
  qed
qed

definition small_flow :: "u32 \<Rightarrow> rat rich_tuple" where
  "small_flow v = \<lparr>rt_key = 7 # replicate 12 0, rt_size = v, rt_index = 0, rt_conf = []\<rparr>"

theorem detect_copy_witness:
  "\<exists>s g1 st g'. SKL_Init of_nat \<lparr>seed = 7, drawn = 0\<rparr> 4 2 104 = Some (s, g1) \<and>
     detect_start rat_ops of_nat \<lparr>seed = 7, drawn = 0\<rparr> (small_conf\<lparr>key_len := 104\<rparr>) 5 s = Inr (st, g') \<and> ds_skl st = s"
proof -
  let ?g = "\<lparr>seed = 7, drawn = 0\<rparr>" and ?conf = "small_conf\<lparr>key_len := 104\<rparr>"
  obtain s g1 where s: "SKL_Init of_nat ?g 4 2 104 = Some (s, g1)"
    using SKL_Init_Some [OF next_prime_4, of 2 104 of_nat ?g] by (auto simp: INT_MAX_def)
  have "(4 :: int) \<le> INT_MAX" "8 dvd (104 :: nat)"
    by (simp_all add: INT_MAX_def)
  note shape = SKL_Init_shape [OF s this]
  have "SKL_Copy s s = Inr s"
    using SKL_Copy_correct [OF shape(1) shape(1) refl] by simp
  moreover have "seed (draw_seed of_nat ?g) \<noteq> 0" "seed ?g = seed (draw_seed of_nat ?g)"
    by (simp_all add: draw_seed_def)
  moreover obtain tbl g2 where "key_tbl_init rat_ops of_nat ?g 104 60000 10 (f_of_int rat_ops (-1)) = Some (tbl, g2)"
    using init_ok [of 60000 104 rat_ops of_nat ?g 10] by (auto simp: INT_MAX_def)
  ultimately obtain st g' where st: "detect_start rat_ops of_nat ?g ?conf 5 s = Inr (st, g')"
    using SKL_Init_again [OF s, of ?g] by (auto simp: detect_start_def small_conf_def Let_def rat_ops_def)
  have "SKL_Init of_nat ?g (skl_width ?conf) (skl_depth ?conf) (key_len ?conf) = Some (s, g1)" "seed (draw_seed of_nat ?g) \<noteq> 0"
    "seed ?g = seed (draw_seed of_nat ?g)" "skl_width ?conf \<le> INT_MAX" "8 dvd key_len ?conf" "same_shape s s"
    using s by (simp_all add: small_conf_def draw_seed_def INT_MAX_def)
  from detect_copy [OF this(1-5) shape(1) this(6) st] show ?thesis
    using s st by blast
qed

theorem remove_large_exact_witness:
  "\<exists>s t bd'. SKL_Updates (SKL_Reset small_skl) [([7], 5), ([9], 1), ([7], 6)] = Some s \<and>
     remove_large rat_ops s \<lparr>bit_mean = replicate 8 0, bit_std = replicate 8 0\<rparr> [small_flow 11] 1 = Some (t, bd') \<and>
     (\<forall>i j k. i < 2 \<and> j < 3 \<and> k \<le> 8 \<longrightarrow> cnt t i j k = (if counts_in small_skl i j k [9] then 1 else 0))"
proof -
  let ?us = "[([7], 5), ([9], 1), ([7], 6)] :: (u8 list \<times> u32) list"
  have small: "depth small_skl = 2" "width small_skl = 3" "lgn small_skl = 8"
    by (simp_all add: small_skl_def)
  have flow: "flow_size small_skl ?us (rt_key (small_flow 11)) = 11" "other_flows small_skl [small_flow 11] ?us = [([9], 1)]"
    by (simp_all add: flow_size_def other_flows_def same_flow_def small small_flow_def)
  have "\<forall>u \<in> set ?us. key_ok small_skl (fst u)" "\<forall>r \<in> set [small_flow 11]. key_ok small_skl (rt_key r)"
    "distinct (keys_of (lgn small_skl) [small_flow 11])"
    "\<forall>r \<in> set [small_flow 11]. rt_size r = flow_size small_skl ?us (rt_key r) \<and> sint (rt_size r) \<noteq> - INT_MAX - 1"
    "lgn small_skl \<le> length (bit_mean \<lparr>bit_mean = replicate 8 (0 :: rat), bit_std = replicate 8 0\<rparr>)"
    "lgn small_skl \<le> length (bit_std \<lparr>bit_mean = replicate 8 (0 :: rat), bit_std = replicate 8 0\<rparr>)"
    "depth small_skl * width small_skl \<noteq> 1"
    using flow(1) by (simp_all add: key_ok_def keys_of_def small small_flow_def INT_MAX_def)
  from remove_large_exact [OF small_skl_ok this, of rat_ops] show ?thesis
    unfolding flow(2) small by auto
qed

end
