(* ===== verification/Controller_Example.thy ===== *)
theory Controller_Example
  imports Controller_Correct
begin

text \<open>
  An example of an inference that detects a flow, whatever the hash functions are.  The sketch has one row of two buckets with
  the same counters, all of them 100: those of a flow of 100 bytes whose key has all bits set.  The key falls into one of the
  buckets.  There the flow is detected and removed; what is left in that bucket is 0.
\<close>

section \<open>The sketch\<close>

definition ones :: "u8 list" where
  "ones = replicate 13 255"

definition full_bucket :: "u32 \<Rightarrow> u32 list" where
  "full_bucket v = v # replicate 104 v @ replicate 104 0"

definition ex_shape :: "SketchLearn \<Rightarrow> bool" where
  "ex_shape s \<longleftrightarrow> skl_ok s \<and> depth s = 1 \<and> width s = 2 \<and> lgn s = 104"

text \<open>The bucket of the key has \<open>v\<close>, the other one 100.\<close>

definition ex_skl :: "SketchLearn \<Rightarrow> u32 \<Rightarrow> SketchLearn" where
  "ex_skl s v = s\<lparr>counts := (replicate 2 (full_bucket 100))[bucket s 0 ones := full_bucket v]\<rparr>"

definition ex_flow :: "u32 \<Rightarrow> rat rich_tuple" where
  "ex_flow v = \<lparr>rt_key = ones, rt_size = v, rt_index = 0, rt_conf = replicate 104 1\<rparr>"

lemma full_bucket_nth:
  "length (full_bucket v) = 209" "k \<le> 104 \<Longrightarrow> full_bucket v ! k = v" "p < 104 \<Longrightarrow> full_bucket v ! (p + 1 + 104) = 0"
  by (auto simp: full_bucket_def nth_Cons nth_append split: nat.splits)

lemma key_bit_ones: "p < 104 \<Longrightarrow> key_bit ones p"
proof -
  assume "p < 104"
  then have "p div 8 < 13"
    by (simp add: div_less_iff_less_mult)
  moreover have "bit (255 :: u8) n" if "n < 8" for n
  proof -
    have "(255 :: u8) = - 1"
      by simp
    then show ?thesis
      using that by (simp only: bit_simps) simp
  qed
  ultimately show ?thesis
    by (simp add: key_bit_def ones_def)
qed

lemma length_ones [simp]: "length ones = 13"
  by (simp add: ones_def)

lemma get_bit_ones: "p < 104 \<Longrightarrow> get_bit ones p = Some 1"
  by (simp add: get_bit_key_bit key_bit_ones div_less_iff_less_mult)

lemma ex_bucket: "ex_shape s \<Longrightarrow> bucket s 0 ones < 2"
  using bucket_less [of s 0 ones] by (simp add: ex_shape_def)

lemma ex_skl_shape:
  assumes "ex_shape s"
  shows "same_shape s (ex_skl s v)" "skl_ok (ex_skl s v)" "depth (ex_skl s v) = 1" "width (ex_skl s v) = 2" "lgn (ex_skl s v) = 104"
    "bucket (ex_skl s v) 0 ones = bucket s 0 ones" "ex_shape (ex_skl s v)"
proof -
  show shape: "same_shape s (ex_skl s v)"
    by (simp add: ex_skl_def)
  have "\<forall>c \<in> set ((replicate 2 (full_bucket 100))[bucket s 0 ones := full_bucket v]). length c = 209"
    using set_update_subset_insert [of "replicate 2 (full_bucket 100)" "bucket s 0 ones" "full_bucket v"] full_bucket_nth(1) by auto
  then show ok: "skl_ok (ex_skl s v)"
    using assms by (simp add: ex_shape_def skl_ok_def ex_skl_def)
  show dims: "depth (ex_skl s v) = 1" "width (ex_skl s v) = 2" "lgn (ex_skl s v) = 104"
    using assms by (simp_all add: ex_shape_def ex_skl_def)
  show "bucket (ex_skl s v) 0 ones = bucket s 0 ones"
    by (simp add: bucket_def row_hash_def ex_skl_def)
  show "ex_shape (ex_skl s v)"
    using ok dims by (simp add: ex_shape_def)
qed

lemma counts_ex_skl:
  assumes "ex_shape s" and "j < 2"
  shows "counts (ex_skl s v) ! j = full_bucket (if j = bucket s 0 ones then v else 100)"
  using assms ex_bucket [OF assms(1)] by (simp add: ex_skl_def nth_list_update)

text \<open>A sketch that agrees with another in the counters of the bits and has the counters of zero bits that belong to them.\<close>

lemma same_counters:
  assumes "skl_ok a" and "skl_ok b" and "same_shape a b" and "completed a = a" and "completed b = b"
    and "\<And>i j k. i < depth a \<Longrightarrow> j < width a \<Longrightarrow> k \<le> lgn a \<Longrightarrow> cnt a i j k = cnt b i j k"
  shows "a = b"
proof -
  note shape = same_shape_simps [OF assms(3)]
  have all: "cnt a i j k = cnt b i j k" if ij: "i < depth a" "j < width a" and "k < 1 + lgn a * 2" for i j k
  proof (cases "k \<le> lgn a")
    case False
    define p where "p = k - 1 - lgn a"
    have p: "k = p + 1 + lgn a" "p < lgn a"
      using False that(3) by (auto simp: p_def)
    have "cnt a i j k = cnt a i j 0 - cnt a i j (p + 1)"
      using cnt_completed(2) [OF assms(1) ij p(2)] assms(4) p(1) by simp
    moreover have "cnt b i j k = cnt b i j 0 - cnt b i j (p + 1)"
      using cnt_completed(2) [OF assms(2), of i j p] ij p assms(5) shape by simp
    ultimately show ?thesis
      using assms(6) [OF ij] p(2) by simp
  qed (use assms(6) ij in simp)
  have "counts a = counts b"
  proof (rule nth_equalityI)
    show "length (counts a) = length (counts b)"
      using assms(1,2) shape by (simp add: skl_ok_def)
    fix x
    assume x: "x < length (counts a)"
    define i where "i = x div width a"
    define j where "j = x mod width a"
    have w: "0 < width a" "length (counts a) = width a * depth a"
      using assms(1) by (simp_all add: skl_ok_def)
    then have ij: "i < depth a" "j < width a" "i * width a + j = x"
      using x by (simp_all add: i_def j_def div_less_iff_less_mult mult.commute)
    have len: "length (counts a ! x) = 1 + lgn a * 2" "length (counts b ! x) = 1 + lgn a * 2"
      using assms(1,2) x shape w(2) by (simp_all add: skl_ok_def)
    show "counts a ! x = counts b ! x"
      using len all [OF ij(1,2)] ij(3) shape by (intro nth_equalityI) (simp_all add: cnt_def)
  qed
  moreover have "b = a\<lparr>counts := counts b\<rparr>"
    using assms(3) by (simp only: same_shape_def)
  ultimately have "b = a\<lparr>counts := counts a\<rparr>"
    by (simp only:)
  then show ?thesis
    by simp
qed

lemma residual_unique:
  assumes "residual s rs a" and "completed a = a" and "residual s rs b" and "completed b = b"
  shows "a = b"
proof (rule same_counters)
  show "skl_ok a" "skl_ok b" "completed a = a" "completed b = b"
    using assms by (simp_all add: residual_def)
  show "same_shape a b"
    using assms(1,3) same_shape_trans [OF same_shape_sym] by (auto simp: residual_def)
  fix i j k
  assume "i < depth a" "j < width a" "k \<le> lgn a"
  moreover have "same_shape s a"
    using assms(1) by (simp add: residual_def)
  ultimately show "cnt a i j k = cnt b i j k"
    using assms(1,3) same_shape_simps [OF \<open>same_shape s a\<close>] by (simp add: residual_def)
qed

lemma cnt_ex_skl: "ex_shape s \<Longrightarrow> j < 2 \<Longrightarrow> k \<le> 104 \<Longrightarrow> cnt (ex_skl s v) 0 j k = (if j = bucket s 0 ones then v else 100)"
  by (simp add: cnt_def counts_ex_skl full_bucket_nth(2))

lemma completed_ex_skl:
  assumes "ex_shape s"
  shows "completed (ex_skl s v) = ex_skl s v"
proof -
  have "complete_bucket 104 (full_bucket v) = full_bucket v" for v
  proof (rule nth_equalityI)
    have len: "length (full_bucket v) = 1 + 104 * 2"
      by (simp add: full_bucket_nth)
    note spec = complete_bucket_spec [OF len]
    show "length (complete_bucket 104 (full_bucket v)) = length (full_bucket v)"
      by (rule spec(1))
    fix k
    assume "k < length (complete_bucket 104 (full_bucket v))"
    then have k: "k < 209"
      using spec(1) by (simp add: full_bucket_nth)
    show "complete_bucket 104 (full_bucket v) ! k = full_bucket v ! k"
    proof (cases "k \<le> 104")
      case False
      define p where "p = k - 105"
      have p: "k = p + 1 + 104" "p < 104"
        using False k by (auto simp: p_def)
      show ?thesis
        unfolding p(1) spec(3) [OF p(2)] full_bucket_nth(3) [OF p(2)] using p(2) by (simp add: full_bucket_nth)
    qed (rule spec(2))
  qed
  then show ?thesis
    using assms by (simp add: completed_def ex_skl_def map_update map_replicate ex_shape_def)
qed

lemma residual_ex_skl:
  assumes "ex_shape s"
  shows "residual (ex_skl s v) [ex_flow v] (ex_skl s 0)" "residual (ex_skl s v) [] (ex_skl s v)"
proof -
  note shape = ex_skl_shape [OF assms, of v] ex_skl_shape [OF assms, of 0]
  have "same_shape (ex_skl s v) (ex_skl s 0)"
    using same_shape_trans [OF same_shape_sym [OF shape(1)] shape(8)] .
  moreover have "counts_in (ex_skl s v) 0 j k ones \<longleftrightarrow> j = bucket s 0 ones" if "k \<le> 104" for j k
    using that shape(5,6) key_bit_ones [of "k - 1"] by (auto simp: counts_in_def)
  ultimately show "residual (ex_skl s v) [ex_flow v] (ex_skl s 0)"
    using shape by (simp add: residual_def cnt_ex_skl [OF assms] ex_flow_def)
  show "residual (ex_skl s v) [] (ex_skl s v)"
    by (rule residual_Nil [OF shape(2)])
qed

section \<open>What is found in it\<close>

definition ex_infos :: "rat bit_info list" where
  "ex_infos = map (\<lambda>p. \<lparr>bi_pos = p, bi_guess = 1, bi_prob = 1\<rparr>) (rev [0..<104])"

lemma share_le:
  assumes "0 \<le> x" and "0 \<le> ratio"
  shows "(1 - ratio) * of_int x \<le> (of_int x :: rat)" "ratio \<le> 1 \<Longrightarrow> ratio * of_int x \<le> (of_int x :: rat)"
proof -
  have "0 \<le> ratio * of_int x"
    using assms by simp
  then show "(1 - ratio) * of_int x \<le> (of_int x :: rat)"
    by (simp add: algebra_simps)
  show "ratio \<le> 1 \<Longrightarrow> ratio * of_int x \<le> (of_int x :: rat)"
    using assms mult_right_mono [of ratio 1 "of_int x"] by simp
qed

lemma guess_bit_full:
  assumes "0 \<le> sint v" and "0 \<le> ratio" and "p < 104"
  shows "guess_bit rat_ops (full_bucket v) 104 ratio bd p = Some (1, 1, False)"
proof -
  note share_le(1) [OF assms(1,2)]
  moreover have "full_bucket v ! 0 = v" "full_bucket v ! (p + 1) = v"
    using full_bucket_nth(2) [of 0] full_bucket_nth(2) [of "p + 1"] assms(3) by simp_all
  ultimately show ?thesis
    by (simp add: guess_bit_def Let_def rat_ops_def f_of_u32_def)
qed

lemma unsure_none: "\<forall>b \<in> set infos. bi_prob b = (1 :: rat) \<Longrightarrow> n \<le> length infos \<Longrightarrow> unsure_bits rat_ops infos n = 0"
  by (induction n) (simp_all add: rat_ops_def min_conf_def f_lit_def)

lemma confidences_ones:
  assumes "\<forall>b \<in> set infos. bi_prob b = (1 :: rat) \<and> bi_guess b = 1 \<and> bi_pos b < 104"
  shows "confidences rat_ops 104 ones infos = replicate 104 1"
proof -
  have upd: "(replicate n (1 :: rat))[i := 1] = replicate n 1" for n i
    by (metis list_update_beyond list_update_id not_le nth_replicate length_replicate)
  show ?thesis
    using assms unfolding confidences_def by (induction infos) (simp_all add: rat_ops_def get_bit_ones upd)
qed

lemma ex_guesses:
  assumes "ex_shape s" and "0 \<le> sint v" and "0 \<le> ratio" and "j < 2" and "length (bit_mean bd) = 104" and "length (bit_std bd) = 104"
  shows "bucket_guesses rat_ops (\<lambda>xs. xs) (ex_skl s v) bd ratio 0 j = Some (ex_infos, [ones])"
proof -
  define u where "u = (if j = bucket s 0 ones then v else 100)"
  have u: "0 \<le> sint u" "counts (ex_skl s v) ! j = full_bucket u"
    using assms(2) counts_ex_skl [OF assms(1,4)] by (simp_all add: u_def)
  note guess = guess_bit_full [OF u(1) assms(3)]
  have dims: "lgn (ex_skl s v) = 104" "width (ex_skl s v) = 2"
    by (simp_all add: ex_skl_shape [OF assms(1)])
  have pre: "8 dvd (104 :: nat)" "104 * 2 < length (full_bucket u)" "104 \<le> length (bit_mean bd)" "104 \<le> length (bit_std bd)"
    "104 div 8 \<le> length (replicate 13 (0 :: u8))" "(104 :: nat) \<le> 104"
    using assms(5,6) by (simp_all add: full_bucket_nth)
  obtain conf t where t: "skl_find_key_bits rat_ops (full_bucket u) 104 ratio bd (replicate 13 0) =
      Some (conf, t, concat (map (\<lambda>p. guess_info p (guess_bit rat_ops (full_bucket u) 104 ratio bd p)) (rev [0..<104])))"
    "length t = length (replicate 13 (0 :: u8))"
    "\<And>p. p < 104 \<Longrightarrow> key_bit t p = guess_one (guess_bit rat_ops (full_bucket u) 104 ratio bd p)"
    using find_key_bits_spec [OF pre, of rat_ops ratio] by blast
  have "map (\<lambda>p. guess_info p (guess_bit rat_ops (full_bucket u) 104 ratio bd p)) (rev [0..<104]) =
      map (\<lambda>p. [\<lparr>bi_pos = p, bi_guess = 1, bi_prob = 1\<rparr>]) (rev [0..<104])"
    using guess by (intro map_cong refl) (simp add: guess_info_def)
  then have infos: "concat (map (\<lambda>p. guess_info p (guess_bit rat_ops (full_bucket u) 104 ratio bd p)) (rev [0..<104])) = ex_infos"
    unfolding ex_infos_def by (simp only: concat_map_singleton)
  have "t = ones"
    using t(2,3) guess key_bit_ones by (intro key_eqI) (simp_all add: guess_one_def)
  moreover have "unsure_bits rat_ops ex_infos (length ex_infos) = 0"
    by (rule unsure_none) (auto simp: ex_infos_def)
  ultimately show ?thesis
    using t(1) u(2) dims infos
    by (simp add: bucket_guesses_def Let_def enumerate_keys_def rat_ops_def allow_bad_ratio_def f_lit_def)
qed

text \<open>The estimate of the key is the counter of its bucket.\<close>

lemma ex_estimate:
  assumes "ex_shape s" and "0 \<le> sint v"
  shows "est_rows (ex_skl s v) ones [0..<1] (sint v) = Some (sint v)"
proof -
  note shape = ex_skl_shape [OF assms(1), of v]
  have "key_ok (ex_skl s v) ones"
    by (simp add: key_ok_def shape)
  from est_rows_spec [OF shape(2) this, of "[0..<1]" "sint v"] obtain r where
    r: "est_rows (ex_skl s v) ones [0..<1] (sint v) = Some r" "\<And>x. x \<le> r \<longleftrightarrow> x \<le> sint v \<and>
      (\<forall>i \<in> set [0..<1]. x \<le> sint (cnt (ex_skl s v) i (bucket (ex_skl s v) i ones) 0) \<and>
        (\<forall>p < 104. x \<le> sint (cnt (ex_skl s v) i (bucket (ex_skl s v) i ones) (sel 104 ones p))))"
    unfolding shape by auto
  have "x \<le> r \<longleftrightarrow> x \<le> sint v" for x
    unfolding r(2) using ex_bucket [OF assms(1)] by (auto simp: sel_def key_bit_ones shape cnt_ex_skl [OF assms(1)])
  then have "r = sint v"
    using order_antisym by blast
  then show ?thesis
    using r(1) by simp
qed

lemma ex_bucket_found:
  assumes "ex_shape s" and "0 \<le> sint v" and "0 \<le> ratio" and "ratio \<le> 1" and "j < 2" and "0 < max_ret"
    and "length (bit_mean bd) = 104" and "length (bit_std bd) = 104"
    and "found = [] \<or> found = [\<lparr>fd_key = ones, fd_val = sint v, fd_conf = replicate 104 (1 :: rat)\<rparr>]"
  shows "identify_bucket rat_ops (\<lambda>xs. xs) (ex_skl s v) bd ratio max_ret (0, j) found =
    Inr (if j = bucket s 0 ones \<and> found = [] then [\<lparr>fd_key = ones, fd_val = sint v, fd_conf = replicate 104 1\<rparr>] else found)"
proof -
  note shape = ex_skl_shape [OF assms(1), of v]
  have len: "length ones = lgn (ex_skl s v) div 8" "0 < depth (ex_skl s v)"
    by (simp_all add: shape)
  have c: "cnt (ex_skl s v) 0 (bucket (ex_skl s v) 0 ones) 0 = v"
    using ex_bucket [OF assms(1)] by (simp add: shape cnt_ex_skl [OF assms(1)])
  have "passes rat_ops (ex_skl s v) ratio 0 ones (sint v)"
    using share_le(2) [OF assms(2-4)] ex_estimate [OF assms(1,2)] unfolding passes_def c shape(3) by (simp add: rat_ops_def f_of_u32_def)
  moreover have "confidences rat_ops 104 ones ex_infos = replicate 104 1"
    by (rule confidences_ones) (auto simp: ex_infos_def)
  moreover obtain r where "est_rows (ex_skl s v) ones [0..<depth (ex_skl s v)] (sint (cnt (ex_skl s v) 0 (bucket (ex_skl s v) 0 ones) 0)) = Some r"
    "try_guess rat_ops (ex_skl s v) ratio max_ret 0 j ex_infos ones found =
      (if bucket (ex_skl s v) 0 ones \<noteq> j \<or> ones \<in> fd_key ` set found then Inr found
       else if length found = max_ret then Inl (Exit_code (-1))
       else if passes rat_ops (ex_skl s v) ratio 0 ones r
            then Inr (found @ [\<lparr>fd_key = ones, fd_val = r, fd_conf = confidences rat_ops (lgn (ex_skl s v)) ones ex_infos\<rparr>])
            else Inr found)"
    by (rule try_guess_cases [OF shape(2) len])
  moreover from this(1) have "r = sint v"
    using ex_estimate [OF assms(1,2)] unfolding c shape(3) by simp
  ultimately show ?thesis
    using assms(6,9) ex_guesses [OF assms(1-3,5,7,8)] by (auto simp: identify_bucket_def shape)
qed

lemma ex_dists:
  assumes "ex_shape s" and "length (bit_mean bd) = 104" and "length (bit_std bd) = 104"
  shows "\<exists>bd'. compute_bit_dists F (ex_skl s v) bd = Some bd' \<and> length (bit_mean bd') = 104 \<and> length (bit_std bd') = 104"
proof -
  note shape = ex_skl_shape [OF assms(1), of v]
  have "counters_ok (ex_skl s v)"
    using shape(2) by (auto simp: counters_ok_def skl_ok_def list_all_iff mult.commute)
  then show ?thesis
    using assms(2,3) shape by (simp add: compute_bit_dists_def)
qed

lemma ex_identify:
  assumes "ex_shape s" and "0 \<le> sint v" and "0 \<le> ratio" and "ratio \<le> 1" and "0 < max_ret"
    and "length (bit_mean bd) = 104" and "length (bit_std bd) = 104"
  shows "\<exists>bd'. SKL_Identify_Thresh rat_ops (\<lambda>xs. xs) (ex_skl s v) bd ratio max_ret =
      Inr (bd', [\<lparr>fd_key = ones, fd_val = sint v, fd_conf = replicate 104 1\<rparr>]) \<and> length (bit_mean bd') = 104 \<and> length (bit_std bd') = 104"
proof -
  note shape = ex_skl_shape [OF assms(1), of v]
  obtain bd' where bd': "compute_bit_dists rat_ops (ex_skl s v) bd = Some bd'" "length (bit_mean bd') = 104" "length (bit_std bd') = 104"
    using ex_dists [OF assms(1,6,7)] by blast
  have "List.product [0..<depth (ex_skl s v)] [0..<width (ex_skl s v)] = [(0, 0), (0, 1)]"
    by (simp add: shape upt_conv_Cons)
  moreover have "bucket s 0 ones = 0 \<or> bucket s 0 ones = 1"
    using ex_bucket [OF assms(1)] by auto
  ultimately show ?thesis
    using bd' ex_bucket_found [OF assms(1-4) _ assms(5) bd'(2,3)] by (auto simp: SKL_Identify_Thresh_def)
qed

section \<open>Its size\<close>

lemma ex_naive:
  "\<forall>b \<in> set bits. b < 104 \<Longrightarrow> naive_est (full_bucket v) 104 ones bits (sint v) = Some (sint v)"
proof (induction bits)
  case (Cons b bits)
  moreover have "full_bucket v ! (b + 1) = v"
    using Cons.prems by (intro full_bucket_nth(2)) simp
  ultimately show ?case
    by (simp add: get_bit_ones full_bucket_nth(1))
qed simp

lemma ex_bit_size:
  assumes "0 \<le> sint v" and "p < 104" and "length (bit_mean bd) = 104"
  shows "bit_size rat_ops (full_bucket v) 104 ones bd p = Some (sint v)"
proof -
  have "sint v < 2 ^ 31"
    using sint_lt [of v] by simp
  then have int: "f_to_int rat_ops (of_int (sint v)) = Some (sint v)"
    using assms(1) by (simp add: rat_ops_def del: of_int_sint)
  have "full_bucket v ! (p + 1) = v" "full_bucket v ! (p + 1 + 104) = 0"
    using assms(2) full_bucket_nth(2,3) by simp_all
  then show ?thesis
    using assms(2,3) int
    by (simp add: bit_size_def get_bit_ones full_bucket_nth(1) Let_def f_of_u32_def) (simp add: rat_ops_def)
qed

lemma those_const: "\<forall>x \<in> set xs. f x = Some c \<Longrightarrow> those (map f xs) = Some (replicate (length xs) c)"
  by (induction xs) simp_all

lemma ex_bucket_size:
  assumes "0 \<le> sint v" and "sint v \<le> 1000" and "length (bit_mean bd) = 104" and "length (bit_std bd) = 104"
  shows "\<exists>infos. skl_est_bucket_size rat_ops (\<lambda>xs. xs) (full_bucket v) 104 ones bd bits_104 (zero_infos rat_ops) = Some (sint v, infos)"
proof -
  have bits: "\<forall>b \<in> set bits_104. b < 104" "length bits_104 = 104"
    by (simp_all add: bits_104_def)
  have "full_bucket v ! 0 = v"
    by (simp add: full_bucket_nth)
  then have naive: "naive_est (full_bucket v) 104 ones bits_104 (sint (full_bucket v ! 0)) = Some (sint v)"
    using ex_naive [OF bits(1)] by simp
  have sizes: "those (map (bit_size rat_ops (full_bucket v) 104 ones bd) bits_104) = Some (replicate 104 (sint v))"
    using those_const [of bits_104 _ "sint v"] ex_bit_size [OF assms(1) _ assms(3)] bits by simp
  have probs: "list_all (\<lambda>pos. pos + 1 + 104 < length (full_bucket v) \<and> pos < length (bit_mean bd) \<and> pos < length (bit_std bd) \<and>
      pos div 8 < length ones) bits_104"
    using assms(3,4) bits(1) by (simp add: list_all_iff full_bucket_nth(1) div_less_iff_less_mult)
  show ?thesis
    using assms(1,2) naive sizes bits(2) probs
    by (simp add: skl_est_bucket_size_def Let_def bucket_probs_def zero_infos_def INT_MAX_def)
qed

lemma ex_size:
  assumes "ex_shape s" and "0 \<le> sint v" and "sint v \<le> 1000" and "length (bit_mean bd) = 104" and "length (bit_std bd) = 104"
  shows "\<exists>infos. SKL_Est_Size rat_ops (\<lambda>xs. xs) (ex_skl s v) bd ones bits_104 (zero_infos rat_ops) = Some (sint v, infos)"
proof -
  note shape = ex_skl_shape [OF assms(1), of v]
  have "key_ok (ex_skl s v) ones"
    by (simp add: key_ok_def shape)
  then have "key_bucket (ex_skl s v) 0 ones = Some (full_bucket v)"
    using key_bucket_Some [OF shape(2), of ones 0] counts_ex_skl [OF assms(1) ex_bucket [OF assms(1)]] by (simp add: shape)
  then show ?thesis
    using ex_bucket_size [OF assms(2-5)] by (auto simp: SKL_Est_Size_def shape)
qed

text \<open>The flow is kept when something is left of it.\<close>

lemma ex_judge:
  assumes "ex_shape s" and "0 \<le> sint v" and "sint v \<le> 1000" and "length (bit_mean bd) = 104" and "length (bit_std bd) = 104"
  shows "judge_flow rat_ops plain_sorts 104 (ex_skl s v) bd (ex_flow x) = Some (ex_flow v, 0 < sint v)"
proof -
  have "(of_int (sint v) :: u32) = v"
    by simp
  moreover have "sint v = 0 \<longleftrightarrow> v = 0"
    by (metis sint_0 signed_word_eqI)
  ultimately show ?thesis
    using ex_size [OF assms] assms(2) by (auto simp: judge_flow_def plain_sorts_def ex_flow_def Let_def rat_ops_def)
qed

section \<open>A round\<close>

lemma put_ones:
  assumes "tmp ! 0 = zero_rich rat_ops" and "0 < length tmp"
  shows "put_flow 104 0 \<lparr>fd_key = ones, fd_val = sint v, fd_conf = replicate 104 1\<rparr> (tmp, 0) = Some (tmp[0 := ex_flow v], 1)"
  using assms by (simp add: put_flow_def zero_rich_def ex_flow_def Let_def)

lemma remove_take: "n \<le> length rs \<Longrightarrow> remove_large F skl bd rs n = remove_large F skl bd (take n rs) n"
  by (simp add: remove_large_def min_def)

lemma ex_remove:
  assumes "ex_shape s" and "0 \<le> sint v" and "length (bit_mean bd) = 104" and "length (bit_std bd) = 104"
    and "rs = [] \<and> u = v \<or> rs = [ex_flow v] \<and> u = 0"
  shows "\<exists>bd'. remove_large rat_ops (ex_skl s v) bd rs (length rs) = Some (ex_skl s u, bd') \<and>
    length (bit_mean bd') = 104 \<and> length (bit_std bd') = 104"
proof -
  note shape = ex_skl_shape [OF assms(1), of v]
  have rs: "\<forall>r \<in> set rs. key_ok (ex_skl s v) (rt_key r) \<and> sint (rt_size r) \<noteq> - INT_MAX - 1"
    using assms(2,5) by (auto simp: ex_flow_def key_ok_def shape INT_MAX_def)
  have "lgn (ex_skl s v) \<le> length (bit_mean bd)" "lgn (ex_skl s v) \<le> length (bit_std bd)" "depth (ex_skl s v) * width (ex_skl s v) \<noteq> 1"
    using assms(3,4) by (simp_all add: shape)
  then obtain t bd' where t: "remove_large rat_ops (ex_skl s v) bd rs (length rs) = Some (t, bd')"
    using remove_large_Some [OF shape(2) rs, of bd rat_ops] by blast
  have "\<forall>r \<in> set (take (length rs) rs). key_ok (ex_skl s v) (rt_key r)"
    using rs by simp
  note rem = remove_large_residual [OF t shape(2) this]
  have "residual (ex_skl s v) rs (ex_skl s u)"
    using assms(5) residual_ex_skl [OF assms(1), of v] by auto
  then have "t = ex_skl s u"
    using residual_unique [of "ex_skl s v" rs t] rem(1,2) completed_ex_skl [OF assms(1)] by simp
  then show ?thesis
    using t rem(3,4) assms(3,4) by simp
qed

text \<open>
  A round finds the flow.  If its key is not in the table, it is put there, and what was left of the flow is removed and, when
  it was positive, added to the result.
\<close>

lemma ex_round:
  assumes "ex_shape s" and "0 \<le> sint v" and "sint v \<le> 1000" and "0 \<le> ratio" and "ratio \<le> 1"
    and "ds_skl st = ex_skl s v" and "length (bit_mean (ds_bd st)) = 104" and "length (bit_std (ds_bd st)) = 104"
    and tbl: "kt_inv rat_ops t (ds_tbl st)" "kt_n t = 104"
    and dom: "ones \<in> dom (kt_map (ds_tbl st)) \<or>
      kt_map (ds_tbl st) = Map.empty \<and> 0 < tbl_list_len t \<and> ds_tmp st ! 0 = zero_rich rat_ops"
    and "length (ds_tmp st) = 5" and "length (ds_ret st) < 5"
  shows "\<exists>st'. detect_round rat_ops plain_sorts 104 5 ratio st = Inr st' \<and> kt_inv rat_ops t (ds_tbl st') \<and>
    ones \<in> dom (kt_map (ds_tbl st')) \<and> length (ds_tmp st') = 5 \<and>
    length (bit_mean (ds_bd st')) = 104 \<and> length (bit_std (ds_bd st')) = 104 \<and>
    (if ones \<in> dom (kt_map (ds_tbl st)) then ds_ret st' = ds_ret st \<and> ds_skl st' = ex_skl s v
     else ds_skl st' = ex_skl s 0 \<and> ds_ret st' = ds_ret st @ (if 0 < sint v then [ex_flow v] else []))"
proof -
  let ?f = "\<lparr>fd_key = ones, fd_val = sint v, fd_conf = replicate 104 (1 :: rat)\<rparr>"
  obtain bd where bd: "SKL_Identify_Thresh rat_ops (\<lambda>xs. xs) (ex_skl s v) (ds_bd st) ratio 5 = Inr (bd, [?f])"
    "length (bit_mean bd) = 104" "length (bit_std bd) = 104"
    using ex_identify [OF assms(1,2,4,5) _ assms(7,8), of 5] by auto
  have kt: "kt_ok rat_ops (ds_tbl st)" "kt_n (ds_tbl st) = 104"
    using tbl by (simp_all add: kt_inv_def same_params_def)
  have take: "take (kt_n (ds_tbl st) div 8) ones = ones" "kt_n (ds_tbl st) div 8 \<le> length ones"
    by (simp_all add: kt(2))
  note find = find_spec [OF kt(1) take(2), unfolded take(1)]
  show ?thesis
  proof (cases "ones \<in> dom (kt_map (ds_tbl st))")
    case True
    then obtain y where "key_tbl_find (ds_tbl st) ones = Inr (Some y)"
      using find by (auto split: option.splits)
    moreover obtain bd' where "remove_large rat_ops (ex_skl s v) bd (ds_tmp st) 0 = Some (ex_skl s v, bd')"
      "length (bit_mean bd') = 104" "length (bit_std bd') = 104"
      using ex_remove [OF assms(1,2) bd(2,3), of "[]" v] remove_take [of 0 "ds_tmp st"] by auto
    ultimately show ?thesis
      using True assms(12) tbl(1) bd(1) by (simp add: detect_round_def assms(6) plain_sorts_def lift_invalid_def)
  next
    case False
    then have empty: "kt_map (ds_tbl st) = Map.empty" "0 < tbl_list_len t" "ds_tmp st ! 0 = zero_rich rat_ops"
      using dom by auto
    then have none: "key_tbl_find (ds_tbl st) ones = Inr None"
      using find by simp
    obtain tb where tb: "record_add rat_ops (ds_tbl st) ones 1 = Inr tb" "kt_inv rat_ops t tb" "kt_map tb = [ones \<mapsto> 1]"
      using record_add_ok [OF tbl(1), of ones 1] empty by (auto simp: tbl(2))
    have put: "put_flow 104 0 ?f (ds_tmp st, 0) = Some ((ds_tmp st)[0 := ex_flow v], 1)"
      using put_ones [OF empty(3)] assms(12) by (metis zero_less_numeral)
    have judge: "judge_flow rat_ops plain_sorts 104 (ex_skl s v) bd (ex_flow v) = Some (ex_flow v, 0 < sint v)"
      using ex_judge [OF assms(1-3) bd(2,3)] .
    obtain x xs where tmp: "ds_tmp st = x # xs" "length xs = 4"
      using assms(12) by (cases "ds_tmp st") auto
    obtain bd' where rem: "remove_large rat_ops (ex_skl s v) bd (ex_flow v # xs) 1 = Some (ex_skl s 0, bd')"
      "length (bit_mean bd') = 104" "length (bit_std bd') = 104"
      using ex_remove [OF assms(1,2) bd(2,3), of "[ex_flow v]" 0] remove_take [of 1 "ex_flow v # xs"] by auto
    show ?thesis
      using False none tb put judge rem bd(1) assms(12,13) tmp
      by (simp add: detect_round_def assms(6) plain_sorts_def lift_invalid_def)
  qed
qed

section \<open>The program\<close>

definition ex_seed :: seed_state where
  "ex_seed = \<lparr>seed = 7, drawn = 0\<rparr>"

definition ex_conf :: "rat skl_conf" where
  "ex_conf = \<lparr>skl_width = 2, skl_depth = 1, key_len = 104, keytbl_timeout = -1\<rparr>"

lemma ex_drawn: "draw_seed rand ex_seed = ex_seed"
  by (simp add: ex_seed_def draw_seed_def)

lemma next_prime_2: "calc_next_prime 2 = Some 2"
proof -
  have "is_prime 2 = 1"
    by (simp add: is_prime_def is_prime_loop.simps)
  then show ?thesis
    by (simp add: calc_next_prime.simps INT_MAX_def)
qed

lemma ex_sketch: "\<exists>s. SKL_Init of_nat ex_seed 2 1 104 = Some (s, ex_seed) \<and> ex_shape s"
proof -
  obtain s g where s: "SKL_Init of_nat ex_seed 2 1 104 = Some (s, g)"
    using SKL_Init_Some [OF next_prime_2, of 1 104 of_nat ex_seed] by (auto simp: INT_MAX_def)
  have "seed (draw_seed of_nat ex_seed) \<noteq> 0" "seed ex_seed = seed (draw_seed of_nat ex_seed)"
    by (simp_all add: draw_seed_def ex_seed_def)
  then have "SKL_Init of_nat ex_seed 2 1 104 = Some (s, ex_seed)"
    by (rule SKL_Init_again [OF s])
  moreover have "(2 :: int) \<le> INT_MAX" "8 dvd (104 :: nat)"
    by (simp_all add: INT_MAX_def)
  note shape = SKL_Init_shape [OF s this]
  have "width s = 2"
    using s next_prime_2 by (auto simp: SKL_Init_def bind_eq_Some_conv split: if_splits)
  ultimately show ?thesis
    using shape by (auto simp: ex_shape_def)
qed

lemma ex_table:
  "\<exists>t. key_tbl_init rat_ops rand ex_seed 104 60000 10 (-1) = Some (t, ex_seed) \<and> kt_inv rat_ops t t \<and> kt_map t = Map.empty \<and>
     kt_n t = 104 \<and> tbl_list_len t = 10"
proof -
  have "f_of_int rat_ops (-1) = -1"
    by (simp add: rat_ops_def)
  then obtain t g where t: "key_tbl_init rat_ops rand ex_seed 104 60000 10 (-1) = Some (t, g)" "kt_ok rat_ops t" "kt_map t = Map.empty"
    "kt_n t = 104" "tbl_list_len t = 10"
    using init_ok [of 60000 104 rat_ops rand ex_seed 10] by (auto simp: INT_MAX_def)
  moreover have "g = ex_seed"
    using t(1) by (auto simp: key_tbl_init_def GenHashSeed_def ex_drawn Let_def bind_eq_Some_conv split: option.splits)
  ultimately show ?thesis
    by (auto simp: kt_inv_def)
qed

lemma ex_detect:
  assumes "SKL_Init of_nat ex_seed 2 1 104 = Some (s, ex_seed)" and "ex_shape s" and "0 \<le> sint v" and "sint v \<le> 1000"
    and "0 \<le> ratio" and "ratio \<le> 1"
  shows "detect_with_thresh (Suc (Suc fuel)) rat_ops plain_sorts of_nat ex_seed ex_conf 5 (ex_skl s v) ratio =
    Some (Inr (if 0 < sint v then [ex_flow v] else [], ex_seed))"
proof -
  note shape = ex_skl_shape [OF assms(2), of v]
  have "skl_ok s" "lgn s = 104" "width s = 2" "depth s = 1"
    using assms(2) by (simp_all add: ex_shape_def)
  then have copy: "SKL_Copy s (ex_skl s v) = Inr (ex_skl s v)"
    using SKL_Copy_correct [OF _ shape(2), of s] shape by (simp add: ex_skl_def)
  obtain t where t: "key_tbl_init rat_ops of_nat ex_seed 104 60000 10 (-1) = Some (t, ex_seed)" "kt_inv rat_ops t t" "kt_map t = Map.empty"
    "kt_n t = 104" "tbl_list_len t = 10"
    using ex_table by blast
  let ?st = "\<lparr>ds_skl = ex_skl s v, ds_bd = \<lparr>bit_mean = replicate 104 (f_of_int rat_ops 0), bit_std = replicate 104 (f_of_int rat_ops 0)\<rparr>,
    ds_tbl = t, ds_tmp = replicate 5 (zero_rich rat_ops), ds_ret = []\<rparr>"
  have start: "detect_start rat_ops of_nat ex_seed ex_conf 5 (ex_skl s v) = Inr (?st, ex_seed)"
    using assms(1) copy t(1) by (simp add: detect_start_def ex_conf_def Let_def)
  obtain st1 where st1: "detect_round rat_ops plain_sorts 104 5 ratio ?st = Inr st1" "kt_inv rat_ops t (ds_tbl st1)"
    "ones \<in> dom (kt_map (ds_tbl st1))" "length (ds_tmp st1) = 5" "length (bit_mean (ds_bd st1)) = 104"
    "length (bit_std (ds_bd st1)) = 104" "ds_skl st1 = ex_skl s 0" "ds_ret st1 = (if 0 < sint v then [ex_flow v] else [])"
    using ex_round [OF assms(2-6), of ?st t] t by auto
  obtain st2 where st2: "detect_round rat_ops plain_sorts 104 5 ratio st1 = Inr st2" "ds_ret st2 = ds_ret st1"
    using ex_round [OF assms(2) _ _ assms(5,6) st1(7,5,6,2) t(4) disjI1 [OF st1(3)] st1(4)] st1(3,8) by (auto split: if_splits)
  have "detect_loop (Suc (Suc fuel)) rat_ops plain_sorts 104 5 ratio ?st = Some (Inr (if 0 < sint v then st2 else st1))"
    using st1(1,8) st2 by simp
  then show ?thesis
    using start st1(8) st2(2) shape(5) by (simp add: detect_with_thresh_def)
qed

text \<open>The fuel of the claims is enough for two rounds.\<close>

lemma ex_fuel: "\<exists>q fuel. calc_next_prime 60000 = Some q \<and> Suc (nat q * 10) = Suc (Suc fuel)"
proof -
  have "60000 \<le> INT_MAX"
    by (simp add: INT_MAX_def)
  then obtain q where q: "calc_next_prime 60000 = Some q" "2 \<le> q"
    by (rule calc_next_prime_Some)
  then have "Suc (nat q * 10) = Suc (Suc (nat q * 10 - 1))"
    by simp
  then show ?thesis
    using q(1) by blast
qed

lemma ex_record:
  assumes "kt_inv rat_ops t t" and "kt_map t = Map.empty" and "kt_n t = 104" and "tbl_list_len t = 10"
  shows "\<exists>tbl all. record_flows rat_ops 104 5 [ex_flow v] (t, [], replicate 5 (zero_tuple rat_ops), 0) = Inr (tbl, [ex_flow v], all, 1)"
proof -
  have "kt_ok rat_ops t"
    using assms(1) by (simp add: kt_inv_def)
  from find_spec [OF this, of ones] have "key_tbl_find t ones = Inr None"
    using assms(2,3) by simp
  moreover obtain tbl where "record_add rat_ops t ones v = Inr tbl"
    using record_add_ok [OF assms(1), of ones v] assms(2-4) by auto
  ultimately show ?thesis
    by (simp add: ex_flow_def zero_tuple_def Let_def)
qed

lemma ex_inference:
  assumes "SKL_Init of_nat ex_seed 2 1 104 = Some (s, ex_seed)" and "ex_shape s"
  shows "\<exists>tbl st. do_inference 3 (Suc (Suc fuel)) rat_ops plain_sorts of_nat ex_seed ex_conf 5 (Some []) (zero_tuple rat_ops) (ex_skl s 100)
      \<lparr>bit_mean = replicate 104 0, bit_std = replicate 104 0\<rparr> (replicate 5 (zero_tuple rat_ops)) = Some (Inr (tbl, st)) \<and>
    is_detect st = [ex_flow 100] \<and> is_skl st = ex_skl s 0"
proof -
  obtain t where t: "key_tbl_init rat_ops of_nat ex_seed 104 60000 10 (-1) = Some (t, ex_seed)" "kt_inv rat_ops t t" "kt_map t = Map.empty"
    "kt_n t = 104" "tbl_list_len t = 10"
    using ex_table by blast
  obtain tbl all where rec: "record_flows rat_ops 104 5 [ex_flow 100] (t, [], replicate 5 (zero_tuple rat_ops), 0) = Inr (tbl, [ex_flow 100], all, 1)"
    using ex_record [OF t(2-5)] by blast
  obtain bd where rem: "remove_large rat_ops (ex_skl s 100) \<lparr>bit_mean = replicate 104 0, bit_std = replicate 104 0\<rparr> [ex_flow 100] 1 = Some (ex_skl s 0, bd)"
    using ex_remove [OF assms(2), of 100 "\<lparr>bit_mean = replicate 104 0, bit_std = replicate 104 0\<rparr>" "[ex_flow 100]" 0] by auto
  have thresh: "f_div rat_ops (f_of_int rat_ops 1) (f_of_int rat_ops 2) = 1 / 2" "f_div rat_ops (f_of_int rat_ops 1) (f_of_int rat_ops 3) = 1 / 3"
    "\<not> f_less rat_ops (1 / 2) (min_thresh rat_ops)" "\<not> f_less rat_ops (1 / 3) (min_thresh rat_ops)"
    by (simp_all add: rat_ops_def min_thresh_def f_lit_def)
  have detect: "detect_with_thresh (Suc (Suc fuel)) rat_ops plain_sorts of_nat ex_seed ex_conf 5 (ex_skl s 100) (1 / 2) =
      Some (Inr ([ex_flow 100], ex_seed))"
    "detect_with_thresh (Suc (Suc fuel)) rat_ops plain_sorts of_nat ex_seed ex_conf 5 (ex_skl s 0) (1 / 3) = Some (Inr ([], ex_seed))"
    using ex_detect [OF assms, of 100 "1 / 2" fuel] ex_detect [OF assms, of 0 "1 / 3" fuel] by simp_all
  have lgn: "lgn (ex_skl s 100) = 104"
    using ex_skl_shape(5) [OF assms(2)] .
  let ?st = "\<lparr>is_skl = ex_skl s 100, is_bd = \<lparr>bit_mean = replicate 104 0, bit_std = replicate 104 0\<rparr>, is_tbl = t, is_detect = [],
    is_all = replicate 5 (zero_tuple rat_ops), is_n = 0, is_seed = ex_seed\<rparr>"
  let ?st1 = "\<lparr>is_skl = ex_skl s 0, is_bd = bd, is_tbl = tbl, is_detect = [ex_flow 100], is_all = all, is_n = 1, is_seed = ex_seed\<rparr>"
  have "inference_step (Suc (Suc fuel)) rat_ops plain_sorts of_nat ex_conf 5 2 ?st = Some (Inr (?st1, True))"
    unfolding inference_step_def Let_def thresh using thresh(3) detect(1) rec rem lgn
    by (simp del: record_flows.simps)
  moreover have "inference_step (Suc (Suc fuel)) rat_ops plain_sorts of_nat ex_conf 5 3 ?st1 = Some (Inr (?st1, False))"
    unfolding inference_step_def Let_def thresh using thresh(4) detect(2) by simp
  ultimately have "inference_loop 3 (Suc (Suc fuel)) rat_ops plain_sorts of_nat ex_conf 5 2 ?st = Some (Inr ?st1)"
    by (simp add: eval_nat_numeral)
  moreover obtain y where "key_tbl_read_file rat_ops (Some []) (zero_tuple rat_ops) t = Inr y"
    by (simp add: key_tbl_read_file_def lines_of.simps fgets_def)
  ultimately show ?thesis
    using t(1) by (cases y) (simp add: do_inference_def ex_conf_def)
qed

section \<open>The claims on the example\<close>

lemma ex_conf_ok: "permuting (qs_rich (plain_sorts :: rat sorts))" "keytbl_timeout ex_conf = f_of_int rat_ops (-1)"
  by (simp_all add: permuting_def plain_sorts_def ex_conf_def rat_ops_def)

lemma ex_conf_len: "ex_shape s \<Longrightarrow> key_len ex_conf = lgn (ex_skl s v)" "ex_shape s \<Longrightarrow> lgn (ex_skl s v) \<le> 104"
  using ex_skl_shape(5) by (simp_all add: ex_conf_def)

theorem detect_terminates_witness:
  "\<exists>q s. calc_next_prime 60000 = Some q \<and> SKL_Init of_nat ex_seed 2 1 104 = Some (s, ex_seed) \<and>
     detect_with_thresh (Suc (nat q * 10)) rat_ops plain_sorts of_nat ex_seed ex_conf 5 (ex_skl s 100) (1 / 2) =
       Some (Inr ([ex_flow 100], ex_seed)) \<and>
     flows_ok 104 [ex_flow 100]"
proof -
  obtain q fuel where q: "calc_next_prime 60000 = Some q" "Suc (nat q * 10) = Suc (Suc fuel)"
    using ex_fuel by blast
  obtain s where s: "SKL_Init of_nat ex_seed 2 1 104 = Some (s, ex_seed)" "ex_shape s"
    using ex_sketch by blast
  have run: "detect_with_thresh (Suc (nat q * 10)) rat_ops plain_sorts of_nat ex_seed ex_conf 5 (ex_skl s 100) (1 / 2) =
      Some (Inr ([ex_flow 100], ex_seed))"
    unfolding q(2) using ex_detect [OF s, of 100 "1 / 2"] by simp
  from detect_terminates [OF float_consts_rat ex_conf_ok ex_conf_len [OF s(2), of 100] q(1), of of_nat ex_seed 5 "1 / 2"]
  have "flows_ok 104 [ex_flow 100]"
    using run ex_skl_shape(5) [OF s(2), of 100] by simp
  then show ?thesis
    using q(1) s(1) run by blast
qed

theorem inference_residual_witness:
  "\<exists>q s tbl st rets. calc_next_prime 60000 = Some q \<and> SKL_Init of_nat ex_seed 2 1 104 = Some (s, ex_seed) \<and>
     do_inference 3 (Suc (nat q * 10)) rat_ops plain_sorts of_nat ex_seed ex_conf 5 (Some []) (zero_tuple rat_ops) (ex_skl s 100)
       \<lparr>bit_mean = replicate 104 0, bit_std = replicate 104 0\<rparr> (replicate 5 (zero_tuple rat_ops)) = Some (Inr (tbl, st)) \<and>
     is_detect st = [ex_flow 100] \<and> is_skl st = ex_skl s 0 \<and>
     extracts (Suc (nat q * 10)) rat_ops plain_sorts of_nat ex_conf 5 2 ex_seed (ex_skl s 100) rets (is_skl st) \<and>
     residual (ex_skl s 100) (concat rets) (is_skl st) \<and> fold (add_new 104) (concat rets) [] = [ex_flow 100]"
proof -
  obtain q fuel where q: "calc_next_prime 60000 = Some q" "Suc (nat q * 10) = Suc (Suc fuel)"
    using ex_fuel by blast
  obtain s where s: "SKL_Init of_nat ex_seed 2 1 104 = Some (s, ex_seed)" "ex_shape s"
    using ex_sketch by blast
  let ?bd = "\<lparr>bit_mean = replicate 104 0, bit_std = replicate 104 (0 :: rat)\<rparr>" and ?all = "replicate 5 (zero_tuple rat_ops)"
  obtain tbl st where run: "do_inference 3 (Suc (nat q * 10)) rat_ops plain_sorts of_nat ex_seed ex_conf 5 (Some []) (zero_tuple rat_ops)
      (ex_skl s 100) ?bd ?all = Some (Inr (tbl, st))" "is_detect st = [ex_flow 100]" "is_skl st = ex_skl s 0"
    unfolding q(2) using ex_inference [OF s] by blast
  note shape = ex_skl_shape [OF s(2), of 100]
  have "f_less rat_ops (f_div rat_ops (f_of_int rat_ops 1) (f_of_int rat_ops 4)) (min_thresh rat_ops)"
    by (simp add: rat_ops_def min_thresh_def f_lit_def)
  moreover have "\<forall>x \<in> set ?all. length (t_key x) = 13"
    by (simp add: zero_tuple_def)
  moreover obtain t where "key_tbl_init rat_ops of_nat ex_seed (key_len ex_conf) 60000 10 (keytbl_timeout ex_conf) = Some (t, ex_seed)"
    using ex_table [of of_nat] by (auto simp: ex_conf_def)
  ultimately obtain rets where "extracts (Suc (nat q * 10)) rat_ops plain_sorts of_nat ex_conf 5 2 ex_seed (ex_skl s 100) rets (is_skl st)"
    "residual (ex_skl s 100) (concat rets) (is_skl st)" "is_detect st = fold (add_new 104) (concat rets) []"
    using inference_residual [OF float_consts_rat ex_conf_ok ex_conf_len [OF s(2), of 100] q(1) _ shape(2), of ?all "Suc (nat q * 10)" of_nat ex_seed 5
        "Some []" "zero_tuple rat_ops" ?bd] run(1) shape(5) by auto
  then show ?thesis
    using q(1) s(1) run by (intro exI [of _ q] exI [of _ s] exI [of _ tbl] exI [of _ st] exI [of _ rets]) simp
qed

end
