(* ===== verification/Config.thy ===== *)
theory Config
  imports Controller
begin

text \<open>
  \<^verbatim>\<open>config.c\<close>: the values of the configuration file that the programs use.  The parser of the file is a library; its
  functions are the fields of the parameter \<open>ini\<close>, and \<open>dict\<close> is what it has read.  \<open>read_skl_conf\<close> collects what the
  controller reads; with the defaults, which the parser returns for settings that are not in the file, it satisfies what the theorems about the
  controller assume (\<open>default_conf\<close>).
\<close>

section \<open>The parser\<close>

record ('d, 'f) iniparser =
  ini_load :: "string \<Rightarrow> 'd option"
  ini_getstring :: "'d \<Rightarrow> string option \<Rightarrow> string option \<Rightarrow> string option"
  ini_getint :: "'d \<Rightarrow> string option \<Rightarrow> int \<Rightarrow> int"
  ini_getdouble :: "'d \<Rightarrow> string option \<Rightarrow> 'f \<Rightarrow> 'f"
  ini_strtoull :: "string \<Rightarrow> u64"

text \<open>The documented behaviour for a setting that is not in the file: the default is returned.\<close>

definition no_settings :: "('d, 'f) iniparser \<Rightarrow> 'd \<Rightarrow> bool" where
  "no_settings ini dict \<longleftrightarrow>
     (\<forall>name s i x. ini_getstring ini dict name s = s \<and> ini_getint ini dict name i = i \<and> ini_getdouble ini dict name x = x)"

definition Config_Init :: "('d, 'f) iniparser \<Rightarrow> string option \<Rightarrow> 'd result" where
  "Config_Init ini ininame =
     (case ini_load ini (case ininame of None \<Rightarrow> ''config.ini'' | Some s \<Rightarrow> s) of
        None \<Rightarrow> Inl (Exit_code EXIT_FAILURE)
      | Some dict \<Rightarrow> Inr dict)"

section \<open>Typed access\<close>

definition getstring :: "('d, 'f) iniparser \<Rightarrow> 'd \<Rightarrow> string \<Rightarrow> string \<Rightarrow> string option \<Rightarrow> string option result" where
  "getstring ini dict sec key def = map_sum id (\<lambda>name. ini_getstring ini dict name def) (strconcat (Some sec) (Some key))"

definition getint :: "('d, 'f) iniparser \<Rightarrow> 'd \<Rightarrow> string \<Rightarrow> string \<Rightarrow> int \<Rightarrow> int result" where
  "getint ini dict sec key def = map_sum id (\<lambda>name. ini_getint ini dict name def) (strconcat (Some sec) (Some key))"

definition getull :: "('d, 'f) iniparser \<Rightarrow> 'd \<Rightarrow> string \<Rightarrow> string \<Rightarrow> u64 \<Rightarrow> u64 result" where
  "getull ini dict sec key def =
     map_sum id (\<lambda>name. case ini_getstring ini dict name None of None \<Rightarrow> def | Some s \<Rightarrow> ini_strtoull ini s)
       (strconcat (Some sec) (Some key))"

definition getdouble :: "('d, 'f) iniparser \<Rightarrow> 'd \<Rightarrow> string \<Rightarrow> string \<Rightarrow> 'f \<Rightarrow> 'f result" where
  "getdouble ini dict sec key def = map_sum id (\<lambda>name. ini_getdouble ini dict name def) (strconcat (Some sec) (Some key))"

text \<open>The value of an \<^verbatim>\<open>unsigned long long\<close> returned as \<^verbatim>\<open>int\<close>.\<close>

definition as_int :: "u64 \<Rightarrow> int" where
  "as_int x = sint (ucast x :: u32)"

section \<open>Settings\<close>

definition conf_common_trace_dir :: "('d, 'f) iniparser \<Rightarrow> 'd \<Rightarrow> string option result" where
  "conf_common_trace_dir ini dict = getstring ini dict ''Common:'' ''trace_dir'' (Some '''')"

definition conf_common_record_file :: "('d, 'f) iniparser \<Rightarrow> 'd \<Rightarrow> string option result" where
  "conf_common_record_file ini dict = getstring ini dict ''Common:'' ''trace_record_file'' (Some '''')"

definition conf_common_pcap_list :: "('d, 'f) iniparser \<Rightarrow> 'd \<Rightarrow> string option result" where
  "conf_common_pcap_list ini dict = getstring ini dict ''Common:'' ''trace_pcap_list'' (Some '''')"

definition conf_common_trace_bufsize :: "('d, 'f) iniparser \<Rightarrow> 'd \<Rightarrow> u64 result" where
  "conf_common_trace_bufsize ini dict = getull ini dict ''Common:'' ''trace_bufsize'' 10000000"

definition conf_common_key_len :: "('d, 'f) iniparser \<Rightarrow> 'd \<Rightarrow> int result" where
  "conf_common_key_len ini dict = getint ini dict ''Common:'' ''key_len'' 104"

definition conf_common_interval_len :: "('d, 'f) iniparser \<Rightarrow> 'd \<Rightarrow> u64 result" where
  "conf_common_interval_len ini dict = getull ini dict ''Common:'' ''interval_len'' 1000"

definition conf_common_is_output :: "('d, 'f) iniparser \<Rightarrow> 'd \<Rightarrow> int result" where
  "conf_common_is_output ini dict = map_sum id as_int (getull ini dict ''Common:'' ''is_output'' 1)"

definition conf_common_is_pin_cpu :: "('d, 'f) iniparser \<Rightarrow> 'd \<Rightarrow> int result" where
  "conf_common_is_pin_cpu ini dict = map_sum id as_int (getull ini dict ''Common:'' ''is_pin_cpu'' 0)"

definition conf_common_num_interval :: "('d, 'f) iniparser \<Rightarrow> 'd \<Rightarrow> u64 result" where
  "conf_common_num_interval ini dict = getull ini dict ''Common:'' ''num_interval'' 1"

definition conf_skl_depth :: "('d, 'f) iniparser \<Rightarrow> 'd \<Rightarrow> int result" where
  "conf_skl_depth ini dict = getint ini dict ''SketchLearn:'' ''depth'' 1"

definition conf_skl_width :: "('d, 'f) iniparser \<Rightarrow> 'd \<Rightarrow> int result" where
  "conf_skl_width ini dict = getint ini dict ''SketchLearn:'' ''width'' 1"

definition conf_keytbl_timeout :: "('d, 'f) iniparser \<Rightarrow> 'f float_ops \<Rightarrow> 'd \<Rightarrow> 'f result" where
  "conf_keytbl_timeout ini F dict = getdouble ini dict ''KeyTable:'' ''timeout'' (f_of_int F (-1))"

text \<open>What \<^verbatim>\<open>detect_with_thresh\<close> reads; a negative depth or key length makes the allocations fail.\<close>

definition read_skl_conf :: "('d, 'f) iniparser \<Rightarrow> 'f float_ops \<Rightarrow> 'd \<Rightarrow> 'f skl_conf result" where
  "read_skl_conf ini F dict =
     (case (conf_skl_width ini dict, conf_skl_depth ini dict, conf_common_key_len ini dict, conf_keytbl_timeout ini F dict) of
        (Inr w, Inr d, Inr n, Inr timeout) \<Rightarrow>
          if 0 \<le> d \<and> 0 \<le> n
          then Inr \<lparr>skl_width = w, skl_depth = nat d, key_len = nat n, keytbl_timeout = timeout\<rparr> else Inl Invalid_access
      | _ \<Rightarrow> Inl (Exit_code EXIT_FAILURE))"

lemmas get_defs = getstring_def getint_def getull_def getdouble_def strconcat_def
lemmas conf_defs = conf_common_trace_dir_def conf_common_record_file_def conf_common_pcap_list_def conf_common_trace_bufsize_def
  conf_common_key_len_def conf_common_interval_len_def conf_common_is_output_def conf_common_is_pin_cpu_def
  conf_common_num_interval_def conf_skl_depth_def conf_skl_width_def conf_keytbl_timeout_def

text \<open>The names of the settings are short, so that no access to a setting exits.\<close>

lemma conf_returns:
  "\<exists>x. conf_common_trace_dir ini dict = Inr x" "\<exists>x. conf_common_record_file ini dict = Inr x"
  "\<exists>x. conf_common_pcap_list ini dict = Inr x" "\<exists>x. conf_common_trace_bufsize ini dict = Inr x"
  "\<exists>x. conf_common_key_len ini dict = Inr x" "\<exists>x. conf_common_interval_len ini dict = Inr x"
  "\<exists>x. conf_common_is_output ini dict = Inr x" "\<exists>x. conf_common_is_pin_cpu ini dict = Inr x"
  "\<exists>x. conf_common_num_interval ini dict = Inr x" "\<exists>x. conf_skl_depth ini dict = Inr x"
  "\<exists>x. conf_skl_width ini dict = Inr x" "\<exists>x. conf_keytbl_timeout ini F dict = Inr x"
  by (simp_all add: conf_defs get_defs MAX_CONF_LEN_def)

lemma default_conf:
  "no_settings ini dict \<Longrightarrow>
     read_skl_conf ini F dict = Inr \<lparr>skl_width = 1, skl_depth = 1, key_len = 104, keytbl_timeout = f_of_int F (-1)\<rparr>"
  by (simp add: read_skl_conf_def no_settings_def conf_defs get_defs MAX_CONF_LEN_def)

end
