(* ===== verification/Sketch_Dist.thy ===== *)
theory Sketch_Dist
  imports Sketch_Merge Tuple_Text
begin

text \<open>
  The distribution of the flows over the buckets of a sketch (\<^verbatim>\<open>SKL_Dist*\<close> of \<^verbatim>\<open>alg_sketchlearn.c\<close>): one key table
  for every bucket, or one for every row, into which the flows are counted beside the sketch.  The result
  links the two: the sizes in the table of a bucket add up to the total counter of the bucket.  \<^verbatim>\<open>SKL_GetMatrix\<close>
  copies the counters into a matrix.
\<close>

section \<open>Operations\<close>

fun dist_tables ::
  "'f float_ops \<Rightarrow> (nat \<Rightarrow> u64) \<Rightarrow> nat \<Rightarrow> int \<Rightarrow> nat \<Rightarrow> nat \<Rightarrow> seed_state \<Rightarrow> ('f key_tbl list \<times> seed_state) option" where
  "dist_tables F rand key_len list_size list_length 0 g = Some ([], g)"
| "dist_tables F rand key_len list_size list_length (Suc n) g =
     Option.bind (key_tbl_init F rand g key_len list_size list_length (f_of_int F (-1))) (\<lambda>(tbl, g).
       map_option (\<lambda>(tbls, g). (tbl # tbls, g)) (dist_tables F rand key_len list_size list_length n g))"

definition SKL_DistInit ::
  "'f float_ops \<Rightarrow> (nat \<Rightarrow> u64) \<Rightarrow> seed_state \<Rightarrow> nat \<Rightarrow> nat \<Rightarrow> nat \<Rightarrow> ('f key_tbl list \<times> seed_state) option" where
  "SKL_DistInit F rand g w d key_len = dist_tables F rand key_len 1000 20 (d * w) g"

definition SKL_DistInit_Select ::
  "'f float_ops \<Rightarrow> (nat \<Rightarrow> u64) \<Rightarrow> seed_state \<Rightarrow> nat \<Rightarrow> nat \<Rightarrow> nat \<Rightarrow> ('f key_tbl list \<times> seed_state) option" where
  "SKL_DistInit_Select F rand g w d key_len = dist_tables F rand key_len 10000 30 d g"

definition count_at ::
  "'f float_ops \<Rightarrow> u8 list \<Rightarrow> u32 \<Rightarrow> nat \<Rightarrow> 'f key_tbl list \<Rightarrow> 'f key_tbl list result" where
  "count_at F key diff x tbls =
     (if x < length tbls
      then case record_add F (tbls ! x) key diff of Inl err \<Rightarrow> Inl err | Inr tbl \<Rightarrow> Inr (tbls[x := tbl])
      else Inl Invalid_access)"

fun dist_rows ::
  "'f float_ops \<Rightarrow> SketchLearn \<Rightarrow> u8 list \<Rightarrow> u32 \<Rightarrow> nat list \<Rightarrow> 'f key_tbl list \<Rightarrow> 'f key_tbl list result" where
  "dist_rows F skl key diff [] tbls = Inr tbls"
| "dist_rows F skl key diff (i # is) tbls =
     (case row_hash skl i key of
        None \<Rightarrow> Inl Invalid_access
      | Some h \<Rightarrow>
          if width skl = 0 then Inl Invalid_access
          else case count_at F key diff (i * width skl + unat h mod width skl) tbls of
                 Inl err \<Rightarrow> Inl err
               | Inr tbls \<Rightarrow> dist_rows F skl key diff is tbls)"

definition SKL_DistCount ::
  "'f float_ops \<Rightarrow> SketchLearn \<Rightarrow> u8 list \<Rightarrow> u32 \<Rightarrow> 'f key_tbl list \<Rightarrow> 'f key_tbl list result" where
  "SKL_DistCount F skl key diff tbls = dist_rows F skl key diff [0..<depth skl] tbls"

fun count_rows :: "'f float_ops \<Rightarrow> u8 list \<Rightarrow> u32 \<Rightarrow> nat list \<Rightarrow> 'f key_tbl list \<Rightarrow> 'f key_tbl list result" where
  "count_rows F key diff [] tbls = Inr tbls"
| "count_rows F key diff (r # rs) tbls =
     (case count_at F key diff r tbls of Inl err \<Rightarrow> Inl err | Inr tbls \<Rightarrow> count_rows F key diff rs tbls)"

definition SKL_DistCount_Select ::
  "'f float_ops \<Rightarrow> SketchLearn \<Rightarrow> u8 list \<Rightarrow> u32 \<Rightarrow> nat \<Rightarrow> u64 \<Rightarrow> u64 \<Rightarrow> u64 \<Rightarrow> 'f key_tbl list \<Rightarrow> 'f key_tbl list result" where
  "SKL_DistCount_Select F skl key diff select h s harder tbls =
     (case AwareHash key (lgn skl div 8) h s harder of
        None \<Rightarrow> Inl Invalid_access
      | Some x \<Rightarrow>
          if depth skl = 0 then Inl Invalid_access
          else count_rows F key diff (map (\<lambda>k. (unat x mod depth skl + k) mod depth skl) [0..<select]) tbls)"

text \<open>The text of one bucket, and the file; the tables are reset.\<close>

definition dist_bucket ::
  "(('f tuple_t \<Rightarrow> 'f tuple_t \<Rightarrow> int) \<Rightarrow> 'f tuple_t list \<Rightarrow> 'f tuple_t list) \<Rightarrow> SketchLearn \<Rightarrow> 'f key_tbl list \<Rightarrow> nat \<times> nat \<Rightarrow> string" where
  "dist_bucket qsort skl tbls ij =
     (case ij of (i, j) \<Rightarrow>
        let index = i * width skl + j
        in show_nat i @ '' '' @ show_nat j @ '' keys '' @ show_nat (num_key (tbls ! index)) @ '' total '' @
           show_int (sint (counts skl ! index ! 0)) @ [newline_char] @
           concat (map print_tuple (qsort cmp (key_tbl_get_all (tbls ! index)))))"

definition SKL_DistPrint ::
  "'f float_ops \<Rightarrow> (('f tuple_t \<Rightarrow> 'f tuple_t \<Rightarrow> int) \<Rightarrow> 'f tuple_t list \<Rightarrow> 'f tuple_t list) \<Rightarrow> SketchLearn \<Rightarrow> 'f key_tbl list \<Rightarrow>
     (string \<times> 'f key_tbl list) option" where
  "SKL_DistPrint F qsort skl tbls =
     (let n = width skl * depth skl
      in if n \<le> length tbls \<and> n \<le> length (counts skl) \<and> list_all (\<lambda>c. c \<noteq> []) (take n (counts skl))
         then Some (concat (map (dist_bucket qsort skl tbls) (List.product [0..<depth skl] [0..<width skl])),
                    map (key_tbl_reset F) (take n tbls) @ drop n tbls)
         else None)"

text \<open>\<^verbatim>\<open>SKL_GetMatrix\<close> writes row \<open>i\<close> of the matrix \<open>D\<close>: \<^verbatim>\<open>D[i][j*(1+lgn)+k]\<close> for all \<open>j\<close> and \<open>k\<close> in order.\<close>

fun matrix_row :: "'f float_ops \<Rightarrow> SketchLearn \<Rightarrow> nat \<Rightarrow> (nat \<times> nat) list \<Rightarrow> 'f list \<Rightarrow> 'f list option" where
  "matrix_row F skl i [] row = Some row"
| "matrix_row F skl i ((j, k) # ks) row =
     (let index = j * width skl + i; p = j * (1 + lgn skl) + k
      in if index < length (counts skl) \<and> k < length (counts skl ! index) \<and> p < length row
         then matrix_row F skl i ks (row[p := f_of_int F (sint (counts skl ! index ! k))]) else None)"

definition SKL_GetMatrix :: "'f float_ops \<Rightarrow> SketchLearn \<Rightarrow> 'f list list \<Rightarrow> 'f list list option" where
  "SKL_GetMatrix F skl D =
     (if width skl \<le> length D
      then map_option (\<lambda>rows. rows @ drop (width skl) D)
             (those (map (\<lambda>i. matrix_row F skl i (List.product [0..<depth skl] [0..<1 + lgn skl * 2]) (D ! i)) [0..<width skl]))
      else None)"

section \<open>Counting a stream\<close>

text \<open>The updates that fall into a bucket.\<close>

definition in_bucket :: "SketchLearn \<Rightarrow> nat \<Rightarrow> nat \<Rightarrow> (u8 list \<times> u32) list \<Rightarrow> (u8 list \<times> u32) list" where
  "in_bucket skl i j us = filter (\<lambda>u. bucket skl i (fst u) = j) us"

fun dist_counts :: "'f float_ops \<Rightarrow> SketchLearn \<Rightarrow> (u8 list \<times> u32) list \<Rightarrow> 'f key_tbl list \<Rightarrow> 'f key_tbl list result" where
  "dist_counts F skl [] tbls = Inr tbls"
| "dist_counts F skl ((key, diff) # us) tbls =
     (case SKL_DistCount F skl key diff tbls of Inl err \<Rightarrow> Inl err | Inr tbls \<Rightarrow> dist_counts F skl us tbls)"

lemma dist_rows_spec:
  assumes "skl_ok skl" and "key_ok skl key" and "length tbls = depth skl * width skl"
    and "set is \<subseteq> {..<depth skl}" and "distinct is"
    and "\<And>i. i \<in> set is \<Longrightarrow> record_add F (tbls ! (i * width skl + bucket skl i key)) key diff = Inr (t i)"
  shows "\<exists>tbls'. dist_rows F skl key diff is tbls = Inr tbls' \<and> length tbls' = length tbls \<and>
    (\<forall>i j. i < depth skl \<and> j < width skl \<longrightarrow>
       tbls' ! (i * width skl + j) = (if i \<in> set is \<and> bucket skl i key = j then t i else tbls ! (i * width skl + j)))"
  using assms(3-)
proof (induction "is" arbitrary: tbls)
  case (Cons r rs)
  let ?x = "r * width skl + bucket skl r key"
  have r: "r < depth skl" "width skl \<noteq> 0"
    using Cons.prems(2) assms(1) by (auto simp: skl_ok_def)
  obtain h where h: "row_hash skl r key = Some h"
    using row_hash_Some [OF assms(1,2) r(1)] by blast
  then have b: "unat h mod width skl = bucket skl r key" "bucket skl r key < width skl"
    using bucket_less [OF assms(1), of r key] by (simp_all add: bucket_def)
  have x: "?x < length tbls"
    using index_less [OF r(1) b(2)] Cons.prems(1) by (simp add: mult.commute)
  let ?tbls = "tbls[?x := t r]"
  have other: "?tbls ! (i * width skl + j) = (if i = r \<and> bucket skl r key = j then t r else tbls ! (i * width skl + j))"
    if "j < width skl" for i j
    using x index_inject [OF that b(2), of i r] by (auto simp: nth_list_update)
  have "record_add F (?tbls ! (i * width skl + bucket skl i key)) key diff = Inr (t i)" if "i \<in> set rs" for i
    using Cons.prems(3,4) other [OF bucket_less [OF assms(1)], of i] that by auto
  then obtain tbls' where tbls': "dist_rows F skl key diff rs ?tbls = Inr tbls'" "length tbls' = length tbls"
    "\<And>i j. i < depth skl \<Longrightarrow> j < width skl \<Longrightarrow>
       tbls' ! (i * width skl + j) = (if i \<in> set rs \<and> bucket skl i key = j then t i else ?tbls ! (i * width skl + j))"
    using Cons.IH [of ?tbls] Cons.prems(1-3) by auto
  have "dist_rows F skl key diff (r # rs) tbls = Inr tbls'"
    using h b r(2) x Cons.prems(4) [of r] tbls'(1) by (simp add: count_at_def)
  moreover have "tbls' ! (i * width skl + j) = (if i \<in> set (r # rs) \<and> bucket skl i key = j then t i else tbls ! (i * width skl + j))"
    if "i < depth skl" "j < width skl" for i j
    using tbls'(3) [OF that] other [OF that(2), of i] by auto
  ultimately show ?case
    using tbls'(2) by blast
qed simp

lemma dist_counts_spec:
  assumes "skl_ok skl" and "\<forall>u \<in> set us. key_ok skl (fst u)" and "length tbls = depth skl * width skl"
    and "\<And>i j. i < depth skl \<Longrightarrow> j < width skl \<Longrightarrow>
      adds (record_add F) (tbls ! (i * width skl + j)) (in_bucket skl i j us) = Inr (T i j)"
  shows "\<exists>tbls'. dist_counts F skl us tbls = Inr tbls' \<and> length tbls' = length tbls \<and>
    (\<forall>i j. i < depth skl \<and> j < width skl \<longrightarrow> tbls' ! (i * width skl + j) = T i j)"
  using assms(2-)
proof (induction us arbitrary: tbls)
  case Nil
  then show ?case
    by (simp add: in_bucket_def)
next
  case (Cons u us)
  obtain key diff where u: "u = (key, diff)"
    by (cases u)
  define t where "t i = (case record_add F (tbls ! (i * width skl + bucket skl i key)) key diff of Inr x \<Rightarrow> x)" for i
  have hit: "record_add F (tbls ! (i * width skl + bucket skl i key)) key diff = Inr (t i) \<and>
      adds (record_add F) (t i) (in_bucket skl i (bucket skl i key) us) = Inr (T i (bucket skl i key))" if "i < depth skl" for i
    using Cons.prems(3) [OF that bucket_less [OF assms(1), of i key]] by (simp add: u in_bucket_def t_def split: sum.splits)
  then have row: "\<And>i. i \<in> set [0..<depth skl] \<Longrightarrow>
      record_add F (tbls ! (i * width skl + bucket skl i key)) key diff = Inr (t i)"
    by simp
  have key: "key_ok skl key" "\<forall>u \<in> set us. key_ok skl (fst u)"
    using Cons.prems(1) u by auto
  obtain tbls1 where tbls1: "SKL_DistCount F skl key diff tbls = Inr tbls1" "length tbls1 = length tbls"
    "\<And>i j. i < depth skl \<Longrightarrow> j < width skl \<Longrightarrow>
       tbls1 ! (i * width skl + j) = (if bucket skl i key = j then t i else tbls ! (i * width skl + j))"
    using dist_rows_spec [OF assms(1) key(1) Cons.prems(2), of "[0..<depth skl]" F diff t] row
    by (auto simp: SKL_DistCount_def atLeast0LessThan)
  have "adds (record_add F) (tbls1 ! (i * width skl + j)) (in_bucket skl i j us) = Inr (T i j)"
    if "i < depth skl" "j < width skl" for i j
    using hit [OF that(1)] tbls1(3) [OF that] Cons.prems(3) [OF that] by (auto simp: u in_bucket_def)
  from Cons.IH [OF key(2) _ this] Cons.prems(2) tbls1 show ?case
    by (simp add: u)
qed

section \<open>The tables and the counters\<close>

lemma dist_tables_ok:
  assumes "list_size \<le> INT_MAX" and "n div 8 \<le> 13"
  shows "\<exists>tbls g'. dist_tables F rand n list_size l m g = Some (tbls, g') \<and> length tbls = m \<and>
    (\<forall>t \<in> set tbls. kt_ok F t \<and> kt_map t = Map.empty \<and> kt_n t = n \<and> tbl_list_len t = l)"
proof (induction m arbitrary: g)
  case (Suc m)
  obtain tbl g1 where "key_tbl_init F rand g n list_size l (f_of_int F (-1)) = Some (tbl, g1)" "kt_ok F tbl"
    "kt_map tbl = Map.empty" "kt_n tbl = n" "tbl_list_len tbl = l"
    using init_ok [OF assms, of F rand g l] by blast
  moreover obtain tbls g' where "dist_tables F rand n list_size l m g1 = Some (tbls, g')" "length tbls = m"
    "\<forall>t \<in> set tbls. kt_ok F t \<and> kt_map t = Map.empty \<and> kt_n t = n \<and> tbl_list_len t = l"
    using Suc.IH by blast
  ultimately show ?case
    by simp
qed simp

lemma sum_key_total:
  assumes "finite K" and "fst ` set us \<subseteq> K"
  shows "(\<Sum>k\<in>K. key_total us k) = (\<Sum>u\<leftarrow>us. snd u)"
  using assms(2)
proof (induction us)
  case (Cons u us)
  obtain k v where u: "u = (k, v)"
    by (cases u)
  have "(\<Sum>x\<in>K. if k = x then v else 0) = v"
    using Cons.prems u assms(1) by simp
  then show ?case
    using Cons u by (simp add: sum.distrib)
qed simp

lemma sum_assoc:
  assumes "distinct (map fst al)"
  shows "(\<Sum>p\<leftarrow>al. snd p) = (\<Sum>k\<in>fst ` set al. the (map_of al k))"
proof -
  have "(\<Sum>p\<leftarrow>al. snd p) = (\<Sum>p\<in>set al. snd p)"
    using assms by (intro sum_list_distinct_conv_sum_set) (simp add: distinct_map)
  also have "\<dots> = (\<Sum>p\<in>set al. the (map_of al (fst p)))"
    using assms by (intro sum.cong) auto
  also have "\<dots> = (\<Sum>k\<in>fst ` set al. the (map_of al k))"
    using assms by (subst sum.reindex) (simp_all add: distinct_map comp_def)
  finally show ?thesis .
qed

lemma dom_if_Some: "dom (\<lambda>k. if k \<in> A then Some (f k) else None) = A"
  by (auto simp: dom_def)

lemma table_total:
  assumes "kt_ok F tbl" and "kt_map tbl = (\<lambda>k. if k \<in> fst ` set us then Some (key_total us k) else None)"
  shows "(\<Sum>t\<leftarrow>key_tbl_get_all tbl. t_size t) = (\<Sum>u\<leftarrow>us. snd u)"
proof -
  note assoc = assoc_spec [OF assms(1)]
  have dom: "fst ` set (assoc tbl) = fst ` set us"
    using dom_map_of_conv_image_fst [of "assoc tbl"] unfolding assoc(2) assms(2) dom_if_Some by (rule sym)
  have "(\<Sum>t\<leftarrow>key_tbl_get_all tbl. t_size t) = (\<Sum>p\<leftarrow>assoc tbl. snd p)"
    by (simp add: assoc_def comp_def)
  also have "\<dots> = (\<Sum>k\<in>fst ` set us. key_total us k)"
    unfolding sum_assoc [OF assoc(1)] dom assoc(2) assms(2) by (rule sum.cong) auto
  finally show ?thesis
    using sum_key_total [of "fst ` set us" us] by simp
qed

text \<open>
  Claim C34. The tables of \<^verbatim>\<open>SKL_DistCount\<close> agree with the sketch.  When a stream is counted in both, and no list of a
  table overflows, no access is invalid; the table of each bucket has exactly the flows that fall into that bucket,
  each with the sum of its sizes, and the sizes in the table add up (modulo 2 to the 32) to the total counter of the
  bucket.
\<close>

theorem SKL_Dist_consistent:
  fixes F :: "'f float_ops"
  assumes ok: "skl_ok skl" "lgn skl \<le> 104" "\<forall>u \<in> set us. key_ok skl (fst u)" and "float_consts F"
    and init: "SKL_DistInit F rand g (width skl) (depth skl) (lgn skl) = Some (tbls, g')"
    and fits: "\<forall>i j. i < depth skl \<and> j < width skl \<longrightarrow>
      lists_fit (home (tbls ! (i * width skl + j))) 20 (fst ` set (norm_keys (lgn skl div 8) (in_bucket skl i j us)))"
  shows "\<exists>s tbls'. SKL_Updates (SKL_Reset skl) us = Some s \<and> dist_counts F skl us tbls = Inr tbls' \<and>
    (\<forall>i j. i < depth skl \<and> j < width skl \<longrightarrow>
       (let ks = norm_keys (lgn skl div 8) (in_bucket skl i j us); tbl = tbls' ! (i * width skl + j)
        in kt_map tbl = (\<lambda>k. if k \<in> fst ` set ks then Some (key_total ks k) else None) \<and>
           (\<Sum>t\<leftarrow>key_tbl_get_all tbl. t_size t) = cnt s i j 0))"
proof -
  let ?ks = "\<lambda>i j. norm_keys (lgn skl div 8) (in_bucket skl i j us)"
  obtain s where s: "SKL_Updates (SKL_Reset skl) us = Some s"
    "\<And>i j. i < depth skl \<Longrightarrow> j < width skl \<Longrightarrow> cnt s i j 0 = (\<Sum>u\<leftarrow>us. if counts_in skl i j 0 (fst u) then snd u else 0)"
    using SKL_stream_spec [OF ok(1,3)] by fastforce
  have tbls: "length tbls = depth skl * width skl"
    "\<forall>t \<in> set tbls. kt_ok F t \<and> kt_map t = Map.empty \<and> kt_n t = lgn skl \<and> tbl_list_len t = 20"
    using dist_tables_ok [of 1000 "lgn skl" F rand 20 "depth skl * width skl" g] init ok(2)
    by (auto simp: SKL_DistInit_def INT_MAX_def)
  have ex: "\<exists>T. adds (record_add F) (tbls ! (i * width skl + j)) (in_bucket skl i j us) = Inr T \<and> kt_ok F T \<and>
      kt_map T = (\<lambda>k. if k \<in> fst ` set (?ks i j) then Some (key_total (?ks i j) k) else None)"
    if ij: "i < depth skl" "j < width skl" for i j
  proof -
    let ?t = "tbls ! (i * width skl + j)"
    have "?t \<in> set tbls"
      using index_less [OF ij] tbls(1) by (intro nth_mem) (simp add: mult.commute)
    then have t: "kt_inv F ?t ?t" "kt_map ?t = Map.empty" "kt_n ?t = lgn skl" "tbl_list_len ?t = 20"
      using tbls(2) assms(4) by (simp_all add: kt_inv_def)
    have "\<forall>u \<in> set (in_bucket skl i j us). kt_n ?t div 8 \<le> length (fst u)"
      using ok(3) t(3) by (simp add: in_bucket_def key_ok_def)
    note adds = adds_empty [OF t(1,2) this, unfolded t(3,4)]
    have "lists_fit (home ?t) 20 (fst ` set (?ks i j))"
      using fits ij by blast
    then show ?thesis
      using adds unfolding kt_inv_def by (metis (lifting))
  qed
  define T where "T i j = (case adds (record_add F) (tbls ! (i * width skl + j)) (in_bucket skl i j us) of Inr x \<Rightarrow> x)" for i j
  have T: "adds (record_add F) (tbls ! (i * width skl + j)) (in_bucket skl i j us) = Inr (T i j) \<and> kt_ok F (T i j) \<and>
      kt_map (T i j) = (\<lambda>k. if k \<in> fst ` set (?ks i j) then Some (key_total (?ks i j) k) else None)"
    if "i < depth skl" "j < width skl" for i j
    using ex [OF that] unfolding T_def by force
  then obtain tbls' where tbls': "dist_counts F skl us tbls = Inr tbls'"
    "\<And>i j. i < depth skl \<Longrightarrow> j < width skl \<Longrightarrow> tbls' ! (i * width skl + j) = T i j"
    using dist_counts_spec [OF ok(1,3) tbls(1), of F T] by auto
  have "(\<Sum>t\<leftarrow>key_tbl_get_all (T i j). t_size t) = cnt s i j 0" if ij: "i < depth skl" "j < width skl" for i j
  proof -
    have "(\<Sum>t\<leftarrow>key_tbl_get_all (T i j). t_size t) = (\<Sum>u\<leftarrow>?ks i j. snd u)"
      using table_total [of F "T i j" "?ks i j"] T [OF ij] by blast
    also have "\<dots> = (\<Sum>u\<leftarrow>in_bucket skl i j us. snd u)"
      by (simp add: comp_def case_prod_beta)
    also have "\<dots> = (\<Sum>u\<leftarrow>us. if counts_in skl i j 0 (fst u) then snd u else 0)"
      by (simp add: in_bucket_def counts_in_def sum_list_map_filter')
    finally show ?thesis
      using s(2) [OF ij] by simp
  qed
  then show ?thesis
    using s(1) tbls' T by (intro exI [of _ s] exI [of _ tbls']) (simp add: Let_def)
qed

lemma lists_fit_few:
  assumes "finite K" and "card K \<le> c"
  shows "lists_fit h c K"
  unfolding lists_fit_def
proof
  fix k
  have "card {k' \<in> K. h k' = h k} \<le> card K"
    using assms(1) by (intro card_mono) auto
  then show "card {k' \<in> K. h k' = h k} \<le> c"
    using assms(2) by simp
qed

theorem SKL_Dist_consistent_witness:
  "\<exists>tbls g' s tbls'. SKL_DistInit rat_ops of_nat \<lparr>seed = 0, drawn = 0\<rparr> 3 2 8 = Some (tbls, g') \<and>
     SKL_Updates (SKL_Reset small_skl) [([7], 5), ([9], 1), ([7], 6)] = Some s \<and>
     dist_counts rat_ops small_skl [([7], 5), ([9], 1), ([7], 6)] tbls = Inr tbls' \<and>
     (\<forall>i j. i < 2 \<and> j < 3 \<longrightarrow> (\<Sum>t\<leftarrow>key_tbl_get_all (tbls' ! (i * 3 + j)). t_size t) = cnt s i j 0)"
proof -
  let ?us = "[([7], 5), ([9], 1), ([7], 6)] :: (u8 list \<times> u32) list" and ?g = "\<lparr>seed = 0, drawn = 0\<rparr>"
  have small: "width small_skl = 3" "depth small_skl = 2" "lgn small_skl = 8"
    by (simp_all add: small_skl_def)
  obtain tbls g' where init: "SKL_DistInit rat_ops of_nat ?g 3 2 8 = Some (tbls, g')"
    using dist_tables_ok [of 1000 8 rat_ops of_nat 20 6 ?g] by (auto simp: SKL_DistInit_def INT_MAX_def)
  have "card (fst ` set (norm_keys 1 (in_bucket small_skl i j ?us))) \<le> 20" for i j
  proof -
    have "card (fst ` set (norm_keys 1 (in_bucket small_skl i j ?us))) \<le> length (norm_keys 1 (in_bucket small_skl i j ?us))"
      by (rule order_trans [OF card_image_le card_length]) simp
    also have "\<dots> \<le> length ?us"
      by (simp add: in_bucket_def del: filter.simps) (rule length_filter_le [THEN order_trans], simp)
    finally show ?thesis
      by simp
  qed
  then have "\<forall>i j. i < depth small_skl \<and> j < width small_skl \<longrightarrow>
      lists_fit (home (tbls ! (i * width small_skl + j))) 20 (fst ` set (norm_keys (lgn small_skl div 8) (in_bucket small_skl i j ?us)))"
    by (auto simp: small intro!: lists_fit_few)
  moreover have "lgn small_skl \<le> 104" "\<forall>u \<in> set ?us. key_ok small_skl (fst u)"
    by (simp_all add: small key_ok_def)
  ultimately show ?thesis
    using SKL_Dist_consistent [OF small_skl_ok _ _ float_consts_rat, of ?us of_nat ?g tbls g', unfolded small] init
    by (simp add: Let_def small) blast
qed

text \<open>Printing leaves empty tables for the next interval.\<close>

lemma SKL_DistPrint_empties:
  assumes "skl_ok skl" and "length tbls = width skl * depth skl" and "\<forall>t \<in> set tbls. kt_ok F t"
  shows "\<exists>s. SKL_DistPrint F qsort skl tbls = Some (s, map (key_tbl_reset F) tbls)"
    and "\<forall>t \<in> set (map (key_tbl_reset F) tbls). kt_ok F t \<and> kt_map t = Map.empty"
proof -
  have "length (counts skl) = width skl * depth skl" "\<forall>c \<in> set (counts skl). c \<noteq> []"
    using assms(1) by (auto simp: skl_ok_def mult.commute)
  then show "\<exists>s. SKL_DistPrint F qsort skl tbls = Some (s, map (key_tbl_reset F) tbls)"
    using assms(2) by (simp add: SKL_DistPrint_def list_all_iff)
  show "\<forall>t \<in> set (map (key_tbl_reset F) tbls). kt_ok F t \<and> kt_map t = Map.empty"
    using assms(3) reset_ok(1) reset_ok(2) [of F] unfolding set_map by blast
qed

section \<open>The matrix\<close>

lemma matrix_row_append:
  "matrix_row F skl i (xs @ ys) row = Option.bind (matrix_row F skl i xs row) (matrix_row F skl i ys)"
  by (induction F skl i xs row rule: matrix_row.induct) (simp_all add: Let_def)

lemma matrix_block:
  assumes "skl_ok skl" and "j < depth skl" and "i < width skl" and "m \<le> 1 + lgn skl * 2"
    and "j * (1 + lgn skl) + m \<le> length row"
  shows "\<exists>row'. matrix_row F skl i (map (Pair j) [0..<m]) row = Some row' \<and> length row' = length row \<and>
    (\<forall>k < m. row' ! (j * (1 + lgn skl) + k) = f_of_int F (sint (cnt skl j i k))) \<and>
    (\<forall>p < j * (1 + lgn skl). row' ! p = row ! p)"
  using assms(4,5)
proof (induction m)
  case (Suc m)
  then obtain row' where row': "matrix_row F skl i (map (Pair j) [0..<m]) row = Some row'" "length row' = length row"
    "\<forall>k < m. row' ! (j * (1 + lgn skl) + k) = f_of_int F (sint (cnt skl j i k))"
    "\<forall>p < j * (1 + lgn skl). row' ! p = row ! p"
    by auto
  have "j * width skl + i < length (counts skl)"
    using index_less [OF assms(2,3)] assms(1) by (simp add: skl_ok_def mult.commute)
  moreover have "length (counts skl ! (j * width skl + i)) = 1 + lgn skl * 2"
    using calculation assms(1) by (simp add: skl_ok_def)
  ultimately have "matrix_row F skl i (map (Pair j) [0..<Suc m]) row =
      Some (row'[j * (1 + lgn skl) + m := f_of_int F (sint (cnt skl j i m))])"
    using Suc.prems row'(1,2) by (simp add: matrix_row_append cnt_def Let_def)
  then show ?case
    using Suc.prems row'(2-4) by (auto simp: less_Suc_eq nth_list_update)
qed simp

text \<open>
  The rows of the matrix overlap: of each row but the last, what is left are the total and the bit counters, without
  their complements.  A matrix row needs \<open>lgn\<close> more elements than \<open>1 + lgn\<close> for every row of the sketch.
\<close>

lemma matrix_rows:
  assumes "skl_ok skl" and "i < width skl" and "d \<le> depth skl" and "d * (1 + lgn skl) + lgn skl \<le> length row"
  shows "\<exists>row'. matrix_row F skl i (List.product [0..<d] [0..<1 + lgn skl * 2]) row = Some row' \<and> length row' = length row \<and>
    (\<forall>j k. j < d \<and> k \<le> lgn skl \<longrightarrow> row' ! (j * (1 + lgn skl) + k) = f_of_int F (sint (cnt skl j i k)))"
  using assms(3,4)
proof (induction d)
  case (Suc d)
  obtain row1 where row1: "matrix_row F skl i (List.product [0..<d] [0..<1 + lgn skl * 2]) row = Some row1" "length row1 = length row"
    "\<And>j k. j < d \<Longrightarrow> k \<le> lgn skl \<Longrightarrow> row1 ! (j * (1 + lgn skl) + k) = f_of_int F (sint (cnt skl j i k))"
    using Suc by auto
  obtain row2 where row2: "matrix_row F skl i (map (Pair d) [0..<1 + lgn skl * 2]) row1 = Some row2" "length row2 = length row1"
    "\<And>k. k < 1 + lgn skl * 2 \<Longrightarrow> row2 ! (d * (1 + lgn skl) + k) = f_of_int F (sint (cnt skl d i k))"
    "\<And>p. p < d * (1 + lgn skl) \<Longrightarrow> row2 ! p = row1 ! p"
    using matrix_block [OF assms(1) _ assms(2), of d "1 + lgn skl * 2" row1 F] Suc.prems row1(2) by auto
  have "row2 ! (j * (1 + lgn skl) + k) = f_of_int F (sint (cnt skl j i k))" if "j < Suc d" "k \<le> lgn skl" for j k
  proof (cases "j = d")
    case True
    then show ?thesis
      using row2(3) [of k] that(2) by simp
  next
    case False
    then have "Suc j * (1 + lgn skl) \<le> d * (1 + lgn skl)"
      using that(1) by (intro mult_right_mono) simp_all
    then have "j * (1 + lgn skl) + k < d * (1 + lgn skl)"
      using that(2) by simp
    then show ?thesis
      using row2(4) row1(3) [of j k] False that by simp
  qed
  moreover have "List.product [0..<Suc d] [0..<1 + lgn skl * 2] =
      List.product [0..<d] [0..<1 + lgn skl * 2] @ map (Pair d) [0..<1 + lgn skl * 2]"
    by (simp add: product_concat_map)
  ultimately show ?case
    using row1(1,2) row2(1,2) by (simp add: matrix_row_append)
qed simp

end
