(* ===== verification/Key_Table_Files.thy ===== *)
theory Key_Table_Files
  imports Tuple_Text Driver
begin

text \<open>
  The remaining files of \<^verbatim>\<open>alg_keytbl.c\<close>: the binary file of counters that \<^verbatim>\<open>key_tbl_write\<close> writes, and the
  text files of lower and upper bounds that \<^verbatim>\<open>read_rb\<close> and \<^verbatim>\<open>read_rb_multi\<close> add to a table.  The file system
  is a map from names to contents; \<^verbatim>\<open>strtok\<close>, \<^verbatim>\<open>strstr\<close>, \<^verbatim>\<open>atoi\<close> and \<^verbatim>\<open>atoll\<close> are modelled on strings.  An
  undefined access is a null file or token, a name that does not fit the buffer, or a number out of range.
\<close>

section \<open>The binary file\<close>

text \<open>
  What is written for an entry: \<open>n\<close> bytes from the start of the key and eight bytes from the start of the
  four-byte field \<^verbatim>\<open>size\<close>, so that the flag and three bytes of the time stamp follow the counter.
\<close>

definition counter_image :: "('f \<Rightarrow> u8 list) \<Rightarrow> nat \<Rightarrow> 'f key_tbl_entry \<Rightarrow> u8 list option" where
  "counter_image db n e =
     (let im = tuple_image db (e_tuple e)
      in Option.bind (copy_out im 0 n) (\<lambda>k. map_option (\<lambda>v. k @ v) (copy_out im 13 8)))"

definition key_tbl_write :: "('f \<Rightarrow> u8 list) \<Rightarrow> bool \<Rightarrow> 'f key_tbl \<Rightarrow> u8 list result" where
  "key_tbl_write db can_open tbl =
     (let lists = [0..<tbl_list_size tbl]; tot_no_key = (\<Sum>i\<leftarrow>lists. list_len tbl ! i)
      in if \<not> can_open then Inl (Exit_code (-1))
         else if length (list_len tbl) < tbl_list_size tbl \<or> length (kt_list tbl) < tbl_list_size tbl \<or>
                 (\<exists>i \<in> set lists. length (kt_list tbl ! i) < list_len tbl ! i) \<or> 2 ^ 31 \<le> tot_no_key
         then Inl Invalid_access
         else
           (case those (map (counter_image db (kt_n tbl div 8))
                   (concat (map (\<lambda>i. take (list_len tbl ! i) (kt_list tbl ! i)) lists))) of
              None \<Rightarrow> Inl Invalid_access
            | Some bs \<Rightarrow> Inr (le32 (of_nat tot_no_key) @ concat bs)))"

section \<open>Strings\<close>

text \<open>The tokens that repeated calls of \<^verbatim>\<open>strtok(s, " ")\<close> return.\<close>

function tokens :: "string \<Rightarrow> string list" where
  "tokens s =
     (case dropWhile (\<lambda>c. c = CHR '' '') s of
        [] \<Rightarrow> []
      | c # cs \<Rightarrow>
          takeWhile (\<lambda>c. c \<noteq> CHR '' '') (c # cs) # tokens (dropWhile (\<lambda>c. c \<noteq> CHR '' '') (c # cs)))"
  by pat_completeness auto

termination
proof (relation "measure length")
  fix s c and cs :: string
  assume a: "dropWhile (\<lambda>c. c = CHR '' '') s = c # cs"
  then have "c \<noteq> CHR '' ''"
    using hd_dropWhile [of "\<lambda>c. c = CHR '' ''" s] by auto
  moreover have "length (c # cs) \<le> length s"
    using length_dropWhile_le [of "\<lambda>c. c = CHR '' ''" s] a by simp
  moreover have "length (dropWhile (\<lambda>c. c \<noteq> CHR '' '') cs) \<le> length cs"
    by (rule length_dropWhile_le)
  ultimately show "(dropWhile (\<lambda>c. c \<noteq> CHR '' '') (c # cs), s) \<in> measure length"
    by simp
qed simp

declare tokens.simps [simp del]

definition token :: "nat \<Rightarrow> string \<Rightarrow> string option" where
  "token i s = (if i < length (tokens s) then Some (tokens s ! i) else None)"

text \<open>\<^verbatim>\<open>atoi\<close> and \<^verbatim>\<open>atoll\<close>, of \<open>w\<close> bits; a value out of range is undefined.\<close>

definition ato :: "nat \<Rightarrow> string \<Rightarrow> int option" where
  "ato w s =
     (case scan_num s of
        None \<Rightarrow> Some 0
      | Some (v, _) \<Rightarrow> if - (2 ^ (w - 1)) \<le> v \<and> v < 2 ^ (w - 1) then Some v else None)"

fun strstr :: "string \<Rightarrow> string \<Rightarrow> string option" where
  "strstr [] pat = (if pat = [] then Some [] else None)"
| "strstr (c # cs) pat = (if take (length pat) (c # cs) = pat then Some (c # cs) else strstr cs pat)"

section \<open>Files of bounds\<close>

definition opt_format :: "directive list" where
  "opt_format =
     (let u = Num (- (2 ^ 32 - 1)) (2 ^ 32 - 1); hu = Num (- (2 ^ 16 - 1)) (2 ^ 16 - 1);
          hhu = Num (- (2 ^ 8 - 1)) (2 ^ 8 - 1); lld = Num (- (2 ^ 63)) (2 ^ 63 - 1); dot = Lit (CHR ''.'');
          ip = [u, dot, u, dot, u, dot, u, Lit (CHR ''(''), hu, Lit (CHR '')'')]
      in ip @ [Space, Lit (CHR ''<''), Lit (CHR ''-''), Lit (CHR ''>''), Space] @ ip @
         [Space, hhu, Space] @ map Lit ''low'' @ [Space, lld, Space] @ map Lit ''max'' @ [Space, lld])"

definition read_opt_tuple :: "string \<Rightarrow> 'f key_tbl_entry \<Rightarrow> 'f key_tbl_entry option" where
  "read_opt_tuple line p =
     (case sscanf opt_format line of
        None \<Rightarrow> None
      | Some vs \<Rightarrow>
          if length vs < 9 then None
          else
            let k = t_key (e_tuple p)
            in Some (p\<lparr>e_tuple := (e_tuple p)\<lparr>t_key :=
                         flow_key (joined_ip (vs ! 0) (vs ! 1) (vs ! 2) (vs ! 3))
                           (joined_ip (vs ! 5) (vs ! 6) (vs ! 7) (vs ! 8))
                           (of_int (vs ! 4)) (if 9 < length vs then of_int (vs ! 9) else dst_port k)
                           (if 10 < length vs then of_int (vs ! 10) else proto k)\<rparr>,
                       e_low := (if 11 < length vs then of_int (vs ! 11) else e_low p),
                       e_high := (if 12 < length vs then of_int (vs ! 12) else e_high p)\<rparr>))"

text \<open>The body of the loops: the lower bound is added to the counter, both bounds to those of the entry.\<close>

definition add_bounds :: "u64 \<Rightarrow> u64 \<Rightarrow> 'f key_tbl_entry \<Rightarrow> 'f key_tbl_entry" where
  "add_bounds l h e =
     e\<lparr>e_tuple := (e_tuple e)\<lparr>t_size := t_size (e_tuple e) + ucast l\<rparr>, e_low := e_low e + l, e_high := e_high e + h\<rparr>"

definition record_bounds ::
  "'f float_ops \<Rightarrow> 'f key_tbl \<Rightarrow> 'f key_tbl_entry \<Rightarrow> 'f key_tbl result" where
  "record_bounds F tbl e =
     (case key_tbl_record F tbl (t_key (e_tuple e)) (f_of_int F (-1)) of
        Inl err \<Rightarrow> Inl err
      | Inr (tbl', ptr) \<Rightarrow> Inr (upd_entry tbl' ptr (add_bounds (e_low e) (e_high e))))"

fun read_opt_lines ::
  "'f float_ops \<Rightarrow> string list \<Rightarrow> 'f key_tbl \<Rightarrow> 'f key_tbl_entry \<Rightarrow> 'f key_tbl result" where
  "read_opt_lines F [] tbl p = Inr tbl"
| "read_opt_lines F (line # lines) tbl p =
     (case read_opt_tuple line p of
        None \<Rightarrow> Inl Invalid_access
      | Some p \<Rightarrow>
          (case record_bounds F tbl p of
             Inl err \<Rightarrow> Inl err
           | Inr tbl \<Rightarrow> read_opt_lines F lines tbl p))"

text \<open>The number in token \<open>i\<close> of a string, which must be there.\<close>

definition token_num :: "nat \<Rightarrow> nat \<Rightarrow> string \<Rightarrow> int result" where
  "token_num w i s =
     (case Option.bind (token i s) (ato w) of None \<Rightarrow> Inl Invalid_access | Some v \<Rightarrow> Inr v)"

text \<open>The second loop: the first line with \<^verbatim>\<open>appro keys\<close>; \<open>card\<close> is the number after it, if there is one.\<close>

fun stat_card :: "string list \<Rightarrow> int option result" where
  "stat_card [] = Inr None"
| "stat_card (line # lines) =
     (case strstr line ''appro keys'' of
        None \<Rightarrow> stat_card lines
      | Some str \<Rightarrow> map_sum id Some (token_num 32 2 str))"

text \<open>\<^verbatim>\<open>sprintf\<close> into an array of 100 characters, then \<^verbatim>\<open>fopen\<close>; the lines that \<^verbatim>\<open>fgets\<close> returns.\<close>

definition open_lines :: "(string \<Rightarrow> string option) \<Rightarrow> string \<Rightarrow> string list result" where
  "open_lines fs name =
     (if 100 \<le> length name then Inl Invalid_access
      else case fs name of None \<Rightarrow> Inl Invalid_access | Some s \<Rightarrow> Inr (lines_of 100 s))"

text \<open>The steps of the readers, each of which may fail; sums that leave the range of their type are undefined.\<close>

definition and_then :: "'a result \<Rightarrow> ('a \<Rightarrow> 'b result) \<Rightarrow> 'b result" where
  "and_then r f = (case r of Inl err \<Rightarrow> Inl err | Inr x \<Rightarrow> f x)"

definition signed_add :: "nat \<Rightarrow> int \<Rightarrow> int \<Rightarrow> int result" where
  "signed_add w a b = (if - (2 ^ (w - 1)) \<le> a + b \<and> a + b < 2 ^ (w - 1) then Inr (a + b) else Inl Invalid_access)"

text \<open>The results are the table, \<^verbatim>\<open>*rb_tot\<close> and \<^verbatim>\<open>*rb_card\<close>, whose old value is \<open>rb_card\<close>; \<open>entry\<close> is uninitialised.\<close>

definition read_rb ::
  "'f float_ops \<Rightarrow> (string \<Rightarrow> string option) \<Rightarrow> string \<Rightarrow> string \<Rightarrow> int \<Rightarrow> 'f key_tbl_entry \<Rightarrow> 'f key_tbl \<Rightarrow> int \<Rightarrow>
     ('f key_tbl \<times> int \<times> int) result" where
  "read_rb F fs dir alg interval entry tbl rb_card =
     and_then (open_lines fs (dir @ ''rb_'' @ alg @ ''_'' @ show_int interval @ ''_opt'')) (\<lambda>lines.
     and_then (case lines of [] \<Rightarrow> Inr 0 | line # _ \<Rightarrow> token_num 64 1 line) (\<lambda>ret.
     and_then (read_opt_lines F (tl lines) tbl entry) (\<lambda>tbl.
     and_then (open_lines fs (dir @ ''stat_'' @ alg @ ''_'' @ show_int interval)) (\<lambda>lines.
     and_then (stat_card lines) (\<lambda>c.
       Inr (tbl, ret, case c of None \<Rightarrow> rb_card | Some v \<Rightarrow> v))))))"

text \<open>
  One round of the loop of \<^verbatim>\<open>read_rb_multi\<close>, and the loop over \<open>ks\<close>.  The state is the table, \<^verbatim>\<open>*rb_tot\<close>,
  \<^verbatim>\<open>*rb_card\<close> and \<^verbatim>\<open>num_dec\<close>.
\<close>

definition read_piece ::
  "'f float_ops \<Rightarrow> (string \<Rightarrow> string option) \<Rightarrow> string \<Rightarrow> string \<Rightarrow> int \<Rightarrow> 'f key_tbl_entry \<Rightarrow> nat \<Rightarrow>
     'f key_tbl \<times> int \<times> int \<times> int \<Rightarrow> ('f key_tbl \<times> int \<times> int \<times> int) result" where
  "read_piece F fs dir alg interval entry k st =
     (case st of (tbl, rb_tot, rb_card, num_dec) \<Rightarrow>
        let tail = alg @ ''_'' @ show_int interval @ ''_'' @ show_nat k
        in and_then (open_lines fs (dir @ ''rb_'' @ tail @ ''_opt'')) (\<lambda>lines.
           and_then
             (case lines of
                [] \<Rightarrow> Inr (0, num_dec)
              | line # _ \<Rightarrow>
                  and_then (token_num 64 1 line) (\<lambda>tot_dec. map_sum id (Pair tot_dec) (token_num 32 3 line)))
             (\<lambda>(tot_dec, num_dec).
           and_then (read_opt_lines F (tl lines) tbl entry) (\<lambda>tbl.
           and_then (signed_add 64 rb_tot tot_dec) (\<lambda>rb_tot.
           and_then (open_lines fs (dir @ ''stat_'' @ tail)) (\<lambda>lines.
           and_then (stat_card lines) (\<lambda>c.
           and_then (case c of None \<Rightarrow> Inr rb_card | Some v \<Rightarrow> signed_add 32 rb_card v) (\<lambda>rb_card.
             Inr (tbl, rb_tot, rb_card, num_dec)))))))))"

fun read_pieces ::
  "'f float_ops \<Rightarrow> (string \<Rightarrow> string option) \<Rightarrow> string \<Rightarrow> string \<Rightarrow> int \<Rightarrow> (nat \<Rightarrow> 'f key_tbl_entry) \<Rightarrow> nat list \<Rightarrow>
     'f key_tbl \<times> int \<times> int \<times> int \<Rightarrow> ('f key_tbl \<times> int \<times> int \<times> int) result" where
  "read_pieces F fs dir alg interval entry [] st = Inr st"
| "read_pieces F fs dir alg interval entry (k # ks) st =
     and_then (read_piece F fs dir alg interval (entry k) k st)
       (read_pieces F fs dir alg interval entry ks)"

definition read_rb_multi ::
  "'f float_ops \<Rightarrow> (string \<Rightarrow> string option) \<Rightarrow> string \<Rightarrow> string \<Rightarrow> int \<Rightarrow> (nat \<Rightarrow> 'f key_tbl_entry) \<Rightarrow> 'f key_tbl \<Rightarrow>
     int \<Rightarrow> int \<Rightarrow> nat \<Rightarrow> ('f key_tbl \<times> int \<times> int \<times> int) result" where
  "read_rb_multi F fs dir alg interval entry tbl rb_tot rb_card n_piece =
     read_pieces F fs dir alg interval entry [0..<n_piece] (tbl, rb_tot, rb_card, 0)"

section \<open>What is in the binary file\<close>

text \<open>No operation of the table writes the flag or the time stamp of a tuple: they stay 0.\<close>

definition plain :: "'f float_ops \<Rightarrow> 'f key_tbl_entry \<Rightarrow> bool" where
  "plain F e \<longleftrightarrow> t_flag (e_tuple e) = 0 \<and> pkt_ts (e_tuple e) = f_of_int F 0"

definition all_plain :: "'f float_ops \<Rightarrow> 'f key_tbl \<Rightarrow> bool" where
  "all_plain F tbl \<longleftrightarrow> (\<forall>l \<in> set (kt_list tbl). \<forall>e \<in> set l. plain F e)"

lemma all_plainD: "all_plain F tbl \<Longrightarrow> b < length (kt_list tbl) \<Longrightarrow> e \<in> set (kt_list tbl ! b) \<Longrightarrow> plain F e"
  unfolding all_plain_def using nth_mem by blast

lemma put_plain:
  assumes "all_plain F tbl" and "b < length (kt_list tbl)" and "plain F x"
  shows "all_plain F (put_list tbl b ((kt_list tbl ! b)[i := x]) len n)"
proof -
  have "plain F e" if "e \<in> set ((kt_list tbl ! b)[i := x])" for e
    using set_update_subset_insert [of "kt_list tbl ! b" i x] that assms(3) all_plainD [OF assms(1,2)] by blast
  then show ?thesis
    using set_update_subset_insert [of "kt_list tbl" b "(kt_list tbl ! b)[i := x]"] assms(1)
    unfolding all_plain_def put_list_def by fastforce
qed

lemma added_plain: "plain F e \<Longrightarrow> plain F (added F n p v e)" and zero_plain: "plain F (zero_entry F)"
  by (simp_all add: plain_def added_def add_size_def touch_def Let_def zero_entry_def zero_tuple_def)

lemma record_add_plain:
  assumes "kt_ok F tbl" and "float_consts F" and "kt_n tbl div 8 \<le> length p" and "all_plain F tbl"
    and "record_add F tbl p v = Inr tbl'"
  shows "all_plain F tbl'"
proof -
  have b: "home tbl p < tbl_list_size tbl" "length (kt_list tbl) = tbl_list_size tbl"
    using home_less [OF assms(1)] assms(1) by (simp_all add: kt_ok_def)
  have "plain F (kt_list tbl ! home tbl p ! i)" if "i < list_len tbl ! home tbl p" for i
  proof -
    have "i < length (kt_list tbl ! home tbl p)"
      using list_okD [OF assms(1) b(1)] that by simp
    then show ?thesis
      using all_plainD [OF assms(4)] b by simp
  qed
  then show ?thesis
    using record_add_cases [OF assms(1-3), of v] assms(4,5) b
    by (auto intro!: put_plain added_plain zero_plain split: if_splits)
qed

lemma adds_plain:
  assumes "kt_inv F t u" and "all_plain F u" and "\<forall>x \<in> set us. length (fst x) = kt_n t div 8"
    and "adds (record_add F) u us = Inr u'"
  shows "all_plain F u'"
  using assms
proof (induction us arbitrary: u)
  case (Cons x us)
  obtain k v where x: "x = (k, v)"
    by (cases x)
  then obtain u1 where u1: "record_add F u k v = Inr u1" "adds (record_add F) u1 us = Inr u'"
    using Cons.prems(4) by (auto split: sum.splits)
  have k: "length k = kt_n t div 8" "kt_n u = kt_n t" "kt_ok F u" "float_consts F"
    using Cons.prems(1,3) x by (simp_all add: kt_inv_def same_params_def)
  have "kt_inv F t u1"
    using key_table.add_ok [OF Cons.prems(1) k(1), of v] key_table.add_full [OF Cons.prems(1) k(1), of v] u1(1)
    by force
  moreover have "all_plain F u1"
    using record_add_plain [OF k(3,4) _ Cons.prems(2) u1(1)] k(1,2) by simp
  ultimately show ?case
    using Cons.IH [OF _ _ _ u1(2)] Cons.prems(3) by simp
qed simp

lemma reset_plain: "kt_ok F tbl \<Longrightarrow> all_plain F (key_tbl_reset F tbl)"
  by (auto simp: all_plain_def key_tbl_reset_def kt_ok_def list_ok_def zero_plain in_set_conv_nth)

definition counter_bytes :: "u8 list \<times> u32 \<Rightarrow> u8 list" where
  "counter_bytes x = fst x @ le32 (snd x) @ [0, 0, 0, 0]"

lemma counter_image_plain:
  assumes "plain F e" and "length (t_key (e_tuple e)) = 13" and "db (f_of_int F 0) = replicate 8 0"
    and "kt_n tbl div 8 \<le> 13"
  shows "counter_image db (kt_n tbl div 8) e = Some (counter_bytes (kv tbl e))"
proof -
  have "take 4 (0 # replicate 8 (0 :: u8)) = [0, 0, 0, 0]"
    by (simp add: numeral_eq_Suc)
  then show ?thesis
    using assms
    by (simp add: counter_image_def copy_out_def tuple_image_def plain_def counter_bytes_def kv_def entry_key_def)
qed

lemma those_map_Some: "(\<And>x. x \<in> set xs \<Longrightarrow> f x = Some (g x)) \<Longrightarrow> those (map f xs) = Some (map g xs)"
  by (induction xs) auto

lemma key_tbl_write_bytes:
  assumes "kt_ok F tbl" and "all_plain F tbl" and "db (f_of_int F 0) = replicate 8 0" and "num_key tbl < 2 ^ 31"
  shows "key_tbl_write db True tbl =
     Inr (le32 (of_nat (num_key tbl)) @ concat (map counter_bytes (assoc tbl)))"
proof -
  let ?es = "concat (map (used tbl) [0..<tbl_list_size tbl])"
  have n: "kt_n tbl div 8 \<le> 13"
    using assms(1) by (simp add: kt_ok_def)
  have "plain F e \<and> length (t_key (e_tuple e)) = 13" if e: "e \<in> set ?es" for e
  proof -
    obtain b where b: "b < tbl_list_size tbl" "e \<in> set (used tbl b)"
      using e by auto
    then have "e \<in> set (kt_list tbl ! b)" "b < length (kt_list tbl)"
      using assms(1) by (auto simp: used_def kt_ok_def dest: in_set_takeD)
    then show ?thesis
      using all_plainD [OF assms(2)] assms(1) b by (simp add: kt_ok_def list_ok_def)
  qed
  then have "those (map (counter_image db (kt_n tbl div 8)) ?es) = Some (map (\<lambda>e. counter_bytes (kv tbl e)) ?es)"
    using counter_image_plain [where F = F and db = db and tbl = tbl] assms(3) n by (intro those_map_Some) blast
  moreover have "map (\<lambda>e. counter_bytes (kv tbl e)) ?es = map counter_bytes (assoc tbl)"
    by (simp add: assoc_used map_concat comp_def)
  moreover have "(\<Sum>i\<leftarrow>[0..<tbl_list_size tbl]. list_len tbl ! i) = num_key tbl"
    using key_tbl_num_key [OF assms(1)] by (simp add: key_tbl_num_key_def)
  moreover have "(\<lambda>i. take (list_len tbl ! i) (kt_list tbl ! i)) = used tbl"
    by (simp add: used_def fun_eq_iff)
  moreover have "length (list_len tbl) = tbl_list_size tbl" "length (kt_list tbl) = tbl_list_size tbl"
    "\<forall>i \<in> set [0..<tbl_list_size tbl]. \<not> length (kt_list tbl ! i) < list_len tbl ! i"
    using assms(1) by (auto simp: kt_ok_def list_ok_def not_less)
  ultimately show ?thesis
    using assms(4) unfolding key_tbl_write_def Let_def by auto
qed

text \<open>
  The format, as the reader that is commented out in \<^verbatim>\<open>key_tbl_read_from_file\<close> takes it: the number of keys,
  then for each key its bytes and a 64-bit counter.
\<close>

definition of_le64 :: "u8 list \<Rightarrow> u64" where
  "of_le64 bs = ucast (of_le32 bs) OR push_bit 32 (ucast (of_le32 (drop 4 bs)))"

fun file_counters :: "nat \<Rightarrow> nat \<Rightarrow> u8 list \<Rightarrow> (u8 list \<times> u64) list option" where
  "file_counters n 0 bs = (if bs = [] then Some [] else None)"
| "file_counters n (Suc c) bs =
     (if length bs < n + 8 then None
      else map_option (Cons (take n bs, of_le64 (drop n bs))) (file_counters n c (drop (n + 8) bs)))"

definition file_contents :: "nat \<Rightarrow> u8 list \<Rightarrow> (u8 list \<times> u64) list option" where
  "file_contents n bs = (if length bs < 4 then None else file_counters n (unat (of_le32 bs)) (drop 4 bs))"

lemma of_le64_counter: "of_le64 (le32 v @ [0, 0, 0, 0] @ bs) = ucast v"
proof -
  have "of_le32 ([0, 0, 0, 0] @ bs) = 0"
    by (simp add: of_le32_def)
  then show ?thesis
    using of_le32_le32 [of v "[0, 0, 0, 0] @ bs"] by (simp add: of_le64_def)
qed

lemma file_counters_bytes:
  "\<forall>x \<in> set xs. length (fst x) = n \<Longrightarrow>
   file_counters n (length xs) (concat (map counter_bytes xs)) = Some (map (\<lambda>(k, v). (k, ucast v)) xs)"
proof (induction xs)
  case (Cons x xs)
  obtain k v where x: "x = (k, v)" "length k = n"
    using Cons.prems by (cases x) simp
  have "concat (map counter_bytes (x # xs)) = k @ le32 v @ [0, 0, 0, 0] @ concat (map counter_bytes xs)"
    by (simp add: x counter_bytes_def)
  then show ?case
    using Cons x of_le64_counter [of v "concat (map counter_bytes xs)"] by simp
qed simp

text \<open>
  The binary file of a table that has counted flows since a reset holds each key once with its counter, though
  \<^verbatim>\<open>key_tbl_write\<close> takes eight bytes from a field of four: the bytes that follow the counter in memory, the flag
  and the start of the time stamp, are 0 in a table, so that the number in the file is the counter as an unsigned one.
\<close>

theorem key_tbl_write_contents:
  assumes "kt_ok F tbl" and "float_consts F" and "\<forall>u \<in> set us. kt_n tbl div 8 \<le> length (fst u)"
    and "adds (record_add F) (key_tbl_reset F tbl) us = Inr tbl'" and "num_key tbl' < 2 ^ 31"
    and "db (f_of_int F 0) = replicate 8 0"
  shows "\<exists>bs l. key_tbl_write db True tbl' = Inr bs \<and> file_contents (kt_n tbl div 8) bs = Some l \<and>
    distinct (map fst l) \<and>
    map_of l = (\<lambda>k. if k \<in> fst ` set (norm_keys (kt_n tbl div 8) us)
                    then Some (ucast (key_total (norm_keys (kt_n tbl div 8) us) k)) else None)"
proof -
  let ?n = "kt_n tbl div 8" and ?ks = "norm_keys (kt_n tbl div 8) us"
  have inv: "kt_inv F tbl (key_tbl_reset F tbl)"
    using reset_ok [OF assms(1)] assms(2) by (simp add: kt_inv_def)
  have inv': "kt_inv F tbl tbl'" and map: "kt_map tbl' = (\<lambda>k. if k \<in> fst ` set ?ks then Some (key_total ?ks k) else None)"
    using adds_empty [OF inv reset_ok(2) [OF assms(1)] assms(3)] assms(4) by (auto split: if_splits)
  then have ok: "kt_ok F tbl'" "kt_n tbl' = kt_n tbl"
    by (simp_all add: kt_inv_def same_params_def)
  have "adds (record_add F) (key_tbl_reset F tbl) ?ks = Inr tbl'"
    using adds_norm [of "key_tbl_reset F tbl" "kt_n tbl" F us] assms(4) by (simp add: key_tbl_reset_def)
  then have plain: "all_plain F tbl'"
    using assms(3) by (intro adds_plain [OF inv reset_plain [OF assms(1)]]) auto
  note assoc = assoc_spec [OF ok(1)]
  let ?l = "map (\<lambda>(k, v). (k, ucast v :: u64)) (assoc tbl')"
  have len: "\<forall>x \<in> set (assoc tbl'). length (fst x) = ?n"
  proof
    fix x
    assume "x \<in> set (assoc tbl')"
    then have "kt_map tbl' (fst x) = Some (snd x)"
      unfolding assoc(2) [symmetric] using assoc(1) by simp
    then show "length (fst x) = ?n"
      using kt_map_domD [OF ok(1)] ok(2) by metis
  qed
  have num: "length (assoc tbl') = num_key tbl'"
    using assoc by simp
  have "unat (of_nat (num_key tbl') :: u32) = num_key tbl'"
    using assms(5) by (simp add: unat_of_nat)
  then have "file_contents ?n (le32 (of_nat (num_key tbl')) @ concat (map counter_bytes (assoc tbl'))) = Some ?l"
    using file_counters_bytes [OF len] num by (simp add: file_contents_def)
  moreover have "map_of ?l = map_option ucast \<circ> map_of (assoc tbl')"
    by (rule ext) (simp add: map_of_map)
  moreover have "distinct (map fst ?l)"
    using assoc(1) by (simp add: comp_def case_prod_beta)
  ultimately show ?thesis
    using key_tbl_write_bytes [OF ok(1) plain, of db] assms(5,6) by (auto simp: assoc(2) map fun_eq_iff)
qed


section \<open>What the readers of bounds count\<close>

text \<open>The bounds play no part in the searches: without them, recording bounds is adding the lower one.\<close>

definition erase :: "'f key_tbl_entry \<Rightarrow> 'f key_tbl_entry" where
  "erase e = e\<lparr>e_low := 0, e_high := 0\<rparr>"

definition erase_tbl :: "'f key_tbl \<Rightarrow> 'f key_tbl" where
  "erase_tbl tbl = tbl\<lparr>kt_list := map (map erase) (kt_list tbl)\<rparr>"

lemma erase_simps [simp]: "e_tuple (erase e) = e_tuple e" "new_ts (erase e) = new_ts e"
  by (simp_all add: erase_def)

lemma erase_tbl_simps [simp]:
  "kt_list (erase_tbl tbl) = map (map erase) (kt_list tbl)" "list_len (erase_tbl tbl) = list_len tbl"
  "kt_n (erase_tbl tbl) = kt_n tbl" "entry_to (erase_tbl tbl) = entry_to tbl"
  "tbl_list_size (erase_tbl tbl) = tbl_list_size tbl" "tbl_list_len (erase_tbl tbl) = tbl_list_len tbl"
  "num_key (erase_tbl tbl) = num_key tbl" "kt_hash (erase_tbl tbl) = kt_hash tbl"
  "kt_scale (erase_tbl tbl) = kt_scale tbl" "kt_hardner (erase_tbl tbl) = kt_hardner tbl"
  by (simp_all add: erase_tbl_def)

lemma record_scan_erase: "record_scan F timeout ts n p (map erase es) i rep = record_scan F timeout ts n p es i rep"
  by (induction es arbitrary: i rep) (simp_all add: same_key_def)

lemma find_scan_erase: "find_scan n p (map erase es) i = find_scan n p es i"
  by (induction es arbitrary: i) (simp_all add: same_key_def)

lemma bucket_no_erase: "bucket_no (erase_tbl tbl) p = bucket_no tbl p"
proof -
  have "length (kt_list (erase_tbl tbl) ! b) = length (kt_list tbl ! b)" if "b < length (kt_list tbl)" for b
    using that by simp
  then show ?thesis
    by (auto simp: bucket_no_def Let_def split: option.splits)
qed

lemma upd_entry_erase:
  assumes "b < length (kt_list tbl)" and "i < length (kt_list tbl ! b)" and "\<And>e. erase (f e) = g (erase e)"
  shows "erase_tbl (upd_entry tbl (b, i) f) = upd_entry (erase_tbl tbl) (b, i) g"
  using assms by (simp add: upd_entry_def erase_tbl_def map_update)

lemma touch_erase: "erase (touch F n p ts e) = touch F n p ts (erase e)"
  by (simp add: touch_def erase_def Let_def)

lemma add_bounds_erase: "erase (add_bounds l h e) = add_size (ucast l) (erase e)"
  by (simp add: add_bounds_def add_size_def erase_def)

lemma bucket_no_bounds:
  assumes "bucket_no tbl p = Some b"
  shows "b < length (kt_list tbl)" and "b < length (list_len tbl)" and "list_len tbl ! b \<le> length (kt_list tbl ! b)"
  using assms by (auto simp: bucket_no_def Let_def split: option.splits if_splits)

lemma record_erase:
  assumes "f_eq F (entry_to tbl) (f_of_int F (-1))"
  shows "key_tbl_record F (erase_tbl tbl) p ts = map_sum id (\<lambda>(t, ptr). (erase_tbl t, ptr)) (key_tbl_record F tbl p ts) \<and>
   (\<forall>t b i. key_tbl_record F tbl p ts = Inr (t, b, i) \<longrightarrow> b < length (kt_list t) \<and> i < length (kt_list t ! b))"
proof (cases "bucket_no tbl p")
  case None
  then show ?thesis
    by (simp add: key_tbl_record_def Let_def bucket_no_erase)
next
  case (Some b)
  let ?n = "kt_n tbl div 8" and ?es = "take (list_len tbl ! b) (kt_list tbl ! b)"
  note bounds = bucket_no_bounds [OF Some]
  obtain cur rep where scan: "record_scan F (entry_to tbl) ts ?n p ?es 0 None = (cur, rep)"
    by force
  have scan': "record_scan F (entry_to tbl) ts ?n p (take (list_len tbl ! b) (map erase (kt_list tbl ! b))) 0 None =
      (cur, rep)"
    using scan record_scan_erase [of F "entry_to tbl" ts ?n p ?es 0 None] by (simp add: take_map)
  note simps = key_tbl_record_def Let_def bucket_no_erase Some scan scan'
  show ?thesis
  proof (cases cur)
    case (Some i)
    then have "i < length (kt_list tbl ! b)"
      using record_scan_Some [of F "entry_to tbl" ts ?n p ?es 0 None i rep] scan bounds by simp
    then show ?thesis
      using Some bounds(1) upd_entry_erase [of b tbl i "touch F ?n p ts", OF _ _ touch_erase]
      by (simp add: simps) (simp add: upd_entry_def)
  next
    case None
    then have rep: "rep = None"
      using scan record_scan_None [OF assms] by auto
    let ?len = "list_len tbl ! b"
    let ?tbl = "tbl\<lparr>num_key := num_key tbl + 1, list_len := (list_len tbl)[b := ?len + 1]\<rparr>"
    have eq: "erase_tbl tbl\<lparr>num_key := num_key tbl + 1, list_len := (list_len tbl)[b := ?len + 1]\<rparr> = erase_tbl ?tbl"
      by (simp add: erase_tbl_def)
    show ?thesis
      using None rep bounds(1) upd_entry_erase [of b ?tbl ?len "touch F ?n p ts", OF _ _ touch_erase] eq
      by (simp add: simps) (simp add: upd_entry_def)
  qed
qed

lemma record_bounds_erase:
  assumes "f_eq F (entry_to tbl) (f_of_int F (-1))"
  shows "record_add F (erase_tbl tbl) (t_key (e_tuple e)) (ucast (e_low e)) = map_sum id erase_tbl (record_bounds F tbl e)"
proof (cases "key_tbl_record F tbl (t_key (e_tuple e)) (f_of_int F (-1))")
  case (Inr x)
  obtain t b i where x: "x = (t, b, i)"
    by (cases x)
  then have "b < length (kt_list t)" "i < length (kt_list t ! b)"
    using record_erase [OF assms] Inr by blast+
  then show ?thesis
    using record_erase [OF assms, of "t_key (e_tuple e)" "f_of_int F (-1)"] Inr x
      upd_entry_erase [of b t i "add_bounds (e_low e) (e_high e)", OF _ _ add_bounds_erase]
    by (simp add: record_add_def record_bounds_def)
qed (use record_erase [OF assms] in \<open>simp add: record_add_def record_bounds_def\<close>)

lemma find_erase: "key_tbl_find (erase_tbl tbl) p = key_tbl_find tbl p"
proof (cases "bucket_no tbl p")
  case (Some b)
  then show ?thesis
    using bucket_no_bounds(1) [OF Some] find_scan_erase [of "kt_n tbl div 8" p "take (list_len tbl ! b) (kt_list tbl ! b)"]
    by (simp add: key_tbl_find_def bucket_no_erase take_map)
qed (simp add: key_tbl_find_def bucket_no_erase)

text \<open>The entries that the lines of a file stand for; the reader keeps the fields a line leaves out.\<close>

fun opt_entries :: "'f key_tbl_entry \<Rightarrow> string list \<Rightarrow> 'f key_tbl_entry list option" where
  "opt_entries p [] = Some []"
| "opt_entries p (line # lines) =
     Option.bind (read_opt_tuple line p) (\<lambda>p. map_option (Cons p) (opt_entries p lines))"

definition low_updates :: "'f key_tbl_entry list \<Rightarrow> (u8 list \<times> u32) list" where
  "low_updates es = map (\<lambda>e. (t_key (e_tuple e), ucast (e_low e))) es"

lemma record_bounds_timeout: "record_bounds F tbl e = Inr tbl' \<Longrightarrow> entry_to tbl' = entry_to tbl"
  by (auto simp: record_bounds_def key_tbl_record_def Let_def upd_entry_def
      split: option.splits prod.splits sum.splits if_splits)

lemma read_opt_lines_erase:
  assumes "opt_entries p lines = Some es" and "f_eq F (entry_to tbl) (f_of_int F (-1))"
  shows "adds (record_add F) (erase_tbl tbl) (low_updates es) = map_sum id erase_tbl (read_opt_lines F lines tbl p)"
  using assms
proof (induction lines arbitrary: p tbl es)
  case (Cons line lines)
  then obtain q es' where q: "read_opt_tuple line p = Some q" "opt_entries q lines = Some es'" "es = q # es'"
    by (auto split: Option.bind_splits)
  show ?case
  proof (cases "record_bounds F tbl q")
    case (Inr tbl')
    then show ?thesis
      using Cons.IH [OF q(2), of tbl'] record_bounds_erase [OF Cons.prems(2), of q] record_bounds_timeout [OF Inr]
        Cons.prems(2) by (simp add: q low_updates_def)
  qed (use record_bounds_erase [OF Cons.prems(2), of q] in \<open>simp add: q low_updates_def\<close>)
qed (simp add: low_updates_def)

lemma opt_entries_keys:
  "opt_entries p lines = Some es \<Longrightarrow> e \<in> set es \<Longrightarrow> length (t_key (e_tuple e)) = 13"
proof (induction lines arbitrary: p es)
  case (Cons line lines)
  then obtain q es' where q: "read_opt_tuple line p = Some q" "opt_entries q lines = Some es'" "es = q # es'"
    by (auto split: Option.bind_splits)
  moreover have "length (t_key (e_tuple q)) = 13"
    using q(1) by (auto simp: read_opt_tuple_def Let_def flow_key_def le16_def split: option.splits if_splits)
  ultimately show ?case
    using Cons by auto
qed simp

lemma kt_map_erase:
  assumes "tbl_list_size tbl \<le> length (kt_list tbl)" and "0 < tbl_list_size tbl"
  shows "kt_map (erase_tbl tbl) = kt_map tbl"
proof
  fix k
  have home: "home (erase_tbl tbl) k = home tbl k" "home tbl k < length (kt_list tbl)"
    using assms by (simp_all add: home_def less_le_trans [OF mod_less_divisor])
  then have "used (erase_tbl tbl) (home tbl k) = map erase (used tbl (home tbl k))"
    by (simp add: used_def take_map)
  then show "kt_map (erase_tbl tbl) k = kt_map tbl k"
    by (simp add: kt_map_def home comp_def kv_def [abs_def] entry_key_def)
qed

lemma erase_reset: "kt_ok F tbl \<Longrightarrow> erase_tbl (key_tbl_reset F tbl) = key_tbl_reset F tbl"
proof -
  assume ok: "kt_ok F tbl"
  have "map erase l = l" if "l \<in> set (kt_list (key_tbl_reset F tbl))" for l
    using that ok by (auto simp: key_tbl_reset_def kt_ok_def list_ok_def erase_def zero_entry_def in_set_conv_nth)
  then have "map (map erase) (kt_list (key_tbl_reset F tbl)) = kt_list (key_tbl_reset F tbl)"
    by (rule map_idI)
  then show ?thesis
    by (simp add: erase_tbl_def)
qed

text \<open>
  Reading the lines of a file of bounds into a table that has been reset ends with the keys of the file, each with
  the sum of its lower bounds (as a 32-bit counter), or with the exit of a table that has no room for them.
\<close>

lemma read_opt_lines_counts:
  assumes "kt_ok F tbl" and "float_consts F" and "opt_entries p lines = Some es"
  defines "ks \<equiv> norm_keys (kt_n tbl div 8) (low_updates es)"
  shows "if lists_fit (home tbl) (tbl_list_len tbl) (fst ` set ks)
     then \<exists>u. read_opt_lines F lines (key_tbl_reset F tbl) p = Inr u \<and>
       kt_map u = (\<lambda>k. if k \<in> fst ` set ks then Some (key_total ks k) else None)
     else read_opt_lines F lines (key_tbl_reset F tbl) p = Inl (Exit_code (-1))"
proof -
  let ?r = "read_opt_lines F lines (key_tbl_reset F tbl) p"
  have inv: "kt_inv F tbl (key_tbl_reset F tbl)"
    using reset_ok [OF assms(1)] assms(2) by (simp add: kt_inv_def)
  have n: "kt_n tbl div 8 \<le> 13" "f_eq F (entry_to (key_tbl_reset F tbl)) (f_of_int F (-1))"
    using assms(1,2) by (simp_all add: kt_ok_def float_consts_def key_tbl_reset_def)
  have len: "\<forall>u \<in> set (low_updates es). kt_n tbl div 8 \<le> length (fst u)"
    using opt_entries_keys [OF assms(3)] n(1) by (auto simp: low_updates_def)
  have adds: "adds (record_add F) (key_tbl_reset F tbl) (low_updates es) = map_sum id erase_tbl ?r"
    using read_opt_lines_erase [OF assms(3) n(2)] by (simp only: erase_reset [OF assms(1)])
  have "kt_map (erase_tbl u) = kt_map u" if "kt_inv F tbl (erase_tbl u)" for u
    using that by (intro kt_map_erase) (simp_all add: kt_inv_def kt_ok_def)
  then show ?thesis
    using adds_empty [OF inv reset_ok(2) [OF assms(1)] len] unfolding adds ks_def
    by (cases ?r) (auto split: if_splits)
qed

theorem read_rb_counts:
  assumes "kt_ok F tbl" and "float_consts F"
    and "open_lines fs (dir @ ''rb_'' @ alg @ ''_'' @ show_int interval @ ''_opt'') = Inr (header # lines)"
    and "token_num 64 1 header = Inr tot" and "opt_entries entry lines = Some es"
    and "open_lines fs (dir @ ''stat_'' @ alg @ ''_'' @ show_int interval) = Inr stats" and "stat_card stats = Inr c"
  defines "ks \<equiv> norm_keys (kt_n tbl div 8) (low_updates es)"
  shows "if lists_fit (home tbl) (tbl_list_len tbl) (fst ` set ks)
     then \<exists>u. read_rb F fs dir alg interval entry (key_tbl_reset F tbl) rb_card =
         Inr (u, tot, case c of None \<Rightarrow> rb_card | Some v \<Rightarrow> v) \<and>
       kt_map u = (\<lambda>k. if k \<in> fst ` set ks then Some (key_total ks k) else None)
     else read_rb F fs dir alg interval entry (key_tbl_reset F tbl) rb_card = Inl (Exit_code (-1))"
proof -
  let ?r = "read_opt_lines F lines (key_tbl_reset F tbl) entry"
  have "read_rb F fs dir alg interval entry (key_tbl_reset F tbl) rb_card =
      and_then ?r (\<lambda>u. Inr (u, tot, case c of None \<Rightarrow> rb_card | Some v \<Rightarrow> v))"
    by (simp only: read_rb_def assms(3,4,6,7) and_then_def sum.case list.case list.sel)
  then show ?thesis
    using read_opt_lines_counts [OF assms(1,2,5)] unfolding ks_def
    by (cases ?r) (auto simp: and_then_def split: if_splits)
qed

section \<open>Examples\<close>

lemma read_opt_tuple_example:
  "read_opt_tuple ''10.0.0.1(53) <-> 10.0.0.2(1024) 17 low 5 max 9'' (zero_entry rat_ops) =
     Some ((zero_entry rat_ops)\<lparr>e_tuple := (zero_tuple rat_ops)\<lparr>t_key := [10, 0, 0, 1, 10, 0, 0, 2, 53, 0, 0, 4, 17]\<rparr>,
             e_low := 5, e_high := 9\<rparr>)"
  by code_simp

lemma stat_card_example: "stat_card [''flows 7'', ''  appro keys 12 of 15''] = Inr (Some 12)"
  by code_simp

lemma key_tbl_write_example:
  "key_tbl_write (\<lambda>_. [0, 0, 0, 0, 0, 0, 0, 0]) True
     (small_tbl\<lparr>kt_list := [[], [(zero_entry rat_ops)\<lparr>e_tuple := (zero_tuple rat_ops)\<lparr>t_key := [7, 7, 7, 7, 7, 7, 7, 7, 7, 7, 7, 7, 7], t_size := 258\<rparr>\<rparr>]],
                list_len := [0, 1]\<rparr>) =
     Inr [1, 0, 0, 0, 7, 2, 1, 0, 0, 0, 0, 0, 0]"
  by (simp add: key_tbl_write_def small_tbl_def counter_image_def copy_out_def tuple_image_def zero_entry_def
      zero_tuple_def le32_def upt_rec)

end
