(* ===== verification/Ndp_Event.thy ===== *)
theory Ndp_Event
  imports Prelude
begin

text \<open>
  The event list of the NDP simulator (\<^verbatim>\<open>eventlist.cpp\<close>): the sources that are to be called, by time.  The
  \<^verbatim>\<open>multimap\<close> is a list of pairs in the order of its iterator; a new element comes behind those with the same
  key.  Times are natural numbers (unsigned 64-bit numbers of picoseconds in the code, which last for seven months of
  simulated time).  \<open>None\<close> is a failed \<^verbatim>\<open>assert\<close>.
\<close>

section \<open>Operations\<close>

record 's event_list =
  endtime :: nat
  lasteventtime :: nat
  pendingsources :: "(nat \<times> 's) list"

definition EventList :: "'s event_list" where
  "EventList = \<lparr>endtime = 0, lasteventtime = 0, pendingsources = []\<rparr>"

definition setEndtime :: "nat \<Rightarrow> 's event_list \<Rightarrow> 's event_list" where
  "setEndtime t ev = ev\<lparr>endtime := t\<rparr>"

definition now :: "'s event_list \<Rightarrow> nat" where
  "now ev = lasteventtime ev"

fun insert_pending :: "nat \<Rightarrow> 's \<Rightarrow> (nat \<times> 's) list \<Rightarrow> (nat \<times> 's) list" where
  "insert_pending t src [] = [(t, src)]"
| "insert_pending t src (x # xs) =
     (if fst x \<le> t then x # insert_pending t src xs else (t, src) # x # xs)"

definition sourceIsPending :: "'s \<Rightarrow> nat \<Rightarrow> 's event_list \<Rightarrow> 's event_list option" where
  "sourceIsPending src when ev =
     (if when < now ev then None
      else if endtime ev = 0 \<or> when < endtime ev
      then Some (ev\<lparr>pendingsources := insert_pending when src (pendingsources ev)\<rparr>)
      else Some ev)"

definition sourceIsPendingRel :: "'s \<Rightarrow> nat \<Rightarrow> 's event_list \<Rightarrow> 's event_list option" where
  "sourceIsPendingRel src timefromnow ev = sourceIsPending src (now ev + timefromnow) ev"

fun remove_source :: "'s \<Rightarrow> (nat \<times> 's) list \<Rightarrow> (nat \<times> 's) list" where
  "remove_source src [] = []"
| "remove_source src (x # xs) = (if snd x = src then xs else x # remove_source src xs)"

definition cancelPendingSource :: "'s \<Rightarrow> 's event_list \<Rightarrow> 's event_list" where
  "cancelPendingSource src ev = ev\<lparr>pendingsources := remove_source src (pendingsources ev)\<rparr>"

definition reschedulePendingSource :: "'s \<Rightarrow> nat \<Rightarrow> 's event_list \<Rightarrow> 's event_list option" where
  "reschedulePendingSource src when ev = sourceIsPending src when (cancelPendingSource src ev)"

text \<open>
  \<open>handle src\<close> is the \<^verbatim>\<open>doNextEvent\<close> of the source \<open>src\<close>, on the state of the simulated world and the event list.
  The first result is the one of the function.
\<close>

definition doNextEvent ::
  "('s \<Rightarrow> 'w \<times> 's event_list \<Rightarrow> ('w \<times> 's event_list) option) \<Rightarrow> 'w \<times> 's event_list \<Rightarrow>
     (bool \<times> 'w \<times> 's event_list) option" where
  "doNextEvent handle wev =
     (case wev of (w, ev) \<Rightarrow>
        case pendingsources ev of
          [] \<Rightarrow> Some (False, w, ev)
        | (nexteventtime, nextsource) # rest \<Rightarrow>
            if nexteventtime < lasteventtime ev then None
            else map_option (Pair True)
                   (handle nextsource (w, ev\<lparr>pendingsources := rest, lasteventtime := nexteventtime\<rparr>)))"

section \<open>Invariant\<close>

definition ev_ok :: "'s event_list \<Rightarrow> bool" where
  "ev_ok ev \<longleftrightarrow>
     sorted (map fst (pendingsources ev)) \<and>
     (\<forall>x \<in> set (pendingsources ev). now ev \<le> fst x \<and> (endtime ev = 0 \<or> fst x < endtime ev))"

lemma set_insert_pending [simp]: "set (insert_pending t src xs) = insert (t, src) (set xs)"
  by (induction xs) auto

lemma sorted_insert_pending: "sorted (map fst xs) \<Longrightarrow> sorted (map fst (insert_pending t src xs))"
  by (induction xs) (auto simp: not_le less_imp_le)

lemma insert_pending_stable:
  assumes "sorted (map fst xs)"
  shows "filter (\<lambda>x. fst x = u) (insert_pending t src xs) =
    filter (\<lambda>x. fst x = u) xs @ (if u = t then [(t, src)] else [])"
  using assms
proof (induction xs)
  case (Cons x xs)
  then have "t < fst x \<Longrightarrow> filter (\<lambda>x. fst x = t) (x # xs) = []"
    by (auto simp: filter_empty_conv)
  with Cons show ?case
    by (auto simp: not_le)
qed simp

lemma set_remove_source: "set (remove_source src xs) \<subseteq> set xs"
  by (induction xs) auto

lemma sorted_remove_source: "sorted (map fst xs) \<Longrightarrow> sorted (map fst (remove_source src xs))"
  using set_remove_source by (induction xs) force+

lemma remove_source_count:
  "filter (\<lambda>x. snd x = src) (remove_source src xs) = tl (filter (\<lambda>x. snd x = src) xs)"
  "v \<noteq> src \<Longrightarrow> filter (\<lambda>x. snd x = v) (remove_source src xs) = filter (\<lambda>x. snd x = v) xs"
  by (induction xs) auto

lemma EventList_ok [simp]: "ev_ok EventList"
  by (simp add: ev_ok_def EventList_def)

lemma sourceIsPending_ok:
  assumes "ev_ok ev" and "sourceIsPending src when ev = Some ev'"
  shows "ev_ok ev'" and "now ev' = now ev" and "endtime ev' = endtime ev"
  using assms by (fastforce simp: ev_ok_def sourceIsPending_def now_def sorted_insert_pending split: if_splits)+

lemma sourceIsPendingRel_ok:
  assumes "ev_ok ev"
  shows "\<exists>ev'. sourceIsPendingRel src dt ev = Some ev' \<and> ev_ok ev' \<and> now ev' = now ev \<and> endtime ev' = endtime ev"
proof -
  have "sourceIsPendingRel src dt ev \<noteq> None"
    by (simp add: sourceIsPendingRel_def sourceIsPending_def)
  then obtain ev' where "sourceIsPendingRel src dt ev = Some ev'"
    by blast
  then show ?thesis
    using sourceIsPending_ok [OF assms] by (auto simp: sourceIsPendingRel_def)
qed

lemma cancel_ok:
  assumes "ev_ok ev"
  shows "ev_ok (cancelPendingSource src ev)"
  using assms set_remove_source sorted_remove_source
  by (fastforce simp: ev_ok_def cancelPendingSource_def now_def)

section \<open>What a simulation relies on\<close>

text \<open>
  Sources that only touch the event list through its operations keep \<open>ev_ok\<close> and the time.  Then events are handled
  in the order of their times, and the assertion of \<^verbatim>\<open>doNextEvent\<close> holds.  By \<open>insert_pending_stable\<close>, what is
  scheduled for the same time is handled in the order in which it was scheduled.
\<close>

fun events :: "('s \<Rightarrow> 'w \<times> 's event_list \<Rightarrow> ('w \<times> 's event_list) option) \<Rightarrow> nat \<Rightarrow> 'w \<times> 's event_list \<Rightarrow>
    (nat list \<times> 'w \<times> 's event_list) option" where
  "events handle 0 wev = Some ([], wev)"
| "events handle (Suc n) wev =
     (case doNextEvent handle wev of
        None \<Rightarrow> None
      | Some (False, wev') \<Rightarrow> Some ([], wev')
      | Some (True, wev') \<Rightarrow> map_option (\<lambda>(ts, r). (fst (hd (pendingsources (snd wev))) # ts, r)) (events handle n wev'))"

locale event_handler =
  fixes handle :: "'s \<Rightarrow> 'w \<times> 's event_list \<Rightarrow> ('w \<times> 's event_list) option"
  assumes handle_ok: "ev_ok ev \<Longrightarrow> handle src (w, ev) = Some (w', ev') \<Longrightarrow> ev_ok ev' \<and> now ev' = now ev"
begin

lemma step_ok:
  assumes "ev_ok ev" and "pendingsources ev = (t, src) # rest"
  shows "doNextEvent handle (w, ev) =
      map_option (Pair True) (handle src (w, ev\<lparr>pendingsources := rest, lasteventtime := t\<rparr>))" and "now ev \<le> t"
    and "ev_ok (ev\<lparr>pendingsources := rest, lasteventtime := t\<rparr>)"
  using assms by (auto simp: ev_ok_def now_def doNextEvent_def)

lemma events_in_order:
  assumes "ev_ok ev" and "events handle n (w, ev) = Some (ts, w', ev')"
  shows "ev_ok ev' \<and> sorted ts \<and> (\<forall>t \<in> set ts. now ev \<le> t \<and> t \<le> now ev') \<and> now ev \<le> now ev'"
  using assms
proof (induction n arbitrary: w ev ts)
  case (Suc n)
  show ?case
  proof (cases "pendingsources ev")
    case Nil
    then show ?thesis
      using Suc.prems by (simp add: doNextEvent_def)
  next
    case (Cons x rest)
    obtain t src where x: "x = (t, src)"
      by (cases x)
    note step = step_ok [OF Suc.prems(1) Cons [unfolded x]]
    obtain w1 ev1 ts1 where 1: "handle src (w, ev\<lparr>pendingsources := rest, lasteventtime := t\<rparr>) = Some (w1, ev1)"
      "events handle n (w1, ev1) = Some (ts1, w', ev')" "ts = t # ts1"
      using Suc.prems(2) Cons x step(1) by (auto split: option.splits)
    then have "ev_ok ev1" "now ev1 = t"
      using handle_ok [OF step(3)] by (auto simp: now_def)
    then show ?thesis
      using Suc.IH [OF _ 1(2)] 1(3) step(2) by (auto intro: order_trans)
  qed
qed simp

end

end
