(* ===== verification/Ndp_Net.thy ===== *)
theory Ndp_Net
  imports Ndp_Event
begin

text \<open>
  Packets and routes of the NDP simulator (\<^verbatim>\<open>network.cpp\<close>, \<^verbatim>\<open>route.cpp\<close>, \<^verbatim>\<open>ndppacket.h\<close>), and how a packet
  travels along its route, or back to its source when a queue returns it.  A packet is a record with the fields of all classes
  of packets; those of another class than its own mean nothing.  Byte counts and sequence numbers are natural numbers
  but for the 16-bit size.  The sinks of a route are numbers.  \<open>None\<close> is a failed \<^verbatim>\<open>assert\<close> or \<^verbatim>\<open>abort\<close>.
\<close>

section \<open>Routes and packets\<close>

datatype packet_type =
  IP | TCP | TCPACK | TCPNACK | NDP | NDPACK | NDPNACK | NDPPULL | NDPLITE | NDPLITEACK | NDPLITEPULL | NDPLITERTS | ETH_PAUSE

record route =
  sinklist :: "nat list"
  reverse :: "nat list option"
  r_path_id :: int
  r_no_of_paths :: int

record packet =
  ptype :: packet_type
  psize :: nat
  is_header :: bool
  bounced :: bool
  pflags :: u32
  proute :: "route option"
  nexthop :: nat
  packet_id :: nat
  flow_id :: nat
  path_len :: nat
  seqno :: nat
  pacerno :: nat
  pkt_time :: nat
  retransmitted :: bool
  no_of_paths :: int
  last_packet :: bool
  ackno :: nat
  cumulative_ack :: nat
  pull :: bool
  pullno :: nat
  path_id :: int
  sleepTime :: nat

definition ACKSIZE :: nat where "ACKSIZE = 64"

definition add_endpoints :: "nat \<Rightarrow> nat \<Rightarrow> route \<Rightarrow> route" where
  "add_endpoints src dst r =
     r\<lparr>sinklist := sinklist r @ [dst], reverse := map_option (\<lambda>l. l @ [src]) (reverse r)\<rparr>"

definition set_path_id :: "int \<Rightarrow> int \<Rightarrow> route \<Rightarrow> route" where
  "set_path_id i n r = r\<lparr>r_path_id := i, r_no_of_paths := n\<rparr>"

text \<open>\<^verbatim>\<open>set_attrs\<close> and \<^verbatim>\<open>set_route\<close> on a packet from the database of free packets; the size is stored in 16 bits.\<close>

definition set_attrs :: "nat \<Rightarrow> nat \<Rightarrow> nat \<Rightarrow> packet \<Rightarrow> packet" where
  "set_attrs flow pkt_size i p =
     p\<lparr>flow_id := flow, psize := pkt_size mod 2 ^ 16, packet_id := i, nexthop := 0, proute := None,
       is_header := False, pflags := 0\<rparr>"

definition set_route4 :: "nat \<Rightarrow> route \<Rightarrow> nat \<Rightarrow> nat \<Rightarrow> packet \<Rightarrow> packet" where
  "set_route4 flow r pkt_size i p =
     p\<lparr>flow_id := flow, psize := pkt_size mod 2 ^ 16, packet_id := i, nexthop := 0, proute := Some r,
       is_header := False, pflags := 0\<rparr>"

definition set_route :: "route \<Rightarrow> packet \<Rightarrow> packet" where
  "set_route r p = p\<lparr>proute := Some r\<rparr>"

text \<open>The pseudo-constructors of \<^verbatim>\<open>ndppacket.h\<close>; \<open>p\<close> is the packet that is reused.\<close>

definition NdpPacket_newpkt :: "packet \<Rightarrow> nat \<Rightarrow> route \<Rightarrow> nat \<Rightarrow> nat \<Rightarrow> nat \<Rightarrow> bool \<Rightarrow> int \<Rightarrow> bool \<Rightarrow> packet" where
  "NdpPacket_newpkt p flow r sq pacer sz rtx npaths lst =
     (set_route4 flow r (sz + ACKSIZE) (sq + sz - 1) p)
       \<lparr>ptype := NDP, is_header := False, bounced := False, seqno := sq, pacerno := pacer, retransmitted := rtx,
        no_of_paths := npaths, last_packet := lst, path_len := length (sinklist r)\<rparr>"

definition NdpAck_newpkt :: "packet \<Rightarrow> nat \<Rightarrow> route \<Rightarrow> nat \<Rightarrow> nat \<Rightarrow> nat \<Rightarrow> nat \<Rightarrow> int \<Rightarrow> packet" where
  "NdpAck_newpkt p flow r pacer ack cum pn path =
     (set_route4 flow r ACKSIZE ack p)
       \<lparr>ptype := NDPACK, is_header := True, bounced := False, pacerno := pacer, ackno := ack, cumulative_ack := cum,
        pull := True, pullno := pn, path_id := path, path_len := 0\<rparr>"

definition NdpNack_newpkt :: "packet \<Rightarrow> nat \<Rightarrow> route \<Rightarrow> nat \<Rightarrow> nat \<Rightarrow> nat \<Rightarrow> nat \<Rightarrow> int \<Rightarrow> packet" where
  "NdpNack_newpkt p flow r pacer ack cum pn path =
     (set_route4 flow r ACKSIZE ack p)
       \<lparr>ptype := NDPNACK, is_header := True, bounced := False, pacerno := pacer, ackno := ack, cumulative_ack := cum,
        pull := True, pullno := pn, path_id := path, path_len := 0\<rparr>"

text \<open>A pull from an acknowledgement of either kind, whose route must be set.\<close>

definition NdpPull_newpkt :: "packet \<Rightarrow> packet \<Rightarrow> packet option" where
  "NdpPull_newpkt p ack =
     (case proute ack of
        None \<Rightarrow> None
      | Some r \<Rightarrow>
          Some ((set_route4 (flow_id ack) r ACKSIZE (ackno ack) p)
            \<lparr>ptype := NDPPULL, is_header := True, bounced := False, ackno := ackno ack,
             cumulative_ack := cumulative_ack ack, pullno := pullno ack, path_len := 0\<rparr>))"

definition dont_pull :: "packet \<Rightarrow> packet" where
  "dont_pull p = p\<lparr>pull := False, pullno := 0\<rparr>"

text \<open>\<^verbatim>\<open>strip_payload\<close>; the size is only changed in packets of the class \<^verbatim>\<open>NdpPacket\<close>.\<close>

definition strip_payload :: "packet \<Rightarrow> packet option" where
  "strip_payload p =
     (if is_header p then None
      else Some (p\<lparr>is_header := True, psize := (if ptype p = NDP then ACKSIZE else psize p)\<rparr>))"

text \<open>\<^verbatim>\<open>sendOn\<close> without the call of the sink, which is the first result.\<close>

definition sendOn :: "packet \<Rightarrow> (nat \<times> packet) option" where
  "sendOn p =
     (case proute p of
        None \<Rightarrow> None
      | Some r \<Rightarrow>
          if bounced p
          then (case reverse r of
                  None \<Rightarrow> None
                | Some l \<Rightarrow>
                    if 0 < nexthop p \<and> nexthop p < length (sinklist r) \<and> nexthop p < length l
                    then Some (l ! nexthop p, p\<lparr>nexthop := nexthop p + 1\<rparr>) else None)
          else if nexthop p < length (sinklist r)
          then Some (sinklist r ! nexthop p, p\<lparr>nexthop := nexthop p + 1\<rparr>) else None)"

definition bounce :: "packet \<Rightarrow> packet option" where
  "bounce p =
     (case proute p of
        None \<Rightarrow> None
      | Some r \<Rightarrow>
          if bounced p then None
          else Some (p\<lparr>bounced := True, is_header := True, nexthop := length (sinklist r) - nexthop p\<rparr>))"

definition unbounce :: "nat \<Rightarrow> packet \<Rightarrow> packet option" where
  "unbounce pktsize p =
     (if bounced p \<and> proute p \<noteq> None
      then Some (p\<lparr>bounced := False, is_header := False, psize := pktsize mod 2 ^ 16, nexthop := 0\<rparr>) else None)"

text \<open>A route and a packet for examples.\<close>

definition a_route :: route where
  "a_route = \<lparr>sinklist = [0, 1, 2], reverse = Some [3, 4, 5], r_path_id = 0, r_no_of_paths = 1\<rparr>"

definition blank :: packet where
  "blank =
     \<lparr>ptype = NDP, psize = 64, is_header = False, bounced = False, pflags = 0, proute = None, nexthop = 0, packet_id = 0,
      flow_id = 0, path_len = 0, seqno = 0, pacerno = 0, pkt_time = 0, retransmitted = False, no_of_paths = 1,
      last_packet = False, ackno = 0, cumulative_ack = 0, pull = False, pullno = 0, path_id = 0, sleepTime = 0\<rparr>"

section \<open>Travelling\<close>

text \<open>The sinks that a packet visits when every one of them sends it on, in \<open>n\<close> hops.\<close>

fun travel :: "nat \<Rightarrow> packet \<Rightarrow> (nat list \<times> packet) option" where
  "travel 0 p = Some ([], p)"
| "travel (Suc n) p =
     (case sendOn p of
        None \<Rightarrow> None
      | Some (s, p') \<Rightarrow> map_option (\<lambda>(ss, q). (s # ss, q)) (travel n p'))"

lemma travel_forward:
  assumes "proute p = Some r" and "\<not> bounced p" and "nexthop p + n \<le> length (sinklist r)"
  shows "travel n p = Some (take n (drop (nexthop p) (sinklist r)), p\<lparr>nexthop := nexthop p + n\<rparr>)"
  using assms
proof (induction n arbitrary: p)
  case (Suc n)
  let ?q = "p\<lparr>nexthop := nexthop p + 1\<rparr>"
  have "travel n ?q = Some (take n (drop (nexthop p + 1) (sinklist r)), ?q\<lparr>nexthop := nexthop ?q + n\<rparr>)"
    using Suc.IH [of ?q] Suc.prems by simp
  moreover have "take (Suc n) (drop (nexthop p) (sinklist r)) =
      sinklist r ! nexthop p # take n (drop (nexthop p + 1) (sinklist r))"
    using Suc.prems(3) by (simp add: Cons_nth_drop_Suc [symmetric])
  ultimately show ?case
    using Suc.prems by (simp add: sendOn_def)
qed simp

lemma travel_back:
  assumes "proute p = Some r" and "reverse r = Some l" and "bounced p" and "0 < nexthop p"
    and "nexthop p + n \<le> length (sinklist r)" and "nexthop p + n \<le> length l"
  shows "travel n p = Some (take n (drop (nexthop p) l), p\<lparr>nexthop := nexthop p + n\<rparr>)"
  using assms
proof (induction n arbitrary: p)
  case (Suc n)
  let ?q = "p\<lparr>nexthop := nexthop p + 1\<rparr>"
  have "travel n ?q = Some (take n (drop (nexthop p + 1) l), ?q\<lparr>nexthop := nexthop ?q + n\<rparr>)"
    using Suc.IH [of ?q] Suc.prems by simp
  moreover have "take (Suc n) (drop (nexthop p) l) = l ! nexthop p # take n (drop (nexthop p + 1) l)"
    using Suc.prems(6) by (simp add: Cons_nth_drop_Suc [symmetric])
  ultimately show ?case
    using Suc.prems by (simp add: sendOn_def)
qed simp

text \<open>
  Claim C38.  A packet that is returned by a sink on its way (it has made \<open>i\<close> of the \<open>n\<close> hops to the destination) visits the last
  \<open>i\<close> sinks of the reverse route, the last of which is the source, without a failed assertion.  There
  \<^verbatim>\<open>unbounce\<close> makes it a full packet that visits the whole route again.
\<close>

theorem bounce_returns:
  assumes "proute p = Some (add_endpoints src dst r)" and "reverse r = Some l" and "length l = length (sinklist r)"
    and "\<not> bounced p" and "0 < nexthop p" and "nexthop p \<le> length (sinklist r)" and "sz < 2 ^ 16"
  shows "\<exists>b q u back. bounce p = Some b \<and> travel (nexthop p) b = Some (back @ [src], q) \<and>
    back = drop (length l + 1 - nexthop p) l \<and> unbounce sz q = Some u \<and>
    psize u = sz \<and> \<not> is_header u \<and> seqno u = seqno p \<and>
    (\<exists>w. travel (length (sinklist r) + 1) u = Some (sinklist r @ [dst], w))"
proof -
  let ?n = "length l + 1"
  let ?b = "p\<lparr>bounced := True, is_header := True, nexthop := ?n - nexthop p\<rparr>"
  let ?q = "?b\<lparr>nexthop := ?n\<rparr>" and ?u = "p\<lparr>bounced := False, is_header := False, psize := sz, nexthop := 0\<rparr>"
  have b: "bounce p = Some ?b"
    using assms(1,3,4) by (simp add: bounce_def add_endpoints_def)
  have "travel (nexthop p) ?b = Some (take (nexthop p) (drop (?n - nexthop p) (l @ [src])), ?q)"
    using travel_back [of ?b "add_endpoints src dst r" "l @ [src]" "nexthop p"] assms
    by (simp add: add_endpoints_def)
  moreover have "take (nexthop p) (drop (?n - nexthop p) (l @ [src])) = drop (?n - nexthop p) l @ [src]"
    using assms(3,5,6) by simp
  moreover have "unbounce sz ?q = Some ?u"
    using assms(1,7) by (simp add: unbounce_def)
  moreover have "travel (length (sinklist r) + 1) ?u = Some (sinklist r @ [dst], ?u\<lparr>nexthop := length (sinklist r) + 1\<rparr>)"
    using travel_forward [of ?u "add_endpoints src dst r" "length (sinklist r) + 1"] assms(1)
    by (simp add: add_endpoints_def)
  ultimately show ?thesis
    using b by auto
qed

theorem bounce_returns_witness:
  "\<exists>b q u. bounce (blank\<lparr>proute := Some (add_endpoints 7 8 a_route), nexthop := 2\<rparr>) = Some b \<and>
     travel 2 b = Some ([5, 7], q) \<and> unbounce 1000 q = Some u \<and> psize u = 1000 \<and>
     (\<exists>w. travel 4 u = Some ([0, 1, 2, 8], w))"
proof -
  let ?p = "blank\<lparr>proute := Some (add_endpoints 7 8 a_route), nexthop := 2\<rparr>"
  have f: "proute ?p = Some (add_endpoints 7 8 a_route)" "reverse a_route = Some [3, 4, 5]"
    "length [3, 4, 5 :: nat] = length (sinklist a_route)" "\<not> bounced ?p" "0 < nexthop ?p" "nexthop ?p \<le> length (sinklist a_route)"
    "(1000 :: nat) < 2 ^ 16"
    by (simp_all add: a_route_def blank_def)
  have g: "drop (length [3, 4, 5 :: nat] + 1 - nexthop ?p) [3, 4, 5 :: nat] = [5]" "nexthop ?p = 2"
    "length (sinklist a_route) + 1 = 4" "sinklist a_route @ [8] = [0, 1, 2, 8]"
    by (simp_all add: a_route_def)
  obtain b q u bs w where "bounce ?p = Some b" "travel (nexthop ?p) b = Some (bs @ [7], q)"
    "bs = drop (length [3, 4, 5 :: nat] + 1 - nexthop ?p) [3, 4, 5]" "unbounce 1000 q = Some u" "psize u = 1000"
    "travel (length (sinklist a_route) + 1) u = Some (sinklist a_route @ [8], w)"
    using bounce_returns [OF f] by blast
  then show ?thesis
    unfolding g by auto
qed

end
