(* ===== verification/Ndp_Device.thy ===== *)
theory Ndp_Device
  imports Ndp_Net
begin

text \<open>
  Devices of the NDP simulator.  A device receives packets (\<^verbatim>\<open>receivePacket\<close>) and is called for its events
  (\<^verbatim>\<open>doNextEvent\<close>).  Both are functions from the state to the state and a list of actions, in the order of the calls
  in the code: an event is scheduled, a packet is sent on to the next sink or given back, or the switch is asked to send
  a pause frame.  Calls of the loggers are
  left out.  The next sink of a packet that a queue or a pipe sends on is another device, so that the call does not
  come back to the device before it has finished; the assertions of \<^verbatim>\<open>sendOn\<close> on the route of the packet are those of \<open>sendOn\<close> in
  \<open>Ndp_Net\<close> and not part of an action.

  \<open>dev_reach\<close> are the states of a device on an event list of its own: packets arrive at any times, but not after
  an event that is due.  \<open>device\<close> is how invariants of devices are shown; the pipe is the first.
\<close>

section \<open>Devices\<close>

datatype action = Pending nat | Pending_at nat | Send packet | Free packet | Pause nat

record 's world =
  w_st :: 's
  w_out :: "(nat \<times> packet) list"
  w_freed :: "packet list"
  w_pauses :: "nat list"

fun exec :: "action list \<Rightarrow> 's world \<times> unit event_list \<Rightarrow> ('s world \<times> unit event_list) option" where
  "exec [] d = Some d"
| "exec (Pending dt # acts) (w, ev) =
     (case sourceIsPendingRel () dt ev of None \<Rightarrow> None | Some ev' \<Rightarrow> exec acts (w, ev'))"
| "exec (Pending_at t # acts) (w, ev) =
     (case sourceIsPending () t ev of None \<Rightarrow> None | Some ev' \<Rightarrow> exec acts (w, ev'))"
| "exec (Send p # acts) (w, ev) = exec acts (w\<lparr>w_out := w_out w @ [(now ev, p)]\<rparr>, ev)"
| "exec (Free p # acts) (w, ev) = exec acts (w\<lparr>w_freed := w_freed w @ [p]\<rparr>, ev)"
| "exec (Pause n # acts) (w, ev) = exec acts (w\<lparr>w_pauses := w_pauses w @ [n]\<rparr>, ev)"

definition initially :: "'s \<Rightarrow> 's world" where
  "initially s = \<lparr>w_st = s, w_out = [], w_freed = [], w_pauses = []\<rparr>"

definition arrive ::
  "(nat \<Rightarrow> 'i \<Rightarrow> 's \<Rightarrow> ('s \<times> action list) option) \<Rightarrow> nat \<Rightarrow> 'i \<Rightarrow> 's world \<times> unit event_list \<Rightarrow>
     ('s world \<times> unit event_list) option" where
  "arrive recv t i d =
     (case recv t i (w_st (fst d)) of
        None \<Rightarrow> None
      | Some (s, acts) \<Rightarrow> exec acts ((fst d)\<lparr>w_st := s\<rparr>, (snd d)\<lparr>lasteventtime := t\<rparr>))"

definition dev_handle ::
  "(nat \<Rightarrow> 's \<Rightarrow> ('s \<times> action list) option) \<Rightarrow> unit \<Rightarrow> 's world \<times> unit event_list \<Rightarrow>
     ('s world \<times> unit event_list) option" where
  "dev_handle serve src d =
     (case serve (now (snd d)) (w_st (fst d)) of
        None \<Rightarrow> None
      | Some (s, acts) \<Rightarrow> exec acts ((fst d)\<lparr>w_st := s\<rparr>, snd d))"

definition fire ::
  "(nat \<Rightarrow> 's \<Rightarrow> ('s \<times> action list) option) \<Rightarrow> 's world \<times> unit event_list \<Rightarrow>
     (bool \<times> 's world \<times> unit event_list) option" where
  "fire serve d = doNextEvent (dev_handle serve) d"

lemma world_out_st:
  "w\<lparr>w_out := x, w_st := q\<rparr> = w\<lparr>w_st := q, w_out := x\<rparr>" "w\<lparr>w_freed := y, w_st := q\<rparr> = w\<lparr>w_st := q, w_freed := y\<rparr>"
  by simp_all

lemma exec_ok:
  "ev_ok ev \<Longrightarrow> exec acts (w, ev) = Some (w', ev') \<Longrightarrow> ev_ok ev' \<and> now ev' = now ev"
proof (induction acts "(w, ev)" arbitrary: w ev rule: exec.induct)
  case (2 dt acts w ev)
  then show ?case
    using sourceIsPending_ok [OF 2(2)] by (auto simp: sourceIsPendingRel_def split: option.splits)
next
  case (3 t acts w ev)
  then show ?case
    using sourceIsPending_ok [OF 3(2)] by (auto split: option.splits)
qed auto

interpretation device_events: event_handler "dev_handle serve"
  by unfold_locales (auto simp: dev_handle_def exec_ok split: option.splits)

inductive dev_reach ::
  "(nat \<Rightarrow> 'i \<Rightarrow> 's \<Rightarrow> ('s \<times> action list) option) \<Rightarrow> (nat \<Rightarrow> 's \<Rightarrow> ('s \<times> action list) option) \<Rightarrow> 's \<Rightarrow>
     (nat \<times> 'i) list \<Rightarrow> 's world \<times> unit event_list \<Rightarrow> bool"
  for recv serve s0 where
    dev_start: "dev_reach recv serve s0 [] (initially s0, EventList)"
  | dev_arrive: "dev_reach recv serve s0 ins (w, ev) \<Longrightarrow> now ev \<le> t \<Longrightarrow>
      \<forall>x \<in> set (pendingsources ev). t \<le> fst x \<Longrightarrow> arrive recv t i (w, ev) = Some d \<Longrightarrow>
      dev_reach recv serve s0 (ins @ [(t, i)]) d"
  | dev_fire: "dev_reach recv serve s0 ins d \<Longrightarrow> fire serve d = Some (True, d') \<Longrightarrow> dev_reach recv serve s0 ins d'"

text \<open>
  A state accepts all inputs of a kind when none of them, at any time at which it may arrive, makes an assertion of the
  device fail.
\<close>

definition accepts ::
  "(nat \<Rightarrow> 'i \<Rightarrow> 's \<Rightarrow> ('s \<times> action list) option) \<Rightarrow> ('i \<Rightarrow> bool) \<Rightarrow> 's world \<times> unit event_list \<Rightarrow> bool" where
  "accepts recv good d \<longleftrightarrow>
     (\<forall>t i. now (snd d) \<le> t \<and> (\<forall>x \<in> set (pendingsources (snd d)). t \<le> fst x) \<and> good i \<longrightarrow> arrive recv t i d \<noteq> None)"

text \<open>
  What has to be shown of a device: the invariant relates what has arrived to the state, and no assertion fails.
\<close>

locale device =
  fixes recv :: "nat \<Rightarrow> 'i \<Rightarrow> 's \<Rightarrow> ('s \<times> action list) option"
    and serve :: "nat \<Rightarrow> 's \<Rightarrow> ('s \<times> action list) option"
    and s0 :: 's
    and good :: "'i \<Rightarrow> bool"
    and inv :: "(nat \<times> 'i) list \<Rightarrow> 's world \<Rightarrow> unit event_list \<Rightarrow> bool"
  assumes inv_start: "inv [] (initially s0) EventList"
    and inv_arrive: "inv ins w ev \<Longrightarrow> now ev \<le> t \<Longrightarrow> \<forall>x \<in> set (pendingsources ev). t \<le> fst x \<Longrightarrow> good i \<Longrightarrow>
      \<exists>w' ev'. arrive recv t i (w, ev) = Some (w', ev') \<and> inv (ins @ [(t, i)]) w' ev'"
    and inv_fire: "inv ins w ev \<Longrightarrow> pendingsources ev \<noteq> [] \<Longrightarrow>
      \<exists>w' ev'. fire serve (w, ev) = Some (True, w', ev') \<and> inv ins w' ev'"
begin

lemma fire_pending: "fire serve (w, ev) = Some (True, d) \<Longrightarrow> pendingsources ev \<noteq> []"
  by (auto simp: fire_def doNextEvent_def)

lemma reach_inv:
  assumes "dev_reach recv serve s0 ins d" and "\<forall>x \<in> set ins. good (snd x)"
  shows "inv ins (fst d) (snd d)"
  using assms
proof (induction rule: dev_reach.induct)
  case dev_start
  then show ?case
    by (simp add: inv_start)
next
  case (dev_arrive ins w ev t i d)
  then show ?case
    using inv_arrive [of ins w ev t i] by auto
next
  case (dev_fire ins d d')
  obtain w ev where d: "d = (w, ev)"
    by (cases d)
  with dev_fire fire_pending have "inv ins w ev" "pendingsources ev \<noteq> []"
    by auto
  then show ?case
    using inv_fire [of ins w ev] dev_fire(2) d by auto
qed

lemma reach_safe:
  assumes "dev_reach recv serve s0 ins (w, ev)" and "\<forall>x \<in> set ins. good (snd x)"
  shows "fire serve (w, ev) \<noteq> None"
    and "now ev \<le> t \<Longrightarrow> \<forall>x \<in> set (pendingsources ev). t \<le> fst x \<Longrightarrow> good i \<Longrightarrow> arrive recv t i (w, ev) \<noteq> None"
proof -
  note inv = reach_inv [OF assms, simplified]
  show "fire serve (w, ev) \<noteq> None"
    using inv_fire [OF inv] by (cases "pendingsources ev") (auto simp: fire_def doNextEvent_def)
  show "arrive recv t i (w, ev) \<noteq> None"
    if "now ev \<le> t" "\<forall>x \<in> set (pendingsources ev). t \<le> fst x" "good i"
    using inv_arrive [OF inv that] by auto
qed

lemma reach_accepts:
  assumes "dev_reach recv serve s0 ins (w, ev)" and "\<forall>x \<in> set ins. good (snd x)"
  shows "accepts recv good (w, ev)"
  using reach_safe(2) [OF assms] by (auto simp: accepts_def)

end

text \<open>A run of a device, for examples: packets that arrive and events.\<close>

datatype 'i input = Arrive nat 'i | Event

fun run_dev ::
  "(nat \<Rightarrow> 'i \<Rightarrow> 's \<Rightarrow> ('s \<times> action list) option) \<Rightarrow> (nat \<Rightarrow> 's \<Rightarrow> ('s \<times> action list) option) \<Rightarrow>
     'i input list \<Rightarrow> 's world \<times> unit event_list \<Rightarrow> ('s world \<times> unit event_list) option" where
  "run_dev recv serve [] d = Some d"
| "run_dev recv serve (Arrive t i # is) d =
     (if now (snd d) \<le> t \<and> list_all (\<lambda>x. t \<le> fst x) (pendingsources (snd d))
      then Option.bind (arrive recv t i d) (run_dev recv serve is) else None)"
| "run_dev recv serve (Event # is) d =
     (case fire serve d of Some (True, d') \<Rightarrow> run_dev recv serve is d' | _ \<Rightarrow> None)"

lemma run_dev_reach:
  "dev_reach recv serve s0 ins d \<Longrightarrow> run_dev recv serve is d = Some d' \<Longrightarrow>
    dev_reach recv serve s0 (ins @ concat (map (\<lambda>x. case x of Arrive t i \<Rightarrow> [(t, i)] | Event \<Rightarrow> []) is)) d'"
proof (induction "is" arbitrary: ins d)
  case (Cons x xs)
  show ?case
  proof (cases x)
    case (Arrive t i)
    then obtain d1 where "arrive recv t i d = Some d1" "run_dev recv serve xs d1 = Some d'"
      "now (snd d) \<le> t" "\<forall>x \<in> set (pendingsources (snd d)). t \<le> fst x"
      using Cons.prems(2) by (auto simp: list_all_iff split: if_splits Option.bind_splits)
    then show ?thesis
      using Cons.IH [of "ins @ [(t, i)]" d1] dev_arrive [of recv serve s0 ins "fst d" "snd d" t i d1] Cons.prems(1) Arrive by simp
  next
    case Event
    then obtain d1 where "fire serve d = Some (True, d1)" "run_dev recv serve xs d1 = Some d'"
      using Cons.prems(2) by (auto split: option.splits bool.splits)
    then show ?thesis
      using Cons.IH [of ins d1] dev_fire [of recv serve s0 ins d d1] Cons.prems(1) Event by simp
  qed
qed simp

lemmas dev_simps =
  initially_def EventList_def arrive_def fire_def doNextEvent_def dev_handle_def now_def sourceIsPendingRel_def
  sourceIsPending_def exec.simps blank_def

lemmas run_dev_start = run_dev_reach [OF dev_start, simplified]

section \<open>The event list of a device\<close>

text \<open>A device that has at most one event: when it is due.\<close>

definition due :: "nat option \<Rightarrow> unit event_list \<Rightarrow> bool" where
  "due d ev \<longleftrightarrow> endtime ev = 0 \<and> pendingsources ev = (case d of None \<Rightarrow> [] | Some t \<Rightarrow> [(t, ())]) \<and>
     (\<forall>t. d = Some t \<longrightarrow> now ev \<le> t)"

lemma due_EventList [simp]: "due None EventList"
  by (simp add: due_def EventList_def)

lemma due_advance: "due d ev \<Longrightarrow> \<forall>x \<in> set (pendingsources ev). t \<le> fst x \<Longrightarrow> due d (ev\<lparr>lasteventtime := t\<rparr>)"
  by (auto simp: due_def now_def split: option.splits)

lemma due_Pending:
  assumes "due None ev"
  shows "\<exists>ev'. exec (Pending dt # acts) (w, ev) = exec acts (w, ev') \<and> due (Some (now ev + dt)) ev' \<and> now ev' = now ev"
  using assms by (auto simp: due_def sourceIsPendingRel_def sourceIsPending_def now_def)

lemma due_Pending_at:
  assumes "due None ev" and "now ev \<le> t"
  shows "\<exists>ev'. exec (Pending_at t # acts) (w, ev) = exec acts (w, ev') \<and> due (Some t) ev' \<and> now ev' = now ev"
  using assms by (auto simp: due_def sourceIsPending_def now_def)

lemma due_fire:
  assumes "due (Some t) ev"
  shows "\<exists>ev'. due None ev' \<and> now ev' = t \<and> fire serve (w, ev) = map_option (Pair True) (dev_handle serve () (w, ev'))"
  using assms
  by (intro exI [of _ "ev\<lparr>pendingsources := [], lasteventtime := t\<rparr>"]) (auto simp: due_def fire_def doNextEvent_def now_def)

lemma due_pending: "due d ev \<Longrightarrow> pendingsources ev \<noteq> [] \<longleftrightarrow> d \<noteq> None"
  by (auto simp: due_def split: option.splits)

section \<open>Pipes\<close>

record pipe =
  pipe_delay :: nat
  inflight :: "(nat \<times> packet) list"

definition Pipe :: "nat \<Rightarrow> pipe" where
  "Pipe d = \<lparr>pipe_delay = d, inflight = []\<rparr>"

definition Pipe_receivePacket :: "nat \<Rightarrow> packet \<Rightarrow> pipe \<Rightarrow> (pipe \<times> action list) option" where
  "Pipe_receivePacket tm pkt s =
     Some (s\<lparr>inflight := (tm + pipe_delay s, pkt) # inflight s\<rparr>,
           if inflight s = [] then [Pending (pipe_delay s)] else [])"

definition Pipe_doNextEvent :: "nat \<Rightarrow> pipe \<Rightarrow> (pipe \<times> action list) option" where
  "Pipe_doNextEvent tm s =
     (if inflight s = [] then Some (s, [])
      else let rest = butlast (inflight s)
           in Some (s\<lparr>inflight := rest\<rparr>,
                    Send (snd (last (inflight s))) # (if rest \<noteq> [] then [Pending_at (fst (last rest))] else [])))"

definition pipe_inv :: "nat \<Rightarrow> (nat \<times> packet) list \<Rightarrow> pipe world \<Rightarrow> unit event_list \<Rightarrow> bool" where
  "pipe_inv d ins w ev \<longleftrightarrow>
     pipe_delay (w_st w) = d \<and> w_freed w = [] \<and>
     w_out w @ rev (inflight (w_st w)) = map (\<lambda>(t, p). (t + d, p)) ins \<and>
     sorted (map fst (rev (inflight (w_st w)))) \<and> (\<forall>x \<in> set (inflight (w_st w)). fst x \<le> now ev + d) \<and>
     due (if inflight (w_st w) = [] then None else Some (fst (last (inflight (w_st w))))) ev"

lemma pipe_arrive:
  assumes "pipe_inv d ins w ev" and "now ev \<le> t" and "\<forall>x \<in> set (pendingsources ev). t \<le> fst x"
  shows "\<exists>w' ev'. arrive Pipe_receivePacket t p (w, ev) = Some (w', ev') \<and> pipe_inv d (ins @ [(t, p)]) w' ev'"
proof -
  let ?ev = "ev\<lparr>lasteventtime := t\<rparr>" and ?l = "inflight (w_st w)"
  let ?w = "w\<lparr>w_st := (w_st w)\<lparr>inflight := (t + d, p) # ?l\<rparr>\<rparr>"
  have now: "now ?ev = t"
    by (simp add: now_def)
  have le: "\<forall>x \<in> set ?l. fst x \<le> t + d"
    using assms(1,2) by (fastforce simp: pipe_inv_def)
  note due = due_advance [OF _ assms(3)]
  show ?thesis
  proof (cases "?l = []")
    case True
    then obtain ev' where "exec [Pending d] (?w, ?ev) = Some (?w, ev')" "due (Some (t + d)) ev'" "now ev' = t"
      using due_Pending [OF due, where dt = d and acts = "[]" and w = ?w] assms(1) now by (auto simp: pipe_inv_def)
    then show ?thesis
      using assms(1) True by (auto simp: arrive_def Pipe_receivePacket_def pipe_inv_def)
  next
    case False
    then show ?thesis
      using assms(1) due le now by (auto simp: arrive_def Pipe_receivePacket_def pipe_inv_def sorted_append)
  qed
qed

lemma pipe_fire:
  assumes "pipe_inv d ins w ev" and "pendingsources ev \<noteq> []"
  shows "\<exists>w' ev'. fire Pipe_doNextEvent (w, ev) = Some (True, w', ev') \<and> pipe_inv d ins w' ev'"
proof -
  have ne: "inflight (w_st w) \<noteq> []"
    using assms due_pending by (fastforce simp: pipe_inv_def)
  then obtain rest t p where l: "inflight (w_st w) = rest @ [(t, p)]"
    by (metis append_butlast_last_id surj_pair)
  have due: "due (Some t) ev"
    using assms(1) l by (simp add: pipe_inv_def)
  obtain ev1 where ev1: "due None ev1" "now ev1 = t"
    "fire Pipe_doNextEvent (w, ev) = map_option (Pair True) (dev_handle Pipe_doNextEvent () (w, ev1))"
    using due_fire [OF due] by blast
  let ?w = "w\<lparr>w_st := (w_st w)\<lparr>inflight := rest\<rparr>, w_out := w_out w @ [(t, p)]\<rparr>"
  have h: "dev_handle Pipe_doNextEvent () (w, ev1) =
      exec (if rest \<noteq> [] then [Pending_at (fst (last rest))] else []) (?w, ev1)"
    using l ev1(2) by (simp add: dev_handle_def Pipe_doNextEvent_def Let_def)
  have rest: "\<forall>x \<in> set rest. t \<le> fst x" "now ev \<le> t"
    using assms(1) l due by (auto simp: pipe_inv_def sorted_append due_def)
  have inv: "pipe_inv d ins ?w ev2" if "now ev2 = t" "due (if rest = [] then None else Some (fst (last rest))) ev2" for ev2
    using that assms(1) l rest(2) by (fastforce simp: pipe_inv_def sorted_append)
  show ?thesis
  proof (cases "rest = []")
    case True
    then show ?thesis
      using ev1 h inv [of ev1] by simp
  next
    case False
    then have "now ev1 \<le> fst (last rest)"
      using rest(1) ev1(2) by simp
    from due_Pending_at [OF ev1(1) this, of "[]" ?w] show ?thesis
      using False ev1 h inv by auto
  qed
qed

interpretation pipe: device Pipe_receivePacket Pipe_doNextEvent "Pipe d" "\<lambda>_. True" "pipe_inv d"
  by unfold_locales (simp add: pipe_inv_def initially_def Pipe_def, erule (2) pipe_arrive, erule (1) pipe_fire)

text \<open>
  A pipe delays every packet by its delay: what it has sent on, followed by what is in flight, are the packets that
  have arrived, in the same order, each at its time of arrival plus the delay; it is called exactly when the next
  packet is due, and no assertion fails.
\<close>

theorem pipe_delays:
  assumes "dev_reach Pipe_receivePacket Pipe_doNextEvent (Pipe d) ins (w, ev)"
  shows "w_out w @ rev (inflight (w_st w)) = map (\<lambda>(t, p). (t + d, p)) ins"
    and "pendingsources ev = (if inflight (w_st w) = [] then [] else [(fst (last (inflight (w_st w))), ())])"
    and "fire Pipe_doNextEvent (w, ev) \<noteq> None"
  using pipe.reach_inv [OF assms] pipe.reach_safe(1) [OF assms] by (auto simp: pipe_inv_def due_def)

end
