(* ===== verification/Ndp_Queue.thy ===== *)
theory Ndp_Queue
  imports Ndp_Device "HOL-Library.Sublist" "HOL-Library.Multiset"
begin

text \<open>
  The FIFO queue of the NDP simulator (\<^verbatim>\<open>queue.cpp\<close>), from which the other queues are derived.  Packets enter at the front of the list and leave at its back, as in the
  code.  Sizes in bytes are integers (\<^verbatim>\<open>mem_b\<close>, signed 64-bit numbers).
\<close>

section \<open>The FIFO queue\<close>

record queue =
  q_maxsize :: int
  ps_per_byte :: nat
  queuesize :: int
  enqueued :: "packet list"
  num_drops :: nat

text \<open>The quotient is computed in floating point; for bit rates below \<open>2 ^ 53\<close> its integer part is exact.\<close>

definition Queue :: "nat \<Rightarrow> int \<Rightarrow> queue" where
  "Queue bitrate maxsize =
     \<lparr>q_maxsize = maxsize, ps_per_byte = (10 ^ 12 * 8) div bitrate, queuesize = 0, enqueued = [], num_drops = 0\<rparr>"

definition drainTime :: "'a queue_scheme \<Rightarrow> packet \<Rightarrow> nat" where
  "drainTime q p = psize p * ps_per_byte q"

definition serviceTime :: "'a queue_scheme \<Rightarrow> nat" where
  "serviceTime q = nat (queuesize q) * ps_per_byte q"

definition Queue_beginService :: "'a queue_scheme \<Rightarrow> action list option" where
  "Queue_beginService q = (if enqueued q = [] then None else Some [Pending (drainTime q (last (enqueued q)))])"

definition Queue_completeService :: "nat \<Rightarrow> 'a queue_scheme \<Rightarrow> ('a queue_scheme \<times> action list) option" where
  "Queue_completeService tm q =
     (if enqueued q = [] then None
      else
        let pkt = last (enqueued q);
            q' = q\<lparr>enqueued := butlast (enqueued q), queuesize := queuesize q - int (psize pkt)\<rparr>
        in if enqueued q' \<noteq> [] then map_option (\<lambda>acts. (q', Send pkt # acts)) (Queue_beginService q')
           else Some (q', [Send pkt]))"

text \<open>Adding a packet, and the start of the service when the queue was empty.\<close>

definition enqueue_pkt :: "packet \<Rightarrow> 'a queue_scheme \<Rightarrow> 'a queue_scheme" where
  "enqueue_pkt pkt q = q\<lparr>enqueued := pkt # enqueued q, queuesize := queuesize q + int (psize pkt)\<rparr>"

definition Queue_receivePacket :: "nat \<Rightarrow> packet \<Rightarrow> queue \<Rightarrow> (queue \<times> action list) option" where
  "Queue_receivePacket tm pkt q =
     (if q_maxsize q < queuesize q + int (psize pkt)
      then Some (q\<lparr>num_drops := num_drops q + 1\<rparr>, [Free pkt])
      else
        let q' = enqueue_pkt pkt q
        in if enqueued q = [] then map_option (Pair q') (Queue_beginService q') else Some (q', []))"

section \<open>What a FIFO queue does\<close>

definition bytes :: "packet list \<Rightarrow> int" where
  "bytes ps = (\<Sum>p\<leftarrow>ps. int (psize p))"

lemma bytes_simps [simp]: "bytes [] = 0" "bytes (p # ps) = int (psize p) + bytes ps" "bytes (ps @ qs) = bytes ps + bytes qs"
  by (simp_all add: bytes_def)

lemma bytes_nonneg: "0 \<le> bytes ps"
  by (induction ps) auto

text \<open>Packets that leave one after the other are as far apart as the second takes to be sent.\<close>

definition paced :: "nat \<Rightarrow> (nat \<times> packet) list \<Rightarrow> bool" where
  "paced ps outs \<longleftrightarrow> successively (\<lambda>x y. fst x + psize (snd y) * ps \<le> fst y) outs"

text \<open>The packet at the back is being sent since some time after the last one that has left.\<close>

definition busy :: "nat \<Rightarrow> packet list \<Rightarrow> (nat \<times> packet) list \<Rightarrow> unit event_list \<Rightarrow> bool" where
  "busy ps enq outs ev \<longleftrightarrow>
     (if enq = [] then due None ev \<and> (outs \<noteq> [] \<longrightarrow> fst (last outs) \<le> now ev)
      else \<exists>b. due (Some (b + psize (last enq) * ps)) ev \<and> b \<le> now ev \<and> (outs \<noteq> [] \<longrightarrow> fst (last outs) \<le> b))"

definition queue_inv :: "nat \<Rightarrow> int \<Rightarrow> (nat \<times> packet) list \<Rightarrow> queue world \<Rightarrow> unit event_list \<Rightarrow> bool" where
  "queue_inv ps m ins w ev \<longleftrightarrow>
     (let q = w_st w; served = map snd (w_out w) @ rev (enqueued q)
      in ps_per_byte q = ps \<and> q_maxsize q = m \<and> queuesize q = bytes (enqueued q) \<and> (0 \<le> m \<longrightarrow> bytes (enqueued q) \<le> m) \<and>
         subseq served (map snd ins) \<and> mset (map snd ins) = mset served + mset (w_freed w) \<and>
         num_drops q = length (w_freed w) \<and> paced ps (w_out w) \<and> busy ps (enqueued q) (w_out w) ev)"

lemma busy_arrive:
  assumes "busy ps enq outs ev" and "now ev \<le> t" and "\<forall>x \<in> set (pendingsources ev). t \<le> fst x"
  shows "busy ps enq outs (ev\<lparr>lasteventtime := t\<rparr>)"
  using assms due_advance [OF _ assms(3)] by (fastforce simp: busy_def now_def split: if_splits)

lemma busy_begin:
  assumes "busy ps [] outs ev"
  shows "\<exists>ev'. exec (Pending (psize p * ps) # acts) (w, ev) = exec acts (w, ev') \<and> busy ps [p] outs ev' \<and> now ev' = now ev"
  using due_Pending [of ev "psize p * ps" acts w] assms by (fastforce simp: busy_def)

lemma subseq_snoc: "subseq xs ys \<Longrightarrow> subseq xs (ys @ [y])"
  using list_emb_append_mono [of "(=)" xs ys "[]" "[y]"] by simp

lemma subseq_snoc2: "subseq xs ys \<Longrightarrow> subseq (xs @ [y]) (ys @ [y])"
  by simp

lemma queue_arrive:
  assumes "queue_inv ps m ins w ev" and "now ev \<le> t" and "\<forall>x \<in> set (pendingsources ev). t \<le> fst x"
  shows "\<exists>w' ev'. arrive Queue_receivePacket t p (w, ev) = Some (w', ev') \<and> queue_inv ps m (ins @ [(t, p)]) w' ev'"
proof -
  let ?q = "w_st w" and ?ev = "ev\<lparr>lasteventtime := t\<rparr>"
  note inv = assms(1) [unfolded queue_inv_def Let_def]
  have busy: "busy ps (enqueued ?q) (w_out w) ?ev"
    using inv busy_arrive [OF _ assms(2,3)] by blast
  have sub: "subseq (map snd (w_out w) @ rev (enqueued ?q)) (map snd ins)"
    using inv by blast
  show ?thesis
  proof (cases "m < queuesize ?q + int (psize p)")
    case True
    then show ?thesis
      using inv busy subseq_snoc [OF sub] by (simp add: arrive_def Queue_receivePacket_def queue_inv_def)
  next
    case False
    let ?w = "w\<lparr>w_st := enqueue_pkt p ?q\<rparr>"
    have rest: "queue_inv ps m (ins @ [(t, p)]) ?w ev'" if "busy ps (p # enqueued ?q) (w_out w) ev'" for ev'
      using inv that False subseq_snoc2 [OF sub] by (simp add: queue_inv_def enqueue_pkt_def)
    show ?thesis
    proof (cases "enqueued ?q = []")
      case True
      then obtain ev' where "exec [Pending (psize p * ps)] (?w, ?ev) = Some (?w, ev')" "busy ps [p] (w_out w) ev'"
        using busy_begin [of ps "w_out w" ?ev p "[]" ?w] busy by auto
      then show ?thesis
        using False True inv rest
        by (simp add: arrive_def Queue_receivePacket_def Let_def Queue_beginService_def enqueue_pkt_def drainTime_def)
    next
      case nonempty: False
      then have "busy ps (p # enqueued ?q) (w_out w) ?ev"
        using busy by (simp add: busy_def)
      then show ?thesis
        using False nonempty inv rest by (simp add: arrive_def Queue_receivePacket_def Let_def)
    qed
  qed
qed


lemma last_snoc_bound: "successively P (xs @ [x]) \<longleftrightarrow> successively P xs \<and> (xs \<noteq> [] \<longrightarrow> P (last xs) x)"
  by (auto simp: successively_append_iff)

lemma paced_snoc: "paced ps (outs @ [(t, p)]) \<longleftrightarrow> paced ps outs \<and> (outs \<noteq> [] \<longrightarrow> fst (last outs) + psize p * ps \<le> t)"
  by (auto simp: paced_def last_snoc_bound)

text \<open>The service of the packet at the back of a list ends, and the one of the next begins.\<close>

lemma busy_fire:
  assumes "busy ps (rest @ [p]) outs ev" and "paced ps outs"
  shows "\<exists>ev1 t. now ev1 = t \<and> fire serve (w, ev) = map_option (Pair True) (dev_handle serve () (w, ev1)) \<and>
    paced ps (outs @ [(t, p)]) \<and> busy ps [] (outs @ [(t, p)]) ev1"
proof -
  obtain b where b: "due (Some (b + psize p * ps)) ev" "outs \<noteq> [] \<longrightarrow> fst (last outs) \<le> b"
    using assms(1) by (auto simp: busy_def)
  obtain ev1 where "due None ev1" "now ev1 = b + psize p * ps"
    "fire serve (w, ev) = map_option (Pair True) (dev_handle serve () (w, ev1))"
    using due_fire [OF b(1)] by blast
  then show ?thesis
    using b(2) assms(2) by (intro exI [of _ ev1]) (auto simp: busy_def paced_snoc)
qed

lemma busy_next:
  assumes "busy ps [] outs ev" and "rest \<noteq> []"
  shows "\<exists>ev'. exec (Pending (psize (last rest) * ps) # acts) (w, ev) = exec acts (w, ev') \<and> busy ps rest outs ev' \<and>
    now ev' = now ev"
  using busy_begin [OF assms(1), of "last rest" acts w] assms(2) by (auto simp: busy_def)

lemma queue_fire:
  assumes "queue_inv ps m ins w ev" and "pendingsources ev \<noteq> []"
  shows "\<exists>w' ev'. fire Queue_completeService (w, ev) = Some (True, w', ev') \<and> queue_inv ps m ins w' ev'"
proof -
  let ?q = "w_st w"
  note inv = assms(1) [unfolded queue_inv_def Let_def]
  have "enqueued ?q \<noteq> []"
    using inv assms(2) due_pending [of None ev] by (auto simp: busy_def)
  then obtain rest p where l: "enqueued ?q = rest @ [p]"
    by (metis append_butlast_last_id)
  obtain ev1 t where ev1: "now ev1 = t" "paced ps (w_out w @ [(t, p)])" "busy ps [] (w_out w @ [(t, p)]) ev1"
    "fire Queue_completeService (w, ev) = map_option (Pair True) (dev_handle Queue_completeService () (w, ev1))"
    using busy_fire [of ps rest p "w_out w" ev] inv l by metis
  let ?w = "w\<lparr>w_st := ?q\<lparr>enqueued := rest, queuesize := queuesize ?q - int (psize p)\<rparr>, w_out := w_out w @ [(t, p)]\<rparr>"
  have rest: "queue_inv ps m ins ?w ev'" if "busy ps rest (w_out w @ [(t, p)]) ev'" for ev'
    using that inv l ev1(2) by (auto simp: queue_inv_def)
  show ?thesis
  proof (cases "rest = []")
    case True
    then show ?thesis
      using ev1 l rest by (simp add: dev_handle_def Queue_completeService_def Let_def)
  next
    case False
    then obtain ev' where "exec [Pending (psize (last rest) * ps)] (?w, ev1) = Some (?w, ev')"
      "busy ps rest (w_out w @ [(t, p)]) ev'"
      using busy_next [OF ev1(3) False, of "[]" ?w] by auto
    then show ?thesis
      using ev1 l rest False inv
      by (simp add: dev_handle_def Queue_completeService_def Let_def Queue_beginService_def drainTime_def)
  qed
qed

interpretation fifo: device Queue_receivePacket Queue_completeService "Queue r m" "\<lambda>_. True"
  "queue_inv (10 ^ 12 * 8 div r) m"
  by unfold_locales
    (simp add: queue_inv_def initially_def Queue_def busy_def paced_def, erule (2) queue_arrive, erule (1) queue_fire)

text \<open>
  A FIFO queue drops a packet exactly when it does not fit, sends the others on in the order of their arrival, never
  holds more than its capacity, is not faster than its link, and no assertion fails.
\<close>

theorem queue_fifo:
  assumes "dev_reach Queue_receivePacket Queue_completeService (Queue r m) ins (w, ev)"
  shows "subseq (map snd (w_out w) @ rev (enqueued (w_st w))) (map snd ins)"
    and "mset (map snd ins) = mset (map snd (w_out w)) + mset (enqueued (w_st w)) + mset (w_freed w)"
    and "queuesize (w_st w) = bytes (enqueued (w_st w))" and "0 \<le> m \<Longrightarrow> queuesize (w_st w) \<le> m"
    and "num_drops (w_st w) = length (w_freed w)"
    and "paced (10 ^ 12 * 8 div r) (w_out w)"
    and "fire Queue_completeService (w, ev) \<noteq> None"
    and "enqueued (w_st w) \<noteq> [] \<longleftrightarrow> pendingsources ev \<noteq> []"
proof -
  note inv = fifo.reach_inv [OF assms, simplified, unfolded queue_inv_def Let_def]
  show "subseq (map snd (w_out w) @ rev (enqueued (w_st w))) (map snd ins)"
    and "mset (map snd ins) = mset (map snd (w_out w)) + mset (enqueued (w_st w)) + mset (w_freed w)"
    and "queuesize (w_st w) = bytes (enqueued (w_st w))" and "0 \<le> m \<Longrightarrow> queuesize (w_st w) \<le> m"
    and "num_drops (w_st w) = length (w_freed w)"
    and "paced (10 ^ 12 * 8 div r) (w_out w)"
    using inv by auto
  show "enqueued (w_st w) \<noteq> [] \<longleftrightarrow> pendingsources ev \<noteq> []"
    using inv due_pending [of _ ev] by (auto simp: busy_def split: if_splits)
  show "fire Queue_completeService (w, ev) \<noteq> None"
    by (rule fifo.reach_safe(1) [OF assms]) simp
qed

end
