(* ===== verification/Ndp_Pause.thy ===== *)
theory Ndp_Pause
  imports Ndp_Queue
begin

text \<open>
  Queues that obey pause frames: the lossless queue (\<^verbatim>\<open>queue_lossless.cpp\<close>) and the queue that marks packets
  (\<^verbatim>\<open>ecnqueue.cpp\<close>).  A frame with a time stops the queue after the packet that is being sent, one with time 0 lets it
  go on.  Only the lossless queue remembers whether it is sending; the other begins to send a second time when it is
  released while a packet is on the wire, and then fails an assertion.
\<close>

datatype pause_state = PAUSED | READY | PAUSE_RECEIVED

section \<open>The lossless queue\<close>

record lossless_queue = queue +
  state_send :: pause_state
  state_recv :: pause_state
  sending :: bool
  low_threshold :: int
  high_threshold :: int

text \<open>The thresholds are of the type \<^verbatim>\<open>int\<close>; a size (\<^verbatim>\<open>mem_b\<close>, 64 bits) that does not fit is cut.\<close>

definition to_int :: "int \<Rightarrow> int" where
  "to_int x = (x + 2 ^ 31) mod 2 ^ 32 - 2 ^ 31"

definition LosslessQueue :: "nat \<Rightarrow> int \<Rightarrow> lossless_queue" where
  "LosslessQueue bitrate maxsize =
     queue.extend (Queue bitrate maxsize)
       \<lparr>state_send = READY, state_recv = READY, sending = False, low_threshold = 0, high_threshold = to_int maxsize\<rparr>"

definition initThresholds :: "nat \<Rightarrow> nat \<Rightarrow> lossless_queue \<Rightarrow> lossless_queue option" where
  "initThresholds portCount data_packet_size q =
     (let high = to_int (q_maxsize q - to_int (int (portCount * data_packet_size * 2))); low = to_int (int (2 * data_packet_size))
      in if 0 < high \<and> low < high then Some (q\<lparr>high_threshold := high, low_threshold := low\<rparr>) else None)"

definition Lossless_beginService :: "lossless_queue \<Rightarrow> (lossless_queue \<times> action list) option" where
  "Lossless_beginService q =
     (if state_send q = READY \<and> \<not> sending q
      then map_option (Pair (q\<lparr>sending := True\<rparr>)) (Queue_beginService q) else None)"

definition then_acts :: "action list \<Rightarrow> ('s \<times> action list) option \<Rightarrow> action list \<Rightarrow> ('s \<times> action list) option" where
  "then_acts before r after = map_option (\<lambda>(s, acts). (s, before @ acts @ after)) r"

text \<open>The pause frames that are sent when the queue passes its thresholds.\<close>

definition stop_sender :: "lossless_queue \<Rightarrow> lossless_queue \<times> nat list" where
  "stop_sender q =
     (if high_threshold q < queuesize q \<and> state_recv q \<noteq> PAUSED then (q\<lparr>state_recv := PAUSED\<rparr>, [1000]) else (q, []))"

definition release_sender :: "lossless_queue \<Rightarrow> lossless_queue \<times> nat list" where
  "release_sender q =
     (if queuesize q < low_threshold q \<and> state_recv q = PAUSED then (q\<lparr>state_recv := READY\<rparr>, [0]) else (q, []))"

definition Lossless_receivePacket :: "nat \<Rightarrow> packet \<Rightarrow> lossless_queue \<Rightarrow> (lossless_queue \<times> action list) option" where
  "Lossless_receivePacket tm pkt q =
     (if ptype pkt = ETH_PAUSE
      then
        if 0 < sleepTime pkt
        then Some (q\<lparr>state_send := if sending q then PAUSE_RECEIVED else PAUSED\<rparr>, [Free pkt])
        else
          let q1 = q\<lparr>state_send := READY\<rparr>
          in if enqueued q1 \<noteq> [] \<and> \<not> sending q1 then then_acts [] (Lossless_beginService q1) [Free pkt]
             else Some (q1, [Free pkt])
      else
        (case stop_sender (enqueue_pkt pkt q) of (q1, ns) \<Rightarrow>
           if enqueued q = [] \<and> state_send q1 = READY then then_acts (map Pause ns) (Lossless_beginService q1) []
           else Some (q1, map Pause ns)))"

definition Lossless_completeService :: "nat \<Rightarrow> lossless_queue \<Rightarrow> (lossless_queue \<times> action list) option" where
  "Lossless_completeService tm q =
     (if enqueued q = [] then None
      else
        let pkt = last (enqueued q);
            q1 = q\<lparr>enqueued := butlast (enqueued q), queuesize := queuesize q - int (psize pkt), sending := False,
                   state_send := if state_send q = PAUSE_RECEIVED then PAUSED else state_send q\<rparr>
        in case release_sender q1 of (q2, ns) \<Rightarrow>
             if enqueued q2 \<noteq> [] \<and> state_send q2 = READY
             then then_acts (Send pkt # map Pause ns) (Lossless_beginService q2) []
             else Some (q2, Send pkt # map Pause ns))"

definition is_data :: "packet \<Rightarrow> bool" where
  "is_data p \<longleftrightarrow> ptype p \<noteq> ETH_PAUSE"

text \<open>The pause frames alternate between stop and go, and the last one is the state.\<close>

definition hysteresis :: "pause_state \<Rightarrow> nat list \<Rightarrow> bool" where
  "hysteresis st ns \<longleftrightarrow>
     st = (if even (length ns) then READY else PAUSED) \<and> (\<forall>i < length ns. ns ! i = (if even i then 1000 else 0))"

text \<open>
  Whether the neighbours are stopped, for the thresholds \<open>lo\<close> and \<open>hi\<close>: they are above the high one, and not below the
  low one.  The plain constructor sets a low threshold of 0, below which no queue is.
\<close>

definition throttled :: "int \<Rightarrow> int \<Rightarrow> lossless_queue \<Rightarrow> bool" where
  "throttled lo hi q \<longleftrightarrow>
     low_threshold q = lo \<and> high_threshold q = hi \<and> (0 \<le> hi \<and> hi < queuesize q \<longrightarrow> state_recv q = PAUSED) \<and>
     (queuesize q < lo \<longrightarrow> state_recv q = READY)"

lemma throttled_upd [simp]:
  "throttled lo hi (q\<lparr>state_send := x\<rparr>) = throttled lo hi q" "throttled lo hi (q\<lparr>sending := b\<rparr>) = throttled lo hi q"
  by (simp_all add: throttled_def)

lemma throttled_sender:
  assumes "lo \<le> hi \<or> lo \<le> 0" and "0 \<le> queuesize q" and "low_threshold q = lo" and "high_threshold q = hi"
  shows "stop_sender q = (q', ms) \<Longrightarrow> (queuesize q < lo \<longrightarrow> state_recv q = READY) \<Longrightarrow> throttled lo hi q'"
    and "release_sender q = (q', ms) \<Longrightarrow> (0 \<le> hi \<and> hi < queuesize q \<longrightarrow> state_recv q = PAUSED) \<Longrightarrow> state_recv q \<in> {PAUSED, READY} \<Longrightarrow>
      throttled lo hi q'"
  using assms by (auto simp: throttled_def stop_sender_def release_sender_def split: if_splits)

definition lossless_inv :: "int \<Rightarrow> int \<Rightarrow> nat \<Rightarrow> (nat \<times> packet) list \<Rightarrow> lossless_queue world \<Rightarrow> unit event_list \<Rightarrow> bool" where
  "lossless_inv lo hi ps ins w ev \<longleftrightarrow>
     (let q = w_st w
      in ps_per_byte q = ps \<and> queuesize q = bytes (enqueued q) \<and>
         map snd (w_out w) @ rev (enqueued q) = filter is_data (map snd ins) \<and>
         w_freed w = filter (\<lambda>p. \<not> is_data p) (map snd ins) \<and>
         (sending q \<longrightarrow> enqueued q \<noteq> []) \<and> (state_send q = READY \<longrightarrow> enqueued q \<noteq> [] \<longrightarrow> sending q) \<and>
         (state_send q = PAUSE_RECEIVED \<longrightarrow> sending q) \<and>
         hysteresis (state_recv q) (w_pauses w) \<and> (lo \<le> hi \<or> lo \<le> 0) \<and> throttled lo hi q \<and>
         paced ps (w_out w) \<and> busy ps (if sending q then enqueued q else []) (w_out w) ev)"

lemma hysteresis_sender:
  assumes "hysteresis (state_recv q) ns"
  shows "stop_sender q = (q', ms) \<Longrightarrow> hysteresis (state_recv q') (ns @ ms)"
    and "release_sender q = (q', ms) \<Longrightarrow> hysteresis (state_recv q') (ns @ ms)"
  using assms
  by (auto simp: hysteresis_def stop_sender_def release_sender_def nth_append less_Suc_eq split: if_splits)

lemma sender_same:
  assumes "stop_sender q = (q', ns) \<or> release_sender q = (q', ns)"
  shows "enqueued q' = enqueued q" "queuesize q' = queuesize q" "state_send q' = state_send q"
    "sending q' = sending q" "ps_per_byte q' = ps_per_byte q"
  using assms by (auto simp: stop_sender_def release_sender_def split: if_splits)

lemma exec_Pauses: "exec (map Pause ns @ acts) (w, ev) = exec acts (w\<lparr>w_pauses := w_pauses w @ ns\<rparr>, ev)"
  by (induction ns arbitrary: w) simp_all

lemma exec_Pauses_only: "exec (map Pause ns) (w, ev) = Some (w\<lparr>w_pauses := w_pauses w @ ns\<rparr>, ev)"
  using exec_Pauses [of ns "[]"] by simp

text \<open>The beginning of the service.\<close>

definition begun :: "nat \<Rightarrow> unit event_list \<Rightarrow> unit event_list" where
  "begun dt ev = ev\<lparr>pendingsources := [(now ev + dt, ())]\<rparr>"

lemma now_begun [simp]: "now (begun dt ev) = now ev"
  by (simp add: begun_def now_def)

lemma exec_begun: "due None ev \<Longrightarrow> exec (Pending dt # acts) (w, ev) = exec acts (w, begun dt ev)"
  by (simp add: due_def sourceIsPendingRel_def sourceIsPending_def begun_def)

declare exec.simps(2,3) [simp del]

lemma busy_begun: "busy ps [] outs ev \<Longrightarrow> enq \<noteq> [] \<Longrightarrow> busy ps enq outs (begun (psize (last enq) * ps) ev)"
  by (auto simp: busy_def due_def begun_def now_def)

lemma busy_due: "busy ps [] outs ev \<Longrightarrow> due None ev"
  by (simp add: busy_def)

lemma lossless_begin:
  assumes "enqueued q \<noteq> []" and "state_send q = READY" and "\<not> sending q"
  shows "Lossless_beginService q = Some (q\<lparr>sending := True\<rparr>, [Pending (psize (last (enqueued q)) * ps_per_byte q)])"
  using assms by (simp add: Lossless_beginService_def Queue_beginService_def drainTime_def)

lemma lossless_arrive:
  assumes "lossless_inv lo hi ps ins w ev" and "now ev \<le> t" and "\<forall>x \<in> set (pendingsources ev). t \<le> fst x"
  shows "\<exists>w' ev'. arrive Lossless_receivePacket t p (w, ev) = Some (w', ev') \<and> lossless_inv lo hi ps (ins @ [(t, p)]) w' ev'"
proof -
  let ?q = "w_st w" and ?ev = "ev\<lparr>lasteventtime := t\<rparr>"
  note inv = assms(1) [unfolded lossless_inv_def Let_def]
  have busy: "busy ps (if sending ?q then enqueued ?q else []) (w_out w) ?ev"
    using inv busy_arrive [OF _ assms(2,3)] by blast
  show ?thesis
  proof (cases "ptype p = ETH_PAUSE")
    case True
    then have p: "\<not> is_data p"
      by (simp add: is_data_def)
    show ?thesis
    proof (cases "sleepTime p = 0 \<and> enqueued ?q \<noteq> [] \<and> \<not> sending ?q")
      case True
      then have idle: "busy ps [] (w_out w) ?ev"
        using busy by simp
      let ?w = "w\<lparr>w_st := ?q\<lparr>state_send := READY, sending := True\<rparr>, w_freed := w_freed w @ [p]\<rparr>"
      let ?ev1 = "begun (psize (last (enqueued ?q)) * ps) ?ev"
      have "arrive Lossless_receivePacket t p (w, ev) = Some (?w, ?ev1)"
        using True \<open>ptype p = ETH_PAUSE\<close> inv
        by (simp add: arrive_def Lossless_receivePacket_def Let_def lossless_begin then_acts_def
            exec_begun [OF busy_due [OF idle]])
      moreover have "lossless_inv lo hi ps (ins @ [(t, p)]) ?w ?ev1"
        using True p inv busy_begun [OF idle, of "enqueued ?q"] by (simp add: lossless_inv_def)
      ultimately show ?thesis
        by blast
    next
      case False
      then show ?thesis
        using p \<open>ptype p = ETH_PAUSE\<close> inv busy
        by (auto simp: arrive_def Lossless_receivePacket_def Let_def lossless_inv_def)
    qed
  next
    case False
    then have p: "is_data p"
      by (simp add: is_data_def)
    obtain q1 ns where q1: "stop_sender (enqueue_pkt p ?q) = (q1, ns)"
      by force
    have hyst: "hysteresis (state_recv q1) (w_pauses w @ ns)"
      using hysteresis_sender(1) [OF _ q1] inv by (simp add: enqueue_pkt_def)
    have thr: "throttled lo hi q1"
      using throttled_sender(1) [OF _ _ _ _ q1] inv bytes_nonneg [of "enqueued ?q"] by (auto simp: enqueue_pkt_def throttled_def)
    have same: "enqueued q1 = p # enqueued ?q" "queuesize q1 = int (psize p) + queuesize ?q" "state_send q1 = state_send ?q"
      "sending q1 = sending ?q" "ps_per_byte q1 = ps"
      using sender_same [of "enqueue_pkt p ?q" q1 ns] q1 inv by (simp_all add: enqueue_pkt_def)
    note simps = arrive_def Lossless_receivePacket_def q1 False then_acts_def lossless_begin same exec_Pauses
    show ?thesis
    proof (cases "enqueued ?q = [] \<and> state_send ?q = READY")
      case True
      then have idle: "busy ps [] (w_out w) ?ev" "\<not> sending ?q"
        using busy inv by auto
      let ?w = "w\<lparr>w_st := q1\<lparr>sending := True\<rparr>, w_pauses := w_pauses w @ ns\<rparr>" and ?ev1 = "begun (psize p * ps) ?ev"
      have "arrive Lossless_receivePacket t p (w, ev) = Some (?w, ?ev1)"
        using True idle(2) by (simp add: simps exec_begun [OF busy_due [OF idle(1)]])
      moreover have "lossless_inv lo hi ps (ins @ [(t, p)]) ?w ?ev1"
        using True p inv busy_begun [OF idle(1), of "[p]"] same hyst thr by (simp add: lossless_inv_def)
      ultimately show ?thesis
        by blast
    next
      case nb: False
      let ?w = "w\<lparr>w_st := q1, w_pauses := w_pauses w @ ns\<rparr>"
      have "Lossless_receivePacket t p ?q = Some (q1, map Pause ns)"
        using nb by (auto simp: simps)
      then have "arrive Lossless_receivePacket t p (w, ev) = Some (?w, ?ev)"
        by (simp add: arrive_def exec_Pauses_only)
      moreover have ready: "state_send ?q = READY \<longrightarrow> sending ?q"
        using nb inv by blast
      have "busy ps (if sending ?q then p # enqueued ?q else []) (w_out w) ?ev"
        using busy inv by (auto simp: busy_def split: if_splits)
      then have "lossless_inv lo hi ps (ins @ [(t, p)]) ?w ?ev"
        using ready p inv same hyst thr by (cases "sending ?q") (simp_all add: lossless_inv_def)
      ultimately show ?thesis
        by blast
    qed
  qed
qed

lemma lossless_fire:
  assumes "lossless_inv lo hi ps ins w ev" and "pendingsources ev \<noteq> []"
  shows "\<exists>w' ev'. fire Lossless_completeService (w, ev) = Some (True, w', ev') \<and> lossless_inv lo hi ps ins w' ev'"
proof -
  let ?q = "w_st w"
  note inv = assms(1) [unfolded lossless_inv_def Let_def]
  have sending: "sending ?q" "enqueued ?q \<noteq> []"
    using inv assms(2) due_pending [of None ev] by (auto simp: busy_def split: if_splits)
  then obtain rest p where l: "enqueued ?q = rest @ [p]"
    by (metis append_butlast_last_id)
  have b: "busy ps (rest @ [p]) (w_out w) ev" "paced ps (w_out w)"
    using inv l sending(1) by simp_all
  obtain ev1 t where ev1: "now ev1 = t" "paced ps (w_out w @ [(t, p)])" "busy ps [] (w_out w @ [(t, p)]) ev1"
    "fire Lossless_completeService (w, ev) = map_option (Pair True) (dev_handle Lossless_completeService () (w, ev1))"
    using busy_fire [OF b] by blast
  let ?q1 = "?q\<lparr>enqueued := rest, queuesize := queuesize ?q - int (psize p), sending := False,
      state_send := if state_send ?q = PAUSE_RECEIVED then PAUSED else state_send ?q\<rparr>"
  obtain q2 ns where q2: "release_sender ?q1 = (q2, ns)"
    by force
  have hyst: "hysteresis (state_recv q2) (w_pauses w @ ns)"
    using hysteresis_sender(2) [OF _ q2] inv by simp
  have size: "queuesize ?q1 = bytes rest" "0 \<le> bytes rest"
    using inv l bytes_nonneg by simp_all
  have thr: "throttled lo hi q2"
    using throttled_sender(2) [OF _ _ _ _ q2] inv size bytes_nonneg [of "enqueued ?q"] l
    by (auto simp: throttled_def hysteresis_def split: if_splits)
  have same: "enqueued q2 = rest" "queuesize q2 = bytes rest" "state_send q2 = state_send ?q1"
    "sending q2 = False" "ps_per_byte q2 = ps"
    using sender_same [of ?q1 q2 ns] q2 inv l by simp_all
  have outs: "map snd (w_out w @ [(t, p)]) @ rev rest = filter is_data (map snd ins)"
    using inv l by simp
  let ?wo = "w\<lparr>w_out := w_out w @ [(t, p)], w_pauses := w_pauses w @ ns\<rparr>"
  have eq: "Lossless_completeService t ?q =
      (if rest \<noteq> [] \<and> state_send q2 = READY then then_acts (Send p # map Pause ns) (Lossless_beginService q2) []
       else Some (q2, Send p # map Pause ns))"
    using l q2 same(1) by (simp add: Lossless_completeService_def)
  show ?thesis
  proof (cases "rest \<noteq> [] \<and> state_send q2 = READY")
    case True
    let ?w = "?wo\<lparr>w_st := q2\<lparr>sending := True\<rparr>\<rparr>" and ?ev2 = "begun (psize (last rest) * ps) ev1"
    have "Lossless_completeService t ?q =
        Some (q2\<lparr>sending := True\<rparr>, Send p # map Pause ns @ [Pending (psize (last rest) * ps)])"
      using eq True same by (simp add: lossless_begin then_acts_def)
    then have "fire Lossless_completeService (w, ev) = Some (True, ?w, ?ev2)"
      using ev1(1,4) by (simp add: dev_handle_def exec_Pauses exec_begun [OF busy_due [OF ev1(3)]])
    moreover have "lossless_inv lo hi ps ins ?w ?ev2"
      using True same inv outs ev1(2) hyst thr busy_begun [OF ev1(3), of rest] by (simp add: lossless_inv_def)
    ultimately show ?thesis
      by blast
  next
    case False
    let ?w = "?wo\<lparr>w_st := q2\<rparr>"
    have "Lossless_completeService t ?q = Some (q2, Send p # map Pause ns)"
      unfolding eq using False by (rule if_not_P)
    then have "fire Lossless_completeService (w, ev) = Some (True, ?w, ev1)"
      using ev1(1,4) by (simp add: dev_handle_def exec_Pauses_only)
    moreover have "lossless_inv lo hi ps ins ?w ev1"
      using False same inv outs ev1(2,3) hyst thr by (auto simp: lossless_inv_def)
    ultimately show ?thesis
      by blast
  qed
qed

definition lossless_start :: "nat \<Rightarrow> int \<Rightarrow> lossless_queue \<Rightarrow> bool" where
  "lossless_start r m q \<longleftrightarrow> (\<exists>ports dps. q = LosslessQueue r m \<or> initThresholds ports dps (LosslessQueue r m) = Some q)"

lemma lossless_inv_start:
  assumes "lossless_start r m q"
  shows "lossless_inv (low_threshold q) (high_threshold q) (10 ^ 12 * 8 div r) [] (initially q) EventList"
  using assms
  by (auto simp: lossless_start_def initThresholds_def Let_def lossless_inv_def initially_def LosslessQueue_def Queue_def
      queue.defs busy_def paced_def hysteresis_def throttled_def split: if_splits)

text \<open>
  A lossless queue of a switch, with the thresholds it was given.  Every packet that it receives is admissible: nothing is
  dropped, whatever the pause frames.
\<close>

locale lossless_setup =
  fixes r :: nat and m :: int and q0 :: lossless_queue
  assumes set_up: "lossless_start r m q0"

sublocale lossless_setup \<subseteq> device Lossless_receivePacket Lossless_completeService q0 "\<lambda>_. True"
  "lossless_inv (low_threshold q0) (high_threshold q0) (10 ^ 12 * 8 div r)"
  by unfold_locales (rule lossless_inv_start [OF set_up], erule (2) lossless_arrive, erule (1) lossless_fire)

context lossless_setup
begin

lemma lossless_facts:
  assumes "dev_reach Lossless_receivePacket Lossless_completeService q0 ins (w, ev)"
  shows "lossless_inv (low_threshold q0) (high_threshold q0) (10 ^ 12 * 8 div r) ins w ev"
    and "fire Lossless_completeService (w, ev) \<noteq> None" and "accepts Lossless_receivePacket (\<lambda>_. True) (w, ev)"
  using reach_inv [OF assms] reach_safe(1) [OF assms] reach_accepts [OF assms] by simp_all

end

interpretation lossless: lossless_setup r m "LosslessQueue r m"
  by unfold_locales (simp add: lossless_start_def)

text \<open>
  Claim C12.  For every sequence of packets and pause frames, from a queue with or without thresholds, no assertion of the
  lossless queue fails, neither for an event nor for a packet or a frame that arrives; the packets leave in the
  order in which they came and none is lost; when the queue is not paused and has packets it is sending; the frames it
  sends to its neighbours alternate between stop and go, the neighbours are stopped while more than the high threshold,
  when that is not negative, is in the queue, and are not stopped while less than the low threshold is.
\<close>

theorem lossless_queue_correct:
  assumes "lossless_start r m q0"
    and "dev_reach Lossless_receivePacket Lossless_completeService q0 ins (w, ev)"
  shows "map snd (w_out w) @ rev (enqueued (w_st w)) = filter is_data (map snd ins) \<and>
    (state_send (w_st w) = READY \<and> enqueued (w_st w) \<noteq> [] \<longrightarrow> pendingsources ev \<noteq> []) \<and>
    hysteresis (state_recv (w_st w)) (w_pauses w) \<and>
    (0 \<le> high_threshold q0 \<and> high_threshold q0 < bytes (enqueued (w_st w)) \<longrightarrow> state_recv (w_st w) = PAUSED) \<and>
    (bytes (enqueued (w_st w)) < low_threshold q0 \<longrightarrow> state_recv (w_st w) = READY) \<and>
    paced (10 ^ 12 * 8 div r) (w_out w) \<and>
    fire Lossless_completeService (w, ev) \<noteq> None \<and> accepts Lossless_receivePacket (\<lambda>_. True) (w, ev)"
proof -
  have "lossless_setup r m q0"
    by unfold_locales (rule assms(1))
  note facts = lossless_setup.lossless_facts [OF this assms(2)]
  have "pendingsources ev \<noteq> []" if "state_send (w_st w) = READY" "enqueued (w_st w) \<noteq> []"
    using facts(1) that due_pending by (fastforce simp: lossless_inv_def Let_def busy_def)
  then show ?thesis
    using facts by (auto simp: lossless_inv_def Let_def throttled_def)
qed

text \<open>Two packets, of which the second stops the neighbours, and their departure, which lets them go on.\<close>

theorem lossless_queue_correct_witness:
  "\<exists>q0 w ev. initThresholds 1 10 (LosslessQueue 8000000000000 100) = Some q0 \<and>
     dev_reach Lossless_receivePacket Lossless_completeService q0 [(0, blank), (0, blank)] (w, ev) \<and>
     w_pauses w = [1000, 0] \<and> state_recv (w_st w) = READY \<and>
     fire Lossless_completeService (w, ev) \<noteq> None \<and> accepts Lossless_receivePacket (\<lambda>_. True) (w, ev)"
proof -
  define q0 where "q0 = (LosslessQueue 8000000000000 100)\<lparr>high_threshold := 80, low_threshold := 20\<rparr>"
  have init: "initThresholds 1 10 (LosslessQueue 8000000000000 100) = Some q0"
    by (simp add: initThresholds_def LosslessQueue_def Queue_def queue.defs to_int_def q0_def)
  let ?run = "run_dev Lossless_receivePacket Lossless_completeService [Arrive 0 blank, Arrive 0 blank, Event, Event] (initially q0, EventList)"
  have "\<exists>w ev. ?run = Some (w, ev) \<and> w_pauses w = [1000, 0] \<and> bytes (enqueued (w_st w)) = 0"
    by (simp add: dev_simps q0_def LosslessQueue_def Queue_def Lossless_receivePacket_def Lossless_completeService_def
        Lossless_beginService_def enqueue_pkt_def stop_sender_def release_sender_def then_acts_def Queue_beginService_def
        drainTime_def queue.defs Let_def)
  then obtain w ev where run: "?run = Some (w, ev)" "w_pauses w = [1000, 0]" "bytes (enqueued (w_st w)) = 0"
    by blast
  from run_dev_start [OF run(1)]
  have r: "dev_reach Lossless_receivePacket Lossless_completeService q0 [(0, blank), (0, blank)] (w, ev)"
    by simp
  have start: "lossless_start 8000000000000 100 q0"
    using init by (auto simp: lossless_start_def)
  have "low_threshold q0 = 20"
    by (simp add: q0_def)
  then show ?thesis
    using init r run(2,3) lossless_queue_correct [OF start r] by (intro exI [of _ q0] exI [of _ w] exI [of _ ev]) simp
qed

section \<open>The queue that marks packets\<close>

record ecn_queue = queue +
  ecn_state :: pause_state
  ecn_K :: int

definition ECNQueue :: "nat \<Rightarrow> int \<Rightarrow> int \<Rightarrow> ecn_queue" where
  "ECNQueue bitrate maxsize K = queue.extend (Queue bitrate maxsize) \<lparr>ecn_state = READY, ecn_K = K\<rparr>"

definition ECN_CE :: u32 where "ECN_CE = 1"

definition ECN_receivePacket :: "nat \<Rightarrow> packet \<Rightarrow> ecn_queue \<Rightarrow> (ecn_queue \<times> action list) option" where
  "ECN_receivePacket tm pkt q =
     (if ptype pkt = ETH_PAUSE
      then
        if 0 < sleepTime pkt
        then Some (q\<lparr>ecn_state := if 0 < queuesize q then PAUSE_RECEIVED else PAUSED\<rparr>, [Free pkt])
        else
          let q1 = q\<lparr>ecn_state := READY\<rparr>
          in if 0 < queuesize q1 then map_option (\<lambda>acts. (q1, acts @ [Free pkt])) (Queue_beginService q1)
             else Some (q1, [Free pkt])
      else if q_maxsize q < queuesize q + int (psize pkt)
      then Some (q\<lparr>num_drops := num_drops q + 1\<rparr>, [Free pkt])
      else
        let q1 = enqueue_pkt pkt q
        in if enqueued q = [] \<and> ecn_state q1 = READY then map_option (Pair q1) (Queue_beginService q1) else Some (q1, []))"

definition ECN_completeService :: "nat \<Rightarrow> ecn_queue \<Rightarrow> (ecn_queue \<times> action list) option" where
  "ECN_completeService tm q =
     (if enqueued q = [] then None
      else
        let p0 = last (enqueued q);
            pkt = (if ecn_K q < queuesize q then p0\<lparr>pflags := pflags p0 OR ECN_CE\<rparr> else p0);
            q1 = q\<lparr>enqueued := butlast (enqueued q), queuesize := queuesize q - int (psize pkt),
                   ecn_state := if ecn_state q = PAUSE_RECEIVED then PAUSED else ecn_state q\<rparr>
        in if enqueued q1 \<noteq> [] \<and> ecn_state q1 = READY
           then map_option (\<lambda>acts. (q1, Send pkt # acts)) (Queue_beginService q1) else Some (q1, [Send pkt]))"

subsection \<open>Without pause frames\<close>

definition plain_data :: "packet \<Rightarrow> bool" where
  "plain_data p \<longleftrightarrow> is_data p \<and> 0 < psize p"

definition ecn_inv :: "nat \<Rightarrow> (nat \<times> packet) list \<Rightarrow> ecn_queue world \<Rightarrow> unit event_list \<Rightarrow> bool" where
  "ecn_inv ps ins w ev \<longleftrightarrow>
     (let q = w_st w
      in ps_per_byte q = ps \<and> ecn_state q = READY \<and> queuesize q = bytes (enqueued q) \<and> (\<forall>p \<in> set (enqueued q). 0 < psize p) \<and>
         busy ps (enqueued q) [] ev)"

lemma ecn_arrive:
  assumes "ecn_inv ps ins w ev" and "now ev \<le> t" and "\<forall>x \<in> set (pendingsources ev). t \<le> fst x" and "plain_data p"
  shows "\<exists>w' ev'. arrive ECN_receivePacket t p (w, ev) = Some (w', ev') \<and> ecn_inv ps (ins @ [(t, p)]) w' ev'"
proof -
  let ?q = "w_st w" and ?ev = "ev\<lparr>lasteventtime := t\<rparr>"
  note inv = assms(1) [unfolded ecn_inv_def Let_def]
  have busy: "busy ps (enqueued ?q) [] ?ev" and p: "ptype p \<noteq> ETH_PAUSE" "0 < psize p"
    using inv busy_arrive [OF _ assms(2,3)] assms(4) by (auto simp: plain_data_def is_data_def)
  consider "q_maxsize ?q < queuesize ?q + int (psize p)" | "\<not> q_maxsize ?q < queuesize ?q + int (psize p)" "enqueued ?q = []"
    | "\<not> q_maxsize ?q < queuesize ?q + int (psize p)" "enqueued ?q \<noteq> []"
    by blast
  then show ?thesis
  proof cases
    case 1
    then show ?thesis
      using p inv busy by (simp add: arrive_def ECN_receivePacket_def ecn_inv_def)
  next
    case 2
    then have idle: "busy ps [] [] ?ev"
      using busy by simp
    have "arrive ECN_receivePacket t p (w, ev) = Some (w\<lparr>w_st := enqueue_pkt p ?q\<rparr>, begun (psize p * ps) ?ev)"
      using 2 p inv
      by (simp add: arrive_def ECN_receivePacket_def Let_def enqueue_pkt_def Queue_beginService_def drainTime_def
          exec_begun [OF busy_due [OF idle]])
    moreover have "ecn_inv ps (ins @ [(t, p)]) (w\<lparr>w_st := enqueue_pkt p ?q\<rparr>) (begun (psize p * ps) ?ev)"
      using 2 p inv busy_begun [OF idle, of "[p]"] by (simp add: ecn_inv_def enqueue_pkt_def)
    ultimately show ?thesis
      by blast
  next
    case 3
    then have "busy ps (p # enqueued ?q) [] ?ev"
      using busy by (simp add: busy_def)
    then show ?thesis
      using 3 p inv by (simp add: arrive_def ECN_receivePacket_def Let_def ecn_inv_def enqueue_pkt_def)
  qed
qed

lemma ecn_fire:
  assumes "ecn_inv ps ins w ev" and "pendingsources ev \<noteq> []"
  shows "\<exists>w' ev'. fire ECN_completeService (w, ev) = Some (True, w', ev') \<and> ecn_inv ps ins w' ev'"
proof -
  let ?q = "w_st w"
  note inv = assms(1) [unfolded ecn_inv_def Let_def]
  have "enqueued ?q \<noteq> []"
    using inv assms(2) due_pending [of None ev] by (auto simp: busy_def)
  then obtain rest p where l: "enqueued ?q = rest @ [p]"
    by (metis append_butlast_last_id)
  have "busy ps (rest @ [p]) [] ev" "paced ps []"
    using inv l by (simp_all add: paced_def)
  from busy_fire [OF this, of ECN_completeService w] obtain ev1 t where ev1: "now ev1 = t" "busy ps [] [(t, p)] ev1"
    "fire ECN_completeService (w, ev) = map_option (Pair True) (dev_handle ECN_completeService () (w, ev1))"
    by auto
  have idle: "busy ps [] [] ev1"
    using ev1(2) by (simp add: busy_def)
  define pkt where "pkt = (if ecn_K ?q < queuesize ?q then p\<lparr>pflags := pflags p OR ECN_CE\<rparr> else p)"
  have size: "psize pkt = psize p"
    by (simp add: pkt_def)
  define q1 where "q1 = ?q\<lparr>enqueued := rest, queuesize := queuesize ?q - int (psize p), ecn_state := READY\<rparr>"
  let ?w = "w\<lparr>w_st := q1, w_out := w_out w @ [(t, pkt)]\<rparr>"
  have q1: "ps_per_byte q1 = ps" "ecn_state q1 = READY" "queuesize q1 = bytes rest" "enqueued q1 = rest" "\<forall>p \<in> set rest. 0 < psize p"
    using inv l by (simp_all add: q1_def)
  have eq: "ECN_completeService t ?q = (if rest = [] then Some (q1, [Send pkt])
      else map_option (\<lambda>acts. (q1, Send pkt # acts)) (Queue_beginService q1))"
    using inv l size by (simp add: ECN_completeService_def Let_def q1_def pkt_def)
  show ?thesis
  proof (cases "rest = []")
    case True
    then have "fire ECN_completeService (w, ev) = Some (True, ?w, ev1)"
      using ev1(1,3) eq by (simp add: dev_handle_def)
    then show ?thesis
      using q1 True idle by (simp add: ecn_inv_def)
  next
    case False
    then have "fire ECN_completeService (w, ev) = Some (True, ?w, begun (psize (last rest) * ps) ev1)"
      using ev1(1,3) eq q1 by (simp add: dev_handle_def Queue_beginService_def drainTime_def exec_begun [OF busy_due [OF idle]])
    then show ?thesis
      using q1 busy_begun [OF idle False] by (simp add: ecn_inv_def)
  qed
qed

interpretation marking: device ECN_receivePacket ECN_completeService "ECNQueue r m K" plain_data "ecn_inv (10 ^ 12 * 8 div r)"
  by unfold_locales
    (simp add: ecn_inv_def initially_def ECNQueue_def Queue_def queue.defs busy_def, erule (3) ecn_arrive, erule (1) ecn_fire)

text \<open>As long as no pause frames come, no assertion of the marking queue fails, and it is sending when it has packets.\<close>

theorem marking_queue_safe:
  assumes "dev_reach ECN_receivePacket ECN_completeService (ECNQueue r m K) ins (w, ev)" and "\<forall>x \<in> set ins. plain_data (snd x)"
  shows "fire ECN_completeService (w, ev) \<noteq> None" and "accepts ECN_receivePacket plain_data (w, ev)"
    and "enqueued (w_st w) \<noteq> [] \<longleftrightarrow> length (pendingsources ev) = 1"
proof -
  show "fire ECN_completeService (w, ev) \<noteq> None" "accepts ECN_receivePacket plain_data (w, ev)"
    using marking.reach_safe(1) [OF assms] marking.reach_accepts [OF assms] .
  show "enqueued (w_st w) \<noteq> [] \<longleftrightarrow> length (pendingsources ev) = 1"
    using marking.reach_inv [OF assms] by (auto simp: ecn_inv_def busy_def due_def Let_def split: if_splits)
qed

end
