(* ===== verification/Ndp_Host.thy ===== *)
theory Ndp_Host
  imports Ndp_Pause
begin

text \<open>
  The queue between a host and the network (\<^verbatim>\<open>PriorityQueue\<close> of \<^verbatim>\<open>queue.cpp\<close>), which serves three classes of
  packets.  Without pause frames it loses nothing, keeps the order in every class, and serves the highest class that
  has packets.  With pause frames it has the defect of the marking queue.
\<close>

section \<open>The queue of a host\<close>

datatype queue_priority_t = Q_LO | Q_MID | Q_HI | Q_NONE

record priority_queue =
  pq_ps_per_byte :: nat
  pq_queue :: "queue_priority_t \<Rightarrow> packet list"
  pq_queuesize :: "queue_priority_t \<Rightarrow> int"
  servicing :: queue_priority_t
  pq_state :: pause_state

definition PriorityQueue :: "nat \<Rightarrow> priority_queue" where
  "PriorityQueue bitrate =
     \<lparr>pq_ps_per_byte = (10 ^ 12 * 8) div bitrate, pq_queue = (\<lambda>_. []), pq_queuesize = (\<lambda>_. 0), servicing = Q_NONE,
      pq_state = READY\<rparr>"

definition getPriority :: "packet \<Rightarrow> queue_priority_t option" where
  "getPriority pkt =
     (case ptype pkt of
        TCPACK \<Rightarrow> Some Q_HI | NDPACK \<Rightarrow> Some Q_HI | NDPNACK \<Rightarrow> Some Q_HI | NDPPULL \<Rightarrow> Some Q_HI
      | NDPLITEACK \<Rightarrow> Some Q_HI | NDPLITERTS \<Rightarrow> Some Q_HI | NDPLITEPULL \<Rightarrow> Some Q_HI
      | NDP \<Rightarrow> Some (if is_header pkt then Q_HI else if retransmitted pkt then Q_MID else Q_LO)
      | TCP \<Rightarrow> Some Q_LO | IP \<Rightarrow> Some Q_LO | NDPLITE \<Rightarrow> Some Q_LO
      | TCPNACK \<Rightarrow> None | ETH_PAUSE \<Rightarrow> None)"

definition pq_total :: "priority_queue \<Rightarrow> int" where
  "pq_total q = pq_queuesize q Q_LO + pq_queuesize q Q_MID + pq_queuesize q Q_HI"

definition pq_serviceTime :: "priority_queue \<Rightarrow> packet \<Rightarrow> nat option" where
  "pq_serviceTime q pkt =
     (case getPriority pkt of
        Some Q_LO \<Rightarrow> Some (nat (pq_total q) * pq_ps_per_byte q)
      | Some Q_MID \<Rightarrow> Some (nat (pq_queuesize q Q_HI + pq_queuesize q Q_MID) * pq_ps_per_byte q)
      | Some Q_HI \<Rightarrow> Some (nat (pq_queuesize q Q_HI) * pq_ps_per_byte q)
      | _ \<Rightarrow> None)"

text \<open>The loop over the priorities, from the highest; a class with a size and without packets is an invalid access.\<close>

definition pq_serve :: "queue_priority_t \<Rightarrow> priority_queue \<Rightarrow> (priority_queue \<times> action list) option" where
  "pq_serve prio q =
     (if pq_queue q prio = [] then None
      else Some (q\<lparr>servicing := prio\<rparr>, [Pending (psize (last (pq_queue q prio)) * pq_ps_per_byte q)]))"

definition pq_beginService :: "priority_queue \<Rightarrow> (priority_queue \<times> action list) option" where
  "pq_beginService q =
     (if pq_state q \<noteq> READY then None
      else if 0 < pq_queuesize q Q_HI then pq_serve Q_HI q
      else if 0 < pq_queuesize q Q_MID then pq_serve Q_MID q
      else if 0 < pq_queuesize q Q_LO then pq_serve Q_LO q
      else Some (q, []))"

definition pq_receivePacket :: "nat \<Rightarrow> packet \<Rightarrow> priority_queue \<Rightarrow> (priority_queue \<times> action list) option" where
  "pq_receivePacket tm pkt q =
     (if ptype pkt = ETH_PAUSE
      then
        if 0 < sleepTime pkt
        then Some (q\<lparr>pq_state := if 0 < pq_total q then PAUSE_RECEIVED else PAUSED\<rparr>, [Free pkt])
        else
          let q1 = q\<lparr>pq_state := READY\<rparr>
          in if 0 < pq_total q1 then then_acts [] (pq_beginService q1) [Free pkt] else Some (q1, [Free pkt])
      else
        case getPriority pkt of
          None \<Rightarrow> None
        | Some prio \<Rightarrow>
            let q1 = q\<lparr>pq_queuesize := (pq_queuesize q)(prio := pq_queuesize q prio + int (psize pkt)),
                       pq_queue := (pq_queue q)(prio := pkt # pq_queue q prio)\<rparr>
            in if pq_total q = 0 \<and> pq_state q = READY
               then if length (pq_queue q1 Q_LO) + length (pq_queue q1 Q_MID) + length (pq_queue q1 Q_HI) = 1
                    then pq_beginService q1 else None
               else Some (q1, []))"

definition pq_completeService :: "nat \<Rightarrow> priority_queue \<Rightarrow> (priority_queue \<times> action list) option" where
  "pq_completeService tm q =
     (let s = servicing q
      in if s = Q_NONE \<or> pq_queue q s = [] then None
         else
           let pkt = last (pq_queue q s);
               q1 = q\<lparr>pq_queue := (pq_queue q)(s := butlast (pq_queue q s)),
                      pq_queuesize := (pq_queuesize q)(s := pq_queuesize q s - int (psize pkt)),
                      pq_state := if pq_state q = PAUSE_RECEIVED then PAUSED else pq_state q\<rparr>
           in if 0 < pq_total q1
              then if pq_state q1 = READY then then_acts [Send pkt] (pq_beginService q1) [] else Some (q1, [Send pkt])
              else Some (q1\<lparr>servicing := Q_NONE\<rparr>, [Send pkt]))"


subsection \<open>Without pause frames\<close>

definition has_priority :: "packet \<Rightarrow> bool" where
  "has_priority p \<longleftrightarrow> getPriority p \<noteq> None \<and> 0 < psize p"

definition of_class :: "queue_priority_t \<Rightarrow> packet list \<Rightarrow> packet list" where
  "of_class c = filter (\<lambda>p. getPriority p = Some c)"

text \<open>The packets that are being served: those of the class in service.\<close>

definition serving :: "priority_queue \<Rightarrow> packet list" where
  "serving q = (if servicing q = Q_NONE then [] else pq_queue q (servicing q))"

lemma serving_nonempty: "serving q \<noteq> [] \<Longrightarrow> \<exists>c. pq_queue q c \<noteq> []"
  by (auto simp: serving_def split: if_splits)

definition pq_shape :: "nat \<Rightarrow> priority_queue \<Rightarrow> bool" where
  "pq_shape ps q \<longleftrightarrow>
     pq_ps_per_byte q = ps \<and> pq_state q = READY \<and> pq_queue q Q_NONE = [] \<and>
     (\<forall>c. pq_queuesize q c = bytes (pq_queue q c)) \<and> (\<forall>c. \<forall>p \<in> set (pq_queue q c). 0 < psize p)"

definition pq_inv :: "nat \<Rightarrow> (nat \<times> packet) list \<Rightarrow> priority_queue world \<Rightarrow> unit event_list \<Rightarrow> bool" where
  "pq_inv ps ins w ev \<longleftrightarrow>
     pq_shape ps (w_st w) \<and> w_freed w = [] \<and>
     (\<forall>c. of_class c (map snd (w_out w)) @ rev (pq_queue (w_st w) c) = of_class c (map snd ins)) \<and>
     (serving (w_st w) = [] \<longrightarrow> servicing (w_st w) = Q_NONE \<and> (\<forall>c. pq_queue (w_st w) c = [])) \<and>
     paced ps (w_out w) \<and> busy ps (serving (w_st w)) (w_out w) ev"

lemma bytes_pos: "\<forall>p \<in> set ps. 0 < psize p \<Longrightarrow> 0 < bytes ps \<longleftrightarrow> ps \<noteq> []"
proof (cases ps)
  case (Cons p qs)
  then show "\<forall>p \<in> set ps. 0 < psize p \<Longrightarrow> 0 < bytes ps \<longleftrightarrow> ps \<noteq> []"
    using bytes_nonneg [of qs] by simp
qed simp

lemma all_classes: "(\<forall>c. P c) \<longleftrightarrow> P Q_LO \<and> P Q_MID \<and> P Q_HI \<and> P Q_NONE"
  by (metis queue_priority_t.exhaust)

lemma pq_total_pos:
  assumes "pq_shape ps q"
  shows "0 < pq_total q \<longleftrightarrow> (\<exists>c. pq_queue q c \<noteq> [])" and "pq_total q = 0 \<longleftrightarrow> (\<forall>c. pq_queue q c = [])"
proof -
  have s: "pq_total q = bytes (pq_queue q Q_LO) + bytes (pq_queue q Q_MID) + bytes (pq_queue q Q_HI)"
    "pq_queue q Q_NONE = []" "\<And>c. 0 < bytes (pq_queue q c) \<longleftrightarrow> pq_queue q c \<noteq> []" "\<And>c. 0 \<le> bytes (pq_queue q c)"
    using assms bytes_pos bytes_nonneg by (auto simp: pq_shape_def pq_total_def)
  have "0 < pq_total q \<longleftrightarrow> 0 < bytes (pq_queue q Q_LO) \<or> 0 < bytes (pq_queue q Q_MID) \<or> 0 < bytes (pq_queue q Q_HI)"
    unfolding s(1) using s(4) [of Q_LO] s(4) [of Q_MID] s(4) [of Q_HI] by linarith
  also have "\<dots> \<longleftrightarrow> \<not> (\<forall>c. pq_queue q c = [])"
    unfolding s(3) by (simp add: all_classes s(2))
  finally show pos: "0 < pq_total q \<longleftrightarrow> (\<exists>c. pq_queue q c \<noteq> [])"
    by simp
  have "0 \<le> pq_total q"
    unfolding s(1) using s(4) [of Q_LO] s(4) [of Q_MID] s(4) [of Q_HI] by linarith
  then show "pq_total q = 0 \<longleftrightarrow> (\<forall>c. pq_queue q c = [])"
    using pos by (metis less_irrefl order_le_less)
qed

text \<open>The service goes to the highest class that has packets.\<close>

fun prio_rank :: "queue_priority_t \<Rightarrow> nat" where
  "prio_rank Q_LO = 0" | "prio_rank Q_MID = 1" | "prio_rank Q_HI = 2" | "prio_rank Q_NONE = 3"

lemma pq_begin:
  assumes "pq_shape ps q" and "pq_queue q c0 \<noteq> []"
  shows "\<exists>c. pq_beginService q = Some (q\<lparr>servicing := c\<rparr>, [Pending (psize (last (pq_queue q c)) * ps)]) \<and>
    pq_queue q c \<noteq> [] \<and> c \<noteq> Q_NONE \<and> (\<forall>d. prio_rank c < prio_rank d \<longrightarrow> pq_queue q d = [])"
proof -
  have s: "pq_state q = READY" "pq_ps_per_byte q = ps" "pq_queue q Q_NONE = []"
    "\<And>c. 0 < pq_queuesize q c \<longleftrightarrow> pq_queue q c \<noteq> []"
    using assms(1) bytes_pos by (auto simp: pq_shape_def)
  have "pq_queue q Q_HI \<noteq> [] \<or> pq_queue q Q_MID \<noteq> [] \<or> pq_queue q Q_LO \<noteq> []"
    using assms(2) s(3) by (cases c0) auto
  then show ?thesis
    using s by (auto simp: pq_beginService_def pq_serve_def all_classes)
qed

lemma of_class_snoc: "of_class c (ps @ [p]) = of_class c ps @ (if getPriority p = Some c then [p] else [])"
  by (simp add: of_class_def)

lemma pq_arrive:
  assumes "pq_inv ps ins w ev" and "now ev \<le> t" and "\<forall>x \<in> set (pendingsources ev). t \<le> fst x" and "has_priority p"
  shows "\<exists>w' ev'. arrive pq_receivePacket t p (w, ev) = Some (w', ev') \<and> pq_inv ps (ins @ [(t, p)]) w' ev'"
proof -
  let ?q = "w_st w" and ?ev = "ev\<lparr>lasteventtime := t\<rparr>"
  note inv = assms(1) [unfolded pq_inv_def]
  obtain c where c: "getPriority p = Some c" "c \<noteq> Q_NONE" "ptype p \<noteq> ETH_PAUSE" "0 < psize p"
    using assms(4) by (auto simp: has_priority_def getPriority_def split: packet_type.splits if_splits)
  let ?q1 = "?q\<lparr>pq_queuesize := (pq_queuesize ?q)(c := pq_queuesize ?q c + int (psize p)),
      pq_queue := (pq_queue ?q)(c := p # pq_queue ?q c)\<rparr>"
  have shape: "pq_shape ps ?q1" "pq_shape ps ?q" and ready: "pq_state ?q = READY"
    using inv c by (auto simp: pq_shape_def)
  have fifo: "\<forall>d. of_class d (map snd (w_out w)) @ rev (pq_queue ?q1 d) = of_class d (map snd (ins @ [(t, p)]))"
    using inv c(1) by (simp add: of_class_snoc)
  have busy: "busy ps (serving ?q) (w_out w) ?ev"
    using inv busy_arrive [OF _ assms(2,3)] by blast
  note recv = arrive_def pq_receivePacket_def c Let_def ready
  show ?thesis
  proof (cases "serving ?q = []")
    case True
    then have empty: "\<forall>d. pq_queue ?q d = []" "pq_total ?q = 0"
      using inv pq_total_pos(2) [OF shape(2)] by auto
    then have "length (pq_queue ?q1 Q_LO) + length (pq_queue ?q1 Q_MID) + length (pq_queue ?q1 Q_HI) = 1"
      using c(2) by (cases c) simp_all
    moreover obtain d where d: "pq_beginService ?q1 = Some (?q1\<lparr>servicing := d\<rparr>, [Pending (psize (last (pq_queue ?q1 d)) * ps)])"
      "pq_queue ?q1 d \<noteq> []" "d \<noteq> Q_NONE"
      using pq_begin [OF shape(1), of c] by auto
    moreover have "d = c"
      using d(2) empty(1) by (auto split: if_splits)
    ultimately have "arrive pq_receivePacket t p (w, ev) = exec [Pending (psize p * ps)] (w\<lparr>w_st := ?q1\<lparr>servicing := c\<rparr>\<rparr>, ?ev)"
      using empty by (simp add: recv)
    moreover have "busy ps [] (w_out w) ?ev"
      using busy True by simp
    ultimately have "arrive pq_receivePacket t p (w, ev) = Some (w\<lparr>w_st := ?q1\<lparr>servicing := c\<rparr>\<rparr>, begun (psize p * ps) ?ev)"
      "busy ps [p] (w_out w) (begun (psize p * ps) ?ev)"
      using busy_begun [of ps "w_out w" ?ev "[p]"] by (simp_all add: exec_begun [OF busy_due])
    moreover have "pq_inv ps (ins @ [(t, p)]) (w\<lparr>w_st := ?q1\<lparr>servicing := c\<rparr>\<rparr>) (begun (psize p * ps) ?ev)"
      using calculation(2) inv shape(1) fifo empty(1) c(2) unfolding pq_inv_def pq_shape_def serving_def by simp
    ultimately show ?thesis
      by blast
  next
    case False
    then have s: "servicing ?q \<noteq> Q_NONE" "pq_queue ?q (servicing ?q) \<noteq> []"
      by (auto simp: serving_def split: if_splits)
    then have "pq_total ?q \<noteq> 0"
      using pq_total_pos(2) [OF shape(2)] by blast
    then have "arrive pq_receivePacket t p (w, ev) = Some (w\<lparr>w_st := ?q1\<rparr>, ?ev)"
      by (simp add: recv)
    moreover have "serving ?q1 \<noteq> []" "last (serving ?q1) = last (serving ?q)"
      using s by (auto simp: serving_def)
    then have "pq_inv ps (ins @ [(t, p)]) (w\<lparr>w_st := ?q1\<rparr>) ?ev"
      using inv shape(1) fifo busy False unfolding pq_inv_def busy_def by simp
    ultimately show ?thesis
      by blast
  qed
qed

lemma pq_fire:
  assumes "pq_inv ps ins w ev" and "pendingsources ev \<noteq> []"
  shows "\<exists>w' ev'. fire pq_completeService (w, ev) = Some (True, w', ev') \<and> pq_inv ps ins w' ev'"
proof -
  let ?q = "w_st w" and ?s = "servicing (w_st w)"
  note inv = assms(1) [unfolded pq_inv_def]
  have "serving ?q \<noteq> []"
    using inv assms(2) due_pending [of None ev] by (auto simp: busy_def)
  then obtain rest p where l: "serving ?q = rest @ [p]"
    by (metis append_butlast_last_id)
  then have s: "?s \<noteq> Q_NONE" "pq_queue ?q ?s = rest @ [p]"
    by (auto simp: serving_def split: if_splits)
  have b: "busy ps (rest @ [p]) (w_out w) ev" "paced ps (w_out w)"
    using inv l by simp_all
  obtain ev1 t where ev1: "now ev1 = t" "paced ps (w_out w @ [(t, p)])" "busy ps [] (w_out w @ [(t, p)]) ev1"
    "fire pq_completeService (w, ev) = map_option (Pair True) (dev_handle pq_completeService () (w, ev1))"
    using busy_fire [OF b] by blast
  define q1 where "q1 = ?q\<lparr>pq_queue := (pq_queue ?q)(?s := rest),
      pq_queuesize := (pq_queuesize ?q)(?s := pq_queuesize ?q ?s - int (psize p)), pq_state := READY\<rparr>"
  let ?w = "w\<lparr>w_out := w_out w @ [(t, p)]\<rparr>"
  have p: "getPriority p = Some ?s"
  proof -
    have "of_class ?s (map snd (w_out w)) @ rev (pq_queue ?q ?s) = of_class ?s (map snd ins)"
      using inv by blast
    from this [symmetric] have "p \<in> set (of_class ?s (map snd ins))"
      using s(2) by simp
    then show ?thesis
      by (simp add: of_class_def)
  qed
  have "\<forall>x \<in> set (pq_queue ?q ?s). 0 < psize x"
    using inv unfolding pq_shape_def by blast
  then have "\<forall>x \<in> set rest. 0 < psize x"
    using s by simp
  then have shape: "pq_shape ps q1" and ready: "pq_state ?q = READY"
    using inv s by (auto simp: pq_shape_def q1_def)
  have fifo: "\<forall>d. of_class d (map snd (w_out w @ [(t, p)])) @ rev (pq_queue q1 d) = of_class d (map snd ins)"
  proof
    fix d
    have "of_class d (map snd (w_out w)) @ rev (pq_queue ?q d) = of_class d (map snd ins)"
      using inv by blast
    then show "of_class d (map snd (w_out w @ [(t, p)])) @ rev (pq_queue q1 d) = of_class d (map snd ins)"
      using s p by (cases "d = ?s") (simp_all add: of_class_snoc q1_def)
  qed
  have "pq_completeService t ?q = (if 0 < pq_total q1 then then_acts [Send p] (pq_beginService q1) []
      else Some (q1\<lparr>servicing := Q_NONE\<rparr>, [Send p]))"
    using s ready by (simp add: pq_completeService_def Let_def q1_def)
  note serve = dev_handle_def this ev1(1,4)
  have freed: "w_freed w = []"
    using inv by blast
  show ?thesis
  proof (cases "\<exists>c. pq_queue q1 c \<noteq> []")
    case True
    then obtain d where d: "pq_beginService q1 = Some (q1\<lparr>servicing := d\<rparr>, [Pending (psize (last (pq_queue q1 d)) * ps)])"
      "pq_queue q1 d \<noteq> []" "d \<noteq> Q_NONE"
      using pq_begin [OF shape] by blast
    let ?ev2 = "begun (psize (last (pq_queue q1 d)) * ps) ev1"
    have "0 < pq_total q1"
      using pq_total_pos(1) [OF shape] True by blast
    then have "fire pq_completeService (w, ev) = Some (True, ?w\<lparr>w_st := q1\<lparr>servicing := d\<rparr>\<rparr>, ?ev2)"
      using d(1) by (simp add: serve then_acts_def exec_begun [OF busy_due [OF ev1(3)]])
    moreover have "pq_inv ps ins (?w\<lparr>w_st := q1\<lparr>servicing := d\<rparr>\<rparr>) ?ev2"
      using freed shape fifo ev1(2) busy_begun [OF ev1(3) d(2)] d(2,3) unfolding pq_inv_def pq_shape_def serving_def by simp
    ultimately show ?thesis
      by blast
  next
    case False
    then have "\<not> 0 < pq_total q1"
      using pq_total_pos(1) [OF shape] by blast
    then have "fire pq_completeService (w, ev) = Some (True, ?w\<lparr>w_st := q1\<lparr>servicing := Q_NONE\<rparr>\<rparr>, ev1)"
      by (simp add: serve)
    moreover have "pq_inv ps ins (?w\<lparr>w_st := q1\<lparr>servicing := Q_NONE\<rparr>\<rparr>) ev1"
      using freed shape fifo ev1(2,3) False unfolding pq_inv_def pq_shape_def serving_def by simp
    ultimately show ?thesis
      by blast
  qed
qed

interpretation host_queue: device pq_receivePacket pq_completeService "PriorityQueue r" has_priority "pq_inv (10 ^ 12 * 8 div r)"
  by unfold_locales
    (simp add: pq_inv_def pq_shape_def serving_def initially_def PriorityQueue_def of_class_def busy_def paced_def,
     erule (3) pq_arrive, erule (1) pq_fire)

text \<open>
  Claim C36.  Without pause frames, and for packets of positive size of the types that have a priority, the queue of a host loses
  no packet and keeps the order in every class of packets, respects the speed of its link, and when it has packets it has one
  event that ends the service of one of them.  No assertion fails, neither when the event is handled nor when another such packet
  arrives at any time before it.
\<close>

theorem host_queue_correct:
  assumes "dev_reach pq_receivePacket pq_completeService (PriorityQueue r) ins (w, ev)" and "\<forall>x \<in> set ins. has_priority (snd x)"
  shows "(\<forall>c. of_class c (map snd (w_out w)) @ rev (pq_queue (w_st w) c) = of_class c (map snd ins)) \<and>
    paced (10 ^ 12 * 8 div r) (w_out w) \<and> fire pq_completeService (w, ev) \<noteq> None \<and>
    accepts pq_receivePacket has_priority (w, ev) \<and>
    ((\<exists>c. pq_queue (w_st w) c \<noteq> []) \<longleftrightarrow> length (pendingsources ev) = 1)"
proof -
  have inv: "pq_inv (10 ^ 12 * 8 div r) ins w ev"
    using host_queue.reach_inv [OF assms] by simp
  have a: "serving (w_st w) = [] \<longrightarrow> (\<forall>c. pq_queue (w_st w) c = [])" and b: "busy (10 ^ 12 * 8 div r) (serving (w_st w)) (w_out w) ev"
    and f: "\<forall>c. of_class c (map snd (w_out w)) @ rev (pq_queue (w_st w) c) = of_class c (map snd ins)"
    "paced (10 ^ 12 * 8 div r) (w_out w)"
    using inv unfolding pq_inv_def by blast+
  have "(\<exists>c. pq_queue (w_st w) c \<noteq> []) \<longleftrightarrow> serving (w_st w) \<noteq> []"
    using a serving_nonempty by blast
  also have "\<dots> \<longleftrightarrow> length (pendingsources ev) = 1"
    using b by (auto simp: busy_def due_def split: if_splits)
  finally show ?thesis
    using f host_queue.reach_safe(1) [OF assms] host_queue.reach_accepts [OF assms] by blast
qed

subsection \<open>With pause frames\<close>

definition pause_frame :: "nat \<Rightarrow> packet" where
  "pause_frame n = blank\<lparr>ptype := ETH_PAUSE, sleepTime := n\<rparr>"

text \<open>
  A packet is being sent when a stop frame and then a go frame arrive: two events are pending, the first sends the packet,
  possibly marked, and the second fails.
\<close>

definition service_ends_twice ::
  "(nat \<Rightarrow> packet \<Rightarrow> 's \<Rightarrow> ('s \<times> action list) option) \<Rightarrow> (nat \<Rightarrow> 's \<Rightarrow> ('s \<times> action list) option) \<Rightarrow>
     packet \<Rightarrow> nat \<Rightarrow> nat \<Rightarrow> nat \<Rightarrow> 's world \<times> unit event_list \<Rightarrow> bool" where
  "service_ends_twice recv serve p n t1 t2 d \<longleftrightarrow>
     (\<exists>w1 ev1 w2 ev2 p'.
        Option.bind (arrive recv t1 (pause_frame n) d) (arrive recv t2 (pause_frame 0)) = Some (w1, ev1) \<and>
        length (pendingsources ev1) = 2 \<and> fire serve (w1, ev1) = Some (True, w2, ev2) \<and>
        w_out w2 = w_out (fst d) @ [(now ev2, p')] \<and> p' \<in> {p, p\<lparr>pflags := pflags p OR ECN_CE\<rparr>} \<and>
        fire serve (w2, ev2) = None)"

lemma service_twice:
  assumes "due (Some T) ev" and "t2 \<le> T" and "T \<le> t2 + k"
    and "recv t1 (pause_frame n) (w_st w) = Some (q1, [Free f1])"
    and "recv t2 (pause_frame 0) q1 = Some (q2, [Pending k, Free f2])"
    and "serve T q2 = Some (q3, [Send p'])" and "serve (t2 + k) q3 = None"
    and "p' \<in> {p, p\<lparr>pflags := pflags p OR ECN_CE\<rparr>}"
  shows "service_ends_twice recv serve p n t1 t2 (w, ev)"
proof -
  let ?w = "w\<lparr>w_st := q2, w_freed := w_freed w @ [f1, f2]\<rparr>"
  let ?ev = "ev\<lparr>lasteventtime := t2, pendingsources := [(T, ()), (t2 + k, ())]\<rparr>"
  let ?w2 = "?w\<lparr>w_st := q3, w_out := w_out w @ [(T, p')]\<rparr>"
  let ?ev2 = "ev\<lparr>lasteventtime := T, pendingsources := [(t2 + k, ())]\<rparr>"
  have "Option.bind (arrive recv t1 (pause_frame n) (w, ev)) (arrive recv t2 (pause_frame 0)) = Some (?w, ?ev)"
    using assms by (simp add: arrive_def exec.simps sourceIsPendingRel_def sourceIsPending_def due_def now_def)
  moreover have "fire serve (?w, ?ev) = Some (True, ?w2, ?ev2)"
    using assms by (simp add: fire_def doNextEvent_def dev_handle_def now_def)
  moreover have "fire serve (?w2, ?ev2) = None"
    using assms by (simp add: fire_def doNextEvent_def dev_handle_def now_def)
  ultimately show ?thesis
    using assms(8) unfolding service_ends_twice_def
    by (intro exI [of _ ?w] exI [of _ ?ev] exI [of _ ?w2] exI [of _ ?ev2] exI [of _ p']) (simp add: now_def)
qed

lemmas run_simps =
  dev_simps pause_frame_def

lemmas pq_simps =
  run_simps PriorityQueue_def pq_receivePacket_def pq_completeService_def pq_beginService_def pq_serve_def pq_total_def
  getPriority_def then_acts_def

theorem host_queue_correct_witness:
  "\<exists>w ev. dev_reach pq_receivePacket pq_completeService (PriorityQueue 8000000000) [(0, blank)] (w, ev) \<and>
     fire pq_completeService (w, ev) \<noteq> None"
proof -
  let ?run = "run_dev pq_receivePacket pq_completeService [Arrive 0 blank] (initially (PriorityQueue 8000000000), EventList)"
  have "\<exists>w ev. ?run = Some (w, ev)"
    by (simp add: pq_simps)
  then obtain w ev where "?run = Some (w, ev)"
    by blast
  from run_dev_start [OF this] have r: "dev_reach pq_receivePacket pq_completeService (PriorityQueue 8000000000) [(0, blank)] (w, ev)"
    by simp
  have "\<forall>x \<in> set [(0 :: nat, blank)]. has_priority (snd x)"
    by (simp add: has_priority_def getPriority_def blank_def)
  then have "fire pq_completeService (w, ev) \<noteq> None"
    using host_queue_correct [OF r] by blast
  then show ?thesis
    using r by blast
qed

lemma pq_twice:
  assumes "pq_inv ps ins w ev" and "0 < n" and "t1 \<le> t2" and "now ev \<le> t1" and "\<forall>x \<in> set (pendingsources ev). t2 \<le> fst x"
    and "pq_queue (w_st w) = (\<lambda>_. [])(c := [p])"
  shows "service_ends_twice pq_receivePacket pq_completeService p n t1 t2 (w, ev)"
proof -
  let ?q = "w_st w"
  note inv = assms(1) [unfolded pq_inv_def]
  have p: "pq_queue ?q c = [p]" "pq_queue ?q Q_NONE = []"
    using inv assms(6) unfolding pq_shape_def by force+
  then have "serving ?q \<noteq> []"
    using inv by (metis list.distinct(1))
  with p have c: "servicing ?q = c" "c \<noteq> Q_NONE"
    using assms(6) by (auto simp: serving_def split: if_splits)
  have shape: "pq_shape ps ?q"
    using inv by blast
  then have q: "pq_ps_per_byte ?q = ps" "pq_state ?q = READY" "pq_queuesize ?q d = (if d = c then int (psize p) else 0)" "0 < psize p" for d
    using assms(6) by (auto simp: pq_shape_def)
  have total: "pq_total ?q = int (psize p)"
    using c(2) by (cases c) (simp_all add: pq_total_def q(3))
  have "busy ps [p] (w_out w) ev"
    using inv c assms(6) by (simp add: serving_def)
  then obtain b where b: "due (Some (b + psize p * ps)) ev" "b \<le> now ev"
    by (auto simp: busy_def)
  let ?q1 = "?q\<lparr>pq_state := PAUSE_RECEIVED\<rparr>" and ?q2 = "?q\<lparr>pq_state := READY, servicing := c\<rparr>"
  let ?q3 = "?q\<lparr>pq_state := READY, servicing := Q_NONE, pq_queue := \<lambda>_. [], pq_queuesize := \<lambda>_. 0\<rparr>"
  have serve: "pq_beginService (?q\<lparr>pq_state := READY\<rparr>) = Some (?q2, [Pending (psize p * ps)])"
    using c(2) q assms(6) by (cases c) (simp_all add: pq_beginService_def pq_serve_def)
  show ?thesis
  proof (rule service_twice [OF b(1)])
    show "t2 \<le> b + psize p * ps" "b + psize p * ps \<le> t2 + psize p * ps"
      using b assms(3,4,5) by (auto simp: due_def)
    show "pq_receivePacket t1 (pause_frame n) ?q = Some (?q1, [Free (pause_frame n)])"
      using assms(2) total q(4) by (simp add: pq_receivePacket_def pause_frame_def)
    show "pq_receivePacket t2 (pause_frame 0) ?q1 = Some (?q2, [Pending (psize p * ps), Free (pause_frame 0)])"
      using serve total q(4) by (simp add: pq_receivePacket_def pause_frame_def Let_def then_acts_def pq_total_def)
    show "pq_completeService (b + psize p * ps) ?q2 = Some (?q3, [Send p])"
      using c q assms(6) by (cases c) (simp_all add: pq_completeService_def Let_def pq_total_def fun_eq_iff)
    show "pq_completeService (t2 + psize p * ps) ?q3 = None"
      by (simp add: pq_completeService_def Let_def)
  qed simp
qed

lemma ecn_twice:
  assumes "ecn_inv ps ins w ev" and "0 < n" and "t1 \<le> t2" and "now ev \<le> t1" and "\<forall>x \<in> set (pendingsources ev). t2 \<le> fst x"
    and "enqueued (w_st w) = [p]"
  shows "service_ends_twice ECN_receivePacket ECN_completeService p n t1 t2 (w, ev)"
proof -
  let ?q = "w_st w"
  note inv = assms(1) [unfolded ecn_inv_def Let_def]
  have q: "ps_per_byte ?q = ps" "ecn_state ?q = READY" "queuesize ?q = int (psize p)" "0 < psize p" "busy ps [p] [] ev"
    using inv assms(6) by simp_all
  then obtain b where b: "due (Some (b + psize p * ps)) ev" "b \<le> now ev"
    by (auto simp: busy_def)
  define p' where "p' = (if ecn_K ?q < queuesize ?q then p\<lparr>pflags := pflags p OR ECN_CE\<rparr> else p)"
  let ?q1 = "?q\<lparr>ecn_state := PAUSE_RECEIVED\<rparr>" and ?q2 = "?q\<lparr>ecn_state := READY\<rparr>"
  let ?q3 = "?q\<lparr>ecn_state := READY, enqueued := [], queuesize := 0\<rparr>"
  show ?thesis
  proof (rule service_twice [OF b(1)])
    show "t2 \<le> b + psize p * ps" "b + psize p * ps \<le> t2 + psize p * ps"
      using b assms(3,4,5) by (auto simp: due_def)
    show "ECN_receivePacket t1 (pause_frame n) ?q = Some (?q1, [Free (pause_frame n)])"
      using assms(2) q(3,4) by (simp add: ECN_receivePacket_def pause_frame_def)
    show "ECN_receivePacket t2 (pause_frame 0) ?q1 = Some (?q2, [Pending (psize p * ps), Free (pause_frame 0)])"
      using q assms(6) by (simp add: ECN_receivePacket_def pause_frame_def Let_def Queue_beginService_def drainTime_def)
    show "ECN_completeService (b + psize p * ps) ?q2 = Some (?q3, [Send p'])"
      using q assms(6) by (simp add: ECN_completeService_def Let_def p'_def)
    show "ECN_completeService (t2 + psize p * ps) ?q3 = None"
      by (simp add: ECN_completeService_def)
    show "p' \<in> {p, p\<lparr>pflags := pflags p OR ECN_CE\<rparr>}"
      by (simp add: p'_def)
  qed
qed

text \<open>
  Claim C40.  Let a queue of a host, or a queue that marks packets, be sending its only packet, in any state that it reaches without
  pause frames.  When a stop frame and then a go frame arrive before the end of the service, both are accepted, and the go frame
  starts the service of the same packet again: two events are pending, the first sends the packet, and the second finds the
  queue empty and fails an assertion.
\<close>

theorem release_while_sending_fails:
  assumes "0 < n" and "now ev \<le> t1" and "t1 \<le> t2" and "\<forall>x \<in> set (pendingsources ev). t2 \<le> fst x"
  shows "(dev_reach pq_receivePacket pq_completeService (PriorityQueue r) ins (w, ev) \<and>
      (\<forall>x \<in> set ins. has_priority (snd x)) \<and> pq_queue (w_st w) = (\<lambda>_. [])(c := [p]) \<longrightarrow>
      service_ends_twice pq_receivePacket pq_completeService p n t1 t2 (w, ev)) \<and>
    (dev_reach ECN_receivePacket ECN_completeService (ECNQueue r m K) ins (v, ev) \<and>
      (\<forall>x \<in> set ins. plain_data (snd x)) \<and> enqueued (w_st v) = [p] \<longrightarrow>
      service_ends_twice ECN_receivePacket ECN_completeService p n t1 t2 (v, ev))"
proof (intro conjI impI; elim conjE)
  assume "dev_reach pq_receivePacket pq_completeService (PriorityQueue r) ins (w, ev)" "\<forall>x \<in> set ins. has_priority (snd x)"
    and q: "pq_queue (w_st w) = (\<lambda>_. [])(c := [p])"
  from host_queue.reach_inv [OF this(1,2)] show "service_ends_twice pq_receivePacket pq_completeService p n t1 t2 (w, ev)"
    by (simp add: pq_twice [OF _ assms(1,3,2,4) q])
next
  assume "dev_reach ECN_receivePacket ECN_completeService (ECNQueue r m K) ins (v, ev)" "\<forall>x \<in> set ins. plain_data (snd x)"
    and q: "enqueued (w_st v) = [p]"
  from marking.reach_inv [OF this(1,2)] show "service_ends_twice ECN_receivePacket ECN_completeService p n t1 t2 (v, ev)"
    by (simp add: ecn_twice [OF _ assms(1,3,2,4) q])
qed

theorem release_while_sending_fails_witness:
  "\<exists>w v ev. dev_reach pq_receivePacket pq_completeService (PriorityQueue 8000000000) [(0, blank)] (w, ev) \<and>
     service_ends_twice pq_receivePacket pq_completeService blank 1000 1 2 (w, ev) \<and>
     dev_reach ECN_receivePacket ECN_completeService (ECNQueue 8000000000 9000 0) [(0, blank)] (v, ev) \<and>
     service_ends_twice ECN_receivePacket ECN_completeService blank 1000 1 2 (v, ev)"
proof -
  let ?ev = "\<lparr>endtime = 0, lasteventtime = 0, pendingsources = [(64000, ())]\<rparr> :: unit event_list"
  have "\<exists>w. run_dev pq_receivePacket pq_completeService [Arrive 0 blank] (initially (PriorityQueue 8000000000), EventList) =
      Some (w, ?ev) \<and> pq_queue (w_st w) = (\<lambda>_. [])(Q_LO := [blank])"
    by (simp add: pq_simps)
  then obtain w where w: "dev_reach pq_receivePacket pq_completeService (PriorityQueue 8000000000) [(0, blank)] (w, ?ev)"
    "pq_queue (w_st w) = (\<lambda>_. [])(Q_LO := [blank])"
    using run_dev_start [of pq_receivePacket pq_completeService "[Arrive 0 blank]"] by fastforce
  have "\<exists>v. run_dev ECN_receivePacket ECN_completeService [Arrive 0 blank] (initially (ECNQueue 8000000000 9000 0), EventList) =
      Some (v, ?ev) \<and> enqueued (w_st v) = [blank]"
    by (simp add: run_simps ECNQueue_def Queue_def queue.defs ECN_receivePacket_def Queue_beginService_def enqueue_pkt_def drainTime_def)
  then obtain v where v: "dev_reach ECN_receivePacket ECN_completeService (ECNQueue 8000000000 9000 0) [(0, blank)] (v, ?ev)"
    "enqueued (w_st v) = [blank]"
    using run_dev_start [of ECN_receivePacket ECN_completeService "[Arrive 0 blank]"] by fastforce
  have "\<forall>x \<in> set [(0 :: nat, blank)]. has_priority (snd x)" "\<forall>x \<in> set [(0 :: nat, blank)]. plain_data (snd x)"
    by (simp_all add: has_priority_def getPriority_def plain_data_def is_data_def blank_def)
  then show ?thesis
    using w v release_while_sending_fails [of 1000 ?ev 1 2 8000000000 "[(0, blank)]" w Q_LO blank 9000 0 v]
    by (intro exI [of _ w] exI [of _ v] exI [of _ ?ev]) (simp add: now_def)
qed

end
