(* ===== verification/Ndp_Composite.thy ===== *)
theory Ndp_Composite
  imports Ndp_Host
begin

text \<open>
  The queue of an NDP switch (\<^verbatim>\<open>compositequeue.cpp\<close>): data packets in one list, headers and control packets in
  another, which is served ten times as often.  When there is no room for a data packet, it or the newest one in
  the queue loses its payload and becomes a header; a header for which there is no room is returned to its sender.
  The random choice (\<^verbatim>\<open>drand() < 0.5\<close>) is part of the input.  Below it is the simpler queue of \<^verbatim>\<open>cpqueue.cpp\<close>.
\<close>

section \<open>The queue\<close>

datatype service = QUEUE_INVALID | QUEUE_LOW | QUEUE_HIGH

record composite_queue =
  cq_maxsize :: int
  cq_ps_per_byte :: nat
  queuesize_low :: int
  queuesize_high :: int
  num_packets :: nat
  num_headers :: nat
  num_acks :: nat
  num_nacks :: nat
  num_pulls :: nat
  num_stripped :: nat
  num_bounced :: nat
  cq_num_drops :: nat
  serv :: service
  ratio_high :: nat
  ratio_low :: nat
  crt :: nat
  enqueued_low :: "packet list"
  enqueued_high :: "packet list"

definition CompositeQueue :: "nat \<Rightarrow> int \<Rightarrow> composite_queue" where
  "CompositeQueue bitrate maxsize =
     \<lparr>cq_maxsize = maxsize, cq_ps_per_byte = (10 ^ 12 * 8) div bitrate, queuesize_low = 0, queuesize_high = 0,
      num_packets = 0, num_headers = 0, num_acks = 0, num_nacks = 0, num_pulls = 0, num_stripped = 0, num_bounced = 0,
      cq_num_drops = 0, serv = QUEUE_INVALID, ratio_high = 10, ratio_low = 1, crt = 0, enqueued_low = [],
      enqueued_high = []\<rparr>"

definition serve_low :: "composite_queue \<Rightarrow> composite_queue \<times> action list" where
  "serve_low q = (q\<lparr>serv := QUEUE_LOW\<rparr>, [Pending (psize (last (enqueued_low q)) * cq_ps_per_byte q)])"

definition serve_high :: "composite_queue \<Rightarrow> composite_queue \<times> action list" where
  "serve_high q = (q\<lparr>serv := QUEUE_HIGH\<rparr>, [Pending (psize (last (enqueued_high q)) * cq_ps_per_byte q)])"

definition cq_beginService :: "composite_queue \<Rightarrow> (composite_queue \<times> action list) option" where
  "cq_beginService q =
     (if enqueued_high q \<noteq> [] \<and> enqueued_low q \<noteq> []
      then
        let c = (if ratio_high q + ratio_low q \<le> crt q + 1 then 0 else crt q + 1);
            q1 = q\<lparr>crt := c\<rparr>
        in if c < ratio_high q then Some (serve_high q1)
           else if c < ratio_high q + ratio_low q then Some (serve_low q1) else None
      else if enqueued_high q \<noteq> [] then Some (serve_high q)
      else if enqueued_low q \<noteq> [] then Some (serve_low q)
      else None)"

text \<open>The packet that leaves, and the counters of the kinds of packets.\<close>

definition count_high :: "packet \<Rightarrow> composite_queue \<Rightarrow> composite_queue" where
  "count_high pkt q =
     (case ptype pkt of
        NDPACK \<Rightarrow> q\<lparr>num_acks := num_acks q + 1\<rparr>
      | NDPNACK \<Rightarrow> q\<lparr>num_nacks := num_nacks q + 1\<rparr>
      | NDPPULL \<Rightarrow> q\<lparr>num_pulls := num_pulls q + 1\<rparr>
      | _ \<Rightarrow> q\<lparr>num_headers := num_headers q + 1\<rparr>)"

definition take_served :: "composite_queue \<Rightarrow> (packet \<times> composite_queue) option" where
  "take_served q =
     (case serv q of
        QUEUE_LOW \<Rightarrow>
          if enqueued_low q = [] then None
          else
            let pkt = last (enqueued_low q)
            in Some (pkt, q\<lparr>enqueued_low := butlast (enqueued_low q), queuesize_low := queuesize_low q - int (psize pkt),
                            num_packets := num_packets q + 1\<rparr>)
      | QUEUE_HIGH \<Rightarrow>
          if enqueued_high q = [] then None
          else
            let pkt = last (enqueued_high q)
            in Some (pkt, count_high pkt (q\<lparr>enqueued_high := butlast (enqueued_high q),
                                           queuesize_high := queuesize_high q - int (psize pkt)\<rparr>))
      | QUEUE_INVALID \<Rightarrow> None)"

definition cq_completeService :: "nat \<Rightarrow> composite_queue \<Rightarrow> (composite_queue \<times> action list) option" where
  "cq_completeService tm q =
     (case take_served q of
        None \<Rightarrow> None
      | Some (pkt, q1) \<Rightarrow>
          let q2 = q1\<lparr>serv := QUEUE_INVALID\<rparr>
          in if enqueued_high q2 \<noteq> [] \<or> enqueued_low q2 \<noteq> [] then then_acts [Send pkt] (cq_beginService q2) []
             else Some (q2, [Send pkt]))"

text \<open>
  A header for which there is no room: it is returned when its route has a way back and it is not on its way back
  already; \<open>None\<close> is the use of a route that is not set.  The result says whether it was returned.
\<close>

definition return_header :: "packet \<Rightarrow> (bool \<times> action list) option" where
  "return_header pkt =
     (case proute pkt of
        None \<Rightarrow> None
      | Some r \<Rightarrow>
          if reverse r \<noteq> None \<and> \<not> bounced pkt then map_option (\<lambda>b. (True, [Send b])) (bounce pkt)
          else Some (False, [Free pkt]))"

text \<open>The newest data packet becomes a header.\<close>

definition boot :: "composite_queue \<Rightarrow> (composite_queue \<times> action list) option" where
  "boot q =
     (case enqueued_low q of
        [] \<Rightarrow> None
      | p # rest \<Rightarrow>
          (case strip_payload p of
             None \<Rightarrow> None
           | Some b \<Rightarrow>
               let q1 = q\<lparr>enqueued_low := rest, queuesize_low := queuesize_low q - int (psize p),
                          num_stripped := num_stripped q + 1\<rparr>
               in if cq_maxsize q < queuesize_high q + int (psize b)
                  then map_option (\<lambda>(ret, acts). (if ret then q1\<lparr>num_bounced := num_bounced q + 1\<rparr> else q1, acts)) (return_header b)
                  else Some (q1\<lparr>enqueued_high := b # enqueued_high q, queuesize_high := queuesize_high q + int (psize b)\<rparr>, [])))"

definition begin_if_idle :: "composite_queue \<Rightarrow> (composite_queue \<times> action list) option" where
  "begin_if_idle q = (if serv q = QUEUE_INVALID then cq_beginService q else Some (q, []))"

definition receive_header :: "packet \<Rightarrow> composite_queue \<Rightarrow> (composite_queue \<times> action list) option" where
  "receive_header pkt q =
     (if cq_maxsize q < queuesize_high q + int (psize pkt)
      then map_option (\<lambda>(ret, acts).
             (if ret then q\<lparr>num_bounced := num_bounced q + 1\<rparr> else q\<lparr>cq_num_drops := cq_num_drops q + 1\<rparr>, acts))
             (return_header pkt)
      else begin_if_idle (q\<lparr>enqueued_high := pkt # enqueued_high q, queuesize_high := queuesize_high q + int (psize pkt)\<rparr>))"

definition receive_data :: "packet \<Rightarrow> composite_queue \<Rightarrow> (composite_queue \<times> action list) option" where
  "receive_data pkt q =
     (if queuesize_low q + int (psize pkt) \<le> cq_maxsize q
      then begin_if_idle (q\<lparr>enqueued_low := pkt # enqueued_low q, queuesize_low := queuesize_low q + int (psize pkt)\<rparr>)
      else None)"

definition cq_receivePacket :: "nat \<Rightarrow> bool \<times> packet \<Rightarrow> composite_queue \<Rightarrow> (composite_queue \<times> action list) option" where
  "cq_receivePacket tm i q =
     (let (coin, pkt) = i; full = cq_maxsize q < queuesize_low q + int (psize pkt)
      in if is_header pkt then receive_header pkt q
         else if \<not> full then receive_data pkt q
         else if coin
         then (case boot q of None \<Rightarrow> None | Some (q1, acts) \<Rightarrow> then_acts acts (receive_data pkt q1) [])
         else
           (case strip_payload pkt of
              None \<Rightarrow> None
            | Some h \<Rightarrow> receive_header h (q\<lparr>num_stripped := num_stripped q + 1\<rparr>)))"

section \<open>Invariant\<close>

text \<open>What stays of a packet when it loses its payload or is returned.\<close>

definition ident :: "packet \<Rightarrow> packet_type \<times> nat \<times> nat \<times> nat \<times> nat" where
  "ident p = (ptype p, flow_id p, packet_id p, seqno p, ackno p)"

text \<open>Data packets have the size \<open>sz\<close>, which fits the queue, and every packet has a route.\<close>

definition cq_good :: "nat \<Rightarrow> int \<Rightarrow> bool \<times> packet \<Rightarrow> bool" where
  "cq_good sz m i \<longleftrightarrow> int sz \<le> m \<and> proute (snd i) \<noteq> None \<and> (\<not> is_header (snd i) \<longrightarrow> psize (snd i) = sz)"

definition cq_shape :: "nat \<Rightarrow> int \<Rightarrow> composite_queue \<Rightarrow> bool" where
  "cq_shape sz m q \<longleftrightarrow>
     cq_maxsize q = m \<and> ratio_high q = 10 \<and> ratio_low q = 1 \<and> crt q < 11 \<and>
     queuesize_low q = bytes (enqueued_low q) \<and> queuesize_high q = bytes (enqueued_high q) \<and>
     bytes (enqueued_low q) \<le> m \<and> bytes (enqueued_high q) \<le> m \<and>
     (\<forall>p \<in> set (enqueued_low q). \<not> is_header p \<and> psize p = sz \<and> proute p \<noteq> None) \<and>
     (\<forall>p \<in> set (enqueued_high q). is_header p)"

definition cq_served :: "composite_queue \<Rightarrow> bool" where
  "cq_served q \<longleftrightarrow>
     (serv q = QUEUE_INVALID \<longrightarrow> enqueued_low q = [] \<and> enqueued_high q = []) \<and>
     (serv q = QUEUE_LOW \<longrightarrow> enqueued_low q \<noteq> []) \<and> (serv q = QUEUE_HIGH \<longrightarrow> enqueued_high q \<noteq> [])"

definition serving_event :: "composite_queue \<Rightarrow> unit event_list \<Rightarrow> bool" where
  "serving_event q ev \<longleftrightarrow> (if serv q = QUEUE_INVALID then due None ev else \<exists>t. due (Some t) ev)"

definition held :: "composite_queue world \<Rightarrow> packet multiset" where
  "held w = mset (map snd (w_out w)) + mset (enqueued_low (w_st w)) + mset (enqueued_high (w_st w)) + mset (w_freed w)"

definition unreturnable :: "packet \<Rightarrow> bool" where
  "unreturnable p \<longleftrightarrow> bounced p \<or> (\<exists>r. proute p = Some r \<and> reverse r = None)"

definition cq_inv :: "nat \<Rightarrow> int \<Rightarrow> (nat \<times> bool \<times> packet) list \<Rightarrow> composite_queue world \<Rightarrow> unit event_list \<Rightarrow> bool" where
  "cq_inv sz m ins w ev \<longleftrightarrow>
     cq_shape sz m (w_st w) \<and> cq_served (w_st w) \<and> serving_event (w_st w) ev \<and>
     image_mset ident (held w) = mset (map (\<lambda>x. ident (snd (snd x))) ins) \<and>
     (\<forall>p \<in> set (w_freed w). is_header p \<and> unreturnable p)"

lemma ident_strip: "strip_payload p = Some b \<Longrightarrow> ident b = ident p \<and> is_header b \<and> proute b = proute p \<and> bounced b = bounced p"
  by (auto simp: strip_payload_def ident_def split: if_splits)

lemma ident_bounce: "bounce p = Some b \<Longrightarrow> ident b = ident p"
  by (auto simp: bounce_def ident_def split: option.splits if_splits)

lemma return_header_cases:
  assumes "proute p \<noteq> None"
  obtains b where "return_header p = Some (True, [Send b])" "ident b = ident p"
  | "return_header p = Some (False, [Free p])" "unreturnable p"
proof -
  obtain r where r: "proute p = Some r"
    using assms by blast
  show ?thesis
  proof (cases "reverse r \<noteq> None \<and> \<not> bounced p")
    case True
    then obtain b where "bounce p = Some b"
      using r by (simp add: bounce_def)
    then show ?thesis
      using True r that(1) ident_bounce by (simp add: return_header_def)
  next
    case False
    then show ?thesis
      using r that(2) by (auto simp: return_header_def unreturnable_def)
  qed
qed

text \<open>The next service: of either list, when one has packets.\<close>

definition same_lists :: "composite_queue \<Rightarrow> composite_queue \<Rightarrow> bool" where
  "same_lists q q' \<longleftrightarrow> enqueued_low q' = enqueued_low q \<and> enqueued_high q' = enqueued_high q"

lemma cq_begin:
  assumes "cq_shape sz m q" and "enqueued_low q \<noteq> [] \<or> enqueued_high q \<noteq> []"
  shows "\<exists>q' dt. cq_beginService q = Some (q', [Pending dt]) \<and> cq_shape sz m q' \<and> cq_served q' \<and> serv q' \<noteq> QUEUE_INVALID \<and>
    same_lists q q'"
  using assms
  by (auto simp: cq_beginService_def Let_def serve_low_def serve_high_def cq_shape_def cq_served_def same_lists_def)

definition cq_begun :: "nat \<Rightarrow> int \<Rightarrow> composite_queue \<Rightarrow> composite_queue world \<Rightarrow> unit event_list \<Rightarrow>
    (composite_queue \<times> action list) option \<Rightarrow> bool" where
  "cq_begun sz m q w ev r \<longleftrightarrow>
     (\<exists>q' acts ev'. r = Some (q', acts) \<and> exec acts (w\<lparr>w_st := q'\<rparr>, ev) = Some (w\<lparr>w_st := q'\<rparr>, ev') \<and>
        cq_shape sz m q' \<and> cq_served q' \<and> serving_event q' ev' \<and> same_lists q q')"

lemma cq_begun_idle:
  assumes "cq_shape sz m q" and "enqueued_low q \<noteq> [] \<or> enqueued_high q \<noteq> []" and "due None ev"
  shows "cq_begun sz m q w ev (cq_beginService q)"
proof -
  obtain q' dt where q': "cq_beginService q = Some (q', [Pending dt])" "cq_shape sz m q'" "cq_served q'"
    "serv q' \<noteq> QUEUE_INVALID" "same_lists q q'"
    using cq_begin [OF assms(1,2)] by blast
  moreover have "due (Some (now ev + dt)) (begun dt ev)"
    using assms(3) by (auto simp: due_def begun_def now_def)
  ultimately show ?thesis
    using assms(3) by (auto simp: cq_begun_def exec_begun serving_event_def)
qed

lemma begin_if_idle_begun:
  assumes "cq_shape sz m q" and "serving_event q ev"
    and "enqueued_low q \<noteq> [] \<or> enqueued_high q \<noteq> []" "serv q = QUEUE_LOW \<longrightarrow> enqueued_low q \<noteq> []" "serv q = QUEUE_HIGH \<longrightarrow> enqueued_high q \<noteq> []"
  shows "cq_begun sz m q w ev (begin_if_idle q)"
proof (cases "serv q = QUEUE_INVALID")
  case True
  then show ?thesis
    using cq_begun_idle [OF assms(1,3)] assms(2) by (simp add: begin_if_idle_def serving_event_def)
next
  case False
  then show ?thesis
    using assms by (auto simp: begin_if_idle_def cq_begun_def cq_served_def same_lists_def)
qed

text \<open>What an operation does with a packet that has arrived: it is held afterwards.\<close>

definition freed_ok :: "composite_queue world \<Rightarrow> bool" where
  "freed_ok w \<longleftrightarrow> (\<forall>p \<in> set (w_freed w). is_header p \<and> unreturnable p)"

definition cq_takes :: "nat \<Rightarrow> int \<Rightarrow> packet \<Rightarrow> composite_queue world \<Rightarrow> unit event_list \<Rightarrow>
    (composite_queue \<times> action list) option \<Rightarrow> bool" where
  "cq_takes sz m p w ev r \<longleftrightarrow>
     (\<exists>q' acts w' ev'. r = Some (q', acts) \<and> exec acts (w\<lparr>w_st := q'\<rparr>, ev) = Some (w', ev') \<and> w_st w' = q' \<and>
        cq_shape sz m q' \<and> cq_served q' \<and> serving_event q' ev' \<and> freed_ok w' \<and>
        image_mset ident (held w') = image_mset ident (held w) + {#ident p#})"

lemma cq_takesI:
  assumes "r = Some (q', acts)" and "exec acts (w\<lparr>w_st := q'\<rparr>, ev) = Some (w', ev')" and "w_st w' = q'"
    and "cq_shape sz m q'" and "cq_served q'" and "serving_event q' ev'" and "freed_ok w'"
    and "image_mset ident (held w') = image_mset ident (held w) + {#ident p#}"
  shows "cq_takes sz m p w ev r"
  using assms unfolding cq_takes_def by blast

lemma cq_takes_begun:
  assumes "cq_begun sz m q w ev r" and "freed_ok w"
    and "mset (enqueued_low q) + mset (enqueued_high q) = mset (enqueued_low (w_st w)) + mset (enqueued_high (w_st w)) + {#p#}"
  shows "cq_takes sz m p w ev r"
proof -
  obtain q' acts ev' where r: "r = Some (q', acts)" "exec acts (w\<lparr>w_st := q'\<rparr>, ev) = Some (w\<lparr>w_st := q'\<rparr>, ev')"
    "cq_shape sz m q'" "cq_served q'" "serving_event q' ev'" "same_lists q q'"
    using assms(1) unfolding cq_begun_def by blast
  have "mset (enqueued_low q') + mset (enqueued_high q') = mset (enqueued_low (w_st w)) + mset (enqueued_high (w_st w)) + {#p#}"
    using assms(3) r(6) by (simp add: same_lists_def)
  then have "held (w\<lparr>w_st := q'\<rparr>) = held w + {#p#}"
    by (simp add: held_def add.assoc [symmetric])
  then show ?thesis
    using r assms(2) by (intro cq_takesI [OF r(1,2)]) (simp_all add: freed_ok_def)
qed

lemma receive_header_takes:
  assumes "cq_shape sz m q" and "cq_served q" and "serving_event q ev" and "same_lists q (w_st w)" and "freed_ok w"
    and "is_header p" and "proute p \<noteq> None"
  shows "cq_takes sz m p w ev (receive_header p q)"
proof (cases "cq_maxsize q < queuesize_high q + int (psize p)")
  case True
  let ?b = "q\<lparr>num_bounced := num_bounced q + 1\<rparr>" and ?d = "q\<lparr>cq_num_drops := cq_num_drops q + 1\<rparr>"
  have b: "cq_shape sz m ?b" "cq_served ?b" "serving_event ?b ev" and d: "cq_shape sz m ?d" "cq_served ?d" "serving_event ?d ev"
    using assms(1-3) by (simp_all add: cq_shape_def cq_served_def serving_event_def)
  have same: "enqueued_low (w_st w) = enqueued_low q" "enqueued_high (w_st w) = enqueued_high q"
    using assms(4) by (simp_all add: same_lists_def)
  show ?thesis
  proof (rule return_header_cases [OF assms(7)])
    fix h
    assume h: "return_header p = Some (True, [Send h])" "ident h = ident p"
    show ?thesis
    proof (rule cq_takesI [where acts = "[Send h]" and w' = "w\<lparr>w_st := ?b, w_out := w_out w @ [(now ev, h)]\<rparr>" and ev' = ev])
      show "receive_header p q = Some (?b, [Send h])"
        using True h by (simp add: receive_header_def)
      show "freed_ok (w\<lparr>w_st := ?b, w_out := w_out w @ [(now ev, h)]\<rparr>)"
        using assms(5) by (simp add: freed_ok_def)
      show "image_mset ident (held (w\<lparr>w_st := ?b, w_out := w_out w @ [(now ev, h)]\<rparr>)) = image_mset ident (held w) + {#ident p#}"
        using h(2) by (simp add: held_def same)
    qed (use b in simp_all)
  next
    assume h: "return_header p = Some (False, [Free p])" "unreturnable p"
    show ?thesis
    proof (rule cq_takesI [where acts = "[Free p]" and w' = "w\<lparr>w_st := ?d, w_freed := w_freed w @ [p]\<rparr>" and ev' = ev])
      show "receive_header p q = Some (?d, [Free p])"
        using True h by (simp add: receive_header_def)
      show "freed_ok (w\<lparr>w_st := ?d, w_freed := w_freed w @ [p]\<rparr>)"
        using assms(5,6) h(2) by (auto simp: freed_ok_def)
      show "image_mset ident (held (w\<lparr>w_st := ?d, w_freed := w_freed w @ [p]\<rparr>)) = image_mset ident (held w) + {#ident p#}"
        by (simp add: held_def same)
    qed (use d in simp_all)
  qed
next
  case False
  let ?q = "q\<lparr>enqueued_high := p # enqueued_high q, queuesize_high := queuesize_high q + int (psize p)\<rparr>"
  have "cq_begun sz m ?q w ev (begin_if_idle ?q)"
    using assms(1-3,6) False by (intro begin_if_idle_begun) (auto simp: cq_shape_def cq_served_def serving_event_def)
  then show ?thesis
    using False assms(4,5) cq_takes_begun [of sz m ?q w ev _ p] by (simp add: receive_header_def same_lists_def)
qed

lemma receive_data_takes:
  assumes "cq_shape sz m q" and "serving_event q ev" and "same_lists q (w_st w)" and "freed_ok w"
    and "serv q = QUEUE_HIGH \<longrightarrow> enqueued_high q \<noteq> []"
    and "\<not> is_header p" and "proute p \<noteq> None" and "psize p = sz" and "bytes (enqueued_low q) + int sz \<le> m"
  shows "cq_takes sz m p w ev (receive_data p q)"
proof -
  let ?q = "q\<lparr>enqueued_low := p # enqueued_low q, queuesize_low := queuesize_low q + int (psize p)\<rparr>"
  have "cq_begun sz m ?q w ev (begin_if_idle ?q)"
    using assms by (intro begin_if_idle_begun) (auto simp: cq_shape_def serving_event_def)
  moreover have "receive_data p q = begin_if_idle ?q"
    using assms(1,8,9) by (simp add: receive_data_def cq_shape_def)
  ultimately show ?thesis
    using assms(3,4) cq_takes_begun [of sz m ?q w ev _ p] by (simp add: same_lists_def)
qed

text \<open>Making room: the packet at the front of the data list becomes a header, is returned, or is given up.\<close>

definition boots :: "nat \<Rightarrow> int \<Rightarrow> composite_queue world \<Rightarrow> unit event_list \<Rightarrow> composite_queue \<Rightarrow> action list \<Rightarrow> composite_queue world \<Rightarrow> bool" where
  "boots sz m w ev q1 acts w1 \<longleftrightarrow>
     cq_shape sz m q1 \<and> serv q1 = serv (w_st w) \<and> enqueued_low q1 = tl (enqueued_low (w_st w)) \<and>
     (enqueued_high (w_st w) \<noteq> [] \<longrightarrow> enqueued_high q1 \<noteq> []) \<and> w_st w1 = q1 \<and> freed_ok w1 \<and>
     image_mset ident (held w1) = image_mset ident (held w) \<and>
     (\<forall>q more. exec (acts @ more) (w\<lparr>w_st := q\<rparr>, ev) = exec more (w1\<lparr>w_st := q\<rparr>, ev))"

lemma boot_boots:
  assumes "cq_shape sz m (w_st w)" and "enqueued_low (w_st w) \<noteq> []" and "freed_ok w"
  shows "\<exists>q1 acts w1. boot (w_st w) = Some (q1, acts) \<and> boots sz m w ev q1 acts w1"
proof -
  let ?q = "w_st w"
  obtain p rest where low: "enqueued_low ?q = p # rest"
    using assms(2) by (cases "enqueued_low ?q") auto
  then have p: "\<not> is_header p" "proute p \<noteq> None"
    using assms(1) by (auto simp: cq_shape_def)
  obtain b where b: "strip_payload p = Some b"
    using p(1) by (simp add: strip_payload_def)
  have id: "ident b = ident p" "is_header b" "proute b \<noteq> None"
    using ident_strip [OF b] p(2) by simp_all
  define q1 where "q1 = ?q\<lparr>enqueued_low := rest, queuesize_low := queuesize_low ?q - int (psize p), num_stripped := num_stripped ?q + 1\<rparr>"
  have shape: "cq_shape sz m q1"
    using assms(1) low by (auto simp: cq_shape_def q1_def)
  show ?thesis
  proof (cases "cq_maxsize ?q < queuesize_high ?q + int (psize b)")
    case True
    show ?thesis
    proof (rule return_header_cases [OF id(3)])
      fix h
      assume h: "return_header b = Some (True, [Send h])" "ident h = ident b"
      let ?q1 = "q1\<lparr>num_bounced := num_bounced ?q + 1\<rparr>"
      let ?w = "w\<lparr>w_st := ?q1, w_out := w_out w @ [(now ev, h)]\<rparr>"
      have "boot ?q = Some (?q1, [Send h])"
        using True h low b by (simp add: boot_def Let_def q1_def)
      moreover have "boots sz m w ev ?q1 [Send h] ?w"
        using shape assms(3) h(2) id low
        by (auto simp: world_out_st boots_def cq_shape_def q1_def freed_ok_def held_def)
      ultimately show ?thesis
        by blast
    next
      assume h: "return_header b = Some (False, [Free b])" "unreturnable b"
      let ?w = "w\<lparr>w_st := q1, w_freed := w_freed w @ [b]\<rparr>"
      have "boot ?q = Some (q1, [Free b])"
        using True h low b by (simp add: boot_def Let_def q1_def)
      moreover have "boots sz m w ev q1 [Free b] ?w"
        using shape assms(3) h(2) id low by (auto simp: world_out_st boots_def q1_def freed_ok_def held_def)
      ultimately show ?thesis
        by blast
    qed
  next
    case False
    let ?q1 = "q1\<lparr>enqueued_high := b # enqueued_high ?q, queuesize_high := queuesize_high ?q + int (psize b)\<rparr>"
    have "boot ?q = Some (?q1, [])"
      using False low b by (simp add: boot_def Let_def q1_def)
    moreover have "boots sz m w ev ?q1 [] (w\<lparr>w_st := ?q1\<rparr>)"
      using shape assms(1,3) False id low by (auto simp: boots_def cq_shape_def q1_def freed_ok_def held_def)
    ultimately show ?thesis
      by blast
  qed
qed

lemma cq_receive_takes:
  assumes "cq_shape sz m (w_st w)" and "cq_served (w_st w)" and "serving_event (w_st w) ev" and "freed_ok w" and "cq_good sz m (coin, p)"
  shows "cq_takes sz m p w ev (cq_receivePacket tm (coin, p) (w_st w))"
proof -
  let ?q = "w_st w"
  have same: "same_lists q q" for q
    by (simp add: same_lists_def)
  have p: "proute p \<noteq> None" "\<not> is_header p \<longrightarrow> psize p = sz"
    using assms(5) by (simp_all add: cq_good_def)
  have low: "queuesize_low ?q = bytes (enqueued_low ?q)" "cq_maxsize ?q = m" "int sz \<le> m"
    using assms(1,5) by (simp_all add: cq_shape_def cq_good_def)
  consider (header) "is_header p"
    | (fits) "\<not> is_header p" "bytes (enqueued_low ?q) + int sz \<le> m"
    | (coin) "\<not> is_header p" "m < bytes (enqueued_low ?q) + int sz" coin
    | (strip) "\<not> is_header p" "m < bytes (enqueued_low ?q) + int sz" "\<not> coin"
    by fastforce
  then show ?thesis
  proof cases
    case header
    then show ?thesis
      using receive_header_takes [OF assms(1-3) same assms(4) header p(1)] by (simp add: cq_receivePacket_def)
  next
    case fits
    have "cq_takes sz m p w ev (receive_data p ?q)"
      using assms fits p by (intro receive_data_takes) (simp_all add: same cq_served_def)
    then show ?thesis
      using fits p low by (simp add: cq_receivePacket_def)
  next
    case coin
    then have ne: "enqueued_low ?q \<noteq> []"
      using low(3) by auto
    obtain q1 acts w1 where b: "boot ?q = Some (q1, acts)" "boots sz m w ev q1 acts w1"
      using boot_boots [OF assms(1) ne assms(4)] by blast
    note b2 = b(2) [unfolded boots_def]
    have "bytes (enqueued_low ?q) = int sz + bytes (tl (enqueued_low ?q))"
      using assms(1) ne by (cases "enqueued_low ?q") (auto simp: cq_shape_def)
    then have "bytes (enqueued_low q1) + int sz \<le> m"
      using b2 assms(1) by (simp add: cq_shape_def)
    then have "cq_takes sz m p w1 ev (receive_data p q1)"
      using b2 assms(2,3) coin(1) p by (intro receive_data_takes) (auto simp: same cq_served_def serving_event_def)
    then obtain q' acts' w' ev' where r: "receive_data p q1 = Some (q', acts')"
      "exec acts' (w1\<lparr>w_st := q'\<rparr>, ev) = Some (w', ev')" "w_st w' = q'" "cq_shape sz m q'" "cq_served q'"
      "serving_event q' ev'" "freed_ok w'" "image_mset ident (held w') = image_mset ident (held w1) + {#ident p#}"
      unfolding cq_takes_def by blast
    have eq: "cq_receivePacket tm (coin, p) ?q = Some (q', acts @ acts')"
      using coin p low b(1) r(1) by (simp add: cq_receivePacket_def then_acts_def)
    have ex: "exec (acts @ acts') (w\<lparr>w_st := q'\<rparr>, ev) = Some (w', ev')"
      using b2 r(2) by simp
    show ?thesis
      by (rule cq_takesI [OF eq ex r(3-7)]) (use r(8) b2 in simp)
  next
    case strip
    then obtain h where h: "strip_payload p = Some h"
      by (simp add: strip_payload_def)
    let ?q1 = "?q\<lparr>num_stripped := num_stripped ?q + 1\<rparr>"
    have "cq_takes sz m h w ev (receive_header h ?q1)"
      using assms(1-4) ident_strip [OF h] p(1)
      by (intro receive_header_takes) (simp_all add: cq_shape_def cq_served_def serving_event_def same_lists_def)
    then show ?thesis
      using strip p low h ident_strip [OF h] by (simp add: cq_receivePacket_def cq_takes_def)
  qed
qed

lemma cq_arrive:
  assumes "cq_inv sz m ins w ev" and "now ev \<le> t" and "\<forall>x \<in> set (pendingsources ev). t \<le> fst x" and "cq_good sz m i"
  shows "\<exists>w' ev'. arrive cq_receivePacket t i (w, ev) = Some (w', ev') \<and> cq_inv sz m (ins @ [(t, i)]) w' ev'"
proof -
  note inv = assms(1) [unfolded cq_inv_def]
  have "serving_event (w_st w) (ev\<lparr>lasteventtime := t\<rparr>)"
    using inv due_advance [OF _ assms(3)] by (auto simp: serving_event_def split: if_splits)
  then have "cq_takes sz m (snd i) w (ev\<lparr>lasteventtime := t\<rparr>) (cq_receivePacket t i (w_st w))"
    using cq_receive_takes [of sz m w _ "fst i" "snd i" t] inv assms(4) by (simp add: freed_ok_def)
  then obtain q' acts w' ev' where r: "cq_receivePacket t i (w_st w) = Some (q', acts)"
    "exec acts (w\<lparr>w_st := q'\<rparr>, ev\<lparr>lasteventtime := t\<rparr>) = Some (w', ev')" "w_st w' = q'" "cq_shape sz m q'" "cq_served q'"
    "serving_event q' ev'" "freed_ok w'" "image_mset ident (held w') = image_mset ident (held w) + {#ident (snd i)#}"
    unfolding cq_takes_def by blast
  then show ?thesis
    using inv by (simp add: arrive_def cq_inv_def freed_ok_def)
qed

lemma count_high_lists:
  "enqueued_low (count_high p q) = enqueued_low q" "enqueued_high (count_high p q) = enqueued_high q"
  "cq_shape sz m (count_high p q) = cq_shape sz m q"
  by (simp_all add: count_high_def cq_shape_def split: packet_type.splits)

lemma cq_take_served:
  assumes "cq_shape sz m q" and "cq_served q" and "serv q \<noteq> QUEUE_INVALID"
  shows "\<exists>p q1. take_served q = Some (p, q1) \<and> cq_shape sz m q1 \<and>
    mset (enqueued_low q) + mset (enqueued_high q) = mset (enqueued_low q1) + mset (enqueued_high q1) + {#p#}"
proof (cases "serv q")
  case QUEUE_LOW
  then obtain rest p where "enqueued_low q = rest @ [p]"
    using assms(2) by (metis append_butlast_last_id cq_served_def)
  then show ?thesis
    using QUEUE_LOW assms(1) by (auto simp: take_served_def Let_def cq_shape_def)
next
  case QUEUE_HIGH
  then obtain rest p where h: "enqueued_high q = rest @ [p]"
    using assms(2) by (metis append_butlast_last_id cq_served_def)
  let ?q1 = "q\<lparr>enqueued_high := rest, queuesize_high := queuesize_high q - int (psize p)\<rparr>"
  have "take_served q = Some (p, count_high p ?q1)"
    using QUEUE_HIGH h by (simp add: take_served_def Let_def)
  moreover have "cq_shape sz m ?q1"
    using h assms(1) by (auto simp: cq_shape_def)
  ultimately show ?thesis
    using h by (auto simp: count_high_lists)
qed (use assms(3) in simp)

lemma cq_fire:
  assumes "cq_inv sz m ins w ev" and "pendingsources ev \<noteq> []"
  shows "\<exists>w' ev'. fire cq_completeService (w, ev) = Some (True, w', ev') \<and> cq_inv sz m ins w' ev'"
proof -
  let ?q = "w_st w"
  note inv = assms(1) [unfolded cq_inv_def]
  have serv: "serv ?q \<noteq> QUEUE_INVALID"
    using inv assms(2) due_pending [of None ev] by (auto simp: serving_event_def)
  then obtain t where t: "due (Some t) ev"
    using inv by (auto simp: serving_event_def)
  obtain ev1 where ev1: "due None ev1" "now ev1 = t"
    "fire cq_completeService (w, ev) = map_option (Pair True) (dev_handle cq_completeService () (w, ev1))"
    using due_fire [OF t] by blast
  obtain p q1 where q1: "take_served ?q = Some (p, q1)" "cq_shape sz m q1"
    "mset (enqueued_low ?q) + mset (enqueued_high ?q) = mset (enqueued_low q1) + mset (enqueued_high q1) + {#p#}"
    using cq_take_served [of sz m ?q] inv serv by blast
  let ?q2 = "q1\<lparr>serv := QUEUE_INVALID\<rparr>" and ?w = "w\<lparr>w_out := w_out w @ [(t, p)]\<rparr>"
  have shape: "cq_shape sz m ?q2"
    using q1(2) by (simp add: cq_shape_def)
  have done_inv: "cq_inv sz m ins (?w\<lparr>w_st := q'\<rparr>) ev'"
    if "cq_shape sz m q'" "cq_served q'" "serving_event q' ev'" "same_lists ?q2 q'" for q' ev'
  proof -
    have "mset (enqueued_low q') + mset (enqueued_high q') + {#p#} = mset (enqueued_low ?q) + mset (enqueued_high ?q)"
      using that(4) q1(3) by (simp add: same_lists_def)
    then have "held (?w\<lparr>w_st := q'\<rparr>) = held w"
      by (simp add: held_def add.assoc [symmetric] add.left_commute)
    then show ?thesis
      using that inv by (simp add: cq_inv_def)
  qed
  show ?thesis
  proof (cases "enqueued_low q1 = [] \<and> enqueued_high q1 = []")
    case True
    then have "fire cq_completeService (w, ev) = Some (True, ?w\<lparr>w_st := ?q2\<rparr>, ev1)"
      using ev1 q1(1) by (simp add: dev_handle_def cq_completeService_def Let_def)
    moreover have "cq_inv sz m ins (?w\<lparr>w_st := ?q2\<rparr>) ev1"
      using True ev1(1) shape by (intro done_inv) (simp_all add: cq_served_def serving_event_def same_lists_def)
    ultimately show ?thesis
      by blast
  next
    case False
    then have "cq_begun sz m ?q2 ?w ev1 (cq_beginService ?q2)"
      using ev1(1) shape by (intro cq_begun_idle) auto
    then obtain q' acts ev' where r: "cq_beginService ?q2 = Some (q', acts)"
      "exec acts (?w\<lparr>w_st := q'\<rparr>, ev1) = Some (?w\<lparr>w_st := q'\<rparr>, ev')"
      "cq_shape sz m q'" "cq_served q'" "serving_event q' ev'" "same_lists ?q2 q'"
      unfolding cq_begun_def by blast
    have "cq_completeService t ?q = Some (q', Send p # acts)"
      using False q1(1) r(1) by (auto simp: cq_completeService_def Let_def then_acts_def)
    then have "fire cq_completeService (w, ev) = Some (True, ?w\<lparr>w_st := q'\<rparr>, ev')"
      using ev1 r(2) by (simp add: dev_handle_def world_out_st)
    then show ?thesis
      using done_inv [OF r(3-6)] by blast
  qed
qed

lemma cq_inv_start: "0 \<le> m \<Longrightarrow> cq_inv sz m [] (initially (CompositeQueue r m)) EventList"
  by (simp add: cq_inv_def cq_shape_def cq_served_def serving_event_def held_def initially_def CompositeQueue_def)

interpretation composite: device cq_receivePacket cq_completeService "CompositeQueue r (int n)" "cq_good sz (int n)" "cq_inv sz (int n)"
  by unfold_locales (simp add: cq_inv_start, erule (3) cq_arrive, erule (1) cq_fire)

text \<open>
  Claim C11.  For data packets of one size, which fits the queue, and headers and control packets, the queue of a switch never
  holds more than the capacity in each of its two lists; every packet that has arrived is in the queue, was sent on (whole, as a
  header, or back to its sender), or was dropped, and only headers that cannot be returned are dropped; when the
  queue has packets, there is exactly one event that ends a service.  No assertion fails, neither when that event is
  handled nor when another such packet arrives at any time before it, whichever way the coin falls.
\<close>

theorem composite_queue_correct:
  assumes "dev_reach cq_receivePacket cq_completeService (CompositeQueue r (int n)) ins (w, ev)"
    and "\<forall>x \<in> set ins. cq_good sz (int n) (snd x)"
  shows "bytes (enqueued_low (w_st w)) \<le> int n \<and> bytes (enqueued_high (w_st w)) \<le> int n \<and>
    image_mset ident (held w) = mset (map (\<lambda>x. ident (snd (snd x))) ins) \<and>
    (\<forall>p \<in> set (w_freed w). is_header p \<and> unreturnable p) \<and>
    (enqueued_low (w_st w) \<noteq> [] \<or> enqueued_high (w_st w) \<noteq> [] \<longleftrightarrow> length (pendingsources ev) = 1) \<and>
    fire cq_completeService (w, ev) \<noteq> None \<and> accepts cq_receivePacket (cq_good sz (int n)) (w, ev)"
proof -
  have inv: "cq_inv sz (int n) ins w ev"
    using composite.reach_inv [OF assms] by simp
  have "enqueued_low (w_st w) \<noteq> [] \<or> enqueued_high (w_st w) \<noteq> [] \<longleftrightarrow> serv (w_st w) \<noteq> QUEUE_INVALID"
    using inv by (cases "serv (w_st w)") (auto simp: cq_inv_def cq_served_def)
  also have "\<dots> \<longleftrightarrow> length (pendingsources ev) = 1"
    using inv by (auto simp: cq_inv_def serving_event_def due_def)
  finally show ?thesis
    using inv composite.reach_safe(1) [OF assms] composite.reach_accepts [OF assms] by (simp add: cq_inv_def cq_shape_def)
qed

section \<open>How the lists share the link\<close>

text \<open>
  While both lists have packets, the counter goes around eleven values, and the data list is served at one of
  them: ten headers for one data packet.
\<close>

theorem composite_ratio:
  assumes "cq_shape sz m q" and "enqueued_low q \<noteq> []" and "enqueued_high q \<noteq> []"
  shows "\<exists>q' acts. cq_beginService q = Some (q', acts) \<and> crt q' = (crt q + 1) mod 11 \<and>
    serv q' = (if (crt q + 1) mod 11 = 10 then QUEUE_LOW else QUEUE_HIGH)"
proof -
  have "crt q < 11" "ratio_high q = 10" "ratio_low q = 1"
    using assms(1) by (simp_all add: cq_shape_def)
  then show ?thesis
    using assms(2,3) by (cases "crt q = 10") (auto simp: cq_beginService_def Let_def serve_low_def serve_high_def)
qed

section \<open>Where the queue goes wrong\<close>

definition data :: "nat \<Rightarrow> nat \<Rightarrow> packet" where
  "data n sz = blank\<lparr>seqno := n, psize := sz, proute := Some a_route, nexthop := 1\<rparr>"

lemmas cq_simps =
  run_simps data_def CompositeQueue_def cq_receivePacket_def receive_data_def receive_header_def begin_if_idle_def
  cq_beginService_def serve_low_def serve_high_def boot_def strip_payload_def then_acts_def cq_completeService_def
  take_served_def count_high_def Let_def ACKSIZE_def

theorem composite_queue_correct_witness:
  "\<exists>w ev. dev_reach cq_receivePacket cq_completeService (CompositeQueue 8000000000000 (int 100)) [(0, True, data 1 100)] (w, ev) \<and>
     bytes (enqueued_low (w_st w)) \<le> int 100 \<and> fire cq_completeService (w, ev) \<noteq> None"
proof -
  let ?run = "run_dev cq_receivePacket cq_completeService [Arrive 0 (True, data 1 100)] (initially (CompositeQueue 8000000000000 (int 100)), EventList)"
  have "\<exists>w ev. ?run = Some (w, ev)"
    by (simp add: cq_simps)
  then obtain w ev where "?run = Some (w, ev)"
    by blast
  from run_dev_start [OF this] have r:
    "dev_reach cq_receivePacket cq_completeService (CompositeQueue 8000000000000 (int 100)) [(0, True, data 1 100)] (w, ev)"
    by simp
  have "\<forall>x \<in> set [(0 :: nat, True, data 1 100)]. cq_good 100 (int 100) (snd x)"
    by (simp add: cq_good_def data_def blank_def)
  then have "bytes (enqueued_low (w_st w)) \<le> int 100" "fire cq_completeService (w, ev) \<noteq> None"
    using composite_queue_correct [OF r] by blast+
  then show ?thesis
    using r by blast
qed

text \<open>
  Data packets of different sizes make the queue of a switch fail: only one packet is cut to make room, which need
  not be enough.
\<close>

theorem composite_sizes_fail:
  "\<exists>ins w ev t i. dev_reach cq_receivePacket cq_completeService (CompositeQueue 8000000000000 1000) ins (w, ev) \<and>
     now ev \<le> t \<and> (\<forall>x \<in> set (pendingsources ev). t \<le> fst x) \<and>
     (\<forall>x \<in> set ins \<union> {(t, i)}. int (psize (snd (snd x))) \<le> 1000) \<and> arrive cq_receivePacket t i (w, ev) = None"
proof -
  let ?is = "[Arrive 0 (True, data 1 800), Arrive 1 (True, data 2 100)]"
  let ?run = "run_dev cq_receivePacket cq_completeService ?is (initially (CompositeQueue 8000000000000 1000), EventList)"
  have "\<exists>w ev. ?run = Some (w, ev) \<and> now ev \<le> 2 \<and> (\<forall>x \<in> set (pendingsources ev). 2 \<le> fst x) \<and>
      arrive cq_receivePacket 2 (True, data 3 900) (w, ev) = None"
    by (simp add: cq_simps)
  then obtain w ev where "?run = Some (w, ev)" "now ev \<le> 2" "\<forall>x \<in> set (pendingsources ev). 2 \<le> fst x"
    "arrive cq_receivePacket 2 (True, data 3 900) (w, ev) = None"
    by blast
  note run = this
  have "dev_reach cq_receivePacket cq_completeService (CompositeQueue 8000000000000 1000)
      [(0, True, data 1 800), (1, True, data 2 100)] (w, ev)"
    using run_dev_start [OF run(1)] by simp
  moreover have "\<forall>x \<in> set [(0, True, data 1 800), (1, True, data 2 100)] \<union> {(2 :: nat, True, data 3 900)}.
      int (psize (snd (snd x))) \<le> 1000"
    by (simp add: data_def)
  ultimately show ?thesis
    using run(2-4) by blast
qed

text \<open>
  The queue may cut the packet that it is sending.  The one that takes its place is sent on when the service of the
  other was to end, here one picosecond after it came, a hundred times faster than the link.
\<close>

theorem composite_cuts_packet_in_service:
  "\<exists>ins w ev. dev_reach cq_receivePacket cq_completeService (CompositeQueue 8000000000000 100) ins (w, ev) \<and>
     (\<forall>x \<in> set ins. cq_good 100 100 (snd x)) \<and> (99, True, data 2 100) \<in> set ins \<and> (100, data 2 100) \<in> set (w_out w) \<and>
     cq_ps_per_byte (w_st w) = 1"
proof -
  let ?is = "[Arrive 0 (True, data 1 100), Arrive 99 (True, data 2 100), Event]"
  let ?run = "run_dev cq_receivePacket cq_completeService ?is (initially (CompositeQueue 8000000000000 100), EventList)"
  have "\<exists>w ev. ?run = Some (w, ev) \<and> w_out w = [(100, data 2 100)] \<and> cq_ps_per_byte (w_st w) = 1"
    by (simp add: cq_simps)
  then obtain w ev where "?run = Some (w, ev)" "w_out w = [(100, data 2 100)]" "cq_ps_per_byte (w_st w) = 1"
    by blast
  note run = this
  let ?ins = "[(0, True, data 1 100), (99, True, data 2 100)]"
  have "dev_reach cq_receivePacket cq_completeService (CompositeQueue 8000000000000 100) ?ins (w, ev)"
    using run_dev_start [OF run(1)] by simp
  moreover have "\<forall>x \<in> set ?ins. cq_good 100 100 (snd x)"
    by (simp add: cq_good_def data_def blank_def)
  moreover have "(100, data 2 100) \<in> set (w_out w)" "(99, True, data 2 100) \<in> set ?ins"
    using run(2) by simp_all
  ultimately show ?thesis
    using run(3) by blast
qed

section \<open>The queue that cuts at a threshold\<close>

record cut_queue = queue +
  cp_num_packets :: nat
  cp_num_headers :: nat
  cp_num_acks :: nat
  cp_num_nacks :: nat
  cp_num_pulls :: nat
  cp_num_stripped :: nat
  cp_threshold :: int

definition CutPayloadQueue :: "nat \<Rightarrow> int \<Rightarrow> cut_queue" where
  "CutPayloadQueue bitrate maxsize =
     queue.extend (Queue bitrate maxsize)
       \<lparr>cp_num_packets = 0, cp_num_headers = 0, cp_num_acks = 0, cp_num_nacks = 0, cp_num_pulls = 0, cp_num_stripped = 0,
        cp_threshold = maxsize div 2\<rparr>"

definition cp_completeService :: "nat \<Rightarrow> cut_queue \<Rightarrow> (cut_queue \<times> action list) option" where
  "cp_completeService tm q =
     (if enqueued q = [] then None
      else Queue_completeService tm
        (case ptype (last (enqueued q)) of
           NDPACK \<Rightarrow> q\<lparr>cp_num_acks := cp_num_acks q + 1\<rparr>
         | NDPNACK \<Rightarrow> q\<lparr>cp_num_nacks := cp_num_nacks q + 1\<rparr>
         | NDPPULL \<Rightarrow> q\<lparr>cp_num_pulls := cp_num_pulls q + 1\<rparr>
         | _ \<Rightarrow> q\<lparr>cp_num_headers := cp_num_headers q + 1\<rparr>))"

definition cp_receivePacket :: "nat \<Rightarrow> packet \<Rightarrow> cut_queue \<Rightarrow> (cut_queue \<times> action list) option" where
  "cp_receivePacket tm pkt q =
     (let cut = cp_threshold q < queuesize q + int (psize pkt)
      in case (if cut then strip_payload pkt else Some pkt) of
           None \<Rightarrow> None
         | Some p \<Rightarrow>
             let q1 = (if cut then q\<lparr>cp_num_stripped := cp_num_stripped q + 1\<rparr> else q)
             in if q_maxsize q1 < queuesize q1 + int (psize p)
                then Some (q1\<lparr>num_drops := num_drops q1 + 1\<rparr>, [Free p])
                else
                  let q2 = enqueue_pkt p q1
                  in if enqueued q = [] then map_option (Pair q2) (Queue_beginService q2) else Some (q2, []))"

text \<open>
  This queue cuts whatever arrives above the threshold; an acknowledgement, which is a header already, fails an
  assertion there.
\<close>

theorem cut_queue_fails:
  assumes "is_header p" and "cp_threshold q < queuesize q + int (psize p)"
  shows "cp_receivePacket tm p q = None"
  using assms by (simp add: cp_receivePacket_def strip_payload_def)

end
