(* ===== verification/Ndp_Pull.thy ===== *)
theory Ndp_Pull
  imports Ndp_Device "HOL-Library.Multiset"
begin

text \<open>
  The queues in which a receiver of the NDP simulator holds its pull packets (\<^verbatim>\<open>fairpullqueue.cpp\<close>): \<^verbatim>\<open>FifoPullQueue\<close>,
  with an optional preferred flow, and \<^verbatim>\<open>FairPullQueue\<close>, a list for every flow, served in turn.  Both satisfy the
  contract \<open>pull_queue\<close>: the pulls of one flow leave in the order in which they came, none is lost, none made up.
  \<open>None\<close> is a failed assertion, a read behind the end of a container, or a loop that does not end.
\<close>

section \<open>FIFO\<close>

record fifo_pulls =
  fifo_count :: int
  fifo_preferred :: int
  fifo_queue :: "packet list"

definition FifoPullQueue :: fifo_pulls where
  "FifoPullQueue = \<lparr>fifo_count = 0, fifo_preferred = -1, fifo_queue = []\<rparr>"

definition set_preferred_flow :: "int \<Rightarrow> fifo_pulls \<Rightarrow> fifo_pulls" where
  "set_preferred_flow f q = q\<lparr>fifo_preferred := f\<rparr>"

definition count_checked :: "fifo_pulls \<Rightarrow> fifo_pulls option" where
  "count_checked q = (if fifo_count q = int (length (fifo_queue q)) then Some q else None)"

definition Fifo_enqueue :: "packet \<Rightarrow> fifo_pulls \<Rightarrow> fifo_pulls option" where
  "Fifo_enqueue pkt q =
     (let mine = (\<lambda>p. int (flow_id p) = fifo_preferred q);
          l = (if 0 \<le> fifo_preferred q \<and> mine pkt
               then takeWhile mine (fifo_queue q) @ pkt # dropWhile mine (fifo_queue q)
               else pkt # fifo_queue q)
      in count_checked (q\<lparr>fifo_queue := l, fifo_count := fifo_count q + 1\<rparr>))"

definition Fifo_dequeue :: "fifo_pulls \<Rightarrow> (packet option \<times> fifo_pulls) option" where
  "Fifo_dequeue q =
     (if fifo_count q = 0 then Some (None, q)
      else if fifo_queue q = [] then None
      else map_option (Pair (Some (last (fifo_queue q))))
             (count_checked (q\<lparr>fifo_queue := butlast (fifo_queue q), fifo_count := fifo_count q - 1\<rparr>)))"

text \<open>The first result of \<open>Fifo_flush_flow\<close> and \<open>Fair_flush_flow\<close> are the packets that are freed.\<close>

definition Fifo_flush_flow :: "nat \<Rightarrow> fifo_pulls \<Rightarrow> (packet list \<times> fifo_pulls) option" where
  "Fifo_flush_flow f q =
     (let gone = (\<lambda>p. flow_id p = f \<and> ptype p = NDPPULL);
          freed = filter gone (fifo_queue q)
      in map_option (Pair freed)
           (count_checked (q\<lparr>fifo_queue := filter (\<lambda>p. \<not> gone p) (fifo_queue q), fifo_count := fifo_count q - int (length freed)\<rparr>)))"

section \<open>A queue for every flow\<close>

text \<open>
  The \<^verbatim>\<open>map\<close> from flows to queues is a list in the order of its iterator.  The iterator \<^verbatim>\<open>_current_queue\<close> is the key
  it points to, \<open>None\<close> at the end.  Flow numbers, which are given from 0 on, are natural numbers.
\<close>

record fair_pulls =
  fair_count :: int
  queue_map :: "(nat \<times> packet list) list"
  current_queue :: "nat option"

definition FairPullQueue :: fair_pulls where
  "FairPullQueue = \<lparr>fair_count = 0, queue_map = [], current_queue = None\<rparr>"

definition queue_exists :: "packet \<Rightarrow> fair_pulls \<Rightarrow> bool" where
  "queue_exists pkt q \<longleftrightarrow> map_of (queue_map q) (flow_id pkt) \<noteq> None"

fun new_entry :: "nat \<Rightarrow> (nat \<times> packet list) list \<Rightarrow> (nat \<times> packet list) list" where
  "new_entry f [] = [(f, [])]"
| "new_entry f (x # xs) = (if fst x < f then x # new_entry f xs else (f, []) # x # xs)"

definition create_queue :: "packet \<Rightarrow> fair_pulls \<Rightarrow> fair_pulls" where
  "create_queue pkt q = q\<lparr>queue_map := new_entry (flow_id pkt) (queue_map q)\<rparr>"

definition on_queue :: "nat \<Rightarrow> (packet list \<Rightarrow> packet list) \<Rightarrow> (nat \<times> packet list) list \<Rightarrow> (nat \<times> packet list) list" where
  "on_queue f g m = map (\<lambda>(k, l). (k, if k = f then g l else l)) m"

definition Fair_enqueue :: "packet \<Rightarrow> fair_pulls \<Rightarrow> fair_pulls option" where
  "Fair_enqueue pkt q =
     (let q1 = (if queue_exists pkt q then q else create_queue pkt q)
      in Some (q1\<lparr>queue_map := on_queue (flow_id pkt) ((#) pkt) (queue_map q1), fair_count := fair_count q1 + 1\<rparr>))"

definition next_key :: "nat \<Rightarrow> nat list \<Rightarrow> nat option" where
  "next_key k ks = (case dropWhile (\<lambda>x. x \<le> k) ks of [] \<Rightarrow> None | x # _ \<Rightarrow> Some x)"

definition begin_key :: "nat list \<Rightarrow> nat option" where
  "begin_key ks = (case ks of [] \<Rightarrow> None | x # _ \<Rightarrow> Some x)"

text \<open>The loop of \<^verbatim>\<open>dequeue\<close>: the flow whose turn it is, and the iterator behind it.\<close>

partial_function (option) find_turn :: "(nat \<times> packet list) list \<Rightarrow> nat option \<Rightarrow> (nat \<times> nat option) option" where
  "find_turn m cur =
     (case (if cur = None then begin_key (map fst m) else cur) of
        None \<Rightarrow> None
      | Some k \<Rightarrow>
          (case map_of m k of
             None \<Rightarrow> None
           | Some l \<Rightarrow> if l \<noteq> [] then Some (k, next_key k (map fst m)) else find_turn m (next_key k (map fst m))))"

definition Fair_dequeue :: "fair_pulls \<Rightarrow> (packet option \<times> fair_pulls) option" where
  "Fair_dequeue q =
     (if fair_count q = 0 then Some (None, q)
      else case find_turn (queue_map q) (current_queue q) of
             None \<Rightarrow> None
           | Some (k, cur) \<Rightarrow>
               Some (Some (last (the (map_of (queue_map q) k))),
                     q\<lparr>queue_map := on_queue k butlast (queue_map q), current_queue := cur, fair_count := fair_count q - 1\<rparr>))"

definition Fair_flush_flow :: "nat \<Rightarrow> fair_pulls \<Rightarrow> (packet list \<times> fair_pulls) option" where
  "Fair_flush_flow f q =
     (case map_of (queue_map q) f of
        None \<Rightarrow> Some ([], q)
      | Some l \<Rightarrow>
          Some (rev l,
                q\<lparr>fair_count := fair_count q - int (length l),
                  current_queue := (if current_queue q = Some f then next_key f (map fst (queue_map q)) else current_queue q),
                  queue_map := filter (\<lambda>x. fst x \<noteq> f) (queue_map q)\<rparr>))"

section \<open>The contract\<close>

text \<open>\<open>waiting f q\<close> are the pulls of the flow \<open>f\<close> in the queue, the oldest first.\<close>

datatype pull_op = Enqueue packet | Dequeue | Flush nat

fun pull_run ::
  "(packet \<Rightarrow> 'q \<Rightarrow> 'q option) \<Rightarrow> ('q \<Rightarrow> (packet option \<times> 'q) option) \<Rightarrow> (nat \<Rightarrow> 'q \<Rightarrow> (packet list \<times> 'q) option) \<Rightarrow>
     pull_op list \<Rightarrow> 'q \<Rightarrow> (packet list \<times> 'q) option" where
  "pull_run enq deq flush [] q = Some ([], q)"
| "pull_run enq deq flush (Enqueue p # ops) q = Option.bind (enq p q) (pull_run enq deq flush ops)"
| "pull_run enq deq flush (Dequeue # ops) q =
     Option.bind (deq q) (\<lambda>(r, q').
       map_option (\<lambda>(out, q''). ((case r of None \<Rightarrow> [] | Some p \<Rightarrow> [p]) @ out, q'')) (pull_run enq deq flush ops q'))"
| "pull_run enq deq flush (Flush f # ops) q =
     Option.bind (flush f q) (\<lambda>(_, q'). pull_run enq deq flush ops q')"

definition enqueued_of :: "nat \<Rightarrow> pull_op list \<Rightarrow> packet list" where
  "enqueued_of f ops = concat (map (\<lambda>x. case x of Enqueue p \<Rightarrow> if flow_id p = f then [p] else [] | _ \<Rightarrow> []) ops)"

definition pulls_only :: "pull_op list \<Rightarrow> bool" where
  "pulls_only ops \<longleftrightarrow> (\<forall>p. Enqueue p \<in> set ops \<longrightarrow> ptype p = NDPPULL)"

locale pull_queue =
  fixes enq :: "packet \<Rightarrow> 'q \<Rightarrow> 'q option"
    and deq :: "'q \<Rightarrow> (packet option \<times> 'q) option"
    and flush :: "nat \<Rightarrow> 'q \<Rightarrow> (packet list \<times> 'q) option"
    and q0 :: 'q
    and ok :: "'q \<Rightarrow> bool"
    and waiting :: "nat \<Rightarrow> 'q \<Rightarrow> packet list"
  assumes q0_ok: "ok q0" "waiting f q0 = []"
    and enq_ok: "ok q \<Longrightarrow> ptype p = NDPPULL \<Longrightarrow>
      \<exists>q'. enq p q = Some q' \<and> ok q' \<and> (\<forall>f. waiting f q' = waiting f q @ (if f = flow_id p then [p] else []))"
    and deq_none: "ok q \<Longrightarrow> \<forall>f. waiting f q = [] \<Longrightarrow> deq q = Some (None, q)"
    and deq_some: "ok q \<Longrightarrow> waiting g q \<noteq> [] \<Longrightarrow>
      \<exists>p q'. deq q = Some (Some p, q') \<and> ok q' \<and> (\<forall>f. waiting f q = (if f = flow_id p then [p] else []) @ waiting f q')"
    and flush_ok: "ok q \<Longrightarrow>
      \<exists>l q'. flush g q = Some (l, q') \<and> mset l = mset (waiting g q) \<and> ok q' \<and>
        (\<forall>f. waiting f q' = (if f = g then [] else waiting f q))"
begin

lemma deq_ok:
  assumes "ok q"
  shows "\<exists>r q'. deq q = Some (r, q') \<and> ok q' \<and>
    (\<forall>f. waiting f q = (case r of None \<Rightarrow> [] | Some p \<Rightarrow> if f = flow_id p then [p] else []) @ waiting f q') \<and>
    (r = None \<longleftrightarrow> (\<forall>f. waiting f q = []))"
proof (cases "\<forall>f. waiting f q = []")
  case False
  then obtain g where g: "waiting g q \<noteq> []"
    by blast
  obtain p q' where "deq q = Some (Some p, q')" "ok q'"
    "\<forall>f. waiting f q = (if f = flow_id p then [p] else []) @ waiting f q'"
    using deq_some [OF assms g] by blast
  then show ?thesis
    using False by (intro exI [of _ "Some p"] exI [of _ q']) simp
qed (use assms deq_none in auto)

lemma run_fifo:
  assumes "ok q" and "pulls_only ops" and "Flush f \<notin> set ops"
  shows "\<exists>out q'. pull_run enq deq flush ops q = Some (out, q') \<and> ok q' \<and>
    filter (\<lambda>p. flow_id p = f) out @ waiting f q' = waiting f q @ enqueued_of f ops"
  using assms
proof (induction ops arbitrary: q)
  case (Cons x ops)
  note rest = Cons.prems(2,3) [unfolded pulls_only_def]
  have IH: "\<exists>out q''. pull_run enq deq flush ops q' = Some (out, q'') \<and> ok q'' \<and>
      filter (\<lambda>p. flow_id p = f) out @ waiting f q'' = waiting f q' @ enqueued_of f ops" if "ok q'" for q'
    using Cons.IH [OF that] rest by (simp add: pulls_only_def)
  show ?case
  proof (cases x)
    case (Enqueue p)
    then obtain q' where "enq p q = Some q'" "ok q'" "waiting f q' = waiting f q @ (if f = flow_id p then [p] else [])"
      using enq_ok [OF Cons.prems(1), of p] rest by auto
    then show ?thesis
      using IH [of q'] Enqueue by (auto simp: enqueued_of_def)
  next
    case Dequeue
    obtain r q' where r: "deq q = Some (r, q')" "ok q'"
      "waiting f q = (case r of None \<Rightarrow> [] | Some p \<Rightarrow> if f = flow_id p then [p] else []) @ waiting f q'"
      using deq_ok [OF Cons.prems(1)] by blast
    then show ?thesis
      using IH [OF r(2)] Dequeue by (cases r) (auto simp: enqueued_of_def)
  next
    case (Flush g)
    obtain l q' where q': "flush g q = Some (l, q')" "ok q'" "waiting f q' = (if f = g then [] else waiting f q)"
      using flush_ok [OF Cons.prems(1)] by blast
    then show ?thesis
      using IH [OF q'(2)] Flush rest by (auto simp: enqueued_of_def)
  qed
qed (auto simp: enqueued_of_def)

end

section \<open>The FIFO queue satisfies it\<close>

definition fifo_ok :: "fifo_pulls \<Rightarrow> bool" where
  "fifo_ok q \<longleftrightarrow> fifo_count q = int (length (fifo_queue q)) \<and> fifo_preferred q = -1 \<and> (\<forall>p \<in> set (fifo_queue q). ptype p = NDPPULL)"

definition fifo_waiting :: "nat \<Rightarrow> fifo_pulls \<Rightarrow> packet list" where
  "fifo_waiting f q = filter (\<lambda>p. flow_id p = f) (rev (fifo_queue q))"

lemma length_filter_split: "length (filter P xs) + length (filter (\<lambda>x. \<not> P x) xs) = length xs"
  by (induction xs) auto

interpretation fifo_pulls: pull_queue Fifo_enqueue Fifo_dequeue Fifo_flush_flow FifoPullQueue fifo_ok fifo_waiting
proof unfold_locales
  fix q p g
  assume q: "fifo_ok q"
  show "\<exists>q'. Fifo_enqueue p q = Some q' \<and> fifo_ok q' \<and>
      (\<forall>f. fifo_waiting f q' = fifo_waiting f q @ (if f = flow_id p then [p] else []))" if "ptype p = NDPPULL"
    using q that by (auto simp: Fifo_enqueue_def fifo_ok_def fifo_waiting_def count_checked_def Let_def)
  show "Fifo_dequeue q = Some (None, q)" if none: "\<forall>f. fifo_waiting f q = []"
  proof -
    have "fifo_queue q \<noteq> [] \<Longrightarrow> fifo_waiting (flow_id (last (fifo_queue q))) q \<noteq> []"
      by (auto simp: fifo_waiting_def filter_empty_conv)
    then have "fifo_queue q = []"
      using none by blast
    then show ?thesis
      using q by (simp add: Fifo_dequeue_def fifo_ok_def)
  qed
  show "\<exists>p q'. Fifo_dequeue q = Some (Some p, q') \<and> fifo_ok q' \<and>
      (\<forall>f. fifo_waiting f q = (if f = flow_id p then [p] else []) @ fifo_waiting f q')" if "fifo_waiting g q \<noteq> []"
    using q that by (cases "fifo_queue q" rule: rev_cases) (auto simp: Fifo_dequeue_def fifo_ok_def fifo_waiting_def count_checked_def)
  have "filter (\<lambda>p. flow_id p = g \<and> ptype p = NDPPULL) (fifo_queue q) = filter (\<lambda>p. flow_id p = g) (fifo_queue q)"
    "filter (\<lambda>p. flow_id p = g \<longrightarrow> ptype p \<noteq> NDPPULL) (fifo_queue q) = filter (\<lambda>p. flow_id p \<noteq> g) (fifo_queue q)"
    using q by (auto simp: fifo_ok_def intro: filter_cong)
  moreover have "int (length (fifo_queue q)) - int (length (filter (\<lambda>p. flow_id p = g) (fifo_queue q))) =
      int (length (filter (\<lambda>p. flow_id p \<noteq> g) (fifo_queue q)))"
    using length_filter_split [of "\<lambda>p. flow_id p = g" "fifo_queue q"] by simp
  moreover have "filter (\<lambda>p. flow_id p = f) (filter (\<lambda>p. flow_id p \<noteq> g) xs) =
      (if f = g then [] else filter (\<lambda>p. flow_id p = f) xs)" for f and xs :: "packet list"
    by (induction xs) auto
  ultimately show "\<exists>l q'. Fifo_flush_flow g q = Some (l, q') \<and> mset l = mset (fifo_waiting g q) \<and> fifo_ok q' \<and>
      (\<forall>f. fifo_waiting f q' = (if f = g then [] else fifo_waiting f q))"
    using q by (auto simp: Fifo_flush_flow_def fifo_ok_def fifo_waiting_def count_checked_def Let_def rev_filter [symmetric])
qed (simp_all add: fifo_ok_def fifo_waiting_def FifoPullQueue_def)

section \<open>The fair queue\<close>

definition fair_ok :: "fair_pulls \<Rightarrow> bool" where
  "fair_ok q \<longleftrightarrow>
     sorted_wrt (<) (map fst (queue_map q)) \<and> fair_count q = int (\<Sum>x\<leftarrow>queue_map q. length (snd x)) \<and>
     (\<forall>k. current_queue q = Some k \<longrightarrow> k \<in> set (map fst (queue_map q))) \<and>
     (\<forall>(k, l) \<in> set (queue_map q). \<forall>p \<in> set l. flow_id p = k)"

definition fair_waiting :: "nat \<Rightarrow> fair_pulls \<Rightarrow> packet list" where
  "fair_waiting f q = (case map_of (queue_map q) f of None \<Rightarrow> [] | Some l \<Rightarrow> rev l)"

text \<open>The flows in the order of their turns.\<close>

definition rotation :: "nat option \<Rightarrow> nat list \<Rightarrow> nat list" where
  "rotation cur ks = (case cur of None \<Rightarrow> ks | Some c \<Rightarrow> dropWhile (\<lambda>x. x < c) ks @ takeWhile (\<lambda>x. x < c) ks)"

definition turns :: "fair_pulls \<Rightarrow> nat list" where
  "turns q = rotation (current_queue q) (map fst (queue_map q))"

lemma set_rotation: "set (rotation cur ks) = set ks"
proof (cases cur)
  case (Some c)
  have "set (takeWhile (\<lambda>x. x < c) ks @ dropWhile (\<lambda>x. x < c) ks) = set ks"
    by simp
  then show ?thesis
    using Some by (simp add: rotation_def Un_commute del: takeWhile_dropWhile_id)
qed (simp add: rotation_def)

lemma sorted_wrt_split:
  fixes k :: nat
  assumes "sorted_wrt (<) (xs @ k # ys)"
  shows "takeWhile (\<lambda>x. x < k) (xs @ k # ys) = xs" "dropWhile (\<lambda>x. x < k) (xs @ k # ys) = k # ys"
    "dropWhile (\<lambda>x. x \<le> k) (xs @ k # ys) = ys" "takeWhile (\<lambda>x. x \<le> k) (xs @ k # ys) = xs @ [k]"
proof -
  have *: "\<forall>x \<in> set xs. x < k" "\<forall>y \<in> set ys. k < y"
    using assms by (auto simp: sorted_wrt_append)
  then show "takeWhile (\<lambda>x. x < k) (xs @ k # ys) = xs" "dropWhile (\<lambda>x. x < k) (xs @ k # ys) = k # ys"
    by simp_all
  have "dropWhile (\<lambda>x. x \<le> k) ys = ys" "takeWhile (\<lambda>x. x \<le> k) ys = []"
    using *(2) by (cases ys; fastforce)+
  then show "dropWhile (\<lambda>x. x \<le> k) (xs @ k # ys) = ys" "takeWhile (\<lambda>x. x \<le> k) (xs @ k # ys) = xs @ [k]"
    using *(1) by (simp_all add: less_imp_le)
qed

lemma rotation_next:
  assumes "sorted_wrt (<) (xs @ k # ys)"
  shows "rotation (next_key k (xs @ k # ys)) (xs @ k # ys) = ys @ xs @ [k]"
proof (cases ys)
  case Nil
  then show ?thesis
    using sorted_wrt_split(3) [OF assms] by (simp add: next_key_def rotation_def)
next
  case (Cons y zs)
  then have "sorted_wrt (<) ((xs @ [k]) @ y # zs)"
    using assms by simp
  from sorted_wrt_split(1,2) [OF this] show ?thesis
    using sorted_wrt_split(3) [OF assms] Cons by (simp add: next_key_def rotation_def)
qed

text \<open>The first in the order is the one that the loop looks at; it is the last one when it has been looked at.\<close>

lemma rotation_head:
  assumes "sorted_wrt (<) ks" and "rotation cur ks = k # r" and "\<forall>c. cur = Some c \<longrightarrow> c \<in> set ks"
  shows "(if cur = None then begin_key ks else cur) = Some k" "k \<in> set ks" "rotation (next_key k ks) ks = r @ [k]"
proof -
  obtain xs ys where ks: "ks = xs @ k # ys" "r = ys @ xs" "cur = Some k \<or> cur = None \<and> xs = []"
  proof (cases cur)
    case None
    then show ?thesis
      using assms(2) that [of "[]" r] by (simp add: rotation_def)
  next
    case (Some c)
    then obtain xs ys where "ks = xs @ c # ys"
      using assms(3) split_list by metis
    then show ?thesis
      using assms(1,2) Some that sorted_wrt_split(1,2) [of xs c ys] by (simp add: rotation_def)
  qed
  then show "(if cur = None then begin_key ks else cur) = Some k" "k \<in> set ks"
    by (auto simp: begin_key_def)
  show "rotation (next_key k ks) ks = r @ [k]"
    using rotation_next [of xs k ys] assms(1) ks(1,2) by simp
qed

lemma next_key_in: "next_key k ks = Some c \<Longrightarrow> c \<in> set ks"
  using set_dropWhileD [of _ "\<lambda>x. x \<le> k" ks] by (fastforce simp: next_key_def split: list.splits)

lemma find_turn_returns:
  assumes "sorted_wrt (<) (map fst m)" and "\<forall>c. cur = Some c \<longrightarrow> c \<in> set (map fst m)"
    and "rotation cur (map fst m) = ks1 @ k # ks2" and "\<forall>x \<in> set ks1. map_of m x = Some []"
    and "map_of m k = Some l" and "l \<noteq> []"
  shows "find_turn m cur = Some (k, next_key k (map fst m)) \<and> rotation (next_key k (map fst m)) (map fst m) = ks2 @ ks1 @ [k]"
  using assms
proof (induction ks1 arbitrary: cur ks2)
  case Nil
  then show ?case
    using rotation_head [of "map fst m" cur k ks2] by (subst find_turn.simps) simp
next
  case (Cons k1 ks1)
  let ?ks = "map fst m"
  have 1: "(if cur = None then begin_key ?ks else cur) = Some k1" "rotation (next_key k1 ?ks) ?ks = ks1 @ k # ks2 @ [k1]"
    using rotation_head [of ?ks cur k1 "ks1 @ k # ks2"] Cons.prems by simp_all
  have "\<forall>c. next_key k1 ?ks = Some c \<longrightarrow> c \<in> set ?ks"
    using next_key_in by blast
  then have "find_turn m (next_key k1 ?ks) = Some (k, next_key k ?ks) \<and> rotation (next_key k ?ks) ?ks = (ks2 @ [k1]) @ ks1 @ [k]"
    using Cons.IH [of "next_key k1 ?ks" "ks2 @ [k1]"] Cons.prems 1(2) by simp
  moreover have "find_turn m cur = find_turn m (next_key k1 ?ks)"
    using 1(1) Cons.prems(4) by (subst find_turn.simps) simp
  ultimately show ?case
    by simp
qed

lemma on_queue_simps [simp]:
  "map fst (on_queue f g m) = map fst m"
  "map_of (on_queue f g m) k = map_option (if k = f then g else (\<lambda>l. l)) (map_of m k)"
  by (induction m) (auto simp: on_queue_def)

lemma set_on_queue: "(k, l) \<in> set (on_queue f g m) \<longleftrightarrow> (\<exists>l'. (k, l') \<in> set m \<and> l = (if k = f then g l' else l'))"
  by (force simp: on_queue_def)

lemma fst_on_queue [simp]: "fst ` set (on_queue f g m) = fst ` set m"
  by (metis list.set_map on_queue_simps(1))

text \<open>Changing the list of one flow changes the sum of the lengths by the change of its length.\<close>

lemma sum_on_queue:
  assumes "sorted_wrt (<) (map fst m)" and "map_of m f = Some l"
  shows "int (\<Sum>x\<leftarrow>on_queue f g m. length (snd x)) = int (\<Sum>x\<leftarrow>m. length (snd x)) + int (length (g l)) - int (length l)"
  using assms
proof (induction m)
  case (Cons x m)
  show ?case
  proof (cases "fst x = f")
    case True
    then have "on_queue f g m = m"
      using Cons.prems(1) by (force simp: on_queue_def intro: map_idI)
    then show ?thesis
      using True Cons.prems(2) by (cases x) (simp add: on_queue_def)
  next
    case False
    then show ?thesis
      using Cons by (cases x) (simp add: on_queue_def)
  qed
qed simp

lemma new_entry_props:
  assumes "sorted_wrt (<) (map fst m)" and "map_of m f = None"
  shows "sorted_wrt (<) (map fst (new_entry f m))" "set (new_entry f m) = insert (f, []) (set m)"
    "map_of (new_entry f m) = (map_of m)(f \<mapsto> [])" "(\<Sum>x\<leftarrow>new_entry f m. length (snd x)) = (\<Sum>x\<leftarrow>m. length (snd x))"
proof -
  show "set (new_entry f m) = insert (f, []) (set m)"
    by (induction m) auto
  show "(\<Sum>x\<leftarrow>new_entry f m. length (snd x)) = (\<Sum>x\<leftarrow>m. length (snd x))"
    by (induction m) auto
  have set: "set (map fst (new_entry f xs)) = insert f (set (map fst xs))" for xs
    by (induction xs) auto
  show "sorted_wrt (<) (map fst (new_entry f m))"
    using assms
  proof (induction m)
    case (Cons x m)
    then show ?case
      using set [of m] by (cases x) (auto split: if_splits)
  qed simp
  show "map_of (new_entry f m) = (map_of m)(f \<mapsto> [])"
    using assms by (induction m) (auto split: if_splits)
qed

lemma remove_entry_props:
  fixes f :: nat
  assumes "sorted_wrt (<) (map fst m)" and "map_of m f = Some l"
  shows "int (\<Sum>x\<leftarrow>filter (\<lambda>x. fst x \<noteq> f) m. length (snd x)) = int (\<Sum>x\<leftarrow>m. length (snd x)) - int (length l)"
    "map_of (filter (\<lambda>x. fst x \<noteq> f) m) = (map_of m)(f := None)"
    "sorted_wrt (<) (map fst (filter (\<lambda>x. fst x \<noteq> f) m))"
proof -
  show "int (\<Sum>x\<leftarrow>filter (\<lambda>x. fst x \<noteq> f) m. length (snd x)) = int (\<Sum>x\<leftarrow>m. length (snd x)) - int (length l)"
    using assms
  proof (induction m)
    case (Cons x m)
    show ?case
    proof (cases "fst x = f")
      case True
      then have "\<forall>y \<in> set m. f < fst y"
        using Cons.prems(1) by simp
      then have "\<forall>y \<in> set m. fst y \<noteq> f"
        using less_not_refl2 by blast
      then have "filter (\<lambda>x. fst x \<noteq> f) m = m"
        by (rule filter_True)
      then show ?thesis
        using True Cons.prems(2) by (cases x) simp
    next
      case False
      then show ?thesis
        using Cons by (cases x) simp
    qed
  qed simp
  show "map_of (filter (\<lambda>x. fst x \<noteq> f) m) = (map_of m)(f := None)"
    by (induction m) auto
  show "sorted_wrt (<) (map fst (filter (\<lambda>x. fst x \<noteq> f) m))"
    using assms(1) by (induction m) auto
qed

lemma fair_enq:
  assumes "fair_ok q"
  shows "\<exists>q'. Fair_enqueue p q = Some q' \<and> fair_ok q' \<and>
    (\<forall>f. fair_waiting f q' = fair_waiting f q @ (if f = flow_id p then [p] else []))"
proof -
  define q1 where "q1 = (if queue_exists p q then q else create_queue p q)"
  let ?q = "q1\<lparr>queue_map := on_queue (flow_id p) ((#) p) (queue_map q1), fair_count := fair_count q1 + 1\<rparr>"
  note ok = assms [unfolded fair_ok_def]
  have q1: "fair_ok q1" "\<forall>f. fair_waiting f q1 = fair_waiting f q" "\<exists>l. map_of (queue_map q1) (flow_id p) = Some l"
    using ok new_entry_props [of "queue_map q" "flow_id p"]
    by (auto simp: q1_def queue_exists_def create_queue_def fair_ok_def fair_waiting_def)
  then obtain l where l: "map_of (queue_map q1) (flow_id p) = Some l"
    by blast
  have "\<forall>(k, l) \<in> set (on_queue (flow_id p) ((#) p) (queue_map q1)). \<forall>r \<in> set l. flow_id r = k"
    using q1(1) by (fastforce simp: fair_ok_def set_on_queue split: if_splits)
  then have "fair_ok ?q"
    using q1(1) sum_on_queue [OF _ l, of "(#) p"] by (simp add: fair_ok_def)
  moreover have "fair_waiting f ?q = fair_waiting f q @ (if f = flow_id p then [p] else [])" for f
    using l spec [OF q1(2), of f] by (auto simp: fair_waiting_def split: option.splits)
  moreover have "Fair_enqueue p q = Some ?q"
    by (simp add: Fair_enqueue_def q1_def Let_def)
  ultimately show ?thesis
    by blast
qed

text \<open>
  A dequeue looks at the flows in the order of the turns.  The first with a pull is served, and is the last in the new
  order.
\<close>

lemma fair_deq:
  assumes ok: "fair_ok q" and "fair_waiting g q \<noteq> []"
  shows "\<exists>p q' ks1 ks2. Fair_dequeue q = Some (Some p, q') \<and> fair_ok q' \<and>
    turns q = ks1 @ flow_id p # ks2 \<and> turns q' = ks2 @ ks1 @ [flow_id p] \<and> (\<forall>k \<in> set ks1. fair_waiting k q = []) \<and>
    (\<forall>f. fair_waiting f q = (if f = flow_id p then [p] else []) @ fair_waiting f q')"
proof -
  let ?m = "queue_map q" and ?ks = "map fst (queue_map q)"
  have srt: "sorted_wrt (<) ?ks" and cur: "\<forall>c. current_queue q = Some c \<longrightarrow> c \<in> set ?ks"
    using ok by (simp_all add: fair_ok_def)
  have set: "set (turns q) = set ?ks"
    by (simp add: turns_def set_rotation)
  have g: "g \<in> set (turns q)" "fair_waiting g q \<noteq> []"
    using assms(2) set by (auto simp: fair_waiting_def split: option.splits dest!: map_of_SomeD) force
  then obtain ks1 k ks2 where t: "turns q = ks1 @ k # ks2" "fair_waiting k q \<noteq> []" "\<forall>x \<in> set ks1. fair_waiting x q = []"
    using split_list_first_prop [of "turns q" "\<lambda>k. fair_waiting k q \<noteq> []"] by blast
  obtain l where l: "map_of ?m k = Some l" "l \<noteq> []"
    using t(2) by (auto simp: fair_waiting_def split: option.splits)
  have "map_of ?m x = Some []" if "x \<in> set ks1" for x
  proof -
    have "map_of ?m x \<noteq> None"
      using that set t(1) by (auto simp: map_of_eq_None_iff)
    then show ?thesis
      using t(3) that by (auto simp: fair_waiting_def)
  qed
  then have ft: "find_turn ?m (current_queue q) = Some (k, next_key k ?ks)" "rotation (next_key k ?ks) ?ks = ks2 @ ks1 @ [k]"
    using find_turn_returns [OF srt cur t(1) [unfolded turns_def] _ l] by blast+
  let ?q = "q\<lparr>queue_map := on_queue k butlast ?m, current_queue := next_key k ?ks, fair_count := fair_count q - 1\<rparr>"
  have in_m: "(k, l) \<in> set ?m"
    using l(1) by (rule map_of_SomeD)
  then have flow: "flow_id (last l) = k"
    using ok l(2) by (fastforce simp: fair_ok_def)
  have "fair_count q \<noteq> 0"
    using ok l(2) in_m by (force simp: fair_ok_def)
  then have 1: "Fair_dequeue q = Some (Some (last l), ?q)"
    using ft(1) l(1) by (simp add: Fair_dequeue_def)
  have "\<forall>(k', l') \<in> set (on_queue k butlast ?m). \<forall>p \<in> set l'. flow_id p = k'"
    using ok by (fastforce simp: fair_ok_def set_on_queue split: if_splits dest: in_set_butlastD)
  moreover have "int (\<Sum>x\<leftarrow>on_queue k butlast ?m. length (snd x)) = fair_count q - 1"
    using sum_on_queue [OF srt l(1), of butlast] ok l(2) by (cases l) (simp_all add: fair_ok_def)
  moreover have "next_key k ?ks = Some c \<Longrightarrow> c \<in> set ?ks" for c
    by (rule next_key_in)
  ultimately have 2: "fair_ok ?q"
    using srt by (simp add: fair_ok_def)
  have 3: "fair_waiting f q = (if f = k then [last l] else []) @ fair_waiting f ?q" for f
    using l by (cases l rule: rev_cases) (auto simp: fair_waiting_def split: option.splits)
  show ?thesis
    using 1 2 3 t(1,3) ft(2) flow by (intro exI [of _ "last l"] exI [of _ ?q] exI [of _ ks1] exI [of _ ks2]) (simp add: turns_def)
qed

lemma fair_flush:
  assumes "fair_ok q"
  shows "\<exists>l q'. Fair_flush_flow g q = Some (l, q') \<and> mset l = mset (fair_waiting g q) \<and> fair_ok q' \<and>
    (\<forall>f. fair_waiting f q' = (if f = g then [] else fair_waiting f q))"
proof (cases "map_of (queue_map q) g")
  case None
  then show ?thesis
    using assms by (simp add: Fair_flush_flow_def fair_waiting_def)
next
  case (Some l)
  let ?ks = "map fst (queue_map q)"
  define q' where "q' = snd (the (Fair_flush_flow g q))"
  have 1: "Fair_flush_flow g q = Some (rev l, q')"
    using Some by (simp add: q'_def Fair_flush_flow_def)
  have srt: "sorted_wrt (<) ?ks"
    using assms by (simp add: fair_ok_def)
  note rm = remove_entry_props [OF srt Some]
  have "next_key g ?ks = Some c \<Longrightarrow> c \<noteq> g" for c
    using srt by (auto simp: next_key_def split: list.splits dest: dropWhile_eq_Cons_conv [THEN iffD1])
  then have "current_queue q' = Some c \<Longrightarrow> c \<in> set (map fst (queue_map q'))" for c
    using assms next_key_in [of g ?ks c] by (auto simp: q'_def Fair_flush_flow_def Some fair_ok_def split: if_splits)
  then have 2: "fair_ok q'"
    using assms rm by (auto simp: fair_ok_def q'_def Fair_flush_flow_def Some)
  have 3: "\<forall>f. fair_waiting f q' = (if f = g then [] else fair_waiting f q)"
    using rm(2) by (simp add: fair_waiting_def q'_def Fair_flush_flow_def Some)
  show ?thesis
    using 1 2 3 Some by (auto simp: fair_waiting_def)
qed

lemma fair_empty:
  assumes "fair_ok q"
  shows "fair_count q = 0 \<longleftrightarrow> (\<forall>f. fair_waiting f q = [])"
proof -
  have key: "map_of (queue_map q) k = Some l" if "(k, l) \<in> set (queue_map q)" for k l
    using assms that by (simp add: fair_ok_def strict_sorted_iff)
  have "fair_count q = 0 \<longleftrightarrow> (\<forall>(k, l) \<in> set (queue_map q). l = [])"
    using assms by (auto simp: fair_ok_def)
  also have "\<dots> \<longleftrightarrow> (\<forall>f. fair_waiting f q = [])"
    using key by (fastforce simp: fair_waiting_def split: option.splits dest: map_of_SomeD)
  finally show ?thesis .
qed

interpretation fair_pulls: pull_queue Fair_enqueue Fair_dequeue Fair_flush_flow FairPullQueue fair_ok fair_waiting
proof unfold_locales
  fix q p g
  assume q: "fair_ok q"
  show "\<exists>q'. Fair_enqueue p q = Some q' \<and> fair_ok q' \<and>
      (\<forall>f. fair_waiting f q' = fair_waiting f q @ (if f = flow_id p then [p] else []))"
    by (rule fair_enq [OF q])
  show "Fair_dequeue q = Some (None, q)" if "\<forall>f. fair_waiting f q = []"
    using fair_empty [OF q] that by (simp add: Fair_dequeue_def)
  show "\<exists>p q'. Fair_dequeue q = Some (Some p, q') \<and> fair_ok q' \<and>
      (\<forall>f. fair_waiting f q = (if f = flow_id p then [p] else []) @ fair_waiting f q')" if "fair_waiting g q \<noteq> []"
    using fair_deq [OF q that] by blast
  show "\<exists>l q'. Fair_flush_flow g q = Some (l, q') \<and> mset l = mset (fair_waiting g q) \<and> fair_ok q' \<and>
      (\<forall>f. fair_waiting f q' = (if f = g then [] else fair_waiting f q))"
    by (rule fair_flush [OF q])
qed (simp_all add: fair_ok_def fair_waiting_def FairPullQueue_def)

section \<open>Properties\<close>

text \<open>
  A queue for every flow: whatever is enqueued, dequeued and flushed, no operation fails or loops for ever, and the
  pulls of a flow that is not flushed leave in the order in which they came, all but those that still wait.
\<close>

theorem fair_queue_order:
  assumes "pulls_only ops" and "Flush f \<notin> set ops"
  shows "\<exists>out q. pull_run Fair_enqueue Fair_dequeue Fair_flush_flow ops FairPullQueue = Some (out, q) \<and> fair_ok q \<and>
    filter (\<lambda>p. flow_id p = f) out @ fair_waiting f q = enqueued_of f ops"
  using fair_pulls.run_fifo [OF fair_pulls.q0_ok(1) assms] by (simp add: fair_pulls.q0_ok(2))

text \<open>The flows of a number of pulls that are dequeued.\<close>

fun dequeues :: "nat \<Rightarrow> fair_pulls \<Rightarrow> (nat list \<times> fair_pulls) option" where
  "dequeues 0 q = Some ([], q)"
| "dequeues (Suc n) q =
     (case Fair_dequeue q of
        Some (Some p, q') \<Rightarrow> map_option (\<lambda>(fs, r). (flow_id p # fs, r)) (dequeues n q')
      | _ \<Rightarrow> None)"

lemma waiting_turn: "fair_waiting f q \<noteq> [] \<Longrightarrow> f \<in> set (turns q)"
  by (force simp: turns_def set_rotation fair_waiting_def split: option.splits dest: map_of_SomeD)

lemma distinct_turns: "fair_ok q \<Longrightarrow> distinct (turns q)"
proof -
  assume "fair_ok q"
  then have "distinct (map fst (queue_map q))"
    by (simp add: fair_ok_def strict_sorted_iff)
  moreover have "distinct (dropWhile P ks @ takeWhile P ks)" if "distinct ks" for P and ks :: "nat list"
    using that distinct_append [of "takeWhile P ks" "dropWhile P ks"] by auto
  ultimately show ?thesis
    by (auto simp: turns_def rotation_def split: option.splits)
qed

text \<open>
  Claim C21.  The queue is fair: when a flow \<open>f\<close> has a pull, then of consecutive dequeues it gets one after at most as many as flows come
  before it in the order of the turns, and no other flow is served twice before.
\<close>

theorem fair_queue_share:
  assumes "fair_ok q" and "fair_waiting f q \<noteq> []"
  shows "\<exists>n fs q'. dequeues (Suc n) q = Some (fs @ [f], q') \<and> fair_ok q' \<and> distinct (fs @ [f]) \<and>
    set fs \<subseteq> set (takeWhile (\<lambda>k. k \<noteq> f) (turns q)) \<and> n \<le> length (takeWhile (\<lambda>k. k \<noteq> f) (turns q))"
  using assms
proof (induction "length (takeWhile (\<lambda>k. k \<noteq> f) (turns q))" arbitrary: q rule: less_induct)
  case less
  obtain p q' ks1 ks2 where d: "Fair_dequeue q = Some (Some p, q')" "fair_ok q'" "turns q = ks1 @ flow_id p # ks2"
    "turns q' = ks2 @ ks1 @ [flow_id p]" "\<forall>k \<in> set ks1. fair_waiting k q = []"
    "\<forall>f. fair_waiting f q = (if f = flow_id p then [p] else []) @ fair_waiting f q'"
    using fair_deq [OF less.prems] by blast
  show ?case
  proof (cases "flow_id p = f")
    case True
    then show ?thesis
      using d(1,2) by (intro exI [of _ 0] exI [of _ "[]"] exI [of _ q']) simp
  next
    case False
    have "f \<in> set (turns q)"
      by (rule waiting_turn [OF less.prems(2)])
    then have f: "f \<notin> set ks1" "f \<in> set ks2"
      using d(3,5) less.prems(2) False by auto
    then have tw: "takeWhile (\<lambda>k. k \<noteq> f) (turns q) = ks1 @ flow_id p # takeWhile (\<lambda>k. k \<noteq> f) ks2"
      "takeWhile (\<lambda>k. k \<noteq> f) (turns q') = takeWhile (\<lambda>k. k \<noteq> f) ks2"
      using d(3,4) False by (auto simp: takeWhile_append)
    have "flow_id p \<notin> set ks2"
      using distinct_turns [OF less.prems(1)] d(3) by simp
    moreover obtain n fs r where "dequeues (Suc n) q' = Some (fs @ [f], r)" "fair_ok r" "distinct (fs @ [f])"
      "set fs \<subseteq> set (takeWhile (\<lambda>k. k \<noteq> f) ks2)" "n \<le> length (takeWhile (\<lambda>k. k \<noteq> f) ks2)"
      using less.hyps [of q'] less.prems(2) d(2,6) tw False by auto
    ultimately show ?thesis
      using d(1) tw(1) False
      by (intro exI [of _ "Suc n"] exI [of _ "flow_id p # fs"] exI [of _ r]) (auto dest: set_takeWhileD)
  qed
qed

definition a_pull :: "nat \<Rightarrow> packet" where
  "a_pull f = blank\<lparr>ptype := NDPPULL, flow_id := f\<rparr>"

definition two_flows :: fair_pulls where
  "two_flows = \<lparr>fair_count = 3, queue_map = [(1, [a_pull 1, a_pull 1]), (2, [a_pull 2])], current_queue = Some 1\<rparr>"

theorem fair_queue_share_witness:
  "\<exists>n fs q'. dequeues (Suc n) two_flows = Some (fs @ [2], q') \<and> distinct (fs @ [2]) \<and> n \<le> 1"
proof -
  have "fair_ok two_flows" "fair_waiting 2 two_flows \<noteq> []"
    by (simp_all add: fair_ok_def fair_waiting_def two_flows_def a_pull_def)
  from fair_queue_share [OF this] show ?thesis
    by (auto simp: turns_def rotation_def two_flows_def)
qed

end
