(* ===== verification/Ndp_Pacer.thy ===== *)
theory Ndp_Pacer
  imports Ndp_Pull
begin

text \<open>
  The pull pacer of an NDP receiver (\<^verbatim>\<open>NdpPullPacer\<close> of \<^verbatim>\<open>ndp.cpp\<close>), a device that receives the acknowledgements
  of the sinks of one host and lets the senders send: an acknowledgement goes out with the pull bit set, or without it
  and a pull packet for it is queued, so that the pulls are a packet's time apart.  The draws from the distribution of
  spacings that the second constructor reads are a list (\<open>spacings\<close>).  \<^verbatim>\<open>RCV_CWND\<close> is 0, so that the comparison
  of unsigned numbers that enlarges the window is never true; messages and their counters are left out.
\<close>

section \<open>Operations\<close>

record pacer =
  pulls :: fair_pulls
  last_pull :: nat
  packet_drain_time :: nat
  spacings :: "nat list"
  pacer_no :: nat

text \<open>The packet size is in bytes, the link has 10 Gb/s; rate modifiers that are integers.\<close>

definition NdpPullPacer :: "nat \<Rightarrow> nat \<Rightarrow> pacer" where
  "NdpPullPacer data_packet_size pull_rate_modifier =
     \<lparr>pulls = FairPullQueue, last_pull = 0,
      packet_drain_time = (data_packet_size * (10 ^ 12 * 8) div 10 ^ 10) div pull_rate_modifier, spacings = [], pacer_no = 0\<rparr>"

definition NdpPullPacer_cdf :: "nat list \<Rightarrow> pacer" where
  "NdpPullPacer_cdf draws = \<lparr>pulls = FairPullQueue, last_pull = 0, packet_drain_time = 0, spacings = draws, pacer_no = 0\<rparr>"

definition drain_time :: "pacer \<Rightarrow> (nat \<times> pacer) option" where
  "drain_time s =
     (if 0 < packet_drain_time s then Some (packet_drain_time s, s)
      else case spacings s of [] \<Rightarrow> None | d # ds \<Rightarrow> Some (d, s\<lparr>spacings := ds\<rparr>))"

definition set_pacerno :: "nat \<Rightarrow> packet \<Rightarrow> packet option" where
  "set_pacerno n p = (if ptype p \<in> {NDPACK, NDPNACK, NDPPULL} then Some (p\<lparr>pacerno := n\<rparr>) else None)"

text \<open>\<open>old\<close> is the packet from the database that becomes the pull packet.\<close>

definition sendPacket :: "nat \<Rightarrow> packet \<Rightarrow> packet \<Rightarrow> pacer \<Rightarrow> (pacer \<times> action list) option" where
  "sendPacket tm old ack s =
     (case drain_time s of
        None \<Rightarrow> None
      | Some (dt, s1) \<Rightarrow>
          let none = (fair_count (pulls s1) = 0); delta = tm - last_pull s1
          in if none \<and> dt \<le> delta
             then (case set_pacerno (pacer_no s1) ack of
                     None \<Rightarrow> None
                   | Some a \<Rightarrow> Some (s1\<lparr>pacer_no := pacer_no s1 + 1, last_pull := tm\<rparr>, [Send a]))
             else if ptype ack \<notin> {NDPACK, NDPNACK} then None
             else case NdpPull_newpkt old ack of
                    None \<Rightarrow> None
                  | Some pull_pkt \<Rightarrow>
                      map_option (\<lambda>q. (s1\<lparr>pulls := q\<rparr>, (if none then [Pending (dt - delta)] else []) @ [Send (dont_pull ack)]))
                        (Fair_enqueue pull_pkt (pulls s1)))"

definition release_pulls :: "nat \<Rightarrow> pacer \<Rightarrow> (pacer \<times> action list) option" where
  "release_pulls f s = map_option (\<lambda>(freed, q). (s\<lparr>pulls := q\<rparr>, map Free freed)) (Fair_flush_flow f (pulls s))"

definition pacer_doNextEvent :: "nat \<Rightarrow> pacer \<Rightarrow> (pacer \<times> action list) option" where
  "pacer_doNextEvent tm s =
     (if fair_count (pulls s) = 0 then Some (s, [])
      else case Fair_dequeue (pulls s) of
             Some (Some pkt, q) \<Rightarrow>
               (case set_pacerno (pacer_no s) pkt of
                  None \<Rightarrow> None
                | Some p \<Rightarrow>
                    (case drain_time (s\<lparr>pulls := q, pacer_no := pacer_no s + 1, last_pull := tm\<rparr>) of
                       None \<Rightarrow> None
                     | Some (dt, s1) \<Rightarrow> Some (s1, Send p # (if fair_count q \<noteq> 0 then [Pending dt] else []))))
           | _ \<Rightarrow> None)"

datatype pacer_input = Feedback packet packet | Release nat

fun pacer_recv :: "nat \<Rightarrow> pacer_input \<Rightarrow> pacer \<Rightarrow> (pacer \<times> action list) option" where
  "pacer_recv tm (Feedback old ack) s = sendPacket tm old ack s"
| "pacer_recv tm (Release f) s = release_pulls f s"

section \<open>Invariant\<close>

text \<open>A packet that lets the sender send, and the times at which such packets went out.\<close>

definition grants_pull :: "packet \<Rightarrow> bool" where
  "grants_pull p \<longleftrightarrow> ptype p = NDPPULL \<or> pull p"

definition granted :: "(nat \<times> packet) list \<Rightarrow> (nat \<times> packet) list" where
  "granted outs = filter (\<lambda>x. grants_pull (snd x)) outs"

definition spaced :: "nat \<Rightarrow> nat list \<Rightarrow> bool" where
  "spaced d ts \<longleftrightarrow> successively (\<lambda>x y. x + d \<le> y) ts"

definition of_flow :: "nat \<Rightarrow> packet list \<Rightarrow> packet list" where
  "of_flow f ps = filter (\<lambda>p. flow_id p = f) ps"

fun feedbacks :: "(nat \<times> pacer_input) list \<Rightarrow> (nat \<times> packet) list" where
  "feedbacks [] = []"
| "feedbacks ((t, Feedback old ack) # ins) = (t, ack) # feedbacks ins"
| "feedbacks ((t, Release f) # ins) = feedbacks ins"

fun acknowledges :: "pacer_input \<Rightarrow> bool" where
  "acknowledges (Feedback old ack) \<longleftrightarrow> ptype ack \<in> {NDPACK, NDPNACK} \<and> pull ack \<and> proute ack \<noteq> None"
| "acknowledges (Release f) \<longleftrightarrow> False"

definition pacer_inv :: "nat \<Rightarrow> (nat \<times> pacer_input) list \<Rightarrow> pacer world \<Rightarrow> unit event_list \<Rightarrow> bool" where
  "pacer_inv d ins w ev \<longleftrightarrow>
     (let s = w_st w; gs = granted (w_out w)
      in packet_drain_time s = d \<and> (ins \<noteq> [] \<longrightarrow> 0 < d) \<and> fair_ok (pulls s) \<and> (\<forall>f. \<forall>p \<in> set (fair_waiting f (pulls s)). ptype p = NDPPULL) \<and>
         last_pull s \<le> now ev \<and> spaced d (map fst gs) \<and> (gs \<noteq> [] \<longrightarrow> fst (last gs) = last_pull s) \<and>
         map (\<lambda>x. pacerno (snd x)) gs = [0..<pacer_no s] \<and>
         (\<forall>f. map pullno (of_flow f (map snd gs) @ fair_waiting f (pulls s)) = map pullno (of_flow f (map snd (feedbacks ins)))) \<and>
         map (\<lambda>x. (fst x, ackno (snd x))) (filter (\<lambda>x. ptype (snd x) \<noteq> NDPPULL) (w_out w)) =
           map (\<lambda>x. (fst x, ackno (snd x))) (feedbacks ins) \<and>
         due (if fair_count (pulls s) = 0 then None else Some (last_pull s + d)) ev)"

lemma granted_simps [simp]:
  "granted [] = []" "granted (xs @ ys) = granted xs @ granted ys" "granted [x] = (if grants_pull (snd x) then [x] else [])"
  by (simp_all add: granted_def)

lemma spaced_snoc: "spaced d (xs @ [y]) \<longleftrightarrow> spaced d xs \<and> (xs \<noteq> [] \<longrightarrow> last xs + d \<le> y)"
  by (auto simp: spaced_def successively_append_iff)

lemma of_flow_simps [simp]: "of_flow f [] = []" "of_flow f (xs @ ys) = of_flow f xs @ of_flow f ys"
  "of_flow f [p] = (if flow_id p = f then [p] else [])"
  by (simp_all add: of_flow_def)

lemma feedbacks_append [simp]: "feedbacks (xs @ ys) = feedbacks xs @ feedbacks ys"
  by (induction xs rule: feedbacks.induct) auto

text \<open>An acknowledgement that goes out at once with its pull bit.\<close>

lemma pacer_inv_send:
  assumes inv: "pacer_inv d ins w ev" and "now ev \<le> t" and "\<forall>x \<in> set (pendingsources ev). t \<le> fst x"
    and "0 < d" and none: "fair_count (pulls (w_st w)) = 0" and "last_pull (w_st w) + d \<le> t" and ack: "acknowledges (Feedback old ack)"
  shows "pacer_inv d (ins @ [(t, Feedback old ack)])
    (w\<lparr>w_st := (w_st w)\<lparr>pacer_no := pacer_no (w_st w) + 1, last_pull := t\<rparr>,
       w_out := w_out w @ [(t, ack\<lparr>pacerno := pacer_no (w_st w)\<rparr>)]\<rparr>) (ev\<lparr>lasteventtime := t\<rparr>)"
proof -
  have "fair_ok (pulls (w_st w))"
    using inv by (simp add: pacer_inv_def Let_def)
  then have empty: "fair_waiting f (pulls (w_st w)) = []" for f
    using none fair_empty by blast
  have "due None (ev\<lparr>lasteventtime := t\<rparr>)"
    using inv none by (intro due_advance assms) (simp add: pacer_inv_def Let_def)
  moreover have "grants_pull (ack\<lparr>pacerno := n\<rparr>)" "ptype ack \<noteq> NDPPULL" for n
    using ack by (auto simp: grants_pull_def)
  ultimately show ?thesis
    using inv none assms(4,6) empty by (auto simp: pacer_inv_def Let_def spaced_snoc now_def last_map)
qed

text \<open>An acknowledgement whose pull is queued.\<close>

lemma pacer_inv_queue:
  assumes inv: "pacer_inv d ins w ev" and "0 < d" and "t = now ev'" and "last_pull (w_st w) \<le> t" and ack: "acknowledges (Feedback old ack)"
    and pl: "NdpPull_newpkt old ack = Some p" and q: "fair_ok q"
    "\<forall>f. fair_waiting f q = fair_waiting f (pulls (w_st w)) @ (if f = flow_id p then [p] else [])"
    and due: "due (Some (last_pull (w_st w) + d)) ev'"
  shows "pacer_inv d (ins @ [(t, Feedback old ack)])
    (w\<lparr>w_st := (w_st w)\<lparr>pulls := q\<rparr>, w_out := w_out w @ [(t, dont_pull ack)]\<rparr>) ev'"
proof -
  have p: "ptype p = NDPPULL" "pullno p = pullno ack" "flow_id p = flow_id ack"
    using pl by (auto simp: NdpPull_newpkt_def set_route4_def split: option.splits)
  have "fair_waiting (flow_id p) q \<noteq> []"
    using q(2) by simp
  then have ne: "fair_count q \<noteq> 0"
    using fair_empty [OF q(1)] by blast
  have "\<not> grants_pull (dont_pull ack)" "ptype ack \<noteq> NDPPULL" "ptype (dont_pull ack) = ptype ack" "ackno (dont_pull ack) = ackno ack"
    using ack by (auto simp: grants_pull_def dont_pull_def)
  moreover have "\<forall>f. \<forall>r \<in> set (fair_waiting f q). ptype r = NDPPULL"
    using inv q(2) p(1) by (auto simp: pacer_inv_def Let_def)
  moreover have "map pullno (of_flow f (map snd (granted (w_out w))) @ fair_waiting f q) =
      map pullno (of_flow f (map snd (feedbacks (ins @ [(t, Feedback old ack)]))))" for f
  proof -
    have "map pullno (of_flow f (map snd (granted (w_out w))) @ fair_waiting f (pulls (w_st w))) =
        map pullno (of_flow f (map snd (feedbacks ins)))"
      using inv unfolding pacer_inv_def Let_def by blast
    then show ?thesis
      using q(2) p by auto
  qed
  ultimately show ?thesis
    using inv assms(2-4) due q(1) ne by (simp add: pacer_inv_def Let_def)
qed

lemma pacer_arrive:
  assumes inv: "pacer_inv d ins w ev" and t: "now ev \<le> t" "\<forall>x \<in> set (pendingsources ev). t \<le> fst x"
    and "0 < d \<and> acknowledges i"
  shows "\<exists>w' ev'. arrive pacer_recv t i (w, ev) = Some (w', ev') \<and> pacer_inv d (ins @ [(t, i)]) w' ev'"
proof -
  obtain old ack where i: "i = Feedback old ack" and ack: "acknowledges (Feedback old ack)"
    using assms(4) by (cases i) auto
  let ?s = "w_st w" and ?ev = "ev\<lparr>lasteventtime := t\<rparr>"
  have s: "packet_drain_time ?s = d" "fair_ok (pulls ?s)" "last_pull ?s \<le> t"
    "due (if fair_count (pulls ?s) = 0 then None else Some (last_pull ?s + d)) ev"
    using inv t(1) by (simp_all add: pacer_inv_def Let_def)
  have now: "now ?ev = t"
    by (simp add: now_def)
  have dt: "drain_time ?s = Some (d, ?s)"
    using s(1) assms(4) by (simp add: drain_time_def)
  have ty: "ptype ack = NDPACK \<or> ptype ack = NDPNACK"
    using ack by simp
  show ?thesis
  proof (cases "fair_count (pulls ?s) = 0 \<and> d \<le> t - last_pull ?s")
    case True
    then have "last_pull ?s + d \<le> t"
      using s(3) by linarith
    moreover have "arrive pacer_recv t i (w, ev) =
        Some (w\<lparr>w_st := ?s\<lparr>pacer_no := pacer_no ?s + 1, last_pull := t\<rparr>,
                w_out := w_out w @ [(t, ack\<lparr>pacerno := pacer_no ?s\<rparr>)]\<rparr>, ?ev)"
      using True i dt ty now by (auto simp: arrive_def sendPacket_def set_pacerno_def)
    ultimately show ?thesis
      using pacer_inv_send [OF inv t _ _ _ ack] assms(4) True i by blast
  next
    case False
    obtain p where p: "NdpPull_newpkt old ack = Some p"
      using ack by (auto simp: NdpPull_newpkt_def)
    obtain q where q: "Fair_enqueue p (pulls ?s) = Some q" "fair_ok q"
      "\<forall>f. fair_waiting f q = fair_waiting f (pulls ?s) @ (if f = flow_id p then [p] else [])"
      using fair_enq [OF s(2)] by blast
    let ?w = "w\<lparr>w_st := ?s\<lparr>pulls := q\<rparr>\<rparr>"
    let ?acts = "if fair_count (pulls ?s) = 0 then [Pending (d - (t - last_pull ?s))] else []"
    have "pacer_recv t i ?s = Some (?s\<lparr>pulls := q\<rparr>, ?acts @ [Send (dont_pull ack)])"
      using False i dt ty p q(1) by (auto simp: sendPacket_def Let_def)
    then have a: "arrive pacer_recv t i (w, ev) = exec (?acts @ [Send (dont_pull ack)]) (?w, ?ev)"
      by (simp add: arrive_def)
    have "\<exists>ev'. exec (?acts @ [Send (dont_pull ack)]) (?w, ?ev) = exec [Send (dont_pull ack)] (?w, ev') \<and>
        due (Some (last_pull ?s + d)) ev' \<and> now ev' = t"
    proof (cases "fair_count (pulls ?s) = 0")
      case True
      then have due: "due None ?ev"
        using s(4) t(2) by (simp add: due_advance)
      have at: "now ?ev + (d - (t - last_pull ?s)) = last_pull ?s + d"
        using False True s(3) now by simp
      obtain ev' where "exec (Pending (d - (t - last_pull ?s)) # [Send (dont_pull ack)]) (?w, ?ev) =
          exec [Send (dont_pull ack)] (?w, ev')" "due (Some (last_pull ?s + d)) ev'" "now ev' = t"
        using due_Pending [OF due, of "d - (t - last_pull ?s)" "[Send (dont_pull ack)]" ?w] unfolding at unfolding now by blast
      then show ?thesis
        unfolding if_P [OF True] append_Cons append_Nil by blast
    next
      case False
      then show ?thesis
        using s(4) t(2) now by (auto intro!: exI [of _ ?ev] due_advance)
    qed
    then obtain ev' where ev': "arrive pacer_recv t i (w, ev) = exec [Send (dont_pull ack)] (?w, ev')"
      "due (Some (last_pull ?s + d)) ev'" "now ev' = t"
      using a by auto
    then have "pacer_inv d (ins @ [(t, i)]) (?w\<lparr>w_out := w_out w @ [(t, dont_pull ack)]\<rparr>) ev'"
      using pacer_inv_queue [OF inv _ _ s(3) ack p q(2,3) ev'(2)] assms(4) i by (simp add: world_out_st)
    then show ?thesis
      using ev' by simp
  qed
qed

lemma pacer_fire:
  assumes inv: "pacer_inv d ins w ev" and "pendingsources ev \<noteq> []"
  shows "\<exists>w' ev'. fire pacer_doNextEvent (w, ev) = Some (True, w', ev') \<and> pacer_inv d ins w' ev'"
proof -
  let ?s = "w_st w"
  have s: "packet_drain_time ?s = d" "fair_ok (pulls ?s)" "last_pull ?s \<le> now ev"
    "due (if fair_count (pulls ?s) = 0 then None else Some (last_pull ?s + d)) ev" "ins \<noteq> [] \<longrightarrow> 0 < d"
    and pulls: "\<forall>f. \<forall>p \<in> set (fair_waiting f (pulls ?s)). ptype p = NDPPULL"
    and order: "\<forall>f. map pullno (of_flow f (map snd (granted (w_out w))) @ fair_waiting f (pulls ?s)) =
      map pullno (of_flow f (map snd (feedbacks ins)))"
    using inv unfolding pacer_inv_def Let_def by blast+
  have ne: "fair_count (pulls ?s) \<noteq> 0"
    using s(4) due_pending assms(2) by fastforce
  then obtain g where g: "fair_waiting g (pulls ?s) \<noteq> []"
    using fair_empty [OF s(2)] by blast
  then have "ins \<noteq> []"
    using spec [OF order, of g] by auto
  with s(5) have pos: "0 < d"
    by blast
  then obtain p q where d: "Fair_dequeue (pulls ?s) = Some (Some p, q)" "fair_ok q"
    "\<forall>f. fair_waiting f (pulls ?s) = (if f = flow_id p then [p] else []) @ fair_waiting f q"
    using fair_deq [OF s(2) g] by blast
  have p: "ptype p = NDPPULL"
    using spec [OF pulls, of "flow_id p"] spec [OF d(3), of "flow_id p"] by simp
  have "set (fair_waiting f q) \<subseteq> set (fair_waiting f (pulls ?s))" for f
    by (subst d(3) [rule_format]) simp
  then have rest: "\<forall>f. \<forall>p \<in> set (fair_waiting f q). ptype p = NDPPULL"
    using pulls by blast
  have "due (Some (last_pull ?s + d)) ev"
    using s(4) ne by simp
  from due_fire [OF this] obtain ev1 where ev1: "due None ev1" "now ev1 = last_pull ?s + d"
    "fire pacer_doNextEvent (w, ev) = map_option (Pair True) (dev_handle pacer_doNextEvent () (w, ev1))"
    by blast
  let ?t = "last_pull ?s + d"
  let ?s' = "?s\<lparr>pulls := q, pacer_no := pacer_no ?s + 1, last_pull := ?t\<rparr>"
  let ?w = "w\<lparr>w_st := ?s', w_out := w_out w @ [(?t, p\<lparr>pacerno := pacer_no ?s\<rparr>)]\<rparr>"
  have h: "dev_handle pacer_doNextEvent () (w, ev1) = exec (if fair_count q \<noteq> 0 then [Pending d] else []) (?w, ev1)"
    using ne d(1) p ev1(2) s(1) pos
    by (simp add: dev_handle_def pacer_doNextEvent_def set_pacerno_def drain_time_def world_out_st)
  have "\<exists>ev'. exec (if fair_count q \<noteq> 0 then [Pending d] else []) (?w, ev1) = Some (?w, ev') \<and>
      due (if fair_count q = 0 then None else Some (?t + d)) ev' \<and> now ev' = ?t"
    using ev1(1,2) due_Pending [OF ev1(1), of d "[]" ?w] by auto
  then obtain ev' where ev': "fire pacer_doNextEvent (w, ev) = Some (True, ?w, ev')"
    "due (if fair_count q = 0 then None else Some (?t + d)) ev'" "now ev' = ?t"
    using h ev1(3) by auto
  have "map pullno (of_flow f (map snd (granted (w_out ?w))) @ fair_waiting f q) =
      map pullno (of_flow f (map snd (feedbacks ins)))" for f
    using spec [OF order, of f] spec [OF d(3), of f] p by (cases "flow_id p = f") (auto simp: grants_pull_def)
  then have "pacer_inv d ins ?w ev'"
    using inv ev'(2,3) d(2) rest p by (auto simp: pacer_inv_def Let_def grants_pull_def spaced_snoc last_map)
  then show ?thesis
    using ev'(1) by blast
qed

lemma pacer_start: "pacer_inv (packet_drain_time (NdpPullPacer sz m)) [] (initially (NdpPullPacer sz m)) EventList"
  using fair_pulls.q0_ok by (simp add: pacer_inv_def Let_def initially_def NdpPullPacer_def spaced_def FairPullQueue_def)

interpretation pacing: device pacer_recv pacer_doNextEvent "NdpPullPacer sz m"
  "\<lambda>i. 0 < packet_drain_time (NdpPullPacer sz m) \<and> acknowledges i" "pacer_inv (packet_drain_time (NdpPullPacer sz m))"
  by unfold_locales (rule pacer_start, erule (3) pacer_arrive, erule (1) pacer_fire)

section \<open>Properties\<close>

text \<open>
  Claim C19.  As long as no pulls are released, the pacer grants pulls, as acknowledgements with the pull bit or as pull packets,
  at least the time of a data packet on the link apart; the numbers of the pacer are consecutive; every acknowledgement
  is sent on at once and grants exactly one pull, those of a flow in the order of the acknowledgements; as long as pulls
  wait, one event is pending.  No assertion fails, neither when it is handled nor when another acknowledgement comes before it.
\<close>

theorem pacer_paces:
  assumes "dev_reach pacer_recv pacer_doNextEvent (NdpPullPacer sz m) ins (w, ev)" and "\<forall>x \<in> set ins. acknowledges (snd x)"
    and "d = packet_drain_time (NdpPullPacer sz m)" and "0 < d"
  shows "spaced d (map fst (granted (w_out w))) \<and>
    map (\<lambda>x. pacerno (snd x)) (granted (w_out w)) = [0..<pacer_no (w_st w)] \<and>
    (\<forall>f. map pullno (of_flow f (map snd (granted (w_out w))) @ fair_waiting f (pulls (w_st w))) =
      map pullno (of_flow f (map snd (feedbacks ins)))) \<and>
    map (\<lambda>x. (fst x, ackno (snd x))) (filter (\<lambda>x. ptype (snd x) \<noteq> NDPPULL) (w_out w)) =
      map (\<lambda>x. (fst x, ackno (snd x))) (feedbacks ins) \<and>
    ((\<exists>f. fair_waiting f (pulls (w_st w)) \<noteq> []) \<longleftrightarrow> pendingsources ev = [(last_pull (w_st w) + d, ())]) \<and>
    fire pacer_doNextEvent (w, ev) \<noteq> None \<and> accepts pacer_recv acknowledges (w, ev)"
proof -
  have good: "\<forall>x \<in> set ins. 0 < packet_drain_time (NdpPullPacer sz m) \<and> acknowledges (snd x)"
    using assms(2-4) by blast
  have inv: "pacer_inv d ins w ev"
    using pacing.reach_inv [OF assms(1) good] assms(3) by simp
  then have "fair_ok (pulls (w_st w))" "due (if fair_count (pulls (w_st w)) = 0 then None else Some (last_pull (w_st w) + d)) ev"
    unfolding pacer_inv_def Let_def by blast+
  then have "(\<exists>f. fair_waiting f (pulls (w_st w)) \<noteq> []) \<longleftrightarrow> pendingsources ev = [(last_pull (w_st w) + d, ())]"
    using fair_empty by (auto simp: due_def split: if_splits)
  moreover have "accepts pacer_recv acknowledges (w, ev)"
    using pacing.reach_accepts [OF assms(1) good] assms(3,4) by (simp add: accepts_def)
  ultimately show ?thesis
    using inv pacing.reach_safe(1) [OF assms(1) good] unfolding pacer_inv_def Let_def by blast
qed

definition an_ack :: "nat \<Rightarrow> pacer_input" where
  "an_ack f = Feedback blank (blank\<lparr>ptype := NDPACK, is_header := True, flow_id := f, pull := True, proute := Some a_route\<rparr>)"

lemmas pacer_simps =
  dev_simps an_ack_def NdpPullPacer_def FairPullQueue_def sendPacket_def drain_time_def Let_def set_pacerno_def
  NdpPull_newpkt_def set_route4_def dont_pull_def Fair_enqueue_def queue_exists_def create_queue_def on_queue_def
  release_pulls_def Fair_flush_flow_def pacer_doNextEvent_def Fair_dequeue_def find_turn.simps next_key_def begin_key_def
  granted_def grants_pull_def

theorem pacer_paces_witness:
  "\<exists>w ev. dev_reach pacer_recv pacer_doNextEvent (NdpPullPacer 1 1) [(1, an_ack 1), (2, an_ack 2)] (w, ev) \<and>
     spaced 800 (map fst (granted (w_out w))) \<and> fire pacer_doNextEvent (w, ev) \<noteq> None"
proof -
  let ?is = "[Arrive 1 (an_ack 1), Arrive 2 (an_ack 2), Event, Event]"
  let ?run = "run_dev pacer_recv pacer_doNextEvent ?is (initially (NdpPullPacer 1 1), EventList)"
  have "\<exists>w ev. ?run = Some (w, ev)"
    by (simp add: pacer_simps)
  then obtain w ev where "?run = Some (w, ev)"
    by blast
  from run_dev_start [OF this] have r: "dev_reach pacer_recv pacer_doNextEvent (NdpPullPacer 1 1) [(1, an_ack 1), (2, an_ack 2)] (w, ev)"
    by simp
  have h: "\<forall>x \<in> set [(1, an_ack 1), (2, an_ack 2)]. acknowledges (snd x)" "800 = packet_drain_time (NdpPullPacer 1 1)"
    "(0 :: nat) < 800"
    by (simp_all add: an_ack_def NdpPullPacer_def)
  have "spaced 800 (map fst (granted (w_out w)))" "fire pacer_doNextEvent (w, ev) \<noteq> None"
    using pacer_paces [OF r h] by blast+
  then show ?thesis
    using r by blast
qed

section \<open>Releasing pulls\<close>

text \<open>An acknowledgement whose pull has to wait, and an event that grants one.\<close>

lemma pacer_waits:
  assumes "fair_ok (pulls s)" and "packet_drain_time s = d" and "0 < d" and ack: "acknowledges (Feedback old ack)"
    and "fair_count (pulls s) \<noteq> 0 \<or> t < last_pull s + d" and "last_pull s \<le> t"
    and "\<forall>f. \<forall>p \<in> set (fair_waiting f (pulls s)). ptype p = NDPPULL"
  shows "\<exists>q. pacer_recv t (Feedback old ack) s =
      Some (s\<lparr>pulls := q\<rparr>, (if fair_count (pulls s) = 0 then [Pending (d - (t - last_pull s))] else []) @ [Send (dont_pull ack)]) \<and>
    fair_ok q \<and> fair_count q = fair_count (pulls s) + 1 \<and> (\<forall>f. \<forall>p \<in> set (fair_waiting f q). ptype p = NDPPULL)"
proof -
  obtain p where p: "NdpPull_newpkt old ack = Some p" "ptype p = NDPPULL"
    using ack by (auto simp: NdpPull_newpkt_def set_route4_def)
  obtain q where q: "Fair_enqueue p (pulls s) = Some q" "fair_ok q"
    "\<forall>f. fair_waiting f q = fair_waiting f (pulls s) @ (if f = flow_id p then [p] else [])"
    using fair_enq [OF assms(1)] by blast
  have "fair_count q = fair_count (pulls s) + 1"
    using q(1) by (auto simp: Fair_enqueue_def create_queue_def Let_def)
  moreover have "\<forall>f. \<forall>r \<in> set (fair_waiting f q). ptype r = NDPPULL"
    using q(3) p(2) assms(7) by auto
  moreover have "drain_time s = Some (d, s)" "\<not> (fair_count (pulls s) = 0 \<and> d \<le> t - last_pull s)"
    "ptype ack = NDPACK \<or> ptype ack = NDPNACK"
    using assms(2,3,5,6) ack by (auto simp: drain_time_def)
  then have "pacer_recv t (Feedback old ack) s =
      Some (s\<lparr>pulls := q\<rparr>, (if fair_count (pulls s) = 0 then [Pending (d - (t - last_pull s))] else []) @ [Send (dont_pull ack)])"
    using q(1) p(1) by (auto simp: sendPacket_def Let_def)
  ultimately show ?thesis
    using q(2) by blast
qed

lemma pacer_grants:
  assumes "fair_ok (pulls s)" and "packet_drain_time s = d" and "0 < d" and count: "fair_count (pulls s) \<noteq> 0"
    and pulls: "\<forall>f. \<forall>p \<in> set (fair_waiting f (pulls s)). ptype p = NDPPULL"
  shows "\<exists>p q. pacer_doNextEvent t s =
      Some (s\<lparr>pulls := q, pacer_no := pacer_no s + 1, last_pull := t\<rparr>, Send p # (if fair_count q \<noteq> 0 then [Pending d] else [])) \<and>
    grants_pull p \<and> fair_ok q \<and> fair_count q = fair_count (pulls s) - 1 \<and> (\<forall>f. \<forall>p \<in> set (fair_waiting f q). ptype p = NDPPULL)"
proof -
  obtain g where "fair_waiting g (pulls s) \<noteq> []"
    using fair_empty [OF assms(1)] count by blast
  from fair_deq [OF assms(1) this] obtain p q where d: "Fair_dequeue (pulls s) = Some (Some p, q)" "fair_ok q"
    "\<forall>f. fair_waiting f (pulls s) = (if f = flow_id p then [p] else []) @ fair_waiting f q"
    by blast
  have p: "ptype p = NDPPULL"
    using spec [OF pulls, of "flow_id p"] spec [OF d(3), of "flow_id p"] by simp
  have "set (fair_waiting f q) \<subseteq> set (fair_waiting f (pulls s))" for f
    by (subst d(3) [rule_format]) simp
  then have rest: "\<forall>f. \<forall>p \<in> set (fair_waiting f q). ptype p = NDPPULL"
    using pulls by blast
  have "fair_count q = fair_count (pulls s) - 1"
    using d(1) by (auto simp: Fair_dequeue_def split: if_splits option.splits)
  moreover have "pacer_doNextEvent t s = Some (s\<lparr>pulls := q, pacer_no := pacer_no s + 1, last_pull := t\<rparr>,
      Send (p\<lparr>pacerno := pacer_no s\<rparr>) # (if fair_count q \<noteq> 0 then [Pending d] else []))"
    using count d(1) p assms(2,3) by (simp add: pacer_doNextEvent_def set_pacerno_def drain_time_def)
  ultimately show ?thesis
    using d(2) rest p by (intro exI [of _ "p\<lparr>pacerno := pacer_no s\<rparr>"] exI [of _ q]) (simp add: grants_pull_def)
qed

lemma exec_Free: "exec (map Free ps) (w, ev) = Some (w\<lparr>w_freed := w_freed w @ ps\<rparr>, ev)"
  by (induction ps arbitrary: w) (simp_all add: world_out_st)

text \<open>
  What a release and two acknowledgements do: two events are pending for the same time, and both grant a pull then.
\<close>

definition doubles_pace ::
  "nat \<Rightarrow> (nat \<times> pacer_input) \<Rightarrow> (nat \<times> pacer_input) \<Rightarrow> (nat \<times> pacer_input) \<Rightarrow> pacer world \<times> unit event_list \<Rightarrow> bool" where
  "doubles_pace T i1 i2 i3 d \<longleftrightarrow>
     (\<exists>d1 d2 d3 d4 d5.
        arrive pacer_recv (fst i1) (snd i1) d = Some d1 \<and> arrive pacer_recv (fst i2) (snd i2) d1 = Some d2 \<and>
        arrive pacer_recv (fst i3) (snd i3) d2 = Some d3 \<and> pendingsources (snd d3) = [(T, ()), (T, ())] \<and>
        fire pacer_doNextEvent d3 = Some (True, d4) \<and> fire pacer_doNextEvent d4 = Some (True, d5) \<and>
        map fst (granted (w_out (fst d5))) = map fst (granted (w_out (fst d))) @ [T, T])"

lemma pacer_doubles:
  assumes inv: "pacer_inv d ins w ev" and "0 < d" and wait: "fair_waiting f (pulls (w_st w)) \<noteq> []"
    and only: "\<forall>g. g \<noteq> f \<longrightarrow> fair_waiting g (pulls (w_st w)) = []"
    and t: "now ev \<le> t1" "t1 \<le> t2" "t2 \<le> t3" "t2 < T" "t3 \<le> T" and T: "T = last_pull (w_st w) + d"
    and ack: "acknowledges (Feedback old1 ack1)" "acknowledges (Feedback old2 ack2)"
  shows "doubles_pace T (t1, Release f) (t2, Feedback old1 ack1) (t3, Feedback old2 ack2) (w, ev)"
proof -
  let ?s = "w_st w"
  have s: "packet_drain_time ?s = d" "fair_ok (pulls ?s)" "last_pull ?s \<le> now ev"
    "due (if fair_count (pulls ?s) = 0 then None else Some (last_pull ?s + d)) ev"
    using inv unfolding pacer_inv_def Let_def by blast+
  then have due: "pendingsources ev = [(T, ())]" "endtime ev = 0"
    using fair_empty [OF s(2)] wait T by (auto simp: due_def split: if_splits)
  obtain l q1 where q1: "Fair_flush_flow f (pulls ?s) = Some (l, q1)" "fair_ok q1" "\<forall>g. fair_waiting g q1 = []"
    using fair_flush [OF s(2), of f] only by metis
  then have c1: "fair_count q1 = 0"
    using fair_empty by blast
  have "last_pull (?s\<lparr>pulls := q1\<rparr>) \<le> t2" "last_pull ?s \<le> t3"
    using s(3) t by simp_all
  obtain q2 where q2: "pacer_recv t2 (Feedback old1 ack1) (?s\<lparr>pulls := q1\<rparr>) =
      Some (?s\<lparr>pulls := q2\<rparr>, [Pending (d - (t2 - last_pull ?s)), Send (dont_pull ack1)])"
    "fair_ok q2" "fair_count q2 = 1" "\<forall>f. \<forall>p \<in> set (fair_waiting f q2). ptype p = NDPPULL"
    using pacer_waits [of "?s\<lparr>pulls := q1\<rparr>" d old1 ack1 t2] q1 c1 s(1,3) assms(2) ack(1) t T by auto
  obtain q3 where q3: "pacer_recv t3 (Feedback old2 ack2) (?s\<lparr>pulls := q2\<rparr>) = Some (?s\<lparr>pulls := q3\<rparr>, [Send (dont_pull ack2)])"
    "fair_ok q3" "fair_count q3 = 2" "\<forall>f. \<forall>p \<in> set (fair_waiting f q3). ptype p = NDPPULL"
    using pacer_waits [of "?s\<lparr>pulls := q2\<rparr>" d old2 ack2 t3] q2 s(1,3) assms(2) ack(2) t T by auto
  obtain p4 q4 where q4: "pacer_doNextEvent T (?s\<lparr>pulls := q3\<rparr>) =
      Some (?s\<lparr>pulls := q4, pacer_no := pacer_no ?s + 1, last_pull := T\<rparr>, [Send p4, Pending d])" "grants_pull p4"
    "fair_ok q4" "fair_count q4 = 1" "\<forall>f. \<forall>p \<in> set (fair_waiting f q4). ptype p = NDPPULL"
    using pacer_grants [of "?s\<lparr>pulls := q3\<rparr>" d T] q3 s(1) assms(2) by auto
  let ?s4 = "?s\<lparr>pulls := q4, pacer_no := pacer_no ?s + 1, last_pull := T\<rparr>"
  obtain p5 s5 where q5: "pacer_doNextEvent T ?s4 = Some (s5, [Send p5])" "grants_pull p5"
    using pacer_grants [of ?s4 d T] q4(3-5) s(1) assms(2) by auto
  have ngrant: "\<not> grants_pull (dont_pull ack1)" "\<not> grants_pull (dont_pull ack2)"
    using ack by (auto simp: grants_pull_def dont_pull_def)
  have at: "t2 + (d - (t2 - last_pull ?s)) = T" and le: "t2 \<le> T"
    using s(3) t T by simp_all
  let ?w1 = "w\<lparr>w_st := ?s\<lparr>pulls := q1\<rparr>, w_freed := w_freed w @ l\<rparr>" and ?ev1 = "ev\<lparr>lasteventtime := t1\<rparr>"
  let ?w2 = "?w1\<lparr>w_st := ?s\<lparr>pulls := q2\<rparr>, w_out := w_out w @ [(t2, dont_pull ack1)]\<rparr>"
  let ?ev2 = "ev\<lparr>lasteventtime := t2, pendingsources := [(T, ()), (T, ())]\<rparr>"
  let ?w3 = "?w2\<lparr>w_st := ?s\<lparr>pulls := q3\<rparr>, w_out := w_out w @ [(t2, dont_pull ack1), (t3, dont_pull ack2)]\<rparr>"
  let ?ev3 = "?ev2\<lparr>lasteventtime := t3\<rparr>"
  let ?w4 = "?w3\<lparr>w_st := ?s4, w_out := w_out ?w3 @ [(T, p4)]\<rparr>"
  let ?ev4 = "ev\<lparr>lasteventtime := T, pendingsources := [(T, ()), (T + d, ())]\<rparr>"
  let ?w5 = "?w4\<lparr>w_st := s5, w_out := w_out ?w4 @ [(T, p5)]\<rparr>"
  let ?ev5 = "ev\<lparr>lasteventtime := T, pendingsources := [(T + d, ())]\<rparr>"
  have 1: "arrive pacer_recv t1 (Release f) (w, ev) = Some (?w1, ?ev1)"
    using q1(1) by (simp add: arrive_def release_pulls_def exec_Free)
  have 2: "arrive pacer_recv t2 (Feedback old1 ack1) (?w1, ?ev1) = Some (?w2, ?ev2)"
    using q2(1) due at le by (simp add: arrive_def sourceIsPendingRel_def sourceIsPending_def now_def world_out_st del: pacer_recv.simps)
  have 3: "arrive pacer_recv t3 (Feedback old2 ack2) (?w2, ?ev2) = Some (?w3, ?ev3)"
    using q3(1) by (simp add: arrive_def now_def world_out_st del: pacer_recv.simps)
  have 4: "fire pacer_doNextEvent (?w3, ?ev3) = Some (True, ?w4, ?ev4)"
    using q4(1) due(2) t(5) assms(2)
    by (simp add: fire_def doNextEvent_def dev_handle_def now_def sourceIsPendingRel_def sourceIsPending_def world_out_st)
  have 5: "fire pacer_doNextEvent (?w4, ?ev4) = Some (True, ?w5, ?ev5)"
    using q5(1) by (simp add: fire_def doNextEvent_def dev_handle_def now_def world_out_st)
  have "map fst (granted (w_out ?w5)) = map fst (granted (w_out w)) @ [T, T]"
    using ngrant q4(2) q5(2) by (simp add: granted_def)
  then show ?thesis
    unfolding doubles_pace_def fst_conv snd_conv using 1 2 3 4 5
    by (intro exI [of _ "(?w1, ?ev1)"] exI [of _ "(?w2, ?ev2)"] exI [of _ "(?w3, ?ev3)"] exI [of _ "(?w4, ?ev4)"] exI [of _ "(?w5, ?ev5)"]) simp
qed

text \<open>
  Claim C39.  Releasing the pulls of a flow leaves its event pending.  In any state that the pacer reaches without a release and in
  which only the flow \<open>f\<close> has pulls, let \<open>T\<close> be the time of the next pull.  When the pulls of \<open>f\<close> are released and two
  acknowledgements come before \<open>T\<close>, then two events are pending, both for \<open>T\<close>, and the pacer grants two pulls at the time \<open>T\<close>.
\<close>

theorem release_doubles_pace:
  assumes "dev_reach pacer_recv pacer_doNextEvent (NdpPullPacer sz m) ins (w, ev)" and "\<forall>x \<in> set ins. acknowledges (snd x)"
    and "0 < packet_drain_time (NdpPullPacer sz m)" and "T = last_pull (w_st w) + packet_drain_time (NdpPullPacer sz m)"
    and "fair_waiting f (pulls (w_st w)) \<noteq> []" and "\<forall>g. g \<noteq> f \<longrightarrow> fair_waiting g (pulls (w_st w)) = []"
    and "now ev \<le> t1" and "t1 \<le> t2" and "t2 \<le> t3" and "t2 < T" and "t3 \<le> T"
    and "acknowledges (Feedback old1 ack1)" and "acknowledges (Feedback old2 ack2)"
  shows "doubles_pace T (t1, Release f) (t2, Feedback old1 ack1) (t3, Feedback old2 ack2) (w, ev)"
proof -
  have "pacer_inv (packet_drain_time (NdpPullPacer sz m)) ins w ev"
    using pacing.reach_inv [OF assms(1)] assms(2,3) by simp
  from pacer_doubles [OF this assms(3,5-11,4,12,13)] show ?thesis .
qed

theorem release_doubles_pace_witness:
  "\<exists>w ev. dev_reach pacer_recv pacer_doNextEvent (NdpPullPacer 1 1) [(1, an_ack 1)] (w, ev) \<and>
     doubles_pace 800 (2, Release 1) (3, an_ack 2) (4, an_ack 2) (w, ev)"
proof -
  let ?run = "run_dev pacer_recv pacer_doNextEvent [Arrive 1 (an_ack 1)] (initially (NdpPullPacer 1 1), EventList)"
  have "\<exists>w ev. ?run = Some (w, ev) \<and> last_pull (w_st w) = 0 \<and> now ev = 1 \<and> fair_waiting 1 (pulls (w_st w)) \<noteq> [] \<and>
      (\<forall>g. g \<noteq> 1 \<longrightarrow> fair_waiting g (pulls (w_st w)) = [])"
    by (simp add: pacer_simps fair_waiting_def)
  then obtain w ev where run: "?run = Some (w, ev)" "last_pull (w_st w) = 0" "now ev = 1" "fair_waiting 1 (pulls (w_st w)) \<noteq> []"
    "\<forall>g. g \<noteq> 1 \<longrightarrow> fair_waiting g (pulls (w_st w)) = []"
    by blast
  from run_dev_start [OF run(1)] have r: "dev_reach pacer_recv pacer_doNextEvent (NdpPullPacer 1 1) [(1, an_ack 1)] (w, ev)"
    by simp
  have d: "packet_drain_time (NdpPullPacer 1 1) = 800"
    by (simp add: NdpPullPacer_def)
  define ack where "ack = blank\<lparr>ptype := NDPACK, is_header := True, flow_id := 2, pull := True, proute := Some a_route\<rparr>"
  have "doubles_pace 800 (2, Release 1) (3, Feedback blank ack) (4, Feedback blank ack) (w, ev)"
    by (rule release_doubles_pace [OF r]) (use run(2-5) d in \<open>simp_all add: an_ack_def ack_def\<close>)
  then show ?thesis
    using r by (auto simp: an_ack_def ack_def)
qed

end
