(* ===== verification/Ndp_Paths.thy ===== *)
theory Ndp_Paths
  imports Ndp_Net "HOL-Library.Multiset"
begin

text \<open>
  The choice of paths that the sources and the sinks of NDP share (\<^verbatim>\<open>ndp.cpp\<close>): the strategies, and the random
  permutation.  The function \<open>rnd\<close> stands for the random numbers (\<open>rnd n\<close> is the \<open>n\<close>-th value of \<^verbatim>\<open>random\<close>), and a
  counter in the state for how many have been drawn.
\<close>

datatype route_strategy = NOT_SET | SINGLE_PATH | SCATTER_PERMUTE | SCATTER_RANDOM | PULL_BASED

definition swap_at :: "nat \<Rightarrow> nat \<Rightarrow> 'a list \<Rightarrow> 'a list" where
  "swap_at i j xs = xs[i := xs ! j, j := xs ! i]"

text \<open>\<^verbatim>\<open>permute_paths\<close>, which is the same function in both classes; \<open>n\<close> numbers have been drawn before.\<close>

fun permute_from :: "(nat \<Rightarrow> nat) \<Rightarrow> nat \<Rightarrow> nat \<Rightarrow> 'a list \<Rightarrow> 'a list" where
  "permute_from rnd n 0 xs = xs"
| "permute_from rnd n (Suc k) xs = permute_from rnd (n + 1) k (swap_at (rnd n mod Suc k) k xs)"

definition permute_paths :: "(nat \<Rightarrow> nat) \<Rightarrow> nat \<Rightarrow> 'a list \<Rightarrow> 'a list" where
  "permute_paths rnd n xs = permute_from rnd n (length xs) xs"

lemma swap_at_mset: "i < length xs \<Longrightarrow> j < length xs \<Longrightarrow> mset (swap_at i j xs) = mset xs"
  by (simp add: swap_at_def mset_swap)

lemma length_swap_at [simp]: "length (swap_at i j xs) = length xs"
  by (simp add: swap_at_def)

lemma length_permute_from [simp]: "length (permute_from rnd n k xs) = length xs"
  by (induction rnd n k xs rule: permute_from.induct) auto

lemma length_permute_paths [simp]: "length (permute_paths rnd n xs) = length xs"
  by (simp add: permute_paths_def)

text \<open>It only permutes, whatever the numbers are, and every permutation is possible.\<close>

lemma mset_permute_from: "k \<le> length xs \<Longrightarrow> mset (permute_from rnd n k xs) = mset xs"
proof (induction k arbitrary: n xs)
  case (Suc k)
  then have "rnd n mod Suc k < length xs"
    by (meson less_le_trans mod_less_divisor zero_less_Suc)
  then show ?case
    using Suc by (simp add: swap_at_mset)
qed simp

lemma permute_from_shift:
  "permute_from (\<lambda>i. if i = 0 then a else f (i - 1)) (Suc n) k xs = permute_from f n k xs"
  by (induction f n k xs rule: permute_from.induct) auto

lemma permute_from_surj:
  assumes "mset ys = mset xs" and "drop k ys = drop k xs" and "k \<le> length xs"
  shows "\<exists>rnd. permute_from rnd 0 k xs = ys"
  using assms
proof (induction k arbitrary: xs)
  case 0
  then show ?case
    by simp
next
  case (Suc k)
  have len: "length ys = length xs" and k: "k < length xs"
    using Suc.prems(1,3) mset_eq_length by auto
  have "mset (take (Suc k) ys) = mset (take (Suc k) xs)"
    using Suc.prems(1,2) by (metis add_right_cancel append_take_drop_id mset_append)
  moreover have "ys ! k \<in> set (take (Suc k) ys)"
    using k len by (metis in_set_conv_nth length_take lessI min_less_iff_conj nth_take)
  ultimately obtain i where i: "i < Suc k" "xs ! i = ys ! k"
    by (metis in_set_conv_nth length_take min_less_iff_conj mset_eq_setD nth_take)
  let ?xs = "swap_at i k xs"
  have "drop k ys = drop k ?xs"
    using Suc.prems(2) i k len by (simp add: swap_at_def Cons_nth_drop_Suc [symmetric] nth_list_update drop_update_cancel)
  moreover have "mset ys = mset ?xs"
    using Suc.prems(1) i(1) k by (simp add: swap_at_mset)
  ultimately obtain rnd where "permute_from rnd 0 k ?xs = ys"
    using Suc.IH [of ?xs] k by auto
  then have "permute_from (\<lambda>j. if j = 0 then i else rnd (j - 1)) 0 (Suc k) xs = ys"
    using i(1) permute_from_shift [of i rnd 0 k ?xs] by simp
  then show ?case
    by blast
qed

text \<open>
  The loop that shuffles the paths permutes them, and for every permutation there are random numbers that
  give it.
\<close>

theorem permute_paths_permutes: "(\<exists>rnd. permute_paths rnd 0 xs = ys) \<longleftrightarrow> mset ys = mset xs"
proof
  show "mset ys = mset xs" if "\<exists>rnd. permute_paths rnd 0 xs = ys"
    using that mset_permute_from [of "length xs" xs] by (auto simp: permute_paths_def)
  show "\<exists>rnd. permute_paths rnd 0 xs = ys" if "mset ys = mset xs"
    using permute_from_surj [of ys xs "length xs"] that mset_eq_length [OF that] by (simp add: permute_paths_def)
qed

lemma mset_permute_paths: "mset (permute_paths rnd n xs) = mset xs"
  by (simp add: permute_paths_def mset_permute_from)

end
