(* ===== verification/Ndp_Src.thy ===== *)
theory Ndp_Src
  imports Ndp_Paths
begin

text \<open>
  The sender of an NDP flow (\<^verbatim>\<open>NdpSrc\<close> of \<^verbatim>\<open>ndp.cpp\<close>): which packet it sends next, on which path, and how it reacts to
  acknowledgements, requests, pulls and packets that the network returned.  What it sends are results of the operations.

  What other parts of the simulator answer is in the record \<open>env\<close>: the random numbers, how long the first queue of the
  host needs until it sends the \<open>n\<close>-th packet, and the packets from the database.  \<open>None\<close> is a failed assertion, an
  \<^verbatim>\<open>abort\<close>, an access outside of an array, or a loop that does not end.  Messages and loggers are left out.

  Times are natural numbers; where the code subtracts a time from an earlier one, its 64 bits wrap around.  The counts of the
  feedback on a path (\<open>path_acks\<close>, \<open>path_nacks\<close>), the avoid ratios and the products that are computed from them are
  unbounded integers: the 32 bits of the code hold them as long as a path has had less than $2^{31} / 100$ feedbacks.
\<close>

section \<open>State\<close>

datatype feedback_type = ACK | NACK | BOUNCE | UNKNOWN

record env =
  rnd :: "nat \<Rightarrow> nat"
  feeder_time :: "nat \<Rightarrow> packet \<Rightarrow> nat"
  db :: "nat \<Rightarrow> packet"
  route_strategy :: route_strategy
  min_rto :: nat

record src =
  mss :: nat
  highest_sent :: nat
  packets_sent :: nat
  new_packets_sent :: nat
  rtx_packets_sent :: nat
  acks_received :: nat
  nacks_received :: nat
  pulls_received :: nat
  implicit_pulls :: nat
  bounces_received :: nat
  cwnd :: u32
  last_acked :: nat
  flight_size :: u32
  src_crt_path :: nat
  src_paths :: "route list"
  original_paths :: "route list"
  path_counts_new :: "nat list"
  path_counts_rtx :: "nat list"
  path_counts_rto :: "nat list"
  path_acks :: "int list"
  path_nacks :: "int list"
  bad_path :: "bool list"
  avoid_ratio :: "int list"
  avoid_score :: "int list"
  sent_times :: "(nat \<times> nat) list"
  first_sent_times :: "(nat \<times> nat) list"
  pull_window :: int
  first_window_count :: int
  src_rtt :: nat
  src_rto :: nat
  src_mdev :: nat
  base_rtt :: nat
  rtx_timeout :: nat
  rtx_timeout_pending :: bool
  src_route :: "route option"
  feedback_history :: "feedback_type list"
  feedback_count :: nat
  src_last_pull :: nat
  flow_size :: nat
  rtx_queue :: "packet list"
  src_flow :: nat
  src_draws :: nat
  rtt_hist :: "nat \<Rightarrow> nat"

definition timeInf :: nat where "timeInf = 0"

definition HIST_LEN :: nat where "HIST_LEN = 12"

definition NdpSrc :: "nat \<Rightarrow> nat \<Rightarrow> src" where
  "NdpSrc data_packet_size flow =
     \<lparr>mss = data_packet_size mod 2 ^ 16, highest_sent = 0, packets_sent = 0, new_packets_sent = 0, rtx_packets_sent = 0,
      acks_received = 0, nacks_received = 0, pulls_received = 0, implicit_pulls = 0, bounces_received = 0,
      cwnd = of_nat (15 * data_packet_size), last_acked = 0, flight_size = 0, src_crt_path = 0, src_paths = [],
      original_paths = [], path_counts_new = [], path_counts_rtx = [], path_counts_rto = [], path_acks = [], path_nacks = [],
      bad_path = [], avoid_ratio = [], avoid_score = [], sent_times = [], first_sent_times = [], pull_window = 0,
      first_window_count = 0, src_rtt = 0, src_rto = 20 * 10 ^ 9, src_mdev = 0, base_rtt = timeInf, rtx_timeout = timeInf,
      rtx_timeout_pending = False, src_route = None, feedback_history = replicate HIST_LEN UNKNOWN, feedback_count = 0,
      src_last_pull = 0, flow_size = 2 ^ 63, rtx_queue = [], src_flow = flow, src_draws = 0, rtt_hist = (\<lambda>_. 0)\<rparr>"

definition set_flowsize :: "nat \<Rightarrow> src \<Rightarrow> src" where
  "set_flowsize n s = s\<lparr>flow_size := n\<rparr>"

definition setCwnd :: "u32 \<Rightarrow> src \<Rightarrow> src" where
  "setCwnd n s = s\<lparr>cwnd := n\<rparr>"

definition src_connect :: "route \<Rightarrow> src \<Rightarrow> src" where
  "src_connect r s = s\<lparr>src_route := Some r\<rparr>"

definition scatter :: "route_strategy \<Rightarrow> bool" where
  "scatter strat \<longleftrightarrow> strat \<in> {SCATTER_PERMUTE, SCATTER_RANDOM, PULL_BASED}"

definition src_permute_paths :: "(nat \<Rightarrow> nat) \<Rightarrow> src \<Rightarrow> src" where
  "src_permute_paths r s =
     s\<lparr>src_paths := permute_paths r (src_draws s) (src_paths s), src_draws := src_draws s + length (src_paths s)\<rparr>"

definition number_paths :: "nat \<Rightarrow> nat \<Rightarrow> route list \<Rightarrow> route list" where
  "number_paths me dst rts =
     map (\<lambda>(i, r). set_path_id (int i) (int (length rts)) (add_endpoints me dst r)) (enumerate 0 rts)"

definition src_set_paths :: "env \<Rightarrow> nat \<Rightarrow> nat \<Rightarrow> route list \<Rightarrow> src \<Rightarrow> src option" where
  "src_set_paths e me dst rt_list s =
     (if \<not> scatter (route_strategy e) then None
      else
        let n = length rt_list; ps = number_paths me dst rt_list
        in Some (src_permute_paths (rnd e)
             (s\<lparr>src_paths := ps, original_paths := ps, path_acks := replicate n 0, path_nacks := replicate n 0,
                bad_path := replicate n False, avoid_ratio := replicate n 0, avoid_score := replicate n 0,
                path_counts_new := replicate n 0, path_counts_rtx := replicate n 0, path_counts_rto := replicate n 0,
                src_crt_path := 0\<rparr>)))"

section \<open>Feedback on paths\<close>

definition add_at :: "int \<Rightarrow> 'a :: plus \<Rightarrow> 'a list \<Rightarrow> 'a list option" where
  "add_at i x l = (if 0 \<le> i \<and> nat i < length l then Some (l[nat i := l ! nat i + x]) else None)"

text \<open>The test for a bad path, on the counts after the feedback.\<close>

definition looks_bad :: "nat \<Rightarrow> src \<Rightarrow> bool" where
  "looks_bad i s =
     (let sz = int (length (src_paths s));
          a = path_acks s ! i; n = path_nacks s ! i;
          acks_mean = sum_list (path_acks s) div sz; nacks_mean = sum_list (path_nacks s) div sz;
          nack_ratio = (if 10 < a then n * 100 div a else 0);
          mean_nack_ratio = (if 0 < acks_mean then nacks_mean * 100 div acks_mean else 100)
      in 100 < a + n \<and> mean_nack_ratio * 5 < nack_ratio * 4 \<and> 30 < nack_ratio)"

definition count_feedback :: "env \<Rightarrow> int \<Rightarrow> feedback_type \<Rightarrow> src \<Rightarrow> src option" where
  "count_feedback e path fb s =
     (if route_strategy e = SINGLE_PATH then Some s
      else if fb = UNKNOWN then None
      else
        case (if fb = ACK then add_at path 1 (path_acks s) else Some (path_acks s),
              if fb = ACK then Some (path_nacks s) else add_at path (if fb = NACK then 1 else 3) (path_nacks s)) of
          (Some acks, Some nacks) \<Rightarrow>
            let s1 = s\<lparr>feedback_history := (feedback_history s)[feedback_count s := fb],
                       feedback_count := (feedback_count s + 1) mod HIST_LEN, path_acks := acks, path_nacks := nacks\<rparr>;
                i = nat path
            in if src_paths s = [] then None
               else if looks_bad i s1
               then Some (s1\<lparr>bad_path := (bad_path s)[i := True], avoid_ratio := (avoid_ratio s)[i := avoid_ratio s ! i + 1]\<rparr>)
               else Some (s1\<lparr>bad_path := (bad_path s)[i := False],
                             avoid_ratio := (if 0 < avoid_ratio s ! i then (avoid_ratio s)[i := avoid_ratio s ! i - 1] else avoid_ratio s)\<rparr>)
        | _ \<Rightarrow> None)"

definition is_bad_path :: "src \<Rightarrow> bool" where
  "is_bad_path s =
     (let n = (\<lambda>fb. count_list (feedback_history s) fb); sum = n ACK + n NACK + n BOUNCE
      in 0 < n ACK \<and> sum div n ACK \<le> 3)"

section \<open>Choosing a path\<close>

definition next_path :: "env \<Rightarrow> src \<Rightarrow> src" where
  "next_path e s =
     (if src_crt_path s + 1 = length (src_paths s) then (src_permute_paths (rnd e) s)\<lparr>src_crt_path := 0\<rparr>
      else s\<lparr>src_crt_path := src_crt_path s + 1\<rparr>)"

text \<open>The path of the current route gets its avoid ratio as the score; while it is positive, another path is chosen.\<close>

definition crt_path_id :: "src \<Rightarrow> nat option" where
  "crt_path_id s =
     (if src_crt_path s < length (src_paths s)
      then let i = r_path_id (src_paths s ! src_crt_path s)
           in if 0 \<le> i \<and> nat i < length (avoid_ratio s) then Some (nat i) else None
      else None)"

definition set_score :: "nat \<Rightarrow> int \<Rightarrow> src \<Rightarrow> src" where
  "set_score i x s = s\<lparr>avoid_score := (avoid_score s)[i := x]\<rparr>"

partial_function (option) avoid_bad :: "env \<Rightarrow> src \<Rightarrow> src option" where
  "avoid_bad e s =
     (case crt_path_id s of
        None \<Rightarrow> None
      | Some i \<Rightarrow>
          let s1 = set_score i (avoid_ratio s ! i) s
          in if 0 < avoid_score s1 ! i then avoid_bad e (next_path e (set_score i (avoid_score s1 ! i - 1) s1))
             else if avoid_score s1 ! i = 0 then Some s1 else None)"

definition choose_route :: "env \<Rightarrow> src \<Rightarrow> (route \<times> src) option" where
  "choose_route e s =
     (case route_strategy e of
        PULL_BASED \<Rightarrow>
          if src_paths s = [] then None
          else if length (src_paths s) = 1 then Some (original_paths s ! 0, s)
          else map_option (\<lambda>s1. (src_paths s1 ! src_crt_path s1, s1)) (avoid_bad e (next_path e s))
      | SCATTER_RANDOM \<Rightarrow>
          if src_paths s = [] then None
          else let i = rnd e (src_draws s) mod length (src_paths s)
               in Some (src_paths s ! i, s\<lparr>src_crt_path := i, src_draws := src_draws s + 1\<rparr>)
      | SCATTER_PERMUTE \<Rightarrow>
          if src_paths s = [] then None
          else let s1 = next_path e s
               in if src_crt_path s1 < length (src_paths s1) then Some (src_paths s1 ! src_crt_path s1, s1) else None
      | _ \<Rightarrow> None)"

section \<open>Sending\<close>

fun put_time :: "nat \<Rightarrow> nat \<Rightarrow> (nat \<times> nat) list \<Rightarrow> (nat \<times> nat) list" where
  "put_time k v [] = [(k, v)]"
| "put_time k v (x # xs) = (if fst x < k then x # put_time k v xs else if fst x = k then (k, v) # xs else (k, v) # x # xs)"

definition erase_time :: "nat \<Rightarrow> (nat \<times> nat) list \<Rightarrow> (nat \<times> nat) list" where
  "erase_time k m = filter (\<lambda>x. fst x \<noteq> k) m"

definition update_rtx_time :: "src \<Rightarrow> src" where
  "update_rtx_time s =
     (if sent_times s = [] then s\<lparr>rtx_timeout := timeInf\<rparr>
      else s\<lparr>rtx_timeout :=
               fold (\<lambda>x first. if snd x < first \<or> first = timeInf then snd x else first) (sent_times s) timeInf + src_rto s\<rparr>)"

definition arm_timeout :: "nat \<Rightarrow> src \<Rightarrow> src" where
  "arm_timeout tm s = (if rtx_timeout s = timeInf then s\<lparr>rtx_timeout := tm + src_rto s\<rparr> else s)"

text \<open>The time in the first queue is stored in 32 bits.\<close>

definition note_sent :: "env \<Rightarrow> nat \<Rightarrow> packet \<Rightarrow> src \<Rightarrow> src" where
  "note_sent e tm p s =
     s\<lparr>sent_times := put_time (seqno p) (tm + feeder_time e (packets_sent s) p mod 2 ^ 32) (sent_times s)\<rparr>"

text \<open>A packet from the front of the queue of retransmissions.\<close>

definition send_rtx :: "env \<Rightarrow> nat \<Rightarrow> nat \<Rightarrow> packet \<Rightarrow> src \<Rightarrow> (src \<times> packet list) option" where
  "send_rtx e tm pacer p0 s =
     (let p1 = p0\<lparr>pkt_time := tm, pacerno := pacer\<rparr>
      in case (if route_strategy e = SINGLE_PATH
               then map_option (\<lambda>r. (set_route r p1, s)) (src_route s)
               else case choose_route e s of
                      None \<Rightarrow> None
                    | Some (r, s1) \<Rightarrow>
                        map_option (\<lambda>c. (set_route r p1, s1\<lparr>path_counts_rtx := c\<rparr>)) (add_at (r_path_id r) 1 (path_counts_rtx s1))) of
           None \<Rightarrow> None
         | Some (p2, s2) \<Rightarrow>
             (case sendOn p2 of
                None \<Rightarrow> None
              | Some (snk, p3) \<Rightarrow>
                  let s3 = note_sent e tm p3 s2;
                      s4 = s3\<lparr>packets_sent := packets_sent s3 + 1, rtx_packets_sent := rtx_packets_sent s3 + 1\<rparr>
                  in Some (arm_timeout tm (update_rtx_time s4), [p3])))"

text \<open>A new packet, when there is more to send.\<close>

definition send_new :: "env \<Rightarrow> nat \<Rightarrow> nat \<Rightarrow> src \<Rightarrow> (src \<times> packet list) option" where
  "send_new e tm pacer s =
     (if 0 < flow_size s \<and> flow_size s \<le> highest_sent s then Some (s, [])
      else
        let lst = (0 < flow_size s \<and> flow_size s \<le> highest_sent s + mss s);
            make = (\<lambda>r n. NdpPacket_newpkt (db e (packets_sent s)) (src_flow s) r (highest_sent s + 1) pacer (mss s) False n lst)
        in case (if scatter (route_strategy e)
                 then if src_paths s = [] then None
                      else case choose_route e s of
                             None \<Rightarrow> None
                           | Some (r, s1) \<Rightarrow>
                               map_option (\<lambda>c. (make r (int (length (src_paths s1))), s1\<lparr>path_counts_new := c\<rparr>))
                                 (add_at (r_path_id r) 1 (path_counts_new s1))
                 else if route_strategy e = SINGLE_PATH then map_option (\<lambda>r. (make r 1, s)) (src_route s)
                 else None) of
             None \<Rightarrow> None
           | Some (p1, s2) \<Rightarrow>
               (case sendOn (p1\<lparr>pkt_time := tm\<rparr>) of
                  None \<Rightarrow> None
                | Some (snk, p2) \<Rightarrow>
                    let s3 = s2\<lparr>flight_size := flight_size s2 + of_nat (mss s2), highest_sent := highest_sent s2 + mss s2,
                               packets_sent := packets_sent s2 + 1, new_packets_sent := new_packets_sent s2 + 1\<rparr>;
                        s4 = note_sent e tm p2 s3
                    in Some (arm_timeout tm (s4\<lparr>first_sent_times := put_time (seqno p2) tm (first_sent_times s4)\<rparr>), [p2])))"

definition send_packet :: "env \<Rightarrow> nat \<Rightarrow> nat \<Rightarrow> src \<Rightarrow> (src \<times> packet list) option" where
  "send_packet e tm pacer s =
     (case rtx_queue s of
        p # ps \<Rightarrow> send_rtx e tm pacer p (s\<lparr>rtx_queue := ps\<rparr>)
      | [] \<Rightarrow> send_new e tm pacer s)"

text \<open>The loop of \<^verbatim>\<open>pull_packets\<close>, for the number of pulls that are missing.\<close>

fun pull_loop :: "env \<Rightarrow> nat \<Rightarrow> nat \<Rightarrow> nat \<Rightarrow> src \<Rightarrow> (src \<times> packet list) option" where
  "pull_loop e tm pacer 0 s = Some (s, [])"
| "pull_loop e tm pacer (Suc n) s =
     (case send_packet e tm pacer s of
        None \<Rightarrow> None
      | Some (s1, out) \<Rightarrow>
          map_option (\<lambda>(s2, rest). (s2, out @ rest)) (pull_loop e tm pacer n (s1\<lparr>src_last_pull := src_last_pull s1 + 1\<rparr>)))"

definition pull_packets :: "env \<Rightarrow> nat \<Rightarrow> nat \<Rightarrow> nat \<Rightarrow> src \<Rightarrow> (src \<times> packet list) option" where
  "pull_packets e tm pull_nr pacer s = pull_loop e tm pacer (pull_nr - src_last_pull s) s"

text \<open>The loop of \<^verbatim>\<open>startflow\<close>.\<close>

partial_function (option) first_window :: "env \<Rightarrow> nat \<Rightarrow> src \<Rightarrow> (src \<times> packet list) option" where
  "first_window e tm s =
     (if flight_size s < cwnd s \<and> unat (flight_size s) < flow_size s
      then case send_packet e tm 0 s of
             None \<Rightarrow> None
           | Some (s1, out) \<Rightarrow>
               Option.bind (first_window e tm (s1\<lparr>first_window_count := first_window_count s1 + 1\<rparr>))
                 (\<lambda>(s2, rest). Some (s2, out @ rest))
      else Some (s, []))"

definition startflow :: "env \<Rightarrow> nat \<Rightarrow> src \<Rightarrow> (src \<times> packet list) option" where
  "startflow e tm s =
     first_window e tm
       (s\<lparr>highest_sent := 0, last_acked := 0, packets_sent := 0, rtx_timeout_pending := False, rtx_timeout := timeInf,
          pull_window := 0, flight_size := 0, first_window_count := 0\<rparr>)"

section \<open>Receiving\<close>

definition processRTS :: "env \<Rightarrow> nat \<Rightarrow> packet \<Rightarrow> src \<Rightarrow> (src \<times> packet list) option" where
  "processRTS e tm pkt s =
     (case (unbounce (ACKSIZE + mss s) pkt, proute pkt) of
        (Some p, Some r) \<Rightarrow>
          (case count_feedback e (r_path_id r) BOUNCE
              (s\<lparr>sent_times := erase_time (seqno p) (sent_times s), rtx_queue := p # rtx_queue s\<rparr>) of
             None \<Rightarrow> None
           | Some s1 \<Rightarrow>
               if pull_window s1 = 0 \<and> first_window_count s1 \<le> 1 \<or> is_bad_path s1
               then send_packet e tm 0 s1 else Some (s1, []))
      | _ \<Rightarrow> None)"

definition processNack :: "env \<Rightarrow> nat \<Rightarrow> packet \<Rightarrow> src \<Rightarrow> (src \<times> packet list) option" where
  "processNack e tm nack s =
     (case (count_feedback e (path_id nack) NACK (s\<lparr>sent_times := erase_time (ackno nack) (sent_times s)\<rparr>), src_route s) of
        (Some s1, Some r) \<Rightarrow>
          let lst = (flow_size s \<le> ackno nack + mss s - 1);
              np = (if src_paths s1 \<noteq> [] then int (length (src_paths s1)) else 1);
              p = NdpPacket_newpkt (db e (packets_sent s)) (src_flow s) r (ackno nack) 0 (mss s) True np lst;
              s2 = s1\<lparr>rtx_queue := rtx_queue s1 @ [p]\<rparr>
          in if pull nack
             then pull_packets e tm (pullno nack) (pacerno nack) (s2\<lparr>implicit_pulls := implicit_pulls s2 + 1\<rparr>)
             else Some (s2, [])
      | _ \<Rightarrow> None)"

text \<open>The round-trip time estimates; \<^verbatim>\<open>drand\<close> is a draw divided by the largest possible one.\<close>

definition RAND_MAX :: nat where "RAND_MAX = 2 ^ 31 - 1"

definition sample_rtt :: "nat \<Rightarrow> src \<Rightarrow> src" where
  "sample_rtt m s =
     (if 0 < src_rtt s
      then let dev = (if src_rtt s < m then m - src_rtt s else src_rtt s - m);
               mdev = 3 * src_mdev s div 4 + dev div 4; rtt = 7 * src_rtt s div 8 + m div 8
           in s\<lparr>src_mdev := mdev, src_rtt := rtt, src_rto := rtt + 4 * mdev\<rparr>
      else s\<lparr>src_rtt := m, src_mdev := m div 2, src_rto := m + 4 * (m div 2)\<rparr>)"

definition sample_base :: "nat \<Rightarrow> src \<Rightarrow> src" where
  "sample_base m s = (if base_rtt s = timeInf \<or> m < base_rtt s then s\<lparr>base_rtt := m\<rparr> else s)"

definition bound_rto :: "env \<Rightarrow> src \<Rightarrow> src" where
  "bound_rto e s =
     (if src_rto s < min_rto e
      then let r = rnd e (src_draws s) mod (RAND_MAX + 1)
           in s\<lparr>src_rto := (min_rto e * (2 * r + 3 * RAND_MAX)) div (4 * RAND_MAX), src_draws := src_draws s + 1\<rparr>
      else s)"

definition update_rtt :: "env \<Rightarrow> nat \<Rightarrow> src \<Rightarrow> src" where
  "update_rtt e m s = bound_rto e (if m = 0 then s else sample_base m (sample_rtt m s))"

text \<open>The difference of two times of 64 bits.\<close>

definition time_since :: "nat \<Rightarrow> nat \<Rightarrow> nat" where
  "time_since tm t = nat ((int tm - int t) mod 2 ^ 64)"

text \<open>A time that is not in the map is read as 0.  The histogram has ten million entries.\<close>

definition log_rtt :: "nat \<Rightarrow> nat \<Rightarrow> src \<Rightarrow> src option" where
  "log_rtt tm sent s =
     (if tm < sent then Some s
      else let us = (tm - sent) div 10 ^ 6
           in if us < 10000000 then Some (s\<lparr>rtt_hist := (rtt_hist s)(us := rtt_hist s us + 1)\<rparr>) else None)"

definition processAck :: "env \<Rightarrow> nat \<Rightarrow> packet \<Rightarrow> src \<Rightarrow> (src \<times> packet list) option" where
  "processAck e tm ack s =
     (let s0 = (if pull ack then s\<lparr>pull_window := pull_window s - 1\<rparr> else s);
          sent = (case map_of (first_sent_times s0) (ackno ack) of None \<Rightarrow> 0 | Some t \<Rightarrow> t)
      in case log_rtt tm sent s0 of
           None \<Rightarrow> None
         | Some s1 \<Rightarrow>
             (case count_feedback e (path_id ack) ACK
                 (s1\<lparr>first_sent_times := erase_time (ackno ack) (first_sent_times s1),
                     sent_times := erase_time (ackno ack) (sent_times s1)\<rparr>) of
                None \<Rightarrow> None
              | Some s2 \<Rightarrow>
                  let s3 = update_rtt e (time_since tm (pkt_time ack)) s2;
                      s4 = (if last_acked s3 < cumulative_ack ack then s3\<lparr>last_acked := cumulative_ack ack\<rparr> else s3);
                      s5 = update_rtx_time (s4\<lparr>flight_size := flight_size s4 - of_nat (mss s4)\<rparr>)
                  in if pull ack
                     then pull_packets e tm (pullno ack) (pacerno ack) (s5\<lparr>implicit_pulls := implicit_pulls s5 + 1\<rparr>)
                     else Some (s5, [])))"

definition src_receivePacket :: "env \<Rightarrow> nat \<Rightarrow> packet \<Rightarrow> src \<Rightarrow> (src \<times> packet list) option" where
  "src_receivePacket e tm pkt s =
     (case ptype pkt of
        NDP \<Rightarrow>
          processRTS e tm pkt (s\<lparr>bounces_received := bounces_received s + 1, first_window_count := first_window_count s - 1\<rparr>)
      | NDPNACK \<Rightarrow>
          processNack e tm pkt
            (s\<lparr>nacks_received := nacks_received s + 1, pull_window := pull_window s + 1,
               first_window_count := first_window_count s - 1\<rparr>)
      | NDPPULL \<Rightarrow>
          let s1 = s\<lparr>pulls_received := pulls_received s + 1, pull_window := pull_window s - 1\<rparr>
          in pull_packets e tm (pullno pkt) (pacerno pkt)
               (if last_acked s1 < cumulative_ack pkt then s1\<lparr>last_acked := cumulative_ack pkt\<rparr> else s1)
      | NDPACK \<Rightarrow>
          processAck e tm pkt
            (s\<lparr>acks_received := acks_received s + 1, pull_window := pull_window s + 1,
               first_window_count := first_window_count s - 1\<rparr>)
      | _ \<Rightarrow> Some (s, []))"

section \<open>Timeouts\<close>

definition retransmit_one :: "env \<Rightarrow> nat \<Rightarrow> nat \<Rightarrow> src \<Rightarrow> (src \<times> packet list) option" where
  "retransmit_one e tm sq s =
     (let lst = (flow_size s \<le> sq + mss s - 1);
          make = (\<lambda>r. (NdpPacket_newpkt (db e (packets_sent s)) (src_flow s) r sq 0 (mss s) True (int (length (src_paths s))) lst)\<lparr>pkt_time := tm\<rparr>)
      in case (if scatter (route_strategy e)
               then if src_crt_path s < length (src_paths s)
                    then Some (src_paths s ! src_crt_path s,
                               if route_strategy e = SCATTER_RANDOM
                               then s\<lparr>src_crt_path := rnd e (src_draws s) mod length (src_paths s), src_draws := src_draws s + 1\<rparr>
                               else next_path e s)
                    else None
               else if route_strategy e = SINGLE_PATH then map_option (\<lambda>r. (r, s)) (src_route s) else None) of
           None \<Rightarrow> None
         | Some (r, s1) \<Rightarrow>
             (case (add_at (r_path_id r) 1 (path_counts_rto s1), sendOn (make r)) of
                (Some c, Some (snk, p)) \<Rightarrow>
                  Some (s1\<lparr>path_counts_rto := c, packets_sent := packets_sent s1 + 1, rtx_packets_sent := rtx_packets_sent s1 + 1\<rparr>, [p])
              | _ \<Rightarrow> None))"

fun retransmit_all :: "env \<Rightarrow> nat \<Rightarrow> nat list \<Rightarrow> src \<Rightarrow> (src \<times> packet list) option" where
  "retransmit_all e tm [] s = Some (s, [])"
| "retransmit_all e tm (sq # sqs) s =
     (case retransmit_one e tm sq s of
        None \<Rightarrow> None
      | Some (s1, out) \<Rightarrow> map_option (\<lambda>(s2, rest). (s2, out @ rest)) (retransmit_all e tm sqs s1))"

definition retransmit_packet :: "env \<Rightarrow> nat \<Rightarrow> src \<Rightarrow> (src \<times> packet list) option" where
  "retransmit_packet e tm s =
     (let late = (\<lambda>x. snd x + src_rto s \<le> tm)
      in map_option (\<lambda>(s1, out). (update_rtx_time s1, out))
           (retransmit_all e tm (map fst (filter late (sent_times s))) (s\<lparr>sent_times := filter (\<lambda>x. \<not> late x) (sent_times s)\<rparr>)))"

text \<open>
  The hook that the scanner of the timers calls.  \<open>resend\<close> is whether the macro \<^verbatim>\<open>RESEND_ON_TIMEOUT\<close> is defined, which
  it is not by default.  The second result is the time from now at which the source gets an event.
\<close>

definition rtx_timer_hook :: "bool \<Rightarrow> nat \<Rightarrow> nat \<Rightarrow> src \<Rightarrow> src \<times> nat option" where
  "rtx_timer_hook resend tm period s =
     (if \<not> resend then (s, None)
      else if highest_sent s = 0 then (s, None)
      else if rtx_timeout s = timeInf \<or> tm + period < rtx_timeout s then (s, None)
      else if rtx_timeout_pending s then (s, None)
      else (s\<lparr>rtx_timeout_pending := True\<rparr>, Some (if rtx_timeout s < tm then 0 else rtx_timeout s - tm)))"

text \<open>\<^verbatim>\<open>process_cumulative_ack\<close>, which no part of the program calls.\<close>

definition process_cumulative_ack :: "nat \<Rightarrow> src \<Rightarrow> src" where
  "process_cumulative_ack cum s = s\<lparr>sent_times := dropWhile (\<lambda>x. fst x \<le> cum) (sent_times s)\<rparr>"

definition src_doNextEvent :: "env \<Rightarrow> nat \<Rightarrow> src \<Rightarrow> (src \<times> packet list) option" where
  "src_doNextEvent e tm s =
     (if rtx_timeout_pending s then retransmit_packet e tm (s\<lparr>rtx_timeout_pending := False\<rparr>) else startflow e tm s)"

end
