(* ===== verification/Ndp_Sink.thy ===== *)
theory Ndp_Sink
  imports Ndp_Paths Ndp_Device
begin

text \<open>
  The receiver of an NDP flow (\<^verbatim>\<open>NdpSink\<close> of \<^verbatim>\<open>ndp.cpp\<close>): it acknowledges every data packet and asks for every packet
  that arrives as a header only, and keeps what it has received above a hole.  What it hands to the pacer are
  results of its operations.  Messages are left out; packets have at least the size of a header.  \<open>None\<close> is a failed
  assertion, an access outside of an array, or a division by zero.
\<close>

section \<open>State\<close>

record sink =
  sk_cumulative_ack :: nat
  received :: "nat list"
  sk_drops :: nat
  total_received :: nat
  pull_no :: nat
  last_packet_seqno :: nat
  path_lens :: "nat list"
  trimmed_path_lens :: "nat list"
  sk_paths :: "route list"
  sk_crt_path :: nat
  sk_route :: "route option"
  sk_draws :: nat
  sk_flow :: nat
  path_history :: "(int \<times> bool) list"
  path_hist_index :: int
  path_hist_first :: int
  sk_no_of_paths :: int

definition MAX_PATH_LEN :: nat where "MAX_PATH_LEN = 20"

definition NdpSink :: sink where
  "NdpSink =
     \<lparr>sk_cumulative_ack = 0, received = [], sk_drops = 0, total_received = 0, pull_no = 0, last_packet_seqno = 0,
      path_lens = replicate (MAX_PATH_LEN + 1) 0, trimmed_path_lens = replicate (MAX_PATH_LEN + 1) 0,
      sk_paths = [], sk_crt_path = 0, sk_route = None, sk_draws = 0, sk_flow = 0,
      path_history = [], path_hist_index = -1, path_hist_first = -1, sk_no_of_paths = 0\<rparr>"

definition sink_connect :: "route_strategy \<Rightarrow> nat \<Rightarrow> route \<Rightarrow> sink \<Rightarrow> sink" where
  "sink_connect strat flow r s =
     s\<lparr>sk_flow := flow, sk_route := (if strat = SINGLE_PATH then Some r else None), sk_cumulative_ack := 0, sk_drops := 0\<rparr>"

definition sink_permute_paths :: "(nat \<Rightarrow> nat) \<Rightarrow> sink \<Rightarrow> sink" where
  "sink_permute_paths rnd s =
     s\<lparr>sk_paths := permute_paths rnd (sk_draws s) (sk_paths s), sk_draws := sk_draws s + length (sk_paths s)\<rparr>"

definition sink_set_paths :: "(nat \<Rightarrow> nat) \<Rightarrow> route_strategy \<Rightarrow> nat \<Rightarrow> nat \<Rightarrow> route list \<Rightarrow> sink \<Rightarrow> sink option" where
  "sink_set_paths rnd strat me src rt_list s =
     (if strat \<in> {NOT_SET, SINGLE_PATH} \<or> sk_paths s \<noteq> [] then None
      else Some (sink_permute_paths rnd (s\<lparr>sk_paths := map (add_endpoints me src) rt_list, sk_crt_path := 0\<rparr>)))"

section \<open>The history of paths\<close>

definition HISTORY_PER_PATH :: int where "HISTORY_PER_PATH = 4"

definition PULL_MAXPATHS :: int where "PULL_MAXPATHS = 256"

text \<open>The array has room for as many entries as were reserved.\<close>

definition record_path :: "int \<Rightarrow> bool \<Rightarrow> sink \<Rightarrow> sink option" where
  "record_path path header s =
     (if 0 \<le> path_hist_index s \<and> nat (path_hist_index s) < length (path_history s)
      then Some (s\<lparr>path_history := (path_history s)[nat (path_hist_index s) := (path, header)]\<rparr>) else None)"

definition route_path_id :: "packet \<Rightarrow> int option" where
  "route_path_id p = map_option r_path_id (proute p)"

definition update_path_history :: "packet \<Rightarrow> sink \<Rightarrow> sink option" where
  "update_path_history p s =
     (case route_path_id p of
        None \<Rightarrow> None
      | Some path \<Rightarrow>
          if path < 0 \<or> 10000 \<le> path then None
          else if path_hist_index s = -1
          then if PULL_MAXPATHS < no_of_paths p then None
               else record_path path (is_header p)
                      (s\<lparr>sk_no_of_paths := no_of_paths p,
                         path_history := replicate (nat (no_of_paths p * HISTORY_PER_PATH)) (-1, False),
                         path_hist_index := 0, path_hist_first := 0\<rparr>)
          else if sk_no_of_paths s \<noteq> no_of_paths p \<or> sk_no_of_paths s = 0 then None
          else
            let i = (path_hist_index s + 1) mod sk_no_of_paths s * HISTORY_PER_PATH;
                f = (if path_hist_first s = i then (path_hist_first s + 1) mod sk_no_of_paths s * HISTORY_PER_PATH
                     else path_hist_first s)
            in record_path path (is_header p) (s\<lparr>path_hist_index := i, path_hist_first := f\<rparr>))"

section \<open>Feedback\<close>

datatype sink_out = To_pacer packet nat | Release_pulls nat | Freed packet

text \<open>The path for the next feedback.\<close>

definition sink_next_path :: "(nat \<Rightarrow> nat) \<Rightarrow> route_strategy \<Rightarrow> sink \<Rightarrow> sink" where
  "sink_next_path rnd strat s =
     (if strat = SCATTER_RANDOM
      then s\<lparr>sk_crt_path := rnd (sk_draws s) mod length (sk_paths s), sk_draws := sk_draws s + 1\<rparr>
      else if sk_crt_path s + 1 = length (sk_paths s)
      then (sink_permute_paths rnd s)\<lparr>sk_crt_path := 0\<rparr>
      else s\<lparr>sk_crt_path := sk_crt_path s + 1\<rparr>)"

text \<open>
  \<^verbatim>\<open>send_ack\<close> and \<^verbatim>\<open>send_nack\<close>, which only differ in the pseudo-constructor \<open>newpkt\<close>; \<open>old\<close> is the packet that is
  reused.
\<close>

definition send_feedback ::
  "(packet \<Rightarrow> nat \<Rightarrow> route \<Rightarrow> nat \<Rightarrow> nat \<Rightarrow> nat \<Rightarrow> nat \<Rightarrow> int \<Rightarrow> packet) \<Rightarrow> (nat \<Rightarrow> nat) \<Rightarrow> route_strategy \<Rightarrow> packet \<Rightarrow>
     nat \<Rightarrow> nat \<Rightarrow> nat \<Rightarrow> sink \<Rightarrow> (sink \<times> sink_out list) option" where
  "send_feedback newpkt rnd strat old ts ackn pacer s =
     (let s1 = s\<lparr>pull_no := pull_no s + 1\<rparr>;
          path = fst (path_history s1 ! nat (path_hist_index s1));
          make = (\<lambda>r. (newpkt old (sk_flow s1) r 0 ackn (sk_cumulative_ack s1) (pull_no s1) path)\<lparr>pkt_time := ts\<rparr>)
      in if path_hist_index s1 < 0 \<or> length (path_history s1) \<le> nat (path_hist_index s1) then None
         else if strat \<in> {SCATTER_PERMUTE, SCATTER_RANDOM, PULL_BASED}
         then if sk_crt_path s1 < length (sk_paths s1)
              then Some (sink_next_path rnd strat s1, [To_pacer (make (sk_paths s1 ! sk_crt_path s1)) pacer]) else None
         else if strat = SINGLE_PATH
         then map_option (\<lambda>r. (s1, [To_pacer (make r) pacer])) (sk_route s1)
         else None)"

definition send_ack where "send_ack = send_feedback NdpAck_newpkt"

definition send_nack where "send_nack = send_feedback NdpNack_newpkt"

section \<open>Receiving\<close>

text \<open>The loop over packets that were received above the hole that has been filled.\<close>

fun advance_ack :: "nat \<Rightarrow> nat \<Rightarrow> nat list \<Rightarrow> nat \<times> nat list" where
  "advance_ack sz cum [] = (cum, [])"
| "advance_ack sz cum (x # xs) = (if x = cum + 1 then advance_ack sz (cum + sz) xs else (cum, x # xs))"

fun fill_hole :: "nat \<Rightarrow> nat list \<Rightarrow> nat list" where
  "fill_hole sq [] = []"
| "fill_hole sq (x # xs) = (if sq = x then x # xs else if sq < x then sq # x # xs else x # fill_hole sq xs)"

definition note_data :: "nat \<Rightarrow> nat \<Rightarrow> sink \<Rightarrow> sink option" where
  "note_data sq sz s =
     (let cum = sk_cumulative_ack s
      in if sq = cum + 1
         then case advance_ack sz (sq + sz - 1) (received s) of (cum', rest) \<Rightarrow>
                Some (s\<lparr>sk_cumulative_ack := cum', received := rest\<rparr>)
         else if sq < cum + 1 then Some s
         else if received s = []
         then if sz = 0 then None
              else Some (s\<lparr>received := [sq], sk_drops := sk_drops s + (sz + sq - cum - 1) div sz\<rparr>)
         else if last (received s) < sq then Some (s\<lparr>received := received s @ [sq]\<rparr>)
         else Some (s\<lparr>received := fill_hole sq (received s)\<rparr>))"

definition count_len :: "nat \<Rightarrow> nat list \<Rightarrow> nat list option" where
  "count_len n l = (if n < length l then Some (l[n := l ! n + 1]) else None)"

definition receive_full :: "(nat \<Rightarrow> nat) \<Rightarrow> route_strategy \<Rightarrow> packet \<Rightarrow> packet \<Rightarrow> sink \<Rightarrow> (sink \<times> sink_out list) option" where
  "receive_full rnd strat old p s =
     (case count_len (path_len p) (path_lens s) of
        None \<Rightarrow> None
      | Some lens \<Rightarrow>
          if psize p < ACKSIZE then None
          else
            let sz = psize p - ACKSIZE;
                s1 = s\<lparr>path_lens := lens,
                       last_packet_seqno := (if last_packet p then seqno p + sz - 1 else last_packet_seqno s),
                       total_received := total_received s + sz\<rparr>
            in case note_data (seqno p) sz s1 of
                 None \<Rightarrow> None
               | Some s2 \<Rightarrow>
                   (case send_ack rnd strat old (pkt_time p) (seqno p) (pacerno p) s2 of
                      None \<Rightarrow> None
                    | Some (s3, outs) \<Rightarrow>
                        Some (s3, Freed p # outs @
                          (if 0 < last_packet_seqno s3 \<and> sk_cumulative_ack s3 = last_packet_seqno s3
                           then [Release_pulls (sk_flow s3)] else []))))"

definition sink_receivePacket :: "(nat \<Rightarrow> nat) \<Rightarrow> route_strategy \<Rightarrow> packet \<Rightarrow> packet \<Rightarrow> sink \<Rightarrow> (sink \<times> sink_out list) option" where
  "sink_receivePacket rnd strat old p s =
     (if ptype p \<in> {NDPACK, NDPNACK, NDPPULL} then if bounced p then Some (s, [Freed p]) else None
      else case update_path_history p s of
             None \<Rightarrow> None
           | Some s1 \<Rightarrow>
               if is_header p
               then (case send_nack rnd strat old (pkt_time p) (seqno p) (pacerno p) s1 of
                       None \<Rightarrow> None
                     | Some (s2, outs) \<Rightarrow>
                         map_option (\<lambda>lens. (s2\<lparr>trimmed_path_lens := lens\<rparr>, outs @ [Freed p]))
                           (count_len (path_len p) (trimmed_path_lens s2)))
               else receive_full rnd strat old p s1)"

text \<open>\<^verbatim>\<open>NdpSink::cumulative_ack\<close>, which other parts read as the progress of the flow.\<close>

definition sink_cumulative_ack :: "sink \<Rightarrow> nat" where
  "sink_cumulative_ack s = sk_cumulative_ack s + length (received s) * 9000"

end
