(* ===== verification/Ndp_Reassembly.thy ===== *)
theory Ndp_Reassembly
  imports Ndp_Sink
begin

text \<open>
  What the receiver of an NDP flow knows of it: its cumulative acknowledgement and its list of packets above a hole
  are the set of the packets that have arrived, for flows whose packets have the same size, in any order and with
  duplicates and trimmed packets in between; and when it releases the pulls of the flow.
\<close>

section \<open>The set of packets that have arrived\<close>

definition first_byte :: "nat \<Rightarrow> nat \<Rightarrow> nat" where
  "first_byte m k = 1 + k * m"

lemma first_byte_simps [simp]:
  "0 < m \<Longrightarrow> first_byte m j = first_byte m k \<longleftrightarrow> j = k" "0 < m \<Longrightarrow> first_byte m j < first_byte m k \<longleftrightarrow> j < k"
  "0 < m \<Longrightarrow> first_byte m j = Suc (k * m) \<longleftrightarrow> j = k" "0 < m \<Longrightarrow> first_byte m j < Suc (k * m) \<longleftrightarrow> j < k"
  "first_byte m k + m - Suc 0 = m + k * m"
  by (simp_all add: first_byte_def)

definition reassembled :: "nat \<Rightarrow> nat set \<Rightarrow> nat \<Rightarrow> nat list \<Rightarrow> bool" where
  "reassembled m K cum rcv \<longleftrightarrow>
     (\<exists>c ks. cum = c * m \<and> {..<c} \<subseteq> K \<and> c \<notin> K \<and> rcv = map (first_byte m) ks \<and> sorted_wrt (<) ks \<and> set ks = {k \<in> K. c < k})"

lemma advance_ack_holds:
  assumes "0 < m" and "sorted_wrt (<) ks" and "\<forall>k \<in> set ks. c \<le> k"
  shows "\<exists>c' ks'. advance_ack m (c * m) (map (first_byte m) ks) = (c' * m, map (first_byte m) ks') \<and> c \<le> c' \<and>
    {c..<c'} \<subseteq> set ks \<and> c' \<notin> set ks \<and> sorted_wrt (<) ks' \<and> set ks' = {k \<in> set ks. c' < k}"
  using assms(2,3)
proof (induction ks arbitrary: c)
  case (Cons k ks)
  show ?case
  proof (cases "k = c")
    case True
    then have "\<forall>j \<in> set ks. Suc c \<le> j"
      using Cons.prems(1) by (simp add: Suc_le_eq)
    then obtain c' ks' where "advance_ack m (Suc c * m) (map (first_byte m) ks) = (c' * m, map (first_byte m) ks')"
      "Suc c \<le> c'" "{Suc c..<c'} \<subseteq> set ks" "c' \<notin> set ks" "sorted_wrt (<) ks'" "set ks' = {j \<in> set ks. c' < j}"
      using Cons.IH [of "Suc c"] Cons.prems(1) by auto
    moreover have "{c..<c'} = insert c {Suc c..<c'}"
      using calculation(2) by auto
    ultimately show ?thesis
      using True by (intro exI [of _ c'] exI [of _ ks']) (auto simp: assms(1) add.commute)
  next
    case False
    then have "c < k" "\<forall>j \<in> set (k # ks). c < j"
      using Cons.prems by fastforce+
    then show ?thesis
      using Cons.prems(1) assms(1) by (intro exI [of _ c] exI [of _ "k # ks"]) auto
  qed
qed auto

lemma fill_hole_holds:
  assumes "0 < m" and "sorted_wrt (<) ks" and "ks \<noteq> []" and "k \<le> last ks"
  shows "\<exists>ks'. fill_hole (first_byte m k) (map (first_byte m) ks) = map (first_byte m) ks' \<and> sorted_wrt (<) ks' \<and>
    set ks' = insert k (set ks)"
  using assms(2-4)
proof (induction ks)
  case (Cons x xs)
  consider "k = x" | "k < x" | "x < k"
    by linarith
  then show ?case
  proof cases
    case 3
    then have "xs \<noteq> []" "k \<le> last xs"
      using Cons.prems by (auto split: if_splits)
    then obtain ks' where "fill_hole (first_byte m k) (map (first_byte m) xs) = map (first_byte m) ks'" "sorted_wrt (<) ks'"
      "set ks' = insert k (set xs)"
      using Cons by auto
    then show ?thesis
      using 3 Cons.prems(1) assms(1) by (intro exI [of _ "x # ks'"]) auto
  next
    case 2
    then show ?thesis
      using Cons.prems(1) assms(1) by (intro exI [of _ "k # x # xs"]) auto
  qed (use assms(1) Cons.prems(1) in \<open>auto intro!: exI [of _ "x # xs"]\<close>)
qed simp

lemma note_data_holds:
  assumes m: "0 < m" and h: "reassembled m K (sk_cumulative_ack s) (received s)"
  shows "\<exists>cum rcv dr. note_data (first_byte m k) m s = Some (s\<lparr>sk_cumulative_ack := cum, received := rcv, sk_drops := dr\<rparr>) \<and>
    reassembled m (insert k K) cum rcv"
proof -
  obtain c ks where c: "sk_cumulative_ack s = c * m" "{..<c} \<subseteq> K" "c \<notin> K" "received s = map (first_byte m) ks"
    "sorted_wrt (<) ks" "set ks = {k \<in> K. c < k}"
    using h unfolding reassembled_def by blast
  have res: ?thesis if "note_data (first_byte m k) m s = Some (s\<lparr>sk_cumulative_ack := c' * m, received := map (first_byte m) ks', sk_drops := dr\<rparr>)"
    "{..<c'} \<subseteq> insert k K" "c' \<notin> insert k K" "sorted_wrt (<) ks'" "set ks' = {j \<in> insert k K. c' < j}" for c' ks' dr
    using that unfolding reassembled_def by blast
  consider "k = c" | "k < c" | "c < k" "ks = []" | "c < k" "ks \<noteq> []" "last ks < k" | "c < k" "ks \<noteq> []" "k \<le> last ks"
    by linarith
  then show ?thesis
  proof cases
    case 1
    obtain c' ks' where c': "advance_ack m (Suc c * m) (map (first_byte m) ks) = (c' * m, map (first_byte m) ks')" "Suc c \<le> c'"
      "{Suc c..<c'} \<subseteq> set ks" "c' \<notin> set ks" "sorted_wrt (<) ks'" "set ks' = {k \<in> set ks. c' < k}"
      using advance_ack_holds [OF m c(5), of "Suc c"] c(6) by (auto simp: Suc_le_eq)
    have "{..<c'} \<subseteq> insert k K"
    proof
      fix j
      assume "j \<in> {..<c'}"
      then have "j < c \<or> j = c \<or> j \<in> {Suc c..<c'}"
        by auto
      then show "j \<in> insert k K"
        using c(2,6) c'(3) 1 by blast
    qed
    then show ?thesis
      using c c' 1 m by (intro res [where c' = c' and ks' = ks' and dr = "sk_drops s"]) (auto simp: note_data_def Let_def)
  next
    case 2
    then have "k \<in> K"
      using c(2) by auto
    then show ?thesis
      using c 2 m by (intro res [where c' = c and ks' = ks and dr = "sk_drops s"]) (auto simp: note_data_def Let_def)
  next
    case 3
    show ?thesis
      using c 3 m by (intro res [where c' = c and ks' = "[k]" and dr = "sk_drops s + (m + first_byte m k - Suc (c * m)) div m"]) (auto simp: note_data_def Let_def)
  next
    case 4
    have "sorted_wrt (<) (butlast ks @ [last ks])"
      using 4(2) c(5) by simp
    then have "\<forall>x \<in> set (butlast ks). x < last ks"
      by (simp add: sorted_wrt_append)
    then have "\<forall>x \<in> set (butlast ks @ [last ks]). x < k"
      using 4(3) by auto
    then have "\<forall>x \<in> set ks. x < k"
      using 4(2) by simp
    then show ?thesis
      using c 4 m by (intro res [where c' = c and ks' = "ks @ [k]" and dr = "sk_drops s"]) (auto simp: note_data_def Let_def last_map sorted_wrt_append)
  next
    case 5
    obtain ks' where "fill_hole (first_byte m k) (map (first_byte m) ks) = map (first_byte m) ks'" "sorted_wrt (<) ks'"
      "set ks' = insert k (set ks)"
      using fill_hole_holds [OF m c(5) 5(2,3)] by blast
    moreover have "\<not> first_byte m (last ks) < first_byte m k"
      using 5(3) m by simp
    ultimately show ?thesis
      using c 5 m by (intro res [where c' = c and ks' = ks' and dr = "sk_drops s"]) (auto simp: note_data_def Let_def last_map)
  qed
qed

section \<open>A flow of equal packets\<close>

text \<open>
  The packets of a flow of \<open>n\<close> packets with \<open>m\<close> bytes each, on \<open>np\<close> paths: full packets and headers of trimmed ones.
\<close>

definition of_sender :: "nat \<Rightarrow> nat \<Rightarrow> int \<Rightarrow> packet \<Rightarrow> bool" where
  "of_sender m n np p \<longleftrightarrow>
     ptype p = NDP \<and> (\<exists>r. proute p = Some r \<and> 0 \<le> r_path_id r \<and> r_path_id r < 10000) \<and> no_of_paths p = np \<and>
     path_len p \<le> MAX_PATH_LEN \<and>
     (\<exists>k < n. seqno p = first_byte m k \<and> (last_packet p \<longleftrightarrow> k = n - 1)) \<and> (is_header p \<or> psize p = m + ACKSIZE)"

definition got :: "nat \<Rightarrow> packet list \<Rightarrow> nat set" where
  "got m ps = {k. \<exists>p \<in> set ps. \<not> is_header p \<and> seqno p = first_byte m k}"

lemma got_simps [simp]: "got m [] = {}" "got m (ps @ qs) = got m ps \<union> got m qs"
  by (auto simp: got_def)

definition sink_ready :: "int \<Rightarrow> bool \<Rightarrow> sink \<Rightarrow> bool" where
  "sink_ready np begun s \<longleftrightarrow>
     length (path_lens s) = MAX_PATH_LEN + 1 \<and> length (trimmed_path_lens s) = MAX_PATH_LEN + 1 \<and>
     sk_crt_path s < length (sk_paths s) \<and>
     (if begun then sk_no_of_paths s = np \<and> 0 \<le> path_hist_index s \<and> path_hist_index s < np * HISTORY_PER_PATH \<and>
          int (length (path_history s)) = np * HISTORY_PER_PATH
      else path_hist_index s = -1)"

definition sink_inv :: "nat \<Rightarrow> nat \<Rightarrow> int \<Rightarrow> packet list \<Rightarrow> sink \<Rightarrow> bool" where
  "sink_inv m n np ps s \<longleftrightarrow>
     sink_ready np (ps \<noteq> []) s \<and> got m ps \<subseteq> {..<n} \<and> reassembled m (got m ps) (sk_cumulative_ack s) (received s) \<and>
     total_received s = m * length (filter (\<lambda>p. \<not> is_header p) ps) \<and> pull_no s = length ps \<and>
     last_packet_seqno s = (if n - 1 \<in> got m ps then n * m else 0)"

text \<open>The path of the packet is recorded, and is the one that the feedback names.\<close>

lemma update_path_history_ok:
  assumes "sink_ready np begun s" and "0 < np" and "np \<le> PULL_MAXPATHS" and "of_sender m n np p"
  shows "\<exists>h i f. update_path_history p s =
      Some (s\<lparr>sk_no_of_paths := np, path_history := h, path_hist_index := i, path_hist_first := f\<rparr>) \<and>
    0 \<le> i \<and> i < np * HISTORY_PER_PATH \<and> int (length h) = np * HISTORY_PER_PATH \<and> route_path_id p = Some (fst (h ! nat i))"
proof -
  obtain r where r: "proute p = Some r" "0 \<le> r_path_id r" "r_path_id r < 10000"
    using assms(4) by (auto simp: of_sender_def)
  let ?e = "(r_path_id r, is_header p)"
  show ?thesis
  proof (cases begun)
    case False
    let ?h = "(replicate (nat (np * HISTORY_PER_PATH)) (-1, False))[0 := ?e]"
    have "update_path_history p s =
        Some (s\<lparr>sk_no_of_paths := np, path_history := ?h, path_hist_index := 0, path_hist_first := 0\<rparr>)"
      using assms r False
      by (simp add: update_path_history_def route_path_id_def record_path_def of_sender_def sink_ready_def HISTORY_PER_PATH_def)
    then show ?thesis
      using assms(2) r(1) by (intro exI [of _ ?h] exI [of _ 0]) (auto simp: HISTORY_PER_PATH_def route_path_id_def)
  next
    case True
    let ?i = "(path_hist_index s + 1) mod np * HISTORY_PER_PATH"
    let ?f = "if path_hist_first s = ?i then (path_hist_first s + 1) mod np * HISTORY_PER_PATH else path_hist_first s"
    let ?h = "(path_history s)[nat ?i := ?e]"
    have i: "0 \<le> ?i" "?i < np * HISTORY_PER_PATH"
      using assms(2) by (simp_all add: HISTORY_PER_PATH_def)
    have len: "int (length (path_history s)) = np * HISTORY_PER_PATH" "sk_no_of_paths s = np" "path_hist_index s \<noteq> -1"
      using assms(1) True by (auto simp: sink_ready_def)
    then have lt: "nat ?i < length (path_history s)"
      using i by linarith
    have np: "no_of_paths p = np"
      using assms(4) by (simp add: of_sender_def)
    have "update_path_history p s =
        Some (s\<lparr>sk_no_of_paths := np, path_history := ?h, path_hist_index := ?i, path_hist_first := ?f\<rparr>)"
      using assms(2) r len i(1) lt np by (simp add: update_path_history_def route_path_id_def record_path_def Let_def)
    then show ?thesis
      using i len lt r(1) by (intro exI [of _ ?h] exI [of _ ?i] exI [of _ ?f]) (simp add: route_path_id_def)
  qed
qed

lemma send_feedback_ok:
  assumes "sink_ready np True s" and "strat \<in> {SCATTER_PERMUTE, SCATTER_RANDOM, PULL_BASED}"
  shows "\<exists>r paths crt draws. send_feedback newpkt rnd strat old ts ackn pacer s =
      Some (s\<lparr>pull_no := pull_no s + 1, sk_paths := paths, sk_crt_path := crt, sk_draws := draws\<rparr>,
        [To_pacer ((newpkt old (sk_flow s) r 0 ackn (sk_cumulative_ack s) (pull_no s + 1)
            (fst (path_history s ! nat (path_hist_index s))))\<lparr>pkt_time := ts\<rparr>) pacer]) \<and>
    crt < length paths"
proof -
  let ?s = "s\<lparr>pull_no := pull_no s + 1\<rparr>"
  have crt: "sk_crt_path s < length (sk_paths s)"
    using assms(1) by (simp add: sink_ready_def)
  then have "\<exists>paths crt draws. sink_next_path rnd strat ?s =
      ?s\<lparr>sk_paths := paths, sk_crt_path := crt, sk_draws := draws\<rparr> \<and> crt < length paths"
  proof (cases "strat = SCATTER_RANDOM")
    case True
    have "sk_paths s \<noteq> []"
      using crt by auto
    then show ?thesis
      using True
      by (intro exI [of _ "sk_paths s"] exI [of _ "rnd (sk_draws s) mod length (sk_paths s)"] exI [of _ "sk_draws s + 1"])
        (simp add: sink_next_path_def)
  next
    case False
    show ?thesis
    proof (cases "sk_crt_path s + 1 = length (sk_paths s)")
      case True
      then show ?thesis
        using False crt
        by (intro exI [of _ "permute_paths rnd (sk_draws s) (sk_paths s)"] exI [of _ 0] exI [of _ "sk_draws s + length (sk_paths s)"])
          (auto simp: sink_next_path_def sink_permute_paths_def)
    next
      case step: False
      then show ?thesis
        using False crt
        by (intro exI [of _ "sk_paths s"] exI [of _ "sk_crt_path s + 1"] exI [of _ "sk_draws s"]) (auto simp: sink_next_path_def)
    qed
  qed
  then obtain paths crt draws where nxt: "sink_next_path rnd strat ?s =
      ?s\<lparr>sk_paths := paths, sk_crt_path := crt, sk_draws := draws\<rparr>" "crt < length paths"
    by blast
  have "0 \<le> path_hist_index s" "nat (path_hist_index s) < length (path_history s)"
    using assms(1) by (auto simp: sink_ready_def)
  then show ?thesis
    using assms(2) crt nxt
    by (intro exI [of _ "sk_paths s ! sk_crt_path s"] exI [of _ paths] exI [of _ crt] exI [of _ draws])
      (simp add: send_feedback_def Let_def)
qed

text \<open>What the acknowledgement of a packet says.\<close>

fun feedback_of :: "sink_out list \<Rightarrow> packet list" where
  "feedback_of [] = []"
| "feedback_of (To_pacer a n # outs) = a # feedback_of outs"
| "feedback_of (Release_pulls f # outs) = feedback_of outs"
| "feedback_of (Freed p # outs) = feedback_of outs"

definition answers :: "packet \<Rightarrow> nat \<Rightarrow> packet \<Rightarrow> bool" where
  "answers p pn a \<longleftrightarrow>
     ptype a = (if is_header p then NDPNACK else NDPACK) \<and> ackno a = seqno p \<and> pull a \<and> pullno a = pn \<and>
     route_path_id p = Some (path_id a) \<and> pkt_time a = pkt_time p"

definition releases :: "sink_out list \<Rightarrow> bool" where
  "releases outs \<longleftrightarrow> (\<exists>f. Release_pulls f \<in> set outs)"

text \<open>All that is needed of the packet of a flow is whether it is a header, and its number.\<close>

lemma got_snoc:
  assumes "0 < m" and "seqno p = first_byte m k"
  shows "got m [p] = (if is_header p then {} else {k})"
  using assms by (auto simp: got_def)

lemma all_got:
  assumes "0 < m" and "0 < n" and "reassembled m K cum rcv" and "K \<subseteq> {..<n}"
  shows "0 < (if n - 1 \<in> K then n * m else 0) \<and> cum = (if n - 1 \<in> K then n * m else 0) \<longleftrightarrow> {..<n} \<subseteq> K"
proof -
  obtain c where c: "cum = c * m" "{..<c} \<subseteq> K" "c \<notin> K"
    using assms(3) unfolding reassembled_def by blast
  have "c = n" if "{..<n} \<subseteq> K"
    using that c assms(4) by (metis lessThan_iff nat_neq_iff subsetD)
  moreover have "n - 1 \<in> K" if "{..<n} \<subseteq> K"
    using that assms(2) by auto
  ultimately show ?thesis
    using c assms(1,2) by auto
qed

lemma receive_fullI:
  assumes "count_len (path_len p) (path_lens s) = Some lens" and "psize p = m + ACKSIZE"
    and "s\<lparr>path_lens := lens, last_packet_seqno := (if last_packet p then seqno p + m - 1 else last_packet_seqno s),
      total_received := total_received s + m\<rparr> = s2"
    and "note_data (seqno p) m s2 = Some s3"
    and "send_ack rnd strat old (pkt_time p) (seqno p) (pacerno p) s3 = Some (s4, outs)"
  shows "receive_full rnd strat old p s =
    Some (s4, Freed p # outs @ (if 0 < last_packet_seqno s4 \<and> sk_cumulative_ack s4 = last_packet_seqno s4
      then [Release_pulls (sk_flow s4)] else []))"
  using assms by (simp add: receive_full_def Let_def)

lemma sink_step:
  assumes inv: "sink_inv m n np ps s" and m: "0 < m" "0 < n" and np: "0 < np" "np \<le> PULL_MAXPATHS"
    and p: "of_sender m n np p" and strat: "strat \<in> {SCATTER_PERMUTE, SCATTER_RANDOM, PULL_BASED}"
  shows "\<exists>s' outs a. sink_receivePacket rnd strat old p s = Some (s', outs) \<and> sink_inv m n np (ps @ [p]) s' \<and>
    feedback_of outs = [a] \<and> answers p (length ps + 1) a \<and> cumulative_ack a = sk_cumulative_ack s' \<and>
    (releases outs \<longleftrightarrow> \<not> is_header p \<and> {..<n} \<subseteq> got m (ps @ [p]))"
proof -
  obtain k where k: "k < n" "seqno p = first_byte m k" "last_packet p \<longleftrightarrow> k = n - 1"
    using p by (auto simp: of_sender_def)
  have pk: "ptype p = NDP" "path_len p \<le> MAX_PATH_LEN" "is_header p \<or> psize p = m + ACKSIZE"
    using p by (auto simp: of_sender_def)
  note i = inv [unfolded sink_inv_def]
  obtain h ix f where u: "update_path_history p s =
      Some (s\<lparr>sk_no_of_paths := np, path_history := h, path_hist_index := ix, path_hist_first := f\<rparr>)"
    "0 \<le> ix" "ix < np * HISTORY_PER_PATH" "int (length h) = np * HISTORY_PER_PATH" "route_path_id p = Some (fst (h ! nat ix))"
    using update_path_history_ok [of np "ps \<noteq> []" s m n p] i np p by blast
  define s1 where "s1 = s\<lparr>sk_no_of_paths := np, path_history := h, path_hist_index := ix, path_hist_first := f\<rparr>"
  have s1: "sink_ready np True s1"
    using i u by (auto simp: s1_def sink_ready_def)
  show ?thesis
  proof (cases "is_header p")
    case True
    obtain r paths crt draws where fb: "send_nack rnd strat old (pkt_time p) (seqno p) (pacerno p) s1 =
        Some (s1\<lparr>pull_no := pull_no s1 + 1, sk_paths := paths, sk_crt_path := crt, sk_draws := draws\<rparr>,
          [To_pacer ((NdpNack_newpkt old (sk_flow s1) r 0 (seqno p) (sk_cumulative_ack s1) (pull_no s1 + 1)
            (fst (path_history s1 ! nat (path_hist_index s1))))\<lparr>pkt_time := pkt_time p\<rparr>) (pacerno p)])" "crt < length paths"
      using send_feedback_ok [OF s1 strat] unfolding send_nack_def by blast
    let ?l = "(trimmed_path_lens s1)[path_len p := trimmed_path_lens s1 ! path_len p + 1]"
    let ?s = "s1\<lparr>pull_no := pull_no s1 + 1, sk_paths := paths, sk_crt_path := crt, sk_draws := draws, trimmed_path_lens := ?l\<rparr>"
    have "count_len (path_len p) (trimmed_path_lens s1) = Some ?l"
      using s1 pk(2) by (simp add: count_len_def sink_ready_def)
    then have "sink_receivePacket rnd strat old p s = Some (?s,
        [To_pacer ((NdpNack_newpkt old (sk_flow s1) r 0 (seqno p) (sk_cumulative_ack s1) (pull_no s1 + 1)
            (fst (h ! nat ix)))\<lparr>pkt_time := pkt_time p\<rparr>) (pacerno p), Freed p])"
      using True pk(1) u(1) fb by (simp add: sink_receivePacket_def s1_def)
    moreover have "sink_inv m n np (ps @ [p]) ?s"
      using i s1 fb(2) True by (auto simp: sink_inv_def sink_ready_def s1_def got_snoc [OF m(1) k(2)])
    ultimately show ?thesis
      using True u(5) i
      by (auto simp: answers_def releases_def NdpNack_newpkt_def set_route4_def s1_def sink_inv_def)
  next
    case False
    let ?K = "got m (ps @ [p])"
    have K: "?K = insert k (got m ps)" "?K \<subseteq> {..<n}"
      using False got_snoc [OF m(1) k(2)] i k(1) by auto
    let ?lens = "(path_lens s1)[path_len p := path_lens s1 ! path_len p + 1]"
    define s2 where "s2 = s1\<lparr>path_lens := ?lens,
      last_packet_seqno := (if n - 1 \<in> ?K then n * m else 0), total_received := total_received s1 + m\<rparr>"
    have lens: "count_len (path_len p) (path_lens s1) = Some ?lens"
      using s1 pk(2) by (simp add: count_len_def sink_ready_def)
    have "reassembled m (got m ps) (sk_cumulative_ack s2) (received s2)"
      using i by (simp add: s2_def s1_def)
    from note_data_holds [OF m(1) this, of k] obtain cum rcv dr where
      nd: "note_data (seqno p) m s2 = Some (s2\<lparr>sk_cumulative_ack := cum, received := rcv, sk_drops := dr\<rparr>)" "reassembled m ?K cum rcv"
      using K(1) k(2) by auto
    define s3 where "s3 = s2\<lparr>sk_cumulative_ack := cum, received := rcv, sk_drops := dr\<rparr>"
    have s3: "sink_ready np True s3"
      using s1 by (simp add: s3_def s2_def sink_ready_def)
    obtain r paths crt draws where fb: "send_ack rnd strat old (pkt_time p) (seqno p) (pacerno p) s3 =
        Some (s3\<lparr>pull_no := pull_no s3 + 1, sk_paths := paths, sk_crt_path := crt, sk_draws := draws\<rparr>,
          [To_pacer ((NdpAck_newpkt old (sk_flow s3) r 0 (seqno p) (sk_cumulative_ack s3) (pull_no s3 + 1)
            (fst (path_history s3 ! nat (path_hist_index s3))))\<lparr>pkt_time := pkt_time p\<rparr>) (pacerno p)])" "crt < length paths"
      using send_feedback_ok [OF s3 strat] unfolding send_ack_def by blast
    let ?s = "s3\<lparr>pull_no := pull_no s3 + 1, sk_paths := paths, sk_crt_path := crt, sk_draws := draws\<rparr>"
    let ?a = "(NdpAck_newpkt old (sk_flow s3) r 0 (seqno p) cum (pull_no s3 + 1) (fst (h ! nat ix)))\<lparr>pkt_time := pkt_time p\<rparr>"
    let ?fin = "if n - 1 \<in> ?K then n * m else 0"
    have "(if last_packet p then seqno p + m - 1 else last_packet_seqno s1) = ?fin"
      using i k m K(1) by (auto simp: s1_def first_byte_def algebra_simps)
    then have e: "s1\<lparr>path_lens := ?lens, last_packet_seqno := (if last_packet p then seqno p + m - 1 else last_packet_seqno s1),
        total_received := total_received s1 + m\<rparr> = s2"
      unfolding s2_def by (simp only:)
    have "psize p = m + ACKSIZE"
      using pk(3) False by simp
    from receive_fullI [OF lens this e nd(1) [folded s3_def] fb(1)] have "receive_full rnd strat old p s1 =
        Some (?s, Freed p # To_pacer ?a (pacerno p) # (if 0 < ?fin \<and> cum = ?fin then [Release_pulls (sk_flow s3)] else []))"
      by (simp add: s3_def s2_def s1_def)
    then have "sink_receivePacket rnd strat old p s =
        Some (?s, Freed p # To_pacer ?a (pacerno p) # (if {..<n} \<subseteq> ?K then [Release_pulls (sk_flow s3)] else []))"
      using False pk(1) u(1) all_got [OF m nd(2) K(2)] by (simp add: sink_receivePacket_def s1_def)
    moreover have "sink_inv m n np (ps @ [p]) ?s"
      using i s1 fb(2) False nd(2) K by (auto simp: sink_inv_def sink_ready_def s3_def s2_def s1_def)
    ultimately show ?thesis
      using False u(5) i
      by (auto simp: answers_def releases_def NdpAck_newpkt_def set_route4_def s3_def s2_def s1_def sink_inv_def)
  qed
qed

section \<open>A whole flow\<close>

text \<open>Packets that arrive one after the other, each with the packet that is reused for its acknowledgement.\<close>

fun sink_run :: "(nat \<Rightarrow> nat) \<Rightarrow> route_strategy \<Rightarrow> (packet \<times> packet) list \<Rightarrow> sink \<Rightarrow> (sink \<times> sink_out list) option" where
  "sink_run rnd strat [] s = Some (s, [])"
| "sink_run rnd strat ((old, p) # ps) s =
     (case sink_receivePacket rnd strat old p s of
        None \<Rightarrow> None
      | Some (s1, outs) \<Rightarrow> map_option (\<lambda>(s2, more). (s2, outs @ more)) (sink_run rnd strat ps s1))"

lemma feedback_of_append [simp]: "feedback_of (xs @ ys) = feedback_of xs @ feedback_of ys"
  by (induction xs rule: feedback_of.induct) auto

lemma releases_append [simp]: "releases (xs @ ys) \<longleftrightarrow> releases xs \<or> releases ys"
  by (auto simp: releases_def)

lemma sink_run_inv:
  assumes "sink_inv m n np qs s" and m: "0 < m" "0 < n" and np: "0 < np" "np \<le> PULL_MAXPATHS"
    and "\<forall>x \<in> set ps. of_sender m n np (snd x)" and strat: "strat \<in> {SCATTER_PERMUTE, SCATTER_RANDOM, PULL_BASED}"
  shows "\<exists>s' outs. sink_run rnd strat ps s = Some (s', outs) \<and> sink_inv m n np (qs @ map snd ps) s' \<and>
    list_all2 (\<lambda>(i, p) a. answers p i a) (enumerate (length qs + 1) (map snd ps)) (feedback_of outs) \<and>
    (releases outs \<longrightarrow> {..<n} \<subseteq> got m (qs @ map snd ps)) \<and>
    ({..<n} \<subseteq> got m (qs @ map snd ps) \<and> \<not> {..<n} \<subseteq> got m qs \<longrightarrow> releases outs)"
  using assms(1,6)
proof (induction ps arbitrary: qs s)
  case (Cons x ps)
  obtain old p where x: "x = (old, p)"
    by (cases x)
  with Cons.prems(2) have p: "of_sender m n np p"
    by simp
  obtain s1 outs a where 1: "sink_receivePacket rnd strat old p s = Some (s1, outs)" "sink_inv m n np (qs @ [p]) s1"
    "feedback_of outs = [a]" "answers p (length qs + 1) a" "releases outs \<longleftrightarrow> \<not> is_header p \<and> {..<n} \<subseteq> got m (qs @ [p])"
    using sink_step [OF Cons.prems(1) m np p strat] by blast
  have "\<forall>x \<in> set ps. of_sender m n np (snd x)"
    using Cons.prems(2) by simp
  from Cons.IH [OF 1(2) this] obtain s' more where 2: "sink_run rnd strat ps s1 = Some (s', more)"
    "sink_inv m n np (qs @ p # map snd ps) s'"
    "list_all2 (\<lambda>(i, p) a. answers p i a) (enumerate (length qs + 2) (map snd ps)) (feedback_of more)"
    "releases more \<longrightarrow> {..<n} \<subseteq> got m (qs @ p # map snd ps)"
    "{..<n} \<subseteq> got m (qs @ p # map snd ps) \<and> \<not> {..<n} \<subseteq> got m (qs @ [p]) \<longrightarrow> releases more"
    by auto
  have "got m (qs @ [p]) \<subseteq> got m (qs @ p # map snd ps)" "is_header p \<Longrightarrow> got m (qs @ [p]) = got m qs"
    by (auto simp: got_def)
  then have "(releases (outs @ more) \<longrightarrow> {..<n} \<subseteq> got m (qs @ p # map snd ps)) \<and>
      ({..<n} \<subseteq> got m (qs @ p # map snd ps) \<and> \<not> {..<n} \<subseteq> got m qs \<longrightarrow> releases (outs @ more))"
    using 1(5) 2(4,5) by auto
  then show ?case
    using 1(1,3,4) 2(1-3) x by (simp add: eval_nat_numeral)
qed (simp add: releases_def)

lemma sink_inv_start:
  assumes "sink_set_paths rnd strat me src rts (sink_connect strat flow r NdpSink) = Some s" and "rts \<noteq> []"
  shows "sink_inv m n np [] s" "strat \<in> {SCATTER_PERMUTE, SCATTER_RANDOM, PULL_BASED}"
  using assms
  by (cases strat; auto simp: sink_inv_def sink_ready_def reassembled_def sink_set_paths_def sink_connect_def NdpSink_def
      sink_permute_paths_def split: if_splits)+

lemma reassembled_unique:
  assumes "reassembled m K cum rcv" and "finite K"
  shows "cum = (LEAST k. k \<notin> K) * m" "rcv = map (first_byte m) (sorted_list_of_set {k \<in> K. (LEAST k. k \<notin> K) < k})"
proof -
  obtain c ks where c: "cum = c * m" "{..<c} \<subseteq> K" "c \<notin> K" "rcv = map (first_byte m) ks" "sorted_wrt (<) ks" "set ks = {k \<in> K. c < k}"
    using assms(1) unfolding reassembled_def by blast
  have "(LEAST k. k \<notin> K) = c"
    using c(2,3) by (intro Least_equality) (auto simp: not_less [symmetric])
  moreover have "sorted_list_of_set (set ks) = ks"
    using c(5) by (simp add: strict_sorted_iff sorted_list_of_set.idem_if_sorted_distinct)
  ultimately show "cum = (LEAST k. k \<notin> K) * m"
    "rcv = map (first_byte m) (sorted_list_of_set {k \<in> K. (LEAST k. k \<notin> K) < k})"
    using c by simp_all
qed

text \<open>
  Claim C10.  A receiver that is connected on several paths and gets, in any order, full and trimmed packets of a flow
  of \<open>n\<close> packets with \<open>m\<close> bytes fails no assertion.  The cumulative acknowledgement is the number of bytes before the
  first packet that is missing, and the list above it are the other packets that have arrived, in order and without
  duplicates; every full packet is acknowledged and every trimmed one asked for, with consecutive pull numbers and the
  path that the packet took; and the pulls are released if and only if all packets have arrived.
\<close>

theorem sink_correct:
  assumes "sink_set_paths rnd strat me src rts (sink_connect strat flow r NdpSink) = Some s0" and "rts \<noteq> []"
    and "0 < m" and "0 < n" and "0 < np" and "np \<le> PULL_MAXPATHS" and "\<forall>x \<in> set ps. of_sender m n np (snd x)"
    and "K = got m (map snd ps)"
  shows "\<exists>s outs. sink_run rnd strat ps s0 = Some (s, outs) \<and>
    sk_cumulative_ack s = (LEAST k. k \<notin> K) * m \<and>
    received s = map (first_byte m) (sorted_list_of_set {k \<in> K. (LEAST k. k \<notin> K) < k}) \<and>
    list_all2 (\<lambda>(i, p) a. answers p i a) (enumerate 1 (map snd ps)) (feedback_of outs) \<and>
    (releases outs \<longleftrightarrow> {..<n} \<subseteq> K)"
proof -
  note start = sink_inv_start [OF assms(1,2)]
  obtain s outs where 1: "sink_run rnd strat ps s0 = Some (s, outs)" "sink_inv m n np (map snd ps) s"
    "list_all2 (\<lambda>(i, p) a. answers p i a) (enumerate 1 (map snd ps)) (feedback_of outs)"
    "releases outs \<longrightarrow> {..<n} \<subseteq> K" "{..<n} \<subseteq> K \<and> \<not> {..<n} \<subseteq> {} \<longrightarrow> releases outs"
    using sink_run_inv [OF start(1) assms(3-7) start(2), of rnd] assms(8) by auto
  have "reassembled m K (sk_cumulative_ack s) (received s)" "K \<subseteq> {..<n}"
    using 1(2) assms(8) by (simp_all add: sink_inv_def)
  moreover from this(2) have "finite K"
    using finite_subset by blast
  ultimately show ?thesis
    using 1 reassembled_unique assms(4) by blast
qed

definition a_data :: "nat \<Rightarrow> bool \<Rightarrow> packet" where
  "a_data k trimmed = blank\<lparr>proute := Some a_route, psize := (if trimmed then ACKSIZE else 100 + ACKSIZE), is_header := trimmed,
     seqno := first_byte 100 k, last_packet := (k = 1)\<rparr>"

theorem sink_correct_witness:
  "\<exists>s outs. sink_run (\<lambda>_. 0) SCATTER_PERMUTE [(blank, a_data 1 False), (blank, a_data 0 True)]
       (the (sink_set_paths (\<lambda>_. 0) SCATTER_PERMUTE 8 7 [a_route] (sink_connect SCATTER_PERMUTE 1 a_route NdpSink))) = Some (s, outs) \<and>
     sk_cumulative_ack s = 0 \<and> received s = [101] \<and> \<not> releases outs"
proof -
  let ?ps = "[(blank, a_data 1 False), (blank, a_data 0 True)]"
  have s0: "sink_set_paths (\<lambda>_. 0) SCATTER_PERMUTE 8 7 [a_route] (sink_connect SCATTER_PERMUTE 1 a_route NdpSink) =
      Some (the (sink_set_paths (\<lambda>_. 0) SCATTER_PERMUTE 8 7 [a_route] (sink_connect SCATTER_PERMUTE 1 a_route NdpSink)))"
    by (simp add: sink_set_paths_def sink_connect_def NdpSink_def)
  have ps: "\<forall>x \<in> set ?ps. of_sender 100 2 1 (snd x)"
    by (auto simp: of_sender_def a_data_def blank_def a_route_def MAX_PATH_LEN_def ACKSIZE_def)
  have K: "got 100 (map snd ?ps) = {1}"
    by (auto simp: got_def a_data_def)
  have least: "(LEAST k :: nat. k \<notin> {1}) = 0"
    by (intro Least_equality) auto
  have "{k \<in> {1 :: nat}. 0 < k} = {1}" "first_byte 100 1 = 101"
    by (auto simp: first_byte_def)
  moreover have "\<not> {..<2} \<subseteq> {1 :: nat}"
    using subsetD [of "{..<2}" "{1 :: nat}" 0] by auto
  ultimately show ?thesis
    using sink_correct [OF s0 _ _ _ _ _ ps K [symmetric]] unfolding least by (auto simp: PULL_MAXPATHS_def)
qed

end
