(* ===== verification/Ndp_Sender.thy ===== *)
theory Ndp_Sender
  imports Ndp_Src Ndp_Reassembly
begin

text \<open>
  What the sender of an NDP flow does: how it chooses paths, which packets go out and in what order, and how many of
  them the pulls ask for.  The packets that it sends are those that the receiver of \<open>Ndp_Reassembly\<close> expects.
\<close>

section \<open>Paths\<close>

text \<open>The choice of a path changes nothing else, and keeps the paths.\<close>

definition repath :: "src \<Rightarrow> src \<Rightarrow> bool" where
  "repath s s' \<longleftrightarrow> (\<exists>a b c d. s' = s\<lparr>src_crt_path := a, src_paths := b, src_draws := c, avoid_score := d\<rparr>)"

definition path_ok :: "nat \<Rightarrow> route \<Rightarrow> bool" where
  "path_ok n r \<longleftrightarrow> 0 \<le> r_path_id r \<and> r_path_id r < int n \<and> sinklist r \<noteq> [] \<and> length (sinklist r) \<le> MAX_PATH_LEN"

definition all_paths_ok :: "nat \<Rightarrow> src \<Rightarrow> bool" where
  "all_paths_ok n s \<longleftrightarrow>
     0 < n \<and> length (original_paths s) = n \<and> mset (src_paths s) = mset (original_paths s) \<and>
     (\<forall>i < n. r_path_id (original_paths s ! i) = int i) \<and> (\<forall>r \<in> set (original_paths s). path_ok n r) \<and>
     length (path_acks s) = n \<and> length (path_nacks s) = n \<and> length (bad_path s) = n \<and> length (avoid_ratio s) = n \<and>
     length (avoid_score s) = n \<and> length (path_counts_new s) = n \<and> length (path_counts_rtx s) = n \<and>
     length (path_counts_rto s) = n \<and> src_crt_path s < n \<and> (\<forall>x \<in> set (avoid_ratio s). 0 \<le> x)"

lemma repath_refl: "repath s s"
  unfolding repath_def
  by (intro exI [of _ "src_crt_path s"] exI [of _ "src_paths s"] exI [of _ "src_draws s"] exI [of _ "avoid_score s"]) simp

lemma repath_trans: "repath s1 s2 \<Longrightarrow> repath s2 s3 \<Longrightarrow> repath s1 s3"
  unfolding repath_def by (elim exE) (simp, blast)

lemma all_paths_ok_path:
  assumes "all_paths_ok n s" and "i < length (src_paths s)"
  shows "src_paths s ! i \<in> set (original_paths s)" "path_ok n (src_paths s ! i)" "length (src_paths s) = n"
proof -
  have "mset (src_paths s) = mset (original_paths s)"
    using assms(1) by (simp add: all_paths_ok_def)
  then show "src_paths s ! i \<in> set (original_paths s)" "length (src_paths s) = n"
    using assms nth_mem mset_eq_setD mset_eq_length by (fastforce simp: all_paths_ok_def)+
  then show "path_ok n (src_paths s ! i)"
    using assms(1) by (simp add: all_paths_ok_def)
qed

lemma all_paths_ok_length: "all_paths_ok n s \<Longrightarrow> length (src_paths s) = n"
  using mset_eq_length by (fastforce simp: all_paths_ok_def)

lemma next_path_ok:
  assumes "all_paths_ok n s"
  shows "all_paths_ok n (next_path e s)" "repath s (next_path e s)"
proof -
  have len: "length (src_paths s) = n" "0 < n" "src_crt_path s < n"
    using assms all_paths_ok_length by (auto simp: all_paths_ok_def)
  show "all_paths_ok n (next_path e s)"
    using assms len by (auto simp: next_path_def src_permute_paths_def all_paths_ok_def mset_permute_paths)
  show "repath s (next_path e s)"
    unfolding repath_def
    by (intro exI [of _ "src_crt_path (next_path e s)"] exI [of _ "src_paths (next_path e s)"]
        exI [of _ "src_draws (next_path e s)"] exI [of _ "avoid_score s"])
      (simp add: next_path_def src_permute_paths_def)
qed

lemma set_score_ok: "all_paths_ok n s \<Longrightarrow> all_paths_ok n (set_score i x s)" "repath s (set_score i x s)"
proof -
  show "repath s (set_score i x s)"
    unfolding repath_def
    by (intro exI [of _ "src_crt_path s"] exI [of _ "src_paths s"] exI [of _ "src_draws s"] exI [of _ "(avoid_score s)[i := x]"])
      (simp add: set_score_def)
qed (simp add: all_paths_ok_def set_score_def)

text \<open>The number of the current path.\<close>

definition crt_nr :: "src \<Rightarrow> nat" where
  "crt_nr s = nat (r_path_id (src_paths s ! src_crt_path s))"

lemma crt_path_id_ok: "all_paths_ok n s \<Longrightarrow> crt_path_id s = Some (crt_nr s) \<and> crt_nr s < n"
  using all_paths_ok_path(2,3) [of n s "src_crt_path s"] all_paths_ok_length [of n s]
  by (auto simp: crt_path_id_def crt_nr_def Let_def path_ok_def all_paths_ok_def)

text \<open>One round of the loop that avoids bad paths.\<close>

lemma avoid_bad_step:
  assumes "all_paths_ok n s"
  shows "\<exists>s1. all_paths_ok n s1 \<and> repath s s1 \<and> src_paths s1 = src_paths s \<and> src_crt_path s1 = src_crt_path s \<and>
    avoid_bad e s = (if avoid_ratio s ! crt_nr s = 0 then Some s1 else avoid_bad e (next_path e s1))"
proof -
  let ?i = "crt_nr s"
  have i: "crt_path_id s = Some ?i" "?i < length (avoid_score s)" "0 \<le> avoid_ratio s ! ?i"
    using crt_path_id_ok [OF assms] assms by (auto simp: all_paths_ok_def)
  show ?thesis
  proof (cases "avoid_ratio s ! ?i = 0")
    case True
    show ?thesis
    proof (intro exI [of _ "set_score ?i 0 s"] conjI)
      show "avoid_bad e s = (if avoid_ratio s ! crt_nr s = 0 then Some (set_score (crt_nr s) 0 s)
          else avoid_bad e (next_path e (set_score (crt_nr s) 0 s)))"
        using True i by (subst avoid_bad.simps) (simp add: set_score_def Let_def)
    qed (use assms set_score_ok in \<open>auto simp: set_score_def\<close>)
  next
    case False
    let ?s = "set_score ?i (avoid_ratio s ! ?i - 1) s"
    show ?thesis
    proof (intro exI [of _ ?s] conjI)
      show "avoid_bad e s = (if avoid_ratio s ! crt_nr s = 0 then Some ?s else avoid_bad e (next_path e ?s))"
        using False i by (subst avoid_bad.simps) (simp add: set_score_def Let_def)
    qed (use assms set_score_ok in \<open>auto simp: set_score_def\<close>)
  qed
qed

lemma repath_keeps: "repath s s' \<Longrightarrow> avoid_ratio s' = avoid_ratio s" "repath s s' \<Longrightarrow> original_paths s' = original_paths s"
  "repath s s' \<Longrightarrow> src_last_pull s' = src_last_pull s" "repath s s' \<Longrightarrow> rtx_queue s' = rtx_queue s"
  "repath s s' \<Longrightarrow> flight_size s' = flight_size s" "repath s s' \<Longrightarrow> cwnd s' = cwnd s"
  by (auto simp: repath_def)

lemma avoid_bad_ahead:
  assumes "all_paths_ok n s" and "src_crt_path s + j < n"
    and "avoid_ratio s ! nat (r_path_id (src_paths s ! (src_crt_path s + j))) = 0"
  shows "\<exists>s'. avoid_bad e s = Some s' \<and> all_paths_ok n s' \<and> repath s s' \<and> avoid_ratio s' ! crt_nr s' = 0"
  using assms
proof (induction j arbitrary: s)
  case 0
  obtain s1 where s1: "all_paths_ok n s1" "repath s s1" "src_paths s1 = src_paths s" "src_crt_path s1 = src_crt_path s"
    "avoid_bad e s = (if avoid_ratio s ! crt_nr s = 0 then Some s1 else avoid_bad e (next_path e s1))"
    using avoid_bad_step [OF 0(1)] by blast
  then show ?case
    using 0(3) repath_keeps(1) [OF s1(2)] by (auto simp: crt_nr_def)
next
  case (Suc j)
  obtain s1 where s1: "all_paths_ok n s1" "repath s s1" "src_paths s1 = src_paths s" "src_crt_path s1 = src_crt_path s"
    "avoid_bad e s = (if avoid_ratio s ! crt_nr s = 0 then Some s1 else avoid_bad e (next_path e s1))"
    using avoid_bad_step [OF Suc.prems(1)] by blast
  show ?case
  proof (cases "avoid_ratio s ! crt_nr s = 0")
    case True
    then show ?thesis
      using s1 repath_keeps(1) [OF s1(2)] by (auto simp: crt_nr_def)
  next
    case False
    have "src_crt_path s1 + 1 \<noteq> length (src_paths s1)"
      using Suc.prems(2) s1(4) all_paths_ok_length [OF s1(1)] by simp
    then have n: "src_crt_path (next_path e s1) = src_crt_path s + 1" "src_paths (next_path e s1) = src_paths s"
      "avoid_ratio (next_path e s1) = avoid_ratio s"
      using s1(3,4) repath_keeps(1) [OF s1(2)] by (simp_all add: next_path_def)
    obtain s' where "avoid_bad e (next_path e s1) = Some s'" "all_paths_ok n s'" "repath (next_path e s1) s'"
      "avoid_ratio s' ! crt_nr s' = 0"
      using Suc.IH [OF next_path_ok(1) [OF s1(1), of e]] Suc.prems(2,3) n by auto
    then show ?thesis
      using False s1(5) repath_trans [OF s1(2) repath_trans [OF next_path_ok(2) [OF s1(1)]]] by auto
  qed
qed

lemma avoid_bad_returns:
  assumes "all_paths_ok n s" and "\<exists>i < n. avoid_ratio s ! i = 0"
  shows "\<exists>s'. avoid_bad e s = Some s' \<and> all_paths_ok n s' \<and> repath s s' \<and> avoid_ratio s' ! crt_nr s' = 0"
  using assms
proof (induction "n - src_crt_path s" arbitrary: s rule: less_induct)
  case less
  obtain s1 where s1: "all_paths_ok n s1" "repath s s1" "src_paths s1 = src_paths s" "src_crt_path s1 = src_crt_path s"
    "avoid_bad e s = (if avoid_ratio s ! crt_nr s = 0 then Some s1 else avoid_bad e (next_path e s1))"
    using avoid_bad_step [OF less.prems(1)] by blast
  let ?s = "next_path e s1"
  have ok: "all_paths_ok n ?s" "repath s ?s" "avoid_ratio ?s = avoid_ratio s"
    using next_path_ok [OF s1(1)] repath_trans [OF s1(2)] repath_keeps(1) by auto
  have len: "length (src_paths s) = n" "src_crt_path s < n"
    using less.prems(1) all_paths_ok_length by (auto simp: all_paths_ok_def)
  show ?case
  proof (cases "avoid_ratio s ! crt_nr s = 0")
    case True
    then show ?thesis
      using s1 repath_keeps(1) [OF s1(2)] by (auto simp: crt_nr_def)
  next
    case False
    have "\<exists>s'. avoid_bad e ?s = Some s' \<and> all_paths_ok n s' \<and> repath ?s s' \<and> avoid_ratio s' ! crt_nr s' = 0"
    proof (cases "src_crt_path s + 1 = n")
      case True
      then have crt: "src_crt_path ?s = 0"
        using s1(3,4) len by (simp add: next_path_def)
      obtain i where i: "i < n" "avoid_ratio s ! i = 0"
        using less.prems(2) by blast
      have o: "mset (src_paths ?s) = mset (original_paths ?s)" "i < length (original_paths ?s)"
        "r_path_id (original_paths ?s ! i) = int i"
        using ok(1) i(1) unfolding all_paths_ok_def by blast+
      then have "original_paths ?s ! i \<in> set (src_paths ?s)"
        using nth_mem mset_eq_setD by blast
      then obtain j where "j < n" "r_path_id (src_paths ?s ! j) = int i"
        using all_paths_ok_length [OF ok(1)] o(3) unfolding in_set_conv_nth by metis
      then show ?thesis
        using avoid_bad_ahead [OF ok(1), of j] crt i(2) ok(3) by simp
    next
      case False
      then have "src_crt_path ?s = src_crt_path s + 1"
        using s1(3,4) len by (simp add: next_path_def)
      then show ?thesis
        using less.hyps [of ?s] ok less.prems(2) len False by auto
    qed
    then show ?thesis
      using False s1(5) repath_trans [OF ok(2)] by auto
  qed
qed

lemma avoid_bad_diverges:
  assumes "avoid_bad e s = Some s'" and "all_paths_ok n s"
  shows "\<exists>i < n. avoid_ratio s ! i = 0"
proof -
  have "all_paths_ok n s \<longrightarrow> (\<exists>i < n. avoid_ratio s ! i = 0)"
  proof (rule avoid_bad.raw_induct [where P = "\<lambda>e s s'. all_paths_ok n s \<longrightarrow> (\<exists>i < n. avoid_ratio s ! i = 0)", OF _ assms(1)],
      rule impI, goal_cases)
    case (1 rec e s s')
    let ?i = "crt_nr s"
    have i: "crt_path_id s = Some ?i" "?i < n" "?i < length (avoid_score s)" "0 \<le> avoid_ratio s ! ?i"
      using crt_path_id_ok [OF 1(3)] 1(3) by (auto simp: all_paths_ok_def)
    show ?case
    proof (cases "avoid_ratio s ! ?i = 0")
      case False
      let ?s = "next_path e (set_score ?i (avoid_ratio s ! ?i - 1) (set_score ?i (avoid_ratio s ! ?i) s))"
      have "rec e ?s = Some s'"
        using 1(2) i False by (simp add: Let_def set_score_def)
      moreover have "all_paths_ok n ?s"
        by (intro next_path_ok(1) set_score_ok(1) 1(3))
      moreover have "avoid_ratio ?s = avoid_ratio s"
        by (simp add: next_path_def src_permute_paths_def set_score_def)
      ultimately show ?thesis
        using 1(1) by metis
    qed (use i(2) in blast)
  qed
  then show ?thesis
    using assms(2) by blast
qed

definition usable :: "env \<Rightarrow> nat \<Rightarrow> src \<Rightarrow> bool" where
  "usable e n s \<longleftrightarrow> scatter (route_strategy e) \<and> (route_strategy e = PULL_BASED \<and> 1 < n \<longrightarrow> (\<exists>i < n. avoid_ratio s ! i = 0))"

lemma choose_route_ok:
  assumes ok: "all_paths_ok n s" and "usable e n s"
  shows "\<exists>r s'. choose_route e s = Some (r, s') \<and> r \<in> set (original_paths s) \<and> path_ok n r \<and> all_paths_ok n s' \<and> repath s s' \<and>
    (route_strategy e = PULL_BASED \<and> 1 < n \<longrightarrow> avoid_ratio s ! nat (r_path_id r) = 0)"
proof -
  have n: "length (src_paths s) = n" "0 < n"
    using ok all_paths_ok_length by (auto simp: all_paths_ok_def)
  then have ne: "src_paths s \<noteq> []"
    by auto
  have chosen: "src_paths s' ! src_crt_path s' \<in> set (original_paths s) \<and> path_ok n (src_paths s' ! src_crt_path s')"
    if "all_paths_ok n s'" "repath s s'" for s'
  proof -
    have "src_crt_path s' < length (src_paths s')"
      using that(1) all_paths_ok_length by (auto simp: all_paths_ok_def)
    then show ?thesis
      using all_paths_ok_path [OF that(1)] repath_keeps(2) [OF that(2)] by auto
  qed
  have "route_strategy e = PULL_BASED \<or> route_strategy e = SCATTER_RANDOM \<or> route_strategy e = SCATTER_PERMUTE"
    using assms(2) by (auto simp: usable_def scatter_def)
  then show ?thesis
  proof (elim disjE)
    assume str: "route_strategy e = PULL_BASED"
    show ?thesis
    proof (cases "n = 1")
      case True
      then have "original_paths s ! 0 \<in> set (original_paths s)"
        using ok by (simp add: all_paths_ok_def)
      then show ?thesis
        using True str n ne ok repath_refl by (auto simp: choose_route_def all_paths_ok_def)
    next
      case False
      let ?s = "next_path e s"
      have "\<exists>i < n. avoid_ratio ?s ! i = 0"
        using assms(2) str False n(2) repath_keeps(1) [OF next_path_ok(2) [OF ok]] by (simp add: usable_def)
      then obtain s' where s': "avoid_bad e ?s = Some s'" "all_paths_ok n s'" "repath ?s s'" "avoid_ratio s' ! crt_nr s' = 0"
        using avoid_bad_returns [OF next_path_ok(1) [OF ok]] by blast
      have "repath s s'"
        using repath_trans [OF next_path_ok(2) [OF ok] s'(3)] .
      then show ?thesis
        using s' str n False ne chosen [of s'] repath_keeps(1) [of s s'] by (auto simp: choose_route_def crt_nr_def)
    qed
  next
    assume str: "route_strategy e = SCATTER_RANDOM"
    let ?i = "rnd e (src_draws s) mod length (src_paths s)"
    let ?s = "s\<lparr>src_crt_path := ?i, src_draws := src_draws s + 1\<rparr>"
    have "repath s ?s"
      unfolding repath_def
      by (intro exI [of _ ?i] exI [of _ "src_paths s"] exI [of _ "src_draws s + 1"] exI [of _ "avoid_score s"]) simp
    moreover have "all_paths_ok n ?s"
      using ok n by (simp add: all_paths_ok_def)
    ultimately show ?thesis
      using chosen [of ?s] str ne by (auto simp: choose_route_def Let_def)
  next
    assume str: "route_strategy e = SCATTER_PERMUTE"
    note nx = next_path_ok [OF ok, of e]
    have "src_crt_path (next_path e s) < length (src_paths (next_path e s))"
      using nx(1) all_paths_ok_length by (auto simp: all_paths_ok_def)
    then show ?thesis
      using chosen [OF nx] nx str ne by (auto simp: choose_route_def Let_def)
  qed
qed

text \<open>
  Claim C37.  A sender that avoids bad paths finds one if and only if some path has the avoid ratio 0, and then the
  path that it takes is such a path; when all paths are to be avoided, the loop that looks for one does not end.
\<close>

theorem pull_based_choice:
  assumes "all_paths_ok n s" and "route_strategy e = PULL_BASED" and "1 < n"
  shows "((\<exists>r s'. choose_route e s = Some (r, s')) \<longleftrightarrow> (\<exists>i < n. avoid_ratio s ! i = 0)) \<and>
    (\<forall>r s'. choose_route e s = Some (r, s') \<longrightarrow> r \<in> set (original_paths s) \<and> avoid_ratio s ! nat (r_path_id r) = 0)"
proof (cases "\<exists>i < n. avoid_ratio s ! i = 0")
  case True
  then have "usable e n s"
    using assms(2) by (simp add: usable_def scatter_def)
  from choose_route_ok [OF assms(1) this] show ?thesis
    using True assms(2,3) by auto
next
  case False
  have "avoid_ratio (next_path e s) = avoid_ratio s"
    using repath_keeps(1) [OF next_path_ok(2) [OF assms(1)]] .
  then have "avoid_bad e (next_path e s) = None"
    using avoid_bad_diverges [OF _ next_path_ok(1) [OF assms(1)], of e] False by (metis not_None_eq)
  then have "choose_route e s = None"
    using assms all_paths_ok_length [OF assms(1)] by (auto simp: choose_route_def)
  then show ?thesis
    using False by simp
qed

section \<open>The packets of the flow\<close>

text \<open>
  A flow of \<open>n\<close> packets with \<open>m\<close> bytes each over \<open>np\<close> paths.  The packets in the queue of retransmissions are full packets
  of the flow that are at the beginning of their way.
\<close>

definition to_send :: "nat \<Rightarrow> nat \<Rightarrow> nat \<Rightarrow> nat \<Rightarrow> packet \<Rightarrow> bool" where
  "to_send m n np k p \<longleftrightarrow>
     ptype p = NDP \<and> \<not> bounced p \<and> \<not> is_header p \<and> nexthop p = 0 \<and> psize p = m + ACKSIZE \<and> no_of_paths p = int np \<and>
     path_len p \<le> MAX_PATH_LEN \<and> (\<exists>j < k. seqno p = first_byte m j \<and> (last_packet p \<longleftrightarrow> j = n - 1))"

definition src_inv :: "env \<Rightarrow> nat \<Rightarrow> nat \<Rightarrow> nat \<Rightarrow> nat \<Rightarrow> src \<Rightarrow> bool" where
  "src_inv e m n np k s \<longleftrightarrow>
     0 < m \<and> m + ACKSIZE < 2 ^ 16 \<and> 0 < n \<and> mss s = m \<and> flow_size s = n * m \<and> highest_sent s = k * m \<and> k \<le> n \<and>
     all_paths_ok np s \<and> int np \<le> PULL_MAXPATHS \<and> scatter (route_strategy e) \<and> (route_strategy e = PULL_BASED \<longrightarrow> np = 1) \<and>
     (\<exists>r. src_route s = Some r \<and> length (sinklist r) \<le> MAX_PATH_LEN) \<and> (\<forall>p \<in> set (rtx_queue s). to_send m n np k p)"

definition sent_ok :: "nat \<Rightarrow> nat \<Rightarrow> nat \<Rightarrow> route list \<Rightarrow> packet \<Rightarrow> bool" where
  "sent_ok m n np rts p \<longleftrightarrow> of_sender m n (int np) p \<and> \<not> is_header p \<and> \<not> bounced p \<and> nexthop p = 1 \<and> proute p \<in> Some ` set rts"

text \<open>Which packets of the flow are in a list.\<close>

definition numbers :: "nat \<Rightarrow> packet list \<Rightarrow> nat set" where
  "numbers m ps = {j. first_byte m j \<in> seqno ` set ps}"

lemma numbers_simps [simp]: "numbers m [] = {}" "numbers m (ps @ qs) = numbers m ps \<union> numbers m qs"
  by (auto simp: numbers_def)

text \<open>
  What comes next: the retransmissions in the order of their queue, and then the packets of the flow that have not been sent.
  An operation of the sender that is asked for \<open>c\<close> packets promises to send the next \<open>c\<close> of these, or as many as there are.
\<close>

definition coming :: "nat \<Rightarrow> nat \<Rightarrow> nat \<Rightarrow> src \<Rightarrow> nat list" where
  "coming m n k s = map seqno (rtx_queue s) @ map (first_byte m) [k..<n]"

definition available :: "nat \<Rightarrow> nat \<Rightarrow> src \<Rightarrow> nat" where
  "available n k s = length (rtx_queue s) + (n - k)"

definition sends :: "env \<Rightarrow> nat \<Rightarrow> nat \<Rightarrow> nat \<Rightarrow> nat \<Rightarrow> nat \<Rightarrow> nat \<Rightarrow> src \<Rightarrow> (src \<times> packet list) option \<Rightarrow> bool" where
  "sends e m n np k c lp s res \<longleftrightarrow>
     (\<exists>s' out k'. res = Some (s', out) \<and> k \<le> k' \<and> src_inv e m n np k' s' \<and> original_paths s' = original_paths s \<and> src_last_pull s' = lp \<and>
        length out = min c (available n k s) \<and> available n k' s' = available n k s - c \<and>
        map seqno out = take c (coming m n k s) \<and> coming m n k' s' = drop c (coming m n k s) \<and>
        (\<forall>p \<in> set out. sent_ok m n np (original_paths s) p) \<and> {k..<k'} \<subseteq> numbers m out \<and> numbers m out \<subseteq> {..<k'})"

lemma sendsI:
  assumes "res = Some (s', out)" and "k \<le> k'" and "src_inv e m n np k' s'" and "original_paths s' = original_paths s"
    and "src_last_pull s' = lp" and "length out = min c (available n k s)" and "available n k' s' = available n k s - c"
    and "map seqno out = take c (coming m n k s)" and "coming m n k' s' = drop c (coming m n k s)"
    and "\<forall>p \<in> set out. sent_ok m n np (original_paths s) p" and "{k..<k'} \<subseteq> numbers m out" and "numbers m out \<subseteq> {..<k'}"
  shows "sends e m n np k c lp s res"
  using assms unfolding sends_def by blast

lemma sendOn_first:
  assumes "to_send m n np k p" and "path_ok np r" and "r \<in> set rts" and "k \<le> n" and "0 < np" and "np < 10000"
  shows "\<exists>x. sendOn (set_route r (p\<lparr>pkt_time := tm, pacerno := pn\<rparr>)) =
      Some (x, set_route r (p\<lparr>pkt_time := tm, pacerno := pn, nexthop := 1\<rparr>)) \<and>
    sent_ok m n np rts (set_route r (p\<lparr>pkt_time := tm, pacerno := pn, nexthop := 1\<rparr>))"
proof -
  obtain j where j: "j < k" "seqno p = first_byte m j" "last_packet p \<longleftrightarrow> j = n - 1"
    using assms(1) by (auto simp: to_send_def)
  then have ex: "\<exists>k < n. seqno p = first_byte m k \<and> (last_packet p \<longleftrightarrow> k = n - 1)"
    using assms(4) by (intro exI [of _ j]) simp
  have "ptype p = NDP \<and> \<not> bounced p \<and> \<not> is_header p \<and> nexthop p = 0 \<and> psize p = m + ACKSIZE \<and> no_of_paths p = int np \<and>
      path_len p \<le> MAX_PATH_LEN"
    using assms(1) by (simp add: to_send_def)
  then show ?thesis
    using assms(2,3,5,6) ex by (simp add: sendOn_def set_route_def path_ok_def sent_ok_def of_sender_def)
qed

lemma src_inv_fields [simp]:
  "src_inv e m n np k (s\<lparr>packets_sent := x\<rparr>) = src_inv e m n np k s"
  "src_inv e m n np k (s\<lparr>new_packets_sent := x\<rparr>) = src_inv e m n np k s"
  "src_inv e m n np k (s\<lparr>rtx_packets_sent := x\<rparr>) = src_inv e m n np k s"
  "src_inv e m n np k (s\<lparr>acks_received := x\<rparr>) = src_inv e m n np k s"
  "src_inv e m n np k (s\<lparr>nacks_received := x\<rparr>) = src_inv e m n np k s"
  "src_inv e m n np k (s\<lparr>pulls_received := x\<rparr>) = src_inv e m n np k s"
  "src_inv e m n np k (s\<lparr>implicit_pulls := x\<rparr>) = src_inv e m n np k s"
  "src_inv e m n np k (s\<lparr>bounces_received := x\<rparr>) = src_inv e m n np k s"
  "src_inv e m n np k (s\<lparr>last_acked := x\<rparr>) = src_inv e m n np k s"
  "src_inv e m n np k (s\<lparr>flight_size := y\<rparr>) = src_inv e m n np k s"
  "src_inv e m n np k (s\<lparr>sent_times := ts\<rparr>) = src_inv e m n np k s"
  "src_inv e m n np k (s\<lparr>first_sent_times := ts\<rparr>) = src_inv e m n np k s"
  "src_inv e m n np k (s\<lparr>pull_window := z\<rparr>) = src_inv e m n np k s"
  "src_inv e m n np k (s\<lparr>first_window_count := z\<rparr>) = src_inv e m n np k s"
  "src_inv e m n np k (s\<lparr>rtx_timeout := x\<rparr>) = src_inv e m n np k s"
  "src_inv e m n np k (s\<lparr>src_last_pull := x\<rparr>) = src_inv e m n np k s"
  "src_inv e m n np k (s\<lparr>rtt_hist := h\<rparr>) = src_inv e m n np k s"
  "src_inv e m n np k (s\<lparr>src_rtt := x\<rparr>) = src_inv e m n np k s"
  "src_inv e m n np k (s\<lparr>src_rto := x\<rparr>) = src_inv e m n np k s"
  "src_inv e m n np k (s\<lparr>src_mdev := x\<rparr>) = src_inv e m n np k s"
  "src_inv e m n np k (s\<lparr>base_rtt := x\<rparr>) = src_inv e m n np k s"
  "src_inv e m n np k (s\<lparr>src_draws := x\<rparr>) = src_inv e m n np k s"
  by (simp_all add: src_inv_def all_paths_ok_def)

lemma src_inv_steps [simp]:
  "src_inv e m n np k (arm_timeout tm s) = src_inv e m n np k s"
  "src_inv e m n np k (update_rtx_time s) = src_inv e m n np k s"
  "src_inv e m n np k (note_sent e' tm p s) = src_inv e m n np k s"
  by (simp_all add: arm_timeout_def update_rtx_time_def note_sent_def)

lemma original_paths_steps [simp]:
  "original_paths (arm_timeout tm s) = original_paths s" "original_paths (update_rtx_time s) = original_paths s"
  "original_paths (note_sent e tm p s) = original_paths s"
  "src_last_pull (arm_timeout tm s) = src_last_pull s" "src_last_pull (update_rtx_time s) = src_last_pull s"
  "src_last_pull (note_sent e tm p s) = src_last_pull s"
  "rtx_queue (arm_timeout tm s) = rtx_queue s" "rtx_queue (update_rtx_time s) = rtx_queue s"
  "rtx_queue (note_sent e tm p s) = rtx_queue s"
  by (simp_all add: arm_timeout_def update_rtx_time_def note_sent_def)

lemma src_inv_repath:
  assumes "src_inv e m n np k s" and "repath s s'" and "all_paths_ok np s'"
  shows "src_inv e m n np k s'"
  using assms by (auto simp: src_inv_def repath_def)

lemma src_inv_usable: "src_inv e m n np k s \<Longrightarrow> usable e np s"
  by (auto simp: src_inv_def usable_def)

text \<open>Counting a packet on its path.\<close>

lemma add_at_path:
  assumes "path_ok n r" and "length l = n"
  shows "\<exists>l'. add_at (r_path_id r) x l = Some l' \<and> length l' = n"
  using assms by (auto simp: add_at_def path_ok_def)

lemma src_inv_counts [simp]:
  "src_inv e m n np k s \<Longrightarrow> length l = np \<Longrightarrow> src_inv e m n np k (s\<lparr>path_counts_rtx := l\<rparr>)"
  "src_inv e m n np k s \<Longrightarrow> length l = np \<Longrightarrow> src_inv e m n np k (s\<lparr>path_counts_new := l\<rparr>)"
  by (simp_all add: src_inv_def all_paths_ok_def)

lemma first_byte_number [simp]: "0 < m \<Longrightarrow> seqno p = first_byte m j \<Longrightarrow> numbers m [p] = {j}"
  by (auto simp: numbers_def)

lemma send_rtx_sends:
  assumes inv: "src_inv e m n np k s" and p: "to_send m n np k p"
  shows "sends e m n np k 1 (src_last_pull s) (s\<lparr>rtx_queue := p # rtx_queue s\<rparr>) (send_rtx e tm pacer p s)"
proof -
  have np: "all_paths_ok np s" "k \<le> n" "0 < np" "np < 10000" "route_strategy e \<noteq> SINGLE_PATH" "0 < m"
    using inv by (auto simp: src_inv_def scatter_def PULL_MAXPATHS_def all_paths_ok_def)
  obtain r s1 where r: "choose_route e s = Some (r, s1)" "r \<in> set (original_paths s)" "path_ok np r" "all_paths_ok np s1" "repath s s1"
    using choose_route_ok [OF np(1) src_inv_usable [OF inv]] by blast
  have "length (path_counts_rtx s1) = np"
    using r(4) by (simp add: all_paths_ok_def)
  then obtain l where l: "add_at (r_path_id r) 1 (path_counts_rtx s1) = Some l" "length l = np"
    using add_at_path [OF r(3)] by blast
  obtain x where x: "sendOn (set_route r (p\<lparr>pkt_time := tm, pacerno := pacer\<rparr>)) =
      Some (x, set_route r (p\<lparr>pkt_time := tm, pacerno := pacer, nexthop := 1\<rparr>))"
    "sent_ok m n np (original_paths s) (set_route r (p\<lparr>pkt_time := tm, pacerno := pacer, nexthop := 1\<rparr>))"
    using sendOn_first [OF p r(3,2) np(2-4)] by blast
  have "src_inv e m n np k (s1\<lparr>path_counts_rtx := l\<rparr>)" "original_paths s1 = original_paths s" "src_last_pull s1 = src_last_pull s"
    "rtx_queue s1 = rtx_queue s"
    using src_inv_repath [OF inv r(5,4)] l(2) repath_keeps(2-4) [OF r(5)] by simp_all
  moreover obtain j where "j < k" "seqno p = first_byte m j"
    using p by (auto simp: to_send_def)
  moreover have "seqno (set_route r (p\<lparr>pkt_time := tm, pacerno := pacer, nexthop := 1\<rparr>)) = seqno p"
    by (simp add: set_route_def)
  ultimately show ?thesis
    using r(1) l(1) x np(5,6) unfolding sends_def by (auto simp: send_rtx_def Let_def available_def coming_def intro!: exI [of _ k])
qed

lemma to_send_mono: "to_send m n np k p \<Longrightarrow> k \<le> k' \<Longrightarrow> to_send m n np k' p"
proof -
  assume p: "to_send m n np k p" and "k \<le> k'"
  moreover from p obtain j where "j < k" "seqno p = first_byte m j" "last_packet p \<longleftrightarrow> j = n - 1"
    unfolding to_send_def by blast
  ultimately have "\<exists>j < k'. seqno p = first_byte m j \<and> (last_packet p \<longleftrightarrow> j = n - 1)"
    by (intro exI [of _ j]) simp
  then show "to_send m n np k' p"
    using p unfolding to_send_def by blast
qed

lemma src_inv_next:
  assumes "src_inv e m n np k s" and "k < n"
  shows "src_inv e m n np (Suc k) (s\<lparr>highest_sent := highest_sent s + m\<rparr>)"
  using assms to_send_mono [of m n np k _ "Suc k"] by (auto simp: src_inv_def all_paths_ok_def)

lemma send_new_one:
  assumes inv: "src_inv e m n np k s" and "rtx_queue s = []" and True: "k < n"
  shows "\<exists>s' q. send_new e tm pacer s = Some (s', [q]) \<and> src_inv e m n np (Suc k) s' \<and> original_paths s' = original_paths s \<and>
    src_last_pull s' = src_last_pull s \<and> rtx_queue s' = [] \<and> flight_size s' = flight_size s + of_nat m \<and> cwnd s' = cwnd s \<and>
    sent_ok m n np (original_paths s) q \<and> numbers m [q] = {k} \<and> seqno q = first_byte m k"
proof -
  have np: "all_paths_ok np s" "0 < np" "np < 10000" "scatter (route_strategy e)" "0 < m" "m + ACKSIZE < 2 ^ 16" "mss s = m"
    "highest_sent s = k * m" "flow_size s = n * m" "\<not> n * m \<le> k * m" "0 < n * m"
    using inv True by (auto simp: src_inv_def PULL_MAXPATHS_def all_paths_ok_def)
  then have ne: "src_paths s \<noteq> []"
    using all_paths_ok_length by fastforce
  obtain r s1 where r: "choose_route e s = Some (r, s1)" "r \<in> set (original_paths s)" "path_ok np r" "all_paths_ok np s1" "repath s s1"
    using choose_route_ok [OF np(1) src_inv_usable [OF inv]] by blast
  have "length (path_counts_new s1) = np"
    using r(4) by (simp add: all_paths_ok_def)
  then obtain l where l: "add_at (r_path_id r) 1 (path_counts_new s1) = Some l" "length l = np"
    using add_at_path [OF r(3)] by blast
  define lst where "lst = (0 < flow_size s \<and> flow_size s \<le> highest_sent s + mss s)"
  define p where "p = NdpPacket_newpkt (db e (packets_sent s)) (src_flow s) r (highest_sent s + 1) pacer (mss s) False (int np) lst"
  have "n * m \<le> Suc k * m \<longleftrightarrow> n \<le> Suc k"
    using np(5) mult_le_cancel2 by blast
  then have lst: "lst \<longleftrightarrow> k = n - 1"
    using True np by (auto simp: lst_def add.commute)
  have seq: "seqno p = first_byte m k"
    using np by (simp add: p_def NdpPacket_newpkt_def set_route4_def first_byte_def)
  have ts: "to_send m n np (Suc k) p"
    using r(3) lst seq np(6,7) unfolding to_send_def path_ok_def
    by (auto simp: p_def NdpPacket_newpkt_def set_route4_def)
  have same: "set_route r (p\<lparr>pkt_time := tm, pacerno := pacer\<rparr>) = p\<lparr>pkt_time := tm\<rparr>"
    by (simp add: p_def NdpPacket_newpkt_def set_route4_def set_route_def)
  define q where "q = set_route r (p\<lparr>pkt_time := tm, pacerno := pacer, nexthop := 1\<rparr>)"
  obtain x where x: "sendOn (p\<lparr>pkt_time := tm\<rparr>) = Some (x, q)" "sent_ok m n np (original_paths s) q"
    using sendOn_first [OF ts r(3,2) Suc_leI [OF True] np(2,3), where tm = tm and pn = pacer] unfolding same q_def by blast
  let ?s = "s1\<lparr>path_counts_new := l\<rparr>"
  have s1: "src_inv e m n np k ?s" "original_paths s1 = original_paths s" "length (src_paths s1) = np"
    "src_last_pull s1 = src_last_pull s" "rtx_queue s1 = rtx_queue s" "flight_size s1 = flight_size s" "cwnd s1 = cwnd s"
    using src_inv_repath [OF inv r(5,4)] l(2) repath_keeps(2-6) [OF r(5)] all_paths_ok_length [OF r(4)] by simp_all
  then have mss: "mss ?s = m"
    by (simp add: src_inv_def)
  let ?s3 = "?s\<lparr>flight_size := flight_size ?s + of_nat (mss ?s), highest_sent := highest_sent ?s + mss ?s,
    packets_sent := packets_sent ?s + 1, new_packets_sent := new_packets_sent ?s + 1\<rparr>"
  let ?s4 = "note_sent e tm q ?s3"
  let ?s5 = "arm_timeout tm (?s4\<lparr>first_sent_times := put_time (seqno q) tm (first_sent_times ?s4)\<rparr>)"
  have "send_new e tm pacer s = Some (?s5, [q])"
    using np(4,8-11) ne r(1) l(1) x(1) s1(3) unfolding send_new_def Let_def lst_def [symmetric] p_def by simp
  moreover have "src_inv e m n np (Suc k) ?s3"
    using src_inv_next [of e m n np k "?s\<lparr>flight_size := flight_size ?s + of_nat (mss ?s)\<rparr>"] s1(1) True mss by simp
  then have "src_inv e m n np (Suc k) ?s5"
    by (simp only: src_inv_steps src_inv_fields)
  moreover have "original_paths ?s5 = original_paths s" "src_last_pull ?s5 = src_last_pull s" "rtx_queue ?s5 = []"
    "flight_size ?s5 = flight_size s + of_nat m" "cwnd ?s5 = cwnd s"
    using s1(2,4-7) mss assms(2) by (simp_all add: arm_timeout_def note_sent_def)
  moreover have "seqno q = first_byte m k"
    using seq by (simp add: q_def set_route_def)
  moreover from this have "numbers m [q] = {k}"
    using np(5) by (intro first_byte_number)
  ultimately show ?thesis
    using x(2) by blast
qed

lemma send_new_sends:
  assumes inv: "src_inv e m n np k s" and "rtx_queue s = []"
  shows "sends e m n np k 1 (src_last_pull s) s (send_new e tm pacer s)"
proof (cases "k < n")
  case False
  then have "send_new e tm pacer s = Some (s, [])"
    using inv by (simp add: src_inv_def send_new_def)
  then show ?thesis
    using inv assms(2) False by (auto simp: sends_def available_def coming_def)
next
  case True
  from send_new_one [OF assms True, of tm pacer] obtain s' q where "send_new e tm pacer s = Some (s', [q])"
    "src_inv e m n np (Suc k) s'" "original_paths s' = original_paths s" "src_last_pull s' = src_last_pull s" "rtx_queue s' = []"
    "sent_ok m n np (original_paths s) q" "numbers m [q] = {k}" "seqno q = first_byte m k"
    by blast
  then show ?thesis
    using True assms(2)
    by (intro sendsI [where s' = s' and k' = "Suc k" and out = "[q]"]) (simp_all add: available_def coming_def upt_conv_Cons)
qed

lemma sends_weaken:
  assumes "sends e m n np k c lp s1 res" and "original_paths s1 = original_paths s" and "rtx_queue s1 = rtx_queue s"
  shows "sends e m n np k c lp s res"
  using assms by (simp add: sends_def available_def coming_def)

lemma send_packet_sends:
  assumes "src_inv e m n np k s"
  shows "sends e m n np k 1 (src_last_pull s) s (send_packet e tm pacer s)"
proof (cases "rtx_queue s")
  case Nil
  then show ?thesis
    using send_new_sends [OF assms Nil] Nil by (simp add: send_packet_def)
next
  case (Cons p ps)
  have "src_inv e m n np k (s\<lparr>rtx_queue := ps\<rparr>)" "to_send m n np k p"
    using assms Cons by (simp_all add: src_inv_def all_paths_ok_def)
  from sends_weaken [OF send_rtx_sends [OF this], of s] show ?thesis
    using Cons by (simp add: send_packet_def)
qed

lemma sends_trans:
  assumes "sends e m n np k c lp s (Some (s1, out))"
    and "\<And>k1. k \<le> k1 \<Longrightarrow> src_inv e m n np k1 s1 \<Longrightarrow> sends e m n np k1 d lp' s1 res"
  shows "sends e m n np k (c + d) lp' s (map_option (\<lambda>(s2, rest). (s2, out @ rest)) res)"
proof -
  obtain k1 where 1: "k \<le> k1" "src_inv e m n np k1 s1" "original_paths s1 = original_paths s"
    "\<forall>p \<in> set out. sent_ok m n np (original_paths s) p" "{k..<k1} \<subseteq> numbers m out" "numbers m out \<subseteq> {..<k1}"
    "length out = min c (available n k s)" "available n k1 s1 = available n k s - c"
    "map seqno out = take c (coming m n k s)" "coming m n k1 s1 = drop c (coming m n k s)"
    using assms(1) unfolding sends_def by auto
  from assms(2) [OF 1(1,2)] obtain s2 rest k2 where 2: "res = Some (s2, rest)" "k1 \<le> k2" "src_inv e m n np k2 s2"
    "original_paths s2 = original_paths s1" "src_last_pull s2 = lp'" "\<forall>p \<in> set rest. sent_ok m n np (original_paths s1) p"
    "{k1..<k2} \<subseteq> numbers m rest" "numbers m rest \<subseteq> {..<k2}"
    "length rest = min d (available n k1 s1)" "available n k2 s2 = available n k1 s1 - d"
    "map seqno rest = take d (coming m n k1 s1)" "coming m n k2 s2 = drop d (coming m n k1 s1)"
    unfolding sends_def by auto
  have "{k..<k2} = {k..<k1} \<union> {k1..<k2}" "{..<k1} \<subseteq> {..<k2}"
    using 1(1) 2(2) by auto
  then have "{k..<k2} \<subseteq> numbers m (out @ rest)" "numbers m (out @ rest) \<subseteq> {..<k2}"
    using 1(5,6) 2(7,8) by auto
  moreover have "\<forall>p \<in> set (out @ rest). sent_ok m n np (original_paths s) p"
    using 1(3,4) 2(6) by auto
  moreover have "length (out @ rest) = min (c + d) (available n k s)" "available n k2 s2 = available n k s - (c + d)"
    using 1(7,8) 2(9,10) by auto
  moreover have "map seqno (out @ rest) = take (c + d) (coming m n k s)" "coming m n k2 s2 = drop (c + d) (coming m n k s)"
    using 1(9,10) 2(11,12) by (simp_all add: take_add add.commute)
  ultimately show ?thesis
    using 1(1,3) 2(1-5) unfolding sends_def by (intro exI [of _ s2] exI [of _ "out @ rest"] exI [of _ k2]) simp
qed

text \<open>The pulls: every number that is missing asks for one packet, whichever pulls were lost.\<close>

lemma pull_loop_sends:
  assumes "src_inv e m n np k s"
  shows "sends e m n np k c (src_last_pull s + c) s (pull_loop e tm pacer c s)"
  using assms
proof (induction c arbitrary: s k)
  case 0
  then show ?case
    by (auto simp: sends_def)
next
  case (Suc c)
  obtain s1 out where sp: "send_packet e tm pacer s = Some (s1, out)"
    using send_packet_sends [OF Suc.prems, of tm pacer] unfolding sends_def by blast
  let ?s = "s1\<lparr>src_last_pull := src_last_pull s1 + 1\<rparr>"
  have 1: "sends e m n np k 1 (src_last_pull s) s (Some (s1, out))"
    using send_packet_sends [OF Suc.prems, of tm pacer] sp by simp
  then have lp: "src_last_pull s1 = src_last_pull s"
    by (auto simp: sends_def)
  have "sends e m n np k (1 + c) (src_last_pull s + Suc c) s (map_option (\<lambda>(s2, rest). (s2, out @ rest)) (pull_loop e tm pacer c ?s))"
  proof (rule sends_trans [OF 1])
    fix k1
    assume "src_inv e m n np k1 s1"
    then have "src_inv e m n np k1 ?s"
      by simp
    from Suc.IH [OF this] show "sends e m n np k1 c (src_last_pull s + Suc c) s1 (pull_loop e tm pacer c ?s)"
      using lp by (auto intro: sends_weaken)
  qed
  then show ?case
    using sp by simp
qed

lemma pull_packets_sends:
  assumes "src_inv e m n np k s"
  shows "sends e m n np k (pn - src_last_pull s) (max (src_last_pull s) pn) s (pull_packets e tm pn pacer s)"
proof -
  have "src_last_pull s + (pn - src_last_pull s) = max (src_last_pull s) pn"
    by simp
  then show ?thesis
    using pull_loop_sends [OF assms, of "pn - src_last_pull s" tm pacer] unfolding pull_packets_def by (simp only:)
qed

section \<open>Feedback\<close>

text \<open>Feedback on a path changes nothing that the packets depend on.\<close>

definition flow_kept :: "src \<Rightarrow> src \<Rightarrow> bool" where
  "flow_kept s s' \<longleftrightarrow>
     rtx_queue s' = rtx_queue s \<and> src_last_pull s' = src_last_pull s \<and> original_paths s' = original_paths s \<and>
     packets_sent s' = packets_sent s"

lemma count_feedback_ok:
  assumes inv: "src_inv e m n np k s" and "0 \<le> path" and "path < int np" and "fb \<noteq> UNKNOWN"
  shows "\<exists>s'. count_feedback e path fb s = Some s' \<and> src_inv e m n np k s' \<and> flow_kept s s'"
proof -
  have ok: "all_paths_ok np s" and str: "route_strategy e \<noteq> SINGLE_PATH"
    using inv by (auto simp: src_inv_def scatter_def)
  then have ne: "src_paths s \<noteq> []"
    using all_paths_ok_length [OF ok] by (auto simp: all_paths_ok_def)
  have path: "nat path < length (path_acks s)" "nat path < length (path_nacks s)" "nat path < length (avoid_ratio s)"
    using ok assms(2,3) by (auto simp: all_paths_ok_def)
  define acks where "acks = (if fb = ACK then (path_acks s)[nat path := path_acks s ! nat path + 1] else path_acks s)"
  define nacks where "nacks = (if fb = ACK then path_nacks s
    else (path_nacks s)[nat path := path_nacks s ! nat path + (if fb = NACK then 1 else 3)])"
  define s1 where "s1 = s\<lparr>feedback_history := (feedback_history s)[feedback_count s := fb],
    feedback_count := (feedback_count s + 1) mod HIST_LEN, path_acks := acks, path_nacks := nacks\<rparr>"
  define r where "r = (if looks_bad (nat path) s1 then (avoid_ratio s)[nat path := avoid_ratio s ! nat path + 1]
    else if 0 < avoid_ratio s ! nat path then (avoid_ratio s)[nat path := avoid_ratio s ! nat path - 1] else avoid_ratio s)"
  have "count_feedback e path fb s =
      Some (s1\<lparr>bad_path := (bad_path s)[nat path := looks_bad (nat path) s1], avoid_ratio := r\<rparr>)"
    using str assms(2,4) ne path by (simp add: count_feedback_def add_at_def Let_def r_def s1_def acks_def nacks_def)
  moreover have "\<forall>x \<in> set r. 0 \<le> x"
    using ok path(3) by (auto simp: all_paths_ok_def r_def dest!: set_update_subset_insert [THEN subsetD])
  moreover have "length acks = np" "length nacks = np" "length r = np"
    using ok by (auto simp: acks_def nacks_def r_def all_paths_ok_def)
  ultimately show ?thesis
    using inv by (auto simp: src_inv_def all_paths_ok_def s1_def flow_kept_def)
qed

lemma rtt_steps [simp]:
  "src_inv e' m n np k (sample_rtt x s) = src_inv e' m n np k s" "flow_kept s0 (sample_rtt x s) = flow_kept s0 s"
  "src_inv e' m n np k (sample_base x s) = src_inv e' m n np k s" "flow_kept s0 (sample_base x s) = flow_kept s0 s"
  "src_inv e' m n np k (bound_rto e s) = src_inv e' m n np k s" "flow_kept s0 (bound_rto e s) = flow_kept s0 s"
  by (simp_all add: sample_rtt_def sample_base_def bound_rto_def Let_def flow_kept_def)

lemma update_rtt_ok [simp]:
  "src_inv e' m n np k (update_rtt e x s) = src_inv e' m n np k s" "flow_kept s0 (update_rtt e x s) = flow_kept s0 s"
  by (simp_all add: update_rtt_def)

text \<open>The feedback that may come back to a sender that has sent the packets \<open>outs\<close>, on \<open>np\<close> paths.\<close>

definition comes_back :: "packet list \<Rightarrow> nat \<Rightarrow> nat \<Rightarrow> packet \<Rightarrow> bool" where
  "comes_back outs np tm p \<longleftrightarrow>
     (case ptype p of
        NDPACK \<Rightarrow> 0 \<le> path_id p \<and> path_id p < int np \<and> tm < 10 ^ 13
      | NDPNACK \<Rightarrow> 0 \<le> path_id p \<and> path_id p < int np \<and> ackno p \<in> seqno ` set outs
      | NDP \<Rightarrow> \<exists>q \<in> set outs. \<exists>x y. p = q\<lparr>bounced := True, is_header := True, psize := x, nexthop := y\<rparr>
      | _ \<Rightarrow> True)"

definition handles :: "env \<Rightarrow> nat \<Rightarrow> nat \<Rightarrow> nat \<Rightarrow> nat \<Rightarrow> src \<Rightarrow> (src \<times> packet list) option \<Rightarrow> bool" where
  "handles e m n np k s res \<longleftrightarrow>
     (\<exists>s' out k'. res = Some (s', out) \<and> k \<le> k' \<and> src_inv e m n np k' s' \<and> original_paths s' = original_paths s \<and>
        (\<forall>p \<in> set out. sent_ok m n np (original_paths s) p) \<and> {k..<k'} \<subseteq> numbers m out \<and> numbers m out \<subseteq> {..<k'})"

lemma sends_handles: "sends e m n np k c lp s1 res \<Longrightarrow> original_paths s1 = original_paths s \<Longrightarrow> handles e m n np k s res"
  by (simp add: sends_def handles_def) blast

lemma handles_nothing: "src_inv e m n np k s1 \<Longrightarrow> original_paths s1 = original_paths s \<Longrightarrow> handles e m n np k s (Some (s1, []))"
  by (auto simp: handles_def)

lemma processRTS_handles:
  assumes inv: "src_inv e m n np k s" and q: "sent_ok m n np (original_paths s) q" "seqno q \<in> first_byte m ` {..<k}"
    and p: "p = q\<lparr>bounced := True, is_header := True, psize := x, nexthop := y\<rparr>"
  shows "handles e m n np k s (processRTS e tm p s)"
proof -
  let ?u = "p\<lparr>bounced := False, is_header := False, psize := m + ACKSIZE, nexthop := 0\<rparr>"
  obtain r where r: "proute p = Some r" "path_ok np r"
    using q(1) p inv by (auto simp: sent_ok_def src_inv_def all_paths_ok_def)
  have m: "mss s = m" "0 < m" "m + ACKSIZE < 2 ^ 16"
    using inv by (simp_all add: src_inv_def)
  then have u: "unbounce (ACKSIZE + mss s) p = Some ?u"
    using r(1) p by (simp add: unbounce_def add.commute)
  obtain i where "seqno q = first_byte m i" "last_packet q \<longleftrightarrow> i = n - 1"
    using q(1) by (auto simp: sent_ok_def of_sender_def)
  moreover from this(1) have "i < k"
    using q(2) m(2) by auto
  ultimately have "\<exists>j < k. seqno ?u = first_byte m j \<and> (last_packet ?u \<longleftrightarrow> j = n - 1)"
    using p by auto
  then have "to_send m n np k ?u"
    using q(1) p unfolding to_send_def by (simp add: sent_ok_def of_sender_def)
  then have "src_inv e m n np k (s\<lparr>sent_times := erase_time (seqno ?u) (sent_times s), rtx_queue := ?u # rtx_queue s\<rparr>)"
    using inv by (simp add: src_inv_def all_paths_ok_def)
  from count_feedback_ok [OF this, of "r_path_id r" BOUNCE] obtain s1 where
    s1: "count_feedback e (r_path_id r) BOUNCE (s\<lparr>sent_times := erase_time (seqno ?u) (sent_times s), rtx_queue := ?u # rtx_queue s\<rparr>) = Some s1"
    "src_inv e m n np k s1" "original_paths s1 = original_paths s"
    using r(2) by (auto simp: path_ok_def flow_kept_def)
  then show ?thesis
    using u r(1) sends_handles [OF send_packet_sends [OF s1(2)] s1(3)] handles_nothing [OF s1(2,3)]
    by (simp add: processRTS_def)
qed

lemma processNack_handles:
  assumes inv: "src_inv e m n np k s" and "0 \<le> path_id p" and "path_id p < int np" and "ackno p \<in> first_byte m ` {..<k}"
  shows "handles e m n np k s (processNack e tm p s)"
proof -
  obtain r where r: "src_route s = Some r" "length (sinklist r) \<le> MAX_PATH_LEN"
    using inv by (auto simp: src_inv_def)
  obtain j where j: "j < k" "ackno p = first_byte m j"
    using assms(4) by blast
  have m: "mss s = m" "0 < m" "m + ACKSIZE < 2 ^ 16" "flow_size s = n * m" "k \<le> n"
    using inv by (simp_all add: src_inv_def)
  let ?s = "s\<lparr>sent_times := erase_time (ackno p) (sent_times s)\<rparr>"
  have "src_inv e m n np k ?s"
    using inv by simp
  from count_feedback_ok [OF this assms(2,3), of NACK] obtain s1 where
    s1: "count_feedback e (path_id p) NACK ?s = Some s1" "src_inv e m n np k s1" "original_paths s1 = original_paths s"
    by (auto simp: flow_kept_def)
  have np: "length (src_paths s1) = np" "src_paths s1 \<noteq> []"
    using s1(2) all_paths_ok_length [of np s1] by (auto simp: src_inv_def all_paths_ok_def)
  define lst where "lst = (flow_size s \<le> ackno p + mss s - 1)"
  define q where "q = NdpPacket_newpkt (db e (packets_sent s)) (src_flow s) r (ackno p) 0 (mss s) True (int np) lst"
  have "n * m \<le> Suc j * m \<longleftrightarrow> n \<le> Suc j"
    using m(2) mult_le_cancel2 by blast
  then have "lst \<longleftrightarrow> j = n - 1"
    using m j by (auto simp: lst_def first_byte_def add.commute)
  then have "\<exists>j < k. seqno q = first_byte m j \<and> (last_packet q \<longleftrightarrow> j = n - 1)"
    using j by (auto simp: q_def NdpPacket_newpkt_def set_route4_def)
  then have "to_send m n np k q"
    using r(2) m(1,3) unfolding to_send_def by (simp add: q_def NdpPacket_newpkt_def set_route4_def)
  then have s2: "src_inv e m n np k (s1\<lparr>rtx_queue := rtx_queue s1 @ [q]\<rparr>)"
    using s1(2) by (auto simp: src_inv_def all_paths_ok_def)
  let ?s2 = "s1\<lparr>rtx_queue := rtx_queue s1 @ [q]\<rparr>"
  have "processNack e tm p s =
      (if pull p then pull_packets e tm (pullno p) (pacerno p) (?s2\<lparr>implicit_pulls := implicit_pulls ?s2 + 1\<rparr>) else Some (?s2, []))"
    using s1(1) r(1) np by (simp add: processNack_def Let_def q_def lst_def)
  moreover have "handles e m n np k s (pull_packets e tm (pullno p) (pacerno p) (?s2\<lparr>implicit_pulls := implicit_pulls ?s2 + 1\<rparr>))"
    using s2 s1(3) by (intro sends_handles [OF pull_packets_sends]) simp_all
  ultimately show ?thesis
    using handles_nothing [OF s2] s1(3) by simp
qed

text \<open>A request without the pull bit only puts the packet at the end of the queue of retransmissions.\<close>

lemma nack_queued:
  assumes inv: "src_inv e m n np k s" and "0 \<le> path_id p" and "path_id p < int np" and "ptype p = NDPNACK" and "\<not> pull p"
  shows "\<exists>s'. src_receivePacket e tm p s = Some (s', []) \<and> map seqno (rtx_queue s') = map seqno (rtx_queue s) @ [ackno p] \<and>
    highest_sent s' = highest_sent s \<and> src_last_pull s' = src_last_pull s"
proof -
  let ?s0 = "s\<lparr>nacks_received := nacks_received s + 1, pull_window := pull_window s + 1, first_window_count := first_window_count s - 1\<rparr>"
  let ?s = "?s0\<lparr>sent_times := erase_time (ackno p) (sent_times ?s0)\<rparr>"
  obtain r where r: "src_route s = Some r"
    using inv by (auto simp: src_inv_def)
  have "src_inv e m n np k ?s"
    using inv by simp
  from count_feedback_ok [OF this assms(2,3), of NACK] obtain s1 where
    s1: "count_feedback e (path_id p) NACK ?s = Some s1" "src_inv e m n np k s1" "flow_kept ?s s1"
    by auto
  have "highest_sent s1 = highest_sent s" "rtx_queue s1 = rtx_queue s" "src_last_pull s1 = src_last_pull s"
    using s1(2,3) inv by (simp_all add: src_inv_def flow_kept_def)
  then show ?thesis
    using s1(1) r assms(4,5) by (simp add: src_receivePacket_def processNack_def Let_def NdpPacket_newpkt_def set_route4_def)
qed

lemma processAck_handles:
  assumes inv: "src_inv e m n np k s" and "0 \<le> path_id p" and "path_id p < int np" and "tm < 10 ^ 13"
  shows "handles e m n np k s (processAck e tm p s)"
proof -
  define s0 where "s0 = (if pull p then s\<lparr>pull_window := pull_window s - 1\<rparr> else s)"
  define sent where "sent = (case map_of (first_sent_times s0) (ackno p) of None \<Rightarrow> 0 | Some t \<Rightarrow> t)"
  have "(tm - sent) div 10 ^ 6 < 10000000"
    using assms(4) by (simp add: div_less_iff_less_mult less_imp_diff_less)
  moreover have "src_inv e m n np k s0" "original_paths s0 = original_paths s"
    using inv by (simp_all add: s0_def)
  ultimately have "\<exists>s1. log_rtt tm sent s0 = Some s1 \<and> src_inv e m n np k s1 \<and> original_paths s1 = original_paths s"
    by (cases "tm < sent") (simp_all add: log_rtt_def Let_def)
  then obtain s1 where s1: "log_rtt tm sent s0 = Some s1" "src_inv e m n np k s1" "original_paths s1 = original_paths s"
    by blast
  let ?s1 = "s1\<lparr>first_sent_times := erase_time (ackno p) (first_sent_times s1), sent_times := erase_time (ackno p) (sent_times s1)\<rparr>"
  have "src_inv e m n np k ?s1"
    using s1(2) by simp
  from count_feedback_ok [OF this assms(2,3), of ACK] obtain s2 where
    s2: "count_feedback e (path_id p) ACK ?s1 = Some s2" "src_inv e m n np k s2" "original_paths s2 = original_paths s"
    using s1(3) by (auto simp: flow_kept_def)
  define s3 where "s3 = update_rtt e (time_since tm (pkt_time p)) s2"
  have s3: "src_inv e m n np k s3" "original_paths s3 = original_paths s"
    using s2 update_rtt_ok(2) [of s2 e "time_since tm (pkt_time p)" s2] by (simp_all add: s3_def flow_kept_def)
  define s4 where "s4 = (if last_acked s3 < cumulative_ack p then s3\<lparr>last_acked := cumulative_ack p\<rparr> else s3)"
  define s5 where "s5 = update_rtx_time (s4\<lparr>flight_size := flight_size s4 - of_nat (mss s4)\<rparr>)"
  have s5: "src_inv e m n np k s5" "original_paths s5 = original_paths s"
    using s3 by (simp_all add: s5_def s4_def)
  have "processAck e tm p s =
      (if pull p then pull_packets e tm (pullno p) (pacerno p) (s5\<lparr>implicit_pulls := implicit_pulls s5 + 1\<rparr>) else Some (s5, []))"
    using s1(1) s2(1) unfolding processAck_def Let_def s0_def [symmetric] sent_def [symmetric]
    by (simp add: s3_def [symmetric]) (simp add: s5_def s4_def)
  moreover have "handles e m n np k s (pull_packets e tm (pullno p) (pacerno p) (s5\<lparr>implicit_pulls := implicit_pulls s5 + 1\<rparr>))"
    using s5 by (intro sends_handles [OF pull_packets_sends]) simp_all
  ultimately show ?thesis
    using handles_nothing [OF s5] by simp
qed

lemma receive_handles:
  assumes inv: "src_inv e m n np k s" and outs: "\<forall>q \<in> set outs. sent_ok m n np (original_paths s) q" "numbers m outs = {..<k}"
    and "comes_back outs np tm p"
  shows "handles e m n np k s (src_receivePacket e tm p s)"
proof -
  have seq: "seqno q \<in> first_byte m ` {..<k}" if "q \<in> set outs" for q
  proof -
    have "sent_ok m n np (original_paths s) q"
      using outs(1) that by blast
    then obtain i where "seqno q = first_byte m i"
      by (auto simp: sent_ok_def of_sender_def)
    moreover from this have "i \<in> numbers m outs"
      using that by (auto simp: numbers_def image_iff intro!: bexI [of _ q])
    ultimately show ?thesis
      using outs(2) by auto
  qed
  have other: "handles e m n np k s res" if "handles e m n np k s1 res" "original_paths s1 = original_paths s" for s1 res
    using that by (simp add: handles_def)
  note bk = assms(4) [unfolded comes_back_def]
  consider "ptype p = NDP" | "ptype p = NDPNACK" | "ptype p = NDPPULL" | "ptype p = NDPACK"
    | "ptype p \<notin> {NDP, NDPNACK, NDPPULL, NDPACK}"
    by blast
  then show ?thesis
  proof cases
    case 1
    then obtain q x y where q: "q \<in> set outs" "p = q\<lparr>bounced := True, is_header := True, psize := x, nexthop := y\<rparr>"
      using bk by auto
    let ?s = "s\<lparr>bounces_received := bounces_received s + 1, first_window_count := first_window_count s - 1\<rparr>"
    have "handles e m n np k ?s (processRTS e tm p ?s)"
      using inv outs(1) q seq by (intro processRTS_handles [where q = q]) simp_all
    then show ?thesis
      using 1 other [of ?s] by (simp add: src_receivePacket_def)
  next
    case 2
    let ?s = "s\<lparr>nacks_received := nacks_received s + 1, pull_window := pull_window s + 1, first_window_count := first_window_count s - 1\<rparr>"
    have "handles e m n np k ?s (processNack e tm p ?s)"
      using inv bk 2 seq by (intro processNack_handles) auto
    then show ?thesis
      using 2 other [of ?s] by (simp add: src_receivePacket_def)
  next
    case 3
    let ?s = "s\<lparr>pulls_received := pulls_received s + 1, pull_window := pull_window s - 1\<rparr>"
    let ?s1 = "if last_acked ?s < cumulative_ack p then ?s\<lparr>last_acked := cumulative_ack p\<rparr> else ?s"
    have "handles e m n np k s (pull_packets e tm (pullno p) (pacerno p) ?s1)"
      using inv by (intro sends_handles [OF pull_packets_sends]) simp_all
    then show ?thesis
      using 3 by (cases "last_acked s < cumulative_ack p") (simp_all add: src_receivePacket_def Let_def)
  next
    case 4
    let ?s = "s\<lparr>acks_received := acks_received s + 1, pull_window := pull_window s + 1, first_window_count := first_window_count s - 1\<rparr>"
    have "handles e m n np k ?s (processAck e tm p ?s)"
      using inv bk 4 by (intro processAck_handles) simp_all
    then show ?thesis
      using 4 other [of ?s] by (simp add: src_receivePacket_def)
  next
    case 5
    then have "src_receivePacket e tm p s = Some (s, [])"
      by (cases "ptype p") (simp_all add: src_receivePacket_def)
    then show ?thesis
      using handles_nothing [OF inv] by simp
  qed
qed

section \<open>The first window\<close>

text \<open>As many packets as the window has room for, the last of which need not fit.\<close>

definition window_packets :: "nat \<Rightarrow> nat \<Rightarrow> nat" where
  "window_packets m w = (w + m - 1) div m"

lemma window_packets_less: "0 < m \<Longrightarrow> k < window_packets m w \<longleftrightarrow> k * m < w"
  by (cases w) (auto simp: window_packets_def less_eq_div_iff_mult_less_eq Suc_le_eq [symmetric])

lemma first_window_sends:
  assumes "src_inv e m n np k s" and "rtx_queue s = []" and "flight_size s = of_nat (k * m)" and "k * m < 2 ^ 32"
    and "unat (cwnd s) + m < 2 ^ 32"
  shows "sends e m n np k (min n (window_packets m (unat (cwnd s))) - k) (src_last_pull s) s (first_window e tm s)"
  using assms
proof (induction "min n (window_packets m (unat (cwnd s))) - k" arbitrary: k s)
  case 0
  have m: "0 < m" "flow_size s = n * m"
    using 0(2) by (simp_all add: src_inv_def)
  have fl: "unat (flight_size s) = k * m"
    using 0(4,5) by (simp add: unat_of_nat take_bit_nat_eq_self del: of_nat_mult)
  have "\<not> (k < n \<and> k < window_packets m (unat (cwnd s)))"
    using 0(1) by auto
  then have "\<not> (flight_size s < cwnd s \<and> unat (flight_size s) < flow_size s)"
    using m fl window_packets_less [OF m(1)] by (auto simp: word_less_nat_alt)
  then have "first_window e tm s = Some (s, [])"
    by (subst first_window.simps) (rule if_not_P)
  then show ?case
    using 0(1,2) by (intro sendsI [where s' = s and k' = k and out = "[]"]) simp_all
next
  case (Suc x)
  note IH = Suc(1)
  have m: "0 < m" "flow_size s = n * m"
    using Suc(3) by (simp_all add: src_inv_def)
  have fl: "unat (flight_size s) = k * m"
    using Suc(5,6) by (simp add: unat_of_nat take_bit_nat_eq_self del: of_nat_mult)
  have k: "k < n" "k < window_packets m (unat (cwnd s))"
    using Suc(2) by auto
  then have lt: "k * m < unat (cwnd s)"
    using window_packets_less [OF m(1)] by blast
  then have cond: "flight_size s < cwnd s \<and> unat (flight_size s) < flow_size s"
    using m fl k(1) by (simp add: word_less_nat_alt)
  obtain s1 q where s1: "send_new e tm 0 s = Some (s1, [q])" "src_inv e m n np (Suc k) s1" "original_paths s1 = original_paths s"
    "src_last_pull s1 = src_last_pull s" "rtx_queue s1 = []" "flight_size s1 = flight_size s + of_nat m" "cwnd s1 = cwnd s"
    "sent_ok m n np (original_paths s) q" "numbers m [q] = {k}" "seqno q = first_byte m k"
    using send_new_one [OF Suc(3,4) k(1), of tm 0] by blast
  let ?s = "s1\<lparr>first_window_count := first_window_count s1 + 1\<rparr>"
  let ?c = "min n (window_packets m (unat (cwnd s))) - Suc k"
  have 1: "sends e m n np k 1 (src_last_pull s) s (Some (s1, [q]))"
    using s1 k(1) Suc(4) by (intro sendsI [where s' = s1 and k' = "Suc k" and out = "[q]"]) (simp_all add: available_def coming_def upt_conv_Cons)
  have "sends e m n np (Suc k) ?c (src_last_pull ?s) ?s (first_window e tm ?s)"
    using IH [of ?s "Suc k"] Suc(2,5,6,7) s1(2,5-7) lt by (simp add: add.commute)
  then have 2: "sends e m n np (Suc k) ?c (src_last_pull s) s1 (first_window e tm ?s)"
    using s1(4) by (auto intro: sends_weaken)
  have uniq: "k1 = Suc k" if "src_inv e m n np k1 s1" for k1
  proof -
    have "highest_sent s1 = k1 * m" "highest_sent s1 = Suc k * m"
      using that s1(2) unfolding src_inv_def by blast+
    then show ?thesis
      using m(1) by (metis mult_cancel2 nat_less_le)
  qed
  have "sends e m n np k (1 + ?c) (src_last_pull s) s (map_option (\<lambda>(s2, rest). (s2, [q] @ rest)) (first_window e tm ?s))"
    by (rule sends_trans [OF 1]) (use 2 uniq in blast)
  moreover have "first_window e tm s = map_option (\<lambda>(s2, rest). (s2, [q] @ rest)) (first_window e tm ?s)"
    using cond s1(1) Suc(4)
    by (subst first_window.simps) (cases "first_window e tm ?s"; simp add: send_packet_def case_prod_beta)
  moreover have "1 + ?c = min n (window_packets m (unat (cwnd s))) - k"
    using k by simp
  ultimately show ?case
    by (simp only:)
qed

section \<open>The whole sender\<close>

text \<open>
  A sender for \<open>n\<close> packets of \<open>m\<close> bytes, set up as the code does it, and the states that it reaches: it is started, and
  feedback comes back for packets that it has sent.
\<close>

definition new_sender :: "env \<Rightarrow> nat \<Rightarrow> nat \<Rightarrow> nat \<Rightarrow> nat \<Rightarrow> nat \<Rightarrow> route \<Rightarrow> route list \<Rightarrow> src option" where
  "new_sender e m n flow me dst r rts =
     src_set_paths e me dst rts (src_connect r (set_flowsize (n * m) (NdpSrc m flow)))"

inductive src_reach :: "env \<Rightarrow> nat \<Rightarrow> src \<Rightarrow> packet list \<Rightarrow> src \<Rightarrow> bool" for e np s0 where
  src_start: "src_doNextEvent e tm s0 = Some (s, out) \<Longrightarrow> src_reach e np s0 out s"
| src_feedback: "src_reach e np s0 outs s \<Longrightarrow> comes_back outs np tm p \<Longrightarrow> src_receivePacket e tm p s = Some (s', out) \<Longrightarrow>
    src_reach e np s0 (outs @ out) s'"

definition sender_setting :: "env \<Rightarrow> nat \<Rightarrow> nat \<Rightarrow> route \<Rightarrow> route list \<Rightarrow> bool" where
  "sender_setting e m n r rts \<longleftrightarrow>
     0 < m \<and> m + ACKSIZE < 2 ^ 16 \<and> 0 < n \<and> rts \<noteq> [] \<and> int (length rts) \<le> PULL_MAXPATHS \<and>
     (route_strategy e \<in> {SCATTER_PERMUTE, SCATTER_RANDOM} \<or> route_strategy e = PULL_BASED \<and> length rts = 1) \<and>
     length (sinklist r) \<le> MAX_PATH_LEN \<and> (\<forall>x \<in> set rts. length (sinklist x) < MAX_PATH_LEN)"

lemma new_sender_paths:
  assumes "scatter (route_strategy e)" and "rts \<noteq> []" and "\<forall>x \<in> set rts. length (sinklist x) < MAX_PATH_LEN"
    and new: "new_sender e m n flow me dst r rts = Some s"
  shows "all_paths_ok (length rts) s" "original_paths s = number_paths me dst rts" "avoid_ratio s = replicate (length rts) 0"
    "mss s = m mod 2 ^ 16" "cwnd s = of_nat (15 * m)" "rtx_queue s = []" "rtx_timeout_pending s = False" "src_last_pull s = 0"
    "flow_size s = n * m" "highest_sent s = 0" "src_route s = Some r"
proof -
  let ?np = "length rts" and ?o = "number_paths me dst rts"
  have nth: "?o ! i = set_path_id (int i) (int ?np) (add_endpoints me dst (rts ! i))" if "i < ?np" for i
    using that by (simp add: number_paths_def nth_enumerate_eq)
  have len: "length ?o = ?np"
    by (simp add: number_paths_def)
  have ok: "path_ok ?np x" if x: "x \<in> set ?o" for x
  proof -
    obtain i where "i < ?np" "x = ?o ! i"
      using x len by (auto simp: in_set_conv_nth)
    then show ?thesis
      using assms(3) nth by (auto simp: path_ok_def set_path_id_def add_endpoints_def Suc_le_eq)
  qed
  have id: "\<forall>i < ?np. r_path_id (?o ! i) = int i"
    using nth by (simp add: set_path_id_def)
  define s1 where "s1 = (src_connect r (set_flowsize (n * m) (NdpSrc m flow)))\<lparr>src_paths := permute_paths (rnd e) 0 ?o,
      original_paths := ?o, path_acks := replicate ?np 0, path_nacks := replicate ?np 0,
      bad_path := replicate ?np False, avoid_ratio := replicate ?np 0, avoid_score := replicate ?np 0,
      path_counts_new := replicate ?np 0, path_counts_rtx := replicate ?np 0, path_counts_rto := replicate ?np 0,
      src_crt_path := 0, src_draws := ?np\<rparr>"
  have s: "s = s1"
    using new assms(1) len
    by (simp add: new_sender_def src_set_paths_def src_permute_paths_def Let_def s1_def src_connect_def set_flowsize_def NdpSrc_def)
  show "all_paths_ok ?np s"
    unfolding s using assms(2) ok id len by (auto simp: all_paths_ok_def s1_def mset_permute_paths)
  show "original_paths s = ?o" "avoid_ratio s = replicate ?np 0" "mss s = m mod 2 ^ 16" "cwnd s = of_nat (15 * m)"
    "rtx_queue s = []" "rtx_timeout_pending s = False" "src_last_pull s = 0" "flow_size s = n * m" "highest_sent s = 0"
    "src_route s = Some r"
    unfolding s by (simp_all add: s1_def src_connect_def set_flowsize_def NdpSrc_def)
qed

lemma new_sender_inv:
  assumes set: "sender_setting e m n r rts" and new: "new_sender e m n flow me dst r rts = Some s"
  shows "src_inv e m n (length rts) 0 s" "cwnd s = of_nat (15 * m)" "rtx_queue s = []" "rtx_timeout_pending s = False"
    "src_last_pull s = 0" "original_paths s = number_paths me dst rts"
proof -
  have str: "scatter (route_strategy e)" "route_strategy e = PULL_BASED \<longrightarrow> length rts = 1" "rts \<noteq> []"
    "\<forall>x \<in> set rts. length (sinklist x) < MAX_PATH_LEN" "m mod 2 ^ 16 = m"
    using set by (auto simp: sender_setting_def scatter_def)
  note s = new_sender_paths [OF str(1,3,4) new]
  show "src_inv e m n (length rts) 0 s"
    using set str s by (simp add: src_inv_def sender_setting_def)
  show "cwnd s = of_nat (15 * m)" "rtx_queue s = []" "rtx_timeout_pending s = False" "src_last_pull s = 0"
    "original_paths s = number_paths me dst rts"
    using s by simp_all
qed

lemma startflow_sends:
  assumes set: "sender_setting e m n r rts" and new: "new_sender e m n flow me dst r rts = Some s"
  shows "sends e m n (length rts) 0 (min n 15) 0 s (src_doNextEvent e tm s)"
proof -
  note s = new_sender_inv [OF assms]
  let ?s = "s\<lparr>highest_sent := 0, last_acked := 0, packets_sent := 0, rtx_timeout_pending := False, rtx_timeout := timeInf,
    pull_window := 0, flight_size := 0, first_window_count := 0\<rparr>"
  have m: "0 < m" "m + ACKSIZE < 2 ^ 16"
    using set by (simp_all add: sender_setting_def)
  then have cw: "unat (cwnd ?s) = 15 * m"
    using s(2) by (simp add: unat_of_nat take_bit_nat_eq_self ACKSIZE_def del: of_nat_mult)
  have "src_inv e m n (length rts) 0 ?s"
    using s(1) by (simp add: src_inv_def all_paths_ok_def)
  then have "sends e m n (length rts) 0 (min n (window_packets m (unat (cwnd ?s))) - 0) (src_last_pull ?s) ?s (first_window e tm ?s)"
    using s(3) m cw by (intro first_window_sends) (simp_all add: ACKSIZE_def)
  moreover have "window_packets m (15 * m) = 15"
    using m(1) by (cases m) (simp_all add: window_packets_def div_nat_eqI)
  ultimately have "sends e m n (length rts) 0 (min n 15) 0 ?s (first_window e tm ?s)"
    using cw s(5) by simp
  then show ?thesis
    using s(4) by (auto simp: src_doNextEvent_def startflow_def intro: sends_weaken)
qed

lemma src_reach_inv:
  assumes set: "sender_setting e m n r rts" and new: "new_sender e m n flow me dst r rts = Some s0"
    and "src_reach e (length rts) s0 outs s"
  shows "\<exists>k. src_inv e m n (length rts) k s \<and> original_paths s = original_paths s0 \<and> min n 15 \<le> k \<and>
    (\<forall>p \<in> set outs. sent_ok m n (length rts) (original_paths s0) p) \<and> numbers m outs = {..<k}"
  using assms(3)
proof (induction rule: src_reach.induct)
  case (src_start tm s out)
  from startflow_sends [OF set new, of tm] obtain k where k: "src_inv e m n (length rts) k s" "original_paths s = original_paths s0"
    "\<forall>p \<in> set out. sent_ok m n (length rts) (original_paths s0) p" "{0..<k} \<subseteq> numbers m out" "numbers m out \<subseteq> {..<k}"
    "available n k s = available n 0 s0 - min n 15"
    unfolding src_start sends_def by auto
  have "available n 0 s0 = n"
    using new_sender_inv(3) [OF set new] by (simp add: available_def)
  then have "min n 15 \<le> k"
    using k(6) by (auto simp: available_def)
  then show ?case
    using k(1-5) by (intro exI [of _ k]) (simp add: atLeast0LessThan)
next
  case (src_feedback outs s tm p s' out)
  then obtain k where k: "src_inv e m n (length rts) k s" "original_paths s = original_paths s0" "min n 15 \<le> k"
    "\<forall>p \<in> set outs. sent_ok m n (length rts) (original_paths s0) p" "numbers m outs = {..<k}"
    by blast
  have "\<forall>p \<in> set outs. sent_ok m n (length rts) (original_paths s) p"
    using k(2,4) by simp
  from receive_handles [OF k(1) this k(5) src_feedback.hyps(2)] obtain k' where "k \<le> k'" "src_inv e m n (length rts) k' s'"
    "original_paths s' = original_paths s" "\<forall>p \<in> set out. sent_ok m n (length rts) (original_paths s) p"
    "{k..<k'} \<subseteq> numbers m out" "numbers m out \<subseteq> {..<k'}"
    unfolding src_feedback.hyps(3) handles_def by auto
  moreover from this(1) have "{..<k'} = {..<k} \<union> {k..<k'}" "{..<k} \<subseteq> {..<k'}"
    by auto
  ultimately have "numbers m (outs @ out) = {..<k'}" "\<forall>p \<in> set (outs @ out). sent_ok m n (length rts) (original_paths s0) p"
    using k(2,4,5) by auto
  then show ?case
    using k(2,3) \<open>k \<le> k'\<close> \<open>src_inv e m n (length rts) k' s'\<close> \<open>original_paths s' = original_paths s\<close>
    by (intro exI [of _ k']) simp
qed

text \<open>A sender of three packets of 100 bytes on two paths, for examples, and its start.\<close>

definition an_env :: "route_strategy \<Rightarrow> env" where
  "an_env strat = \<lparr>rnd = (\<lambda>_. 0), feeder_time = (\<lambda>_ _. 0), db = (\<lambda>_. blank), route_strategy = strat, min_rto = 0\<rparr>"

definition a_sender :: "route_strategy \<Rightarrow> src" where
  "a_sender strat = the (new_sender (an_env strat) 100 3 1 7 8 a_route [a_route, a_route])"

definition a_start :: "src \<times> packet list" where
  "a_start = the (src_doNextEvent (an_env SCATTER_PERMUTE) 0 (a_sender SCATTER_PERMUTE))"

lemma a_sender_new: "scatter strat \<Longrightarrow> new_sender (an_env strat) 100 3 1 7 8 a_route [a_route, a_route] = Some (a_sender strat)"
  by (simp add: a_sender_def new_sender_def src_set_paths_def an_env_def Let_def)

lemma a_setting: "sender_setting (an_env SCATTER_PERMUTE) 100 3 a_route [a_route, a_route]"
  by (simp add: sender_setting_def an_env_def a_route_def ACKSIZE_def MAX_PATH_LEN_def PULL_MAXPATHS_def)

lemma a_new: "new_sender (an_env SCATTER_PERMUTE) 100 3 1 7 8 a_route [a_route, a_route] = Some (a_sender SCATTER_PERMUTE)"
  by (rule a_sender_new) (simp add: scatter_def)

lemma a_reach: "src_reach (an_env SCATTER_PERMUTE) (length [a_route, a_route]) (a_sender SCATTER_PERMUTE) (snd a_start) (fst a_start)"
proof (rule src_start)
  show "src_doNextEvent (an_env SCATTER_PERMUTE) 0 (a_sender SCATTER_PERMUTE) = Some (fst a_start, snd a_start)"
    using startflow_sends [OF a_setting a_new, of 0] by (auto simp: sends_def a_start_def)
qed

text \<open>
  Claim C6.  A sender that was set up for \<open>n\<close> packets of \<open>m\<close> bytes, in the settings of \<open>sender_setting\<close>: it scatters the packets over
  at most 256 paths in permuted or random order, or has the strategy \<^verbatim>\<open>PULL_BASED\<close> and one path only; the size of a
  packet fits 16 bits, and the routes are not longer than \<^verbatim>\<open>MAX_PATH_LEN\<close>.  The feedback that comes back is that of
  \<open>comes_back\<close>: it names paths of the sender, requests and returned packets are for packets that were sent, and
  acknowledgements come in the first ten seconds, which the histogram of the times covers.  Then the sender begins with the
  first fifteen packets, and fails no assertion whichever of this feedback comes, in any order: every packet that it sends is a full
  packet of the flow on one of its paths, the packets that it has sent are the first \<open>k\<close> of the flow, where
  \<open>highest_sent\<close> counts their bytes, and every such feedback is handled.
\<close>

theorem sender_correct:
  assumes "sender_setting e m n r rts" and "new_sender e m n flow me dst r rts = Some s0"
    and "src_reach e (length rts) s0 outs s"
  shows "\<exists>k. highest_sent s = k * m \<and> min n 15 \<le> k \<and> k \<le> n \<and> numbers m outs = {..<k} \<and>
    (\<forall>p \<in> set outs. of_sender m n (int (length rts)) p \<and> \<not> is_header p \<and> proute p \<in> Some ` set (number_paths me dst rts)) \<and>
    (\<forall>tm p. comes_back outs (length rts) tm p \<longrightarrow> src_receivePacket e tm p s \<noteq> None)"
proof -
  from src_reach_inv [OF assms] obtain k where k: "src_inv e m n (length rts) k s" "original_paths s = original_paths s0"
    "min n 15 \<le> k" "\<forall>p \<in> set outs. sent_ok m n (length rts) (original_paths s0) p" "numbers m outs = {..<k}"
    by blast
  have "\<forall>p \<in> set outs. sent_ok m n (length rts) (original_paths s) p"
    using k(2,4) by simp
  then have "src_receivePacket e tm p s \<noteq> None" if "comes_back outs (length rts) tm p" for tm p
    using receive_handles [OF k(1) _ k(5) that] by (auto simp: handles_def)
  moreover have "highest_sent s = k * m" "k \<le> n"
    using k(1) by (simp_all add: src_inv_def)
  ultimately show ?thesis
    using k(3-5) new_sender_inv(6) [OF assms(1,2)] by (intro exI [of _ k]) (simp add: sent_ok_def)
qed

theorem sender_correct_witness: "highest_sent (fst a_start) = 300 \<and> numbers 100 (snd a_start) = {..<3}"
proof -
  obtain k where "highest_sent (fst a_start) = k * 100" "min 3 15 \<le> k" "k \<le> 3" "numbers 100 (snd a_start) = {..<k}"
    using sender_correct [OF a_setting a_new a_reach] by blast
  moreover from this(2,3) have "k = 3"
    by simp
  ultimately show ?thesis
    by simp
qed

text \<open>
  Claim C20.  Pulls are cumulative: a pull with the number \<open>pn\<close> makes up for all pulls before it that were lost.  In every state that
  a sender in the settings of \<open>sender_setting\<close> reaches, it sends one packet for every number between the last one and \<open>pn\<close>: first the packets of the
  queue of retransmissions in its order, and then the packets of the flow from the first one that was not sent on, as long
  as there are any.  It then expects the numbers after \<open>pn\<close>; a pull that was overtaken sends nothing.
\<close>

theorem pulls_cumulative:
  assumes "sender_setting e m n r rts" and "new_sender e m n flow me dst r rts = Some s0"
    and "src_reach e (length rts) s0 outs s" and "ptype p = NDPPULL"
  shows "\<exists>s' out. src_receivePacket e tm p s = Some (s', out) \<and> src_last_pull s' = max (src_last_pull s) (pullno p) \<and>
    map seqno out = take (pullno p - src_last_pull s)
      (map seqno (rtx_queue s) @ map (first_byte m) [highest_sent s div m..<n])"
proof -
  obtain k where k: "src_inv e m n (length rts) k s"
    using src_reach_inv [OF assms(1-3)] by blast
  let ?s = "s\<lparr>pulls_received := pulls_received s + 1, pull_window := pull_window s - 1\<rparr>"
  define s1 where "s1 = (if last_acked ?s < cumulative_ack p then ?s\<lparr>last_acked := cumulative_ack p\<rparr> else ?s)"
  have s1: "src_inv e m n (length rts) k s1" "src_last_pull s1 = src_last_pull s" "rtx_queue s1 = rtx_queue s"
    using k by (simp_all add: s1_def)
  have "highest_sent s div m = k"
    using k by (simp add: src_inv_def)
  moreover have "src_receivePacket e tm p s = pull_packets e tm (pullno p) (pacerno p) s1"
    using assms(4) by (simp add: src_receivePacket_def Let_def s1_def)
  ultimately show ?thesis
    using pull_packets_sends [OF s1(1), of "pullno p" tm "pacerno p"] s1(2,3) unfolding sends_def coming_def by auto
qed

text \<open>
  A sender of twenty packets that has sent fifteen and got a request for the first one: a pull that makes up for two sends
  that packet again, and then the sixteenth.
\<close>

definition long_sender :: src where
  "long_sender = the (new_sender (an_env SCATTER_PERMUTE) 100 20 1 7 8 a_route [a_route, a_route])"

definition a_nack :: packet where
  "a_nack = blank\<lparr>ptype := NDPNACK, ackno := 1\<rparr>"

lemma nacked:
  "\<exists>outs s. src_reach (an_env SCATTER_PERMUTE) (length [a_route, a_route]) long_sender outs s \<and> map seqno (rtx_queue s) = [1] \<and>
     highest_sent s = 1500 \<and> src_last_pull s = 0"
proof -
  let ?e = "an_env SCATTER_PERMUTE" and ?np = "length [a_route, a_route]"
  have set: "sender_setting ?e 100 20 a_route [a_route, a_route]"
    by (simp add: sender_setting_def an_env_def a_route_def ACKSIZE_def MAX_PATH_LEN_def PULL_MAXPATHS_def)
  have new: "new_sender ?e 100 20 1 7 8 a_route [a_route, a_route] = Some long_sender"
    by (simp add: long_sender_def new_sender_def src_set_paths_def an_env_def Let_def scatter_def)
  have none: "rtx_queue long_sender = []"
    using new_sender_inv [OF set new] by simp
  from startflow_sends [OF set new, of 0] obtain s out k where s: "src_doNextEvent ?e 0 long_sender = Some (s, out)"
    "src_inv ?e 100 20 ?np k s" "src_last_pull s = 0" "coming 100 20 k s = drop 15 (coming 100 20 0 long_sender)"
    "map seqno out = take 15 (coming 100 20 0 long_sender)" "{0..<k} \<subseteq> numbers 100 out"
    unfolding sends_def by auto
  have c: "map seqno (rtx_queue s) @ map (first_byte 100) [k..<20] = map (first_byte 100) [15..<20]"
    using s(4) none by (simp add: coming_def drop_map)
  have out: "map seqno out = map (first_byte 100) [0..<15]"
    using s(5) none by (simp add: coming_def take_map)
  note reach = src_start [of ?e 0 long_sender s out ?np, OF s(1)]
  obtain k' where k': "src_inv ?e 100 20 ?np k' s" "numbers 100 out = {..<k'}"
    using src_reach_inv [OF set new reach] by blast
  have "seqno ` set out = first_byte 100 ` set [0..<15]"
    using out by (metis list.set_map)
  then have "numbers 100 out = {..<15}"
    by (auto simp: numbers_def image_iff)
  then have "k' = 15"
    using k'(2) by simp
  moreover have "k' = k"
    using k'(1) s(2) by (simp add: src_inv_def)
  ultimately have k: "k = 15"
    by simp
  then have s0: "rtx_queue s = []" "highest_sent s = 1500"
    using c s(2) by (simp_all add: src_inv_def)
  have "0 \<in> numbers 100 out"
    using \<open>numbers 100 out = {..<15}\<close> by simp
  then have "ackno a_nack \<in> seqno ` set out"
    by (simp add: numbers_def a_nack_def first_byte_def)
  then have nack: "comes_back out ?np 5 a_nack"
    by (simp add: comes_back_def a_nack_def blank_def)
  obtain s' where "src_receivePacket ?e 5 a_nack s = Some (s', [])" "map seqno (rtx_queue s') = [1]" "highest_sent s' = 1500"
    "src_last_pull s' = 0"
    using nack_queued [OF s(2), of a_nack 5] s0 s(3) by (auto simp: a_nack_def blank_def)
  then show ?thesis
    using src_feedback [OF reach nack] by (intro exI [of _ out] exI [of _ s']) simp
qed

theorem pulls_cumulative_witness:
  "\<exists>outs s s' out. src_reach (an_env SCATTER_PERMUTE) (length [a_route, a_route]) long_sender outs s \<and>
     src_receivePacket (an_env SCATTER_PERMUTE) 6 (blank\<lparr>ptype := NDPPULL, pullno := 2\<rparr>) s = Some (s', out) \<and>
     src_last_pull s' = 2 \<and> map seqno out = [1, 1501]"
proof -
  have set: "sender_setting (an_env SCATTER_PERMUTE) 100 20 a_route [a_route, a_route]"
    by (simp add: sender_setting_def an_env_def a_route_def ACKSIZE_def MAX_PATH_LEN_def PULL_MAXPATHS_def)
  have new: "new_sender (an_env SCATTER_PERMUTE) 100 20 1 7 8 a_route [a_route, a_route] = Some long_sender"
    by (simp add: long_sender_def new_sender_def src_set_paths_def an_env_def Let_def scatter_def)
  obtain outs s where s: "src_reach (an_env SCATTER_PERMUTE) (length [a_route, a_route]) long_sender outs s"
    "map seqno (rtx_queue s) = [1]" "highest_sent s = 1500" "src_last_pull s = 0"
    using nacked by (elim exE conjE) (rule that)
  have "ptype (blank\<lparr>ptype := NDPPULL, pullno := 2\<rparr>) = NDPPULL"
    by simp
  from pulls_cumulative [OF set new s(1) this, of 6] obtain s' out where
    "src_receivePacket (an_env SCATTER_PERMUTE) 6 (blank\<lparr>ptype := NDPPULL, pullno := 2\<rparr>) s = Some (s', out)"
    "src_last_pull s' = 2" "map seqno out = [1, 1501]"
    using s(2-4) by (auto simp: first_byte_def upt_conv_Cons)
  then show ?thesis
    using s(1) by (intro exI [of _ outs] exI [of _ s] exI [of _ s'] exI [of _ out]) simp
qed

theorem pull_based_choice_witness: "\<exists>r s'. choose_route (an_env PULL_BASED) (a_sender PULL_BASED) = Some (r, s')"
proof -
  have "scatter (route_strategy (an_env PULL_BASED))" "[a_route, a_route] \<noteq> []"
    "\<forall>x \<in> set [a_route, a_route]. length (sinklist x) < MAX_PATH_LEN"
    by (simp_all add: an_env_def scatter_def a_route_def MAX_PATH_LEN_def)
  from new_sender_paths [OF this a_sender_new] have s: "all_paths_ok (length [a_route, a_route]) (a_sender PULL_BASED)"
    "avoid_ratio (a_sender PULL_BASED) = replicate (length [a_route, a_route]) 0"
    by (simp_all add: scatter_def)
  have "\<exists>i < length [a_route, a_route]. avoid_ratio (a_sender PULL_BASED) ! i = 0"
    using s(2) by (intro exI [of _ 0]) simp
  moreover have "route_strategy (an_env PULL_BASED) = PULL_BASED" "1 < length [a_route, a_route]"
    by (simp_all add: an_env_def)
  ultimately show ?thesis
    using pull_based_choice [OF s(1)] by blast
qed

section \<open>From the sender to the receiver\<close>

text \<open>What arrives of a packet that was sent: it has made its hops, and may have been trimmed.\<close>

definition arrives :: "packet \<Rightarrow> packet \<Rightarrow> bool" where
  "arrives p q \<longleftrightarrow> (\<exists>x. q = p\<lparr>nexthop := x\<rparr> \<or> strip_payload (p\<lparr>nexthop := x\<rparr>) = Some q)"

lemma arrives_of_sender: "sent_ok m n np rts p \<Longrightarrow> arrives p q \<Longrightarrow> of_sender m n (int np) q \<and> seqno q = seqno p"
  by (auto simp: arrives_def sent_ok_def of_sender_def strip_payload_def split: if_splits)

text \<open>
  Claim C5.  A sender in the settings of \<open>sender_setting\<close>, to which feedback of \<open>comes_back\<close> comes, and a receiver with a network between them that loses, trims, duplicates and reorders packets:
  the receiver fails no assertion; it acknowledges the bytes before the first packet that has not arrived in full, which
  are never more than what was sent; and it releases the pulls exactly when the whole flow has arrived, and then
  acknowledges all of it.
\<close>

theorem sender_to_receiver:
  assumes "sender_setting e m n r rts" and "new_sender e m n flow me dst r rts = Some s0"
    and "src_reach e (length rts) s0 outs s"
    and "sink_set_paths rn strat me' src rts' (sink_connect strat flow r' NdpSink) = Some t0" and "rts' \<noteq> []"
    and "\<forall>x \<in> set ps. \<exists>p \<in> set outs. arrives p (snd x)" and "K = got m (map snd ps)"
  shows "\<exists>t fb. sink_run rn strat ps t0 = Some (t, fb) \<and> sk_cumulative_ack t = (LEAST k. k \<notin> K) * m \<and>
    sk_cumulative_ack t \<le> highest_sent s \<and> (releases fb \<longleftrightarrow> K = {..<n}) \<and> (releases fb \<longrightarrow> sk_cumulative_ack t = n * m)"
proof -
  from src_reach_inv [OF assms(1-3)] obtain k where k: "src_inv e m n (length rts) k s"
    "\<forall>p \<in> set outs. sent_ok m n (length rts) (original_paths s0) p" "numbers m outs = {..<k}"
    by blast
  have m: "0 < m" "0 < n" "0 < int (length rts)" "int (length rts) \<le> PULL_MAXPATHS"
    using assms(1) by (simp_all add: sender_setting_def)
  have ps: "\<forall>x \<in> set ps. of_sender m n (int (length rts)) (snd x)" and num: "\<forall>x \<in> set ps. seqno (snd x) \<in> seqno ` set outs"
    using assms(6) k(2) arrives_of_sender by (metis, metis imageI)
  note start = sink_inv_start [OF assms(4,5)]
  obtain t fb where t: "sink_run rn strat ps t0 = Some (t, fb)" "sink_inv m n (int (length rts)) (map snd ps) t"
    "releases fb \<longrightarrow> {..<n} \<subseteq> K" "{..<n} \<subseteq> K \<and> \<not> {..<n} \<subseteq> {} \<longrightarrow> releases fb"
    using sink_run_inv [OF start(1) m ps start(2), of rn] assms(7) by auto
  have h: "reassembled m K (sk_cumulative_ack t) (received t)" and sub: "K \<subseteq> {..<n}"
    using t(2) assms(7) by (simp_all add: sink_inv_def)
  then have fin: "finite K"
    using finite_subset by blast
  have "K \<subseteq> numbers m outs"
  proof
    fix j
    assume "j \<in> K"
    then obtain x where x: "x \<in> set ps" "seqno (snd x) = first_byte m j"
      using assms(7) by (auto simp: got_def)
    then show "j \<in> numbers m outs"
      using bspec [OF num x(1)] by (simp add: numbers_def)
  qed
  then have "K \<subseteq> {..<k}"
    using k(3) by simp
  then have "k \<notin> K"
    by auto
  then have "(LEAST k. k \<notin> K) \<le> k"
    by (rule Least_le)
  note cum = reassembled_unique(1) [OF h fin]
  have "highest_sent s = k * m"
    using k(1) by (simp add: src_inv_def)
  then have le: "sk_cumulative_ack t \<le> highest_sent s"
    unfolding cum using \<open>(LEAST k. k \<notin> K) \<le> k\<close> by (simp add: mult_le_mono1)
  have "\<not> {..<n} \<subseteq> {}"
    using m(2) by auto
  then have rel: "releases fb \<longleftrightarrow> K = {..<n}"
    using t(3,4) sub by blast
  have "(LEAST k. k \<notin> K) = n" if "K = {..<n}"
    using that by (intro Least_equality) auto
  then have "releases fb \<longrightarrow> sk_cumulative_ack t = n * m"
    using rel cum by blast
  then show ?thesis
    using t(1) cum le rel by blast
qed

theorem sender_to_receiver_witness:
  "\<exists>t fb. sink_run (\<lambda>_. 0) SCATTER_PERMUTE (map (Pair blank) (snd a_start))
       (the (sink_set_paths (\<lambda>_. 0) SCATTER_PERMUTE 8 7 [a_route] (sink_connect SCATTER_PERMUTE 1 a_route NdpSink))) = Some (t, fb) \<and>
     releases fb \<and> sk_cumulative_ack t = 300"
proof -
  have t0: "sink_set_paths (\<lambda>_. 0) SCATTER_PERMUTE 8 7 [a_route] (sink_connect SCATTER_PERMUTE 1 a_route NdpSink) =
      Some (the (sink_set_paths (\<lambda>_. 0) SCATTER_PERMUTE 8 7 [a_route] (sink_connect SCATTER_PERMUTE 1 a_route NdpSink)))"
    by (simp add: sink_set_paths_def sink_connect_def NdpSink_def)
  let ?ps = "map (Pair blank) (snd a_start)"
  have "arrives p p" for p
    unfolding arrives_def by (intro exI [of _ "nexthop p"]) simp
  then have ps: "\<forall>x \<in> set ?ps. \<exists>p \<in> set (snd a_start). arrives p (snd x)"
    by auto
  obtain k where k: "src_inv (an_env SCATTER_PERMUTE) 100 3 (length [a_route, a_route]) k (fst a_start)" "min 3 15 \<le> k"
    "\<forall>p \<in> set (snd a_start). sent_ok 100 3 (length [a_route, a_route]) (original_paths (a_sender SCATTER_PERMUTE)) p"
    "numbers 100 (snd a_start) = {..<k}"
    using src_reach_inv [OF a_setting a_new a_reach] by blast
  have "k \<le> 3"
    using k(1) by (simp add: src_inv_def)
  then have "numbers 100 (snd a_start) = {..<3}"
    using k(2,4) by simp
  moreover have "\<forall>p \<in> set (snd a_start). \<not> is_header p"
    using k(3) by (simp add: sent_ok_def)
  then have "got 100 (snd a_start) = numbers 100 (snd a_start)"
    unfolding got_def numbers_def image_iff by (metis (no_types, lifting))
  ultimately have K: "{..<3} = got 100 (map snd ?ps)"
    by (simp add: comp_def)
  show ?thesis
    using sender_to_receiver [OF a_setting a_new a_reach t0 _ ps K] by auto
qed

end
