(* ===== verification/Ndp_Timer.thy ===== *)
theory Ndp_Timer
  imports Ndp_Sender
begin

text \<open>
  Timeouts of NDP senders (\<^verbatim>\<open>ndp.cpp\<close>).  A scanner is called with a fixed period and gives every source whose timeout
  comes before the next scan an event at the time of the timeout (\<^verbatim>\<open>NdpRtxTimerScanner\<close>); the source then sends the
  packets that are overdue again.  The sources are numbered in the order of their registration.
\<close>

section \<open>The scanner\<close>

datatype timer_source = Scanner | Src nat

record scanner =
  scanPeriod :: nat
  tcps :: "src list"

definition NdpRtxTimerScanner ::
  "nat \<Rightarrow> timer_source event_list \<Rightarrow> (scanner \<times> timer_source event_list) option" where
  "NdpRtxTimerScanner period ev = map_option (Pair \<lparr>scanPeriod = period, tcps = []\<rparr>) (sourceIsPendingRel Scanner 0 ev)"

definition registerNdp :: "src \<Rightarrow> scanner \<Rightarrow> scanner" where
  "registerNdp s sc = sc\<lparr>tcps := tcps sc @ [s]\<rparr>"

text \<open>The loop over the sources, from the one with the number \<open>i\<close>.\<close>

fun scan_from ::
  "bool \<Rightarrow> nat \<Rightarrow> nat \<Rightarrow> nat \<Rightarrow> src list \<Rightarrow> timer_source event_list \<Rightarrow> (src list \<times> timer_source event_list) option" where
  "scan_from resend tm period i [] ev = Some ([], ev)"
| "scan_from resend tm period i (s # ss) ev =
     (case rtx_timer_hook resend tm period s of (s1, d) \<Rightarrow>
        (case (case d of None \<Rightarrow> Some ev | Some dt \<Rightarrow> sourceIsPendingRel (Src i) dt ev) of
           None \<Rightarrow> None
         | Some ev1 \<Rightarrow> map_option (\<lambda>(ss1, ev2). (s1 # ss1, ev2)) (scan_from resend tm period (i + 1) ss ev1)))"

definition scanner_doNextEvent ::
  "bool \<Rightarrow> scanner \<Rightarrow> timer_source event_list \<Rightarrow> (scanner \<times> timer_source event_list) option" where
  "scanner_doNextEvent resend sc ev =
     (case scan_from resend (now ev) (scanPeriod sc) 0 (tcps sc) ev of
        None \<Rightarrow> None
      | Some (ss, ev1) \<Rightarrow> map_option (Pair (sc\<lparr>tcps := ss\<rparr>)) (sourceIsPendingRel Scanner (scanPeriod sc) ev1))"

section \<open>No timeout is missed\<close>

text \<open>A source that waits for a timeout that no event has been made for.\<close>

definition waits :: "src \<Rightarrow> bool" where
  "waits s \<longleftrightarrow> 0 < highest_sent s \<and> rtx_timeout s \<noteq> timeInf \<and> \<not> rtx_timeout_pending s"

lemma rtx_timer_hook_cases:
  "rtx_timer_hook True tm period s =
     (if waits s \<and> rtx_timeout s \<le> tm + period
      then (s\<lparr>rtx_timeout_pending := True\<rparr>, Some (max tm (rtx_timeout s) - tm)) else (s, None))"
  by (auto simp: rtx_timer_hook_def waits_def)

lemma pending_rel:
  assumes "ev_ok ev" and "endtime ev = 0"
  shows "\<exists>ev'. sourceIsPendingRel src dt ev = Some ev' \<and> ev_ok ev' \<and> endtime ev' = 0 \<and> now ev' = now ev \<and>
    set (pendingsources ev') = insert (now ev + dt, src) (set (pendingsources ev))"
proof -
  have eq: "sourceIsPendingRel src dt ev = Some (ev\<lparr>pendingsources := insert_pending (now ev + dt) src (pendingsources ev)\<rparr>)"
    using assms(2) by (simp add: sourceIsPendingRel_def sourceIsPending_def)
  from sourceIsPendingRel_ok [OF assms(1), of src dt] show ?thesis
    using eq assms(2) by (auto simp: set_insert_pending)
qed

definition timed :: "nat \<Rightarrow> nat \<Rightarrow> src \<Rightarrow> bool" where
  "timed tm period s \<longleftrightarrow> waits s \<and> rtx_timeout s \<le> tm + period"

lemma hook_pending:
  assumes "ev_ok ev" and "endtime ev = 0" and "tm = now ev"
  shows "\<exists>ev1. (case snd (rtx_timer_hook True tm period s) of None \<Rightarrow> Some ev | Some dt \<Rightarrow> sourceIsPendingRel src dt ev) = Some ev1 \<and>
    ev_ok ev1 \<and> endtime ev1 = 0 \<and> now ev1 = tm \<and>
    set (pendingsources ev1) = set (pendingsources ev) \<union> (if timed tm period s then {(max tm (rtx_timeout s), src)} else {})"
proof (cases "timed tm period s")
  case True
  then show ?thesis
    using pending_rel [OF assms(1,2), of src "max tm (rtx_timeout s) - tm"] assms(3) by (simp add: rtx_timer_hook_cases timed_def)
next
  case False
  then have "rtx_timer_hook True tm period s = (s, None)"
    by (simp add: rtx_timer_hook_cases timed_def)
  then show ?thesis
    using assms False by simp
qed

lemma scan_from_ok:
  assumes "ev_ok ev" and "endtime ev = 0" and "tm = now ev"
  shows "\<exists>ev'. scan_from True tm period i ss ev =
      Some (map (\<lambda>s. if timed tm period s then s\<lparr>rtx_timeout_pending := True\<rparr> else s) ss, ev') \<and>
    ev_ok ev' \<and> endtime ev' = 0 \<and> now ev' = tm \<and>
    set (pendingsources ev') = set (pendingsources ev) \<union>
      {(max tm (rtx_timeout (ss ! j)), Src (i + j)) | j. j < length ss \<and> timed tm period (ss ! j)}"
  using assms
proof (induction ss arbitrary: i ev)
  case Nil
  then show ?case
    by simp
next
  case (Cons s ss)
  let ?t = "timed tm period s"
  have split: "{(max tm (rtx_timeout ((s # ss) ! j)), Src (i + j)) | j. j < length (s # ss) \<and> timed tm period ((s # ss) ! j)} =
      (if ?t then {(max tm (rtx_timeout s), Src i)} else {}) \<union>
      {(max tm (rtx_timeout (ss ! j)), Src (i + 1 + j)) | j. j < length ss \<and> timed tm period (ss ! j)}" (is "?A = ?B \<union> ?C")
  proof (rule set_eqI, rule iffI)
    fix x
    assume "x \<in> ?A"
    then obtain j where j: "x = (max tm (rtx_timeout ((s # ss) ! j)), Src (i + j))" "j < length (s # ss)" "timed tm period ((s # ss) ! j)"
      by blast
    then show "x \<in> ?B \<union> ?C"
      by (cases j) auto
  next
    fix x
    assume "x \<in> ?B \<union> ?C"
    then consider "?t" "x = (max tm (rtx_timeout s), Src i)" | j where "x = (max tm (rtx_timeout (ss ! j)), Src (i + 1 + j))"
        "j < length ss" "timed tm period (ss ! j)"
      by (auto split: if_splits)
    then show "x \<in> ?A"
    proof cases
      case 1
      then show ?thesis
        by (intro CollectI exI [of _ 0]) simp
    next
      case (2 j)
      then show ?thesis
        by (intro CollectI exI [of _ "Suc j"]) simp
    qed
  qed
  obtain ev1 where ev1: "(case snd (rtx_timer_hook True tm period s) of None \<Rightarrow> Some ev | Some dt \<Rightarrow> sourceIsPendingRel (Src i) dt ev) = Some ev1"
    "ev_ok ev1" "endtime ev1 = 0" "now ev1 = tm"
    "set (pendingsources ev1) = set (pendingsources ev) \<union> (if ?t then {(max tm (rtx_timeout s), Src i)} else {})"
    using hook_pending [OF Cons.prems] by blast
  from Cons.IH [OF ev1(2,3) ev1(4) [symmetric], of "i + 1"] obtain ev2 where ev2:
    "scan_from True tm period (i + 1) ss ev1 =
      Some (map (\<lambda>s. if timed tm period s then s\<lparr>rtx_timeout_pending := True\<rparr> else s) ss, ev2)"
    "ev_ok ev2" "endtime ev2 = 0" "now ev2 = tm"
    "set (pendingsources ev2) = set (pendingsources ev1) \<union>
      {(max tm (rtx_timeout (ss ! j)), Src (i + 1 + j)) | j. j < length ss \<and> timed tm period (ss ! j)}"
    by blast
  have fst: "fst (rtx_timer_hook True tm period s) = (if ?t then s\<lparr>rtx_timeout_pending := True\<rparr> else s)"
    by (simp add: rtx_timer_hook_cases timed_def)
  have "scan_from True tm period i (s # ss) ev =
      Some (map (\<lambda>s. if timed tm period s then s\<lparr>rtx_timeout_pending := True\<rparr> else s) (s # ss), ev2)"
    using ev1(1) ev2(1) fst by (cases "rtx_timer_hook True tm period s") simp
  moreover have "set (pendingsources ev2) = set (pendingsources ev) \<union> ?A"
    unfolding ev2(5) ev1(5) split by blast
  ultimately show ?case
    using ev2(2-4) by blast
qed

text \<open>
  With timeouts enabled, a scan fails no assertion and misses no timeout: a source with a timeout before the next scan
  gets an event at that time, or at once when it is late; the others keep their state, and the scanner gets its own
  next event.  Without them nothing changes but that event.
\<close>

theorem scanner_in_time:
  assumes "ev_ok ev" and "endtime ev = 0"
  shows "\<exists>sc' ev'. scanner_doNextEvent True sc ev = Some (sc', ev') \<and> ev_ok ev' \<and> now ev' = now ev \<and>
    tcps sc' = map (\<lambda>s. if timed (now ev) (scanPeriod sc) s then s\<lparr>rtx_timeout_pending := True\<rparr> else s) (tcps sc) \<and>
    set (pendingsources ev') = insert (now ev + scanPeriod sc, Scanner) (set (pendingsources ev) \<union>
      {(max (now ev) (rtx_timeout (tcps sc ! j)), Src j) | j. j < length (tcps sc) \<and> timed (now ev) (scanPeriod sc) (tcps sc ! j)})"
proof -
  from scan_from_ok [OF assms refl, of "scanPeriod sc" 0 "tcps sc"] obtain ev1 where ev1:
    "scan_from True (now ev) (scanPeriod sc) 0 (tcps sc) ev =
      Some (map (\<lambda>s. if timed (now ev) (scanPeriod sc) s then s\<lparr>rtx_timeout_pending := True\<rparr> else s) (tcps sc), ev1)"
    "ev_ok ev1" "endtime ev1 = 0" "now ev1 = now ev"
    "set (pendingsources ev1) = set (pendingsources ev) \<union>
      {(max (now ev) (rtx_timeout (tcps sc ! j)), Src (0 + j)) | j. j < length (tcps sc) \<and> timed (now ev) (scanPeriod sc) (tcps sc ! j)}"
    by blast
  from pending_rel [OF ev1(2,3), of Scanner "scanPeriod sc"] show ?thesis
    using ev1(1,4,5) by (auto simp: scanner_doNextEvent_def)
qed

lemma scanner_disabled:
  assumes "ev_ok ev" and "endtime ev = 0"
  shows "\<exists>ev'. scanner_doNextEvent False sc ev = Some (sc, ev') \<and>
    set (pendingsources ev') = insert (now ev + scanPeriod sc, Scanner) (set (pendingsources ev))"
proof -
  have "scan_from False tm period i ss ev = Some (ss, ev)" for tm period i ss
    by (induction ss arbitrary: i) (simp_all add: rtx_timer_hook_def)
  then show ?thesis
    using pending_rel [OF assms, of Scanner "scanPeriod sc"] by (auto simp: scanner_doNextEvent_def)
qed

section \<open>What a timeout sends\<close>

lemma retransmit_one_ok:
  assumes inv: "src_inv e m n np k s" and j: "j < k"
  shows "\<exists>s' p. retransmit_one e tm (first_byte m j) s = Some (s', [p]) \<and> src_inv e m n np k s' \<and>
    original_paths s' = original_paths s \<and> sent_times s' = sent_times s \<and> src_rto s' = src_rto s \<and>
    sent_ok m n np (original_paths s) p \<and> seqno p = first_byte m j"
proof -
  have ok: "all_paths_ok np s" and sc: "scatter (route_strategy e)"
    using inv by (simp_all add: src_inv_def)
  note path = all_paths_ok_path [OF ok, of "src_crt_path s"]
  have len: "length (src_paths s) = np" "src_crt_path s < np"
    using ok all_paths_ok_length by (auto simp: all_paths_ok_def)
  let ?r = "src_paths s ! src_crt_path s"
  define s1 where "s1 = (if route_strategy e = SCATTER_RANDOM
      then s\<lparr>src_crt_path := rnd e (src_draws s) mod length (src_paths s), src_draws := src_draws s + 1\<rparr> else next_path e s)"
  have rp: "repath s s1 \<and> all_paths_ok np s1"
  proof (cases "route_strategy e = SCATTER_RANDOM")
    case True
    then have "s1 = s\<lparr>src_crt_path := rnd e (src_draws s) mod length (src_paths s), src_paths := src_paths s,
        src_draws := src_draws s + 1, avoid_score := avoid_score s\<rparr>"
      by (simp add: s1_def)
    moreover have "all_paths_ok np s1"
      using True ok len by (auto simp: s1_def all_paths_ok_def)
    ultimately show ?thesis
      unfolding repath_def by blast
  qed (use next_path_ok [OF ok] in \<open>simp add: s1_def\<close>)
  then have s1: "src_inv e m n np k s1" "original_paths s1 = original_paths s" "sent_times s1 = sent_times s" "src_rto s1 = src_rto s"
    using src_inv_repath [OF inv] by (auto simp: repath_def)
  have "length (path_counts_rto s1) = np"
    using rp by (simp add: all_paths_ok_def)
  then obtain l where l: "add_at (r_path_id ?r) 1 (path_counts_rto s1) = Some l" "length l = np"
    using add_at_path [OF path(2)] len by auto
  define p where "p = (NdpPacket_newpkt (db e (packets_sent s)) (src_flow s) ?r (first_byte m j) 0 (mss s) True
      (int (length (src_paths s))) (flow_size s \<le> first_byte m j + mss s - 1))\<lparr>pkt_time := tm\<rparr>"
  have np: "np < 10000" "m + ACKSIZE < 2 ^ 16" "mss s = m" "flow_size s = n * m" "j < n" "0 < m"
    using inv j by (auto simp: src_inv_def PULL_MAXPATHS_def)
  have "n * m \<le> Suc j * m \<longleftrightarrow> n \<le> Suc j"
    using np(6) mult_le_cancel2 by blast
  then have lst: "flow_size s \<le> first_byte m j + mss s - 1 \<longleftrightarrow> j = n - 1"
    using np by (auto simp: first_byte_def add.commute)
  have f: "ptype p = NDP" "proute p = Some ?r" "no_of_paths p = int np" "path_len p = length (sinklist ?r)" "psize p = m + ACKSIZE"
    "\<not> is_header p" "\<not> bounced p" "seqno p = first_byte m j" "last_packet p \<longleftrightarrow> j = n - 1" "nexthop p = 0"
    using np(2,3) len(1) lst by (simp_all add: p_def NdpPacket_newpkt_def set_route4_def)
  have "\<exists>i < n. seqno p = first_byte m i \<and> (last_packet p \<longleftrightarrow> i = n - 1)"
    using f(8,9) np(5) by blast
  moreover have "path_ok np ?r" "?r \<in> set (original_paths s)"
    using path(1,2) len by simp_all
  ultimately have p: "sent_ok m n np (original_paths s) (p\<lparr>nexthop := 1\<rparr>)"
    using f np(1) by (simp add: sent_ok_def of_sender_def path_ok_def)
  have "sendOn p = Some (sinklist ?r ! 0, p\<lparr>nexthop := 1\<rparr>)"
    using f path(2) len by (simp add: sendOn_def path_ok_def)
  then have eq: "retransmit_one e tm (first_byte m j) s =
      Some (s1\<lparr>path_counts_rto := l, packets_sent := packets_sent s1 + 1, rtx_packets_sent := rtx_packets_sent s1 + 1\<rparr>, [p\<lparr>nexthop := 1\<rparr>])"
    using sc len l(1) by (simp add: retransmit_one_def Let_def s1_def p_def)
  have "src_inv e m n np k (s1\<lparr>path_counts_rto := l\<rparr>)"
    using s1(1) l(2) by (simp add: src_inv_def all_paths_ok_def)
  then show ?thesis
    using eq p f(8) s1 by simp
qed

lemma retransmit_all_ok:
  assumes "src_inv e m n np k s" and "\<forall>sq \<in> set sqs. \<exists>j < k. sq = first_byte m j"
  shows "\<exists>s' out. retransmit_all e tm sqs s = Some (s', out) \<and> src_inv e m n np k s' \<and> original_paths s' = original_paths s \<and>
    sent_times s' = sent_times s \<and> src_rto s' = src_rto s \<and> map seqno out = sqs \<and> (\<forall>p \<in> set out. sent_ok m n np (original_paths s) p)"
  using assms
proof (induction sqs arbitrary: s)
  case (Cons sq sqs)
  then obtain j where "j < k" "sq = first_byte m j"
    by auto
  with retransmit_one_ok [OF Cons.prems(1), of j tm] obtain s1 p where s1:
    "retransmit_one e tm sq s = Some (s1, [p])" "src_inv e m n np k s1" "original_paths s1 = original_paths s"
    "sent_times s1 = sent_times s" "src_rto s1 = src_rto s" "sent_ok m n np (original_paths s) p" "seqno p = sq"
    by blast
  moreover obtain s2 out where "retransmit_all e tm sqs s1 = Some (s2, out)" "src_inv e m n np k s2"
    "original_paths s2 = original_paths s1" "sent_times s2 = sent_times s1" "src_rto s2 = src_rto s1"
    "map seqno out = sqs" "\<forall>p \<in> set out. sent_ok m n np (original_paths s1) p"
    using Cons.IH [OF s1(2)] Cons.prems(2) by auto
  ultimately show ?case
    by simp
qed simp

text \<open>
  On a timeout the sender sends exactly the packets whose time is over, in the order of their sequence numbers and
  full, on its paths, and fails no assertion.  It forgets the times of these packets: \<open>sent_times\<close> keeps the others
  only, so that a packet that is lost again has no timeout any more.
\<close>

theorem timeout_resends:
  assumes "src_inv e m n np k s" and "\<forall>x \<in> set (sent_times s). \<exists>j < k. fst x = first_byte m j"
  shows "\<exists>s' out. retransmit_packet e tm s = Some (s', out) \<and> src_inv e m n np k s' \<and>
    map seqno out = map fst (filter (\<lambda>x. snd x + src_rto s \<le> tm) (sent_times s)) \<and>
    sent_times s' = filter (\<lambda>x. tm < snd x + src_rto s) (sent_times s) \<and>
    (\<forall>p \<in> set out. sent_ok m n np (original_paths s) p)"
proof -
  let ?late = "\<lambda>x. snd x + src_rto s \<le> tm"
  let ?s = "s\<lparr>sent_times := filter (\<lambda>x. \<not> ?late x) (sent_times s)\<rparr>"
  have "\<forall>sq \<in> set (map fst (filter ?late (sent_times s))). \<exists>j < k. sq = first_byte m j"
    using assms(2) by auto
  moreover have "src_inv e m n np k ?s"
    using assms(1) by simp
  ultimately obtain s' out where "retransmit_all e tm (map fst (filter ?late (sent_times s))) ?s = Some (s', out)"
    "src_inv e m n np k s'" "sent_times s' = sent_times ?s" "map seqno out = map fst (filter ?late (sent_times s))"
    "\<forall>p \<in> set out. sent_ok m n np (original_paths ?s) p"
    using retransmit_all_ok by blast
  moreover have "sent_times (update_rtx_time s') = sent_times s'"
    by (simp add: update_rtx_time_def)
  ultimately show ?thesis
    by (simp add: retransmit_packet_def Let_def not_le)
qed

text \<open>The times of the packets that an acknowledgement covers are erased, because the map is in the order of its keys.\<close>

lemma process_cumulative_ack_erases:
  assumes "sorted (map fst (sent_times s))"
  shows "sent_times (process_cumulative_ack cum s) = filter (\<lambda>x. cum < fst x) (sent_times s)"
proof -
  have "dropWhile (\<lambda>x. fst x \<le> cum) ts = filter (\<lambda>x. cum < fst x) ts" if "sorted (map fst ts)" for ts :: "(nat \<times> nat) list"
    using that
  proof (induction ts)
    case (Cons x ts)
    then have "cum < fst x \<Longrightarrow> filter (\<lambda>x. cum < fst x) ts = ts"
      by (intro filter_True) auto
    then show ?case
      using Cons by (simp add: not_le)
  qed simp
  then show ?thesis
    using assms by (simp add: process_cumulative_ack_def)
qed

end
