(* ===== verification/Spec2Isabelle.thy ===== *)
theory Spec2Isabelle
  imports Dapper_Split Stag_Correct Ringbuffer Sketch_Serial Key_Table_Correct Sketch_Estimate Sketch_Identify
    Timestamp Hash_Table_Correct Flows Ovs Controller_Example
    Config Sketch_Dist Key_Table_Files Ndp_Composite Ndp_Pacer Ndp_Timer
begin

text \<open>
  A verification of the C and C++ programs of the P4 survey repository.  The repository collects P4 programs of the
  literature with the tools made for them.  Their C code falls into four groups, which do not call each
  other: translations of P4 programs to C for symbolic execution (\<^verbatim>\<open>src/dapper\<close>, \<^verbatim>\<open>src/stag\<close>), the measurement
  system SketchLearn (\<^verbatim>\<open>src/sketchlearn\<close>), the simulator of the transport protocol NDP (\<^verbatim>\<open>src/ndp/sim\<close>), and a
  timestamping plugin (\<^verbatim>\<open>src/netpaxos/src/timestamp.c\<close>).

  \<^bold>\<open>How C is read.\<close>  An \<^verbatim>\<open>unsigned\<close> integer of \<open>w\<close> bits is a word of \<open>w\<close> bits.  The counters of sketches and
  tables, \<^verbatim>\<open>int32_t\<close> in the code, are words too and read with \<open>sint\<close>: their additions wrap as on the machines the
  code is built for, although the language leaves their overflow undefined.  Indices and lengths are natural
  numbers, and an \<^verbatim>\<open>int\<close> whose overflow matters has its range written out (\<open>INT_MAX\<close>).  A function that can fail
  returns an \<open>option\<close> or a \<open>result\<close>: an access outside an array or another undefined operation is \<open>None\<close> or
  \<open>Invalid_access\<close>, a call of \<^verbatim>\<open>exit\<close> is \<open>Exit_code\<close>.  Memory that is copied as bytes is a list of bytes
  (\<open>Bytes\<close>).  A failing allocation, which every program here ignores or exits on, is not modelled.

  \<^bold>\<open>What is a parameter.\<close>  Code outside the repository is an argument of the definitions that use it: the values
  of symbolic objects (\<open>inputs\<close> of \<open>Klee\<close>), floating-point arithmetic (the record \<open>float_ops\<close> of \<open>Floats\<close>),
  \<^verbatim>\<open>rand\<close>, the packet capture library and the file system (functions from names to contents), \<^verbatim>\<open>qsort\<close>, of which
  only \<open>permuting\<close> is assumed (\<open>Qsort\<close>), the clock, the bytes of a \<^verbatim>\<open>double\<close>, \<^verbatim>\<open>random\<close> and \<^verbatim>\<open>drand\<close> (functions
  from the number of the draw, or inputs), and the interface of the network processor (\<open>Timestamp\<close>).  The theorems hold for all of them, under the named hypotheses; the witnesses use
  exact rational arithmetic (\<open>rat_ops\<close>).

  \<^bold>\<open>Translated P4 programs.\<close>  \<open>Prelude\<close> has commands over a global state with their outcomes and rules, \<open>Klee\<close> the
  interface of the symbolic executor.
    \<^item> \<open>Dapper_State\<close> and \<open>Dapper\<close> are \<^verbatim>\<open>dapper/dapper.c\<close> and the copies of it that the scripts run in parallel
      (\<^verbatim>\<open>dapper_parallel\<close>, \<^verbatim>\<open>assumptions\<close>): globals, header structures, parser, tables, actions, assertions.  The
      recursion of the options parser has no bound in the code; \<open>parse_tcp_options\<close> is given fuel, and
      \<open>options_parsed\<close> shows how much is enough for a well-formed list of options, \<open>options_diverge\<close> that no
      amount is for others.
    \<^item> \<open>Dapper_Correct\<close>: the assertions hold for every packet and every choice of tables, the headers are kept,
      and what happens to packets with TTL 0 and to the options.  \<open>Dapper_Split\<close>: the parallel copies have
      together exactly the behaviours of the program they divide.
    \<^item> \<open>Stag\<close> and \<open>Stag_Correct\<close>: the same for \<^verbatim>\<open>stag/stag.c\<close>, with the function it computes on every packet.

  \<^bold>\<open>SketchLearn\<close> reads packet traces, cuts them into intervals, counts the flows of every interval exactly and in
  a sketch, and infers the large flows from the sketch.  The parts, in the order of the data:
    \<^item> \<open>Packet\<close>, \<open>Packet_Correct\<close> (\<^verbatim>\<open>packet.c\<close>): the decoder with its statistics and checksum; it is total on buffers
      of 80 bytes, inverts an encoder, and the checksum is the one's complement sum.
    \<^item> \<open>Trace\<close>, \<open>Trace_Correct\<close> (\<^verbatim>\<open>adapter_dir.c\<close>, \<^verbatim>\<open>trace_preprocess.c\<close>, \<^verbatim>\<open>adapter_record_ram.c\<close>): from capture files to
      the records of the valid packets, and the record file in memory.
    \<^item> \<open>Ringbuffer\<close> (\<^verbatim>\<open>ringbuffer.c\<close>): the lock-free queue between threads.  The locale \<open>channel\<close> is its interface:
      first in, first out, no deadlock, and what a flush publishes.
    \<^item> \<open>Driver\<close>, \<open>Driver_Correct\<close> (the two threads of \<^verbatim>\<open>true_flows.c\<close> and \<^verbatim>\<open>dp_simulate.c\<close>): a step relation with one
      step for each access to the ring buffer or the semaphore.  Every reachable state satisfies \<open>driver_inv\<close>,
      which relates it to the messages sent and handled; steps that change the state lower \<open>driver_measure\<close>, and
      only the final state has no such step.  The locale \<open>handler_thread\<close> is what the driver needs of a handler.
    \<^item> \<open>Intervals\<close>: the loop of the handlers (\<open>on_tuple\<close>), the segments of a trace and when they are its
      intervals, and the locale \<open>interval_writer\<close> for programs that write a file for every interval.
      \<open>Flows\<close> (\<^verbatim>\<open>true_flows.c\<close>) and \<open>Sketches\<close> (\<^verbatim>\<open>dp_simulate.c\<close>) interpret it with their handlers and get the
      contents of their files under every interleaving.  \<open>Ovs\<close> (\<^verbatim>\<open>dp_ovs.c\<close>): what the data plane behind Open vSwitch
      sends to its threads, and what they write; its intervals grow and its sketches are empty.
    \<^item> \<open>Key_Table\<close>, \<open>Key_Table_Correct\<close> (\<^verbatim>\<open>alg_keytbl.c\<close>): the table of flows is a finite map of counters (locale
      \<open>counter_table\<close>) until one of its lists is full, where the program exits.  \<open>Tuple_Text\<close>: its text files,
      with the conversions of \<^verbatim>\<open>printf\<close>, \<^verbatim>\<open>sscanf\<close> and \<^verbatim>\<open>fgets\<close>, printed and read back.  \<open>Key_Table_Files\<close>: the binary
      file, which holds every key with its counter, and the files of bounds, whose lower bounds are summed.
    \<^item> \<open>Hash_Table\<close>, \<open>Hash_Table_Correct\<close> (\<^verbatim>\<open>hash_table.c\<close>): the chained table on an explicit heap of entries (locale
      \<open>slot_table\<close>).  Its loops over links are partial functions, and the theorems show that they end.
    \<^item> \<open>Hash\<close>, \<open>Int_Prime\<close> (\<^verbatim>\<open>hash.c\<close>): the polynomial hash, the byte permutation and its inverse, seeds, and the
      next prime, whose loop ends because \<^verbatim>\<open>INT_MAX\<close> is prime.
    \<^item> \<open>Sketch\<close>, \<open>Sketch_Merge\<close>, \<open>Sketch_Serial\<close>, \<open>Sketch_Text\<close> (\<^verbatim>\<open>alg_sketchlearn.c\<close>): the sketch, what its counters
      hold after a stream of updates, merging and subtracting sketches, and the binary and the text form.
      \<open>Sketch_Query\<close> has the queries, \<open>Sketch_Estimate\<close> the bounds of the estimates, \<open>Sketch_Identify\<close> what the search
      for large flows returns.
    \<^item> \<open>Controller\<close>, \<open>Controller_Correct\<close> (\<^verbatim>\<open>controller.c\<close>): the extraction of the large flows of an interval.  The loops
      have fuel; \<open>detect_terminates\<close> shows that ten rounds for every list of the key table and one more are enough for
      \<^verbatim>\<open>detect_with_thresh\<close>, because every round but the last adds a key to the table, and \<open>inference_residual\<close> that three
      thresholds are for \<^verbatim>\<open>do_inference\<close>.  The relation \<open>extracts\<close> has one rule for each round: the flows that are removed from
      the sketch are exactly those that were detected in it.  What is left is what was there less the removed flows
      (\<open>residual\<close>), which is the sketch of the other flows when the sizes are exact (\<open>remove_large_exact\<close>).  \<open>Controller_Example\<close> has a
      sketch with one flow, which both functions find and which the inference removes.  \<open>Config\<close> (\<^verbatim>\<open>config.c\<close>) has the
      settings that the programs read.
    \<^item> \<open>Sketch_Dist\<close>: the tables of the flows of every bucket, which agree with the counters of the sketch, and the
      matrix of \<^verbatim>\<open>SKL_GetMatrix\<close>, whose rows overlap.

  \<^bold>\<open>NDP simulator.\<close>  Sources, queues, pipes and sinks are called for packets and for events.  Times and sequence
  numbers are natural numbers (64 bits in the code); the size of a packet, windows in bytes and times in the queue of a host are cut
  to their widths.  An assertion that fails is \<open>None\<close>, and the theorems show that none does, or which one.
    \<^item> \<open>Ndp_Event\<close> (\<^verbatim>\<open>eventlist.cpp\<close>): the event list, with the locale \<open>event_handler\<close> for what handlers keep.
      \<open>Ndp_Net\<close> (\<^verbatim>\<open>network.cpp\<close>, \<^verbatim>\<open>route.cpp\<close>, \<^verbatim>\<open>ndppacket.h\<close>): packets, routes, and the return to the sender.
    \<^item> \<open>Ndp_Device\<close> (\<^verbatim>\<open>pipe.cpp\<close>): devices on an event list as a step relation \<open>dev_reach\<close>; the locale \<open>device\<close> turns an
      invariant into facts about all reachable states: that the event that is due is handled, and that whatever arrives then is
      handled too (\<open>accepts\<close>).  Every queue below is an interpretation of it; \<open>lossless_setup\<close> is the lossless queue with
      or without thresholds.
      \<open>Ndp_Queue\<close> (FIFO), \<open>Ndp_Pause\<close> (\<^verbatim>\<open>queue_lossless.cpp\<close>, \<^verbatim>\<open>ecnqueue.cpp\<close>), \<open>Ndp_Host\<close> (three priorities, of
      \<^verbatim>\<open>queue.cpp\<close>), \<open>Ndp_Composite\<close> (\<^verbatim>\<open>compositequeue.cpp\<close>, the queue of a switch that cuts packets to headers, and
      \<^verbatim>\<open>cpqueue.cpp\<close>): order, conservation of packets, capacity, speed, and where an assertion can fail.  The queues of a host and the marking
      queue are correct without pause frames, and fail when they are stopped and released while they send.
    \<^item> \<open>Ndp_Pull\<close> (\<^verbatim>\<open>fairpullqueue.cpp\<close>): the two queues of pulls, which both satisfy the locale \<open>pull_queue\<close>; the loop of
      the fair one (\<open>find_turn\<close>, a partial function) ends because a flow that is not empty comes in the order of the turns.
      \<open>Ndp_Pacer\<close>: the pacer that grants pulls at the speed of the link until pulls are released, which doubles its pace.
    \<^item> \<open>Ndp_Paths\<close>, \<open>Ndp_Sink\<close>, \<open>Ndp_Reassembly\<close> (\<^verbatim>\<open>ndp.cpp\<close>): the random permutation of paths, the receiver, and its
      refinement of the set of packets that have arrived.
    \<^item> \<open>Ndp_Src\<close>, \<open>Ndp_Sender\<close> (\<^verbatim>\<open>ndp.cpp\<close>): the sender, its invariant over all feedback, cumulative pulls, and sender and
      receiver together (\<open>sender_to_receiver\<close>).  Its loops are the partial functions \<open>first_window\<close>, which ends because
      every round sends a packet, and \<open>avoid_bad\<close>, for which \<open>pull_based_choice\<close> says when it ends.  \<open>Ndp_Timer\<close>: the scanner of
      timeouts, and what a timeout sends.

  \<^bold>\<open>Plugin.\<close>  \<open>Timestamp\<close>: the six plugin functions of NetPaxos and what they record, with the carry between the
  two halves of the clock.

  \<^bold>\<open>Not modelled.\<close>  Of SketchLearn: the settings of \<^verbatim>\<open>config.c\<close> for algorithms that are not in the repository, the
  text of the controller's reports and its statistics of missed flows, opening the record file in \<^verbatim>\<open>trace_preprocess.c\<close>, and thread affinity (\<^verbatim>\<open>cpu.c\<close>).
  Races inside one operation of the ring buffer: operations of the two threads are steps of their own, so that the ordering of single loads and stores is outside the model.  The Open vSwitch
  fork under \<^verbatim>\<open>sketchlearn/openvswitch\<close> is a program of another project.  Of the NDP simulator: the sources and sinks of
  the other protocols, the remaining queues, switches, loggers, topologies and main programs; two devices that call each
  other are only composed through the packets between them (\<open>arrives\<close>, \<open>comes_back\<close>), which may be lost, trimmed, returned and
  reordered.  The assertions of \<^verbatim>\<open>Packet::sendOn\<close> are those of \<open>sendOn\<close> of \<open>Ndp_Net\<close>; the queues only say which packet they
  send.  The NetFPGA tools are register accesses; the remaining programs are not C.
\<close>

end
